(* ===== verification/Prelude.thy ===== *)
theory Prelude
  imports Complex_Main "HOL-Library.Multiset" "HOL-Library.Product_Lexorder"
begin

text \<open>
  The prelude: what the component theories share.  It fixes the types of the model
  (seconds, milliseconds, time windows), the parts of Python's arithmetic and string
  library that the code calls (\<open>int()\<close>, \<open>round()\<close>, \<open>str.lower\<close>, \<open>str.strip\<close>,
  \<open>str.split\<close>, \<open>in\<close>), and the theory of lists of half-open time windows on which every
  cutting component rests: the set of instants a list covers, separated lists, and one
  reference merge with its laws.
\<close>

named_theorems window_simps \<open>unfolding rules for lists of windows\<close>
named_theorems py_simps \<open>evaluation of the modelled Python primitives\<close>

type_synonym seconds = real
type_synonym millis = int
type_synonym 'a window = "'a \<times> 'a"

section \<open>Python numbers\<close>

text \<open>
  A Python float is modelled by the real number it stands for, so float operations are exact
  here.  \<open>int(x)\<close> truncates towards zero and \<open>round(x)\<close> rounds half to even.
\<close>

definition py_int :: "real \<Rightarrow> int" where
  "py_int x = (if 0 \<le> x then \<lfloor>x\<rfloor> else \<lceil>x\<rceil>)"

definition py_round :: "real \<Rightarrow> int" where
  "py_round x = (let n = \<lfloor>x\<rfloor>; d = x - of_int n in
     if d < 1 / 2 then n else if 1 / 2 < d then n + 1 else if even n then n else n + 1)"

lemma py_int_of_int [simp]: "py_int (of_int n) = n"
  by (simp add: py_int_def)

lemma py_int_mono:
  assumes "x \<le> y"
  shows "py_int x \<le> py_int y"
proof (cases "x < 0 \<and> 0 \<le> y")
  case True
  then have "\<lceil>x\<rceil> \<le> 0" "0 \<le> \<lfloor>y\<rfloor>" by (simp_all add: ceiling_le_iff)
  then have "\<lceil>x\<rceil> \<le> \<lfloor>y\<rfloor>" by (rule order_trans)
  with True show ?thesis by (simp add: py_int_def)
next
  case False
  with assms show ?thesis by (auto simp: py_int_def floor_mono ceiling_mono)
qed

lemma py_round_of_int [simp]: "py_round (of_int n) = n"
  by (simp add: py_round_def)

lemma py_round_bounds: "x - 1 / 2 \<le> of_int (py_round x) \<and> of_int (py_round x) \<le> x + 1 / 2"
proof -
  have "of_int \<lfloor>x\<rfloor> \<le> x" "x < of_int \<lfloor>x\<rfloor> + 1" by linarith+
  then show ?thesis unfolding py_round_def Let_def by (simp split: if_splits) linarith
qed

lemma py_round_floor: "\<lfloor>x\<rfloor> \<le> py_round x" "py_round x \<le> \<lfloor>x\<rfloor> + 1"
  by (simp_all add: py_round_def Let_def)

lemma py_round_mono:
  assumes "x \<le> y"
  shows "py_round x \<le> py_round y"
proof (cases "\<lfloor>x\<rfloor> = \<lfloor>y\<rfloor>")
  case True
  with assms show ?thesis by (simp add: py_round_def Let_def)
next
  case False
  with floor_mono [OF assms] have "\<lfloor>x\<rfloor> + 1 \<le> \<lfloor>y\<rfloor>" by simp
  with py_round_floor(2) [of x] py_round_floor(1) [of y] show ?thesis by linarith
qed

lemma py_round_nonneg: "0 \<le> x \<Longrightarrow> 0 \<le> py_round x"
  using py_round_mono [of 0 x] py_round_of_int [of 0] by simp

section \<open>Lists of windows\<close>

text \<open>The instants a list of half-open windows \<open>[start, end)\<close> covers.\<close>

definition cover :: "('a::linorder) window list \<Rightarrow> 'a set" where
  "cover ws = (\<Union>w\<in>set ws. {fst w..<snd w})"

definition proper :: "('a::linorder) window list \<Rightarrow> bool" where
  "proper ws \<longleftrightarrow> (\<forall>w\<in>set ws. fst w \<le> snd w)"

text \<open>Windows in order, each starting more than \<open>g\<close> after every earlier one has ended.\<close>

definition separated :: "'a::linordered_idom \<Rightarrow> 'a window list \<Rightarrow> bool" where
  "separated g ws \<longleftrightarrow> proper ws \<and> sorted_wrt (\<lambda>v w. snd v + g < fst w) ws"

lemma cover_Nil [simp]: "cover [] = {}"
  by (simp add: cover_def)

lemma cover_Cons [simp]: "cover (w # ws) = {fst w..<snd w} \<union> cover ws"
  by (simp add: cover_def)

lemma cover_append [simp]: "cover (vs @ ws) = cover vs \<union> cover ws"
  by (auto simp: cover_def)

lemma cover_cong: "set vs = set ws \<Longrightarrow> cover vs = cover ws"
  by (simp add: cover_def)

lemma proper_Nil [simp]: "proper []"
  by (simp add: proper_def)

lemma proper_Cons [simp]: "proper (w # ws) \<longleftrightarrow> fst w \<le> snd w \<and> proper ws"
  by (simp add: proper_def)

lemma separated_Nil [simp]: "separated g []"
  by (simp add: separated_def)

lemma separated_Cons:
  "separated g (w # ws) \<longleftrightarrow> fst w \<le> snd w \<and> (\<forall>v\<in>set ws. snd w + g < fst v) \<and> separated g ws"
  by (auto simp: separated_def)

lemma separated_proper: "separated g ws \<Longrightarrow> proper ws"
  by (simp add: separated_def)

lemma separated_sorted_fst:
  assumes "separated g ws" and "0 \<le> g"
  shows "sorted (map fst ws)"
  using assms
proof (induction ws)
  case (Cons w ws)
  then have "\<forall>v\<in>set ws. fst w \<le> fst v"
    by (force simp: separated_Cons)
  with Cons show ?case by (auto simp: separated_Cons)
qed simp

lemma separated_mono: "separated g ws \<Longrightarrow> h \<le> g \<Longrightarrow> separated h ws"
proof (induction ws)
  case (Cons w ws)
  then show ?case by (force simp: separated_Cons)
qed simp

lemma separated_cases:
  assumes "separated g ws" and "v \<in> set ws" and "w \<in> set ws"
  obtains "v = w" | "snd v + g < fst w" | "snd w + g < fst v"
  using assms by (induction ws) (auto simp: separated_Cons)

lemma separated_append:
  "separated g (vs @ ws) \<longleftrightarrow> separated g vs \<and> separated g ws \<and> (\<forall>v\<in>set vs. \<forall>w\<in>set ws. snd v + g < fst w)"
  by (auto simp: separated_def sorted_wrt_append proper_def)

section \<open>The reference merge\<close>

text \<open>
  One window is open at a time; a window that starts at most \<open>g\<close> after the open one's end is
  absorbed, otherwise the open one is emitted.  The code's five merge routines are proved
  equal to this function on the windows they sort and keep.
\<close>

fun merge_runs :: "'a::linordered_idom \<Rightarrow> 'a \<Rightarrow> 'a \<Rightarrow> 'a window list \<Rightarrow> 'a window list" where
  "merge_runs g cs ce [] = [(cs, ce)]"
| "merge_runs g cs ce (w # ws) =
     (if fst w \<le> ce + g then merge_runs g cs (max ce (snd w)) ws
      else (cs, ce) # merge_runs g (fst w) (snd w) ws)"

definition merge_sorted :: "'a::linordered_idom \<Rightarrow> 'a window list \<Rightarrow> 'a window list" where
  "merge_sorted g ws = (case ws of [] \<Rightarrow> [] | w # ws' \<Rightarrow> merge_runs g (fst w) (snd w) ws')"

lemma merge_sorted_Nil [simp]: "merge_sorted g [] = []"
  by (simp add: merge_sorted_def)

lemma merge_sorted_Cons [simp]: "merge_sorted g (w # ws) = merge_runs g (fst w) (snd w) ws"
  by (simp add: merge_sorted_def)

lemma merge_runs_not_Nil [simp]: "merge_runs g cs ce ws \<noteq> []"
  by (induction ws arbitrary: cs ce) auto

lemma merge_runs_starts:
  "m \<in> set (merge_runs g cs ce ws) \<Longrightarrow> fst m = cs \<or> fst m \<in> fst ` set ws"
  by (induction ws arbitrary: cs ce) (auto split: if_splits)

lemma merge_runs_ends:
  "m \<in> set (merge_runs g cs ce ws) \<Longrightarrow> snd m = ce \<or> snd m \<in> snd ` set ws"
proof (induction ws arbitrary: cs ce)
  case (Cons w ws)
  show ?case
  proof (cases "fst w \<le> ce + g")
    case True
    with Cons.prems have "m \<in> set (merge_runs g cs (max ce (snd w)) ws)" by simp
    from Cons.IH [OF this] show ?thesis by (cases "ce \<le> snd w") (auto simp: max_def)
  next
    case False
    with Cons.prems Cons.IH [of "fst w" "snd w"] show ?thesis by auto
  qed
qed simp

lemma merge_runs_first_covered: "\<exists>m\<in>set (merge_runs g cs ce ws). fst m = cs \<and> ce \<le> snd m"
proof (induction ws arbitrary: cs ce)
  case (Cons w ws)
  then obtain m where "m \<in> set (merge_runs g cs (max ce (snd w)) ws)" "fst m = cs"
    "max ce (snd w) \<le> snd m" by blast
  then show ?case by auto
qed simp

lemma merge_runs_covered:
  assumes "w \<in> set ws" and "sorted (map fst ws)" and "\<forall>v\<in>set ws. cs \<le> fst v"
  shows "\<exists>m\<in>set (merge_runs g cs ce ws). fst m \<le> fst w \<and> snd w \<le> snd m"
  using assms
proof (induction ws arbitrary: cs ce)
  case (Cons v ws)
  show ?case
  proof (cases "fst v \<le> ce + g")
    case True
    show ?thesis
    proof (cases "w = v")
      case eq: True
      obtain m where "m \<in> set (merge_runs g cs (max ce (snd v)) ws)" "fst m = cs"
        "max ce (snd v) \<le> snd m" using merge_runs_first_covered by blast
      with True eq Cons.prems show ?thesis by (intro bexI [of _ m]) auto
    next
      case False
      with Cons.prems Cons.IH [of cs "max ce (snd v)"] True show ?thesis by simp
    qed
  next
    case False
    show ?thesis
    proof (cases "w = v")
      case eq: True
      obtain m where "m \<in> set (merge_runs g (fst v) (snd v) ws)" "fst m = fst v"
        "snd v \<le> snd m" using merge_runs_first_covered by blast
      with False eq show ?thesis by (intro bexI [of _ m]) auto
    next
      case neq: False
      with Cons.prems have "\<exists>m\<in>set (merge_runs g (fst v) (snd v) ws). fst m \<le> fst w \<and> snd w \<le> snd m"
        by (intro Cons.IH) auto
      with False show ?thesis by auto
    qed
  qed
qed simp

lemma merge_runs_separated:
  assumes "cs \<le> ce" and "proper ws" and "sorted (map fst ws)" and "\<forall>v\<in>set ws. cs \<le> fst v" and "0 \<le> g"
  shows "separated g (merge_runs g cs ce ws)"
  using assms
proof (induction ws arbitrary: cs ce)
  case (Cons w ws)
  show ?case
  proof (cases "fst w \<le> ce + g")
    case True
    with Cons show ?thesis by (simp add: le_max_iff_disj)
  next
    case False
    from Cons.prems have sep: "separated g (merge_runs g (fst w) (snd w) ws)"
      by (intro Cons.IH) auto
    have "ce + g < fst m" if "m \<in> set (merge_runs g (fst w) (snd w) ws)" for m
      using merge_runs_starts [OF that] False Cons.prems(3) by force
    with False sep Cons.prems(1) show ?thesis by (auto simp: separated_Cons)
  qed
qed (simp add: separated_Cons)

lemma merge_runs_cover:
  assumes "cs \<le> ce" and "proper ws" and "sorted (map fst ws)" and "\<forall>v\<in>set ws. cs \<le> fst v"
  shows "cover (merge_runs 0 cs ce ws) = {cs..<ce} \<union> cover ws"
  using assms
proof (induction ws arbitrary: cs ce)
  case (Cons w ws)
  show ?case
  proof (cases "fst w \<le> ce")
    case True
    with Cons.prems have "{cs..<max ce (snd w)} = {cs..<ce} \<union> {fst w..<snd w}" by (auto simp: max_def)
    moreover have "cover (merge_runs 0 cs (max ce (snd w)) ws) = {cs..<max ce (snd w)} \<union> cover ws"
      using Cons.prems by (intro Cons.IH) (auto simp: le_max_iff_disj)
    ultimately show ?thesis using True by (simp add: Un_assoc)
  next
    case False
    with Cons.prems Cons.IH [of "fst w" "snd w"] show ?thesis by simp
  qed
qed simp

text \<open>
  What a merge with gap \<open>g\<close> adds to the cover lies between the end of one window and the
  start of another that are at most \<open>g\<close> apart.
\<close>

definition in_small_gap :: "'a::linordered_idom \<Rightarrow> 'a window list \<Rightarrow> 'a \<Rightarrow> bool" where
  "in_small_gap g ws x \<longleftrightarrow> (\<exists>v\<in>set ws. \<exists>w\<in>set ws. snd v \<le> x \<and> x < fst w \<and> fst w \<le> snd v + g)"

lemma in_small_gap_mono: "in_small_gap g vs x \<Longrightarrow> set vs \<subseteq> set ws \<Longrightarrow> in_small_gap g ws x"
  unfolding in_small_gap_def by blast

lemma in_small_gap_replace:
  assumes "in_small_gap g ((cs, max ce e) # ws) x" and "(cs, ce) \<in> set vs" and "(s, e) \<in> set vs"
    and "set ws \<subseteq> set vs"
  shows "in_small_gap g vs x"
proof -
  from assms(1) obtain v w where vw: "v \<in> set ((cs, max ce e) # ws)" "w \<in> set ((cs, max ce e) # ws)"
    "snd v \<le> x" "x < fst w" "fst w \<le> snd v + g"
    unfolding in_small_gap_def by blast
  have "\<exists>v'\<in>set vs. snd v' = snd v"
  proof (cases "v \<in> set ws")
    case True
    with assms(4) show ?thesis by blast
  next
    case False
    with vw(1) have "snd v = ce \<or> snd v = e" by (auto simp: max_def)
    with assms(2,3) show ?thesis by (metis snd_conv)
  qed
  then obtain v' where "v' \<in> set vs" "snd v' = snd v" by blast
  moreover from vw(2) assms(2,4) obtain w' where "w' \<in> set vs" "fst w' = fst w"
    by (metis fst_conv set_ConsD subsetD)
  ultimately show ?thesis
    unfolding in_small_gap_def using vw(3-5) by (metis)
qed

lemma merge_runs_adds_only_gaps:
  assumes "x \<in> cover (merge_runs g cs ce ws)" and "x \<notin> cover ((cs, ce) # ws)"
    and "cs \<le> ce" and "\<forall>v\<in>set ws. cs \<le> fst v" and "sorted (map fst ws)" and "proper ws"
  shows "in_small_gap g ((cs, ce) # ws) x"
  using assms
proof (induction ws arbitrary: cs ce)
  case (Cons w ws)
  show ?case
  proof (cases "fst w \<le> ce + g")
    case False
    with Cons.prems have "in_small_gap g ((fst w, snd w) # ws) x"
      by (intro Cons.IH) auto
    then show ?thesis by (rule in_small_gap_mono) auto
  next
    case True
    show ?thesis
    proof (cases "x \<in> {cs..<max ce (snd w)}")
      case inside: True
      with Cons.prems(2) have "ce \<le> x" "x < fst w" by (auto simp: max_def split: if_splits)
      with True show ?thesis by (auto simp: in_small_gap_def)
    next
      case False
      with Cons.prems True have "in_small_gap g ((cs, max ce (snd w)) # ws) x"
        by (intro Cons.IH) (auto simp: le_max_iff_disj)
      then show ?thesis
        by (rule in_small_gap_replace [where s = "fst w"]) auto
    qed
  qed
qed simp

lemma merge_runs_fixpoint:
  "separated g ((cs, ce) # ws) \<Longrightarrow> merge_runs g cs ce ws = (cs, ce) # ws"
  by (induction ws arbitrary: cs ce) (auto simp: separated_Cons not_le)

lemma merge_sorted_fixpoint: "separated g ws \<Longrightarrow> merge_sorted g ws = ws"
  by (cases ws) (simp_all add: merge_runs_fixpoint)

text \<open>The laws of the reference merge on a list sorted by start.\<close>

lemma merge_sorted_covered:
  "sorted (map fst ws) \<Longrightarrow> w \<in> set ws \<Longrightarrow> \<exists>m\<in>set (merge_sorted g ws). fst m \<le> fst w \<and> snd w \<le> snd m"
proof (cases ws)
  case (Cons v vs)
  assume ws: "sorted (map fst ws)" "w \<in> set ws"
  show ?thesis
  proof (cases "w = v")
    case True
    obtain m where "m \<in> set (merge_runs g (fst v) (snd v) vs)" "fst m = fst v" "snd v \<le> snd m"
      using merge_runs_first_covered by blast
    with True Cons show ?thesis by (intro bexI [of _ m]) auto
  next
    case False
    with ws Cons merge_runs_covered [of w vs "fst v" g "snd v"] show ?thesis by simp
  qed
qed simp

lemma merge_sorted_separated:
  "sorted (map fst ws) \<Longrightarrow> proper ws \<Longrightarrow> 0 \<le> g \<Longrightarrow> separated g (merge_sorted g ws)"
  by (cases ws) (auto intro!: merge_runs_separated)

lemma merge_sorted_cover:
  "sorted (map fst ws) \<Longrightarrow> proper ws \<Longrightarrow> cover (merge_sorted 0 ws) = cover ws"
  by (cases ws) (auto simp: merge_runs_cover)

lemma merge_sorted_adds_only_gaps:
  "sorted (map fst ws) \<Longrightarrow> proper ws \<Longrightarrow> x \<in> cover (merge_sorted g ws) \<Longrightarrow> x \<notin> cover ws \<Longrightarrow>
    in_small_gap g ws x"
proof (cases ws)
  case (Cons w vs)
  assume "sorted (map fst ws)" "proper ws" "x \<in> cover (merge_sorted g ws)" "x \<notin> cover ws"
  with Cons merge_runs_adds_only_gaps [of x g "fst w" "snd w" vs] show ?thesis by simp
qed simp

lemma merge_sorted_endpoints:
  assumes "m \<in> set (merge_sorted g ws)"
  shows "fst m \<in> fst ` set ws" and "snd m \<in> snd ` set ws"
  using assms
  by (cases ws; auto dest: merge_runs_starts merge_runs_ends)+

lemma cover_subset_merge_sorted:
  assumes "sorted (map fst ws)"
  shows "cover ws \<subseteq> cover (merge_sorted g ws)"
proof
  fix x assume "x \<in> cover ws"
  then obtain w where "w \<in> set ws" "fst w \<le> x" "x < snd w" by (auto simp: cover_def)
  with merge_sorted_covered [OF assms, of w g] obtain m
    where "m \<in> set (merge_sorted g ws)" "fst m \<le> x" "x < snd m" by force
  then show "x \<in> cover (merge_sorted g ws)" by (auto simp: cover_def)
qed

text \<open>The Python idiom of the merge loops: the last element of the output list is the open one.\<close>

definition absorb_last :: "'a::linordered_idom \<Rightarrow> 'a window list \<Rightarrow> 'a window \<Rightarrow> 'a window list" where
  "absorb_last g merged w =
     (if merged = [] then [w]
      else if fst w \<le> snd (last merged) + g
      then butlast merged @ [(fst (last merged), max (snd (last merged)) (snd w))]
      else merged @ [w])"

lemma foldl_absorb_last:
  "foldl (absorb_last g) (acc @ [(cs, ce)]) ws = acc @ merge_runs g cs ce ws"
proof (induction ws arbitrary: acc cs ce)
  case (Cons w ws)
  show ?case
  proof (cases "fst w \<le> ce + g")
    case True
    with Cons [of acc cs "max ce (snd w)"] show ?thesis by (simp add: absorb_last_def)
  next
    case False
    with Cons [of "acc @ [(cs, ce)]" "fst w" "snd w"] show ?thesis by (simp add: absorb_last_def)
  qed
qed simp

lemma foldl_absorb_last_Nil: "foldl (absorb_last g) [] ws = merge_sorted g ws"
proof (cases ws)
  case (Cons w ws')
  then show ?thesis
    using foldl_absorb_last [of g "[]" "fst w" "snd w" ws'] by (simp add: absorb_last_def)
qed simp

text \<open>Lexicographically sorted pairs are sorted by start.\<close>

lemma sorted_map_fst_sort: "sorted (map fst (sort (ws :: ('a::linorder \<times> 'b::linorder) list)))"
proof -
  have "sorted (sort ws)" by simp
  then have "sorted_wrt (\<lambda>x y. fst x \<le> fst y) (sort ws)"
    by (rule sorted_wrt_mono_rel [rotated]) (auto simp: less_eq_prod_def)
  then show ?thesis by (simp add: sorted_map)
qed

lemma sorted_map_fst_sort_key [simp]: "sorted (map fst (sort_key fst ws))"
  by simp

lemma proper_filter: "proper (filter (\<lambda>w. fst w < snd w) ws)"
  by (auto simp: proper_def)

lemma proper_sort_key [simp]: "proper (sort_key f ws) = proper ws"
  by (simp add: proper_def)

lemma cover_sort_key [simp]: "cover (sort_key f ws) = cover ws"
  by (simp add: cover_def)

section \<open>Searching lists\<close>

lemma find_append: "find p (xs @ ys) = (case find p xs of None \<Rightarrow> find p ys | Some x \<Rightarrow> Some x)"
  by (induction xs) auto

end
