(* ===== verification/PyString.thy ===== *)
theory PyString
  imports Prelude
begin

text \<open>
  The Python string operations the code calls, on lists of characters.  The model covers
  strings of ASCII characters: \<open>str.lower\<close> maps \<open>A\<close>--\<open>Z\<close>, \<open>str.strip\<close> removes the ASCII
  white space of \<open>str.isspace\<close>.
\<close>

definition lower_char :: "char \<Rightarrow> char" where
  "lower_char c = (let n = of_char c :: nat in if 65 \<le> n \<and> n \<le> 90 then char_of (n + 32) else c)"

definition py_lower :: "string \<Rightarrow> string" where
  "py_lower s = map lower_char s"

definition py_space :: "char \<Rightarrow> bool" where
  "py_space c = (let n = of_char c :: nat in n = 32 \<or> (9 \<le> n \<and> n \<le> 13) \<or> (28 \<le> n \<and> n \<le> 31))"

definition py_lstrip :: "string \<Rightarrow> string" where
  "py_lstrip s = dropWhile py_space s"

definition py_rstrip :: "string \<Rightarrow> string" where
  "py_rstrip s = rev (dropWhile py_space (rev s))"

definition py_strip :: "string \<Rightarrow> string" where
  "py_strip s = py_rstrip (py_lstrip s)"

text \<open>\<open>s.replace(c, "")\<close> for a single character \<open>c\<close>.\<close>

definition remove_char :: "char \<Rightarrow> string \<Rightarrow> string" where
  "remove_char c s = filter (\<lambda>d. d \<noteq> c) s"

text \<open>\<open>s.split(c)\<close> for a single character \<open>c\<close>.\<close>

fun split_on :: "char \<Rightarrow> string \<Rightarrow> string list" where
  "split_on c [] = [[]]"
| "split_on c (d # s) =
     (if d = c then [] # split_on c s
      else case split_on c s of [] \<Rightarrow> [[d]] | w # ws \<Rightarrow> (d # w) # ws)"

definition starts_with :: "string \<Rightarrow> string \<Rightarrow> bool" where
  "starts_with p s \<longleftrightarrow> take (length p) s = p"

definition ends_with :: "string \<Rightarrow> string \<Rightarrow> bool" where
  "ends_with p s \<longleftrightarrow> starts_with (rev p) (rev s)"

text \<open>\<open>p in s\<close>.\<close>

fun str_in :: "string \<Rightarrow> string \<Rightarrow> bool" where
  "str_in p [] \<longleftrightarrow> p = []"
| "str_in p (c # s) \<longleftrightarrow> starts_with p (c # s) \<or> str_in p s"

lemma starts_with_iff: "starts_with p s \<longleftrightarrow> (\<exists>t. s = p @ t)"
  unfolding starts_with_def by (metis append_take_drop_id append_eq_conv_conj)

lemma ends_with_iff: "ends_with p s \<longleftrightarrow> (\<exists>t. s = t @ p)"
  by (simp add: ends_with_def starts_with_iff) (metis rev_append rev_rev_ident)

lemma str_in_iff: "str_in p s \<longleftrightarrow> (\<exists>a b. s = a @ p @ b)"
proof (induction s)
  case (Cons c s)
  have "(\<exists>a b. c # s = a @ p @ b) \<longleftrightarrow> (\<exists>b. c # s = p @ b) \<or> (\<exists>a b. s = a @ p @ b)"
    by (metis append_Cons append_Nil list.sel(3) tl_append2)
  with Cons show ?case by (simp add: starts_with_iff)
qed simp

lemma split_on_not_Nil [simp]: "split_on c s \<noteq> []"
  by (cases s) (auto split: list.splits)

lemma split_on_no_sep: "w \<in> set (split_on c s) \<Longrightarrow> c \<notin> set w"
  by (induction s arbitrary: w) (auto split: if_splits list.splits)

text \<open>Joining the pieces with the separator gives the string back.\<close>

fun join_with :: "string \<Rightarrow> string list \<Rightarrow> string" where
  "join_with sep [] = []"
| "join_with sep [w] = w"
| "join_with sep (w # v # ws) = w @ sep @ join_with sep (v # ws)"

lemma join_split_on: "join_with [c] (split_on c s) = s"
proof (induction s)
  case (Cons d s)
  obtain w ws where "split_on c s = w # ws" by (cases "split_on c s") auto
  with Cons show ?case by (cases ws) auto
qed simp

lemma lower_char_idem [simp]: "lower_char (lower_char c) = lower_char c"
  by (simp add: lower_char_def Let_def)

lemma py_lower_idem [simp]: "py_lower (py_lower s) = py_lower s"
  by (simp add: py_lower_def comp_def)

lemma py_lower_append: "py_lower (s @ t) = py_lower s @ py_lower t"
  by (simp add: py_lower_def)

lemma hd_py_lstrip: "py_lstrip s \<noteq> [] \<Longrightarrow> \<not> py_space (hd (py_lstrip s))"
  unfolding py_lstrip_def by (rule hd_dropWhile)

lemma last_py_rstrip: "py_rstrip s \<noteq> [] \<Longrightarrow> \<not> py_space (last (py_rstrip s))"
  using hd_dropWhile [of py_space "rev s"] by (auto simp: py_rstrip_def last_rev)

lemma py_strip_Nil_iff: "py_strip s = [] \<longleftrightarrow> (\<forall>c\<in>set s. py_space c)"
proof -
  have "py_rstrip t = [] \<longleftrightarrow> (\<forall>c\<in>set t. py_space c)" for t
    by (simp add: py_rstrip_def dropWhile_eq_Nil_conv)
  then show ?thesis
    by (auto simp: py_strip_def py_lstrip_def) (metis set_dropWhileD takeWhile_dropWhile_id set_takeWhileD Un_iff set_append)+
qed

lemmas py_string_simps =
  py_lower_def lower_char_def py_strip_def py_lstrip_def py_rstrip_def py_space_def remove_char_def
  starts_with_def ends_with_def Let_def

section \<open>Decimal notation\<close>

definition digit_of :: "nat \<Rightarrow> char" where
  "digit_of d = char_of (48 + d)"

text \<open>\<open>str(n)\<close>.\<close>

function nat_str :: "nat \<Rightarrow> string" where
  "nat_str n = (if n < 10 then [digit_of n] else nat_str (n div 10) @ [digit_of (n mod 10)])"
  by pat_completeness auto
termination by (relation "measure id") auto

declare nat_str.simps [simp del]

definition int_str :: "int \<Rightarrow> string" where
  "int_str i = (if i < 0 then ''-'' @ nat_str (nat (- i)) else nat_str (nat i))"

text \<open>The format \<open>02d\<close>.\<close>

definition two_digits :: "int \<Rightarrow> string" where
  "two_digits n = (if n < 10 then ''0'' @ int_str n else int_str n)"

text \<open>The value of a digit string.\<close>

definition digits_value :: "string \<Rightarrow> nat" where
  "digits_value s = foldl (\<lambda>n c. 10 * n + (of_char c - 48)) 0 s"

lemma of_char_digit_of [simp]: "d < 10 \<Longrightarrow> of_char (digit_of d) = 48 + d"
  by (simp add: digit_of_def)

lemma digits_value_nat_str [simp]: "digits_value (nat_str n) = n"
proof (induction n rule: nat_str.induct)
  case (1 n)
  show ?case
  proof (cases "n < 10")
    case True
    then show ?thesis by (simp add: nat_str.simps [of n] digits_value_def)
  next
    case False
    with 1 have "digits_value (nat_str (n div 10)) = n div 10" by simp
    with False show ?thesis
      by (simp add: nat_str.simps [of n] digits_value_def foldl_append)
  qed
qed

lemma nat_str_inj [simp]: "nat_str m = nat_str n \<longleftrightarrow> m = n"
  by (metis digits_value_nat_str)

lemma nat_str_digits: "c \<in> set (nat_str n) \<Longrightarrow> \<exists>d<10. c = digit_of d"
proof (induction n rule: nat_str.induct)
  case (1 n)
  have last: "\<exists>d<10. digit_of (n mod 10) = digit_of d" by (rule exI [of _ "n mod 10"]) simp
  show ?case
  proof (cases "n < 10")
    case False
    with 1(2) have "c \<in> set (nat_str (n div 10)) \<or> c = digit_of (n mod 10)"
      by (simp add: nat_str.simps [of n]) blast
    with 1(1) [OF False] last show ?thesis by blast
  qed (use 1(2) in \<open>auto simp: nat_str.simps [of n]\<close>)
qed

lemma nat_str_not_Nil [simp]: "nat_str n \<noteq> []"
  by (cases "n < 10") (simp_all add: nat_str.simps [of n])

end
