(* ===== verification/WindowMerge.thy ===== *)
theory WindowMerge
  imports PyString
begin

text \<open>
  The interface every merge of time windows offers to the cutting code.  The program has five
  such routines (audio windows, chapter offsets, bleep zones, profanity windows and the
  cutter's own); each keeps some of its input, sorts it and closes gaps up to some length.
  What the callers rely on is stated once, as the laws of a locale, and the callers' facts
  are proved from the laws.
\<close>

locale window_merger =
  fixes mrg :: "'w list \<Rightarrow> ('a::linordered_idom) window list"
    and kept :: "'w list \<Rightarrow> 'a window list"
    and g :: 'a
  assumes gap_nonneg: "0 \<le> g"
    and mrg_separated: "separated g (mrg ws)"
    and mrg_covers: "w \<in> set (kept ws) \<Longrightarrow> \<exists>m\<in>set (mrg ws). fst m \<le> fst w \<and> snd w \<le> snd m"
    and mrg_adds_gaps: "x \<in> cover (mrg ws) \<Longrightarrow> x \<notin> cover (kept ws) \<Longrightarrow> in_small_gap g (kept ws) x"
    and mrg_start: "m \<in> set (mrg ws) \<Longrightarrow> fst m \<in> fst ` set (kept ws)"
    and mrg_end: "m \<in> set (mrg ws) \<Longrightarrow> snd m \<in> snd ` set (kept ws)"
begin

lemma kept_subset: "cover (kept ws) \<subseteq> cover (mrg ws)"
proof
  fix x assume "x \<in> cover (kept ws)"
  then obtain w where "w \<in> set (kept ws)" "fst w \<le> x" "x < snd w" by (auto simp: cover_def)
  with mrg_covers [of w ws] obtain m where "m \<in> set (mrg ws)" "fst m \<le> x" "x < snd m" by force
  then show "x \<in> cover (mrg ws)" by (auto simp: cover_def)
qed

lemma mrg_sorted: "sorted (map fst (mrg ws))"
  using separated_sorted_fst [OF mrg_separated gap_nonneg] .

lemma mrg_proper: "proper (mrg ws)"
  using separated_proper [OF mrg_separated] .

lemma mrg_Nil_iff: "mrg ws = [] \<longleftrightarrow> kept ws = []"
proof
  assume "mrg ws = []"
  then show "kept ws = []" using mrg_covers [of "hd (kept ws)" ws] by (cases "kept ws") auto
next
  assume "kept ws = []"
  then show "mrg ws = []" using mrg_start [of "hd (mrg ws)" ws] by (cases "mrg ws") auto
qed

lemma mrg_nonempty:
  assumes "\<And>w. w \<in> set (kept ws) \<Longrightarrow> fst w < snd w" and m: "m \<in> set (mrg ws)"
  shows "fst m < snd m"
proof -
  from mrg_start [OF m] obtain w where w: "w \<in> set (kept ws)" "fst w = fst m" by force
  from mrg_covers [OF w(1)] obtain n where n: "n \<in> set (mrg ws)" "fst n \<le> fst w" "snd w \<le> snd n"
    by blast
  from mrg_separated m n(1) show ?thesis
  proof (cases rule: separated_cases)
    case 1
    with n w assms(1) [OF w(1)] show ?thesis by simp
  next
    case 2
    with n w mrg_proper m gap_nonneg have "fst m \<le> snd m" by (simp add: proper_def)
    with 2 n w gap_nonneg show ?thesis by simp
  next
    case 3
    with n w assms(1) [OF w(1)] gap_nonneg show ?thesis by simp
  qed
qed

text \<open>An instant near a merged window is near one of the windows that were merged.\<close>

lemma mrg_near_kept:
  assumes m: "m \<in> set (mrg ws)" and x: "fst m - t \<le> x" "x \<le> snd m + u"
    and tu: "0 \<le> t" "g \<le> u" and proper: "proper (kept ws)"
  shows "\<exists>w\<in>set (kept ws). fst w - t \<le> x \<and> x \<le> snd w + u"
proof -
  have le: "fst w \<le> snd w" if "w \<in> set (kept ws)" for w
    using proper that by (auto simp: proper_def)
  consider "x < fst m" | "snd m \<le> x" | "fst m \<le> x" "x < snd m" by linarith
  then show ?thesis
  proof cases
    case 1
    from mrg_start [OF m] obtain w where w: "w \<in> set (kept ws)" "fst w = fst m" by force
    with 1 x(1) le [OF w(1)] tu gap_nonneg show ?thesis by (intro bexI [of _ w]) auto
  next
    case 2
    from mrg_end [OF m] obtain w where w: "w \<in> set (kept ws)" "snd w = snd m" by force
    with 2 x(2) le [OF w(1)] tu show ?thesis by (intro bexI [of _ w]) auto
  next
    case 3
    with m have "x \<in> cover (mrg ws)" by (auto simp: cover_def)
    then consider "x \<in> cover (kept ws)" | "in_small_gap g (kept ws) x"
      using mrg_adds_gaps by blast
    then show ?thesis
    proof cases
      case 1
      then obtain w where "w \<in> set (kept ws)" "fst w \<le> x" "x < snd w" by (auto simp: cover_def)
      with tu gap_nonneg show ?thesis by (intro bexI [of _ w]) auto
    next
      case 2
      then obtain v w where "v \<in> set (kept ws)" "snd v \<le> x" "x < fst w" "fst w \<le> snd v + g"
        by (auto simp: in_small_gap_def)
      with tu le [of v] show ?thesis by (intro bexI [of _ v]) auto
    qed
  qed
qed

lemma mrg_lower_bound:
  assumes "\<And>w. w \<in> set (kept ws) \<Longrightarrow> lo \<le> fst w" and "m \<in> set (mrg ws)"
  shows "lo \<le> fst m"
  using mrg_start [OF assms(2)] assms(1) by force

lemma mrg_upper_bound:
  assumes "\<And>w. w \<in> set (kept ws) \<Longrightarrow> snd w \<le> hi" and "m \<in> set (mrg ws)"
  shows "snd m \<le> hi"
  using mrg_end [OF assms(2)] assms(1) by force

end

text \<open>With gap 0 a merge changes the representation only: the same instants are covered.\<close>

locale exact_merger = window_merger mrg kept 0
  for mrg :: "'w list \<Rightarrow> ('a::linordered_idom) window list"
    and kept :: "'w list \<Rightarrow> 'a window list" +
  assumes kept_proper: "proper (kept ws)"
begin

lemma no_gap: "\<not> in_small_gap 0 (kept ws) x"
  by (auto simp: in_small_gap_def)

lemma mrg_cover: "cover (mrg ws) = cover (kept ws)"
  using kept_subset mrg_adds_gaps no_gap by blast

end

text \<open>Any routine that equals the reference merge on a sorted proper list is a window merger.\<close>

lemma merge_sorted_window_merger:
  fixes mrg :: "'w list \<Rightarrow> ('a::linordered_idom) window list"
  assumes "0 \<le> g"
    and "\<And>ws. mrg ws = merge_sorted g (kept ws)"
    and "\<And>ws. sorted (map fst (kept ws))" and "\<And>ws. proper (kept ws)"
  shows "window_merger mrg kept g"
proof
  fix ws w x m
  show "separated g (mrg ws)"
    using assms by (simp add: merge_sorted_separated)
  show "w \<in> set (kept ws) \<Longrightarrow> \<exists>m\<in>set (mrg ws). fst m \<le> fst w \<and> snd w \<le> snd m"
    using assms by (simp add: merge_sorted_covered)
  show "x \<in> cover (mrg ws) \<Longrightarrow> x \<notin> cover (kept ws) \<Longrightarrow> in_small_gap g (kept ws) x"
    using assms by (simp add: merge_sorted_adds_only_gaps)
  show "m \<in> set (mrg ws) \<Longrightarrow> fst m \<in> fst ` set (kept ws)"
    and "m \<in> set (mrg ws) \<Longrightarrow> snd m \<in> snd ` set (kept ws)"
    using assms(2) [of ws] by (metis merge_sorted_endpoints(1), metis merge_sorted_endpoints(2))
qed (fact assms(1))

end
