(* ===== verification/AudioWindows.thy ===== *)
theory AudioWindows
  imports WindowMerge
begin

text \<open>
  \<open>src/shared/audio_segment_utils.py\<close>: the music and silence windows an audio segmenter
  found (a list of labelled segments) and their use to bridge two ads that only such audio
  separates, and to pull the first ad back to the start of the episode.

  A segment's label and times are nullable columns, hence options.  Theorems: the merge is
  an instance of the merger interface, bridging only cuts audio the segmenter accounts for,
  and edge expansion changes the first window's start only.
\<close>

record audio_segment =
  label :: "string option"
  seg_start :: "seconds option"
  seg_end :: "seconds option"

definition PROMPT_AUDIO_LABELS :: "(string \<times> string) list" where
  "PROMPT_AUDIO_LABELS = [(''music'', ''MUSIC''), (''silence'', ''SILENCE''), (''noenergy'', ''NOENERGY'')]"

definition BRIDGEABLE_AUDIO_LABELS :: "string list" where
  "BRIDGEABLE_AUDIO_LABELS = [''music'', ''silence'', ''noenergy'']"

definition EDGE_EXPANSION_AUDIO_LABELS :: "string list" where
  "EDGE_EXPANSION_AUDIO_LABELS = [''music'', ''silence'', ''noenergy'', ''speech'']"

definition EDGE_AUDIO_COVERAGE_TOLERANCE_SECONDS :: seconds where
  "EDGE_AUDIO_COVERAGE_TOLERANCE_SECONDS = 3 / 4"

definition EPISODE_EDGE_EXPANSION_WINDOW_SECONDS :: seconds where
  "EPISODE_EDGE_EXPANSION_WINDOW_SECONDS = 30"

definition normalize_audio_segment_label :: "string option \<Rightarrow> string option" where
  "normalize_audio_segment_label l = (case l of None \<Rightarrow> None | Some s \<Rightarrow>
     let normalized = py_strip s in
     if normalized = [] then None else Some (py_lower (remove_char CHR ''_'' normalized)))"

definition prompt_audio_marker_label :: "string option \<Rightarrow> string option" where
  "prompt_audio_marker_label l = (case normalize_audio_segment_label l of
     None \<Rightarrow> None | Some n \<Rightarrow> map_of PROMPT_AUDIO_LABELS n)"

text \<open>\<open>_merge_time_windows\<close>: keep the non-empty windows, sort them by start, merge them.\<close>

definition nonempty_windows :: "seconds window list \<Rightarrow> seconds window list" where
  "nonempty_windows windows = filter (\<lambda>w. snd w > fst w) windows"

fun merge_time_windows_loop ::
  "seconds \<Rightarrow> seconds window list \<Rightarrow> seconds \<Rightarrow> seconds \<Rightarrow> seconds window list \<Rightarrow> seconds window list" where
  "merge_time_windows_loop gap merged current_start current_end [] = merged @ [(current_start, current_end)]"
| "merge_time_windows_loop gap merged current_start current_end ((start_time, end_time) # rest) =
     (if start_time \<le> current_end + gap
      then merge_time_windows_loop gap merged current_start (max current_end end_time) rest
      else merge_time_windows_loop gap (merged @ [(current_start, current_end)]) start_time end_time rest)"

definition merge_time_windows :: "seconds \<Rightarrow> seconds window list \<Rightarrow> seconds window list" where
  "merge_time_windows gap_seconds windows =
     (let parsed = nonempty_windows windows in
      case sort_key fst parsed of
        [] \<Rightarrow> []
      | (current_start, current_end) # rest \<Rightarrow>
          merge_time_windows_loop gap_seconds [] current_start current_end rest)"

definition window_of_segment :: "string list \<Rightarrow> audio_segment \<Rightarrow> seconds window option" where
  "window_of_segment allowed segment =
     (case normalize_audio_segment_label (label segment) of
        None \<Rightarrow> None
      | Some l \<Rightarrow>
          if l \<notin> set allowed then None
          else case (seg_start segment, seg_end segment) of
              (Some start_time, Some end_time) \<Rightarrow>
                if end_time \<le> start_time then None else Some (start_time, end_time)
            | _ \<Rightarrow> None)"

definition extract_audio_windows ::
  "string list option \<Rightarrow> audio_segment list \<Rightarrow> seconds window list" where
  "extract_audio_windows allowed_labels audio_segments =
     (let allowed = (case allowed_labels of
          None \<Rightarrow> BRIDGEABLE_AUDIO_LABELS
        | Some ls \<Rightarrow> if ls = [] then BRIDGEABLE_AUDIO_LABELS else ls)
      in merge_time_windows (3 / 4) (List.map_filter (window_of_segment allowed) audio_segments))"

definition extract_edge_audio_windows :: "audio_segment list \<Rightarrow> seconds window list" where
  "extract_edge_audio_windows audio_segments =
     extract_audio_windows (Some EDGE_EXPANSION_AUDIO_LABELS) audio_segments"

fun gap_coverage_loop ::
  "seconds \<Rightarrow> seconds \<Rightarrow> seconds \<Rightarrow> seconds window list \<Rightarrow> bool" where
  "gap_coverage_loop gap_end adjacency_tolerance coverage [] = False"
| "gap_coverage_loop gap_end adjacency_tolerance coverage ((audio_start, audio_end) # rest) =
     (if audio_end < coverage - adjacency_tolerance
      then gap_coverage_loop gap_end adjacency_tolerance coverage rest
      else if audio_start > coverage + adjacency_tolerance then False
      else let coverage' = max coverage audio_end in
           if coverage' \<ge> gap_end - adjacency_tolerance then True
           else gap_coverage_loop gap_end adjacency_tolerance coverage' rest)"

definition gap_is_covered_by_audio ::
  "seconds \<Rightarrow> seconds \<Rightarrow> seconds window list \<Rightarrow> seconds \<Rightarrow> bool" where
  "gap_is_covered_by_audio gap_start gap_end audio_windows adjacency_tolerance =
     (if gap_end \<le> gap_start then True
      else gap_coverage_loop gap_end adjacency_tolerance gap_start audio_windows)"

text \<open>The loop over \<open>merged_ads[1:]\<close>; the last bridged window is replaced or a new one appended.\<close>

definition bridge_step ::
  "seconds window list \<Rightarrow> seconds \<Rightarrow> seconds window list \<Rightarrow> seconds window \<Rightarrow> seconds window list" where
  "bridge_step merged_audio adjacency_tolerance bridged_windows next =
     (let (current_start, current_end) = last bridged_windows in
      if gap_is_covered_by_audio current_end (fst next) merged_audio adjacency_tolerance
      then butlast bridged_windows @ [(current_start, snd next)]
      else bridged_windows @ [next])"

definition bridge_ad_windows_with_audio ::
  "seconds window list \<Rightarrow> seconds window list \<Rightarrow> seconds \<Rightarrow> seconds window list" where
  "bridge_ad_windows_with_audio ad_windows audio_windows adjacency_tolerance =
     (let merged_ads = merge_time_windows 0 ad_windows in
      if merged_ads = [] then []
      else let merged_audio = merge_time_windows adjacency_tolerance audio_windows in
        if merged_audio = [] \<or> length merged_ads = 1 then merged_ads
        else foldl (bridge_step merged_audio adjacency_tolerance) [hd merged_ads] (tl merged_ads))"

text \<open>The loop of \<open>_covered_audio_start\<close>: the state is the coverage so far and \<open>changed\<close>.\<close>

fun covered_audio_start_loop ::
  "seconds \<Rightarrow> seconds \<Rightarrow> bool \<Rightarrow> seconds window list \<Rightarrow> seconds \<times> bool" where
  "covered_audio_start_loop tol coverage_start changed [] = (coverage_start, changed)"
| "covered_audio_start_loop tol coverage_start changed ((audio_start, audio_end) # rest) =
     (if audio_end < coverage_start - tol then (coverage_start, changed)
      else if audio_start > coverage_start + tol
      then covered_audio_start_loop tol coverage_start changed rest
      else covered_audio_start_loop tol (min coverage_start audio_start) True rest)"

definition covered_audio_start ::
  "seconds \<Rightarrow> seconds window list \<Rightarrow> seconds \<Rightarrow> seconds \<Rightarrow> seconds option" where
  "covered_audio_start target_start edge_audio_windows edge_window_seconds coverage_tolerance_seconds =
     (let (coverage_start, changed) =
        covered_audio_start_loop coverage_tolerance_seconds target_start False (rev (sort edge_audio_windows))
      in if changed \<and> coverage_start \<le> edge_window_seconds then Some (max 0 coverage_start) else None)"

definition expand_episode_edge_ad_windows_with_audio ::
  "seconds window list \<Rightarrow> seconds window list \<Rightarrow> seconds \<Rightarrow> seconds \<Rightarrow> seconds window list" where
  "expand_episode_edge_ad_windows_with_audio ad_windows edge_audio_windows edge_window_seconds
     coverage_tolerance_seconds =
     (case sort ad_windows of
        [] \<Rightarrow> []
      | (first_start, first_end) # rest \<Rightarrow>
          let merged_audio = merge_time_windows coverage_tolerance_seconds edge_audio_windows in
          if merged_audio = [] then (first_start, first_end) # rest
          else if first_start \<le> edge_window_seconds
          then case covered_audio_start first_start merged_audio edge_window_seconds
                      coverage_tolerance_seconds of
              None \<Rightarrow> (first_start, first_end) # rest
            | Some leading_start \<Rightarrow> (leading_start, first_end) # rest
          else (first_start, first_end) # rest)"

section \<open>The merge against the merger interface\<close>

lemma merge_time_windows_loop_eq:
  "merge_time_windows_loop g acc cs ce ws = acc @ merge_runs g cs ce ws"
  by (induction ws arbitrary: acc cs ce) auto

lemma merge_time_windows_eq: "merge_time_windows g ws = merge_sorted g (sort_key fst (nonempty_windows ws))"
  by (simp add: merge_time_windows_def merge_time_windows_loop_eq merge_sorted_def split: list.split)

lemma nonempty_windows_proper [simp]: "proper (nonempty_windows ws)"
  by (auto simp: proper_def nonempty_windows_def)

lemma set_nonempty_windows: "w \<in> set (nonempty_windows ws) \<longleftrightarrow> w \<in> set ws \<and> fst w < snd w"
  by (auto simp: nonempty_windows_def)

lemma cover_nonempty_windows [simp]: "cover (nonempty_windows ws) = cover ws"
proof -
  have "{fst w..<snd w} = {}" if "\<not> fst w < snd w" for w :: "seconds window"
    using that by simp
  then show ?thesis unfolding cover_def set_nonempty_windows [abs_def]
    by (auto simp: nonempty_windows_def)
qed

lemma merge_time_windows_merger:
  "0 \<le> g \<Longrightarrow> window_merger (merge_time_windows g) (\<lambda>ws. sort_key fst (nonempty_windows ws)) g"
  by (rule merge_sorted_window_merger) (simp_all add: merge_time_windows_eq)

interpretation ads: exact_merger "merge_time_windows 0" "\<lambda>ws. sort_key fst (nonempty_windows ws)"
  by (intro exact_merger.intro exact_merger_axioms.intro merge_time_windows_merger) simp_all

interpretation audio: window_merger "merge_time_windows (3 / 4)"
    "\<lambda>ws. sort_key fst (nonempty_windows ws)" "3 / 4"
  by (rule merge_time_windows_merger) simp

section \<open>Bridging\<close>

text \<open>An instant is near audio when some window reaches it with the stated slack.\<close>

definition near_audio :: "seconds \<Rightarrow> seconds \<Rightarrow> seconds window list \<Rightarrow> seconds \<Rightarrow> bool" where
  "near_audio before after ws x \<longleftrightarrow> (\<exists>w\<in>set ws. fst w - before \<le> x \<and> x \<le> snd w + after)"

lemma near_audio_Cons:
  "near_audio b a (w # ws) x \<longleftrightarrow> fst w - b \<le> x \<and> x \<le> snd w + a \<or> near_audio b a ws x"
  by (auto simp: near_audio_def)

lemma near_merged_audio:
  assumes "near_audio tol u (merge_time_windows tol ws) x" and "0 \<le> tol" and "tol \<le> u"
  shows "near_audio tol u ws x"
proof -
  from assms(1) obtain m where m: "m \<in> set (merge_time_windows tol ws)" "fst m - tol \<le> x" "x \<le> snd m + u"
    by (auto simp: near_audio_def)
  from window_merger.mrg_near_kept [OF merge_time_windows_merger [OF assms(2)] m assms(2,3)]
  show ?thesis by (auto simp: near_audio_def set_nonempty_windows)
qed

lemma gap_coverage_loop_near:
  assumes "gap_coverage_loop ge tol cov ws" and "0 \<le> tol" and "cov \<le> x" and "x < ge"
  shows "near_audio tol (2 * tol) ws x"
  using assms
proof (induction ge tol cov ws rule: gap_coverage_loop.induct)
  case (2 ge tol cov a b rest)
  show ?case
  proof (cases "b < cov - tol")
    case True
    with 2 show ?thesis by (simp add: near_audio_Cons)
  next
    case False
    with 2(3) have a: "a \<le> cov + tol" by (auto split: if_splits)
    show ?thesis
    proof (cases "x < max cov b \<or> max cov b \<ge> ge - tol")
      case True
      with False a 2(4-6) show ?thesis
        by (auto simp: near_audio_Cons max_def split: if_splits)
    next
      case far: False
      with False a 2(3) have "gap_coverage_loop ge tol (max cov b) rest"
        by (auto simp: Let_def split: if_splits)
      with far False a 2(4-6) have "near_audio tol (2 * tol) rest x"
        by (intro 2(2) [OF _ _ refl]) auto
      then show ?thesis by (simp add: near_audio_Cons)
    qed
  qed
qed simp

lemma covered_gap_near:
  "gap_is_covered_by_audio gs ge ws tol \<Longrightarrow> 0 \<le> tol \<Longrightarrow> gs \<le> x \<Longrightarrow> x < ge \<Longrightarrow> near_audio tol (2 * tol) ws x"
  by (auto simp: gap_is_covered_by_audio_def gap_coverage_loop_near split: if_splits)

text \<open>The loop invariant of bridging, on the windows emitted so far.\<close>

definition bridge_inv :: "seconds window list \<Rightarrow> seconds \<Rightarrow> seconds window list \<Rightarrow> seconds window list \<Rightarrow> bool" where
  "bridge_inv merged_audio tol seen out \<longleftrightarrow>
     out \<noteq> [] \<and> snd (last out) = snd (last seen) \<and> separated 0 out \<and> cover seen \<subseteq> cover out \<and>
     (\<forall>x\<in>cover out. x \<in> cover seen \<or> near_audio tol (2 * tol) merged_audio x)"

lemma bridge_step_inv:
  assumes inv: "bridge_inv A tol seen out" and sep: "separated 0 (seen @ [w])" and tol: "0 \<le> tol"
    and ne: "seen \<noteq> []"
  shows "bridge_inv A tol (seen @ [w]) (bridge_step A tol out w)"
proof -
  from inv ne obtain front s e where out: "out = front @ [(s, e)]"
    by (auto simp: bridge_inv_def) (metis append_butlast_last_id surj_pair)
  from inv out have e: "e = snd (last seen)" by (simp add: bridge_inv_def)
  with sep ne have w: "e < fst w" "fst w \<le> snd w"
    by (auto simp: separated_append separated_Cons)
  from inv out have front: "separated 0 front" "\<forall>v\<in>set front. snd v < s" "s \<le> e"
    by (auto simp: bridge_inv_def separated_append separated_Cons)
  show ?thesis
  proof (cases "gap_is_covered_by_audio e (fst w) A tol")
    case True
    with out have step: "bridge_step A tol out w = front @ [(s, snd w)]" by (simp add: bridge_step_def)
    have split: "{s..<snd w} = {s..<e} \<union> {e..<fst w} \<union> {fst w..<snd w}" using front w by auto
    have gap: "near_audio tol (2 * tol) A x" if "x \<in> {e..<fst w}" for x
      using covered_gap_near [OF True tol] that by simp
    show ?thesis using inv out front w gap ne
      unfolding step bridge_inv_def
      by (auto simp: separated_append separated_Cons split)
  next
    case False
    with out have step: "bridge_step A tol out w = out @ [w]" by (simp add: bridge_step_def)
    have "\<forall>v\<in>set out. snd v < fst w" using front w out by force
    then show ?thesis using inv out w ne
      unfolding step bridge_inv_def
      by (auto simp: separated_append separated_Cons)
  qed
qed

lemma bridge_foldl_inv:
  assumes "bridge_inv A tol seen out" and "separated 0 (seen @ ws)" and "0 \<le> tol" and "seen \<noteq> []"
  shows "bridge_inv A tol (seen @ ws) (foldl (bridge_step A tol) out ws)"
  using assms
proof (induction ws arbitrary: seen out)
  case (Cons w ws)
  have "separated 0 ((seen @ [w]) @ ws)" using Cons.prems(2) by simp
  then have "separated 0 (seen @ [w])" by (simp only: separated_append [of 0 "seen @ [w]" ws])
  with Cons.prems have "bridge_inv A tol (seen @ [w]) (bridge_step A tol out w)"
    by (intro bridge_step_inv)
  from Cons.IH [OF this] Cons.prems show ?case by simp
qed simp

lemma bridge_result_inv:
  assumes "merge_time_windows 0 ads \<noteq> []" and "0 \<le> tol"
  shows "bridge_inv (merge_time_windows tol aud) tol (merge_time_windows 0 ads)
     (bridge_ad_windows_with_audio ads aud tol)"
proof -
  let ?M = "merge_time_windows 0 ads" and ?A = "merge_time_windows tol aud"
  from assms(1) obtain w ws where M: "?M = w # ws" by (cases ?M) auto
  have sep: "separated 0 ?M" by (rule ads.mrg_separated)
  have refl: "bridge_inv ?A tol ?M ?M" using assms(1) sep by (simp add: bridge_inv_def)
  have "bridge_inv ?A tol [w] [w]" using sep M by (simp add: bridge_inv_def separated_Cons)
  from bridge_foldl_inv [OF this _ assms(2), of ws] sep M
  have "bridge_inv ?A tol ?M (foldl (bridge_step ?A tol) [hd ?M] (tl ?M))" by simp
  with refl assms(1) show ?thesis by (simp add: bridge_ad_windows_with_audio_def Let_def)
qed

lemma bridge_Nil: "merge_time_windows 0 ads = [] \<Longrightarrow> bridge_ad_windows_with_audio ads aud tol = []"
  by (simp add: bridge_ad_windows_with_audio_def)

text \<open>Bridging never cuts programme audio: every instant of a bridged window belongs to
  an ad window or lies within the tolerance of a window the audio segmenter reported (at most
  \<open>tol\<close> before its start or \<open>2 * tol\<close> after its end).\<close>

theorem bridge_cuts_only_ads_and_audio:
  assumes "0 \<le> tol" and "x \<in> cover (bridge_ad_windows_with_audio ads aud tol)"
  shows "x \<in> cover ads \<or> near_audio tol (2 * tol) aud x"
proof (cases "merge_time_windows 0 ads = []")
  case True
  with assms(2) show ?thesis by (simp add: bridge_Nil)
next
  case False
  from bridge_result_inv [OF this assms(1), of aud] assms(2)
  have "x \<in> cover (merge_time_windows 0 ads) \<or> near_audio tol (2 * tol) (merge_time_windows tol aud) x"
    by (auto simp: bridge_inv_def)
  then show ?thesis
    using near_merged_audio [of tol "2 * tol" aud x] assms(1) by (auto simp: ads.mrg_cover)
qed

text \<open>Bridging keeps every ad: the result is a list of separated windows in order that
  covers all the ad audio it was given.\<close>

theorem bridge_keeps_ads:
  assumes "0 \<le> tol"
  shows "separated 0 (bridge_ad_windows_with_audio ads aud tol) \<and>
    cover ads \<subseteq> cover (bridge_ad_windows_with_audio ads aud tol)"
proof (cases "merge_time_windows 0 ads = []")
  case True
  then have "cover ads = {}" using ads.mrg_cover [of ads] by simp
  with True show ?thesis by (simp add: bridge_Nil)
next
  case False
  from bridge_result_inv [OF this assms, of aud] show ?thesis
    by (simp add: bridge_inv_def ads.mrg_cover)
qed

theorem bridge_cuts_only_ads_and_audio_witness:
  "(11::real) \<in> cover (bridge_ad_windows_with_audio [(0, 10), (12, 20)] [(10, 12)] (3 / 4)) \<and>
   (11 \<in> cover [(0, 10), (12, 20::real)] \<or> near_audio (3 / 4) (2 * (3 / 4)) [(10, 12)] 11)"
proof -
  have h: "(11::real) \<in> cover (bridge_ad_windows_with_audio [(0, 10), (12, 20)] [(10, 12)] (3 / 4))"
    by (simp add: bridge_ad_windows_with_audio_def merge_time_windows_def nonempty_windows_def
        bridge_step_def gap_is_covered_by_audio_def)
  with bridge_cuts_only_ads_and_audio [of "3 / 4" 11 "[(0, 10), (12, 20)]" "[(10, 12)]"]
  show ?thesis by simp
qed

theorem bridge_keeps_ads_witness:
  "separated 0 (bridge_ad_windows_with_audio [(5, 9), (0, 10)] [(10, 12)] (3 / 4)) \<and>
   cover [(5, 9), (0, 10::real)] \<subseteq> cover (bridge_ad_windows_with_audio [(5, 9), (0, 10)] [(10, 12)] (3 / 4))"
  using bridge_keeps_ads [of "3 / 4" "[(5, 9), (0, 10)]" "[(10, 12)]"] by simp

section \<open>Edge expansion\<close>

lemma covered_audio_start_loop_near:
  assumes "covered_audio_start_loop tol cov changed ws = (cov', changed')" and "0 \<le> tol"
  shows "cov' \<le> cov \<and> (\<forall>x. cov' \<le> x \<and> x < cov \<longrightarrow> near_audio 0 tol ws x)"
  using assms
proof (induction tol cov changed ws rule: covered_audio_start_loop.induct)
  case (2 tol cov changed a b rest)
  show ?case
  proof (cases "b < cov - tol \<or> a > cov + tol")
    case True
    with 2 show ?thesis by (auto simp: near_audio_Cons split: if_splits)
  next
    case False
    with 2(3) have "covered_audio_start_loop tol (min cov a) True rest = (cov', changed')" by simp
    with False 2(2,4) have IH: "cov' \<le> min cov a"
      "\<And>x. cov' \<le> x \<Longrightarrow> x < min cov a \<Longrightarrow> near_audio 0 tol rest x" by auto
    have "near_audio 0 tol ((a, b) # rest) x" if "cov' \<le> x" "x < cov" for x
    proof (cases "x < min cov a")
      case True
      with IH(2) that show ?thesis by (simp add: near_audio_Cons)
    next
      case in_window: False
      with False that show ?thesis by (simp add: near_audio_Cons)
    qed
    with IH(1) show ?thesis by simp
  qed
qed auto

lemma covered_audio_start_near:
  assumes "covered_audio_start target ws edge tol = Some s" and "0 \<le> tol"
  shows "0 \<le> s \<and> s \<le> max 0 target \<and> s \<le> max 0 edge \<and>
    (\<forall>x. s \<le> x \<and> x < target \<longrightarrow> near_audio 0 tol ws x)"
proof -
  obtain c ch where c: "covered_audio_start_loop tol target False (rev (sort ws)) = (c, ch)"
    by (cases "covered_audio_start_loop tol target False (rev (sort ws))")
  from covered_audio_start_loop_near [OF c assms(2)] assms(1) c show ?thesis
    by (auto simp: covered_audio_start_def near_audio_def split: if_splits)
qed

text \<open>Edge expansion touches the first window's start only.  The start moves to a
  non-negative instant no later than where it was, it moves only when it lies in the edge
  window, and the audio it gives up lies inside the segmenter's windows up to the tolerance.\<close>

theorem expand_moves_first_start_only:
  assumes "0 \<le> tol" and "sort ads = (s, e) # rest"
  shows "\<exists>s'. expand_episode_edge_ad_windows_with_audio ads aud edge tol = (s', e) # rest \<and>
    (s' = s \<or> s \<le> edge \<and> 0 \<le> s' \<and> s' \<le> max 0 s) \<and>
    (\<forall>x. s' \<le> x \<and> x < s \<longrightarrow> near_audio tol tol aud x)"
proof -
  let ?A = "merge_time_windows tol aud"
  show ?thesis
  proof (cases "?A \<noteq> [] \<and> s \<le> edge \<and> covered_audio_start s ?A edge tol \<noteq> None")
    case True
    then obtain s' where s': "covered_audio_start s ?A edge tol = Some s'" by auto
    from covered_audio_start_near [OF this assms(1)]
    have near: "0 \<le> s'" "s' \<le> max 0 s"
      "\<And>x. s' \<le> x \<Longrightarrow> x < s \<Longrightarrow> near_audio 0 tol ?A x" by auto
    have "near_audio tol tol aud x" if "s' \<le> x" "x < s" for x
    proof -
      have "near_audio tol tol ?A x" using near(3) [OF that] assms(1) by (force simp: near_audio_def)
      then show ?thesis by (rule near_merged_audio) (use assms(1) in auto)
    qed
    with near(1,2) True s' assms(2) show ?thesis
      by (simp add: expand_episode_edge_ad_windows_with_audio_def Let_def)
  next
    case False
    then have "expand_episode_edge_ad_windows_with_audio ads aud edge tol = (s, e) # rest"
      using assms(2)
      by (auto simp: expand_episode_edge_ad_windows_with_audio_def Let_def)
    then show ?thesis by auto
  qed
qed

theorem expand_moves_first_start_only_witness:
  "\<exists>s'. expand_episode_edge_ad_windows_with_audio [(10, 40), (100, 120)] [(0, 9.5)] 30 (3 / 4) =
      (s', 40) # [(100, 120)] \<and>
    (s' = 10 \<or> (10::real) \<le> 30 \<and> 0 \<le> s' \<and> s' \<le> max 0 10) \<and>
    (\<forall>x. s' \<le> x \<and> x < 10 \<longrightarrow> near_audio (3 / 4) (3 / 4) [(0, 9.5)] x)"
  using expand_moves_first_start_only [of "3 / 4" "[(10, 40), (100, 120)]" 10 40 "[(100, 120)]"
      "[(0, 9.5)]" 30] by simp

end
