(* ===== verification/PyRegex.thy ===== *)
theory PyRegex
  imports PyString
begin

text \<open>
  A model of the part of Python's \<open>re\<close> the code uses: backtracking search for character
  classes, sequence, ordered choice, greedy and lazy repetition, \<open>\b\<close>, \<open>^\<close>, \<open>$\<close>,
  negative look-behind and look-ahead of one character, and groups.  \<open>ends r s i\<close> lists the end positions of the matches of \<open>r\<close> in \<open>s\<close> from
  position \<open>i\<close> in the order in which a backtracking matcher tries them, so the head is the
  match Python reports.  \<open>ends_iff\<close> proves the matcher sound and complete for the usual
  declarative meaning.
\<close>

datatype re =
    Cls "char \<Rightarrow> bool"
  | Eps
  | Seq re re
  | Alt re re
  | Star re
  | LazyStar re
  | Bnd
  | Bos
  | Eos
  | NotBehind "char \<Rightarrow> bool"
  | NotAhead "char \<Rightarrow> bool"
  | Grp nat re

type_synonym caps = "(nat \<times> nat \<times> nat) list"

definition digit_char :: "char \<Rightarrow> bool" where
  "digit_char c = (let n = of_char c :: nat in 48 \<le> n \<and> n \<le> 57)"

definition upper_char :: "char \<Rightarrow> bool" where
  "upper_char c = (let n = of_char c :: nat in 65 \<le> n \<and> n \<le> 90)"

definition lower_letter :: "char \<Rightarrow> bool" where
  "lower_letter c = (let n = of_char c :: nat in 97 \<le> n \<and> n \<le> 122)"

definition word_char :: "char \<Rightarrow> bool" where
  "word_char c \<longleftrightarrow> digit_char c \<or> upper_char c \<or> lower_letter c \<or> c = CHR ''_''"

definition word_at :: "string \<Rightarrow> nat \<Rightarrow> bool" where
  "word_at s i \<longleftrightarrow> i < length s \<and> word_char (s ! i)"

definition at_boundary :: "string \<Rightarrow> nat \<Rightarrow> bool" where
  "at_boundary s i \<longleftrightarrow> (0 < i \<and> word_at s (i - 1)) \<noteq> word_at s i"

definition at_end :: "string \<Rightarrow> nat \<Rightarrow> bool" where
  "at_end s i \<longleftrightarrow> i = length s \<or> i + 1 = length s \<and> s ! i = CHR 0x0A"

text \<open>\<open>int(s)\<close> of a string: white space around it, a sign, digits with single underscores between
  them; None where Python raises ValueError.\<close>

definition int_of_str :: "string \<Rightarrow> int option" where
  "int_of_str s =
     (let t = py_strip s;
          negative = (t \<noteq> [] \<and> hd t = CHR ''-'');
          digits = (if t \<noteq> [] \<and> (hd t = CHR ''-'' \<or> hd t = CHR ''+'') then tl t else t);
          groups = split_on CHR ''_'' digits in
      if list_all (\<lambda>g. g \<noteq> [] \<and> list_all digit_char g) groups
      then Some (if negative then - int (digits_value (concat groups)) else int (digits_value (concat groups)))
      else None)"

text \<open>Repetition: at most \<open>n\<close> iterations, each of which must consume input.\<close>

fun star_ends :: "(nat \<Rightarrow> caps \<Rightarrow> (nat \<times> caps) list) \<Rightarrow> nat \<Rightarrow> nat \<Rightarrow> caps \<Rightarrow> (nat \<times> caps) list" where
  "star_ends f 0 i c = [(i, c)]"
| "star_ends f (Suc n) i c =
     concat (map (\<lambda>(j, d). if i < j then star_ends f n j d else []) (f i c)) @ [(i, c)]"

fun lazy_ends :: "(nat \<Rightarrow> caps \<Rightarrow> (nat \<times> caps) list) \<Rightarrow> nat \<Rightarrow> nat \<Rightarrow> caps \<Rightarrow> (nat \<times> caps) list" where
  "lazy_ends f 0 i c = [(i, c)]"
| "lazy_ends f (Suc n) i c =
     (i, c) # concat (map (\<lambda>(j, d). if i < j then lazy_ends f n j d else []) (f i c))"

primrec ends :: "re \<Rightarrow> string \<Rightarrow> nat \<Rightarrow> caps \<Rightarrow> (nat \<times> caps) list" where
  "ends (Cls p) s i c = (if i < length s \<and> p (s ! i) then [(i + 1, c)] else [])"
| "ends Eps s i c = [(i, c)]"
| "ends (Seq r q) s i c = concat (map (\<lambda>(j, d). ends q s j d) (ends r s i c))"
| "ends (Alt r q) s i c = ends r s i c @ ends q s i c"
| "ends (Star r) s i c = star_ends (\<lambda>j d. ends r s j d) (length s - i) i c"
| "ends (LazyStar r) s i c = lazy_ends (\<lambda>j d. ends r s j d) (length s - i) i c"
| "ends Bnd s i c = (if at_boundary s i then [(i, c)] else [])"
| "ends Bos s i c = (if i = 0 then [(i, c)] else [])"
| "ends Eos s i c = (if at_end s i then [(i, c)] else [])"
| "ends (NotBehind p) s i c = (if i = 0 \<or> \<not> p (s ! (i - 1)) then [(i, c)] else [])"
| "ends (NotAhead p) s i c = (if length s \<le> i \<or> \<not> p (s ! i) then [(i, c)] else [])"
| "ends (Grp k r) s i c = map (\<lambda>(j, d). (j, (k, i, j) # d)) (ends r s i c)"

section \<open>Derived forms\<close>

definition Plus :: "re \<Rightarrow> re" where
  "Plus r = Seq r (Star r)"

definition Opt :: "re \<Rightarrow> re" where
  "Opt r = Alt r Eps"

fun Rep :: "nat \<Rightarrow> re \<Rightarrow> re" where
  "Rep 0 r = Eps"
| "Rep (Suc n) r = Seq r (Rep n r)"

fun Seqs :: "re list \<Rightarrow> re" where
  "Seqs [] = Eps"
| "Seqs [r] = r"
| "Seqs (r # q # rs) = Seq r (Seqs (q # rs))"

fun Alts :: "re list \<Rightarrow> re" where
  "Alts [] = Cls (\<lambda>_. False)"
| "Alts [r] = r"
| "Alts (r # q # rs) = Alt r (Alts (q # rs))"

text \<open>A literal, exactly and with \<open>re.IGNORECASE\<close>.\<close>

definition Lit :: "string \<Rightarrow> re" where
  "Lit w = Seqs (map (\<lambda>c. Cls (\<lambda>d. d = c)) w)"

definition ILit :: "string \<Rightarrow> re" where
  "ILit w = Seqs (map (\<lambda>c. Cls (\<lambda>d. lower_char d = lower_char c)) w)"

definition Any :: re where
  "Any = Cls (\<lambda>c. c \<noteq> CHR 0x0A)"

section \<open>Searching\<close>

fun search_from :: "re \<Rightarrow> string \<Rightarrow> nat \<Rightarrow> nat \<Rightarrow> (nat \<times> nat \<times> caps) option" where
  "search_from r s i 0 = (case ends r s i [] of [] \<Rightarrow> None | (j, c) # _ \<Rightarrow> Some (i, j, c))"
| "search_from r s i (Suc n) =
     (case ends r s i [] of [] \<Rightarrow> search_from r s (i + 1) n | (j, c) # _ \<Rightarrow> Some (i, j, c))"

definition re_search :: "re \<Rightarrow> string \<Rightarrow> (nat \<times> nat \<times> caps) option" where
  "re_search r s = search_from r s 0 (length s)"

definition re_found :: "re \<Rightarrow> string \<Rightarrow> bool" where
  "re_found r s \<longleftrightarrow> re_search r s \<noteq> None"

text \<open>\<open>finditer\<close> for patterns that never match the empty string, with the input length as
  fuel: every match advances the scan.\<close>

fun finditer_from :: "nat \<Rightarrow> re \<Rightarrow> string \<Rightarrow> nat \<Rightarrow> (nat \<times> nat \<times> caps) list" where
  "finditer_from 0 r s i = []"
| "finditer_from (Suc n) r s i =
     (if length s < i then []
      else case search_from r s i (length s - i) of
          None \<Rightarrow> []
        | Some (a, b, c) \<Rightarrow> (a, b, c) # finditer_from n r s (if a < b then b else b + 1))"

definition re_finditer :: "re \<Rightarrow> string \<Rightarrow> (nat \<times> nat \<times> caps) list" where
  "re_finditer r s = finditer_from (length s + 1) r s 0"

definition slice :: "string \<Rightarrow> nat \<Rightarrow> nat \<Rightarrow> string" where
  "slice s i j = take (j - i) (drop i s)"

definition re_findall :: "re \<Rightarrow> string \<Rightarrow> string list" where
  "re_findall r s = map (\<lambda>(a, b, _). slice s a b) (re_finditer r s)"

text \<open>\<open>findall\<close> of a pattern with one group lists the text of that group.\<close>

definition re_findall_group :: "nat \<Rightarrow> re \<Rightarrow> string \<Rightarrow> string list" where
  "re_findall_group k r s = map (\<lambda>(a, b, c). case map_of c k of
      None \<Rightarrow> [] | Some (i, j) \<Rightarrow> slice s i j) (re_finditer r s)"

text \<open>\<open>re.sub(r, repl, s)\<close>: the text between the matches with \<open>repl\<close> in their place.\<close>

fun sub_pieces :: "string \<Rightarrow> string \<Rightarrow> nat \<Rightarrow> (nat \<times> nat \<times> caps) list \<Rightarrow> string" where
  "sub_pieces repl s i [] = drop i s"
| "sub_pieces repl s i ((a, b, c) # ms) = slice s i a @ repl @ sub_pieces repl s b ms"

definition re_sub :: "re \<Rightarrow> string \<Rightarrow> string \<Rightarrow> string" where
  "re_sub r repl s = sub_pieces repl s 0 (re_finditer r s)"

text \<open>The text of a group of a match, and \<open>re.sub\<close> with that group as the replacement.\<close>

definition group_text :: "string \<Rightarrow> caps \<Rightarrow> nat \<Rightarrow> string" where
  "group_text s c k = (case map_of c k of None \<Rightarrow> [] | Some (i, j) \<Rightarrow> slice s i j)"

fun sub_group_pieces :: "nat \<Rightarrow> string \<Rightarrow> nat \<Rightarrow> (nat \<times> nat \<times> caps) list \<Rightarrow> string" where
  "sub_group_pieces k s i [] = drop i s"
| "sub_group_pieces k s i ((a, b, c) # ms) = slice s i a @ group_text s c k @ sub_group_pieces k s b ms"

definition re_sub_group :: "re \<Rightarrow> nat \<Rightarrow> string \<Rightarrow> string" where
  "re_sub_group r k s = sub_group_pieces k s 0 (re_finditer r s)"

section \<open>The matcher against the meaning of patterns\<close>

primrec matches :: "re \<Rightarrow> string \<Rightarrow> nat \<Rightarrow> nat \<Rightarrow> bool" where
  "matches (Cls p) s i j \<longleftrightarrow> i < length s \<and> p (s ! i) \<and> j = i + 1"
| "matches Eps s i j \<longleftrightarrow> j = i"
| "matches (Seq r q) s i j \<longleftrightarrow> (\<exists>k. matches r s i k \<and> matches q s k j)"
| "matches (Alt r q) s i j \<longleftrightarrow> matches r s i j \<or> matches q s i j"
| "matches (Star r) s i j \<longleftrightarrow> (matches r s)\<^sup>*\<^sup>* i j"
| "matches (LazyStar r) s i j \<longleftrightarrow> (matches r s)\<^sup>*\<^sup>* i j"
| "matches Bnd s i j \<longleftrightarrow> at_boundary s i \<and> j = i"
| "matches Bos s i j \<longleftrightarrow> i = 0 \<and> j = i"
| "matches Eos s i j \<longleftrightarrow> at_end s i \<and> j = i"
| "matches (NotBehind p) s i j \<longleftrightarrow> (i = 0 \<or> \<not> p (s ! (i - 1))) \<and> j = i"
| "matches (NotAhead p) s i j \<longleftrightarrow> (length s \<le> i \<or> \<not> p (s ! i)) \<and> j = i"
| "matches (Grp k r) s i j \<longleftrightarrow> matches r s i j"

lemma matches_le: "matches r s i j \<Longrightarrow> i \<le> length s \<Longrightarrow> i \<le> j \<and> j \<le> length s"
proof (induction r arbitrary: i j)
  case (Seq r q)
  then show ?case by (fastforce dest: order_trans)
next
  case (Star r)
  from Star.prems(1) have "(matches r s)\<^sup>*\<^sup>* i j" by simp
  then show ?case using Star.prems(2)
    by (induction rule: rtranclp_induct) (auto dest: Star.IH order_trans)
next
  case (LazyStar r)
  from LazyStar.prems(1) have "(matches r s)\<^sup>*\<^sup>* i j" by simp
  then show ?case using LazyStar.prems(2)
    by (induction rule: rtranclp_induct) (auto dest: LazyStar.IH order_trans)
qed auto

lemma rtranclp_first_move: "R\<^sup>*\<^sup>* i j \<Longrightarrow> i = j \<or> (\<exists>k. R i k \<and> k \<noteq> i \<and> R\<^sup>*\<^sup>* k j)"
  by (induction rule: converse_rtranclp_induct) metis+

lemma set_lazy_ends: "set (lazy_ends f n i c) = set (star_ends f n i c)"
  by (induction f n i c rule: lazy_ends.induct) (force split: if_splits)+

lemma star_ends_iff:
  assumes f: "\<And>i c j. i \<le> L \<Longrightarrow> (\<exists>d. (j, d) \<in> set (f i c)) \<longleftrightarrow> R i j"
    and R: "\<And>i j. R i j \<Longrightarrow> i \<le> L \<Longrightarrow> i \<le> j \<and> j \<le> L"
    and "i \<le> L" and "L - i \<le> n"
  shows "(\<exists>d. (j, d) \<in> set (star_ends f n i c)) \<longleftrightarrow> R\<^sup>*\<^sup>* i j"
  using assms(3,4)
proof (induction n arbitrary: i c)
  case 0
  have "R\<^sup>*\<^sup>* i j \<Longrightarrow> j = i"
    using rtranclp_first_move [of R i j] R [of i] 0 by force
  then show ?case by auto
next
  case (Suc n)
  show ?case
  proof
    assume "\<exists>d. (j, d) \<in> set (star_ends f (Suc n) i c)"
    then obtain d where "(j, d) \<in> set (star_ends f (Suc n) i c)" ..
    then consider "j = i" | k e where "(k, e) \<in> set (f i c)" "i < k" "(j, d) \<in> set (star_ends f n k e)"
      by (auto split: if_splits)
    then show "R\<^sup>*\<^sup>* i j"
    proof cases
      case 2
      then have "R i k" using f Suc.prems(1) by blast
      moreover from this R Suc.prems have "k \<le> L" by blast
      moreover have "L - k \<le> n" using 2(2) Suc.prems(2) by simp
      ultimately have "R i k" "R\<^sup>*\<^sup>* k j" using 2(3) Suc.IH [of k e] by blast+
      then show ?thesis by (rule converse_rtranclp_into_rtranclp)
    qed simp
  next
    assume "R\<^sup>*\<^sup>* i j"
    from rtranclp_first_move [OF this] consider "i = j" | k where "R i k" "k \<noteq> i" "R\<^sup>*\<^sup>* k j"
      by blast
    then show "\<exists>d. (j, d) \<in> set (star_ends f (Suc n) i c)"
    proof cases
      case 2
      from R [OF 2(1) Suc.prems(1)] 2(2) have k: "i < k" "k \<le> L" by auto
      from 2(1) f Suc.prems(1) obtain e where e: "(k, e) \<in> set (f i c)" by blast
      have "L - k \<le> n" using k Suc.prems(2) by linarith
      with 2(3) k Suc.IH [of k e] obtain d where "(j, d) \<in> set (star_ends f n k e)" by auto
      with e k show ?thesis by auto
    qed auto
  qed
qed

theorem ends_iff:
  "i \<le> length s \<Longrightarrow> (\<exists>d. (j, d) \<in> set (ends r s i c)) \<longleftrightarrow> matches r s i j"
proof (induction r arbitrary: i j c)
  case (Seq r q)
  have "(\<exists>d. (j, d) \<in> set (ends q s k e)) \<longleftrightarrow> matches q s k j" if "matches r s i k" for k e
    using matches_le [OF that Seq.prems] Seq.IH(2) by blast
  moreover have "(\<exists>e. (k, e) \<in> set (ends r s i c)) \<longleftrightarrow> matches r s i k" for k
    using Seq.IH(1) Seq.prems .
  ultimately have "(\<exists>k e. (k, e) \<in> set (ends r s i c) \<and> (\<exists>d. (j, d) \<in> set (ends q s k e))) \<longleftrightarrow>
      (\<exists>k. matches r s i k \<and> matches q s k j)"
    by blast
  then show ?case by auto
next
  case (Alt r q)
  then show ?case by (metis ends.simps(4) matches.simps(4) set_append Un_iff)
next
  case (Star r)
  have "(\<exists>d. (j, d) \<in> set (star_ends (ends r s) (length s - i) i c)) \<longleftrightarrow> (matches r s)\<^sup>*\<^sup>* i j"
    by (rule star_ends_iff [where L = "length s"]) (rule Star.IH, assumption, rule matches_le, assumption+,
        rule Star.prems, rule order_refl)
  then show ?case by simp
next
  case (LazyStar r)
  have "(\<exists>d. (j, d) \<in> set (star_ends (ends r s) (length s - i) i c)) \<longleftrightarrow> (matches r s)\<^sup>*\<^sup>* i j"
    by (rule star_ends_iff [where L = "length s"]) (rule LazyStar.IH, assumption, rule matches_le, assumption+,
        rule LazyStar.prems, rule order_refl)
  then show ?case by (simp add: set_lazy_ends)
next
  case (Grp k r)
  have "(\<exists>d. (j, d) \<in> set (ends (Grp k r) s i c)) \<longleftrightarrow> (\<exists>d. (j, d) \<in> set (ends r s i c))"
    by (auto simp: image_iff Bex_def)
  with Grp show ?case by simp
qed auto

lemma ends_Nil_iff: "i \<le> length s \<Longrightarrow> ends r s i c = [] \<longleftrightarrow> (\<forall>j. \<not> matches r s i j)"
  using ends_iff [of i s _ r c] by (metis list.set_intros(1) neq_Nil_conv prod.collapse empty_iff empty_set)

lemma search_from_None:
  "search_from r s i n = None \<Longrightarrow> i + n \<le> length s \<Longrightarrow> i \<le> k \<Longrightarrow> k \<le> i + n \<Longrightarrow> \<not> matches r s k j"
proof (induction n arbitrary: i)
  case 0
  then show ?case using ends_Nil_iff [of i s r "[]"] by (auto split: list.splits)
next
  case (Suc n)
  then have "ends r s i [] = []" "search_from r s (i + 1) n = None" by (auto split: list.splits)
  with Suc ends_Nil_iff [of i s r "[]"] show ?case by (cases "k = i") auto
qed

lemma search_from_Some:
  "search_from r s i n = Some (a, b, c) \<Longrightarrow> i + n \<le> length s \<Longrightarrow>
    i \<le> a \<and> a \<le> i + n \<and> matches r s a b \<and> (\<forall>k j. i \<le> k \<and> k < a \<longrightarrow> \<not> matches r s k j)"
proof (induction n arbitrary: i)
  case 0
  then show ?case using ends_iff [of i s b r "[]"] by (auto split: list.splits)
next
  case (Suc n)
  show ?case
  proof (cases "ends r s i []")
    case Nil
    with Suc.prems have "search_from r s (i + 1) n = Some (a, b, c)" by simp
    with Suc.IH [of "i + 1"] Suc.prems have *: "i + 1 \<le> a" "a \<le> i + 1 + n" "matches r s a b"
      "\<forall>k j. i + 1 \<le> k \<and> k < a \<longrightarrow> \<not> matches r s k j" by auto
    have "\<forall>j. \<not> matches r s i j" using Nil ends_Nil_iff [of i s r "[]"] Suc.prems by simp
    then have "\<not> matches r s k j" if "i \<le> k" "k < a" for k j
      using that *(4) by (cases "k = i") auto
    with * show ?thesis by auto
  next
    case (Cons m ms)
    with Suc.prems show ?thesis using ends_iff [of i s b r "[]"] by (auto split: prod.splits)
  qed
qed

lemma re_found_iff: "re_found r s \<longleftrightarrow> (\<exists>i j. i \<le> length s \<and> matches r s i j)"
proof
  assume "re_found r s"
  then obtain a b c where "search_from r s 0 (length s) = Some (a, b, c)"
    by (auto simp: re_found_def re_search_def)
  from search_from_Some [OF this] show "\<exists>i j. i \<le> length s \<and> matches r s i j" by auto
next
  assume "\<exists>i j. i \<le> length s \<and> matches r s i j"
  then obtain i j where "i \<le> length s" "matches r s i j" by blast
  with search_from_None [of r s 0 "length s" i j] show "re_found r s"
    unfolding re_found_def re_search_def by fastforce
qed

text \<open>The spans of \<open>finditer\<close> are in order, disjoint and inside the string.\<close>

lemma finditer_from_spans:
  "(a, b, c) \<in> set (finditer_from n r s i) \<Longrightarrow> i \<le> a \<and> a \<le> b \<and> b \<le> length s \<and> matches r s a b"
proof (induction n arbitrary: i)
  case (Suc n)
  then have "i \<le> length s" by (auto split: if_splits)
  with Suc.prems obtain a' b' c' where m: "i \<le> length s" "search_from r s i (length s - i) = Some (a', b', c')"
    by (cases "search_from r s i (length s - i)") auto
  from search_from_Some [OF m(2)] m(1) have s: "i \<le> a'" "a' \<le> length s" "matches r s a' b'" by auto
  from matches_le [OF s(3,2)] have le: "a' \<le> b'" "b' \<le> length s" by auto
  from Suc.prems m have "(a, b, c) = (a', b', c') \<or>
    (a, b, c) \<in> set (finditer_from n r s (if a' < b' then b' else b' + 1))" by auto
  with Suc.IH [of "if a' < b' then b' else b' + 1"] s le show ?case
    by (auto split: if_splits)
qed simp

lemma re_finditer_spans:
  "(a, b, c) \<in> set (re_finditer r s) \<Longrightarrow> a \<le> b \<and> b \<le> length s \<and> matches r s a b"
  unfolding re_finditer_def by (drule finditer_from_spans) simp

lemmas regex_simps = Plus_def Opt_def Lit_def ILit_def Any_def

end
