(* ===== verification/AdMerge.thy ===== *)
theory AdMerge
  imports PyRegex
begin

text \<open>
  \<open>src/podcast_processor/ad_merger.py\<close>: the segments a classifier marked as ads are sorted
  by time, grouped by proximity, neighbouring groups of one sponsor are merged, and weak
  groups are dropped.  Keywords come from the regular expressions of the source, run by the
  matcher of \<open>PyRegex\<close>.  Python's \<open>list(set(...))\<close> is modelled by \<open>remdups\<close>: the order of
  the keywords is never observed.
\<close>

record transcript_segment =
  seg_id :: int
  seg_post_id :: int
  sequence_num :: int
  start_time :: seconds
  end_time :: seconds
  seg_text :: string

record identification =
  ident_id :: int
  transcript_segment_id :: int
  model_call_id :: int
  confidence :: real
  ident_label :: string

record ad_group =
  segments :: "transcript_segment list"
  identifications :: "identification list"
  group_start :: seconds
  group_end :: seconds
  confidence_avg :: real
  group_keywords :: "string list"

section \<open>Keyword patterns\<close>

definition host_char :: "char \<Rightarrow> bool" where
  "host_char c \<longleftrightarrow> lower_letter (lower_char c) \<or> digit_char c \<or> c = CHR ''-'' \<or> c = CHR ''.''"

definition url_pattern :: re where
  "url_pattern = Seqs [Bnd, Grp 1 (Seqs [Plus (Cls host_char), Cls (\<lambda>c. c = CHR ''.''),
     Alts [ILit ''com'', ILit ''net'', ILit ''org'', ILit ''io'']]), Bnd]"

definition promo_pattern :: re where
  "promo_pattern = Seqs [Bnd, Grp 1 (Alts [ILit ''code'', ILit ''promo'', ILit ''save'']),
     Plus (Cls py_space), Plus (Cls word_char), Bnd]"

definition phone_separator :: re where
  "phone_separator = Opt (Cls (\<lambda>c. c = CHR '' '' \<or> c = CHR ''-''))"

definition phone_pattern :: re where
  "phone_pattern = Seqs [Bnd, Rep 3 (Cls digit_char), phone_separator, Rep 3 (Cls digit_char),
     phone_separator, Rep 4 (Cls digit_char), Bnd]"

definition brand_pattern :: re where
  "brand_pattern = Seqs [Bnd, Cls upper_char, Plus (Cls lower_letter), Bnd]"

text \<open>\<open>counts[word] = counts.get(word, 0) + 1\<close> over the words longer than three characters;
  an association list in first-occurrence order, as the dict is.\<close>

fun bump_count :: "string \<Rightarrow> (string \<times> nat) list \<Rightarrow> (string \<times> nat) list" where
  "bump_count w [] = [(w, 1)]"
| "bump_count w ((v, n) # cs) = (if v = w then (v, n + 1) # cs else (v, n) # bump_count w cs)"

definition word_counts :: "string list \<Rightarrow> (string \<times> nat) list" where
  "word_counts words = foldl (\<lambda>counts word. if length word > 3 then bump_count word counts else counts) [] words"

definition extract_keywords :: "transcript_segment list \<Rightarrow> string list" where
  "extract_keywords segs =
     (let joined = join_with '' '' (map seg_text segs);
          txt = py_lower joined;
          urls = re_findall_group 1 url_pattern txt;
          promos = re_findall_group 1 promo_pattern txt;
          phone = (if re_found phone_pattern txt then [''phone''] else []);
          words = re_findall brand_pattern joined;
          brands = map (\<lambda>(w, c). py_lower w) (filter (\<lambda>(w, c). c \<ge> 2) (word_counts words))
      in remdups (urls @ promos @ phone @ brands))"

section \<open>Grouping, merging and filtering\<close>

text \<open>A dict comprehension keeps the last value of a repeated key.\<close>

definition id_lookup :: "identification list \<Rightarrow> int \<rightharpoonup> identification" where
  "id_lookup ids = map_of (rev (map (\<lambda>i. (transcript_segment_id i, i)) ids))"

definition create_group :: "transcript_segment list \<Rightarrow> (int \<rightharpoonup> identification) \<Rightarrow> ad_group" where
  "create_group segs lookup =
     (let ids = List.map_filter (\<lambda>s. lookup (seg_id s)) segs in
      \<lparr> segments = segs, identifications = ids,
        group_start = start_time (hd segs), group_end = end_time (last segs),
        confidence_avg = (if ids = [] then 0 else sum_list (map confidence ids) / real (length ids)),
        group_keywords = extract_keywords segs \<rparr>)"

fun group_by_proximity_loop ::
  "real \<Rightarrow> (int \<rightharpoonup> identification) \<Rightarrow> ad_group list \<Rightarrow> transcript_segment list \<Rightarrow> transcript_segment list \<Rightarrow>
   ad_group list" where
  "group_by_proximity_loop max_gap lookup groups current [] =
     (if current = [] then groups else groups @ [create_group current lookup])"
| "group_by_proximity_loop max_gap lookup groups current (seg # rest) =
     (if current = [] \<or> start_time seg - end_time (last current) \<le> max_gap
      then group_by_proximity_loop max_gap lookup groups (current @ [seg]) rest
      else group_by_proximity_loop max_gap lookup (groups @ [create_group current lookup]) [seg] rest)"

definition group_by_proximity ::
  "transcript_segment list \<Rightarrow> identification list \<Rightarrow> real \<Rightarrow> ad_group list" where
  "group_by_proximity segs ids max_gap = group_by_proximity_loop max_gap (id_lookup ids) [] [] segs"

definition should_merge :: "ad_group \<Rightarrow> ad_group \<Rightarrow> bool" where
  "should_merge group1 group2 =
     (if confidence_avg group1 \<ge> 9 / 10 \<and> confidence_avg group2 \<ge> 9 / 10 then True
      else if \<exists>k\<in>set (group_keywords group1). k \<in> set (group_keywords group2) then True
      else group_start group2 - group_end group1 \<le> 10 \<and>
        confidence_avg group1 \<ge> 8 / 10 \<and> confidence_avg group2 \<ge> 8 / 10)"

definition merge_groups :: "ad_group \<Rightarrow> ad_group \<Rightarrow> ad_group" where
  "merge_groups current next =
     \<lparr> segments = segments current @ segments next,
       identifications = identifications current @ identifications next,
       group_start = group_start current, group_end = group_end next,
       confidence_avg = (confidence_avg current + confidence_avg next) / 2,
       group_keywords = remdups (group_keywords current @ group_keywords next) \<rparr>"

fun refine_loop :: "real \<Rightarrow> ad_group list \<Rightarrow> ad_group list" where
  "refine_loop min_content_gap [] = []"
| "refine_loop min_content_gap [current] = [current]"
| "refine_loop min_content_gap (current # next_group # rest) =
     (if group_start next_group - group_end current \<le> min_content_gap \<and> should_merge current next_group
      then merge_groups current next_group # refine_loop min_content_gap rest
      else current # refine_loop min_content_gap (next_group # rest))"

definition refine_by_content :: "ad_group list \<Rightarrow> real \<Rightarrow> ad_group list" where
  "refine_by_content groups min_content_gap =
     (if length groups \<le> 1 then groups else refine_loop min_content_gap groups)"

definition is_valid_group :: "ad_group \<Rightarrow> bool" where
  "is_valid_group grp =
     (let duration = group_end grp - group_start grp in
      if duration > 180 \<and> group_keywords grp = [] \<and> confidence_avg grp < 9 / 10 then False
      else if length (segments grp) < 2 \<or> duration \<le> 10
      then length (group_keywords grp) \<ge> 1 \<or> confidence_avg grp \<ge> 9 / 10
      else True)"

definition merge_ads ::
  "transcript_segment list \<Rightarrow> identification list \<Rightarrow> real \<Rightarrow> real \<Rightarrow> ad_group list" where
  "merge_ads ad_segments ids max_gap min_content_gap =
     (if ad_segments = [] then []
      else let sorted_segments = sort_key start_time ad_segments;
               groups = group_by_proximity sorted_segments ids max_gap;
               refined = refine_by_content groups min_content_gap
           in filter is_valid_group refined)"

section \<open>Grouping partitions the segments\<close>

lemma segments_create_group [simp]: "segments (create_group segs lookup) = segs"
  by (simp add: create_group_def Let_def)

lemma group_times_create_group [simp]:
  "group_start (create_group segs lookup) = start_time (hd segs)"
  "group_end (create_group segs lookup) = end_time (last segs)"
  by (simp_all add: create_group_def Let_def)

lemma group_loop_concat:
  "concat (map segments (group_by_proximity_loop g lk groups cur segs)) =
     concat (map segments groups) @ cur @ segs"
  by (induction g lk groups cur segs rule: group_by_proximity_loop.induct) auto

lemma group_by_proximity_concat: "concat (map segments (group_by_proximity segs ids g)) = segs"
  by (simp add: group_by_proximity_def group_loop_concat)

text \<open>A well-formed group: not empty, its times those of its first and last segment.\<close>

definition wf_group :: "ad_group \<Rightarrow> bool" where
  "wf_group gr \<longleftrightarrow> segments gr \<noteq> [] \<and> group_start gr = start_time (hd (segments gr)) \<and>
     group_end gr = end_time (last (segments gr))"

definition close :: "real \<Rightarrow> transcript_segment list \<Rightarrow> bool" where
  "close gap segs \<longleftrightarrow> (\<forall>i. i + 1 < length segs \<longrightarrow> start_time (segs ! (i + 1)) - end_time (segs ! i) \<le> gap)"

lemma close_append1: "cur \<noteq> [] \<Longrightarrow> close gap cur \<Longrightarrow>
  start_time s - end_time (last cur) \<le> gap \<Longrightarrow> close gap (cur @ [s])"
  unfolding close_def by (auto simp: nth_append last_conv_nth less_Suc_eq)
    (metis One_nat_def Suc_lessI add_diff_cancel_left' plus_1_eq_Suc)

lemma close_single [simp]: "close gap [s]"
  by (simp add: close_def)

text \<open>Consecutive groups are more than \<open>gap\<close> apart.\<close>

fun groups_apart :: "real \<Rightarrow> ad_group list \<Rightarrow> bool" where
  "groups_apart gap (a # b # gs) \<longleftrightarrow> group_start b - group_end a > gap \<and> groups_apart gap (b # gs)"
| "groups_apart gap _ \<longleftrightarrow> True"

lemma groups_apart_append1:
  "groups_apart gap gs \<Longrightarrow> gs = [] \<or> group_start g - group_end (last gs) > gap \<Longrightarrow> groups_apart gap (gs @ [g])"
  by (induction gap gs rule: groups_apart.induct) auto

definition grouping :: "real \<Rightarrow> ad_group list \<Rightarrow> bool" where
  "grouping gap gs \<longleftrightarrow> (\<forall>g\<in>set gs. wf_group g \<and> close gap (segments g)) \<and> groups_apart gap gs"

lemma grouping_append1:
  assumes "grouping gap groups" and "close gap cur" and "cur \<noteq> []"
    and "groups = [] \<or> start_time (hd cur) - group_end (last groups) > gap"
  shows "grouping gap (groups @ [create_group cur lk])"
proof -
  have "groups_apart gap (groups @ [create_group cur lk])"
    using assms by (intro groups_apart_append1) (auto simp: grouping_def)
  with assms show ?thesis by (auto simp: grouping_def wf_group_def)
qed

lemma group_loop_grouping:
  assumes "grouping gap groups" and "close gap cur" and
    "cur \<noteq> [] \<Longrightarrow> groups = [] \<or> start_time (hd cur) - group_end (last groups) > gap" and
    "groups \<noteq> [] \<Longrightarrow> cur \<noteq> []"
  shows "grouping gap (group_by_proximity_loop gap lk groups cur segs)"
  using assms
proof (induction gap lk groups cur segs rule: group_by_proximity_loop.induct)
  case (1 gap lk groups cur)
  then show ?case by (simp add: grouping_append1)
next
  case (2 gap lk groups cur seg rest)
  show ?case
  proof (cases "cur = [] \<or> start_time seg - end_time (last cur) \<le> gap")
    case True
    have "close gap (cur @ [seg])" using True 2(4) close_append1 by (cases "cur = []") auto
    with True 2 show ?thesis by (cases "cur = []") auto
  next
    case False
    have "grouping gap (groups @ [create_group cur lk])"
      using False 2(3-5) by (simp add: grouping_append1)
    with False 2(2) show ?thesis by simp
  qed
qed

text \<open>Grouping by proximity partitions the segments in order: concatenating the groups
  gives the segments back, inside a group neighbours are at most \<open>max_gap\<close> apart, and
  between groups the gap is larger.\<close>

theorem group_by_proximity_partition:
  "concat (map segments (group_by_proximity segs ids gap)) = segs \<and>
   grouping gap (group_by_proximity segs ids gap)"
  using group_loop_grouping [of gap "[]" "[]" "id_lookup ids" segs]
  by (simp add: group_by_proximity_concat) (simp add: group_by_proximity_def grouping_def close_def)

section \<open>Refinement and filtering\<close>

lemma refine_loop_concat: "concat (map segments (refine_loop g gs)) = concat (map segments gs)"
  by (induction g gs rule: refine_loop.induct) (auto simp: merge_groups_def)

lemma wf_group_merge: "wf_group a \<Longrightarrow> wf_group b \<Longrightarrow> wf_group (merge_groups a b)"
  by (simp add: wf_group_def merge_groups_def)

lemma refine_loop_wf: "\<forall>x\<in>set gs. wf_group x \<Longrightarrow> \<forall>x\<in>set (refine_loop g gs). wf_group x"
  by (induction g gs rule: refine_loop.induct) (auto simp: wf_group_merge)

lemma refine_by_content_concat: "concat (map segments (refine_by_content gs g)) = concat (map segments gs)"
  by (simp add: refine_by_content_def refine_loop_concat)

lemma refine_by_content_wf: "\<forall>x\<in>set gs. wf_group x \<Longrightarrow> \<forall>x\<in>set (refine_by_content gs g). wf_group x"
  using refine_loop_wf by (simp add: refine_by_content_def)

lemma close_append:
  assumes "close g xs" and "close g ys" and "xs \<noteq> []" and "ys \<noteq> []"
    and "start_time (hd ys) - end_time (last xs) \<le> g"
  shows "close g (xs @ ys)"
  unfolding close_def
proof (intro allI impI)
  fix i assume i: "i + 1 < length (xs @ ys)"
  consider "i + 1 < length xs" | "i + 1 = length xs" | "length xs \<le> i" by linarith
  then show "start_time ((xs @ ys) ! (i + 1)) - end_time ((xs @ ys) ! i) \<le> g"
  proof cases
    case 1
    with assms(1) show ?thesis by (simp add: close_def nth_append)
  next
    case 2
    then have "i = length xs - 1" by simp
    with 2 assms(3-5) show ?thesis by (simp add: nth_append last_conv_nth hd_conv_nth)
  next
    case 3
    then have "i - length xs + 1 < length ys" using i by simp
    with assms(2) 3 show ?thesis by (simp add: close_def nth_append Suc_diff_le)
  qed
qed

lemma close_mono: "close g xs \<Longrightarrow> g \<le> h \<Longrightarrow> close h xs"
  by (force simp: close_def)

lemma refine_loop_close:
  assumes "\<forall>x\<in>set gs. wf_group x \<and> close h (segments x)" and "g \<le> h"
  shows "\<forall>x\<in>set (refine_loop g gs). close h (segments x)"
  using assms
proof (induction g gs rule: refine_loop.induct)
  case (3 g a b rest)
  then have "group_start b - group_end a \<le> g \<Longrightarrow> close h (segments a @ segments b)"
    by (intro close_append) (auto simp: wf_group_def)
  with 3 show ?case by (auto simp: merge_groups_def)
qed auto

lemma sorted_concat_filter:
  assumes "sorted (map f (concat (map h gs)))"
  shows "sorted (map f (concat (map h (filter P gs))))"
  using assms
  by (induction gs) (auto simp: sorted_append)

lemma mset_concat_filter: "mset (concat (map h (filter P gs))) \<subseteq># mset (concat (map h gs))"
  by (induction gs) (auto intro: subset_mset.add_mono subset_mset.trans mset_subset_eq_add_right)

text \<open>The merged ad groups come from the segments the classifier marked and from nothing
  else: together they hold a sub-multiset of those segments, in order of their start, each
  group's times are those of its first and last segment, and inside a group no silence is
  longer than the larger of the two gap limits.\<close>

theorem merge_ads_sound:
  "mset (concat (map segments (merge_ads ads ids max_gap content_gap))) \<subseteq># mset ads \<and>
   sorted (map start_time (concat (map segments (merge_ads ads ids max_gap content_gap)))) \<and>
   (\<forall>gr\<in>set (merge_ads ads ids max_gap content_gap).
      wf_group gr \<and> is_valid_group gr \<and> close (max max_gap content_gap) (segments gr))"
proof (cases "ads = []")
  case False
  let ?s = "sort_key start_time ads"
  let ?G = "group_by_proximity ?s ids max_gap"
  let ?R = "refine_by_content ?G content_gap"
  have m: "merge_ads ads ids max_gap content_gap = filter is_valid_group ?R"
    using False by (simp add: merge_ads_def Let_def)
  have conc: "concat (map segments ?R) = ?s"
    by (simp add: refine_by_content_concat group_by_proximity_concat)
  have G: "\<forall>x\<in>set ?G. wf_group x \<and> close (max max_gap content_gap) (segments x)"
    using group_loop_grouping [of max_gap "[]" "[]" "id_lookup ids" ?s]
    by (auto simp: group_by_proximity_def grouping_def close_def [of _ "[]"] intro: close_mono)
  have "\<forall>x\<in>set ?R. close (max max_gap content_gap) (segments x)"
    using refine_loop_close [OF G, of content_gap] G by (simp add: refine_by_content_def)
  moreover have "\<forall>x\<in>set ?R. wf_group x" using G by (intro refine_by_content_wf) auto
  moreover have "mset (concat (map segments (filter is_valid_group ?R))) \<subseteq># mset ads"
    using mset_concat_filter [of segments is_valid_group ?R] by (simp only: conc mset_sort)
  moreover have "sorted (map start_time (concat (map segments (filter is_valid_group ?R))))"
    by (rule sorted_concat_filter) (simp only: conc sorted_sort_key)
  ultimately show ?thesis unfolding m by auto
qed (simp add: merge_ads_def)

definition demo_segment :: "int \<Rightarrow> seconds \<Rightarrow> seconds \<Rightarrow> transcript_segment" where
  "demo_segment n s e = \<lparr>seg_id = n, seg_post_id = 1, sequence_num = n, start_time = s, end_time = e, seg_text = []\<rparr>"

definition demo_identification :: "int \<Rightarrow> identification" where
  "demo_identification n = \<lparr>ident_id = n, transcript_segment_id = n, model_call_id = 1, confidence = 1, ident_label = ''ad''\<rparr>"

lemma demo_groups:
  "length (merge_ads [demo_segment 1 0 9, demo_segment 2 10 19] [demo_identification 1, demo_identification 2] 8 12) = 1"
  by code_simp

theorem merge_ads_sound_witness:
  "let ads = [demo_segment 1 0 9, demo_segment 2 10 19];
       out = merge_ads ads [demo_identification 1, demo_identification 2] 8 12 in
   out \<noteq> [] \<and> mset (concat (map segments out)) \<subseteq># mset ads \<and>
   (\<forall>gr\<in>set out. wf_group gr \<and> is_valid_group gr \<and> close (max 8 12) (segments gr))"
  using demo_groups merge_ads_sound [of "[demo_segment 1 0 9, demo_segment 2 10 19]"
      "[demo_identification 1, demo_identification 2]" 8 12]
  unfolding Let_def by fastforce

end
