(* ===== verification/PyJson.thy ===== *)
theory PyJson
  imports PyRegex
begin

text \<open>
  Values of JSON columns and of decoded model replies, and Python's conversions of such
  values: \<open>int(s)\<close> and \<open>float(s)\<close> on strings (decimal notation with an optional sign,
  fraction and exponent; the spellings \<open>inf\<close>, \<open>nan\<close> and digit groups are not modelled),
  \<open>float(v)\<close> on a JSON value, and truth values.
\<close>

datatype json =
    JNull
  | JBool bool
  | JNum real
  | JStr string
  | JList "json list"
  | JObj "(string \<times> json) list"

definition parse_digits :: "string \<Rightarrow> nat option" where
  "parse_digits s = (if s \<noteq> [] \<and> list_all digit_char s
     then Some (foldl (\<lambda>n c. 10 * n + (of_char c - 48)) 0 s) else None)"

definition split_sign :: "string \<Rightarrow> int \<times> string" where
  "split_sign s = (case s of
       [] \<Rightarrow> (1, [])
     | c # r \<Rightarrow> if c = CHR ''-'' then (- 1, r) else if c = CHR ''+'' then (1, r) else (1, s))"

definition py_int_str :: "string \<Rightarrow> int option" where
  "py_int_str s = (let (sg, body) = split_sign (py_strip s) in
     map_option (\<lambda>n. sg * int n) (parse_digits body))"

definition parse_mantissa :: "string \<Rightarrow> real option" where
  "parse_mantissa s = (case split_on CHR ''.'' s of
       [a] \<Rightarrow> map_option real (parse_digits a)
     | [a, b] \<Rightarrow>
         if a = [] \<and> b = [] then None
         else (case (if a = [] then Some 0 else parse_digits a, if b = [] then Some 0 else parse_digits b) of
             (Some m, Some n) \<Rightarrow> Some (real m + real n / 10 ^ length b)
           | _ \<Rightarrow> None)
     | _ \<Rightarrow> None)"

definition power10 :: "int \<Rightarrow> real" where
  "power10 k = (if 0 \<le> k then 10 ^ nat k else 1 / 10 ^ nat (- k))"

definition py_float_str :: "string \<Rightarrow> real option" where
  "py_float_str s = (let (sg, body) = split_sign (py_lower (py_strip s)) in
     case split_on CHR ''e'' body of
       [m] \<Rightarrow> map_option (\<lambda>x. of_int sg * x) (parse_mantissa m)
     | [m, e] \<Rightarrow> (let (esg, eb) = split_sign e in
         case (parse_mantissa m, parse_digits eb) of
           (Some x, Some k) \<Rightarrow> Some (of_int sg * x * power10 (esg * int k))
         | _ \<Rightarrow> None)
     | _ \<Rightarrow> None)"

text \<open>\<open>float(v)\<close>; None where Python raises TypeError or ValueError.\<close>

fun py_float :: "json \<Rightarrow> real option" where
  "py_float (JNum r) = Some r"
| "py_float (JBool b) = Some (if b then 1 else 0)"
| "py_float (JStr s) = py_float_str s"
| "py_float _ = None"

fun truthy :: "json \<Rightarrow> bool" where
  "truthy JNull = False"
| "truthy (JBool b) = b"
| "truthy (JNum r) = (r \<noteq> 0)"
| "truthy (JStr s) = (s \<noteq> [])"
| "truthy (JList xs) = (xs \<noteq> [])"
| "truthy (JObj kvs) = (kvs \<noteq> [])"

text \<open>\<open>d.get(k)\<close> on a decoded object: the last of several equal keys wins; None reads as null.\<close>

definition obj_get :: "(string \<times> json) list \<Rightarrow> string \<Rightarrow> json" where
  "obj_get kvs k = (case map_of (rev kvs) k of None \<Rightarrow> JNull | Some v \<Rightarrow> v)"

definition obj_has :: "(string \<times> json) list \<Rightarrow> string \<Rightarrow> bool" where
  "obj_has kvs k \<longleftrightarrow> k \<in> fst ` set kvs"

end
