(* ===== verification/AudioProc.thy ===== *)
theory AudioProc
  imports AdMerge AudioWindows PyJson
begin

text \<open>
  \<open>src/podcast_processor/audio_processor.py\<close>: from the stored ad identifications of a post to
  the millisecond windows the cutter removes.  The database tables are lists of rows; a load
  that may raise is an option; the Rust sidecar's answer and the two duration probes are
  arguments.
\<close>

record time_window =
  tw_start :: seconds
  tw_end :: seconds

record refined_boundary =
  orig_start :: seconds
  orig_end :: seconds
  refined_start :: seconds
  refined_end :: seconds

record model_call_row =
  mc_id :: int
  mc_status :: string

record audio_process_result =
  removed_segments_ms :: "millis window list"
  source_duration_ms :: millis
  effective_removed_windows_ms :: "millis window list option"

definition ATOMIC_AD_BLOCK_GAP_SECONDS :: seconds where
  "ATOMIC_AD_BLOCK_GAP_SECONDS = 10"

definition REFINED_BOUNDARY_MATCH_TOLERANCE_SECONDS :: seconds where
  "REFINED_BOUNDARY_MATCH_TOLERANCE_SECONDS = 3 / 4"

definition EPISODE_EDGE_FRAGMENT_WINDOW_SECONDS :: seconds where
  "EPISODE_EDGE_FRAGMENT_WINDOW_SECONDS = 30"

definition SHORT_EDGE_FRAGMENT_MERGE_GAP_SECONDS :: seconds where
  "SHORT_EDGE_FRAGMENT_MERGE_GAP_SECONDS = 20"

definition MIN_NEIGHBOR_AD_DURATION_FOR_EDGE_MERGE_SECONDS :: seconds where
  "MIN_NEIGHBOR_AD_DURATION_FOR_EDGE_MERGE_SECONDS = 15"

lemmas edge_constants =
  ATOMIC_AD_BLOCK_GAP_SECONDS_def REFINED_BOUNDARY_MATCH_TOLERANCE_SECONDS_def
  EPISODE_EDGE_FRAGMENT_WINDOW_SECONDS_def SHORT_EDGE_FRAGMENT_MERGE_GAP_SECONDS_def
  MIN_NEIGHBOR_AD_DURATION_FOR_EDGE_MERGE_SECONDS_def

section \<open>Refined boundaries\<close>

definition parse_refined_item :: "json \<Rightarrow> refined_boundary option" where
  "parse_refined_item item = (case item of
     JObj kvs \<Rightarrow>
       (let o_start_raw = obj_get kvs ''orig_start''; o_end_raw = obj_get kvs ''orig_end'';
            r_start_raw = obj_get kvs ''refined_start''; r_end_raw = obj_get kvs ''refined_end'' in
        if o_start_raw = JNull \<or> o_end_raw = JNull \<or> r_start_raw = JNull \<or> r_end_raw = JNull then None
        else case (py_float o_start_raw, py_float o_end_raw, py_float r_start_raw, py_float r_end_raw) of
            (Some o_start, Some o_end, Some r_start, Some r_end) \<Rightarrow>
              if o_end \<le> o_start \<or> r_end \<le> r_start then None
              else Some \<lparr>orig_start = o_start, orig_end = o_end, refined_start = r_start, refined_end = r_end\<rparr>
          | _ \<Rightarrow> None)
   | _ \<Rightarrow> None)"

definition parse_refined_boundaries :: "json \<Rightarrow> refined_boundary list" where
  "parse_refined_boundaries refined = (case refined of
     JList items \<Rightarrow> List.map_filter parse_refined_item items
   | _ \<Rightarrow> [])"

definition load_refined_boundaries :: "bool \<Rightarrow> json option \<Rightarrow> refined_boundary list" where
  "load_refined_boundaries enable_boundary_refinement post_row_refined =
     (if \<not> enable_boundary_refinement then []
      else case post_row_refined of None \<Rightarrow> [] | Some refined \<Rightarrow> parse_refined_boundaries refined)"

fun atomic_blocks_loop ::
  "seconds \<Rightarrow> seconds \<Rightarrow> time_window list \<Rightarrow> transcript_segment list \<Rightarrow> time_window list" where
  "atomic_blocks_loop current_start current_end blocks [] =
     blocks @ [\<lparr>tw_start = current_start, tw_end = current_end\<rparr>]"
| "atomic_blocks_loop current_start current_end blocks (segment # rest) =
     (if start_time segment - current_end \<le> ATOMIC_AD_BLOCK_GAP_SECONDS
      then atomic_blocks_loop current_start (max current_end (end_time segment)) blocks rest
      else atomic_blocks_loop (start_time segment) (end_time segment)
        (blocks @ [\<lparr>tw_start = current_start, tw_end = current_end\<rparr>]) rest)"

definition atomic_ad_blocks_for_group :: "ad_group \<Rightarrow> time_window list" where
  "atomic_ad_blocks_for_group gr = (case sort_key start_time (segments gr) of
     [] \<Rightarrow> []
   | s # rest \<Rightarrow> atomic_blocks_loop (start_time s) (end_time s) [] rest)"

definition boundary_overlap :: "time_window \<Rightarrow> refined_boundary \<Rightarrow> real" where
  "boundary_overlap block refined =
     min (tw_end block + REFINED_BOUNDARY_MATCH_TOLERANCE_SECONDS)
         (orig_end refined + REFINED_BOUNDARY_MATCH_TOLERANCE_SECONDS)
     - max (tw_start block - REFINED_BOUNDARY_MATCH_TOLERANCE_SECONDS)
           (orig_start refined - REFINED_BOUNDARY_MATCH_TOLERANCE_SECONDS)"

fun best_match_loop ::
  "time_window \<Rightarrow> refined_boundary option \<Rightarrow> real \<Rightarrow> refined_boundary list \<Rightarrow> refined_boundary option \<times> real" where
  "best_match_loop block best_match best_overlap [] = (best_match, best_overlap)"
| "best_match_loop block best_match best_overlap (refined # rest) =
     (let overlap = boundary_overlap block refined in
      if overlap > best_overlap then best_match_loop block (Some refined) overlap rest
      else best_match_loop block best_match best_overlap rest)"

definition best_refined_boundary_match :: "time_window \<Rightarrow> refined_boundary list \<Rightarrow> refined_boundary option" where
  "best_refined_boundary_match block refined_boundaries =
     (let (best_match, best_overlap) = best_match_loop block None 0 refined_boundaries in
      if best_overlap > 0 then best_match else None)"

definition project_atomic_block :: "refined_boundary list \<Rightarrow> time_window \<Rightarrow> time_window" where
  "project_atomic_block refined_boundaries block =
     (case best_refined_boundary_match block refined_boundaries of
        None \<Rightarrow> block
      | Some matched \<Rightarrow> \<lparr>tw_start = refined_start matched, tw_end = refined_end matched\<rparr>)"

definition cut_window_for_ad_group :: "refined_boundary list \<Rightarrow> ad_group \<Rightarrow> seconds window" where
  "cut_window_for_ad_group refined_boundaries gr =
     (let atomic_blocks = atomic_ad_blocks_for_group gr in
      if atomic_blocks = [] then (group_start gr, group_end gr)
      else let projected = map (project_atomic_block refined_boundaries) atomic_blocks in
        (Min (set (map tw_start projected)), Max (set (map tw_end projected))))"

section \<open>The ad windows of a post\<close>

record processing_db =
  transcript_rows :: "transcript_segment list"
  identification_rows :: "identification list"
  model_call_rows :: "model_call_row list"

definition ad_identifications :: "processing_db \<Rightarrow> int \<Rightarrow> real \<Rightarrow> identification list" where
  "ad_identifications db pid min_confidence = filter (\<lambda>i.
     (\<exists>s\<in>set (transcript_rows db). seg_id s = transcript_segment_id i \<and> seg_post_id s = pid) \<and>
     (\<exists>m\<in>set (model_call_rows db). mc_id m = model_call_id i \<and> mc_status m = ''success'') \<and>
     ident_label i = ''ad'' \<and> confidence i \<ge> min_confidence) (identification_rows db)"

definition segment_of :: "processing_db \<Rightarrow> identification \<Rightarrow> transcript_segment option" where
  "segment_of db i = find (\<lambda>s. seg_id s = transcript_segment_id i) (transcript_rows db)"

text \<open>\<open>preceding\<close> is None when loading the leading transcript segments raised.\<close>

definition has_transcript_content_before_first_ad ::
  "transcript_segment list option \<Rightarrow> int \<Rightarrow> seconds window list \<Rightarrow> identification list \<Rightarrow> bool" where
  "has_transcript_content_before_first_ad rows pid ad_segments idents =
     (if ad_segments = [] then False
      else let first_start = Min (set (map fst ad_segments)) in
        if first_start > EPISODE_EDGE_FRAGMENT_WINDOW_SECONDS then False
        else let ad_segment_ids = set (map transcript_segment_id idents) in
          case rows of
            None \<Rightarrow> True
          | Some rs \<Rightarrow> list_ex (\<lambda>s. seg_id s \<notin> ad_segment_ids)
              (filter (\<lambda>s. seg_post_id s = pid \<and> start_time s < first_start) rs))"

record get_ads_env =
  env_db :: processing_db
  env_post_id :: int
  env_rust_segments :: "seconds window list option"
  env_audio_segments :: "audio_segment list option"
  env_leading_rows :: "transcript_segment list option"
  env_refined :: "json option"
  env_min_confidence :: real
  env_min_separation :: real
  env_boundary_refinement :: bool

definition get_ad_segments :: "get_ads_env \<Rightarrow> seconds window list" where
  "get_ad_segments env = (case env_rust_segments env of
     Some rust_segments \<Rightarrow> rust_segments
   | None \<Rightarrow>
      (let idents = ad_identifications (env_db env) (env_post_id env) (env_min_confidence env) in
       if idents = [] then []
       else let valid = filter (\<lambda>i. segment_of (env_db env) i \<noteq> None) idents;
                segs = List.map_filter (segment_of (env_db env)) idents in
       if segs = [] then []
       else let groups = merge_ads segs valid (env_min_separation env) 12;
                refined = load_refined_boundaries (env_boundary_refinement env) (env_refined env);
                times = map (cut_window_for_ad_group refined) groups;
                bridgeable = (case env_audio_segments env of
                    None \<Rightarrow> [] | Some a \<Rightarrow> extract_audio_windows None a);
                times1 = (if bridgeable = [] then times
                    else bridge_ad_windows_with_audio times bridgeable (3 / 4));
                edge = (case env_audio_segments env of
                    None \<Rightarrow> [] | Some a \<Rightarrow> extract_edge_audio_windows a);
                times2 = (if edge \<noteq> [] \<and> \<not> has_transcript_content_before_first_ad
                      (env_leading_rows env) (env_post_id env) times1 valid
                    then expand_episode_edge_ad_windows_with_audio times1 edge
                      EPISODE_EDGE_FRAGMENT_WINDOW_SECONDS EDGE_AUDIO_COVERAGE_TOLERANCE_SECONDS
                    else times1)
       in sort_key fst times2))"

end
