(* ===== verification/AdPlan.thy ===== *)
theory AdPlan
  imports AudioProc
begin

text \<open>
  \<open>AudioProcessor.merge_ad_segments\<close> and \<open>process_audio\<close>: from the ad windows of a post, in
  seconds, to the millisecond windows handed to the cutter and the record written back to the
  post.  The in-place index loop of \<open>_merge_close_segments\<close> is kept as the code has it and
  proved equal to a structural one.
\<close>

definition get_last_segment_if_near_end ::
  "seconds window list \<Rightarrow> seconds \<Rightarrow> seconds \<Rightarrow> seconds window option" where
  "get_last_segment_if_near_end ad_segments audio_duration_seconds min_separation =
     (if ad_segments = [] then None
      else if audio_duration_seconds - snd (last ad_segments) < min_separation
      then Some (last ad_segments) else None)"

definition merge_leading_fragment :: "seconds \<Rightarrow> seconds window list \<Rightarrow> seconds window list" where
  "merge_leading_fragment min_length ad_segments = (case ad_segments of
     w0 # w1 # rest \<Rightarrow>
       (if fst w0 \<le> EPISODE_EDGE_FRAGMENT_WINDOW_SECONDS
           \<and> snd w0 - fst w0 < min_length
           \<and> snd w1 - fst w1 \<ge> MIN_NEIGHBOR_AD_DURATION_FOR_EDGE_MERGE_SECONDS
           \<and> fst w1 - snd w0 \<le> SHORT_EDGE_FRAGMENT_MERGE_GAP_SECONDS
        then (fst w0, snd w1) # rest else ad_segments)
   | _ \<Rightarrow> ad_segments)"

definition merge_trailing_fragment ::
  "seconds \<Rightarrow> seconds \<Rightarrow> seconds window list \<Rightarrow> seconds window list" where
  "merge_trailing_fragment audio_duration_seconds min_length merged =
     (if length merged < 2 then merged
      else let lst = last merged; prev = last (butlast merged) in
        if audio_duration_seconds - snd lst \<le> EPISODE_EDGE_FRAGMENT_WINDOW_SECONDS
           \<and> snd lst - fst lst < min_length
           \<and> snd prev - fst prev \<ge> MIN_NEIGHBOR_AD_DURATION_FOR_EDGE_MERGE_SECONDS
           \<and> fst lst - snd prev \<le> SHORT_EDGE_FRAGMENT_MERGE_GAP_SECONDS
        then butlast (butlast merged) @ [(fst prev, snd lst)] else merged)"

definition merge_short_episode_edge_segments ::
  "seconds window list \<Rightarrow> seconds \<Rightarrow> seconds \<Rightarrow> seconds window list" where
  "merge_short_episode_edge_segments ad_segments audio_duration_seconds min_length =
     (if length ad_segments < 2 then ad_segments
      else merge_trailing_fragment audio_duration_seconds min_length
        (merge_leading_fragment min_length ad_segments))"

text \<open>The loop state is the list being edited and the index \<open>i\<close>.\<close>

function merge_close_loop :: "seconds \<Rightarrow> seconds window list \<Rightarrow> nat \<Rightarrow> seconds window list" where
  "merge_close_loop min_separation merged i =
     (if i + 1 < length merged
      then if snd (merged ! i) + min_separation \<ge> fst (merged ! (i + 1))
        then merge_close_loop min_separation
          (take i merged @ (fst (merged ! i), snd (merged ! (i + 1))) # drop (i + 2) merged) i
        else merge_close_loop min_separation merged (i + 1)
      else merged)"
  by pat_completeness auto
termination by (relation "measure (\<lambda>(s, m, i). length m - i)") auto

declare merge_close_loop.simps [simp del]

definition merge_close_segments :: "seconds window list \<Rightarrow> seconds \<Rightarrow> seconds window list" where
  "merge_close_segments ad_segments min_separation = merge_close_loop min_separation ad_segments 0"

definition filter_short_segments :: "seconds window list \<Rightarrow> seconds \<Rightarrow> seconds window list" where
  "filter_short_segments ad_segments min_length = filter (\<lambda>s. snd s - fst s \<ge> min_length) ad_segments"

definition restore_last_segment_if_needed ::
  "seconds window list \<Rightarrow> seconds window option \<Rightarrow> seconds window list" where
  "restore_last_segment_if_needed ad_segments last_segment = (case last_segment of
     None \<Rightarrow> ad_segments
   | Some l \<Rightarrow>
       if list_ex (\<lambda>s. fst s \<le> fst l \<and> snd s \<ge> snd l) ad_segments then ad_segments
       else ad_segments @ [l])"

definition extend_last_segment_to_end_if_needed ::
  "seconds window list \<Rightarrow> seconds \<Rightarrow> seconds \<Rightarrow> seconds window list" where
  "extend_last_segment_to_end_if_needed ad_segments audio_duration_seconds min_separation =
     (if ad_segments = [] then ad_segments
      else if audio_duration_seconds - snd (last ad_segments) < min_separation
      then butlast ad_segments @ [(fst (last ad_segments), audio_duration_seconds)]
      else ad_segments)"

definition to_ms :: "seconds window \<Rightarrow> millis window" where
  "to_ms w = (py_int (fst w * 1000), py_int (snd w * 1000))"

text \<open>The windows in seconds, before the conversion to milliseconds that ends the method.\<close>

definition merged_ad_seconds :: "seconds \<Rightarrow> seconds window list \<Rightarrow> seconds \<Rightarrow> seconds \<Rightarrow> seconds window list" where
  "merged_ad_seconds audio_duration_seconds ad_segments0 min_length min_separation =
     (let ad_segments1 = sort ad_segments0;
          last_segment = get_last_segment_if_near_end ad_segments1 audio_duration_seconds min_separation;
          ad_segments2 = merge_short_episode_edge_segments ad_segments1 audio_duration_seconds min_length;
          ad_segments3 = merge_close_segments ad_segments2 min_separation;
          ad_segments4 = filter_short_segments ad_segments3 min_length;
          ad_segments5 = restore_last_segment_if_needed ad_segments4 last_segment
      in extend_last_segment_to_end_if_needed ad_segments5 audio_duration_seconds min_separation)"

definition merge_ad_segments ::
  "millis \<Rightarrow> seconds window list \<Rightarrow> seconds \<Rightarrow> seconds \<Rightarrow> millis window list" where
  "merge_ad_segments duration_ms ad_segments min_ad_segment_length_seconds min_ad_segment_separation_seconds =
     (if ad_segments = [] then []
      else map to_ms (merged_ad_seconds (of_int duration_ms / 1000) ad_segments
        min_ad_segment_length_seconds min_ad_segment_separation_seconds))"

definition effective_removed_windows :: "millis window list \<Rightarrow> millis \<Rightarrow> millis window list" where
  "effective_removed_windows windows_ms fade_ms =
     (let fade = max 0 fade_ms in
      map (\<lambda>w. if snd w - fst w > 2 * fade then (fst w + fade, snd w - fade) else w) windows_ms)"

text \<open>
  \<open>process_audio\<close>.  The two probes, the cutter and the write to the post are outside this
  file, so their outcomes are arguments; the cutter's exception propagates.
\<close>

datatype process_error = NoDuration | CutFailed | UpdateFailed

record post_cut_update =
  upd_duration :: seconds
  upd_removed_ad_windows :: "seconds window list"
  upd_original_duration_seconds :: seconds
  upd_cut_stats_source :: string

record output_config =
  min_ad_segment_length_seconds :: seconds
  min_ad_segement_separation_seconds :: seconds
  fade_ms_cfg :: millis

definition py_round3 :: "real \<Rightarrow> real" where
  "py_round3 x = of_int (py_round (x * 1000)) / 1000"

definition process_audio ::
  "output_config \<Rightarrow> seconds window list \<Rightarrow> millis option \<Rightarrow> bool \<Rightarrow> millis option \<Rightarrow>
   (post_cut_update \<Rightarrow> bool) \<Rightarrow> process_error + audio_process_result \<times> post_cut_update" where
  "process_audio cfg ad_segments source_duration cut_ok processed_duration write_ok =
     (case source_duration of
        None \<Rightarrow> Inl NoDuration
      | Some duration_ms \<Rightarrow>
         (let merged = merge_ad_segments duration_ms ad_segments (min_ad_segment_length_seconds cfg)
                (min_ad_segement_separation_seconds cfg) in
          if \<not> cut_ok then Inl CutFailed
          else let processed_duration_ms = (case processed_duration of None \<Rightarrow> duration_ms | Some p \<Rightarrow> p);
                   effective = effective_removed_windows merged (fade_ms_cfg cfg);
                   upd = \<lparr>upd_duration = of_int processed_duration_ms / 1000,
                     upd_removed_ad_windows = map (\<lambda>w. (py_round3 (of_int (fst w) / 1000),
                        py_round3 (of_int (snd w) / 1000))) effective,
                     upd_original_duration_seconds = py_round3 (of_int duration_ms / 1000),
                     upd_cut_stats_source = ''recorded''\<rparr>
            in if \<not> write_ok upd then Inl UpdateFailed
               else Inr (\<lparr>removed_segments_ms = merged, source_duration_ms = duration_ms,
                  effective_removed_windows_ms = Some effective\<rparr>, upd)))"

section \<open>The index loop is a structural merge\<close>

fun close_runs :: "seconds \<Rightarrow> seconds window \<Rightarrow> seconds window list \<Rightarrow> seconds window list" where
  "close_runs sep c [] = [c]"
| "close_runs sep c (w # ws) =
     (if snd c + sep \<ge> fst w then close_runs sep (fst c, snd w) ws else c # close_runs sep w ws)"

lemma merge_close_loop_eq: "merge_close_loop sep (acc @ c # ws) (length acc) = acc @ close_runs sep c ws"
proof (induction ws arbitrary: acc c)
  case Nil
  then show ?case by (simp add: merge_close_loop.simps)
next
  case (Cons w ws)
  show ?case
  proof (cases "snd c + sep \<ge> fst w")
    case True
    then show ?thesis using Cons [of acc "(fst c, snd w)"]
      by (subst merge_close_loop.simps) (simp add: nth_append)
  next
    case False
    then show ?thesis using Cons [of "acc @ [c]" w]
      by (subst merge_close_loop.simps) (simp add: nth_append)
  qed
qed

lemma merge_close_segments_eq:
  "merge_close_segments ws sep = (case ws of [] \<Rightarrow> [] | c # rest \<Rightarrow> close_runs sep c rest)"
  using merge_close_loop_eq [of sep "[]"]
  by (cases ws) (simp_all add: merge_close_segments_def merge_close_loop.simps [of sep "[]"])

lemma close_runs_sorted_ends:
  "sorted (map snd (c # ws)) \<Longrightarrow> close_runs sep c ws = merge_runs sep (fst c) (snd c) ws"
  by (induction ws arbitrary: c) (auto simp: max_def)


section \<open>Every merging stage fuses neighbours\<close>

text \<open>
  The three merging stages only ever replace two neighbouring windows by the window from the
  first one's start to the second one's end, where the two are at most \<open>g\<close> apart.
\<close>

inductive fuses :: "seconds \<Rightarrow> seconds window list \<Rightarrow> seconds window list \<Rightarrow> bool"
  for g :: seconds and xs :: "seconds window list" where
  fuses_refl: "fuses g xs xs"
| fuses_step: "fuses g xs (as @ v # w # bs) \<Longrightarrow> fst w \<le> snd v + g \<Longrightarrow> fuses g xs (as @ (fst v, snd w) # bs)"

lemma fuses_mono: "fuses g xs ys \<Longrightarrow> g \<le> h \<Longrightarrow> fuses h xs ys"
  by (induction rule: fuses.induct) (auto intro: fuses.intros)

lemma fuses_close_runs:
  "fuses g xs (acc @ c # ws) \<Longrightarrow> sep \<le> g \<Longrightarrow> fuses g xs (acc @ close_runs sep c ws)"
proof (induction ws arbitrary: acc c)
  case (Cons w ws)
  show ?case
  proof (cases "snd c + sep \<ge> fst w")
    case True
    with Cons.prems have "fuses g xs (acc @ (fst c, snd w) # ws)" by (intro fuses_step) auto
    with True Cons show ?thesis by simp
  next
    case False
    with Cons.prems Cons.IH [of "acc @ [c]" w] show ?thesis by simp
  qed
qed simp

lemma fuses_merge_close:
  assumes "fuses g xs ys" and "sep \<le> g"
  shows "fuses g xs (merge_close_segments ys sep)"
  using assms fuses_close_runs [of g xs "[]" _ _ sep]
  by (auto simp: merge_close_segments_eq split: list.split)

lemma fuses_leading:
  assumes "20 \<le> g"
  shows "fuses g xs (merge_leading_fragment m xs)"
proof (cases "\<exists>w0 w1 rest. xs = w0 # w1 # rest")
  case True
  then obtain w0 w1 rest where xs: "xs = w0 # w1 # rest" by blast
  have "fuses g xs ([] @ w0 # w1 # rest)" by (simp add: xs fuses_refl)
  from fuses_step [OF this] assms show ?thesis
    by (simp add: merge_leading_fragment_def xs edge_constants fuses_refl)
next
  case False
  then have "merge_leading_fragment m xs = xs"
    unfolding merge_leading_fragment_def by (simp split: list.split)
  then show ?thesis by (simp add: fuses_refl)
qed

lemma last_two:
  assumes "\<not> length ys < 2"
  obtains front p l where "ys = front @ [p, l]"
proof (cases ys rule: rev_cases)
  case (snoc zs l)
  with assms that show ?thesis by (cases zs rule: rev_cases) auto
qed (use assms in simp)

lemma fuses_trailing:
  assumes "fuses g xs ys" and "20 \<le> g"
  shows "fuses g xs (merge_trailing_fragment d m ys)"
proof (cases "length ys < 2")
  case False
  then obtain front p l where ys: "ys = front @ [p, l]" by (rule last_two)
  have "merge_trailing_fragment d m ys = ys \<or>
      fst l \<le> snd p + g \<and> merge_trailing_fragment d m ys = front @ [(fst p, snd l)]"
    using assms(2)
    by (simp add: merge_trailing_fragment_def Let_def butlast_append edge_constants ys)
  moreover have "fuses g xs (front @ [(fst p, snd l)])" if "fst l \<le> snd p + g"
    using assms(1) that unfolding ys by (rule fuses_step)
  ultimately show ?thesis using assms(1) by auto
qed (use assms in \<open>simp add: merge_trailing_fragment_def\<close>)

lemma fuses_edges: "20 \<le> g \<Longrightarrow> fuses g xs (merge_short_episode_edge_segments xs d m)"
  by (auto simp: merge_short_episode_edge_segments_def fuses_refl intro: fuses_trailing fuses_leading)

definition same_frame :: "seconds window list \<Rightarrow> seconds window list \<Rightarrow> bool" where
  "same_frame xs ys \<longleftrightarrow> ys \<noteq> [] \<and> sorted (map fst ys) \<and> proper ys \<and>
     snd (last ys) = snd (last xs) \<and> fst (last ys) \<le> fst (last xs) \<and>
     fst ` set ys \<subseteq> fst ` set xs \<and> snd ` set ys \<subseteq> snd ` set xs"

lemma fuses_same_frame:
  assumes "fuses g xs ys" and "same_frame xs xs"
  shows "same_frame xs ys"
  using assms
proof (induction rule: fuses.induct)
  case (fuses_step as v w bs)
  then have IH: "same_frame xs (as @ v # w # bs)" by simp
  then have "fst v \<le> fst w" "fst w \<le> snd w"
    by (auto simp: same_frame_def sorted_append proper_def)
  moreover have "snd (last (as @ (fst v, snd w) # bs)) = snd (last (as @ v # w # bs))" by simp
  moreover have "fst (last (as @ (fst v, snd w) # bs)) \<le> fst (last (as @ v # w # bs))"
    using \<open>fst v \<le> fst w\<close> by simp
  ultimately show ?case using IH
    by (fastforce simp: same_frame_def sorted_append proper_def)
qed

lemma fuses_covers:
  assumes "fuses g xs ys" and "sorted (map fst xs)" and "sorted (map snd xs)"
  shows "sorted (map fst ys) \<and> sorted (map snd ys) \<and> (\<forall>x\<in>set xs. \<exists>m\<in>set ys. fst m \<le> fst x \<and> snd x \<le> snd m)"
  using assms
proof (induction rule: fuses.induct)
  case (fuses_step as v w bs)
  then have IH: "sorted (map fst (as @ v # w # bs))" "sorted (map snd (as @ v # w # bs))"
    "\<forall>x\<in>set xs. \<exists>m\<in>set (as @ v # w # bs). fst m \<le> fst x \<and> snd x \<le> snd m" by auto
  then have vw: "fst v \<le> fst w" "snd v \<le> snd w" by (auto simp: sorted_append)
  have "\<exists>m\<in>set (as @ (fst v, snd w) # bs). fst m \<le> fst x \<and> snd x \<le> snd m" if "x \<in> set xs" for x
  proof -
    from IH(3) that obtain m where m: "m \<in> set (as @ v # w # bs)" "fst m \<le> fst x" "snd x \<le> snd m"
      by blast
    then consider "m \<in> set as \<or> m \<in> set bs" | "m = v \<or> m = w" by auto
    then show ?thesis
    proof cases
      case 2
      with vw m have "fst (fst v, snd w) \<le> fst x \<and> snd x \<le> snd (fst v, snd w)" by auto
      then show ?thesis by (intro bexI [of _ "(fst v, snd w)"]) simp_all
    qed (use m in \<open>auto intro!: bexI [of _ m]\<close>)
  qed
  moreover from IH vw have "sorted (map fst (as @ (fst v, snd w) # bs))"
    by (auto simp: sorted_append)
  moreover from IH vw have "sorted (map snd (as @ (fst v, snd w) # bs))"
    by (auto simp: sorted_append)
  ultimately show ?case by blast
qed auto

lemma fuses_adds_only_gaps:
  assumes "fuses g xs ys" and "same_frame xs xs" and "x \<in> cover ys"
  shows "x \<in> cover xs \<or> in_small_gap g xs x"
  using assms
proof (induction rule: fuses.induct)
  case (fuses_step as v w bs)
  from fuses_same_frame [OF fuses_step.hyps(1) fuses_step.prems(1)]
  have ends: "snd v \<in> snd ` set xs" "fst w \<in> fst ` set xs" by (auto simp: same_frame_def)
  show ?case
  proof (cases "x \<in> cover (as @ v # w # bs)")
    case False
    with fuses_step.prems(2) have "snd v \<le> x" "x < fst w" by auto
    with ends fuses_step.hyps(2) show ?thesis unfolding in_small_gap_def by force
  qed (use fuses_step in blast)
qed simp

lemma close_runs_separated:
  assumes "0 \<le> sep" and "sorted (map fst (c # ws))" and "proper (c # ws)"
  shows "separated sep (close_runs sep c ws) \<and> fst (hd (close_runs sep c ws)) = fst c"
  using assms
proof (induction ws arbitrary: c)
  case (Cons w ws)
  show ?case
  proof (cases "snd c + sep \<ge> fst w")
    case True
    with Cons show ?thesis by auto
  next
    case False
    with Cons have IH: "separated sep (close_runs sep w ws)" "fst (hd (close_runs sep w ws)) = fst w"
      by auto
    from separated_sorted_fst [OF IH(1) Cons.prems(1)] IH(2)
    have "\<forall>m\<in>set (close_runs sep w ws). fst w \<le> fst m"
      by (cases "close_runs sep w ws") auto
    with IH(1) False Cons.prems show ?thesis by (force simp: separated_Cons)
  qed
qed (simp add: separated_Cons)

lemma merge_close_separated:
  "0 \<le> sep \<Longrightarrow> same_frame xs ys \<Longrightarrow> separated sep (merge_close_segments ys sep)"
  using close_runs_separated by (auto simp: merge_close_segments_eq same_frame_def split: list.split)


section \<open>The windows in seconds\<close>

text \<open>What the callers guarantee of the ad windows: inside the episode and not inverted.\<close>

definition ads_within :: "seconds \<Rightarrow> seconds window list \<Rightarrow> bool" where
  "ads_within dur ads \<longleftrightarrow> (\<forall>w\<in>set ads. 0 \<le> fst w \<and> fst w \<le> snd w \<and> snd w \<le> dur)"

abbreviation closed_ads :: "seconds \<Rightarrow> seconds window list \<Rightarrow> seconds \<Rightarrow> seconds \<Rightarrow> seconds window list" where
  "closed_ads dur ads len sep \<equiv>
     merge_close_segments (merge_short_episode_edge_segments (sort ads) dur len) sep"

abbreviation restored_ads :: "seconds \<Rightarrow> seconds window list \<Rightarrow> seconds \<Rightarrow> seconds \<Rightarrow> seconds window list" where
  "restored_ads dur ads len sep \<equiv>
     restore_last_segment_if_needed (filter_short_segments (closed_ads dur ads len sep) len)
       (get_last_segment_if_near_end (sort ads) dur sep)"

lemma sort_frame: "ads \<noteq> [] \<Longrightarrow> ads_within dur ads \<Longrightarrow> same_frame (sort ads) (sort ads)"
  by (auto simp: same_frame_def ads_within_def proper_def sorted_map_fst_sort)
    (metis length_0_conv length_sort)

lemma closed_ads_fuses: "fuses (max sep 20) (sort ads) (closed_ads dur ads len sep)"
  by (intro fuses_merge_close fuses_edges) auto

lemma closed_ads_frame:
  assumes "ads \<noteq> []" and "ads_within dur ads"
  shows "same_frame (sort ads) (closed_ads dur ads len sep)"
  using closed_ads_fuses sort_frame [OF assms] by (rule fuses_same_frame)

lemma closed_ads_separated:
  assumes "ads \<noteq> []" and "ads_within dur ads" and "0 \<le> sep"
  shows "separated sep (closed_ads dur ads len sep)"
proof -
  have "fuses 20 (sort ads) (merge_short_episode_edge_segments (sort ads) dur len)"
    by (rule fuses_edges) simp
  from fuses_same_frame [OF this sort_frame [OF assms(1,2)]] show ?thesis
    by (rule merge_close_separated [OF assms(3)])
qed

lemma separated_filter: "separated g ws \<Longrightarrow> separated g (filter P ws)"
  by (simp add: separated_def proper_def sorted_wrt_filter)

lemma restore_filtered_cases:
  assumes "snd c = snd l" and "fst c \<le> fst l"
  shows "restore_last_segment_if_needed (filter_short_segments (front @ [c]) len) (Some l) =
      filter_short_segments (front @ [c]) len \<or>
    restore_last_segment_if_needed (filter_short_segments (front @ [c]) len) (Some l) =
      filter_short_segments front len @ [l]"
  using assms by (cases "snd c - fst c \<ge> len")
    (simp_all add: restore_last_segment_if_needed_def filter_short_segments_def)

lemma restored_cases:
  assumes "ads \<noteq> []" and "ads_within dur ads"
  shows "restored_ads dur ads len sep = filter_short_segments (closed_ads dur ads len sep) len \<or>
    restored_ads dur ads len sep =
      filter_short_segments (butlast (closed_ads dur ads len sep)) len @ [last (sort ads)]"
proof (cases "get_last_segment_if_near_end (sort ads) dur sep")
  case (Some l)
  then have l: "l = last (sort ads)"
    by (simp add: get_last_segment_if_near_end_def split: if_splits)
  obtain front c where C: "closed_ads dur ads len sep = front @ [c]"
    using closed_ads_frame [OF assms, of len sep] unfolding same_frame_def by (metis rev_exhaust)
  have "snd c = snd l" "fst c \<le> fst l"
    using closed_ads_frame [OF assms, of len sep] unfolding same_frame_def C l by simp_all
  from restore_filtered_cases [OF this, of front len] show ?thesis
    unfolding Some C by (simp add: l)
qed (simp add: restore_last_segment_if_needed_def)

lemma restored_separated:
  assumes "ads \<noteq> []" and "ads_within dur ads" and "0 \<le> sep"
  shows "separated sep (restored_ads dur ads len sep)"
proof -
  let ?C = "closed_ads dur ads len sep" and ?l = "last (sort ads)"
  from closed_ads_frame [OF assms(1,2)] have C: "?C \<noteq> []" "fst (last ?C) \<le> fst ?l"
    by (auto simp: same_frame_def)
  have sep: "separated sep (butlast ?C @ [last ?C])"
    using closed_ads_separated [OF assms] C(1) by simp
  have "?l \<in> set (sort ads)" using sort_frame [OF assms(1,2)] by (intro last_in_set) (simp add: same_frame_def)
  then have l: "fst ?l \<le> snd ?l" using assms(2) by (simp add: ads_within_def)
  from restored_cases [OF assms(1,2), of len sep] show ?thesis
  proof
    assume "restored_ads dur ads len sep = filter_short_segments ?C len"
    then show ?thesis
      using closed_ads_separated [OF assms] by (simp add: filter_short_segments_def separated_filter)
  next
    assume R: "restored_ads dur ads len sep = filter_short_segments (butlast ?C) len @ [?l]"
    have "\<forall>v\<in>set (butlast ?C). snd v + sep < fst ?l"
      using sep C(2) by (force simp: separated_append)
    with sep l show ?thesis unfolding R
      by (auto simp: separated_append separated_Cons filter_short_segments_def separated_filter)
  qed
qed

lemma last_sort_in: "ads \<noteq> [] \<Longrightarrow> last (sort ads) \<in> set ads"
  by (metis last_in_set length_0_conv length_sort set_sort)

lemma restored_sources:
  assumes "ads \<noteq> []" and "ads_within dur ads" and "m \<in> set (restored_ads dur ads len sep)"
  shows "m \<in> set (closed_ads dur ads len sep) \<or> m \<in> set ads"
  using restored_cases [OF assms(1,2), of len sep] assms(3) last_sort_in [OF assms(1)]
  by (auto simp: filter_short_segments_def dest: in_set_butlastD)

lemma restored_endpoints:
  assumes "ads \<noteq> []" and "ads_within dur ads" and "m \<in> set (restored_ads dur ads len sep)"
  shows "fst m \<in> fst ` set ads" and "snd m \<in> snd ` set ads"
proof -
  note restored_sources [OF assms]
  moreover have "fst ` set (closed_ads dur ads len sep) \<subseteq> fst ` set ads"
    "snd ` set (closed_ads dur ads len sep) \<subseteq> snd ` set ads"
    using closed_ads_frame [OF assms(1,2), of len sep] by (auto simp: same_frame_def)
  ultimately show "fst m \<in> fst ` set ads" "snd m \<in> snd ` set ads" by auto
qed

lemma merged_ad_seconds_eq:
  "merged_ad_seconds dur ads len sep =
     extend_last_segment_to_end_if_needed (restored_ads dur ads len sep) dur sep"
  by (simp add: merged_ad_seconds_def Let_def)

lemma extend_cases:
  obtains "extend_last_segment_to_end_if_needed ws dur sep = ws"
  | front s e where "ws = front @ [(s, e)]" "dur - e < sep"
      "extend_last_segment_to_end_if_needed ws dur sep = front @ [(s, dur)]"
proof (cases ws rule: rev_cases)
  case (snoc front w)
  show ?thesis
  proof (cases "dur - snd w < sep")
    case True
    with snoc show ?thesis
      by (intro that(2) [of front "fst w" "snd w"]) (simp_all add: extend_last_segment_to_end_if_needed_def)
  next
    case False
    with snoc show ?thesis
      by (intro that(1)) (simp add: extend_last_segment_to_end_if_needed_def)
  qed
qed (use that in \<open>simp add: extend_last_segment_to_end_if_needed_def\<close>)

lemma merged_ad_seconds_frame:
  assumes "ads \<noteq> []" and "ads_within dur ads" and "0 \<le> sep"
  shows "separated sep (merged_ad_seconds dur ads len sep) \<and>
    (\<forall>m\<in>set (merged_ad_seconds dur ads len sep). 0 \<le> fst m \<and> snd m \<le> dur)"
proof -
  let ?R = "restored_ads dur ads len sep"
  note sep = restored_separated [OF assms, of len]
  have R: "0 \<le> fst m \<and> fst m \<le> snd m \<and> snd m \<le> dur" if "m \<in> set ?R" for m
    using restored_endpoints [OF assms(1,2) that] assms(2) separated_proper [OF sep] that
    by (force simp: ads_within_def proper_def)
  show ?thesis unfolding merged_ad_seconds_eq
  proof (cases rule: extend_cases [of ?R dur sep])
    case 1
    with sep R show "separated sep (extend_last_segment_to_end_if_needed ?R dur sep) \<and>
      (\<forall>m\<in>set (extend_last_segment_to_end_if_needed ?R dur sep). 0 \<le> fst m \<and> snd m \<le> dur)" by simp
  next
    case (2 front s e)
    with sep R [of "(s, e)"] R show "separated sep (extend_last_segment_to_end_if_needed ?R dur sep) \<and>
      (\<forall>m\<in>set (extend_last_segment_to_end_if_needed ?R dur sep). 0 \<le> fst m \<and> snd m \<le> dur)"
      by (auto simp: separated_append separated_Cons)
  qed
qed


lemma extend_grows:
  assumes "m \<in> set ws" and "\<forall>w\<in>set ws. snd w \<le> dur"
  shows "\<exists>n\<in>set (extend_last_segment_to_end_if_needed ws dur sep). fst n = fst m \<and> snd m \<le> snd n"
proof (cases rule: extend_cases [of ws dur sep])
  case 1
  with assms show ?thesis by auto
next
  case (2 front s e)
  show ?thesis
  proof (cases "m \<in> set front")
    case True
    with 2 show ?thesis by (intro bexI [of _ m]) auto
  next
    case False
    with assms 2 show ?thesis by (intro bexI [of _ "(s, dur)"]) auto
  qed
qed

lemma closed_ads_cover_each:
  assumes "sorted (map snd (sort ads))" and "w \<in> set ads"
  shows "\<exists>m\<in>set (closed_ads dur ads len sep). fst m \<le> fst w \<and> snd w \<le> snd m"
proof -
  have "w \<in> set (sort ads)" using assms(2) by simp
  with fuses_covers [OF closed_ads_fuses sorted_map_fst_sort assms(1)] show ?thesis by blast
qed

lemma restored_keeps_filtered:
  "m \<in> set (closed_ads dur ads len sep) \<Longrightarrow> len \<le> snd m - fst m \<Longrightarrow> m \<in> set (restored_ads dur ads len sep)"
  by (auto simp: restore_last_segment_if_needed_def filter_short_segments_def split: option.split)

lemma restored_keeps_last:
  assumes "get_last_segment_if_near_end (sort ads) dur sep = Some l"
  shows "\<exists>m\<in>set (restored_ads dur ads len sep). fst m \<le> fst l \<and> snd l \<le> snd m"
  using assms by (auto simp: restore_last_segment_if_needed_def list_ex_iff split: if_splits)

lemma proper_map_to_ms: "proper ws \<Longrightarrow> proper (map to_ms ws)"
  by (auto simp: proper_def to_ms_def intro!: py_int_mono)

lemma py_int_ms_le: "x \<le> of_int d / 1000 \<Longrightarrow> py_int (x * 1000) \<le> d"
  using py_int_mono [of "x * 1000" "of_int d"] by simp

lemma py_int_nonneg: "0 \<le> x \<Longrightarrow> 0 \<le> py_int (x * 1000)"
  using py_int_mono [of 0 "x * 1000"] by (simp add: py_int_def)

text \<open>The order the cutters rely on: each window ends before the next one starts.\<close>

definition in_order :: "millis window list \<Rightarrow> bool" where
  "in_order ws \<longleftrightarrow> sorted_wrt (\<lambda>v w. snd v \<le> fst w) ws"

lemma separated_to_ms_in_order:
  assumes "separated g ws" and "0 \<le> g"
  shows "in_order (map to_ms ws)"
proof -
  have "sorted_wrt (\<lambda>v w. snd v + g < fst w) ws" using assms(1) by (simp add: separated_def)
  then show ?thesis unfolding in_order_def sorted_wrt_map
    by (rule sorted_wrt_mono_rel [rotated]) (use assms(2) in \<open>auto simp: to_ms_def intro!: py_int_mono\<close>)
qed

lemma merge_ad_segments_eq:
  "ads \<noteq> [] \<Longrightarrow> merge_ad_segments d ads len sep = map to_ms (merged_ad_seconds (of_int d / 1000) ads len sep)"
  by (simp add: merge_ad_segments_def)

text \<open>C31.  The millisecond windows handed to the cutter lie inside the episode, none is
  inverted, and each ends before the next one starts.\<close>

theorem merge_ad_segments_well_formed:
  assumes "ads_within (of_int d / 1000) ads" and "0 \<le> sep"
  shows "proper (merge_ad_segments d ads len sep) \<and> in_order (merge_ad_segments d ads len sep) \<and>
    (\<forall>m\<in>set (merge_ad_segments d ads len sep). 0 \<le> fst m \<and> snd m \<le> d)"
proof (cases "ads = []")
  case False
  note frame = merged_ad_seconds_frame [OF False assms, of len]
  then have "proper (map to_ms (merged_ad_seconds (of_int d / 1000) ads len sep))"
    by (intro proper_map_to_ms separated_proper) auto
  moreover have "in_order (map to_ms (merged_ad_seconds (of_int d / 1000) ads len sep))"
    using frame assms(2) by (intro separated_to_ms_in_order) auto
  ultimately show ?thesis
    using frame by (auto simp: merge_ad_segments_eq [OF False] to_ms_def py_int_nonneg py_int_ms_le)
qed (simp add: merge_ad_segments_def in_order_def)

theorem merge_ad_segments_well_formed_witness:
  "proper (merge_ad_segments 100000 [(1, 20), (40, 45)] 5 10) \<and>
   in_order (merge_ad_segments 100000 [(1, 20), (40, 45)] 5 10) \<and>
   list_all (\<lambda>m. 0 \<le> fst m \<and> snd m \<le> 100000) (merge_ad_segments 100000 [(1, 20), (40, 45)] 5 10)"
  unfolding list_all_iff by (rule merge_ad_segments_well_formed) (simp_all add: ads_within_def)

text \<open>C5.  For ads within the episode whose ends are in the order of their starts, so that none contains the next:
  every ad of at least the minimum length lies inside one removed window (up to the truncation to
  milliseconds), and so does the last ad when it ends near the end of the episode, however short it is.
  Where an ad contains the next one, it need not (\<open>nested_ad_loses_its_tail\<close>).\<close>

theorem merge_ad_segments_removes_long_ads:
  assumes "ads_within (of_int d / 1000) ads" and "0 \<le> sep" and "sorted (map snd (sort ads))"
    and "w \<in> set ads"
    and "len \<le> snd w - fst w \<or> get_last_segment_if_near_end (sort ads) (of_int d / 1000) sep = Some w"
  shows "\<exists>m\<in>set (merge_ad_segments d ads len sep).
    fst m \<le> py_int (fst w * 1000) \<and> py_int (snd w * 1000) \<le> snd m"
proof -
  let ?dur = "of_int d / 1000 :: real"
  from assms(4) have ne: "ads \<noteq> []" by auto
  have "\<exists>m\<in>set (restored_ads ?dur ads len sep). fst m \<le> fst w \<and> snd w \<le> snd m"
    using assms(5)
  proof
    assume len: "len \<le> snd w - fst w"
    from closed_ads_cover_each [OF assms(3,4)] obtain m
      where m: "m \<in> set (closed_ads ?dur ads len sep)" "fst m \<le> fst w" "snd w \<le> snd m" by blast
    with len have "m \<in> set (restored_ads ?dur ads len sep)" by (intro restored_keeps_filtered) auto
    with m show ?thesis by blast
  qed (rule restored_keeps_last)
  then obtain m where m: "m \<in> set (restored_ads ?dur ads len sep)" "fst m \<le> fst w" "snd w \<le> snd m"
    by blast
  have "\<forall>v\<in>set (restored_ads ?dur ads len sep). snd v \<le> ?dur"
    using restored_endpoints(2) [OF ne assms(1)] assms(1) by (force simp: ads_within_def)
  from extend_grows [OF m(1) this, of sep] obtain n
    where n: "n \<in> set (merged_ad_seconds ?dur ads len sep)" "fst n = fst m" "snd m \<le> snd n"
    unfolding merged_ad_seconds_eq by blast
  with m have "fst (to_ms n) \<le> py_int (fst w * 1000) \<and> py_int (snd w * 1000) \<le> snd (to_ms n)"
    by (auto simp: to_ms_def intro!: py_int_mono)
  with n(1) show ?thesis by (auto simp: merge_ad_segments_eq [OF ne])
qed

theorem merge_ad_segments_removes_long_ads_witness:
  "\<exists>m\<in>set (merge_ad_segments 100000 [(1, 20), (40, 45)] 5 10).
    fst m \<le> py_int (40 * 1000) \<and> py_int (45 * 1000) \<le> snd m"
  using merge_ad_segments_removes_long_ads [of 100000 "[(1, 20), (40, 45)]" 10 "(40, 45)" 5]
  by (simp add: ads_within_def)

text \<open>C6.  Nothing but ads, the short gaps between them and the last moments of the episode is
  removed: every instant of a removed window belongs to an ad, lies between two ads that are
  at most the separation (or 20 s) apart, or lies less than the separation before the end.\<close>

theorem merged_ad_seconds_cuts_only_ads:
  assumes "ads_within dur ads" and "ads \<noteq> []" and "x \<in> cover (merged_ad_seconds dur ads len sep)"
  shows "x \<in> cover ads \<or> in_small_gap (max sep 20) ads x \<or> dur - sep < x"
proof -
  let ?C = "closed_ads dur ads len sep" and ?R = "restored_ads dur ads len sep"
  have C: "cover ?C \<subseteq> {x. x \<in> cover ads \<or> in_small_gap (max sep 20) ads x}"
    using fuses_adds_only_gaps [OF closed_ads_fuses sort_frame [OF assms(2,1)]]
    by (auto simp: cover_cong [of "sort ads" ads] in_small_gap_def)
  have "set ?R \<subseteq> set ?C \<union> set ads"
    using restored_sources [OF assms(2,1)] by blast
  with C have R: "x \<in> cover ads \<or> in_small_gap (max sep 20) ads x" if "x \<in> cover ?R" for x
    using that unfolding cover_def by blast
  show ?thesis
  proof (cases rule: extend_cases [of ?R dur sep])
    case 1
    with R [of x] assms(3) show ?thesis unfolding merged_ad_seconds_eq by auto
  next
    case (2 front s e)
    with assms(3) have "x \<in> cover ?R \<or> e \<le> x" unfolding merged_ad_seconds_eq by auto
    with R 2(2) show ?thesis by auto
  qed
qed

theorem merged_ad_seconds_cuts_only_ads_witness:
  "(97::real) \<in> cover [(90::real, 95)] \<or> in_small_gap (max 10 20) [(90, 95)] (97::real) \<or> 100 - 10 < (97::real)"
  by (rule merged_ad_seconds_cuts_only_ads [of 100 _ _ 2 10])
    (simp_all add: ads_within_def merged_ad_seconds_def get_last_segment_if_near_end_def
      merge_short_episode_edge_segments_def merge_close_segments_eq
      filter_short_segments_def restore_last_segment_if_needed_def
      extend_last_segment_to_end_if_needed_def)

text \<open>The close-window merge takes the next window's end, not the larger end: an ad that
  contains the next one is cut only up to the inner ad's end, so its tail stays in the
  episode.\<close>

theorem nested_ad_loses_its_tail:
  assumes "s < s'" and "s' \<le> e'" and "e' < e" and "0 \<le> sep"
  shows "merge_close_segments (sort [(s, e), (s', e')]) sep = [(s, e')] \<and>
    cover (merge_close_segments (sort [(s, e), (s', e')]) sep) \<subset> cover [(s, e), (s', e')]"
  using assms by (auto simp: merge_close_segments_eq less_eq_prod_def)

theorem nested_ad_loses_its_tail_witness:
  "merge_close_segments (sort [(10, 100), (20, 40)]) 0 = [(10, 40)] \<and>
    cover (merge_close_segments (sort [(10, 100), (20, 40)]) 0) \<subset> cover [(10, 100), (20, 40)]"
  by (rule nested_ad_loses_its_tail) simp_all


section \<open>The recorded cut\<close>

text \<open>The effective window of a removed window: the part that is gone after the fades.\<close>

definition inset_of :: "millis \<Rightarrow> millis window \<Rightarrow> millis window \<Rightarrow> bool" where
  "inset_of fade w v \<longleftrightarrow> fst w \<le> fst v \<and> snd v \<le> snd w \<and>
     (snd w - fst w > 2 * fade \<longrightarrow> snd v - fst v = snd w - fst w - 2 * fade \<and> fst v < snd v)"

lemma effective_removed_windows_inset:
  "list_all2 (inset_of (max 0 fade)) ws (effective_removed_windows ws fade)"
  by (induction ws) (auto simp: effective_removed_windows_def inset_of_def Let_def)

lemma py_round3_ms: "py_round3 (of_int n / 1000) = of_int n / 1000"
  by (simp add: py_round3_def)

lemma effective_bounds:
  assumes "\<forall>m\<in>set ws. lo \<le> fst m \<and> snd m \<le> hi" and "v \<in> set (effective_removed_windows ws fade)"
  shows "lo \<le> fst v \<and> snd v \<le> hi"
  using assms by (auto simp: effective_removed_windows_def Let_def split: if_splits)

lemma process_audio_success:
  assumes "process_audio cfg ads (Some d) cut_ok p write = Inr (res, upd)"
  shows "removed_segments_ms res = merge_ad_segments d ads (min_ad_segment_length_seconds cfg)
      (min_ad_segement_separation_seconds cfg)"
    and "effective_removed_windows_ms res = Some (effective_removed_windows (removed_segments_ms res) (fade_ms_cfg cfg))"
    and "source_duration_ms res = d"
    and "upd_removed_ad_windows upd = map (\<lambda>w. (of_int (fst w) / 1000, of_int (snd w) / 1000))
      (effective_removed_windows (removed_segments_ms res) (fade_ms_cfg cfg))"
    and "upd_original_duration_seconds upd = of_int d / 1000" and "write upd" and "cut_ok"
  using assms by (auto simp: process_audio_def Let_def py_round3_ms split: if_splits)

text \<open>When processing the audio succeeds, the record written to the post describes the cut
  that was made: its windows are the cutter's windows less the fades, in seconds, and all of
  them lie between 0 and the recorded original duration.\<close>

theorem process_audio_records_the_cut:
  assumes "process_audio cfg ads (Some d) cut_ok p write = Inr (res, upd)"
    and "ads_within (of_int d / 1000) ads" and "0 \<le> min_ad_segement_separation_seconds cfg"
  shows "(\<exists>eff. effective_removed_windows_ms res = Some eff \<and>
      list_all2 (inset_of (max 0 (fade_ms_cfg cfg))) (removed_segments_ms res) eff \<and>
      upd_removed_ad_windows upd = map (\<lambda>w. (of_int (fst w) / 1000, of_int (snd w) / 1000)) eff) \<and>
    (\<forall>w\<in>set (upd_removed_ad_windows upd). 0 \<le> fst w \<and> snd w \<le> upd_original_duration_seconds upd)"
proof -
  note ok = process_audio_success [OF assms(1)]
  have plan: "\<forall>m\<in>set (removed_segments_ms res). 0 \<le> fst m \<and> snd m \<le> d"
    using merged_ad_seconds_frame [OF _ assms(2,3), of "min_ad_segment_length_seconds cfg"]
    unfolding ok(1) merge_ad_segments_def
    by (auto simp: to_ms_def py_int_nonneg py_int_ms_le)
  have "0 \<le> fst w \<and> snd w \<le> upd_original_duration_seconds upd"
    if w: "w \<in> set (upd_removed_ad_windows upd)" for w
  proof -
    from w obtain v where v: "v \<in> set (effective_removed_windows (removed_segments_ms res) (fade_ms_cfg cfg))"
      "w = (of_int (fst v) / 1000, of_int (snd v) / 1000)" unfolding ok(4) by auto
    from effective_bounds [OF plan v(1)] v(2) ok(5) show ?thesis by simp
  qed
  with ok(2,4) effective_removed_windows_inset [of "fade_ms_cfg cfg" "removed_segments_ms res"]
  show ?thesis by blast
qed

definition demo_cfg :: output_config where
  "demo_cfg = \<lparr>min_ad_segment_length_seconds = 5, min_ad_segement_separation_seconds = 10, fade_ms_cfg = 1000\<rparr>"

theorem process_audio_records_the_cut_witness:
  "\<exists>res upd. process_audio demo_cfg [(1, 20)] (Some 100000) True (Some 81000) (\<lambda>_. True) = Inr (res, upd) \<and>
    (\<forall>w\<in>set (upd_removed_ad_windows upd). 0 \<le> fst w \<and> snd w \<le> upd_original_duration_seconds upd)"
proof -
  obtain res upd where r: "process_audio demo_cfg [(1, 20)] (Some 100000) True (Some 81000) (\<lambda>_. True) = Inr (res, upd)"
    by (simp add: process_audio_def Let_def)
  from process_audio_records_the_cut [OF r] r show ?thesis by (auto simp: demo_cfg_def ads_within_def)
qed

end
