(* ===== verification/AudioCut.thy ===== *)
theory AudioCut
  imports AdPlan
begin

text \<open>
  \<open>src/podcast_processor/audio.py\<close>: the plans the cutters build before they call ffmpeg.
  What ffmpeg and the Rust sidecar return is an argument (a probe's JSON, whether a run
  succeeded); the trims, fades, beeps and chunks the code computes are lists of records.
\<close>

definition parse_bitrate_bps :: "json \<Rightarrow> int option" where
  "parse_bitrate_bps value = (case py_float value of
     None \<Rightarrow> None
   | Some x \<Rightarrow> let bitrate = py_int x in if bitrate \<le> 0 then None else Some bitrate)"

fun first_audio_bitrate :: "json list \<Rightarrow> int option" where
  "first_audio_bitrate [] = None"
| "first_audio_bitrate (JObj kvs # streams) =
     (if obj_get kvs ''codec_type'' \<noteq> JStr ''audio'' then first_audio_bitrate streams
      else case parse_bitrate_bps (obj_get kvs ''bit_rate'') of
          Some b \<Rightarrow> Some b
        | None \<Rightarrow> first_audio_bitrate streams)"
| "first_audio_bitrate (_ # streams) = first_audio_bitrate streams"

text \<open>\<open>probe\<close> is None when ffmpeg's probe raised; otherwise the object it returned.\<close>

definition get_audio_bitrate_bps :: "(string \<times> json) list option \<Rightarrow> int option" where
  "get_audio_bitrate_bps probe = (case probe of
     None \<Rightarrow> None
   | Some kvs \<Rightarrow>
      (case (case obj_get kvs ''streams'' of JList streams \<Rightarrow> first_audio_bitrate streams | _ \<Rightarrow> None) of
         Some b \<Rightarrow> Some b
       | None \<Rightarrow> (case obj_get kvs ''format'' of
            JObj fmt \<Rightarrow> parse_bitrate_bps (obj_get fmt ''bit_rate'') | _ \<Rightarrow> None)))"

text \<open>\<open>get_audio_duration_ms\<close>: the sidecar's answer first, then ffmpeg's duration in seconds.\<close>

definition get_audio_duration_ms :: "millis option \<Rightarrow> seconds option \<Rightarrow> millis option" where
  "get_audio_duration_ms rust_duration_ms ffmpeg_duration_seconds = (case rust_duration_ms of
     Some d \<Rightarrow> Some d
   | None \<Rightarrow> map_option (\<lambda>s. py_int (s * 1000)) ffmpeg_duration_seconds)"

datatype encoding_arg = VbrQuality int | BitrateBps int | BitrateText string

definition get_encoding_args :: "bool \<Rightarrow> int \<Rightarrow> string \<Rightarrow> int option \<Rightarrow> encoding_arg" where
  "get_encoding_args use_vbr vbr_quality cbr_bitrate source_bitrate_bps =
     (if use_vbr then VbrQuality vbr_quality
      else case source_bitrate_bps of
          Some b \<Rightarrow> BitrateBps (max 1 b)
        | None \<Rightarrow> BitrateText cbr_bitrate)"

section \<open>Cutting\<close>

datatype fade = NoFade | FadeOut | FadeIn

record trim =
  trim_start :: millis
  trim_end :: millis
  trim_fade :: fade

text \<open>The trims of \<open>_clip_segments_complex\<close>: the loop over the windows with \<open>last_end\<close>.\<close>

fun complex_trims :: "millis \<Rightarrow> millis \<Rightarrow> millis \<Rightarrow> millis window list \<Rightarrow> trim list" where
  "complex_trims fade_ms audio_duration_ms last_end [] =
     (if last_end \<noteq> audio_duration_ms
      then [\<lparr>trim_start = last_end, trim_end = audio_duration_ms, trim_fade = NoFade\<rparr>] else [])"
| "complex_trims fade_ms audio_duration_ms last_end ((start_ms, end_ms) # rest) =
     [\<lparr>trim_start = last_end, trim_end = start_ms, trim_fade = NoFade\<rparr>,
      \<lparr>trim_start = start_ms, trim_end = start_ms + fade_ms, trim_fade = FadeOut\<rparr>,
      \<lparr>trim_start = end_ms - fade_ms, trim_end = end_ms, trim_fade = FadeIn\<rparr>]
     @ complex_trims fade_ms audio_duration_ms end_ms rest"

definition clip_segments_complex :: "millis window list \<Rightarrow> millis \<Rightarrow> millis \<Rightarrow> trim list" where
  "clip_segments_complex ad_segments_ms fade_ms audio_duration_ms =
     complex_trims fade_ms audio_duration_ms 0 ad_segments_ms"

fun keep_loop :: "millis \<Rightarrow> millis window list \<Rightarrow> millis \<Rightarrow> millis window list" where
  "keep_loop audio_duration_ms [] last_end =
     (if last_end < audio_duration_ms then [(last_end, audio_duration_ms)] else [])"
| "keep_loop audio_duration_ms ((start_ms, end_ms) # rest) last_end =
     (if start_ms > last_end then [(last_end, start_ms)] else []) @ keep_loop audio_duration_ms rest end_ms"

text \<open>\<open>trim_file\<close> and \<open>_trim_file_lossless\<close>: the start and length ffmpeg is asked for.\<close>

definition trim_file :: "millis \<Rightarrow> millis \<Rightarrow> (seconds \<times> seconds) option" where
  "trim_file start_ms end_ms = (let duration_ms = end_ms - start_ms in
     if duration_ms \<le> 0 then None
     else Some (of_int (max start_ms 0) / 1000, of_int duration_ms / 1000))"

datatype cut_error = NothingToKeep | AssertDuration

definition clip_segments_simple ::
  "millis window list \<Rightarrow> millis \<Rightarrow> cut_error + millis window list" where
  "clip_segments_simple ad_segments_ms audio_duration_ms =
     (let keep_segments = keep_loop audio_duration_ms ad_segments_ms 0 in
      if keep_segments = [] then Inl NothingToKeep else Inr keep_segments)"

datatype cut_result = RustCut | ComplexCut "trim list" | SimpleCut "millis window list"

text \<open>\<open>complex_ok\<close> says whether building and running the filter graph succeeded.\<close>

definition clip_segments_with_fade ::
  "bool \<Rightarrow> millis option \<Rightarrow> bool \<Rightarrow> millis window list \<Rightarrow> millis \<Rightarrow> cut_error + cut_result" where
  "clip_segments_with_fade rust_ok audio_duration complex_ok ad_segments_ms fade_ms =
     (if rust_ok then Inr RustCut
      else case audio_duration of
          None \<Rightarrow> Inl AssertDuration
        | Some d \<Rightarrow>
            if complex_ok then Inr (ComplexCut (clip_segments_complex ad_segments_ms fade_ms d))
            else (case clip_segments_simple ad_segments_ms d of
                Inl e \<Rightarrow> Inl e | Inr keep \<Rightarrow> Inr (SimpleCut keep)))"

definition clip_segments_exact ::
  "bool \<Rightarrow> millis option \<Rightarrow> millis window list \<Rightarrow> cut_error + cut_result" where
  "clip_segments_exact rust_ok audio_duration ad_segments_ms =
     (if rust_ok then Inr RustCut
      else case audio_duration of
          None \<Rightarrow> Inl AssertDuration
        | Some d \<Rightarrow> (case clip_segments_simple ad_segments_ms d of
            Inl e \<Rightarrow> Inl e | Inr keep \<Rightarrow> Inr (SimpleCut keep)))"

section \<open>Bleeping\<close>

definition clamp_window_ms :: "millis window \<Rightarrow> millis window" where
  "clamp_window_ms w = (let start_ms = max 0 (fst w) in (start_ms, max start_ms (snd w)))"

definition merge_time_windows_ms_step :: "millis window list \<Rightarrow> millis window \<Rightarrow> millis window list" where
  "merge_time_windows_ms_step merged raw =
     (let (start_ms, end_ms) = clamp_window_ms raw in
      if merged = [] then [(start_ms, end_ms)]
      else let (prev_start_ms, prev_end_ms) = last merged in
        if start_ms \<le> prev_end_ms then butlast merged @ [(prev_start_ms, max prev_end_ms end_ms)]
        else merged @ [(start_ms, end_ms)])"

definition merge_time_windows_ms :: "millis window list \<Rightarrow> millis window list" where
  "merge_time_windows_ms windows =
     (if windows = [] then [] else foldl merge_time_windows_ms_step [] (sort windows))"

definition BLEEP_MAX_WINDOWS_PER_PASS :: nat where
  "BLEEP_MAX_WINDOWS_PER_PASS = 96"

text \<open>\<open>[xs[i : i + n] for i in range(0, len(xs), n)]\<close>.\<close>

function chunked :: "nat \<Rightarrow> 'a list \<Rightarrow> 'a list list" where
  "chunked n xs = (if xs = [] \<or> n = 0 then [] else take n xs # chunked n (drop n xs))"
  by pat_completeness auto
termination by (relation "measure (\<lambda>(n, xs). length xs)") auto

declare chunked.simps [simp del]

definition bleep_zones :: "millis window list \<Rightarrow> millis \<Rightarrow> millis \<Rightarrow> seconds window list" where
  "bleep_zones windows audio_duration_ms fade_ms =
     (let fade_ms_eff = max 1 fade_ms;
          duration_s = of_int audio_duration_ms / 1000;
          expanded = map (\<lambda>(s, e). (max 0 (s - fade_ms_eff), e + fade_ms_eff)) windows
      in filter (\<lambda>(zs, ze). ze > zs)
           (map (\<lambda>(zs_ms, ze_ms). (max 0 (of_int zs_ms / 1000), min duration_s (of_int ze_ms / 1000)))
             (merge_time_windows_ms expanded)))"

definition voice_coef :: "real \<Rightarrow> real" where
  "voice_coef duck_volume = max 0 (min 1 (1 - duck_volume))"

record beep =
  beep_dur :: seconds
  fade_actual :: seconds
  fade_out_start :: seconds
  delay_ms :: millis

definition beep_of_zone :: "seconds \<Rightarrow> seconds window \<Rightarrow> beep option" where
  "beep_of_zone fade_s z = (let dur = snd z - fst z in
     if dur \<le> 0 then None
     else let fa = min fade_s (dur / 2) in
       Some \<lparr>beep_dur = dur, fade_actual = fa, fade_out_start = max 0 (dur - fa),
         delay_ms = py_round (fst z * 1000)\<rparr>)"

definition bleep_plan :: "millis window list \<Rightarrow> millis \<Rightarrow> millis \<Rightarrow> seconds window list \<times> beep list" where
  "bleep_plan windows audio_duration_ms fade_ms =
     (let zones = bleep_zones windows audio_duration_ms fade_ms;
          fade_s = of_int (max 1 fade_ms) / 1000
      in (zones, List.map_filter (beep_of_zone fade_s) zones))"

datatype bleep_result = RustBleep | Copied | Passes "(seconds window list \<times> beep list) list"

definition overlay_beeps_with_ducking ::
  "bool \<Rightarrow> millis option \<Rightarrow> millis window list \<Rightarrow> millis \<Rightarrow> cut_error + bleep_result" where
  "overlay_beeps_with_ducking rust_ok audio_duration censor_windows_ms fade_ms =
     (if rust_ok then Inr RustBleep
      else if censor_windows_ms = [] then Inr Copied
      else let merged_windows = merge_time_windows_ms censor_windows_ms in
        case audio_duration of
          None \<Rightarrow> Inl AssertDuration
        | Some d \<Rightarrow> Inr (Passes (map (\<lambda>chunk. bleep_plan chunk d fade_ms)
            (chunked BLEEP_MAX_WINDOWS_PER_PASS merged_windows))))"

section \<open>Splitting\<close>

datatype split_error = BadChunkSize | EmptyFile | NoSplitDuration

text \<open>A chunk is its number, the offset recorded for it and the end of the audio it holds.\<close>

record chunk =
  chunk_index :: int
  start_offset_ms :: millis
  end_offset_ms :: millis

fun split_loop :: "millis \<Rightarrow> millis \<Rightarrow> int \<Rightarrow> nat \<Rightarrow> chunk list" where
  "split_loop duration_ms chunk_duration_ms i 0 = []"
| "split_loop duration_ms chunk_duration_ms i (Suc n) =
     (let start = i * chunk_duration_ms in
      if start \<ge> duration_ms then []
      else \<lparr>chunk_index = i, start_offset_ms = start,
             end_offset_ms = min duration_ms ((i + 1) * chunk_duration_ms)\<rparr>
           # split_loop duration_ms chunk_duration_ms (i + 1) n)"

definition split_audio ::
  "chunk list option \<Rightarrow> millis option \<Rightarrow> int \<Rightarrow> int \<Rightarrow> split_error + chunk list" where
  "split_audio rust_chunks audio_duration chunk_size_bytes file_size_bytes =
    (case rust_chunks of Some chunks \<Rightarrow> Inr chunks | None \<Rightarrow>
     case audio_duration of
     None \<Rightarrow> Inl NoSplitDuration
   | Some duration_ms \<Rightarrow>
       if chunk_size_bytes \<le> 0 then Inl BadChunkSize
       else if file_size_bytes = 0 then Inl EmptyFile
       else let chunk_ratio = (of_int chunk_size_bytes / of_int file_size_bytes :: real);
                chunk_duration_ms = max 1 \<lceil>of_int duration_ms * chunk_ratio\<rceil>;
                num_chunks = max 1 \<lceil>(of_int duration_ms / of_int chunk_duration_ms :: real)\<rceil>
            in Inr (split_loop duration_ms chunk_duration_ms 0 (nat num_chunks)))"

section \<open>What the cutters keep\<close>

definition total_ms :: "millis window list \<Rightarrow> millis" where
  "total_ms ws = sum_list (map (\<lambda>w. snd w - fst w) ws)"

definition trims_ms :: "trim list \<Rightarrow> millis" where
  "trims_ms ts = sum_list (map (\<lambda>t. trim_end t - trim_start t) ts)"

lemma total_ms_simps [simp]:
  "total_ms [] = 0" "total_ms (w # ws) = snd w - fst w + total_ms ws"
  "total_ms (vs @ ws) = total_ms vs + total_ms ws"
  by (simp_all add: total_ms_def)

lemma trims_ms_simps [simp]:
  "trims_ms [] = 0" "trims_ms (t # ts) = trim_end t - trim_start t + trims_ms ts"
  by (simp_all add: trims_ms_def)

lemma in_order_Cons: "in_order (w # ws) \<longleftrightarrow> (\<forall>v\<in>set ws. snd w \<le> fst v) \<and> in_order ws"
  by (simp add: in_order_def)

lemma in_order_cover:
  assumes "in_order (w # ws)" and "x \<in> cover ws"
  shows "snd w \<le> x"
  using assms by (auto simp: in_order_Cons cover_def)

lemma keep_loop_complement:
  assumes "in_order ws" and "proper ws" and "\<forall>w\<in>set ws. lst \<le> fst w \<and> snd w \<le> d" and "lst \<le> d"
  shows "cover (keep_loop d ws lst) = {lst..<d} - cover ws \<and>
    total_ms (keep_loop d ws lst) = d - lst - total_ms ws \<and>
    (\<forall>k\<in>set (keep_loop d ws lst). fst k < snd k \<and> lst \<le> fst k \<and> snd k \<le> d)"
  using assms
proof (induction d ws lst rule: keep_loop.induct)
  case (2 d s e rest lst)
  then have IH: "cover (keep_loop d rest e) = {e..<d} - cover rest"
    "total_ms (keep_loop d rest e) = d - e - total_ms rest"
    "\<forall>k\<in>set (keep_loop d rest e). fst k < snd k \<and> e \<le> fst k \<and> snd k \<le> d"
    by (auto simp: in_order_Cons)
  have after: "\<And>x. x \<in> cover rest \<Longrightarrow> e \<le> x" using in_order_cover [OF 2(2)] by simp
  from 2(3-5) have se: "lst \<le> s" "s \<le> e" "e \<le> d" by auto
  have "cover (keep_loop d ((s, e) # rest) lst) = {lst..<s} \<union> ({e..<d} - cover rest)"
    using IH(1) se by auto
  also have "\<dots> = {lst..<d} - cover ((s, e) # rest)"
    using se after by force
  finally show ?case using IH(2,3) se by auto
qed auto

lemma complex_trims_length:
  "trims_ms (complex_trims fade d lst ws) = d - lst - total_ms ws + 2 * fade * int (length ws)"
  by (induction fade d lst ws rule: complex_trims.induct) (auto simp: algebra_simps)

lemma total_effective:
  assumes "0 \<le> fade" and "\<forall>w\<in>set ws. 2 * fade < snd w - fst w"
  shows "total_ms (effective_removed_windows ws fade) = total_ms ws - 2 * fade * int (length ws)"
  using assms by (induction ws) (auto simp: effective_removed_windows_def Let_def algebra_simps)

lemma complex_trims_bounds:
  assumes "in_order ws" and "\<forall>w\<in>set ws. lst \<le> fst w \<and> fst w + 2 * fade \<le> snd w \<and> snd w \<le> d"
    and "0 \<le> fade" and "lst \<le> d"
  shows "\<forall>t\<in>set (complex_trims fade d lst ws). lst \<le> trim_start t \<and> trim_start t \<le> trim_end t \<and> trim_end t \<le> d"
  using assms
proof (induction fade d lst ws rule: complex_trims.induct)
  case (2 fade d lst s e rest)
  then have "\<forall>t\<in>set (complex_trims fade d e rest). e \<le> trim_start t \<and> trim_start t \<le> trim_end t \<and> trim_end t \<le> d"
    by (auto simp: in_order_Cons)
  with 2(3-5) show ?case by fastforce
qed auto

text \<open>C21.  The plain cut keeps exactly the audio outside the removed windows: the kept pieces are
  not empty, they cover the complement of the windows in the episode, and their total length
  is the episode's less the windows'.\<close>

theorem simple_cut_keeps_complement:
  assumes "in_order ws" and "proper ws" and "\<forall>w\<in>set ws. 0 \<le> fst w \<and> snd w \<le> d" and "0 \<le> d"
    and "clip_segments_simple ws d = Inr keep"
  shows "cover keep = {0..<d} - cover ws \<and> total_ms keep = d - total_ms ws \<and>
    (\<forall>k\<in>set keep. fst k < snd k)"
proof -
  from assms(5) have "keep = keep_loop d ws 0"
    by (simp add: clip_segments_simple_def Let_def split: if_splits)
  with keep_loop_complement [OF assms(1-4)] show ?thesis by auto
qed

theorem simple_cut_keeps_complement_witness:
  "cover [(0, 10), (30, 50)] = {0..<50} - cover [(10::int, 30)] \<and>
   total_ms [(0, 10), (30, 50)] = 50 - total_ms [(10, 30)] \<and> list_all (\<lambda>k. fst k < snd k) [(0, 10), (30::int, 50::int)]"
  unfolding list_all_iff by (rule simple_cut_keeps_complement)
    (simp_all add: in_order_def clip_segments_simple_def)

text \<open>The faded cut: when every removed window is longer than two fades, each trim lies
  inside the episode, and the total length of the result is the episode's length less the
  effective windows that are recorded for it.\<close>

theorem faded_cut_length:
  assumes "in_order ws" and "\<forall>w\<in>set ws. 0 \<le> fst w \<and> snd w \<le> d" and "0 \<le> d" and "0 \<le> fade"
    and "\<forall>w\<in>set ws. 2 * fade < snd w - fst w"
  shows "trims_ms (clip_segments_complex ws fade d) = d - total_ms (effective_removed_windows ws fade) \<and>
    (\<forall>t\<in>set (clip_segments_complex ws fade d). 0 \<le> trim_start t \<and> trim_start t \<le> trim_end t \<and> trim_end t \<le> d)"
proof -
  have "\<forall>t\<in>set (complex_trims fade d 0 ws). 0 \<le> trim_start t \<and> trim_start t \<le> trim_end t \<and> trim_end t \<le> d"
    using assms by (intro complex_trims_bounds) force+
  then show ?thesis
    unfolding clip_segments_complex_def complex_trims_length total_effective [OF assms(4,5)] by simp
qed

theorem faded_cut_length_witness:
  "trims_ms (clip_segments_complex [(1000, 9000)] 500 20000) =
     20000 - total_ms (effective_removed_windows [(1000, 9000)] 500) \<and>
   list_all (\<lambda>t. 0 \<le> trim_start t \<and> trim_start t \<le> trim_end t \<and> trim_end t \<le> 20000)
      (clip_segments_complex [(1000, 9000)] 500 20000)"
  unfolding list_all_iff by (rule faded_cut_length) (simp_all add: in_order_def)

text \<open>A window shorter than two fades is not removed by the faded cut: the two fade pieces
  overlap, so the output is longer than the source, while the recorded effective window says
  that the whole window is gone.\<close>

theorem short_window_lengthens_the_episode:
  assumes "s \<le> e" and "e - s < 2 * fade"
  shows "trims_ms (clip_segments_complex [(s, e)] fade d) > d \<and>
    effective_removed_windows [(s, e)] fade = [(s, e)]"
  using assms
  by (simp add: clip_segments_complex_def complex_trims_length effective_removed_windows_def Let_def)

theorem short_window_lengthens_the_episode_witness:
  "trims_ms (clip_segments_complex [(95000, 98000)] 3000 100000) > 100000 \<and>
    effective_removed_windows [(95000, 98000)] 3000 = [(95000, 98000)]"
  by (rule short_window_lengthens_the_episode) simp_all

section \<open>Bleep passes\<close>

lemma sorted_clamped: "sorted (map fst (map clamp_window_ms (sort ws)))"
proof -
  have "sorted (map (max 0) (map fst (sort ws)))"
    using sorted_map_fst_sort [of ws] by (intro sorted_map_mono) (auto intro: monoI simp: mono_on_def)
  moreover have "fst \<circ> clamp_window_ms = max 0 \<circ> fst"
    by (rule ext) (simp add: clamp_window_ms_def Let_def)
  ultimately show ?thesis by simp
qed

lemma merge_time_windows_ms_eq: "merge_time_windows_ms ws = merge_sorted 0 (map clamp_window_ms (sort ws))"
proof -
  have "merge_time_windows_ms_step = (\<lambda>acc w. absorb_last 0 acc (clamp_window_ms w))"
  proof (intro ext)
    fix acc w
    show "merge_time_windows_ms_step acc w = absorb_last 0 acc (clamp_window_ms w)"
      by (cases "clamp_window_ms w"; cases "last acc")
        (auto simp: merge_time_windows_ms_step_def absorb_last_def)
  qed
  then have "foldl merge_time_windows_ms_step [] ws' = foldl (absorb_last 0) [] (map clamp_window_ms ws')" for ws'
    by (simp add: foldl_map)
  then show ?thesis by (auto simp: merge_time_windows_ms_def foldl_absorb_last_Nil)
qed

interpretation censor: exact_merger merge_time_windows_ms "\<lambda>ws. map clamp_window_ms (sort ws)"
proof (intro exact_merger.intro exact_merger_axioms.intro merge_sorted_window_merger)
  fix ws :: "millis window list"
  show "merge_time_windows_ms ws = merge_sorted 0 (map clamp_window_ms (sort ws))"
    by (rule merge_time_windows_ms_eq)
  show "sorted (map fst (map clamp_window_ms (sort ws)))" by (rule sorted_clamped)
  show "proper (map clamp_window_ms (sort ws))" "proper (map clamp_window_ms (sort ws))"
    by (auto simp: proper_def clamp_window_ms_def Let_def)
qed simp

lemma concat_chunked: "0 < n \<Longrightarrow> concat (chunked n xs) = xs"
  by (induction n xs rule: chunked.induct) (simp add: chunked.simps)

lemma chunked_length: "c \<in> set (chunked n xs) \<Longrightarrow> c \<noteq> [] \<and> length c \<le> n"
proof (induction n xs rule: chunked.induct)
  case (1 n xs)
  then show ?case by (auto simp: chunked.simps [of n xs] split: if_splits)
qed

text \<open>An instant of a censor window, in the episode, lies in a zone of its pass.\<close>

lemma bleep_zones_cover:
  assumes w: "w \<in> set ws" and x: "of_int (fst w) / 1000 \<le> x" "x < of_int (snd w) / 1000"
    and dur: "0 \<le> x" "x < of_int d / 1000"
  shows "x \<in> cover (bleep_zones ws d fade)"
proof -
  let ?f = "max 1 fade"
  let ?exp = "map (\<lambda>(s, e). (max 0 (s - ?f), e + ?f)) ws"
  let ?v = "(max 0 (fst w - ?f), max (max 0 (fst w - ?f)) (snd w + ?f))"
  have "(max 0 (fst w - ?f), snd w + ?f) \<in> set ?exp" using w by (force simp: case_prod_beta)
  then have "?v \<in> set (map clamp_window_ms (sort ?exp))"
    by (force simp: clamp_window_ms_def Let_def image_iff)
  from censor.mrg_covers [OF this] obtain m
    where m: "m \<in> set (merge_time_windows_ms ?exp)" "fst m \<le> fst ?v" "snd ?v \<le> snd m" by blast
  have "of_int (fst m) \<le> x * 1000"
  proof (cases "fst w - ?f \<le> 0")
    case True
    with m(2) have "fst m \<le> 0" by simp
    with dur show ?thesis by (smt (verit) of_int_le_0_iff)
  next
    case False
    with m(2) have "fst m \<le> fst w" by simp
    then have "of_int (fst m) \<le> (of_int (fst w) :: real)" by simp
    with x show ?thesis by linarith
  qed
  moreover have "x * 1000 < of_int (snd m)"
  proof -
    have "snd w + 1 \<le> snd m" using m(3) by (auto simp: max_def split: if_splits)
    then have "of_int (snd w) \<le> (of_int (snd m) :: real)" by simp
    with x show ?thesis by linarith
  qed
  ultimately show ?thesis
    using m(1) dur unfolding bleep_zones_def Let_def cover_def
    by (intro UN_I [of "(max 0 (of_int (fst m) / 1000), min (of_int d / 1000) (of_int (snd m) / 1000))"])
      (force simp: case_prod_beta)+
qed

lemma bleep_zones_bounds:
  "z \<in> set (bleep_zones ws d fade) \<Longrightarrow> 0 \<le> fst z \<and> fst z < snd z \<and> snd z \<le> of_int d / 1000"
  by (auto simp: bleep_zones_def Let_def)

lemma beep_for_every_zone:
  "length (snd (bleep_plan ws d fade)) = length (fst (bleep_plan ws d fade))"
proof -
  have "\<forall>z\<in>set (bleep_zones ws d fade). \<exists>b. beep_of_zone t z = Some b" for t
    using bleep_zones_bounds by (force simp: beep_of_zone_def Let_def)
  then have "length (List.map_filter (beep_of_zone t) zs) = length zs" if "set zs \<subseteq> set (bleep_zones ws d fade)" for t zs
    using that by (induction zs) (auto simp: List.map_filter_simps split: option.split)
  then show ?thesis by (simp add: bleep_plan_def Let_def)
qed

text \<open>Every instant of every censor window that lies in the episode is inside a muted and
  beeped zone of some pass; the zones lie in the episode and each has its own beep.\<close>

theorem every_censor_window_is_bleeped:
  assumes "overlay_beeps_with_ducking False (Some d) ws fade = Inr (Passes ps)"
    and "w \<in> set ws" and "of_int (fst w) / 1000 \<le> x" and "x < of_int (snd w) / 1000"
    and "0 \<le> x" and "x < of_int d / 1000"
  shows "(\<exists>p\<in>set ps. x \<in> cover (fst p)) \<and>
    (\<forall>p\<in>set ps. length (snd p) = length (fst p) \<and> (\<forall>z\<in>set (fst p). 0 \<le> fst z \<and> snd z \<le> of_int d / 1000))"
proof -
  let ?C = "chunked BLEEP_MAX_WINDOWS_PER_PASS (merge_time_windows_ms ws)"
  from assms(1) have ps: "ps = map (\<lambda>chunk. bleep_plan chunk d fade) ?C"
    by (auto simp: overlay_beeps_with_ducking_def Let_def split: if_splits)
  have fst_plan: "fst (bleep_plan c d fade) = bleep_zones c d fade" for c
    by (simp add: bleep_plan_def Let_def)
  have "clamp_window_ms w \<in> set (map clamp_window_ms (sort ws))" using assms(2) by simp
  from censor.mrg_covers [OF this] obtain m where m: "m \<in> set (merge_time_windows_ms ws)"
    "fst m \<le> max 0 (fst w)" "snd w \<le> snd m" by (auto simp: clamp_window_ms_def Let_def)
  have "of_int (fst m) \<le> max 0 (of_int (fst w) :: real)" "of_int (snd w) \<le> (of_int (snd m) :: real)"
    using m(2,3) by (auto simp: le_max_iff_disj)
  with assms(3-5) have x: "of_int (fst m) / 1000 \<le> x" "x < of_int (snd m) / 1000"
    by (auto simp: le_max_iff_disj)
  have "m \<in> set (concat ?C)" using m(1) by (simp add: concat_chunked BLEEP_MAX_WINDOWS_PER_PASS_def)
  then obtain c where c: "c \<in> set ?C" "m \<in> set c" by auto
  have "x \<in> cover (bleep_zones c d fade)" by (rule bleep_zones_cover [OF c(2) x assms(5,6)])
  with c(1) have "\<exists>p\<in>set ps. x \<in> cover (fst p)" by (auto simp: ps fst_plan)
  moreover have "0 \<le> fst z \<and> snd z \<le> of_int d / 1000" if "z \<in> set (bleep_zones c' d fade)" for z c'
    using bleep_zones_bounds [OF that] by simp
  ultimately show ?thesis
    unfolding ps by (auto simp: fst_plan beep_for_every_zone)
qed

section \<open>Chunks\<close>

text \<open>Windows that follow each other without a gap from \<open>lo\<close> to \<open>hi\<close>.\<close>

fun tiles :: "int \<Rightarrow> int \<Rightarrow> int window list \<Rightarrow> bool" where
  "tiles lo hi [] \<longleftrightarrow> lo = hi"
| "tiles lo hi (w # ws) \<longleftrightarrow> fst w = lo \<and> lo < snd w \<and> tiles (snd w) hi ws"

definition chunk_window :: "chunk \<Rightarrow> millis window" where
  "chunk_window c = (start_offset_ms c, end_offset_ms c)"

lemma split_loop_tiles:
  assumes "0 < cd" and "i * cd \<le> d" and "d \<le> (i + int n) * cd"
  shows "tiles (i * cd) d (map chunk_window (split_loop d cd i n)) \<and>
    (\<forall>c\<in>set (split_loop d cd i n). end_offset_ms c - start_offset_ms c \<le> cd \<and> start_offset_ms c = chunk_index c * cd)"
  using assms
proof (induction d cd i n rule: split_loop.induct)
  case (2 d cd i n)
  show ?case
  proof (cases "i * cd \<ge> d")
    case False
    show ?thesis
    proof (cases "(i + 1) * cd \<le> d")
      case True
      with 2 False show ?thesis by (auto simp: chunk_window_def Let_def algebra_simps)
    next
      case last: False
      then have "split_loop d cd (i + 1) n = []" by (cases n) (simp_all add: Let_def)
      with False last 2(2) show ?thesis by (auto simp: chunk_window_def Let_def algebra_simps)
    qed
  qed (use 2 in simp)
qed simp

text \<open>The chunks of a split tile the episode: they start at 0, follow each other without gap
  or overlap and end at its end, none is empty or longer than the chunk length, and the
  offset recorded for a chunk is where it starts.\<close>

theorem split_audio_tiles_the_episode:
  assumes "split_audio None (Some d) csize file_size = Inr chunks" and "0 < file_size" and "0 \<le> d"
  shows "tiles 0 d (map chunk_window chunks) \<and>
    (\<exists>cd\<ge>1. \<forall>c\<in>set chunks. end_offset_ms c - start_offset_ms c \<le> cd \<and> start_offset_ms c = chunk_index c * cd)"
proof -
  define cd where "cd = max 1 \<lceil>of_int d * (of_int csize / of_int file_size :: real)\<rceil>"
  define n where "n = max 1 \<lceil>of_int d / of_int cd :: real\<rceil>"
  from assms(1) have ch: "chunks = split_loop d cd 0 (nat n)"
    by (simp add: split_audio_def Let_def cd_def n_def split: if_splits)
  have cd: "1 \<le> cd" by (simp add: cd_def)
  have "of_int d / of_int cd \<le> (of_int n :: real)" unfolding n_def by linarith
  with cd have "of_int d \<le> (of_int (n * cd) :: real)" by (simp add: field_simps)
  then have "d \<le> n * cd" by linarith
  moreover have "0 \<le> n" by (simp add: n_def le_max_iff_disj)
  ultimately have "d \<le> (0 + int (nat n)) * cd" by simp
  with cd assms(3) have "tiles (0 * cd) d (map chunk_window (split_loop d cd 0 (nat n))) \<and>
    (\<forall>c\<in>set (split_loop d cd 0 (nat n)). end_offset_ms c - start_offset_ms c \<le> cd \<and> start_offset_ms c = chunk_index c * cd)"
    by (intro split_loop_tiles) auto
  then have "tiles 0 d (map chunk_window chunks)"
    "\<forall>c\<in>set chunks. end_offset_ms c - start_offset_ms c \<le> cd \<and> start_offset_ms c = chunk_index c * cd"
    unfolding ch by auto
  with cd show ?thesis by blast
qed

theorem split_audio_tiles_the_episode_witness:
  "tiles 0 25 (map chunk_window
     (case split_audio None (Some 25) 4 10 of Inr cs \<Rightarrow> cs | Inl _ \<Rightarrow> []))"
proof -
  have ok: "split_audio None (Some 25) 4 10 = Inr (case split_audio None (Some 25) 4 10 of Inr cs \<Rightarrow> cs | Inl _ \<Rightarrow> [])"
    by (simp add: split_audio_def Let_def)
  from split_audio_tiles_the_episode [OF ok] show ?thesis by simp
qed

theorem every_censor_window_is_bleeped_witness:
  "\<exists>ps. overlay_beeps_with_ducking False (Some 10000) [(1000, 2000)] 5 = Inr (Passes ps) \<and>
    (\<exists>p\<in>set ps. (3 / 2 :: real) \<in> cover (fst p))"
proof -
  obtain ps where ps: "overlay_beeps_with_ducking False (Some 10000) [(1000, 2000)] 5 = Inr (Passes ps)"
    by (simp add: overlay_beeps_with_ducking_def Let_def)
  from every_censor_window_is_bleeped [OF ps, of "(1000, 2000)" "3 / 2"] ps show ?thesis by simp
qed

end
