(* ===== verification/Chapters.thy ===== *)
theory Chapters
  imports AudioCut "HOL-Library.AList"
begin

text \<open>
  \<open>chapter_reader.py\<close>, \<open>chapter_filter.py\<close>, \<open>chapter_ad_detector.py\<close> and
  \<open>chapter_writer.py\<close>: chapters are read from ID3 frames, those whose title holds a filter
  string are the ads, and the others are written back at their place in the cut audio.

  A tag is the dictionary mutagen keeps, from hash keys to frames: an association list in
  insertion order, changed by \<open>AList.update\<close>.  The sidecar's answers are arguments.
\<close>

record episode_chapter =
  element_id :: string
  chapter_title :: string
  start_time_ms :: millis
  end_time_ms :: millis

text \<open>\<open>Chapter(...)\<close> with the clamp of \<open>__post_init__\<close>.\<close>

definition mk_chapter :: "string \<Rightarrow> string \<Rightarrow> millis \<Rightarrow> millis \<Rightarrow> episode_chapter" where
  "mk_chapter eid ttl s e =
     \<lparr>element_id = eid, chapter_title = ttl, start_time_ms = s, end_time_ms = if e < s then s else e\<rparr>"

datatype id3_frame =
    CHAP string millis millis "(string \<times> string list) list"
  | CTOC "string list"
  | TLEN string
  | OtherFrame

type_synonym id3_tags = "(string \<times> id3_frame) list"

section \<open>Reading\<close>

fun tit2_title :: "(string \<times> string list) list \<Rightarrow> string" where
  "tit2_title [] = []"
| "tit2_title ((frame_id, txt) # rest) =
     (if frame_id = ''TIT2'' then (case txt of [] \<Rightarrow> [] | t # _ \<Rightarrow> t) else tit2_title rest)"

definition chapter_of_frame :: "id3_frame \<Rightarrow> episode_chapter option" where
  "chapter_of_frame frame = (case frame of
     CHAP eid s e sub_frames \<Rightarrow>
       (let t = tit2_title sub_frames in Some (mk_chapter eid (if t = [] then eid else t) s e))
   | _ \<Rightarrow> None)"

text \<open>
  \<open>rust\<close> is the sidecar's list; \<open>file\<close> is None when opening the file raised, \<open>Some None\<close> when
  it has no tag.
\<close>

definition read_chapters ::
  "(string \<times> string \<times> millis \<times> millis) list option \<Rightarrow> id3_tags option option \<Rightarrow> episode_chapter list" where
  "read_chapters rust file = (case rust of
     Some rust_chapters \<Rightarrow> map (\<lambda>(eid, t, s, e). mk_chapter eid t s e) rust_chapters
   | None \<Rightarrow> (case file of
       None \<Rightarrow> []
     | Some None \<Rightarrow> []
     | Some (Some tags) \<Rightarrow> sort_key start_time_ms (List.map_filter (\<lambda>kf. chapter_of_frame (snd kf)) tags)))"

section \<open>Filtering and detection\<close>

definition parse_filter_strings :: "string \<Rightarrow> string list" where
  "parse_filter_strings filter_strings_csv =
     (if filter_strings_csv = [] then []
      else filter (\<lambda>s. s \<noteq> []) (map py_strip (split_on CHR '','' filter_strings_csv)))"

definition title_is_ad :: "string list \<Rightarrow> episode_chapter \<Rightarrow> bool" where
  "title_is_ad normalized_filters c = list_ex (\<lambda>f. str_in f (py_lower (chapter_title c))) normalized_filters"

definition filter_chapters_by_strings :: "episode_chapter list \<Rightarrow> string list \<Rightarrow> episode_chapter list \<times> episode_chapter list" where
  "filter_chapters_by_strings chapters filter_strings =
     (if chapters = [] then ([], [])
      else if filter_strings = [] then (chapters, [])
      else let normalized_filters = map py_lower (filter (\<lambda>f. f \<noteq> []) (map py_strip filter_strings)) in
        (filter (\<lambda>c. \<not> title_is_ad normalized_filters c) chapters,
         filter (title_is_ad normalized_filters) chapters))"

datatype chapter_detection_error = NoChapters

type_synonym detection = "seconds window list \<times> episode_chapter list \<times> episode_chapter list"

definition detect_chapter_ads ::
  "detection option \<Rightarrow> episode_chapter list \<Rightarrow> string list \<Rightarrow> chapter_detection_error + detection" where
  "detect_chapter_ads rust_detection chapters filter_strings = (case rust_detection of
     Some (ads, keep, remove) \<Rightarrow>
       if keep = [] \<and> remove = [] then Inl NoChapters else Inr (ads, keep, remove)
   | None \<Rightarrow>
       if chapters = [] then Inl NoChapters
       else let (keep, remove) = filter_chapters_by_strings chapters filter_strings in
         Inr (map (\<lambda>c. (of_int (start_time_ms c) / 1000, of_int (end_time_ms c) / 1000)) remove, keep, remove))"

section \<open>Retiming\<close>

definition normalize_removed_segments_ms :: "seconds window list \<Rightarrow> millis window list" where
  "normalize_removed_segments_ms removed_segments =
     (let windows_ms = filter (\<lambda>(s, e). \<not> e \<le> s)
        (map (\<lambda>(s, e). (py_round (s * 1000), py_round (e * 1000))) removed_segments) in
      if windows_ms = [] then []
      else let srt = sort_key fst windows_ms in
        foldl (\<lambda>merged (start_ms, end_ms).
          let (last_start_ms, last_end_ms) = last merged in
          if start_ms \<le> last_end_ms then butlast merged @ [(last_start_ms, max last_end_ms end_ms)]
          else merged @ [(start_ms, end_ms)]) [hd srt] (tl srt))"

fun removed_offset_loop :: "millis \<Rightarrow> millis \<Rightarrow> millis window list \<Rightarrow> millis" where
  "removed_offset_loop time_ms offset_ms [] = offset_ms"
| "removed_offset_loop time_ms offset_ms ((seg_start_ms, seg_end_ms) # rest) =
     (if seg_end_ms \<le> time_ms
      then removed_offset_loop time_ms (offset_ms + max 0 (seg_end_ms - seg_start_ms)) rest
      else if seg_start_ms < time_ms then offset_ms + max 0 (time_ms - seg_start_ms)
      else offset_ms)"

definition removed_offset_ms_at_time :: "millis \<Rightarrow> millis window list \<Rightarrow> millis" where
  "removed_offset_ms_at_time time_ms sorted_segments_ms = removed_offset_loop time_ms 0 sorted_segments_ms"

definition retime_chapter :: "millis window list \<Rightarrow> episode_chapter \<Rightarrow> episode_chapter" where
  "retime_chapter sorted_segments_ms c =
     (let start_offset_ms = removed_offset_ms_at_time (start_time_ms c) sorted_segments_ms;
          end_offset_ms = max (removed_offset_ms_at_time (end_time_ms c) sorted_segments_ms) start_offset_ms;
          new_start_ms = max 0 (start_time_ms c - start_offset_ms);
          new_end_ms = max new_start_ms (end_time_ms c - end_offset_ms)
      in mk_chapter (element_id c) (chapter_title c) new_start_ms new_end_ms)"

definition recalculate_chapter_times :: "episode_chapter list \<Rightarrow> seconds window list \<Rightarrow> episode_chapter list" where
  "recalculate_chapter_times chapters removed_segments =
     (if chapters = [] then []
      else if removed_segments = [] then chapters
      else map (retime_chapter (normalize_removed_segments_ms removed_segments)) chapters)"

section \<open>Writing\<close>

definition fill_chapter_gaps :: "episode_chapter list \<Rightarrow> millis \<Rightarrow> episode_chapter list" where
  "fill_chapter_gaps chapters audio_duration_ms =
     (if chapters = [] then chapters
      else let fst_c = hd chapters;
               filled = (if start_time_ms fst_c > 0
                  then mk_chapter (element_id fst_c) (chapter_title fst_c) 0 (max (end_time_ms fst_c) 0) # tl chapters
                  else chapters);
               lst = last filled
           in if audio_duration_ms > 0 \<and> end_time_ms lst < audio_duration_ms
              then butlast filled @ [mk_chapter (element_id lst) (chapter_title lst) (start_time_ms lst) audio_duration_ms]
              else filled)"

definition clamp_chapters :: "millis \<Rightarrow> episode_chapter list \<Rightarrow> episode_chapter list" where
  "clamp_chapters audio_duration_ms sorted_chapters =
     (if audio_duration_ms > 0
      then map (\<lambda>c. mk_chapter (element_id c) (chapter_title c) (start_time_ms c) (min (end_time_ms c) audio_duration_ms))
        (filter (\<lambda>c. \<not> start_time_ms c \<ge> audio_duration_ms) sorted_chapters)
      else sorted_chapters)"

definition chapter_key :: "nat \<Rightarrow> string" where
  "chapter_key i = ''chp'' @ nat_str i"

fun add_chapter_frames :: "nat \<Rightarrow> episode_chapter list \<Rightarrow> id3_tags \<Rightarrow> id3_tags" where
  "add_chapter_frames i [] tags = tags"
| "add_chapter_frames i (c # cs) tags = add_chapter_frames (i + 1) cs
     (AList.update (''CHAP:'' @ chapter_key i)
       (CHAP (chapter_key i) (start_time_ms c) (end_time_ms c) [(''TIT2'', [chapter_title c])]) tags)"

definition write_chapters :: "seconds option \<Rightarrow> id3_tags option \<Rightarrow> episode_chapter list \<Rightarrow> id3_tags option" where
  "write_chapters audio_length file_tags chapters =
     (if chapters = [] then file_tags
      else let audio_duration_ms = (case audio_length of None \<Rightarrow> 0 | Some l \<Rightarrow> if l = 0 then 0 else py_int (l * 1000));
               final = fill_chapter_gaps
                 (clamp_chapters audio_duration_ms (sort_key start_time_ms chapters)) audio_duration_ms;
               tags0 = (case file_tags of None \<Rightarrow> [] | Some t \<Rightarrow> t);
               tags1 = filter (\<lambda>(k, f). \<not> (starts_with ''CHAP'' k \<or> starts_with ''CTOC'' k)) tags0;
               tags2 = add_chapter_frames 0 final tags1;
               tags3 = (if final = [] then tags2
                 else AList.update ''CTOC:toc'' (CTOC (map chapter_key [0..<length final])) tags2);
               total_duration_ms = (if audio_duration_ms \<noteq> 0 then audio_duration_ms
                 else if final = [] then 0 else Max (set (map end_time_ms final)))
           in Some (if total_duration_ms > 0
              then AList.update ''TLEN'' (TLEN (int_str total_duration_ms))
                (filter (\<lambda>(k, f). \<not> (k = ''TLEN'' \<or> starts_with ''TLEN:'' k)) tags3)
              else tags3))"

definition write_adjusted_chapters ::
  "bool \<Rightarrow> (episode_chapter list \<Rightarrow> bool) \<Rightarrow> seconds option \<Rightarrow> id3_tags option \<Rightarrow> episode_chapter list \<Rightarrow>
   seconds window list \<Rightarrow> id3_tags option" where
  "write_adjusted_chapters rust_enabled rust_write audio_length file_tags chapters_to_keep removed_segments =
     (let adjusted = recalculate_chapter_times chapters_to_keep removed_segments in
      if rust_enabled \<and> rust_write adjusted then file_tags
      else write_chapters audio_length file_tags adjusted)"

section \<open>The removed windows against the merger interface\<close>

definition rounded_windows :: "seconds window list \<Rightarrow> millis window list" where
  "rounded_windows ws = map (\<lambda>w. (py_round (fst w * 1000), py_round (snd w * 1000))) ws"

definition kept_rounded :: "seconds window list \<Rightarrow> millis window list" where
  "kept_rounded ws = sort_key fst (filter (\<lambda>w. fst w < snd w) (rounded_windows ws))"

lemma foldl_nonempty_cong:
  assumes "\<And>acc w. acc \<noteq> [] \<Longrightarrow> f acc w = g acc w" and "\<And>acc w. g acc w \<noteq> []" and "acc \<noteq> []"
  shows "foldl f acc ws = foldl g acc ws"
  using assms(3)
proof (induction ws arbitrary: acc)
  case (Cons w ws)
  from assms(1) [OF Cons.prems, of w] Cons.IH [OF assms(2), of acc w] show ?case by simp
qed simp

lemma normalize_removed_eq: "normalize_removed_segments_ms ws = merge_sorted 0 (kept_rounded ws)"
proof -
  have filt: "filter (\<lambda>(s, e). \<not> e \<le> s) (map (\<lambda>(s, e). (py_round (s * 1000), py_round (e * 1000))) ws) =
      filter (\<lambda>w. fst w < snd w) (rounded_windows ws)"
    unfolding rounded_windows_def by (induction ws) auto
  let ?f = "\<lambda>merged (start_ms, end_ms). let (last_start_ms, last_end_ms) = last merged in
      if start_ms \<le> last_end_ms then butlast merged @ [(last_start_ms, max last_end_ms end_ms)]
      else merged @ [(start_ms, end_ms)]"
  have step: "foldl ?f [w] vs = merge_runs 0 (fst w) (snd w) vs" for w :: "millis window" and vs
  proof -
    have "foldl ?f [w] vs = foldl (absorb_last 0) [w] vs"
      by (rule foldl_nonempty_cong) (auto simp: absorb_last_def split: prod.splits)
    also have "\<dots> = merge_runs 0 (fst w) (snd w) vs"
      using foldl_absorb_last [of 0 "[]" "fst w" "snd w" vs] by simp
    finally show ?thesis .
  qed
  show ?thesis
  proof (cases "kept_rounded ws")
    case Nil
    then have "filter (\<lambda>w. fst w < snd w) (rounded_windows ws) = []"
      unfolding kept_rounded_def by (metis length_0_conv length_sort)
    with Nil show ?thesis by (simp add: normalize_removed_segments_ms_def filt)
  next
    case (Cons w vs)
    then have "filter (\<lambda>w. fst w < snd w) (rounded_windows ws) \<noteq> []"
      unfolding kept_rounded_def by auto
    with Cons step [of w vs] show ?thesis
      unfolding normalize_removed_segments_ms_def filt Let_def kept_rounded_def [symmetric] by simp
  qed
qed

interpretation removed: exact_merger normalize_removed_segments_ms kept_rounded
proof (intro exact_merger.intro exact_merger_axioms.intro merge_sorted_window_merger)
  fix ws
  show "normalize_removed_segments_ms ws = merge_sorted 0 (kept_rounded ws)"
    by (rule normalize_removed_eq)
  show "sorted (map fst (kept_rounded ws))" by (simp add: kept_rounded_def)
  show "proper (kept_rounded ws)" "proper (kept_rounded ws)"
    by (simp_all add: kept_rounded_def proper_filter)
qed simp

lemma cover_filter_nonempty: "cover (filter (\<lambda>w. fst w < snd w) ws) = cover ws"
  unfolding cover_def by (auto intro: order.strict_trans1) (meson order.strict_trans1)

lemma cover_normalized: "cover (normalize_removed_segments_ms ws) = cover (rounded_windows ws)"
  using removed.mrg_cover [of ws] by (simp add: kept_rounded_def cover_filter_nonempty)

section \<open>The offset counts removed milliseconds\<close>

lemma finite_cover_int [simp]: "finite (cover (ws :: millis window list))"
  by (simp add: cover_def)

lemma removed_offset_loop_card:
  assumes "separated 0 ws"
  shows "removed_offset_loop t k ws = k + int (card (cover ws \<inter> {..<t}))"
  using assms
proof (induction t k ws rule: removed_offset_loop.induct)
  case (2 t k s e rest)
  then have se: "s \<le> e" and sep: "separated 0 rest" "\<forall>v\<in>set rest. e < fst v"
    by (auto simp: separated_Cons)
  have rest: "x \<in> cover rest \<Longrightarrow> e < x" for x using sep(2) by (auto simp: cover_def)
  consider "e \<le> t" | "t < e" "s < t" | "t < e" "t \<le> s" by linarith
  then show ?case
  proof cases
    case 1
    then have "cover ((s, e) # rest) \<inter> {..<t} = {s..<e} \<union> (cover rest \<inter> {..<t})" using se by auto
    moreover have "card ({s..<e} \<union> (cover rest \<inter> {..<t})) = card {s..<e} + card (cover rest \<inter> {..<t})"
      using rest by (intro card_Un_disjoint) force+
    ultimately show ?thesis using 1 2 se sep by simp
  next
    case c: 2
    then have "cover ((s, e) # rest) \<inter> {..<t} = {s..<t}" using rest by force
    with c show ?thesis by simp
  next
    case 3
    then have "cover ((s, e) # rest) \<inter> {..<t} = {}" using rest by force
    with 3 show ?thesis by simp
  qed
qed simp

text \<open>The position of an instant in the cut audio: the milliseconds kept before it.\<close>

definition kept_before :: "millis window list \<Rightarrow> millis \<Rightarrow> millis" where
  "kept_before ws t = int (card ({0..<t} - cover ws))"

lemma kept_before_mono: "s \<le> t \<Longrightarrow> kept_before ws s \<le> kept_before ws t"
  unfolding kept_before_def by (auto intro!: card_mono)

lemma offset_kept:
  assumes "0 \<le> t" and "\<forall>w\<in>set rs. 0 \<le> fst w"
  shows "t - removed_offset_ms_at_time t (normalize_removed_segments_ms rs) = kept_before (rounded_windows rs) t"
proof -
  let ?C = "cover (rounded_windows rs)"
  have "\<forall>w\<in>set (rounded_windows rs). 0 \<le> fst w"
    using assms(2) by (auto simp: rounded_windows_def intro!: py_round_nonneg)
  then have pos: "\<forall>x\<in>?C. 0 \<le> x" by (force simp: cover_def)
  have "removed_offset_ms_at_time t (normalize_removed_segments_ms rs) = int (card (?C \<inter> {..<t}))"
    unfolding removed_offset_ms_at_time_def
    by (subst removed_offset_loop_card) (simp_all add: removed.mrg_separated cover_normalized)
  moreover have "?C \<inter> {..<t} = {0..<t} \<inter> ?C" using pos by auto
  moreover have "card ({0..<t} - ?C) + card ({0..<t} \<inter> ?C) = card {0..<t}"
    by (metis Int_commute add.commute card_Int_Diff finite_atLeastLessThan_int)
  ultimately show ?thesis using assms(1) by (simp add: kept_before_def)
qed

definition chapter_ok :: "episode_chapter \<Rightarrow> bool" where
  "chapter_ok c \<longleftrightarrow> 0 \<le> start_time_ms c \<and> start_time_ms c \<le> end_time_ms c"

lemma retime_chapter_kept:
  assumes "chapter_ok c" and "\<forall>w\<in>set rs. 0 \<le> fst w"
  shows "retime_chapter (normalize_removed_segments_ms rs) c =
    c\<lparr>start_time_ms := kept_before (rounded_windows rs) (start_time_ms c),
      end_time_ms := kept_before (rounded_windows rs) (end_time_ms c)\<rparr>"
proof -
  let ?o = "\<lambda>t. removed_offset_ms_at_time t (normalize_removed_segments_ms rs)"
  from assms(1) have c: "0 \<le> start_time_ms c" "start_time_ms c \<le> end_time_ms c" "0 \<le> end_time_ms c"
    by (auto simp: chapter_ok_def)
  note s = offset_kept [OF c(1) assms(2)] and e = offset_kept [OF c(3) assms(2)]
  have mono: "kept_before (rounded_windows rs) (start_time_ms c) \<le> kept_before (rounded_windows rs) (end_time_ms c)"
    by (rule kept_before_mono [OF c(2)])
  have sep: "separated 0 (normalize_removed_segments_ms rs)" by (rule removed.mrg_separated)
  have "?o (start_time_ms c) \<le> ?o (end_time_ms c)"
    unfolding removed_offset_ms_at_time_def removed_offset_loop_card [OF sep]
    using c(2) by (auto intro!: card_mono)
  then have "max (?o (end_time_ms c)) (?o (start_time_ms c)) = ?o (end_time_ms c)" by simp
  moreover have "0 \<le> kept_before (rounded_windows rs) (start_time_ms c)" by (simp add: kept_before_def)
  ultimately show ?thesis using s e mono
    by (simp add: retime_chapter_def mk_chapter_def Let_def)
qed

lemma kept_before_Nil: "0 \<le> t \<Longrightarrow> kept_before [] t = t"
  by (simp add: kept_before_def)

text \<open>C7.  A kept chapter is written back at its place in the cut audio: its new start and end
  are the numbers of milliseconds before the old ones that no removed window covers, however
  the removed windows overlap; title and order do not change.\<close>

theorem chapters_keep_their_place:
  assumes "\<forall>c\<in>set chapters. chapter_ok c" and "\<forall>w\<in>set rs. 0 \<le> fst w"
  shows "recalculate_chapter_times chapters rs =
    map (\<lambda>c. c\<lparr>start_time_ms := kept_before (rounded_windows rs) (start_time_ms c),
      end_time_ms := kept_before (rounded_windows rs) (end_time_ms c)\<rparr>) chapters"
proof (cases "rs = []")
  case True
  have "map (\<lambda>c. c\<lparr>start_time_ms := kept_before [] (start_time_ms c),
      end_time_ms := kept_before [] (end_time_ms c)\<rparr>) chapters = chapters"
    using assms(1) by (intro map_idI) (auto simp: chapter_ok_def kept_before_Nil)
  with True show ?thesis by (simp add: recalculate_chapter_times_def rounded_windows_def)
next
  case False
  then show ?thesis using assms
    by (auto simp: recalculate_chapter_times_def retime_chapter_kept)
qed

theorem chapters_keep_their_place_witness:
  "recalculate_chapter_times [mk_chapter ''a'' ''News'' 60000 90000] [(10, 30), (20, 40)] =
    map (\<lambda>c. c\<lparr>start_time_ms := kept_before (rounded_windows [(10, 30), (20, 40)]) (start_time_ms c),
      end_time_ms := kept_before (rounded_windows [(10, 30), (20, 40)]) (end_time_ms c)\<rparr>)
      [mk_chapter ''a'' ''News'' 60000 90000]"
  by (rule chapters_keep_their_place) (simp_all add: chapter_ok_def mk_chapter_def)

section \<open>The written frames\<close>

lemma sorted_clamp: "sorted (map start_time_ms cs) \<Longrightarrow> sorted (map start_time_ms (clamp_chapters d cs))"
  by (simp add: clamp_chapters_def mk_chapter_def comp_def sorted_filter)

lemma clamp_bounds:
  assumes "0 < d" and "c \<in> set (clamp_chapters d cs)" and "\<forall>c\<in>set cs. chapter_ok c"
  shows "chapter_ok c \<and> start_time_ms c < d \<and> end_time_ms c \<le> d"
  using assms by (auto simp: clamp_chapters_def mk_chapter_def chapter_ok_def)

text \<open>The result of filling, on a list split at its ends.\<close>

definition lower_start :: "episode_chapter \<Rightarrow> episode_chapter" where
  "lower_start c = (if start_time_ms c > 0
     then mk_chapter (element_id c) (chapter_title c) 0 (max (end_time_ms c) 0) else c)"

definition raise_end :: "millis \<Rightarrow> episode_chapter \<Rightarrow> episode_chapter" where
  "raise_end d c = (if d > 0 \<and> end_time_ms c < d
     then mk_chapter (element_id c) (chapter_title c) (start_time_ms c) d else c)"

lemma fill_Nil [simp]: "fill_chapter_gaps [] d = []"
  by (simp add: fill_chapter_gaps_def)

lemma fill_single: "fill_chapter_gaps [c] d = [raise_end d (lower_start c)]"
  by (auto simp: fill_chapter_gaps_def lower_start_def raise_end_def Let_def mk_chapter_def)

lemma fill_ends: "fill_chapter_gaps (c # cs @ [e]) d = lower_start c # cs @ [raise_end d e]"
  by (simp add: fill_chapter_gaps_def lower_start_def raise_end_def Let_def butlast_append)

lemma ends_cases:
  obtains "xs = []" | c where "xs = [c]" | c cs e where "xs = c # cs @ [e]"
proof (cases xs)
  case (Cons c ys)
  with that show ?thesis by (cases ys rule: rev_cases) auto
qed (use that in simp)

lemma lower_start_simps:
  "0 \<le> start_time_ms c \<Longrightarrow> start_time_ms (lower_start c) = 0"
  "chapter_ok c \<Longrightarrow> end_time_ms (lower_start c) = end_time_ms c"
  "chapter_ok c \<Longrightarrow> chapter_ok (lower_start c)"
  "chapter_title (lower_start c) = chapter_title c"
  by (auto simp: lower_start_def mk_chapter_def chapter_ok_def)

lemma raise_end_simps:
  "start_time_ms (raise_end d c) = start_time_ms c"
  "0 < d \<Longrightarrow> end_time_ms c \<le> d \<Longrightarrow> start_time_ms c \<le> d \<Longrightarrow> end_time_ms (raise_end d c) = d"
  "chapter_ok c \<Longrightarrow> chapter_ok (raise_end d c)"
  "chapter_title (raise_end d c) = chapter_title c"
  by (auto simp: raise_end_def mk_chapter_def chapter_ok_def)

lemma fill_sorted:
  assumes "sorted (map start_time_ms cs)" and "\<forall>c\<in>set cs. chapter_ok c"
  shows "sorted (map start_time_ms (fill_chapter_gaps cs d)) \<and> (\<forall>c\<in>set (fill_chapter_gaps cs d). chapter_ok c) \<and>
    map chapter_title (fill_chapter_gaps cs d) = map chapter_title cs"
  using assms
proof (cases rule: ends_cases [of cs])
  case (3 c ms e)
  with assms show ?thesis
    by (auto simp: fill_ends lower_start_simps raise_end_simps sorted_append chapter_ok_def [of c])
qed (auto simp: fill_single lower_start_simps raise_end_simps)

lemma fill_frame:
  assumes "cs \<noteq> []" and "\<forall>c\<in>set cs. chapter_ok c \<and> start_time_ms c < d \<and> end_time_ms c \<le> d" and "0 < d"
  shows "start_time_ms (hd (fill_chapter_gaps cs d)) = 0 \<and> end_time_ms (last (fill_chapter_gaps cs d)) = d \<and>
    (\<forall>c\<in>set (fill_chapter_gaps cs d). 0 \<le> start_time_ms c \<and> start_time_ms c \<le> end_time_ms c \<and> end_time_ms c \<le> d)"
  using assms(1)
proof (cases rule: ends_cases [of cs])
  case (2 c)
  with assms(2,3) show ?thesis
    by (auto simp: fill_single lower_start_simps raise_end_simps chapter_ok_def)
next
  case (3 c ms e)
  with assms(2) have ok: "chapter_ok c" "chapter_ok e" "start_time_ms e < d" "end_time_ms e \<le> d" "end_time_ms c \<le> d"
    "\<forall>m\<in>set ms. chapter_ok m \<and> end_time_ms m \<le> d" by auto
  then have "0 \<le> start_time_ms c" by (simp add: chapter_ok_def)
  with ok assms(3) 3 show ?thesis
    by (auto simp: fill_ends lower_start_simps raise_end_simps chapter_ok_def)
qed simp

definition final_chapters :: "millis \<Rightarrow> episode_chapter list \<Rightarrow> episode_chapter list" where
  "final_chapters d chapters = fill_chapter_gaps (clamp_chapters d (sort_key start_time_ms chapters)) d"

lemma final_chapters_ok:
  assumes "\<forall>c\<in>set chapters. chapter_ok c"
  shows "sorted (map start_time_ms (final_chapters d chapters)) \<and> (\<forall>c\<in>set (final_chapters d chapters). chapter_ok c)"
proof -
  have "\<forall>c\<in>set (clamp_chapters d (sort_key start_time_ms chapters)). chapter_ok c"
  proof (cases "0 < d")
    case True
    with assms clamp_bounds [OF True] show ?thesis by auto
  qed (use assms in \<open>simp add: clamp_chapters_def\<close>)
  then show ?thesis
    using fill_sorted [OF sorted_clamp, of "sort_key start_time_ms chapters" d d]
    by (auto simp: final_chapters_def)
qed

lemma final_chapters_titles:
  assumes "\<forall>c\<in>set chapters. chapter_ok c \<and> chapter_title c \<noteq> []" and "c \<in> set (final_chapters d chapters)"
  shows "chapter_title c \<noteq> []"
proof -
  let ?cl = "clamp_chapters d (sort_key start_time_ms chapters)"
  have "\<forall>c\<in>set ?cl. chapter_ok c \<and> chapter_title c \<noteq> []"
    using assms(1) by (auto simp: clamp_chapters_def mk_chapter_def chapter_ok_def)
  moreover have "sorted (map start_time_ms ?cl)" by (rule sorted_clamp) simp
  ultimately have "map chapter_title (final_chapters d chapters) = map chapter_title ?cl"
    and titles: "\<forall>t\<in>set (map chapter_title ?cl). t \<noteq> []"
    using fill_sorted [of ?cl d] by (auto simp: final_chapters_def)
  then have "chapter_title ` set (final_chapters d chapters) = set (map chapter_title ?cl)"
    by (metis list.set_map)
  with assms(2) titles show ?thesis by blast
qed

text \<open>The chapters written to a file of known length cover it from end to end: they are in
  order of start, the first starts at 0, the last ends at the end of the file, and all of
  them lie inside it, whatever the chapters were before.\<close>

theorem written_chapters_span_the_file:
  assumes "\<forall>c\<in>set chapters. chapter_ok c" and "0 < d" and "final_chapters d chapters \<noteq> []"
  shows "sorted (map start_time_ms (final_chapters d chapters)) \<and>
    start_time_ms (hd (final_chapters d chapters)) = 0 \<and> end_time_ms (last (final_chapters d chapters)) = d \<and>
    (\<forall>c\<in>set (final_chapters d chapters). 0 \<le> start_time_ms c \<and> start_time_ms c \<le> end_time_ms c \<and> end_time_ms c \<le> d)"
proof -
  let ?cl = "clamp_chapters d (sort_key start_time_ms chapters)"
  have "?cl \<noteq> []" using assms(3) by (auto simp: final_chapters_def fill_chapter_gaps_def)
  moreover have "\<forall>c\<in>set ?cl. chapter_ok c \<and> start_time_ms c < d \<and> end_time_ms c \<le> d"
    using clamp_bounds [OF assms(2)] assms(1) by auto
  ultimately show ?thesis
    using fill_frame [of ?cl d] assms(2) final_chapters_ok [OF assms(1)] by (auto simp: final_chapters_def)
qed

theorem written_chapters_span_the_file_witness:
  "let cs = final_chapters 100 [mk_chapter ''b'' ''B'' 50 70, mk_chapter ''a'' ''A'' 10 40] in
   sorted (map start_time_ms cs) \<and> start_time_ms (hd cs) = 0 \<and> end_time_ms (last cs) = 100 \<and>
   (\<forall>c\<in>set cs. 0 \<le> start_time_ms c \<and> start_time_ms c \<le> end_time_ms c \<and> end_time_ms c \<le> 100)"
  unfolding Let_def
  by (rule written_chapters_span_the_file)
    (simp_all add: chapter_ok_def mk_chapter_def final_chapters_def clamp_chapters_def fill_chapter_gaps_def)

text \<open>Gaps between two chapters stay: the routine that is documented to leave no gaps moves
  the first start and the last end only.\<close>

theorem interior_gaps_are_not_filled:
  assumes "chapter_ok a" and "chapter_ok b" and "end_time_ms a \<le> x" and "x < start_time_ms b"
    and "\<forall>c\<in>set cs. chapter_ok c \<and> start_time_ms b \<le> start_time_ms c"
  shows "x \<notin> cover (map (\<lambda>c. (start_time_ms c, end_time_ms c)) (fill_chapter_gaps (a # b # cs) d))"
proof -
  obtain ms e where e: "b # cs = ms @ [e]" by (metis list.distinct(1) rev_exhaust)
  then have in_tail: "set (b # cs) = insert e (set ms)" by simp
  have "\<forall>c\<in>insert e (set ms). x < start_time_ms c"
    unfolding in_tail [symmetric] using assms(4,5) by auto
  moreover have "end_time_ms (lower_start a) \<le> x" using assms(1,3) by (simp add: lower_start_simps)
  ultimately show ?thesis
    unfolding e by (force simp: fill_ends raise_end_simps cover_def)
qed

theorem interior_gaps_are_not_filled_witness:
  "(30::int) \<notin> cover (map (\<lambda>c. (start_time_ms c, end_time_ms c))
     (fill_chapter_gaps [mk_chapter ''a'' ''A'' 0 20, mk_chapter ''b'' ''B'' 50 100] 100))"
  by (rule interior_gaps_are_not_filled) (simp_all add: chapter_ok_def mk_chapter_def)

section \<open>Reading back what was written\<close>

definition tags_ok :: "id3_tags \<Rightarrow> bool" where
  "tags_ok tags \<longleftrightarrow> (\<forall>k f. (k, f) \<in> set tags \<longrightarrow> chapter_of_frame f \<noteq> None \<longrightarrow> starts_with ''CHAP'' k)"

fun chapter_entries :: "nat \<Rightarrow> episode_chapter list \<Rightarrow> id3_tags" where
  "chapter_entries i [] = []"
| "chapter_entries i (c # cs) =
     (''CHAP:'' @ chapter_key i,
       CHAP (chapter_key i) (start_time_ms c) (end_time_ms c) [(''TIT2'', [chapter_title c])])
     # chapter_entries (i + 1) cs"

fun numbered :: "nat \<Rightarrow> episode_chapter list \<Rightarrow> episode_chapter list" where
  "numbered i [] = []"
| "numbered i (c # cs) = c\<lparr>element_id := chapter_key i\<rparr> # numbered (i + 1) cs"

lemma update_fresh: "k \<notin> fst ` set d \<Longrightarrow> AList.update k v d = d @ [(k, v)]"
  by (induction d) auto

lemma chapter_entries_keys:
  "k \<in> fst ` set (chapter_entries i cs) \<Longrightarrow> \<exists>j\<ge>i. k = ''CHAP:'' @ chapter_key j"
proof (induction i cs rule: chapter_entries.induct)
  case (2 i c cs)
  then consider "k = ''CHAP:'' @ chapter_key i" | "k \<in> fst ` set (chapter_entries (i + 1) cs)" by auto
  then show ?case
  proof cases
    case 2
    from "2.IH" [OF this] obtain j where "j \<ge> i + 1" "k = ''CHAP:'' @ chapter_key j" by blast
    then show ?thesis by (intro exI [of _ j]) simp
  qed auto
qed simp

lemma add_chapter_frames_eq:
  assumes "\<And>j. j \<ge> i \<Longrightarrow> ''CHAP:'' @ chapter_key j \<notin> fst ` set tags"
  shows "add_chapter_frames i cs tags = tags @ chapter_entries i cs"
  using assms
proof (induction i cs tags rule: add_chapter_frames.induct)
  case (2 i c cs tags)
  let ?e = "(''CHAP:'' @ chapter_key i,
    CHAP (chapter_key i) (start_time_ms c) (end_time_ms c) [(''TIT2'', [chapter_title c])])"
  have upd: "AList.update (fst ?e) (snd ?e) tags = tags @ [?e]"
    using 2(2) [of i] by (simp add: update_fresh)
  have "add_chapter_frames (i + 1) cs (tags @ [?e]) = (tags @ [?e]) @ chapter_entries (i + 1) cs"
    using 2 upd by (auto simp: chapter_key_def)
  with upd show ?case by simp
qed simp

lemma map_filter_none: "\<forall>kf\<in>set tags. chapter_of_frame (snd kf) = None \<Longrightarrow>
    List.map_filter (\<lambda>kf. chapter_of_frame (snd kf)) tags = []"
  by (induction tags) (auto simp: List.map_filter_simps)

lemma map_filter_append: "List.map_filter f (xs @ ys) = List.map_filter f xs @ List.map_filter f ys"
  by (simp add: List.map_filter_def)

lemma map_filter_entries:
  assumes "\<forall>c\<in>set cs. chapter_ok c \<and> chapter_title c \<noteq> []"
  shows "List.map_filter (\<lambda>kf. chapter_of_frame (snd kf)) (chapter_entries i cs) = numbered i cs"
  using assms
  by (induction i cs rule: numbered.induct)
    (auto simp: List.map_filter_simps chapter_of_frame_def mk_chapter_def chapter_ok_def)

lemma numbered_starts [simp]: "map start_time_ms (numbered i cs) = map start_time_ms cs"
  by (induction i cs rule: numbered.induct) auto

lemma starts_with_append [simp]: "starts_with p (p @ s)"
  by (auto simp: starts_with_iff)

lemma written_frames:
  assumes "tags_ok tags" and "\<forall>c\<in>set final. chapter_ok c \<and> chapter_title c \<noteq> []"
    and tot: "\<forall>kf\<in>set tlen. chapter_of_frame (snd kf) = None"
    and toc: "\<forall>kf\<in>set toc. chapter_of_frame (snd kf) = None"
    and P: "\<And>kf. \<not> P kf \<Longrightarrow> \<not> starts_with ''CHAP'' (fst kf)"
  shows "List.map_filter (\<lambda>kf. chapter_of_frame (snd kf))
    (filter P (add_chapter_frames 0 final (filter (\<lambda>(k, f). \<not> (starts_with ''CHAP'' k \<or> starts_with ''CTOC'' k)) tags) @ toc)
      @ tlen) = numbered 0 final"
proof -
  let ?t1 = "filter (\<lambda>(k, f). \<not> (starts_with ''CHAP'' k \<or> starts_with ''CTOC'' k)) tags"
  have "''CHAP:'' @ chapter_key j \<notin> fst ` set ?t1" for j
    by (auto simp: starts_with_def)
  then have add: "add_chapter_frames 0 final ?t1 = ?t1 @ chapter_entries 0 final"
    by (intro add_chapter_frames_eq) blast
  have ent: "filter P (chapter_entries 0 final) = chapter_entries 0 final"
  proof (rule filter_True, intro ballI)
    fix kf assume "kf \<in> set (chapter_entries 0 final)"
    with chapter_entries_keys [of "fst kf" 0 final] obtain j where "fst kf = ''CHAP:'' @ chapter_key j" by auto
    then have "starts_with ''CHAP'' (fst kf)" by (simp add: starts_with_def)
    with P show "P kf" by blast
  qed
  have t1: "\<forall>kf\<in>set (filter P ?t1). chapter_of_frame (snd kf) = None"
    using assms(1) unfolding tags_ok_def by fastforce
  have toc': "\<forall>kf\<in>set (filter P toc). chapter_of_frame (snd kf) = None" using toc by auto
  show ?thesis
    unfolding add filter_append map_filter_append ent map_filter_none [OF t1] map_filter_none [OF toc']
      map_filter_none [OF tot] map_filter_entries [OF assms(2)] by simp
qed

lemma update_at_end:
  assumes "k \<notin> fst ` set d"
  obtains rest where "AList.update k v d = d @ rest" "rest = [(k, v)]"
  using update_fresh [OF assms] by blast

lemma written_tags_shape:
  assumes "write_chapters len (Some tags) chapters = Some out" and "chapters \<noteq> []"
  obtains P toc tlen d where
    "out = filter P (add_chapter_frames 0 (final_chapters d chapters)
        (filter (\<lambda>(k, f). \<not> (starts_with ''CHAP'' k \<or> starts_with ''CTOC'' k)) tags) @ toc) @ tlen"
    "\<forall>kf\<in>set toc. chapter_of_frame (snd kf) = None" "\<forall>kf\<in>set tlen. chapter_of_frame (snd kf) = None"
    "\<And>kf. \<not> P kf \<Longrightarrow> \<not> starts_with ''CHAP'' (fst kf)"
    "d = (case len of None \<Rightarrow> 0 | Some l \<Rightarrow> if l = 0 then 0 else py_int (l * 1000))"
proof -
  define d where "d = (case len of None \<Rightarrow> 0 | Some l \<Rightarrow> if l = 0 then 0 else py_int (l * 1000))"
  let ?final = "final_chapters d chapters"
  let ?t1 = "filter (\<lambda>(k, f). \<not> (starts_with ''CHAP'' k \<or> starts_with ''CTOC'' k)) tags"
  let ?t2 = "add_chapter_frames 0 ?final ?t1"
  define tlen where "tlen = (if d \<noteq> 0 then d else if ?final = [] then 0 else Max (set (map end_time_ms ?final)))"
  define toc where "toc = (if ?final = [] then [] else [(''CTOC:toc'', CTOC (map chapter_key [0..<length ?final]))])"
  let ?P = "\<lambda>(k, f :: id3_frame). \<not> (k = ''TLEN'' \<or> starts_with ''TLEN:'' k)"
  have t2: "?t2 = ?t1 @ chapter_entries 0 ?final"
    by (rule add_chapter_frames_eq) (auto simp: starts_with_def)
  have "''CTOC:toc'' \<notin> fst ` set ?t2"
    unfolding t2 using chapter_entries_keys [of "''CTOC:toc''" 0 ?final]
    by (auto simp: starts_with_def)
  then have t3: "(if ?final = [] then ?t2 else AList.update ''CTOC:toc''
      (CTOC (map chapter_key [0..<length ?final])) ?t2) = ?t2 @ toc"
    by (simp add: toc_def update_fresh)
  have "''TLEN'' \<notin> fst ` set (filter ?P (?t2 @ toc))" by auto
  then have upd: "AList.update ''TLEN'' (TLEN (int_str tlen)) (filter ?P (?t2 @ toc)) =
      filter ?P (?t2 @ toc) @ [(''TLEN'', TLEN (int_str tlen))]"
    by (rule update_fresh)
  let ?t3 = "if ?final = [] then ?t2 else AList.update ''CTOC:toc'' (CTOC (map chapter_key [0..<length ?final])) ?t2"
  have "Some out = Some (if tlen > 0 then AList.update ''TLEN'' (TLEN (int_str tlen)) (filter ?P ?t3) else ?t3)"
    unfolding assms(1) [symmetric] tlen_def
    by (simp add: assms(2) write_chapters_def Let_def d_def [symmetric] final_chapters_def [symmetric] del: AList.update.simps)
  then have out: "out = (if tlen > 0 then filter ?P (?t2 @ toc) @ [(''TLEN'', TLEN (int_str tlen))] else ?t2 @ toc)"
    unfolding t3 upd by simp
  have toc_ok: "\<forall>kf\<in>set toc. chapter_of_frame (snd kf) = None"
    by (simp add: toc_def chapter_of_frame_def)
  show ?thesis
  proof (cases "tlen > 0")
    case True
    have P: "\<not> starts_with ''CHAP'' (fst kf)" if "\<not> ?P kf" for kf
      using that by (cases kf) (auto simp: starts_with_iff)
    show ?thesis
    proof (rule that [of ?P d toc "[(''TLEN'', TLEN (int_str tlen))]"])
      show "out = filter ?P (?t2 @ toc) @ [(''TLEN'', TLEN (int_str tlen))]" using True out by simp
    qed (use toc_ok P in \<open>simp_all add: d_def chapter_of_frame_def\<close>)
  next
    case False
    show ?thesis
      by (rule that [of "\<lambda>_. True" d toc "[]"]) (use False out toc_ok in \<open>auto simp: d_def\<close>)
  qed
qed

text \<open>C18.  Writing chapters and reading the file again gives back the chapters that were meant,
  in order, with the titles and times kept and with the new element ids; no chapter of the
  old tag survives.\<close>

theorem read_back_written_chapters:
  assumes "write_chapters len (Some tags) chapters = Some out" and "chapters \<noteq> []" and "tags_ok tags"
    and "\<forall>c\<in>set chapters. chapter_ok c \<and> chapter_title c \<noteq> []"
    and "d = (case len of None \<Rightarrow> 0 | Some l \<Rightarrow> if l = 0 then 0 else py_int (l * 1000))"
  shows "read_chapters None (Some (Some out)) = numbered 0 (final_chapters d chapters)"
proof -
  have ok: "\<forall>c\<in>set (final_chapters d chapters). chapter_ok c \<and> chapter_title c \<noteq> []"
    using assms(4) final_chapters_ok final_chapters_titles by blast
  have "List.map_filter (\<lambda>kf. chapter_of_frame (snd kf)) out = numbered 0 (final_chapters d chapters)"
  proof (rule written_tags_shape [OF assms(1,2)])
    fix P toc tlen d'
    assume out: "out = filter P (add_chapter_frames 0 (final_chapters d' chapters)
        (filter (\<lambda>(k, f). \<not> (starts_with ''CHAP'' k \<or> starts_with ''CTOC'' k)) tags) @ toc) @ tlen"
      and "\<forall>kf\<in>set toc. chapter_of_frame (snd kf) = None" "\<forall>kf\<in>set tlen. chapter_of_frame (snd kf) = None"
      and P: "\<And>kf. \<not> P kf \<Longrightarrow> \<not> starts_with ''CHAP'' (fst kf)"
      and d': "d' = (case len of None \<Rightarrow> 0 | Some l \<Rightarrow> if l = 0 then 0 else py_int (l * 1000))"
    then show ?thesis
      unfolding out d' [folded assms(5)] by (intro written_frames [OF assms(3) ok]) auto
  qed
  moreover have "sorted (map start_time_ms (numbered 0 (final_chapters d chapters)))"
    using final_chapters_ok assms(4) by simp
  ultimately show ?thesis by (simp add: read_chapters_def sorted_sort_id sort_key_id_if_sorted)
qed

theorem read_back_written_chapters_witness:
  "read_chapters None (Some (write_chapters (Some (1/10)) (Some [(''CHAP:x'', CHAP ''x'' 0 9 [])])
      [mk_chapter ''a'' ''A'' 10 40])) = numbered 0 (final_chapters 100 [mk_chapter ''a'' ''A'' 10 40])"
proof -
  obtain out where out: "write_chapters (Some (1/10)) (Some [(''CHAP:x'', CHAP ''x'' 0 9 [])])
      [mk_chapter ''a'' ''A'' 10 40] = Some out"
    by (simp add: write_chapters_def Let_def)
  from read_back_written_chapters [OF out, of 100] show ?thesis
    unfolding out
    by (simp add: tags_ok_def starts_with_def chapter_ok_def mk_chapter_def py_int_def)
qed

text \<open>Filtering splits the chapters by their title: both lists keep the order of the file,
  together they hold every chapter, a chapter is removed exactly when its title holds one of
  the filter strings, whatever the case, and the detector reports the removed chapters'
  windows as the ads.\<close>

theorem detected_ads_are_the_filtered_chapters:
  assumes "detect_chapter_ads None chapters fs = Inr (ads, keep, remove)"
  shows "mset chapters = mset keep + mset remove \<and>
    ads = map (\<lambda>c. (of_int (start_time_ms c) / 1000, of_int (end_time_ms c) / 1000)) remove \<and>
    remove = filter (\<lambda>c. \<exists>f\<in>set fs. py_strip f \<noteq> [] \<and> str_in (py_lower (py_strip f)) (py_lower (chapter_title c))) chapters \<and>
    keep = filter (\<lambda>c. \<not> (\<exists>f\<in>set fs. py_strip f \<noteq> [] \<and> str_in (py_lower (py_strip f)) (py_lower (chapter_title c)))) chapters"
proof -
  have title: "title_is_ad (map py_lower (filter (\<lambda>f. f \<noteq> []) (map py_strip fs))) =
      (\<lambda>c. \<exists>f\<in>set fs. py_strip f \<noteq> [] \<and> str_in (py_lower (py_strip f)) (py_lower (chapter_title c)))"
    by (rule ext) (auto simp: title_is_ad_def list_ex_iff)
  from assms have "(keep, remove) = filter_chapters_by_strings chapters fs" and ne: "chapters \<noteq> []"
    and ads: "ads = map (\<lambda>c. (of_int (start_time_ms c) / 1000, of_int (end_time_ms c) / 1000)) remove"
    by (auto simp: detect_chapter_ads_def split: if_splits prod.splits)
  then have "remove = filter (\<lambda>c. \<exists>f\<in>set fs. py_strip f \<noteq> [] \<and> str_in (py_lower (py_strip f)) (py_lower (chapter_title c))) chapters"
    and "keep = filter (\<lambda>c. \<not> (\<exists>f\<in>set fs. py_strip f \<noteq> [] \<and> str_in (py_lower (py_strip f)) (py_lower (chapter_title c)))) chapters"
    by (auto simp: filter_chapters_by_strings_def Let_def title split: if_splits)
  with ads show ?thesis by (simp add: multiset_partition [symmetric] mset_filter add.commute)
qed

lemma demo_detection:
  "detect_chapter_ads None [mk_chapter ''a'' ''News'' 0 9000, mk_chapter ''b'' ''Sponsor'' 9000 20000] ['' SPON ''] =
    Inr ([(9, 20)], [mk_chapter ''a'' ''News'' 0 9000], [mk_chapter ''b'' ''Sponsor'' 9000 20000])"
  by code_simp

theorem detected_ads_are_the_filtered_chapters_witness:
  "[mk_chapter ''b'' ''Sponsor'' 9000 20000] =
    filter (\<lambda>c. \<exists>f\<in>set ['' SPON '']. py_strip f \<noteq> [] \<and> str_in (py_lower (py_strip f)) (py_lower (chapter_title c)))
      [mk_chapter ''a'' ''News'' 0 9000, mk_chapter ''b'' ''Sponsor'' 9000 20000]"
  using detected_ads_are_the_filtered_chapters [OF demo_detection] by blast

end
