(* ===== verification/PyLines.thy ===== *)
theory PyLines
  imports PyRegex
begin

text \<open>
  The lines of a text, as the parser of descriptions and the settings read them.
\<close>

text \<open>\<open>str.splitlines\<close>: the separators are dropped, a carriage return and the line feed behind
  it are one separator, and a final separator opens no line.\<close>

definition line_break :: "char \<Rightarrow> bool" where
  "line_break c = (let n = of_char c :: nat in (10 \<le> n \<and> n \<le> 13) \<or> (28 \<le> n \<and> n \<le> 30))"

fun splitlines_from :: "bool \<Rightarrow> string \<Rightarrow> string \<Rightarrow> string list" where
  "splitlines_from after_cr w [] = (if w = [] then [] else [w])"
| "splitlines_from after_cr w (c # s) =
     (if after_cr \<and> c = CHR 0x0A then splitlines_from False w s
      else if line_break c then w # splitlines_from (c = CHR 0x0D) [] s
      else splitlines_from False (w @ [c]) s)"

end
