(* ===== verification/DescChapters.thy ===== *)
theory DescChapters
  imports Chapters PyLines "HOL-Library.Sublist"
begin

text \<open>
  \<open>src/podcast_processor/description_chapter_parser.py\<close>: chapters read from the time stamps
  in an episode's description.  Lines are cleaned of HTML, each line's first time stamp is a
  candidate, a longest increasing run of the candidates is selected, and the run becomes a
  list of chapters.

  \<open>html.unescape\<close> is an argument.  The en dash, em dash and bullet of the source's character
  classes are outside the ASCII strings of the model.  The links from an entry to its
  predecessor are followed by a \<open>while\<close> loop in the source and by a partial function here,
  so that the selection returns an option; it is proved to return.
\<close>

section \<open>Lines\<close>

definition ch :: "char \<Rightarrow> re" where
  "ch c = Cls (\<lambda>d. d = c)"

definition space_re :: re where
  "space_re = Cls py_space"

definition br_re :: re where
  "br_re = Seqs [ILit ''<br'', Star space_re, Opt (ch CHR ''/''), ch CHR ''>'']"

definition block_close_re :: re where
  "block_close_re = Seqs [Lit ''</'',
     Alts [ILit ''p'', ILit ''div'', ILit ''li'', ILit ''ul'', ILit ''ol'',
       Seq (ILit ''h'') (Cls (\<lambda>c. 49 \<le> (of_char c :: nat) \<and> (of_char c :: nat) \<le> 54)),
       ILit ''tr'', ILit ''td'', ILit ''blockquote''],
     ch CHR ''>'']"

definition tag_re :: re where
  "tag_re = Seqs [ch CHR ''<'', Plus (Cls (\<lambda>c. c \<noteq> CHR ''>'')), ch CHR ''>'']"

definition markdown_link_re :: re where
  "markdown_link_re = Seqs [ch CHR ''['', Grp 1 (Plus (Cls (\<lambda>c. c \<noteq> CHR '']''))), Lit ''](''  ,
     Grp 2 (Alt (Seqs [Lit ''http'', Opt (ch CHR ''s''), Lit ''://'']) (Lit ''www.'')),
     Plus (Cls (\<lambda>c. c \<noteq> CHR '')'')), ch CHR '')'']"

definition url_re :: re where
  "url_re = Seq (Alt (Seqs [ILit ''http'', Opt (ILit ''s''), Lit ''://'']) (ILit ''www.''))
     (Plus (Cls (\<lambda>c. \<not> py_space c)))"

definition digit_re :: re where
  "digit_re = Cls digit_char"

definition timestamp_re :: re where
  "timestamp_re = Seqs [NotBehind digit_char,
     Grp 1 (Seqs [Opt (Seqs [digit_re, Opt digit_re, ch CHR '':'']), digit_re, Opt digit_re, ch CHR '':'',
       digit_re, digit_re]),
     NotAhead digit_char]"

definition description_lines :: "(string \<Rightarrow> string) \<Rightarrow> string \<Rightarrow> string list" where
  "description_lines html_unescape description =
     (let txt = html_unescape (re_sub tag_re '' '' (re_sub block_close_re [CHR 0x0A] (re_sub br_re [CHR 0x0A] description)))
      in filter (\<lambda>l. l \<noteq> []) (map (\<lambda>raw. py_strip (re_sub (Plus space_re) '' '' raw)) (splitlines_from False [] txt)))"

section \<open>Time stamps and titles\<close>

definition parse_timestamp_ms :: "string \<Rightarrow> millis option" where
  "parse_timestamp_ms value =
     (case split_on CHR '':'' value of
        [minutes_str, seconds_str] \<Rightarrow>
          (case (int_of_str minutes_str, int_of_str seconds_str) of
             (Some minutes, Some seconds) \<Rightarrow>
               if minutes < 0 \<or> seconds < 0 \<or> 60 \<le> seconds then None
               else Some ((minutes * 60 + seconds) * 1000)
           | _ \<Rightarrow> None)
      | [hours_str, minutes_str, seconds_str] \<Rightarrow>
          (case (int_of_str hours_str, int_of_str minutes_str, int_of_str seconds_str) of
             (Some hours, Some minutes, Some seconds) \<Rightarrow>
               if minutes < 0 \<or> seconds < 0 \<or> 60 \<le> seconds then None
               else if 60 \<le> minutes then None
               else Some ((hours * 3600 + minutes * 60 + seconds) * 1000)
           | _ \<Rightarrow> None)
      | _ \<Rightarrow> None)"

definition clean_title_fragment :: "string \<Rightarrow> string" where
  "clean_title_fragment fragment =
     (let c1 = py_strip fragment;
          c2 = re_sub (Seq Bos (Plus (Cls (\<lambda>c. py_space c \<or> c \<in> set ''-:|>]).'')))) [] c1;
          c3 = re_sub (Seq (Plus (Cls (\<lambda>c. py_space c \<or> c \<in> set ''[(-:|<''))) Eos) [] c2;
          c4 = re_sub (Seq Bos (Alt (Seq (Cls (\<lambda>c. c \<in> set ''-*'')) (Plus space_re))
                 (Seqs [Plus digit_re, Cls (\<lambda>c. c \<in> set ''.)''), Plus space_re]))) [] c3;
          c5 = re_sub_group markdown_link_re 1 c4;
          c6 = re_sub url_re [] c5;
          c7 = re_sub (Seq (Plus (Cls (\<lambda>c. py_space c \<or> c \<in> set ''-:|>''))) Eos) [] c6
      in py_strip (re_sub (Plus space_re) '' '' c7))"

definition extract_title :: "string \<Rightarrow> nat \<times> nat \<Rightarrow> string" where
  "extract_title line ts_span =
     (let trailing = clean_title_fragment (drop (snd ts_span) line) in
      if trailing \<noteq> [] then trailing else clean_title_fragment (take (fst ts_span) line))"

section \<open>Candidates\<close>

text \<open>A candidate is a line number, a start and a title.\<close>

type_synonym candidate = "nat \<times> millis \<times> string"

abbreviation cand_line :: "candidate \<Rightarrow> nat" where "cand_line \<equiv> fst"
abbreviation cand_time :: "candidate \<Rightarrow> millis" where "cand_time c \<equiv> fst (snd c)"
abbreviation cand_title :: "candidate \<Rightarrow> string" where "cand_title c \<equiv> snd (snd c)"

fun collect_candidates :: "nat \<Rightarrow> string list \<Rightarrow> candidate list \<Rightarrow> candidate list" where
  "collect_candidates line_no [] candidates = candidates"
| "collect_candidates line_no (line # lines) candidates =
     collect_candidates (Suc line_no) lines
       (case re_search timestamp_re line of None \<Rightarrow> candidates
        | Some (_, _, groups) \<Rightarrow>
           (case map_of groups 1 of None \<Rightarrow> candidates
            | Some ts_span \<Rightarrow>
               (case parse_timestamp_ms (slice line (fst ts_span) (snd ts_span)) of None \<Rightarrow> candidates
                | Some start_ms \<Rightarrow>
                   (let title = extract_title line ts_span in
                    candidates @ [(line_no, start_ms,
                      if title = [] then ''Chapter '' @ nat_str (length candidates + 1) else title)]))))"

section \<open>The increasing run\<close>

text \<open>The state of the search is the pair \<open>lengths\<close>, \<open>prev_idx\<close>; -1 stands for no predecessor.\<close>

partial_function (option) chain_loop :: "candidate list \<Rightarrow> int list \<Rightarrow> candidate list \<Rightarrow> int \<Rightarrow> candidate list option" where
  "chain_loop candidates prev_idx chain cursor =
     (if cursor = -1 then Some (rev chain)
      else chain_loop candidates prev_idx (chain @ [candidates ! nat cursor]) (prev_idx ! nat cursor))"

declare chain_loop.simps [code]

definition reconstruct_candidate_sequence :: "candidate list \<Rightarrow> int list \<Rightarrow> nat \<Rightarrow> candidate list option" where
  "reconstruct_candidate_sequence candidates prev_idx end_idx = chain_loop candidates prev_idx [] (int end_idx)"

definition reconstruct_candidate_sequence_with_tail ::
  "candidate list \<Rightarrow> int list \<Rightarrow> nat \<Rightarrow> candidate \<Rightarrow> candidate list option" where
  "reconstruct_candidate_sequence_with_tail candidates prev_idx end_idx tail =
     map_option (\<lambda>chain. chain @ [tail]) (reconstruct_candidate_sequence candidates prev_idx end_idx)"

definition candidate_line_span :: "candidate list \<Rightarrow> int" where
  "candidate_line_span candidates =
     (if candidates = [] then 0 else int (cand_line (last candidates)) - int (cand_line (hd candidates)))"

type_synonym run_state = "nat list \<times> int list"

definition extend_run :: "candidate list \<Rightarrow> nat \<Rightarrow> nat \<Rightarrow> run_state \<Rightarrow> run_state option" where
  "extend_run candidates i j st =
     (let (lengths, prev_idx) = st in
      if cand_time (candidates ! j) \<ge> cand_time (candidates ! i) then Some st
      else let next_len = lengths ! j + 1 in
        if next_len > lengths ! i then Some (lengths[i := next_len], prev_idx[i := int j])
        else if next_len < lengths ! i then Some st
        else (case (reconstruct_candidate_sequence candidates prev_idx i,
                    reconstruct_candidate_sequence_with_tail candidates prev_idx j (candidates ! i)) of
            (Some current_chain, Some challenger_chain) \<Rightarrow>
              if candidate_line_span challenger_chain < candidate_line_span current_chain
              then Some (lengths, prev_idx[i := int j]) else Some st
          | _ \<Rightarrow> None))"

primrec fold_option :: "('a \<Rightarrow> 's \<Rightarrow> 's option) \<Rightarrow> 'a list \<Rightarrow> 's \<Rightarrow> 's option" where
  "fold_option f [] s = Some s"
| "fold_option f (x # xs) s = (case f x s of None \<Rightarrow> None | Some s' \<Rightarrow> fold_option f xs s')"

definition run_lengths :: "candidate list \<Rightarrow> run_state option" where
  "run_lengths candidates =
     fold_option (\<lambda>i. fold_option (extend_run candidates i) [0..<i]) [0..<length candidates]
       (replicate (length candidates) 1, replicate (length candidates) (-1))"

text \<open>\<open>max(range(count), key=...)\<close> with the key \<open>(lengths[idx], -line)\<close>: the first of the largest.\<close>

definition better_run :: "candidate list \<Rightarrow> nat list \<Rightarrow> nat \<Rightarrow> nat \<Rightarrow> bool" where
  "better_run candidates lengths best idx \<longleftrightarrow>
     lengths ! best < lengths ! idx \<or>
     lengths ! best = lengths ! idx \<and> cand_line (candidates ! idx) < cand_line (candidates ! best)"

definition best_run_end :: "candidate list \<Rightarrow> nat list \<Rightarrow> nat" where
  "best_run_end candidates lengths =
     foldl (\<lambda>best idx. if better_run candidates lengths best idx then idx else best) 0 [0..<length candidates]"

fun drop_seen_starts :: "millis set \<Rightarrow> candidate list \<Rightarrow> candidate list" where
  "drop_seen_starts seen_starts [] = []"
| "drop_seen_starts seen_starts (c # best) =
     (if cand_time c \<in> seen_starts then drop_seen_starts seen_starts best
      else c # drop_seen_starts (insert (cand_time c) seen_starts) best)"

definition select_monotonic_candidates :: "candidate list \<Rightarrow> candidate list option" where
  "select_monotonic_candidates candidates =
     (if candidates = [] then Some []
      else case run_lengths candidates of None \<Rightarrow> None
        | Some (lengths, prev_idx) \<Rightarrow>
           map_option (drop_seen_starts {})
             (reconstruct_candidate_sequence candidates prev_idx (best_run_end candidates lengths)))"

section \<open>Chapters\<close>

fun build_chapters :: "nat \<Rightarrow> millis option \<Rightarrow> candidate list \<Rightarrow> episode_chapter list" where
  "build_chapters index total_duration_ms [] = []"
| "build_chapters index total_duration_ms ((line_no, start_ms, title) # rest) =
     (let end_ms = (case rest of
            next # _ \<Rightarrow> cand_time next
          | [] \<Rightarrow> (case total_duration_ms of Some t \<Rightarrow> t | None \<Rightarrow> start_ms))
      in mk_chapter (''desc'' @ nat_str index) title start_ms (max start_ms end_ms)
         # build_chapters (Suc index) total_duration_ms rest)"

definition parse_chapters_from_description ::
  "(string \<Rightarrow> string) \<Rightarrow> string option \<Rightarrow> millis option \<Rightarrow> nat \<Rightarrow> episode_chapter list option" where
  "parse_chapters_from_description html_unescape description total_duration_ms min_chapters =
     (case description of None \<Rightarrow> Some []
      | Some txt \<Rightarrow>
         if txt = [] then Some []
         else let candidates = collect_candidates 0 (description_lines html_unescape txt) [] in
           if candidates = [] then Some []
           else (case select_monotonic_candidates candidates of None \<Rightarrow> None
             | Some unique_candidates \<Rightarrow>
                if length unique_candidates < min_chapters then Some []
                else if (case total_duration_ms of None \<Rightarrow> False | Some t \<Rightarrow> t \<le> cand_time (last unique_candidates))
                then Some []
                else Some (build_chapters 0 total_duration_ms unique_candidates)))"

section \<open>The search finds a longest increasing run\<close>

abbreviation increasing :: "candidate list \<Rightarrow> bool" where
  "increasing cs \<equiv> sorted_wrt (<) (map cand_time cs)"

text \<open>An entry either starts a run or extends the run of an earlier and smaller entry.\<close>

definition linked :: "candidate list \<Rightarrow> nat list \<Rightarrow> int list \<Rightarrow> nat \<Rightarrow> bool" where
  "linked c L P k \<longleftrightarrow> P ! k = -1 \<and> L ! k = 1 \<or>
     (\<exists>p<k. P ! k = int p \<and> cand_time (c ! p) < cand_time (c ! k) \<and> L ! k = L ! p + 1)"

definition bounds_below :: "candidate list \<Rightarrow> nat list \<Rightarrow> nat \<Rightarrow> nat \<Rightarrow> bool" where
  "bounds_below c L q k \<longleftrightarrow> (\<forall>j<q. cand_time (c ! j) < cand_time (c ! k) \<longrightarrow> L ! j + 1 \<le> L ! k)"

text \<open>While entry \<open>i\<close> is worked on, the entries before \<open>i\<close> are settled, those behind it are as they
  were, and \<open>i\<close> itself has been compared with the first \<open>q\<close> entries.\<close>

definition run_inv :: "candidate list \<Rightarrow> nat \<Rightarrow> nat \<Rightarrow> run_state \<Rightarrow> bool" where
  "run_inv c i q st \<longleftrightarrow> (case st of (L, P) \<Rightarrow>
     length L = length c \<and> length P = length c \<and> (\<forall>k<length c. linked c L P k) \<and>
     (\<forall>k<i. bounds_below c L k k) \<and> (i < length c \<longrightarrow> bounds_below c L q i) \<and>
     (\<forall>k<length c. i < k \<longrightarrow> L ! k = 1 \<and> P ! k = -1))"

lemma sorted_last_max: "sorted xs \<Longrightarrow> x \<in> set xs \<Longrightarrow> x \<le> last (xs :: int list)"
  by (induction xs) auto

lemma chain_loop_run:
  assumes "\<forall>k<length c. linked c L P k" and "k < length c"
  shows "\<exists>zs. (\<forall>acc. chain_loop c P acc (int k) = Some (zs @ rev acc)) \<and> subseq zs (take (Suc k) c) \<and>
    zs \<noteq> [] \<and> last zs = c ! k \<and> length zs = L ! k \<and> increasing zs"
  using assms(2)
proof (induction k rule: less_induct)
  case (less k)
  have step: "chain_loop c P acc (int k) = chain_loop c P (acc @ [c ! k]) (P ! k)" for acc
    by (subst chain_loop.simps) simp
  have tk: "take (Suc k) c = take k c @ [c ! k]" using less.prems by (rule take_Suc_conv_app_nth)
  from assms(1) less.prems consider "P ! k = -1" "L ! k = 1"
    | p where "p < k" "P ! k = int p" "cand_time (c ! p) < cand_time (c ! k)" "L ! k = L ! p + 1"
    unfolding linked_def by blast
  then show ?case
  proof cases
    case 1
    have "chain_loop c P acc (int k) = Some ([c ! k] @ rev acc)" for acc
      unfolding step 1 by (subst chain_loop.simps) simp
    moreover have "subseq [c ! k] (take k c @ [c ! k])"
      using list_emb_append_mono [of "(=)" "[]" "take k c" "[c ! k]" "[c ! k]"] by simp
    ultimately show ?thesis using 1 tk by (intro exI [of _ "[c ! k]"]) simp
  next
    case 2
    from less.IH [OF 2(1)] 2(1) less.prems obtain zs where
      zs: "\<forall>acc. chain_loop c P acc (int p) = Some (zs @ rev acc)" "subseq zs (take (Suc p) c)" "zs \<noteq> []"
      "last zs = c ! p" "length zs = L ! p" "increasing zs" by auto
    have "chain_loop c P acc (int k) = Some ((zs @ [c ! k]) @ rev acc)" for acc
      unfolding step 2(2) using zs(1) by simp
    moreover have "subseq (zs @ [c ! k]) (take (Suc k) c)"
    proof -
      have "take k c = take (Suc p) c @ drop (Suc p) (take k c)"
        using 2(1) by (metis Suc_leI append_take_drop_id min.absorb1 take_take)
      with zs(2) have "subseq zs (take k c)" by (metis list_emb_append2 subseq_rev_drop_many)
      then show ?thesis unfolding tk by (intro list_emb_append_mono) simp_all
    qed
    moreover have "increasing (zs @ [c ! k])"
    proof -
      have "cand_time z \<le> cand_time (c ! p)" if "z \<in> set zs" for z
        using sorted_last_max [of "map cand_time zs" "cand_time z"] zs(3,4,6) that
        by (simp add: strict_sorted_imp_sorted last_map)
      with zs(6) 2(3) show ?thesis by (fastforce simp: sorted_wrt_append)
    qed
    ultimately show ?thesis using zs(5) 2(4) by (intro exI [of _ "zs @ [c ! k]"]) simp
  qed
qed

lemma reconstruct_returns:
  assumes "\<forall>k<length c. linked c L P k" and "k < length c"
  obtains zs where "reconstruct_candidate_sequence c P k = Some zs" "subseq zs c" "zs \<noteq> []" "length zs = L ! k" "increasing zs"
proof -
  from chain_loop_run [OF assms] obtain zs where "chain_loop c P [] (int k) = Some (zs @ rev [])"
    "subseq zs (take (Suc k) c)" "zs \<noteq> []" "length zs = L ! k" "increasing zs" by blast
  moreover from this(2) have "subseq zs c" by (metis append_take_drop_id subseq_rev_drop_many)
  ultimately show ?thesis using that by (simp add: reconstruct_candidate_sequence_def)
qed

lemma linked_update:
  assumes "\<forall>k<length c. linked c L P k" and "\<forall>k<length c. i < k \<longrightarrow> P ! k = -1 \<and> L ! k = 1"
    and "length L = length c" and "length P = length c" and "i < length c" and "j < i"
    and "cand_time (c ! j) < cand_time (c ! i)"
  shows "\<forall>k<length c. linked c (L[i := L ! j + 1]) (P[i := int j]) k"
proof (intro allI impI)
  fix k assume k: "k < length c"
  consider "k = i" | "i < k" | "k < i" by linarith
  then show "linked c (L[i := L ! j + 1]) (P[i := int j]) k"
  proof cases
    case 3
    have "linked c L P k" using assms(1) k by blast
    with 3 show ?thesis unfolding linked_def by (auto simp: nth_list_update)
  qed (use assms k in \<open>auto simp: linked_def nth_list_update\<close>)
qed

lemma extend_run_inv:
  assumes inv: "run_inv c i j st" and "j < i" and "i < length c"
  shows "\<exists>st'. extend_run c i j st = Some st' \<and> run_inv c i (Suc j) st'"
proof -
  obtain L P where st: "st = (L, P)" by (cases st)
  have len: "length L = length c" "length P = length c" and lk: "\<forall>k<length c. linked c L P k"
    and below: "\<forall>k<i. bounds_below c L k k" and bi: "bounds_below c L j i"
    and later: "\<forall>k<length c. i < k \<longrightarrow> L ! k = 1 \<and> P ! k = -1"
    using inv assms(3) unfolding run_inv_def st by auto
  have later': "\<forall>k<length c. i < k \<longrightarrow> P ! k = -1 \<and> L ! k = 1" using later by blast
  have keep: "\<forall>k<i. bounds_below c (L[i := v]) k k" for v
    using below unfolding bounds_below_def by (auto simp: nth_list_update)
  have bS: "bounds_below c L (Suc j) i" if "cand_time (c ! j) < cand_time (c ! i) \<longrightarrow> L ! j + 1 \<le> L ! i"
    using bi that unfolding bounds_below_def by (auto simp: less_Suc_eq)
  consider "cand_time (c ! j) \<ge> cand_time (c ! i)" | "cand_time (c ! j) < cand_time (c ! i)" "L ! j + 1 > L ! i"
    | "cand_time (c ! j) < cand_time (c ! i)" "L ! j + 1 < L ! i" | "cand_time (c ! j) < cand_time (c ! i)" "L ! j + 1 = L ! i"
    by linarith
  then show ?thesis
  proof cases
    case 1
    with bS have "bounds_below c L (Suc j) i" by linarith
    with 1 len lk below later show ?thesis by (simp add: st extend_run_def run_inv_def)
  next
    case 2
    have "bounds_below c (L[i := L ! j + 1]) (Suc j) i"
      using bi 2 assms(2,3) len unfolding bounds_below_def by (auto simp: nth_list_update less_Suc_eq)
    with 2 len keep later linked_update [OF lk later' len assms(3,2) 2(1)] show ?thesis
      by (simp add: st extend_run_def run_inv_def)
  next
    case 3
    with bS have "bounds_below c L (Suc j) i" by linarith
    with 3 len lk below later show ?thesis by (simp add: st extend_run_def run_inv_def)
  next
    case 4
    with bS have b: "bounds_below c L (Suc j) i" by simp
    obtain zs where zs: "reconstruct_candidate_sequence c P i = Some zs" using reconstruct_returns [OF lk assms(3)] by blast
    have "j < length c" using assms(2,3) by simp
    from reconstruct_returns [OF lk this] obtain us where us: "reconstruct_candidate_sequence c P j = Some us" by blast
    have "L[i := L ! j + 1] = L" using 4(2) by (metis list_update_id)
    with linked_update [OF lk later' len assms(3,2) 4(1)] have "\<forall>k<length c. linked c L (P[i := int j]) k" by simp
    with 4 zs us b len lk below later show ?thesis
      by (simp add: st extend_run_def run_inv_def reconstruct_candidate_sequence_with_tail_def)
  qed
qed

lemma fold_option_upt:
  assumes "\<And>k s. I k s \<Longrightarrow> k < n \<Longrightarrow> \<exists>s'. f k s = Some s' \<and> I (Suc k) s'" and "I m s" and "m \<le> n"
  shows "\<exists>s'. fold_option f [m..<n] s = Some s' \<and> I n s'"
  using assms(2,3)
proof (induction "n - m" arbitrary: m s)
  case (Suc d)
  then have m: "m < n" by simp
  from assms(1) [OF Suc.prems(1) m] obtain s' where "f m s = Some s'" "I (Suc m) s'" by blast
  with Suc.hyps(1) [of "Suc m" s'] Suc.hyps(2) m show ?case by (simp add: upt_conv_Cons)
qed auto

lemma run_lengths_inv: "\<exists>st. run_lengths c = Some st \<and> run_inv c (length c) 0 st"
  unfolding run_lengths_def
proof (rule fold_option_upt [where I = "\<lambda>i. run_inv c i 0"])
  fix i st assume inv: "run_inv c i 0 st" and i: "i < length c"
  have "\<exists>st'. fold_option (extend_run c i) [0..<i] st = Some st' \<and> run_inv c i i st'"
    by (rule fold_option_upt [where I = "run_inv c i"]) (use inv i extend_run_inv in auto)
  moreover have "run_inv c (Suc i) 0 st'" if "run_inv c i i st'" for st'
    using that i unfolding run_inv_def bounds_below_def by (auto simp: less_Suc_eq)
  ultimately show "\<exists>st'. fold_option (extend_run c i) [0..<i] st = Some st' \<and> run_inv c (Suc i) 0 st'" by blast
next
  show "run_inv c 0 0 (replicate (length c) 1, replicate (length c) (-1))"
    by (simp add: run_inv_def linked_def bounds_below_def)
qed simp

lemma subseq_snoc: "subseq zs (xs @ [x]) \<Longrightarrow> subseq zs xs \<or> (\<exists>us. zs = us @ [x] \<and> subseq us xs)"
proof (induction xs arbitrary: zs)
  case Nil
  then show ?case by (cases zs) (auto split: if_splits dest: list_emb_Nil2)
next
  case (Cons y xs)
  from Cons.prems consider "subseq zs (xs @ [x])" | zs' where "zs = y # zs'" "subseq zs' (xs @ [x])"
    by (cases zs) (auto split: if_splits)
  then show ?case
  proof cases
    case 1
    from Cons.IH [OF this] show ?thesis by (auto intro: list_emb_Cons)
  next
    case 2
    from Cons.IH [OF 2(2)] 2(1) show ?thesis
      by (metis append_Cons subseq_Cons2)
  qed
qed

text \<open>Every increasing run within the first \<open>m\<close> candidates is as long at most as the entry at which
  it ends says.\<close>

lemma run_bounded:
  assumes "\<forall>k<length c. linked c L P k" and "\<forall>k<length c. bounds_below c L k k"
  shows "m \<le> length c \<Longrightarrow> subseq zs (take m c) \<Longrightarrow> increasing zs \<Longrightarrow> zs \<noteq> [] \<Longrightarrow>
    \<exists>k<m. last zs = c ! k \<and> length zs \<le> L ! k"
proof (induction m arbitrary: zs)
  case (Suc m)
  then have m: "m < length c" by simp
  have "subseq zs (take m c @ [c ! m])" using Suc.prems(2) by (simp add: take_Suc_conv_app_nth [OF m])
  from subseq_snoc [OF this] show ?case
  proof (elim disjE exE conjE)
    assume "subseq zs (take m c)"
    with Suc.IH [of zs] Suc.prems m show ?thesis using less_SucI by (metis less_imp_le_nat)
  next
    fix us assume us: "zs = us @ [c ! m]" "subseq us (take m c)"
    show ?thesis
    proof (cases "us = []")
      case True
      have "linked c L P m" using assms(1) m by blast
      then have "1 \<le> L ! m" by (auto simp: linked_def)
      with True us show ?thesis by auto
    next
      case False
      have inc: "increasing us" using Suc.prems(3) us(1) by (simp add: sorted_wrt_append)
      from Suc.IH [OF _ us(2) inc False] m obtain k where k: "k < m" "last us = c ! k" "length us \<le> L ! k" by auto
      have "cand_time (last us) < cand_time (c ! m)"
        using Suc.prems(3) us(1) False by (auto simp: sorted_wrt_append)
      with k assms(2) m have "L ! k + 1 \<le> L ! m" by (auto simp: bounds_below_def)
      with us(1) k(3) show ?thesis by (intro exI [of _ m]) simp
    qed
  qed
qed simp

lemma best_run_end_max:
  assumes "c \<noteq> []"
  shows "best_run_end c L < length c \<and> (\<forall>k<length c. L ! k \<le> L ! best_run_end c L)"
proof -
  let ?step = "\<lambda>best idx. if better_run c L best idx then idx else best"
  have "foldl ?step 0 [0..<n] < length c \<and> (\<forall>k<n. L ! k \<le> L ! foldl ?step 0 [0..<n])" if "n \<le> length c" for n
    using that
  proof (induction n)
    case 0
    then show ?case using assms by simp
  next
    case (Suc n)
    let ?b = "foldl ?step 0 [0..<n]"
    from Suc have IH: "?b < length c" "\<forall>k<n. L ! k \<le> L ! ?b" by auto
    have "foldl ?step 0 [0..<Suc n] = ?step ?b n" by simp
    with IH Suc.prems show ?case
      by (cases "better_run c L ?b n") (auto simp: less_Suc_eq better_run_def intro: order_trans)
  qed
  then show ?thesis unfolding best_run_end_def by simp
qed

lemma drop_seen_starts_id:
  "distinct (map cand_time cs) \<Longrightarrow> set (map cand_time cs) \<inter> seen = {} \<Longrightarrow> drop_seen_starts seen cs = cs"
  by (induction seen cs rule: drop_seen_starts.induct) auto

lemma select_spec:
  "\<exists>best. select_monotonic_candidates c = Some best \<and> subseq best c \<and> increasing best \<and> (c \<noteq> [] \<longrightarrow> best \<noteq> []) \<and>
    (\<forall>zs. subseq zs c \<and> increasing zs \<longrightarrow> length zs \<le> length best)"
proof (cases "c = []")
  case False
  obtain L P where r: "run_lengths c = Some (L, P)" "run_inv c (length c) 0 (L, P)"
    using run_lengths_inv [of c] by auto
  then have lk: "\<forall>k<length c. linked c L P k" and bd: "\<forall>k<length c. bounds_below c L k k"
    by (auto simp: run_inv_def)
  from best_run_end_max [OF False, of L] have e: "best_run_end c L < length c"
    and mx: "\<forall>k<length c. L ! k \<le> L ! best_run_end c L" by auto
  from reconstruct_returns [OF lk e] obtain zs where zs: "reconstruct_candidate_sequence c P (best_run_end c L) = Some zs"
    "subseq zs c" "zs \<noteq> []" "length zs = L ! best_run_end c L" "increasing zs" by blast
  have "drop_seen_starts {} zs = zs" using zs(5) by (intro drop_seen_starts_id) (simp_all add: strict_sorted_iff)
  with False r zs(1) have sel: "select_monotonic_candidates c = Some zs" by (simp add: select_monotonic_candidates_def)
  have "length us \<le> length zs" if us: "subseq us c" "increasing us" for us
  proof (cases "us = []")
    case nonempty: False
    from run_bounded [OF lk bd, of "length c" us] us nonempty obtain k where "k < length c" "length us \<le> L ! k" by auto
    with mx zs(4) show ?thesis using order_trans by metis
  qed simp
  with sel zs show ?thesis by blast
qed (auto simp: select_monotonic_candidates_def dest: list_emb_Nil2)

text \<open>C30.  The candidates kept are a longest strictly increasing run of time stamps in the order of the
  lines: the search returns, what it keeps is a subsequence of the candidates with growing
  starts, and no such subsequence is longer.\<close>

theorem select_keeps_a_longest_run:
  "\<exists>best. select_monotonic_candidates candidates = Some best \<and> subseq best candidates \<and>
    sorted_wrt (<) (map cand_time best) \<and>
    (\<forall>zs. subseq zs candidates \<and> sorted_wrt (<) (map cand_time zs) \<longrightarrow> length zs \<le> length best)"
  using select_spec [of candidates] by blast

theorem select_keeps_a_longest_run_witness:
  "select_monotonic_candidates [(0, 0, ''a''), (1, 90, ''x''), (2, 10, ''b''), (3, 20, ''c'')] =
     Some [(0, 0, ''a''), (2, 10, ''b''), (3, 20, ''c'')] \<and>
   length [(0::nat, 0::int, ''a''), (1, 90, ''x'')] \<le> 3"
proof -
  let ?c = "[(0, 0, ''a''), (1, 90, ''x''), (2, 10, ''b''), (3, 20, ''c'')] :: candidate list"
  have run: "select_monotonic_candidates ?c = Some [(0, 0, ''a''), (2, 10, ''b''), (3, 20, ''c'')]" by code_simp
  obtain best where best: "select_monotonic_candidates ?c = Some best"
    "\<forall>zs. subseq zs ?c \<and> sorted_wrt (<) (map cand_time zs) \<longrightarrow> length zs \<le> length best"
    using select_keeps_a_longest_run [of ?c] by blast
  have "length [(0, 0, ''a''), (1, 90, ''x'')] \<le> length best"
    using best(2) [rule_format, of "[(0, 0, ''a''), (1, 90, ''x'')]"] by simp
  with run best(1) show ?thesis by simp
qed

section \<open>The chapters form a timeline\<close>

definition end_of_run :: "millis option \<Rightarrow> candidate list \<Rightarrow> millis" where
  "end_of_run dur cs = (case dur of Some t \<Rightarrow> t | None \<Rightarrow> cand_time (last cs))"

fun abutting :: "episode_chapter list \<Rightarrow> bool" where
  "abutting (a # b # cs) \<longleftrightarrow> end_time_ms a = start_time_ms b \<and> abutting (b # cs)"
| "abutting cs \<longleftrightarrow> True"

lemma build_chapters_spec:
  "increasing cs \<Longrightarrow> cs \<noteq> [] \<Longrightarrow> cand_time (last cs) \<le> end_of_run dur cs \<Longrightarrow>
    map start_time_ms (build_chapters i dur cs) = map cand_time cs \<and>
    map chapter_title (build_chapters i dur cs) = map cand_title cs \<and>
    map element_id (build_chapters i dur cs) = map (\<lambda>k. ''desc'' @ nat_str k) [i..<i + length cs] \<and>
    abutting (build_chapters i dur cs) \<and> end_time_ms (last (build_chapters i dur cs)) = end_of_run dur cs \<and>
    build_chapters i dur cs \<noteq> []"
proof (induction i dur cs rule: build_chapters.induct)
  case (2 i dur l s t rest)
  show ?case
  proof (cases rest)
    case Nil
    with 2(4) show ?thesis by (auto simp: mk_chapter_def end_of_run_def split: option.splits)
  next
    case (Cons n ns)
    obtain nl nt ntt where n: "n = (nl, nt, ntt)" by (cases n)
    have IH: "map start_time_ms (build_chapters (Suc i) dur rest) = map cand_time rest \<and>
        map chapter_title (build_chapters (Suc i) dur rest) = map cand_title rest \<and>
        map element_id (build_chapters (Suc i) dur rest) = map (\<lambda>k. ''desc'' @ nat_str k) [Suc i..<Suc i + length rest] \<and>
        abutting (build_chapters (Suc i) dur rest) \<and>
        end_time_ms (last (build_chapters (Suc i) dur rest)) = end_of_run dur rest \<and>
        build_chapters (Suc i) dur rest \<noteq> []"
      by (rule 2(1)) (use 2(2-4) Cons in \<open>auto simp: end_of_run_def split: option.splits if_splits\<close>)
    have lt: "s < nt" using 2(2) Cons n by simp
    obtain b bs where bs: "build_chapters (Suc i) dur rest = b # bs" using IH by (cases "build_chapters (Suc i) dur rest") auto
    have sb: "start_time_ms b = nt" using IH bs Cons n by simp
    have upt: "[i..<i + length ((l, s, t) # rest)] = i # [Suc i..<Suc i + length rest]" by (simp add: upt_conv_Cons del: upt_Suc)
    have head: "build_chapters i dur ((l, s, t) # rest) = mk_chapter (''desc'' @ nat_str i) t s nt # b # bs"
      using Cons n lt bs by simp
    have last: "end_of_run dur ((l, s, t) # rest) = end_of_run dur rest" using Cons by (simp add: end_of_run_def split: option.split)
    show ?thesis
      unfolding head upt last using IH sb lt bs by (simp add: mk_chapter_def)
  qed
qed simp

text \<open>A description is parsed into nothing or into a timeline: the parser returns, and when it gives
  chapters there are as many as asked for, their starts grow, each ends where the next one
  starts, the last ends at the end of the episode, which is later than its start, and their
  ids number them.\<close>

theorem description_chapters_are_a_timeline:
  "\<exists>chs. parse_chapters_from_description html_unescape description dur n = Some chs \<and>
    (chs \<noteq> [] \<longrightarrow> n \<le> length chs \<and> sorted_wrt (<) (map start_time_ms chs) \<and> abutting chs \<and>
      end_time_ms (last chs) = (case dur of Some t \<Rightarrow> t | None \<Rightarrow> start_time_ms (last chs)) \<and>
      (\<forall>t. dur = Some t \<longrightarrow> start_time_ms (last chs) < t) \<and>
      map element_id chs = map (\<lambda>k. ''desc'' @ nat_str k) [0..<length chs])"
proof -
  define r where "r = parse_chapters_from_description html_unescape description dur n"
  consider "r = Some []"
    | c best where "select_monotonic_candidates c = Some best" "c \<noteq> []" "\<not> length best < n"
        "\<not> (case dur of None \<Rightarrow> False | Some t \<Rightarrow> t \<le> cand_time (last best))" "r = Some (build_chapters 0 dur best)"
  proof (cases "description = None \<or> description = Some []")
    case False
    then obtain d where d: "description = Some d" "d \<noteq> []" by auto
    let ?c = "collect_candidates 0 (description_lines html_unescape d) []"
    obtain best where "select_monotonic_candidates ?c = Some best" using select_spec by blast
    with d that show ?thesis
      by (cases "?c = []"; cases "length best < n"; cases "case dur of None \<Rightarrow> False | Some t \<Rightarrow> t \<le> cand_time (last best)")
        (simp_all add: r_def parse_chapters_from_description_def)
  qed (use that in \<open>auto simp: r_def parse_chapters_from_description_def\<close>)
  then show ?thesis
  proof cases
    case 2
    from select_spec [of c] 2(1,2) have b: "increasing best" "best \<noteq> []" by auto
    have "cand_time (last best) \<le> end_of_run dur best" using 2(4) by (auto simp: end_of_run_def split: option.splits)
    note spec = build_chapters_spec [OF b this, of 0]
    then have len: "length (build_chapters 0 dur best) = length best" by (metis length_map)
    have last: "start_time_ms (last (build_chapters 0 dur best)) = cand_time (last best)"
      using spec b(2) by (metis last_map)
    have "r = parse_chapters_from_description html_unescape description dur n" by (simp add: r_def)
    with 2 spec len last b show ?thesis
      by (intro exI [of _ "build_chapters 0 dur best"]) (auto simp: end_of_run_def split: option.splits)
  qed (use r_def in auto)
qed

theorem description_chapters_are_a_timeline_witness:
  "\<exists>chs. parse_chapters_from_description id (Some ''0:10 a<br>0:20 b<br>0:05 c'') (Some 60000) 2 = Some chs \<and>
    map start_time_ms chs = [10000, 20000] \<and> abutting chs \<and> end_time_ms (last chs) = 60000"
proof -
  have run: "map_option (map start_time_ms) (parse_chapters_from_description id (Some ''0:10 a<br>0:20 b<br>0:05 c'') (Some 60000) 2) =
      Some [10000, 20000]" by code_simp
  with description_chapters_are_a_timeline [of id "Some ''0:10 a<br>0:20 b<br>0:05 c''" "Some 60000" 2]
  show ?thesis by fastforce
qed

end
