(* ===== verification/RepeatAds.thy ===== *)
theory RepeatAds
  imports PyString "HOL-Library.Sublist"
begin

text \<open>
  \<open>src/podcast_processor/repeat_ad_finder.py\<close>: the other copies of an ad that was already
  found, by near-exact matching of tokens.  The rolling-row dynamic program is proved to
  compute the length of a longest common subsequence, and the candidates it leads to are
  proved disjoint and outside every excluded range.

  A transcript segment is the dictionary the caller builds; all four keys are present.
\<close>

definition DEFAULT_SIMILARITY_THRESHOLD :: real where "DEFAULT_SIMILARITY_THRESHOLD = 85 / 100"
definition ANCHOR_SIMILARITY_THRESHOLD :: real where "ANCHOR_SIMILARITY_THRESHOLD = 70 / 100"
definition MIN_TARGET_TOKENS :: nat where "MIN_TARGET_TOKENS = 6"
definition MAX_WINDOW_SEGMENT_SLACK :: nat where "MAX_WINDOW_SEGMENT_SLACK = 2"

record repeat_segment =
  rs_seq :: int
  rs_start :: seconds
  rs_end :: seconds
  rs_text :: string

record repeat_candidate =
  first_seq :: int
  last_seq :: int
  cand_start :: seconds
  cand_end :: seconds
  cand_similarity :: real

section \<open>Tokens\<close>

definition token_char :: "char \<Rightarrow> bool" where
  "token_char c = (let n = of_char c :: nat in (97 \<le> n \<and> n \<le> 122) \<or> (48 \<le> n \<and> n \<le> 57) \<or> n = 39)"

text \<open>The substitution removes a leading and a trailing run of other characters.\<close>

definition normalize_token :: "string \<Rightarrow> string" where
  "normalize_token token =
     rev (dropWhile (\<lambda>c. \<not> token_char c) (rev (dropWhile (\<lambda>c. \<not> token_char c) (py_lower token))))"

text \<open>\<open>re.split(r"\s+", s)\<close> without the empty pieces.\<close>

fun split_ws_acc :: "string \<Rightarrow> string \<Rightarrow> string list" where
  "split_ws_acc w [] = (if w = [] then [] else [w])"
| "split_ws_acc w (c # s) =
     (if py_space c then (if w = [] then split_ws_acc [] s else w # split_ws_acc [] s)
      else split_ws_acc (w @ [c]) s)"

definition tokenize :: "string \<Rightarrow> string list" where
  "tokenize txt = filter (\<lambda>t. t \<noteq> []) (map normalize_token (split_ws_acc [] (py_strip txt)))"

section \<open>Similarity\<close>

text \<open>The inner loop over \<open>b\<close>: \<open>prev\<close> from position \<open>j\<close> on, and \<open>cur[j]\<close>.\<close>

fun lcs_row :: "'a \<Rightarrow> nat list \<Rightarrow> nat \<Rightarrow> 'a list \<Rightarrow> nat list" where
  "lcs_row token_a (p # q # prev) c (token_b # b) =
     (let v = (if token_a = token_b then p + 1 else if q \<ge> c then q else c)
      in v # lcs_row token_a (q # prev) v b)"
| "lcs_row token_a prev c b = []"

fun lcs_rows :: "nat list \<Rightarrow> 'a list \<Rightarrow> 'a list \<Rightarrow> nat list" where
  "lcs_rows prev [] b = prev"
| "lcs_rows prev (token_a # a) b = lcs_rows (0 # lcs_row token_a prev 0 b) a b"

definition lcs_length :: "'a list \<Rightarrow> 'a list \<Rightarrow> nat" where
  "lcs_length a b =
     (if a = [] \<or> b = [] then 0 else lcs_rows (replicate (length b + 1) 0) a b ! length b)"

definition similarity :: "'a list \<Rightarrow> 'a list \<Rightarrow> real" where
  "similarity a b =
     (if a = [] \<and> b = [] then 1 else if a = [] \<or> b = [] then 0
      else 2 * real (lcs_length a b) / real (length a + length b))"

section \<open>Candidates\<close>

text \<open>The segments from \<open>j\<close> on that are still allowed in the window; the state is the window, its
  tokens and the number of segments it may still take.\<close>

fun accumulate_window ::
  "repeat_segment list \<Rightarrow> int set \<Rightarrow> nat \<Rightarrow> nat \<Rightarrow> repeat_segment list \<Rightarrow> string list \<Rightarrow> repeat_segment list \<times> string list" where
  "accumulate_window [] excluded target_tokens room window acc = (window, acc)"
| "accumulate_window (seg_j # rest) excluded target_tokens room window acc =
     (if room = 0 \<or> rs_seq seg_j \<in> excluded then (window, acc)
      else let window' = window @ [seg_j]; acc' = acc @ tokenize (rs_text seg_j) in
        if length acc' \<ge> target_tokens then (window', acc')
        else accumulate_window rest excluded target_tokens (room - 1) window' acc')"

lemma accumulate_window_prefix:
  "\<exists>n. fst (accumulate_window segs excluded t room window acc) = window @ take n segs \<and> n \<le> length segs"
proof (induction segs arbitrary: room window acc)
  case Nil
  show ?case by (rule exI [of _ 0]) simp
next
  case (Cons s segs)
  let ?w = "window @ [s]" and ?a = "acc @ tokenize (rs_text s)"
  obtain n where n: "fst (accumulate_window segs excluded t (room - 1) ?w ?a) = ?w @ take n segs" "n \<le> length segs"
    using Cons.IH [of "room - 1" ?w ?a] by blast
  consider "room = 0 \<or> rs_seq s \<in> excluded" | "room \<noteq> 0" "rs_seq s \<notin> excluded" "length ?a \<ge> t"
    | "room \<noteq> 0" "rs_seq s \<notin> excluded" "length ?a < t" by linarith
  then show ?case
  proof cases
    case 1
    then show ?thesis by (intro exI [of _ 0]) auto
  next
    case 2
    then show ?thesis by (intro exI [of _ 1]) (auto simp: Let_def)
  next
    case 3
    with n show ?thesis by (intro exI [of _ "Suc n"]) (auto simp: Let_def)
  qed
qed

lemma accumulate_window_length:
  "length (fst (accumulate_window segs excluded t room [] acc)) \<le> length segs"
  using accumulate_window_prefix [of segs excluded t room "[]" acc] by auto

text \<open>The scan over the sorted segments.  The list holds the segments from \<open>i\<close> on; a matched window
  is a prefix of it, so the next position is behind that prefix.\<close>

function repeat_scan ::
  "string list \<Rightarrow> string list \<Rightarrow> nat \<Rightarrow> real \<Rightarrow> int set \<Rightarrow> repeat_segment list \<Rightarrow> repeat_candidate list" where
  "repeat_scan target_tokens target_first_tokens max_window threshold excluded segs =
     (case segs of
        [] \<Rightarrow> []
      | seg # rest \<Rightarrow>
         (if rs_seq seg \<in> excluded \<or>
             similarity (tokenize (rs_text seg)) target_first_tokens < ANCHOR_SIMILARITY_THRESHOLD
          then repeat_scan target_tokens target_first_tokens max_window threshold excluded rest
          else let (window, acc_tokens) =
                 accumulate_window segs excluded (length target_tokens) max_window [] [];
               window_similarity = similarity acc_tokens target_tokens in
            if window \<noteq> [] \<and> window_similarity \<ge> threshold
            then \<lparr>first_seq = rs_seq (hd window), last_seq = rs_seq (last window),
                   cand_start = rs_start (hd window), cand_end = rs_end (last window),
                   cand_similarity = window_similarity\<rparr>
                 # repeat_scan target_tokens target_first_tokens max_window threshold
                     (excluded \<union> set (map rs_seq window)) (drop (length window) segs)
            else repeat_scan target_tokens target_first_tokens max_window threshold excluded rest))"
  by pat_completeness auto
termination by (relation "measure (\<lambda>(tt, tf, m, th, ex, segs). length segs)") (auto split: list.splits)

declare repeat_scan.simps [simp del]

definition find_repeat_candidates ::
  "repeat_segment list \<Rightarrow> int \<Rightarrow> int \<Rightarrow> int window list \<Rightarrow> real \<Rightarrow> repeat_candidate list" where
  "find_repeat_candidates segments target_first_seq target_last_seq exclude_ranges threshold =
     (let segs = sort_key rs_seq segments;
          target_segs = filter (\<lambda>s. target_first_seq \<le> rs_seq s \<and> rs_seq s \<le> target_last_seq) segs in
      if segs = [] \<or> target_segs = [] then []
      else let target_tokens = tokenize (join_with '' '' (map rs_text target_segs)) in
        if length target_tokens < MIN_TARGET_TOKENS then []
        else let target_first_tokens = tokenize (rs_text (hd target_segs));
                 max_window_segments = length target_segs + MAX_WINDOW_SEGMENT_SLACK;
                 excluded = {target_first_seq..target_last_seq} \<union> (\<Union>r\<in>set exclude_ranges. {fst r..snd r})
             in repeat_scan target_tokens target_first_tokens max_window_segments threshold excluded segs)"

definition find_repeat_candidates_with_fallback ::
  "repeat_candidate list option \<Rightarrow> repeat_segment list \<Rightarrow> int \<Rightarrow> int \<Rightarrow> int window list \<Rightarrow> real \<Rightarrow> repeat_candidate list" where
  "find_repeat_candidates_with_fallback rust segments target_first target_last exclude_ranges threshold =
     (case rust of Some cs \<Rightarrow> cs
      | None \<Rightarrow> find_repeat_candidates segments target_first target_last exclude_ranges threshold)"

section \<open>The dynamic program computes a longest common subsequence\<close>

fun lcs :: "'a list \<Rightarrow> 'a list \<Rightarrow> nat" where
  "lcs [] ys = 0"
| "lcs xs [] = 0"
| "lcs (x # xs) (y # ys) = (if x = y then lcs xs ys + 1 else max (lcs xs (y # ys)) (lcs (x # xs) ys))"

lemma lcs_Nil2 [simp]: "lcs xs [] = 0"
  by (cases xs) auto

lemma lcs_achieved: "\<exists>zs. subseq zs xs \<and> subseq zs ys \<and> length zs = lcs xs ys"
proof (induction xs ys rule: lcs.induct)
  case (3 x xs y ys)
  show ?case
  proof (cases "x = y")
    case True
    with 3(1) obtain zs where "subseq zs xs" "subseq zs ys" "length zs = lcs xs ys" by blast
    with True show ?thesis by (intro exI [of _ "x # zs"]) simp
  next
    case False
    with 3(2,3) obtain us vs where "subseq us xs" "subseq us (y # ys)" "length us = lcs xs (y # ys)"
      "subseq vs (x # xs)" "subseq vs ys" "length vs = lcs (x # xs) ys" by blast
    with False show ?thesis
      by (cases "lcs xs (y # ys) \<ge> lcs (x # xs) ys")
        (auto intro: exI [of _ us] exI [of _ vs] list_emb_Cons simp: max_def)
  qed
qed auto

lemma lcs_maximal: "subseq zs xs \<Longrightarrow> subseq zs ys \<Longrightarrow> length zs \<le> lcs xs ys"
proof (induction xs ys arbitrary: zs rule: lcs.induct)
  case (3 x xs y ys)
  show ?case
  proof (cases zs)
    case (Cons z zs')
    show ?thesis
    proof (cases "x = y")
      case True
      have "subseq zs' xs" "subseq zs' ys"
        using 3(4,5) unfolding Cons by (auto dest: subseq_Cons' split: if_splits)
      with 3(1) True have "length zs' \<le> lcs xs ys" by blast
      with True Cons show ?thesis by simp
    next
      case False
      then have "subseq zs xs \<or> subseq zs ys"
        using 3(4,5) unfolding Cons by (auto split: if_splits)
      with 3(2,3) 3(4,5) False show ?thesis by fastforce
    qed
  qed simp
qed auto

lemma lcs_row_eq:
  "lcs_row t (map (\<lambda>k. lcs (rev A) (rev (P @ take k bs))) [0..<Suc (length bs)]) (lcs (t # rev A) (rev P)) bs =
    map (\<lambda>k. lcs (t # rev A) (rev (P @ take (Suc k) bs))) [0..<length bs]"
proof (induction bs arbitrary: P)
  case (Cons b bs)
  let ?L = "\<lambda>k. lcs (rev A) (rev (P @ take k (b # bs)))"
  have upt: "[0..<Suc (length (b # bs))] = 0 # 1 # map (\<lambda>k. Suc (Suc k)) [0..<length bs]"
    by (simp add: upt_conv_Cons map_Suc_upt del: upt_Suc) (simp add: map_Suc_upt [symmetric] comp_def del: upt_Suc)
  let ?v = "lcs (t # rev A) (rev (P @ [b]))"
  have v: "?v = (if t = b then ?L 0 + 1 else if ?L 1 \<ge> lcs (t # rev A) (rev P) then ?L 1 else lcs (t # rev A) (rev P))"
    by (auto simp: max_def)
  have tail: "?L 1 # map ?L (map (\<lambda>k. Suc (Suc k)) [0..<length bs]) =
      map (\<lambda>k. lcs (rev A) (rev ((P @ [b]) @ take k bs))) [0..<Suc (length bs)]"
    by (simp add: upt_conv_Cons map_Suc_upt [symmetric] comp_def del: upt_Suc)
  have "lcs_row t (map ?L [0..<Suc (length (b # bs))]) (lcs (t # rev A) (rev P)) (b # bs) =
      ?v # lcs_row t (?L 1 # map ?L (map (\<lambda>k. Suc (Suc k)) [0..<length bs])) ?v bs"
    unfolding upt v by (simp add: Let_def)
  also have "\<dots> = ?v # map (\<lambda>k. lcs (t # rev A) (rev ((P @ [b]) @ take (Suc k) bs))) [0..<length bs]"
    unfolding tail by (simp only: Cons.IH)
  also have "\<dots> = map (\<lambda>k. lcs (t # rev A) (rev (P @ take (Suc k) (b # bs)))) [0..<length (b # bs)]"
    by (simp add: upt_conv_Cons map_Suc_upt [symmetric] comp_def del: upt_Suc)
  finally show ?case .
qed simp

lemma lcs_rows_eq:
  "lcs_rows (map (\<lambda>k. lcs (rev A) (rev (take k b))) [0..<Suc (length b)]) a b =
    map (\<lambda>k. lcs (rev (A @ a)) (rev (take k b))) [0..<Suc (length b)]"
proof (induction a arbitrary: A)
  case (Cons t a)
  have "0 # lcs_row t (map (\<lambda>k. lcs (rev A) (rev (take k b))) [0..<Suc (length b)]) 0 b =
      map (\<lambda>k. lcs (rev (A @ [t])) (rev (take k b))) [0..<Suc (length b)]"
    using lcs_row_eq [of t A "[]" b]
    by (simp add: upt_conv_Cons map_Suc_upt [symmetric] comp_def del: upt_Suc)
  then show ?case using Cons [of "A @ [t]"] by (simp del: upt_Suc)
qed simp

lemma lcs_length_eq: "lcs_length a b = lcs (rev a) (rev b)"
proof (cases "a = [] \<or> b = []")
  case False
  have "replicate (length b + 1) 0 = map (\<lambda>k. lcs (rev []) (rev (take k b))) [0..<Suc (length b)]"
    by (simp add: map_replicate_const del: upt_Suc)
  with False lcs_rows_eq [of "[]" b a] show ?thesis
    by (simp add: lcs_length_def del: upt_Suc)
qed (auto simp: lcs_length_def)

lemma subseq_rev: "subseq xs ys \<Longrightarrow> subseq (rev xs) (rev ys)"
  by (induction xs ys rule: list_emb.induct) (auto intro: list_emb_append_mono list_emb_prefix)

lemma subseq_rev_iff: "subseq (rev xs) (rev ys) \<longleftrightarrow> subseq xs ys"
  using subseq_rev [of xs ys] subseq_rev [of "rev xs" "rev ys"] by auto

lemma lcs_length_longest:
  "(\<exists>zs. subseq zs a \<and> subseq zs b \<and> length zs = lcs_length a b) \<and>
   (\<forall>zs. subseq zs a \<and> subseq zs b \<longrightarrow> length zs \<le> lcs_length a b)"
proof -
  obtain zs where "subseq zs (rev a)" "subseq zs (rev b)" "length zs = lcs (rev a) (rev b)"
    using lcs_achieved by blast
  then have "subseq (rev zs) a \<and> subseq (rev zs) b \<and> length (rev zs) = lcs_length a b"
    using subseq_rev_iff [of "rev zs"] by (simp add: lcs_length_eq)
  moreover have "length us \<le> lcs_length a b" if "subseq us a" "subseq us b" for us
    using lcs_maximal [of "rev us" "rev a" "rev b"] that by (simp add: lcs_length_eq subseq_rev_iff)
  ultimately show ?thesis by blast
qed

text \<open>C40.  The matcher's dynamic program, with its single rolling row, returns the length of a
  longest common subsequence of the two token lists: some common subsequence has that length
  and none is longer.\<close>

theorem lcs_length_is_the_longest_common_subsequence:
  "(\<exists>zs. subseq zs a \<and> subseq zs b \<and> length zs = lcs_length a b) \<and>
   (\<forall>zs. subseq zs a \<and> subseq zs b \<longrightarrow> length zs \<le> lcs_length a b)"
  by (rule lcs_length_longest)

theorem lcs_length_is_the_longest_common_subsequence_witness:
  "length [''buy'', ''now''] \<le> lcs_length [''please'', ''buy'', ''it'', ''now''] [''buy'', ''now'', ''please''] \<and>
   lcs_length [''please'', ''buy'', ''it'', ''now''] [''buy'', ''now'', ''please''] = 2"
proof -
  have "subseq [''buy'', ''now''] [''please'', ''buy'', ''it'', ''now'']" "subseq [''buy'', ''now''] [''buy'', ''now'', ''please'']"
    by simp_all
  moreover have "lcs_length [''please'', ''buy'', ''it'', ''now''] [''buy'', ''now'', ''please''] = 2" by code_simp
  ultimately show ?thesis
    using lcs_length_is_the_longest_common_subsequence [of "[''please'', ''buy'', ''it'', ''now'']" "[''buy'', ''now'', ''please'']"]
    by blast
qed

lemma lcs_length_le: "lcs_length a b \<le> length a" "lcs_length a b \<le> length b"
  using lcs_length_longest [of a b] by (auto dest: list_emb_length)

lemma similarity_bounds: "0 \<le> similarity a b \<and> similarity a b \<le> 1"
proof (cases "a = [] \<or> b = []")
  case False
  have "2 * lcs_length a b \<le> length a + length b" using lcs_length_le [of a b] by linarith
  then have le: "2 * real (lcs_length a b) \<le> real (length a + length b)" by linarith
  have "0 < length a + length b" using False by (cases a) auto
  then have "0 < real (length a + length b)" by linarith
  with le have "2 * real (lcs_length a b) / real (length a + length b) \<le> 1" by (metis divide_le_eq_1_pos)
  with False show ?thesis by (simp add: similarity_def)
qed (auto simp: similarity_def)

lemma similarity_one_iff: "similarity a b = 1 \<longleftrightarrow> a = b"
proof (cases "a = [] \<or> b = []")
  case False
  then have "0 < length a + length b" by (cases a) auto
  then have pos: "real (length a + length b) > 0" by linarith
  obtain zs where zs: "subseq zs a" "subseq zs b" "length zs = lcs_length a b" using lcs_length_longest by blast
  show ?thesis
  proof
    assume "similarity a b = 1"
    with False pos have "2 * real (lcs_length a b) = real (length a + length b)" by (simp add: similarity_def field_simps)
    then have "2 * lcs_length a b = length a + length b" by linarith
    with lcs_length_le [of a b] have "length zs = length a" "length zs = length b" using zs(3) by linarith+
    with zs(1,2) show "a = b" by (metis subseq_same_length)
  next
    assume eq: "a = b"
    have "length a \<le> lcs_length a b" using lcs_length_longest [of a b] eq by blast
    with lcs_length_le(1) [of a b] have "lcs_length a b = length a" by simp
    with eq False show "similarity a b = 1" by (simp add: similarity_def)
  qed
qed (auto simp: similarity_def)

section \<open>The candidates\<close>

text \<open>One step of the scan, by what happens at the segment \<open>seg\<close>.\<close>

lemma repeat_scan_Nil [simp]: "repeat_scan tt tf m th ex [] = []"
  by (simp add: repeat_scan.simps)

lemma repeat_scan_skip:
  "rs_seq seg \<in> ex \<or> similarity (tokenize (rs_text seg)) tf < ANCHOR_SIMILARITY_THRESHOLD \<Longrightarrow>
   repeat_scan tt tf m th ex (seg # rest) = repeat_scan tt tf m th ex rest"
  by (subst repeat_scan.simps) auto

lemma repeat_scan_miss:
  "accumulate_window (seg # rest) ex (length tt) m [] [] = (window, acc) \<Longrightarrow> \<not> (window \<noteq> [] \<and> similarity acc tt \<ge> th) \<Longrightarrow>
   repeat_scan tt tf m th ex (seg # rest) = repeat_scan tt tf m th ex rest"
  by (subst repeat_scan.simps) auto

lemma repeat_scan_hit:
  "\<not> (rs_seq seg \<in> ex \<or> similarity (tokenize (rs_text seg)) tf < ANCHOR_SIMILARITY_THRESHOLD) \<Longrightarrow>
   accumulate_window (seg # rest) ex (length tt) m [] [] = (window, acc) \<Longrightarrow> window \<noteq> [] \<and> similarity acc tt \<ge> th \<Longrightarrow>
   repeat_scan tt tf m th ex (seg # rest) =
     \<lparr>first_seq = rs_seq (hd window), last_seq = rs_seq (last window), cand_start = rs_start (hd window),
       cand_end = rs_end (last window), cand_similarity = similarity acc tt\<rparr>
     # repeat_scan tt tf m th (ex \<union> set (map rs_seq window)) (drop (length window) (seg # rest))"
  by (subst repeat_scan.simps) (simp only: list.case if_False if_True case_prod_conv Let_def simp_thms)

lemma accumulate_window_allowed:
  "\<forall>s\<in>set window. rs_seq s \<notin> excluded \<Longrightarrow> \<forall>s\<in>set (fst (accumulate_window segs excluded t room window acc)). rs_seq s \<notin> excluded"
  by (induction segs excluded t room window acc rule: accumulate_window.induct) (auto simp: Let_def)

definition candidate_ok :: "int set \<Rightarrow> real \<Rightarrow> repeat_segment list \<Rightarrow> repeat_candidate \<Rightarrow> bool" where
  "candidate_ok excluded threshold segs c \<longleftrightarrow>
     first_seq c \<le> last_seq c \<and> threshold \<le> cand_similarity c \<and> cand_similarity c \<le> 1 \<and>
     first_seq c \<in> rs_seq ` set segs \<and>
     (\<forall>s\<in>set segs. first_seq c \<le> rs_seq s \<and> rs_seq s \<le> last_seq c \<longrightarrow> rs_seq s \<notin> excluded)"

lemma strictly_sorted_take_range:
  assumes "sorted_wrt (<) (map rs_seq segs)" and "n \<le> length segs" and "0 < n" and "s \<in> set segs"
    and "rs_seq s \<le> rs_seq (last (take n segs))"
  shows "s \<in> set (take n segs)"
proof (rule ccontr)
  assume "s \<notin> set (take n segs)"
  then have "s \<in> set (drop n segs)" using assms(4) by (metis UnE append_take_drop_id set_append)
  moreover have "last (take n segs) \<in> set (take n segs)" using assms(2,3) by (intro last_in_set) auto
  moreover have "sorted_wrt (\<lambda>x y. rs_seq x < rs_seq y) (take n segs @ drop n segs)"
    using assms(1) by (simp add: sorted_wrt_map)
  ultimately have "rs_seq (last (take n segs)) < rs_seq s" unfolding sorted_wrt_append by blast
  with assms(5) show False by simp
qed

lemma repeat_scan_ok:
  assumes "sorted_wrt (<) (map rs_seq segs)"
  shows "(\<forall>c\<in>set (repeat_scan tt tf m th ex segs). candidate_ok ex th segs c) \<and>
    sorted_wrt (\<lambda>c d. last_seq c < first_seq d) (repeat_scan tt tf m th ex segs)"
  using assms
proof (induction tt tf m th ex segs rule: repeat_scan.induct)
  case (1 tt tf m th ex segs)
  show ?case
  proof (cases segs)
    case Nil
    then show ?thesis by (simp add: repeat_scan.simps)
  next
    case (Cons seg rest)
    have srt: "sorted_wrt (<) (map rs_seq rest)" "\<forall>s\<in>set rest. rs_seq seg < rs_seq s" using 1(4) Cons by auto
    have skip: "(\<forall>c\<in>set (repeat_scan tt tf m th ex rest). candidate_ok ex th segs c) \<and>
        sorted_wrt (\<lambda>c d. last_seq c < first_seq d) (repeat_scan tt tf m th ex rest)"
      if IH: "(\<forall>c\<in>set (repeat_scan tt tf m th ex rest). candidate_ok ex th rest c) \<and>
        sorted_wrt (\<lambda>c d. last_seq c < first_seq d) (repeat_scan tt tf m th ex rest)"
      using IH srt(2) unfolding Cons candidate_ok_def by fastforce
    show ?thesis
    proof (cases "rs_seq seg \<in> ex \<or> similarity (tokenize (rs_text seg)) tf < ANCHOR_SIMILARITY_THRESHOLD")
      case True
      have "repeat_scan tt tf m th ex segs = repeat_scan tt tf m th ex rest"
        using True unfolding Cons by (rule repeat_scan_skip)
      with skip 1(1) [OF Cons True srt(1)] show ?thesis by simp
    next
      case False
      obtain window acc where w: "accumulate_window segs ex (length tt) m [] [] = (window, acc)" by fastforce
      obtain n where n: "window = take n segs" "n \<le> length segs"
        using accumulate_window_prefix [of segs ex "length tt" m "[]" "[]"] w by auto
      have allowed: "\<forall>s\<in>set window. rs_seq s \<notin> ex"
        using accumulate_window_allowed [of "[]" ex segs "length tt" m "[]"] w by simp
      show ?thesis
      proof (cases "window \<noteq> [] \<and> similarity acc tt \<ge> th")
        case hit: True
        let ?c = "\<lparr>first_seq = rs_seq (hd window), last_seq = rs_seq (last window),
          cand_start = rs_start (hd window), cand_end = rs_end (last window), cand_similarity = similarity acc tt\<rparr>"
        let ?tail = "repeat_scan tt tf m th (ex \<union> set (map rs_seq window)) (drop (length window) segs)"
        have eq: "repeat_scan tt tf m th ex segs = ?c # ?tail"
          using False w hit unfolding Cons by (rule repeat_scan_hit)
        have n0: "0 < n" using hit n(1) by (cases n) auto
        have len: "length window = n" using n by simp
        have srtd: "sorted_wrt (<) (map rs_seq (drop n segs))" using 1(4) by (metis drop_map sorted_wrt_drop)
        have IH: "\<forall>c\<in>set ?tail. candidate_ok (ex \<union> set (map rs_seq window)) th (drop n segs) c"
          "sorted_wrt (\<lambda>c d. last_seq c < first_seq d) ?tail"
          using 1(2) [OF Cons False w [symmetric] refl refl hit] srtd len by simp_all
        have last_in: "last window \<in> set window" "hd window \<in> set window" using hit by simp_all
        have before: "rs_seq (last window) < rs_seq s" if "s \<in> set (drop n segs)" for s
        proof -
          have "sorted_wrt (\<lambda>x y. rs_seq x < rs_seq y) (take n segs @ drop n segs)"
            using 1(4) by (simp add: sorted_wrt_map)
          with that last_in(1) n(1) show ?thesis unfolding sorted_wrt_append by blast
        qed
        have in_window: "s \<in> set window" if "s \<in> set segs" "rs_seq s \<le> rs_seq (last window)" for s
          using strictly_sorted_take_range [OF 1(4) n(2) n0 that(1)] that(2) n(1) by simp
        have hd_le: "rs_seq (hd window) \<le> rs_seq (last window)"
        proof -
          have "sorted_wrt (\<lambda>x y. rs_seq x < rs_seq y) window"
            using 1(4) n(1) by (metis sorted_wrt_map sorted_wrt_take)
          with hit show ?thesis by (cases window) (auto dest: last_in_set intro: less_imp_le)
        qed
        have c_ok: "candidate_ok ex th segs ?c"
          using hd_le hit similarity_bounds [of acc tt] in_window allowed last_in(2) n(1) set_take_subset [of n segs]
          unfolding candidate_ok_def by fastforce
        have tail_ok: "candidate_ok ex th segs c" and tail_after: "rs_seq (last window) < first_seq c" if c: "c \<in> set ?tail" for c
        proof -
          from IH(1) c have ok: "candidate_ok (ex \<union> set (map rs_seq window)) th (drop n segs) c" by blast
          then obtain s0 where s0: "s0 \<in> set (drop n segs)" "first_seq c = rs_seq s0" by (auto simp: candidate_ok_def)
          show after: "rs_seq (last window) < first_seq c" using before s0 by simp
          have "s \<in> set (drop n segs)" if "s \<in> set segs" "first_seq c \<le> rs_seq s" for s
          proof -
            have "s \<in> set (take n segs) \<Longrightarrow> rs_seq s \<le> rs_seq (last window)"
            proof -
              assume "s \<in> set (take n segs)"
              moreover have "sorted_wrt (\<lambda>x y. rs_seq x < rs_seq y) window"
                using 1(4) n(1) by (metis sorted_wrt_map sorted_wrt_take)
              moreover have "window = butlast window @ [last window]" using hit by simp
              ultimately show ?thesis
                using n(1) by (metis (no_types, lifting) Un_iff empty_iff empty_set less_imp_le order_refl set_ConsD set_append sorted_wrt_append list.set_intros(1))
            qed
            with that after show ?thesis by (metis UnE append_take_drop_id leD order_trans set_append)
          qed
          with ok s0 show "candidate_ok ex th segs c"
            unfolding candidate_ok_def by (auto dest: in_set_dropD)
        qed
        show ?thesis unfolding eq using c_ok tail_ok tail_after IH(2) by simp
      next
        case miss: False
        have eq: "repeat_scan tt tf m th ex segs = repeat_scan tt tf m th ex rest"
          using w miss unfolding Cons by (rule repeat_scan_miss)
        with skip 1(3) [OF Cons False w [symmetric] refl refl miss srt(1)] show ?thesis by simp
      qed
    qed
  qed
qed

lemma sorted_seqs: "distinct (map rs_seq segs) \<Longrightarrow> sorted_wrt (<) (map rs_seq (sort_key rs_seq segs))"
  by (simp add: strict_sorted_iff distinct_map)

lemma find_repeat_candidates_ok:
  assumes "distinct (map rs_seq segs)"
  shows "(\<forall>c\<in>set (find_repeat_candidates segs t0 t1 exs th).
      candidate_ok ({t0..t1} \<union> (\<Union>r\<in>set exs. {fst r..snd r})) th segs c) \<and>
    sorted_wrt (\<lambda>c d. last_seq c < first_seq d) (find_repeat_candidates segs t0 t1 exs th)"
proof -
  have "find_repeat_candidates segs t0 t1 exs th = [] \<or> (\<exists>tt tf m. find_repeat_candidates segs t0 t1 exs th =
      repeat_scan tt tf m th ({t0..t1} \<union> (\<Union>r\<in>set exs. {fst r..snd r})) (sort_key rs_seq segs))"
    unfolding find_repeat_candidates_def Let_def by auto
  then show ?thesis
  proof (elim disjE exE)
    fix tt tf m
    let ?ex = "{t0..t1} \<union> (\<Union>r\<in>set exs. {fst r..snd r})"
    assume eq: "find_repeat_candidates segs t0 t1 exs th = repeat_scan tt tf m th ?ex (sort_key rs_seq segs)"
    have same: "candidate_ok ?ex th (sort_key rs_seq segs) = candidate_ok ?ex th segs"
      unfolding candidate_ok_def set_sort ..
    show ?thesis
      unfolding eq using repeat_scan_ok [OF sorted_seqs [OF assms], of tt tf m th ?ex] unfolding same .
  qed simp
qed

text \<open>The repeats found for an ad come in transcript order and do not overlap; each starts at a
  real segment, matches the ad at least as well as the threshold asks (and never better than 1),
  and the span it covers contains no segment of the ad itself nor of any range the caller
  excluded.\<close>

theorem repeat_candidates_are_new_spans:
  assumes "distinct (map rs_seq segments)"
    and "cands = find_repeat_candidates segments target_first target_last exclude_ranges threshold"
  shows "sorted_wrt (\<lambda>c d. last_seq c < first_seq d) cands \<and>
    (\<forall>c\<in>set cands. first_seq c \<in> rs_seq ` set segments \<and> first_seq c \<le> last_seq c \<and>
       threshold \<le> cand_similarity c \<and> cand_similarity c \<le> 1 \<and>
       (\<forall>s\<in>set segments. first_seq c \<le> rs_seq s \<and> rs_seq s \<le> last_seq c \<longrightarrow>
          \<not> (target_first \<le> rs_seq s \<and> rs_seq s \<le> target_last) \<and>
          (\<forall>r\<in>set exclude_ranges. \<not> (fst r \<le> rs_seq s \<and> rs_seq s \<le> snd r))))"
  using find_repeat_candidates_ok [OF assms(1), of target_first target_last exclude_ranges threshold] assms(2)
  unfolding candidate_ok_def by fastforce

theorem repeat_candidates_are_new_spans_witness:
  "let segs = [\<lparr>rs_seq = 0, rs_start = 0, rs_end = 5, rs_text = ''Buy the new soap at acme today!''\<rparr>,
               \<lparr>rs_seq = 1, rs_start = 5, rs_end = 9, rs_text = ''and now the news''\<rparr>,
               \<lparr>rs_seq = 2, rs_start = 9, rs_end = 14, rs_text = ''buy the new soap at Acme today''\<rparr>];
       cands = find_repeat_candidates segs 0 0 [] DEFAULT_SIMILARITY_THRESHOLD in
   map first_seq cands = [2] \<and> list_all (\<lambda>c. cand_similarity c \<le> 1 \<and> first_seq c \<noteq> 0) cands"
proof -
  define segs where "segs = [\<lparr>rs_seq = 0, rs_start = 0, rs_end = 5, rs_text = ''Buy the new soap at acme today!''\<rparr>,
    \<lparr>rs_seq = 1, rs_start = 5, rs_end = 9, rs_text = ''and now the news''\<rparr>,
    \<lparr>rs_seq = 2, rs_start = 9, rs_end = 14, rs_text = ''buy the new soap at Acme today''\<rparr>]"
  have "map first_seq (find_repeat_candidates segs 0 0 [] DEFAULT_SIMILARITY_THRESHOLD) = [2]"
    unfolding segs_def by code_simp
  moreover have "distinct (map rs_seq segs)" by (simp add: segs_def)
  then have "\<forall>c\<in>set (find_repeat_candidates segs 0 0 [] DEFAULT_SIMILARITY_THRESHOLD). cand_similarity c \<le> 1 \<and> first_seq c \<noteq> 0"
    using repeat_candidates_are_new_spans [of segs "find_repeat_candidates segs 0 0 [] DEFAULT_SIMILARITY_THRESHOLD" 0 0 "[]" DEFAULT_SIMILARITY_THRESHOLD]
    by (fastforce simp: segs_def)
  ultimately show ?thesis unfolding Let_def list_all_iff segs_def by blast
qed

end
