(* ===== verification/Profanity.thy ===== *)
theory Profanity
  imports WindowMerge PyRegex
begin

text \<open>
  \<open>src/podcast_processor/profanity_filter.py\<close>: the windows of an episode that are censored, from
  the word timestamps of the transcript.  The list of terms is an argument, as it is in the
  source; the merge is one more instance of the window-merge interface.
\<close>

definition PROFANITY_PAD_START_MS :: millis where "PROFANITY_PAD_START_MS = 150"
definition PROFANITY_PAD_END_MS :: millis where "PROFANITY_PAD_END_MS = 150"
definition PROFANITY_MERGE_GAP_MS :: millis where "PROFANITY_MERGE_GAP_MS = 80"

text \<open>A word of the transcriber; None is an attribute that is missing or None.\<close>

record spoken_word =
  sw_word :: "string option"
  sw_start :: "seconds option"
  sw_end :: "seconds option"

definition word_mark :: "char \<Rightarrow> bool" where
  "word_mark c \<longleftrightarrow> lower_letter (lower_char c) \<or> digit_char c \<or> c = CHR 0x27"

text \<open>\<open>_normalize_word\<close>: the substitution removes a leading and a trailing run of other characters.\<close>

definition normalize_word :: "string \<Rightarrow> string" where
  "normalize_word w =
     py_lower (rev (dropWhile (\<lambda>c. \<not> word_mark c) (rev (dropWhile (\<lambda>c. \<not> word_mark c) w))))"

definition profane :: "string set \<Rightarrow> string \<Rightarrow> bool" where
  "profane terms w \<longleftrightarrow> normalize_word w \<noteq> [] \<and> normalize_word w \<in> terms"

definition word_window :: "string set \<Rightarrow> millis \<Rightarrow> millis \<Rightarrow> spoken_word \<Rightarrow> millis window option" where
  "word_window terms pad_start pad_end w =
     (case (sw_word w, sw_start w, sw_end w) of
        (Some raw, Some s, Some e) \<Rightarrow>
          if \<not> profane terms raw then None
          else let start_ms = max 0 (\<lfloor>s * 1000\<rfloor> - pad_start) in
            Some (start_ms, max (start_ms + 1) (\<lceil>e * 1000\<rceil> + pad_end))
      | _ \<Rightarrow> None)"

definition raw_windows :: "string set \<Rightarrow> millis \<Rightarrow> millis \<Rightarrow> spoken_word list list \<Rightarrow> millis window list" where
  "raw_windows terms pad_start pad_end segments =
     List.map_filter (word_window terms pad_start pad_end) (concat segments)"

fun merge_windows_loop :: "millis \<Rightarrow> millis window list \<Rightarrow> millis window list \<Rightarrow> millis window list" where
  "merge_windows_loop gap_ms merged [] = merged"
| "merge_windows_loop gap_ms merged ((start_ms, end_ms) # ws) =
     (if merged = [] then merge_windows_loop gap_ms [(start_ms, end_ms)] ws
      else let (prev_start_ms, prev_end_ms) = last merged in
        if start_ms \<le> prev_end_ms + gap_ms
        then merge_windows_loop gap_ms (butlast merged @ [(prev_start_ms, max prev_end_ms end_ms)]) ws
        else merge_windows_loop gap_ms (merged @ [(start_ms, end_ms)]) ws)"

definition merge_windows :: "millis window list \<Rightarrow> millis \<Rightarrow> millis window list" where
  "merge_windows ws gap_ms = (if ws = [] then [] else merge_windows_loop gap_ms [] (sort ws))"

text \<open>The windows, and whether a segment had word timestamps at all.\<close>

definition extract_profanity_windows ::
  "string set \<Rightarrow> millis \<Rightarrow> millis \<Rightarrow> millis \<Rightarrow> spoken_word list list \<Rightarrow> millis window list \<times> bool" where
  "extract_profanity_windows terms pad_start pad_end gap_ms segments =
     (merge_windows (raw_windows terms pad_start pad_end segments) gap_ms, list_ex (\<lambda>words. words \<noteq> []) segments)"

section \<open>The merge is an instance of the interface\<close>

lemma merge_windows_loop_eq: "merge_windows_loop g acc ws = foldl (absorb_last g) acc ws"
  by (induction g acc ws rule: merge_windows_loop.induct) (auto simp: absorb_last_def Let_def split: prod.splits)

lemma merge_windows_eq: "merge_windows ws g = merge_sorted g (sort ws)"
  by (simp add: merge_windows_def merge_windows_loop_eq foldl_absorb_last_Nil)

lemma raw_windows_nonempty: "w \<in> set (raw_windows terms ps pe segments) \<Longrightarrow> 0 \<le> fst w \<and> fst w < snd w"
  by (auto simp: raw_windows_def List.map_filter_def word_window_def Let_def split: option.splits if_splits)

lemma proper_raw: "proper (raw_windows terms ps pe segments)"
  unfolding proper_def using raw_windows_nonempty by fastforce

interpretation profanity: window_merger
  "\<lambda>segments. merge_windows (raw_windows terms ps pe segments) PROFANITY_MERGE_GAP_MS"
  "\<lambda>segments. sort (raw_windows terms ps pe segments)" PROFANITY_MERGE_GAP_MS
  for terms ps pe
  by (rule merge_sorted_window_merger)
    (simp_all add: PROFANITY_MERGE_GAP_MS_def merge_windows_eq sorted_map_fst_sort proper_raw)

lemma word_window_in_raw:
  "w \<in> set words \<Longrightarrow> words \<in> set segments \<Longrightarrow> word_window terms ps pe w = Some v \<Longrightarrow> v \<in> set (raw_windows terms ps pe segments)"
  by (force simp: raw_windows_def List.map_filter_def)

text \<open>C39.  Every profane word is censored with its padding, and nothing else is: an instant of a
  censored window lies in the padded time of a profane word, or in a pause of at most 80 ms
  between two of them; windows do not touch, and none is empty.\<close>

theorem profane_words_are_censored:
  assumes "extract_profanity_windows terms ps pe PROFANITY_MERGE_GAP_MS segments = (ws, timed)"
    and "0 \<le> ps" and "0 \<le> pe"
  shows "(\<forall>words\<in>set segments. \<forall>w\<in>set words. \<forall>raw s e. sw_word w = Some raw \<and> sw_start w = Some s \<and> sw_end w = Some e \<and>
       profane terms raw \<longrightarrow>
       (\<exists>v\<in>set ws. fst v \<le> max 0 (\<lfloor>s * 1000\<rfloor> - ps) \<and> \<lceil>e * 1000\<rceil> + pe \<le> snd v)) \<and>
    (\<forall>x. x \<in> cover ws \<longrightarrow> x \<in> cover (raw_windows terms ps pe segments) \<or>
       in_small_gap PROFANITY_MERGE_GAP_MS (raw_windows terms ps pe segments) x) \<and>
    separated PROFANITY_MERGE_GAP_MS ws \<and> (\<forall>v\<in>set ws. 0 \<le> fst v \<and> fst v < snd v)"
proof -
  let ?raw = "raw_windows terms ps pe segments"
  have ws: "ws = merge_windows ?raw PROFANITY_MERGE_GAP_MS" using assms(1) by (simp add: extract_profanity_windows_def)
  have cov: "cover (sort ?raw) = cover ?raw" by (rule cover_cong) simp
  have "\<exists>v\<in>set ws. fst v \<le> max 0 (\<lfloor>s * 1000\<rfloor> - ps) \<and> \<lceil>e * 1000\<rceil> + pe \<le> snd v"
    if w: "words \<in> set segments" "w \<in> set words" "sw_word w = Some raw" "sw_start w = Some s" "sw_end w = Some e" "profane terms raw"
    for words w raw s e
  proof -
    let ?s = "max 0 (\<lfloor>s * 1000\<rfloor> - ps)"
    have "word_window terms ps pe w = Some (?s, max (?s + 1) (\<lceil>e * 1000\<rceil> + pe))"
      using w(3-6) by (simp add: word_window_def Let_def)
    from word_window_in_raw [OF w(2,1) this] have "(?s, max (?s + 1) (\<lceil>e * 1000\<rceil> + pe)) \<in> set (sort ?raw)" by simp
    from profanity.mrg_covers [OF this] show ?thesis unfolding ws by force
  qed
  moreover have "x \<in> cover ?raw \<or> in_small_gap PROFANITY_MERGE_GAP_MS ?raw x" if "x \<in> cover ws" for x
    using profanity.mrg_adds_gaps [where ws = segments and x = x] that in_small_gap_mono [of _ "sort ?raw" x ?raw]
    unfolding ws cov by auto
  moreover have "separated PROFANITY_MERGE_GAP_MS ws" unfolding ws by (rule profanity.mrg_separated)
  moreover have "0 \<le> fst v \<and> fst v < snd v" if v: "v \<in> set ws" for v
    using profanity.mrg_nonempty [where ws = segments and m = v] profanity.mrg_lower_bound [where ws = segments and lo = 0 and m = v] v
      raw_windows_nonempty unfolding ws set_sort by blast
  ultimately show ?thesis by blast
qed

theorem profane_words_are_censored_witness:
  "let w = \<lparr>sw_word = Some '' darn!'', sw_start = Some 1, sw_end = Some (5 / 4)\<rparr>;
       ws = fst (extract_profanity_windows {''darn''} 150 150 PROFANITY_MERGE_GAP_MS [[w]]) in
   ws = [(850, 1400)] \<and> list_all (\<lambda>v. 0 \<le> fst v \<and> fst v < snd v) ws \<and> separated PROFANITY_MERGE_GAP_MS ws"
proof -
  let ?w = "\<lparr>sw_word = Some '' darn!'', sw_start = Some 1, sw_end = Some (5 / 4)\<rparr>"
  let ?r = "extract_profanity_windows {''darn''} 150 150 PROFANITY_MERGE_GAP_MS [[?w]]"
  have norm: "normalize_word '' darn!'' = ''darn''"
    by (simp add: normalize_word_def py_lower_def lower_char_def word_mark_def lower_letter_def digit_char_def)
  have run: "fst ?r = [(850, 1400)]"
    by (simp add: extract_profanity_windows_def raw_windows_def List.map_filter_def word_window_def profane_def norm
        merge_windows_def)
  have "?r = (fst ?r, snd ?r)" by simp
  from profane_words_are_censored [OF this] show ?thesis
    unfolding Let_def list_all_iff run by simp
qed

end
