(* ===== verification/Cues.thy ===== *)
theory Cues
  imports AdMerge
begin

text \<open>
  \<open>src/podcast_processor/cue_detector.py\<close>: the phrases that give an ad away, found by regular
  expressions, and the marks set around them for the prompt of the language model.
\<close>

definition word_gap :: re where
  "word_gap = Plus (Cls py_space)"

definition bounded :: "re \<Rightarrow> re" where
  "bounded r = Seqs [Bnd, r, Bnd]"

definition cue_url_pattern :: re where
  "cue_url_pattern = url_pattern"

definition cue_promo_pattern :: re where
  "cue_promo_pattern = bounded (Seqs [Alts [ILit ''code'', ILit ''promo'', ILit ''save'', ILit ''discount''], word_gap,
     Plus (Cls word_char)])"

definition cue_phone_pattern :: re where
  "cue_phone_pattern = bounded (Seqs [Opt (Seqs [Opt (Cls (\<lambda>c. c = CHR ''+'')), Cls (\<lambda>c. c = CHR ''1''), phone_separator]),
     Rep 3 (Cls digit_char), phone_separator, Rep 3 (Cls digit_char), phone_separator, Rep 4 (Cls digit_char)])"

definition cta_pattern :: re where
  "cta_pattern = bounded (Alts (map ILit [''visit'', ''go to'', ''check out'', ''head over'', ''sign up'', ''start today'',
     ''start now'', ''use code'', ''offer'', ''deal'', ''free trial'']))"

definition transition_pattern :: re where
  "transition_pattern = bounded (Alts (map ILit [''back to the show'', ''after the break'', ''stay tuned'',
     ''we'' @ CHR 0x27 # ''ll be right back'', ''now back'']))"

definition self_promo_pattern :: re where
  "self_promo_pattern = bounded (Seqs [Alts [ILit ''my'', ILit ''our''], word_gap,
     Alts (map ILit [''book'', ''course'', ''newsletter'', ''fund'', ''patreon'', ''substack'', ''community'', ''platform''])])"

definition has_cue :: "string \<Rightarrow> bool" where
  "has_cue txt \<longleftrightarrow> re_found cue_url_pattern txt \<or> re_found cue_promo_pattern txt \<or>
     re_found cue_phone_pattern txt \<or> re_found cta_pattern txt"

record cue_report =
  cue_url :: bool
  cue_promo :: bool
  cue_phone :: bool
  cue_cta :: bool
  cue_transition :: bool
  cue_self_promo :: bool

definition analyze_cues :: "string \<Rightarrow> cue_report" where
  "analyze_cues txt =
     \<lparr>cue_url = re_found cue_url_pattern txt, cue_promo = re_found cue_promo_pattern txt,
      cue_phone = re_found cue_phone_pattern txt, cue_cta = re_found cta_pattern txt,
      cue_transition = re_found transition_pattern txt, cue_self_promo = re_found self_promo_pattern txt\<rparr>"

section \<open>Marking\<close>

type_synonym span = "nat \<times> nat"

definition cue_patterns :: "re list" where
  "cue_patterns = [cue_url_pattern, cue_promo_pattern, cue_phone_pattern, cta_pattern, transition_pattern, self_promo_pattern]"

definition match_spans :: "re list \<Rightarrow> string \<Rightarrow> span list" where
  "match_spans patterns txt = concat (map (\<lambda>p. map (\<lambda>(a, b, _). (a, b)) (re_finditer p txt)) patterns)"

fun merge_spans :: "nat \<Rightarrow> nat \<Rightarrow> span list \<Rightarrow> span list" where
  "merge_spans curr_start curr_end [] = [(curr_start, curr_end)]"
| "merge_spans curr_start curr_end ((next_start, next_end) # ms) =
     (if next_start < curr_end then merge_spans curr_start (max curr_end next_end) ms
      else (curr_start, curr_end) # merge_spans next_start next_end ms)"

text \<open>The sort key \<open>(start, -end)\<close>; the parts are appended from the end of the text backwards.\<close>

definition sort_spans :: "span list \<Rightarrow> span list" where
  "sort_spans ms = sort_key (\<lambda>(a, b). (int a, - int b)) ms"

fun highlight_parts :: "string \<Rightarrow> nat \<Rightarrow> span list \<Rightarrow> string list" where
  "highlight_parts txt last_idx [] = [take last_idx txt]"
| "highlight_parts txt last_idx ((a, b) # rest) =
     [slice txt b last_idx, '' ***'', slice txt a b, ''*** ''] @ highlight_parts txt a rest"

definition merged_spans :: "re list \<Rightarrow> string \<Rightarrow> span list" where
  "merged_spans patterns txt =
     (case sort_spans (match_spans patterns txt) of [] \<Rightarrow> [] | (a, b) # ms \<Rightarrow> merge_spans a b ms)"

definition highlight_with :: "re list \<Rightarrow> string \<Rightarrow> string" where
  "highlight_with patterns txt =
     (if match_spans patterns txt = [] then txt
      else concat (rev (highlight_parts txt (length txt) (rev (merged_spans patterns txt)))))"

definition highlight_cues :: "string \<Rightarrow> string" where
  "highlight_cues txt = highlight_with cue_patterns txt"

section \<open>The reference: mark the spans from left to right\<close>

fun mark_from :: "string \<Rightarrow> nat \<Rightarrow> span list \<Rightarrow> string" where
  "mark_from txt i [] = drop i txt"
| "mark_from txt i ((a, b) # spans) = slice txt i a @ ''*** '' @ slice txt a b @ '' ***'' @ mark_from txt b spans"

fun spans_ok :: "nat \<Rightarrow> nat \<Rightarrow> span list \<Rightarrow> bool" where
  "spans_ok i n [] \<longleftrightarrow> i \<le> n"
| "spans_ok i n ((a, b) # spans) \<longleftrightarrow> i \<le> a \<and> a \<le> b \<and> spans_ok b n spans"

lemma mark_from_append:
  "spans_ok i (length txt) (xs @ [(a, b)]) \<Longrightarrow>
    mark_from txt i (xs @ [(a, b)]) = mark_from (take a txt) i xs @ ''*** '' @ slice txt a b @ '' ***'' @ drop b txt"
proof (induction xs arbitrary: i)
  case Nil
  then show ?case by (simp add: slice_def take_drop)
next
  case (Cons x xs)
  obtain c d where x: "x = (c, d)" by (cases x)
  have le: "d \<le> a"
  proof -
    have "spans_ok d n (xs @ [(a, b)]) \<Longrightarrow> d \<le> a" for d n
      by (induction xs arbitrary: d) (auto, force)
    with Cons.prems x show ?thesis by auto
  qed
  from Cons.prems x have ok: "spans_ok d (length txt) (xs @ [(a, b)])" "i \<le> c" "c \<le> d" by auto
  have "slice (take a txt) i c = slice txt i c" "slice (take a txt) c d = slice txt c d"
    using ok le by (simp_all add: slice_def drop_take min_def)
  with Cons.IH [OF ok(1)] x show ?case by simp
qed

lemma spans_ok_butlast: "spans_ok i n (xs @ [(a, b)]) \<Longrightarrow> spans_ok i a xs \<and> a \<le> b \<and> b \<le> n"
proof (induction xs arbitrary: i)
  case (Cons x xs)
  then show ?case by (cases x) auto
qed auto

lemma highlight_parts_mark:
  "spans_ok 0 n spans \<Longrightarrow> n \<le> length txt \<Longrightarrow> concat (rev (highlight_parts txt n (rev spans))) = mark_from (take n txt) 0 spans"
proof (induction spans arbitrary: n rule: rev_induct)
  case (snoc s spans)
  obtain a b where s: "s = (a, b)" by (cases s)
  from spans_ok_butlast [of 0 n spans a b] snoc.prems(1) s have ok: "spans_ok 0 a spans" "a \<le> b" "b \<le> n" by auto
  have IH: "concat (rev (highlight_parts txt a (rev spans))) = mark_from (take a txt) 0 spans"
    using snoc.IH [OF ok(1)] ok snoc.prems(2) by simp
  have "mark_from (take n txt) 0 (spans @ [(a, b)]) =
      mark_from (take a (take n txt)) 0 spans @ ''*** '' @ slice (take n txt) a b @ '' ***'' @ drop b (take n txt)"
    using snoc.prems s by (intro mark_from_append) (simp add: min_def)
  also have "\<dots> = mark_from (take a txt) 0 spans @ ''*** '' @ slice txt a b @ '' ***'' @ slice txt b n"
    using ok by (simp add: slice_def drop_take min_def)
  finally show ?case using IH s by simp
qed simp

definition spanned :: "span list \<Rightarrow> span \<Rightarrow> bool" where
  "spanned spans m \<longleftrightarrow> (\<exists>s\<in>set spans. fst s \<le> fst m \<and> snd m \<le> snd s)"

lemma spanned_mono: "spanned spans (a, b) \<Longrightarrow> a \<le> c \<Longrightarrow> d \<le> b \<Longrightarrow> spanned spans (c, d)"
  by (force simp: spanned_def)

lemma spanned_Cons: "spanned (s # spans) m \<longleftrightarrow> fst s \<le> fst m \<and> snd m \<le> snd s \<or> spanned spans m"
  by (simp add: spanned_def)

lemma merge_spans_ok:
  assumes "sorted (map fst ((a, b) # ms))" and "\<forall>m\<in>set ((a, b) # ms). fst m \<le> snd m \<and> snd m \<le> n" and "i \<le> a"
  shows "spans_ok i n (merge_spans a b ms) \<and> (\<forall>m\<in>set ((a, b) # ms). spanned (merge_spans a b ms) m)"
  using assms
proof (induction a b ms arbitrary: i rule: merge_spans.induct)
  case (2 a b c d ms)
  show ?case
  proof (cases "c < b")
    case True
    have IH: "spans_ok i n (merge_spans a (max b d) ms) \<and> (\<forall>m\<in>set ((a, max b d) # ms). spanned (merge_spans a (max b d) ms) m)"
      using "2.prems" by (intro "2.IH"(1) [OF True]) auto
    then have top: "spanned (merge_spans a (max b d) ms) (a, max b d)" by simp
    have "spanned (merge_spans a (max b d) ms) (a, b)" by (rule spanned_mono [OF top]) simp_all
    moreover have "spanned (merge_spans a (max b d) ms) (c, d)"
      by (rule spanned_mono [OF top]) (use "2.prems"(1) in simp_all)
    ultimately show ?thesis using IH True by simp
  next
    case False
    have IH: "spans_ok b n (merge_spans c d ms) \<and> (\<forall>m\<in>set ((c, d) # ms). spanned (merge_spans c d ms) m)"
      using "2.prems" False by (intro "2.IH"(2) [OF False]) auto
    with False "2.prems" show ?thesis by (simp add: spanned_Cons)
  qed
qed (simp add: spanned_def)

lemma match_spans_bounds: "(a, b) \<in> set (match_spans ps txt) \<Longrightarrow> a \<le> b \<and> b \<le> length txt"
  using re_finditer_spans by (fastforce simp: match_spans_def)

lemma sorted_sort_spans: "sorted (map fst (sort_spans ms))"
proof -
  have "sorted (map (\<lambda>(a, b). (int a, - int b)) (sort_spans ms))" unfolding sort_spans_def by simp
  then have "sorted_wrt (\<lambda>x y. (\<lambda>(a, b). (int a, - int b)) x \<le> (\<lambda>(a, b). (int a, - int b)) y) (sort_spans ms)"
    by (simp add: sorted_map)
  then have "sorted_wrt (\<lambda>x y. fst x \<le> fst y) (sort_spans ms)"
    by (rule sorted_wrt_mono_rel [rotated]) auto
  then show ?thesis by (simp add: sorted_map)
qed

lemma merged_spans_ok:
  "spans_ok 0 (length txt) (merged_spans ps txt) \<and>
   (\<forall>m\<in>set (match_spans ps txt). spanned (merged_spans ps txt) m)"
proof (cases "sort_spans (match_spans ps txt)")
  case Nil
  then have "match_spans ps txt = []" by (simp add: sort_spans_def) (metis set_empty set_sort)
  with Nil show ?thesis by (simp add: merged_spans_def)
next
  case (Cons s ms)
  obtain a b where s: "s = (a, b)" by (cases s)
  have set_eq: "set ((a, b) # ms) = set (match_spans ps txt)"
    using Cons s by (metis set_sort sort_spans_def)
  have bounds: "\<forall>m\<in>set ((a, b) # ms). fst m \<le> snd m \<and> snd m \<le> length txt"
    unfolding set_eq using match_spans_bounds by force
  have "spans_ok 0 (length txt) (merge_spans a b ms) \<and> (\<forall>m\<in>set ((a, b) # ms). spanned (merge_spans a b ms) m)"
    using sorted_sort_spans [of "match_spans ps txt"] unfolding Cons s by (intro merge_spans_ok bounds) simp_all
  then show ?thesis unfolding set_eq by (simp add: merged_spans_def Cons s)
qed

text \<open>The unmarked text is recovered by leaving the marks out: the pieces of a marking, one after
  another, are the text.\<close>

fun pieces_from :: "string \<Rightarrow> nat \<Rightarrow> span list \<Rightarrow> string" where
  "pieces_from txt i [] = drop i txt"
| "pieces_from txt i ((a, b) # spans) = slice txt i a @ slice txt a b @ pieces_from txt b spans"

lemma slice_append: "i \<le> a \<Longrightarrow> slice txt i a @ drop a txt = drop i txt"
  unfolding slice_def by (metis append_take_drop_id drop_drop le_add_diff_inverse2)

lemma pieces_from_eq: "spans_ok i (length txt) spans \<Longrightarrow> pieces_from txt i spans = drop i txt"
  by (induction "txt" i spans rule: pieces_from.induct) (auto simp: slice_append)

text \<open>Marking changes nothing but the marks: the marked text is the text with marks around spans that
  are in order, do not overlap and together are the whole of every cue that was found, and the
  pieces between the marks are the text.\<close>

theorem highlighting_marks_every_cue:
  "\<exists>spans. highlight_cues txt = mark_from txt 0 spans \<and> pieces_from txt 0 spans = txt \<and>
    spans_ok 0 (length txt) spans \<and>
    (\<forall>p\<in>set cue_patterns. \<forall>(a, b, c)\<in>set (re_finditer p txt). \<exists>(x, y)\<in>set spans. x \<le> a \<and> b \<le> y)"
proof -
  let ?spans = "merged_spans cue_patterns txt"
  have ok: "spans_ok 0 (length txt) ?spans" using merged_spans_ok by blast
  have "highlight_cues txt = mark_from txt 0 ?spans"
  proof (cases "match_spans cue_patterns txt = []")
    case True
    then show ?thesis by (simp add: highlight_cues_def highlight_with_def merged_spans_def sort_spans_def)
  next
    case False
    with highlight_parts_mark [OF ok order_refl] show ?thesis by (simp add: highlight_cues_def highlight_with_def)
  qed
  moreover have "pieces_from txt 0 ?spans = txt" using pieces_from_eq [OF ok] by simp
  moreover have "\<exists>(x, y)\<in>set ?spans. x \<le> a \<and> b \<le> y"
    if "p \<in> set cue_patterns" "(a, b, c) \<in> set (re_finditer p txt)" for p a b c
  proof -
    have "(a, b) \<in> set (match_spans cue_patterns txt)" using that by (force simp: match_spans_def)
    with merged_spans_ok [of "txt" cue_patterns] have "spanned ?spans (a, b)" by blast
    then show ?thesis by (auto simp: spanned_def)
  qed
  ultimately show ?thesis using ok by blast
qed

theorem highlighting_marks_every_cue_witness:
  "\<exists>spans. highlight_cues ''go to it'' = mark_from ''go to it'' 0 spans \<and> (\<exists>(x, y)\<in>set spans. x \<le> 0 \<and> 5 \<le> y)"
proof -
  have "map (\<lambda>(a, b, c). (a, b)) (re_finditer cta_pattern ''go to it'') = [(0, 5)]" by code_simp
  then obtain c where c: "(0, 5, c) \<in> set (re_finditer cta_pattern ''go to it'')" by auto
  have "cta_pattern \<in> set cue_patterns" by (simp add: cue_patterns_def)
  with highlighting_marks_every_cue [of "''go to it''"] c show ?thesis by blast
qed

end
