(* ===== verification/ModelOutput.thy ===== *)
theory ModelOutput
  imports PyJson "HOL-Library.AList" "HOL-Library.Sublist"
begin

text \<open>
  \<open>src/podcast_processor/model_output.py\<close>: the JSON object in a language model's reply.  The
  reply is cut at the end of its first object, duplicate keys are merged, and a reply that
  was cut off is closed.  The schema's validation (pydantic) and \<open>json.loads\<close> and
  \<open>json.dumps\<close> are arguments; the object hook is applied to the decoded value, whose objects
  are lists of pairs.
\<close>

section \<open>The first object\<close>

text \<open>The scan's state is the depth, whether it is inside a string, and whether the last character was
  a backslash in a string.\<close>

type_synonym scan_state = "int \<times> bool \<times> bool"

definition scan_char :: "char \<Rightarrow> scan_state \<Rightarrow> scan_state" where
  "scan_char c st = (case st of (depth, in_string, escape) \<Rightarrow>
     if escape then (depth, in_string, False)
     else if in_string then
       (if c = CHR 0x5C then (depth, True, True) else if c = CHR 0x22 then (depth, False, False) else (depth, True, False))
     else if c = CHR 0x22 then (depth, True, False)
     else if c = CHR 0x7B then (depth + 1, False, False)
     else if c = CHR 0x7D then (depth - 1, False, False)
     else (depth, False, False))"

definition closes_root :: "char \<Rightarrow> scan_state \<Rightarrow> bool" where
  "closes_root c st = (case st of (depth, in_string, escape) \<Rightarrow>
     \<not> escape \<and> \<not> in_string \<and> c = CHR 0x7D \<and> depth - 1 = 0)"

fun root_end :: "string \<Rightarrow> scan_state \<Rightarrow> nat option" where
  "root_end [] st = None"
| "root_end (c # s) st =
     (if closes_root c st then Some 1 else map_option Suc (root_end s (scan_char c st)))"

definition truncate_after_balanced_root :: "string \<Rightarrow> string" where
  "truncate_after_balanced_root s =
     (case root_end s (0, False, False) of None \<Rightarrow> s | Some n \<Rightarrow> take n s)"

section \<open>Duplicate keys\<close>

text \<open>\<open>s.count(p)\<close> for a nonempty \<open>p\<close>.\<close>

definition count_str :: "string \<Rightarrow> string \<Rightarrow> nat" where
  "count_str p s = length (re_finditer (Lit p) s)"

definition AD_SEGMENTS :: string where "AD_SEGMENTS = ''ad_segments''"

definition merge_pair :: "(string \<times> json) list \<Rightarrow> string \<times> json \<Rightarrow> (string \<times> json) list" where
  "merge_pair res kv = (case kv of (key, value) \<Rightarrow>
     if key = AD_SEGMENTS \<and> map_of res key \<noteq> None then
       (case (the (map_of res key), value) of
          (JList xs, JList ys) \<Rightarrow> AList.update key (JList (xs @ ys)) res
        | _ \<Rightarrow> AList.update key value res)
     else AList.update key value res)"

definition merge_pairs :: "(string \<times> json) list \<Rightarrow> (string \<times> json) list" where
  "merge_pairs pairs = foldl merge_pair [] pairs"

text \<open>The hook is applied to every object, the inner ones first.\<close>

fun apply_hook :: "json \<Rightarrow> json" where
  "apply_hook (JObj ps) = JObj (merge_pairs (map (\<lambda>(k, v). (k, apply_hook v)) ps))"
| "apply_hook (JList xs) = JList (map apply_hook xs)"
| "apply_hook v = v"

definition merge_duplicate_ad_segments :: "(string \<Rightarrow> json option) \<Rightarrow> (json \<Rightarrow> string) \<Rightarrow> string \<Rightarrow> string" where
  "merge_duplicate_ad_segments loads dumps s =
     (if count_str (CHR 0x22 # AD_SEGMENTS @ [CHR 0x22]) s \<le> 1 then s
      else case loads s of None \<Rightarrow> s | Some v \<Rightarrow> dumps (apply_hook v))"

section \<open>Repair\<close>

definition count_char :: "char \<Rightarrow> string \<Rightarrow> nat" where
  "count_char c s = length (filter (\<lambda>d. d = c) s)"

definition not_quote :: re where
  "not_quote = Cls (\<lambda>c. c \<noteq> CHR 0x22)"

definition quote_re :: re where
  "quote_re = Cls (\<lambda>c. c = CHR 0x22)"

definition incomplete_patterns :: "re list" where
  "incomplete_patterns =
     [Seqs [Lit '','', quote_re, Star not_quote, quote_re, Lit '':'', Star (Cls py_space), Eos],
      Seqs [Lit '','', quote_re, Star not_quote, quote_re, Lit '':'', Star (Cls py_space), quote_re, Star not_quote, Eos]]"

fun cut_incomplete :: "re list \<Rightarrow> string \<Rightarrow> string" where
  "cut_incomplete [] s = s"
| "cut_incomplete (p # ps) s = (case re_search p s of Some (a, _, _) \<Rightarrow> take a s | None \<Rightarrow> cut_incomplete ps s)"

definition trim_incomplete :: "string \<Rightarrow> string" where
  "trim_incomplete s =
     cut_incomplete incomplete_patterns (rev (dropWhile (\<lambda>c. c = CHR 0x2C) (rev (py_rstrip s))))"

definition balanced_counts :: "string \<Rightarrow> bool" where
  "balanced_counts s \<longleftrightarrow>
     count_char CHR 0x7B s = count_char CHR 0x7D s \<and> count_char CHR 0x5B s = count_char CHR 0x5D s"

definition attempt_json_repair :: "string \<Rightarrow> string" where
  "attempt_json_repair s =
     (if balanced_counts s then s
      else let repaired = trim_incomplete s in
        repaired
          @ replicate (count_char CHR 0x5B repaired - count_char CHR 0x5D repaired) CHR 0x5D
          @ replicate (count_char CHR 0x7B repaired - count_char CHR 0x7D repaired) CHR 0x7D)"

section \<open>The parser\<close>

datatype output_error = NoOpeningBrace | InvalidOutput

definition quote_normalised :: "string \<Rightarrow> string" where
  "quote_normalised s = py_strip (remove_char CHR 0x0A (map (\<lambda>c. if c = CHR 0x27 then CHR 0x22 else c) s))"

definition clean_and_parse_model_output ::
  "(string \<Rightarrow> 'p option) \<Rightarrow> (string \<Rightarrow> json option) \<Rightarrow> (json \<Rightarrow> string) \<Rightarrow> string \<Rightarrow> output_error + 'p" where
  "clean_and_parse_model_output validate loads dumps model_output =
     (if count_char CHR 0x7B model_output = 0 then Inl NoOpeningBrace
      else let start = dropWhile (\<lambda>c. c \<noteq> CHR 0x7B) model_output;
               cleaned = merge_duplicate_ad_segments loads dumps (quote_normalised (truncate_after_balanced_root start)) in
        (case validate cleaned of Some p \<Rightarrow> Inr p
         | None \<Rightarrow> (case validate (attempt_json_repair cleaned) of Some p \<Rightarrow> Inr p | None \<Rightarrow> Inl InvalidOutput)))"

section \<open>The cut is at the end of the root object\<close>

definition scan :: "string \<Rightarrow> scan_state" where
  "scan s = fold scan_char s (0, False, False)"

abbreviation depth :: "string \<Rightarrow> int" where
  "depth s \<equiv> fst (scan s)"

text \<open>An object has been opened and is still open after \<open>s\<close> and after every prefix of it but the empty
  one.\<close>

definition open_object :: "string \<Rightarrow> bool" where
  "open_object s \<longleftrightarrow> (\<forall>n. 0 < n \<and> n \<le> length s \<longrightarrow> 0 < depth (take n s))"

lemma root_end_Some:
  "root_end s st = Some n \<Longrightarrow> 0 < n \<and> n \<le> length s \<and> s ! (n - 1) = CHR 0x7D \<and>
    fold scan_char (take n s) st = (0, False, False) \<and>
    (0 < fst st \<longrightarrow> (\<forall>k<n. 0 < fst (fold scan_char (take k s) st)))"
proof (induction s st arbitrary: n rule: root_end.induct)
  case (2 c s st)
  show ?case
  proof (cases "closes_root c st")
    case True
    with "2.prems" show ?thesis by (auto simp: closes_root_def scan_char_def split: prod.splits)
  next
    case False
    with "2.prems" obtain m where m: "root_end s (scan_char c st) = Some m" "n = Suc m" by auto
    note IH = "2.IH" [OF False m(1)]
    have "0 < fst (scan_char c st)" if "0 < fst st"
      using that False by (cases st) (auto simp: scan_char_def closes_root_def)
    with IH m(2) show ?thesis by (auto simp: less_Suc_eq_0_disj)
  qed
qed simp

lemma root_end_None:
  "root_end s st = None \<Longrightarrow> 0 < fst st \<Longrightarrow> k \<le> length s \<Longrightarrow> 0 < fst (fold scan_char (take k s) st)"
proof (induction s st arbitrary: k rule: root_end.induct)
  case (2 c s st)
  then have nc: "\<not> closes_root c st" and none: "root_end s (scan_char c st) = None" by (auto split: if_splits)
  have "0 < fst (scan_char c st)" using "2.prems"(2) nc by (cases st) (auto simp: scan_char_def closes_root_def)
  with "2.IH" [OF nc none] "2.prems" show ?case by (cases k) auto
qed simp

lemma root_end_append: "root_end s st = Some n \<Longrightarrow> root_end (s @ junk) st = Some n"
  by (induction s st arbitrary: n rule: root_end.induct) auto

lemma root_end_prefix: "root_end (a @ b) st = Some k \<Longrightarrow> k \<le> length a \<Longrightarrow> root_end a st = Some k"
proof (induction a st arbitrary: k rule: root_end.induct)
  case (1 st)
  then show ?case using root_end_Some [OF "1.prems"(1)] by simp
next
  case (2 c s st)
  then show ?case by (cases "closes_root c st") auto
qed

lemma scan_open_brace: "scan (CHR 0x7B # s) = fold scan_char s (1, False, False)"
  by (simp add: scan_def scan_char_def)

lemma root_end_open_brace: "root_end (CHR 0x7B # s) (0, False, False) = map_option Suc (root_end s (1, False, False))"
  by (simp add: closes_root_def scan_char_def)

text \<open>The reply is cut where its first object ends: what is kept is a prefix of the reply that stays
  inside the object up to its last character, which closes it, with braces in strings left out
  of the count; a reply whose object is never closed is kept whole.  Whatever follows a closed
  object makes no difference.\<close>

theorem truncation_ends_with_the_root:
  assumes "s = CHR 0x7B # rest" and "out = truncate_after_balanced_root s"
  shows "prefix out s \<and>
    (if open_object s then out = s
     else scan out = (0, False, False) \<and> last out = CHR 0x7D \<and> open_object (butlast out) \<and>
       (\<forall>junk. truncate_after_balanced_root (out @ junk) = out))"
proof (cases "root_end rest (1, False, False)")
  case None
  then have "root_end s (0, False, False) = None" using assms(1) by (simp only: root_end_open_brace) simp
  then have out: "out = s" using assms(2) by (simp add: truncate_after_balanced_root_def)
  have "open_object s"
    unfolding open_object_def
  proof (intro allI impI)
    fix n assume n: "0 < n \<and> n \<le> length s"
    then obtain k where k: "n = Suc k" "k \<le> length rest" using assms(1) by (cases n) auto
    have "take n s = CHR 0x7B # take k rest" using k assms(1) by simp
    then show "0 < depth (take n s)" using root_end_None [OF None _ k(2)] by (simp add: scan_open_brace)
  qed
  with out show ?thesis by simp
next
  case (Some m)
  then have end_s: "root_end s (0, False, False) = Some (Suc m)" using assms(1) by (simp only: root_end_open_brace) simp
  then have out: "out = take (Suc m) s" using assms(2) by (simp add: truncate_after_balanced_root_def)
  from root_end_Some [OF Some] have m: "0 < m" "m \<le> length rest" "rest ! (m - 1) = CHR 0x7D"
    "fold scan_char (take m rest) (1, False, False) = (0, False, False)"
    "\<forall>k<m. 0 < fst (fold scan_char (take k rest) (1, False, False))" by auto
  have out': "out = CHR 0x7B # take m rest" using out assms(1) by simp
  have closed: "scan out = (0, False, False)" unfolding out' scan_open_brace by (rule m(4))
  have "last out = last (take m rest)" using m(1,2) unfolding out' by (cases rest) auto
  also have "\<dots> = rest ! (m - 1)" using m(1,2) by (subst last_conv_nth) (auto simp: min_def)
  finally have last: "last out = CHR 0x7D" using m(3) by simp
  have len: "length out = Suc m" using m(2) unfolding out' by simp
  have inner: "open_object (butlast out)"
    unfolding open_object_def
  proof (intro allI impI)
    fix n assume n: "0 < n \<and> n \<le> length (butlast out)"
    then obtain k where k: "n = Suc k" "k < m" using len by (cases n) auto
    have "take n (butlast out) = CHR 0x7B # take k rest"
      using k m(2) len unfolding out' by (simp add: butlast_conv_take min_def)
    then show "0 < depth (take n (butlast out))" using m(5) k(2) by (simp add: scan_open_brace)
  qed
  have "\<not> open_object s"
  proof
    assume "open_object s"
    then have "0 < Suc m \<and> Suc m \<le> length s \<longrightarrow> 0 < depth (take (Suc m) s)" unfolding open_object_def by (rule spec)
    then have "0 < depth (take (Suc m) s)" using m(2) assms(1) by (simp del: take_Suc_Cons)
    with closed show False unfolding out by simp
  qed
  moreover have "truncate_after_balanced_root (out @ junk) = out" for junk
  proof -
    have "root_end (take m rest) (1, False, False) = Some m"
      by (rule root_end_prefix [of _ "drop m rest"]) (use Some m(2) in simp_all)
    then have "root_end out (0, False, False) = Some (Suc m)" unfolding out' root_end_open_brace by simp
    from root_end_append [OF this, of junk] show ?thesis using len by (simp add: truncate_after_balanced_root_def)
  qed
  ultimately show ?thesis using closed last inner out by (simp add: take_is_prefix)
qed

theorem truncation_ends_with_the_root_witness:
  "\<exists>s out. s = ''{}}'' \<and> out = truncate_after_balanced_root s \<and> out = ''{}'' \<and> \<not> open_object s"
proof (intro exI conjI)
  have out: "truncate_after_balanced_root ''{}}'' = ''{}''"
    by (simp add: truncate_after_balanced_root_def closes_root_def scan_char_def)
  then show "truncate_after_balanced_root ''{}}'' = ''{}''" .
  show "\<not> open_object ''{}}''"
    using truncation_ends_with_the_root [of "''{}}''" "''}}''" "''{}''"] out by (auto split: if_splits)
qed simp_all

section \<open>What the repair closes\<close>

text \<open>The reference: the brackets that are open outside strings, the innermost first; None once a
  closing bracket does not match the innermost open one.\<close>

fun pop_open :: "char \<Rightarrow> string \<Rightarrow> string option" where
  "pop_open c [] = None"
| "pop_open c (d # opened) = (if d = c then Some opened else None)"

fun nest :: "string \<Rightarrow> string \<times> bool \<times> bool \<Rightarrow> (string \<times> bool \<times> bool) option" where
  "nest [] st = Some st"
| "nest (c # s) (opened, in_string, escape) =
     (if escape then nest s (opened, in_string, False)
      else if in_string then
        nest s (if c = CHR 0x5C then (opened, True, True) else if c = CHR 0x22 then (opened, False, False) else (opened, True, False))
      else if c = CHR 0x22 then nest s (opened, True, False)
      else if c = CHR 0x7B \<or> c = CHR 0x5B then nest s (c # opened, False, False)
      else if c = CHR 0x7D then Option.bind (pop_open CHR 0x7B opened) (\<lambda>r. nest s (r, False, False))
      else if c = CHR 0x5D then Option.bind (pop_open CHR 0x5B opened) (\<lambda>r. nest s (r, False, False))
      else nest s (opened, False, False))"

definition well_nested :: "string \<Rightarrow> bool" where
  "well_nested s \<longleftrightarrow> nest s ([], False, False) = Some ([], False, False)"

lemma nest_append: "nest (a @ b) st = Option.bind (nest a st) (nest b)"
    by (induction a st rule: nest.induct) (auto split: bind_splits)

lemma nest_closers:
  "nest (replicate m CHR 0x5D @ replicate n CHR 0x7D) (opened, False, False) = Some ([], False, False) \<longleftrightarrow>
    opened = replicate m CHR 0x5B @ replicate n CHR 0x7B"
proof (induction m arbitrary: opened)
  case 0
  show ?case
  proof (induction n arbitrary: opened)
    case (Suc n)
    then show ?case by (cases opened) auto
  qed simp
next
  case (Suc m)
  then show ?case by (cases opened) auto
qed

text \<open>A reply that was cut off outside a string, and whose brackets inside strings are balanced, is
  closed by the repair exactly when its open lists are all inside its open objects: the brackets
  are closed before the braces, whatever the order in which they were opened.\<close>

theorem repair_closes_lists_first:
  assumes "\<not> balanced_counts s" and "nest (trim_incomplete s) ([], False, False) = Some (opened, False, False)"
    and "count_char CHR 0x5B (trim_incomplete s) = count_char CHR 0x5D (trim_incomplete s) + nl"
    and "count_char CHR 0x7B (trim_incomplete s) = count_char CHR 0x7D (trim_incomplete s) + no"
  shows "well_nested (attempt_json_repair s) \<longleftrightarrow> opened = replicate nl CHR 0x5B @ replicate no CHR 0x7B"
proof -
  have "attempt_json_repair s = trim_incomplete s @ replicate nl CHR 0x5D @ replicate no CHR 0x7D"
    using assms(1,3,4) by (simp add: attempt_json_repair_def Let_def)
  then have "well_nested (attempt_json_repair s) \<longleftrightarrow>
      nest (replicate nl CHR 0x5D @ replicate no CHR 0x7D) (opened, False, False) = Some ([], False, False)"
    by (simp only: well_nested_def nest_append [of "trim_incomplete s"] assms(2) Option.bind.simps)
  then show ?thesis by (simp only: nest_closers)
qed

theorem repair_closes_lists_first_witness:
  "well_nested (attempt_json_repair ''{a:[{b:1},'') \<and> \<not> well_nested (attempt_json_repair ''{a:[{b:1,'')"
proof
  have "trim_incomplete ''{a:[{b:1},'' = ''{a:[{b:1}''" by code_simp
  then show "well_nested (attempt_json_repair ''{a:[{b:1},'')"
    by (subst repair_closes_lists_first [where opened = "[CHR 0x5B, CHR 0x7B]" and nl = 1 and no = 1])
      (simp_all add: balanced_counts_def count_char_def)
  have "trim_incomplete ''{a:[{b:1,'' = ''{a:[{b:1''" by code_simp
  then show "\<not> well_nested (attempt_json_repair ''{a:[{b:1,'')"
    by (subst repair_closes_lists_first [where opened = "[CHR 0x7B, CHR 0x5B, CHR 0x7B]" and nl = 1 and no = 2])
      (simp_all add: balanced_counts_def count_char_def)
qed

end
