(* ===== verification/Boundary.thy ===== *)
theory Boundary
  imports PyJson
begin

text \<open>
  \<open>src/podcast_processor/boundary_refiner.py\<close>: a model's proposal for the boundaries of one ad,
  clamped; patterns in the transcript around the ad otherwise.  The call of the model is an
  argument: its reply text, or the message of the exception; \<open>json.loads\<close> is one too.  The status
  updates of the recorded call are the second component of the result; they are best effort and
  never change the first.  A decoded \<open>NaN\<close> or infinity is not modelled.
\<close>

definition MAX_START_EXTENSION_SECONDS :: real where "MAX_START_EXTENSION_SECONDS = 30"
definition MAX_END_EXTENSION_SECONDS :: real where "MAX_END_EXTENSION_SECONDS = 15"

record boundary_refinement =
  refined_start :: real
  refined_end :: real
  start_adjustment_reason :: json
  end_adjustment_reason :: json

record context_segment =
  ctx_start :: real
  ctx_text :: string
  ctx_end :: "real option"

datatype refine_error = CallFailed string | ParseFailed | ParseError string | InvalidFields

type_synonym call_update = "string \<times> string option \<times> refine_error option"

section \<open>The context of an ad\<close>

definition index_of :: "'a \<Rightarrow> 'a list \<Rightarrow> nat" where
  "index_of x xs = length (takeWhile (\<lambda>y. y \<noteq> x) xs)"

definition get_context :: "real \<Rightarrow> real \<Rightarrow> context_segment list \<Rightarrow> context_segment list" where
  "get_context ad_start ad_end all_segments =
     (let ad_segs = filter (\<lambda>s. ad_start \<le> ctx_start s \<and> ctx_start s \<le> ad_end) all_segments in
      if ad_segs = [] then []
      else let first_idx = index_of (hd ad_segs) all_segments; last_idx = index_of (last ad_segs) all_segments;
               start_idx = first_idx - 8; end_idx = min (length all_segments) (last_idx + 9) in
        take (end_idx - start_idx) (drop start_idx all_segments))"

section \<open>The heuristic\<close>

definition intro_patterns :: "string list" where
  "intro_patterns = [''brought to you'', ''sponsor'', ''let me tell you'']"

definition outro_patterns :: "string list" where
  "outro_patterns = [''.com'', ''thanks to'', ''use code'', ''visit'']"

definition matches_any :: "string list \<Rightarrow> string \<Rightarrow> bool" where
  "matches_any ps t \<longleftrightarrow> list_ex (\<lambda>p. str_in p (py_lower t)) ps"

definition heuristic_start :: "real \<Rightarrow> real \<Rightarrow> context_segment \<Rightarrow> real" where
  "heuristic_start ad_start cur seg =
     (if ctx_start seg < ad_start \<and> matches_any intro_patterns (ctx_text seg) then ctx_start seg else cur)"

definition heuristic_end :: "real \<Rightarrow> real \<Rightarrow> context_segment \<Rightarrow> real" where
  "heuristic_end ad_end cur seg =
     (if ad_end < ctx_start seg \<and> matches_any outro_patterns (ctx_text seg)
      then (case ctx_end seg of Some e \<Rightarrow> e | None \<Rightarrow> ctx_start seg + 5) else cur)"

definition heuristic_refine :: "real \<Rightarrow> real \<Rightarrow> context_segment list \<Rightarrow> boundary_refinement" where
  "heuristic_refine ad_start ad_end ctx =
     \<lparr>refined_start = foldl (heuristic_start ad_start) ad_start ctx,
      refined_end = foldl (heuristic_end ad_end) ad_end ctx,
      start_adjustment_reason = JStr ''heuristic'', end_adjustment_reason = JStr ''heuristic''\<rparr>"

section \<open>The proposal of the model\<close>

definition validate_refinement :: "real \<Rightarrow> real \<Rightarrow> boundary_refinement \<Rightarrow> boundary_refinement" where
  "validate_refinement orig_start orig_end r =
     (let s = max (refined_start r) (orig_start - MAX_START_EXTENSION_SECONDS);
          e = min (refined_end r) (orig_end + MAX_END_EXTENSION_SECONDS) in
      if e \<le> s then r\<lparr>refined_start := orig_start, refined_end := orig_end\<rparr>
      else r\<lparr>refined_start := s, refined_end := e\<rparr>)"

definition fence_re :: re where
  "fence_re = Alt (Lit ''```json'') (Lit ''```'')"

definition candidate_re :: re where
  "candidate_re = Seqs [Lit [CHR 0x7B], LazyStar (Cls (\<lambda>c. True)), Lit [CHR 0x7D]]"

definition json_candidates :: "string \<Rightarrow> string list" where
  "json_candidates content = re_findall candidate_re (re_sub fence_re '''' (py_strip content))"

fun first_parsed :: "(string \<Rightarrow> string + json) \<Rightarrow> string option \<Rightarrow> string list \<Rightarrow> json option \<times> string option" where
  "first_parsed loads err [] = (None, err)"
| "first_parsed loads err (c # cs) =
     (case loads c of Inr v \<Rightarrow> (Some v, err) | Inl e \<Rightarrow> first_parsed loads (Some e) cs)"

definition get_or :: "(string \<times> json) list \<Rightarrow> string \<Rightarrow> json \<Rightarrow> json" where
  "get_or kvs k d = (if obj_has kvs k then obj_get kvs k else d)"

definition proposal_of :: "json \<Rightarrow> boundary_refinement option" where
  "proposal_of v = (case v of
       JObj kvs \<Rightarrow>
         (if obj_has kvs ''refined_start'' \<and> obj_has kvs ''refined_end'' then
            (case (py_float (obj_get kvs ''refined_start''), py_float (obj_get kvs ''refined_end'')) of
               (Some s, Some e) \<Rightarrow> Some
                 \<lparr>refined_start = s, refined_end = e,
                  start_adjustment_reason = get_or kvs ''start_adjustment_reason'' (get_or kvs ''start_reason'' (JStr '''')),
                  end_adjustment_reason = get_or kvs ''end_adjustment_reason'' (get_or kvs ''end_reason'' (JStr ''''))\<rparr>
             | _ \<Rightarrow> None)
          else None)
     | _ \<Rightarrow> None)"

definition usable_proposal ::
  "(string \<Rightarrow> string + json) \<Rightarrow> string \<Rightarrow> (refine_error option) + boundary_refinement" where
  "usable_proposal loads content =
     (case first_parsed loads None (json_candidates content) of (parsed, err) \<Rightarrow>
        (case parsed of
           None \<Rightarrow> Inl (map_option ParseError err)
         | Some v \<Rightarrow>
             if truthy v then (case proposal_of v of Some p \<Rightarrow> Inr p | None \<Rightarrow> Inl (Some InvalidFields))
             else Inl (map_option ParseError err)))"

definition refine_boundary ::
  "(string \<Rightarrow> string + json) \<Rightarrow> real \<Rightarrow> real \<Rightarrow> context_segment list \<Rightarrow> string + string \<Rightarrow>
   boundary_refinement \<times> call_update list" where
  "refine_boundary loads ad_start ad_end all_segments reply =
     (let heuristic = heuristic_refine ad_start ad_end (get_context ad_start ad_end all_segments) in
      case reply of
        Inl e \<Rightarrow> (heuristic, [(''failed_permanent'', None, Some (CallFailed e))])
      | Inr content \<Rightarrow>
          (let received = (''received_response'', Some content, None) in
           case usable_proposal loads content of
             Inr p \<Rightarrow> (validate_refinement ad_start ad_end p, [received, (''success'', Some content, None)])
           | Inl err \<Rightarrow> (heuristic, [received,
               (''success_heuristic'', Some content, Some (case err of None \<Rightarrow> ParseFailed | Some x \<Rightarrow> x))])))"

section \<open>Correctness\<close>

lemma heuristic_start_le: "cur \<le> ad_start \<Longrightarrow> heuristic_start ad_start cur seg \<le> ad_start"
  by (simp add: heuristic_start_def)

lemma foldl_heuristic_start: "cur \<le> ad_start \<Longrightarrow> foldl (heuristic_start ad_start) cur ctx \<le> ad_start"
  by (induction ctx arbitrary: cur) (simp_all add: heuristic_start_le)

definition segment_ordered :: "context_segment \<Rightarrow> bool" where
  "segment_ordered s \<longleftrightarrow> (case ctx_end s of None \<Rightarrow> True | Some e \<Rightarrow> ctx_start s \<le> e)"

lemma foldl_heuristic_end:
  "ad_end \<le> cur \<Longrightarrow> list_all segment_ordered ctx \<Longrightarrow> ad_end \<le> foldl (heuristic_end ad_end) cur ctx"
  by (induction ctx arbitrary: cur) (auto simp: heuristic_end_def segment_ordered_def split: option.splits)

lemma set_get_context: "set (get_context a b segs) \<subseteq> set segs"
  by (auto simp: get_context_def Let_def dest: in_set_takeD in_set_dropD)

lemma heuristic_refine_widens:
  assumes "list_all segment_ordered segs"
  shows "refined_start (heuristic_refine a b (get_context a b segs)) \<le> a"
    and "b \<le> refined_end (heuristic_refine a b (get_context a b segs))"
proof -
  have "list_all segment_ordered (get_context a b segs)" using assms set_get_context [of a b segs] unfolding list_all_iff by blast
  then show "refined_start (heuristic_refine a b (get_context a b segs)) \<le> a"
    and "b \<le> refined_end (heuristic_refine a b (get_context a b segs))"
    by (simp_all add: heuristic_refine_def foldl_heuristic_start foldl_heuristic_end)
qed

lemma validate_refinement_bounds:
  assumes "a < b" and "r' = validate_refinement a b r"
  shows "refined_start r' < refined_end r'" and "a - MAX_START_EXTENSION_SECONDS \<le> refined_start r'"
    and "refined_end r' \<le> b + MAX_END_EXTENSION_SECONDS"
  using assms by (auto simp: validate_refinement_def Let_def MAX_START_EXTENSION_SECONDS_def MAX_END_EXTENSION_SECONDS_def)

text \<open>Whatever the model replies, the refined ad is a proper window: an accepted proposal stays
  within half a minute before and a quarter of a minute after the detected ad, and every other
  outcome (a failed call, no JSON, unusable fields) only widens the ad and is recorded as such.\<close>

theorem refined_ad_is_a_proper_window:
  assumes "ad_start < ad_end" and "list_all segment_ordered segs"
    and "(r, updates) = refine_boundary loads ad_start ad_end segs reply"
  shows "refined_start r < refined_end r \<and>
    (if fst (last updates) = ''success''
     then ad_start - MAX_START_EXTENSION_SECONDS \<le> refined_start r \<and> refined_end r \<le> ad_end + MAX_END_EXTENSION_SECONDS
     else refined_start r \<le> ad_start \<and> ad_end \<le> refined_end r \<and> snd (snd (last updates)) \<noteq> None)"
proof (cases "\<exists>content p. reply = Inr content \<and> usable_proposal loads content = Inr p")
  case True
  then obtain content p where "reply = Inr content" "usable_proposal loads content = Inr p" by blast
  then have "r = validate_refinement ad_start ad_end p" and "fst (last updates) = ''success''"
    using assms(3) by (simp_all add: refine_boundary_def Let_def)
  then show ?thesis using validate_refinement_bounds [OF assms(1)] by simp
next
  case False
  then have "r = heuristic_refine ad_start ad_end (get_context ad_start ad_end segs)"
    and "fst (last updates) \<noteq> ''success''" and "snd (snd (last updates)) \<noteq> None"
    using assms(3) by (auto simp: refine_boundary_def Let_def split: sum.splits)
  moreover note heuristic_refine_widens [OF assms(2), where a = ad_start and b = ad_end]
  ultimately show ?thesis using assms(1) by auto
qed

theorem refined_ad_is_a_proper_window_witness:
  "refined_start (fst (refine_boundary (\<lambda>_. Inl '''') 100 130 [\<lparr>ctx_start = 90, ctx_text = ''our sponsor'', ctx_end = Some 99\<rparr>]
      (Inl ''timeout''))) < refined_end (fst (refine_boundary (\<lambda>_. Inl '''') 100 130
      [\<lparr>ctx_start = 90, ctx_text = ''our sponsor'', ctx_end = Some 99\<rparr>] (Inl ''timeout'')))"
  using refined_ad_is_a_proper_window [of 100 130 "[\<lparr>ctx_start = 90, ctx_text = ''our sponsor'', ctx_end = Some 99\<rparr>]"
      _ _ "\<lambda>_. Inl ''''" "Inl ''timeout''", OF _ _ prod.collapse]
  by (simp add: segment_ordered_def)

text \<open>The clamp is for proposals only: a pattern in an earlier segment moves the start by any
  distance.\<close>

theorem heuristic_start_is_not_clamped:
  assumes "0 < d" and "ad_start < ad_end"
  shows "\<exists>segs. list_all segment_ordered segs \<and>
    refined_start (fst (refine_boundary loads ad_start ad_end segs (Inl e))) = ad_start - d"
proof (intro exI conjI)
  let ?segs = "[\<lparr>ctx_start = ad_start - d, ctx_text = ''our sponsor'', ctx_end = None\<rparr>,
    \<lparr>ctx_start = ad_start, ctx_text = '''', ctx_end = None\<rparr>]"
  show "list_all segment_ordered ?segs" by (simp add: segment_ordered_def)
  have "get_context ad_start ad_end ?segs = ?segs" using assms by (simp add: get_context_def index_of_def)
  moreover have "matches_any intro_patterns ''our sponsor''" by code_simp
  ultimately show "refined_start (fst (refine_boundary loads ad_start ad_end ?segs (Inl e))) = ad_start - d"
    using assms by (simp add: refine_boundary_def heuristic_refine_def heuristic_start_def)
qed

theorem heuristic_start_is_not_clamped_witness:
  "\<exists>segs. list_all segment_ordered segs \<and>
    refined_start (fst (refine_boundary (\<lambda>_. Inl '''') 1000 1060 segs (Inl ''timeout''))) = 1000 - 500"
  by (rule heuristic_start_is_not_clamped) simp_all

end
