(* ===== verification/JobStore.thy ===== *)
theory JobStore
  imports PyJson "HOL-Library.AList"
begin

text \<open>
  The job queue as the writer keeps it: \<open>ProcessingJob\<close> and \<open>JobsManagerRun\<close> of
  \<open>app/models.py\<close>, the actions of \<open>app/writer/actions/jobs.py\<close>, the counters of
  \<open>app/jobs_manager_run_service.py\<close> and the stage history of \<open>app/job_stage_history.py\<close>.

  A table is a list of rows; a query that takes the first of equally old rows takes the
  first in the table.  Instants are integers, and the instant an action reads from the clock
  is its argument \<open>now\<close>; an ISO string is the instant it denotes.  An action that raises
  returns \<open>Inl\<close> and the database is left as it was, as the writer rolls back.
\<close>

type_synonym instant = int

record stage =
  st_step :: "int option"
  st_name :: "string option"
  st_started :: instant

record job =
  job_id :: string
  run_id :: "string option"
  post_guid :: string
  status :: string
  current_step :: "int option"
  step_name :: "string option"
  total_steps :: "int option"
  progress :: "real option"
  started_at :: "instant option"
  completed_at :: "instant option"
  error_message :: "string option"
  created_at :: instant
  requested_by :: "int option"
  billing_user :: "int option"
  stage_history :: "stage list"
  ad_windows_count :: "int option"
  had_classification_parse_error :: bool
  auto_retry_attempted :: bool

record jobs_run =
  run_status :: string
  run_trigger :: string
  run_started_at :: "instant option"
  run_completed_at :: "instant option"
  run_counters_reset_at :: "instant option"
  run_updated_at :: instant
  run_total_jobs :: nat
  run_queued_jobs :: nat
  run_running_jobs :: nat
  run_completed_jobs :: nat
  run_failed_jobs :: nat
  run_skipped_jobs :: nat
  run_context :: "(string \<times> json) list"

record llm_call_row =
  call_post_id :: int
  call_status :: string
  call_error :: "string option"

record post_row =
  post_id :: int
  guid :: string
  whitelisted :: bool
  download_url :: "string option"
  processed_path :: "string option"

record job_db =
  jobs :: "job list"
  run :: "jobs_run option"
  llm_calls :: "llm_call_row list"
  posts :: "post_row list"

datatype job_error = NotADictionary | NoPostGuid | NoJobId | JobNotFound string | DuplicateJob string

definition SINGLETON_RUN_ID :: string where
  "SINGLETON_RUN_ID = ''jobs-manager-singleton''"

definition find_job :: "job_db \<Rightarrow> string \<Rightarrow> job option" where
  "find_job db jid = find (\<lambda>j. job_id j = jid) (jobs db)"

definition modify_job :: "string \<Rightarrow> (job \<Rightarrow> job) \<Rightarrow> job_db \<Rightarrow> job_db" where
  "modify_job jid f db = db\<lparr>jobs := map (\<lambda>j. if job_id j = jid then f j else j) (jobs db)\<rparr>"

definition initial_stage_history :: "int option \<Rightarrow> string option \<Rightarrow> instant \<Rightarrow> stage list" where
  "initial_stage_history step nm seed_at = [\<lparr>st_step = step, st_name = nm, st_started = seed_at\<rparr>]"

section \<open>The run's counters\<close>

definition build_context_payload ::
  "string \<Rightarrow> (string \<times> json) list \<Rightarrow> instant \<Rightarrow> (string \<times> json) list" where
  "build_context_payload trigger context updated_at =
     AList.update ''last_trigger_at'' (JNum (of_int updated_at))
       (AList.update ''last_trigger'' (JStr trigger)
         (fold (\<lambda>(k, v). AList.update k v) context []))"

definition get_or_create_singleton_run ::
  "string \<Rightarrow> (string \<times> json) list \<Rightarrow> instant \<Rightarrow> job_db \<Rightarrow> job_db" where
  "get_or_create_singleton_run trigger context now db = (case run db of
     Some r \<Rightarrow>
       (let started = (case run_started_at r of None \<Rightarrow> now | Some t \<Rightarrow> t);
            reset = (case run_counters_reset_at r of None \<Rightarrow> started | Some t \<Rightarrow> t)
        in db\<lparr>run := Some (r\<lparr>run_trigger := trigger, run_context := build_context_payload trigger context now,
              run_updated_at := now, run_started_at := Some started, run_counters_reset_at := Some reset\<rparr>)\<rparr>)
   | None \<Rightarrow> db\<lparr>run := Some \<lparr>run_status = ''running'', run_trigger = trigger, run_started_at = Some now,
         run_completed_at = None, run_counters_reset_at = Some now, run_updated_at = now,
         run_total_jobs = 0, run_queued_jobs = 0, run_running_jobs = 0, run_completed_jobs = 0,
         run_failed_jobs = 0, run_skipped_jobs = 0,
         run_context = build_context_payload trigger context now\<rparr>\<rparr>)"

text \<open>The rows the two counter queries select, and the count of one status among them.\<close>

definition counted_jobs :: "jobs_run \<Rightarrow> job list \<Rightarrow> job list" where
  "counted_jobs r js = filter (\<lambda>j. run_id j = Some SINGLETON_RUN_ID \<and>
     (case run_counters_reset_at r of None \<Rightarrow> True | Some cutoff \<Rightarrow> cutoff \<le> created_at j)) js"

definition count_status :: "job list \<Rightarrow> string \<Rightarrow> nat" where
  "count_status js st = length (filter (\<lambda>j. status j = st) js)"

definition recalculate_run_counts :: "instant \<Rightarrow> job_db \<Rightarrow> job_db" where
  "recalculate_run_counts now db = (case run db of
     None \<Rightarrow> db
   | Some r \<Rightarrow>
      (let rows = counted_jobs r (jobs db);
           queued = count_status rows ''pending'' + count_status rows ''queued'';
           running = count_status rows ''running'';
           completed = count_status rows ''completed'';
           failed = count_status rows ''failed'' + count_status rows ''cancelled'';
           skipped = count_status rows ''skipped'';
           n_jobs = length rows
       in if queued + running > 0 then
            (let started = (case run_started_at r of None \<Rightarrow> now | Some t \<Rightarrow> t);
                 reset = (case run_counters_reset_at r of None \<Rightarrow> started | Some t \<Rightarrow> t)
             in db\<lparr>run := Some (r\<lparr>run_total_jobs := n_jobs, run_queued_jobs := queued, run_running_jobs := running,
                  run_completed_jobs := completed, run_failed_jobs := failed, run_skipped_jobs := skipped,
                  run_updated_at := now, run_status := (if running > 0 then ''running'' else ''pending''),
                  run_started_at := Some started, run_counters_reset_at := Some reset,
                  run_completed_at := None\<rparr>)\<rparr>)
          else db\<lparr>run := Some (r\<lparr>run_status := ''pending'', run_completed_at := Some now, run_started_at := None,
                  run_total_jobs := 0, run_queued_jobs := 0, run_running_jobs := 0, run_completed_jobs := 0,
                  run_failed_jobs := 0, run_skipped_jobs := 0, run_updated_at := now,
                  run_counters_reset_at := Some now\<rparr>)\<rparr>))"

record run_view =
  v_status :: string
  v_trigger :: string
  v_started_at :: "instant option"
  v_completed_at :: "instant option"
  v_updated_at :: instant
  v_total :: nat
  v_queued :: nat
  v_running :: nat
  v_completed :: nat
  v_failed :: nat
  v_skipped :: nat
  v_context :: "(string \<times> json) list"
  v_counters_reset_at :: "instant option"
  v_progress :: real

definition py_round2 :: "real \<Rightarrow> real" where
  "py_round2 x = of_int (py_round (x * 100)) / 100"

definition progress_percentage :: "nat \<Rightarrow> nat \<Rightarrow> nat \<Rightarrow> real" where
  "progress_percentage n_jobs completed skipped =
     (if n_jobs = 0 then 0 else real (completed + skipped) / real (max n_jobs 1) * 100)"

definition serialize_run :: "jobs_run \<Rightarrow> run_view" where
  "serialize_run r = \<lparr>v_status = run_status r, v_trigger = run_trigger r, v_started_at = run_started_at r,
     v_completed_at = run_completed_at r, v_updated_at = run_updated_at r, v_total = run_total_jobs r,
     v_queued = run_queued_jobs r, v_running = run_running_jobs r, v_completed = run_completed_jobs r,
     v_failed = run_failed_jobs r, v_skipped = run_skipped_jobs r, v_context = run_context r,
     v_counters_reset_at = run_counters_reset_at r,
     v_progress = py_round2 (progress_percentage (run_total_jobs r) (run_completed_jobs r) (run_skipped_jobs r))\<rparr>"

definition build_run_status_snapshot :: "job_db \<Rightarrow> run_view option" where
  "build_run_status_snapshot db = (case run db of
     None \<Rightarrow> None
   | Some r \<Rightarrow>
      (let rows = counted_jobs r (jobs db);
           queued = count_status rows ''pending'' + count_status rows ''queued'';
           running = count_status rows ''running'';
           completed = count_status rows ''completed'';
           failed = count_status rows ''failed'' + count_status rows ''cancelled'';
           skipped = count_status rows ''skipped'';
           n_jobs = length rows
       in Some \<lparr>v_status = (if queued + running > 0 then if running > 0 then ''running'' else ''pending'' else ''pending''),
            v_trigger = run_trigger r, v_started_at = run_started_at r, v_completed_at = run_completed_at r,
            v_updated_at = run_updated_at r, v_total = n_jobs, v_queued = queued, v_running = running,
            v_completed = completed, v_failed = failed, v_skipped = skipped, v_context = run_context r,
            v_counters_reset_at = run_counters_reset_at r,
            v_progress = py_round2 (progress_percentage n_jobs completed skipped)\<rparr>))"

section \<open>The writer's actions\<close>

text \<open>\<open>if job.jobs_manager_run_id: recalculate_run_counts(...)\<close>.\<close>

definition recount_if_attached :: "job \<Rightarrow> instant \<Rightarrow> job_db \<Rightarrow> job_db" where
  "recount_if_attached j now db =
     (if run_id j \<noteq> None \<and> run_id j \<noteq> Some [] then recalculate_run_counts now db else db)"

definition is_active :: "job \<Rightarrow> bool" where
  "is_active j \<longleftrightarrow> status j = ''pending'' \<or> status j = ''running''"

definition dequeue_job_action :: "string option \<Rightarrow> instant \<Rightarrow> job_db \<Rightarrow> (string \<times> string) option \<times> job_db" where
  "dequeue_job_action rid now db =
     (if list_ex (\<lambda>j. status j = ''running'') (jobs db) then (None, db)
      else case sort_key created_at (filter (\<lambda>j. status j = ''pending'') (jobs db)) of
          [] \<Rightarrow> (None, db)
        | j # _ \<Rightarrow> (Some (job_id j, post_guid j),
            modify_job (job_id j) (\<lambda>k. k\<lparr>status := ''running'', started_at := Some now,
              run_id := (if rid \<noteq> None \<and> rid \<noteq> Some [] \<and> run_id k \<noteq> rid then rid else run_id k)\<rparr>) db))"

definition cleanup_stale_jobs_action :: "int \<Rightarrow> instant \<Rightarrow> job_db \<Rightarrow> nat \<times> job_db" where
  "cleanup_stale_jobs_action older_than now db =
     (let old = filter (\<lambda>j. created_at j < now - older_than) (jobs db) in
      (length old, db\<lparr>jobs := filter (\<lambda>j. \<not> created_at j < now - older_than) (jobs db)\<rparr>))"

definition clear_all_jobs_action :: "job_db \<Rightarrow> nat \<times> job_db" where
  "clear_all_jobs_action db = (length (jobs db), db\<lparr>jobs := []\<rparr>)"

definition clear_active_jobs_action :: "instant \<Rightarrow> job_db \<Rightarrow> nat \<times> job_db" where
  "clear_active_jobs_action now db =
     (let n = length (filter is_active (jobs db));
          db' = db\<lparr>jobs := filter (\<lambda>j. \<not> is_active j) (jobs db)\<rparr>
      in (n, if n > 0 then recalculate_run_counts now db' else db'))"

text \<open>\<open>job_data\<close> is None when it is not a dictionary; a second row with the same id violates the
  primary key.\<close>

definition create_job_action :: "job option \<Rightarrow> instant \<Rightarrow> job_db \<Rightarrow> job_error + string \<times> job_db" where
  "create_job_action job_data now db = (case job_data of
     None \<Rightarrow> Inl NotADictionary
   | Some j \<Rightarrow>
      (let j1 = (if stage_history j = [] then j\<lparr>stage_history := initial_stage_history
               (Some (case current_step j of None \<Rightarrow> 0 | Some s \<Rightarrow> s))
               (Some (case step_name j of None \<Rightarrow> ''Queued'' | Some n \<Rightarrow> if n = [] then ''Queued'' else n))
               (created_at j)\<rparr> else j) in
       if find_job db (job_id j1) \<noteq> None then Inl (DuplicateJob (job_id j1))
       else Inr (job_id j1, recount_if_attached j1 now (db\<lparr>jobs := jobs db @ [j1]\<rparr>))))"

definition create_job_if_missing_action ::
  "job option \<Rightarrow> instant \<Rightarrow> job_db \<Rightarrow> job_error + string option \<times> job_db" where
  "create_job_if_missing_action job_data now db = (case job_data of
     None \<Rightarrow> Inl NotADictionary
   | Some j \<Rightarrow>
      if post_guid j = [] then Inl NoPostGuid
      else if list_ex (\<lambda>k. post_guid k = post_guid j) (jobs db) then Inr (None, db)
      else (case create_job_action (Some j) now db of
          Inl e \<Rightarrow> Inl e | Inr (jid, db') \<Rightarrow> Inr (Some jid, db')))"

definition cancel_existing_jobs_action :: "string \<Rightarrow> string \<Rightarrow> instant \<Rightarrow> job_db \<Rightarrow> nat \<times> job_db" where
  "cancel_existing_jobs_action pguid current now db =
     (let hit = (\<lambda>j. post_guid j = pguid \<and> is_active j \<and> job_id j \<noteq> current);
          n = length (filter hit (jobs db));
          db1 = db\<lparr>jobs := filter (\<lambda>j. \<not> hit j) (jobs db)\<rparr>
      in if n = 0 then (0, db1)
         else let db2 = (case find (\<lambda>p. guid p = pguid) (posts db) of
                  None \<Rightarrow> db1
                | Some p \<Rightarrow> db1\<lparr>llm_calls := map (\<lambda>c.
                    if call_post_id c = post_id p \<and> call_status c \<notin> {''success'', ''failed_permanent'', ''cancelled''}
                    then c\<lparr>call_status := ''cancelled'', call_error := Some ''Superseded by a new processing job''\<rparr>
                    else c) (llm_calls db1)\<rparr>)
           in (n, recalculate_run_counts now db2))"

text \<open>An absent parameter and a parameter that is null are both None.\<close>

definition update_job_attribution_action ::
  "string \<Rightarrow> string option \<Rightarrow> int option \<Rightarrow> int option \<Rightarrow> job_db \<Rightarrow> job_error + bool \<times> job_db" where
  "update_job_attribution_action jid rid req bill db =
     (if jid = [] then Inl NoJobId
      else case find_job db jid of
          None \<Rightarrow> Inl (JobNotFound jid)
        | Some j \<Rightarrow>
            (let set_run = (rid \<noteq> None \<and> rid \<noteq> Some [] \<and> run_id j \<noteq> rid);
                 set_req = (req \<noteq> None \<and> req \<noteq> Some 0 \<and> requested_by j = None);
                 set_bill = (bill \<noteq> None \<and> billing_user j \<noteq> bill)
             in Inr (set_run \<or> set_req \<or> set_bill,
                  modify_job jid (\<lambda>k. k\<lparr>run_id := (if set_run then rid else run_id k),
                    requested_by := (if set_req then req else requested_by k),
                    billing_user := (if set_bill then bill else billing_user k)\<rparr>) db)))"

definition terminal_status :: "string \<Rightarrow> bool" where
  "terminal_status st \<longleftrightarrow> st \<in> {''completed'', ''failed'', ''cancelled'', ''skipped''}"

record status_update =
  u_status :: string
  u_step :: "int option"
  u_step_name :: "string option"
  u_progress :: "real option"
  u_total_steps :: "int option"
  u_error :: "string option"

definition apply_status :: "status_update \<Rightarrow> instant \<Rightarrow> job \<Rightarrow> job" where
  "apply_status u now j =
     j\<lparr>status := u_status u, current_step := u_step u, step_name := u_step_name u,
       progress := (case u_progress u of None \<Rightarrow> progress j | Some p \<Rightarrow> Some p),
       total_steps := (case u_total_steps u of None \<Rightarrow> total_steps j | Some n \<Rightarrow> Some n),
       error_message := (case u_error u of None \<Rightarrow> error_message j | Some e \<Rightarrow> if e = [] then error_message j else Some e),
       started_at := (if u_status u = ''running'' \<and> started_at j = None then Some now else started_at j),
       completed_at := (if \<not> (u_status u = ''running'' \<and> started_at j = None) \<and> terminal_status (u_status u)
          \<and> completed_at j = None then Some now else completed_at j),
       stage_history := (if stage_history j = [] \<or> st_step (last (stage_history j)) \<noteq> u_step u
          then stage_history j @ [\<lparr>st_step = u_step u, st_name = u_step_name u, st_started = now\<rparr>]
          else stage_history j)\<rparr>"

definition update_job_status_action ::
  "string \<Rightarrow> status_update \<Rightarrow> instant \<Rightarrow> job_db \<Rightarrow> job_error + string \<times> job_db" where
  "update_job_status_action jid u now db = (case find_job db jid of
     None \<Rightarrow> Inl (JobNotFound jid)
   | Some j \<Rightarrow>
       if status j = ''cancelled'' \<and> u_status u \<noteq> ''cancelled'' then Inr (''cancelled'', db)
       else Inr (u_status u, recount_if_attached j now (modify_job jid (apply_status u now) db)))"

definition mark_cancelled_action ::
  "string \<Rightarrow> string option \<Rightarrow> instant \<Rightarrow> job_db \<Rightarrow> job_error + string \<times> job_db" where
  "mark_cancelled_action jid reason0 now db =
     (let reason = (case reason0 of None \<Rightarrow> ''Cancelled by user request''
          | Some r \<Rightarrow> if r = [] then ''Cancelled by user request'' else r) in
      case find_job db jid of
        None \<Rightarrow> Inl (JobNotFound jid)
      | Some j \<Rightarrow> Inr (''cancelled'', recount_if_attached j now
          (modify_job jid (\<lambda>k. k\<lparr>status := ''cancelled'', step_name := Some reason,
             error_message := Some reason, completed_at := Some now\<rparr>) db)))"

definition update_existing :: "string \<Rightarrow> (job \<Rightarrow> job) \<Rightarrow> job_db \<Rightarrow> job_error + string \<times> job_db" where
  "update_existing jid f db = (case find_job db jid of
     None \<Rightarrow> Inl (JobNotFound jid) | Some j \<Rightarrow> Inr (jid, modify_job jid f db))"

definition mark_classification_parse_error_action :: "string \<Rightarrow> job_db \<Rightarrow> job_error + string \<times> job_db" where
  "mark_classification_parse_error_action jid =
     update_existing jid (\<lambda>j. j\<lparr>had_classification_parse_error := True\<rparr>)"

definition record_ad_windows_count_action :: "string \<Rightarrow> int option \<Rightarrow> job_db \<Rightarrow> job_error + string \<times> job_db" where
  "record_ad_windows_count_action jid n =
     update_existing jid (\<lambda>j. case n of None \<Rightarrow> j | Some c \<Rightarrow> j\<lparr>ad_windows_count := Some c\<rparr>)"

definition mark_auto_retry_attempted_action :: "string \<Rightarrow> job_db \<Rightarrow> job_error + string \<times> job_db" where
  "mark_auto_retry_attempted_action jid = update_existing jid (\<lambda>j. j\<lparr>auto_retry_attempted := True\<rparr>)"

definition reassign_pending_jobs_action :: "string option \<Rightarrow> instant \<Rightarrow> job_db \<Rightarrow> nat \<times> job_db" where
  "reassign_pending_jobs_action rid now db =
     (if rid = None \<or> rid = Some [] then (0, db)
      else let hit = (\<lambda>j. status j = ''pending'' \<and> run_id j \<noteq> rid);
               n = length (filter hit (jobs db));
               db' = db\<lparr>jobs := map (\<lambda>j. if hit j then j\<lparr>run_id := rid\<rparr> else j) (jobs db)\<rparr>
           in (n, if n > 0 then recalculate_run_counts now db' else db'))"

section \<open>Frame lemmas\<close>

named_theorems job_frame \<open>what the actions leave alone\<close>

lemma recalculate_frame [simp, job_frame]:
  "jobs (recalculate_run_counts now db) = jobs db"
  "posts (recalculate_run_counts now db) = posts db"
  "llm_calls (recalculate_run_counts now db) = llm_calls db"
  "find_job (recalculate_run_counts now db) jid = find_job db jid"
  by (simp_all add: recalculate_run_counts_def find_job_def Let_def split: option.split)

lemma recount_frame [simp, job_frame]:
  "jobs (recount_if_attached j now db) = jobs db"
  "posts (recount_if_attached j now db) = posts db"
  "llm_calls (recount_if_attached j now db) = llm_calls db"
  "find_job (recount_if_attached j now db) jid = find_job db jid"
  by (simp_all add: recount_if_attached_def)

lemma apply_status_id [simp]: "job_id (apply_status u now j) = job_id j"
  by (simp add: apply_status_def)

lemma jobs_modify [simp]:
  "jobs (modify_job jid f db) = map (\<lambda>j. if job_id j = jid then f j else j) (jobs db)"
  "posts (modify_job jid f db) = posts db" "llm_calls (modify_job jid f db) = llm_calls db"
  "run (modify_job jid f db) = run db"
  by (simp_all add: modify_job_def)

lemma find_job_cong: "jobs db = jobs db' \<Longrightarrow> find_job db = find_job db'"
  by (rule ext) (simp add: find_job_def)

lemma find_job_Some:
  assumes "find_job db jid = Some j"
  shows "j \<in> set (jobs db)" and "job_id j = jid"
  using assms by (auto simp: find_job_def find_Some_iff)

lemma find_job_None: "find_job db jid = None \<longleftrightarrow> (\<forall>j\<in>set (jobs db). job_id j \<noteq> jid)"
  by (auto simp: find_job_def find_None_iff)

lemma find_map:
  assumes "\<And>j. job_id (f j) = job_id j"
  shows "find (\<lambda>j. job_id j = jid) (map f js) = map_option f (find (\<lambda>j. job_id j = jid) js)"
  using assms by (induction js) auto

lemma find_job_modify:
  assumes "\<And>j. job_id (f j) = job_id j"
  shows "find_job (modify_job i f db) jid =
    (if jid = i then map_option f (find_job db jid) else find_job db jid)"
proof -
  have "find_job (modify_job i f db) jid = map_option (\<lambda>j. if job_id j = i then f j else j) (find_job db jid)"
    unfolding find_job_def jobs_modify by (rule find_map) (simp add: assms)
  moreover have "job_id j = jid" if "find_job db jid = Some j" for j by (rule find_job_Some(2) [OF that])
  ultimately show ?thesis by (cases "find_job db jid") auto
qed

definition ids_distinct :: "job_db \<Rightarrow> bool" where
  "ids_distinct db \<longleftrightarrow> distinct (map job_id (jobs db))"

lemma ids_distinct_modify:
  "(\<And>j. job_id (f j) = job_id j) \<Longrightarrow> ids_distinct (modify_job i f db) = ids_distinct db"
  unfolding ids_distinct_def jobs_modify map_map by (rule arg_cong [of _ _ distinct]) auto

lemma ids_distinct_find:
  assumes "ids_distinct db" and "j \<in> set (jobs db)"
  shows "find_job db (job_id j) = Some j"
proof -
  have "distinct (map job_id js) \<Longrightarrow> j \<in> set js \<Longrightarrow> find (\<lambda>k. job_id k = job_id j) js = Some j" for js
    by (induction js) force+
  with assms show ?thesis by (simp add: ids_distinct_def find_job_def)
qed

section \<open>Dequeuing\<close>

lemma sort_key_hd_min:
  "sort_key f xs = y # ys \<Longrightarrow> y \<in> set xs \<and> (\<forall>x\<in>set xs. f y \<le> f x)"
proof -
  assume eq: "sort_key f xs = y # ys"
  have "sorted (map f (sort_key f xs))" by simp
  moreover have "set xs = set (y # ys)" using eq by (metis set_sort)
  ultimately show ?thesis unfolding eq by auto
qed

lemma dequeue_spec:
  assumes "dequeue_job_action rid now db = (r, db')" and "ids_distinct db"
  shows "case r of
      None \<Rightarrow> db' = db \<and> ((\<exists>j\<in>set (jobs db). status j = ''running'') \<or> (\<forall>j\<in>set (jobs db). status j \<noteq> ''pending''))
    | Some (jid, pguid) \<Rightarrow> (\<forall>j\<in>set (jobs db). status j \<noteq> ''running'') \<and>
        (\<exists>j. find_job db jid = Some j \<and> post_guid j = pguid \<and> status j = ''pending'' \<and>
          (\<forall>k\<in>set (jobs db). status k = ''pending'' \<longrightarrow> created_at j \<le> created_at k)) \<and>
        (\<exists>j. find_job db' jid = Some j \<and> status j = ''running'' \<and> started_at j = Some now) \<and>
        (\<forall>k\<in>set (jobs db'). status k = ''running'' \<longleftrightarrow> job_id k = jid) \<and>
        (\<forall>i. i \<noteq> jid \<longrightarrow> find_job db' i = find_job db i)"
proof (cases "list_ex (\<lambda>j. status j = ''running'') (jobs db)")
  case True
  with assms(1) show ?thesis by (auto simp: dequeue_job_action_def list_ex_iff)
next
  case False
  then have none: "\<forall>j\<in>set (jobs db). status j \<noteq> ''running''" by (simp add: list_ex_iff)
  show ?thesis
  proof (cases "sort_key created_at (filter (\<lambda>j. status j = ''pending'') (jobs db))")
    case Nil
    then have "set (filter (\<lambda>j. status j = ''pending'') (jobs db)) = {}"
      by (metis list.set(1) set_sort)
    moreover from assms(1) False Nil have "r = None" "db' = db"
      unfolding dequeue_job_action_def by simp_all
    ultimately show ?thesis by auto
  next
    case (Cons j js)
    let ?f = "\<lambda>k. k\<lparr>status := ''running'', started_at := Some now,
      run_id := (if rid \<noteq> None \<and> rid \<noteq> Some [] \<and> run_id k \<noteq> rid then rid else run_id k)\<rparr>"
    from assms(1) False Cons have r: "r = Some (job_id j, post_guid j)" "db' = modify_job (job_id j) ?f db"
      unfolding dequeue_job_action_def by simp_all
    from sort_key_hd_min [OF Cons] have j: "j \<in> set (jobs db)" "status j = ''pending''"
      "\<forall>k\<in>set (jobs db). status k = ''pending'' \<longrightarrow> created_at j \<le> created_at k" by auto
    note found = ids_distinct_find [OF assms(2) j(1)]
    have find': "find_job db' i = (if i = job_id j then map_option ?f (find_job db i) else find_job db i)" for i
      unfolding r(2) by (rule find_job_modify) simp
    have "\<forall>k\<in>set (jobs db'). status k = ''running'' \<longleftrightarrow> job_id k = job_id j"
      unfolding r(2) using none by auto
    moreover have "\<exists>k. find_job db' (job_id j) = Some k \<and> status k = ''running'' \<and> started_at k = Some now"
      using find' found by simp
    moreover have "\<exists>k. find_job db (job_id j) = Some k \<and> post_guid k = post_guid j \<and> status k = ''pending'' \<and>
        (\<forall>i\<in>set (jobs db). status i = ''pending'' \<longrightarrow> created_at k \<le> created_at i)"
      using found j by blast
    moreover have "\<forall>i. i \<noteq> job_id j \<longrightarrow> find_job db' i = find_job db i"
      by (simp add: find')
    ultimately show ?thesis unfolding r(1) using none by simp
  qed
qed

text \<open>C22.  Dequeuing: nothing is handed out while a job is running or when none is pending, and the
  database does not change then; otherwise the oldest pending job is handed out, it becomes
  the only running job, and every other job keeps its state.\<close>

theorem dequeue_takes_the_oldest_pending_job:
  assumes "dequeue_job_action rid now db = (r, db')" and "ids_distinct db"
  shows "case r of
      None \<Rightarrow> db' = db \<and> ((\<exists>j\<in>set (jobs db). status j = ''running'') \<or> (\<forall>j\<in>set (jobs db). status j \<noteq> ''pending''))
    | Some (jid, pguid) \<Rightarrow> (\<forall>j\<in>set (jobs db). status j \<noteq> ''running'') \<and>
        (\<exists>j. find_job db jid = Some j \<and> post_guid j = pguid \<and> status j = ''pending'' \<and>
          (\<forall>k\<in>set (jobs db). status k = ''pending'' \<longrightarrow> created_at j \<le> created_at k)) \<and>
        (\<exists>j. find_job db' jid = Some j \<and> status j = ''running'' \<and> started_at j = Some now) \<and>
        (\<forall>k\<in>set (jobs db'). status k = ''running'' \<longleftrightarrow> job_id k = jid) \<and>
        (\<forall>i. i \<noteq> jid \<longrightarrow> find_job db' i = find_job db i)"
  using assms by (rule dequeue_spec)

definition demo_job :: "string \<Rightarrow> string \<Rightarrow> instant \<Rightarrow> job" where
  "demo_job jid st t = \<lparr>job_id = jid, run_id = Some SINGLETON_RUN_ID, post_guid = ''g'', status = st,
     current_step = Some 0, step_name = None, total_steps = Some 4, progress = Some 0, started_at = None,
     completed_at = None, error_message = None, created_at = t, requested_by = None, billing_user = None,
     stage_history = [], ad_windows_count = None, had_classification_parse_error = False,
     auto_retry_attempted = False\<rparr>"

definition demo_run :: jobs_run where
  "demo_run = \<lparr>run_status = ''pending'', run_trigger = ''startup'', run_started_at = None, run_completed_at = None,
     run_counters_reset_at = Some 0, run_updated_at = 0, run_total_jobs = 0, run_queued_jobs = 0,
     run_running_jobs = 0, run_completed_jobs = 0, run_failed_jobs = 0, run_skipped_jobs = 0, run_context = []\<rparr>"

definition demo_db :: "job list \<Rightarrow> job_db" where
  "demo_db js = \<lparr>jobs = js, run = Some demo_run, llm_calls = [], posts = []\<rparr>"

theorem dequeue_takes_the_oldest_pending_job_witness:
  "\<exists>db'. dequeue_job_action None 9 (demo_db [demo_job ''a'' ''pending'' 5, demo_job ''b'' ''pending'' 3]) =
      (Some (''b'', ''g''), db') \<and>
    (\<forall>k\<in>set (jobs db'). status k = ''running'' \<longleftrightarrow> job_id k = ''b'')"
proof -
  let ?db = "demo_db [demo_job ''a'' ''pending'' 5, demo_job ''b'' ''pending'' 3]"
  obtain db' where d: "dequeue_job_action None 9 ?db = (Some (''b'', ''g''), db')"
    by (simp add: dequeue_job_action_def demo_db_def demo_job_def)
  have "ids_distinct ?db" by (simp add: ids_distinct_def demo_db_def demo_job_def)
  from dequeue_takes_the_oldest_pending_job [OF d this] d show ?thesis by simp
qed

section \<open>Late updates\<close>

type_synonym late_update = "string \<times> status_update \<times> instant"

text \<open>An update the writer refuses leaves the database as it was.\<close>

definition try_update :: "late_update \<Rightarrow> job_db \<Rightarrow> job_db" where
  "try_update = (\<lambda>(jid, u, now) db. case update_job_status_action jid u now db of
     Inl _ \<Rightarrow> db | Inr (_, db') \<Rightarrow> db')"

lemma find_try_update:
  "find_job (try_update (i, u, now) db) jid =
    (if jid = i then map_option (\<lambda>j. if status j = ''cancelled'' \<and> u_status u \<noteq> ''cancelled'' then j
        else apply_status u now j) (find_job db jid)
     else find_job db jid)"
  by (cases "find_job db i")
    (auto simp: try_update_def update_job_status_action_def find_job_modify)

text \<open>Cancellation owns the terminal state: whatever status updates arrive after a job was
  cancelled, from a worker that has not noticed yet or for other jobs, the cancelled job's
  row does not change.\<close>

theorem cancelled_jobs_stay_cancelled:
  assumes "find_job db jid = Some j" and "status j = ''cancelled''"
    and "\<forall>(i, u, t)\<in>set us. i = jid \<longrightarrow> u_status u \<noteq> ''cancelled''"
  shows "find_job (fold try_update us db) jid = Some j"
  using assms(1,3)
proof (induction us arbitrary: db)
  case (Cons a us)
  obtain i u t where a: "a = (i, u, t)" by (cases a)
  have "find_job (try_update a db) jid = Some j"
    unfolding a find_try_update using Cons.prems assms(2) by (auto simp: a)
  from Cons.IH [OF this] Cons.prems(2) show ?case by simp
qed simp

definition demo_update :: "string \<Rightarrow> int \<Rightarrow> status_update" where
  "demo_update st step = \<lparr>u_status = st, u_step = Some step, u_step_name = None, u_progress = None,
     u_total_steps = None, u_error = None\<rparr>"

theorem cancelled_jobs_stay_cancelled_witness:
  "find_job (fold try_update [(''a'', demo_update ''running'' 2, 7), (''a'', demo_update ''completed'' 4, 8)]
      (demo_db [demo_job ''a'' ''cancelled'' 5])) ''a'' = Some (demo_job ''a'' ''cancelled'' 5)"
  by (rule cancelled_jobs_stay_cancelled)
    (simp_all add: demo_db_def demo_job_def find_job_def demo_update_def)

section \<open>The counters\<close>

lemma py_round2_0 [simp]: "py_round2 0 = 0"
  using py_round_of_int [of 0] by (simp add: py_round2_def)

text \<open>The status snapshot that is served without touching the database shows the counters the
  writer stored: after a recount the two views are equal, in the idle state too, as long as no
  job is dated in the future.\<close>

theorem snapshot_mirrors_the_counters:
  assumes "run db = Some r" and "run_counters_reset_at r \<noteq> None" and "\<forall>j\<in>set (jobs db). created_at j < now"
  shows "build_run_status_snapshot (recalculate_run_counts now db) =
    map_option serialize_run (run (recalculate_run_counts now db))"
proof -
  let ?rows = "counted_jobs r (jobs db)"
  let ?active = "count_status ?rows ''pending'' + count_status ?rows ''queued'' + count_status ?rows ''running'' > 0"
  from assms(2) obtain reset where reset: "run_counters_reset_at r = Some reset" by auto
  show ?thesis
  proof (cases ?active)
    case True
    have same: "counted_jobs (r\<lparr>run_total_jobs := a, run_queued_jobs := b, run_running_jobs := c,
        run_completed_jobs := d, run_failed_jobs := e, run_skipped_jobs := f, run_updated_at := now,
        run_status := g, run_started_at := h, run_counters_reset_at := Some reset, run_completed_at := i\<rparr>) (jobs db) = ?rows"
      for a b c d e f g h i
      by (simp add: counted_jobs_def reset)
    with True show ?thesis
      by (simp add: build_run_status_snapshot_def recalculate_run_counts_def Let_def assms(1) reset serialize_run_def)
  next
    case False
    have "counted_jobs (r\<lparr>run_status := ''pending'', run_completed_at := Some now, run_started_at := None,
        run_total_jobs := 0, run_queued_jobs := 0, run_running_jobs := 0, run_completed_jobs := 0,
        run_failed_jobs := 0, run_skipped_jobs := 0, run_updated_at := now,
        run_counters_reset_at := Some now\<rparr>) (jobs db) = []"
      using assms(3) by (force simp: counted_jobs_def filter_empty_conv)
    with False show ?thesis
      by (simp add: build_run_status_snapshot_def recalculate_run_counts_def Let_def assms(1)
          serialize_run_def count_status_def progress_percentage_def)
  qed
qed

theorem snapshot_mirrors_the_counters_witness:
  "build_run_status_snapshot (recalculate_run_counts 9 (demo_db [demo_job ''a'' ''running'' 5, demo_job ''b'' ''completed'' 3])) =
    map_option serialize_run (run (recalculate_run_counts 9 (demo_db [demo_job ''a'' ''running'' 5, demo_job ''b'' ''completed'' 3])))"
  by (rule snapshot_mirrors_the_counters [of _ demo_run]) (simp_all add: demo_db_def demo_run_def demo_job_def)

section \<open>Stage history\<close>

definition stages_ok :: "instant \<Rightarrow> stage list \<Rightarrow> bool" where
  "stages_ok t h \<longleftrightarrow> sorted (map st_started h) \<and> (\<forall>s\<in>set h. st_started s \<le> t) \<and> distinct_adj (map st_step h)"

lemma stages_ok_mono: "stages_ok t h \<Longrightarrow> t \<le> u \<Longrightarrow> stages_ok u h"
  by (force simp: stages_ok_def)

lemma stages_ok_initial: "s \<le> t \<Longrightarrow> stages_ok t (initial_stage_history a b s)"
  by (simp add: stages_ok_def initial_stage_history_def)

lemma distinct_adj_snoc: "distinct_adj (xs @ [x]) \<longleftrightarrow> distinct_adj xs \<and> (xs = [] \<or> last xs \<noteq> x)"
  by (cases "xs = []") (auto simp: distinct_adj_append_iff)

lemma stages_ok_apply:
  assumes "stages_ok t (stage_history j)" and "t \<le> now"
  shows "stages_ok now (stage_history (apply_status u now j))"
proof -
  have "\<forall>s\<in>set (stage_history j). st_started s \<le> now" using assms by (force simp: stages_ok_def)
  with assms show ?thesis
    by (auto simp: apply_status_def stages_ok_def sorted_append distinct_adj_snoc last_map)
qed

lemma try_update_jobs:
  "k \<in> set (jobs (try_update (i, u, now) db)) \<Longrightarrow> \<exists>j\<in>set (jobs db). k = j \<or> k = apply_status u now j"
  by (cases "find_job db i")
    (auto simp: try_update_def update_job_status_action_def split: if_splits)

text \<open>The stage history the durations are read from stays a timeline: under any sequence of
  status updates at growing instants, the entries of every job are in order of time, and two
  entries in a row never record the same step.\<close>

theorem stage_history_stays_a_timeline:
  assumes "\<forall>j\<in>set (jobs db). stages_ok t (stage_history j)" and "sorted (map (\<lambda>(i, u, s). s) us)"
    and "\<forall>(i, u, s)\<in>set us. t \<le> s \<and> s \<le> now" and "t \<le> now"
  shows "\<forall>j\<in>set (jobs (fold try_update us db)). stages_ok now (stage_history j)"
  using assms
proof (induction us arbitrary: db t)
  case Nil
  then show ?case by (auto intro: stages_ok_mono)
next
  case (Cons a us)
  obtain i u s where a: "a = (i, u, s)" by (cases a)
  have ts: "t \<le> s" "s \<le> now" using Cons.prems(3) by (auto simp: a)
  have "stages_ok s (stage_history k)" if k: "k \<in> set (jobs (try_update a db))" for k
  proof -
    from try_update_jobs [OF k [unfolded a]] obtain j where j: "j \<in> set (jobs db)"
      "k = j \<or> k = apply_status u s j" by blast
    with Cons.prems(1) ts(1) show ?thesis
      using stages_ok_mono [of t "stage_history j" s] stages_ok_apply [of t j s u] by auto
  qed
  moreover have "\<forall>(i, u, s')\<in>set us. s \<le> s' \<and> s' \<le> now"
    using Cons.prems(2,3) by (auto simp: a)
  ultimately have "\<forall>j\<in>set (jobs (fold try_update us (try_update a db))). stages_ok now (stage_history j)"
    using Cons.prems(2) ts by (intro Cons.IH [of _ s]) (auto simp: a)
  then show ?case by simp
qed

theorem stage_history_stays_a_timeline_witness:
  "list_all (\<lambda>j. stages_ok 9 (stage_history j))
    (jobs (fold try_update [(''a'', demo_update ''running'' 1, 7), (''a'', demo_update ''running'' 1, 8)]
      (demo_db [demo_job ''a'' ''running'' 5])))"
  unfolding list_all_iff by (rule stage_history_stays_a_timeline [of _ 5]) (simp_all add: demo_db_def demo_job_def stages_ok_def)

section \<open>Creation, replacement and attribution\<close>

lemma cancel_existing_jobs_eq:
  "jobs (snd (cancel_existing_jobs_action pguid current now db)) =
    filter (\<lambda>j. \<not> (post_guid j = pguid \<and> is_active j \<and> job_id j \<noteq> current)) (jobs db)"
  by (simp add: cancel_existing_jobs_action_def Let_def split: option.split)

lemma cancel_existing_calls:
  assumes "fst (cancel_existing_jobs_action pguid current now db) > 0"
    and "find (\<lambda>p. guid p = pguid) (posts db) = Some p"
    and "c \<in> set (llm_calls (snd (cancel_existing_jobs_action pguid current now db)))" and "call_post_id c = post_id p"
  shows "call_status c \<in> {''success'', ''failed_permanent'', ''cancelled''}"
  using assms by (auto simp: cancel_existing_jobs_action_def Let_def split: if_splits)

text \<open>A new run replaces the old ones: afterwards no other job of the post is active, every
  job that was not an active rival of it is still there, and when a rival was removed none of
  the post's model calls is left in a state that could still change.\<close>

theorem new_run_replaces_active_jobs:
  assumes "cancel_existing_jobs_action pguid current now db = (n, db')"
  shows "(\<forall>j\<in>set (jobs db'). post_guid j = pguid \<and> is_active j \<longrightarrow> job_id j = current) \<and>
    (\<forall>j\<in>set (jobs db). post_guid j \<noteq> pguid \<or> \<not> is_active j \<or> job_id j = current \<longrightarrow> j \<in> set (jobs db')) \<and>
    length (jobs db') + n = length (jobs db) \<and>
    (n > 0 \<longrightarrow> (\<forall>p. find (\<lambda>p. guid p = pguid) (posts db) = Some p \<longrightarrow>
      (\<forall>c\<in>set (llm_calls db'). call_post_id c = post_id p \<longrightarrow>
        call_status c \<in> {''success'', ''failed_permanent'', ''cancelled''})))"
proof -
  let ?hit = "\<lambda>j. post_guid j = pguid \<and> is_active j \<and> job_id j \<noteq> current"
  from assms have db': "db' = snd (cancel_existing_jobs_action pguid current now db)"
    and n: "n = fst (cancel_existing_jobs_action pguid current now db)" by simp_all
  have js: "jobs db' = filter (\<lambda>j. \<not> ?hit j) (jobs db)"
    unfolding db' by (rule cancel_existing_jobs_eq)
  have "n = length (filter ?hit (jobs db))"
    unfolding n by (simp add: cancel_existing_jobs_action_def Let_def)
  with js have "length (jobs db') + n = length (jobs db)"
    using sum_length_filter_compl [of ?hit "jobs db"] by simp
  moreover have "n > 0 \<longrightarrow> (\<forall>p. find (\<lambda>p. guid p = pguid) (posts db) = Some p \<longrightarrow>
      (\<forall>c\<in>set (llm_calls db'). call_post_id c = post_id p \<longrightarrow>
        call_status c \<in> {''success'', ''failed_permanent'', ''cancelled''}))"
    using cancel_existing_calls unfolding n db' by blast
  ultimately show ?thesis by (simp add: js)
qed

theorem new_run_replaces_active_jobs_witness:
  "\<exists>n db'. cancel_existing_jobs_action ''g'' ''b'' 9 (demo_db [demo_job ''a'' ''pending'' 5, demo_job ''b'' ''pending'' 7]) = (n, db') \<and>
    (\<forall>j\<in>set (jobs db'). post_guid j = ''g'' \<and> is_active j \<longrightarrow> job_id j = ''b'') \<and> length (jobs db') + n = 2"
proof -
  let ?db = "demo_db [demo_job ''a'' ''pending'' 5, demo_job ''b'' ''pending'' 7]"
  obtain n db' where d: "cancel_existing_jobs_action ''g'' ''b'' 9 ?db = (n, db')" by fastforce
  moreover have "length (jobs ?db) = 2" by (simp add: demo_db_def)
  ultimately show ?thesis using new_run_replaces_active_jobs [OF d] by auto
qed

text \<open>Any job of a post, a failed or cancelled one included, keeps the job that is created
  only if missing from being created; the action's description names completed and skipped
  jobs only.\<close>

theorem any_job_blocks_creation:
  assumes "k \<in> set (jobs db)" and "post_guid k = post_guid j" and "post_guid j \<noteq> []"
  shows "create_job_if_missing_action (Some j) now db = Inr (None, db)"
  using assms by (auto simp: create_job_if_missing_action_def list_ex_iff)

theorem any_job_blocks_creation_witness:
  "create_job_if_missing_action (Some (demo_job ''b'' ''pending'' 7)) 9 (demo_db [demo_job ''a'' ''failed'' 5]) =
    Inr (None, demo_db [demo_job ''a'' ''failed'' 5])"
  by (rule any_job_blocks_creation [of "demo_job ''a'' ''failed'' 5"]) (simp_all add: demo_db_def demo_job_def)

text \<open>Back-filling attribution never takes a job from the user who requested it, changes
  nothing but the three attribution fields of that job, and is idempotent: a second
  request with the same values reports that nothing changed and leaves the database as it is.\<close>

theorem attribution_is_idempotent:
  assumes "update_job_attribution_action jid rid req bill db = Inr (c, db')" and "find_job db jid = Some j"
  shows "update_job_attribution_action jid rid req bill db' = Inr (False, db') \<and>
    (\<exists>j'. find_job db' jid = Some j' \<and> (requested_by j \<noteq> None \<longrightarrow> requested_by j' = requested_by j) \<and>
      j' = j\<lparr>run_id := run_id j', requested_by := requested_by j', billing_user := billing_user j'\<rparr>)"
proof -
  define set_run where "set_run = (rid \<noteq> None \<and> rid \<noteq> Some [] \<and> run_id j \<noteq> rid)"
  define set_req where "set_req = (req \<noteq> None \<and> req \<noteq> Some 0 \<and> requested_by j = None)"
  define set_bill where "set_bill = (bill \<noteq> None \<and> billing_user j \<noteq> bill)"
  let ?f = "\<lambda>k. k\<lparr>run_id := (if set_run then rid else run_id k),
    requested_by := (if set_req then req else requested_by k),
    billing_user := (if set_bill then bill else billing_user k)\<rparr>"
  from assms have jid: "jid \<noteq> []" and db': "db' = modify_job jid ?f db"
    by (auto simp: update_job_attribution_action_def Let_def set_run_def set_req_def set_bill_def split: if_splits)
  have found: "find_job db' jid = Some (?f j)"
    unfolding db' using assms(2) by (subst find_job_modify) simp_all
  have same: "modify_job jid (\<lambda>k. k\<lparr>run_id := run_id k, requested_by := requested_by k, billing_user := billing_user k\<rparr>) db' = db'"
    by (simp add: modify_job_def)
  have "update_job_attribution_action jid rid req bill db' = Inr (False, db')"
    using jid found same
    by (simp add: update_job_attribution_action_def Let_def) (auto simp: set_run_def set_req_def set_bill_def)
  moreover have "requested_by j \<noteq> None \<longrightarrow> requested_by (?f j) = requested_by j" by (simp add: set_req_def)
  ultimately show ?thesis using found by auto
qed

theorem attribution_is_idempotent_witness:
  "\<exists>c db'. update_job_attribution_action ''a'' (Some ''r'') (Some 7) None (demo_db [demo_job ''a'' ''pending'' 5]) = Inr (c, db') \<and>
    update_job_attribution_action ''a'' (Some ''r'') (Some 7) None db' = Inr (False, db')"
proof -
  let ?db = "demo_db [demo_job ''a'' ''pending'' 5]"
  have j: "find_job ?db ''a'' = Some (demo_job ''a'' ''pending'' 5)"
    by (simp add: find_job_def demo_db_def demo_job_def)
  obtain c db' where d: "update_job_attribution_action ''a'' (Some ''r'') (Some 7) None ?db = Inr (c, db')"
    using j by (simp add: update_job_attribution_action_def Let_def)
  from attribution_is_idempotent [OF d j] d show ?thesis by blast
qed

end
