(* ===== verification/JobLifecycle.thy ===== *)
theory JobLifecycle
  imports JobStore
begin

text \<open>
  \<open>podcast_processor/processing_status_manager.py\<close> and \<open>app/job_manager.py\<close>: one request to
  process an episode, from the checks on the post to a job that waits in the queue.

  The clients send actions to the writer and read the rows back; a writer error comes back as
  an unsuccessful result that the status manager does not look at, so a refused update is a
  no-op (\<open>try_update\<close>).  The web session is read-only: an attribute the manager assigns in
  memory is discarded when the session is expired.  What relies on the store is proved in the
  locale \<open>job_writer\<close> from the laws of the store and instantiated to the writer's actions.
\<close>

section \<open>The status manager\<close>

datatype manager_error = CreateFailed | BadProgress

definition sm_create_job ::
  "string \<Rightarrow> string \<Rightarrow> string option \<Rightarrow> int option \<Rightarrow> int option \<Rightarrow> instant \<Rightarrow> job_db \<Rightarrow> manager_error + job \<times> job_db" where
  "sm_create_job pguid jid rid req bill now db =
     (let data = \<lparr>job_id = jid, run_id = rid, post_guid = pguid, status = ''pending'', current_step = Some 0,
            step_name = None, total_steps = Some 4, progress = Some 0, started_at = None, completed_at = None,
            error_message = None, created_at = now, requested_by = req, billing_user = bill, stage_history = [],
            ad_windows_count = None, had_classification_parse_error = False, auto_retry_attempted = False\<rparr>;
          db' = (case create_job_action (Some data) now db of Inl _ \<Rightarrow> db | Inr (_, d) \<Rightarrow> d)
      in case find_job db' jid of None \<Rightarrow> Inl CreateFailed | Some j \<Rightarrow> Inr (j, db'))"

definition sm_update_job_status ::
  "job \<Rightarrow> string \<Rightarrow> int \<Rightarrow> string \<Rightarrow> real option \<Rightarrow> int option \<Rightarrow> instant \<Rightarrow> job_db \<Rightarrow> manager_error + job_db" where
  "sm_update_job_status j st step nm prog tot now db =
     (let n = (case tot of None \<Rightarrow> total_steps j | Some t \<Rightarrow> Some t) in
      case (case prog of Some p \<Rightarrow> Some p
            | None \<Rightarrow> (case n of None \<Rightarrow> None | Some t \<Rightarrow> if t = 0 then None else Some (of_int step / of_int t * 100))) of
        None \<Rightarrow> Inl BadProgress
      | Some p \<Rightarrow> Inr (try_update (job_id j, \<lparr>u_status = st, u_step = Some step, u_step_name = Some nm,
          u_progress = Some p, u_total_steps = n, u_error = None\<rparr>, now) db))"

definition sm_mark_cancelled :: "string \<Rightarrow> string option \<Rightarrow> instant \<Rightarrow> job_db \<Rightarrow> job_db" where
  "sm_mark_cancelled jid msg now db =
     (case mark_cancelled_action jid msg now db of Inl _ \<Rightarrow> db | Inr (_, db') \<Rightarrow> db')"

definition sm_cancel_existing_jobs :: "string \<Rightarrow> string \<Rightarrow> instant \<Rightarrow> job_db \<Rightarrow> job_db" where
  "sm_cancel_existing_jobs pguid current now db = snd (cancel_existing_jobs_action pguid current now db)"

section \<open>The manager of one job\<close>

record job_manager =
  m_post_guid :: string
  m_run_id :: "string option"
  m_requested_by :: "int option"
  m_billing_user :: "int option"
  m_job :: "string option"

text \<open>\<open>order_by(created_at.desc()).first()\<close>.\<close>

definition latest_job :: "string \<Rightarrow> job_db \<Rightarrow> job option" where
  "latest_job pguid db =
     (case sort_key (\<lambda>j. - created_at j) (filter (\<lambda>j. post_guid j = pguid) (jobs db)) of
        [] \<Rightarrow> None | j # _ \<Rightarrow> Some j)"

definition get_active_job :: "job_manager \<Rightarrow> job_db \<Rightarrow> job option" where
  "get_active_job m db =
     (case (case m_job m of Some i \<Rightarrow> find_job db i | None \<Rightarrow> latest_job (m_post_guid m) db) of
        Some j \<Rightarrow> if is_active j then Some j else None
      | None \<Rightarrow> None)"

definition ensure_job :: "job_manager \<Rightarrow> string \<Rightarrow> instant \<Rightarrow> job_db \<Rightarrow> manager_error + job \<times> job_db" where
  "ensure_job m new_id now db = (case get_active_job m db of
     Some j \<Rightarrow>
      (let rid = (if m_run_id m \<noteq> None \<and> m_run_id m \<noteq> Some [] \<and> run_id j \<noteq> m_run_id m then m_run_id m else None);
           req = (if m_requested_by m \<noteq> None \<and> m_requested_by m \<noteq> Some 0 \<and> requested_by j = None
             then m_requested_by m else None);
           bill = (if m_billing_user m \<noteq> None \<and> billing_user j \<noteq> m_billing_user m then m_billing_user m else None)
       in if rid = None \<and> req = None \<and> bill = None then Inr (j, db)
          else let db' = (case update_job_attribution_action (job_id j) rid req bill db of
                   Inl _ \<Rightarrow> db | Inr (_, d) \<Rightarrow> d)
               in Inr (case find_job db' (job_id j) of None \<Rightarrow> j | Some j' \<Rightarrow> j', db'))
   | None \<Rightarrow> sm_create_job (m_post_guid m) new_id (m_run_id m) (m_requested_by m) (m_billing_user m) now db)"

text \<open>Python's \<open>x or d\<close> on an optional number.\<close>

definition or_default :: "'a::zero option \<Rightarrow> 'a \<Rightarrow> 'a" where
  "or_default x d = (case x of None \<Rightarrow> d | Some v \<Rightarrow> if v = 0 then d else v)"

definition fail_job :: "job_manager \<Rightarrow> string \<Rightarrow> int \<Rightarrow> real \<Rightarrow> string \<Rightarrow> instant \<Rightarrow> job_db \<Rightarrow> manager_error + job \<times> job_db" where
  "fail_job m msg step prog new_id now db = (case ensure_job m new_id now db of
     Inl e \<Rightarrow> Inl e
   | Inr (j, db1) \<Rightarrow>
      (case sm_update_job_status j ''failed'' (or_default (Some step) (or_default (current_step j) 0)) msg
            (Some (or_default (Some prog) (or_default (JobStore.progress j) 0))) None now db1 of
         Inl e \<Rightarrow> Inl e | Inr db2 \<Rightarrow> Inr (j, db2)))"

definition complete_job :: "job_manager \<Rightarrow> string \<Rightarrow> string \<Rightarrow> instant \<Rightarrow> job_db \<Rightarrow> manager_error + job \<times> job_db" where
  "complete_job m msg new_id now db = (case ensure_job m new_id now db of
     Inl e \<Rightarrow> Inl e
   | Inr (j, db1) \<Rightarrow>
      (case sm_update_job_status j ''completed'' (or_default (total_steps j) 4) msg (Some 100) None now db1 of
         Inl e \<Rightarrow> Inl e | Inr db2 \<Rightarrow> Inr (j, db2)))"

definition skip_job ::
  "job_manager \<Rightarrow> string \<Rightarrow> int option \<Rightarrow> real option \<Rightarrow> string \<Rightarrow> instant \<Rightarrow> job_db \<Rightarrow> manager_error + job \<times> job_db" where
  "skip_job m msg step prog new_id now db = (case ensure_job m new_id now db of
     Inl e \<Rightarrow> Inl e
   | Inr (j, db1) \<Rightarrow>
      (case sm_update_job_status j ''skipped'' (case step of Some s \<Rightarrow> s | None \<Rightarrow> or_default (total_steps j) 4) msg
            (Some (case prog of Some p \<Rightarrow> p | None \<Rightarrow> 100)) None now db1 of
         Inl e \<Rightarrow> Inl e | Inr db2 \<Rightarrow> Inr (j, db2)))"

text \<open>\<open>_mark_job_skipped\<close>: the exception of a failed creation is caught and logged.\<close>

definition mark_job_skipped :: "job_manager \<Rightarrow> string \<Rightarrow> string \<Rightarrow> instant \<Rightarrow> job_db \<Rightarrow> job option \<times> job_db" where
  "mark_job_skipped m reason new_id now db = (case get_active_job m db of
     Some j \<Rightarrow>
      (case sm_update_job_status j ''skipped'' (or_default (total_steps j) (or_default (current_step j) 4)) reason
            (Some 100) None now db of
         Inl _ \<Rightarrow> (Some j, db) | Inr db' \<Rightarrow> (Some j, db'))
   | None \<Rightarrow>
      (case skip_job m reason None None new_id now db of
         Inl _ \<Rightarrow> (None, db) | Inr (j, db') \<Rightarrow> (Some j, db')))"

datatype start_status = StartError string | StartSkipped | StartRunning | StartQueued

text \<open>
  The early results of \<open>_load_and_validate_post\<close>.  \<open>existing\<close> is the search for a processed
  file on disk, \<open>store_path\<close> the write of its path to the post, which may fail.
\<close>

definition load_and_validate_post ::
  "(post_row \<Rightarrow> string option) \<Rightarrow> (string \<Rightarrow> bool) \<Rightarrow> job_manager \<Rightarrow> string \<Rightarrow> instant \<Rightarrow> job_db \<Rightarrow>
   manager_error + (start_status \<times> job option) option \<times> job_db" where
  "load_and_validate_post existing store_path m new_id now db =
     (case find (\<lambda>p. guid p = m_post_guid m) (posts db) of
        None \<Rightarrow> (let (j, db') = mark_job_skipped m ''Post no longer exists'' new_id now db in
          Inr (Some (StartError ''NOT_FOUND'', j), db'))
      | Some p \<Rightarrow>
        if \<not> whitelisted p then
          (let (j, db') = mark_job_skipped m ''Post not whitelisted'' new_id now db in
           Inr (Some (StartError ''NOT_WHITELISTED'', j), db'))
        else if download_url p = None \<or> download_url p = Some [] then
          (case fail_job m ''Download URL missing'' 0 0 new_id now db of
             Inl e \<Rightarrow> Inl e
           | Inr (j, db') \<Rightarrow> Inr (Some (StartError ''MISSING_DOWNLOAD_URL'', Some j), db'))
        else (case existing p of
            None \<Rightarrow> Inr (None, db)
          | Some path \<Rightarrow>
             (let db1 = (if processed_path p \<noteq> Some path \<and> store_path path
                   then db\<lparr>posts := map (\<lambda>q. if post_id q = post_id p then q\<lparr>processed_path := Some path\<rparr> else q) (posts db)\<rparr>
                   else db)
              in case skip_job m ''Post already processed'' None None new_id now db1 of
                   Inl _ \<Rightarrow> Inr (Some (StartSkipped, None), db1)
                 | Inr (j, db2) \<Rightarrow> Inr (Some (StartSkipped, Some j), db2))))"

definition start_processing ::
  "(post_row \<Rightarrow> string option) \<Rightarrow> (string \<Rightarrow> bool) \<Rightarrow> job_manager \<Rightarrow> string \<Rightarrow> string \<Rightarrow> instant \<Rightarrow> job_db \<Rightarrow>
   manager_error + start_status \<times> job option \<times> job_db" where
  "start_processing existing store_path m priority new_id now db =
     (case load_and_validate_post existing store_path m new_id now db of
        Inl e \<Rightarrow> Inl e
      | Inr (Some (st, j), db') \<Rightarrow> Inr (st, j, db')
      | Inr (None, db1) \<Rightarrow>
         (case ensure_job m new_id now db1 of
            Inl e \<Rightarrow> Inl e
          | Inr (j, db2) \<Rightarrow>
             if status j = ''running'' then Inr (StartRunning, Some j, db2)
             else (case sm_update_job_status j ''pending'' 0
                     (''Queued for processing (priority='' @ priority @ '')'') (Some 0) None now db2 of
                 Inl e \<Rightarrow> Inl e
               | Inr db3 \<Rightarrow> Inr (StartQueued, Some j, db3))))"

section \<open>The store as its clients see it\<close>

locale job_writer =
  fixes look :: "'d \<Rightarrow> string \<Rightarrow> job option"
    and upd :: "late_update \<Rightarrow> 'd \<Rightarrow> 'd"
  assumes upd_same: "look d i = Some j \<Longrightarrow> look (upd (i, u, now) d) i =
      Some (if status j = ''cancelled'' \<and> u_status u \<noteq> ''cancelled'' then j else apply_status u now j)"
    and upd_missing: "look d i = None \<Longrightarrow> look (upd (i, u, now) d) i = None"
    and upd_other: "i \<noteq> k \<Longrightarrow> look (upd (i, u, now) d) k = look d k"
begin

text \<open>A terminal update settles the job: it ends in that state, or was cancelled before.\<close>

lemma terminal_update_settles:
  assumes "look d i = Some j" and "terminal_status (u_status u)"
  shows "\<exists>j'. look (upd (i, u, now) d) i = Some j' \<and> terminal_status (status j') \<and>
    (status j' = u_status u \<or> j' = j \<and> status j = ''cancelled'')"
  using upd_same [OF assms(1), of u now] assms(2) by (auto simp: apply_status_def terminal_status_def)

text \<open>An update never makes another job running, and makes its own job running only if it says so.\<close>

lemma upd_running:
  assumes "look (upd (i, u, now) d) k = Some j'" and "status j' = ''running''"
  shows "k = i \<and> u_status u = ''running'' \<or> (\<exists>j. look d k = Some j \<and> status j = ''running'')"
proof (cases "k = i")
  case True
  show ?thesis
  proof (cases "look d i")
    case None
    with upd_missing [OF None] assms(1) True show ?thesis by simp
  next
    case (Some j)
    with upd_same [OF Some, of u now] assms True show ?thesis
      by (auto simp: apply_status_def split: if_splits)
  qed
next
  case False
  with upd_other [of i k] assms show ?thesis by auto
qed

end

interpretation writer: job_writer find_job try_update
  by unfold_locales (simp_all add: find_try_update)

section \<open>The newest job of a post\<close>

lemma sort_key_map_same:
  assumes "\<And>x. k (f x) = k x"
  shows "sort_key k (map f xs) = map f (sort_key k xs)"
proof -
  have "insort_key k (f x) (map f ys) = map f (insort_key k x ys)" for x ys
    by (induction ys) (simp_all add: assms)
  then show ?thesis by (induction xs) (simp_all add: assms)
qed

lemma sort_key_snoc_min:
  assumes "\<forall>y\<in>set xs. k x < k y"
  shows "sort_key k (xs @ [x]) = x # sort_key k xs"
  using assms
proof (induction xs)
  case (Cons y ys)
  then have "\<not> k y \<le> k x" by auto
  with Cons show ?case by simp
qed simp

lemma latest_job_map:
  assumes "jobs db' = map f (jobs db)" and "\<And>j. post_guid (f j) = post_guid j" and "\<And>j. created_at (f j) = created_at j"
  shows "latest_job g db' = map_option f (latest_job g db)"
proof -
  have "sort_key (\<lambda>j. - created_at j) (filter (\<lambda>j. post_guid j = g) (map f (jobs db))) =
      map f (sort_key (\<lambda>j. - created_at j) (filter (\<lambda>j. post_guid j = g) (jobs db)))"
    by (simp add: filter_map comp_def assms(2) sort_key_map_same assms(3))
  then show ?thesis by (simp add: latest_job_def assms(1) split: list.split)
qed

lemma latest_job_Some:
  assumes "latest_job g db = Some j"
  shows "j \<in> set (jobs db)" and "post_guid j = g"
proof -
  from assms have "\<exists>js. sort_key (\<lambda>j. - created_at j) (filter (\<lambda>j. post_guid j = g) (jobs db)) = j # js"
    by (auto simp: latest_job_def split: list.splits)
  then obtain js where "sort_key (\<lambda>j. - created_at j) (filter (\<lambda>j. post_guid j = g) (jobs db)) = j # js" by blast
  from sort_key_hd_min [OF this] show "j \<in> set (jobs db)" "post_guid j = g" by auto
qed

text \<open>Every change a request makes to the rows keeps their identity.\<close>

definition row_map :: "(job \<Rightarrow> job) \<Rightarrow> bool" where
  "row_map f \<longleftrightarrow> (\<forall>j. job_id (f j) = job_id j \<and> post_guid (f j) = post_guid j \<and> created_at (f j) = created_at j)"

lemma try_update_row_map:
  obtains f where "row_map f" "jobs (try_update (i, u, now) db) = map f (jobs db)"
    "posts (try_update (i, u, now) db) = posts db"
proof (cases "try_update (i, u, now) db = db")
  case True
  then show ?thesis by (intro that [of "\<lambda>j. j"]) (simp_all add: row_map_def)
next
  case False
  let ?f = "\<lambda>j. if job_id j = i then apply_status u now j else j"
  have "row_map ?f" by (simp add: row_map_def apply_status_def)
  moreover have "jobs (try_update (i, u, now) db) = map ?f (jobs db)" "posts (try_update (i, u, now) db) = posts db"
    using False by (auto simp: try_update_def update_job_status_action_def split: option.splits if_splits)
  ultimately show ?thesis by (rule that)
qed

lemma attribution_row_map:
  assumes "update_job_attribution_action jid rid req bill db = Inr (c, db')"
  obtains f where "row_map f" "jobs db' = map f (jobs db)" "posts db' = posts db" "\<And>j. status (f j) = status j"
proof -
  from assms obtain j where j: "find_job db jid = Some j"
    by (cases "find_job db jid") (auto simp: update_job_attribution_action_def split: if_splits)
  let ?f = "\<lambda>k. k\<lparr>run_id := (if rid \<noteq> None \<and> rid \<noteq> Some [] \<and> run_id j \<noteq> rid then rid else run_id k),
    requested_by := (if req \<noteq> None \<and> req \<noteq> Some 0 \<and> requested_by j = None then req else requested_by k),
    billing_user := (if bill \<noteq> None \<and> billing_user j \<noteq> bill then bill else billing_user k)\<rparr>"
  have "db' = modify_job jid ?f db"
    using assms unfolding update_job_attribution_action_def Let_def j option.case
    by (auto simp del: not_None_eq split: if_splits)
  then show ?thesis
    by (intro that [of "\<lambda>j. if job_id j = jid then ?f j else j"]) (simp_all add: row_map_def)
qed

lemma ids_distinct_row_map: "jobs db' = map f (jobs db) \<Longrightarrow> row_map f \<Longrightarrow> ids_distinct db \<Longrightarrow> ids_distinct db'"
  by (simp add: ids_distinct_def row_map_def comp_def)

text \<open>What \<open>ensure_job\<close> of a fresh manager returns when the post's newest job is active.\<close>

lemma ensure_active:
  assumes "m_job m = None" and "latest_job (m_post_guid m) db = Some j" and "is_active j" and "ids_distinct db"
  obtains j' db' f where "ensure_job m new_id now db = Inr (j', db')" "job_id j' = job_id j" "status j' = status j"
    "row_map f" "jobs db' = map f (jobs db)" "posts db' = posts db" "latest_job (m_post_guid m) db' = Some j'"
    "ids_distinct db'"
proof -
  have act: "get_active_job m db = Some j" using assms by (simp add: get_active_job_def)
  define rid req bill where "rid = (if m_run_id m \<noteq> None \<and> m_run_id m \<noteq> Some [] \<and> run_id j \<noteq> m_run_id m then m_run_id m else None)"
    and "req = (if m_requested_by m \<noteq> None \<and> m_requested_by m \<noteq> Some 0 \<and> requested_by j = None then m_requested_by m else None)"
    and "bill = (if m_billing_user m \<noteq> None \<and> billing_user j \<noteq> m_billing_user m then m_billing_user m else None)"
  note attr_defs = rid_def [symmetric] req_def [symmetric] bill_def [symmetric]
  have ens: "ensure_job m new_id now db = (if rid = None \<and> req = None \<and> bill = None then Inr (j, db)
      else let db' = (case update_job_attribution_action (job_id j) rid req bill db of Inl _ \<Rightarrow> db | Inr (_, d) \<Rightarrow> d)
        in Inr (case find_job db' (job_id j) of None \<Rightarrow> j | Some j' \<Rightarrow> j', db'))"
    unfolding ensure_job_def act option.case Let_def attr_defs by simp
  show ?thesis
  proof (cases "(rid = None \<and> req = None \<and> bill = None) \<or> (\<exists>e. update_job_attribution_action (job_id j) rid req bill db = Inl e)")
    case True
    have "find_job db (job_id j) = Some j" by (rule ids_distinct_find [OF assms(4) latest_job_Some(1) [OF assms(2)]])
    with True ens have "ensure_job m new_id now db = Inr (j, db)" by (auto simp: Let_def)
    then show ?thesis using assms by (intro that [of j db "\<lambda>j. j"]) (simp_all add: row_map_def)
  next
    case False
    then obtain c db' where up: "update_job_attribution_action (job_id j) rid req bill db = Inr (c, db')"
      by (metis old.sum.exhaust surj_pair)
    from attribution_row_map [OF up] obtain f where f: "row_map f" "jobs db' = map f (jobs db)" "posts db' = posts db"
      "\<And>j. status (f j) = status j" by blast
    have dist: "ids_distinct db'" by (rule ids_distinct_row_map [OF f(2,1) assms(4)])
    have lat: "latest_job (m_post_guid m) db' = Some (f j)"
      using latest_job_map [OF f(2)] f(1) assms(2) by (simp add: row_map_def)
    have "find_job db' (job_id (f j)) = Some (f j)" by (rule ids_distinct_find [OF dist latest_job_Some(1) [OF lat]])
    then have "ensure_job m new_id now db = Inr (f j, db')"
      using False up f(1) unfolding ens by (auto simp: Let_def row_map_def)
    then show ?thesis using f lat dist by (intro that [of "f j" db' f]) (simp_all add: row_map_def)
  qed
qed

lemma create_job_shape:
  assumes "sm_create_job g jid rid req bill now db = Inr (j, db')" and "find_job db jid = None"
  shows "jobs db' = jobs db @ [j]" and "posts db' = posts db" and "job_id j = jid" and "status j = ''pending''"
    and "post_guid j = g" and "created_at j = now"
proof -
  define d where "d = \<lparr>job_id = jid, run_id = rid, post_guid = g, status = ''pending'', current_step = Some 0,
    step_name = None, total_steps = Some 4, progress = Some 0, started_at = None, completed_at = None,
    error_message = None, created_at = now, requested_by = req, billing_user = bill,
    stage_history = initial_stage_history (Some 0) (Some ''Queued'') now,
    ad_windows_count = None, had_classification_parse_error = False, auto_retry_attempted = False\<rparr>"
  have created: "(case create_job_action (Some \<lparr>job_id = jid, run_id = rid, post_guid = g, status = ''pending'', current_step = Some 0,
      step_name = None, total_steps = Some 4, progress = Some 0, started_at = None, completed_at = None,
      error_message = None, created_at = now, requested_by = req, billing_user = bill, stage_history = [],
      ad_windows_count = None, had_classification_parse_error = False, auto_retry_attempted = False\<rparr>) now db of
      Inl _ \<Rightarrow> db | Inr (_, d) \<Rightarrow> d) = recount_if_attached d now (db\<lparr>jobs := jobs db @ [d]\<rparr>)"
    by (simp add: create_job_action_def Let_def assms(2) d_def)
  have "find_job (db\<lparr>jobs := jobs db @ [d]\<rparr>) jid = Some d"
    using assms(2) unfolding find_job_def by (simp add: find_append d_def)
  then have "j = d" "db' = recount_if_attached d now (db\<lparr>jobs := jobs db @ [d]\<rparr>)"
    using assms(1) unfolding sm_create_job_def Let_def created by auto
  then show "jobs db' = jobs db @ [j]" "posts db' = posts db" "job_id j = jid" "status j = ''pending''"
    "post_guid j = g" "created_at j = now" by (simp_all add: d_def)
qed

section \<open>A request\<close>

definition ready_post :: "(post_row \<Rightarrow> string option) \<Rightarrow> string \<Rightarrow> job_db \<Rightarrow> bool" where
  "ready_post existing g db \<longleftrightarrow> (\<exists>p. find (\<lambda>p. guid p = g) (posts db) = Some p \<and> whitelisted p \<and>
     download_url p \<noteq> None \<and> download_url p \<noteq> Some [] \<and> existing p = None)"

lemma load_and_validate_ready:
  "ready_post existing (m_post_guid m) db \<Longrightarrow> load_and_validate_post existing sp m new_id now db = Inr (None, db)"
  by (auto simp: ready_post_def load_and_validate_post_def)

lemma load_and_validate_None:
  "load_and_validate_post existing sp m new_id now db = Inr (None, db1) \<Longrightarrow>
    db1 = db \<and> ready_post existing (m_post_guid m) db"
  unfolding load_and_validate_post_def ready_post_def
  by (auto simp: Let_def split: option.splits if_splits sum.splits prod.splits)

lemma load_and_validate_early:
  "load_and_validate_post existing sp m new_id now db = Inr (Some (st, j), db1) \<Longrightarrow> st \<noteq> StartQueued \<and> st \<noteq> StartRunning"
  unfolding load_and_validate_post_def
  by (auto simp: Let_def split: option.splits if_splits sum.splits prod.splits)

text \<open>The job \<open>ensure_job\<close> of a fresh manager returns: active, and the newest of its post.\<close>

lemma ensure_job_newest:
  assumes "ensure_job m new_id now db = Inr (j, db')" and "m_job m = None" and "ids_distinct db"
    and "find_job db new_id = None" and "\<forall>k\<in>set (jobs db). created_at k < now"
  shows "latest_job (m_post_guid m) db' = Some j \<and> is_active j \<and> ids_distinct db' \<and> posts db' = posts db"
proof (cases "\<exists>k. latest_job (m_post_guid m) db = Some k \<and> is_active k")
  case True
  then obtain k where k: "latest_job (m_post_guid m) db = Some k" "is_active k" by blast
  from ensure_active [OF assms(2) k assms(3), of new_id now] obtain j' d f
    where "ensure_job m new_id now db = Inr (j', d)" "status j' = status k" "posts d = posts db"
      "latest_job (m_post_guid m) d = Some j'" "ids_distinct d" by metis
  with assms(1) k(2) show ?thesis by (simp add: is_active_def)
next
  case False
  then have "get_active_job m db = None"
    using assms(2) by (auto simp: get_active_job_def split: option.split)
  with assms(1) have c: "sm_create_job (m_post_guid m) new_id (m_run_id m) (m_requested_by m) (m_billing_user m) now db = Inr (j, db')"
    by (simp add: ensure_job_def)
  note shape = create_job_shape [OF c assms(4)]
  have "sort_key (\<lambda>k. - created_at k) (filter (\<lambda>k. post_guid k = m_post_guid m) (jobs db) @ [j]) =
      j # sort_key (\<lambda>k. - created_at k) (filter (\<lambda>k. post_guid k = m_post_guid m) (jobs db))"
    using assms(5) shape(6) by (intro sort_key_snoc_min) auto
  then have "latest_job (m_post_guid m) db' = Some j"
    by (simp add: latest_job_def shape(1,5))
  moreover have "ids_distinct db'"
    using assms(3,4) shape(1,3) by (auto simp: ids_distinct_def find_job_None)
  ultimately show ?thesis using shape by (simp add: is_active_def)
qed

lemma queued_request:
  assumes "start_processing existing sp m prio new_id now db = Inr (StartQueued, Some j, db')"
    and "m_job m = None" and "ids_distinct db" and "find_job db new_id = None"
    and "\<forall>k\<in>set (jobs db). created_at k < now"
  shows "ready_post existing (m_post_guid m) db' \<and> ids_distinct db' \<and>
    (\<exists>k. latest_job (m_post_guid m) db' = Some k \<and> status k = ''pending'' \<and> job_id k = job_id j)"
proof -
  from assms(1) load_and_validate_early obtain db1 where
    "load_and_validate_post existing sp m new_id now db = Inr (None, db1)"
    unfolding start_processing_def by (auto split: sum.splits option.splits prod.splits)
  from load_and_validate_None [OF this] have db1: "load_and_validate_post existing sp m new_id now db = Inr (None, db)"
    and ready: "ready_post existing (m_post_guid m) db" using load_and_validate_ready by blast+
  then obtain db2 where ens: "ensure_job m new_id now db = Inr (j, db2)" "status j \<noteq> ''running''"
    and up: "sm_update_job_status j ''pending'' 0 (''Queued for processing (priority='' @ prio @ '')'') (Some 0) None now db2 = Inr db'"
    using assms(1) unfolding start_processing_def db1 by (auto split: sum.splits if_splits)
  from ensure_job_newest [OF ens(1) assms(2-5)] have j: "latest_job (m_post_guid m) db2 = Some j" "is_active j"
    "ids_distinct db2" "posts db2 = posts db" by auto
  from up obtain u where u: "db' = try_update (job_id j, u, now) db2" "u_status u = ''pending''"
    by (auto simp: sm_update_job_status_def)
  obtain f where f: "row_map f" "jobs db' = map f (jobs db2)" "posts db' = posts db2"
    using try_update_row_map unfolding u(1) by blast
  have lat: "latest_job (m_post_guid m) db' = Some (f j)"
    using latest_job_map [OF f(2)] f(1) j(1) by (simp add: row_map_def)
  have dist: "ids_distinct db'" by (rule ids_distinct_row_map [OF f(2,1) j(3)])
  have "find_job db2 (job_id j) = Some j" by (rule ids_distinct_find [OF j(3) latest_job_Some(1) [OF j(1)]])
  then have "find_job db' (job_id j) = Some (apply_status u now j)"
    using j(2) unfolding u(1) find_try_update by (auto simp: is_active_def)
  moreover have "find_job db' (job_id (f j)) = Some (f j)"
    by (rule ids_distinct_find [OF dist latest_job_Some(1) [OF lat]])
  ultimately have "f j = apply_status u now j" using f(1) by (simp add: row_map_def)
  with lat dist f(3) j(4) ready u(2) show ?thesis
    by (simp add: apply_status_def ready_post_def)
qed

text \<open>A queued request is a promise: the job it names is in the store, is pending and belongs
  to the episode, and the episode is one that may be processed: whitelisted, with a download
  URL and without a processed file.\<close>

theorem queued_request_leaves_a_pending_job:
  assumes "start_processing existing sp m prio new_id now db = Inr (StartQueued, Some j, db')"
    and "m_job m = None" and "ids_distinct db" and "find_job db new_id = None"
    and "\<forall>k\<in>set (jobs db). created_at k < now"
  shows "(\<exists>k. find_job db' (job_id j) = Some k \<and> status k = ''pending'' \<and> post_guid k = m_post_guid m) \<and>
    ready_post existing (m_post_guid m) db'"
proof -
  from queued_request [OF assms] obtain k where k: "latest_job (m_post_guid m) db' = Some k"
    "status k = ''pending''" "job_id k = job_id j" "ready_post existing (m_post_guid m) db'" "ids_distinct db'" by blast
  note row = latest_job_Some [OF k(1)]
  from ids_distinct_find [OF k(5) row(1)] have "find_job db' (job_id j) = Some k" by (simp add: k(3))
  with row(2) k(2,4) show ?thesis by blast
qed

text \<open>Requests are idempotent: repeating a request for an episode that is queued, by whichever
  user and with whichever priority, is answered with the same job, and no row is added.\<close>

theorem repeated_request_creates_no_second_job:
  assumes "start_processing existing sp m prio new_id now db = Inr (StartQueued, Some j, db')"
    and "m_job m = None" and "ids_distinct db" and "find_job db new_id = None"
    and "\<forall>k\<in>set (jobs db). created_at k < now"
    and "m_job m' = None" and "m_post_guid m' = m_post_guid m"
  shows "\<exists>j2 db2. start_processing existing sp m' prio' new_id' now' db' = Inr (StartQueued, Some j2, db2) \<and>
    job_id j2 = job_id j \<and> map job_id (jobs db2) = map job_id (jobs db')"
proof -
  from queued_request [OF assms(1-5)] obtain k where k: "latest_job (m_post_guid m') db' = Some k"
    "status k = ''pending''" "job_id k = job_id j" "ready_post existing (m_post_guid m') db'" "ids_distinct db'"
    unfolding assms(7) by blast
  have act: "is_active k" using k(2) by (simp add: is_active_def)
  obtain j2 db1 f where e: "ensure_job m' new_id' now' db' = Inr (j2, db1)" "job_id j2 = job_id k"
    "status j2 = status k" "row_map f" "jobs db1 = map f (jobs db')"
    using ensure_active [OF assms(6) k(1) act k(5), of new_id' now'] by metis
  obtain u where u: "sm_update_job_status j2 ''pending'' 0 (''Queued for processing (priority='' @ prio' @ '')'') (Some 0) None now' db1 =
      Inr (try_update (job_id j2, u, now') db1)"
    by (simp add: sm_update_job_status_def)
  obtain f' where f': "row_map f'" "jobs (try_update (job_id j2, u, now') db1) = map f' (jobs db1)"
    using try_update_row_map by blast
  have "start_processing existing sp m' prio' new_id' now' db' =
      Inr (StartQueued, Some j2, try_update (job_id j2, u, now') db1)"
    unfolding start_processing_def load_and_validate_ready [OF k(4)] using e(1,3) k(2) u by simp
  moreover have "map job_id (jobs (try_update (job_id j2, u, now') db1)) = map job_id (jobs db')"
    using e(4,5) f' by (simp add: row_map_def comp_def)
  ultimately show ?thesis using e(2) k(3) by auto
qed

definition demo_post :: post_row where
  "demo_post = \<lparr>post_id = 1, guid = ''g'', whitelisted = True, download_url = Some ''u'', processed_path = None\<rparr>"

definition demo_manager :: "int \<Rightarrow> job_manager" where
  "demo_manager user = \<lparr>m_post_guid = ''g'', m_run_id = None, m_requested_by = Some user, m_billing_user = None, m_job = None\<rparr>"

definition demo_store :: job_db where
  "demo_store = \<lparr>jobs = [], run = None, llm_calls = [], posts = [demo_post]\<rparr>"

lemmas demo_defs = demo_post_def demo_manager_def demo_store_def

lemma demo_start:
  "\<exists>j db'. start_processing (\<lambda>_. None) (\<lambda>_. True) (demo_manager 3) ''high'' ''id1'' 9 demo_store = Inr (StartQueued, Some j, db')"
  by (simp add: start_processing_def load_and_validate_post_def demo_defs ensure_job_def get_active_job_def
      latest_job_def sm_create_job_def create_job_action_def find_job_def recount_if_attached_def
      sm_update_job_status_def)

lemma demo_store_fresh:
  "m_job (demo_manager u) = None" "ids_distinct demo_store" "find_job demo_store i = None"
  "\<forall>k\<in>set (jobs demo_store). created_at k < t"
  by (simp_all add: demo_defs ids_distinct_def find_job_def)

theorem queued_request_leaves_a_pending_job_witness:
  "\<exists>j db'. start_processing (\<lambda>_. None) (\<lambda>_. True) (demo_manager 3) ''high'' ''id1'' 9 demo_store = Inr (StartQueued, Some j, db') \<and>
    (\<exists>k. find_job db' (job_id j) = Some k \<and> status k = ''pending'')"
proof -
  obtain j db' where s: "start_processing (\<lambda>_. None) (\<lambda>_. True) (demo_manager 3) ''high'' ''id1'' 9 demo_store = Inr (StartQueued, Some j, db')"
    using demo_start by blast
  from queued_request_leaves_a_pending_job [OF s demo_store_fresh] s show ?thesis by blast
qed

theorem repeated_request_creates_no_second_job_witness:
  "\<exists>j db' j2 db2. start_processing (\<lambda>_. None) (\<lambda>_. True) (demo_manager 3) ''high'' ''id1'' 9 demo_store = Inr (StartQueued, Some j, db') \<and>
    start_processing (\<lambda>_. None) (\<lambda>_. True) (demo_manager 4) ''low'' ''id2'' 12 db' = Inr (StartQueued, Some j2, db2) \<and>
    map job_id (jobs db2) = map job_id (jobs db')"
proof -
  obtain j db' where s: "start_processing (\<lambda>_. None) (\<lambda>_. True) (demo_manager 3) ''high'' ''id1'' 9 demo_store = Inr (StartQueued, Some j, db')"
    using demo_start by blast
  have m: "m_job (demo_manager 4) = None" "m_post_guid (demo_manager 4) = m_post_guid (demo_manager 3)"
    by (simp_all add: demo_manager_def)
  from repeated_request_creates_no_second_job [OF s demo_store_fresh m, of "''low''" "''id2''" 12] s show ?thesis by blast
qed

text \<open>Finishing a job settles it: after \<open>complete\<close>, \<open>fail\<close> or \<open>skip\<close> of a job that is in the
  queue the row is in the state that was asked for, unless the job had been cancelled before,
  in which case its row is untouched.\<close>

theorem finishing_settles_the_job:
  assumes "find_job db (job_id j) = Some k" and "terminal_status st" and "prog \<noteq> None"
    and "sm_update_job_status j st step nm prog tot now db = Inr db'"
  shows "\<exists>k'. find_job db' (job_id j) = Some k' \<and> terminal_status (status k') \<and>
    (status k' = st \<or> k' = k \<and> status k = ''cancelled'') \<and>
    (\<forall>i. i \<noteq> job_id j \<longrightarrow> find_job db' i = find_job db i)"
proof -
  from assms(3,4) obtain u where u: "db' = try_update (job_id j, u, now) db" "u_status u = st"
    by (auto simp: sm_update_job_status_def)
  from writer.terminal_update_settles [OF assms(1), of u now] u assms(2) writer.upd_other [of "job_id j" _ u now db]
  show ?thesis by metis
qed

theorem finishing_settles_the_job_witness:
  "\<exists>k'. find_job (try_update (''a'', \<lparr>u_status = ''failed'', u_step = Some 2, u_step_name = Some ''x'',
      u_progress = Some 50, u_total_steps = Some 4, u_error = None\<rparr>, 9) (demo_db [demo_job ''a'' ''running'' 5])) ''a'' = Some k' \<and>
    terminal_status (status k')"
proof -
  have "sm_update_job_status (demo_job ''a'' ''running'' 5) ''failed'' 2 ''x'' (Some 50) None 9 (demo_db [demo_job ''a'' ''running'' 5]) =
    Inr (try_update (''a'', \<lparr>u_status = ''failed'', u_step = Some 2, u_step_name = Some ''x'',
      u_progress = Some 50, u_total_steps = Some 4, u_error = None\<rparr>, 9) (demo_db [demo_job ''a'' ''running'' 5]))"
    by (simp add: sm_update_job_status_def demo_job_def)
  from finishing_settles_the_job [OF _ _ _ this, of "demo_job ''a'' ''running'' 5"] show ?thesis
    by (auto simp: find_job_def demo_db_def demo_job_def terminal_status_def)
qed

end
