(* ===== verification/JobsSystem.thy ===== *)
theory JobsSystem
  imports JobLifecycle
begin

text \<open>
  \<open>app/jobs_manager.py\<close> and \<open>app/processing_worker.py\<close>: the requests that change the queue,
  the single worker thread that takes jobs from it, and the child process that runs one.

  The system is a step relation.  A step is one action of the writer, which runs actions one
  at a time, or one move of the worker thread; the requests of the web process interleave
  with them freely, so a request that reads a row and later writes it may see the row changed
  in between.  What the episode processor does to the database is an argument.
\<close>

section \<open>Requests\<close>

datatype cancel_result = CancelNotFound | AlreadyFinished string | CancelDone

definition cancel_job :: "string \<Rightarrow> instant \<Rightarrow> job_db \<Rightarrow> cancel_result \<times> job_db" where
  "cancel_job jid now db = (case find_job db jid of
     None \<Rightarrow> (CancelNotFound, db)
   | Some j \<Rightarrow>
       if terminal_status (status j) then (AlreadyFinished (status j), db)
       else (CancelDone, sm_mark_cancelled jid (Some ''Cancelled by user request'') now db))"

definition cancel_all :: "job list \<Rightarrow> instant \<Rightarrow> job_db \<Rightarrow> job_db" where
  "cancel_all js now db = fold (\<lambda>j. sm_mark_cancelled (job_id j) (Some ''Cancelled by user request'') now) js db"

definition cancel_post_jobs :: "string \<Rightarrow> instant \<Rightarrow> job_db \<Rightarrow> string list \<times> job_db" where
  "cancel_post_jobs pguid now db =
     (let active_jobs = filter (\<lambda>j. post_guid j = pguid \<and> is_active j) (jobs db) in
      (map job_id active_jobs, cancel_all active_jobs now db))"

definition cancel_queued_jobs :: "instant \<Rightarrow> job_db \<Rightarrow> nat \<times> job_db" where
  "cancel_queued_jobs now db =
     (let queued_jobs = sort_key created_at (filter (\<lambda>j. status j = ''pending'') (jobs db)) in
      (length queued_jobs, cancel_all queued_jobs now db))"

text \<open>\<open>job.current_step\<close> of a null step, and a progress that cannot be computed, raise inside the
  loop's \<open>try\<close>; the job is left as it is.\<close>

definition cleanup_stuck_pending_jobs :: "int \<Rightarrow> string \<Rightarrow> instant \<Rightarrow> job_db \<Rightarrow> nat \<times> job_db" where
  "cleanup_stuck_pending_jobs threshold msg now db =
     (let stuck_jobs = filter (\<lambda>j. status j = ''pending'' \<and> created_at j < now - threshold) (jobs db) in
      (length stuck_jobs, fold (\<lambda>j d. case current_step j of
         None \<Rightarrow> d
       | Some s \<Rightarrow> (case sm_update_job_status j ''failed'' s msg None None now d of Inl _ \<Rightarrow> d | Inr d' \<Rightarrow> d'))
         stuck_jobs db))"

section \<open>The worker's child\<close>

definition mark_failed :: "job \<Rightarrow> string \<Rightarrow> instant \<Rightarrow> job_db \<Rightarrow> job_db" where
  "mark_failed j msg now db =
     (case sm_update_job_status j ''failed'' (or_default (current_step j) 0) msg
        (Some (or_default (JobStore.progress j) 0)) None now db of Inl _ \<Rightarrow> db | Inr db' \<Rightarrow> db')"

text \<open>\<open>process\<close> is the episode processor: whether it returned normally, and the database after it.\<close>

definition run_processing_job ::
  "(job_db \<Rightarrow> bool \<times> job_db) \<Rightarrow> string \<Rightarrow> string \<Rightarrow> instant \<Rightarrow> job_db \<Rightarrow> int \<times> job_db" where
  "run_processing_job process jid pguid now db = (case find_job db jid of
     None \<Rightarrow> (1, db)
   | Some j \<Rightarrow>
      (case find (\<lambda>p. guid p = pguid) (posts db) of
         None \<Rightarrow> (1, mark_failed j ''Post not found'' now db)
       | Some p \<Rightarrow>
          (case process db of
             (True, db1) \<Rightarrow> (0, db1)
           | (False, db1) \<Rightarrow>
              (case find_job db1 jid of
                 None \<Rightarrow> (0, db1)
               | Some k \<Rightarrow> if terminal_status (status k) then (0, db1)
                           else (1, mark_failed k ''Job execution failed'' now db1)))))"

definition fail_job_if_nonterminal :: "string \<Rightarrow> string \<Rightarrow> instant \<Rightarrow> job_db \<Rightarrow> job_db" where
  "fail_job_if_nonterminal jid msg now db = (case find_job db jid of
     None \<Rightarrow> db
   | Some j \<Rightarrow> if terminal_status (status j) then db else mark_failed j msg now db)"

text \<open>What the supervisor does when the child is gone: the exit code, or None when launching or
  waiting raised.\<close>

definition process_job_end :: "string \<Rightarrow> int option \<Rightarrow> instant \<Rightarrow> job_db \<Rightarrow> job_db" where
  "process_job_end jid exit_code now db = (case exit_code of
     None \<Rightarrow> fail_job_if_nonterminal jid ''Job execution failed'' now db
   | Some c \<Rightarrow> if c \<noteq> 0 then fail_job_if_nonterminal jid ''Processing worker exited'' now db else db)"

section \<open>The system\<close>

datatype worker = Idle | Supervising string

record jobs_system =
  s_db :: job_db
  s_worker :: worker

text \<open>One writer action sent by a client that does not run the job.\<close>

inductive client_action :: "instant \<Rightarrow> job_db \<Rightarrow> job_db \<Rightarrow> bool" where
  client_create: "create_job_action (Some j) now db = Inr (i, db') \<Longrightarrow> status j = ''pending'' \<Longrightarrow> client_action now db db'"
| client_attribution: "update_job_attribution_action jid rid req bill db = Inr (c, db') \<Longrightarrow> client_action now db db'"
| client_status: "u_status u \<noteq> ''running'' \<Longrightarrow> client_action now db (try_update (jid, u, now) db)"
| client_cancel: "mark_cancelled_action jid reason now db = Inr (s, db') \<Longrightarrow> client_action now db db'"
| client_replace: "cancel_existing_jobs_action pguid current now db = (n, db') \<Longrightarrow> client_action now db db'"
| client_cleanup: "cleanup_stale_jobs_action age now db = (n, db') \<Longrightarrow> client_action now db db'"
| client_clear: "clear_active_jobs_action now db = (n, db') \<Longrightarrow> client_action now db db'"
| client_clear_all: "clear_all_jobs_action db = (n, db') \<Longrightarrow> client_action now db db'"
| client_reassign: "reassign_pending_jobs_action rid now db = (n, db') \<Longrightarrow> client_action now db db'"

inductive system_step :: "jobs_system \<Rightarrow> jobs_system \<Rightarrow> bool" where
  step_client: "client_action now (s_db s) db' \<Longrightarrow> system_step s (s\<lparr>s_db := db'\<rparr>)"
| step_dequeue: "s_worker s = Idle \<Longrightarrow> dequeue_job_action rid now (s_db s) = (Some (jid, pguid), db') \<Longrightarrow>
    system_step s (s\<lparr>s_db := db', s_worker := Supervising jid\<rparr>)"
| step_child: "s_worker s = Supervising jid \<Longrightarrow> system_step s (s\<lparr>s_db := try_update (jid, u, now) (s_db s)\<rparr>)"
| step_reap: "s_worker s = Supervising jid \<Longrightarrow>
    system_step s (s\<lparr>s_db := process_job_end jid code now (s_db s), s_worker := Idle\<rparr>)"

inductive_cases system_stepE: "system_step s s'"
inductive_cases client_actionE: "client_action now db db'"

definition initial_system :: "jobs_system \<Rightarrow> bool" where
  "initial_system s \<longleftrightarrow> s_worker s = Idle \<and> ids_distinct (s_db s) \<and> (\<forall>j\<in>set (jobs (s_db s)). status j \<noteq> ''running'')"

definition reachable_system :: "jobs_system \<Rightarrow> bool" where
  "reachable_system s \<longleftrightarrow> (\<exists>s0. initial_system s0 \<and> system_step\<^sup>*\<^sup>* s0 s)"

section \<open>At most one job runs\<close>

definition running_ids :: "job_db \<Rightarrow> string set" where
  "running_ids db = {i. \<exists>j. find_job db i = Some j \<and> status j = ''running''}"

definition system_inv :: "jobs_system \<Rightarrow> bool" where
  "system_inv s \<longleftrightarrow> ids_distinct (s_db s) \<and>
     (case s_worker s of Idle \<Rightarrow> \<exists>i. running_ids (s_db s) \<subseteq> {i} | Supervising i \<Rightarrow> running_ids (s_db s) \<subseteq> {i})"

lemma running_ids_filter:
  assumes "jobs db' = filter P (jobs db)" and "ids_distinct db"
  shows "running_ids db' \<subseteq> running_ids db \<and> ids_distinct db'"
proof -
  have dist: "ids_distinct db'" using assms by (simp add: ids_distinct_def distinct_map_filter)
  have "find_job db i = Some j" if "find_job db' i = Some j" for i j
    using find_job_Some [OF that] ids_distinct_find [OF assms(2), of j] assms(1) by auto
  with dist show ?thesis unfolding running_ids_def by blast
qed

lemma running_ids_row_map:
  assumes "jobs db' = map f (jobs db)" and "row_map f" and "\<And>j. status (f j) = ''running'' \<Longrightarrow> status j = ''running''"
    and "ids_distinct db"
  shows "running_ids db' \<subseteq> running_ids db \<and> ids_distinct db'"
proof -
  have "find_job db' i = map_option f (find_job db i)" for i
    using assms(2) unfolding find_job_def assms(1) row_map_def by (intro find_map) simp
  then have "running_ids db' \<subseteq> running_ids db"
    using assms(3) by (auto simp: running_ids_def)
  with ids_distinct_row_map [OF assms(1,2,4)] show ?thesis by blast
qed

lemma running_ids_update:
  "running_ids (try_update (i, u, now) db) \<subseteq> (if u_status u = ''running'' then insert i (running_ids db) else running_ids db)"
  using writer.upd_running [of i u now db] unfolding running_ids_def by fastforce

lemma ids_distinct_update: "ids_distinct db \<Longrightarrow> ids_distinct (try_update (i, u, now) db)"
  using try_update_row_map [of i u now db] ids_distinct_row_map by metis

lemma client_action_running:
  assumes "client_action now db db'" and "ids_distinct db"
  shows "running_ids db' \<subseteq> running_ids db \<and> ids_distinct db'"
  using assms(1)
proof (cases rule: client_action.cases)
  case (client_create j i)
  obtain j1 where j1: "jobs db' = jobs db @ [j1]" "find_job db (job_id j1) = None" "status j1 = ''pending''"
    using client_create by (auto simp: create_job_action_def Let_def split: if_splits)
  have "find_job db' i = (case find_job db i of None \<Rightarrow> if job_id j1 = i then Some j1 else None | Some k \<Rightarrow> Some k)" for i
    by (simp add: find_job_def j1(1) find_append split: option.split)
  then have "running_ids db' \<subseteq> running_ids db"
    using j1(3) by (auto simp: running_ids_def split: option.splits if_splits)
  moreover have "ids_distinct db'"
    using assms(2) j1 by (auto simp: ids_distinct_def find_job_None)
  ultimately show ?thesis ..
next
  case (client_attribution jid rid req bill c)
  from attribution_row_map [OF client_attribution] obtain f
    where "row_map f" "jobs db' = map f (jobs db)" "\<And>j. status (f j) = status j" by blast
  with assms(2) show ?thesis by (intro running_ids_row_map [of db' f]) auto
next
  case (client_status u jid)
  with running_ids_update [of jid u now db] ids_distinct_update [OF assms(2)] show ?thesis by simp
next
  case (client_cancel jid reason s)
  let ?r = "case reason of None \<Rightarrow> ''Cancelled by user request'' | Some r \<Rightarrow> if r = [] then ''Cancelled by user request'' else r"
  have "jobs db' = map (\<lambda>j. if job_id j = jid then j\<lparr>status := ''cancelled'', step_name := Some ?r,
      error_message := Some ?r, completed_at := Some now\<rparr> else j) (jobs db)"
    using client_cancel unfolding mark_cancelled_action_def Let_def by (cases "find_job db jid") auto
  then show ?thesis by (rule running_ids_row_map [OF _ _ _ assms(2)]) (auto simp: row_map_def split: if_splits)
next
  case (client_replace pguid current n)
  then have "jobs db' = filter (\<lambda>j. \<not> (post_guid j = pguid \<and> is_active j \<and> job_id j \<noteq> current)) (jobs db)"
    using cancel_existing_jobs_eq [of pguid current now db] by simp
  then show ?thesis using assms(2) by (rule running_ids_filter)
next
  case (client_cleanup age n)
  then have "jobs db' = filter (\<lambda>j. \<not> created_at j < now - age) (jobs db)"
    by (auto simp: cleanup_stale_jobs_action_def Let_def)
  then show ?thesis using assms(2) by (rule running_ids_filter)
next
  case (client_clear n)
  then have "jobs db' = filter (\<lambda>j. \<not> is_active j) (jobs db)"
    by (auto simp: clear_active_jobs_action_def Let_def)
  then show ?thesis using assms(2) by (rule running_ids_filter)
next
  case (client_clear_all n)
  then have "jobs db' = filter (\<lambda>_. False) (jobs db)" by (auto simp: clear_all_jobs_action_def)
  then show ?thesis using assms(2) by (rule running_ids_filter)
next
  case (client_reassign rid n)
  have "jobs db' = map (\<lambda>j. if rid \<noteq> None \<and> rid \<noteq> Some [] \<and> status j = ''pending'' \<and> run_id j \<noteq> rid
      then j\<lparr>run_id := rid\<rparr> else j) (jobs db)"
    using client_reassign by (auto simp: reassign_pending_jobs_action_def Let_def split: if_splits)
  then show ?thesis by (rule running_ids_row_map [OF _ _ _ assms(2)]) (auto simp: row_map_def split: if_splits)
qed

lemma running_ids_iff:
  assumes "ids_distinct db"
  shows "i \<in> running_ids db \<longleftrightarrow> (\<exists>j\<in>set (jobs db). job_id j = i \<and> status j = ''running'')"
  using ids_distinct_find [OF assms] find_job_Some unfolding running_ids_def by blast

lemma mark_failed_eq:
  "\<exists>u. mark_failed j msg now db = try_update (job_id j, u, now) db \<and> u_status u = ''failed''"
  by (auto simp: mark_failed_def sm_update_job_status_def)

lemma process_job_end_running:
  assumes "ids_distinct db" and "running_ids db \<subseteq> {jid}"
  shows "running_ids (process_job_end jid code now db) \<subseteq> {jid} \<and> ids_distinct (process_job_end jid code now db)"
proof -
  have "process_job_end jid code now db = db \<or>
    (\<exists>i u. process_job_end jid code now db = try_update (i, u, now) db \<and> u_status u = ''failed'')"
    using mark_failed_eq by (auto simp: process_job_end_def fail_job_if_nonterminal_def split: option.split) metis+
  then show ?thesis
  proof
    assume "\<exists>i u. process_job_end jid code now db = try_update (i, u, now) db \<and> u_status u = ''failed''"
    then obtain i u where u: "process_job_end jid code now db = try_update (i, u, now) db" "u_status u = ''failed''" by blast
    with running_ids_update [of i u now db] assms ids_distinct_update [OF assms(1)] show ?thesis by auto
  qed (use assms in simp)
qed

lemma dequeue_ids:
  assumes "dequeue_job_action rid now db = (r, db')"
  shows "map job_id (jobs db') = map job_id (jobs db)"
  using assms unfolding dequeue_job_action_def by (auto split: if_splits list.splits)

lemma system_step_inv:
  assumes "system_step s s'" and "system_inv s"
  shows "system_inv s'"
  using assms
proof (cases rule: system_step.cases)
  case (step_client now db')
  from client_action_running [OF step_client(2)] assms(2) have
    "running_ids db' \<subseteq> running_ids (s_db s)" "ids_distinct db'" by (auto simp: system_inv_def)
  with assms(2) step_client(1) show ?thesis
    by (auto simp: system_inv_def split: worker.splits)
next
  case (step_dequeue rid now jid pguid db')
  from assms(2) have dist: "ids_distinct (s_db s)" by (simp add: system_inv_def)
  from dequeue_spec [OF step_dequeue(3) dist] have
    run: "\<forall>k\<in>set (jobs db'). status k = ''running'' \<longleftrightarrow> job_id k = jid" by simp
  have "ids_distinct db'" using dist dequeue_ids [OF step_dequeue(3)] by (simp add: ids_distinct_def)
  with run step_dequeue(1) show ?thesis by (auto simp: system_inv_def running_ids_iff)
next
  case (step_child jid u now)
  with assms(2) running_ids_update [of jid u now "s_db s"] ids_distinct_update show ?thesis
    by (auto simp: system_inv_def split: if_splits)
next
  case (step_reap jid code now)
  with assms(2) process_job_end_running [of "s_db s" jid code now] show ?thesis
    by (auto simp: system_inv_def)
qed

lemma reachable_inv:
  assumes "reachable_system s"
  shows "system_inv s"
proof -
  from assms obtain s0 where s0: "initial_system s0" "system_step\<^sup>*\<^sup>* s0 s" by (auto simp: reachable_system_def)
  have "system_inv s0" using s0(1) by (auto simp: initial_system_def system_inv_def running_ids_iff)
  with s0(2) show ?thesis by (induction rule: rtranclp_induct) (auto intro: system_step_inv)
qed

text \<open>C1.  At most one job runs: in every reachable state of the system, however requests,
  cancellations, late updates, clean-ups and crashes interleave, two rows that say running
  are the same row, and while the worker supervises a job no other row says running.\<close>

theorem at_most_one_job_runs:
  assumes "reachable_system s"
  shows "(\<forall>j\<in>set (jobs (s_db s)). \<forall>k\<in>set (jobs (s_db s)). status j = ''running'' \<and> status k = ''running'' \<longrightarrow> j = k) \<and>
    (\<forall>i. s_worker s = Supervising i \<longrightarrow> (\<forall>j\<in>set (jobs (s_db s)). status j = ''running'' \<longrightarrow> job_id j = i))"
proof -
  from reachable_inv [OF assms] have inv: "system_inv s" .
  then have dist: "ids_distinct (s_db s)" by (simp add: system_inv_def)
  from inv obtain i where i: "running_ids (s_db s) \<subseteq> {i}"
    by (auto simp: system_inv_def split: worker.splits)
  have mem: "job_id j \<in> running_ids (s_db s)" if "j \<in> set (jobs (s_db s))" "status j = ''running''" for j
    using that running_ids_iff [OF dist] by blast
  have "j = k" if "j \<in> set (jobs (s_db s))" "k \<in> set (jobs (s_db s))" "status j = ''running''" "status k = ''running''" for j k
  proof -
    from that mem i have "job_id j = job_id k" by blast
    with that(1,2) show ?thesis using ids_distinct_find [OF dist] by (metis option.inject)
  qed
  moreover have "job_id j = i'" if "s_worker s = Supervising i'" "j \<in> set (jobs (s_db s))" "status j = ''running''" for i' j
    using inv that mem by (auto simp: system_inv_def)
  ultimately show ?thesis by blast
qed

definition demo_system :: jobs_system where
  "demo_system = \<lparr>s_db = demo_db [demo_job ''a'' ''pending'' 5, demo_job ''b'' ''pending'' 7], s_worker = Idle\<rparr>"

lemma demo_dequeue:
  "dequeue_job_action None 9 (demo_db [demo_job ''a'' ''pending'' 5, demo_job ''b'' ''pending'' 7]) =
    (Some (''a'', ''g''), demo_db [(demo_job ''a'' ''running'' 5)\<lparr>started_at := Some 9\<rparr>, demo_job ''b'' ''pending'' 7])"
  by (simp add: dequeue_job_action_def demo_db_def demo_job_def modify_job_def)

lemma demo_system_initial: "initial_system demo_system"
  by (simp add: initial_system_def demo_system_def ids_distinct_def demo_db_def demo_job_def)

lemma demo_system_reachable:
  "reachable_system (demo_system\<lparr>s_db := demo_db [(demo_job ''a'' ''running'' 5)\<lparr>started_at := Some 9\<rparr>, demo_job ''b'' ''pending'' 7],
    s_worker := Supervising ''a''\<rparr>)"
proof -
  have "system_step demo_system (demo_system\<lparr>s_db := demo_db [(demo_job ''a'' ''running'' 5)\<lparr>started_at := Some 9\<rparr>, demo_job ''b'' ''pending'' 7],
      s_worker := Supervising ''a''\<rparr>)"
    by (rule step_dequeue [of _ None 9]) (simp_all add: demo_system_def demo_dequeue)
  with demo_system_initial show ?thesis unfolding reachable_system_def by blast
qed

theorem at_most_one_job_runs_witness:
  "list_all (\<lambda>j. status j = ''running'' \<longrightarrow> job_id j = ''a'')
    (jobs (demo_db [(demo_job ''a'' ''running'' 5)\<lparr>started_at := Some 9\<rparr>, demo_job ''b'' ''pending'' 7]))"
  using at_most_one_job_runs [OF demo_system_reachable] unfolding list_all_iff by simp

lemma process_job_end_terminal:
  assumes "find_job (process_job_end jid code now db) jid = Some j" and "code \<noteq> Some 0"
  shows "terminal_status (status j)"
proof -
  obtain msg where e: "process_job_end jid code now db = fail_job_if_nonterminal jid msg now db"
    using assms(2) by (cases code) (auto simp: process_job_end_def)
  show ?thesis
  proof (cases "find_job db jid")
    case None
    with assms(1) show ?thesis unfolding e by (simp add: fail_job_if_nonterminal_def)
  next
    case (Some k)
    show ?thesis
    proof (cases "terminal_status (status k)")
      case True
      with assms(1) Some show ?thesis unfolding e by (simp add: fail_job_if_nonterminal_def)
    next
      case False
      obtain u where u: "mark_failed k msg now db = try_update (job_id k, u, now) db" "u_status u = ''failed''"
        using mark_failed_eq by blast
      have "job_id k = jid" by (rule find_job_Some(2) [OF Some])
      with writer.terminal_update_settles [OF Some, of u now] assms(1) False u Some
      show ?thesis unfolding e by (auto simp: fail_job_if_nonterminal_def terminal_status_def)
    qed
  qed
qed

text \<open>C17.  A crashed worker does not block the queue: when the child of a job ends with an error
  code, or could not be launched or waited for, no row says running afterwards, and if a job is
  pending the next dequeue hands one out.\<close>

theorem crashed_worker_frees_the_queue:
  assumes "reachable_system s" and "s_worker s = Supervising jid" and "code \<noteq> Some 0"
  shows "(\<forall>j\<in>set (jobs (process_job_end jid code now (s_db s))). status j \<noteq> ''running'') \<and>
    ((\<exists>j\<in>set (jobs (process_job_end jid code now (s_db s))). status j = ''pending'') \<longrightarrow>
      fst (dequeue_job_action rid now' (process_job_end jid code now (s_db s))) \<noteq> None)"
proof -
  let ?db = "process_job_end jid code now (s_db s)"
  from reachable_inv [OF assms(1)] assms(2) have "ids_distinct (s_db s)" "running_ids (s_db s) \<subseteq> {jid}"
    by (auto simp: system_inv_def)
  from process_job_end_running [OF this] have dist: "ids_distinct ?db" and run: "running_ids ?db \<subseteq> {jid}" by auto
  have none: "status j \<noteq> ''running''" if j: "j \<in> set (jobs ?db)" for j
  proof
    assume r: "status j = ''running''"
    then have "job_id j \<in> running_ids ?db" using j running_ids_iff [OF dist] by blast
    with run have "job_id j = jid" by blast
    with ids_distinct_find [OF dist j] have "find_job ?db jid = Some j" by simp
    from process_job_end_terminal [OF this assms(3)] r show False by (simp add: terminal_status_def)
  qed
  have "fst (dequeue_job_action rid now' ?db) \<noteq> None" if "\<exists>j\<in>set (jobs ?db). status j = ''pending''"
  proof
    assume "fst (dequeue_job_action rid now' ?db) = None"
    then obtain d where "dequeue_job_action rid now' ?db = (None, d)" by (metis prod.collapse)
    from dequeue_spec [OF this dist] none that show False by auto
  qed
  with none show ?thesis by blast
qed

theorem crashed_worker_frees_the_queue_witness:
  "list_all (\<lambda>j. status j \<noteq> ''running'') (jobs (process_job_end ''a'' (Some 1) 12
      (demo_db [(demo_job ''a'' ''running'' 5)\<lparr>started_at := Some 9\<rparr>, demo_job ''b'' ''pending'' 7])))"
  unfolding list_all_iff using crashed_worker_frees_the_queue [OF demo_system_reachable, of "''a''" "Some 1" 12] by simp

section \<open>The child's verdict and the bulk cancellations\<close>

text \<open>A child whose processing raised leaves a verdict: when it exits, the job is gone or in a
  terminal state, so that the supervisor has nothing to repair.\<close>

theorem raised_processing_leaves_a_verdict:
  assumes "run_processing_job process jid pguid now db = (code, db')" and "find_job db jid = Some j"
    and "\<not> fst (process db)"
  shows "find_job db' jid = None \<or> (\<exists>k. find_job db' jid = Some k \<and> terminal_status (status k))"
proof -
  have failed: "\<exists>k'. find_job (mark_failed k msg now d) jid = Some k' \<and> terminal_status (status k')"
    if k: "find_job d jid = Some k" for k d msg
  proof -
    obtain u where u: "mark_failed k msg now d = try_update (job_id k, u, now) d" "u_status u = ''failed''"
      using mark_failed_eq by blast
    have "job_id k = jid" by (rule find_job_Some(2) [OF k])
    with writer.terminal_update_settles [OF k, of u now] u show ?thesis by (auto simp: terminal_status_def)
  qed
  show ?thesis
  proof (cases "find (\<lambda>p. guid p = pguid) (posts db)")
    case None
    with assms(1,2) failed [OF assms(2)] show ?thesis by (auto simp: run_processing_job_def)
  next
    case (Some p)
    from assms(3) obtain db1 where p: "process db = (False, db1)" by (cases "process db") auto
    show ?thesis
    proof (cases "find_job db1 jid")
      case None
      with assms(1,2) Some p show ?thesis by (auto simp: run_processing_job_def)
    next
      case k: (Some k)
      with assms(1,2) Some p failed [OF k] show ?thesis
        by (auto simp: run_processing_job_def split: if_splits)
    qed
  qed
qed

theorem raised_processing_leaves_a_verdict_witness:
  "\<exists>code db'. run_processing_job (\<lambda>d. (False, d)) ''a'' ''g'' 9 (demo_db [demo_job ''a'' ''running'' 5]) = (code, db') \<and>
    (find_job db' ''a'' = None \<or> (\<exists>k. find_job db' ''a'' = Some k \<and> terminal_status (status k)))"
proof -
  obtain code db' where r: "run_processing_job (\<lambda>d. (False, d)) ''a'' ''g'' 9 (demo_db [demo_job ''a'' ''running'' 5]) = (code, db')"
    by fastforce
  have "find_job (demo_db [demo_job ''a'' ''running'' 5]) ''a'' = Some (demo_job ''a'' ''running'' 5)"
    by (simp add: find_job_def demo_db_def demo_job_def)
  from raised_processing_leaves_a_verdict [OF r this] r show ?thesis by simp
qed

definition cancelled_row :: "string option \<Rightarrow> instant \<Rightarrow> job \<Rightarrow> job" where
  "cancelled_row msg now j =
     (let r = (case msg of None \<Rightarrow> ''Cancelled by user request'' | Some r \<Rightarrow> if r = [] then ''Cancelled by user request'' else r) in
      j\<lparr>status := ''cancelled'', step_name := Some r, error_message := Some r, completed_at := Some now\<rparr>)"

lemma cancelled_row_simps [simp]:
  "job_id (cancelled_row msg now j) = job_id j" "status (cancelled_row msg now j) = ''cancelled''"
  by (simp_all add: cancelled_row_def Let_def)

lemma mark_cancelled_find:
  "find_job (sm_mark_cancelled i msg now db) k =
    (if k = i then map_option (cancelled_row msg now) (find_job db k) else find_job db k)"
proof (cases "find_job db i")
  case None
  then show ?thesis by (auto simp: sm_mark_cancelled_def mark_cancelled_action_def Let_def)
next
  case (Some j)
  then have "find_job (sm_mark_cancelled i msg now db) k = find_job (modify_job i (cancelled_row msg now) db) k"
    by (simp add: sm_mark_cancelled_def mark_cancelled_action_def Let_def cancelled_row_def [abs_def])
  also have "\<dots> = (if k = i then map_option (cancelled_row msg now) (find_job db k) else find_job db k)"
    by (rule find_job_modify) simp
  finally show ?thesis .
qed

lemma cancel_all_other: "k \<notin> job_id ` set js \<Longrightarrow> find_job (cancel_all js now db) k = find_job db k"
  by (induction js arbitrary: db) (simp_all add: cancel_all_def mark_cancelled_find)

lemma cancel_all_status:
  assumes "find_job db k = Some j" and "k \<in> job_id ` set js \<or> status j = ''cancelled''"
  shows "map_option status (find_job (cancel_all js now db) k) = Some ''cancelled''"
  using assms
proof (induction js arbitrary: db j)
  case (Cons h js)
  let ?d = "sm_mark_cancelled (job_id h) (Some ''Cancelled by user request'') now db"
  have step: "cancel_all (h # js) now db = cancel_all js now ?d" by (simp add: cancel_all_def)
  show ?case
  proof (cases "k = job_id h")
    case True
    then have "find_job ?d k = Some (cancelled_row (Some ''Cancelled by user request'') now j)"
      using Cons.prems(1) by (simp add: mark_cancelled_find)
    then show ?thesis unfolding step by (rule Cons.IH) simp
  next
    case False
    then have "find_job ?d k = Some j" using Cons.prems(1) by (simp add: mark_cancelled_find)
    then show ?thesis unfolding step using Cons.prems(2) False by (intro Cons.IH) auto
  qed
qed (simp add: cancel_all_def)

text \<open>Cancelling the queue cancels exactly the pending jobs: each of them ends cancelled, every
  other job keeps its row, and the answer is the number of jobs cancelled.\<close>

theorem cancel_queue_cancels_exactly_the_pending_jobs:
  assumes "cancel_queued_jobs now db = (n, db')" and "ids_distinct db"
  shows "n = length (filter (\<lambda>j. status j = ''pending'') (jobs db)) \<and>
    (\<forall>j\<in>set (jobs db). if status j = ''pending'' then map_option status (find_job db' (job_id j)) = Some ''cancelled''
       else find_job db' (job_id j) = Some j)"
proof -
  let ?q = "sort_key created_at (filter (\<lambda>j. status j = ''pending'') (jobs db))"
  from assms(1) have n: "n = length (filter (\<lambda>j. status j = ''pending'') (jobs db))" and db': "db' = cancel_all ?q now db"
    by (auto simp: cancel_queued_jobs_def Let_def)
  have "if status j = ''pending'' then map_option status (find_job db' (job_id j)) = Some ''cancelled''
       else find_job db' (job_id j) = Some j" if j: "j \<in> set (jobs db)" for j
  proof -
    note found = ids_distinct_find [OF assms(2) j]
    have "status j = ''pending''" if q: "job_id j \<in> job_id ` set ?q"
    proof -
      from q obtain k where k: "k \<in> set (jobs db)" "status k = ''pending''" "job_id k = job_id j" by auto
      have "find_job db (job_id j) = Some k" using ids_distinct_find [OF assms(2) k(1)] unfolding k(3) .
      then have "k = j" unfolding found by simp
      with k(2) show ?thesis by blast
    qed
    moreover have "job_id j \<in> job_id ` set ?q" if "status j = ''pending''" using that j by simp
    ultimately have in_q: "job_id j \<in> job_id ` set ?q \<longleftrightarrow> status j = ''pending''" by blast
    show ?thesis
    proof (cases "status j = ''pending''")
      case True
      with in_q have "map_option status (find_job (cancel_all ?q now db) (job_id j)) = Some ''cancelled''"
        by (intro cancel_all_status [OF found]) blast
      with True show ?thesis unfolding db' by simp
    next
      case False
      with in_q have "find_job (cancel_all ?q now db) (job_id j) = find_job db (job_id j)"
        by (intro cancel_all_other) blast
      with False found show ?thesis unfolding db' by simp
    qed
  qed
  with n show ?thesis by blast
qed

theorem cancel_queue_cancels_exactly_the_pending_jobs_witness:
  "\<exists>n db'. cancel_queued_jobs 9 (demo_db [demo_job ''a'' ''running'' 5, demo_job ''b'' ''pending'' 7]) = (n, db') \<and> n = 1 \<and>
    find_job db' ''a'' = Some (demo_job ''a'' ''running'' 5)"
proof -
  let ?db = "demo_db [demo_job ''a'' ''running'' 5, demo_job ''b'' ''pending'' 7]"
  obtain n db' where c: "cancel_queued_jobs 9 ?db = (n, db')" by fastforce
  have "ids_distinct ?db" by (simp add: ids_distinct_def demo_db_def demo_job_def)
  from cancel_queue_cancels_exactly_the_pending_jobs [OF c this] c show ?thesis
    by (simp add: demo_db_def demo_job_def)
qed

end
