(* ===== verification/RateLimits.thy ===== *)
theory RateLimits
  imports PyString "HOL-Library.AList"
begin

text \<open>
  The three limiters: \<open>podcast_processor/token_rate_limiter.py\<close> (tokens per minute sent to a
  language model), \<open>podcast_processor/llm_concurrency_limiter.py\<close> (calls at the same time) and
  \<open>app/auth/rate_limiter.py\<close> (back-off after failed logins).  Clocks are arguments: seconds as
  reals for the token limiter, microseconds for the failure limiter's datetimes.  Each limiter's
  lock makes an operation atomic, so that an operation is a function on the state.
\<close>

section \<open>Tokens per minute\<close>

record token_limiter =
  tokens_per_minute :: int
  window_seconds :: real
  token_usage :: "(real \<times> int) list"

definition new_token_limiter :: "int \<Rightarrow> int \<Rightarrow> token_limiter" where
  "new_token_limiter tpm window_minutes =
     \<lparr>tokens_per_minute = tpm, window_seconds = of_int (window_minutes * 60), token_usage = []\<rparr>"

text \<open>A message is a dictionary; a content that is not a string makes \<open>len\<close> raise.\<close>

type_synonym message = "(string \<times> string option) list"

definition count_tokens :: "message list \<Rightarrow> int" where
  "count_tokens messages =
     (let contents = map (\<lambda>msg. case map_of msg ''content'' of None \<Rightarrow> Some [] | Some c \<Rightarrow> c) messages in
      if None \<in> set contents then 1000
      else (\<Sum>c\<leftarrow>contents. int (length (the c))) div 4)"

definition cleanup_old_usage :: "real \<Rightarrow> token_limiter \<Rightarrow> token_limiter" where
  "cleanup_old_usage current_time lm =
     lm\<lparr>token_usage := dropWhile (\<lambda>(t, _). t < current_time - window_seconds lm) (token_usage lm)\<rparr>"

definition get_current_usage :: "real \<Rightarrow> token_limiter \<Rightarrow> int \<times> token_limiter" where
  "get_current_usage current_time lm =
     (let lm' = cleanup_old_usage current_time lm in ((\<Sum>(_, n)\<leftarrow>token_usage lm'. n), lm'))"

definition check_rate_limit :: "message list \<Rightarrow> real \<Rightarrow> token_limiter \<Rightarrow> (bool \<times> real) \<times> token_limiter" where
  "check_rate_limit messages current_time lm =
     (let token_count = count_tokens messages;
          (current_usage, lm') = get_current_usage current_time lm in
      if current_usage + token_count \<le> tokens_per_minute lm' then ((True, 0), lm')
      else if token_usage lm' = [] then ((True, 0), lm')
      else ((False, max 0 (fst (hd (token_usage lm')) + window_seconds lm' - current_time)), lm'))"

definition record_usage :: "message list \<Rightarrow> real \<Rightarrow> token_limiter \<Rightarrow> token_limiter" where
  "record_usage messages current_time lm =
     lm\<lparr>token_usage := token_usage lm @ [(current_time, count_tokens messages)]\<rparr>"

text \<open>\<open>wait_if_needed\<close> checks at \<open>now\<close>; \<open>delay\<close> is how much longer than asked for the sleep and the
  way to the recording take.\<close>

definition wait_if_needed :: "message list \<Rightarrow> real \<Rightarrow> real \<Rightarrow> token_limiter \<Rightarrow> token_limiter" where
  "wait_if_needed messages now delay lm =
     (let ((can_proceed, wait_seconds), lm') = check_rate_limit messages now lm;
          slept = (if \<not> can_proceed \<and> wait_seconds > 0 then wait_seconds else 0) in
      record_usage messages (now + slept + delay) lm')"

text \<open>None is the ZeroDivisionError of a limit of 0.\<close>

definition get_usage_stats :: "real \<Rightarrow> token_limiter \<Rightarrow> (int \<times> int \<times> real \<times> real \<times> nat) option \<times> token_limiter" where
  "get_usage_stats current_time lm =
     (let (current_usage, lm') = get_current_usage current_time lm in
      (if tokens_per_minute lm' = 0 then None
       else Some (current_usage, tokens_per_minute lm', of_int current_usage / of_int (tokens_per_minute lm') * 100,
         window_seconds lm', length (token_usage lm')), lm'))"

text \<open>The process-wide limiter is replaced when another limit is asked for.\<close>

definition get_rate_limiter :: "int \<Rightarrow> token_limiter option \<Rightarrow> token_limiter" where
  "get_rate_limiter tpm current = (case current of
     Some lm \<Rightarrow> if tokens_per_minute lm \<noteq> tpm then new_token_limiter tpm 1 else lm
   | None \<Rightarrow> new_token_limiter tpm 1)"

definition model_limits :: "(string \<times> int) list" where
  "model_limits =
     [(''anthropic/claude-3-5-sonnet-20240620'', 30000), (''anthropic/claude-sonnet-4-20250514'', 30000),
      (''anthropic/claude-3-opus-20240229'', 30000), (''gpt-4o-mini'', 200000), (''gpt-4o'', 150000),
      (''gpt-4'', 40000), (''gemini/gemini-3-flash-preview'', 60000), (''gemini/gemini-2.5-flash'', 60000),
      (''gemini/gemini-2.5-pro'', 30000)]"

definition configure_rate_limiter_for_model :: "string \<Rightarrow> token_limiter option \<Rightarrow> token_limiter" where
  "configure_rate_limiter_for_model model current =
     get_rate_limiter
       (case find (\<lambda>(pattern, limit). str_in pattern model) model_limits of Some (_, limit) \<Rightarrow> limit | None \<Rightarrow> 30000)
       current"

text \<open>What was sent within the window that ends at an instant, over all records in order of time.\<close>

definition sent_since :: "real \<Rightarrow> token_limiter \<Rightarrow> int" where
  "sent_since t0 lm = (\<Sum>(_, n)\<leftarrow>filter (\<lambda>(t, _). t0 \<le> t) (token_usage lm). n)"

lemma dropWhile_sorted_filter:
  "sorted (map fst us) \<Longrightarrow> dropWhile (\<lambda>(t, _). t < c) us = filter (\<lambda>(t, _). (c :: real) \<le> t) us"
proof (induction us)
  case (Cons u us)
  show ?case
  proof (cases "fst u < c")
    case False
    then have "\<forall>v\<in>set us. c \<le> fst v" using Cons.prems by force
    with False show ?thesis by (auto simp: case_prod_beta)
  qed (use Cons in \<open>auto simp: case_prod_beta\<close>)
qed simp

lemma get_current_usage_sent:
  "sorted (map fst (token_usage lm)) \<Longrightarrow>
    get_current_usage now lm = (sent_since (now - window_seconds lm) lm, cleanup_old_usage now lm)"
  by (simp add: get_current_usage_def cleanup_old_usage_def sent_since_def dropWhile_sorted_filter)

text \<open>What is admitted at once fits: when the limiter lets a request go, the tokens sent within the
  window and the request's own stay within the limit, or nothing was sent within the window; when
  it refuses, it asks to wait until the oldest record of the window expires.\<close>

theorem admitted_requests_fit_the_window:
  assumes "sorted (map fst (token_usage lm))" and "check_rate_limit messages now lm = ((go, wait), lm')"
  shows "if go then sent_since (now - window_seconds lm) lm + count_tokens messages \<le> tokens_per_minute lm \<or>
      (\<forall>(t, n)\<in>set (token_usage lm). t < now - window_seconds lm)
    else (\<exists>(t, n)\<in>set (token_usage lm). now - window_seconds lm \<le> t \<and> wait = t + window_seconds lm - now \<and>
      (\<forall>(u, m)\<in>set (token_usage lm). u < t \<longrightarrow> u < now - window_seconds lm))"
proof -
  let ?us = "filter (\<lambda>(t, _). now - window_seconds lm \<le> t) (token_usage lm)"
  have us: "token_usage (cleanup_old_usage now lm) = ?us"
    by (simp add: cleanup_old_usage_def dropWhile_sorted_filter [OF assms(1)])
  have same: "tokens_per_minute (cleanup_old_usage now lm) = tokens_per_minute lm"
    "window_seconds (cleanup_old_usage now lm) = window_seconds lm" by (simp_all add: cleanup_old_usage_def)
  note check = assms(2) [unfolded check_rate_limit_def get_current_usage_sent [OF assms(1)] Let_def prod.case us same]
  show ?thesis
  proof (cases go)
    case True
    with check show ?thesis by (auto split: if_splits simp: filter_empty_conv)
  next
    case False
    have "?us \<noteq> []"
    proof
      assume "?us = []"
      with check False show False by (simp split: if_splits)
    qed
    then obtain u us' where cons: "?us = u # us'" by (meson neq_Nil_conv)
    have "u \<in> set ?us" unfolding cons by simp
    then have u: "u \<in> set (token_usage lm)" "now - window_seconds lm \<le> fst u" by auto
    have "sorted (map fst ?us)" using assms(1) by (rule sorted_filter)
    then have first: "\<forall>v\<in>set us'. fst u \<le> fst v" unfolding cons by simp
    have "fst v < now - window_seconds lm" if v: "v \<in> set (token_usage lm)" "fst v < fst u" for v
    proof (rule ccontr)
      assume "\<not> fst v < now - window_seconds lm"
      with v(1) have "v \<in> set ?us" by (auto simp: case_prod_beta)
      with cons first v(2) show False by auto
    qed
    moreover have "wait = fst u + window_seconds lm - now"
      using False check u(2) unfolding cons by (auto split: if_splits)
    ultimately show ?thesis using False u by (auto simp: case_prod_beta intro!: bexI [of _ u])
  qed
qed

theorem admitted_requests_fit_the_window_witness:
  "sent_since 40 \<lparr>tokens_per_minute = 100, window_seconds = 60, token_usage = [(50, 90)]\<rparr> + 10 \<le> 100"
  using admitted_requests_fit_the_window
    [of "\<lparr>tokens_per_minute = 100, window_seconds = 60, token_usage = [(50, 90)]\<rparr>"
       "[[(''content'', Some (replicate 40 CHR ''x''))]]" 100 True 0
       "\<lparr>tokens_per_minute = 100, window_seconds = 60, token_usage = [(50, 90)]\<rparr>"]
  by (simp add: check_rate_limit_def get_current_usage_def cleanup_old_usage_def count_tokens_def)

text \<open>The wait is for the oldest record only and the limit is not looked at again: when the other
  records of the window and the new request exceed the limit together, the request is sent after
  the wait all the same, and what was sent within the window then exceeds the limit.\<close>

theorem one_wait_can_overshoot_the_limit:
  assumes "token_usage lm = (t0, a) # rest" and "sorted (map fst (token_usage lm))"
    and "now \<le> t0 + window_seconds lm" and "0 \<le> delay"
    and "\<forall>(t, n)\<in>set rest. t0 + delay \<le> t" and "0 \<le> a" and "0 \<le> window_seconds lm"
    and "tokens_per_minute lm < (\<Sum>(t, n)\<leftarrow>rest. n) + count_tokens messages"
  shows "let later = t0 + window_seconds lm + delay; lm' = wait_if_needed messages now delay lm in
    token_usage lm' \<noteq> [] \<and> fst (last (token_usage lm')) = later \<and>
    tokens_per_minute lm' < sent_since (later - window_seconds lm') lm'"
proof -
  have inside: "dropWhile (\<lambda>(t, _). t < now - window_seconds lm) (token_usage lm) = (t0, a) # rest"
    using assms(1,3) by simp
  have over: "\<not> (a + (\<Sum>(t, n)\<leftarrow>rest. n)) + count_tokens messages \<le> tokens_per_minute lm"
    using assms(6,8) by linarith
  have check: "check_rate_limit messages now lm = ((False, t0 + window_seconds lm - now), lm)"
    using over assms(1,3)
    by (simp add: check_rate_limit_def get_current_usage_def cleanup_old_usage_def inside max_def)
  let ?later = "t0 + window_seconds lm + delay"
  have wait: "wait_if_needed messages now delay lm = record_usage messages ?later lm"
    using assms(3) by (simp add: wait_if_needed_def check)
  have rest: "filter (\<lambda>(t, _). t0 + delay \<le> t) rest = rest"
    using assms(5) by (auto intro: filter_True)
  have "sent_since (t0 + delay) (record_usage messages ?later lm) \<ge> (\<Sum>(t, n)\<leftarrow>rest. n) + count_tokens messages"
    using assms(1,4,6,7) rest by (cases "delay = 0") (simp_all add: sent_since_def record_usage_def)
  moreover have "?later - window_seconds (record_usage messages ?later lm) = t0 + delay"
    by (simp add: record_usage_def)
  ultimately show ?thesis
    unfolding wait Let_def using assms(8) by (simp add: record_usage_def)
qed

theorem one_wait_can_overshoot_the_limit_witness:
  "let lm = \<lparr>tokens_per_minute = 100, window_seconds = 60, token_usage = [(0, 10), (30, 90)]\<rparr>;
       lm' = wait_if_needed [[(''content'', Some (replicate 80 CHR ''x''))]] 50 0 lm in
   100 < sent_since (60 - window_seconds lm') lm'"
  using one_wait_can_overshoot_the_limit
    [of "\<lparr>tokens_per_minute = 100, window_seconds = 60, token_usage = [(0, 10), (30, 90)]\<rparr>" 0 10 "[(30, 90)]" 50 0
       "[[(''content'', Some (replicate 80 CHR ''x''))]]"]
  by (simp add: count_tokens_def Let_def wait_if_needed_def check_rate_limit_def get_current_usage_def cleanup_old_usage_def
      record_usage_def)

section \<open>Failed logins\<close>

text \<open>Datetimes are microseconds.  The storage is the dictionary in its order, oldest key first.\<close>

record failure_state =
  attempts :: nat
  blocked_until :: "int option"
  last_attempt :: int

record failure_limiter =
  storage :: "(string \<times> failure_state) list"
  max_backoff_seconds :: int
  warm_up_attempts :: nat
  max_entries :: nat
  last_prune :: "int option"

definition new_failure_limiter :: "int \<Rightarrow> nat \<Rightarrow> nat \<Rightarrow> failure_limiter" where
  "new_failure_limiter max_backoff warm_up entries =
     \<lparr>storage = [], max_backoff_seconds = max_backoff, warm_up_attempts = warm_up, max_entries = entries, last_prune = None\<rparr>"

fun evict_oldest :: "nat \<Rightarrow> (string \<times> failure_state) list \<Rightarrow> (string \<times> failure_state) list" where
  "evict_oldest limit [] = []"
| "evict_oldest limit (e # es) = (if length (e # es) > limit then evict_oldest limit es else e # es)"

definition prune_failures :: "int \<Rightarrow> failure_limiter \<Rightarrow> failure_limiter" where
  "prune_failures now st =
     (let due = (case last_prune st of None \<Rightarrow> True | Some p \<Rightarrow> now - p > 60 * 1000000);
          st' = (if due then st\<lparr>last_prune := Some now,
                   storage := filter (\<lambda>(k, s). \<not> now - last_attempt s > 3600 * 1000000) (storage st)\<rparr>
                 else st) in
      st'\<lparr>storage := evict_oldest (max_entries st') (storage st')\<rparr>)"

definition register_failure :: "string \<Rightarrow> int \<Rightarrow> failure_limiter \<Rightarrow> int \<times> failure_limiter" where
  "register_failure key now st =
     (let n = (case map_of (storage st) key of None \<Rightarrow> 1 | Some s \<Rightarrow> attempts s + 1);
          backoff_seconds = (if n > warm_up_attempts st
            then min (2 ^ (n - warm_up_attempts st)) (max_backoff_seconds st) else 0);
          state = \<lparr>attempts = n,
            blocked_until = (if n > warm_up_attempts st then Some (now + backoff_seconds * 1000000) else None),
            last_attempt = now\<rparr> in
      (backoff_seconds, prune_failures now (st\<lparr>storage := AList.update key state (storage st)\<rparr>)))"

definition register_success :: "string \<Rightarrow> failure_limiter \<Rightarrow> failure_limiter" where
  "register_success key st = st\<lparr>storage := AList.delete key (storage st)\<rparr>"

definition retry_after :: "string \<Rightarrow> int \<Rightarrow> failure_limiter \<Rightarrow> int option \<times> failure_limiter" where
  "retry_after key now st =
     (case map_of (storage st) key of
        None \<Rightarrow> (None, st)
      | Some s \<Rightarrow> (case blocked_until s of
          None \<Rightarrow> (None, st)
        | Some until \<Rightarrow>
           if until \<le> now then (None, st\<lparr>storage := AList.delete key (storage st)\<rparr>)
           else let remaining = (until - now) div 1000000 in
             if remaining \<le> 0 then (None, st\<lparr>storage := AList.delete key (storage st)\<rparr>)
             else (Some remaining, st)))"

text \<open>What the login route and the middleware do with a client whose credentials are wrong:
  ask the limiter first, and register the failure when it lets the client through.\<close>

datatype login_answer = TooManyRequests int | Unauthorized int

definition failed_login :: "string \<Rightarrow> int \<Rightarrow> failure_limiter \<Rightarrow> login_answer \<times> failure_limiter" where
  "failed_login key now st =
     (case retry_after key now st of
        (Some seconds_left, st') \<Rightarrow> (TooManyRequests seconds_left, st')
      | (None, st') \<Rightarrow> (case register_failure key now st' of (backoff, st'') \<Rightarrow> (Unauthorized backoff, st'')))"

lemma evict_oldest_length: "length (evict_oldest n es) \<le> n"
  by (induction n es rule: evict_oldest.induct) auto

lemma evict_oldest_drop: "evict_oldest n es = drop (length es - n) es"
proof (induction n es rule: evict_oldest.induct)
  case (2 n e es)
  then show ?case by (cases "length es < n") (auto simp: Suc_diff_le)
qed simp

lemma evict_oldest_subset: "set (evict_oldest n es) \<subseteq> set es"
  by (simp add: evict_oldest_drop set_drop_subset)

lemma prune_failures_subset: "set (storage (prune_failures now st)) \<subseteq> set (storage st)"
  by (auto simp: prune_failures_def Let_def dest!: evict_oldest_subset [THEN subsetD])

lemma prune_failures_settings [simp]:
  "max_backoff_seconds (prune_failures now st) = max_backoff_seconds st"
  "warm_up_attempts (prune_failures now st) = warm_up_attempts st"
  "max_entries (prune_failures now st) = max_entries st"
  by (simp_all add: prune_failures_def Let_def)

lemma distinct_prune:
  "distinct (map fst (storage st)) \<Longrightarrow> distinct (map fst (storage (prune_failures now st)))"
  by (simp add: prune_failures_def Let_def evict_oldest_drop drop_map [symmetric] distinct_map_filter)

text \<open>A history: wrong credentials at an instant, or right ones, of the client with the key.\<close>

datatype auth_event = Wrong string int | Right string

fun auth_step :: "auth_event \<Rightarrow> login_answer list \<times> failure_limiter \<Rightarrow> login_answer list \<times> failure_limiter" where
  "auth_step (Wrong key now) (answers, st) = (let (a, st') = failed_login key now st in (answers @ [a], st'))"
| "auth_step (Right key) (answers, st) = (answers, register_success key st)"

definition auth_run :: "auth_event list \<Rightarrow> failure_limiter \<Rightarrow> login_answer list \<times> failure_limiter" where
  "auth_run es st = fold auth_step es ([], st)"

definition limiter_ok :: "failure_limiter \<Rightarrow> bool" where
  "limiter_ok st \<longleftrightarrow> length (storage st) \<le> max_entries st \<and> distinct (map fst (storage st)) \<and>
     (\<forall>(k, s)\<in>set (storage st). attempts s \<le> warm_up_attempts st + 1 \<and>
        (blocked_until s = None \<longrightarrow> attempts s \<le> warm_up_attempts st))"

lemma set_delete_subset: "set (AList.delete k al) \<subseteq> set al"
  by (auto simp: AList.delete_eq)

lemma set_update_subset: "set (AList.update k v al) \<subseteq> insert (k, v) (set al)"
  by (induction al) auto

lemma ball_subset: "\<forall>x\<in>B. P x \<Longrightarrow> A \<subseteq> B \<Longrightarrow> \<forall>x\<in>A. P x"
  by blast

lemma limiter_ok_delete: "limiter_ok st \<Longrightarrow> limiter_ok (st\<lparr>storage := AList.delete k (storage st)\<rparr>)"
  using length_delete_le [of k "storage st"] set_delete_subset [of k "storage st"]
  by (auto simp: limiter_ok_def distinct_delete)

lemma retry_after_ok:
  assumes "limiter_ok st" and "retry_after key now st = (r, st')"
  shows "limiter_ok st'" and "r = None \<Longrightarrow> case map_of (storage st') key of None \<Rightarrow> True | Some s \<Rightarrow> attempts s \<le> warm_up_attempts st'"
    and "warm_up_attempts st' = warm_up_attempts st" and "max_entries st' = max_entries st"
    and "max_backoff_seconds st' = max_backoff_seconds st"
proof -
  consider (deleted) "r = None" "st' = st\<lparr>storage := AList.delete key (storage st)\<rparr>"
    | (kept) "st' = st" "r = None \<Longrightarrow> case map_of (storage st) key of None \<Rightarrow> True | Some s \<Rightarrow> blocked_until s = None"
    using assms(2) by (auto simp: retry_after_def Let_def split: option.splits if_splits)
  then have "limiter_ok st' \<and> warm_up_attempts st' = warm_up_attempts st \<and> max_entries st' = max_entries st \<and>
      max_backoff_seconds st' = max_backoff_seconds st \<and>
      (r = None \<longrightarrow> (case map_of (storage st') key of None \<Rightarrow> True | Some s \<Rightarrow> attempts s \<le> warm_up_attempts st'))"
  proof cases
    case deleted
    have "map_of (storage st') key = None" using deleted(2) by (simp add: delete_conv')
    with deleted limiter_ok_delete [OF assms(1), of key] show ?thesis by simp
  next
    case kept
    have "attempts s \<le> warm_up_attempts st" if "map_of (storage st) key = Some s" "r = None" for s
      using assms(1) kept(2) that map_of_SomeD [OF that(1)] by (auto simp: limiter_ok_def)
    with kept(1) assms(1) show ?thesis by (auto split: option.split)
  qed
  then show "limiter_ok st'" "warm_up_attempts st' = warm_up_attempts st" "max_entries st' = max_entries st"
    "max_backoff_seconds st' = max_backoff_seconds st"
    "r = None \<Longrightarrow> case map_of (storage st') key of None \<Rightarrow> True | Some s \<Rightarrow> attempts s \<le> warm_up_attempts st'"
    by blast+
qed

lemma register_failure_ok:
  assumes "limiter_ok st" and "case map_of (storage st) key of None \<Rightarrow> True | Some s \<Rightarrow> attempts s \<le> warm_up_attempts st"
    and "register_failure key now st = (b, st')"
  shows "limiter_ok st' \<and> b \<le> 2 \<and> warm_up_attempts st' = warm_up_attempts st \<and> max_entries st' = max_entries st"
proof -
  define n where "n = (case map_of (storage st) key of None \<Rightarrow> 1 | Some s \<Rightarrow> attempts s + 1)"
  have n: "n \<le> warm_up_attempts st + 1" using assms(2) by (auto simp: n_def split: option.splits)
  define state where "state = \<lparr>attempts = n,
    blocked_until = (if n > warm_up_attempts st then Some (now + b * 1000000) else None), last_attempt = now\<rparr>"
  have b: "b = (if n > warm_up_attempts st then min (2 ^ (n - warm_up_attempts st)) (max_backoff_seconds st) else 0)"
    and st': "st' = prune_failures now (st\<lparr>storage := AList.update key state (storage st)\<rparr>)"
    using assms(3) unfolding register_failure_def n_def [symmetric] Let_def state_def by auto
  have "b \<le> 2"
  proof (cases "n > warm_up_attempts st")
    case True
    with n have "n - warm_up_attempts st = 1" by simp
    with b True show ?thesis by simp
  qed (use b in simp)
  moreover have "limiter_ok st'"
  proof -
    let ?u = "st\<lparr>storage := AList.update key state (storage st)\<rparr>"
    have d: "distinct (map fst (storage ?u))" using assms(1) by (simp add: limiter_ok_def distinct_update)
    have "length (storage st') \<le> max_entries st"
      unfolding st' prune_failures_def Let_def using evict_oldest_length by simp
    moreover have "\<forall>(k, s)\<in>set (storage ?u). attempts s \<le> warm_up_attempts st + 1 \<and>
        (blocked_until s = None \<longrightarrow> attempts s \<le> warm_up_attempts st)"
    proof -
      have "set (storage ?u) \<subseteq> insert (key, state) (set (storage st))" by (simp add: set_update_subset)
      moreover have "attempts state \<le> warm_up_attempts st + 1 \<and> (blocked_until state = None \<longrightarrow> attempts state \<le> warm_up_attempts st)"
        using n by (simp add: state_def)
      ultimately show ?thesis using assms(1) unfolding limiter_ok_def by fastforce
    qed
    then have "\<forall>(k, s)\<in>set (storage st'). attempts s \<le> warm_up_attempts st + 1 \<and>
        (blocked_until s = None \<longrightarrow> attempts s \<le> warm_up_attempts st)"
      using prune_failures_subset [of now ?u] unfolding st' by (rule ball_subset)
    moreover have "distinct (map fst (storage st'))" unfolding st' using d by (rule distinct_prune)
    ultimately show ?thesis unfolding limiter_ok_def by (simp add: st')
  qed
  ultimately show ?thesis by (simp add: st')
qed


lemma failed_login_ok:
  assumes "limiter_ok st" and "failed_login key now st = (a, st')"
  shows "limiter_ok st' \<and> (\<forall>b. a = Unauthorized b \<longrightarrow> b \<le> 2) \<and>
    warm_up_attempts st' = warm_up_attempts st \<and> max_entries st' = max_entries st"
proof -
  obtain r st1 where r: "retry_after key now st = (r, st1)" by fastforce
  note ok = retry_after_ok [OF assms(1) r]
  show ?thesis
  proof (cases r)
    case None
    obtain b st2 where b: "register_failure key now st1 = (b, st2)" by fastforce
    from register_failure_ok [OF ok(1) ok(2) [OF None] b] ok(3,4) r None b assms(2) show ?thesis
      by (auto simp: failed_login_def)
  qed (use ok r assms(2) in \<open>auto simp: failed_login_def\<close>)
qed

lemma auth_run_ok:
  assumes "limiter_ok st" and "auth_run es st = (answers, st')"
  shows "limiter_ok st' \<and> (\<forall>b. Unauthorized b \<in> set answers \<longrightarrow> b \<le> 2) \<and> max_entries st' = max_entries st"
  using assms(2)
proof (induction es arbitrary: answers st' rule: rev_induct)
  case Nil
  with assms(1) show ?case by (simp add: auth_run_def)
next
  case (snoc e es)
  obtain as st1 where run: "auth_run es st = (as, st1)" by fastforce
  with snoc.prems have step: "auth_step e (as, st1) = (answers, st')" by (simp add: auth_run_def)
  note IH = snoc.IH [OF run]
  show ?case
  proof (cases e)
    case (Wrong key now)
    obtain a st2 where a: "failed_login key now st1 = (a, st2)" by fastforce
    with step Wrong have "answers = as @ [a]" "st' = st2" by auto
    with failed_login_ok [OF _ a] IH show ?thesis by auto
  next
    case (Right key)
    with step IH limiter_ok_delete [of st1 key] show ?thesis by (auto simp: register_success_def)
  qed
qed

lemma limiter_ok_new: "limiter_ok (new_failure_limiter mb wu n)"
  by (simp add: limiter_ok_def new_failure_limiter_def)

text \<open>The storage stays bounded whatever keys the clients invent: after any history of right and
  wrong credentials it holds at most the configured number of entries, one per key.\<close>

theorem failure_storage_is_bounded:
  assumes "auth_run es (new_failure_limiter mb wu n) = (answers, st)"
  shows "length (storage st) \<le> n \<and> distinct (map fst (storage st))"
  using auth_run_ok [OF limiter_ok_new assms] by (simp add: limiter_ok_def new_failure_limiter_def)

theorem failure_storage_is_bounded_witness:
  "let st = snd (auth_run [Wrong ''a'' 0, Wrong ''b'' 1, Wrong ''c'' 2] (new_failure_limiter 300 3 2)) in
   length (storage st) \<le> 2 \<and> map fst (storage st) = [''b'', ''c'']"
proof -
  let ?r = "auth_run [Wrong ''a'' 0, Wrong ''b'' 1, Wrong ''c'' 2] (new_failure_limiter 300 3 2)"
  have "map fst (storage (snd ?r)) = [''b'', ''c'']" by code_simp
  with failure_storage_is_bounded [of _ 300 3 2 "fst ?r" "snd ?r"] show ?thesis by (simp add: Let_def)
qed

text \<open>The back-off never grows beyond two seconds for a client that goes through the login route or
  the feed token check: asking the limiter first forgets the failures as soon as a block has
  run out, although the rule for a key that is still remembered doubles the back-off with every
  failure up to the configured maximum.\<close>

theorem backoff_never_escalates:
  assumes "auth_run es (new_failure_limiter mb wu n) = (answers, st)"
  shows "(\<forall>b. Unauthorized b \<in> set answers \<longrightarrow> b \<le> 2) \<and>
    (\<forall>lm key s now. map_of (storage lm) key = Some s \<and> warm_up_attempts lm \<le> attempts s \<longrightarrow>
      fst (register_failure key now lm) = min (2 ^ (attempts s + 1 - warm_up_attempts lm)) (max_backoff_seconds lm))"
  using auth_run_ok [OF limiter_ok_new assms] by (auto simp: register_failure_def Let_def)

theorem backoff_never_escalates_witness:
  "fst (auth_run (map (\<lambda>k. Wrong ''a'' (k * 10000000)) [1, 2, 3, 4, 5, 6, 7, 8]) (new_failure_limiter 300 3 10)) =
     [Unauthorized 0, Unauthorized 0, Unauthorized 0, Unauthorized 2, Unauthorized 0, Unauthorized 0, Unauthorized 0, Unauthorized 2] \<and>
   list_all (\<lambda>a. case a of Unauthorized b \<Rightarrow> b \<le> 2 | _ \<Rightarrow> True)
     (fst (auth_run (map (\<lambda>k. Wrong ''a'' (k * 10000000)) [1, 2, 3, 4, 5, 6, 7, 8]) (new_failure_limiter 300 3 10)))"
proof -
  let ?r = "auth_run (map (\<lambda>k. Wrong ''a'' (k * 10000000)) [1, 2, 3, 4, 5, 6, 7, 8]) (new_failure_limiter 300 3 10)"
  have "fst ?r = [Unauthorized 0, Unauthorized 0, Unauthorized 0, Unauthorized 2, Unauthorized 0, Unauthorized 0, Unauthorized 0, Unauthorized 2]"
    by code_simp
  moreover have "\<forall>b. Unauthorized b \<in> set (fst ?r) \<longrightarrow> b \<le> 2"
    using backoff_never_escalates [of _ 300 3 10 "fst ?r" "snd ?r"] by simp
  ultimately show ?thesis unfolding list_all_iff by (auto split: login_answer.split)
qed

section \<open>Calls at the same time\<close>

text \<open>The semaphore is its counter; \<open>calls\<close> are the contexts that acquired a slot.  A context that
  waits without a timeout waits until a slot is free, so entering takes a free slot.\<close>

record concurrency_limiter =
  max_concurrent_calls :: nat
  permits :: nat

definition new_concurrency_limiter :: "int \<Rightarrow> concurrency_limiter option" where
  "new_concurrency_limiter max_calls =
     (if max_calls \<le> 0 then None else Some \<lparr>max_concurrent_calls = nat max_calls, permits = nat max_calls\<rparr>)"

definition acquire_slot :: "concurrency_limiter \<Rightarrow> bool \<times> concurrency_limiter" where
  "acquire_slot l = (if 0 < permits l then (True, l\<lparr>permits := permits l - 1\<rparr>) else (False, l))"

definition release_slot :: "concurrency_limiter \<Rightarrow> concurrency_limiter" where
  "release_slot l = l\<lparr>permits := permits l + 1\<rparr>"

definition get_available_slots :: "concurrency_limiter \<Rightarrow> nat" where
  "get_available_slots l = permits l"

definition get_active_calls :: "concurrency_limiter \<Rightarrow> int" where
  "get_active_calls l = int (max_concurrent_calls l) - int (permits l)"

inductive call_step :: "concurrency_limiter \<times> nat set \<Rightarrow> concurrency_limiter \<times> nat set \<Rightarrow> bool" where
  call_enter: "acquire_slot l = (True, l') \<Longrightarrow> c \<notin> calls \<Longrightarrow> call_step (l, calls) (l', insert c calls)"
| call_timeout: "acquire_slot l = (False, l') \<Longrightarrow> call_step (l, calls) (l', calls)"
| call_exit: "c \<in> calls \<Longrightarrow> call_step (l, calls) (release_slot l, calls - {c})"

inductive_cases call_stepE: "call_step s s'"

lemma call_step_invariant:
  assumes "call_step\<^sup>*\<^sup>* (l0, {}) (l, calls)" and "permits l0 = max_concurrent_calls l0"
  shows "finite calls \<and> permits l + card calls = max_concurrent_calls l0 \<and> max_concurrent_calls l = max_concurrent_calls l0"
  using assms(1)
proof (induction "(l, calls)" arbitrary: l calls rule: rtranclp_induct)
  case base
  then show ?case using assms(2) by simp
next
  case (step s)
  obtain l1 calls1 where s: "s = (l1, calls1)" by (cases s)
  from step.hyps(3) [OF s] have inv: "finite calls1" "permits l1 + card calls1 = max_concurrent_calls l0"
    "max_concurrent_calls l1 = max_concurrent_calls l0" by auto
  have "Suc (card (calls1 - {c})) = card calls1" if "c \<in> calls1" for c
    using inv(1) that by (rule card_Suc_Diff1)
  with step.hyps(2) [unfolded s] inv show ?case
    by (elim call_stepE) (fastforce simp: acquire_slot_def release_slot_def simp del: card_Diff_insert card_Diff_singleton
        split: if_splits)+
qed

text \<open>No more calls run at the same time than the limiter allows, and its counters tell how many
  there are, however entering, timing out and leaving interleave.\<close>

theorem calls_within_the_limit:
  assumes "new_concurrency_limiter m = Some l0" and "call_step\<^sup>*\<^sup>* (l0, {}) (l, calls)"
  shows "int (card calls) \<le> m \<and> get_active_calls l = int (card calls) \<and>
    int (get_available_slots l) = m - int (card calls)"
  using call_step_invariant [OF assms(2)] assms(1)
  by (auto simp: new_concurrency_limiter_def get_active_calls_def get_available_slots_def split: if_splits)

theorem calls_within_the_limit_witness:
  "\<exists>l0 l. new_concurrency_limiter 2 = Some l0 \<and> call_step\<^sup>*\<^sup>* (l0, {}) (l, {7}) \<and> get_active_calls l = 1"
proof -
  have new: "new_concurrency_limiter 2 = Some \<lparr>max_concurrent_calls = 2, permits = 2\<rparr>"
    by (simp add: new_concurrency_limiter_def)
  have "call_step (\<lparr>max_concurrent_calls = 2, permits = 2\<rparr>, {}) (\<lparr>max_concurrent_calls = 2, permits = 1\<rparr>, insert 7 {})"
    by (rule call_enter) (simp_all add: acquire_slot_def)
  then have run: "call_step\<^sup>*\<^sup>* (\<lparr>max_concurrent_calls = 2, permits = 2\<rparr>, {})
      (\<lparr>max_concurrent_calls = 2, permits = 1\<rparr>, {7})" by simp
  show ?thesis using calls_within_the_limit [OF new run] new run by auto
qed

end
