(* ===== verification/Auth.thy ===== *)
theory Auth
  imports RateLimits PyRegex
begin

text \<open>
  \<open>app/auth/middleware.py\<close>, \<open>app/auth/feed_tokens.py\<close> and the feed token actions of
  \<open>app/writer/actions/feeds.py\<close>: which request is let through, and for whom.

  A request is the method, the decoded path, the client address, the two query arguments and
  the session's user id.  The tables are lists of rows.  The SHA-256 digest and the random
  token id and secret are arguments.  A revoked or missing row, a missing subscription and an
  unknown path are the branches of the source.
\<close>

record user_row =
  user_id :: int
  username :: string
  password_hash :: string
  role :: string
  discord_id :: "string option"
  discord_username :: "string option"
  manual_feed_allowance :: "int option"

record token_row =
  token_id :: string
  token_hash :: string
  token_secret :: "string option"
  token_feed_id :: "int option"
  token_user_id :: int
  last_used_at :: "int option"
  revoked :: bool

text \<open>A post is its guid and its feed; a subscription its user and its feed.\<close>

record auth_db =
  users :: "user_row list"
  feed_tokens :: "token_row list"
  subscriptions :: "(int \<times> int) list"
  post_feeds :: "(string \<times> int) list"

definition get_user :: "auth_db \<Rightarrow> int \<Rightarrow> user_row option" where
  "get_user db uid = find (\<lambda>u. user_id u = uid) (users db)"

definition live_token :: "auth_db \<Rightarrow> string \<Rightarrow> token_row option" where
  "live_token db tid = find (\<lambda>t. token_id t = tid \<and> \<not> revoked t) (feed_tokens db)"

section \<open>What a path names\<close>

definition first_piece :: "char \<Rightarrow> string \<Rightarrow> string" where
  "first_piece c s = hd (split_on c s)"

definition resolve_user_id_from_feed_path :: "string \<Rightarrow> int option" where
  "resolve_user_id_from_feed_path path =
     (if starts_with ''/feed/user/'' path
      then int_of_str (first_piece CHR ''/'' (drop (length ''/feed/user/'') path)) else None)"

definition strip_suffix :: "string \<Rightarrow> string \<Rightarrow> string" where
  "strip_suffix suffix s = take (length s - length suffix) s"

definition guid_of_post_path :: "string \<Rightarrow> string" where
  "guid_of_post_path remainder =
     (if ends_with ''/original.mp3'' remainder then strip_suffix ''/original.mp3'' remainder
      else if ends_with ''/chapters.json'' remainder then strip_suffix ''/chapters.json'' remainder
      else if ends_with ''.mp3'' remainder then strip_suffix ''.mp3'' remainder
      else first_piece CHR ''.'' (first_piece CHR ''/'' remainder))"

definition resolve_feed_id :: "auth_db \<Rightarrow> string \<Rightarrow> int option" where
  "resolve_feed_id db path =
     (if starts_with ''/feed/'' path then int_of_str (first_piece CHR ''/'' (drop (length ''/feed/'') path))
      else if starts_with ''/api/posts/'' path then
        (let parts = split_on CHR ''/'' path in
         if length parts < 4 then None else map_of (post_feeds db) (parts ! 3))
      else if starts_with ''/post/'' path then
        map_of (post_feeds db) (guid_of_post_path (drop (length ''/post/'') path))
      else None)"

section \<open>Feed tokens\<close>

definition verify_subscription :: "auth_db \<Rightarrow> user_row \<Rightarrow> int \<Rightarrow> bool" where
  "verify_subscription db u feed_id \<longleftrightarrow>
     role u = ''admin'' \<or> feed_id = 1 \<or> (user_id u, feed_id) \<in> set (subscriptions db)"

definition validate_token_access :: "auth_db \<Rightarrow> token_row \<Rightarrow> user_row \<Rightarrow> string \<Rightarrow> bool" where
  "validate_token_access db t u path =
     (case token_feed_id t of
        None \<Rightarrow>
          (case resolve_user_id_from_feed_path path of
             Some requested \<Rightarrow> requested = user_id u
           | None \<Rightarrow> (case resolve_feed_id db path of
                Some resource_feed \<Rightarrow> verify_subscription db u resource_feed
              | None \<Rightarrow> True))
      | Some own \<Rightarrow>
          (case resolve_feed_id db path of
             None \<Rightarrow> False
           | Some feed_id \<Rightarrow> if feed_id \<noteq> own then False else verify_subscription db u own))"

definition touch_token :: "string \<Rightarrow> int \<Rightarrow> token_row \<Rightarrow> token_row" where
  "touch_token secret now t = t\<lparr>last_used_at := Some now,
     token_secret := (if token_secret t = None \<and> secret \<noteq> [] then Some secret else token_secret t)\<rparr>"

primrec update_first :: "('a \<Rightarrow> bool) \<Rightarrow> ('a \<Rightarrow> 'a) \<Rightarrow> 'a list \<Rightarrow> 'a list" where
  "update_first p f [] = []"
| "update_first p f (x # xs) = (if p x then f x # xs else x # update_first p f xs)"

text \<open>None where the action raises ValueError.\<close>

definition touch_feed_access_token_action :: "string \<Rightarrow> string \<Rightarrow> int \<Rightarrow> auth_db \<Rightarrow> (bool \<times> auth_db) option" where
  "touch_feed_access_token_action tid secret now db =
     (if tid = [] then None
      else if live_token db tid = None then Some (False, db)
      else Some (True, db\<lparr>feed_tokens :=
        update_first (\<lambda>t. token_id t = tid \<and> \<not> revoked t) (touch_token secret now) (feed_tokens db)\<rparr>))"

definition create_feed_access_token_action ::
  "(string \<Rightarrow> string) \<Rightarrow> int \<Rightarrow> int option \<Rightarrow> string \<Rightarrow> string \<Rightarrow> auth_db \<Rightarrow> ((string \<times> string) \<times> auth_db) option" where
  "create_feed_access_token_action sha256 uid feed_id fresh_id fresh_secret db =
     (if uid = 0 then None
      else let same = (\<lambda>t. token_user_id t = uid \<and> \<not> revoked t \<and> token_feed_id t = feed_id) in
        (case find same (feed_tokens db) of
           Some t \<Rightarrow>
             (case token_secret t of
                Some s \<Rightarrow> if s \<noteq> [] then Some ((token_id t, s), db)
                  else Some ((token_id t, fresh_secret), db\<lparr>feed_tokens := update_first same
                    (\<lambda>t. t\<lparr>token_hash := sha256 fresh_secret, token_secret := Some fresh_secret\<rparr>) (feed_tokens db)\<rparr>)
              | None \<Rightarrow> Some ((token_id t, fresh_secret), db\<lparr>feed_tokens := update_first same
                  (\<lambda>t. t\<lparr>token_hash := sha256 fresh_secret, token_secret := Some fresh_secret\<rparr>) (feed_tokens db)\<rparr>))
         | None \<Rightarrow> Some ((fresh_id, fresh_secret), db\<lparr>feed_tokens := feed_tokens db @
             [\<lparr>token_id = fresh_id, token_hash = sha256 fresh_secret, token_secret = Some fresh_secret,
               token_feed_id = feed_id, token_user_id = uid, last_used_at = None, revoked = False\<rparr>]\<rparr>)))"

text \<open>The user and feed a token stands for; the writer's touch is part of the step.\<close>

definition authenticate_feed_token ::
  "(string \<Rightarrow> string) \<Rightarrow> string \<Rightarrow> string \<Rightarrow> string \<Rightarrow> int \<Rightarrow> auth_db \<Rightarrow> (user_row \<times> int option) option \<times> auth_db" where
  "authenticate_feed_token sha256 tid secret path now db =
     (if tid = [] then (None, db)
      else case live_token db tid of None \<Rightarrow> (None, db)
        | Some t \<Rightarrow>
           if token_hash t \<noteq> sha256 secret then (None, db)
           else (case get_user db (token_user_id t) of None \<Rightarrow> (None, db)
             | Some u \<Rightarrow>
                if \<not> validate_token_access db t u path then (None, db)
                else (Some (u, token_feed_id t),
                  (case touch_feed_access_token_action tid secret now db of Some (_, db') \<Rightarrow> db' | None \<Rightarrow> db))))"

section \<open>The guard before every request\<close>

definition PUBLIC_PATHS :: "string list" where
  "PUBLIC_PATHS =
     [''/'', ''/health'', ''/robots.txt'', ''/manifest.json'', ''/favicon.ico'', ''/api/auth/login'',
      ''/api/auth/status'', ''/api/auth/discord/status'', ''/api/auth/discord/login'',
      ''/api/auth/discord/callback'', ''/api/landing/status'', ''/api/billing/stripe-webhook'']"

definition PUBLIC_PREFIXES :: "string list" where
  "PUBLIC_PREFIXES = [''/static/'', ''/assets/'', ''/images/'', ''/fonts/'', ''/.well-known/'']"

definition PUBLIC_EXTENSIONS :: "string list" where
  "PUBLIC_EXTENSIONS =
     [''.js'', ''.css'', ''.map'', ''.png'', ''.jpg'', ''.jpeg'', ''.gif'', ''.svg'', ''.ico'', ''.webp'', ''.txt'']"

definition is_public_request :: "string \<Rightarrow> bool" where
  "is_public_request path \<longleftrightarrow> path \<in> set PUBLIC_PATHS \<or>
     list_ex (\<lambda>prefix. starts_with prefix path) PUBLIC_PREFIXES \<or>
     list_ex (\<lambda>ext. ends_with ext path) PUBLIC_EXTENSIONS"

definition not_slash :: re where
  "not_slash = Cls (\<lambda>c. c \<noteq> CHR ''/'')"

definition TOKEN_PROTECTED_PATTERNS :: "re list" where
  "TOKEN_PROTECTED_PATTERNS =
     [Seqs [Bos, Lit ''/feed/'', Plus not_slash, Eos],
      Seqs [Bos, Lit ''/feed/user/'', Plus not_slash, Eos],
      Seqs [Bos, Lit ''/api/posts/'', Plus Any, Lit ''/'',
        Grp 1 (Alt (Lit ''audio'') (Seq (Lit ''download'') (Opt (Lit ''/original'')))), Eos],
      Seqs [Bos, Lit ''/post/'', Plus Any, Alts [Lit ''.mp3'', Lit ''/original.mp3'', Lit ''/chapters.json''], Eos]]"

definition is_token_protected_endpoint :: "string \<Rightarrow> bool" where
  "is_token_protected_endpoint path \<longleftrightarrow> list_ex (\<lambda>pattern. re_found pattern path) TOKEN_PROTECTED_PATTERNS"

datatype session_value = NoValue | IntValue int | StrValue string

record web_request =
  req_method :: string
  req_path :: string
  remote_addr :: "string option"
  arg_feed_token :: "string option"
  arg_feed_secret :: "string option"

record web_state =
  session_user :: session_value
  failures :: failure_limiter
  adb :: auth_db

text \<open>\<open>str.isdigit\<close> and \<open>int\<close> of the session's value; an unknown user is removed from the session.\<close>

definition load_session_user :: "web_state \<Rightarrow> user_row option \<times> web_state" where
  "load_session_user st =
     (let uid = (case session_user st of
            NoValue \<Rightarrow> None
          | IntValue i \<Rightarrow> Some i
          | StrValue s \<Rightarrow> if s \<noteq> [] \<and> list_all digit_char s then int_of_str s else None) in
      case uid of None \<Rightarrow> (None, st)
      | Some i \<Rightarrow> (case get_user (adb st) i of
          None \<Rightarrow> (None, st\<lparr>session_user := NoValue\<rparr>)
        | Some u \<Rightarrow> (Some u, st)))"

definition feed_token_limiter_key :: "web_request \<Rightarrow> string \<Rightarrow> string" where
  "feed_token_limiter_key req client =
     (case arg_feed_token req of
        Some tid \<Rightarrow> if tid \<noteq> [] then ''feed_token:'' @ take 64 tid else client
      | None \<Rightarrow> client)"

definition authenticate_feed_token_from_query ::
  "(string \<Rightarrow> string) \<Rightarrow> web_request \<Rightarrow> int \<Rightarrow> auth_db \<Rightarrow> (user_row \<times> int option) option \<times> auth_db" where
  "authenticate_feed_token_from_query sha256 req now db =
     (case (arg_feed_token req, arg_feed_secret req) of
        (Some tid, Some secret) \<Rightarrow>
          if tid = [] \<or> secret = [] then (None, db)
          else authenticate_feed_token sha256 tid secret (req_path req) now db
      | _ \<Rightarrow> (None, db))"

datatype guard_answer =
    Pass "(user_row \<times> int option option) option"
  | JsonUnauthorized
  | TokenUnauthorized int
  | TooManyAttempts int

text \<open>\<open>Pass None\<close> goes on without a user; \<open>Pass (Some (u, None))\<close> is a session user and
  \<open>Pass (Some (u, Some f))\<close> the user of a feed token.\<close>

definition enforce_authentication ::
  "(string \<Rightarrow> string) \<Rightarrow> bool option \<Rightarrow> web_request \<Rightarrow> int \<Rightarrow> web_state \<Rightarrow> guard_answer \<times> web_state" where
  "enforce_authentication sha256 require_auth req now st =
     (if req_method req = ''OPTIONS'' then (Pass None, st)
      else if require_auth \<noteq> Some True then (Pass None, st)
      else if is_public_request (req_path req) then (Pass None, st)
      else let client = (case remote_addr req of Some a \<Rightarrow> if a = [] then ''unknown'' else a | None \<Rightarrow> ''unknown'') in
        (case load_session_user st of
           (Some u, st) \<Rightarrow> (Pass (Some (u, None)), st\<lparr>failures := register_success client (failures st)\<rparr>)
         | (None, st) \<Rightarrow>
            if is_token_protected_endpoint (req_path req) then
              (let limiter_key = feed_token_limiter_key req client in
               case authenticate_feed_token_from_query sha256 req now (adb st) of
                 (Some (u, f), db') \<Rightarrow>
                   (Pass (Some (u, Some f)), st\<lparr>failures := register_success limiter_key (failures st), adb := db'\<rparr>)
               | (None, _) \<Rightarrow>
                   (case failed_login limiter_key now (failures st) of
                      (TooManyRequests r, l) \<Rightarrow> (TooManyAttempts r, st\<lparr>failures := l\<rparr>)
                    | (Unauthorized b, l) \<Rightarrow> (TokenUnauthorized b, st\<lparr>failures := l\<rparr>)))
            else (JsonUnauthorized, st)))"

text \<open>\<open>require_admin\<close>: \<open>Inl\<close> the status code of the error response.\<close>

definition require_admin :: "bool option \<Rightarrow> int option \<Rightarrow> auth_db \<Rightarrow> int + user_row option" where
  "require_admin require_auth current_user db =
     (if require_auth \<noteq> Some True then Inr None
      else case current_user of None \<Rightarrow> Inl 401
        | Some uid \<Rightarrow> (case get_user db uid of None \<Rightarrow> Inl 404
           | Some u \<Rightarrow> if role u \<noteq> ''admin'' then Inl 403 else Inr (Some u)))"

section \<open>What passes the guard\<close>

lemma get_user_id: "get_user db i = Some u \<Longrightarrow> user_id u = i \<and> u \<in> set (users db)"
  by (auto simp: get_user_def find_Some_iff)

lemma live_token_row: "live_token db tid = Some t \<Longrightarrow> t \<in> set (feed_tokens db) \<and> token_id t = tid \<and> \<not> revoked t"
  by (auto simp: live_token_def find_Some_iff)

lemma load_session_user_row:
  "load_session_user st = (Some u, st') \<Longrightarrow> u \<in> set (users (adb st)) \<and> st' = st \<and>
    (session_user st = IntValue (user_id u) \<or> (\<exists>s. session_user st = StrValue s \<and> int_of_str s = Some (user_id u)))"
  by (auto simp: load_session_user_def Let_def split: session_value.splits option.splits if_splits dest: get_user_id)

lemma load_session_user_db [simp]: "load_session_user st = (r, st') \<Longrightarrow> adb st' = adb st"
  by (auto simp: load_session_user_def Let_def split: option.splits)

lemma authenticate_feed_token_row:
  assumes "authenticate_feed_token sha256 tid secret path now db = (Some (u, f), db')"
  shows "\<exists>t\<in>set (feed_tokens db). token_id t = tid \<and> \<not> revoked t \<and> token_hash t = sha256 secret \<and>
    token_feed_id t = f \<and> u \<in> set (users db) \<and> user_id u = token_user_id t \<and> validate_token_access db t u path"
  using assms
  by (auto simp: authenticate_feed_token_def split: if_splits option.splits dest!: live_token_row get_user_id)

lemma validate_own_feed:
  "validate_token_access db t u path \<Longrightarrow> token_feed_id t = Some f \<Longrightarrow>
    resolve_feed_id db path = Some f \<and> verify_subscription db u f"
  by (auto simp: validate_token_access_def split: option.splits if_splits)

text \<open>C11.  With authentication on, a request for anything that is not public passes for a user of the
  table only: the one the session names, or, on a token endpoint, the owner of a feed token that
  is not revoked and whose secret was presented; and a token that was issued for one feed opens
  that feed's paths only, while its owner is subscribed (or an administrator, or the feed is
  feed 1).\<close>

theorem passing_the_guard_needs_credentials:
  assumes "enforce_authentication sha256 (Some True) req now st = (Pass who, st')"
    and "req_method req \<noteq> ''OPTIONS''" and "\<not> is_public_request (req_path req)"
  shows "\<exists>u\<in>set (users (adb st)).
      who = Some (u, None) \<and>
        (session_user st = IntValue (user_id u) \<or> (\<exists>s. session_user st = StrValue s \<and> int_of_str s = Some (user_id u))) \<or>
      (\<exists>t\<in>set (feed_tokens (adb st)). \<exists>secret.
        who = Some (u, Some (token_feed_id t)) \<and> is_token_protected_endpoint (req_path req) \<and>
        arg_feed_token req = Some (token_id t) \<and> arg_feed_secret req = Some secret \<and>
        \<not> revoked t \<and> token_hash t = sha256 secret \<and> token_user_id t = user_id u \<and>
        (\<forall>f. token_feed_id t = Some f \<longrightarrow> resolve_feed_id (adb st) (req_path req) = Some f \<and>
           (role u = ''admin'' \<or> f = 1 \<or> (user_id u, f) \<in> set (subscriptions (adb st)))))"
proof (cases "load_session_user st")
  case (Pair r st1)
  show ?thesis
  proof (cases r)
    case (Some u)
    with Pair assms have "who = Some (u, None)" by (auto simp: enforce_authentication_def Let_def)
    with load_session_user_row [OF Pair [unfolded Some]] show ?thesis by blast
  next
    case None
    have db: "adb st1 = adb st" using Pair by simp
    obtain u f db' where tok: "authenticate_feed_token_from_query sha256 req now (adb st) = (Some (u, f), db')"
      and who: "who = Some (u, Some f)" and ep: "is_token_protected_endpoint (req_path req)"
      using assms None Pair db
      by (auto simp: enforce_authentication_def Let_def split: if_splits option.splits prod.splits login_answer.splits)
    obtain tid secret where args: "arg_feed_token req = Some tid" "arg_feed_secret req = Some secret"
      "authenticate_feed_token sha256 tid secret (req_path req) now (adb st) = (Some (u, f), db')"
      using tok by (auto simp: authenticate_feed_token_from_query_def split: option.splits if_splits)
    from authenticate_feed_token_row [OF args(3)] obtain t where t: "t \<in> set (feed_tokens (adb st))"
      "token_id t = tid" "\<not> revoked t" "token_hash t = sha256 secret" "token_feed_id t = f" "u \<in> set (users (adb st))"
      "user_id u = token_user_id t" "validate_token_access (adb st) t u (req_path req)" by blast
    have "resolve_feed_id (adb st) (req_path req) = Some g \<and>
        (role u = ''admin'' \<or> g = 1 \<or> (user_id u, g) \<in> set (subscriptions (adb st)))" if "token_feed_id t = Some g" for g
      using validate_own_feed [OF t(8) that] by (simp add: verify_subscription_def)
    with t who ep args show ?thesis by (intro bexI [of _ u] disjI2 bexI [of _ t] exI [of _ secret]) auto
  qed
qed

lemma first_piece_takeWhile: "first_piece c s = takeWhile (\<lambda>d. d \<noteq> c) s"
  unfolding first_piece_def by (induction s) (auto split: list.splits)

lemma split_on_append: "c \<notin> set a \<Longrightarrow> split_on c (a @ c # b) = a # split_on c b"
  by (induction a) auto

lemma resolve_api_posts:
  assumes "c = CHR ''/''" and "c \<in> set rest"
  shows "resolve_feed_id db (''/api/posts/'' @ rest) = map_of (post_feeds db) (first_piece c rest)"
proof -
  have parts: "split_on CHR ''/'' (''/api/posts/'' @ rest) = '''' # ''api'' # ''posts'' # split_on CHR ''/'' rest"
    by simp
  have "split_on c rest \<noteq> []" by simp
  then obtain p ps where p: "split_on CHR ''/'' rest = p # ps" using assms(1) by (cases "split_on c rest") auto
  have "resolve_feed_id db (''/api/posts/'' @ rest) = map_of (post_feeds db) p"
    unfolding resolve_feed_id_def parts p by (simp add: starts_with_def)
  then show ?thesis using p assms(1) by (simp add: first_piece_def)
qed

text \<open>An aggregate token is checked against the owner's subscriptions only when the path's feed can be
  found.  The guid of an \<open>/api/posts/\<close> path is cut at its first slash, so that for an episode
  whose guid is a URL no feed is found and the request passes, whoever the owner is.\<close>

theorem url_guid_escapes_the_subscription_check:
  assumes "token_feed_id t = None" and "guid = prefix @ ''/'' @ rest" and "CHR ''/'' \<notin> set prefix"
    and "prefix \<notin> fst ` set (post_feeds db)"
  shows "validate_token_access db t u (''/api/posts/'' @ guid @ ''/audio'')"
proof -
  have "first_piece CHR ''/'' (guid @ ''/audio'') = prefix"
    using assms(2,3) by (simp add: first_piece_takeWhile takeWhile_append)
  moreover have "CHR ''/'' \<in> set (guid @ ''/audio'')" using assms(2) by simp
  moreover have "map_of (post_feeds db) prefix = None" using assms(4) by (simp add: map_of_eq_None_iff)
  ultimately have "resolve_feed_id db (''/api/posts/'' @ guid @ ''/audio'') = None"
    using resolve_api_posts [OF refl, of "guid @ ''/audio''" db] by simp
  moreover have "resolve_user_id_from_feed_path (''/api/posts/'' @ guid @ ''/audio'') = None"
    by (simp add: resolve_user_id_from_feed_path_def starts_with_def)
  ultimately show ?thesis using assms(1) by (simp add: validate_token_access_def)
qed

definition example_user :: user_row where
  "example_user = \<lparr>user_id = 7, username = ''ann'', password_hash = '''', role = ''user'',
     discord_id = None, discord_username = None, manual_feed_allowance = None\<rparr>"

definition example_token :: "int option \<Rightarrow> token_row" where
  "example_token f = \<lparr>token_id = ''t1'', token_hash = rev ''secret'', token_secret = None, token_feed_id = f,
     token_user_id = 7, last_used_at = None, revoked = False\<rparr>"

definition example_state :: "int option \<Rightarrow> (int \<times> int) list \<Rightarrow> web_state" where
  "example_state f subs = \<lparr>session_user = NoValue, failures = new_failure_limiter 300 3 10,
     adb = \<lparr>users = [example_user], feed_tokens = [example_token f], subscriptions = subs,
       post_feeds = [(''https://pod.example/ep1'', 5), (''ep2'', 5)]\<rparr>\<rparr>"

definition example_request :: "string \<Rightarrow> web_request" where
  "example_request path = \<lparr>req_method = ''GET'', req_path = path, remote_addr = None,
     arg_feed_token = Some ''t1'', arg_feed_secret = Some ''secret''\<rparr>"

lemmas example_defs = example_user_def example_token_def example_state_def example_request_def

theorem passing_the_guard_needs_credentials_witness:
  "fst (enforce_authentication rev (Some True) (example_request ''/post/ep2.mp3'') 0 (example_state (Some 5) [(7, 5)])) =
     Pass (Some (example_user, Some (Some 5))) \<and>
   resolve_feed_id (adb (example_state (Some 5) [(7, 5)])) ''/post/ep2.mp3'' = Some 5"
proof -
  let ?r = "enforce_authentication rev (Some True) (example_request ''/post/ep2.mp3'') 0 (example_state (Some 5) [(7, 5)])"
  have run: "fst ?r = Pass (Some (example_user, Some (Some 5)))" by code_simp
  then have r: "?r = (Pass (Some (example_user, Some (Some 5))), snd ?r)" by (metis prod.collapse)
  have "\<not> is_public_request (req_path (example_request ''/post/ep2.mp3''))" by code_simp
  moreover have "req_method (example_request ''/post/ep2.mp3'') \<noteq> ''OPTIONS''" by (simp add: example_request_def)
  ultimately show ?thesis
    using passing_the_guard_needs_credentials [OF r] run by (auto simp: example_defs)
qed

theorem url_guid_escapes_the_subscription_check_witness:
  "validate_token_access (adb (example_state None [])) (example_token None) example_user
     (''/api/posts/'' @ ''https://pod.example/ep1'' @ ''/audio'') \<and>
   \<not> verify_subscription (adb (example_state None [])) example_user 5 \<and>
   fst (enforce_authentication rev (Some True) (example_request (''/api/posts/'' @ ''https://pod.example/ep1'' @ ''/audio'')) 0
     (example_state None [])) = Pass (Some (example_user, Some None))"
proof (intro conjI)
  show "validate_token_access (adb (example_state None [])) (example_token None) example_user
     (''/api/posts/'' @ ''https://pod.example/ep1'' @ ''/audio'')"
    by (rule url_guid_escapes_the_subscription_check [of _ _ "''https:''" "''/pod.example/ep1''"])
      (simp_all add: example_token_def example_state_def)
  show "\<not> verify_subscription (adb (example_state None [])) example_user 5" by code_simp
  show "fst (enforce_authentication rev (Some True) (example_request (''/api/posts/'' @ ''https://pod.example/ep1'' @ ''/audio'')) 0
     (example_state None [])) = Pass (Some (example_user, Some None))" by code_simp
qed

section \<open>Issued tokens open their feed\<close>

definition tokens_consistent :: "(string \<Rightarrow> string) \<Rightarrow> auth_db \<Rightarrow> bool" where
  "tokens_consistent sha256 db \<longleftrightarrow> distinct (map token_id (feed_tokens db)) \<and>
     (\<forall>t\<in>set (feed_tokens db). token_id t \<noteq> [] \<and>
        (case token_secret t of None \<Rightarrow> True | Some s \<Rightarrow> s = [] \<or> token_hash t = sha256 s))"

lemma map_update_first: "(\<And>x. g (f x) = g x) \<Longrightarrow> map g (update_first p f xs) = map g xs"
  by (induction xs) auto

lemma find_update_first_id:
  assumes "distinct (map token_id ts)" and "find p ts = Some t" and "\<And>x. token_id (f x) = token_id x" and "\<not> revoked (f t)"
  shows "find (\<lambda>x. token_id x = token_id t \<and> \<not> revoked x) (update_first p f ts) = Some (f t)"
  using assms(1,2)
proof (induction ts)
  case (Cons x ts)
  show ?case
  proof (cases "p x")
    case True
    with Cons.prems assms(3,4) show ?thesis by auto
  next
    case False
    with Cons.prems have ft: "find p ts = Some t" by simp
    then have "t \<in> set ts" by (auto simp: find_Some_iff)
    with Cons.prems(1) have "token_id x \<noteq> token_id t" by auto
    with False Cons ft show ?thesis by simp
  qed
qed simp

lemma update_first_consistent:
  assumes "tokens_consistent sha256 db" and "\<And>x. token_id (f x) = token_id x"
    and "\<And>x. x \<in> set (feed_tokens db) \<Longrightarrow> (case token_secret (f x) of None \<Rightarrow> True | Some s \<Rightarrow> s = [] \<or> token_hash (f x) = sha256 s)"
  shows "tokens_consistent sha256 (db\<lparr>feed_tokens := update_first p f (feed_tokens db)\<rparr>)"
proof -
  have "x \<in> set xs \<or> (\<exists>y\<in>set xs. x = f y)" if "x \<in> set (update_first p f xs)" for x xs
    using that by (induction xs) (auto split: if_splits)
  with assms show ?thesis
    unfolding tokens_consistent_def by (simp add: map_update_first) metis
qed

lemma create_token_spec:
  assumes "create_feed_access_token_action sha256 uid feed_id fid fsec db = Some ((tid, sec), db')"
    and "tokens_consistent sha256 db" and "fid \<notin> token_id ` set (feed_tokens db)" and "fid \<noteq> []" and "fsec \<noteq> []"
  shows "tokens_consistent sha256 db' \<and> tid \<noteq> [] \<and> sec \<noteq> [] \<and> users db' = users db \<and> subscriptions db' = subscriptions db \<and>
    post_feeds db' = post_feeds db \<and>
    (\<exists>t. live_token db' tid = Some t \<and> token_user_id t = uid \<and> token_feed_id t = feed_id \<and> token_hash t = sha256 sec)"
proof -
  define same :: "token_row \<Rightarrow> bool" where "same = (\<lambda>t. token_user_id t = uid \<and> \<not> revoked t \<and> token_feed_id t = feed_id)"
  define renew :: "token_row \<Rightarrow> token_row" where "renew = (\<lambda>t. t\<lparr>token_hash := sha256 fsec, token_secret := Some fsec\<rparr>)"
  note create = assms(1) [unfolded create_feed_access_token_action_def same_def [symmetric] renew_def [symmetric] Let_def]
  have ids: "distinct (map token_id (feed_tokens db))" using assms(2) by (simp add: tokens_consistent_def)
  have uid: "uid \<noteq> 0" using create by (auto split: if_splits)
  show ?thesis
  proof (cases "find same (feed_tokens db)")
    case None
    with create uid have db': "tid = fid" "sec = fsec"
      "db' = db\<lparr>feed_tokens := feed_tokens db @ [\<lparr>token_id = fid, token_hash = sha256 fsec, token_secret = Some fsec,
         token_feed_id = feed_id, token_user_id = uid, last_used_at = None, revoked = False\<rparr>]\<rparr>" by auto
    have "find (\<lambda>t. token_id t = fid \<and> \<not> revoked t) (feed_tokens db) = None"
      using assms(3) by (auto simp: find_None_iff)
    then have "live_token db' fid = Some \<lparr>token_id = fid, token_hash = sha256 fsec, token_secret = Some fsec,
         token_feed_id = feed_id, token_user_id = uid, last_used_at = None, revoked = False\<rparr>"
      by (simp add: live_token_def db' find_append)
    with db' assms show ?thesis by (auto simp: tokens_consistent_def)
  next
    case (Some t)
    then have t: "t \<in> set (feed_tokens db)" "same t" by (auto simp: find_Some_iff)
    have live: "live_token db (token_id t) = Some t"
    proof -
      have "find (\<lambda>x. token_id x = token_id t \<and> \<not> revoked x) (update_first same id (feed_tokens db)) = Some (id t)"
        by (rule find_update_first_id [OF ids Some]) (use t(2) in \<open>simp_all add: same_def\<close>)
      moreover have "update_first same id ts = ts" for ts by (induction ts) auto
      ultimately show ?thesis by (simp add: live_token_def)
    qed
    show ?thesis
    proof (cases "\<exists>s. token_secret t = Some s \<and> s \<noteq> []")
      case True
      then obtain s where s: "token_secret t = Some s" "s \<noteq> []" by blast
      with create uid Some have "tid = token_id t" "sec = s" "db' = db" by auto
      moreover have "token_hash t = sha256 s" "token_id t \<noteq> []" using assms(2) t(1) s by (auto simp: tokens_consistent_def split: option.splits)
      ultimately show ?thesis using live t(2) s assms(2) by (auto simp: same_def)
    next
      case False
      then have db': "tid = token_id t" "sec = fsec" "db' = db\<lparr>feed_tokens := update_first same renew (feed_tokens db)\<rparr>"
        using create uid Some by (auto split: option.splits if_splits)
      have "find (\<lambda>x. token_id x = token_id t \<and> \<not> revoked x) (update_first same renew (feed_tokens db)) = Some (renew t)"
        by (rule find_update_first_id [OF ids Some]) (use t(2) in \<open>simp_all add: same_def renew_def\<close>)
      then have "live_token db' tid = Some (renew t)" by (simp add: live_token_def db')
      moreover have "tokens_consistent sha256 db'"
        unfolding db' by (rule update_first_consistent [OF assms(2)]) (simp_all add: renew_def)
      moreover have "token_id t \<noteq> []" using assms(2) t(1) by (auto simp: tokens_consistent_def)
      ultimately show ?thesis using t(2) assms(5) db' by (auto simp: same_def renew_def)
    qed
  qed
qed

text \<open>C37.  A token that was just issued works: presented with the secret that was returned, on a path of
  the feed it was issued for, it is accepted and stands for the user who asked for it, whether
  it is new, was issued before, or had lost its secret.\<close>

theorem issued_token_is_accepted:
  assumes "create_feed_access_token_action sha256 uid (Some f) fid fsec db = Some ((tid, sec), db')"
    and "tokens_consistent sha256 db" and "fid \<notin> token_id ` set (feed_tokens db)" and "fid \<noteq> []" and "fsec \<noteq> []"
    and "get_user db uid = Some u" and "resolve_feed_id db path = Some f" and "verify_subscription db u f"
  shows "fst (authenticate_feed_token sha256 tid sec path now db') = Some (u, Some f) \<and> tokens_consistent sha256 db'"
proof -
  from create_token_spec [OF assms(1-5)] obtain t where t: "tokens_consistent sha256 db'" "tid \<noteq> []" "sec \<noteq> []"
    "users db' = users db" "subscriptions db' = subscriptions db" "post_feeds db' = post_feeds db"
    "live_token db' tid = Some t" "token_user_id t = uid" "token_feed_id t = Some f" "token_hash t = sha256 sec" by blast
  have "get_user db' uid = Some u" using assms(6) t(4) by (simp add: get_user_def)
  moreover have "resolve_feed_id db' path = Some f" using assms(7) t(6) unfolding resolve_feed_id_def by metis
  moreover have "verify_subscription db' u f" using assms(8) t(5) by (simp add: verify_subscription_def)
  ultimately show ?thesis
    using t by (simp add: authenticate_feed_token_def validate_token_access_def)
qed

theorem issued_token_is_accepted_witness:
  "\<exists>tid sec db'. create_feed_access_token_action rev 7 (Some 5) ''n2'' ''s2'' (adb (example_state (Some 5) [(7, 5)])) = Some ((tid, sec), db') \<and>
     tid = ''t1'' \<and> sec = ''s2'' \<and>
     fst (authenticate_feed_token rev tid sec ''/post/ep2.mp3'' 9 db') = Some (example_user, Some 5)"
proof -
  let ?db = "adb (example_state (Some 5) [(7, 5)])"
  let ?db' = "?db\<lparr>feed_tokens := [(example_token (Some 5))\<lparr>token_hash := rev ''s2'', token_secret := Some ''s2''\<rparr>]\<rparr>"
  have run: "create_feed_access_token_action rev 7 (Some 5) ''n2'' ''s2'' ?db = Some ((''t1'', ''s2''), ?db')"
    by (simp add: create_feed_access_token_action_def example_defs Let_def)
  have "fst (authenticate_feed_token rev ''t1'' ''s2'' ''/post/ep2.mp3'' 9 ?db') = Some (example_user, Some 5)"
    using issued_token_is_accepted [OF run, of example_user "''/post/ep2.mp3''" 9]
    by (simp add: example_defs tokens_consistent_def get_user_def verify_subscription_def resolve_feed_id_def
        starts_with_def ends_with_def guid_of_post_path_def strip_suffix_def)
  with run show ?thesis by blast
qed

end
