(* ===== verification/Accounts.thy ===== *)
theory Accounts
  imports Auth
begin

text \<open>
  \<open>app/auth/service.py\<close> with the account actions of \<open>app/writer/actions/users.py\<close>: creating,
  deleting and changing users.  An exception is a value; an operation that raises leaves the
  database as it was, since the writer rolls back.  Password hashing is an argument.  A new row
  gets the id that SQLite gives, one more than the largest.
\<close>

datatype account_error =
    ServiceError
  | InvalidCredentials
  | DuplicateUser
  | LastAdminRemoval
  | UserLimitExceeded
  | ActionError

definition normalize_username :: "string \<Rightarrow> string" where
  "normalize_username name = py_lower (py_strip name)"

definition user_named :: "auth_db \<Rightarrow> string \<Rightarrow> user_row option" where
  "user_named db name = find (\<lambda>u. username u = name) (users db)"

definition next_user_id :: "auth_db \<Rightarrow> int" where
  "next_user_id db = fold max (map user_id (users db)) 0 + 1"

definition modify_user :: "int \<Rightarrow> (user_row \<Rightarrow> user_row) \<Rightarrow> auth_db \<Rightarrow> auth_db" where
  "modify_user uid f db = db\<lparr>users := map (\<lambda>u. if user_id u = uid then f u else u) (users db)\<rparr>"

section \<open>The writer's actions\<close>

definition create_user_action ::
  "(string \<Rightarrow> string) \<Rightarrow> string \<Rightarrow> string \<Rightarrow> string \<Rightarrow> auth_db \<Rightarrow> account_error + int \<times> auth_db" where
  "create_user_action hash_password name password rl db =
     (let name = py_lower (py_strip name); rl = (if rl = [] then ''user'' else rl) in
      if name = [] then Inl ActionError
      else if password = [] then Inl ActionError
      else if rl \<notin> {''admin'', ''user''} then Inl ActionError
      else if user_named db name \<noteq> None then Inl ActionError
      else Inr (next_user_id db, db\<lparr>users := users db @
        [\<lparr>user_id = next_user_id db, username = name, password_hash = hash_password password, role = rl,
          discord_id = None, discord_username = None, manual_feed_allowance = None\<rparr>]\<rparr>))"

definition update_user_password_action ::
  "(string \<Rightarrow> string) \<Rightarrow> int \<Rightarrow> string \<Rightarrow> auth_db \<Rightarrow> account_error + auth_db" where
  "update_user_password_action hash_password uid new_password db =
     (if uid = 0 then Inl ActionError
      else if new_password = [] then Inl ActionError
      else if get_user db uid = None then Inl ActionError
      else Inr (modify_user uid (\<lambda>u. u\<lparr>password_hash := hash_password new_password\<rparr>) db))"

definition delete_user_action :: "int \<Rightarrow> auth_db \<Rightarrow> account_error + bool \<times> auth_db" where
  "delete_user_action uid db =
     (if uid = 0 then Inl ActionError
      else if get_user db uid = None then Inr (False, db)
      else Inr (True, db\<lparr>feed_tokens := filter (\<lambda>t. token_user_id t \<noteq> uid) (feed_tokens db),
        users := filter (\<lambda>u. user_id u \<noteq> uid) (users db),
        subscriptions := filter (\<lambda>(u, f). u \<noteq> uid) (subscriptions db)\<rparr>))"

definition set_user_role_action :: "int \<Rightarrow> string \<Rightarrow> auth_db \<Rightarrow> account_error + auth_db" where
  "set_user_role_action uid rl db =
     (if uid = 0 \<or> rl = [] then Inl ActionError
      else if rl \<notin> {''admin'', ''user''} then Inl ActionError
      else if get_user db uid = None then Inl ActionError
      else Inr (modify_user uid (\<lambda>u. u\<lparr>role := rl\<rparr>) db))"

definition set_manual_feed_allowance_action :: "int \<Rightarrow> int option \<Rightarrow> auth_db \<Rightarrow> account_error + auth_db" where
  "set_manual_feed_allowance_action uid allowance db =
     (if uid = 0 then Inl ActionError
      else if get_user db uid = None then Inl ActionError
      else Inr (modify_user uid (\<lambda>u. u\<lparr>manual_feed_allowance := allowance\<rparr>) db))"

text \<open>The search for a free name is a \<open>while\<close> loop; that it ends is proved below.  The model's column
  normalises the name it is given, and the column's unique index refuses a name that exists.\<close>

partial_function (option) free_name :: "auth_db \<Rightarrow> string \<Rightarrow> string \<Rightarrow> nat \<Rightarrow> string option" where
  "free_name db base name counter =
     (if user_named db name = None then Some name
      else free_name db base (base @ ''_'' @ nat_str counter) (counter + 1))"

declare free_name.simps [code]

definition upsert_discord_user_action ::
  "string \<Rightarrow> string \<Rightarrow> bool \<Rightarrow> auth_db \<Rightarrow> (account_error + (int \<times> bool) \<times> auth_db) option" where
  "upsert_discord_user_action did dname allow_registration db =
     (if did = [] \<or> dname = [] then Some (Inl ActionError)
      else case find (\<lambda>u. discord_id u = Some did) (users db) of
        Some u \<Rightarrow> Some (Inr ((user_id u, False),
          db\<lparr>users := update_first (\<lambda>u. discord_id u = Some did) (\<lambda>u. u\<lparr>discord_username := Some dname\<rparr>) (users db)\<rparr>))
      | None \<Rightarrow>
          if \<not> allow_registration then Some (Inl ActionError)
          else let base = take 50 (map (\<lambda>c. if c = CHR '' '' then CHR ''_'' else c) (py_lower dname)) in
            map_option (\<lambda>name.
                if user_named db (normalize_username name) \<noteq> None then Inl ActionError
                else Inr ((next_user_id db, True), db\<lparr>users := users db @
                  [\<lparr>user_id = next_user_id db, username = normalize_username name, password_hash = [], role = ''user'',
                    discord_id = Some did, discord_username = Some dname, manual_feed_allowance = None\<rparr>]\<rparr>))
              (free_name db base base 1))"

section \<open>The service\<close>

definition count_admins :: "auth_db \<Rightarrow> nat" where
  "count_admins db = length (filter (\<lambda>u. role u = ''admin'') (users db))"

definition authenticate :: "(string \<Rightarrow> string \<Rightarrow> bool) \<Rightarrow> string \<Rightarrow> string \<Rightarrow> auth_db \<Rightarrow> user_row option" where
  "authenticate verify_password name password db =
     (case user_named db (normalize_username name) of
        None \<Rightarrow> None
      | Some u \<Rightarrow> if verify_password password (password_hash u) then Some u else None)"

text \<open>\<open>limit\<close> is None when it is missing or not a number.\<close>

definition enforce_user_limit :: "int option \<Rightarrow> auth_db \<Rightarrow> account_error + unit" where
  "enforce_user_limit limit db =
     (case limit of None \<Rightarrow> Inr ()
      | Some l \<Rightarrow> if l < 0 then Inr ()
          else if l = 0 \<or> l \<le> int (length (users db)) then Inl UserLimitExceeded else Inr ())"

definition create_user ::
  "(string \<Rightarrow> string) \<Rightarrow> int option \<Rightarrow> string \<Rightarrow> string \<Rightarrow> string \<Rightarrow> auth_db \<Rightarrow> account_error + user_row \<times> auth_db" where
  "create_user hash_password limit name password rl db =
     (let normalized = normalize_username name in
      if normalized = [] then Inl ServiceError
      else if rl \<notin> {''admin'', ''user''} then Inl ServiceError
      else if user_named db normalized \<noteq> None then Inl DuplicateUser
      else (case enforce_user_limit limit db of Inl e \<Rightarrow> Inl e
        | Inr _ \<Rightarrow> (case create_user_action hash_password normalized password rl db of
            Inl _ \<Rightarrow> Inl ServiceError
          | Inr (uid, db') \<Rightarrow> (case get_user db' uid of None \<Rightarrow> Inl ServiceError | Some u \<Rightarrow> Inr (u, db')))))"

definition update_password :: "(string \<Rightarrow> string) \<Rightarrow> user_row \<Rightarrow> string \<Rightarrow> auth_db \<Rightarrow> account_error + auth_db" where
  "update_password hash_password u new_password db =
     (case update_user_password_action hash_password (user_id u) new_password db of
        Inl _ \<Rightarrow> Inl ServiceError | Inr db' \<Rightarrow> Inr db')"

definition change_password ::
  "(string \<Rightarrow> string) \<Rightarrow> (string \<Rightarrow> string \<Rightarrow> bool) \<Rightarrow> user_row \<Rightarrow> string \<Rightarrow> string \<Rightarrow> auth_db \<Rightarrow> account_error + auth_db" where
  "change_password hash_password verify_password u current_password new_password db =
     (if \<not> verify_password current_password (password_hash u) then Inl InvalidCredentials
      else update_password hash_password u new_password db)"

definition delete_user :: "user_row \<Rightarrow> auth_db \<Rightarrow> account_error + auth_db" where
  "delete_user u db =
     (if role u = ''admin'' \<and> count_admins db \<le> 1 then Inl LastAdminRemoval
      else (case delete_user_action (user_id u) db of Inl _ \<Rightarrow> Inl ServiceError | Inr (_, db') \<Rightarrow> Inr db'))"

definition set_role :: "user_row \<Rightarrow> string \<Rightarrow> auth_db \<Rightarrow> account_error + auth_db" where
  "set_role u rl db =
     (if rl \<notin> {''admin'', ''user''} then Inl ServiceError
      else if role u = ''admin'' \<and> rl \<noteq> ''admin'' \<and> count_admins db \<le> 1 then Inl LastAdminRemoval
      else (case set_user_role_action (user_id u) rl db of Inl _ \<Rightarrow> Inl ServiceError | Inr db' \<Rightarrow> Inr db'))"

section \<open>Names and administrators\<close>

lemma user_named_None: "user_named db name = None \<longleftrightarrow> name \<notin> username ` set (users db)"
  by (auto simp: user_named_def find_None_iff)

lemma free_name_free: "user_named db name = None \<Longrightarrow> free_name db base name c = Some name"
  by (subst free_name.simps) simp

lemma free_name_taken:
  "user_named db name \<noteq> None \<Longrightarrow> free_name db base name c = free_name db base (base @ ''_'' @ nat_str c) (c + 1)"
  by (subst free_name.simps) (rule if_not_P)

lemma free_name_returns:
  "\<exists>n. free_name db base name counter = Some n \<and> user_named db n = None"
proof -
  let ?K = "\<lambda>c. {k. c \<le> k \<and> user_named db (base @ ''_'' @ nat_str k) \<noteq> None}"
  have fin: "finite (?K c)" for c
  proof (rule finite_imageD)
    show "finite ((\<lambda>k. base @ ''_'' @ nat_str k) ` ?K c)"
      by (rule finite_subset [of _ "username ` set (users db)"]) (auto simp: user_named_None)
    show "inj_on (\<lambda>k. base @ ''_'' @ nat_str k) (?K c)" by (auto simp: inj_on_def)
  qed
  have numbered: "\<exists>n. free_name db base (base @ ''_'' @ nat_str c) (c + 1) = Some n \<and> user_named db n = None" for c
  proof (induction "card (?K c)" arbitrary: c rule: less_induct)
    case less
    show ?case
    proof (cases "user_named db (base @ ''_'' @ nat_str c) = None")
      case False
      then have "?K (c + 1) \<subset> ?K c" by (auto simp: Suc_le_eq)
      then have "card (?K (c + 1)) < card (?K c)" by (rule psubset_card_mono [OF fin])
      from less [OF this] show ?thesis unfolding free_name_taken [OF False] .
    qed (auto simp: free_name_free)
  qed
  show ?thesis
  proof (cases "user_named db name = None")
    case False
    from numbered [of counter] show ?thesis unfolding free_name_taken [OF False] .
  qed (auto simp: free_name_free)
qed

text \<open>The first login through Discord always ends: the search for a user name returns a name nobody
  has, so the action answers whatever names are taken.\<close>

theorem discord_login_answers:
  "\<exists>r. upsert_discord_user_action did dname allow db = Some r \<and>
    (\<forall>base. \<exists>n. free_name db base base 1 = Some n \<and> n \<notin> username ` set (users db))"
proof -
  have free: "\<exists>n. free_name db base base 1 = Some n \<and> n \<notin> username ` set (users db)" for base
    using free_name_returns [of db base base 1] by (auto simp: user_named_None)
  moreover have "\<exists>r. upsert_discord_user_action did dname allow db = Some r"
    unfolding upsert_discord_user_action_def Let_def
    using free [of "take 50 (map (\<lambda>c. if c = CHR '' '' then CHR ''_'' else c) (py_lower dname))"]
    by (auto split: option.split)
  ultimately show ?thesis by blast
qed

datatype account_op =
    CreateUser string string string
  | DeleteUser int
  | SetRole int string
  | SetAllowance int "int option"
  | ChangePassword int string string
  | DiscordLogin string string bool

text \<open>The routes look the user up and answer 404 when there is none.\<close>

definition with_user :: "auth_db \<Rightarrow> int \<Rightarrow> (user_row \<Rightarrow> account_error + auth_db) \<Rightarrow> auth_db" where
  "with_user db uid f = (case get_user db uid of None \<Rightarrow> db
     | Some u \<Rightarrow> (case f u of Inl _ \<Rightarrow> db | Inr db' \<Rightarrow> db'))"

fun account_step ::
  "(string \<Rightarrow> string) \<Rightarrow> (string \<Rightarrow> string \<Rightarrow> bool) \<Rightarrow> int option \<Rightarrow> account_op \<Rightarrow> auth_db \<Rightarrow> auth_db" where
  "account_step hash verify limit (CreateUser name pw rl) db =
     (case create_user hash limit name pw rl db of Inl _ \<Rightarrow> db | Inr (_, db') \<Rightarrow> db')"
| "account_step hash verify limit (DeleteUser uid) db = with_user db uid (\<lambda>u. delete_user u db)"
| "account_step hash verify limit (SetRole uid rl) db = with_user db uid (\<lambda>u. set_role u rl db)"
| "account_step hash verify limit (SetAllowance uid a) db =
     (case set_manual_feed_allowance_action uid a db of Inl _ \<Rightarrow> db | Inr db' \<Rightarrow> db')"
| "account_step hash verify limit (ChangePassword uid old new) db =
     with_user db uid (\<lambda>u. change_password hash verify u old new db)"
| "account_step hash verify limit (DiscordLogin did dname allow) db =
     (case upsert_discord_user_action did dname allow db of Some (Inr (_, db')) \<Rightarrow> db' | _ \<Rightarrow> db)"

definition accounts_ok :: "auth_db \<Rightarrow> bool" where
  "accounts_ok db \<longleftrightarrow> distinct (map user_id (users db)) \<and> distinct (map username (users db)) \<and>
     (\<exists>u\<in>set (users db). role u = ''admin'')"

lemma next_user_id_greater: "u \<in> set (users db) \<Longrightarrow> user_id u < next_user_id db"
proof -
  have start: "b \<le> fold max xs b" for b :: int and xs
    by (induction xs arbitrary: b) (auto intro: order_trans [OF max.cobounded2])
  have "x \<in> set xs \<Longrightarrow> x \<le> fold max xs b" for x b :: int and xs
  proof (induction xs arbitrary: b)
    case (Cons y ys)
    have "max y b \<le> fold max ys (max y b)" by (rule start)
    with Cons show ?case by auto
  qed simp
  then have "u \<in> set (users db) \<Longrightarrow> user_id u \<le> fold max (map user_id (users db)) 0" by simp
  then show "u \<in> set (users db) \<Longrightarrow> user_id u < next_user_id db" by (simp add: next_user_id_def)
qed

lemma same_row: "distinct (map user_id us) \<Longrightarrow> u \<in> set us \<Longrightarrow> v \<in> set us \<Longrightarrow> user_id u = user_id v \<Longrightarrow> u = v"
  by (auto simp: distinct_map inj_on_def)

lemma other_admin:
  assumes "accounts_ok db" and "u \<in> set (users db)" and "role u \<noteq> ''admin'' \<or> 1 < count_admins db"
  shows "\<exists>a\<in>set (users db). role a = ''admin'' \<and> user_id a \<noteq> user_id u"
proof (rule ccontr)
  assume none: "\<not> ?thesis"
  have ids: "distinct (map user_id (users db))" using assms(1) by (simp add: accounts_ok_def)
  let ?as = "filter (\<lambda>a. role a = ''admin'') (users db)"
  have "set ?as \<subseteq> {u}" using none same_row [OF ids _ assms(2)] by auto
  then have "card (set ?as) \<le> card {u}" by (intro card_mono) simp_all
  moreover have "distinct ?as" using ids by (simp add: distinct_map)
  then have "card (set ?as) = length ?as" by (rule distinct_card)
  moreover have "card {u} = 1" by simp
  ultimately have "length ?as \<le> 1" by linarith
  with assms(3) have "role u \<noteq> ''admin''" by (simp add: count_admins_def)
  obtain a where a: "a \<in> set (users db)" "role a = ''admin''" using assms(1) by (auto simp: accounts_ok_def)
  have "user_id a = user_id u" using none a by blast
  with same_row [OF ids a(1) assms(2)] a(2) \<open>role u \<noteq> ''admin''\<close> show False by simp
qed

lemma accounts_ok_modify:
  assumes "accounts_ok db" and "\<And>u. user_id (f u) = user_id u" and "\<And>u. username (f u) = username u"
    and "\<exists>a\<in>set (users db). role a = ''admin'' \<and> (user_id a = uid \<longrightarrow> role (f a) = ''admin'')"
  shows "accounts_ok (modify_user uid f db)"
proof -
  have "map user_id (users (modify_user uid f db)) = map user_id (users db)"
    "map username (users (modify_user uid f db)) = map username (users db)"
    using assms(2,3) by (auto simp: modify_user_def)
  moreover have "\<exists>u\<in>set (users (modify_user uid f db)). role u = ''admin''"
    using assms(4) by (auto simp: modify_user_def)
  ultimately show ?thesis using assms(1) by (simp add: accounts_ok_def)
qed

lemma accounts_ok_append:
  assumes "accounts_ok db" and "user_named db (username u) = None" and "user_id u = next_user_id db"
  shows "accounts_ok (db\<lparr>users := users db @ [u]\<rparr>)"
  using assms next_user_id_greater [of _ db] by (fastforce simp: accounts_ok_def user_named_None)

lemma accounts_ok_keep_role:
  assumes "accounts_ok db" and "\<And>u. user_id (f u) = user_id u" and "\<And>u. username (f u) = username u" and "\<And>u. role (f u) = role u"
  shows "accounts_ok (modify_user uid f db)"
  using assms by (intro accounts_ok_modify) (auto simp: accounts_ok_def)

lemma delete_user_ok:
  assumes "accounts_ok db" and "get_user db uid = Some u" and "delete_user u db = Inr db'"
  shows "accounts_ok db'"
proof -
  have u: "u \<in> set (users db)" "user_id u = uid" using get_user_id [OF assms(2)] by auto
  from assms(3) have guard: "role u \<noteq> ''admin'' \<or> 1 < count_admins db"
    by (auto simp: delete_user_def split: if_splits)
  have "users db' = users db \<or> users db' = filter (\<lambda>x. user_id x \<noteq> uid) (users db)"
    using assms(3) u by (auto simp: delete_user_def delete_user_action_def split: if_splits)
  with other_admin [OF assms(1) u(1) guard] u assms(1) show ?thesis
    by (auto simp: accounts_ok_def distinct_map_filter)
qed

lemma set_role_ok:
  assumes "accounts_ok db" and "get_user db uid = Some u" and "set_role u rl db = Inr db'"
  shows "accounts_ok db'"
proof -
  have u: "u \<in> set (users db)" "user_id u = uid" using get_user_id [OF assms(2)] by auto
  have db': "db' = modify_user uid (\<lambda>u. u\<lparr>role := rl\<rparr>) db"
    and guard: "rl = ''admin'' \<or> role u \<noteq> ''admin'' \<or> 1 < count_admins db"
    using assms(3) u by (auto simp: set_role_def set_user_role_action_def split: if_splits)
  have "\<exists>a\<in>set (users db). role a = ''admin'' \<and> (user_id a = uid \<longrightarrow> rl = ''admin'')"
  proof (cases "rl = ''admin''")
    case True
    then show ?thesis using assms(1) by (auto simp: accounts_ok_def)
  next
    case False
    with guard other_admin [OF assms(1) u(1)] u(2) show ?thesis by auto
  qed
  then show ?thesis unfolding db' by (intro accounts_ok_modify [OF assms(1)]) auto
qed

lemma create_user_ok:
  assumes "accounts_ok db" and "create_user hash limit name pw rl db = Inr (u, db')"
  shows "accounts_ok db'"
proof -
  have "\<exists>u. db' = db\<lparr>users := users db @ [u]\<rparr> \<and> user_named db (username u) = None \<and> user_id u = next_user_id db"
    using assms(2)
    by (auto simp: create_user_def create_user_action_def Let_def split: if_splits sum.splits option.splits)
  then show ?thesis using accounts_ok_append [OF assms(1)] by blast
qed

lemma discord_ok:
  assumes "accounts_ok db" and "upsert_discord_user_action did dname allow db = Some (Inr (r, db'))"
  shows "accounts_ok db'"
proof (cases "find (\<lambda>u. discord_id u = Some did) (users db)")
  case None
  have "\<exists>u. db' = db\<lparr>users := users db @ [u]\<rparr> \<and> user_named db (username u) = None \<and> user_id u = next_user_id db"
    using assms(2) None by (auto simp: upsert_discord_user_action_def Let_def split: if_splits)
  then show ?thesis using accounts_ok_append [OF assms(1)] by blast
next
  case (Some v)
  have db': "db' = db\<lparr>users := update_first (\<lambda>u. discord_id u = Some did) (\<lambda>u. u\<lparr>discord_username := Some dname\<rparr>) (users db)\<rparr>"
    using assms(2) Some by (auto simp: upsert_discord_user_action_def split: if_splits)
  have keep: "map g (update_first p (\<lambda>u. u\<lparr>discord_username := Some dname\<rparr>) us) = map g us"
    if "\<And>u. g (u\<lparr>discord_username := Some dname\<rparr>) = g u" for g :: "user_row \<Rightarrow> 'b" and p us
    using that by (rule map_update_first)
  have "\<exists>u\<in>set (users db'). role u = ''admin''"
  proof -
    have "''admin'' \<in> set (map role (users db))" using assms(1) by (force simp: accounts_ok_def)
    then have "''admin'' \<in> set (map role (users db'))" unfolding db' by (simp add: map_update_first)
    then show ?thesis by auto
  qed
  with assms(1) show ?thesis unfolding accounts_ok_def db' by (simp add: map_update_first)
qed

lemma account_step_ok: "accounts_ok db \<Longrightarrow> accounts_ok (account_step hash verify limit op db)"
proof (cases op)
  case (ChangePassword uid old new)
  assume ok: "accounts_ok db"
  have "accounts_ok db'" if "change_password hash verify u old new db = Inr db'" for u db'
    using that accounts_ok_keep_role [OF ok, of "\<lambda>u. u\<lparr>password_hash := hash new\<rparr>"]
    by (auto simp: change_password_def update_password_def update_user_password_action_def split: if_splits sum.splits)
  with ok ChangePassword show ?thesis by (auto simp: with_user_def split: option.split sum.split)
next
  case (SetAllowance uid a)
  assume ok: "accounts_ok db"
  with SetAllowance accounts_ok_keep_role [OF ok, of "\<lambda>u. u\<lparr>manual_feed_allowance := a\<rparr>"] show ?thesis
    by (auto simp: set_manual_feed_allowance_action_def)
qed (auto simp: with_user_def split: option.split sum.split intro: create_user_ok delete_user_ok set_role_ok discord_ok)

text \<open>C23.  However accounts are created, deleted, promoted, demoted and logged in through Discord, there is
  always an administrator left, and no two users share an id or a name.\<close>

theorem an_administrator_always_remains:
  assumes "accounts_ok db"
  shows "let db' = fold (account_step hash verify limit) ops db in
    (\<exists>u\<in>set (users db'). role u = ''admin'') \<and> distinct (map user_id (users db')) \<and> distinct (map username (users db'))"
proof -
  have "accounts_ok (fold (account_step hash verify limit) ops db)"
    using assms by (induction ops arbitrary: db) (auto intro: account_step_ok)
  then show ?thesis by (simp add: accounts_ok_def Let_def)
qed

definition example_admin :: user_row where
  "example_admin = \<lparr>user_id = 1, username = ''podly_admin'', password_hash = ''h'', role = ''admin'', discord_id = None,
     discord_username = None, manual_feed_allowance = None\<rparr>"

theorem an_administrator_always_remains_witness:
  "let db' = fold (account_step rev (\<lambda>p h. rev p = h) (Some 5))
       [CreateUser '' Ann '' ''pw'' ''user'', DeleteUser 1, SetRole 2 ''admin'', SetRole 1 ''user'', DiscordLogin ''9'' ''ann'' True]
       \<lparr>users = [example_admin], feed_tokens = [], subscriptions = [], post_feeds = []\<rparr> in
   list_ex (\<lambda>u. role u = ''admin'') (users db') \<and> distinct (map username (users db')) \<and>
   map username (users db') = [''podly_admin'', ''ann'', ''ann_1'']"
proof -
  define db where "db = \<lparr>users = [example_admin], feed_tokens = [], subscriptions = [], post_feeds = []\<rparr>"
  let ?ops = "[CreateUser '' Ann '' ''pw'' ''user'', DeleteUser 1, SetRole 2 ''admin'', SetRole 1 ''user'', DiscordLogin ''9'' ''ann'' True]"
  have ok: "accounts_ok db" by (simp add: db_def accounts_ok_def example_admin_def)
  have run: "map username (users (fold (account_step rev (\<lambda>p h. rev p = h) (Some 5)) ?ops db)) = [''podly_admin'', ''ann'', ''ann_1'']"
    unfolding db_def by code_simp
  show ?thesis
    using an_administrator_always_remains [OF ok, of rev "\<lambda>p h. rev p = h" "Some 5" ?ops] run
    unfolding Let_def list_ex_iff db_def by blast
qed

theorem discord_login_answers_witness:
  "\<exists>r. upsert_discord_user_action ''9'' ''podly admin'' True
     \<lparr>users = [example_admin], feed_tokens = [], subscriptions = [], post_feeds = []\<rparr> = Some r"
  using discord_login_answers [of "''9''" "''podly admin''" True] by blast

text \<open>A limit of 0 users keeps everybody out, although it is documented, with every limit that is not
  positive, as no limit at all; a negative limit is none.\<close>

theorem zero_limit_admits_nobody:
  "(\<exists>e. create_user hash (Some 0) name pw rl db = Inl e) \<and> (limit < 0 \<longrightarrow> enforce_user_limit (Some limit) db = Inr ())"
  by (auto simp: create_user_def enforce_user_limit_def Let_def)

theorem zero_limit_admits_nobody_witness:
  "(\<exists>e. create_user rev (Some 0) ''ann'' ''pw'' ''user'' \<lparr>users = [], feed_tokens = [], subscriptions = [], post_feeds = []\<rparr> = Inl e) \<and>
   enforce_user_limit (Some (-1)) \<lparr>users = [], feed_tokens = [], subscriptions = [], post_feeds = []\<rparr> = Inr ()"
  using zero_limit_admits_nobody [of rev "''ann''" "''pw''" "''user''"
      "\<lparr>users = [], feed_tokens = [], subscriptions = [], post_feeds = []\<rparr>" "-1"] by simp

end
