(* ===== verification/WriterSession.thy ===== *)
theory WriterSession
  imports PyJson
begin

text \<open>
  Commands of the writer, its sessions and the operations on one row: \<open>src/app/writer/protocol.py\<close>
  and \<open>model_ops.py\<close>.  A session holds the committed database and the working copy of the running
  transaction.  The object-relational mapper (construction and flush of a row, lookup, attributes,
  deletion, the commit's own failure) and what the functions of the action modules do to the working
  copy are fields of a record.  Of all that a command can run only the settings' update commits by
  itself; it is modelled in \<open>ConfigStore\<close>, and the other actions are given the working copy only, as
  none of the action modules commits.
\<close>

section \<open>Commands\<close>

datatype command_type = CREATE | UPDATE | DELETE | TRANSACTION | ACTION

text \<open>A value in a command: what JSON has, datetimes (the offset of the zone if there is one, and the
  wall-clock microseconds), command types and commands.\<close>

datatype pyobj =
    PNone
  | PBool bool
  | PNum real
  | PStr string
  | PTime "int option" int
  | PType command_type
  | PList "pyobj list"
  | PDict "(string \<times> pyobj) list"
  | PCommand pyobj command_type "string option" pyobj

record write_command =
  cmd_id :: pyobj
  cmd_type :: command_type
  cmd_model :: "string option"
  cmd_data :: pyobj

datatype writer_error =
    UnknownModel "string option"
  | UnknownAction pyobj
  | UnknownCommandType
  | MissingId command_type
  | RecordNotFound "string option" pyobj
  | TransactionFailed pyobj writer_error
  | Raised string
  | Coded string string

record write_result =
  res_id :: pyobj
  res_success :: bool
  res_data :: pyobj
  res_error :: "writer_error option"

definition ok_result :: "pyobj \<Rightarrow> pyobj \<Rightarrow> write_result" where
  "ok_result i d = \<lparr>res_id = i, res_success = True, res_data = d, res_error = None\<rparr>"

definition failed :: "pyobj \<Rightarrow> writer_error \<Rightarrow> write_result" where
  "failed i e = \<lparr>res_id = i, res_success = False, res_data = PNone, res_error = Some e\<rparr>"

fun py_truth :: "pyobj \<Rightarrow> bool" where
  "py_truth PNone = False"
| "py_truth (PBool b) = b"
| "py_truth (PNum r) = (r \<noteq> 0)"
| "py_truth (PStr s) = (s \<noteq> [])"
| "py_truth (PList xs) = (xs \<noteq> [])"
| "py_truth (PDict kvs) = (kvs \<noteq> [])"
| "py_truth _ = True"

text \<open>\<open>d.get(k, default)\<close>; None when \<open>d\<close> is no dictionary (AttributeError).\<close>

fun dict_get :: "pyobj \<Rightarrow> string \<Rightarrow> pyobj \<Rightarrow> pyobj option" where
  "dict_get (PDict kvs) k d = Some (case map_of kvs k of None \<Rightarrow> d | Some v \<Rightarrow> v)"
| "dict_get _ k d = None"

definition no_attribute :: string where "no_attribute = ''AttributeError''"

definition type_of_value :: "pyobj \<Rightarrow> command_type option" where
  "type_of_value v = (case v of
       PType t \<Rightarrow> Some t
     | PStr s \<Rightarrow>
         (if s = ''create'' then Some CREATE else if s = ''update'' then Some UPDATE
          else if s = ''delete'' then Some DELETE else if s = ''transaction'' then Some TRANSACTION
          else if s = ''action'' then Some ACTION else None)
     | _ \<Rightarrow> None)"

definition model_of_value :: "pyobj \<Rightarrow> string option" where
  "model_of_value v = (case v of PStr s \<Rightarrow> Some s | _ \<Rightarrow> None)"

definition sub_command :: "pyobj \<Rightarrow> string + write_command" where
  "sub_command v = (case v of
       PDict kvs \<Rightarrow>
         (case type_of_value (the (dict_get v ''type'' PNone)) of
            None \<Rightarrow> Inl ''ValueError''
          | Some t \<Rightarrow> Inr \<lparr>cmd_id = the (dict_get v ''id'' (PStr ''sub'')), cmd_type = t,
                            cmd_model = model_of_value (the (dict_get v ''model'' PNone)),
                            cmd_data = the (dict_get v ''data'' (PDict []))\<rparr>)
     | PCommand i t m d \<Rightarrow> Inr \<lparr>cmd_id = i, cmd_type = t, cmd_model = m, cmd_data = d\<rparr>
     | _ \<Rightarrow> Inl no_attribute)"

text \<open>Iteration over the value of \<open>commands\<close>.\<close>

definition items_of :: "pyobj \<Rightarrow> string + pyobj list" where
  "items_of v = (case v of
       PList xs \<Rightarrow> Inr xs
     | PDict kvs \<Rightarrow> Inr (map (\<lambda>kv. PStr (fst kv)) kvs)
     | PStr s \<Rightarrow> Inr (map (\<lambda>c. PStr [c]) s)
     | _ \<Rightarrow> Inl ''TypeError'')"

section \<open>Sessions\<close>

record 'db session =
  committed :: 'db
  working :: 'db

definition rollback :: "'db session \<Rightarrow> 'db session" where
  "rollback s = s\<lparr>working := committed s\<rparr>"

text \<open>An action on the session: what it leaves, and its value or what it raises.\<close>

type_synonym 'db action = "pyobj \<Rightarrow> 'db session \<Rightarrow> 'db session \<times> (string + pyobj)"

text \<open>What the settings need beside the mapper: whether this process may create a missing row (its role), the
  defaults, the columns of the row 1, \<open>str\<close>, and what the scheduler and the reload of the running
  configuration raise.\<close>

record 'db settings_env =
  se_creates :: bool
  se_defaults :: "string \<Rightarrow> (string \<times> pyobj) list"
  se_column :: "string \<Rightarrow> string \<Rightarrow> 'db \<Rightarrow> pyobj"
  se_text :: "pyobj \<Rightarrow> string"
  se_scheduler :: "pyobj \<times> pyobj \<Rightarrow> pyobj \<times> pyobj \<Rightarrow> string option"
  se_hydrate :: "'db \<Rightarrow> string option"

record 'db backend =
  is_model :: "string \<Rightarrow> bool"
  insert_row :: "string \<Rightarrow> pyobj \<Rightarrow> 'db \<Rightarrow> string + pyobj option \<times> 'db"
  row_exists :: "string \<Rightarrow> pyobj \<Rightarrow> 'db \<Rightarrow> bool"
  has_column :: "string \<Rightarrow> string \<Rightarrow> bool"
  set_column :: "string \<Rightarrow> pyobj \<Rightarrow> string \<Rightarrow> pyobj \<Rightarrow> 'db \<Rightarrow> 'db"
  delete_row :: "string \<Rightarrow> pyobj \<Rightarrow> 'db \<Rightarrow> 'db"
  commit_error :: "'db \<Rightarrow> string option"
  action_function :: "string \<Rightarrow> (pyobj \<Rightarrow> 'db \<Rightarrow> 'db \<times> (string + pyobj)) option"
  settings_store :: "'db settings_env"

definition commit :: "'db backend \<Rightarrow> 'db session \<Rightarrow> string + 'db session" where
  "commit be s = (case commit_error be (working s) of None \<Rightarrow> Inr (s\<lparr>committed := working s\<rparr>) | Some e \<Rightarrow> Inl e)"

section \<open>One row\<close>

definition set_columns :: "'db backend \<Rightarrow> string \<Rightarrow> pyobj \<Rightarrow> (string \<times> pyobj) list \<Rightarrow> 'db \<Rightarrow> 'db" where
  "set_columns be m pk kvs db =
     foldl (\<lambda>d (k, v). if k \<noteq> ''id'' \<and> has_column be m k then set_column be m pk k v d else d) db kvs"

definition execute_model_command ::
  "'db backend \<Rightarrow> write_command \<Rightarrow> string \<Rightarrow> 'db session \<Rightarrow> 'db session \<times> (string + write_result)" where
  "execute_model_command be cmd m s =
     (let i = cmd_id cmd in
      if cmd_type cmd = CREATE then
        (case insert_row be m (cmd_data cmd) (working s) of
           Inl e \<Rightarrow> (s, Inl e)
         | Inr (pk, db) \<Rightarrow> (s\<lparr>working := db\<rparr>,
             Inr (ok_result i (case pk of None \<Rightarrow> PNone | Some v \<Rightarrow> PDict [(''id'', v)]))))
      else if cmd_type cmd = UPDATE \<or> cmd_type cmd = DELETE then
        (case dict_get (cmd_data cmd) ''id'' PNone of
           None \<Rightarrow> (s, Inl no_attribute)
         | Some pk \<Rightarrow>
             if \<not> py_truth pk then (s, Inr (failed i (MissingId (cmd_type cmd))))
             else if cmd_type cmd = DELETE then
               (if row_exists be m pk (working s) then s\<lparr>working := delete_row be m pk (working s)\<rparr> else s,
                Inr (ok_result i PNone))
             else if \<not> row_exists be m pk (working s) then (s, Inr (failed i (RecordNotFound (cmd_model cmd) pk)))
             else (s\<lparr>working := set_columns be m pk (case cmd_data cmd of PDict kvs \<Rightarrow> kvs | _ \<Rightarrow> []) (working s)\<rparr>,
                   Inr (ok_result i PNone)))
      else (s, Inr (failed i UnknownCommandType)))"

end
