(* ===== verification/ConfigStore.thy ===== *)
theory ConfigStore
  imports WriterSession PyLines
begin

text \<open>
  The settings in the database: \<open>src/app/config_store.py\<close> (creation of missing rows, reading and updating
  the sections), \<open>src/app/db_commit.py\<close> and the action \<open>update_combined_config\<close> of
  \<open>src/app/writer/actions/system.py\<close>.  Every section is a table with the row 1, and every section of an
  update is committed on its own.  A step returns the session and what it raises, if it raises.
\<close>

section \<open>The sections\<close>

definition LLM_KEYS :: "string list" where
  "LLM_KEYS = [''llm_api_key'', ''llm_model'', ''openai_base_url'', ''openai_timeout'', ''openai_max_tokens'',
     ''llm_max_concurrent_calls'', ''llm_max_retry_attempts'', ''llm_max_input_tokens_per_call'',
     ''llm_enable_token_rate_limiting'', ''llm_max_input_tokens_per_minute'', ''enable_boundary_refinement'',
     ''enable_word_level_boundary_refinder'', ''enable_llm_chapter_fallback_tagging'', ''chapter_full_block_text'',
     ''llm_service_tier'']"

definition WHISPER_KEYS :: "pyobj \<Rightarrow> (string \<times> string) list" where
  "WHISPER_KEYS t =
     (if t = PStr ''remote'' then
        [(''model'', ''remote_model''), (''api_key'', ''remote_api_key''), (''base_url'', ''remote_base_url''),
         (''language'', ''remote_language''), (''timeout_sec'', ''remote_timeout_sec''),
         (''chunksize_mb'', ''remote_chunksize_mb''), (''diarize'', ''remote_diarize''),
         (''speaker_embeddings'', ''remote_speaker_embeddings'')]
      else if t = PStr ''groq'' then
        [(''api_key'', ''groq_api_key''), (''model'', ''groq_model''), (''language'', ''groq_language''),
         (''max_retries'', ''groq_max_retries'')]
      else [])"

definition PROCESSING_KEYS :: "string list" where
  "PROCESSING_KEYS = [''num_segments_to_input_to_prompt'', ''record_word_timestamps'']"

definition OUTPUT_KEYS :: "string list" where
  "OUTPUT_KEYS = [''fade_ms'', ''bleep_padding_start_ms'', ''bleep_padding_end_ms'', ''min_ad_segement_separation_seconds'',
     ''min_ad_segment_length_seconds'', ''min_confidence'', ''auto_retry_zero_ads_on_parse_error'']"

definition APP_KEYS :: "string list" where
  "APP_KEYS = [''background_update_interval_minute'', ''automatically_whitelist_new_episodes'', ''post_cleanup_retention_days'',
     ''number_of_episodes_to_whitelist_from_archive_of_new_feed'', ''enable_public_landing_page'', ''user_limit_total'',
     ''autoprocess_on_download'', ''cost_rate_per_hour'', ''whisper_cost_rate_per_hour'', ''ina_cost_rate_per_hour'']"

definition NOTIFICATION_FLAGS :: "string list" where
  "NOTIFICATION_FLAGS = [''enabled'', ''notify_on_failure'', ''notify_on_success'', ''notify_on_rust_fallback'', ''include_llm_explanation'']"

definition SETTINGS_MODELS :: "string list" where
  "SETTINGS_MODELS = [''LLMSettings'', ''WhisperSettings'', ''ProcessingSettings'', ''OutputSettings'', ''AppSettings'', ''NotificationSettings'']"

section \<open>Commits\<close>

definition safe_commit :: "'db backend \<Rightarrow> 'db session \<Rightarrow> 'db session \<times> string option" where
  "safe_commit be s = (case commit be s of Inr s' \<Rightarrow> (s', None) | Inl e \<Rightarrow> (rollback s, Some e))"

definition and_then :: "'s \<times> string option \<Rightarrow> ('s \<Rightarrow> 's \<times> string option) \<Rightarrow> 's \<times> string option" where
  "and_then out k = (case out of (s, None) \<Rightarrow> k s | (s, Some e) \<Rightarrow> (s, Some e))"

definition ensure_row :: "'db backend \<Rightarrow> string \<Rightarrow> 'db session \<Rightarrow> 'db session \<times> string option" where
  "ensure_row be m s =
     (if row_exists be m (PNum 1) (working s) then (s, None)
      else if se_creates (settings_store be) then
        (case insert_row be m (PDict ((''id'', PNum 1) # se_defaults (settings_store be) m)) (working s) of
           Inl e \<Rightarrow> (rollback s, Some e)
         | Inr (_, db) \<Rightarrow> safe_commit be (s\<lparr>working := db\<rparr>))
      else (s, None))"

definition ensure_defaults :: "'db backend \<Rightarrow> 'db session \<Rightarrow> 'db session \<times> string option" where
  "ensure_defaults be s = foldl (\<lambda>out m. and_then out (ensure_row be m)) (s, None) SETTINGS_MODELS"

section \<open>Reading\<close>

definition apprise_urls_to_list :: "string \<Rightarrow> string list" where
  "apprise_urls_to_list raw = filter (\<lambda>u. u \<noteq> []) (map py_strip (splitlines_from False [] raw))"

definition stored_urls :: "pyobj \<Rightarrow> pyobj" where
  "stored_urls v = PList (map PStr (case v of PStr raw \<Rightarrow> apprise_urls_to_list raw | _ \<Rightarrow> []))"

definition columns_of :: "'db backend \<Rightarrow> string \<Rightarrow> (string \<times> string) list \<Rightarrow> 'db \<Rightarrow> (string \<times> pyobj) list" where
  "columns_of be m keys db = map (\<lambda>(k, column). (k, se_column (settings_store be) m column db)) keys"

definition same_keys :: "string list \<Rightarrow> (string \<times> string) list" where
  "same_keys ks = map (\<lambda>k. (k, k)) ks"

definition combined_view :: "'db backend \<Rightarrow> 'db \<Rightarrow> pyobj" where
  "combined_view be db =
     (let col = (\<lambda>m k. se_column (settings_store be) m k db); t = col ''WhisperSettings'' ''whisper_type'' in
      PDict [(''llm'', PDict (columns_of be ''LLMSettings'' (same_keys LLM_KEYS) db)),
        (''whisper'', PDict ((''whisper_type'', t) # columns_of be ''WhisperSettings'' (WHISPER_KEYS t) db)),
        (''processing'', PDict (columns_of be ''ProcessingSettings'' (same_keys PROCESSING_KEYS) db)),
        (''output'', PDict (columns_of be ''OutputSettings'' (same_keys OUTPUT_KEYS) db)),
        (''app'', PDict (columns_of be ''AppSettings'' (same_keys APP_KEYS) db)),
        (''notifications'', PDict ((''apprise_urls'', stored_urls (col ''NotificationSettings'' ''apprise_urls'')) #
          columns_of be ''NotificationSettings'' (same_keys NOTIFICATION_FLAGS) db))])"

definition read_combined :: "'db backend \<Rightarrow> 'db session \<Rightarrow> 'db session \<times> (string + pyobj)" where
  "read_combined be s =
     (case ensure_defaults be s of
        (s', Some e) \<Rightarrow> (s', Inl e)
      | (s', None) \<Rightarrow>
          (s', if \<not> list_all (\<lambda>m. row_exists be m (PNum 1) (working s')) SETTINGS_MODELS then Inl ''AssertionError''
               else if se_column (settings_store be) ''WhisperSettings'' ''whisper_type'' (working s') = PStr ''local'' then Inl ''RuntimeError''
               else Inr (combined_view be (working s'))))"

section \<open>Updating\<close>

text \<open>The entries of a section, for the keys that are looked up in it: a section that is no dictionary raises
  when a key is found in it, or when it cannot be searched.\<close>

definition section_entries :: "pyobj \<Rightarrow> string list \<Rightarrow> string + (string \<times> pyobj) list" where
  "section_entries v keys = (case v of
       PDict kvs \<Rightarrow> Inr kvs
     | PStr s \<Rightarrow> if list_ex (\<lambda>k. str_in k s) keys then Inl ''TypeError'' else Inr []
     | PList xs \<Rightarrow> if list_ex (\<lambda>k. PStr k \<in> set xs) keys then Inl ''TypeError'' else Inr []
     | _ \<Rightarrow> Inl ''TypeError'')"

definition is_empty_value :: "pyobj \<Rightarrow> bool" where
  "is_empty_value v \<longleftrightarrow> v = PNone \<or> v = PStr []"

text \<open>The loop over the keys; an empty key of a service does not replace the stored one.\<close>

definition copy_columns ::
  "'db backend \<Rightarrow> string \<Rightarrow> (string \<times> string) list \<Rightarrow> (string \<times> pyobj) list \<Rightarrow> 'db \<Rightarrow> 'db" where
  "copy_columns be m keys kvs db =
     foldl (\<lambda>d (k, column). case map_of kvs k of
         None \<Rightarrow> d
       | Some v \<Rightarrow> if k \<in> {''llm_api_key'', ''api_key''} \<and> is_empty_value v then d else set_column be m (PNum 1) column v d) db keys"

definition update_section ::
  "'db backend \<Rightarrow> string \<Rightarrow> ('db \<Rightarrow> string + 'db) \<Rightarrow> 'db session \<Rightarrow> 'db session \<times> string option" where
  "update_section be m f s =
     (if \<not> row_exists be m (PNum 1) (working s) then (s, Some ''AssertionError'')
      else case f (working s) of Inl e \<Rightarrow> (s, Some e) | Inr db \<Rightarrow> safe_commit be (s\<lparr>working := db\<rparr>))"

definition plain_section :: "'db backend \<Rightarrow> string \<Rightarrow> string list \<Rightarrow> pyobj \<Rightarrow> 'db \<Rightarrow> string + 'db" where
  "plain_section be m keys v db =
     (case section_entries v keys of Inl e \<Rightarrow> Inl e | Inr kvs \<Rightarrow> Inr (copy_columns be m (same_keys keys) kvs db))"

definition update_section_llm :: "'db backend \<Rightarrow> pyobj \<Rightarrow> 'db session \<Rightarrow> 'db session \<times> string option" where
  "update_section_llm be v = update_section be ''LLMSettings'' (plain_section be ''LLMSettings'' LLM_KEYS v)"

definition set_whisper_type :: "'db backend \<Rightarrow> (string \<times> pyobj) list \<Rightarrow> 'db \<Rightarrow> string + 'db" where
  "set_whisper_type be kvs db = (case map_of kvs ''whisper_type'' of
       Some (PStr t) \<Rightarrow> Inr (if t \<in> {''remote'', ''groq'', ''test''} then set_column be ''WhisperSettings'' (PNum 1) ''whisper_type'' (PStr t) db else db)
     | Some (PList _) \<Rightarrow> Inl ''TypeError''
     | Some (PDict _) \<Rightarrow> Inl ''TypeError''
     | Some (PCommand _ _ _ _) \<Rightarrow> Inl ''TypeError''
     | _ \<Rightarrow> Inr db)"

definition update_section_whisper :: "'db backend \<Rightarrow> pyobj \<Rightarrow> 'db session \<Rightarrow> 'db session \<times> string option" where
  "update_section_whisper be v = update_section be ''WhisperSettings'' (\<lambda>db.
     case section_entries v [''whisper_type''] of
       Inl e \<Rightarrow> Inl e
     | Inr kvs0 \<Rightarrow>
         (case set_whisper_type be kvs0 db of
            Inl e \<Rightarrow> Inl e
          | Inr db1 \<Rightarrow>
              (let keys = WHISPER_KEYS (se_column (settings_store be) ''WhisperSettings'' ''whisper_type'' db1) in
               case section_entries v (map fst keys) of
                 Inl e \<Rightarrow> Inl e | Inr kvs \<Rightarrow> Inr (copy_columns be ''WhisperSettings'' keys kvs db1))))"

definition update_section_processing :: "'db backend \<Rightarrow> pyobj \<Rightarrow> 'db session \<Rightarrow> 'db session \<times> string option" where
  "update_section_processing be v = update_section be ''ProcessingSettings'' (plain_section be ''ProcessingSettings'' PROCESSING_KEYS v)"

definition update_section_output :: "'db backend \<Rightarrow> pyobj \<Rightarrow> 'db session \<Rightarrow> 'db session \<times> string option" where
  "update_section_output be v = update_section be ''OutputSettings'' (plain_section be ''OutputSettings'' OUTPUT_KEYS v)"

text \<open>The interval of the refresh and the retention, which the scheduler is told when they changed.\<close>

definition scheduled_values :: "'db backend \<Rightarrow> 'db \<Rightarrow> pyobj \<times> pyobj" where
  "scheduled_values be db = (se_column (settings_store be) ''AppSettings'' ''background_update_interval_minute'' db,
     se_column (settings_store be) ''AppSettings'' ''post_cleanup_retention_days'' db)"

definition update_section_app :: "'db backend \<Rightarrow> pyobj \<Rightarrow> 'db session \<Rightarrow> 'db session \<times> string option" where
  "update_section_app be v s =
     and_then (update_section be ''AppSettings'' (plain_section be ''AppSettings'' APP_KEYS v) s)
       (\<lambda>s'. (s', se_scheduler (settings_store be) (scheduled_values be (working s)) (scheduled_values be (working s'))))"

definition urls_column :: "(pyobj \<Rightarrow> string) \<Rightarrow> pyobj \<Rightarrow> pyobj" where
  "urls_column text_of v =
     (let urls = (case v of PStr raw \<Rightarrow> apprise_urls_to_list raw
                  | PList us \<Rightarrow> filter (\<lambda>u. u \<noteq> []) (map (py_strip \<circ> text_of) us) | _ \<Rightarrow> []) in
      if urls = [] then PNone else PStr (join_with [CHR 0x0A] urls))"

definition update_section_notifications :: "'db backend \<Rightarrow> pyobj \<Rightarrow> 'db session \<Rightarrow> 'db session \<times> string option" where
  "update_section_notifications be v = update_section be ''NotificationSettings'' (\<lambda>db.
     case section_entries v (NOTIFICATION_FLAGS @ [''apprise_urls'']) of
       Inl e \<Rightarrow> Inl e
     | Inr kvs \<Rightarrow> Inr (copy_columns be ''NotificationSettings'' (same_keys (NOTIFICATION_FLAGS @ [''apprise_urls'']))
         (map (\<lambda>(k, x). (k, if k = ''apprise_urls'' then urls_column (se_text (settings_store be)) x else PBool (py_truth x))) kvs) db))"

definition settings_sections :: "(string \<times> ('db backend \<Rightarrow> pyobj \<Rightarrow> 'db session \<Rightarrow> 'db session \<times> string option)) list" where
  "settings_sections = [(''llm'', update_section_llm), (''whisper'', update_section_whisper), (''processing'', update_section_processing),
     (''output'', update_section_output), (''app'', update_section_app), (''notifications'', update_section_notifications)]"

fun update_sections ::
  "'db backend \<Rightarrow> (string \<times> pyobj) list \<Rightarrow> (string \<times> ('db backend \<Rightarrow> pyobj \<Rightarrow> 'db session \<Rightarrow> 'db session \<times> string option)) list \<Rightarrow>
   'db session \<Rightarrow> 'db session \<times> string option" where
  "update_sections be payload [] s = (s, None)"
| "update_sections be payload ((name, f) # fs) s =
     and_then (case map_of payload name of None \<Rightarrow> (s, None) | Some v \<Rightarrow> f be (if py_truth v then v else PDict []) s)
       (update_sections be payload fs)"

definition update_combined :: "'db backend \<Rightarrow> (string \<times> pyobj) list \<Rightarrow> 'db session \<Rightarrow> 'db session \<times> (string + pyobj)" where
  "update_combined be payload s =
     (case update_sections be payload settings_sections s of
        (s', Some e) \<Rightarrow> (s', Inl e) | (s', None) \<Rightarrow> read_combined be s')"

definition update_combined_config_action :: "'db backend \<Rightarrow> 'db action" where
  "update_combined_config_action be params s =
     (case dict_get params ''payload'' PNone of
        None \<Rightarrow> (s, Inl no_attribute)
      | Some (PDict payload) \<Rightarrow>
          (case update_combined be payload s of
             (s', Inl e) \<Rightarrow> (s', Inl e)
           | (s', Inr updated) \<Rightarrow>
               (s', case se_hydrate (settings_store be) (working s') of None \<Rightarrow> Inr updated | Some e \<Rightarrow> Inl e))
      | Some _ \<Rightarrow> (s, Inl ''ValueError''))"

section \<open>What an update leaves\<close>

lemma and_then_simps [simp]: "and_then (s, None) k = k s" "and_then (s, Some e) k = (s, Some e)"
  by (simp_all add: and_then_def)

text \<open>A section that is stored leaves a session without a pending change.\<close>

lemma safe_commit_clean: "safe_commit be s = (s', None) \<Longrightarrow> committed s' = working s \<and> working s' = working s"
  by (auto simp: safe_commit_def commit_def split: option.splits)

lemma update_section_stores:
  assumes "row_exists be m (PNum 1) (working s)" and "f (working s) = Inr db" and "commit_error be db = None"
  shows "update_section be m f s = (s\<lparr>working := db, committed := db\<rparr>, None)"
  using assms by (simp add: update_section_def safe_commit_def commit_def)

end
