(* ===== verification/Writer.thy ===== *)
theory Writer
  imports ConfigStore "HOL-Library.AList"
begin

text \<open>
  The process that owns the database's writes: \<open>src/app/writer/executor.py\<close>, the loop of \<open>service.py\<close>,
  the local execution of \<open>client.py\<close> and \<open>batching.py\<close>.  Every operation maps a session to a session and
  a value or an exception; a command is settled by a commit or a rollback.
\<close>

section \<open>The executor\<close>

definition default_actions :: "(string \<times> string) list" where
  "default_actions =
     [(''ensure_active_run'', ''ensure_active_run_action''),
      (''dequeue_job'', ''dequeue_job_action''),
      (''cleanup_stale_jobs'', ''cleanup_stale_jobs_action''),
      (''clear_all_jobs'', ''clear_all_jobs_action''),
      (''clear_active_jobs'', ''clear_active_jobs_action''),
      (''cleanup_missing_audio_paths'', ''cleanup_missing_audio_paths_action''),
      (''create_job'', ''create_job_action''),
      (''create_job_if_missing'', ''create_job_if_missing_action''),
      (''cancel_existing_jobs'', ''cancel_existing_jobs_action''),
      (''update_job_status'', ''update_job_status_action''),
      (''update_job_attribution'', ''update_job_attribution_action''),
      (''mark_cancelled'', ''mark_cancelled_action''),
      (''mark_classification_parse_error'', ''mark_classification_parse_error_action''),
      (''record_ad_windows_count'', ''record_ad_windows_count_action''),
      (''mark_auto_retry_attempted'', ''mark_auto_retry_attempted_action''),
      (''reassign_pending_jobs'', ''reassign_pending_jobs_action''),
      (''refresh_feed'', ''refresh_feed_action''),
      (''add_feed'', ''add_feed_action''),
      (''update_feed_settings'', ''update_feed_settings_action''),
      (''clear_post_processing_data'', ''clear_post_processing_data_action''),
      (''clear_post_processing_data_keep_transcript'', ''clear_post_processing_data_keep_transcript_action''),
      (''cleanup_processed_post'', ''cleanup_processed_post_action''),
      (''cleanup_processed_post_files_only'', ''cleanup_processed_post_files_only_action''),
      (''prepare_post_for_auto_retry'', ''prepare_post_for_auto_retry_action''),
      (''increment_download_count'', ''increment_download_count_action''),
      (''set_user_billing_fields'', ''set_user_billing_fields_action''),
      (''set_user_billing_by_customer_id'', ''set_user_billing_by_customer_id_action''),
      (''ensure_user_feed_membership'', ''ensure_user_feed_membership_action''),
      (''remove_user_feed_membership'', ''remove_user_feed_membership_action''),
      (''whitelist_latest_post_for_feed'', ''whitelist_latest_post_for_feed_action''),
      (''toggle_whitelist_all_for_feed'', ''toggle_whitelist_all_for_feed_action''),
      (''whitelist_post'', ''whitelist_post_action''),
      (''create_dev_test_feed'', ''create_dev_test_feed_action''),
      (''delete_feed_cascade'', ''delete_feed_cascade_action''),
      (''update_discord_settings'', ''update_discord_settings_action''),
      (''update_combined_config'', ''update_combined_config_action''),
      (''create_feed_access_token'', ''create_feed_access_token_action''),
      (''touch_feed_access_token'', ''touch_feed_access_token_action''),
      (''create_user'', ''create_user_action''),
      (''update_user_password'', ''update_user_password_action''),
      (''delete_user'', ''delete_user_action''),
      (''set_user_role'', ''set_user_role_action''),
      (''set_manual_feed_allowance'', ''set_manual_feed_allowance_action''),
      (''upsert_discord_user'', ''upsert_discord_user_action''),
      (''upsert_model_call'', ''upsert_model_call_action''),
      (''delete_model_calls_for_post_by_model_name'', ''delete_model_calls_for_post_by_model_name_action''),
      (''upsert_whisper_model_call'', ''upsert_whisper_model_call_action''),
      (''replace_transcription'', ''replace_transcription_action''),
      (''start_transcription_replace'', ''start_transcription_replace_action''),
      (''insert_transcript_segments'', ''insert_transcript_segments_action''),
      (''finish_transcription_replace'', ''finish_transcription_replace_action''),
      (''finish_transcription_replace_from_artifact'', ''finish_transcription_replace_from_artifact_action''),
      (''compress_post_word_timestamps'', ''compress_post_word_timestamps_action''),
      (''mark_model_call_failed'', ''mark_model_call_failed_action''),
      (''insert_identifications'', ''insert_identifications_action''),
      (''replace_identifications'', ''replace_identifications_action''),
      (''replace_audio_segments'', ''replace_audio_segments_action''),
      (''update_user_last_active'', ''update_user_last_active_action'')]"

text \<open>The names the package exports, in the order of their registration.\<close>

definition exported_actions :: "string list" where
  "exported_actions =
     [''ensure_active_run_action'',
      ''dequeue_job_action'',
      ''cleanup_stale_jobs_action'',
      ''clear_all_jobs_action'',
      ''clear_active_jobs_action'',
      ''cleanup_missing_audio_paths_action'',
      ''create_job_action'',
      ''create_job_if_missing_action'',
      ''cancel_existing_jobs_action'',
      ''update_job_status_action'',
      ''update_job_attribution_action'',
      ''mark_cancelled_action'',
      ''mark_classification_parse_error_action'',
      ''record_ad_windows_count_action'',
      ''mark_auto_retry_attempted_action'',
      ''reassign_pending_jobs_action'',
      ''refresh_feed_action'',
      ''add_feed_action'',
      ''update_feed_settings_action'',
      ''clear_post_processing_data_action'',
      ''clear_post_processing_data_keep_transcript_action'',
      ''cleanup_processed_post_action'',
      ''cleanup_processed_post_files_only_action'',
      ''prepare_post_for_auto_retry_action'',
      ''increment_download_count_action'',
      ''set_user_billing_fields_action'',
      ''set_user_billing_by_customer_id_action'',
      ''ensure_user_feed_membership_action'',
      ''remove_user_feed_membership_action'',
      ''whitelist_latest_post_for_feed_action'',
      ''toggle_whitelist_all_for_feed_action'',
      ''whitelist_post_action'',
      ''create_dev_test_feed_action'',
      ''delete_feed_cascade_action'',
      ''update_discord_settings_action'',
      ''update_combined_config_action'',
      ''create_feed_access_token_action'',
      ''touch_feed_access_token_action'',
      ''create_user_action'',
      ''update_user_password_action'',
      ''delete_user_action'',
      ''set_user_role_action'',
      ''set_manual_feed_allowance_action'',
      ''upsert_discord_user_action'',
      ''upsert_model_call_action'',
      ''delete_model_calls_for_post_by_model_name_action'',
      ''upsert_whisper_model_call_action'',
      ''replace_transcription_action'',
      ''start_transcription_replace_action'',
      ''insert_transcript_segments_action'',
      ''finish_transcription_replace_action'',
      ''finish_transcription_replace_from_artifact_action'',
      ''compress_post_word_timestamps_action'',
      ''mark_model_call_failed_action'',
      ''insert_identifications_action'',
      ''replace_identifications_action'',
      ''replace_audio_segments_action'',
      ''update_user_last_active_action'']"

text \<open>The attribute \<open>n\<close> of the package \<open>app.writer.actions\<close>.\<close>

definition on_working :: "(pyobj \<Rightarrow> 'db \<Rightarrow> 'db \<times> (string + pyobj)) \<Rightarrow> 'db action" where
  "on_working f p s = (case f p (working s) of (db, r) \<Rightarrow> (s\<lparr>working := db\<rparr>, r))"

definition exported :: "'db backend \<Rightarrow> string \<Rightarrow> 'db action option" where
  "exported be n =
     (if n \<notin> set exported_actions then None
      else if n = ''update_combined_config_action'' then Some (update_combined_config_action be)
      else map_option on_working (action_function be n))"

definition registry :: "'db backend \<Rightarrow> string \<Rightarrow> 'db action option" where
  "registry be a = Option.bind (map_of default_actions a) (exported be)"

definition run_action ::
  "'db action \<Rightarrow> write_command \<Rightarrow> 'db session \<Rightarrow> 'db session \<times> (string + write_result)" where
  "run_action f cmd s =
     (case f (case dict_get (cmd_data cmd) ''params'' (PDict []) of None \<Rightarrow> PDict [] | Some p \<Rightarrow> p) s of
        (s', Inl e) \<Rightarrow> (s', Inl e)
      | (s', Inr v) \<Rightarrow> (s', Inr (ok_result (cmd_id cmd) v)))"

definition handle_action ::
  "'db backend \<Rightarrow> write_command \<Rightarrow> 'db session \<Rightarrow> 'db session \<times> (string + write_result)" where
  "handle_action be cmd s =
     (case dict_get (cmd_data cmd) ''action'' PNone of
        None \<Rightarrow> (s, Inl no_attribute)
      | Some a \<Rightarrow>
          (case (case a of PStr n \<Rightarrow> registry be n | _ \<Rightarrow> None) of
             None \<Rightarrow> (s, Inr (failed (cmd_id cmd) (UnknownAction a)))
           | Some f \<Rightarrow> run_action f cmd s))"

definition known_model :: "'db backend \<Rightarrow> write_command \<Rightarrow> string option" where
  "known_model be cmd = (case cmd_model cmd of
       None \<Rightarrow> None
     | Some m \<Rightarrow> if m \<noteq> [] \<and> is_model be m then Some m else None)"

definition execute_single_command ::
  "'db backend \<Rightarrow> write_command \<Rightarrow> 'db session \<Rightarrow> 'db session \<times> (string + write_result)" where
  "execute_single_command be cmd s =
     (if cmd_type cmd = ACTION then handle_action be cmd s
      else case known_model be cmd of
        None \<Rightarrow> (s, Inr (failed (cmd_id cmd) (UnknownModel (cmd_model cmd))))
      | Some m \<Rightarrow>
          if cmd_type cmd \<in> {CREATE, UPDATE, DELETE} then execute_model_command be cmd m s
          else (s, Inr (failed (cmd_id cmd) UnknownCommandType)))"

text \<open>The loop over the commands of a transaction: the results so far, or the first failure.\<close>

fun run_commands ::
  "(write_command \<Rightarrow> 'db session \<Rightarrow> 'db session \<times> (string + write_result)) \<Rightarrow> pyobj list \<Rightarrow> 'db session \<Rightarrow>
   write_result list \<Rightarrow> 'db session \<times> (writer_error + write_result list)" where
  "run_commands run [] s results = (s, Inr results)"
| "run_commands run (v # vs) s results =
     (case sub_command v of
        Inl e \<Rightarrow> (s, Inl (Raised e))
      | Inr cmd \<Rightarrow>
          (case run cmd s of
             (s', Inl e) \<Rightarrow> (s', Inl (Raised e))
           | (s', Inr r) \<Rightarrow>
               if res_success r then run_commands run vs s' (results @ [r])
               else (s', Inl (TransactionFailed (cmd_id cmd)
                 (case res_error r of None \<Rightarrow> Raised '''' | Some e \<Rightarrow> e)))))"

definition result_entry :: "write_result \<Rightarrow> pyobj" where
  "result_entry r = PDict [(''command_id'', res_id r), (''success'', PBool (res_success r)), (''data'', res_data r),
     (''error'', PNone)]"

definition handle_transaction ::
  "'db backend \<Rightarrow> write_command \<Rightarrow> 'db session \<Rightarrow> 'db session \<times> (string + write_result)" where
  "handle_transaction be cmd s =
     (case dict_get (cmd_data cmd) ''commands'' (PList []) of
        None \<Rightarrow> (s, Inl no_attribute)
      | Some v \<Rightarrow>
          (case items_of v of
             Inl e \<Rightarrow> (s, Inr (failed (cmd_id cmd) (Raised e)))
           | Inr items \<Rightarrow>
               (case run_commands (execute_single_command be) items s [] of
                  (s', Inl e) \<Rightarrow> (s', Inr (failed (cmd_id cmd) e))
                | (s', Inr rs) \<Rightarrow> (s', Inr (ok_result (cmd_id cmd) (PDict [(''results'', PList (map result_entry rs))]))))))"

text \<open>What both branches of \<open>process_command\<close> do with their result: commit a success, roll back a
  failure or an exception.  Closing the session leaves no working copy behind.\<close>

definition settle ::
  "'db backend \<Rightarrow> pyobj \<Rightarrow> 'db session \<times> (string + write_result) \<Rightarrow> 'db session \<times> write_result" where
  "settle be i out = (case out of
       (s, Inl e) \<Rightarrow> (rollback s, failed i (Raised e))
     | (s, Inr r) \<Rightarrow>
         if res_success r then
           (case commit be s of Inr s' \<Rightarrow> (s', r) | Inl e \<Rightarrow> (rollback s, failed i (Raised e)))
         else (rollback s, r))"

definition cleanup_session :: "'db session \<Rightarrow> 'db session" where
  "cleanup_session s = s\<lparr>working := committed s\<rparr>"

definition process_command :: "'db backend \<Rightarrow> write_command \<Rightarrow> 'db session \<Rightarrow> 'db session \<times> write_result" where
  "process_command be cmd s =
     (case settle be (cmd_id cmd)
        (if cmd_type cmd = TRANSACTION then handle_transaction be cmd s else execute_single_command be cmd s) of
        (s', r) \<Rightarrow> (cleanup_session s', r))"

section \<open>The local fallback of the client\<close>

definition local_execute_action ::
  "'db backend \<Rightarrow> write_command \<Rightarrow> 'db session \<Rightarrow> 'db session \<times> (string + write_result)" where
  "local_execute_action be cmd s =
     (case dict_get (cmd_data cmd) ''action'' PNone of
        None \<Rightarrow> (s, Inl no_attribute)
      | Some a \<Rightarrow>
          (case (case a of PStr n \<Rightarrow> if n \<noteq> [] then exported be (n @ ''_action'') else None | _ \<Rightarrow> None) of
             None \<Rightarrow> (s, Inr (failed (cmd_id cmd) (UnknownAction a)))
           | Some f \<Rightarrow> run_action f cmd s))"

definition local_execute_model ::
  "'db backend \<Rightarrow> write_command \<Rightarrow> 'db session \<Rightarrow> 'db session \<times> (string + write_result)" where
  "local_execute_model be cmd s =
     (case known_model be cmd of
        None \<Rightarrow> (s, Inr (failed (cmd_id cmd) (UnknownModel (cmd_model cmd))))
      | Some m \<Rightarrow> execute_model_command be cmd m s)"

definition local_execute_single ::
  "'db backend \<Rightarrow> write_command \<Rightarrow> 'db session \<Rightarrow> 'db session \<times> (string + write_result)" where
  "local_execute_single be cmd s =
     (if cmd_type cmd = ACTION then local_execute_action be cmd s else local_execute_model be cmd s)"

text \<open>A transaction settles itself here; what it raises (a commit that fails, a command list that
  cannot be read) is rolled back by its caller.\<close>

definition local_execute_transaction ::
  "'db backend \<Rightarrow> write_command \<Rightarrow> 'db session \<Rightarrow> 'db session \<times> (string + write_result)" where
  "local_execute_transaction be cmd s =
     (case dict_get (cmd_data cmd) ''commands'' (PList []) of
        None \<Rightarrow> (s, Inl no_attribute)
      | Some v \<Rightarrow>
          (case items_of v of
             Inl e \<Rightarrow> (s, Inl e)
           | Inr items \<Rightarrow>
               (case run_commands (local_execute_single be) items s [] of
                  (s', Inl e) \<Rightarrow>
                    (case e of Raised m \<Rightarrow> (s', Inl m) | _ \<Rightarrow> (rollback s', Inr (failed (cmd_id cmd) e)))
                | (s', Inr rs) \<Rightarrow>
                    (case commit be s' of
                       Inl e \<Rightarrow> (s', Inl e)
                     | Inr s'' \<Rightarrow> (s'', Inr (ok_result (cmd_id cmd) (PDict [(''results'', PList (map res_data rs))])))))))"

definition local_execute :: "'db backend \<Rightarrow> write_command \<Rightarrow> 'db session \<Rightarrow> 'db session \<times> write_result" where
  "local_execute be cmd s =
     (if cmd_type cmd = TRANSACTION then
        (case local_execute_transaction be cmd s of
           (s', Inl e) \<Rightarrow> (rollback s', failed (cmd_id cmd) (Raised e))
         | (s', Inr r) \<Rightarrow> (s', r))
      else settle be (cmd_id cmd) (local_execute_single be cmd s))"

section \<open>The two executors agree\<close>

lemma default_actions_eq: "default_actions = map (\<lambda>n. (n, n @ ''_action'')) (map fst default_actions)"
  by (simp add: default_actions_def)

lemma exported_actions_eq: "exported_actions = map (\<lambda>n. n @ ''_action'') (map fst default_actions)"
  by (simp add: default_actions_def exported_actions_def)

lemma no_nameless_action: "exported be ''_action'' = None"
proof -
  have "list_all (\<lambda>n. n \<noteq> []) (map fst default_actions)" by (simp add: default_actions_def)
  then show ?thesis by (auto simp: exported_def exported_actions_eq list_all_iff)
qed

lemma map_of_map_same: "map_of (map (\<lambda>n. (n, g n)) ns) n = (if n \<in> set ns then Some (g n) else None)"
  by (induction ns) auto

lemma registry_eq: "registry be n = exported be (n @ ''_action'')"
proof -
  have "map_of default_actions n = (if n \<in> set (map fst default_actions) then Some (n @ ''_action'') else None)"
    by (subst default_actions_eq) (rule map_of_map_same)
  moreover have "n @ ''_action'' \<in> set exported_actions \<longleftrightarrow> n \<in> set (map fst default_actions)"
    by (auto simp: exported_actions_eq)
  ultimately show ?thesis by (simp add: registry_def exported_def)
qed

lemma local_execute_single_eq: "local_execute_single be cmd s = execute_single_command be cmd s"
proof (cases "cmd_type cmd = ACTION")
  case True
  have "(if n \<noteq> [] then exported be (n @ ''_action'') else None) = registry be n" for n
    using no_nameless_action [of be] by (simp add: registry_eq)
  then show ?thesis using True
    by (simp add: local_execute_single_def execute_single_command_def local_execute_action_def handle_action_def
        split: option.split pyobj.split)
next
  case False
  then show ?thesis
    by (cases "cmd_type cmd") (auto simp: local_execute_single_def execute_single_command_def local_execute_model_def
        execute_model_command_def Let_def split: option.split)
qed

lemma local_run_eq: "local_execute_single be = execute_single_command be"
  by (rule ext)+ (rule local_execute_single_eq)

lemma settle_cases:
  "settle be i (s, Inl e) = (rollback s, failed i (Raised e))"
  "settle be i (s, Inr r) =
    (if res_success r then (case commit be s of Inr s' \<Rightarrow> (s', r) | Inl e \<Rightarrow> (rollback s, failed i (Raised e)))
     else (rollback s, r))"
  by (simp_all add: settle_def)

lemma working_settle: "working (fst (settle be i out)) = committed (fst (settle be i out))"
  by (auto simp: settle_def rollback_def commit_def split: prod.splits sum.splits option.splits)

lemma cleanup_settled: "cleanup_session (fst (settle be i out)) = fst (settle be i out)"
  by (simp add: cleanup_session_def working_settle [of be i out, symmetric])

lemma process_command_eq:
  "process_command be cmd s = settle be (cmd_id cmd)
     (if cmd_type cmd = TRANSACTION then handle_transaction be cmd s else execute_single_command be cmd s)"
  unfolding process_command_def by (simp add: case_prod_unfold cleanup_settled prod_eq_iff)

lemma ok_result_simps [simp]: "res_success (ok_result i d)" "res_id (ok_result i d) = i" "res_error (ok_result i d) = None"
  by (simp_all add: ok_result_def)

lemma failed_simps [simp]: "\<not> res_success (failed i e)" "res_id (failed i e) = i" "res_error (failed i e) = Some e"
  by (simp_all add: failed_def)

text \<open>Executing a command in the client's process, as the tests and the fallback do, has the same
  effect on the database as sending it to the writer, and succeeds for the same commands; the
  results differ in the data of a transaction only.\<close>

theorem local_fallback_equals_the_writer:
  "fst (local_execute be cmd s) = fst (process_command be cmd s) \<and>
   res_success (snd (local_execute be cmd s)) = res_success (snd (process_command be cmd s)) \<and>
   (if cmd_type cmd = TRANSACTION then True else snd (local_execute be cmd s) = snd (process_command be cmd s))"
proof (cases "cmd_type cmd = TRANSACTION")
  case False
  then show ?thesis by (simp add: local_execute_def process_command_eq local_run_eq)
next
  case True
  then show ?thesis
    by (auto simp: local_execute_def process_command_eq local_execute_transaction_def handle_transaction_def
        local_run_eq settle_cases split: option.split sum.split prod.split writer_error.split)
qed

section \<open>All or nothing\<close>

text \<open>The reference: the operations one after the other on one working copy, None once one fails.\<close>

fun all_succeed :: "'db backend \<Rightarrow> pyobj list \<Rightarrow> 'db session \<Rightarrow> 'db session option" where
  "all_succeed be [] s = Some s"
| "all_succeed be (v # vs) s =
     (case sub_command v of
        Inl e \<Rightarrow> None
      | Inr cmd \<Rightarrow>
          (case execute_single_command be cmd s of
             (s', Inl e) \<Rightarrow> None
           | (s', Inr r) \<Rightarrow> if res_success r then all_succeed be vs s' else None))"

definition operations :: "write_command \<Rightarrow> pyobj list option" where
  "operations cmd =
     (if cmd_type cmd = TRANSACTION then
        Option.bind (dict_get (cmd_data cmd) ''commands'' (PList [])) (\<lambda>v. case items_of v of Inl e \<Rightarrow> None | Inr vs \<Rightarrow> Some vs)
      else Some [PCommand (cmd_id cmd) (cmd_type cmd) (cmd_model cmd) (cmd_data cmd)])"

definition transaction_outcome :: "'db backend \<Rightarrow> write_command \<Rightarrow> 'db session \<Rightarrow> 'db option" where
  "transaction_outcome be cmd s =
     Option.bind (Option.bind (operations cmd) (\<lambda>vs. all_succeed be vs s))
       (\<lambda>s'. if commit_error be (working s') = None then Some (working s') else None)"

text \<open>The operations that update the settings, whose sections commit one by one.\<close>

definition updates_settings :: "pyobj \<Rightarrow> bool" where
  "updates_settings v \<longleftrightarrow> (case sub_command v of
       Inr cmd \<Rightarrow> cmd_type cmd = ACTION \<and> dict_get (cmd_data cmd) ''action'' PNone = Some (PStr ''update_combined_config'')
     | Inl e \<Rightarrow> False)"

definition leaves_settings :: "write_command \<Rightarrow> bool" where
  "leaves_settings cmd \<longleftrightarrow> (case operations cmd of None \<Rightarrow> True | Some vs \<Rightarrow> \<not> list_ex updates_settings vs)"

lemma committed_execute_model_command [simp]: "committed (fst (execute_model_command be cmd m s)) = committed s"
  by (auto simp: execute_model_command_def Let_def split: sum.split option.split)

lemma registry_on_working:
  assumes "registry be n = Some f" and "n \<noteq> ''update_combined_config''"
  shows "\<exists>g. f = on_working g"
proof -
  have "n @ ''_action'' \<noteq> ''update_combined_config_action''"
  proof
    assume "n @ ''_action'' = ''update_combined_config_action''"
    then have "n @ ''_action'' = ''update_combined_config'' @ ''_action''" by simp
    with assms(2) show False by (simp only: append_same_eq)
  qed
  with assms(1) show ?thesis by (auto simp: registry_eq exported_def split: if_splits)
qed

lemma committed_on_working [simp]: "committed (fst (on_working f p s)) = committed s"
  by (simp add: on_working_def split: prod.split)

lemma committed_execute_single:
  assumes "\<not> (cmd_type cmd = ACTION \<and> dict_get (cmd_data cmd) ''action'' PNone = Some (PStr ''update_combined_config''))"
  shows "committed (fst (execute_single_command be cmd s)) = committed s"
proof (cases "cmd_type cmd = ACTION")
  case True
  have "committed (fst (run_action f cmd s)) = committed s"
    if f: "registry be n = Some f" "dict_get (cmd_data cmd) ''action'' PNone = Some (PStr n)" for n f
  proof -
    have "n \<noteq> ''update_combined_config''" using assms True f(2) by auto
    then obtain g where "f = on_working g" using registry_on_working [OF f(1)] by blast
    then show ?thesis by (simp add: run_action_def case_prod_unfold split: sum.split)
  qed
  then show ?thesis using True
    by (auto simp: execute_single_command_def handle_action_def split: option.split pyobj.split)
qed (auto simp: execute_single_command_def split: option.split)

lemma run_commands_all_succeed:
  assumes "\<not> list_ex updates_settings vs"
  shows "(case run_commands (execute_single_command be) vs s rs of
      (s', Inr rs') \<Rightarrow> all_succeed be vs s = Some s' | (s', Inl e) \<Rightarrow> all_succeed be vs s = None) \<and>
    committed (fst (run_commands (execute_single_command be) vs s rs)) = committed s"
  using assms
proof (induction vs arbitrary: s rs)
  case (Cons v vs)
  show ?case
  proof (cases "sub_command v")
    case (Inr cmd)
    obtain s' out where run: "execute_single_command be cmd s = (s', out)" by fastforce
    have "\<not> (cmd_type cmd = ACTION \<and> dict_get (cmd_data cmd) ''action'' PNone = Some (PStr ''update_combined_config''))"
      using Cons.prems Inr by (simp add: updates_settings_def)
    from committed_execute_single [OF this, of be s] run have "committed s' = committed s" by simp
    then show ?thesis using Inr run
    proof (cases out)
      case (Inr r)
      then show ?thesis using Cons.IH [of s' "rs @ [r]"] Cons.prems \<open>sub_command v = Inr cmd\<close> run \<open>committed s' = committed s\<close>
        by (auto split: prod.splits sum.splits)
    qed simp
  qed simp
qed simp

lemma execute_single_id: "snd (execute_single_command be cmd s) = Inr r \<Longrightarrow> res_id r = cmd_id cmd"
  by (auto simp: execute_single_command_def handle_action_def run_action_def execute_model_command_def Let_def
      case_prod_unfold split: if_splits option.splits sum.splits)

lemma res_id_settle:
  "(\<And>r. snd out = Inr r \<Longrightarrow> res_id r = i) \<Longrightarrow> res_id (snd (settle be i out)) = i"
  by (cases out) (auto simp: settle_def split: sum.split)

lemma handle_transaction_id: "snd (handle_transaction be cmd s) = Inr r \<Longrightarrow> res_id r = cmd_id cmd"
  by (auto simp: handle_transaction_def split: option.splits sum.splits prod.splits)

lemma res_id_process_command [simp]: "res_id (snd (process_command be cmd s)) = cmd_id cmd"
  unfolding process_command_eq by (rule res_id_settle) (auto dest: execute_single_id handle_transaction_id split: if_splits)

lemma sub_command_PCommand [simp]:
  "sub_command (PCommand (cmd_id cmd) (cmd_type cmd) (cmd_model cmd) (cmd_data cmd)) = Inr cmd"
  by (simp add: sub_command_def)

lemma committed_process_command:
  assumes "leaves_settings cmd"
  shows "(case transaction_outcome be cmd s of
      Some db \<Rightarrow> committed (fst (process_command be cmd s)) = db \<and> res_success (snd (process_command be cmd s))
    | None \<Rightarrow> committed (fst (process_command be cmd s)) = committed s \<and> \<not> res_success (snd (process_command be cmd s)))"
proof (cases "cmd_type cmd = TRANSACTION")
  case True
  show ?thesis
  proof (cases "operations cmd")
    case None
    then show ?thesis using True
      by (auto simp: process_command_eq handle_transaction_def operations_def transaction_outcome_def settle_cases rollback_def
          split: option.splits sum.splits)
  next
    case (Some vs)
    then obtain v where v: "dict_get (cmd_data cmd) ''commands'' (PList []) = Some v" "items_of v = Inr vs"
      using True by (auto simp: operations_def split: bind_splits sum.splits)
    obtain s' out where run: "run_commands (execute_single_command be) vs s [] = (s', out)" by fastforce
    have "\<not> list_ex updates_settings vs" using assms Some by (simp add: leaves_settings_def)
    note all = run_commands_all_succeed [OF this, of be s "[]", unfolded run]
    show ?thesis using True v Some all
      by (cases out) (auto simp: process_command_eq handle_transaction_def transaction_outcome_def settle_cases rollback_def
          commit_def run split: option.split)
  qed
next
  case False
  obtain s' out where run: "execute_single_command be cmd s = (s', out)" by fastforce
  have "\<not> (cmd_type cmd = ACTION \<and> dict_get (cmd_data cmd) ''action'' PNone = Some (PStr ''update_combined_config''))"
    using assms False by (simp add: leaves_settings_def operations_def updates_settings_def)
  from committed_execute_single [OF this, of be s] run have "committed s' = committed s" by simp
  then show ?thesis using False run
    by (cases out) (auto simp: process_command_eq operations_def transaction_outcome_def settle_cases rollback_def commit_def
        split: option.split)
qed

text \<open>C3.  A command that does not update the settings is all or nothing.  When every operation of it succeeds and
  so does the commit, the database becomes what running them one after the other gives and the reply is a
  success; in every other case (an operation that fails or raises, an unreadable command, a commit that fails)
  the database is what it was and the reply is a failure.  Either way the reply carries the command's id and
  the session ends clean.\<close>

theorem writer_commands_are_atomic:
  assumes "(s', r) = process_command be cmd s" and "leaves_settings cmd"
  shows "committed s' = (case transaction_outcome be cmd s of Some db \<Rightarrow> db | None \<Rightarrow> committed s) \<and>
    (res_success r \<longleftrightarrow> transaction_outcome be cmd s \<noteq> None) \<and> res_id r = cmd_id cmd \<and> working s' = committed s'"
proof -
  have "s' = fst (process_command be cmd s)" "r = snd (process_command be cmd s)" using assms(1) by (metis fst_conv snd_conv)+
  moreover have "working (fst (process_command be cmd s)) = committed (fst (process_command be cmd s))"
    unfolding process_command_eq by (rule working_settle)
  ultimately show ?thesis using committed_process_command [OF assms(2), of be s] by (auto split: option.splits)
qed

text \<open>A mapper over rows with their columns, with an action of the code on them.\<close>

type_synonym tables = "(string \<times> (string \<times> pyobj) list) list"

definition is_row :: "string \<Rightarrow> pyobj \<Rightarrow> string \<times> (string \<times> pyobj) list \<Rightarrow> bool" where
  "is_row m pk r \<longleftrightarrow> fst r = m \<and> map_of (snd r) ''id'' = Some pk"

definition table_settings :: "tables settings_env" where
  "table_settings = \<lparr>se_creates = True, se_defaults = (\<lambda>m. []),
     se_column = (\<lambda>m k db. case find (is_row m (PNum 1)) db of None \<Rightarrow> PNone
       | Some r \<Rightarrow> (case map_of (snd r) k of None \<Rightarrow> PNone | Some v \<Rightarrow> v)),
     se_text = (\<lambda>v. []), se_scheduler = (\<lambda>old new. None), se_hydrate = (\<lambda>db. None)\<rparr>"

definition table_backend :: "tables backend" where
  "table_backend =
     \<lparr>is_model = (\<lambda>m. m \<in> {''Post'', ''ProcessingJob''}),
      insert_row = (\<lambda>m d db. case d of PDict kvs \<Rightarrow> Inr (map_of kvs ''id'', db @ [(m, kvs)]) | _ \<Rightarrow> Inl ''TypeError''),
      row_exists = (\<lambda>m pk db. list_ex (is_row m pk) db), has_column = (\<lambda>m k. True),
      set_column = (\<lambda>m pk k v db. map (\<lambda>r. if is_row m pk r then (m, AList.update k v (snd r)) else r) db),
      delete_row = (\<lambda>m pk db. filter (\<lambda>r. \<not> is_row m pk r) db), commit_error = (\<lambda>db. None),
      action_function = (\<lambda>n. if n = ''clear_all_jobs_action'' then
        Some (\<lambda>p db. (filter (\<lambda>r. fst r \<noteq> ''ProcessingJob'') db,
          Inr (PNum (real (length (filter (\<lambda>r. fst r = ''ProcessingJob'') db)))))) else None),
      settings_store = table_settings\<rparr>"

text \<open>A transaction that creates an episode, clears the queue and updates an episode that is not there.\<close>

definition sample_tables :: tables where
  "sample_tables = [(''ProcessingJob'', [(''id'', PStr ''j'')]), (''Post'', [(''id'', PNum 1)])]"

definition sample_transaction :: write_command where
  "sample_transaction = \<lparr>cmd_id = PStr ''t'', cmd_type = TRANSACTION, cmd_model = None, cmd_data = PDict [(''commands'', PList
     [PCommand (PStr ''a'') CREATE (Some ''Post'') (PDict [(''id'', PNum 2)]),
      PCommand (PStr ''b'') ACTION None (PDict [(''action'', PStr ''clear_all_jobs'')]),
      PCommand (PStr ''c'') UPDATE (Some ''Post'') (PDict [(''id'', PNum 3)])])]\<rparr>"

lemma sample_transaction_fails:
  "transaction_outcome table_backend sample_transaction \<lparr>committed = sample_tables, working = sample_tables\<rparr> = None"
  by code_simp

theorem writer_commands_are_atomic_witness:
  "\<exists>s' r. (s', r) = process_command table_backend sample_transaction \<lparr>committed = sample_tables, working = sample_tables\<rparr> \<and>
    committed s' = sample_tables \<and> \<not> res_success r"
proof -
  obtain s' r where p: "(s', r) = process_command table_backend sample_transaction \<lparr>committed = sample_tables, working = sample_tables\<rparr>"
    by (metis prod.collapse)
  have "leaves_settings sample_transaction" by code_simp
  from writer_commands_are_atomic [OF p this] p show ?thesis by (auto simp: sample_transaction_fails)
qed

text \<open>An update of the settings is not: its sections are committed one by one, so a later one that fails leaves the
  earlier ones stored, and the reply says that the command failed.\<close>

theorem a_failed_settings_update_keeps_its_first_section:
  assumes "cmd_type cmd = ACTION" and "cmd_data cmd = PDict [(''action'', PStr ''update_combined_config''),
      (''params'', PDict [(''payload'', PDict [(''llm'', PDict kvs), (''whisper'', PNum 1)])])]" and "kvs \<noteq> []"
    and "row_exists be ''LLMSettings'' (PNum 1) (working s)" and "\<forall>db. commit_error be db = None"
  shows "committed (fst (process_command be cmd s)) = copy_columns be ''LLMSettings'' (same_keys LLM_KEYS) kvs (working s) \<and>
    \<not> res_success (snd (process_command be cmd s))"
proof -
  let ?db = "copy_columns be ''LLMSettings'' (same_keys LLM_KEYS) kvs (working s)" and ?s = "\<lambda>db. s\<lparr>working := db, committed := db\<rparr>"
  have llm: "update_section_llm be (PDict kvs) s = (?s ?db, None)"
    unfolding update_section_llm_def using assms(4,5) by (intro update_section_stores) (simp_all add: plain_section_def section_entries_def)
  have "\<exists>e. update_section_whisper be (PNum 1) t = (t, Some e)" for t
    by (simp add: update_section_whisper_def update_section_def section_entries_def)
  then obtain e where whisper: "update_section_whisper be (PNum 1) (?s ?db) = (?s ?db, Some e)" by blast
  have "update_sections be [(''llm'', PDict kvs), (''whisper'', PNum 1)] settings_sections s = (?s ?db, Some e)"
    using assms(3) by (simp add: settings_sections_def llm whisper)
  then have act: "update_combined_config_action be (PDict [(''payload'', PDict [(''llm'', PDict kvs), (''whisper'', PNum 1)])]) s = (?s ?db, Inl e)"
    by (simp add: update_combined_config_action_def update_combined_def)
  have "registry be ''update_combined_config'' = Some (update_combined_config_action be)"
    by (simp add: registry_eq exported_def exported_actions_def)
  then have "execute_single_command be cmd s = (?s ?db, Inl e)"
    using assms(1,2) by (simp add: execute_single_command_def handle_action_def run_action_def act)
  then show ?thesis using assms(1) by (simp add: process_command_eq settle_cases rollback_def failed_def)
qed

definition settings_command :: write_command where
  "settings_command = \<lparr>cmd_id = PStr ''s'', cmd_type = ACTION, cmd_model = None, cmd_data = PDict [(''action'', PStr ''update_combined_config''),
     (''params'', PDict [(''payload'', PDict [(''llm'', PDict [(''llm_model'', PStr ''m'')]), (''whisper'', PNum 1)])])]\<rparr>"

theorem a_failed_settings_update_keeps_its_first_section_witness:
  "committed (fst (process_command table_backend settings_command
      \<lparr>committed = [(''LLMSettings'', [(''id'', PNum 1)])], working = [(''LLMSettings'', [(''id'', PNum 1)])]\<rparr>)) =
    [(''LLMSettings'', [(''id'', PNum 1), (''llm_model'', PStr ''m'')])]"
proof -
  let ?s = "\<lparr>committed = [(''LLMSettings'', [(''id'', PNum 1)])], working = [(''LLMSettings'', [(''id'', PNum 1)])]\<rparr>"
  have "committed (fst (process_command table_backend settings_command ?s)) =
      copy_columns table_backend ''LLMSettings'' (same_keys LLM_KEYS) [(''llm_model'', PStr ''m'')] (working ?s)"
    by (rule conjunct1 [OF a_failed_settings_update_keeps_its_first_section])
      (simp_all add: settings_command_def table_backend_def is_row_def)
  also have "\<dots> = [(''LLMSettings'', [(''id'', PNum 1), (''llm_model'', PStr ''m'')])]" by code_simp
  finally show ?thesis .
qed

section \<open>The service loop\<close>

text \<open>One turn of the loop: the command is processed, and its result is put on the queue of its sender if
  it has one.  The sender is a number here; replies are listed in the order they are sent.\<close>

definition serve_one ::
  "'db backend \<Rightarrow> 'db session \<times> (nat \<times> write_result) list \<Rightarrow> write_command \<times> nat option \<Rightarrow>
   'db session \<times> (nat \<times> write_result) list" where
  "serve_one be st c =
     (case process_command be (fst c) (fst st) of
        (s', r) \<Rightarrow> (s', snd st @ (case snd c of None \<Rightarrow> [] | Some q \<Rightarrow> [(q, r)])))"

definition serve ::
  "'db backend \<Rightarrow> (write_command \<times> nat option) list \<Rightarrow> 'db session \<Rightarrow> 'db session \<times> (nat \<times> write_result) list" where
  "serve be cs s = foldl (serve_one be) (s, []) cs"

definition apply_command :: "'db backend \<Rightarrow> 'db \<Rightarrow> write_command \<Rightarrow> 'db" where
  "apply_command be db cmd =
     (case transaction_outcome be cmd \<lparr>committed = db, working = db\<rparr> of Some db' \<Rightarrow> db' | None \<Rightarrow> db)"

lemma foldl_serve_one:
  assumes "list_all (\<lambda>c. leaves_settings (fst c)) cs"
  shows "working s = committed s \<Longrightarrow>
    (let out = foldl (serve_one be) (s, rs) cs in
     working (fst out) = committed (fst out) \<and>
     committed (fst out) = foldl (apply_command be) (committed s) (map fst cs) \<and>
     map (\<lambda>(q, r). (q, res_id r)) (snd out) =
       map (\<lambda>(q, r). (q, res_id r)) rs @ List.map_filter (\<lambda>(c, q). map_option (\<lambda>n. (n, cmd_id c)) q) cs)"
  using assms
proof (induction cs arbitrary: s rs)
  case (Cons c cs)
  obtain s' r where p: "process_command be (fst c) s = (s', r)" by fastforce
  have s: "s = \<lparr>committed = committed s, working = committed s\<rparr>" using Cons.prems(1) by simp
  have w: "working s' = committed s'"
    using p working_settle unfolding process_command_eq by (metis fst_conv)
  have "committed s' = apply_command be (committed s) (fst c)"
    using committed_process_command [of "fst c" be s] Cons.prems(2) p s unfolding apply_command_def
    by (simp split: option.splits)
  moreover have "res_id r = cmd_id (fst c)" using res_id_process_command [of be "fst c" s] p by simp
  ultimately show ?case using Cons.IH [OF w] Cons.prems(2) p
    by (cases c) (simp add: serve_one_def Let_def List.map_filter_simps split: option.split)
qed (simp add: List.map_filter_simps)

text \<open>Commands that leave the settings alone are serialised: the writer's database is what applying the commands
  one at a time in the order of the queue gives, and every command that has a sender is answered, in the same
  order, with its own id.\<close>

theorem commands_are_serialized:
  assumes "list_all (\<lambda>c. leaves_settings (fst c)) cs" and "(s, replies) = serve be cs \<lparr>committed = db, working = db\<rparr>"
  shows "committed s = foldl (apply_command be) db (map fst cs) \<and>
    map (\<lambda>(q, r). (q, res_id r)) replies = List.map_filter (\<lambda>(c, q). map_option (\<lambda>n. (n, cmd_id c)) q) cs"
  using foldl_serve_one [OF assms(1), of "\<lparr>committed = db, working = db\<rparr>" be "[]"] assms(2)
  by (simp add: serve_def Let_def) (metis fst_conv snd_conv)

theorem commands_are_serialized_witness:
  "committed (fst (serve table_backend [(sample_transaction, None), (sample_transaction, Some 3)]
     \<lparr>committed = sample_tables, working = sample_tables\<rparr>)) = sample_tables"
proof -
  have l: "list_all (\<lambda>c. leaves_settings (fst c)) [(sample_transaction, None :: nat option), (sample_transaction, Some 3)]" by code_simp
  have "apply_command table_backend sample_tables sample_transaction = sample_tables"
    by (simp add: apply_command_def sample_transaction_fails)
  then show ?thesis using commands_are_serialized [OF l prod.collapse, of table_backend sample_tables] by simp
qed

section \<open>Batches\<close>

definition DEFAULT_WRITER_BATCH_SIZE :: int where "DEFAULT_WRITER_BATCH_SIZE = 500"

text \<open>The argument is the environment variable.\<close>

definition get_writer_batch_size :: "string option \<Rightarrow> int" where
  "get_writer_batch_size raw = (case raw of
       None \<Rightarrow> DEFAULT_WRITER_BATCH_SIZE
     | Some s \<Rightarrow> (case int_of_str s of None \<Rightarrow> DEFAULT_WRITER_BATCH_SIZE | Some v \<Rightarrow> max 1 v))"

definition batch_size_or_default :: "string option \<Rightarrow> int option \<Rightarrow> int" where
  "batch_size_or_default raw b = (case b of Some n \<Rightarrow> if n \<noteq> 0 then n else get_writer_batch_size raw
                                  | None \<Rightarrow> get_writer_batch_size raw)"

text \<open>\<open>itertools.batched\<close>; it raises ValueError for a size below one.\<close>

function batched :: "nat \<Rightarrow> 'a list \<Rightarrow> 'a list list" where
  "batched n xs = (if xs = [] \<or> n = 0 then [] else take n xs # batched n (drop n xs))"
  by auto
termination by (relation "measure (\<lambda>(n, xs). length xs)") auto

declare batched.simps [simp del]

definition iter_writer_batches :: "string option \<Rightarrow> int option \<Rightarrow> 'a list \<Rightarrow> 'a list list option" where
  "iter_writer_batches raw b xs =
     (let n = batch_size_or_default raw b in if n < 1 then None else Some (batched (nat n) xs))"

definition batch_count_for :: "string option \<Rightarrow> int option \<Rightarrow> int \<Rightarrow> int" where
  "batch_count_for raw b total_count =
     (let n = batch_size_or_default raw b in if total_count \<le> 0 then 0 else (total_count + n - 1) div n)"

lemma get_writer_batch_size_pos: "1 \<le> get_writer_batch_size raw"
  by (auto simp: get_writer_batch_size_def DEFAULT_WRITER_BATCH_SIZE_def split: option.split)

lemma batched_properties:
  "0 < n \<Longrightarrow> concat (batched n xs) = xs \<and> (\<forall>b\<in>set (batched n xs). b \<noteq> [] \<and> length b \<le> n) \<and>
    int (length (batched n xs)) = (int (length xs) + int n - 1) div int n"
proof (induction n xs rule: batched.induct)
  case (1 n xs)
  show ?case
  proof (cases "xs = []")
    case True
    then show ?thesis using 1(2) by (simp add: batched.simps)
  next
    case False
    have step: "(a + int n) div int n = 1 + a div int n" for a using 1(2) by simp
    have "(int (length xs) + int n - 1) div int n = 1 + (int (length (drop n xs)) + int n - 1) div int n"
    proof (cases "n \<le> length xs")
      case True
      then have "int (length xs) + int n - 1 = (int (length (drop n xs)) + int n - 1) + int n" by simp
      from arg_cong [OF this, of "\<lambda>x. x div int n"] show ?thesis unfolding step .
    next
      case less: False
      have "int (length xs) + int n - 1 = (int (length xs) - 1) + int n" by simp
      from arg_cong [OF this, of "\<lambda>x. x div int n"]
      have "(int (length xs) + int n - 1) div int n = 1 + (int (length xs) - 1) div int n" unfolding step .
      also have "(int (length xs) - 1) div int n = 0"
        using less False by (intro div_pos_pos_trivial) (simp_all add: Suc_leI)
      finally show ?thesis using less 1(2) by simp
    qed
    moreover have unfold: "batched n xs = take n xs # batched n (drop n xs)"
      using False 1(2) by (subst batched.simps) simp
    moreover have "\<not> (xs = [] \<or> n = 0)" using False 1(2) by simp
    note IH = 1(1) [OF this 1(2)]
    ultimately show ?thesis using False 1(2) unfolding unfold using IH by (simp only: list.size concat.simps list.set) auto
  qed
qed

text \<open>However the batch size is configured, the batches are the values in order, none is empty, and
  their number is the number announced.\<close>

theorem batches_partition_the_values:
  "\<exists>bs. iter_writer_batches raw None xs = Some bs \<and> concat bs = xs \<and> [] \<notin> set bs \<and>
    int (length bs) = batch_count_for raw None (int (length xs))"
proof -
  define n where "n = get_writer_batch_size raw"
  have n: "1 \<le> n" unfolding n_def by (rule get_writer_batch_size_pos)
  have "0 < nat n" "int (nat n) = n" using n by simp_all
  note b = batched_properties [OF this(1), of xs, unfolded this(2)]
  have "iter_writer_batches raw None xs = Some (batched (nat n) xs)"
    using n by (simp add: iter_writer_batches_def batch_size_or_default_def Let_def n_def)
  moreover have "batch_count_for raw None (int (length xs)) = (int (length xs) + n - 1) div n"
    using n by (simp add: batch_count_for_def batch_size_or_default_def Let_def n_def div_pos_pos_trivial)
  ultimately show ?thesis using b by auto
qed

end
