(* ===== verification/WriterClient.thy ===== *)
theory WriterClient
  imports Writer
begin

text \<open>
  \<open>src/app/writer/client.py\<close> without its local fallback (in Writer.thy): the wait for a reply on
  the thread's queue, and the protocol of the writer that is reached over HTTP.  The connection is
  an argument: what became of the request.  \<open>json.dumps\<close>, \<open>strftime\<close> and the length of the encoded
  request are arguments too.
\<close>

section \<open>Waiting on the reply queue\<close>

text \<open>The queue of replies with the times at which they arrive.\<close>

type_synonym reply_queue = "(real \<times> write_result) list"

definition drain_queue :: "real \<Rightarrow> reply_queue \<Rightarrow> reply_queue" where
  "drain_queue now q = dropWhile (\<lambda>(t, r). t \<le> now) q"

text \<open>None where TimeoutError is raised; the second component is what stays on the queue.\<close>

fun await_reply :: "pyobj \<Rightarrow> real \<Rightarrow> real \<Rightarrow> reply_queue \<Rightarrow> write_result option \<times> reply_queue" where
  "await_reply i deadline now [] = (None, [])"
| "await_reply i deadline now ((t, r) # q) =
     (if deadline \<le> now \<or> deadline \<le> t then (None, (t, r) # q)
      else if res_id r = i then (Some r, q)
      else await_reply i deadline (max now t) q)"

definition submit_wait :: "write_command \<Rightarrow> real \<Rightarrow> real \<Rightarrow> reply_queue \<Rightarrow> write_result option \<times> reply_queue" where
  "submit_wait cmd timeout now q = await_reply (cmd_id cmd) (now + timeout) now (drain_queue now q)"

definition DEFAULT_SUBMIT_TIMEOUT_SECONDS :: int where "DEFAULT_SUBMIT_TIMEOUT_SECONDS = 30"

definition default_submit_timeout :: "string option \<Rightarrow> int" where
  "default_submit_timeout raw = (case raw of
       None \<Rightarrow> DEFAULT_SUBMIT_TIMEOUT_SECONDS
     | Some s \<Rightarrow> if s = [] then DEFAULT_SUBMIT_TIMEOUT_SECONDS
         else (case int_of_str s of
             None \<Rightarrow> DEFAULT_SUBMIT_TIMEOUT_SECONDS
           | Some v \<Rightarrow> if v \<le> 0 then DEFAULT_SUBMIT_TIMEOUT_SECONDS else v))"

section \<open>The request\<close>

definition RUST_WRITER_MAX_REQUEST_BYTES :: nat where "RUST_WRITER_MAX_REQUEST_BYTES = 16 * 1024 * 1024"

text \<open>Datetimes as the columns store them: \<open>fmt\<close> is \<open>strftime\<close> on a naive datetime.\<close>

definition column_value :: "(int \<Rightarrow> string) \<Rightarrow> pyobj \<Rightarrow> pyobj" where
  "column_value fmt v = (case v of
       PTime tz t \<Rightarrow> PStr (fmt (case tz of None \<Rightarrow> t | Some offset \<Rightarrow> t - offset))
     | _ \<Rightarrow> v)"

definition model_column_values :: "(int \<Rightarrow> string) \<Rightarrow> (string \<times> pyobj) list \<Rightarrow> (string \<times> pyobj) list" where
  "model_column_values fmt kvs = map (\<lambda>(k, v). (k, column_value fmt v)) kvs"

datatype encode_error = EncodeValueError | EncodeAttributeError

definition fields_of :: "pyobj \<Rightarrow> encode_error + (string \<times> pyobj) list" where
  "fields_of v = (case v of PDict kvs \<Rightarrow> Inr kvs | _ \<Rightarrow> Inl EncodeAttributeError)"

definition operation_name :: "command_type \<Rightarrow> string" where
  "operation_name t = (case t of CREATE \<Rightarrow> ''create'' | UPDATE \<Rightarrow> ''update'' | DELETE \<Rightarrow> ''delete''
     | TRANSACTION \<Rightarrow> ''transaction'' | ACTION \<Rightarrow> ''action'')"

definition model_value :: "string option \<Rightarrow> pyobj" where
  "model_value m = (case m of None \<Rightarrow> PNone | Some s \<Rightarrow> PStr s)"

text \<open>The payload without its common part, of a command that is no transaction.\<close>

definition plain_payload :: "(int \<Rightarrow> string) \<Rightarrow> write_command \<Rightarrow> encode_error + (string \<times> pyobj) list" where
  "plain_payload fmt cmd =
     (case fields_of (cmd_data cmd) of
        Inl e \<Rightarrow> Inl e
      | Inr kvs \<Rightarrow>
          (let op = (''operation'', PStr (operation_name (cmd_type cmd))); m = (''model'', model_value (cmd_model cmd));
               pk = (case map_of kvs ''id'' of None \<Rightarrow> PNone | Some v \<Rightarrow> v) in
           case cmd_type cmd of
             ACTION \<Rightarrow>
               (case map_of kvs ''action'' of
                  None \<Rightarrow> Inl EncodeValueError
                | Some a \<Rightarrow> Inr [op, (''action'', a),
                    (''params'', case map_of kvs ''params'' of None \<Rightarrow> PDict [] | Some p \<Rightarrow> p)])
           | CREATE \<Rightarrow> Inr [op, m, (''data'', PDict (model_column_values fmt kvs))]
           | UPDATE \<Rightarrow> Inr [op, m, (''id'', column_value fmt pk),
               (''data'', PDict (filter (\<lambda>kv. fst kv \<noteq> ''id'') (model_column_values fmt kvs)))]
           | DELETE \<Rightarrow> Inr [op, m, (''id'', pk)]
           | TRANSACTION \<Rightarrow> Inr [op]))"

text \<open>The command a transaction item stands for.\<close>

definition transaction_item :: "pyobj \<Rightarrow> encode_error + write_command" where
  "transaction_item v = (case v of
       PCommand i t m d \<Rightarrow> Inr \<lparr>cmd_id = i, cmd_type = t, cmd_model = m, cmd_data = d\<rparr>
     | PDict kvs \<Rightarrow>
         (case Option.bind (map_of kvs ''type'') type_of_value of
            None \<Rightarrow> Inl EncodeValueError
          | Some t \<Rightarrow> Inr \<lparr>cmd_id = (case map_of kvs ''id'' of None \<Rightarrow> PStr ''sub'' | Some i \<Rightarrow> i), cmd_type = t,
                            cmd_model = model_of_value (case map_of kvs ''model'' of None \<Rightarrow> PNone | Some m \<Rightarrow> m),
                            cmd_data = (case map_of kvs ''data'' of None \<Rightarrow> PDict [] | Some d \<Rightarrow> d)\<rparr>)
     | _ \<Rightarrow> Inl EncodeValueError)"

lemma size_map_of: "map_of kvs k = Some v \<Longrightarrow> size v < size (PDict kvs)"
  by (induction kvs) (auto split: if_splits)

lemma size_transaction_item: "transaction_item v = Inr c \<Longrightarrow> size (cmd_data c) \<le> size v"
  by (cases v) (auto simp: transaction_item_def less_imp_le dest: size_map_of split: option.splits)

lemma size_dict_get: "dict_get d k (PList []) = Some v \<Longrightarrow> size v \<le> size d"
  by (cases d) (auto dest: size_map_of split: option.splits)

lemma size_dict_items: "dict_get d k (PList []) = Some (PList xs) \<Longrightarrow> size_list size xs < size d"
proof (cases d)
  case (PDict kvs)
  assume "dict_get d k (PList []) = Some (PList xs)"
  then show ?thesis using PDict by (auto dest: size_map_of split: option.splits)
qed simp_all

function command_payload :: "(int \<Rightarrow> string) \<Rightarrow> write_command \<Rightarrow> encode_error + (string \<times> pyobj) list"
  and items_payload :: "(int \<Rightarrow> string) \<Rightarrow> pyobj list \<Rightarrow> encode_error + pyobj list" where
  "command_payload fmt cmd =
     (if cmd_type cmd \<noteq> TRANSACTION then plain_payload fmt cmd
      else case dict_get (cmd_data cmd) ''commands'' (PList []) of
        None \<Rightarrow> Inl EncodeAttributeError
      | Some (PList xs) \<Rightarrow>
          (case items_payload fmt xs of
             Inl e \<Rightarrow> Inl e
           | Inr ps \<Rightarrow> Inr [(''operation'', PStr (operation_name TRANSACTION)), (''commands'', PList ps)])
      | Some v \<Rightarrow>
          if v = PDict [] \<or> v = PStr [] then
            Inr [(''operation'', PStr (operation_name TRANSACTION)), (''commands'', PList [])]
          else Inl EncodeValueError)"
| "items_payload fmt [] = Inr []"
| "items_payload fmt (v # vs) =
     (case transaction_item v of
        Inl e \<Rightarrow> Inl e
      | Inr c \<Rightarrow>
          (case command_payload fmt c of
             Inl e \<Rightarrow> Inl e
           | Inr p \<Rightarrow>
               (case items_payload fmt vs of
                  Inl e \<Rightarrow> Inl e
                | Inr ps \<Rightarrow> Inr (PDict ((''command_id'', cmd_id c) # p) # ps))))"
  by pat_completeness auto
termination
  by (relation "measure (\<lambda>x. case x of Inl (_, cmd) \<Rightarrow> size (cmd_data cmd) | Inr (_, xs) \<Rightarrow> size_list size xs)")
    (auto dest: size_dict_items size_transaction_item)

definition rust_command_payload :: "(int \<Rightarrow> string) \<Rightarrow> write_command \<Rightarrow> bool \<Rightarrow> encode_error + pyobj" where
  "rust_command_payload fmt cmd wait =
     (case command_payload fmt cmd of
        Inl e \<Rightarrow> Inl e
      | Inr p \<Rightarrow> Inr (PDict ([(''version'', PNum 1), (''command_id'', cmd_id cmd), (''wait'', PBool wait)] @ p)))"

text \<open>What \<open>json.dumps\<close> accepts.\<close>

fun json_value :: "pyobj \<Rightarrow> bool" where
  "json_value (PList xs) = list_all json_value xs"
| "json_value (PDict kvs) = list_all (\<lambda>kv. json_value (snd kv)) kvs"
| "json_value (PTime _ _) = False"
| "json_value (PType _) = False"
| "json_value (PCommand _ _ _ _) = False"
| "json_value _ = True"

section \<open>The response\<close>

text \<open>What became of the request once it was encoded.\<close>

datatype http_event =
    NotSent
  | SentThenLost
  | ResponseTooLarge
  | ResponseNotJson
  | Response int pyobj

text \<open>\<open>TransportError\<close> is raised before the writer can have taken the command, \<open>OutcomeUnknown\<close> when it may
  have.\<close>

datatype client_outcome =
    Returned "write_result option"
  | TransportError
  | OutcomeUnknown
  | InvalidCommand
  | AttributeFailed

text \<open>The code and the message of an error are strings.\<close>

definition text_field :: "(string \<times> pyobj) list \<Rightarrow> string \<Rightarrow> string \<Rightarrow> string" where
  "text_field kvs k d = (case map_of kvs k of Some (PStr s) \<Rightarrow> s | _ \<Rightarrow> d)"

definition coded_failure :: "pyobj \<Rightarrow> string \<Rightarrow> string \<Rightarrow> (string \<times> pyobj) list \<Rightarrow> write_result" where
  "coded_failure i code message err =
     failed i (Coded (text_field err ''code'' code) (text_field err ''message'' message))"

definition error_fields :: "(string \<times> pyobj) list \<Rightarrow> (string \<times> pyobj) list option" where
  "error_fields payload =
     (let e = (case map_of payload ''error'' of None \<Rightarrow> PNone | Some v \<Rightarrow> v) in
      if \<not> py_truth e then Some [] else (case e of PDict kvs \<Rightarrow> Some kvs | _ \<Rightarrow> None))"

definition field :: "(string \<times> pyobj) list \<Rightarrow> string \<Rightarrow> pyobj" where
  "field payload k = (case map_of payload k of None \<Rightarrow> PNone | Some v \<Rightarrow> v)"

definition adapt_rejection :: "write_command \<Rightarrow> bool \<Rightarrow> (string \<times> pyobj) list \<Rightarrow> client_outcome" where
  "adapt_rejection cmd wait payload =
     (if field payload ''command_id'' \<notin> {PNone, cmd_id cmd} \<or> field payload ''admitted'' \<noteq> PBool False then OutcomeUnknown
      else case error_fields payload of
        None \<Rightarrow> AttributeFailed
      | Some err \<Rightarrow> if wait then Returned (Some (coded_failure (cmd_id cmd) ''writer_rejected'' ''writer rejected command'' err))
          else TransportError)"

definition adapt_admission :: "write_command \<Rightarrow> bool \<Rightarrow> int \<Rightarrow> (string \<times> pyobj) list \<Rightarrow> client_outcome" where
  "adapt_admission cmd wait status payload =
     (if wait \<or> field payload ''command_id'' \<noteq> cmd_id cmd \<or> field payload ''admitted'' \<noteq> PBool True \<or> status \<noteq> 202
      then OutcomeUnknown else Returned None)"

definition transaction_operation_type :: "write_command \<Rightarrow> nat \<Rightarrow> command_type option" where
  "transaction_operation_type cmd index =
     (case dict_get (cmd_data cmd) ''commands'' (PList []) of
        Some (PList xs) \<Rightarrow>
          if length xs \<le> index then None
          else (case xs ! index of
              PCommand _ t _ _ \<Rightarrow> Some t
            | PDict kvs \<Rightarrow> type_of_value (field kvs ''type'')
            | _ \<Rightarrow> None)
      | _ \<Rightarrow> None)"

definition legacy_result_data :: "pyobj \<Rightarrow> command_type option \<Rightarrow> pyobj" where
  "legacy_result_data value t =
     (if t = Some CREATE then (case value of PDict kvs \<Rightarrow> value | _ \<Rightarrow> PNone)
      else if t = Some UPDATE \<or> t = Some DELETE then PNone
      else value)"

fun adapt_entries :: "write_command \<Rightarrow> nat \<Rightarrow> pyobj list \<Rightarrow> pyobj list option" where
  "adapt_entries cmd index [] = Some []"
| "adapt_entries cmd index (v # vs) =
     (case v of
        PDict entry \<Rightarrow>
          if field entry ''success'' \<noteq> PBool True then None
          else map_option (\<lambda>es. PDict [(''command_id'', field entry ''command_id''), (''success'', PBool True),
              (''data'', legacy_result_data (field entry ''data'') (transaction_operation_type cmd index)),
              (''error'', PNone)] # es) (adapt_entries cmd (Suc index) vs)
      | _ \<Rightarrow> None)"

definition adapt_failed_completion :: "write_command \<Rightarrow> (string \<times> pyobj) list \<Rightarrow> client_outcome" where
  "adapt_failed_completion cmd payload =
     (case error_fields payload of
        None \<Rightarrow> AttributeFailed
      | Some err \<Rightarrow>
          if field err ''outcome'' = PStr ''unknown'' then OutcomeUnknown
          else Returned (Some (coded_failure (cmd_id cmd) ''writer_failed'' ''writer command failed'' err)))"

definition adapt_completion :: "write_command \<Rightarrow> bool \<Rightarrow> int \<Rightarrow> (string \<times> pyobj) list \<Rightarrow> client_outcome" where
  "adapt_completion cmd wait status payload =
     (if field payload ''command_id'' \<noteq> cmd_id cmd \<or> status \<noteq> 200 \<or> \<not> wait then OutcomeUnknown
      else if \<not> py_truth (case map_of payload ''success'' of None \<Rightarrow> PBool False | Some v \<Rightarrow> v)
      then adapt_failed_completion cmd payload
      else if cmd_type cmd = TRANSACTION then
        (case field payload ''result'' of
           PDict kvs \<Rightarrow>
             (case field kvs ''results'' of
                PList items \<Rightarrow>
                  (case adapt_entries cmd 0 items of
                     None \<Rightarrow> OutcomeUnknown
                   | Some es \<Rightarrow> Returned (Some (ok_result (cmd_id cmd) (PDict [(''results'', PList es)]))))
              | _ \<Rightarrow> OutcomeUnknown)
         | _ \<Rightarrow> OutcomeUnknown)
      else Returned (Some (ok_result (cmd_id cmd)
        (legacy_result_data (field payload ''result'') (Some (cmd_type cmd))))))"

definition adapt_rust_response :: "write_command \<Rightarrow> bool \<Rightarrow> int \<Rightarrow> pyobj \<Rightarrow> client_outcome" where
  "adapt_rust_response cmd wait status v =
     (case v of
        PDict payload \<Rightarrow>
          if field payload ''version'' \<notin> {PNum 1, PBool True} then OutcomeUnknown
          else (let state = field payload ''state'' in
            if state = PStr ''rejected'' then adapt_rejection cmd wait payload
            else if state = PStr ''unknown'' then OutcomeUnknown
            else if state = PStr ''accepted'' then adapt_admission cmd wait status payload
            else if state \<noteq> PStr ''completed'' then OutcomeUnknown
            else adapt_completion cmd wait status payload)
      | _ \<Rightarrow> OutcomeUnknown)"

text \<open>The encoded request, or what is raised before anything is sent: \<open>wire_size\<close> is the length of the
  encoded request, \<open>auth_key\<close> the environment's.\<close>

definition prepare_request ::
  "(int \<Rightarrow> string) \<Rightarrow> (pyobj \<Rightarrow> nat) \<Rightarrow> string \<Rightarrow> write_command \<Rightarrow> bool \<Rightarrow> int \<Rightarrow> client_outcome + pyobj" where
  "prepare_request fmt wire_size auth_key cmd wait timeout =
     (if timeout \<le> 0 then Inl InvalidCommand
      else case rust_command_payload fmt cmd wait of
        Inl EncodeValueError \<Rightarrow> Inl InvalidCommand
      | Inl EncodeAttributeError \<Rightarrow> Inl AttributeFailed
      | Inr payload \<Rightarrow>
          if \<not> json_value payload then Inl InvalidCommand
          else if RUST_WRITER_MAX_REQUEST_BYTES < wire_size payload then Inl TransportError
          else if auth_key = [] then Inl TransportError
          else Inr payload)"

definition submit_rust ::
  "(int \<Rightarrow> string) \<Rightarrow> (pyobj \<Rightarrow> nat) \<Rightarrow> string \<Rightarrow> write_command \<Rightarrow> bool \<Rightarrow> int \<Rightarrow> http_event \<Rightarrow> client_outcome" where
  "submit_rust fmt wire_size auth_key cmd wait timeout event =
     (case prepare_request fmt wire_size auth_key cmd wait timeout of
        Inl e \<Rightarrow> e
      | Inr payload \<Rightarrow>
          (case event of
            NotSent \<Rightarrow> TransportError
          | SentThenLost \<Rightarrow> OutcomeUnknown
          | ResponseTooLarge \<Rightarrow> OutcomeUnknown
          | ResponseNotJson \<Rightarrow> OutcomeUnknown
          | Response status v \<Rightarrow> adapt_rust_response cmd wait status v))"

section \<open>The client's verdict is the writer's\<close>

lemma success_field:
  "py_truth (case map_of payload ''success'' of None \<Rightarrow> PBool False | Some v \<Rightarrow> v) = py_truth (field payload ''success'')"
  by (simp add: field_def split: option.split)

lemma coded_failure_simps [simp]: "\<not> res_success (coded_failure i c m err)" "res_id (coded_failure i c m err) = i"
  by (simp_all add: coded_failure_def)

text \<open>What an answer of the protocol's version says of a command: it was completed, it was not admitted, or it
  was admitted and will be executed later.\<close>

definition answer_of :: "http_event \<Rightarrow> (int \<times> (string \<times> pyobj) list) option" where
  "answer_of event = (case event of
       Response status (PDict payload) \<Rightarrow>
         if field payload ''version'' \<in> {PNum 1, PBool True} then Some (status, payload) else None
     | _ \<Rightarrow> None)"

definition says_completed :: "write_command \<Rightarrow> bool \<Rightarrow> http_event \<Rightarrow> bool" where
  "says_completed cmd success event = (case answer_of event of
       None \<Rightarrow> False
     | Some (status, payload) \<Rightarrow> status = 200 \<and> field payload ''state'' = PStr ''completed'' \<and>
         field payload ''command_id'' = cmd_id cmd \<and> py_truth (field payload ''success'') = success)"

definition names_the_outcome :: "http_event \<Rightarrow> bool" where
  "names_the_outcome event = (case answer_of event of
       None \<Rightarrow> False
     | Some (status, payload) \<Rightarrow> (case error_fields payload of
         None \<Rightarrow> False | Some err \<Rightarrow> field err ''outcome'' \<noteq> PStr ''unknown''))"

definition says_rejected :: "write_command \<Rightarrow> http_event \<Rightarrow> bool" where
  "says_rejected cmd event = (case answer_of event of
       None \<Rightarrow> False
     | Some (status, payload) \<Rightarrow> field payload ''state'' = PStr ''rejected'' \<and>
         field payload ''admitted'' = PBool False \<and> field payload ''command_id'' \<in> {PNone, cmd_id cmd})"

definition says_accepted :: "write_command \<Rightarrow> http_event \<Rightarrow> bool" where
  "says_accepted cmd event = (case answer_of event of
       None \<Rightarrow> False
     | Some (status, payload) \<Rightarrow> status = 202 \<and> field payload ''state'' = PStr ''accepted'' \<and>
         field payload ''admitted'' = PBool True \<and> field payload ''command_id'' = cmd_id cmd)"

lemmas says_defs = answer_of_def says_completed_def names_the_outcome_def says_rejected_def says_accepted_def

text \<open>The verdict that goes with an event.\<close>

definition verdict :: "write_command \<Rightarrow> bool \<Rightarrow> http_event \<Rightarrow> client_outcome \<Rightarrow> bool" where
  "verdict cmd wait event outcome = (case outcome of
       Returned (Some r) \<Rightarrow> wait \<and> res_id r = cmd_id cmd \<and>
         (if res_success r then says_completed cmd True event
          else says_rejected cmd event \<or> says_completed cmd False event \<and> names_the_outcome event)
     | Returned None \<Rightarrow> \<not> wait \<and> says_accepted cmd event
     | TransportError \<Rightarrow> event = NotSent \<or> \<not> wait \<and> says_rejected cmd event
     | OutcomeUnknown \<Rightarrow> event \<noteq> NotSent \<and> \<not> says_rejected cmd event \<and> \<not> (\<not> wait \<and> says_accepted cmd event) \<and>
         \<not> (wait \<and> says_completed cmd False event \<and> names_the_outcome event) \<and>
         \<not> (wait \<and> says_completed cmd True event \<and> cmd_type cmd \<noteq> TRANSACTION)
     | InvalidCommand \<Rightarrow> False
     | AttributeFailed \<Rightarrow> True)"

lemma verdict_completion:
  assumes "field payload ''version'' \<in> {PNum 1, PBool True}" and "field payload ''state'' = PStr ''completed''"
  shows "verdict cmd wait (Response status (PDict payload)) (adapt_completion cmd wait status payload)"
  using assms unfolding adapt_completion_def success_field adapt_failed_completion_def
  by (auto simp: verdict_def says_defs split: option.split pyobj.split)

lemma verdict_response: "verdict cmd wait (Response status v) (adapt_rust_response cmd wait status v)"
proof (cases v)
  case (PDict payload)
  show ?thesis
  proof (cases "field payload ''version'' \<in> {PNum 1, PBool True}")
    case True
    show ?thesis
    proof (cases "field payload ''state'' = PStr ''completed''")
      case completed: True
      then show ?thesis using verdict_completion [OF True completed] True PDict
        by (simp add: adapt_rust_response_def)
    next
      case False
      then show ?thesis using True PDict
        by (auto simp: adapt_rust_response_def Let_def adapt_rejection_def adapt_admission_def verdict_def says_defs
            split: option.split)
    qed
  next
    case False
    then show ?thesis using PDict by (auto simp: adapt_rust_response_def verdict_def says_defs)
  qed
qed (simp_all add: adapt_rust_response_def verdict_def says_defs)

lemma prepare_request_errors:
  "prepare_request fmt wire_size auth_key cmd wait timeout = Inl e \<Longrightarrow> e \<in> {TransportError, InvalidCommand, AttributeFailed}"
  by (auto simp: prepare_request_def split: if_splits sum.splits encode_error.splits)

text \<open>C10.  Whatever becomes of a request, the client reports what the writer answered about this very
  command.  A success is returned for an answer that names the command and says it was completed with success;
  a failure only for an answer that names it and says it failed with a known outcome, or that it was not
  admitted.  The error that means that the writer was not reached is raised only when nothing was sent or,
  for a caller who does not wait, when the command was not admitted.  The error that means that the outcome
  is unknown is raised only when something was sent and no such answer came back.\<close>

theorem a_reported_outcome_is_the_outcome:
  shows "case submit_rust fmt wire_size auth_key cmd wait timeout event of
      Returned (Some r) \<Rightarrow> wait \<and> res_id r = cmd_id cmd \<and>
        (if res_success r then says_completed cmd True event
         else says_rejected cmd event \<or> says_completed cmd False event \<and> names_the_outcome event)
    | Returned None \<Rightarrow> \<not> wait \<and> says_accepted cmd event
    | TransportError \<Rightarrow> prepare_request fmt wire_size auth_key cmd wait timeout = Inl TransportError \<or>
        event = NotSent \<or> \<not> wait \<and> says_rejected cmd event
    | OutcomeUnknown \<Rightarrow> event \<noteq> NotSent \<and> \<not> says_rejected cmd event \<and> \<not> (\<not> wait \<and> says_accepted cmd event) \<and>
        \<not> (wait \<and> says_completed cmd False event \<and> names_the_outcome event) \<and>
        \<not> (wait \<and> says_completed cmd True event \<and> cmd_type cmd \<noteq> TRANSACTION)
    | InvalidCommand \<Rightarrow> prepare_request fmt wire_size auth_key cmd wait timeout = Inl InvalidCommand
    | AttributeFailed \<Rightarrow> True"
proof (cases "prepare_request fmt wire_size auth_key cmd wait timeout")
  case (Inl e)
  then show ?thesis using prepare_request_errors [OF Inl] by (auto simp: submit_rust_def)
next
  case (Inr p)
  have "verdict cmd wait event (submit_rust fmt wire_size auth_key cmd wait timeout event)"
  proof (cases event)
    case (Response status v)
    then show ?thesis using Inr verdict_response by (simp add: submit_rust_def)
  qed (use Inr in \<open>simp_all add: submit_rust_def verdict_def says_defs\<close>)
  then show ?thesis unfolding verdict_def by (auto split: client_outcome.splits option.splits)
qed

theorem a_reported_outcome_is_the_outcome_witness:
  "let cmd = \<lparr>cmd_id = PStr ''c'', cmd_type = DELETE, cmd_model = Some ''Post'', cmd_data = PDict [(''id'', PNum 7)]\<rparr>;
       event = Response 200 (PDict [(''version'', PNum 1), (''command_id'', PStr ''c''), (''state'', PStr ''completed''),
         (''success'', PBool True)])
   in \<exists>r. submit_rust (\<lambda>_. '''') (\<lambda>_. 100) ''k'' cmd True 30 event = Returned (Some r) \<and> res_id r = PStr ''c''"
proof -
  let ?cmd = "\<lparr>cmd_id = PStr ''c'', cmd_type = DELETE, cmd_model = Some ''Post'', cmd_data = PDict [(''id'', PNum 7)]\<rparr>"
  let ?event = "Response 200 (PDict [(''version'', PNum 1), (''command_id'', PStr ''c''), (''state'', PStr ''completed''),
    (''success'', PBool True)])"
  have "\<exists>r. submit_rust (\<lambda>_. '''') (\<lambda>_. 100) ''k'' ?cmd True 30 ?event = Returned (Some r)"
    by (simp add: submit_rust_def prepare_request_def rust_command_payload_def plain_payload_def fields_of_def Let_def
        model_value_def RUST_WRITER_MAX_REQUEST_BYTES_def adapt_rust_response_def field_def adapt_completion_def)
  then show ?thesis
    using a_reported_outcome_is_the_outcome [where fmt = "\<lambda>_. ''''" and wire_size = "\<lambda>_. 100" and auth_key = "''k''"
        and cmd = ?cmd and wait = True and timeout = 30 and event = ?event]
    by (auto simp: Let_def)
qed

text \<open>An answer about another command settles nothing.\<close>

lemma another_commands_answer_is_unknown:
  "submit_rust (\<lambda>_. '''') (\<lambda>_. 100) ''k'' \<lparr>cmd_id = PStr ''c'', cmd_type = DELETE, cmd_model = Some ''Post'',
      cmd_data = PDict [(''id'', PNum 7)]\<rparr> True 30
    (Response 200 (PDict [(''version'', PNum 1), (''command_id'', PStr ''d''), (''state'', PStr ''completed''),
      (''success'', PBool True)])) = OutcomeUnknown"
  by (simp add: submit_rust_def prepare_request_def rust_command_payload_def plain_payload_def fields_of_def Let_def
      model_value_def RUST_WRITER_MAX_REQUEST_BYTES_def adapt_rust_response_def field_def adapt_completion_def)

section \<open>Waiting\<close>

lemma await_reply_find:
  "sorted (map fst q) \<Longrightarrow> now < deadline \<Longrightarrow> fst (await_reply i deadline now q) =
    (case find (\<lambda>(t, r). res_id r = i) q of None \<Rightarrow> None | Some (t, r) \<Rightarrow> if t < deadline then Some r else None)"
proof (induction i deadline now q rule: await_reply.induct)
  case (2 i deadline now t r q)
  show ?case
  proof (cases "deadline \<le> t \<and> res_id r \<noteq> i")
    case True
    have "\<not> t' < deadline" if "find (\<lambda>(t, r). res_id r = i) q = Some (t', r')" for t' r'
    proof -
      have "(t', r') \<in> set q" using that by (auto simp: find_Some_iff in_set_conv_nth)
      then have "t \<le> t'" using "2.prems"(1) by force
      then show ?thesis using True by simp
    qed
    then show ?thesis using True by (auto split: option.split)
  next
    case False
    then show ?thesis using 2 by auto
  qed
qed simp

lemma find_dropWhile: "(\<And>x. x \<in> set xs \<Longrightarrow> Q x \<Longrightarrow> \<not> P x) \<Longrightarrow> find P (dropWhile Q xs) = find P xs"
  by (induction xs) auto

text \<open>A caller that waits gets the reply to its own command whenever that arrives in time, however many
  late replies to abandoned commands are on the queue or arrive before it, and TimeoutError otherwise; it
  never gets another command's result.\<close>

theorem waiting_returns_the_own_reply:
  assumes "sorted (map fst q)" and "0 < timeout"
    and "list_all (\<lambda>(t, r). t \<le> now \<longrightarrow> res_id r \<noteq> cmd_id cmd) q"
  shows "fst (submit_wait cmd timeout now q) =
    (case find (\<lambda>(t, r). res_id r = cmd_id cmd) q of
       None \<Rightarrow> None | Some (t, r) \<Rightarrow> if t < now + timeout then Some r else None)"
proof -
  have "sorted (map fst (drain_queue now q))"
    using assms(1) unfolding drain_queue_def
    by (subst (asm) takeWhile_dropWhile_id [of "\<lambda>(t, r). t \<le> now" q, symmetric]) (simp only: map_append sorted_append)
  moreover have "find (\<lambda>(t, r). res_id r = cmd_id cmd) (drain_queue now q) = find (\<lambda>(t, r). res_id r = cmd_id cmd) q"
    unfolding drain_queue_def by (rule find_dropWhile) (use assms(3) in \<open>auto simp: list_all_iff\<close>)
  ultimately show ?thesis using assms(2) by (simp add: submit_wait_def await_reply_find)
qed

theorem waiting_returns_the_own_reply_witness:
  "let old = ok_result (PStr ''old'') PNone; own = ok_result (PStr ''c'') (PNum 5) in
   fst (submit_wait \<lparr>cmd_id = PStr ''c'', cmd_type = DELETE, cmd_model = None, cmd_data = PNone\<rparr> 30 10 [(9, old), (12, old), (15, own)])
     = Some own"
  unfolding Let_def by (subst waiting_returns_the_own_reply) simp_all

section \<open>Both writers answer alike\<close>

definition completed_payload :: "write_result \<Rightarrow> (string \<times> pyobj) list" where
  "completed_payload r = [(''version'', PNum 1), (''command_id'', res_id r), (''state'', PStr ''completed''),
     (''success'', PBool (res_success r)), (''result'', res_data r)]"

definition reply_shape :: "command_type \<Rightarrow> write_result \<Rightarrow> bool" where
  "reply_shape t r \<longleftrightarrow> res_success r \<and> res_error r = None \<and> legacy_result_data (res_data r) (Some t) = res_data r"

lemma reply_shape_ok [simp]: "reply_shape t (ok_result i d) \<longleftrightarrow> legacy_result_data d (Some t) = d"
  by (simp add: reply_shape_def ok_result_def)

lemma execute_single_shape:
  assumes "execute_single_command be cmd s = (s', Inr r)" and "res_success r"
  shows "reply_shape (cmd_type cmd) r \<and> cmd_type cmd \<noteq> TRANSACTION"
  using assms
  by (auto simp: execute_single_command_def handle_action_def run_action_def execute_model_command_def Let_def
      legacy_result_data_def case_prod_unfold split: if_splits option.splits sum.splits pyobj.splits)

lemma run_commands_shapes:
  "run_commands (execute_single_command be) vs s rs = (s', Inr out) \<Longrightarrow>
    \<exists>new. out = rs @ new \<and> list_all2 (\<lambda>v r. \<exists>c. sub_command v = Inr c \<and> reply_shape (cmd_type c) r) vs new"
proof (induction vs arbitrary: s rs)
  case (Cons v vs)
  then obtain c s1 r where c: "sub_command v = Inr c" and run: "execute_single_command be c s = (s1, Inr r)" "res_success r"
    and rest: "run_commands (execute_single_command be) vs s1 (rs @ [r]) = (s', Inr out)"
    by (auto split: sum.splits prod.splits if_splits)
  from Cons.IH [OF rest] obtain new where
    "out = (rs @ [r]) @ new" "list_all2 (\<lambda>v r. \<exists>c. sub_command v = Inr c \<and> reply_shape (cmd_type c) r) vs new" by blast
  with c execute_single_shape [OF run] show ?case by (intro exI [of _ "r # new"]) auto
qed simp

lemma adapt_entries_same:
  "(\<And>j. j < length rs \<Longrightarrow> res_success (rs ! j) \<and> legacy_result_data (res_data (rs ! j)) (transaction_operation_type cmd (k + j)) = res_data (rs ! j))
   \<Longrightarrow> adapt_entries cmd k (map result_entry rs) = Some (map result_entry rs)"
proof (induction rs arbitrary: k)
  case (Cons r rs)
  have "adapt_entries cmd (Suc k) (map result_entry rs) = Some (map result_entry rs)"
    by (rule Cons.IH) (use Cons.prems [of "Suc _"] in simp)
  moreover have "result_entry r = PDict [(''command_id'', res_id r), (''success'', PBool True), (''data'', res_data r), (''error'', PNone)]"
    using Cons.prems [of 0] by (simp add: result_entry_def)
  ultimately show ?case using Cons.prems [of 0] by (simp add: field_def)
qed simp

lemma transaction_operation_type_sub:
  assumes "dict_get (cmd_data cmd) ''commands'' (PList []) = Some (PList xs)" and "j < length xs" and "sub_command (xs ! j) = Inr c"
  shows "transaction_operation_type cmd j = Some (cmd_type c)"
  using assms by (cases "xs ! j") (auto simp: transaction_operation_type_def sub_command_def field_def split: option.splits)

lemma items_of_run:
  assumes "items_of v = Inr items" and "run_commands run items s [] = (s', Inr out)"
  shows "v = PList items \<or> items = []"
proof (cases v)
  case (PStr t)
  then show ?thesis using assms by (cases t) (auto simp: items_of_def sub_command_def)
next
  case (PDict kvs)
  then show ?thesis using assms by (cases kvs) (auto simp: items_of_def sub_command_def)
qed (use assms(1) in \<open>auto simp: items_of_def\<close>)

lemma handle_transaction_entries:
  assumes "handle_transaction be cmd s = (s', Inr r)" and "res_success r"
  shows "\<exists>rs. r = ok_result (cmd_id cmd) (PDict [(''results'', PList (map result_entry rs))]) \<and>
    adapt_entries cmd 0 (map result_entry rs) = Some (map result_entry rs)"
proof -
  obtain v items rs where v: "dict_get (cmd_data cmd) ''commands'' (PList []) = Some v" "items_of v = Inr items"
    and run: "run_commands (execute_single_command be) items s [] = (s', Inr rs)"
    and r: "r = ok_result (cmd_id cmd) (PDict [(''results'', PList (map result_entry rs))])"
    using assms by (auto simp: handle_transaction_def split: option.splits sum.splits prod.splits)
  from run_commands_shapes [OF run]
  have shapes: "list_all2 (\<lambda>v r. \<exists>c. sub_command v = Inr c \<and> reply_shape (cmd_type c) r) items rs" by simp
  have "res_success (rs ! j) \<and> legacy_result_data (res_data (rs ! j)) (transaction_operation_type cmd (0 + j)) = res_data (rs ! j)"
    if "j < length rs" for j
  proof -
    have j: "j < length items" using that shapes by (simp add: list_all2_lengthD)
    then obtain c where c: "sub_command (items ! j) = Inr c" "reply_shape (cmd_type c) (rs ! j)"
      using list_all2_nthD [OF shapes] by blast
    have "v = PList items" using items_of_run [OF v(2) run] j by auto
    then show ?thesis using transaction_operation_type_sub [OF _ j c(1)] v(1) c(2) by (simp add: reply_shape_def)
  qed
  then have "adapt_entries cmd 0 (map result_entry rs) = Some (map result_entry rs)" by (rule adapt_entries_same)
  then show ?thesis using r by blast
qed

lemma settle_success:
  "res_success (snd (settle be i (s, Inr r))) \<Longrightarrow> snd (settle be i (s, Inr r)) = r"
  "\<not> res_success (snd (settle be i (s, Inl e)))"
  by (auto simp: settle_def split: sum.splits if_splits)

text \<open>A success of the Python writer, sent in the protocol's envelope of a completed command, is read back
  by the client as the same result, whatever the command and also for every entry of a transaction: callers
  see no difference between the two writers.\<close>

theorem completed_reply_is_read_back:
  assumes "r = snd (process_command be cmd s)" and "res_success r"
  shows "adapt_rust_response cmd True 200 (PDict (completed_payload r)) = Returned (Some r)"
proof -
  obtain s' out where run: "(if cmd_type cmd = TRANSACTION then handle_transaction be cmd s else execute_single_command be cmd s) = (s', out)"
    by fastforce
  have p: "r = snd (settle be (cmd_id cmd) (s', out))" using assms(1) run by (simp add: process_command_eq)
  then obtain r' where "out = Inr r'" using assms(2) settle_success(2) by (cases out) auto
  then have r: "out = Inr r" using p assms(2) settle_success(1) [of be "cmd_id cmd" s' r'] by simp
  have id: "res_id r = cmd_id cmd" using assms(1) by simp
  have "adapt_completion cmd True 200 (completed_payload r) = Returned (Some r)"
  proof (cases "cmd_type cmd = TRANSACTION")
    case True
    then obtain rs where "r = ok_result (cmd_id cmd) (PDict [(''results'', PList (map result_entry rs))])"
      "adapt_entries cmd 0 (map result_entry rs) = Some (map result_entry rs)"
      using handle_transaction_entries [of be cmd s s' r] run r assms(2) by auto
    then show ?thesis using True by (simp add: adapt_completion_def completed_payload_def field_def ok_result_def)
  next
    case False
    then have "reply_shape (cmd_type cmd) r" using execute_single_shape [of be cmd s s' r] run r assms(2) by simp
    then have "r = ok_result (cmd_id cmd) (res_data r)" "legacy_result_data (res_data r) (Some (cmd_type cmd)) = res_data r"
      using id by (simp_all add: reply_shape_def ok_result_def)
    then show ?thesis using False assms(2) id by (simp add: adapt_completion_def completed_payload_def field_def)
  qed
  then show ?thesis by (simp add: adapt_rust_response_def completed_payload_def field_def Let_def)
qed

theorem completed_reply_is_read_back_witness:
  "let s = \<lparr>committed = sample_tables, working = sample_tables\<rparr>;
       tr = \<lparr>cmd_id = PStr ''t'', cmd_type = TRANSACTION, cmd_model = None, cmd_data = PDict [(''commands'', PList
         [PCommand (PStr ''a'') CREATE (Some ''Post'') (PDict [(''id'', PNum 2)]),
          PCommand (PStr ''b'') ACTION None (PDict [(''action'', PStr ''clear_all_jobs'')])])]\<rparr>;
       r = snd (process_command table_backend tr s)
   in adapt_rust_response tr True 200 (PDict (completed_payload r)) = Returned (Some r)"
  unfolding Let_def by (rule completed_reply_is_read_back [OF refl]) code_simp

end
