(* ===== verification/PostStore.thy ===== *)
theory PostStore
  imports JobStore Writer
begin

text \<open>
  What the writer keeps of an episode's processing: transcript segments, model calls,
  identifications, audio segments and the outputs recorded on the post
  (\<open>src/app/writer/actions/processor.py\<close>, \<open>cleanup.py\<close>, \<open>src/app/model_call_utils.py\<close>).  Tables are lists of rows, a
  new row gets the largest id plus one (SQLite's rowid), foreign keys are not enforced, as on the
  application's connections; an action that raises is \<open>Inl\<close> and leaves the database as it was.
  Garbage collection between batches and logging are left out; the normalisation of words by the
  native sidecar and compression are arguments.
\<close>

section \<open>The tables\<close>

record post_media =
  pm_id :: int
  pm_guid :: string
  pm_feed :: int
  pm_whitelisted :: bool
  pm_unprocessed :: "string option"
  pm_processed :: "string option"
  pm_duration :: "real option"
  pm_chapters :: "string option"
  pm_bleeps :: "json option"
  pm_removed :: "json option"
  pm_original_duration :: "real option"
  pm_cut_source :: "string option"
  pm_words :: "json option"
  pm_refined :: "json option"
  pm_refined_at :: "instant option"
  pm_url :: string
  pm_title :: string
  pm_description :: "string option"
  pm_image :: "string option"
  pm_release :: "instant option"
  pm_downloads :: "int option"

record segment_row =
  sg_id :: int
  sg_post :: int
  sg_num :: int
  sg_start :: real
  sg_end :: real
  sg_text :: string
  sg_speaker :: "string option"

record ident_row =
  id_id :: int
  id_segment :: int
  id_call :: int
  id_label :: string
  id_confidence :: json

record call_row =
  mc_id :: int
  mc_post :: int
  mc_model :: string
  mc_first :: int
  mc_last :: int
  mc_prompt :: string
  mc_status :: string
  mc_retries :: int
  mc_error :: "string option"
  mc_response :: "string option"
  mc_time :: instant

record audio_row =
  au_post :: int
  au_call :: "int option"
  au_label :: string
  au_start :: real
  au_end :: real

record media_db =
  m_posts :: "post_media list"
  m_segments :: "segment_row list"
  m_idents :: "ident_row list"
  m_calls :: "call_row list"
  m_audio :: "audio_row list"
  m_jobs :: "job list"
  m_run :: "jobs_run option"
  m_files :: "string list"

datatype store_error = MissingParam | PostMissing int | NotAList | BadValue | Integrity

definition next_id :: "int list \<Rightarrow> int" where
  "next_id ids = fold max ids 0 + 1"

definition find_post :: "media_db \<Rightarrow> int \<Rightarrow> post_media option" where
  "find_post db pid = find (\<lambda>p. pm_id p = pid) (m_posts db)"

definition modify_post :: "int \<Rightarrow> (post_media \<Rightarrow> post_media) \<Rightarrow> media_db \<Rightarrow> media_db" where
  "modify_post pid f db = db\<lparr>m_posts := map (\<lambda>p. if pm_id p = pid then f p else p) (m_posts db)\<rparr>"

definition modify_call :: "int \<Rightarrow> (call_row \<Rightarrow> call_row) \<Rightarrow> media_db \<Rightarrow> media_db" where
  "modify_call cid f db = db\<lparr>m_calls := map (\<lambda>c. if mc_id c = cid then f c else c) (m_calls db)\<rparr>"

section \<open>Model calls\<close>

type_synonym call_key = "int \<times> string \<times> int \<times> int"

definition key_of :: "call_row \<Rightarrow> call_key" where
  "key_of c = (mc_post c, mc_model c, mc_first c, mc_last c)"

definition query_call :: "call_key \<Rightarrow> media_db \<Rightarrow> call_row option" where
  "query_call k db =
     (case sort_key (\<lambda>c. - mc_time c) (filter (\<lambda>c. key_of c = k) (m_calls db)) of [] \<Rightarrow> None | c # _ \<Rightarrow> Some c)"

text \<open>Adding a row and flushing: the unique index on the key.\<close>

definition insert_call :: "call_row \<Rightarrow> media_db \<Rightarrow> store_error + media_db" where
  "insert_call c db =
     (if key_of c \<in> key_of ` set (m_calls db) then Inl Integrity else Inr (db\<lparr>m_calls := m_calls db @ [c]\<rparr>))"

text \<open>What the unique index demands when changed rows are flushed.\<close>

definition flush_ok :: "media_db \<Rightarrow> bool" where
  "flush_ok db \<longleftrightarrow> distinct (map key_of (m_calls db))"

definition reset_call :: "string \<Rightarrow> call_row \<Rightarrow> call_row" where
  "reset_call prompt c =
     (if mc_status c \<in> {''pending'', ''retrying'', ''failed_retries'', ''failed_permanent'', ''cancelled''}
      then c\<lparr>mc_status := ''pending'', mc_prompt := prompt, mc_retries := 0, mc_error := None, mc_response := None\<rparr>
      else c)"

text \<open>The row that is found or inserted.  The insertion's conflict is retried in the code by a rollback and a
  second query; \<open>query_None_insert\<close> shows that it cannot occur after an unsuccessful query of the same
  session.\<close>

definition get_or_insert_call :: "call_key \<Rightarrow> (int \<Rightarrow> call_row) \<Rightarrow> media_db \<Rightarrow> store_error + int \<times> media_db" where
  "get_or_insert_call k new_row db =
     (case query_call k db of
        Some c \<Rightarrow> Inr (mc_id c, db)
      | None \<Rightarrow>
          (let c = new_row (next_id (map mc_id (m_calls db))) in
           case insert_call c db of Inl e \<Rightarrow> Inl e | Inr db' \<Rightarrow> Inr (mc_id c, db')))"

definition new_call_row :: "call_key \<Rightarrow> string \<Rightarrow> instant \<Rightarrow> int \<Rightarrow> call_row" where
  "new_call_row k prompt now i = (case k of (p, m, f, l) \<Rightarrow>
     \<lparr>mc_id = i, mc_post = p, mc_model = m, mc_first = f, mc_last = l, mc_prompt = prompt, mc_status = ''pending'',
      mc_retries = 0, mc_error = None, mc_response = None, mc_time = now\<rparr>)"

definition upsert_model_call_action ::
  "int option \<Rightarrow> string option \<Rightarrow> int option \<Rightarrow> int option \<Rightarrow> string option \<Rightarrow> instant \<Rightarrow> media_db \<Rightarrow>
   store_error + int \<times> media_db" where
  "upsert_model_call_action post model first_num last_num prompt now db =
     (case (post, model, first_num, last_num, prompt) of
        (Some p, Some m, Some f, Some l, Some pr) \<Rightarrow>
          if pr = [] then Inl MissingParam
          else (case get_or_insert_call (p, m, f, l) (new_call_row (p, m, f, l) pr now) db of
              Inl e \<Rightarrow> Inl e
            | Inr (cid, db') \<Rightarrow> Inr (cid, modify_call cid (reset_call pr) db'))
      | _ \<Rightarrow> Inl MissingParam)"

definition delete_model_calls_for_post_by_model_name_action ::
  "int option \<Rightarrow> string option \<Rightarrow> media_db \<Rightarrow> store_error + nat \<times> media_db" where
  "delete_model_calls_for_post_by_model_name_action post model db =
     (case (post, model) of
        (Some p, Some m) \<Rightarrow>
          if m = [] then Inl MissingParam
          else Inr (length (filter (\<lambda>c. mc_post c = p \<and> mc_model c = m) (m_calls db)),
                    db\<lparr>m_calls := filter (\<lambda>c. \<not> (mc_post c = p \<and> mc_model c = m)) (m_calls db)\<rparr>)
      | _ \<Rightarrow> Inl MissingParam)"

text \<open>The entries of \<open>reset_fields\<close>.\<close>

datatype reset_field =
    RStatus string | RPrompt string | RRetries int | RError "string option" | RResponse "string option"

definition default_reset_fields :: "reset_field list" where
  "default_reset_fields = [RStatus ''pending'', RPrompt ''Whisper transcription job'', RRetries 0, RError None, RResponse None]"

fun set_field :: "reset_field \<Rightarrow> call_row \<Rightarrow> call_row" where
  "set_field (RStatus s) c = c\<lparr>mc_status := s\<rparr>"
| "set_field (RPrompt s) c = c\<lparr>mc_prompt := s\<rparr>"
| "set_field (RRetries n) c = c\<lparr>mc_retries := n\<rparr>"
| "set_field (RError e) c = c\<lparr>mc_error := e\<rparr>"
| "set_field (RResponse r) c = c\<lparr>mc_response := r\<rparr>"

definition upsert_whisper_model_call_action ::
  "int option \<Rightarrow> string option \<Rightarrow> int option \<Rightarrow> int option \<Rightarrow> string option \<Rightarrow> reset_field list option \<Rightarrow> instant \<Rightarrow> media_db \<Rightarrow>
   store_error + int \<times> media_db" where
  "upsert_whisper_model_call_action post model first_num last_num prompt reset now db =
     (let f = (case first_num of None \<Rightarrow> 0 | Some x \<Rightarrow> x); l = (case last_num of None \<Rightarrow> - 1 | Some x \<Rightarrow> x);
          pr = (case prompt of None \<Rightarrow> ''Whisper transcription job'' | Some s \<Rightarrow> if s = [] then ''Whisper transcription job'' else s);
          fields = (case reset of None \<Rightarrow> default_reset_fields | Some fs \<Rightarrow> if fs = [] then default_reset_fields else fs) in
      case (post, model) of
        (Some p, Some m) \<Rightarrow>
          (case get_or_insert_call (p, m, f, l) (new_call_row (p, m, f, l) pr now) db of
             Inl e \<Rightarrow> Inl e
           | Inr (cid, db') \<Rightarrow> Inr (cid, modify_call cid (fold set_field fields) db'))
      | _ \<Rightarrow> Inl MissingParam)"

definition mark_model_call_failed_action ::
  "int option \<Rightarrow> string option \<Rightarrow> string option \<Rightarrow> media_db \<Rightarrow> store_error + bool \<times> media_db" where
  "mark_model_call_failed_action cid error new_status db =
     (case cid of
        None \<Rightarrow> Inl MissingParam
      | Some i \<Rightarrow>
          if i \<notin> mc_id ` set (m_calls db) then Inr (False, db)
          else Inr (True, modify_call i (\<lambda>c. c\<lparr>mc_status := (case new_status of None \<Rightarrow> ''failed_permanent'' | Some s \<Rightarrow> s),
            mc_error := error\<rparr>) db))"

text \<open>SQL's LIKE: a percent sign matches any characters, an underscore any one, letters match in either
  case.\<close>

fun sql_like :: "string \<Rightarrow> string \<Rightarrow> bool" where
  "sql_like [] [] = True"
| "sql_like [] (c # s) = False"
| "sql_like (p # ps) [] = (p = CHR ''%'' \<and> sql_like ps [])"
| "sql_like (p # ps) (c # s) =
     (if p = CHR ''%'' then sql_like ps (c # s) \<or> sql_like (p # ps) s
      else (p = CHR ''_'' \<or> lower_char p = lower_char c) \<and> sql_like ps s)"

definition WHISPER_TRANSCRIPTION_PROMPT :: string where
  "WHISPER_TRANSCRIPTION_PROMPT = ''Whisper transcription job''"

definition whisper_model_call_filter :: "call_row \<Rightarrow> bool" where
  "whisper_model_call_filter c \<longleftrightarrow>
     mc_prompt c = WHISPER_TRANSCRIPTION_PROMPT \<or> sql_like ''%whisper%'' (mc_model c) \<or> sql_like ''local_%'' (mc_model c)"

section \<open>Word timestamps\<close>

text \<open>\<open>int(v)\<close> on a decoded value; \<open>str(v)\<close> of a value that is no string is an argument.\<close>

fun json_int :: "json \<Rightarrow> int option" where
  "json_int (JNum r) = Some (py_int r)"
| "json_int (JBool b) = Some (if b then 1 else 0)"
| "json_int (JStr s) = int_of_str s"
| "json_int _ = None"

definition as_text :: "(json \<Rightarrow> string) \<Rightarrow> json \<Rightarrow> string" where
  "as_text str_of v = (case v of JStr s \<Rightarrow> s | _ \<Rightarrow> str_of v)"

text \<open>One word: dropped, kept, or a score that is no number, which raises.\<close>

definition normalize_word_payload :: "(json \<Rightarrow> string) \<Rightarrow> json \<Rightarrow> store_error + json option" where
  "normalize_word_payload str_of w =
     (case w of
        JObj kvs \<Rightarrow>
          (let word = obj_get kvs ''word''; s = obj_get kvs ''start''; e = obj_get kvs ''end''; score = obj_get kvs ''score'' in
           if word = JNull \<or> s = JNull \<or> e = JNull then Inr None
           else (case (py_float s, py_float e) of
               (Some start_f, Some end_f) \<Rightarrow>
                 if end_f < start_f then Inr None
                 else (case (if score = JNull then Some JNull else map_option JNum (py_float score)) of
                     None \<Rightarrow> Inl BadValue
                   | Some sc \<Rightarrow> Inr (Some (JObj [(''word'', JStr (as_text str_of word)), (''start'', JNum start_f),
                       (''end'', JNum end_f), (''score'', sc)])))
             | _ \<Rightarrow> Inr None))
      | _ \<Rightarrow> Inr None)"

fun collect_kept :: "('a \<Rightarrow> store_error + 'b option) \<Rightarrow> 'a list \<Rightarrow> store_error + 'b list" where
  "collect_kept f [] = Inr []"
| "collect_kept f (x # xs) =
     (case f x of
        Inl e \<Rightarrow> Inl e
      | Inr k \<Rightarrow> (case collect_kept f xs of Inl e \<Rightarrow> Inl e
          | Inr ys \<Rightarrow> Inr (case k of None \<Rightarrow> ys | Some y \<Rightarrow> y # ys)))"

definition normalize_words_segment :: "(json \<Rightarrow> string) \<Rightarrow> json \<Rightarrow> store_error + json option" where
  "normalize_words_segment str_of seg =
     (case seg of
        JObj kvs \<Rightarrow>
          (case (obj_get kvs ''sequence_num'', obj_get kvs ''words'') of
             (num, JList ws) \<Rightarrow>
               if num = JNull then Inr None
               else (case json_int num of
                   None \<Rightarrow> Inr None
                 | Some n \<Rightarrow>
                     (case collect_kept (normalize_word_payload str_of) ws of
                        Inl e \<Rightarrow> Inl e
                      | Inr [] \<Rightarrow> Inr None
                      | Inr ns \<Rightarrow> Inr (Some (JObj [(''sequence_num'', JNum (of_int n)), (''words'', JList ns)]))))
           | _ \<Rightarrow> Inr None)
      | _ \<Rightarrow> Inr None)"

definition normalize_transcript_word_timestamps_payload ::
  "(json \<Rightarrow> string) \<Rightarrow> json \<Rightarrow> store_error + json option" where
  "normalize_transcript_word_timestamps_payload str_of payload =
     (case payload of
        JList segs \<Rightarrow>
          (case collect_kept (normalize_words_segment str_of) segs of
             Inl e \<Rightarrow> Inl e
           | Inr [] \<Rightarrow> Inr None
           | Inr ns \<Rightarrow> Inr (Some (JList ns)))
      | _ \<Rightarrow> Inr None)"

section \<open>Replacing a transcription\<close>

definition start_transcription_replace_action ::
  "int option \<Rightarrow> int option \<Rightarrow> media_db \<Rightarrow> store_error + (int \<times> nat) \<times> media_db" where
  "start_transcription_replace_action post call db =
     (case post of
        None \<Rightarrow> Inl MissingParam
      | Some p \<Rightarrow>
          (case find_post db p of
             None \<Rightarrow> Inl (PostMissing p)
           | Some _ \<Rightarrow>
               (let seg_ids = map sg_id (filter (\<lambda>s. sg_post s = p) (m_segments db));
                    db1 = db\<lparr>m_idents := filter (\<lambda>i. id_segment i \<notin> set seg_ids) (m_idents db),
                             m_segments := filter (\<lambda>s. sg_post s \<noteq> p) (m_segments db)\<rparr>;
                    db2 = modify_post p (\<lambda>q. q\<lparr>pm_words := None\<rparr>) db1;
                    db3 = (case call of None \<Rightarrow> db2 | Some c \<Rightarrow>
                      modify_call c (\<lambda>r. r\<lparr>mc_first := 0, mc_last := - 1, mc_response := None, mc_status := ''pending'', mc_error := None\<rparr>) db2) in
                if flush_ok db3 then Inr ((p, length seg_ids), db3) else Inl Integrity)))"

definition segment_payload :: "(json \<Rightarrow> string) \<Rightarrow> int \<Rightarrow> nat \<times> json \<Rightarrow> store_error + segment_row option" where
  "segment_payload str_of p iv =
     (case snd iv of
        JObj kvs \<Rightarrow>
          (case (if obj_has kvs ''sequence_num'' then json_int (obj_get kvs ''sequence_num'') else Some (int (fst iv)),
                 py_float (obj_get kvs ''start_time''), py_float (obj_get kvs ''end_time''), obj_has kvs ''text'') of
             (Some n, Some s, Some e, True) \<Rightarrow>
               Inr (Some \<lparr>sg_id = 0, sg_post = p, sg_num = n, sg_start = s, sg_end = e,
                 sg_text = as_text str_of (obj_get kvs ''text''),
                 sg_speaker = (if obj_get kvs ''speaker_label'' = JNull then None
                   else Some (as_text str_of (obj_get kvs ''speaker_label'')))\<rparr>)
           | _ \<Rightarrow> Inl BadValue)
      | _ \<Rightarrow> Inr None)"

text \<open>One row: its id, and the unique index on post and sequence number.\<close>

definition insert_segment :: "segment_row \<Rightarrow> segment_row list \<Rightarrow> segment_row list option" where
  "insert_segment s rows =
     (if list_ex (\<lambda>r. sg_post r = sg_post s \<and> sg_num r = sg_num s) rows then None
      else Some (rows @ [s\<lparr>sg_id := next_id (map sg_id rows)\<rparr>]))"

fun insert_rows :: "('r \<Rightarrow> 't \<Rightarrow> 't option) \<Rightarrow> 'r list \<Rightarrow> 't \<Rightarrow> 't option" where
  "insert_rows ins [] t = Some t"
| "insert_rows ins (r # rs) t = Option.bind (ins r t) (insert_rows ins rs)"

text \<open>The loop over the batches.\<close>

fun insert_batches :: "('r \<Rightarrow> 't \<Rightarrow> 't option) \<Rightarrow> 'r list list \<Rightarrow> nat \<Rightarrow> 't \<Rightarrow> (nat \<times> 't) option" where
  "insert_batches ins [] inserted t = Some (inserted, t)"
| "insert_batches ins (b # bs) inserted t =
     Option.bind (insert_rows ins b t) (insert_batches ins bs (inserted + length b))"

definition insert_transcript_segments_action ::
  "(json \<Rightarrow> string) \<Rightarrow> string option \<Rightarrow> int option \<Rightarrow> json \<Rightarrow> media_db \<Rightarrow> store_error + nat \<times> media_db" where
  "insert_transcript_segments_action str_of batch_env post segments db =
     (case (post, segments) of
        (None, _) \<Rightarrow> Inl MissingParam
      | (Some p, JList vs) \<Rightarrow>
          (case find_post db p of
             None \<Rightarrow> Inl (PostMissing p)
           | Some _ \<Rightarrow>
               (case collect_kept (segment_payload str_of p) (zip [0..<length vs] vs) of
                  Inl e \<Rightarrow> Inl e
                | Inr rows \<Rightarrow>
                    (case insert_batches insert_segment (batched (nat (get_writer_batch_size batch_env)) rows) 0 (m_segments db) of
                       None \<Rightarrow> Inl Integrity
                     | Some (n, segs) \<Rightarrow> Inr (n, db\<lparr>m_segments := segs\<rparr>))))
      | _ \<Rightarrow> Inl NotAList)"

definition finish_transcription_replace_action ::
  "(json \<Rightarrow> string) \<Rightarrow> int option \<Rightarrow> int option \<Rightarrow> int \<Rightarrow> json \<Rightarrow> media_db \<Rightarrow> store_error + int \<times> media_db" where
  "finish_transcription_replace_action str_of post call segment_count words db =
     (case normalize_transcript_word_timestamps_payload str_of words of
        Inl e \<Rightarrow> Inl e
      | Inr ws \<Rightarrow>
          (case post of
             None \<Rightarrow> Inl MissingParam
           | Some p \<Rightarrow>
               (case find_post db p of
                  None \<Rightarrow> Inl (PostMissing p)
                | Some _ \<Rightarrow>
                    (let db1 = modify_post p (\<lambda>q. q\<lparr>pm_words := ws\<rparr>) db;
                         db2 = (case call of None \<Rightarrow> db1 | Some c \<Rightarrow>
                           modify_call c (\<lambda>r. r\<lparr>mc_first := 0, mc_last := segment_count - 1,
                             mc_response := Some (int_str segment_count @ '' segments transcribed.''), mc_status := ''success'', mc_error := None\<rparr>) db1) in
                     if flush_ok db2 then Inr (segment_count, db2) else Inl Integrity))))"

definition replace_transcription_action ::
  "(json \<Rightarrow> string) \<Rightarrow> string option \<Rightarrow> int option \<Rightarrow> json \<Rightarrow> int option \<Rightarrow> json \<Rightarrow> media_db \<Rightarrow> store_error + (int \<times> nat) \<times> media_db" where
  "replace_transcription_action str_of batch_env post segments call words db =
     (case normalize_transcript_word_timestamps_payload str_of words of
        Inl e \<Rightarrow> Inl e
      | Inr ws \<Rightarrow>
          if post = None then Inl MissingParam
          else if \<not> (case segments of JList _ \<Rightarrow> True | _ \<Rightarrow> False) then Inl NotAList
          else (case start_transcription_replace_action post call db of
              Inl e \<Rightarrow> Inl e
            | Inr ((p, _), db1) \<Rightarrow>
                (case insert_transcript_segments_action str_of batch_env (Some p) segments db1 of
                   Inl e \<Rightarrow> Inl e
                 | Inr (n, db2) \<Rightarrow>
                     (case finish_transcription_replace_action str_of (Some p) call (int n)
                         (case ws of None \<Rightarrow> JNull | Some v \<Rightarrow> v) db2 of
                        Inl e \<Rightarrow> Inl e
                      | Inr (_, db3) \<Rightarrow> Inr ((p, n), db3)))))"

text \<open>The words of an artifact file: \<open>is_valid\<close> is the check of its path, \<open>native\<close> what the native
  normalisation gives when it runs, \<open>content\<close> the decoded file.\<close>

definition finish_transcription_replace_from_artifact_action ::
  "(json \<Rightarrow> string) \<Rightarrow> int option \<Rightarrow> int option \<Rightarrow> int \<Rightarrow> string option \<Rightarrow> (string \<Rightarrow> bool) \<Rightarrow> (string \<Rightarrow> json option) \<Rightarrow> (string \<Rightarrow> json) \<Rightarrow>
   media_db \<Rightarrow> store_error + int \<times> media_db" where
  "finish_transcription_replace_from_artifact_action str_of post call segment_count path is_valid native content db =
     (case (post, path) of
        (Some p, Some a) \<Rightarrow>
          if \<not> is_valid a then Inl BadValue
          else (case (case native a of Some v \<Rightarrow> Inr (Some v)
                      | None \<Rightarrow> normalize_transcript_word_timestamps_payload str_of (content a)) of
              Inl e \<Rightarrow> Inl e
            | Inr ws \<Rightarrow> finish_transcription_replace_action str_of (Some p) call segment_count
                (case ws of None \<Rightarrow> JNull | Some v \<Rightarrow> v) db)
      | _ \<Rightarrow> Inl MissingParam)"

section \<open>Identifications and audio segments\<close>

definition ident_payload :: "(json \<Rightarrow> string) \<Rightarrow> json \<Rightarrow> store_error + ident_row option" where
  "ident_payload str_of v =
     (case v of
        JObj kvs \<Rightarrow>
          (case (json_int (obj_get kvs ''transcript_segment_id''), json_int (obj_get kvs ''model_call_id'')) of
             (Some s, Some c) \<Rightarrow>
               Inr (Some \<lparr>id_id = 0, id_segment = s, id_call = c,
                 id_label = (if truthy (obj_get kvs ''label'') then as_text str_of (obj_get kvs ''label'') else ''ad''),
                 id_confidence = obj_get kvs ''confidence''\<rparr>)
           | _ \<Rightarrow> Inl BadValue)
      | _ \<Rightarrow> Inr None)"

text \<open>\<open>INSERT OR IGNORE\<close>: a row that is there already is skipped and not counted.\<close>

definition insert_ident :: "ident_row \<Rightarrow> nat \<times> ident_row list \<Rightarrow> nat \<times> ident_row list" where
  "insert_ident i t =
     (if list_ex (\<lambda>r. id_segment r = id_segment i \<and> id_call r = id_call i \<and> id_label r = id_label i) (snd t) then t
      else (fst t + 1, snd t @ [i\<lparr>id_id := next_id (map id_id (snd t))\<rparr>]))"

definition insert_identifications_action ::
  "(json \<Rightarrow> string) \<Rightarrow> string option \<Rightarrow> json \<Rightarrow> media_db \<Rightarrow> store_error + nat \<times> media_db" where
  "insert_identifications_action str_of batch_env identifications db =
     (case identifications of
        JList vs \<Rightarrow>
          (case collect_kept (ident_payload str_of) vs of
             Inl e \<Rightarrow> Inl e
           | Inr rows \<Rightarrow>
               (let t = fold (fold insert_ident) (batched (nat (get_writer_batch_size batch_env)) rows) (0, m_idents db) in
                Inr (fst t, db\<lparr>m_idents := snd t\<rparr>)))
      | _ \<Rightarrow> Inl NotAList)"

definition replace_identifications_action ::
  "(json \<Rightarrow> string) \<Rightarrow> string option \<Rightarrow> int list \<Rightarrow> json \<Rightarrow> media_db \<Rightarrow> store_error + (nat \<times> nat) \<times> media_db" where
  "replace_identifications_action str_of batch_env delete_ids new_identifications db =
     (case insert_identifications_action str_of batch_env
         (if truthy new_identifications then new_identifications else JList [])
         (db\<lparr>m_idents := filter (\<lambda>i. id_id i \<notin> set delete_ids) (m_idents db)\<rparr>) of
        Inl e \<Rightarrow> Inl e
      | Inr (n, db') \<Rightarrow> Inr ((length delete_ids, n), db'))"

definition audio_payload :: "(json \<Rightarrow> string) \<Rightarrow> int \<Rightarrow> int option \<Rightarrow> json \<Rightarrow> store_error + audio_row option" where
  "audio_payload str_of p call v =
     (case v of
        JObj kvs \<Rightarrow>
          (case (py_float (obj_get kvs ''start_time''), py_float (obj_get kvs ''end_time'')) of
             (Some s, Some e) \<Rightarrow>
               if e \<le> s then Inr None
               else if \<not> obj_has kvs ''label'' then Inl BadValue
               else Inr (Some \<lparr>au_post = p, au_call = call, au_label = as_text str_of (obj_get kvs ''label''), au_start = s, au_end = e\<rparr>)
           | _ \<Rightarrow> Inl BadValue)
      | _ \<Rightarrow> Inr None)"

definition replace_audio_segments_action ::
  "(json \<Rightarrow> string) \<Rightarrow> int option \<Rightarrow> json \<Rightarrow> int option \<Rightarrow> media_db \<Rightarrow> store_error + (int \<times> nat) \<times> media_db" where
  "replace_audio_segments_action str_of post segments call db =
     (case (post, segments) of
        (None, _) \<Rightarrow> Inl MissingParam
      | (Some p, JList vs) \<Rightarrow>
          (case find_post db p of
             None \<Rightarrow> Inl (PostMissing p)
           | Some _ \<Rightarrow>
               (case collect_kept (audio_payload str_of p call) vs of
                  Inl e \<Rightarrow> Inl e
                | Inr rows \<Rightarrow>
                    Inr ((p, length rows), db\<lparr>m_audio := filter (\<lambda>a. au_post a \<noteq> p) (m_audio db) @ rows\<rparr>)))
      | _ \<Rightarrow> Inl NotAList)"

section \<open>Clearing a post\<close>

definition DELETE_BATCH :: nat where "DELETE_BATCH = 500"

definition post_segment_ids :: "int \<Rightarrow> media_db \<Rightarrow> int list" where
  "post_segment_ids p db = map sg_id (filter (\<lambda>s. sg_post s = p) (m_segments db))"

definition delete_idents_of :: "int list \<Rightarrow> media_db \<Rightarrow> media_db" where
  "delete_idents_of ids db = db\<lparr>m_idents := filter (\<lambda>i. id_segment i \<notin> set ids) (m_idents db)\<rparr>"

definition delete_segments :: "int list \<Rightarrow> media_db \<Rightarrow> media_db" where
  "delete_segments ids db = db\<lparr>m_segments := filter (\<lambda>s. sg_id s \<notin> set ids) (m_segments db)\<rparr>"

lemma delete_segments_decreases:
  "take DELETE_BATCH (post_segment_ids p db) \<noteq> [] \<Longrightarrow>
    length (post_segment_ids p (delete_segments (take DELETE_BATCH (post_segment_ids p db)) (delete_idents_of ids db))) <
    length (post_segment_ids p db)"
proof -
  let ?ids = "take DELETE_BATCH (post_segment_ids p db)"
  assume "?ids \<noteq> []"
  then have hd: "hd ?ids \<in> set ?ids" by (rule hd_in_set)
  then have "hd ?ids \<in> set (post_segment_ids p db)" by (rule in_set_takeD)
  then obtain s where s: "s \<in> set (m_segments db)" "sg_post s = p" "sg_id s = hd ?ids"
    by (auto simp: post_segment_ids_def)
  have "length (filter (\<lambda>s. sg_id s \<notin> set ?ids \<and> sg_post s = p) (m_segments db)) < length (filter (\<lambda>s. sg_post s = p) (m_segments db))"
  proof -
    have "filter (\<lambda>s. sg_id s \<notin> set ?ids \<and> sg_post s = p) (m_segments db) =
        filter (\<lambda>s. sg_id s \<notin> set ?ids) (filter (\<lambda>s. sg_post s = p) (m_segments db))" by (simp add: conj_commute)
    also have "length \<dots> < length (filter (\<lambda>s. sg_post s = p) (m_segments db))"
      by (rule length_filter_less [of s]) (use s hd in simp_all)
    finally show ?thesis .
  qed
  then show ?thesis by (simp add: post_segment_ids_def delete_segments_def delete_idents_of_def conj_commute)
qed

function clear_segments_loop :: "int \<Rightarrow> media_db \<Rightarrow> media_db" where
  "clear_segments_loop p db =
     (let ids = take DELETE_BATCH (post_segment_ids p db) in
      if ids = [] then db else clear_segments_loop p (delete_segments ids (delete_idents_of ids db)))"
  by auto
termination
  by (relation "measure (\<lambda>(p, db). length (post_segment_ids p db))") (auto intro: delete_segments_decreases)

definition reset_outputs :: "post_media \<Rightarrow> post_media" where
  "reset_outputs q = q\<lparr>pm_processed := None, pm_duration := None, pm_chapters := None, pm_bleeps := None, pm_removed := None,
     pm_original_duration := None, pm_cut_source := None, pm_refined := None, pm_refined_at := None\<rparr>"

definition clear_post_processing_data_action :: "int \<Rightarrow> media_db \<Rightarrow> store_error + int \<times> media_db" where
  "clear_post_processing_data_action p db =
     (case find_post db p of
        None \<Rightarrow> Inl (PostMissing p)
      | Some post \<Rightarrow>
          (let db1 = clear_segments_loop p db;
               db2 = db1\<lparr>m_audio := filter (\<lambda>a. au_post a \<noteq> p) (m_audio db1),
                         m_calls := filter (\<lambda>c. mc_post c \<noteq> p) (m_calls db1),
                         m_jobs := filter (\<lambda>j. post_guid j \<noteq> pm_guid post) (m_jobs db1)\<rparr> in
           Inr (p, modify_post p (\<lambda>q. (reset_outputs q)\<lparr>pm_unprocessed := None, pm_words := None\<rparr>) db2)))"

text \<open>The loop that keeps the segments: a batch of ids above the last one seen, in order.\<close>

definition next_segment_ids :: "int \<Rightarrow> int \<Rightarrow> media_db \<Rightarrow> int list" where
  "next_segment_ids p last_id db = take DELETE_BATCH (sort (filter (\<lambda>i. last_id < i) (post_segment_ids p db)))"

lemma next_segment_ids_decreases:
  assumes "next_segment_ids p l db \<noteq> []"
  shows "length (filter (\<lambda>i. last (next_segment_ids p l db) < i) (post_segment_ids p db)) <
    length (filter (\<lambda>i. l < i) (post_segment_ids p db))"
proof -
  let ?m = "last (next_segment_ids p l db)"
  have "?m \<in> set (next_segment_ids p l db)" using assms by simp
  then have m: "?m \<in> set (post_segment_ids p db)" "l < ?m"
    unfolding next_segment_ids_def by (auto dest: in_set_takeD)
  have "filter (\<lambda>i. ?m < i) (post_segment_ids p db) = filter (\<lambda>i. ?m < i) (filter (\<lambda>i. l < i) (post_segment_ids p db))"
    using m(2) by (auto intro: filter_cong)
  also have "length \<dots> < length (filter (\<lambda>i. l < i) (post_segment_ids p db))"
    by (rule length_filter_less) (use m in auto)
  finally show ?thesis .
qed

function keep_segments_loop :: "int \<Rightarrow> int \<Rightarrow> nat \<Rightarrow> media_db \<Rightarrow> nat \<times> media_db" where
  "keep_segments_loop p last_id deleted db =
     (let ids = next_segment_ids p last_id db in
      if ids = [] then (deleted, db)
      else keep_segments_loop p (last ids) (deleted + length (filter (\<lambda>i. id_segment i \<in> set ids) (m_idents db)))
        (delete_idents_of ids db))"
  by auto
termination
proof (relation "measure (\<lambda>(p, l, n, db). length (filter (\<lambda>i. l < i) (post_segment_ids p db)))")
  fix p l n db x
  assume "x = next_segment_ids p l db" "x \<noteq> []"
  then show "((p, last x, n + length (filter (\<lambda>i. id_segment i \<in> set x) (m_idents db)), delete_idents_of x db), (p, l, n, db))
      \<in> measure (\<lambda>(p, l, n, db). length (filter (\<lambda>i. l < i) (post_segment_ids p db)))"
    using next_segment_ids_decreases [of p l db] by (simp add: post_segment_ids_def delete_idents_of_def)
qed simp

declare clear_segments_loop.simps [simp del] keep_segments_loop.simps [simp del]

definition drop_classifier_calls :: "int \<Rightarrow> media_db \<Rightarrow> media_db" where
  "drop_classifier_calls p db =
     db\<lparr>m_calls := filter (\<lambda>c. \<not> (mc_post c = p \<and> \<not> whisper_model_call_filter c)) (m_calls db)\<rparr>"

definition clear_post_processing_data_keep_transcript_action :: "int \<Rightarrow> media_db \<Rightarrow> store_error + int \<times> media_db" where
  "clear_post_processing_data_keep_transcript_action p db =
     (case find_post db p of
        None \<Rightarrow> Inl (PostMissing p)
      | Some post \<Rightarrow>
          (let db1 = snd (keep_segments_loop p 0 0 db);
               db2 = drop_classifier_calls p (db1\<lparr>m_audio := filter (\<lambda>a. au_post a \<noteq> p) (m_audio db1)\<rparr>);
               db3 = db2\<lparr>m_jobs := filter (\<lambda>j. post_guid j \<noteq> pm_guid post) (m_jobs db2)\<rparr> in
           Inr (p, modify_post p (\<lambda>q. (reset_outputs q)\<lparr>pm_unprocessed := None\<rparr>) db3)))"

text \<open>Files: \<open>candidates\<close> are the processed-audio paths of the post, \<open>removable\<close> those whose deletion
  succeeds.\<close>

definition prepare_post_for_auto_retry_action ::
  "string list \<Rightarrow> (string \<Rightarrow> bool) \<Rightarrow> int \<Rightarrow> media_db \<Rightarrow> store_error + int \<times> media_db" where
  "prepare_post_for_auto_retry_action candidates removable p db =
     (case find_post db p of
        None \<Rightarrow> Inl (PostMissing p)
      | Some post \<Rightarrow>
          (let db1 = db\<lparr>m_files := filter (\<lambda>f. \<not> (f \<in> set candidates \<and> removable f)) (m_files db)\<rparr>;
               db2 = snd (keep_segments_loop p 0 0 db1) in
           Inr (p, modify_post p reset_outputs (drop_classifier_calls p db2))))"

definition cleanup_processed_post_action :: "int option \<Rightarrow> instant \<Rightarrow> media_db \<Rightarrow> store_error + int \<times> media_db" where
  "cleanup_processed_post_action post now db =
     (case post of
        None \<Rightarrow> Inl MissingParam
      | Some p \<Rightarrow>
          if p = 0 then Inl MissingParam
          else (case clear_post_processing_data_action p db of
              Inl e \<Rightarrow> Inl e
            | Inr (_, db1) \<Rightarrow>
                (let db2 = modify_post p (\<lambda>q. q\<lparr>pm_whitelisted := False\<rparr>) db1;
                     counted = recalculate_run_counts now \<lparr>jobs = m_jobs db2, run = m_run db2, llm_calls = [], posts = []\<rparr> in
                 Inr (p, db2\<lparr>m_run := run counted\<rparr>))))"

definition cleanup_processed_post_files_only_action ::
  "(string \<Rightarrow> bool) \<Rightarrow> int option \<Rightarrow> media_db \<Rightarrow> store_error + int \<times> media_db" where
  "cleanup_processed_post_files_only_action removable post db =
     (case post of
        None \<Rightarrow> Inl MissingParam
      | Some p \<Rightarrow>
          if p = 0 then Inl MissingParam
          else (case find_post db p of
              None \<Rightarrow> Inl (PostMissing p)
            | Some q \<Rightarrow>
                (let paths = List.map_filter id [pm_unprocessed q, pm_processed q];
                     db1 = db\<lparr>m_files := filter (\<lambda>f. \<not> (f \<in> set paths \<and> removable f)) (m_files db)\<rparr> in
                 Inr (p, modify_post p (\<lambda>r. r\<lparr>pm_unprocessed := None, pm_processed := None, pm_whitelisted := False\<rparr>) db1))))"

text \<open>The scan for recorded audio that is gone: \<open>existing\<close> finds a post's processed file.\<close>

definition refreshed_paths :: "(post_media \<Rightarrow> string option) \<Rightarrow> string list \<Rightarrow> post_media \<Rightarrow> post_media" where
  "refreshed_paths existing files q =
     q\<lparr>pm_processed := (case existing q of Some f \<Rightarrow> Some f | None \<Rightarrow> (case pm_processed q of Some [] \<Rightarrow> Some [] | _ \<Rightarrow> None)),
       pm_unprocessed := (case pm_unprocessed q of
          Some f \<Rightarrow> if f \<noteq> [] \<and> f \<notin> set files then None else Some f | None \<Rightarrow> None)\<rparr>"

definition requeued :: "instant \<Rightarrow> job \<Rightarrow> job" where
  "requeued now j = (if status j \<in> {''pending'', ''running''} then j
     else j\<lparr>status := ''pending'', current_step := Some 0, progress := Some 0, step_name := Some ''Not started'',
            error_message := None, started_at := None, completed_at := None,
            stage_history := initial_stage_history (Some 0) (Some ''Not started'') now\<rparr>)"

definition requeue_latest :: "instant \<Rightarrow> string \<Rightarrow> job list \<Rightarrow> job list" where
  "requeue_latest now g js =
     (case sort_key (\<lambda>j. - created_at j) (filter (\<lambda>j. post_guid j = g) js) of
        [] \<Rightarrow> js
      | latest # _ \<Rightarrow> map (\<lambda>j. if job_id j = job_id latest then requeued now j else j) js)"

definition check_audio_paths :: "(post_media \<Rightarrow> string option) \<Rightarrow> instant \<Rightarrow> post_media \<Rightarrow> nat \<times> media_db \<Rightarrow> nat \<times> media_db" where
  "check_audio_paths existing now q st =
     (if refreshed_paths existing (m_files (snd st)) q = q then st
      else (fst st + 1,
        (modify_post (pm_id q) (refreshed_paths existing (m_files (snd st))) (snd st))
          \<lparr>m_jobs := requeue_latest now (pm_guid q) (m_jobs (snd st))\<rparr>))"

definition cleanup_missing_audio_paths_action ::
  "(post_media \<Rightarrow> string option) \<Rightarrow> instant \<Rightarrow> media_db \<Rightarrow> nat \<times> media_db" where
  "cleanup_missing_audio_paths_action existing now db =
     fold (check_audio_paths existing now)
       (filter (\<lambda>q. pm_whitelisted q \<and> (pm_unprocessed q \<noteq> None \<or> pm_processed q \<noteq> None)) (m_posts db)) (0, db)"

section \<open>The batch loops delete what one query would\<close>

definition segments_distinct :: "media_db \<Rightarrow> bool" where
  "segments_distinct db \<longleftrightarrow> distinct (map sg_id (m_segments db))"

lemma sg_post_of_batch:
  assumes "segments_distinct db" and "s \<in> set (m_segments db)" and "sg_id s \<in> set (post_segment_ids p db)"
  shows "sg_post s = p"
proof -
  obtain t where "t \<in> set (m_segments db)" "sg_post t = p" "sg_id t = sg_id s"
    using assms(3) by (auto simp: post_segment_ids_def)
  moreover have "inj_on sg_id (set (m_segments db))" using assms(1) by (simp add: segments_distinct_def distinct_map)
  ultimately show ?thesis using assms(2) by (auto dest: inj_onD)
qed

lemma filter_idents_twice:
  "filter (\<lambda>i. id_segment i \<notin> B) (filter (\<lambda>i. id_segment i \<notin> A) is) = filter (\<lambda>i. id_segment i \<notin> A \<union> B) is"
  by (induction "is") auto

lemma filter_segments_twice:
  "filter (\<lambda>s. sg_post s \<noteq> p) (filter (\<lambda>s. sg_id s \<notin> A) ss) = filter (\<lambda>s. sg_post s \<noteq> p) ss"
  if "\<And>s. s \<in> set ss \<Longrightarrow> sg_id s \<in> A \<Longrightarrow> sg_post s = p"
  using that by (induction ss) auto

lemma clear_segments_loop_eq:
  "segments_distinct db \<Longrightarrow> clear_segments_loop p db =
    db\<lparr>m_idents := filter (\<lambda>i. id_segment i \<notin> set (post_segment_ids p db)) (m_idents db),
       m_segments := filter (\<lambda>s. sg_post s \<noteq> p) (m_segments db)\<rparr>"
proof (induction p db rule: clear_segments_loop.induct)
  case (1 p db)
  let ?ids = "take DELETE_BATCH (post_segment_ids p db)"
  let ?db = "delete_segments ?ids (delete_idents_of ?ids db)"
  show ?case
  proof (cases "?ids = []")
    case True
    then have none: "post_segment_ids p db = []" by (simp add: DELETE_BATCH_def)
    then have "filter (\<lambda>s. sg_post s \<noteq> p) (m_segments db) = m_segments db"
      by (auto simp: post_segment_ids_def filter_empty_conv intro: filter_True)
    then show ?thesis using none by (subst clear_segments_loop.simps) simp
  next
    case False
    have mem: "sg_post s = p" if "s \<in> set (m_segments db)" "sg_id s \<in> set ?ids" for s
      using sg_post_of_batch [OF "1.prems" that(1)] that(2) in_set_takeD by metis
    have dist: "segments_distinct ?db"
      using "1.prems" by (simp add: segments_distinct_def delete_segments_def delete_idents_of_def distinct_map_filter)
    have union: "set ?ids \<union> set (post_segment_ids p ?db) = set (post_segment_ids p db)"
      by (auto simp: post_segment_ids_def delete_segments_def delete_idents_of_def dest: in_set_takeD)
    have "clear_segments_loop p db = clear_segments_loop p ?db"
      using False by (subst clear_segments_loop.simps) (simp add: Let_def)
    also have "\<dots> = ?db\<lparr>m_idents := filter (\<lambda>i. id_segment i \<notin> set (post_segment_ids p ?db)) (m_idents ?db),
        m_segments := filter (\<lambda>s. sg_post s \<noteq> p) (m_segments ?db)\<rparr>"
      using "1.IH" [OF refl False dist] by simp
    finally show ?thesis
      unfolding union [symmetric] filter_idents_twice [symmetric]
      using filter_segments_twice [of "m_segments db" "set ?ids" p] mem
      by (simp add: delete_segments_def delete_idents_of_def)
  qed
qed

lemma take_sort_split:
  assumes "take n (sort ys) \<noteq> []"
  shows "{y \<in> set ys. last (take n (sort ys)) < y} \<union> set (take n (sort ys)) = set (ys :: int list)"
proof
  show "{y \<in> set ys. last (take n (sort ys)) < y} \<union> set (take n (sort ys)) \<subseteq> set ys"
    by (auto dest: in_set_takeD)
next
  show "set ys \<subseteq> {y \<in> set ys. last (take n (sort ys)) < y} \<union> set (take n (sort ys))"
  proof
    fix y assume y: "y \<in> set ys"
    have "sort ys = take n (sort ys) @ drop n (sort ys)" by simp
    then have "y \<in> set (take n (sort ys)) \<or> y \<in> set (drop n (sort ys))"
      using y by (metis Un_iff set_append set_sort)
    moreover have "last (take n (sort ys)) \<le> y" if "y \<in> set (drop n (sort ys))"
    proof -
      have "sorted (take n (sort ys) @ drop n (sort ys))" by simp
      then show ?thesis using that assms unfolding sorted_append by auto
    qed
    moreover have "last (take n (sort ys)) \<in> set (take n (sort ys))" using assms by (rule last_in_set)
    ultimately show "y \<in> {y \<in> set ys. last (take n (sort ys)) < y} \<union> set (take n (sort ys))"
      using y by (cases "last (take n (sort ys)) = y") auto
  qed
qed

lemma keep_segments_loop_eq:
  "snd (keep_segments_loop p l n db) =
    db\<lparr>m_idents := filter (\<lambda>i. id_segment i \<notin> {x \<in> set (post_segment_ids p db). l < x}) (m_idents db)\<rparr>"
proof (induction p l n db rule: keep_segments_loop.induct)
  case (1 p l n db)
  let ?ids = "next_segment_ids p l db"
  show ?case
  proof (cases "?ids = []")
    case True
    then have "filter (\<lambda>i. l < i) (post_segment_ids p db) = []"
      by (simp add: next_segment_ids_def DELETE_BATCH_def) (metis set_empty set_sort)
    then have "{x \<in> set (post_segment_ids p db). l < x} = {}" by (auto simp: filter_empty_conv)
    then show ?thesis using True by (subst keep_segments_loop.simps) (simp only: Let_def if_True snd_conv, simp)
  next
    case False
    let ?db = "delete_idents_of ?ids db"
    have same: "post_segment_ids p ?db = post_segment_ids p db" by (simp add: post_segment_ids_def delete_idents_of_def)
    have "{y \<in> set (filter (\<lambda>i. l < i) (post_segment_ids p db)). last ?ids < y} \<union> set ?ids =
        set (filter (\<lambda>i. l < i) (post_segment_ids p db))"
      unfolding next_segment_ids_def
      by (rule take_sort_split) (use False in \<open>simp add: next_segment_ids_def\<close>)
    moreover have "l < last ?ids"
    proof -
      have "last ?ids \<in> set ?ids" using False by simp
      then show ?thesis unfolding next_segment_ids_def by (auto dest: in_set_takeD)
    qed
    then have "{x \<in> set (post_segment_ids p db). last ?ids < x} =
        {y \<in> set (filter (\<lambda>i. l < i) (post_segment_ids p db)). last ?ids < y}" by auto
    ultimately have union: "set ?ids \<union> {x \<in> set (post_segment_ids p db). last ?ids < x} = {x \<in> set (post_segment_ids p db). l < x}"
      by (simp only: set_filter Un_commute)
    have "snd (keep_segments_loop p l n db) =
        snd (keep_segments_loop p (last ?ids) (n + length (filter (\<lambda>i. id_segment i \<in> set ?ids) (m_idents db))) ?db)"
      using False by (subst keep_segments_loop.simps) (simp only: Let_def if_False)
    also have "\<dots> = ?db\<lparr>m_idents := filter (\<lambda>i. id_segment i \<notin> {x \<in> set (post_segment_ids p db). last ?ids < x}) (m_idents ?db)\<rparr>"
      using "1.IH" [OF refl False] by (simp only: same)
    also have "\<dots> = db\<lparr>m_idents := filter (\<lambda>i. id_segment i \<notin> set ?ids \<union> {x \<in> set (post_segment_ids p db). last ?ids < x}) (m_idents db)\<rparr>"
      by (simp only: filter_idents_twice [symmetric]) (simp add: delete_idents_of_def)
    finally show ?thesis by (simp only: union)
  qed
qed

section \<open>The store's invariant\<close>

text \<open>Ids are unique and positive, the unique indexes hold, and an identification names a segment and a
  model call of one and the same post.\<close>

definition ident_refs :: "media_db \<Rightarrow> int \<Rightarrow> int \<Rightarrow> bool" where
  "ident_refs db s c \<longleftrightarrow> list_ex (\<lambda>g. sg_id g = s \<and> list_ex (\<lambda>r. mc_id r = c \<and> mc_post r = sg_post g) (m_calls db)) (m_segments db)"

definition segment_key :: "segment_row \<Rightarrow> int \<times> int" where
  "segment_key s = (sg_post s, sg_num s)"

definition ident_key :: "ident_row \<Rightarrow> int \<times> int \<times> string" where
  "ident_key i = (id_segment i, id_call i, id_label i)"

definition segments_ok :: "segment_row list \<Rightarrow> bool" where
  "segments_ok ss \<longleftrightarrow> distinct (map sg_id ss) \<and> list_all (\<lambda>s. 0 < sg_id s) ss \<and> distinct (map segment_key ss)"

definition calls_ok :: "call_row list \<Rightarrow> bool" where
  "calls_ok cs \<longleftrightarrow> distinct (map mc_id cs) \<and> distinct (map key_of cs)"

definition store_ok :: "media_db \<Rightarrow> bool" where
  "store_ok db \<longleftrightarrow> segments_ok (m_segments db) \<and> calls_ok (m_calls db) \<and> distinct (map ident_key (m_idents db)) \<and>
     list_all (\<lambda>i. ident_refs db (id_segment i) (id_call i)) (m_idents db)"

lemma ident_refs_iff:
  "ident_refs db s c \<longleftrightarrow> (\<exists>g\<in>set (m_segments db). sg_id g = s \<and> (\<exists>r\<in>set (m_calls db). mc_id r = c \<and> mc_post r = sg_post g))"
  by (auto simp: ident_refs_def list_ex_iff)

lemma next_id_gt: "i \<in> set ids \<Longrightarrow> i < next_id ids" and next_id_pos: "0 < next_id ids"
proof -
  have *: "a \<le> fold max ids a \<and> (\<forall>i\<in>set ids. i \<le> fold max ids a)" for a :: int
    by (induction ids arbitrary: a) (auto intro: order_trans [OF max.cobounded1] order_trans [OF max.cobounded2])
  show "i \<in> set ids \<Longrightarrow> i < next_id ids" using * [of 0] by (auto simp: next_id_def)
  show "0 < next_id ids" using * [of 0] by (simp add: next_id_def)
qed


lemma segments_ok_filter: "segments_ok ss \<Longrightarrow> segments_ok (filter P ss)"
  by (auto simp: segments_ok_def distinct_map_filter list_all_iff)

lemma calls_ok_filter: "calls_ok cs \<Longrightarrow> calls_ok (filter P cs)"
  by (simp add: calls_ok_def distinct_map_filter)

lemma store_ok_distinct: "store_ok db \<Longrightarrow> segments_distinct db"
  by (simp add: store_ok_def segments_ok_def segments_distinct_def)

text \<open>Dropping segments, calls and identifications keeps the invariant when no identification that stays
  loses its segment or its call.\<close>

lemma store_ok_drop:
  assumes "store_ok db"
    and "m_segments db' = filter P (m_segments db)" "m_calls db' = filter Q (m_calls db)" "m_idents db' = filter R (m_idents db)"
    and "\<And>i g r. i \<in> set (m_idents db) \<Longrightarrow> R i \<Longrightarrow> g \<in> set (m_segments db) \<Longrightarrow> r \<in> set (m_calls db) \<Longrightarrow>
      sg_id g = id_segment i \<Longrightarrow> mc_id r = id_call i \<Longrightarrow> mc_post r = sg_post g \<Longrightarrow> P g \<and> Q r"
  shows "store_ok db'"
proof -
  have "ident_refs db' (id_segment i) (id_call i)" if i: "i \<in> set (m_idents db)" "R i" for i
  proof -
    obtain g r where gr: "g \<in> set (m_segments db)" "sg_id g = id_segment i" "r \<in> set (m_calls db)" "mc_id r = id_call i" "mc_post r = sg_post g"
    proof -
      have "ident_refs db (id_segment i) (id_call i)" using assms(1) i(1) by (simp add: store_ok_def list_all_iff)
      then show ?thesis using that unfolding ident_refs_iff by blast
    qed
    then have "P g \<and> Q r" using assms(5) [OF i] by blast
    then show ?thesis using gr assms(2,3) by (auto simp: ident_refs_iff)
  qed
  then show ?thesis using assms(1-4)
    by (auto simp: store_ok_def segments_ok_filter calls_ok_filter distinct_map_filter list_all_iff)
qed

lemma in_post_segment_ids: "g \<in> set (m_segments db) \<Longrightarrow> sg_id g \<in> set (post_segment_ids (sg_post g) db)"
  by (simp add: post_segment_ids_def)

lemma store_ok_drop_post:
  assumes "store_ok db"
    and "m_segments db' = filter P (m_segments db)" "m_calls db' = filter Q (m_calls db)"
      "m_idents db' = filter (\<lambda>i. id_segment i \<notin> set (post_segment_ids p db)) (m_idents db)"
    and "\<And>g. sg_post g \<noteq> p \<Longrightarrow> P g" and "\<And>r. mc_post r \<noteq> p \<Longrightarrow> Q r"
  shows "store_ok db'"
proof (rule store_ok_drop [OF assms(1-4)])
  fix i :: ident_row and g :: segment_row and r :: call_row
  assume "id_segment i \<notin> set (post_segment_ids p db)" "g \<in> set (m_segments db)" "sg_id g = id_segment i" "mc_post r = sg_post g"
  then have "sg_post g \<noteq> p" using in_post_segment_ids by metis
  then show "P g \<and> Q r" using assms(5,6) \<open>mc_post r = sg_post g\<close> by metis
qed

lemma store_ok_cong:
  "m_segments db' = m_segments db \<Longrightarrow> m_calls db' = m_calls db \<Longrightarrow> m_idents db' = m_idents db \<Longrightarrow> store_ok db' = store_ok db"
  by (simp add: store_ok_def ident_refs_def)

lemma modify_post_tables [simp]:
  "m_segments (modify_post p f db) = m_segments db" "m_calls (modify_post p f db) = m_calls db"
  "m_idents (modify_post p f db) = m_idents db" "m_audio (modify_post p f db) = m_audio db"
  "m_jobs (modify_post p f db) = m_jobs db"
  by (simp_all add: modify_post_def)

lemma store_ok_modify_post [simp]: "store_ok (modify_post p f db) = store_ok db"
  by (rule store_ok_cong) simp_all

lemma modify_call_tables [simp]:
  "m_segments (modify_call c f db) = m_segments db" "m_idents (modify_call c f db) = m_idents db"
  by (simp_all add: modify_call_def)

text \<open>Changing the other columns of a call.\<close>

lemma list_ex_map_same: "(\<And>x. P (g x) = P x) \<Longrightarrow> list_ex P (map g xs) = list_ex P xs"
  by (induction xs) simp_all

lemma ident_refs_idents [simp]: "ident_refs (db\<lparr>m_idents := is\<rparr>) s c = ident_refs db s c"
  by (simp add: ident_refs_def)

lemma ident_refs_mono:
  "set (m_segments db) \<subseteq> set (m_segments db') \<Longrightarrow> set (m_calls db) \<subseteq> set (m_calls db') \<Longrightarrow> ident_refs db s c \<Longrightarrow> ident_refs db' s c"
  unfolding ident_refs_iff by blast

lemma store_ok_modify_call:
  assumes "store_ok db" and "\<And>r. mc_id (f r) = mc_id r \<and> mc_post (f r) = mc_post r"
    and "(\<forall>r. key_of (f r) = key_of r) \<or> flush_ok (modify_call c f db)"
  shows "store_ok (modify_call c f db)"
proof -
  have ids: "map mc_id (m_calls (modify_call c f db)) = map mc_id (m_calls db)"
    using assms(2) by (auto simp: modify_call_def)
  have keys: "distinct (map key_of (m_calls (modify_call c f db)))"
    using assms(3)
  proof
    assume "\<forall>r. key_of (f r) = key_of r"
    then have "map key_of (m_calls (modify_call c f db)) = map key_of (m_calls db)" by (auto simp: modify_call_def)
    then show ?thesis using assms(1) by (simp add: store_ok_def calls_ok_def)
  next
    assume "flush_ok (modify_call c f db)"
    then show ?thesis by (simp add: flush_ok_def)
  qed
  have "list_ex (\<lambda>r. mc_id r = i \<and> mc_post r = q) (m_calls (modify_call c f db)) = list_ex (\<lambda>r. mc_id r = i \<and> mc_post r = q) (m_calls db)"
    for i q
    unfolding modify_call_def using assms(2) by (simp add: list_ex_map_same)
  then have refs: "ident_refs (modify_call c f db) s i = ident_refs db s i" for s i
    by (simp add: ident_refs_def)
  show ?thesis using assms(1) ids keys by (simp add: store_ok_def calls_ok_def refs)
qed

lemma query_None_insert: "query_call k db = None \<Longrightarrow> key_of c = k \<Longrightarrow> insert_call c db = Inr (db\<lparr>m_calls := m_calls db @ [c]\<rparr>)"
proof -
  assume q: "query_call k db = None" and k: "key_of c = k"
  have "filter (\<lambda>c. key_of c = k) (m_calls db) = []"
  proof (rule ccontr)
    assume "filter (\<lambda>c. key_of c = k) (m_calls db) \<noteq> []"
    then have "sort_key (\<lambda>c. - mc_time c) (filter (\<lambda>c. key_of c = k) (m_calls db)) \<noteq> []"
      by (metis set_empty set_sort)
    then show False using q by (auto simp: query_call_def split: list.splits)
  qed
  then show ?thesis using k by (auto simp: insert_call_def filter_empty_conv)
qed

lemma store_ok_get_or_insert:
  assumes "store_ok db" and "get_or_insert_call k new_row db = Inr (cid, db')"
    and "\<And>i. mc_id (new_row i) = i \<and> key_of (new_row i) = k"
  shows "store_ok db'"
proof (cases "query_call k db")
  case (Some c)
  then show ?thesis using assms(1,2) by (simp add: get_or_insert_call_def)
next
  case None
  let ?c = "new_row (next_id (map mc_id (m_calls db)))"
  have "insert_call ?c db = Inr (db\<lparr>m_calls := m_calls db @ [?c]\<rparr>)" using query_None_insert [OF None] assms(3) by simp
  moreover have "key_of ?c \<notin> key_of ` set (m_calls db)" using calculation by (auto simp: insert_call_def split: if_splits)
  moreover have "mc_id ?c \<notin> mc_id ` set (m_calls db)" using assms(3) next_id_gt [of _ "map mc_id (m_calls db)"] by force
  moreover have "db' = db\<lparr>m_calls := m_calls db @ [?c]\<rparr>" using assms(2) None calculation(1) by (simp add: get_or_insert_call_def Let_def)
  moreover from this have "ident_refs db' s c" if "ident_refs db s c" for s c using that by (auto intro: ident_refs_mono [of db])
  ultimately show ?thesis using assms(1)
    by (auto simp: store_ok_def calls_ok_def list_all_iff)
qed

lemma reset_call_key [simp]: "key_of (reset_call p r) = key_of r" "mc_id (reset_call p r) = mc_id r" "mc_post (reset_call p r) = mc_post r"
  by (simp_all add: reset_call_def key_of_def)

lemma set_fields_key [simp]:
  "key_of (fold set_field fs r) = key_of r" "mc_id (fold set_field fs r) = mc_id r" "mc_post (fold set_field fs r) = mc_post r"
proof -
  have one: "key_of (set_field f r) = key_of r \<and> mc_id (set_field f r) = mc_id r \<and> mc_post (set_field f r) = mc_post r" for f r
    by (cases f) (simp_all add: key_of_def)
  have "key_of (fold set_field fs r) = key_of r \<and> mc_id (fold set_field fs r) = mc_id r \<and> mc_post (fold set_field fs r) = mc_post r"
    by (induction fs arbitrary: r) (simp_all add: one)
  then show "key_of (fold set_field fs r) = key_of r" "mc_id (fold set_field fs r) = mc_id r" "mc_post (fold set_field fs r) = mc_post r"
    by simp_all
qed

lemma new_call_row_simps [simp]: "mc_id (new_call_row k pr now i) = i" "key_of (new_call_row k pr now i) = k"
  by (cases k, simp add: new_call_row_def key_of_def)+

lemma store_ok_new_call:
  "store_ok db \<Longrightarrow> get_or_insert_call k (new_call_row k pr now) db = Inr (cid, db') \<Longrightarrow> store_ok db'"
  by (rule store_ok_get_or_insert [where new_row = "new_call_row k pr now"]) simp_all

lemma store_ok_upsert:
  "store_ok db \<Longrightarrow> upsert_model_call_action a b c d e now db = Inr (cid, db') \<Longrightarrow> store_ok db'"
  by (auto simp: upsert_model_call_action_def split: option.splits if_splits sum.splits dest: store_ok_new_call
      intro!: store_ok_modify_call)

lemma store_ok_whisper:
  assumes "store_ok db" and "upsert_whisper_model_call_action a b c d e fs now db = Inr (cid, db')"
  shows "store_ok db'"
proof -
  obtain p m where [simp]: "a = Some p" "b = Some m"
    using assms(2) by (auto simp: upsert_whisper_model_call_action_def Let_def split: option.splits)
  obtain k pr fields db1 where *: "get_or_insert_call k (new_call_row k pr now) db = Inr (cid, db1)"
    and "db' = modify_call cid (fold set_field fields) db1"
    using assms(2) unfolding upsert_whisper_model_call_action_def Let_def by (auto split: sum.splits)
  then show ?thesis using store_ok_new_call [OF assms(1) *] by (auto intro!: store_ok_modify_call)
qed

lemma store_ok_mark:
  "store_ok db \<Longrightarrow> mark_model_call_failed_action a b c db = Inr (r, db') \<Longrightarrow> store_ok db'"
  by (auto simp: mark_model_call_failed_action_def key_of_def split: option.splits if_splits intro!: store_ok_modify_call)

lemma store_ok_insert_segment:
  assumes "segments_ok ss" and "insert_segment s ss = Some ss'"
  shows "segments_ok ss' \<and> set ss \<subseteq> set ss' \<and> filter (\<lambda>g. sg_post g \<noteq> sg_post s) ss' = filter (\<lambda>g. sg_post g \<noteq> sg_post s) ss"
proof -
  have ss': "ss' = ss @ [s\<lparr>sg_id := next_id (map sg_id ss)\<rparr>]" "\<not> list_ex (\<lambda>r. sg_post r = sg_post s \<and> sg_num r = sg_num s) ss"
    using assms(2) by (auto simp: insert_segment_def split: if_splits)
  have "next_id (map sg_id ss) \<notin> sg_id ` set ss" using next_id_gt [of _ "map sg_id ss"] by force
  moreover have "(sg_post s, sg_num s) \<notin> segment_key ` set ss" using ss'(2) by (auto simp: list_ex_iff segment_key_def)
  ultimately show ?thesis using assms(1) ss'(1) next_id_pos by (auto simp: segments_ok_def segment_key_def)
qed

lemma store_ok_insert_rows:
  "segments_ok ss \<Longrightarrow> insert_rows insert_segment rows ss = Some ss' \<Longrightarrow> list_all (\<lambda>s. sg_post s = p) rows \<Longrightarrow>
    segments_ok ss' \<and> set ss \<subseteq> set ss' \<and> filter (\<lambda>g. sg_post g \<noteq> p) ss' = filter (\<lambda>g. sg_post g \<noteq> p) ss"
proof (induction rows arbitrary: ss)
  case (Cons r rows)
  then obtain s1 where s1: "insert_segment r ss = Some s1" "insert_rows insert_segment rows s1 = Some ss'"
    by (auto split: bind_splits)
  from store_ok_insert_segment [OF Cons.prems(1) s1(1)] Cons.IH [OF _ s1(2)] Cons.prems(3) show ?case by auto
qed simp

lemma insert_rows_append: "insert_rows ins (xs @ ys) t = Option.bind (insert_rows ins xs t) (insert_rows ins ys)"
  by (induction xs arbitrary: t) (auto split: bind_splits)

lemma insert_batches_concat:
  "insert_batches ins bs n t = map_option (\<lambda>t'. (n + length (concat bs), t')) (insert_rows ins (concat bs) t)"
  by (induction bs arbitrary: n t) (auto simp: insert_rows_append add.assoc split: bind_splits)

lemma insert_batched:
  "insert_batches ins (batched (nat (get_writer_batch_size e)) rows) 0 t = map_option (\<lambda>t'. (length rows, t')) (insert_rows ins rows t)"
proof -
  have "0 < nat (get_writer_batch_size e)" using get_writer_batch_size_pos [of e] by simp
  from batched_properties [OF this, of rows] show ?thesis by (simp add: insert_batches_concat)
qed

lemma collect_kept_all: "collect_kept f xs = Inr ys \<Longrightarrow> (\<And>x y. f x = Inr (Some y) \<Longrightarrow> P y) \<Longrightarrow> list_all P ys"
  by (induction xs arbitrary: ys) (auto split: sum.splits option.splits)

lemma segment_payload_post: "segment_payload str_of p iv = Inr (Some s) \<Longrightarrow> sg_post s = p"
  by (auto simp: segment_payload_def split: json.splits option.splits bool.splits)

lemma insert_transcript_segments_rows:
  assumes "insert_transcript_segments_action str_of e post segs db = Inr (n, db')"
  shows "\<exists>p rows ss. post = Some p \<and> list_all (\<lambda>s. sg_post s = p) rows \<and> n = length rows \<and>
    insert_rows insert_segment rows (m_segments db) = Some ss \<and> db' = db\<lparr>m_segments := ss\<rparr>"
proof -
  obtain p vs rows ss where "post = Some p" "collect_kept (segment_payload str_of p) (zip [0..<length vs] vs) = Inr rows"
    "n = length rows" "insert_rows insert_segment rows (m_segments db) = Some ss" "db' = db\<lparr>m_segments := ss\<rparr>"
    using assms unfolding insert_transcript_segments_action_def insert_batched
    by (auto split: option.splits json.splits sum.splits)
  then show ?thesis using collect_kept_all [of "segment_payload str_of p" _ rows "\<lambda>s. sg_post s = p"] segment_payload_post
    by blast
qed

lemma store_ok_insert_segments:
  assumes "store_ok db" and "insert_transcript_segments_action str_of e post segs db = Inr (n, db')"
  shows "store_ok db'"
proof -
  obtain p rows ss where r: "list_all (\<lambda>s. sg_post s = p) rows" "insert_rows insert_segment rows (m_segments db) = Some ss"
    "db' = db\<lparr>m_segments := ss\<rparr>" using insert_transcript_segments_rows [OF assms(2)] by blast
  have "segments_ok ss \<and> set (m_segments db) \<subseteq> set ss"
    using store_ok_insert_rows [OF _ r(2,1)] assms(1) by (simp add: store_ok_def)
  then show ?thesis using assms(1) r(3) ident_refs_mono [of db db'] by (simp add: store_ok_def list_all_iff)
qed

lemma store_ok_start:
  assumes "store_ok db" and "start_transcription_replace_action post call db = Inr (r, db')"
  shows "store_ok db'"
proof -
  obtain p where p: "post = Some p" using assms(2) by (auto simp: start_transcription_replace_action_def split: option.splits)
  define db1 where "db1 = modify_post p (\<lambda>q. q\<lparr>pm_words := None\<rparr>)
    (db\<lparr>m_idents := filter (\<lambda>i. id_segment i \<notin> set (post_segment_ids p db)) (m_idents db),
        m_segments := filter (\<lambda>s. sg_post s \<noteq> p) (m_segments db)\<rparr>)"
  have "store_ok (db\<lparr>m_idents := filter (\<lambda>i. id_segment i \<notin> set (post_segment_ids p db)) (m_idents db),
        m_segments := filter (\<lambda>s. sg_post s \<noteq> p) (m_segments db)\<rparr>)"
    by (rule store_ok_drop_post [OF assms(1), where P = "\<lambda>s. sg_post s \<noteq> p" and Q = "\<lambda>_. True" and p = p]) simp_all
  then have db1: "store_ok db1" by (simp add: db1_def)
  show ?thesis
  proof (cases call)
    case None
    then have "db' = db1" using assms(2) p
      by (auto simp: start_transcription_replace_action_def Let_def db1_def post_segment_ids_def split: option.splits if_splits)
    then show ?thesis using db1 by simp
  next
    case (Some c)
    then have "db' = modify_call c (\<lambda>r. r\<lparr>mc_first := 0, mc_last := - 1, mc_response := None, mc_status := ''pending'', mc_error := None\<rparr>) db1"
      and "flush_ok db'" using assms(2) p
      by (auto simp: start_transcription_replace_action_def Let_def db1_def post_segment_ids_def split: option.splits if_splits)
    then show ?thesis using store_ok_modify_call [OF db1] by auto
  qed
qed

lemma finish_transcription_replace_cases:
  assumes "finish_transcription_replace_action str_of post call n words db = Inr (r, db')"
  shows "\<exists>p ws. post = Some p \<and> find_post db p \<noteq> None \<and> flush_ok db' \<and>
    db' = (case call of None \<Rightarrow> modify_post p (\<lambda>q. q\<lparr>pm_words := ws\<rparr>) db
       | Some c \<Rightarrow> modify_call c (\<lambda>r. r\<lparr>mc_first := 0, mc_last := n - 1,
           mc_response := Some (int_str n @ '' segments transcribed.''), mc_status := ''success'', mc_error := None\<rparr>)
           (modify_post p (\<lambda>q. q\<lparr>pm_words := ws\<rparr>) db))"
  using assms by (auto simp: finish_transcription_replace_action_def Let_def split: sum.splits option.splits if_splits)

lemma store_ok_finish:
  assumes "store_ok db" and "finish_transcription_replace_action str_of post call n words db = Inr (r, db')"
  shows "store_ok db'"
  using finish_transcription_replace_cases [OF assms(2)] assms(1)
  by (auto split: option.splits intro!: store_ok_modify_call)

lemma store_ok_finish_artifact:
  "store_ok db \<Longrightarrow> finish_transcription_replace_from_artifact_action str_of post call n path v nat' content db = Inr (r, db') \<Longrightarrow> store_ok db'"
  by (auto simp: finish_transcription_replace_from_artifact_action_def split: option.splits if_splits sum.splits dest: store_ok_finish)

lemma store_ok_replace_transcription:
  assumes "store_ok db" and "replace_transcription_action str_of e post segs call words db = Inr (r, db')"
  shows "store_ok db'"
proof -
  obtain r1 db1 p n db2 m ws r3 where "start_transcription_replace_action post call db = Inr (r1, db1)"
    "insert_transcript_segments_action str_of e (Some p) segs db1 = Inr (n, db2)"
    "finish_transcription_replace_action str_of (Some p) call m ws db2 = Inr (r3, db')"
    using assms(2) unfolding replace_transcription_action_def
    by (auto split: sum.splits if_split_asm prod.splits)
  with store_ok_start store_ok_insert_segments store_ok_finish assms(1) show ?thesis by blast
qed

text \<open>Identifications are inserted for segments and calls of the same post.\<close>

definition idents_valid :: "(json \<Rightarrow> string) \<Rightarrow> json \<Rightarrow> media_db \<Rightarrow> bool" where
  "idents_valid str_of v db \<longleftrightarrow> (case v of
       JList vs \<Rightarrow> list_all (\<lambda>x. case ident_payload str_of x of Inr (Some i) \<Rightarrow> ident_refs db (id_segment i) (id_call i) | _ \<Rightarrow> True) vs
     | _ \<Rightarrow> True)"

lemma idents_valid_idents: "idents_valid str_of v (db\<lparr>m_idents := is\<rparr>) = idents_valid str_of v db"
  unfolding idents_valid_def ident_refs_idents ..

lemma insert_ident_ok:
  assumes "distinct (map ident_key (snd t))" and "list_all (\<lambda>i. refs (id_segment i) (id_call i)) (snd t)" and "refs (id_segment i) (id_call i)"
  shows "distinct (map ident_key (snd (insert_ident i t))) \<and> list_all (\<lambda>i. refs (id_segment i) (id_call i)) (snd (insert_ident i t))"
proof -
  have "ident_key i \<notin> ident_key ` set (snd t)"
    if "\<not> list_ex (\<lambda>r. id_segment r = id_segment i \<and> id_call r = id_call i \<and> id_label r = id_label i) (snd t)"
    using that by (auto simp: ident_key_def list_ex_iff)
  then show ?thesis using assms by (auto simp: insert_ident_def ident_key_def)
qed

lemma fold_insert_ident_ok:
  "distinct (map ident_key (snd t)) \<Longrightarrow> list_all (\<lambda>i. refs (id_segment i) (id_call i)) (snd t) \<Longrightarrow>
    list_all (\<lambda>i. refs (id_segment i) (id_call i)) rows \<Longrightarrow>
    distinct (map ident_key (snd (fold insert_ident rows t))) \<and>
    list_all (\<lambda>i. refs (id_segment i) (id_call i)) (snd (fold insert_ident rows t))"
proof (induction rows arbitrary: t)
  case (Cons i rows)
  then have "distinct (map ident_key (snd (insert_ident i t))) \<and> list_all (\<lambda>i. refs (id_segment i) (id_call i)) (snd (insert_ident i t))"
    by (intro insert_ident_ok) simp_all
  then show ?case using Cons by simp
qed simp

lemma fold_fold_concat: "fold (fold f) xss t = fold f (concat xss) t"
  by (induction xss arbitrary: t) simp_all

lemma collect_kept_set: "collect_kept f xs = Inr ys \<Longrightarrow> y \<in> set ys \<Longrightarrow> \<exists>x\<in>set xs. f x = Inr (Some y)"
  by (induction xs arbitrary: ys) (auto split: sum.splits option.splits)

lemma concat_batched: "concat (batched (nat (get_writer_batch_size e)) xs) = xs"
proof -
  have "0 < nat (get_writer_batch_size e)" using get_writer_batch_size_pos [of e] by simp
  from batched_properties [OF this, of xs] show ?thesis by blast
qed

lemma store_ok_insert_idents:
  assumes "store_ok db" and "insert_identifications_action str_of e v db = Inr (n, db')" and "idents_valid str_of v db"
  shows "store_ok db'"
proof -
  obtain vs rows where v: "v = JList vs" and rows: "collect_kept (ident_payload str_of) vs = Inr rows"
    and db': "db' = db\<lparr>m_idents := snd (fold insert_ident rows (0, m_idents db))\<rparr>"
    using assms(2) by (auto simp: insert_identifications_action_def fold_fold_concat Let_def concat_batched split: json.splits sum.splits)
  have "list_all (\<lambda>i. ident_refs db (id_segment i) (id_call i)) rows"
    using collect_kept_set [OF rows] assms(3) v by (fastforce simp: list_all_iff idents_valid_def)
  from fold_insert_ident_ok [OF _ _ this, of "(0, m_idents db)"] assms(1) db'
  show ?thesis by (simp add: store_ok_def ident_refs_def)
qed

lemma store_ok_replace_idents:
  assumes "store_ok db" and "replace_identifications_action str_of e ids v db = Inr (n, db')" and "idents_valid str_of v db"
  shows "store_ok db'"
proof -
  let ?db = "db\<lparr>m_idents := filter (\<lambda>i. id_id i \<notin> set ids) (m_idents db)\<rparr>"
  have ok: "store_ok ?db" by (rule store_ok_drop [OF assms(1), where P = "\<lambda>_. True" and Q = "\<lambda>_. True"]) auto
  have valid: "idents_valid str_of v ?db" "idents_valid str_of (JList []) ?db"
    using assms(3) by (simp_all only: idents_valid_idents) (simp add: idents_valid_def)
  obtain m where "insert_identifications_action str_of e (if truthy v then v else JList []) ?db = Inr (m, db')"
  proof (cases "insert_identifications_action str_of e (if truthy v then v else JList []) ?db")
    case (Inl e')
    then show thesis using assms(2) unfolding replace_identifications_action_def by (simp only: sum.case) simp
  next
    case (Inr q)
    then show thesis using assms(2) that unfolding replace_identifications_action_def
      by (cases q) (simp only: sum.case prod.case, simp)
  qed
  moreover have "idents_valid str_of (if truthy v then v else JList []) ?db" using valid by (simp only: if_cancel split: if_split) blast
  ultimately show ?thesis by (rule store_ok_insert_idents [OF ok])
qed

lemma store_ok_replace_audio:
  "store_ok db \<Longrightarrow> replace_audio_segments_action str_of post segs call db = Inr (n, db') \<Longrightarrow> store_ok db'"
  by (auto simp: replace_audio_segments_action_def store_ok_def ident_refs_def split: option.splits json.splits sum.splits)

lemma store_ok_clear:
  assumes "store_ok db" and "clear_post_processing_data_action p db = Inr (r, db')"
  shows "store_ok db'"
proof -
  obtain post where "find_post db p = Some post" using assms(2) by (auto simp: clear_post_processing_data_action_def split: option.splits)
  then have "m_segments db' = filter (\<lambda>s. sg_post s \<noteq> p) (m_segments db)" "m_calls db' = filter (\<lambda>c. mc_post c \<noteq> p) (m_calls db)"
    "m_idents db' = filter (\<lambda>i. id_segment i \<notin> set (post_segment_ids p db)) (m_idents db)"
    using assms(2) clear_segments_loop_eq [OF store_ok_distinct [OF assms(1)], of p]
    by (auto simp: clear_post_processing_data_action_def Let_def)
  then show ?thesis by (rule store_ok_drop_post [OF assms(1)]) simp_all
qed

lemma keep_segments_loop_idents:
  "store_ok db \<Longrightarrow> m_idents (snd (keep_segments_loop p 0 n db)) = filter (\<lambda>i. id_segment i \<notin> set (post_segment_ids p db)) (m_idents db)"
proof -
  assume "store_ok db"
  then have "{x \<in> set (post_segment_ids p db). 0 < x} = set (post_segment_ids p db)"
    by (auto simp: store_ok_def segments_ok_def list_all_iff post_segment_ids_def)
  then show ?thesis by (simp add: keep_segments_loop_eq)
qed

lemma store_ok_drop_classifier:
  assumes "store_ok db" and "m_segments db' = m_segments db"
    and "m_idents db' = m_idents (snd (keep_segments_loop p 0 0 db))"
    and "m_calls db' = filter (\<lambda>c. \<not> (mc_post c = p \<and> \<not> whisper_model_call_filter c)) (m_calls db)"
  shows "store_ok db'"
  by (rule store_ok_drop_post [OF assms(1), where P = "\<lambda>_. True" and p = p, OF _ assms(4)])
    (use assms(2,3) keep_segments_loop_idents [OF assms(1)] in simp_all)

lemma keep_segments_loop_tables [simp]:
  "m_segments (snd (keep_segments_loop p l n db)) = m_segments db" "m_calls (snd (keep_segments_loop p l n db)) = m_calls db"
  "m_audio (snd (keep_segments_loop p l n db)) = m_audio db" "m_jobs (snd (keep_segments_loop p l n db)) = m_jobs db"
  "m_posts (snd (keep_segments_loop p l n db)) = m_posts db"
  by (simp_all add: keep_segments_loop_eq)

lemma store_ok_clear_keep:
  assumes "store_ok db" and "clear_post_processing_data_keep_transcript_action p db = Inr (r, db')"
  shows "store_ok db'"
proof -
  obtain post where "find_post db p = Some post"
    using assms(2) by (auto simp: clear_post_processing_data_keep_transcript_action_def split: option.splits)
  then have "m_segments db' = m_segments db" "m_idents db' = m_idents (snd (keep_segments_loop p 0 0 db))"
    "m_calls db' = filter (\<lambda>c. \<not> (mc_post c = p \<and> \<not> whisper_model_call_filter c)) (m_calls db)"
    using assms(2) by (auto simp: clear_post_processing_data_keep_transcript_action_def Let_def drop_classifier_calls_def)
  then show ?thesis by (rule store_ok_drop_classifier [OF assms(1)])
qed

lemma store_ok_prepare:
  assumes "store_ok db" and "prepare_post_for_auto_retry_action cs rm p db = Inr (r, db')"
  shows "store_ok db'"
proof -
  let ?db = "db\<lparr>m_files := filter (\<lambda>f. \<not> (f \<in> set cs \<and> rm f)) (m_files db)\<rparr>"
  have "store_ok ?db" using assms(1) by (simp add: store_ok_def ident_refs_def)
  then show ?thesis
    by (rule store_ok_drop_classifier [of ?db])
      (use assms(2) in \<open>auto simp: prepare_post_for_auto_retry_action_def Let_def drop_classifier_calls_def split: option.splits\<close>)
qed

lemma store_ok_cleanup:
  assumes "store_ok db" and "cleanup_processed_post_action post now db = Inr (r, db')"
  shows "store_ok db'"
proof -
  obtain p db1 r1 where "clear_post_processing_data_action p db = Inr (r1, db1)"
    and "m_segments db' = m_segments db1" "m_calls db' = m_calls db1" "m_idents db' = m_idents db1"
    using assms(2) unfolding cleanup_processed_post_action_def Let_def
    by (auto split: option.splits if_split_asm sum.splits)
  then show ?thesis using store_ok_clear [OF assms(1)] store_ok_cong by metis
qed

lemma store_ok_files_only:
  assumes "store_ok db" and "cleanup_processed_post_files_only_action rm post db = Inr (r, db')"
  shows "store_ok db'"
proof -
  have "m_segments db' = m_segments db" "m_calls db' = m_calls db" "m_idents db' = m_idents db"
    using assms(2) by (auto simp: cleanup_processed_post_files_only_action_def Let_def split: option.splits if_split_asm)
  then show ?thesis using assms(1) store_ok_cong by metis
qed

lemma store_ok_missing:
  assumes "store_ok db"
  shows "store_ok (snd (cleanup_missing_audio_paths_action existing now db))"
proof -
  have step: "store_ok (snd (check_audio_paths existing now q st)) = store_ok (snd st)" for q st
  proof -
    have "store_ok (db1\<lparr>m_jobs := js\<rparr>) = store_ok db1" for db1 js by (rule store_ok_cong) simp_all
    then show ?thesis by (simp add: check_audio_paths_def)
  qed
  have "store_ok (snd (fold (check_audio_paths existing now) qs st)) = store_ok (snd st)" for qs st
    by (induction qs arbitrary: st) (simp_all add: step)
  then show ?thesis using assms by (simp add: cleanup_missing_audio_paths_action_def)
qed

text \<open>One action of the writer on the store, with any parameters.  Three actions are not here: the two that store
  identifications and the one that deletes calls by the name of their model do not look at references at all.\<close>

inductive store_step :: "media_db \<Rightarrow> media_db \<Rightarrow> bool" where
  upsert: "upsert_model_call_action p m f l pr now db = Inr (cid, db') \<Longrightarrow> store_step db db'"
| whisper: "upsert_whisper_model_call_action p m f l pr fs now db = Inr (cid, db') \<Longrightarrow> store_step db db'"
| mark: "mark_model_call_failed_action c e st db = Inr (b, db') \<Longrightarrow> store_step db db'"
| start: "start_transcription_replace_action p c db = Inr (r, db') \<Longrightarrow> store_step db db'"
| insert: "insert_transcript_segments_action so env p v db = Inr (n, db') \<Longrightarrow> store_step db db'"
| finish: "finish_transcription_replace_action so p c n v db = Inr (r, db') \<Longrightarrow> store_step db db'"
| artifact: "finish_transcription_replace_from_artifact_action so p c n path ok native content db = Inr (r, db') \<Longrightarrow> store_step db db'"
| transcription: "replace_transcription_action so env p v c w db = Inr (r, db') \<Longrightarrow> store_step db db'"
| audio: "replace_audio_segments_action so p v c db = Inr (r, db') \<Longrightarrow> store_step db db'"
| clear: "clear_post_processing_data_action q db = Inr (r, db') \<Longrightarrow> store_step db db'"
| keep: "clear_post_processing_data_keep_transcript_action q db = Inr (r, db') \<Longrightarrow> store_step db db'"
| prepare: "prepare_post_for_auto_retry_action cs rm q db = Inr (r, db') \<Longrightarrow> store_step db db'"
| cleanup: "cleanup_processed_post_action p now db = Inr (r, db') \<Longrightarrow> store_step db db'"
| files: "cleanup_processed_post_files_only_action rm p db = Inr (r, db') \<Longrightarrow> store_step db db'"
| missing: "cleanup_missing_audio_paths_action existing now db = (n, db') \<Longrightarrow> store_step db db'"

lemma store_step_ok: "store_step db db' \<Longrightarrow> store_ok db \<Longrightarrow> store_ok db'"
proof (induction rule: store_step.induct)
  case (missing existing now db n db')
  then show ?case using store_ok_missing [of db existing now] by simp
qed (blast intro: store_ok_upsert store_ok_whisper store_ok_mark store_ok_start store_ok_insert_segments store_ok_finish
    store_ok_finish_artifact store_ok_replace_transcription
    store_ok_replace_audio store_ok_clear store_ok_clear_keep store_ok_prepare store_ok_cleanup store_ok_files_only)+

definition empty_store :: media_db where
  "empty_store = \<lparr>m_posts = [], m_segments = [], m_idents = [], m_calls = [], m_audio = [], m_jobs = [], m_run = None, m_files = []\<rparr>"

section \<open>Clearing\<close>

text \<open>C38.  Clearing a post deletes in batches its segments with their identifications, its audio segments and its
  model calls, and all jobs that carry its guid, also those of a post of another feed that has the same one.
  The segments, identifications, calls and audio segments of every other post stay, in order, and so do the
  jobs with another guid.  The post itself keeps its identity and loses every output of the processing.\<close>

theorem clearing_removes_exactly_the_posts_rows:
  assumes "segments_distinct db" and "find_post db p = Some post"
  shows "clear_post_processing_data_action p db = Inr (p, db\<lparr>
    m_posts := map (\<lambda>q. if pm_id q = p then (reset_outputs q)\<lparr>pm_unprocessed := None, pm_words := None\<rparr> else q) (m_posts db),
    m_segments := filter (\<lambda>s. sg_post s \<noteq> p) (m_segments db),
    m_idents := filter (\<lambda>i. id_segment i \<notin> sg_id ` {s \<in> set (m_segments db). sg_post s = p}) (m_idents db),
    m_calls := filter (\<lambda>c. mc_post c \<noteq> p) (m_calls db),
    m_audio := filter (\<lambda>a. au_post a \<noteq> p) (m_audio db),
    m_jobs := filter (\<lambda>j. post_guid j \<noteq> pm_guid post) (m_jobs db)\<rparr>)"
  using assms(2) clear_segments_loop_eq [OF assms(1), of p]
  by (simp add: clear_post_processing_data_action_def Let_def modify_post_def post_segment_ids_def)

definition example_store :: media_db where
  "example_store = empty_store\<lparr>
     m_posts := [\<lparr>pm_id = 1, pm_guid = ''g'', pm_feed = 1, pm_whitelisted = True, pm_unprocessed = None, pm_processed = Some ''f'',
       pm_duration = Some 60, pm_chapters = None, pm_bleeps = None, pm_removed = None, pm_original_duration = None, pm_cut_source = None,
       pm_words = None, pm_refined = None, pm_refined_at = None,
     pm_url = ''http://pod/1.mp3'', pm_title = ''Episode'', pm_description = None, pm_image = None, pm_release = None, pm_downloads = None\<rparr>],
     m_segments := [\<lparr>sg_id = 1, sg_post = 1, sg_num = 0, sg_start = 0, sg_end = 5, sg_text = ''a'', sg_speaker = None\<rparr>,
       \<lparr>sg_id = 2, sg_post = 2, sg_num = 0, sg_start = 0, sg_end = 5, sg_text = ''b'', sg_speaker = None\<rparr>],
     m_idents := [\<lparr>id_id = 1, id_segment = 1, id_call = 1, id_label = ''ad'', id_confidence = JNull\<rparr>,
       \<lparr>id_id = 2, id_segment = 2, id_call = 1, id_label = ''ad'', id_confidence = JNull\<rparr>]\<rparr>"

theorem clearing_removes_exactly_the_posts_rows_witness:
  "map id_id (m_idents (snd (projr (clear_post_processing_data_action 1 example_store)))) = [2]"
proof -
  have "segments_distinct example_store" by (simp add: segments_distinct_def example_store_def)
  moreover have "find_post example_store 1 = Some (hd (m_posts example_store))" by (simp add: find_post_def example_store_def)
  note clearing_removes_exactly_the_posts_rows [OF calculation this]
  moreover have "{s \<in> set (m_segments example_store). sg_post s = 1} = {hd (m_segments example_store)}"
    by (auto simp: example_store_def)
  ultimately show ?thesis by (simp only: sum.sel snd_conv) (simp add: example_store_def)
qed

section \<open>Writing a transcription\<close>

text \<open>\<open>_persist_transcription_chunks\<close> of \<open>src/podcast_processor/transcription_manager.py\<close>: one call to start, one
  per batch of segments, one to finish.  Segments carry their numbers.\<close>

fun insert_chunks :: "(json \<Rightarrow> string) \<Rightarrow> string option \<Rightarrow> int \<Rightarrow> json list list \<Rightarrow> nat \<Rightarrow> media_db \<Rightarrow> store_error + nat \<times> media_db" where
  "insert_chunks so env p [] inserted db = Inr (inserted, db)"
| "insert_chunks so env p (b # bs) inserted db =
     (case insert_transcript_segments_action so env (Some p) (JList b) db of
        Inl e \<Rightarrow> Inl e
      | Inr (n, db') \<Rightarrow> insert_chunks so env p bs (inserted + n) db')"

definition persist_transcription_chunks ::
  "(json \<Rightarrow> string) \<Rightarrow> string option \<Rightarrow> int \<Rightarrow> int \<Rightarrow> json list \<Rightarrow> json \<Rightarrow> media_db \<Rightarrow> store_error + media_db" where
  "persist_transcription_chunks so env p call segments words db =
     (case start_transcription_replace_action (Some p) (Some call) db of
        Inl e \<Rightarrow> Inl e
      | Inr (_, db1) \<Rightarrow>
          (case insert_chunks so env p (batched (nat (get_writer_batch_size env)) segments) 0 db1 of
             Inl e \<Rightarrow> Inl e
           | Inr (n, db2) \<Rightarrow> map_sum id snd (finish_transcription_replace_action so (Some p) (Some call) (int n) words db2)))"

definition numbered :: "json \<Rightarrow> bool" where
  "numbered v \<longleftrightarrow> (case v of JObj kvs \<Rightarrow> obj_has kvs ''sequence_num'' | _ \<Rightarrow> True)"

lemma collect_kept_append:
  "collect_kept f (xs @ ys) = (case collect_kept f xs of Inl e \<Rightarrow> Inl e
     | Inr a \<Rightarrow> (case collect_kept f ys of Inl e \<Rightarrow> Inl e | Inr b \<Rightarrow> Inr (a @ b)))"
  by (induction xs) (auto split: sum.split option.split)

lemma segment_payload_index: "numbered v \<Longrightarrow> segment_payload so p (i, v) = segment_payload so p (j, v)"
  by (auto simp: numbered_def segment_payload_def split: json.split)

lemma collect_kept_zip:
  "list_all numbered vs \<Longrightarrow> collect_kept (segment_payload so p) (zip [a..<a + length vs] vs) = collect_kept (\<lambda>v. segment_payload so p (0, v)) vs"
proof (induction vs arbitrary: a)
  case (Cons v vs)
  have "segment_payload so p (a, v) = segment_payload so p (0, v)" using Cons.prems segment_payload_index by simp
  moreover have "collect_kept (segment_payload so p) (zip [Suc a..<Suc a + length vs] vs) = collect_kept (\<lambda>v. segment_payload so p (0, v)) vs"
    using Cons.prems by (intro Cons.IH) simp
  moreover have "[a..<a + length (v # vs)] = a # [Suc a..<Suc a + length vs]"
    by (subst upt_conv_Cons) (simp_all del: upt_Suc)
  then have "zip [a..<a + length (v # vs)] (v # vs) = (a, v) # zip [Suc a..<Suc a + length vs] vs" by (simp only: zip_Cons_Cons)
  ultimately show ?case by (simp only: collect_kept.simps)
qed simp

lemma insert_segments_numbered:
  assumes "find_post db p = Some q" and "list_all numbered vs"
  shows "insert_transcript_segments_action so env (Some p) (JList vs) db =
    (case collect_kept (\<lambda>v. segment_payload so p (0, v)) vs of Inl e \<Rightarrow> Inl e
      | Inr rows \<Rightarrow> (case insert_rows insert_segment rows (m_segments db) of None \<Rightarrow> Inl Integrity
          | Some ss \<Rightarrow> Inr (length rows, db\<lparr>m_segments := ss\<rparr>)))"
  using assms collect_kept_zip [OF assms(2), of so p 0]
  by (simp add: insert_transcript_segments_action_def insert_batched split: sum.split option.split)

text \<open>A list of segments written call by call ends as when it is written by one call, up to which error is
  reported first.\<close>

lemma insert_chunks_concat:
  assumes "find_post db p = Some q" and "list_all numbered (concat bs)"
  shows "(case insert_chunks so env p bs n db of Inl e \<Rightarrow> None | Inr (m, db') \<Rightarrow> Some (m, db')) =
    (case insert_transcript_segments_action so env (Some p) (JList (concat bs)) db of
       Inl e \<Rightarrow> None | Inr (m, db') \<Rightarrow> Some (n + m, db'))"
  using assms
proof (induction bs arbitrary: n db)
  case Nil
  then show ?case by (simp add: insert_segments_numbered)
next
  case (Cons b bs)
  have nb: "list_all numbered b" "list_all numbered (concat bs)" "list_all numbered (concat (b # bs))" using Cons.prems(2) by simp_all
  note first = insert_segments_numbered [OF Cons.prems(1) nb(1), of so env]
  note whole = insert_segments_numbered [OF Cons.prems(1) nb(3), of so env]
  show ?case
  proof (cases "insert_transcript_segments_action so env (Some p) (JList b) db")
    case (Inl e)
    then show ?thesis using first whole
      by (auto simp: collect_kept_append insert_rows_append split: sum.splits option.splits)
  next
    case (Inr r)
    then obtain rows ss where rows: "collect_kept (\<lambda>v. segment_payload so p (0, v)) b = Inr rows"
      "insert_rows insert_segment rows (m_segments db) = Some ss" "r = (length rows, db\<lparr>m_segments := ss\<rparr>)"
      using first by (auto split: sum.splits option.splits)
    have post: "find_post (db\<lparr>m_segments := ss\<rparr>) p = Some q" using Cons.prems(1) by (simp add: find_post_def)
    have "(case insert_chunks so env p (b # bs) n db of Inl e \<Rightarrow> None | Inr (m, db') \<Rightarrow> Some (m, db')) =
        (case insert_chunks so env p bs (n + length rows) (db\<lparr>m_segments := ss\<rparr>) of Inl e \<Rightarrow> None | Inr (m, db') \<Rightarrow> Some (m, db'))"
      using Inr rows(3) by simp
    also have "\<dots> = (case insert_transcript_segments_action so env (Some p) (JList (concat bs)) (db\<lparr>m_segments := ss\<rparr>) of
        Inl e \<Rightarrow> None | Inr (m, db') \<Rightarrow> Some (n + length rows + m, db'))"
      by (rule Cons.IH [OF post nb(2)])
    also have "\<dots> = (case insert_transcript_segments_action so env (Some p) (JList (concat (b # bs))) db of
        Inl e \<Rightarrow> None | Inr (m, db') \<Rightarrow> Some (n + m, db'))"
      using whole rows insert_segments_numbered [OF post nb(2), of so env]
      by (simp add: collect_kept_append insert_rows_append split: sum.split option.split)
    finally show ?thesis .
  qed
qed

lemma collect_kept_idem:
  assumes "\<And>x y. f x = Inr (Some y) \<Longrightarrow> f y = Inr (Some y)"
  shows "collect_kept f xs = Inr ys \<Longrightarrow> collect_kept f ys = Inr ys"
proof (induction xs arbitrary: ys)
  case (Cons x xs)
  then show ?case by (auto split: sum.splits option.splits dest: assms)
qed simp

lemma normalize_word_idem: "normalize_word_payload so w = Inr (Some v) \<Longrightarrow> normalize_word_payload so v = Inr (Some v)"
proof (cases w)
  case (JObj kvs)
  assume v: "normalize_word_payload so w = Inr (Some v)"
  obtain a s e sc where "v = JObj [(''word'', JStr a), (''start'', JNum s), (''end'', JNum e), (''score'', sc)]" "s \<le> e"
    "sc = JNull \<or> (\<exists>r. sc = JNum r)"
    using v JObj unfolding normalize_word_payload_def Let_def
    by (auto split: if_split_asm option.splits simp del: py_float.simps)
  then show ?thesis by (auto simp: normalize_word_payload_def Let_def obj_get_def as_text_def)
qed (simp_all add: normalize_word_payload_def)

lemma normalize_words_segment_idem: "normalize_words_segment so x = Inr (Some y) \<Longrightarrow> normalize_words_segment so y = Inr (Some y)"
proof -
  assume "normalize_words_segment so x = Inr (Some y)"
  then obtain n ws v vs where y: "y = JObj [(''sequence_num'', JNum (of_int n)), (''words'', JList (v # vs))]"
    and "collect_kept (normalize_word_payload so) ws = Inr (v # vs)"
    by (auto simp: normalize_words_segment_def split: json.splits if_splits option.splits sum.splits list.splits)
  from collect_kept_idem [OF normalize_word_idem this(2)] y
  show ?thesis by (simp add: normalize_words_segment_def obj_get_def)
qed

lemma normalize_words_idem:
  "normalize_transcript_word_timestamps_payload so w = Inr r \<Longrightarrow>
    normalize_transcript_word_timestamps_payload so (case r of None \<Rightarrow> JNull | Some v \<Rightarrow> v) = Inr r"
proof -
  assume w: "normalize_transcript_word_timestamps_payload so w = Inr r"
  show ?thesis
  proof (cases r)
    case None
    then show ?thesis by (simp add: normalize_transcript_word_timestamps_payload_def)
  next
    case (Some v)
    then obtain segs n ns where "v = JList (n # ns)" "collect_kept (normalize_words_segment so) segs = Inr (n # ns)"
      using w by (auto simp: normalize_transcript_word_timestamps_payload_def split: json.splits sum.splits list.splits)
    from collect_kept_idem [OF normalize_words_segment_idem this(2)] this(1) Some
    show ?thesis by (simp add: normalize_transcript_word_timestamps_payload_def)
  qed
qed

lemma find_post_tables:
  "find_post (modify_call c f db) p = find_post db p" "find_post (db\<lparr>m_segments := ss\<rparr>) p = find_post db p"
  "find_post (db\<lparr>m_idents := is\<rparr>) p = find_post db p"
  by (simp_all add: find_post_def modify_call_def)

lemma find_modify_post: "find_post db p = Some q \<Longrightarrow> (\<And>x. pm_id (f x) = pm_id x) \<Longrightarrow> find_post (modify_post p f db) p \<noteq> None"
proof -
  assume q: "find_post db p = Some q" and f: "\<And>x. pm_id (f x) = pm_id x"
  have "find (\<lambda>x. pm_id x = p) xs = Some q \<Longrightarrow> find (\<lambda>x. pm_id x = p) (map (\<lambda>x. if pm_id x = p then f x else x) xs) \<noteq> None" for xs
    by (induction xs) (auto simp: f)
  with q show ?thesis by (simp add: find_post_def modify_post_def)
qed

lemma start_keeps_post:
  assumes "start_transcription_replace_action (Some p) call db = Inr (r, db1)"
  shows "\<exists>q. find_post db1 p = Some q"
proof -
  obtain q where q: "find_post db p = Some q" using assms by (auto simp: start_transcription_replace_action_def split: option.splits)
  let ?db = "db\<lparr>m_idents := filter (\<lambda>i. id_segment i \<notin> set (map sg_id (filter (\<lambda>s. sg_post s = p) (m_segments db)))) (m_idents db),
      m_segments := filter (\<lambda>s. sg_post s \<noteq> p) (m_segments db)\<rparr>"
  have "find_post ?db p = Some q" using q by (simp add: find_post_def)
  then have "find_post (modify_post p (\<lambda>q. q\<lparr>pm_words := None\<rparr>) ?db) p \<noteq> None" by (rule find_modify_post) simp
  then show ?thesis using assms q
    by (auto simp: start_transcription_replace_action_def Let_def find_post_tables split: option.splits if_splits)
qed

text \<open>Writing a transcription in batches, with one call of the writer to start, one per batch and one to
  finish, leaves the database as replacing it in a single call does, and fails exactly when that fails;
  normalising the words once more on the way changes nothing.\<close>

theorem chunked_transcription_equals_the_whole:
  assumes "list_all numbered segments"
    and "normalize_transcript_word_timestamps_payload so words = Inr ws"
  shows "(case persist_transcription_chunks so env p call segments words db of Inl e \<Rightarrow> None | Inr db' \<Rightarrow> Some db') =
    (case replace_transcription_action so env (Some p) (JList segments) (Some call) words db of
       Inl e \<Rightarrow> None | Inr (_, db') \<Rightarrow> Some db')"
proof (cases "start_transcription_replace_action (Some p) (Some call) db")
  case (Inl e)
  then show ?thesis using assms(2) by (simp add: persist_transcription_chunks_def replace_transcription_action_def)
next
  case (Inr r)
  obtain k db1 where r: "r = ((p, k), db1)"
    using Inr by (auto simp: start_transcription_replace_action_def Let_def split: option.splits if_splits)
  obtain q where q: "find_post db1 p = Some q" using start_keeps_post Inr r by blast
  have words: "finish_transcription_replace_action so (Some p) (Some call) n (case ws of None \<Rightarrow> JNull | Some v \<Rightarrow> v) db2 =
      finish_transcription_replace_action so (Some p) (Some call) n words db2" for n db2
    using assms(2) normalize_words_idem [OF assms(2)] by (simp add: finish_transcription_replace_action_def)
  note chunks = insert_chunks_concat [OF q, of "batched (nat (get_writer_batch_size env)) segments" so env 0,
    unfolded concat_batched, OF assms(1)]
  show ?thesis
  proof (cases "insert_transcript_segments_action so env (Some p) (JList segments) db1")
    case ins: (Inl e)
    then have "\<exists>e'. insert_chunks so env p (batched (nat (get_writer_batch_size env)) segments) 0 db1 = Inl e'"
      using chunks by (auto split: sum.splits)
    then show ?thesis using Inr r ins assms(2)
      by (auto simp: persist_transcription_chunks_def replace_transcription_action_def)
  next
    case ins: (Inr t)
    then have "insert_chunks so env p (batched (nat (get_writer_batch_size env)) segments) 0 db1 = Inr t"
      using chunks by (cases t) (auto split: sum.splits)
    then show ?thesis using Inr r ins assms(2) words
      by (cases t) (auto simp: persist_transcription_chunks_def replace_transcription_action_def split: sum.split)
  qed
qed

theorem chunked_transcription_equals_the_whole_witness:
  "let seg = JObj [(''sequence_num'', JNum 0), (''start_time'', JNum 0), (''end_time'', JNum 1), (''text'', JStr ''a'')] in
   (case persist_transcription_chunks (\<lambda>_. '''') None 1 1 [seg] JNull example_store of Inl e \<Rightarrow> None | Inr db' \<Rightarrow> Some db') =
   (case replace_transcription_action (\<lambda>_. '''') None (Some 1) (JList [seg]) (Some 1) JNull example_store of
      Inl e \<Rightarrow> None | Inr (_, db') \<Rightarrow> Some db')"
  unfolding Let_def
  by (rule chunked_transcription_equals_the_whole [where ws = None])
    (simp_all add: numbered_def obj_has_def normalize_transcript_word_timestamps_payload_def)

definition segment_count :: "int \<Rightarrow> media_db \<Rightarrow> nat" where
  "segment_count p db = length (filter (\<lambda>s. sg_post s = p) (m_segments db))"

lemma insert_rows_count:
  "insert_rows insert_segment rows ss = Some ss' \<Longrightarrow> list_all (\<lambda>s. sg_post s = p) rows \<Longrightarrow>
    length (filter (\<lambda>s. sg_post s = p) ss') = length (filter (\<lambda>s. sg_post s = p) ss) + length rows"
  by (induction rows arbitrary: ss) (auto simp: insert_segment_def split: bind_splits if_splits)

lemma insert_segments_count:
  assumes "insert_transcript_segments_action so env (Some p) v db = Inr (n, db')"
  shows "segment_count p db' = segment_count p db + n \<and> m_calls db' = m_calls db"
  using insert_transcript_segments_rows [OF assms] insert_rows_count by (auto simp: segment_count_def)

lemma insert_chunks_count:
  "insert_chunks so env p bs n db = Inr (m, db') \<Longrightarrow> segment_count p db' + n = segment_count p db + m \<and> m_calls db' = m_calls db"
proof (induction bs arbitrary: n db)
  case (Cons b bs)
  then obtain k db1 where "insert_transcript_segments_action so env (Some p) (JList b) db = Inr (k, db1)"
    "insert_chunks so env p bs (n + k) db1 = Inr (m, db')" by (auto split: sum.splits prod.splits)
  with insert_segments_count Cons.IH show ?case by fastforce
qed simp

lemma modify_call_mem:
  "r \<in> set (m_calls db) \<Longrightarrow> mc_id r \<noteq> c \<Longrightarrow> r \<in> set (m_calls (modify_call c f db))"
  "r \<in> set (m_calls db) \<Longrightarrow> mc_id r = c \<Longrightarrow> f r \<in> set (m_calls (modify_call c f db))"
  by (auto simp: modify_call_def)

text \<open>The row of a fresh run beside the rows that were there.\<close>

lemma upsert_whisper_row:
  assumes "upsert_whisper_model_call_action (Some p) (Some m) (Some 0) (Some (- 1)) prompt None now db = Inr (c, db1)"
    and "calls_ok (m_calls db)"
  shows "(\<exists>r\<in>set (m_calls db1). mc_id r = c \<and> key_of r = (p, m, 0, - 1)) \<and>
    (\<forall>r\<in>set (m_calls db). key_of r \<noteq> (p, m, 0, - 1) \<longrightarrow> mc_id r \<noteq> c \<and> r \<in> set (m_calls db1))"
proof -
  obtain db0 pr where get: "get_or_insert_call (p, m, 0, - 1) (new_call_row (p, m, 0, - 1) pr now) db = Inr (c, db0)"
    and db1: "db1 = modify_call c (fold set_field default_reset_fields) db0"
    using assms(1) unfolding upsert_whisper_model_call_action_def Let_def by (auto split: sum.splits)
  have "(\<exists>r\<in>set (m_calls db0). mc_id r = c \<and> key_of r = (p, m, 0, - 1)) \<and>
    (\<forall>r\<in>set (m_calls db). key_of r \<noteq> (p, m, 0, - 1) \<longrightarrow> mc_id r \<noteq> c \<and> r \<in> set (m_calls db0))"
  proof (cases "query_call (p, m, 0, - 1) db")
    case (Some r)
    then have "\<exists>rs. sort_key (\<lambda>c. - mc_time c) (filter (\<lambda>c. key_of c = (p, m, 0, - 1)) (m_calls db)) = r # rs"
      by (auto simp: query_call_def split: list.splits)
    then have "r \<in> set (sort_key (\<lambda>c. - mc_time c) (filter (\<lambda>c. key_of c = (p, m, 0, - 1)) (m_calls db)))"
      by (metis list.set_intros(1))
    then have r: "r \<in> set (m_calls db)" "key_of r = (p, m, 0, - 1)" by simp_all
    have c: "c = mc_id r" "db0 = db" using get Some by (simp_all add: get_or_insert_call_def)
    have "mc_id r' \<noteq> c" if "r' \<in> set (m_calls db)" "key_of r' \<noteq> (p, m, 0, - 1)" for r'
    proof
      assume "mc_id r' = c"
      then have "r' = r" using assms(2) that(1) r(1) c(1) by (auto simp: calls_ok_def distinct_map dest: inj_onD)
      with that(2) r(2) show False by simp
    qed
    then show ?thesis using r c by auto
  next
    case None
    let ?c = "new_call_row (p, m, 0, - 1) pr now (next_id (map mc_id (m_calls db)))"
    have c: "c = next_id (map mc_id (m_calls db))" "db0 = db\<lparr>m_calls := m_calls db @ [?c]\<rparr>"
      using get None query_None_insert [OF None, of ?c] by (auto simp: get_or_insert_call_def Let_def)
    have "mc_id r < c" if "r \<in> set (m_calls db)" for r using that next_id_gt [of "mc_id r" "map mc_id (m_calls db)"] c(1) by simp
    then show ?thesis using c by fastforce
  qed
  then show ?thesis unfolding db1 using modify_call_mem by (metis set_fields_key(1,2))
qed

text \<open>A transcription that is run again while the row of an earlier successful run exists can only succeed
  with a different number of segments: with the same number the new row's final key collides with the old
  row's, and the last step fails.\<close>

theorem retranscribing_the_same_number_fails:
  assumes "store_ok db" and "old \<in> set (m_calls db)" and "key_of old = (p, m, 0, k)" and "0 \<le> k"
    and "upsert_whisper_model_call_action (Some p) (Some m) (Some 0) (Some (- 1)) prompt None now db = Inr (c, db1)"
    and "persist_transcription_chunks so env p c segments words db1 = Inr db'"
  shows "int (segment_count p db') \<noteq> k + 1"
proof -
  have ok: "calls_ok (m_calls db)" using assms(1) by (simp add: store_ok_def)
  from upsert_whisper_row [OF assms(5) ok] obtain r where r: "r \<in> set (m_calls db1)" "mc_id r = c" "key_of r = (p, m, 0, - 1)" by blast
  have "key_of old \<noteq> (p, m, 0, - 1)" using assms(3,4) by simp
  with upsert_whisper_row [OF assms(5) ok] assms(2) have old: "mc_id old \<noteq> c" "old \<in> set (m_calls db1)" by blast+
  obtain s db2 n db3 where start: "start_transcription_replace_action (Some p) (Some c) db1 = Inr (s, db2)"
    and ins: "insert_chunks so env p (batched (nat (get_writer_batch_size env)) segments) 0 db2 = Inr (n, db3)"
    and fin: "finish_transcription_replace_action so (Some p) (Some c) (int n) words db3 = Inr (int n, db')"
    using assms(6) by (auto simp: persist_transcription_chunks_def finish_transcription_replace_action_def Let_def
        split: sum.splits prod.splits option.splits if_splits)
  define f1 where "f1 = (\<lambda>r :: call_row. r\<lparr>mc_first := 0, mc_last := - 1, mc_response := None, mc_status := ''pending'', mc_error := None\<rparr>)"
  have db2: "segment_count p db2 = 0" "\<exists>dbx. m_calls dbx = m_calls db1 \<and> m_calls db2 = m_calls (modify_call c f1 dbx)"
    using start unfolding f1_def
    by (auto simp: start_transcription_replace_action_def Let_def segment_count_def modify_call_def filter_empty_conv
        split: option.splits if_splits)
  then have "f1 r \<in> set (m_calls db2)" "old \<in> set (m_calls db2)"
    using r old modify_call_mem by metis+
  then have mem: "f1 r \<in> set (m_calls db3)" "old \<in> set (m_calls db3)" and n: "segment_count p db3 = n"
    using insert_chunks_count [OF ins] db2(1) by simp_all
  define f2 where "f2 = (\<lambda>r :: call_row. r\<lparr>mc_first := 0, mc_last := int n - 1,
    mc_response := Some (int_str (int n) @ '' segments transcribed.''), mc_status := ''success'', mc_error := None\<rparr>)"
  from finish_transcription_replace_cases [OF fin] obtain ws where
    db': "db' = modify_call c f2 (modify_post p (\<lambda>q. q\<lparr>pm_words := ws\<rparr>) db3)" and keys: "flush_ok db'"
    unfolding f2_def by auto
  obtain dby where "m_calls dby = m_calls db3" "m_segments dby = m_segments db3" "db' = modify_call c f2 dby"
    using that [OF _ _ db'] by simp
  then have new: "f2 (f1 r) \<in> set (m_calls db')" "old \<in> set (m_calls db')" "segment_count p db' = n"
    using mem r(2) old(1) n modify_call_mem [of _ dby c f2] by (simp_all add: f1_def segment_count_def)
  have "key_of (f2 (f1 r)) = (p, m, 0, int n - 1)" using r(3) by (simp add: key_of_def f1_def f2_def)
  moreover have "f2 (f1 r) \<noteq> old" using old(1) r(2) by (auto simp: f1_def f2_def)
  then have "key_of (f2 (f1 r)) \<noteq> key_of old"
    using keys new by (auto simp: flush_ok_def distinct_map dest: inj_onD)
  ultimately show ?thesis using assms(3) new(3) by auto
qed

theorem retranscribing_the_same_number_fails_witness:
  "\<exists>db' c db1. upsert_whisper_model_call_action (Some 1) (Some ''m'') (Some 0) (Some (- 1)) None None 7
       (example_store\<lparr>m_calls := [\<lparr>mc_id = 1, mc_post = 1, mc_model = ''m'', mc_first = 0, mc_last = 0, mc_prompt = ''p'',
         mc_status = ''success'', mc_retries = 0, mc_error = None, mc_response = None, mc_time = 1\<rparr>],
         m_segments := [], m_idents := []\<rparr>) = Inr (c, db1) \<and>
     persist_transcription_chunks (\<lambda>_. '''') None 1 c [] JNull db1 = Inr db' \<and> int (segment_count 1 db') \<noteq> 0 + 1"
proof -
  let ?old = "\<lparr>mc_id = 1, mc_post = 1, mc_model = ''m'', mc_first = 0, mc_last = 0, mc_prompt = ''p'',
    mc_status = ''success'', mc_retries = 0, mc_error = None, mc_response = None, mc_time = 1\<rparr>"
  let ?db = "example_store\<lparr>m_calls := [?old], m_segments := [], m_idents := []\<rparr>"
  have ok: "store_ok ?db" by (simp add: store_ok_def segments_ok_def calls_ok_def)
  have up: "upsert_whisper_model_call_action (Some 1) (Some ''m'') (Some 0) (Some (- 1)) None None 7 ?db =
      Inr (2, ?db\<lparr>m_calls := [?old, \<lparr>mc_id = 2, mc_post = 1, mc_model = ''m'', mc_first = 0, mc_last = - 1,
        mc_prompt = ''Whisper transcription job'', mc_status = ''pending'', mc_retries = 0, mc_error = None, mc_response = None, mc_time = 7\<rparr>]\<rparr>)"
    (is "_ = Inr (2, ?db1)")
    by (simp add: upsert_whisper_model_call_action_def Let_def get_or_insert_call_def query_call_def insert_call_def key_of_def
        next_id_def new_call_row_def modify_call_def default_reset_fields_def)
  have "\<exists>db'. persist_transcription_chunks (\<lambda>_. '''') None 1 2 [] JNull ?db1 = Inr db'"
    by (simp add: persist_transcription_chunks_def start_transcription_replace_action_def find_post_def example_store_def Let_def
        batched.simps finish_transcription_replace_action_def normalize_transcript_word_timestamps_payload_def modify_post_def
        modify_call_def flush_ok_def key_of_def)
  then obtain db' where p: "persist_transcription_chunks (\<lambda>_. '''') None 1 2 [] JNull ?db1 = Inr db'" by blast
  have "int (segment_count 1 db') \<noteq> 0 + 1"
    by (rule retranscribing_the_same_number_fails [OF ok _ _ _ up p, of ?old]) (simp_all add: key_of_def)
  with up p show ?thesis by blast
qed

section \<open>What passes for a transcription\<close>

lemma sql_like_percent: "sql_like [CHR ''%''] s"
  by (induction s) simp_all

lemma local_names_pass: "mc_model c = ''local'' @ x # rest \<Longrightarrow> whisper_model_call_filter c"
  by (simp add: whisper_model_call_filter_def sql_like_percent)

text \<open>The filter for transcriptions takes every call of a model whose name begins with \<open>local\<close> and one more
  character, because the underscore of its pattern stands for any character: clearing a post but keeping
  its transcript keeps the classifier's calls of such models, with their replies.\<close>

theorem clearing_keeps_calls_of_local_models:
  assumes "find_post db p = Some post" and "c \<in> set (m_calls db)" and "mc_post c = p" and "mc_model c = ''local'' @ x # rest"
  shows "\<exists>db'. clear_post_processing_data_keep_transcript_action p db = Inr (p, db') \<and> c \<in> set (m_calls db')"
  using assms local_names_pass [OF assms(4)]
  by (simp add: clear_post_processing_data_keep_transcript_action_def Let_def drop_classifier_calls_def)

theorem clearing_keeps_calls_of_local_models_witness:
  "let c = \<lparr>mc_id = 1, mc_post = 1, mc_model = ''local/llama'', mc_first = 0, mc_last = 9, mc_prompt = ''find ads'',
      mc_status = ''success'', mc_retries = 0, mc_error = None, mc_response = Some ''reply'', mc_time = 1\<rparr>
   in \<exists>db'. clear_post_processing_data_keep_transcript_action 1 (example_store\<lparr>m_calls := [c]\<rparr>) = Inr (1, db') \<and> c \<in> set (m_calls db')"
  unfolding Let_def
  by (rule clearing_keeps_calls_of_local_models [where x = "CHR ''/''" and rest = "''llama''"])
    (simp_all add: find_post_def example_store_def)

end
