(* ===== verification/ClassifierChunks.thy ===== *)
theory ClassifierChunks
  imports PostStore RateLimits
begin

text \<open>
  How the classifier walks a transcript (\<open>src/podcast_processor/ad_classifier.py\<close>: \<open>classify\<close>'s loop,
  \<open>_step\<close>, \<open>_build_chunk_payload\<close>, \<open>_validate_token_limit\<close> and the overlap that is carried from one
  chunk to the next).  Processing a chunk and rendering the prompt are arguments here.
\<close>

section \<open>The overlap of two chunks\<close>

definition apply_overlap_cap :: "int \<Rightarrow> segment_row list \<Rightarrow> segment_row list" where
  "apply_overlap_cap max_overlap segs =
     (if max_overlap \<le> 0 \<or> segs = [] then (if max_overlap \<le> 0 then [] else segs)
      else if int (length segs) \<le> max_overlap then segs
      else drop (length segs - nat max_overlap) segs)"

fun add_unseen :: "segment_row list \<Rightarrow> segment_row list \<Rightarrow> segment_row list" where
  "add_unseen combined [] = combined"
| "add_unseen combined (s # ss) =
     add_unseen (if sg_id s \<in> set (map sg_id combined) then combined else combined @ [s]) ss"

definition combine_overlap_segments :: "segment_row list \<Rightarrow> segment_row list \<Rightarrow> segment_row list" where
  "combine_overlap_segments overlap base = add_unseen (add_unseen [] overlap) base"

text \<open>The segments from the end back to the first that starts at or before the cutoff; the list is reversed.\<close>

fun tail_until :: "real \<Rightarrow> segment_row list \<Rightarrow> segment_row list" where
  "tail_until cutoff [] = []"
| "tail_until cutoff (s # ss) = (if sg_start s \<le> cutoff then [s] else s # tail_until cutoff ss)"

definition segments_covering_tail :: "real \<Rightarrow> segment_row list \<Rightarrow> segment_row list" where
  "segments_covering_tail seconds chunk =
     (if chunk = [] then [] else rev (tail_until (sg_end (last chunk) - seconds) (rev chunk)))"

fun earliest_index :: "int set \<Rightarrow> segment_row list \<Rightarrow> nat option" where
  "earliest_index ids [] = None"
| "earliest_index ids (s # ss) = (if sg_id s \<in> ids then Some 0 else map_option Suc (earliest_index ids ss))"

definition base_tail_count :: "segment_row list \<Rightarrow> nat" where
  "base_tail_count chunk = max 1 ((length chunk + 1) div 2)"

definition overlap_candidates :: "segment_row list \<Rightarrow> segment_row list \<Rightarrow> segment_row list" where
  "overlap_candidates chunk identified =
     (let base = drop (length chunk - base_tail_count chunk) chunk in
      if identified = [] then base
      else
        (let with_ads =
           (case earliest_index (set (map sg_id identified)) chunk of
              None \<Rightarrow> base
            | Some i \<Rightarrow> combine_overlap_segments (drop i chunk) base) in
         combine_overlap_segments (segments_covering_tail 15 chunk) with_ads))"

definition compute_next_overlap_segments ::
  "int \<Rightarrow> segment_row list \<Rightarrow> segment_row list \<Rightarrow> segment_row list" where
  "compute_next_overlap_segments max_overlap chunk identified =
     (if max_overlap \<le> 0 \<or> chunk = [] then []
      else apply_overlap_cap max_overlap (overlap_candidates chunk identified))"

section \<open>One chunk\<close>

text \<open>What the steps read: the sizes, the configured token limit, whether the rate limiter counts the tokens,
  the system prompt and the rendering of a chunk's prompt (with the marks for the start and the end).\<close>

record classify_params =
  num_segments_per_prompt :: int
  max_overlap_segments :: int
  max_input_tokens :: "int option"
  has_rate_limiter :: bool
  system_prompt :: string
  render_prompt :: "segment_row list \<Rightarrow> bool \<Rightarrow> bool \<Rightarrow> string"

definition prompt_tokens :: "classify_params \<Rightarrow> string \<Rightarrow> int" where
  "prompt_tokens cp user_prompt =
     (if has_rate_limiter cp
      then count_tokens [[(''role'', Some ''system''), (''content'', Some (system_prompt cp))],
                         [(''role'', Some ''user''), (''content'', Some user_prompt)]]
      else (int (length (system_prompt cp)) + int (length user_prompt)) div 4)"

definition token_limits :: "classify_params \<Rightarrow> int option \<Rightarrow> int list" where
  "token_limits cp adaptive = List.map_filter id [max_input_tokens cp, adaptive]"

definition validate_token_limit :: "classify_params \<Rightarrow> int option \<Rightarrow> string \<Rightarrow> bool" where
  "validate_token_limit cp adaptive user_prompt =
     (case token_limits cp adaptive of
        [] \<Rightarrow> True
      | l # ls \<Rightarrow> prompt_tokens cp user_prompt \<le> fold min ls l)"

type_synonym chunk_payload = "segment_row list \<times> string \<times> nat \<times> bool"

fun shrink_chunk ::
  "classify_params \<Rightarrow> int option \<Rightarrow> segment_row list \<Rightarrow> segment_row list \<Rightarrow> segment_row list \<Rightarrow> bool \<Rightarrow> nat \<Rightarrow> chunk_payload" where
  "shrink_chunk cp adaptive overlap remaining whole trimmed 0 = ([], [], 0, trimmed)"
| "shrink_chunk cp adaptive overlap remaining whole trimmed (Suc n) =
     (let chunk = combine_overlap_segments overlap (take (Suc n) remaining) in
      if chunk = [] then ([], [], 0, trimmed)
      else
        (let includes_start = (whole \<noteq> [] \<and> sg_id (hd chunk) = sg_id (hd whole));
             includes_end = (whole \<noteq> [] \<and> sg_id (last chunk) = sg_id (last whole));
             prompt = render_prompt cp chunk includes_start includes_end in
         if (max_input_tokens cp \<noteq> None \<or> adaptive \<noteq> None) \<and> \<not> validate_token_limit cp adaptive prompt
         then (if n = 0 then (chunk, prompt, Suc n, True)
               else shrink_chunk cp adaptive overlap remaining whole True n)
         else (chunk, prompt, Suc n, trimmed)))"

definition build_chunk_payload ::
  "classify_params \<Rightarrow> int option \<Rightarrow> segment_row list \<Rightarrow> segment_row list \<Rightarrow> segment_row list \<Rightarrow> int \<Rightarrow> chunk_payload" where
  "build_chunk_payload cp adaptive overlap remaining whole max_new =
     (if remaining = [] then ([], [], 0, False)
      else shrink_chunk cp adaptive (apply_overlap_cap (max_overlap_segments cp) overlap) remaining whole False
             (nat (min max_new (int (length remaining)))))"

section \<open>One step and the loop\<close>

text \<open>What processing a chunk answers: the segments it matched, the provider's refusal of the size
  (its limit and what was requested), or another exception.  \<open>'w\<close> is what processing reads and changes.\<close>

datatype chunk_outcome = Identified "segment_row list" | RequestTooLarge int int | ChunkRaised string

type_synonym 'w processor = "int option \<Rightarrow> segment_row list \<Rightarrow> string \<Rightarrow> 'w \<Rightarrow> chunk_outcome \<times> 'w"

datatype step_outcome = Consumed nat "segment_row list" | NoProgress | StepTooLarge int int | StepRaised string

definition learned_limit :: "int \<Rightarrow> int" where
  "learned_limit limit = max 1 (py_int (of_int limit * (9 / 10)))"

definition lowered :: "int option \<Rightarrow> int \<Rightarrow> int option" where
  "lowered adaptive learned = Some (case adaptive of None \<Rightarrow> learned | Some a \<Rightarrow> min a learned)"

definition next_max_new :: "nat \<Rightarrow> int \<Rightarrow> int \<Rightarrow> int" where
  "next_max_new consumed learned requested =
     max 1 (min (int consumed - 1) (py_int (of_int (int consumed * learned) / of_int requested)))"

lemma shrink_chunk_consumed: "fst (snd (snd (shrink_chunk cp a ov rem whole tr n))) \<le> n"
  by (induction n arbitrary: tr) (auto simp: Let_def le_SucI)

lemma build_chunk_payload_consumed:
  assumes "build_chunk_payload cp a ov rem whole max_new = (chunk, prompt, consumed, tr)"
  shows "consumed \<le> length rem" "0 < consumed \<Longrightarrow> int consumed \<le> max_new"
  using shrink_chunk_consumed [of cp a "apply_overlap_cap (max_overlap_segments cp) ov" rem whole False
      "nat (min max_new (int (length rem)))"] assms
  by (auto simp: build_chunk_payload_def split: if_splits)

lemma next_max_new_bounds: "1 \<le> next_max_new consumed l r" "1 < consumed \<Longrightarrow> next_max_new consumed l r < int consumed"
  by (auto simp: next_max_new_def)

function step_loop ::
  "'w processor \<Rightarrow> classify_params \<Rightarrow> segment_row list \<Rightarrow> segment_row list \<Rightarrow> segment_row list \<Rightarrow> int \<Rightarrow>
   int option \<times> 'w \<Rightarrow> step_outcome \<times> int option \<times> 'w" where
  "step_loop process cp overlap remaining whole max_new (adaptive, w) =
     (case build_chunk_payload cp adaptive overlap remaining whole max_new of (chunk, prompt, consumed, trimmed) \<Rightarrow>
        if chunk = [] \<or> consumed \<le> 0 then (NoProgress, adaptive, w)
        else (case process adaptive chunk prompt w of
            (Identified ids, w') \<Rightarrow>
              (Consumed consumed (compute_next_overlap_segments (max_overlap_segments cp) chunk ids), adaptive, w')
          | (ChunkRaised e, w') \<Rightarrow> (StepRaised e, adaptive, w')
          | (RequestTooLarge limit requested, w') \<Rightarrow>
              if consumed \<le> 1 then (StepTooLarge limit requested, adaptive, w')
              else if requested = 0 then (StepRaised ''division by zero'', lowered adaptive (learned_limit limit), w')
              else step_loop process cp overlap remaining whole
                     (next_max_new consumed (learned_limit limit) requested)
                     (lowered adaptive (learned_limit limit), w')))"
  by pat_completeness auto
termination
proof (relation "measure (\<lambda>(process, cp, overlap, remaining, whole, max_new, s). nat max_new)", goal_cases)
  case 1
  then show ?case by simp
next
  case (2 process cp overlap remaining whole max_new adaptive w chunk s1 prompt s2 consumed trimmed out w' limit requested)
  from 2(1) 2(2) 2(3) 2(4) have p: "build_chunk_payload cp adaptive overlap remaining whole max_new = (chunk, prompt, consumed, trimmed)"
    by simp
  from 2 have "1 < consumed" by simp
  with build_chunk_payload_consumed(2) [OF p] next_max_new_bounds(2) [of consumed "learned_limit limit" requested]
  show ?case by simp
qed

definition step ::
  "'w processor \<Rightarrow> classify_params \<Rightarrow> segment_row list \<Rightarrow> nat \<Rightarrow> segment_row list \<Rightarrow> int option \<times> 'w \<Rightarrow>
   step_outcome \<times> int option \<times> 'w" where
  "step process cp prev_overlap current_index segs st =
     step_loop process cp (apply_overlap_cap (max_overlap_segments cp) prev_overlap) (drop current_index segs) segs
       (num_segments_per_prompt cp) st"

text \<open>The loop: \<open>left\<close> is what remains of \<open>max_iterations\<close>.  It ends at the transcript's end, at the
  safety limit, without progress (a \<open>ClassifyException\<close>, which \<open>classify\<close> swallows) or by an exception.\<close>

datatype walk_outcome = WalkDone | SafetyStop nat | NoProgressStop | WalkTooLarge int int | WalkRaised string

fun walk ::
  "'w processor \<Rightarrow> classify_params \<Rightarrow> segment_row list \<Rightarrow> nat \<Rightarrow> nat \<Rightarrow> segment_row list \<Rightarrow> int option \<times> 'w \<Rightarrow>
   walk_outcome \<times> int option \<times> 'w" where
  "walk process cp segs 0 i overlap st = (if i < length segs then SafetyStop i else WalkDone, st)"
| "walk process cp segs (Suc left) i overlap st =
     (if length segs \<le> i then (WalkDone, st)
      else (case step process cp overlap i segs st of
          (Consumed n overlap', st') \<Rightarrow>
            if n = 0 then (SafetyStop i, st') else walk process cp segs left (i + n) overlap' st'
        | (NoProgress, st') \<Rightarrow> (NoProgressStop, st')
        | (StepTooLarge l r, st') \<Rightarrow> (WalkTooLarge l r, st')
        | (StepRaised e, st') \<Rightarrow> (WalkRaised e, st')))"

definition classify_chunks ::
  "'w processor \<Rightarrow> classify_params \<Rightarrow> segment_row list \<Rightarrow> int option \<times> 'w \<Rightarrow> walk_outcome \<times> int option \<times> 'w" where
  "classify_chunks process cp segs st =
     (if segs = [] then (WalkDone, st) else walk process cp segs (length segs + 10) 0 [] st)"

section \<open>Combining lists of segments\<close>

abbreviation seg_ids :: "segment_row list \<Rightarrow> int set" where
  "seg_ids segs \<equiv> sg_id ` set segs"

lemma add_unseen_ids: "seg_ids (add_unseen acc xs) = seg_ids acc \<union> seg_ids xs"
  by (induction xs arbitrary: acc) (auto split: if_splits)

lemma add_unseen_subset: "set (add_unseen acc xs) \<subseteq> set acc \<union> set xs"
proof (induction xs arbitrary: acc)
  case (Cons x xs)
  show ?case using Cons.IH [of acc] Cons.IH [of "acc @ [x]"] by auto
qed simp

lemma add_unseen_distinct: "distinct (map sg_id acc) \<Longrightarrow> distinct (map sg_id (add_unseen acc xs))"
  by (induction xs arbitrary: acc) auto

lemma add_unseen_length: "length (add_unseen acc xs) \<le> length acc + length xs"
proof (induction xs arbitrary: acc)
  case (Cons x xs)
  show ?case using Cons.IH [of acc] Cons.IH [of "acc @ [x]"] by auto
qed simp

lemma add_unseen_eq:
  "distinct (map sg_id xs) \<Longrightarrow> add_unseen acc xs = acc @ filter (\<lambda>s. sg_id s \<notin> seg_ids acc) xs"
proof (induction xs arbitrary: acc)
  case (Cons x xs)
  have "filter (\<lambda>s. sg_id s \<noteq> sg_id x \<and> sg_id s \<notin> seg_ids acc) xs = filter (\<lambda>s. sg_id s \<notin> seg_ids acc) xs"
    using Cons.prems by (intro filter_cong) (auto simp: image_iff)
  with Cons show ?case by (simp add: conj_commute)
qed simp

lemma combine_ids: "seg_ids (combine_overlap_segments ov base) = seg_ids ov \<union> seg_ids base"
  by (simp add: combine_overlap_segments_def add_unseen_ids)

lemma combine_subset: "set (combine_overlap_segments ov base) \<subseteq> set ov \<union> set base"
  using add_unseen_subset [of "add_unseen [] ov" base] add_unseen_subset [of "[]" ov]
  by (auto simp: combine_overlap_segments_def)

lemma combine_distinct: "distinct (map sg_id (combine_overlap_segments ov base))"
  by (simp add: combine_overlap_segments_def add_unseen_distinct)

lemma combine_length: "length (combine_overlap_segments ov base) \<le> length ov + length base"
  using add_unseen_length [of "add_unseen [] ov" base] add_unseen_length [of "[]" ov]
  by (simp add: combine_overlap_segments_def)

lemma combine_Nil_iff: "combine_overlap_segments ov base = [] \<longleftrightarrow> ov = [] \<and> base = []"
  using combine_ids [of ov base] by auto

lemma combine_eq:
  assumes "distinct (map sg_id ov)" "distinct (map sg_id base)"
  shows "combine_overlap_segments ov base = ov @ filter (\<lambda>s. sg_id s \<notin> seg_ids ov) base"
  using assms by (simp add: combine_overlap_segments_def add_unseen_eq)

lemma apply_overlap_cap_suffix: "\<exists>k. apply_overlap_cap m xs = drop k xs"
  unfolding apply_overlap_cap_def by (metis drop_0 drop_all le_refl)

lemma apply_overlap_cap_subset: "set (apply_overlap_cap m xs) \<subseteq> set xs"
  using apply_overlap_cap_suffix [of m xs] set_drop_subset by fastforce

lemma apply_overlap_cap_length: "int (length (apply_overlap_cap m xs)) \<le> max 0 m"
  by (auto simp: apply_overlap_cap_def)

lemma tail_until_prefix: "\<exists>ys. xs = tail_until c xs @ ys"
  by (induction xs) auto

lemma segments_covering_tail_suffix: "\<exists>ys. chunk = ys @ segments_covering_tail seconds chunk"
proof -
  obtain ys where "rev chunk = tail_until (sg_end (last chunk) - seconds) (rev chunk) @ ys"
    using tail_until_prefix by blast
  then have "chunk = rev ys @ rev (tail_until (sg_end (last chunk) - seconds) (rev chunk))"
    by (metis rev_append rev_rev_ident)
  then show ?thesis by (auto simp: segments_covering_tail_def)
qed

lemma overlap_candidates_subset: "set (overlap_candidates chunk identified) \<subseteq> set chunk"
proof -
  let ?base = "drop (length chunk - base_tail_count chunk) chunk"
  let ?ads = "case earliest_index (set (map sg_id identified)) chunk of
              None \<Rightarrow> ?base | Some i \<Rightarrow> combine_overlap_segments (drop i chunk) ?base"
  let ?tail = "segments_covering_tail 15 chunk"
  have b: "set ?base \<subseteq> set chunk" by (rule set_drop_subset)
  have t: "set ?tail \<subseteq> set chunk"
    using segments_covering_tail_suffix [of chunk 15] by (metis set_append sup_ge2)
  have ads: "set ?ads \<subseteq> set chunk"
  proof (cases "earliest_index (set (map sg_id identified)) chunk")
    case None
    then show ?thesis using b by simp
  next
    case (Some i)
    show ?thesis unfolding Some option.case using combine_subset [of "drop i chunk" ?base] b set_drop_subset [of i chunk] by blast
  qed
  from combine_subset [of ?tail ?ads] t ads have "set (combine_overlap_segments ?tail ?ads) \<subseteq> set chunk" by blast
  with b show ?thesis by (auto simp: overlap_candidates_def Let_def split: if_splits)
qed

lemma compute_next_subset: "set (compute_next_overlap_segments m chunk identified) \<subseteq> set chunk"
  unfolding compute_next_overlap_segments_def
  using subset_trans [OF apply_overlap_cap_subset overlap_candidates_subset] by (simp del: set_append)

section \<open>Every segment is classified\<close>

lemma shrink_chunk_result:
  assumes "shrink_chunk cp a ov rem whole tr n = (chunk, prompt, k, tr')" "0 < n" "rem \<noteq> []"
  shows "1 \<le> k \<and> k \<le> n \<and> chunk = combine_overlap_segments ov (take k rem) \<and> chunk \<noteq> []"
  using assms(1,2)
proof (induction n arbitrary: tr)
  case (Suc n)
  have ne: "combine_overlap_segments ov (take (Suc n) rem) \<noteq> []"
    using assms(3) by (simp add: combine_Nil_iff)
  from Suc.prems Suc.IH ne show ?case
    by (auto simp: Let_def split: if_splits intro: le_SucI)
qed simp

lemma build_chunk_payload_result:
  assumes "build_chunk_payload cp a ov rem whole max_new = (chunk, prompt, k, tr)" "1 \<le> max_new" "rem \<noteq> []"
  shows "1 \<le> k" "k \<le> length rem" "int k \<le> max_new"
    "chunk = combine_overlap_segments (apply_overlap_cap (max_overlap_segments cp) ov) (take k rem)" "chunk \<noteq> []"
proof -
  from assms have "shrink_chunk cp a (apply_overlap_cap (max_overlap_segments cp) ov) rem whole False
      (nat (min max_new (int (length rem)))) = (chunk, prompt, k, tr)"
    by (simp add: build_chunk_payload_def)
  moreover have "0 < nat (min max_new (int (length rem)))" using assms(2,3) by simp
  ultimately have r: "1 \<le> k \<and> k \<le> nat (min max_new (int (length rem))) \<and>
      chunk = combine_overlap_segments (apply_overlap_cap (max_overlap_segments cp) ov) (take k rem) \<and> chunk \<noteq> []"
    using assms(3) by (rule shrink_chunk_result)
  then show "1 \<le> k" "k \<le> length rem" "int k \<le> max_new"
    "chunk = combine_overlap_segments (apply_overlap_cap (max_overlap_segments cp) ov) (take k rem)" "chunk \<noteq> []"
    by auto
qed

text \<open>Processing with a record of the chunks it accepted.\<close>

definition logged :: "'w processor \<Rightarrow> ('w \<times> segment_row list list) processor" where
  "logged process a chunk prompt wl =
     (case process a chunk prompt (fst wl) of
        (Identified ids, w') \<Rightarrow> (Identified ids, w', snd wl @ [chunk])
      | (out, w') \<Rightarrow> (out, w', snd wl))"

lemma in_by_id:
  assumes "inj_on sg_id S" "set xs \<subseteq> S" "set c \<subseteq> S" "seg_ids xs \<subseteq> seg_ids c"
  shows "set xs \<subseteq> set c"
  using assms by (smt (verit, best) image_iff inj_onD subset_iff)

lemma step_loop_logged:
  assumes "distinct (map sg_id whole)" "rem \<noteq> []" "set rem \<subseteq> set whole" "set ov \<subseteq> set whole"
    and "1 \<le> max_new"
    and "step_loop (logged process) cp ov rem whole max_new (a, w, seen) = (out, a', w', seen')"
  shows "(case out of
      Consumed n ov' \<Rightarrow> 1 \<le> n \<and> n \<le> length rem \<and> set ov' \<subseteq> set whole \<and>
        (\<exists>c. seen' = seen @ [c] \<and> set (take n rem) \<subseteq> set c \<and> set c \<subseteq> set whole \<and>
           int n \<le> max_new \<and> int (length c) \<le> max 0 (max_overlap_segments cp) + int n \<and> distinct (map sg_id c))
    | NoProgress \<Rightarrow> False | _ \<Rightarrow> seen' = seen)"
  using assms(5,6)
proof (induction "nat max_new" arbitrary: max_new a w rule: less_induct)
  case less
  obtain chunk prompt k tr where p: "build_chunk_payload cp a ov rem whole max_new = (chunk, prompt, k, tr)"
    by (metis prod_cases4)
  note r = build_chunk_payload_result [OF p less.prems(1) assms(2)]
  let ?ov = "apply_overlap_cap (max_overlap_segments cp) ov"
  have sub: "set chunk \<subseteq> set whole"
    using combine_subset [of ?ov "take k rem"] apply_overlap_cap_subset [of "max_overlap_segments cp" ov]
      set_take_subset [of k rem] assms(3,4) r(4) by blast
  have "inj_on sg_id (set whole)" using assms(1) by (simp add: distinct_map)
  moreover have "set (take k rem) \<subseteq> set whole" using set_take_subset [of k rem] assms(3) by blast
  ultimately have cov: "set (take k rem) \<subseteq> set chunk"
    using sub combine_ids [of ?ov "take k rem"] r(4) by (intro in_by_id) auto
  have len: "int (length chunk) \<le> max 0 (max_overlap_segments cp) + int k"
    using combine_length [of ?ov "take k rem"] apply_overlap_cap_length [of "max_overlap_segments cp" ov] r(2,4)
    by simp
  have dist: "distinct (map sg_id chunk)" using r(4) combine_distinct by simp
  have unfold: "step_loop (logged process) cp ov rem whole max_new (a, w, seen) =
     (case process a chunk prompt w of
        (Identified ids, w1) \<Rightarrow>
          (Consumed k (compute_next_overlap_segments (max_overlap_segments cp) chunk ids), a, w1, seen @ [chunk])
      | (ChunkRaised e, w1) \<Rightarrow> (StepRaised e, a, w1, seen)
      | (RequestTooLarge limit requested, w1) \<Rightarrow>
          if k \<le> 1 then (StepTooLarge limit requested, a, w1, seen)
          else if requested = 0 then (StepRaised ''division by zero'', lowered a (learned_limit limit), w1, seen)
          else step_loop (logged process) cp ov rem whole (next_max_new k (learned_limit limit) requested)
                 (lowered a (learned_limit limit), w1, seen))"
    by (subst step_loop.simps)
       (use p r(1,5) in \<open>simp add: logged_def split: prod.splits chunk_outcome.splits\<close>)
  obtain o1 w1 where pr: "process a chunk prompt w = (o1, w1)" by fastforce
  show ?case
  proof (cases o1)
    case (Identified ids)
    then show ?thesis
      using unfold pr less.prems(2) r(1-3) cov sub len dist compute_next_subset [of "max_overlap_segments cp" chunk ids]
      by auto
  next
    case (ChunkRaised e)
    then show ?thesis using unfold pr less.prems(2) by auto
  next
    case (RequestTooLarge limit requested)
    let ?mx = "next_max_new k (learned_limit limit) requested"
    have rec: "\<not> k \<le> 1 \<Longrightarrow> nat ?mx < nat max_new" "\<not> k \<le> 1 \<Longrightarrow> ?mx \<le> max_new" "1 \<le> ?mx"
      using next_max_new_bounds [of k "learned_limit limit" requested] r(3) by auto
    show ?thesis
    proof (cases "k \<le> 1 \<or> requested = 0")
      case True
      then show ?thesis using RequestTooLarge unfold pr less.prems(2) by (auto split: if_splits)
    next
      case False
      then have "step_loop (logged process) cp ov rem whole ?mx (lowered a (learned_limit limit), w1, seen) = (out, a', w', seen')"
        using RequestTooLarge unfold pr less.prems(2) by simp
      from less.hyps [OF rec(1) rec(3) this] False rec(2) show ?thesis
        by (auto split: step_outcome.splits)
    qed
  qed
qed

definition walk_ok :: "classify_params \<Rightarrow> segment_row list \<Rightarrow> nat \<Rightarrow> segment_row list list \<Rightarrow> bool" where
  "walk_ok cp segs i seen \<longleftrightarrow>
     set (take i segs) \<subseteq> \<Union> (set ` set seen) \<and>
     (\<forall>c\<in>set seen. set c \<subseteq> set segs \<and> distinct (map sg_id c) \<and>
        int (length c) \<le> max 0 (max_overlap_segments cp) + num_segments_per_prompt cp)"

lemma walk_ok_snoc:
  assumes "walk_ok cp segs i seen" "set (take n (drop i segs)) \<subseteq> set c" "set c \<subseteq> set segs" "distinct (map sg_id c)"
    and "int (length c) \<le> max 0 (max_overlap_segments cp) + num_segments_per_prompt cp"
  shows "walk_ok cp segs (i + n) (seen @ [c])"
  using assms by (auto simp: walk_ok_def take_add)

lemma walk_logged:
  assumes "distinct (map sg_id segs)" "1 \<le> num_segments_per_prompt cp"
    and "i \<le> length segs" "length segs \<le> i + left" "set ov \<subseteq> set segs" "walk_ok cp segs i seen"
    and "walk (logged process) cp segs left i ov (a, w, seen) = (out, a', w', seen')"
  shows "case out of WalkDone \<Rightarrow> walk_ok cp segs (length segs) seen' | WalkTooLarge l r \<Rightarrow> True | WalkRaised e \<Rightarrow> True | _ \<Rightarrow> False"
  using assms(3-)
proof (induction left arbitrary: i ov a w seen)
  case 0
  then show ?case by auto
next
  case (Suc left)
  show ?case
  proof (cases "length segs \<le> i")
    case True
    with Suc.prems(1) have "i = length segs" by simp
    with Suc.prems(4,5) show ?thesis by auto
  next
    case False
    let ?ov = "apply_overlap_cap (max_overlap_segments cp) ov"
    obtain so a1 w1 seen1 where st: "step (logged process) cp ov i segs (a, w, seen) = (so, a1, w1, seen1)"
      by (metis prod_cases4)
    have "set ?ov \<subseteq> set segs" using apply_overlap_cap_subset [of "max_overlap_segments cp" ov] Suc.prems(3) by blast
    from step_loop_logged [OF assms(1) _ set_drop_subset this assms(2) st [unfolded step_def]] False
    have sl: "case so of
      Consumed n ov' \<Rightarrow> 1 \<le> n \<and> n \<le> length (drop i segs) \<and> set ov' \<subseteq> set segs \<and>
        (\<exists>c. seen1 = seen @ [c] \<and> set (take n (drop i segs)) \<subseteq> set c \<and> set c \<subseteq> set segs \<and>
           int n \<le> num_segments_per_prompt cp \<and>
           int (length c) \<le> max 0 (max_overlap_segments cp) + int n \<and> distinct (map sg_id c))
      | NoProgress \<Rightarrow> False | _ \<Rightarrow> seen1 = seen" by simp
    show ?thesis
    proof (cases so)
      case (Consumed n ov')
      with sl obtain c where n: "1 \<le> n" "n \<le> length segs - i" and ov: "set ov' \<subseteq> set segs" and s1: "seen1 = seen @ [c]"
        and c: "set (take n (drop i segs)) \<subseteq> set c" "set c \<subseteq> set segs" "distinct (map sg_id c)"
          "int (length c) \<le> max 0 (max_overlap_segments cp) + num_segments_per_prompt cp" by auto
      have "walk_ok cp segs (i + n) (seen @ [c])" by (rule walk_ok_snoc [OF Suc.prems(4) c])
      moreover have "walk (logged process) cp segs left (i + n) ov' (a1, w1, seen @ [c]) = (out, a', w', seen')"
        using Suc.prems(5) False st Consumed n(1) s1 by simp
      ultimately show ?thesis
        using n Suc.prems(2) False ov by (intro Suc.IH [of "i + n" ov']) auto
    next
      case NoProgress
      with sl show ?thesis by simp
    next
      case (StepTooLarge l r)
      with Suc.prems(5) False st show ?thesis by auto
    next
      case (StepRaised e)
      with Suc.prems(5) False st show ?thesis by auto
    qed
  qed
qed

text \<open>C4.  When the loop over a transcript returns normally, every segment was in a chunk that was processed to the
  end, no chunk held a segment twice or more segments than the two settings allow together, and neither the safety limit
  nor the no-progress exception is ever reached: the only other endings are the exceptions of processing.\<close>

theorem every_segment_is_classified:
  assumes "distinct (map sg_id segs)" "1 \<le> num_segments_per_prompt cp"
    and "classify_chunks (logged process) cp segs (adaptive, w, []) = (out, adaptive', w', seen)"
  shows "(\<exists>l r. out = WalkTooLarge l r) \<or> (\<exists>e. out = WalkRaised e) \<or>
    out = WalkDone \<and> (\<Union>c\<in>set seen. set c) = set segs \<and>
    (\<forall>c\<in>set seen. distinct (map sg_id c) \<and>
       int (length c) \<le> max 0 (max_overlap_segments cp) + num_segments_per_prompt cp)"
proof (cases "segs = []")
  case True
  with assms(3) show ?thesis by (auto simp: classify_chunks_def)
next
  case False
  have "walk_ok cp segs 0 []" by (simp add: walk_ok_def)
  moreover have "walk (logged process) cp segs (length segs + 10) 0 [] (adaptive, w, []) = (out, adaptive', w', seen)"
    using assms(3) False by (simp add: classify_chunks_def)
  ultimately have "case out of WalkDone \<Rightarrow> walk_ok cp segs (length segs) seen | WalkTooLarge l r \<Rightarrow> True | WalkRaised e \<Rightarrow> True
      | _ \<Rightarrow> False"
    by (intro walk_logged [OF assms(1,2)]) auto
  then show ?thesis by (cases out) (auto simp: walk_ok_def)
qed

section \<open>The carried overlap\<close>

lemma filter_before:
  assumes "distinct (map sg_id chunk)" "b \<le> t"
  shows "filter (\<lambda>s. sg_id s \<notin> seg_ids (drop t chunk)) (drop b (take e chunk)) = drop b (take (min e t) chunk)"
proof -
  let ?P = "\<lambda>s. sg_id s \<notin> seg_ids (drop t chunk)"
  have "distinct (map sg_id (take t chunk @ drop t chunk))" using assms(1) by simp
  then have dis: "seg_ids (take t chunk) \<inter> seg_ids (drop t chunk) = {}"
    by (simp only: map_append distinct_append set_map)
  have keep: "filter ?P (drop b (take j chunk)) = drop b (take j chunk)" if "j \<le> t" for j
  proof (rule filter_True, rule ballI)
    fix s assume "s \<in> set (drop b (take j chunk))"
    then have "s \<in> set (take t chunk)" using set_drop_subset [of b "take j chunk"] set_take_subset_set_take [OF that, of chunk] by blast
    with dis show "?P s" by blast
  qed
  show ?thesis
  proof (cases "e \<le> t")
    case True
    with keep [of e] show ?thesis by (simp add: min_def)
  next
    case False
    have "take t (take e chunk) = take t chunk" using False by (simp add: min_def)
    with append_take_drop_id [of t "take e chunk"] have "take e chunk = take t chunk @ drop t (take e chunk)" by simp
    then have "drop b (take e chunk) = drop b (take t chunk) @ drop (b - length (take t chunk)) (drop t (take e chunk))"
      using drop_append [of b "take t chunk" "drop t (take e chunk)"] by simp
    moreover have "filter ?P (drop (b - length (take t chunk)) (drop t (take e chunk))) = []"
      using set_drop_subset [of "b - length (take t chunk)" "drop t (take e chunk)"] set_take_subset [of "e - t" "drop t chunk"]
      by (auto simp: filter_empty_conv drop_take)
    ultimately show ?thesis using keep [of t] False by (simp add: min_def)
  qed
qed

lemma earliest_index_Some:
  "earliest_index ids chunk = Some e \<Longrightarrow> e < length chunk \<and> seg_ids (take e chunk) \<inter> ids = {}"
proof (induction chunk arbitrary: e)
  case (Cons s ss)
  then show ?case by (cases e) (auto split: if_splits)
qed simp

lemma apply_overlap_cap_append:
  assumes "0 < m" "m \<le> int (length ys)"
  shows "apply_overlap_cap m (xs @ ys) = drop (length ys - nat m) ys"
proof (cases "int (length (xs @ ys)) \<le> m")
  case True
  with assms have "length xs = 0" "int (length ys) = m" by (simp_all only: length_append of_nat_add)
  with assms show ?thesis by (auto simp: apply_overlap_cap_def)
next
  case False
  with assms show ?thesis by (auto simp: apply_overlap_cap_def)
qed

text \<open>The overlap puts the last seconds and the detected ads in front of the older segments of the
  chunk's second half, and the cap keeps the end of that list: when as many older segments as the cap are there,
  the next chunk sees none of the ad and nothing of the last fifteen seconds.\<close>

theorem carried_overlap_omits_the_ads:
  assumes "distinct (map sg_id chunk)" "identified \<noteq> []"
    and "earliest_index (set (map sg_id identified)) chunk = Some e"
    and "k = min e (length chunk - length (segments_covering_tail 15 chunk))"
    and "b = length chunk - base_tail_count chunk" "0 < m" "int b + m \<le> int k"
  shows "compute_next_overlap_segments m chunk identified = drop (k - nat m) (take k chunk)"
    "seg_ids (compute_next_overlap_segments m chunk identified) \<inter> seg_ids identified = {}"
proof -
  let ?T = "segments_covering_tail 15 chunk" and ?n = "length chunk"
  define t where "t = ?n - length ?T"
  have T: "?T = drop t chunk"
  proof -
    obtain ys where ys: "chunk = ys @ ?T" using segments_covering_tail_suffix by blast
    then have "?n = length ys + length ?T" by (metis length_append)
    with ys show ?thesis by (metis append_eq_conv_conj diff_add_inverse2 t_def)
  qed
  have k: "k = min e t" using assms(4) t_def by simp
  have bk: "b \<le> e" "b \<le> t" "k \<le> e" "k \<le> t" using assms(6,7) k by auto
  note e = earliest_index_Some [OF assms(3)]
  have dists: "distinct (map sg_id (drop j chunk))" for j using assms(1) by (simp add: drop_map [symmetric])
  have ads: "combine_overlap_segments (drop e chunk) (drop b chunk) = drop e chunk @ drop b (take e chunk)"
    using filter_before [OF assms(1) bk(1), of ?n] e by (simp add: combine_eq dists min_def)
  have "filter (\<lambda>s. sg_id s \<notin> seg_ids (drop t chunk)) (drop b (take e chunk)) = drop b (take k chunk)"
    unfolding k by (rule filter_before [OF assms(1) bk(2)])
  moreover have "distinct (map sg_id (drop e chunk @ drop b (take e chunk)))" using combine_distinct ads by metis
  ultimately have "combine_overlap_segments ?T (drop e chunk @ drop b (take e chunk)) =
      (?T @ filter (\<lambda>s. sg_id s \<notin> seg_ids ?T) (drop e chunk)) @ drop b (take k chunk)"
    unfolding T by (subst combine_eq) (simp_all add: dists)
  then obtain xs where "combine_overlap_segments ?T (drop e chunk @ drop b (take e chunk)) = xs @ drop b (take k chunk)"
    by blast
  then have cand: "overlap_candidates chunk identified = xs @ drop b (take k chunk)"
    using assms(2,3,5) ads by (simp add: overlap_candidates_def Let_def)
  have len: "length (drop b (take k chunk)) = k - b" using bk(3) e by simp
  have "compute_next_overlap_segments m chunk identified = drop (k - b - nat m) (drop b (take k chunk))"
    using assms(6,7) e cand len apply_overlap_cap_append [of m "drop b (take k chunk)" xs]
    by (auto simp: compute_next_overlap_segments_def)
  also have "\<dots> = drop (k - nat m) (take k chunk)" using assms(6,7) by simp
  finally show eq: "compute_next_overlap_segments m chunk identified = drop (k - nat m) (take k chunk)" .
  have "seg_ids (drop (k - nat m) (take k chunk)) \<subseteq> seg_ids (take e chunk)"
    using set_drop_subset [of "k - nat m" "take k chunk"] set_take_subset_set_take [OF bk(3), of chunk] by blast
  with e eq show "seg_ids (compute_next_overlap_segments m chunk identified) \<inter> seg_ids identified = {}" by auto
qed

section \<open>The size of a chunk\<close>

definition prompt_of_first ::
  "classify_params \<Rightarrow> segment_row list \<Rightarrow> segment_row list \<Rightarrow> segment_row list \<Rightarrow> nat \<Rightarrow> string" where
  "prompt_of_first cp overlap remaining whole n =
     (let chunk = combine_overlap_segments overlap (take n remaining) in
      render_prompt cp chunk (whole \<noteq> [] \<and> sg_id (hd chunk) = sg_id (hd whole))
        (whole \<noteq> [] \<and> sg_id (last chunk) = sg_id (last whole)))"

definition too_long :: "classify_params \<Rightarrow> int option \<Rightarrow> string \<Rightarrow> bool" where
  "too_long cp adaptive prompt \<longleftrightarrow> (\<exists>l\<in>set (token_limits cp adaptive). l < prompt_tokens cp prompt)"

lemma fold_min_le: "x \<le> fold min ls (l::int) \<longleftrightarrow> x \<le> l \<and> (\<forall>k\<in>set ls. x \<le> k)"
  by (induction ls arbitrary: l) auto

lemma validate_token_limit_iff: "validate_token_limit cp adaptive prompt \<longleftrightarrow> \<not> too_long cp adaptive prompt"
  by (auto simp: validate_token_limit_def too_long_def fold_min_le not_less split: list.splits)

lemma no_limits: "max_input_tokens cp = None \<Longrightarrow> adaptive = None \<Longrightarrow> \<not> too_long cp adaptive prompt"
  by (simp add: too_long_def token_limits_def)

lemma shrink_chunk_largest:
  assumes "shrink_chunk cp a ov rem whole tr n = (chunk, prompt, k, tr')" "0 < n" "rem \<noteq> []"
  shows "prompt = prompt_of_first cp ov rem whole k \<and> (k = 1 \<or> \<not> too_long cp a prompt) \<and>
    (\<forall>j. k < j \<and> j \<le> n \<longrightarrow> too_long cp a (prompt_of_first cp ov rem whole j))"
  using assms(1,2)
proof (induction n arbitrary: tr)
  case (Suc n)
  let ?c = "combine_overlap_segments ov (take (Suc n) rem)" and ?p = "prompt_of_first cp ov rem whole (Suc n)"
  have ne: "?c \<noteq> []" using assms(3) by (simp add: combine_Nil_iff)
  have unfold: "shrink_chunk cp a ov rem whole tr (Suc n) =
      (if too_long cp a ?p then (if n = 0 then (?c, ?p, Suc n, True) else shrink_chunk cp a ov rem whole True n)
       else (?c, ?p, Suc n, tr))"
    using ne no_limits [of cp a ?p] by (auto simp: Let_def prompt_of_first_def validate_token_limit_iff)
  show ?case
  proof (cases "too_long cp a ?p \<and> n \<noteq> 0")
    case True
    with Suc.prems(1) unfold have "shrink_chunk cp a ov rem whole True n = (chunk, prompt, k, tr')" by simp
    from Suc.IH [OF this] True show ?thesis by (auto simp: le_Suc_eq)
  next
    case False
    with Suc.prems(1) unfold show ?thesis by (auto split: if_splits)
  qed
qed simp

text \<open>C20.  A chunk takes as many new segments as the limits allow: its prompt fits the configured limit and
  the one learned from the provider unless it has a single new segment, and with any larger number of segments, up
  to the number asked for, the prompt would not fit.\<close>

theorem chunk_is_the_largest_that_fits:
  assumes "build_chunk_payload cp adaptive overlap remaining whole max_new = (chunk, prompt, n, trimmed)"
    and "remaining \<noteq> []" "1 \<le> max_new"
  shows "1 \<le> n \<and> (n = 1 \<or> \<not> too_long cp adaptive prompt) \<and>
    (\<forall>j. n < j \<and> j \<le> length remaining \<and> int j \<le> max_new \<longrightarrow>
      too_long cp adaptive
        (prompt_of_first cp (apply_overlap_cap (max_overlap_segments cp) overlap) remaining whole j))"
proof -
  from assms have s: "shrink_chunk cp adaptive (apply_overlap_cap (max_overlap_segments cp) overlap) remaining whole False
      (nat (min max_new (int (length remaining)))) = (chunk, prompt, n, trimmed)"
    by (simp add: build_chunk_payload_def)
  have p: "0 < nat (min max_new (int (length remaining)))" using assms(2,3) by simp
  from shrink_chunk_largest [OF s p assms(2)] shrink_chunk_result [OF s p assms(2)]
  show ?thesis by (auto simp: nat_le_iff)
qed

section \<open>Examples\<close>

definition seg :: "int \<Rightarrow> segment_row" where
  "seg i = \<lparr>sg_id = i, sg_post = 1, sg_num = i - 1, sg_start = of_int (10 * (i - 1)), sg_end = of_int (10 * i),
     sg_text = ''ad'', sg_speaker = None\<rparr>"

definition params_of :: "int \<Rightarrow> int \<Rightarrow> int option \<Rightarrow> classify_params" where
  "params_of n m limit = \<lparr>num_segments_per_prompt = n, max_overlap_segments = m, max_input_tokens = limit,
     has_rate_limiter = False, system_prompt = [], render_prompt = (\<lambda>c a b. concat (map (\<lambda>s. ''12345678'') c))\<rparr>"

definition quiet :: "unit processor" where
  "quiet a chunk prompt w = (Identified [], w)"

theorem every_segment_is_classified_witness:
  "(\<Union>c\<in>set [[seg 1, seg 2], [seg 2, seg 3]]. set c) = set [seg 1, seg 2, seg 3]"
proof -
  have ev: "classify_chunks (logged quiet) (params_of 2 1 None) [seg 1, seg 2, seg 3] (None, (), []) =
      (WalkDone, None, (), [[seg 1, seg 2], [seg 2, seg 3]])"
    by code_simp
  have d: "distinct (map sg_id [seg 1, seg 2, seg 3])" "1 \<le> num_segments_per_prompt (params_of 2 1 None)"
    by (simp_all add: seg_def params_of_def)
  from every_segment_is_classified [OF d ev] show ?thesis by blast
qed

theorem carried_overlap_omits_the_ads_witness:
  "seg_ids (compute_next_overlap_segments 2 (map seg [1, 2, 3, 4, 5, 6, 7, 8]) [seg 8]) \<inter> seg_ids [seg 8] = {}"
proof (rule carried_overlap_omits_the_ads(2))
  show "earliest_index (set (map sg_id [seg 8])) (map seg [1, 2, 3, 4, 5, 6, 7, 8]) = Some 7"
    by (simp add: seg_def)
  show "(6::nat) = min 7 (length (map seg [1, 2, 3, 4, 5, 6, 7, 8]) - length (segments_covering_tail 15 (map seg [1, 2, 3, 4, 5, 6, 7, 8])))"
    by (simp add: segments_covering_tail_def seg_def)
  show "(4::nat) = length (map seg [1, 2, 3, 4, 5, 6, 7, 8]) - base_tail_count (map seg [1, 2, 3, 4, 5, 6, 7, 8])"
    by (simp add: base_tail_count_def)
qed (simp_all add: seg_def)

theorem chunk_is_the_largest_that_fits_witness:
  "too_long (params_of 3 0 (Some 4)) None (prompt_of_first (params_of 3 0 (Some 4)) [] [seg 1, seg 2, seg 3] [seg 1, seg 2, seg 3] 3)"
proof -
  have ev: "build_chunk_payload (params_of 3 0 (Some 4)) None [] [seg 1, seg 2, seg 3] [seg 1, seg 2, seg 3] 3 =
      ([seg 1, seg 2], ''1234567812345678'', 2, True)"
    by (simp add: build_chunk_payload_def combine_overlap_segments_def seg_def params_of_def apply_overlap_cap_def
        validate_token_limit_def token_limits_def prompt_tokens_def Let_def eval_nat_numeral)
  from chunk_is_the_largest_that_fits [OF ev]
  show ?thesis by (simp add: params_of_def apply_overlap_cap_def)
qed

end
