(* ===== verification/LlmCalls.thy ===== *)
theory LlmCalls
  imports PyRegex
begin

text \<open>
  Calls of the language model: the arguments of a completion (\<open>src/shared/llm_utils.py\<close>), service tiers,
  the retry with a smaller output allowance and the flex tier's retries
  (\<open>src/podcast_processor/llm_model_call_utils.py\<close>), and the classification of errors
  (\<open>src/podcast_processor/llm_error_classifier.py\<close>).  \<open>litellm\<close> is an argument: what it knows of a model and
  what a completion answers, on a state of its own.
\<close>

section \<open>Errors\<close>

text \<open>The application's own error for an oversized request, litellm's \<open>InternalServerError\<close>, and any other
  exception with the text and the codes (\<open>status_code\<close>, \<open>code\<close>) it carries.\<close>

datatype llm_error =
    LLMRequestTooLarge int int
  | InternalServerFault string "string list"
  | OtherFault string "string list"

fun error_text :: "llm_error \<Rightarrow> string" where
  "error_text (LLMRequestTooLarge limit requested) =
     ''LLM request too large on tokens per minute (TPM): Limit '' @ int_str limit @ '', Requested '' @ int_str requested"
| "error_text (InternalServerFault txt codes) = txt"
| "error_text (OtherFault txt codes) = txt"

fun error_codes :: "llm_error \<Rightarrow> string list" where
  "error_codes (LLMRequestTooLarge limit requested) = []"
| "error_codes (InternalServerFault txt codes) = codes"
| "error_codes (OtherFault txt codes) = codes"

fun is_internal :: "llm_error \<Rightarrow> bool" where
  "is_internal (InternalServerFault txt codes) = True"
| "is_internal e = False"

definition maybe_char :: re where
  "maybe_char = Opt Any"

definition RATE_LIMIT_PATTERNS :: "re list" where
  "RATE_LIMIT_PATTERNS = [Seqs [ILit ''rate'', maybe_char, ILit ''limit''], ILit ''too many requests'',
     Seqs [ILit ''quota'', maybe_char, ILit ''exceeded''], ILit ''429'']"

definition TIMEOUT_PATTERNS :: "re list" where
  "TIMEOUT_PATTERNS = [ILit ''timeout'', Seqs [ILit ''timed'', maybe_char, ILit ''out''], ILit ''408'', ILit ''504'']"

definition SERVER_ERROR_PATTERNS :: "re list" where
  "SERVER_ERROR_PATTERNS = [Seqs [ILit ''internal'', maybe_char, ILit ''server'', maybe_char, ILit ''error''],
     Seqs [ILit ''service'', maybe_char, ILit ''unavailable''], ILit ''502'', ILit ''503'', ILit ''500'']"

definition NON_RETRYABLE_PATTERNS :: "re list" where
  "NON_RETRYABLE_PATTERNS = [ILit ''authentication'', ILit ''authorization'',
     Seqs [ILit ''invalid'', maybe_char, ILit ''api'', maybe_char, ILit ''key''], ILit ''401'', ILit ''403'', ILit ''400'',
     Seqs [ILit ''invalid'', maybe_char, ILit ''parameter'']]"

definition matches_patterns :: "string \<Rightarrow> re list \<Rightarrow> bool" where
  "matches_patterns txt patterns = list_ex (\<lambda>p. re_found p txt) patterns"

definition is_retryable_error :: "llm_error \<Rightarrow> bool" where
  "is_retryable_error e =
     (if is_internal e then True
      else if matches_patterns (error_text e) NON_RETRYABLE_PATTERNS then False
      else matches_patterns (error_text e) (RATE_LIMIT_PATTERNS @ TIMEOUT_PATTERNS @ SERVER_ERROR_PATTERNS))"

definition get_error_category :: "llm_error \<Rightarrow> string" where
  "get_error_category e =
     (let s = error_text e in
      if matches_patterns s RATE_LIMIT_PATTERNS then ''rate_limit''
      else if matches_patterns s TIMEOUT_PATTERNS then ''timeout''
      else if matches_patterns s SERVER_ERROR_PATTERNS then ''server_error''
      else if matches_patterns s NON_RETRYABLE_PATTERNS
      then (if list_ex (\<lambda>p. re_found p s) [ILit ''authentication'', ILit ''authorization'', ILit ''401'', ILit ''403'']
            then ''auth_error'' else ''client_error'')
      else ''unknown'')"

definition get_suggested_backoff :: "llm_error \<Rightarrow> nat \<Rightarrow> real" where
  "get_suggested_backoff e attempt =
     (let category = get_error_category e; base_backoff = 2 ^ attempt in
      if category = ''rate_limit'' then base_backoff * 2
      else if category = ''timeout'' then base_backoff * (3 / 2)
      else base_backoff)"

definition is_tier_retryable :: "llm_error \<Rightarrow> bool" where
  "is_tier_retryable e =
     (let err = py_lower (error_text e) in
      str_in ''503'' err \<or> str_in ''service unavailable'' err \<or>
      str_in ''429'' err \<or> str_in ''rate limit'' err \<or> str_in ''resource_exhausted'' err \<or>
      list_ex (\<lambda>c. c \<in> {''429'', ''503''}) (error_codes e))"

section \<open>Oversized requests\<close>

definition line_char :: "char \<Rightarrow> bool" where
  "line_char c \<longleftrightarrow> c \<noteq> CHR 0x0A"

definition number_group :: "nat \<Rightarrow> re" where
  "number_group k = Grp k (Plus (Cls (\<lambda>c. digit_char c \<or> c = CHR '','')))"

definition label_gap :: re where
  "label_gap = Seqs [Star (Cls py_space), Opt (Cls (\<lambda>c. c = CHR '':'')), Star (Cls py_space)]"

definition TPM_REQUEST_LIMIT_RE :: re where
  "TPM_REQUEST_LIMIT_RE = Seqs [ILit ''tokens per min'', Opt (ILit ''ute''), LazyStar (Cls line_char), ILit ''limit'', label_gap,
     number_group 1, LazyStar (Cls line_char), ILit ''requested'', label_gap, number_group 2]"

text \<open>The numbers of a message: none, digits that \<open>int\<close> refuses, or the limit and the request.\<close>

datatype tpm_report = NoTpm | BadTpm | Tpm int int

definition tpm_of :: "string \<Rightarrow> tpm_report" where
  "tpm_of msg =
     (case re_search TPM_REQUEST_LIMIT_RE msg of
        None \<Rightarrow> NoTpm
      | Some (i, j, c) \<Rightarrow>
          (case (int_of_str (remove_char CHR '','' (group_text msg c 1)), int_of_str (remove_char CHR '','' (group_text msg c 2))) of
             (Some limit, Some requested) \<Rightarrow> Tpm limit requested
           | _ \<Rightarrow> BadTpm))"

definition bad_number :: llm_error where
  "bad_number = OtherFault ''invalid literal for int() with base 10'' []"

text \<open>\<open>LLMRequestTooLargeError.from_message\<close>: an exception, None, or the error.\<close>

definition from_message :: "string option \<Rightarrow> llm_error + llm_error option" where
  "from_message message =
     (case message of
        None \<Rightarrow> Inr None
      | Some msg \<Rightarrow>
          if msg = [] then Inr None
          else (case tpm_of msg of
              NoTpm \<Rightarrow> Inr None
            | BadTpm \<Rightarrow> Inl bad_number
            | Tpm limit requested \<Rightarrow> Inr (Some (LLMRequestTooLarge limit requested))))"

section \<open>The arguments of a completion\<close>

record completion_args =
  arg_model :: string
  arg_messages :: "(string \<times> string) list"
  arg_max_completion_tokens :: "int option"
  arg_max_tokens :: "int option"
  arg_temperature :: "real option"
  arg_service_tier :: "string option"

definition gpt5_plus_model :: re where
  "gpt5_plus_model = Seqs [Lit ''gpt-'', Alt (Cls (\<lambda>c. c \<in> {CHR ''5'', CHR ''6'', CHR ''7'', CHR ''8'', CHR ''9''}))
     (Seqs [Cls digit_char, Cls digit_char, Star (Cls digit_char)])]"

definition MAX_COMPLETION_TOKEN_MODELS :: "string list" where
  "MAX_COMPLETION_TOKEN_MODELS = [''gpt-4o'', ''o1-'', ''o1_'', ''o1/'', ''chatgpt-4o-latest'']"

definition model_uses_max_completion_tokens :: "string \<Rightarrow> bool" where
  "model_uses_max_completion_tokens model_name =
     (if model_name = [] then False
      else let model_lower = py_lower model_name in
        re_found gpt5_plus_model model_lower \<or> list_ex (\<lambda>p. str_in p model_lower) MAX_COMPLETION_TOKEN_MODELS)"

text \<open>What litellm knows of a model: nothing (the lookup raises), or the output limit it states, if it states a
  number.\<close>

datatype model_info = NoModelInfo | ModelInfo "int option"

definition normalize_completion_args_for_model :: "(string \<Rightarrow> model_info) \<Rightarrow> completion_args \<Rightarrow> completion_args" where
  "normalize_completion_args_for_model get_model_info args =
     (let model_name = arg_model args; reasoning = model_uses_max_completion_tokens model_name;
          a = (if reasoning then args\<lparr>arg_temperature := None\<rparr> else args) in
      if model_name = [] then args
      else (case get_model_info model_name of
          NoModelInfo \<Rightarrow> if reasoning then a\<lparr>arg_max_completion_tokens := None, arg_max_tokens := None\<rparr> else a
        | ModelInfo None \<Rightarrow> a
        | ModelInfo (Some output_limit) \<Rightarrow>
            if output_limit \<le> 0 then a
            else a\<lparr>arg_max_completion_tokens := map_option (\<lambda>v. min v output_limit) (arg_max_completion_tokens a),
                   arg_max_tokens := map_option (\<lambda>v. min v output_limit) (arg_max_tokens a)\<rparr>))"

definition SERVICE_TIER_MODEL_PREFIXES :: "string list" where
  "SERVICE_TIER_MODEL_PREFIXES = [''gemini/'', ''openai/'']"

definition OPENAI_MODEL_PREFIXES :: "string list" where
  "OPENAI_MODEL_PREFIXES = [''gpt-'', ''o1'', ''o3'', ''o4'']"

definition model_supports_service_tier :: "string \<Rightarrow> bool" where
  "model_supports_service_tier model_name =
     (if model_name = [] then False
      else if list_ex (\<lambda>p. starts_with p model_name) SERVICE_TIER_MODEL_PREFIXES then True
      else \<not> str_in ''/'' model_name \<and> list_ex (\<lambda>p. starts_with p model_name) OPENAI_MODEL_PREFIXES)"

definition without_openai :: "string \<Rightarrow> string" where
  "without_openai model_name = (if starts_with ''openai/'' model_name then drop 7 model_name else model_name)"

text \<open>\<open>priced_flex\<close> says whether litellm's price table has the two flex rates of a model.\<close>

definition model_supports_flex_tier :: "(string \<Rightarrow> bool) \<Rightarrow> string \<Rightarrow> bool" where
  "model_supports_flex_tier priced_flex model_name =
     (if model_name = [] then False
      else if starts_with ''gemini/'' model_name then True
      else if \<not> (starts_with ''openai/'' model_name \<or>
                 (\<not> str_in ''/'' model_name \<and> list_ex (\<lambda>p. starts_with p model_name) OPENAI_MODEL_PREFIXES)) then False
      else priced_flex (without_openai model_name))"

definition LLM_SERVICE_TIER :: string where "LLM_SERVICE_TIER = ''default''"

definition resolved_tier :: "string option \<Rightarrow> string" where
  "resolved_tier configured =
     (let tier = py_lower (py_strip (case configured of None \<Rightarrow> LLM_SERVICE_TIER | Some t \<Rightarrow> if t = [] then LLM_SERVICE_TIER else t)) in
      if tier \<in> {''default'', ''flex'', ''priority'', ''auto''} then tier else LLM_SERVICE_TIER)"

definition apply_service_tier :: "(string \<Rightarrow> bool) \<Rightarrow> string option \<Rightarrow> completion_args \<Rightarrow> completion_args" where
  "apply_service_tier priced_flex configured args =
     (let tier = resolved_tier configured in
      if tier = ''default'' then args
      else if \<not> model_supports_service_tier (arg_model args) then args
      else if tier = ''flex'' \<and> \<not> model_supports_flex_tier priced_flex (arg_model args) then args
      else args\<lparr>arg_service_tier := Some tier\<rparr>)"

section \<open>One call with its retries\<close>

text \<open>What happens on the way, in order: requests, sleeps, and the notes on the call's row.\<close>

datatype llm_event =
    Requested completion_args
  | BackingOff nat real
  | Started
  | Slept real
  | TierNoted "string option"

record llm_answer =
  answer_content :: "string option"
  answer_tier :: "string option"

type_synonym 'p provider = "completion_args \<Rightarrow> 'p \<Rightarrow> (llm_error + llm_answer) \<times> 'p"

definition send :: "'p provider \<Rightarrow> completion_args \<Rightarrow> 'p \<times> llm_event list \<Rightarrow> (llm_error + llm_answer) \<times> 'p \<times> llm_event list" where
  "send completion args st =
     (let (r, p) = completion args (fst st) in (r, p, snd st @ [Requested args]))"

definition output_allowance :: "completion_args \<Rightarrow> int option" where
  "output_allowance args =
     (case arg_max_completion_tokens args of Some v \<Rightarrow> Some v | None \<Rightarrow> arg_max_tokens args)"

definition set_output_allowance :: "int \<Rightarrow> completion_args \<Rightarrow> completion_args" where
  "set_output_allowance v args =
     (if arg_max_completion_tokens args \<noteq> None then args\<lparr>arg_max_completion_tokens := Some v\<rparr>
      else args\<lparr>arg_max_tokens := Some v\<rparr>)"

text \<open>The answer of the second request, with the error it is turned into.\<close>

definition retried :: "llm_error + llm_answer \<Rightarrow> llm_error + llm_answer" where
  "retried r =
     (case r of
        Inr a \<Rightarrow> Inr a
      | Inl e \<Rightarrow> (case tpm_of (error_text e) of
            NoTpm \<Rightarrow> Inl e
          | BadTpm \<Rightarrow> Inl bad_number
          | Tpm limit requested \<Rightarrow> Inl (LLMRequestTooLarge limit requested)))"

definition reduced_allowance :: "int \<Rightarrow> int \<Rightarrow> int \<Rightarrow> int" where
  "reduced_allowance old limit requested = old - (requested - limit) - max 1000 (limit div 100)"

definition call_with_tpm_adjustment ::
  "'p provider \<Rightarrow> completion_args \<Rightarrow> 'p \<times> llm_event list \<Rightarrow> ((llm_error + llm_answer) \<times> completion_args) \<times> 'p \<times> llm_event list" where
  "call_with_tpm_adjustment completion args st =
     (let (r, st1) = send completion args st in
      case r of
        Inr a \<Rightarrow> ((Inr a, args), st1)
      | Inl e \<Rightarrow>
          (case tpm_of (error_text e) of
             NoTpm \<Rightarrow> ((Inl e, args), st1)
           | BadTpm \<Rightarrow> ((Inl bad_number, args), st1)
           | Tpm limit requested \<Rightarrow>
               if requested - limit \<le> 0 then ((Inl e, args), st1)
               else (case output_allowance args of
                   None \<Rightarrow> ((Inl (LLMRequestTooLarge limit requested), args), st1)
                 | Some old \<Rightarrow>
                     if old < requested then ((Inl (LLMRequestTooLarge limit requested), args), st1)
                     else if reduced_allowance old limit requested \<le> 0 then ((Inl e, args), st1)
                     else
                       (let args' = set_output_allowance (reduced_allowance old limit requested) args;
                            (r2, st2) = send completion args' st1 in
                        ((retried r2, args'), st2)))))"

text \<open>\<open>has_row\<close>: whether the caller has a row of the call to write to; the writes are best-effort.\<close>

definition mark_row :: "bool \<Rightarrow> llm_event \<Rightarrow> 'p \<times> llm_event list \<Rightarrow> 'p \<times> llm_event list" where
  "mark_row has_row ev st = (if has_row then (fst st, snd st @ [ev]) else st)"

definition record_effective_service_tier ::
  "bool \<Rightarrow> llm_answer \<Rightarrow> completion_args \<Rightarrow> 'p \<times> llm_event list \<Rightarrow> completion_args \<times> 'p \<times> llm_event list" where
  "record_effective_service_tier has_row ans args st =
     (let t = py_lower (py_strip (case answer_tier ans of None \<Rightarrow> [] | Some t \<Rightarrow> t));
          args' = (if t \<in> {''flex'', ''priority''} then args\<lparr>arg_service_tier := Some t\<rparr>
                   else if t \<in> {''default'', ''auto''} then args\<lparr>arg_service_tier := None\<rparr> else args) in
      (args', mark_row has_row (TierNoted (arg_service_tier args')) st))"

definition finish_call ::
  "bool \<Rightarrow> ((llm_error + llm_answer) \<times> completion_args) \<times> 'p \<times> llm_event list \<Rightarrow>
   ((llm_error + llm_answer) \<times> completion_args) \<times> 'p \<times> llm_event list" where
  "finish_call has_row res =
     (case res of
        ((Inl e, args), st) \<Rightarrow> ((Inl e, args), st)
      | ((Inr a, args), st) \<Rightarrow>
          (let (args', st') = record_effective_service_tier has_row a args st in ((Inr a, args'), st')))"

text \<open>The attempts at the flex tier: \<open>left\<close> more after attempt number \<open>attempt\<close>.\<close>

fun flex_attempts ::
  "'p provider \<Rightarrow> bool \<Rightarrow> real \<Rightarrow> nat \<Rightarrow> nat \<Rightarrow> completion_args \<Rightarrow> 'p \<times> llm_event list \<Rightarrow>
   ((llm_error + llm_answer) \<times> completion_args) \<times> 'p \<times> llm_event list" where
  "flex_attempts completion has_row delay attempt left args st =
     (case call_with_tpm_adjustment completion args st of
        ((Inr a, args'), st') \<Rightarrow> finish_call has_row ((Inr a, args'), st')
      | ((Inl e, args'), st') \<Rightarrow>
          if \<not> is_tier_retryable e then ((Inl e, args'), st')
          else (case left of
              0 \<Rightarrow> finish_call has_row
                     (call_with_tpm_adjustment completion (args'\<lparr>arg_service_tier := None\<rparr>) (mark_row has_row Started st'))
            | Suc n \<Rightarrow>
                (let wait = delay * 2 ^ attempt;
                     st1 = mark_row has_row (BackingOff (attempt + 1) wait) st';
                     st2 = mark_row has_row Started (fst st1, snd st1 @ [Slept wait]) in
                 flex_attempts completion has_row delay (attempt + 1) n args' st2)))"

declare flex_attempts.simps [simp del]

definition LLM_SERVICE_TIER_MAX_RETRIES :: int where "LLM_SERVICE_TIER_MAX_RETRIES = 3"
definition LLM_SERVICE_TIER_BASE_DELAY_SEC :: real where "LLM_SERVICE_TIER_BASE_DELAY_SEC = 5"

definition call_litellm_with_tier_retry ::
  "'p provider \<Rightarrow> int option \<Rightarrow> real option \<Rightarrow> bool \<Rightarrow> completion_args \<Rightarrow> 'p \<times> llm_event list \<Rightarrow>
   ((llm_error + llm_answer) \<times> completion_args) \<times> 'p \<times> llm_event list" where
  "call_litellm_with_tier_retry completion max_retries base_delay has_row args st =
     (let retries = (case max_retries of None \<Rightarrow> LLM_SERVICE_TIER_MAX_RETRIES | Some n \<Rightarrow> n);
          delay = (case base_delay of None \<Rightarrow> LLM_SERVICE_TIER_BASE_DELAY_SEC | Some d \<Rightarrow> d) in
      if arg_service_tier args \<noteq> Some ''flex''
      then finish_call has_row (call_with_tpm_adjustment completion args st)
      else if retries \<le> 0 then ((Inl (OtherFault [] []), args), st)
      else flex_attempts completion has_row delay 0 (nat retries - 1) args st)"

section \<open>Literals in patterns\<close>

lemma matches_ILit: "matches (ILit w) s i j \<longleftrightarrow> j = i + length w \<and> (w \<noteq> [] \<longrightarrow> j \<le> length s) \<and>
    map lower_char (take (length w) (drop i s)) = map lower_char w"
proof (induction w arbitrary: i)
  case (Cons c w)
  show ?case
  proof (cases w)
    case Nil
    then show ?thesis by (auto simp: ILit_def take_Suc hd_drop_conv_nth drop_Suc split: list.splits)
  next
    case (Cons d v)
    have *: "matches (ILit (c # w)) s i j \<longleftrightarrow> i < length s \<and> lower_char (s ! i) = lower_char c \<and> matches (ILit w) s (i + 1) j"
      using Cons by (simp add: ILit_def)
    show ?thesis
      unfolding * Cons.IH
      using Cons by (cases "i < length s") (auto simp: Cons_nth_drop_Suc [symmetric])
  qed
qed (auto simp: ILit_def)

lemma re_found_ILitI:
  assumes "w \<noteq> []"
  shows "re_found (ILit w) (a @ w @ b)"
  unfolding re_found_iff
  by (rule exI [of _ "length a"], rule exI [of _ "length a + length w"]) (use assms in \<open>simp add: matches_ILit\<close>)

lemma matches_seq_ILit:
  "matches (Seqs [ILit v, maybe_char, ILit w]) (a @ v @ x # w @ b) (length a) (length a + length v + 1 + length w)"
  if "v \<noteq> []" "w \<noteq> []" "x \<noteq> CHR 0x0A"
proof -
  have "matches (ILit v) (a @ v @ x # w @ b) (length a) (length a + length v)" by (simp add: matches_ILit)
  moreover have "matches maybe_char (a @ v @ x # w @ b) (length a + length v) (length a + length v + 1)"
    using that by (simp add: maybe_char_def Opt_def Any_def nth_append)
  moreover have "matches (ILit w) (a @ v @ x # w @ b) (length a + length v + 1) (length a + length v + 1 + length w)"
    by (simp add: matches_ILit)
  ultimately show ?thesis by (auto simp del: matches.simps(2))
qed

lemma re_foundI: "matches r s i j \<Longrightarrow> i \<le> length s \<Longrightarrow> re_found r s"
  by (auto simp: re_found_iff)

text \<open>A rate-limit message that contains the digits of a client error anywhere, such as a limit of 40000
  tokens, is put into the category of rate limits and yet is never retried.\<close>

theorem digits_make_a_rate_limit_permanent:
  assumes "code \<in> {''400'', ''401'', ''403''}"
  shows "get_error_category (OtherFault (a @ ''rate limit'' @ b @ code @ c) codes) = ''rate_limit''"
    "\<not> is_retryable_error (OtherFault (a @ ''rate limit'' @ b @ code @ c) codes)"
proof -
  let ?s = "a @ ''rate limit'' @ b @ code @ c"
  have "re_found (ILit code) ((a @ ''rate limit'' @ b) @ code @ c)" by (rule re_found_ILitI) (use assms in auto)
  then have "matches_patterns ?s NON_RETRYABLE_PATTERNS"
    using assms by (auto simp: matches_patterns_def NON_RETRYABLE_PATTERNS_def)
  then show "\<not> is_retryable_error (OtherFault ?s codes)" by (simp add: is_retryable_error_def)
  have "matches (Seqs [ILit ''rate'', maybe_char, ILit ''limit'']) (a @ ''rate'' @ CHR '' '' # ''limit'' @ b @ code @ c)
      (length a) (length a + length ''rate'' + 1 + length ''limit'')"
    by (rule matches_seq_ILit) auto
  from re_foundI [OF this] have "re_found (Seqs [ILit ''rate'', maybe_char, ILit ''limit'']) ?s" by (simp del: Seqs.simps)
  then have "matches_patterns ?s RATE_LIMIT_PATTERNS" by (simp add: matches_patterns_def RATE_LIMIT_PATTERNS_def del: Seqs.simps)
  then show "get_error_category (OtherFault ?s codes) = ''rate_limit''"
    by (simp add: get_error_category_def Let_def)
qed

theorem digits_make_a_rate_limit_permanent_witness:
  "\<not> is_retryable_error (OtherFault (''Error: '' @ ''rate limit'' @ '' reached on tokens per min: Limit '' @ ''400'' @ ''00, Used 39000'') [])"
  by (rule digits_make_a_rate_limit_permanent(2)) simp

section \<open>The number of requests\<close>

definition requests :: "llm_event list \<Rightarrow> completion_args list" where
  "requests evs = concat (map (\<lambda>ev. case ev of Requested a \<Rightarrow> [a] | _ \<Rightarrow> []) evs)"

lemma requests_append [simp]: "requests (xs @ ys) = requests xs @ requests ys"
  by (simp add: requests_def)

lemma requests_single [simp]:
  "requests [Requested a] = [a]" "requests [BackingOff n w] = []" "requests [Started] = []" "requests [Slept w] = []"
  "requests [TierNoted t] = []"
  by (simp_all add: requests_def)

definition sleeps :: "llm_event list \<Rightarrow> real list" where
  "sleeps evs = concat (map (\<lambda>ev. case ev of Slept w \<Rightarrow> [w] | _ \<Rightarrow> []) evs)"

lemma sleeps_append [simp]: "sleeps (xs @ ys) = sleeps xs @ sleeps ys"
  by (simp add: sleeps_def)

lemma sleeps_single [simp]:
  "sleeps [Requested a] = []" "sleeps [BackingOff n w] = []" "sleeps [Started] = []" "sleeps [Slept w] = [w]"
  "sleeps [TierNoted t] = []"
  by (simp_all add: sleeps_def)

lemma mark_row_events [simp]:
  "\<not> (\<exists>a. ev = Requested a) \<Longrightarrow> requests (snd (mark_row has_row ev st)) = requests (snd st)"
  "\<not> (\<exists>w. ev = Slept w) \<Longrightarrow> sleeps (snd (mark_row has_row ev st)) = sleeps (snd st)"
  by (cases ev; simp add: mark_row_def)+

text \<open>Requests that ask for no more output than the arguments they started from.\<close>

definition no_more :: "completion_args \<Rightarrow> completion_args \<Rightarrow> bool" where
  "no_more a b \<longleftrightarrow> rel_option (\<le>) (output_allowance a) (output_allowance b)"

lemma no_more_refl [simp]: "no_more a a"
  by (cases "output_allowance a") (simp_all add: no_more_def)

lemma no_more_trans: "no_more a b \<Longrightarrow> no_more b c \<Longrightarrow> no_more a c"
  unfolding no_more_def
  by (cases "output_allowance a"; cases "output_allowance b"; cases "output_allowance c") auto

lemma output_allowance_set: "output_allowance args = Some old \<Longrightarrow> output_allowance (set_output_allowance v args) = Some v"
  by (auto simp: output_allowance_def set_output_allowance_def split: option.splits if_splits)

lemma output_allowance_tier [simp]: "output_allowance (args\<lparr>arg_service_tier := t\<rparr>) = output_allowance args"
  by (simp add: output_allowance_def split: option.splits)

lemma no_more_tier [simp]: "no_more (args\<lparr>arg_service_tier := t\<rparr>) b = no_more args b" "no_more b (args\<lparr>arg_service_tier := t\<rparr>) = no_more b args"
  by (simp_all add: no_more_def)

definition sent_within :: "nat \<Rightarrow> completion_args \<Rightarrow> llm_event list \<Rightarrow> llm_event list \<Rightarrow> bool" where
  "sent_within n args evs evs' \<longleftrightarrow>
     (\<exists>rs. requests evs' = requests evs @ rs \<and> length rs \<le> n \<and> list_all (\<lambda>a. no_more a args) rs)"

lemma sent_within_step:
  assumes "sent_within m args evs evs1" "sent_within n args1 evs2 evs'" "requests evs2 = requests evs1" "no_more args1 args"
  shows "sent_within (m + n) args evs evs'"
proof -
  obtain rs rs' where r: "requests evs1 = requests evs @ rs" "length rs \<le> m" "list_all (\<lambda>a. no_more a args) rs"
    "requests evs' = requests evs2 @ rs'" "length rs' \<le> n" "list_all (\<lambda>a. no_more a args1) rs'"
    using assms(1,2) by (auto simp: sent_within_def)
  have "list_all (\<lambda>a. no_more a args) rs'" using r(6) assms(4) no_more_trans by (auto simp: list_all_iff)
  with r assms(3) show ?thesis unfolding sent_within_def by (intro exI [of _ "rs @ rs'"]) simp
qed

lemma reduced_allowance_less: "limit < requested \<Longrightarrow> reduced_allowance old limit requested < old"
  by (simp add: reduced_allowance_def)

lemma call_with_tpm_sent:
  assumes "call_with_tpm_adjustment completion args st = ((r, args'), st')"
  shows "sent_within 2 args (snd st) (snd st') \<and> no_more args' args \<and> arg_service_tier args' = arg_service_tier args \<and>
    sleeps (snd st') = sleeps (snd st)"
proof -
  obtain r1 p1 where c: "completion args (fst st) = (r1, p1)" by fastforce
  let ?st1 = "(p1, snd st @ [Requested args])"
  have one: "sent_within 2 args (snd st) (snd st @ [Requested args])"
    by (auto simp: sent_within_def)
  show ?thesis
  proof (cases "\<exists>e limit requested old. r1 = Inl e \<and> tpm_of (error_text e) = Tpm limit requested \<and> limit < requested \<and>
      output_allowance args = Some old \<and> requested \<le> old \<and> 0 < reduced_allowance old limit requested")
    case True
    then obtain e limit requested old where h: "r1 = Inl e" "tpm_of (error_text e) = Tpm limit requested" "limit < requested"
      "output_allowance args = Some old" "requested \<le> old" "0 < reduced_allowance old limit requested" by blast
    let ?a = "set_output_allowance (reduced_allowance old limit requested) args"
    obtain r2 p2 where c2: "completion ?a p1 = (r2, p2)" by fastforce
    have "args' = ?a" "st' = (p2, snd st @ [Requested args, Requested ?a])"
      using assms c c2 h by (auto simp: call_with_tpm_adjustment_def send_def Let_def)
    moreover have "no_more ?a args"
      using output_allowance_set [OF h(4)] h(4) reduced_allowance_less [OF h(3), of old] by (simp add: no_more_def)
    moreover have "arg_service_tier ?a = arg_service_tier args" by (simp add: set_output_allowance_def)
    ultimately show ?thesis by (auto simp: sent_within_def requests_def sleeps_def)
  next
    case False
    then have "args' = args \<and> st' = ?st1"
      using assms c by (auto simp: call_with_tpm_adjustment_def send_def not_le not_less split: sum.splits tpm_report.splits option.splits if_splits)
    with one show ?thesis by (simp add: sleeps_def)
  qed
qed

lemma finish_call_sent:
  assumes "finish_call has_row ((r, args), st) = ((r', args'), st')"
  shows "r' = r" "requests (snd st') = requests (snd st)" "sleeps (snd st') = sleeps (snd st)" "no_more args' args"
  using assms by (auto simp: finish_call_def record_effective_service_tier_def Let_def split: sum.splits)

lemma finished_call_sent:
  assumes "finish_call has_row (call_with_tpm_adjustment completion args st) = ((r, args'), st')"
  shows "sent_within 2 args (snd st) (snd st')" "no_more args' args" "sleeps (snd st') = sleeps (snd st)"
proof -
  obtain r1 a1 s1 where c: "call_with_tpm_adjustment completion args st = ((r1, a1), s1)" by (metis prod.collapse)
  note f = finish_call_sent [OF assms [unfolded c]] and s = call_with_tpm_sent [OF c]
  from f s show "sent_within 2 args (snd st) (snd st')" "sleeps (snd st') = sleeps (snd st)" by (simp_all add: sent_within_def)
  from f(4) s show "no_more args' args" using no_more_trans by blast
qed

lemma flex_attempts_sent:
  "flex_attempts completion has_row delay attempt left args st = ((r, args'), st') \<Longrightarrow>
    sent_within (2 * (left + 2)) args (snd st) (snd st') \<and> no_more args' args"
proof (induction left arbitrary: attempt args st)
  case 0
  obtain r1 a1 s1 where c: "call_with_tpm_adjustment completion args st = ((r1, a1), s1)" by (metis prod.collapse)
  note s = call_with_tpm_sent [OF c]
  show ?case
  proof (cases "\<exists>e. r1 = Inl e \<and> is_tier_retryable e")
    case True
    with 0 c have f: "finish_call has_row (call_with_tpm_adjustment completion (a1\<lparr>arg_service_tier := None\<rparr>) (mark_row has_row Started s1)) = ((r, args'), st')"
      by (auto simp: flex_attempts.simps)
    have "sent_within (2 + 2) args (snd st) (snd st')"
      by (rule sent_within_step [OF conjunct1 [OF s] finished_call_sent(1) [OF f]]) (use s in simp_all)
    with finished_call_sent(2) [OF f] s no_more_trans show ?thesis by auto
  next
    case False
    with 0 c have "finish_call has_row ((r1, a1), s1) = ((r, args'), st')"
      by (cases r1) (auto simp: flex_attempts.simps finish_call_def)
    from finish_call_sent [OF this] s no_more_trans show ?thesis by (force simp: sent_within_def)
  qed
next
  case (Suc left)
  obtain r1 a1 s1 where c: "call_with_tpm_adjustment completion args st = ((r1, a1), s1)" by (metis prod.collapse)
  note s = call_with_tpm_sent [OF c]
  show ?case
  proof (cases "\<exists>e. r1 = Inl e \<and> is_tier_retryable e")
    case True
    let ?s1 = "mark_row has_row (BackingOff (attempt + 1) (delay * 2 ^ attempt)) s1"
    let ?s2 = "mark_row has_row Started (fst ?s1, snd ?s1 @ [Slept (delay * 2 ^ attempt)])"
    from True Suc.prems c have f: "flex_attempts completion has_row delay (attempt + 1) left a1 ?s2 = ((r, args'), st')"
      by (auto simp: flex_attempts.simps [of completion has_row delay attempt "Suc left"] Let_def)
    note ih = Suc.IH [OF f]
    have "sent_within (2 + 2 * (left + 2)) args (snd st) (snd st')"
      by (rule sent_within_step [OF conjunct1 [OF s] conjunct1 [OF ih]]) (use s in simp_all)
    with ih s no_more_trans show ?thesis by auto
  next
    case False
    with Suc.prems c have "finish_call has_row ((r1, a1), s1) = ((r, args'), st')"
      by (cases r1) (auto simp: flex_attempts.simps finish_call_def)
    from finish_call_sent [OF this] s no_more_trans show ?thesis by (force simp: sent_within_def)
  qed
qed

text \<open>C32.  Whatever the provider answers, a call returns after at most two requests for every attempt at the flex tier and
  two for the standard tier, and no request asks for more output than was configured.\<close>

theorem a_call_sends_boundedly_many_requests:
  assumes "call_litellm_with_tier_retry completion (Some retries) base_delay has_row args (p, []) = ((r, args'), p', evs)"
  shows "length (requests evs) \<le> 2 * (nat retries + 1) \<and> (\<forall>a\<in>set (requests evs). no_more a args)"
proof -
  have "sent_within (2 * (nat retries + 1)) args [] evs"
  proof (cases "arg_service_tier args = Some ''flex'' \<and> 0 < retries")
    case True
    then obtain d where "flex_attempts completion has_row d 0 (nat retries - 1) args (p, []) = ((r, args'), p', evs)"
      using assms by (auto simp: call_litellm_with_tier_retry_def Let_def)
    from flex_attempts_sent [OF this] True show ?thesis by (auto simp: sent_within_def)
  next
    case False
    show ?thesis
    proof (cases "arg_service_tier args = Some ''flex''")
      case True
      with False assms show ?thesis by (auto simp: call_litellm_with_tier_retry_def sent_within_def requests_def)
    next
      case False
      with assms have "finish_call has_row (call_with_tpm_adjustment completion args (p, [])) = ((r, args'), p', evs)"
        by (simp add: call_litellm_with_tier_retry_def)
      from finished_call_sent(1) [OF this] show ?thesis by (force simp: sent_within_def)
    qed
  qed
  then show ?thesis
    by (auto simp: sent_within_def requests_def list_all_iff)
qed

section \<open>Falling back to the standard tier\<close>

definition busy_flex :: "'p provider \<Rightarrow> bool" where
  "busy_flex completion \<longleftrightarrow> (\<forall>a p. arg_service_tier a = Some ''flex'' \<longrightarrow>
     (\<exists>e p'. completion a p = (Inl e, p') \<and> is_tier_retryable e \<and> tpm_of (error_text e) = NoTpm))"

definition serves_standard :: "'p provider \<Rightarrow> bool" where
  "serves_standard completion \<longleftrightarrow> (\<forall>a p. arg_service_tier a = None \<longrightarrow> (\<exists>ans p'. completion a p = (Inr ans, p')))"

lemma busy_call:
  assumes "busy_flex completion" "arg_service_tier args = Some ''flex''"
  shows "\<exists>e p'. call_with_tpm_adjustment completion args st = ((Inl e, args), p', snd st @ [Requested args]) \<and> is_tier_retryable e"
proof -
  obtain e p' where "completion args (fst st) = (Inl e, p')" "is_tier_retryable e" "tpm_of (error_text e) = NoTpm"
    using assms unfolding busy_flex_def by blast
  then show ?thesis by (simp add: call_with_tpm_adjustment_def send_def)
qed

lemma served_call:
  assumes "serves_standard completion" "arg_service_tier args = None"
  shows "\<exists>ans p'. call_with_tpm_adjustment completion args st = ((Inr ans, args), p', snd st @ [Requested args])"
proof -
  obtain ans p' where "completion args (fst st) = (Inr ans, p')"
    using assms unfolding serves_standard_def by blast
  then show ?thesis by (simp add: call_with_tpm_adjustment_def send_def)
qed

lemma flex_falls_back:
  assumes "busy_flex completion" "serves_standard completion"
  shows "arg_service_tier args = Some ''flex'' \<Longrightarrow> \<exists>ans args' p' evs'.
    flex_attempts completion has_row delay attempt left args st = ((Inr ans, args'), p', evs') \<and>
    requests evs' = requests (snd st) @ replicate (Suc left) args @ [args\<lparr>arg_service_tier := None\<rparr>] \<and>
    sleeps evs' = sleeps (snd st) @ map (\<lambda>k. delay * 2 ^ k) [attempt..<attempt + left]"
proof (induction left arbitrary: attempt st)
  case 0
  let ?b = "args\<lparr>arg_service_tier := None\<rparr>"
  obtain e p1 where c: "call_with_tpm_adjustment completion args st = ((Inl e, args), p1, snd st @ [Requested args])"
    "is_tier_retryable e" using busy_call [OF assms(1) 0] by blast
  obtain ans p2 where d: "call_with_tpm_adjustment completion ?b (mark_row has_row Started (p1, snd st @ [Requested args])) =
      ((Inr ans, ?b), p2, snd (mark_row has_row Started (p1, snd st @ [Requested args])) @ [Requested ?b])"
    using served_call [OF assms(2), of ?b "mark_row has_row Started (p1, snd st @ [Requested args])"] by auto
  show ?case
    using c d by (auto simp: flex_attempts.simps finish_call_def record_effective_service_tier_def Let_def mark_row_def
        requests_def sleeps_def)
next
  case (Suc left)
  obtain e p1 where c: "call_with_tpm_adjustment completion args st = ((Inl e, args), p1, snd st @ [Requested args])"
    "is_tier_retryable e" using busy_call [OF assms(1) Suc.prems] by blast
  let ?s1 = "mark_row has_row (BackingOff (attempt + 1) (delay * 2 ^ attempt)) (p1, snd st @ [Requested args])"
  let ?s2 = "mark_row has_row Started (fst ?s1, snd ?s1 @ [Slept (delay * 2 ^ attempt)])"
  have f: "flex_attempts completion has_row delay attempt (Suc left) args st = flex_attempts completion has_row delay (attempt + 1) left args ?s2"
    using c by (simp add: flex_attempts.simps [of completion has_row delay attempt "Suc left"] Let_def)
  obtain ans args' p' evs' where r: "flex_attempts completion has_row delay (attempt + 1) left args ?s2 = ((Inr ans, args'), p', evs')"
    "requests evs' = requests (snd ?s2) @ replicate (Suc left) args @ [args\<lparr>arg_service_tier := None\<rparr>]"
    "sleeps evs' = sleeps (snd ?s2) @ map (\<lambda>k. delay * 2 ^ k) [attempt + 1..<attempt + 1 + left]"
    using Suc.IH [OF Suc.prems] by blast
  have "[attempt..<attempt + Suc left] = attempt # [attempt + 1..<attempt + 1 + left]" by (simp add: upt_conv_Cons)
  with f r show ?case by auto
qed

text \<open>While the flex tier is busy and the standard tier answers, a call succeeds: it makes the configured number of
  attempts at the flex tier, with delays that double, and then one request without a tier.\<close>

theorem flex_calls_fall_back_to_the_standard_tier:
  assumes "busy_flex completion" "serves_standard completion" "arg_service_tier args = Some ''flex''" "1 \<le> retries"
  shows "\<exists>ans args' p' evs.
    call_litellm_with_tier_retry completion (Some retries) (Some delay) has_row args (p, []) = ((Inr ans, args'), p', evs) \<and>
    requests evs = replicate (nat retries) args @ [args\<lparr>arg_service_tier := None\<rparr>] \<and>
    sleeps evs = map (\<lambda>k. delay * 2 ^ k) [0..<nat retries - 1]"
proof -
  have n: "Suc (nat retries - 1) = nat retries" using assms(4) by simp
  from flex_falls_back [OF assms(1,2,3), of has_row delay 0 "nat retries - 1" "(p, [])"] assms(3,4)
  show ?thesis unfolding n call_litellm_with_tier_retry_def by (simp add: requests_def sleeps_def)
qed

definition plain_args :: "string option \<Rightarrow> completion_args" where
  "plain_args tier = \<lparr>arg_model = ''gpt-5'', arg_messages = [], arg_max_completion_tokens = Some 4096, arg_max_tokens = None,
     arg_temperature = None, arg_service_tier = tier\<rparr>"

definition busy_provider :: "unit provider" where
  "busy_provider a p = (if arg_service_tier a = Some ''flex'' then (Inl (OtherFault ''busy'' [''503'']), p)
     else (Inr \<lparr>answer_content = Some ''ok'', answer_tier = None\<rparr>, p))"

lemma tpm_report_busy: "tpm_of ''busy'' = NoTpm"
  by code_simp

lemma busy_provider_ok: "busy_flex busy_provider" "serves_standard busy_provider"
  by (simp_all add: busy_flex_def serves_standard_def busy_provider_def tpm_report_busy is_tier_retryable_def Let_def)

theorem flex_calls_fall_back_to_the_standard_tier_witness:
  "\<exists>ans args' p' evs.
    call_litellm_with_tier_retry busy_provider (Some 3) (Some 5) True (plain_args (Some ''flex'')) ((), []) = ((Inr ans, args'), p', evs) \<and>
    requests evs = replicate 3 (plain_args (Some ''flex'')) @ [plain_args None] \<and> sleeps evs = [5, 10]"
  using flex_calls_fall_back_to_the_standard_tier [OF busy_provider_ok, of "plain_args (Some ''flex'')" 3 5 True "()"]
  by (simp add: plain_args_def eval_nat_numeral upt_rec)

theorem a_call_sends_boundedly_many_requests_witness:
  "length (requests (snd (snd (call_litellm_with_tier_retry busy_provider (Some 3) None True (plain_args (Some ''flex'')) ((), []))))) \<le> 8"
proof -
  obtain r args' p' evs where c: "call_litellm_with_tier_retry busy_provider (Some 3) None True (plain_args (Some ''flex'')) ((), []) =
      ((r, args'), p', evs)" by (metis prod.collapse)
  from a_call_sends_boundedly_many_requests [OF c] show ?thesis unfolding c by simp
qed

end
