(* ===== verification/Classifier.thy ===== *)
theory Classifier
  imports ClassifierChunks LlmCalls ModelOutput Cues Boundary RepeatAds
begin

text \<open>
  The classifier on the post store (\<open>src/podcast_processor/ad_classifier.py\<close>): one chunk's model call with its
  retries and row, and the identifications made from a reply.
  The writer is reached and carries its actions out; what litellm answers, pydantic's validation, json, the jinja templates
  and the native sidecar are arguments.
\<close>

section \<open>The classifier's world\<close>

record ad_prediction =
  pr_offset :: real
  pr_confidence :: real

record prediction_list =
  pl_ads :: "ad_prediction list"
  pl_content_type :: "string option"

record classifier_config =
  cc_model :: string
  cc_retries :: int
  cc_output_tokens :: int
  cc_tier :: "string option"
  cc_test_mode :: bool
  cc_min_confidence :: real
  cc_refine :: bool
  cc_repeats :: bool

text \<open>What is outside the repository.\<close>

record 'p classifier_env =
  env_completion :: "'p provider"
  env_model_info :: "string \<Rightarrow> model_info"
  env_priced_flex :: "string \<Rightarrow> bool"
  env_validate :: "string \<Rightarrow> prediction_list option"
  env_loads :: "string \<Rightarrow> string + json"
  env_dumps :: "json \<Rightarrow> string"
  env_str :: "json \<Rightarrow> string"
  env_batch :: "string option"
  env_now :: instant
  env_test_reply :: string
  env_refine_prompt :: "real \<Rightarrow> real \<Rightarrow> real \<Rightarrow> context_segment list \<Rightarrow> string"
  env_confirm_prompt :: "string \<Rightarrow> segment_row list \<Rightarrow> string"
  env_native_repeats :: "int \<Rightarrow> repeat_candidate list option"

record 'p classifier_world =
  cw_db :: media_db
  cw_llm :: "'p \<times> llm_event list"
  cw_waits :: "int list"
  cw_parse_error :: bool

definition on_db :: "(media_db \<Rightarrow> media_db) \<Rightarrow> 'p classifier_world \<Rightarrow> 'p classifier_world" where
  "on_db f w = w\<lparr>cw_db := f (cw_db w)\<rparr>"

definition call_row_of :: "int \<Rightarrow> media_db \<Rightarrow> call_row option" where
  "call_row_of cid db = find (\<lambda>c. mc_id c = cid) (m_calls db)"

section \<open>The model call of a chunk\<close>

definition effective_limit :: "classify_params \<Rightarrow> int option \<Rightarrow> int" where
  "effective_limit cp adaptive = (case token_limits cp adaptive of [] \<Rightarrow> 0 | l # ls \<Rightarrow> fold min ls l)"

definition token_limit_message :: "classify_params \<Rightarrow> int option \<Rightarrow> int \<Rightarrow> string" where
  "token_limit_message cp adaptive cid =
     ''Prompt for ModelCall '' @ int_str cid @ '' exceeds configured token limit of '' @ int_str (effective_limit cp adaptive)
       @ ''. Consider reducing num_segments_to_input_to_prompt.''"

text \<open>The arguments for the call, or the message that is written to the row when the prompt is too long.\<close>

definition prepare_api_call ::
  "'p classifier_env \<Rightarrow> classifier_config \<Rightarrow> classify_params \<Rightarrow> int option \<Rightarrow> call_row \<Rightarrow> string + completion_args" where
  "prepare_api_call env cc cp adaptive row =
     (if (max_input_tokens cp \<noteq> None \<or> adaptive \<noteq> None) \<and> \<not> validate_token_limit cp adaptive (mc_prompt row)
      then Inl (token_limit_message cp adaptive (mc_id row))
      else
        (let new_style = model_uses_max_completion_tokens (mc_model row);
             args = \<lparr>arg_model = mc_model row, arg_messages = [(''system'', system_prompt cp), (''user'', mc_prompt row)],
               arg_max_completion_tokens = (if new_style then Some (cc_output_tokens cc) else None),
               arg_max_tokens = (if new_style then None else Some (cc_output_tokens cc)),
               arg_temperature = None, arg_service_tier = None\<rparr> in
         Inr (apply_service_tier (env_priced_flex env) (cc_tier cc)
                (normalize_completion_args_for_model (env_model_info env) args))))"

definition mark_attempt_pending :: "int \<Rightarrow> call_row \<Rightarrow> call_row" where
  "mark_attempt_pending n c = c\<lparr>mc_status := ''pending'', mc_retries := n\<rparr>"

definition mark_call_failed :: "string \<Rightarrow> string \<Rightarrow> call_row \<Rightarrow> call_row" where
  "mark_call_failed st msg c = c\<lparr>mc_status := st, mc_error := Some msg\<rparr>"

definition mark_success :: "int \<Rightarrow> string \<Rightarrow> call_row \<Rightarrow> call_row" where
  "mark_success n content c =
     c\<lparr>mc_response := Some content, mc_status := ''success'', mc_error := None, mc_retries := n\<rparr>"

definition retry_wait :: "llm_error \<Rightarrow> nat \<Rightarrow> int" where
  "retry_wait e attempt =
     (if list_ex (\<lambda>t. str_in t (py_lower (error_text e))) [''rate_limit_error'', ''ratelimiterror'', ''429'', ''rate limit'']
      then 30 * 2 ^ attempt else 2 ^ attempt)"

definition retry_message :: "int \<Rightarrow> int \<Rightarrow> llm_error \<Rightarrow> string" where
  "retry_message n retry_count e = ''Retrying ('' @ int_str n @ ''/'' @ int_str retry_count @ ''): '' @ error_text e"

text \<open>A reply without content fails an assertion.\<close>

definition assertion_error :: llm_error where
  "assertion_error = OtherFault [] []"

definition content_of :: "llm_error + llm_answer \<Rightarrow> llm_error + string" where
  "content_of r = (case r of Inl e \<Rightarrow> Inl e
     | Inr a \<Rightarrow> (case answer_content a of None \<Rightarrow> Inl assertion_error | Some c \<Rightarrow> Inr c))"

definition complete_call ::
  "'p classifier_env \<Rightarrow> completion_args \<Rightarrow> 'p classifier_world \<Rightarrow> (llm_error + string) \<times> 'p classifier_world" where
  "complete_call env args w =
     (let ((r, args'), llm) = call_litellm_with_tier_retry (env_completion env) None None True args (cw_llm w) in
      (content_of r, w\<lparr>cw_llm := llm\<rparr>))"

datatype call_outcome = Content string | OverTokenLimit | CallRaised llm_error

definition handle_retry_exhausted :: "int \<Rightarrow> int \<Rightarrow> llm_error option \<Rightarrow> 'p classifier_world \<Rightarrow> call_outcome \<times> 'p classifier_world" where
  "handle_retry_exhausted cid retry_count last_error w =
     (case last_error of
        Some e \<Rightarrow> (CallRaised e, on_db (modify_call cid (mark_call_failed ''failed_retries'' (error_text e))) w)
      | None \<Rightarrow>
          (CallRaised (OtherFault (''Maximum retries ('' @ int_str retry_count @ '') exceeded for ModelCall '' @ int_str cid @ ''.'') []),
           on_db (modify_call cid (mark_call_failed ''failed_retries'' (''Maximum retries ('' @ int_str retry_count
             @ '') exceeded without a specific InternalServerError.''))) w))"

text \<open>\<open>left\<close> attempts remain after \<open>attempt\<close> have been made; \<open>row\<close> is the object the call was started with.\<close>

fun call_attempts ::
  "'p classifier_env \<Rightarrow> classifier_config \<Rightarrow> classify_params \<Rightarrow> int option \<Rightarrow> call_row \<Rightarrow> nat \<Rightarrow> nat \<Rightarrow> llm_error option \<Rightarrow>
   'p classifier_world \<Rightarrow> call_outcome \<times> 'p classifier_world" where
  "call_attempts env cc cp adaptive row attempt 0 last_error w = handle_retry_exhausted (mc_id row) (cc_retries cc) last_error w"
| "call_attempts env cc cp adaptive row attempt (Suc left) last_error w =
     (case prepare_api_call env cc cp adaptive row of
        Inl msg \<Rightarrow> (OverTokenLimit, on_db (modify_call (mc_id row) (mark_call_failed ''failed'' msg)) w)
      | Inr args \<Rightarrow>
          (let n = mc_retries row + int attempt + 1;
               (r, w1) = complete_call env args (on_db (modify_call (mc_id row) (mark_attempt_pending n)) w) in
           case r of
             Inr content \<Rightarrow> (Content content, on_db (modify_call (mc_id row) (mark_success n content)) w1)
           | Inl (LLMRequestTooLarge l q) \<Rightarrow>
               (CallRaised (LLMRequestTooLarge l q),
                on_db (modify_call (mc_id row) (mark_call_failed ''failed_permanent'' (error_text (LLMRequestTooLarge l q)))) w1)
           | Inl e \<Rightarrow>
               if is_retryable_error e
               then (if left = 0 then handle_retry_exhausted (mc_id row) (cc_retries cc) (Some e) w1
                     else call_attempts env cc cp adaptive row (attempt + 1) left (Some e)
                       ((on_db (modify_call (mc_id row) (mark_call_failed ''retrying'' (retry_message (int attempt + 1) (cc_retries cc) e))) w1)
                          \<lparr>cw_waits := cw_waits w1 @ [retry_wait e attempt]\<rparr>))
               else (CallRaised e, on_db (modify_call (mc_id row) (mark_call_failed ''failed_permanent'' (error_text e))) w1)))"

declare call_attempts.simps(2) [simp del]

definition call_model ::
  "'p classifier_env \<Rightarrow> classifier_config \<Rightarrow> classify_params \<Rightarrow> int option \<Rightarrow> call_row \<Rightarrow> 'p classifier_world \<Rightarrow>
   call_outcome \<times> 'p classifier_world" where
  "call_model env cc cp adaptive row w = call_attempts env cc cp adaptive row 0 (nat (cc_retries cc)) None w"

definition handle_test_mode_call :: "'p classifier_env \<Rightarrow> call_row \<Rightarrow> 'p classifier_world \<Rightarrow> call_outcome \<times> 'p classifier_world" where
  "handle_test_mode_call env row w =
     (Content (env_test_reply env), on_db (modify_call (mc_id row) (mark_success 1 (env_test_reply env))) w)"

definition perform_llm_call ::
  "'p classifier_env \<Rightarrow> classifier_config \<Rightarrow> classify_params \<Rightarrow> int option \<Rightarrow> call_row \<Rightarrow> 'p classifier_world \<Rightarrow>
   call_outcome \<times> 'p classifier_world" where
  "perform_llm_call env cc cp adaptive row w =
     (if cc_test_mode cc then handle_test_mode_call env row w else call_model env cc cp adaptive row w)"

definition should_call_llm :: "call_row \<Rightarrow> bool" where
  "should_call_llm row \<longleftrightarrow> mc_status row \<notin> {''success'', ''failed_permanent''}"

section \<open>Identifications of a reply\<close>

definition adjust_confidence :: "real \<Rightarrow> string option \<Rightarrow> real" where
  "adjust_confidence base content_type =
     (case content_type of
        None \<Rightarrow> base
      | Some t \<Rightarrow>
          if t \<in> {''educational/self_promo'', ''technical_discussion''} then max 0 (base - 1 / 4)
          else if t = ''transition'' then max 0 (base - 1 / 10) else base)"

fun nearest_segment :: "real \<Rightarrow> (real \<times> segment_row) option \<Rightarrow> segment_row list \<Rightarrow> segment_row option" where
  "nearest_segment offset best [] = map_option snd best"
| "nearest_segment offset best (s # ss) =
     (let diff = \<bar>sg_start s - offset\<bar> in
      nearest_segment offset
        (if (case best of None \<Rightarrow> True | Some (d, _) \<Rightarrow> diff < d) \<and> diff < 1 / 2 then Some (diff, s) else best) ss)"

definition find_matching_segment :: "real \<Rightarrow> segment_row list \<Rightarrow> segment_row option" where
  "find_matching_segment offset chunk = nearest_segment offset None chunk"

definition segment_has_ad_identification :: "media_db \<Rightarrow> int \<Rightarrow> bool" where
  "segment_has_ad_identification db sid = list_ex (\<lambda>i. id_segment i = sid \<and> id_label i = ''ad'') (m_idents db)"

text \<open>What is collected: the rows to insert (segment and confidence), the matched segments, the ids that are done.\<close>

record match_state =
  ms_insert :: "(int \<times> real) list"
  ms_matched :: "segment_row list"
  ms_done :: "int list"

definition preroll_segment :: "media_db \<Rightarrow> real \<Rightarrow> segment_row \<Rightarrow> match_state \<Rightarrow> match_state" where
  "preroll_segment db conf s ms =
     (if sg_id s \<in> set (ms_done ms) \<or> segment_has_ad_identification db (sg_id s) then ms
      else ms\<lparr>ms_done := sg_id s # ms_done ms, ms_matched := ms_matched ms @ [s],
              ms_insert := ms_insert ms @ [(sg_id s, conf)]\<rparr>)"

definition maybe_add_preroll_context ::
  "media_db \<Rightarrow> real \<Rightarrow> segment_row list \<Rightarrow> real \<Rightarrow> segment_row \<Rightarrow> match_state \<Rightarrow> match_state" where
  "maybe_add_preroll_context db min_confidence chunk base matched ms =
     (if 45 < sg_start matched then ms
      else
        (let i = length (takeWhile (\<lambda>s. sg_id s \<noteq> sg_id matched) chunk) in
         fold (preroll_segment db (max base min_confidence)) (drop (i - 3) (take i chunk)) ms))"

definition take_prediction ::
  "media_db \<Rightarrow> real \<Rightarrow> segment_row list \<Rightarrow> string option \<Rightarrow> ad_prediction \<Rightarrow> match_state \<Rightarrow> match_state" where
  "take_prediction db min_confidence chunk content_type pred ms =
     (let conf = adjust_confidence (pr_confidence pred) content_type in
      if conf < min_confidence then ms
      else (case find_matching_segment (pr_offset pred) chunk of
          None \<Rightarrow> ms
        | Some s \<Rightarrow>
            if sg_id s \<in> set (ms_done ms) then ms
            else
              (let ms1 = ms\<lparr>ms_done := sg_id s # ms_done ms, ms_matched := ms_matched ms @ [s]\<rparr> in
               if segment_has_ad_identification db (sg_id s) then ms1
               else maybe_add_preroll_context db min_confidence chunk conf s
                      (ms1\<lparr>ms_insert := ms_insert ms1 @ [(sg_id s, conf)]\<rparr>))))"

definition collect_matches :: "media_db \<Rightarrow> real \<Rightarrow> segment_row list \<Rightarrow> prediction_list \<Rightarrow> match_state" where
  "collect_matches db min_confidence chunk preds =
     fold (take_prediction db min_confidence chunk (pl_content_type preds)) (pl_ads preds)
       \<lparr>ms_insert = [], ms_matched = [], ms_done = []\<rparr>"

definition ident_entry :: "int \<Rightarrow> int \<times> real \<Rightarrow> json" where
  "ident_entry cid p =
     JObj [(''transcript_segment_id'', JNum (of_int (fst p))), (''model_call_id'', JNum (of_int cid)),
           (''label'', JStr ''ad''), (''confidence'', JNum (snd p))]"

text \<open>A row to insert: segment, call, confidence.\<close>

type_synonym entry_row = "int \<times> int \<times> real"

definition row_entry :: "entry_row \<Rightarrow> json" where
  "row_entry r = ident_entry (fst (snd r)) (fst r, snd (snd r))"

text \<open>Batches go to the writer one after the other; a failure raises.  \<open>insert_entries\<close> shows that the entries built
  here are never refused.\<close>

fun insert_ident_batches :: "'p classifier_env \<Rightarrow> json list list \<Rightarrow> nat \<Rightarrow> media_db \<Rightarrow> store_error + nat \<times> media_db" where
  "insert_ident_batches env [] n db = Inr (n, db)"
| "insert_ident_batches env (b # bs) n db =
     (case insert_identifications_action (env_str env) (env_batch env) (JList b) db of
        Inl e \<Rightarrow> Inl e
      | Inr (k, db') \<Rightarrow> insert_ident_batches env bs (n + k) db')"

definition insert_identifications_batched :: "'p classifier_env \<Rightarrow> json list \<Rightarrow> media_db \<Rightarrow> store_error + nat \<times> media_db" where
  "insert_identifications_batched env entries db =
     insert_ident_batches env (batched (nat (get_writer_batch_size (env_batch env))) entries) 0 db"

definition create_identifications ::
  "'p classifier_env \<Rightarrow> classifier_config \<Rightarrow> prediction_list \<Rightarrow> segment_row list \<Rightarrow> int \<Rightarrow> media_db \<Rightarrow>
   store_error + segment_row list \<times> media_db" where
  "create_identifications env cc preds chunk cid db =
     (let ms = collect_matches db (cc_min_confidence cc) chunk preds in
      if ms_insert ms = [] then Inr (ms_matched ms, db)
      else (case insert_identifications_batched env (map (ident_entry cid) (ms_insert ms)) db of
          Inl e \<Rightarrow> Inl e
        | Inr (n, db') \<Rightarrow> Inr (ms_matched ms, db')))"

section \<open>One chunk\<close>

definition loads_option :: "'p classifier_env \<Rightarrow> string \<Rightarrow> json option" where
  "loads_option env s = (case env_loads env s of Inl e \<Rightarrow> None | Inr v \<Rightarrow> Some v)"

definition process_successful_response ::
  "'p classifier_env \<Rightarrow> classifier_config \<Rightarrow> string \<Rightarrow> int \<Rightarrow> segment_row list \<Rightarrow> 'p classifier_world \<Rightarrow>
   chunk_outcome \<times> 'p classifier_world" where
  "process_successful_response env cc response cid chunk w =
     (case clean_and_parse_model_output (env_validate env) (loads_option env) (env_dumps env) response of
        Inl e \<Rightarrow> (Identified [], w\<lparr>cw_parse_error := True\<rparr>)
      | Inr preds \<Rightarrow>
          (case create_identifications env cc preds chunk cid (cw_db w) of
             Inl e \<Rightarrow> (ChunkRaised ''Failed to insert identifications'', w)
           | Inr (matched, db) \<Rightarrow> (Identified matched, w\<lparr>cw_db := db\<rparr>)))"

definition raised_chunk :: "llm_error \<Rightarrow> chunk_outcome" where
  "raised_chunk e = (case e of LLMRequestTooLarge l q \<Rightarrow> RequestTooLarge l q | _ \<Rightarrow> ChunkRaised (error_text e))"

text \<open>After the call, the row decides.\<close>

definition use_response ::
  "'p classifier_env \<Rightarrow> classifier_config \<Rightarrow> int \<Rightarrow> segment_row list \<Rightarrow> 'p classifier_world \<Rightarrow> chunk_outcome \<times> 'p classifier_world" where
  "use_response env cc cid chunk w =
     (case call_row_of cid (cw_db w) of
        None \<Rightarrow> (Identified [], w)
      | Some row \<Rightarrow>
          (case mc_response row of
             Some r \<Rightarrow> if mc_status row = ''success'' \<and> r \<noteq> [] then process_successful_response env cc r cid chunk w
                       else (Identified [], w)
           | None \<Rightarrow> (Identified [], w)))"

definition process_chunk ::
  "'p classifier_env \<Rightarrow> classifier_config \<Rightarrow> classify_params \<Rightarrow> int \<Rightarrow> 'p classifier_world processor" where
  "process_chunk env cc cp post adaptive chunk prompt w =
     (if chunk = [] then (Identified [], w)
      else (case upsert_model_call_action (Some post) (Some (cc_model cc)) (Some (sg_num (hd chunk))) (Some (sg_num (last chunk)))
                   (Some prompt) (env_now env) (cw_db w) of
          Inl e \<Rightarrow> (ChunkRaised ''Failed to upsert ModelCall'', w)
        | Inr (cid, db) \<Rightarrow>
            (let w1 = w\<lparr>cw_db := db\<rparr> in
             case call_row_of cid db of
               None \<Rightarrow> (ChunkRaised ''ModelCall not found after upsert'', w1)
             | Some row \<Rightarrow>
                 if should_call_llm row
                 then (case perform_llm_call env cc cp adaptive row w1 of
                     (CallRaised e, w2) \<Rightarrow> (raised_chunk e, w2)
                   | (_, w2) \<Rightarrow> use_response env cc cid chunk w2)
                 else (case from_message (mc_error row) of
                     Inl e \<Rightarrow> (raised_chunk e, w1)
                   | Inr (Some e) \<Rightarrow> (raised_chunk e, w1)
                   | Inr None \<Rightarrow> use_response env cc cid chunk w1))))"

section \<open>Insertions\<close>

definition ident_of :: "entry_row \<Rightarrow> ident_row" where
  "ident_of r = \<lparr>id_id = 0, id_segment = fst r, id_call = fst (snd r), id_label = ''ad'', id_confidence = JNum (snd (snd r))\<rparr>"

lemma ident_payload_entry: "ident_payload str_of (row_entry r) = Inr (Some (ident_of r))"
  by (simp add: ident_payload_def row_entry_def ident_entry_def obj_get_def ident_of_def as_text_def)

lemma collect_entries: "collect_kept (ident_payload str_of) (map row_entry rs) = Inr (map ident_of rs)"
  by (induction rs) (simp_all add: ident_payload_entry)

lemma snd_fold_insert_ident: "snd (fold insert_ident is (n, t)) = snd (fold insert_ident is (m, t))"
proof (induction "is" arbitrary: n m t)
  case (Cons i "is")
  have "snd (insert_ident i (n, t)) = snd (insert_ident i (m, t))" by (simp add: insert_ident_def)
  with Cons.IH show ?case by (metis fold_simps(2) prod.collapse)
qed simp

definition add_rows :: "entry_row list \<Rightarrow> media_db \<Rightarrow> media_db" where
  "add_rows rs db = db\<lparr>m_idents := snd (fold insert_ident (map ident_of rs) (0, m_idents db))\<rparr>"

lemma add_rows_append: "add_rows (rs @ qs) db = add_rows qs (add_rows rs db)"
  by (simp add: add_rows_def) (metis prod.collapse snd_fold_insert_ident)

lemma insert_identifications_entries:
  "\<exists>n. insert_identifications_action str_of e (JList (map row_entry rs)) db = Inr (n, add_rows rs db)"
  by (simp add: insert_identifications_action_def collect_entries fold_fold_concat concat_batched add_rows_def Let_def)

lemma insert_ident_batches_entries:
  "\<exists>k. insert_ident_batches env (map (map row_entry) bs) n db = Inr (k, add_rows (concat bs) db)"
proof (induction bs arbitrary: n db)
  case Nil
  show ?case by (simp add: add_rows_def)
next
  case (Cons b bs)
  obtain m where "insert_identifications_action (env_str env) (env_batch env) (JList (map row_entry b)) db = Inr (m, add_rows b db)"
    using insert_identifications_entries by blast
  then show ?case using Cons.IH [of "n + m" "add_rows b db"] by (simp add: add_rows_append)
qed

lemma batched_map: "batched n (map f xs) = map (map f) (batched n xs)"
proof (induction n xs rule: batched.induct)
  case (1 n xs)
  show ?case
  proof (cases "xs = [] \<or> n = 0")
    case True
    then show ?thesis by (subst (1 2) batched.simps) auto
  next
    case False
    then have "batched n (map f xs) = map f (take n xs) # batched n (map f (drop n xs))"
      by (subst batched.simps) (simp add: take_map drop_map)
    also have "\<dots> = map (map f) (take n xs # batched n (drop n xs))" using 1 False by simp
    also have "take n xs # batched n (drop n xs) = batched n xs" using False by (subst (2) batched.simps) simp
    finally show ?thesis .
  qed
qed

lemma insert_entries: "\<exists>n. insert_identifications_batched env (map row_entry rs) db = Inr (n, add_rows rs db)"
  using insert_ident_batches_entries [of env "batched (nat (get_writer_batch_size (env_batch env))) rs" 0 db]
    concat_batched [of "env_batch env" rs]
  by (simp add: insert_identifications_batched_def batched_map)

lemma insert_entries_of_call:
  "\<exists>n. insert_identifications_batched env (map (ident_entry cid) ps) db = Inr (n, add_rows (map (\<lambda>(s, c). (s, cid, c)) ps) db)"
proof -
  have "map (ident_entry cid) ps = map row_entry (map (\<lambda>(s, c). (s, cid, c)) ps)" by (auto simp: row_entry_def)
  then show ?thesis using insert_entries by metis
qed

lemma add_rows_tables [simp]:
  "m_segments (add_rows rs db) = m_segments db" "m_calls (add_rows rs db) = m_calls db" "m_posts (add_rows rs db) = m_posts db"
  by (simp_all add: add_rows_def)

lemma has_ad_mono_ident: "list_ex P (snd t) \<Longrightarrow> list_ex P (snd (insert_ident i t))"
  by (auto simp: insert_ident_def)

lemma has_ad_mono: "list_ex P (snd t) \<Longrightarrow> list_ex P (snd (fold insert_ident is t))"
  by (induction "is" arbitrary: t) (simp_all add: has_ad_mono_ident)

lemma has_ad_new:
  "i \<in> set is \<Longrightarrow> id_label i = ''ad'' \<Longrightarrow> list_ex (\<lambda>r. id_segment r = id_segment i \<and> id_label r = ''ad'') (snd (fold insert_ident is t))"
proof (induction "is" arbitrary: t)
  case (Cons j "is")
  show ?case
  proof (cases "i = j")
    case True
    have "list_ex (\<lambda>r. id_segment r = id_segment i \<and> id_label r = ''ad'') (snd (insert_ident i t))"
      using Cons.prems(2) by (auto simp: insert_ident_def list_ex_iff)
    with True show ?thesis by (simp add: has_ad_mono)
  next
    case False
    with Cons show ?thesis by simp
  qed
qed simp

lemma segment_has_ad_add_rows:
  "segment_has_ad_identification db sid \<or> sid \<in> fst ` set rs \<Longrightarrow> segment_has_ad_identification (add_rows rs db) sid"
proof (elim disjE)
  assume "segment_has_ad_identification db sid"
  then show ?thesis by (simp add: segment_has_ad_identification_def add_rows_def has_ad_mono)
next
  assume "sid \<in> fst ` set rs"
  then obtain r where "r \<in> set rs" "sid = fst r" by blast
  then show ?thesis
    using has_ad_new [of "ident_of r" "map ident_of rs" "(0, m_idents db)"]
    by (simp add: segment_has_ad_identification_def add_rows_def ident_of_def)
qed

section \<open>Every confident prediction marks its segment\<close>

lemma nearest_segment_Some:
  assumes "nearest_segment x best ss = Some s"
    and "case best of None \<Rightarrow> True | Some (d, b) \<Rightarrow> d = \<bar>sg_start b - x\<bar> \<and> d < 1 / 2"
  shows "(s \<in> set ss \<or> (\<exists>d. best = Some (d, s))) \<and> (\<forall>t\<in>set ss. \<bar>sg_start s - x\<bar> \<le> \<bar>sg_start t - x\<bar>) \<and>
    \<bar>sg_start s - x\<bar> < 1 / 2 \<and> (case best of None \<Rightarrow> True | Some (d, b) \<Rightarrow> \<bar>sg_start s - x\<bar> \<le> d)"
  using assms
proof (induction ss arbitrary: best)
  case Nil
  then show ?case by (auto split: option.splits)
next
  case (Cons t ss)
  let ?d = "\<bar>sg_start t - x\<bar>"
  define best' where "best' = (if (case best of None \<Rightarrow> True | Some (d, _) \<Rightarrow> ?d < d) \<and> ?d < 1 / 2 then Some (?d, t) else best)"
  have inv: "case best' of None \<Rightarrow> True | Some (d, b) \<Rightarrow> d = \<bar>sg_start b - x\<bar> \<and> d < 1 / 2"
    using Cons.prems(2) by (auto simp: best'_def split: option.splits)
  have "nearest_segment x best' ss = Some s" using Cons.prems(1) by (simp add: Let_def best'_def)
  note ih = Cons.IH [OF this inv]
  show ?case
  proof (cases "best' = best")
    case True
    with ih have s: "\<bar>sg_start s - x\<bar> < 1 / 2" "case best of None \<Rightarrow> True | Some (d, b) \<Rightarrow> \<bar>sg_start s - x\<bar> \<le> d" by auto
    have "\<bar>sg_start s - x\<bar> \<le> ?d"
    proof (cases "best = Some (?d, t)")
      case True
      with s(2) show ?thesis by simp
    next
      case False
      with True have "\<not> ((case best of None \<Rightarrow> True | Some (d, _) \<Rightarrow> ?d < d) \<and> ?d < 1 / 2)"
        unfolding best'_def by metis
      with s show ?thesis by (cases best) auto
    qed
    with ih True show ?thesis by auto
  next
    case False
    then have b: "best' = Some (?d, t)" "case best of None \<Rightarrow> True | Some (d, _) \<Rightarrow> ?d < d"
      by (auto simp: best'_def split: if_splits)
    with ih have *: "\<bar>sg_start s - x\<bar> \<le> ?d" by simp
    with b(2) have "case best of None \<Rightarrow> True | Some (d, _) \<Rightarrow> \<bar>sg_start s - x\<bar> \<le> d"
      by (cases best) auto
    with ih b(1) * show ?thesis by auto
  qed
qed

lemma nearest_segment_exists:
  "t \<in> set ss \<Longrightarrow> \<bar>sg_start t - x\<bar> < 1 / 2 \<Longrightarrow> nearest_segment x best ss \<noteq> None"
  "nearest_segment x (Some db) ss \<noteq> None"
proof -
  show some: "nearest_segment x (Some db) ss \<noteq> None" for db ss
    by (induction ss arbitrary: db) (simp_all add: Let_def)
  show "t \<in> set ss \<Longrightarrow> \<bar>sg_start t - x\<bar> < 1 / 2 \<Longrightarrow> nearest_segment x best ss \<noteq> None"
  proof (induction ss arbitrary: best)
    case (Cons u us)
    show ?case
    proof (cases "t = u")
      case True
      with Cons.prems(2) some show ?thesis by (cases best) (simp_all add: Let_def)
    next
      case False
      with Cons show ?thesis by (simp add: Let_def)
    qed
  qed simp
qed

lemma find_matching_segment_nearest:
  assumes "t \<in> set chunk" "\<bar>sg_start t - x\<bar> < 1 / 2"
  shows "\<exists>s\<in>set chunk. find_matching_segment x chunk = Some s \<and> (\<forall>u\<in>set chunk. \<bar>sg_start s - x\<bar> \<le> \<bar>sg_start u - x\<bar>)"
proof -
  obtain s where s: "nearest_segment x None chunk = Some s" using nearest_segment_exists(1) [OF assms] by blast
  from nearest_segment_Some [OF s] s show ?thesis by (auto simp: find_matching_segment_def)
qed

text \<open>The invariant of the collection: what is matched is in the chunk and done, and what is done is an ad already or
  will be inserted.\<close>

definition match_ok :: "media_db \<Rightarrow> segment_row list \<Rightarrow> match_state \<Rightarrow> bool" where
  "match_ok db chunk ms \<longleftrightarrow>
     set (ms_matched ms) \<subseteq> set chunk \<and> sg_id ` set (ms_matched ms) = set (ms_done ms) \<and>
     fst ` set (ms_insert ms) \<subseteq> set (ms_done ms) \<and> distinct (map fst (ms_insert ms)) \<and> distinct (ms_done ms) \<and>
     (\<forall>i\<in>set (ms_done ms). segment_has_ad_identification db i \<or> i \<in> fst ` set (ms_insert ms)) \<and>
     (\<forall>i\<in>fst ` set (ms_insert ms). \<not> segment_has_ad_identification db i)"

definition more_done :: "match_state \<Rightarrow> match_state \<Rightarrow> bool" where
  "more_done ms ms' \<longleftrightarrow> set (ms_done ms) \<subseteq> set (ms_done ms') \<and> set (ms_matched ms) \<subseteq> set (ms_matched ms')"

lemma more_done_refl: "more_done ms ms" and more_done_trans: "more_done a b \<Longrightarrow> more_done b c \<Longrightarrow> more_done a c"
  by (auto simp: more_done_def)

lemma preroll_segment_ok:
  assumes "match_ok db chunk ms" "s \<in> set chunk"
  shows "match_ok db chunk (preroll_segment db c s ms) \<and> more_done ms (preroll_segment db c s ms)"
  using assms by (auto simp: match_ok_def preroll_segment_def more_done_def)

lemma fold_match_ok:
  assumes "\<And>x ms. x \<in> set xs \<Longrightarrow> match_ok db chunk ms \<Longrightarrow> match_ok db chunk (f x ms) \<and> more_done ms (f x ms)"
    and "match_ok db chunk ms"
  shows "match_ok db chunk (fold f xs ms) \<and> more_done ms (fold f xs ms)"
  using assms
proof (induction xs arbitrary: ms)
  case Nil
  then show ?case by (simp add: more_done_refl)
next
  case (Cons x xs)
  have x: "match_ok db chunk (f x ms)" "more_done ms (f x ms)" using Cons.prems by auto
  have "match_ok db chunk (fold f xs (f x ms)) \<and> more_done (f x ms) (fold f xs (f x ms))"
    by (rule Cons.IH [OF _ x(1)]) (use Cons.prems(1) in auto)
  with x(2) more_done_trans show ?case by auto
qed

lemma maybe_add_preroll_ok:
  assumes "match_ok db chunk ms"
  shows "match_ok db chunk (maybe_add_preroll_context db mc chunk base s ms) \<and> more_done ms (maybe_add_preroll_context db mc chunk base s ms)"
proof (cases "45 < sg_start s")
  case True
  with assms show ?thesis by (simp add: maybe_add_preroll_context_def more_done_refl)
next
  case False
  let ?i = "length (takeWhile (\<lambda>u. sg_id u \<noteq> sg_id s) chunk)"
  have "set (drop (?i - 3) (take ?i chunk)) \<subseteq> set chunk"
    using set_drop_subset [of "?i - 3" "take ?i chunk"] set_take_subset [of ?i chunk] by blast
  then have "match_ok db chunk (fold (preroll_segment db (max base mc)) (drop (?i - 3) (take ?i chunk)) ms) \<and>
      more_done ms (fold (preroll_segment db (max base mc)) (drop (?i - 3) (take ?i chunk)) ms)"
    by (intro fold_match_ok preroll_segment_ok assms) auto
  with False show ?thesis by (simp add: maybe_add_preroll_context_def Let_def)
qed

lemma find_matching_segment_mem: "find_matching_segment x chunk = Some s \<Longrightarrow> s \<in> set chunk"
  using nearest_segment_Some [of x None chunk s] by (auto simp: find_matching_segment_def)

lemma take_prediction_ok:
  assumes "match_ok db chunk ms"
  shows "match_ok db chunk (take_prediction db mc chunk ct pred ms) \<and> more_done ms (take_prediction db mc chunk ct pred ms)"
    "mc \<le> adjust_confidence (pr_confidence pred) ct \<Longrightarrow> find_matching_segment (pr_offset pred) chunk = Some s \<Longrightarrow>
      sg_id s \<in> set (ms_done (take_prediction db mc chunk ct pred ms))"
proof -
  let ?c = "adjust_confidence (pr_confidence pred) ct"
  show "match_ok db chunk (take_prediction db mc chunk ct pred ms) \<and> more_done ms (take_prediction db mc chunk ct pred ms)"
  proof (cases "mc \<le> ?c \<and> (\<exists>s. find_matching_segment (pr_offset pred) chunk = Some s \<and> sg_id s \<notin> set (ms_done ms))")
    case True
    then obtain s where s: "find_matching_segment (pr_offset pred) chunk = Some s" "sg_id s \<notin> set (ms_done ms)" "mc \<le> ?c" by blast
    let ?m1 = "ms\<lparr>ms_done := sg_id s # ms_done ms, ms_matched := ms_matched ms @ [s]\<rparr>"
    let ?m2 = "?m1\<lparr>ms_insert := ms_insert ?m1 @ [(sg_id s, ?c)]\<rparr>"
    have "more_done ms ?m1" "more_done ms ?m2" by (auto simp: more_done_def)
    moreover have "segment_has_ad_identification db (sg_id s) \<Longrightarrow> match_ok db chunk ?m1"
      "\<not> segment_has_ad_identification db (sg_id s) \<Longrightarrow> match_ok db chunk ?m2"
      using assms s find_matching_segment_mem [OF s(1)] by (auto simp: match_ok_def)
    ultimately show ?thesis
      using s maybe_add_preroll_ok [of db chunk ?m2 mc ?c s] more_done_trans [of ms ?m2]
      by (simp add: take_prediction_def Let_def)
  next
    case False
    then have "take_prediction db mc chunk ct pred ms = ms"
      by (auto simp: take_prediction_def Let_def not_le split: option.splits)
    with assms show ?thesis by (simp add: more_done_refl)
  qed
  assume h: "mc \<le> ?c" "find_matching_segment (pr_offset pred) chunk = Some s"
  show "sg_id s \<in> set (ms_done (take_prediction db mc chunk ct pred ms))"
  proof (cases "sg_id s \<in> set (ms_done ms) \<or> segment_has_ad_identification db (sg_id s)")
    case True
    with h show ?thesis by (auto simp: take_prediction_def Let_def)
  next
    case False
    let ?m1 = "ms\<lparr>ms_done := sg_id s # ms_done ms, ms_matched := ms_matched ms @ [s]\<rparr>"
    let ?m2 = "?m1\<lparr>ms_insert := ms_insert ?m1 @ [(sg_id s, ?c)]\<rparr>"
    have "match_ok db chunk ?m2" using assms h False find_matching_segment_mem [OF h(2)] by (auto simp: match_ok_def)
    from maybe_add_preroll_ok [OF this, of mc ?c s] have "sg_id s \<in> set (ms_done (maybe_add_preroll_context db mc chunk ?c s ?m2))"
      by (auto simp: more_done_def)
    with h False show ?thesis by (simp add: take_prediction_def Let_def)
  qed
qed

lemma match_ok_start: "match_ok db chunk \<lparr>ms_insert = [], ms_matched = [], ms_done = []\<rparr>"
  by (simp add: match_ok_def)

lemma fold_predictions_ok:
  assumes "match_ok db chunk ms"
  shows "match_ok db chunk (fold (take_prediction db mc chunk ct) ps ms) \<and> more_done ms (fold (take_prediction db mc chunk ct) ps ms)"
  by (intro fold_match_ok take_prediction_ok(1) assms)

lemma collect_matches_ok: "match_ok db chunk (collect_matches db mc chunk preds)"
  unfolding collect_matches_def using fold_predictions_ok [OF match_ok_start] by blast

lemma collect_matches_done:
  assumes "p \<in> set (pl_ads preds)" "mc \<le> adjust_confidence (pr_confidence p) (pl_content_type preds)"
    and "find_matching_segment (pr_offset p) chunk = Some s"
  shows "sg_id s \<in> set (ms_done (collect_matches db mc chunk preds))"
proof -
  let ?f = "take_prediction db mc chunk (pl_content_type preds)"
  obtain xs ys where ps: "pl_ads preds = xs @ p # ys" using assms(1) by (meson split_list)
  let ?m = "fold ?f xs \<lparr>ms_insert = [], ms_matched = [], ms_done = []\<rparr>"
  have ok: "match_ok db chunk ?m" using fold_predictions_ok [OF match_ok_start] by blast
  have "sg_id s \<in> set (ms_done (?f p ?m))" using take_prediction_ok(2) [OF ok assms(2,3)] .
  moreover have "more_done (?f p ?m) (fold ?f ys (?f p ?m))"
    using fold_predictions_ok take_prediction_ok(1) [OF ok] by blast
  ultimately show ?thesis by (auto simp: collect_matches_def ps more_done_def)
qed

lemma create_identifications_result:
  assumes "create_identifications env cc preds chunk cid db = r"
  shows "r = Inr (ms_matched (collect_matches db (cc_min_confidence cc) chunk preds),
    add_rows (map (\<lambda>(s, c). (s, cid, c)) (ms_insert (collect_matches db (cc_min_confidence cc) chunk preds))) db)"
proof -
  let ?ms = "collect_matches db (cc_min_confidence cc) chunk preds"
  obtain n where n: "insert_identifications_batched env (map (ident_entry cid) (ms_insert ?ms)) db =
      Inr (n, add_rows (map (\<lambda>(s, c). (s, cid, c)) (ms_insert ?ms)) db)" using insert_entries_of_call by blast
  show ?thesis
  proof (cases "ms_insert ?ms = []")
    case True
    then have "r = Inr (ms_matched ?ms, db)" using assms by (simp add: create_identifications_def Let_def)
    moreover have "add_rows [] db = db" by (simp add: add_rows_def)
    ultimately show ?thesis using True by simp
  next
    case False
    with assms n show ?thesis by (simp add: create_identifications_def Let_def)
  qed
qed

text \<open>C19.  A prediction whose adjusted confidence suffices, with a segment of the chunk less than half a second from its offset,
  marks the segment of the chunk that starts nearest: the writer never refuses the rows, and that segment is
  identified as an ad afterwards.\<close>

theorem confident_predictions_mark_their_segment:
  assumes "p \<in> set (pl_ads preds)"
    and "cc_min_confidence cc \<le> adjust_confidence (pr_confidence p) (pl_content_type preds)"
    and "t \<in> set chunk" "\<bar>sg_start t - pr_offset p\<bar> < 1 / 2" "distinct (map sg_id chunk)"
  shows "\<exists>matched db' s. create_identifications env cc preds chunk cid db = Inr (matched, db') \<and> s \<in> set matched \<inter> set chunk \<and>
    segment_has_ad_identification db' (sg_id s) \<and>
    (\<forall>u\<in>set chunk. \<bar>sg_start s - pr_offset p\<bar> \<le> \<bar>sg_start u - pr_offset p\<bar>)"
proof -
  let ?ms = "collect_matches db (cc_min_confidence cc) chunk preds"
  let ?db = "add_rows (map (\<lambda>(s, c). (s, cid, c)) (ms_insert ?ms)) db"
  from find_matching_segment_nearest [OF assms(3,4)] obtain s where s: "find_matching_segment (pr_offset p) chunk = Some s"
    "\<forall>u\<in>set chunk. \<bar>sg_start s - pr_offset p\<bar> \<le> \<bar>sg_start u - pr_offset p\<bar>" by blast
  have ok: "match_ok db chunk ?ms" by (rule collect_matches_ok)
  have d: "sg_id s \<in> set (ms_done ?ms)" by (rule collect_matches_done [OF assms(1,2) s(1)])
  have "segment_has_ad_identification ?db (sg_id s)"
    using ok d by (intro segment_has_ad_add_rows) (force simp: match_ok_def)
  moreover have "s \<in> set (ms_matched ?ms)"
  proof -
    have "sg_id s \<in> sg_id ` set (ms_matched ?ms)" using ok d by (simp add: match_ok_def)
    then obtain m where m: "m \<in> set (ms_matched ?ms)" "sg_id m = sg_id s" by auto
    then have "m \<in> set chunk" using ok by (auto simp: match_ok_def)
    then have "m = s" using m(2) assms(5) find_matching_segment_mem [OF s(1)] by (auto simp: distinct_map dest: inj_onD)
    with m show ?thesis by simp
  qed
  ultimately show ?thesis
    using s(2) find_matching_segment_mem [OF s(1)] create_identifications_result [OF refl, of env cc preds chunk cid db] by blast
qed

section \<open>A failed call keeps its prompt\<close>

lemma call_row_of_modify:
  assumes "\<And>r. mc_id (f r) = mc_id r"
  shows "call_row_of i (modify_call c f db) = (if i = c then map_option f (call_row_of i db) else call_row_of i db)"
proof -
  have "find (\<lambda>r. mc_id r = i) (map (\<lambda>r. if mc_id r = c then f r else r) rs) =
      (if i = c then map_option f (find (\<lambda>r. mc_id r = i) rs) else find (\<lambda>r. mc_id r = i) rs)" for rs
    using assms by (induction rs) auto
  then show ?thesis by (simp add: call_row_of_def modify_call_def)
qed

lemma call_row_of_Some: "call_row_of i db = Some r \<Longrightarrow> r \<in> set (m_calls db) \<and> mc_id r = i"
  by (auto simp: call_row_of_def find_Some_iff)

lemma call_row_of_mem: "r \<in> set (m_calls db) \<Longrightarrow> distinct (map mc_id (m_calls db)) \<Longrightarrow> call_row_of (mc_id r) db = Some r"
proof -
  have "r \<in> set rs \<Longrightarrow> distinct (map mc_id rs) \<Longrightarrow> find (\<lambda>c. mc_id c = mc_id r) rs = Some r" for rs
    by (induction rs) (auto simp: image_iff)
  then show "r \<in> set (m_calls db) \<Longrightarrow> distinct (map mc_id (m_calls db)) \<Longrightarrow> call_row_of (mc_id r) db = Some r"
    by (simp add: call_row_of_def)
qed

lemma query_call_unique:
  assumes "r \<in> set (m_calls db)" "distinct (map key_of (m_calls db))"
  shows "query_call (key_of r) db = Some r"
proof -
  have "filter (\<lambda>c. key_of c = key_of r) rs = [r]" if "r \<in> set rs" "distinct (map key_of rs)" for rs
    using that
  proof (induction rs)
    case (Cons c rs)
    show ?case
    proof (cases "c = r")
      case True
      with Cons.prems(2) have "filter (\<lambda>c. key_of c = key_of r) rs = []" by (auto simp: filter_empty_conv image_iff)
      with True show ?thesis by simp
    next
      case False
      with Cons have "key_of c \<noteq> key_of r" by (auto simp: image_iff)
      with Cons False show ?thesis by auto
    qed
  qed simp
  with assms show ?thesis by (simp add: query_call_def)
qed

lemma upsert_existing:
  assumes "r \<in> set (m_calls db)" "distinct (map key_of (m_calls db))" "key_of r = (p, m, f, l)" "prompt \<noteq> []"
  shows "upsert_model_call_action (Some p) (Some m) (Some f) (Some l) (Some prompt) now db =
    Inr (mc_id r, modify_call (mc_id r) (reset_call prompt) db)"
  using query_call_unique [OF assms(1,2)] assms(3,4)
  by (simp add: upsert_model_call_action_def get_or_insert_call_def)

lemma reset_call_id [simp]: "mc_id (reset_call prompt r) = mc_id r"
  by (simp add: reset_call_def)

text \<open>Only some statuses are reset when a chunk is processed again, and \<open>failed\<close>, which a prompt over the token limit
  leaves behind, is not among them.  The row keeps its old prompt, the limit is checked on that one, and as long as it is
  too long the chunk is left without identifications, without a request and without an error, however short the prompt
  that is built for it now.\<close>

theorem failed_call_keeps_its_prompt:
  assumes "r \<in> set (m_calls (cw_db w))" "distinct (map key_of (m_calls (cw_db w)))" "distinct (map mc_id (m_calls (cw_db w)))"
    and "key_of r = (post, cc_model cc, sg_num (hd chunk), sg_num (last chunk))" "mc_status r = ''failed''"
    and "too_long cp adaptive (mc_prompt r)" "\<not> cc_test_mode cc" "0 < cc_retries cc" "chunk \<noteq> []" "prompt \<noteq> []"
  shows "\<exists>w'. process_chunk env cc cp post adaptive chunk prompt w = (Identified [], w') \<and>
    cw_llm w' = cw_llm w \<and> m_idents (cw_db w') = m_idents (cw_db w) \<and>
    (\<exists>r'. call_row_of (mc_id r) (cw_db w') = Some r' \<and> mc_status r' = ''failed'' \<and> mc_prompt r' = mc_prompt r)"
proof -
  let ?db = "modify_call (mc_id r) (reset_call prompt) (cw_db w)"
  have up: "upsert_model_call_action (Some post) (Some (cc_model cc)) (Some (sg_num (hd chunk))) (Some (sg_num (last chunk)))
      (Some prompt) (env_now env) (cw_db w) = Inr (mc_id r, ?db)"
    by (rule upsert_existing [OF assms(1,2,4,10)])
  have row: "call_row_of (mc_id r) ?db = Some r"
    using call_row_of_mem [OF assms(1,3)] assms(5) by (simp add: call_row_of_modify reset_call_def)
  have lim: "max_input_tokens cp \<noteq> None \<or> adaptive \<noteq> None"
    using no_limits [of cp adaptive "mc_prompt r"] assms(6) by blast
  let ?w1 = "w\<lparr>cw_db := ?db\<rparr>" and ?f = "mark_call_failed ''failed'' (token_limit_message cp adaptive (mc_id r))"
  obtain n where n: "nat (cc_retries cc) = Suc n" using assms(8) by (metis gr0_implies_Suc zero_less_nat_eq)
  have "perform_llm_call env cc cp adaptive r ?w1 = (OverTokenLimit, on_db (modify_call (mc_id r) ?f) ?w1)"
    using assms(6,7) lim n
    by (simp add: perform_llm_call_def call_model_def call_attempts.simps(2) prepare_api_call_def validate_token_limit_iff)
  moreover have row': "call_row_of (mc_id r) (modify_call (mc_id r) ?f ?db) = Some (?f r)"
    by (subst call_row_of_modify) (simp_all add: mark_call_failed_def row)
  ultimately have "process_chunk env cc cp post adaptive chunk prompt w = (Identified [], on_db (modify_call (mc_id r) ?f) ?w1)"
    using up row assms(5,9)
    by (simp add: process_chunk_def Let_def should_call_llm_def use_response_def on_db_def mark_call_failed_def split: option.splits)
  with row' assms(5) show ?thesis by (simp add: on_db_def mark_call_failed_def)
qed

section \<open>The row of a call tells how it ended\<close>

definition unreduced :: "llm_error \<Rightarrow> bool" where
  "unreduced e \<longleftrightarrow> (\<forall>l q. e \<noteq> LLMRequestTooLarge l q)"

definition ended_as :: "call_outcome \<Rightarrow> call_row \<Rightarrow> bool" where
  "ended_as out r \<longleftrightarrow> (case out of
       Content c \<Rightarrow> mc_status r = ''success'' \<and> mc_response r = Some c \<and> mc_error r = None
     | OverTokenLimit \<Rightarrow> mc_status r = ''failed''
     | CallRaised e \<Rightarrow> mc_error r = Some (error_text e) \<and>
         mc_status r = (if unreduced e \<and> is_retryable_error e then ''failed_retries'' else ''failed_permanent''))"

text \<open>What an attempt may change: the row of the call, but not its key or prompt, and no other row.\<close>

definition only_row :: "int \<Rightarrow> media_db \<Rightarrow> media_db \<Rightarrow> bool" where
  "only_row cid db db' \<longleftrightarrow>
     (\<forall>i. i \<noteq> cid \<longrightarrow> call_row_of i db' = call_row_of i db) \<and>
     (\<forall>r. call_row_of cid db = Some r \<longrightarrow> (\<exists>r'. call_row_of cid db' = Some r' \<and> key_of r' = key_of r \<and> mc_prompt r' = mc_prompt r)) \<and>
     m_segments db' = m_segments db \<and> m_idents db' = m_idents db \<and> m_posts db' = m_posts db"

lemma only_row_trans: "only_row cid a b \<Longrightarrow> only_row cid b c \<Longrightarrow> only_row cid a c"
  unfolding only_row_def by metis

lemma only_row_modify:
  assumes "\<And>r. mc_id (f r) = mc_id r \<and> key_of (f r) = key_of r \<and> mc_prompt (f r) = mc_prompt r"
  shows "only_row cid db (modify_call cid f db)"
proof -
  have "m_posts (modify_call cid f db) = m_posts db" by (simp add: modify_call_def)
  with assms show ?thesis by (auto simp: only_row_def call_row_of_modify)
qed

lemma call_changes [simp]:
  "mc_id (mark_attempt_pending n r) = mc_id r" "key_of (mark_attempt_pending n r) = key_of r" "mc_prompt (mark_attempt_pending n r) = mc_prompt r"
  "mc_id (mark_call_failed st msg r) = mc_id r" "key_of (mark_call_failed st msg r) = key_of r" "mc_prompt (mark_call_failed st msg r) = mc_prompt r"
  "mc_id (mark_success n c r) = mc_id r" "key_of (mark_success n c r) = key_of r" "mc_prompt (mark_success n c r) = mc_prompt r"
  by (simp_all add: mark_attempt_pending_def mark_call_failed_def mark_success_def key_of_def)

lemma complete_call_world: "complete_call env args w = (r, w') \<Longrightarrow> cw_db w' = cw_db w \<and> cw_waits w' = cw_waits w \<and> cw_parse_error w' = cw_parse_error w"
  by (auto simp: complete_call_def split: prod.splits)

lemma on_db_simps [simp]: "cw_db (on_db f w) = f (cw_db w)" "cw_waits (on_db f w) = cw_waits w" "cw_llm (on_db f w) = cw_llm w"
  by (simp_all add: on_db_def)

definition settled :: "int \<Rightarrow> call_outcome \<Rightarrow> 'p classifier_world \<Rightarrow> 'p classifier_world \<Rightarrow> bool" where
  "settled cid out w w' \<longleftrightarrow> only_row cid (cw_db w) (cw_db w') \<and> cw_waits w' = cw_waits w \<and>
     (\<exists>r'. call_row_of cid (cw_db w') = Some r' \<and> ended_as out r')"

lemma settledI:
  assumes "only_row cid (cw_db w) (cw_db w1)" "cw_waits w1 = cw_waits w" "call_row_of cid (cw_db w) = Some r0"
    and "\<And>r. mc_id (f r) = mc_id r \<and> key_of (f r) = key_of r \<and> mc_prompt (f r) = mc_prompt r" "\<And>r. ended_as out (f r)"
  shows "settled cid out w (on_db (modify_call cid f) w1)"
proof -
  obtain r1 where "call_row_of cid (cw_db w1) = Some r1" using assms(1,3) by (auto simp: only_row_def)
  then have "call_row_of cid (modify_call cid f (cw_db w1)) = Some (f r1)" using assms(4) by (simp add: call_row_of_modify)
  with assms(1,2,5) only_row_trans [OF assms(1) only_row_modify [OF assms(4)]] show ?thesis by (auto simp: settled_def)
qed

lemma attempt_cases:
  assumes "call_attempts env cc cp adaptive row attempt (Suc left) last_error w = (out, w')"
    and "call_row_of (mc_id row) (cw_db w) = Some r0"
  shows "settled (mc_id row) out w w' \<or>
    (\<exists>e w2. left \<noteq> 0 \<and> call_attempts env cc cp adaptive row (attempt + 1) left (Some e) w2 = (out, w') \<and>
       only_row (mc_id row) (cw_db w) (cw_db w2) \<and> length (cw_waits w2) = length (cw_waits w) + 1)"
proof (cases "prepare_api_call env cc cp adaptive row")
  case (Inl msg)
  have "settled (mc_id row) OverTokenLimit w (on_db (modify_call (mc_id row) (mark_call_failed ''failed'' msg)) w)"
    by (rule settledI [OF _ _ assms(2)]) (simp_all add: only_row_def ended_as_def mark_call_failed_def key_of_def)
  with Inl assms(1) show ?thesis by (simp add: call_attempts.simps(2))
next
  case (Inr args)
  let ?n = "mc_retries row + int attempt + 1"
  let ?w0 = "on_db (modify_call (mc_id row) (mark_attempt_pending ?n)) w"
  obtain r w1 where c: "complete_call env args ?w0 = (r, w1)" by fastforce
  have "only_row (mc_id row) (cw_db w) (cw_db ?w0)" by (simp add: only_row_modify)
  then have o1: "only_row (mc_id row) (cw_db w) (cw_db w1)" and wt: "cw_waits w1 = cw_waits w"
    using complete_call_world [OF c] by simp_all
  note set = settledI [OF o1 wt assms(2)]
  show ?thesis
  proof (cases r)
    case (Inr content)
    have "settled (mc_id row) (Content content) w (on_db (modify_call (mc_id row) (mark_success ?n content)) w1)"
      by (rule set) (simp_all add: ended_as_def mark_success_def key_of_def)
    with Inr \<open>prepare_api_call env cc cp adaptive row = Inr args\<close> c assms(1) show ?thesis by (simp add: call_attempts.simps(2) Let_def)
  next
    case (Inl e)
    have fail: "settled (mc_id row) (CallRaised e) w (on_db (modify_call (mc_id row) (mark_call_failed st (error_text e))) w1)"
      if "st = (if unreduced e \<and> is_retryable_error e then ''failed_retries'' else ''failed_permanent'')" for st
      by (rule set) (use that in \<open>simp_all add: ended_as_def mark_call_failed_def key_of_def\<close>)
    show ?thesis
    proof (cases "unreduced e \<and> is_retryable_error e \<and> left \<noteq> 0")
      case True
      let ?w2 = "(on_db (modify_call (mc_id row) (mark_call_failed ''retrying'' (retry_message (int attempt + 1) (cc_retries cc) e))) w1)
          \<lparr>cw_waits := cw_waits w1 @ [retry_wait e attempt]\<rparr>"
      have "call_attempts env cc cp adaptive row (attempt + 1) left (Some e) ?w2 = (out, w')"
        using True Inl \<open>prepare_api_call env cc cp adaptive row = Inr args\<close> c assms(1)
        by (cases e) (simp_all add: call_attempts.simps(2) [of env cc cp adaptive row attempt left last_error w] Let_def unreduced_def)
      moreover have "only_row (mc_id row) (cw_db w) (cw_db ?w2)"
        using only_row_trans [OF o1 only_row_modify] by simp
      ultimately show ?thesis using True wt by (intro disjI2 exI [of _ e] exI [of _ ?w2]) simp
    next
      case False
      then have "out = CallRaised e \<and> w' = on_db (modify_call (mc_id row)
          (mark_call_failed (if unreduced e \<and> is_retryable_error e then ''failed_retries'' else ''failed_permanent'') (error_text e))) w1"
        using Inl \<open>prepare_api_call env cc cp adaptive row = Inr args\<close> c assms(1)
        by (cases e) (auto simp: call_attempts.simps(2) [of env cc cp adaptive row attempt left last_error w] Let_def unreduced_def
            handle_retry_exhausted_def split: if_splits)
      with fail show ?thesis by blast
    qed
  qed
qed

lemma call_attempts_recorded:
  assumes "call_attempts env cc cp adaptive row attempt (Suc left) last_error w = (out, w')"
    and "call_row_of (mc_id row) (cw_db w) = Some r0"
  shows "only_row (mc_id row) (cw_db w) (cw_db w') \<and> (\<exists>r'. call_row_of (mc_id row) (cw_db w') = Some r' \<and> ended_as out r') \<and>
    length (cw_waits w') \<le> length (cw_waits w) + left"
  using assms
proof (induction left arbitrary: attempt last_error w r0)
  case 0
  with attempt_cases [OF 0] show ?case by (auto simp: settled_def)
next
  case (Suc left)
  from attempt_cases [OF Suc.prems] show ?case
  proof (elim disjE exE conjE)
    assume "settled (mc_id row) out w w'"
    then show ?thesis by (auto simp: settled_def)
  next
    fix e w2
    assume h: "call_attempts env cc cp adaptive row (attempt + 1) (Suc left) (Some e) w2 = (out, w')"
      "only_row (mc_id row) (cw_db w) (cw_db w2)" "length (cw_waits w2) = length (cw_waits w) + 1"
    obtain r2 where r2: "call_row_of (mc_id row) (cw_db w2) = Some r2" using h(2) Suc.prems(2) by (auto simp: only_row_def)
    from Suc.IH [OF h(1) r2] h(2,3) only_row_trans show ?thesis by (metis add.commute add_Suc_right add_le_cancel_left plus_1_eq_Suc add.assoc)
  qed
qed

text \<open>C8.  A call of the model ends with its row in the state its outcome stands for: success with the reply, \<open>failed\<close> for
  a prompt over the limit, \<open>failed_retries\<close> for an error that was retried to the end and \<open>failed_permanent\<close> for any
  other, each with the error's text.  Nothing else in the store changes, the row keeps its key and prompt, and there are
  fewer waits than attempts.\<close>

theorem a_call_leaves_its_outcome_in_its_row:
  assumes "call_model env cc cp adaptive row w = (out, w')" "0 < cc_retries cc"
    and "call_row_of (mc_id row) (cw_db w) = Some r"
  shows "only_row (mc_id row) (cw_db w) (cw_db w') \<and>
    (\<exists>r'. call_row_of (mc_id row) (cw_db w') = Some r' \<and> ended_as out r') \<and>
    int (length (cw_waits w')) < int (length (cw_waits w)) + cc_retries cc"
proof -
  obtain n where n: "nat (cc_retries cc) = Suc n" using assms(2) by (metis gr0_implies_Suc zero_less_nat_eq)
  have "call_attempts env cc cp adaptive row 0 (Suc n) None w = (out, w')" using assms(1) n by (simp add: call_model_def)
  from call_attempts_recorded [OF this assms(3)] n show ?thesis by auto
qed

section \<open>Examples\<close>

definition plain_provider :: "unit provider" where
  "plain_provider a p = (Inr \<lparr>answer_content = Some ''reply'', answer_tier = None\<rparr>, p)"

definition plain_env :: "unit classifier_env" where
  "plain_env = \<lparr>env_completion = plain_provider, env_model_info = (\<lambda>_. NoModelInfo), env_priced_flex = (\<lambda>_. False),
     env_validate = (\<lambda>_. None), env_loads = (\<lambda>_. Inl []), env_dumps = (\<lambda>_. []), env_str = (\<lambda>_. []), env_batch = None,
     env_now = 0, env_test_reply = [], env_refine_prompt = (\<lambda>_ _ _ _. ''p''), env_confirm_prompt = (\<lambda>_ _. ''p''),
     env_native_repeats = (\<lambda>_. None)\<rparr>"

definition plain_config :: classifier_config where
  "plain_config = \<lparr>cc_model = ''m'', cc_retries = 3, cc_output_tokens = 100, cc_tier = None, cc_test_mode = False,
     cc_min_confidence = 8 / 10, cc_refine = True, cc_repeats = False\<rparr>"

definition stored_call :: "string \<Rightarrow> call_row" where
  "stored_call st = \<lparr>mc_id = 4, mc_post = 1, mc_model = ''m'', mc_first = 0, mc_last = 2, mc_prompt = ''12345678'', mc_status = st,
     mc_retries = 0, mc_error = None, mc_response = None, mc_time = 0\<rparr>"

definition store_with :: "call_row list \<Rightarrow> media_db" where
  "store_with cs = \<lparr>m_posts = [], m_segments = map seg [1, 2, 3], m_idents = [], m_calls = cs, m_audio = [], m_jobs = [],
     m_run = None, m_files = []\<rparr>"

definition world_with :: "call_row list \<Rightarrow> unit classifier_world" where
  "world_with cs = \<lparr>cw_db = store_with cs, cw_llm = ((), []), cw_waits = [], cw_parse_error = False\<rparr>"

theorem confident_predictions_mark_their_segment_witness:
  "\<exists>matched db' s. create_identifications plain_env plain_config \<lparr>pl_ads = [\<lparr>pr_offset = 10, pr_confidence = 9 / 10\<rparr>], pl_content_type = None\<rparr>
     (map seg [1, 2, 3]) 4 (store_with []) = Inr (matched, db') \<and> s \<in> set matched \<and> segment_has_ad_identification db' (sg_id s)"
proof -
  have h: "\<lparr>pr_offset = 10, pr_confidence = 9 / 10\<rparr> \<in> set (pl_ads \<lparr>pl_ads = [\<lparr>pr_offset = 10, pr_confidence = 9 / 10\<rparr>], pl_content_type = None\<rparr>)"
    "cc_min_confidence plain_config \<le> adjust_confidence (pr_confidence \<lparr>pr_offset = 10, pr_confidence = 9 / 10\<rparr>)
      (pl_content_type \<lparr>pl_ads = [\<lparr>pr_offset = 10, pr_confidence = 9 / 10\<rparr>], pl_content_type = None\<rparr>)"
    "seg 2 \<in> set (map seg [1, 2, 3])" "\<bar>sg_start (seg 2) - pr_offset \<lparr>pr_offset = 10, pr_confidence = 9 / 10\<rparr>\<bar> < 1 / 2"
    "distinct (map sg_id (map seg [1, 2, 3]))"
    by (simp_all add: plain_config_def adjust_confidence_def seg_def)
  from confident_predictions_mark_their_segment [OF h, of plain_env 4 "store_with []"] show ?thesis by blast
qed

theorem failed_call_keeps_its_prompt_witness:
  "\<exists>w'. process_chunk plain_env plain_config (params_of 3 0 (Some 1)) 1 None (map seg [1, 2, 3]) ''a'' (world_with [stored_call ''failed'']) =
     (Identified [], w') \<and> cw_llm w' = ((), [])"
  using failed_call_keeps_its_prompt [of "stored_call ''failed''" "world_with [stored_call ''failed'']" 1 plain_config
      "map seg [1, 2, 3]" "params_of 3 0 (Some 1)" None "''a''" plain_env]
  by (simp add: world_with_def store_with_def stored_call_def plain_config_def key_of_def seg_def too_long_def token_limits_def
      params_of_def prompt_tokens_def List.map_filter_simps) blast

theorem a_call_leaves_its_outcome_in_its_row_witness:
  "\<exists>out w' r'. call_model plain_env plain_config (params_of 3 0 None) None (stored_call ''pending'') (world_with [stored_call ''pending'']) =
     (out, w') \<and> call_row_of 4 (cw_db w') = Some r' \<and> ended_as out r'"
proof -
  obtain out w' where c: "call_model plain_env plain_config (params_of 3 0 None) None (stored_call ''pending'')
      (world_with [stored_call ''pending'']) = (out, w')" by fastforce
  from a_call_leaves_its_outcome_in_its_row [OF c] have
    "\<exists>r'. call_row_of 4 (cw_db w') = Some r' \<and> ended_as out r'"
    by (simp add: plain_config_def call_row_of_def world_with_def store_with_def stored_call_def)
  with c show ?thesis by blast
qed

end
