(* ===== verification/ClassifierPasses.thy ===== *)
theory ClassifierPasses
  imports Classifier
begin

text \<open>
  What the classifier does after the chunks (\<open>src/podcast_processor/ad_classifier.py\<close>): neighbours of marked
  segments, repeated ads with their confirmation by the model (\<open>repeat_ad_refiner.py\<close>), refined boundaries
  (\<open>boundary_refiner.py\<close> as the refiner), and \<open>classify\<close> as a whole on the post store.  That the writer's table
  of posts has the row is the caller's business; confidences are numbers in every row that the classifier inserts.
\<close>

section \<open>Neighbours of marked segments\<close>

text \<open>The ads of a post: the identifications labelled so, joined with their segments.\<close>

type_synonym marked = "ident_row \<times> segment_row"

definition ads_of_post :: "int \<Rightarrow> media_db \<Rightarrow> marked list" where
  "ads_of_post post db =
     concat (map (\<lambda>i. map (\<lambda>s. (i, s)) (filter (\<lambda>s. sg_id s = id_segment i \<and> sg_post s = post) (m_segments db)))
       (filter (\<lambda>i. id_label i = ''ad'') (m_idents db)))"

definition segment_numbered :: "int \<Rightarrow> int \<Rightarrow> media_db \<Rightarrow> segment_row option" where
  "segment_numbered post n db = find (\<lambda>s. sg_post s = post \<and> sg_num s = n) (m_segments db)"

definition should_expand_neighbor :: "bool \<Rightarrow> bool \<Rightarrow> bool \<Rightarrow> real \<Rightarrow> bool" where
  "should_expand_neighbor refine_enabled has_strong_cue is_transition gap_seconds =
     (if \<not> refine_enabled then has_strong_cue
      else if has_strong_cue \<or> is_transition then True
      else gap_seconds \<le> 10)"

definition neighbor_confidence :: "bool \<Rightarrow> bool \<Rightarrow> bool \<Rightarrow> real \<Rightarrow> real" where
  "neighbor_confidence has_strong_cue is_transition is_self_promo gap_seconds =
     (let base = (if is_transition then 72 / 100 else 75 / 100);
          c = (if has_strong_cue then (if gap_seconds \<le> 10 then 85 / 100 else 80 / 100) else base) in
      if is_self_promo then max (1 / 2) (c - 1 / 4) else c)"

definition neighbor_offsets :: "int list" where
  "neighbor_offsets = [-5, -4, -3, -2, -1, 1, 2, 3, 4, 5]"

text \<open>One neighbour: the keys of the call that exist already are taken from the store or from this batch.\<close>

definition consider_neighbor ::
  "bool \<Rightarrow> int \<Rightarrow> int list \<Rightarrow> media_db \<Rightarrow> segment_row \<Rightarrow> int \<Rightarrow> (int \<times> real) list \<Rightarrow> (int \<times> real) list" where
  "consider_neighbor refine_enabled post existing db ad offset to_create =
     (case segment_numbered post (sg_num ad + offset) db of
        None \<Rightarrow> to_create
      | Some s \<Rightarrow>
          if sg_id s \<in> set existing \<or> sg_id s \<in> set (map fst to_create) then to_create
          else
            (let cues = analyze_cues (sg_text s);
                 strong = (cue_url cues \<or> cue_promo cues \<or> cue_phone cues \<or> cue_cta cues);
                 gap = \<bar>sg_start s - sg_start ad\<bar> in
             if \<not> should_expand_neighbor refine_enabled strong (cue_transition cues) gap then to_create
             else to_create @ [(sg_id s, neighbor_confidence strong (cue_transition cues) (cue_self_promo cues) gap)]))"

definition neighbors_to_create :: "bool \<Rightarrow> int \<Rightarrow> int \<Rightarrow> marked list \<Rightarrow> media_db \<Rightarrow> (int \<times> real) list" where
  "neighbors_to_create refine_enabled post cid ads db =
     (let existing = map id_segment (filter (\<lambda>i. id_call i = cid \<and> id_label i = ''ad'') (m_idents db)) in
      fold (\<lambda>(i, s). fold (consider_neighbor refine_enabled post existing db s) neighbor_offsets) ads [])"

definition expand_neighbors_bulk ::
  "'p classifier_env \<Rightarrow> bool \<Rightarrow> int \<Rightarrow> int \<Rightarrow> marked list \<Rightarrow> media_db \<Rightarrow> store_error + media_db" where
  "expand_neighbors_bulk env refine_enabled post cid ads db =
     (let to_create = neighbors_to_create refine_enabled post cid ads db in
      if to_create = [] then Inr db
      else (case insert_identifications_batched env (map (ident_entry cid) to_create) db of
          Inl e \<Rightarrow> Inl e | Inr (n, db') \<Rightarrow> Inr db'))"

definition expand_pass :: "'p classifier_env \<Rightarrow> bool \<Rightarrow> int \<Rightarrow> media_db \<Rightarrow> store_error + media_db" where
  "expand_pass env refine_enabled post db =
     (case ads_of_post post db of
        [] \<Rightarrow> Inr db
      | (i, s) # rest \<Rightarrow>
          (case call_row_of (id_call i) db of
             None \<Rightarrow> Inr db
           | Some c \<Rightarrow> expand_neighbors_bulk env refine_enabled post (mc_id c) ((i, s) # rest) db))"

section \<open>Blocks of marked segments\<close>

text \<open>The confidence column holds a number in every row the classifier inserts; another value counts as 0
  here, where Python would raise.\<close>

definition conf_of :: "ident_row \<Rightarrow> real" where
  "conf_of i = (case id_confidence i of JNum c \<Rightarrow> c | _ \<Rightarrow> 0)"

record marked_block =
  mb_start :: real
  mb_end :: real
  mb_conf :: real
  mb_marked :: "marked list"

definition create_block :: "marked list \<Rightarrow> marked_block" where
  "create_block ms =
     \<lparr>mb_start = Min (set (map (sg_start \<circ> snd) ms)), mb_end = Max (set (map (sg_end \<circ> snd) ms)),
      mb_conf = sum_list (map (conf_of \<circ> fst) ms) / real (length ms), mb_marked = ms\<rparr>"

fun blocks_loop :: "marked list \<Rightarrow> marked list \<Rightarrow> marked_block list" where
  "blocks_loop current [] = (if current = [] then [] else [create_block current])"
| "blocks_loop current (m # ms) =
     (if current = [] \<or> sg_start (snd m) - sg_end (snd (last current)) \<le> 10 then blocks_loop (current @ [m]) ms
      else create_block current # blocks_loop [m] ms)"

definition group_into_blocks :: "marked list \<Rightarrow> marked_block list" where
  "group_into_blocks ms = (if ms = [] then [] else blocks_loop [] (sort_key (sg_start \<circ> snd) ms))"

section \<open>Repeated ads\<close>

definition REPEAT_AD_CONFIRM_FIRST_SEQ_SENTINEL :: int where "REPEAT_AD_CONFIRM_FIRST_SEQ_SENTINEL = -500"

text \<open>The best-effort calls of the two refiners: the row is found or made, or there is none.\<close>

definition try_upsert ::
  "'p classifier_env \<Rightarrow> classifier_config \<Rightarrow> int \<Rightarrow> int \<Rightarrow> int \<Rightarrow> string \<Rightarrow> media_db \<Rightarrow> int option \<times> media_db" where
  "try_upsert env cc post f l prompt db =
     (case upsert_model_call_action (Some post) (Some (cc_model cc)) (Some f) (Some l) (Some prompt) (env_now env) db of
        Inl e \<Rightarrow> (None, db) | Inr (cid, db') \<Rightarrow> (Some cid, db'))"

definition record_reply :: "string \<Rightarrow> string option \<Rightarrow> string option \<Rightarrow> call_row \<Rightarrow> call_row" where
  "record_reply st response error c = c\<lparr>mc_status := st, mc_response := response, mc_error := error, mc_retries := 1\<rparr>"

definition try_update_call :: "int option \<Rightarrow> string \<Rightarrow> string option \<Rightarrow> string option \<Rightarrow> media_db \<Rightarrow> media_db" where
  "try_update_call cid st response error db =
     (case cid of None \<Rightarrow> db | Some i \<Rightarrow> modify_call i (record_reply st response error) db)"

definition helper_args :: "'p classifier_env \<Rightarrow> classifier_config \<Rightarrow> int \<Rightarrow> string \<Rightarrow> completion_args" where
  "helper_args env cc max_tokens prompt =
     apply_service_tier (env_priced_flex env) (cc_tier cc)
       (normalize_completion_args_for_model (env_model_info env)
          \<lparr>arg_model = cc_model cc, arg_messages = [(''user'', prompt)], arg_max_completion_tokens = None,
           arg_max_tokens = Some max_tokens, arg_temperature = Some (1 / 10), arg_service_tier = None\<rparr>)"

text \<open>The reply's text (empty when there is none), or the error.\<close>

definition helper_call ::
  "'p classifier_env \<Rightarrow> classifier_config \<Rightarrow> int \<Rightarrow> string \<Rightarrow> int option \<Rightarrow> 'p \<times> llm_event list \<Rightarrow>
   (string + string) \<times> 'p \<times> llm_event list" where
  "helper_call env cc max_tokens prompt cid llm =
     (let args = helper_args env cc max_tokens prompt;
          ((r, args'), llm') = call_litellm_with_tier_retry (env_completion env) None None (cid \<noteq> None) args
             (mark_row (cid \<noteq> None) (TierNoted (arg_service_tier args)) llm) in
      ((case r of Inl e \<Rightarrow> Inl (error_text e) | Inr a \<Rightarrow> Inr (case answer_content a of None \<Rightarrow> [] | Some c \<Rightarrow> c)), llm'))"

fun parse_confirmation :: "'p classifier_env \<Rightarrow> string list \<Rightarrow> (string \<times> json) list option" where
  "parse_confirmation env [] = None"
| "parse_confirmation env (c # cs) =
     (case env_loads env c of
        Inr (JObj kvs) \<Rightarrow> if obj_has kvs ''is_ad'' then Some kvs else parse_confirmation env cs
      | _ \<Rightarrow> parse_confirmation env cs)"

definition coerce_confidence :: "json \<Rightarrow> real \<Rightarrow> real" where
  "coerce_confidence v hint = (case py_float v of None \<Rightarrow> hint | Some c \<Rightarrow> max 0 (min 1 c))"

record confirmation =
  cf_is_ad :: bool
  cf_confidence :: real
  cf_call :: "int option"

definition confirm_repeat ::
  "'p classifier_env \<Rightarrow> classifier_config \<Rightarrow> int \<Rightarrow> string \<Rightarrow> segment_row list \<Rightarrow> int \<Rightarrow> real \<Rightarrow> 'p classifier_world \<Rightarrow>
   confirmation \<times> 'p classifier_world" where
  "confirm_repeat env cc post reference_text window_segs cand_first hint w =
     (let prompt = env_confirm_prompt env reference_text window_segs;
          (cid, db1) = try_upsert env cc post REPEAT_AD_CONFIRM_FIRST_SEQ_SENTINEL cand_first prompt (cw_db w);
          (r, llm) = helper_call env cc 1024 prompt cid (cw_llm w) in
      case r of
        Inl e \<Rightarrow> (\<lparr>cf_is_ad = False, cf_confidence = 0, cf_call = cid\<rparr>,
                  w\<lparr>cw_db := try_update_call cid ''failed_permanent'' None (Some e) db1, cw_llm := llm\<rparr>)
      | Inr content \<Rightarrow>
          (let db2 = try_update_call cid ''received_response'' (Some content) None db1 in
           case parse_confirmation env (json_candidates content) of
             None \<Rightarrow> (\<lparr>cf_is_ad = False, cf_confidence = 0, cf_call = cid\<rparr>,
               w\<lparr>cw_db := try_update_call cid ''success_heuristic'' (Some content) (Some ''parse_failed'') db2, cw_llm := llm\<rparr>)
           | Some kvs \<Rightarrow> (\<lparr>cf_is_ad = truthy (obj_get kvs ''is_ad''),
                 cf_confidence = coerce_confidence (obj_get kvs ''confidence'') hint, cf_call = cid\<rparr>,
               w\<lparr>cw_db := try_update_call cid ''success'' (Some content) None db2, cw_llm := llm\<rparr>)))"

definition segments_between :: "int \<Rightarrow> int \<Rightarrow> segment_row list \<Rightarrow> segment_row list" where
  "segments_between f l segs =
     List.map_filter (\<lambda>n. find (\<lambda>s. sg_num s = n) (rev segs)) [f..l]"

definition confirm_and_record_repeat ::
  "'p classifier_env \<Rightarrow> classifier_config \<Rightarrow> int \<Rightarrow> segment_row list \<Rightarrow> string \<Rightarrow> real \<Rightarrow> repeat_candidate \<Rightarrow>
   'p classifier_world \<Rightarrow> entry_row list \<times> 'p classifier_world" where
  "confirm_and_record_repeat env cc post segs reference_text hint cand w =
     (let window_segs = segments_between (first_seq cand) (last_seq cand) segs in
      if window_segs = [] then ([], w)
      else
        (let (cf, w') = confirm_repeat env cc post reference_text window_segs (first_seq cand) hint w in
         case cf_call cf of
           None \<Rightarrow> ([], w')
         | Some cid \<Rightarrow>
             if \<not> cf_is_ad cf \<or> cf_confidence cf < cc_min_confidence cc then ([], w')
             else (map (\<lambda>s. (sg_id s, cid, cf_confidence cf)) window_segs, w')))"

definition block_numbers :: "marked_block \<Rightarrow> int list" where
  "block_numbers b = map (sg_num \<circ> snd) (mb_marked b)"

definition block_text :: "marked_block \<Rightarrow> string" where
  "block_text b = join_with '' '' (map sg_text (sort_key sg_num (map snd (mb_marked b))))"

definition detected_range :: "marked_block \<Rightarrow> int \<times> int" where
  "detected_range b = (Min (set (block_numbers b)), Max (set (block_numbers b)))"

text \<open>What the search has found: the segments that are taken and the rows to insert.\<close>

type_synonym 'p repeat_state = "int list \<times> entry_row list \<times> 'p classifier_world"

definition try_candidate ::
  "'p classifier_env \<Rightarrow> classifier_config \<Rightarrow> int \<Rightarrow> segment_row list \<Rightarrow> string \<Rightarrow> real \<Rightarrow> repeat_candidate \<Rightarrow>
   'p repeat_state \<Rightarrow> 'p repeat_state" where
  "try_candidate env cc post segs reference_text hint cand st =
     (case st of (found, new_rows, w) \<Rightarrow>
        if list_ex (\<lambda>n. first_seq cand \<le> n \<and> n \<le> last_seq cand) found then st
        else
          (let (entries, w') = confirm_and_record_repeat env cc post segs reference_text hint cand w in
           if entries = [] then (found, new_rows, w')
           else (found @ [first_seq cand..last_seq cand], new_rows @ entries, w')))"

definition repeat_segment_of :: "segment_row \<Rightarrow> repeat_segment" where
  "repeat_segment_of s = \<lparr>rs_seq = sg_num s, rs_start = sg_start s, rs_end = sg_end s, rs_text = sg_text s\<rparr>"

definition search_block ::
  "'p classifier_env \<Rightarrow> classifier_config \<Rightarrow> int \<Rightarrow> segment_row list \<Rightarrow> (int \<times> int) list \<Rightarrow> marked_block \<Rightarrow>
   string list \<times> 'p repeat_state \<Rightarrow> string list \<times> 'p repeat_state" where
  "search_block env cc post segs ranges b st =
     (case st of (seen, rst) \<Rightarrow>
        if mb_conf b < cc_min_confidence cc then st
        else
          (let signature = join_with '' '' (tokenize (block_text b)) in
           if signature = [] \<or> signature \<in> set seen then st
           else
             (let (f, l) = detected_range b;
                  cands = find_repeat_candidates_with_fallback (env_native_repeats env f) (map repeat_segment_of segs) f l ranges
                    DEFAULT_SIMILARITY_THRESHOLD in
              (seen @ [signature], fold (try_candidate env cc post segs (block_text b) (mb_conf b)) cands rst))))"

definition detect_repeat_ads ::
  "'p classifier_env \<Rightarrow> classifier_config \<Rightarrow> int \<Rightarrow> segment_row list \<Rightarrow> 'p classifier_world \<Rightarrow>
   store_error + 'p classifier_world" where
  "detect_repeat_ads env cc post segs w =
     (let blocks = group_into_blocks (ads_of_post post (cw_db w)) in
      if blocks = [] then Inr w
      else
        (let (seen, found, new_rows, w') = fold (search_block env cc post segs (map detected_range blocks)) blocks ([], [], [], w) in
         if new_rows = [] then Inr w'
         else (case insert_identifications_batched env (map row_entry new_rows) (cw_db w') of
             Inl e \<Rightarrow> Inl e | Inr (n, db) \<Rightarrow> Inr (w'\<lparr>cw_db := db\<rparr>))))"

section \<open>Refined boundaries\<close>

definition context_segment_of :: "segment_row \<Rightarrow> context_segment" where
  "context_segment_of s = \<lparr>ctx_start = sg_start s, ctx_text = sg_text s, ctx_end = Some (sg_end s)\<rparr>"

definition refine_error_text :: "refine_error \<Rightarrow> string" where
  "refine_error_text e = (case e of CallFailed m \<Rightarrow> m | ParseFailed \<Rightarrow> ''parse_failed'' | ParseError m \<Rightarrow> m
     | InvalidFields \<Rightarrow> ''invalid refinement fields'')"

definition apply_call_update :: "int option \<Rightarrow> call_update \<Rightarrow> media_db \<Rightarrow> media_db" where
  "apply_call_update cid u db =
     (case u of (st, response, error) \<Rightarrow> try_update_call cid st response (map_option refine_error_text error) db)"

definition refine_block ::
  "'p classifier_env \<Rightarrow> classifier_config \<Rightarrow> int \<Rightarrow> segment_row list \<Rightarrow> marked_block \<Rightarrow> 'p classifier_world \<Rightarrow>
   boundary_refinement \<times> 'p classifier_world" where
  "refine_block env cc post segs b w =
     (let ctx_segs = map context_segment_of segs;
          prompt = env_refine_prompt env (mb_start b) (mb_end b) (mb_conf b) (get_context (mb_start b) (mb_end b) ctx_segs);
          (f, l) = detected_range b;
          (cid, db1) = try_upsert env cc post f l prompt (cw_db w);
          (r, llm) = helper_call env cc 4096 prompt cid (cw_llm w);
          (refined, updates) = refine_boundary (env_loads env) (mb_start b) (mb_end b) ctx_segs r in
      (refined, w\<lparr>cw_db := fold (apply_call_update cid) updates db1, cw_llm := llm\<rparr>))"

definition in_refined_window :: "boundary_refinement \<Rightarrow> segment_row \<Rightarrow> bool" where
  "in_refined_window r s \<longleftrightarrow>
     sg_start s \<le> refined_end r \<and> refined_start r \<le> (if sg_end s = 0 then sg_start s else sg_end s)"

definition apply_refinement ::
  "'p classifier_env \<Rightarrow> marked_block \<Rightarrow> boundary_refinement \<Rightarrow> segment_row list \<Rightarrow> int \<Rightarrow> media_db \<Rightarrow> store_error + media_db" where
  "apply_refinement env b r segs cid db =
     (case replace_identifications_action (env_str env) (env_batch env) (map (id_id \<circ> fst) (mb_marked b)) (JList []) db of
        Inl e \<Rightarrow> Inl e
      | Inr (n, db1) \<Rightarrow>
          (let entries = map (\<lambda>s. ident_entry cid (sg_id s, mb_conf b)) (filter (in_refined_window r) segs) in
           if entries = [] then Inr db1
           else (case insert_identifications_batched env entries db1 of
               Inl e \<Rightarrow> Inl e | Inr (k, db2) \<Rightarrow> Inr db2)))"

definition boundary_entry :: "marked_block \<Rightarrow> boundary_refinement \<Rightarrow> json" where
  "boundary_entry b r = JObj [(''orig_start'', JNum (mb_start b)), (''orig_end'', JNum (mb_end b)),
     (''refined_start'', JNum (refined_start r)), (''refined_end'', JNum (refined_end r)), (''confidence'', JNum (mb_conf b))]"

definition worth_refining :: "marked_block \<Rightarrow> bool" where
  "worth_refining b \<longleftrightarrow> \<not> (mb_conf b < 6 / 10 \<or> mb_end b - mb_start b < 15)"

fun refine_blocks ::
  "'p classifier_env \<Rightarrow> classifier_config \<Rightarrow> int \<Rightarrow> segment_row list \<Rightarrow> marked_block list \<Rightarrow> json list \<Rightarrow> 'p classifier_world \<Rightarrow>
   store_error + json list \<times> 'p classifier_world" where
  "refine_blocks env cc post segs [] entries w = Inr (entries, w)"
| "refine_blocks env cc post segs (b # bs) entries w =
     (if \<not> worth_refining b then refine_blocks env cc post segs bs entries w
      else
        (let (r, w1) = refine_block env cc post segs b w in
         case call_row_of (id_call (fst (hd (mb_marked b)))) (cw_db w1) of
           None \<Rightarrow> refine_blocks env cc post segs bs entries w1
         | Some c \<Rightarrow>
             (case apply_refinement env b r segs (mc_id c) (cw_db w1) of
                Inl e \<Rightarrow> Inl e
              | Inr db \<Rightarrow> refine_blocks env cc post segs bs (entries @ [boundary_entry b r]) (w1\<lparr>cw_db := db\<rparr>))))"

definition refine_pass ::
  "'p classifier_env \<Rightarrow> classifier_config \<Rightarrow> int \<Rightarrow> segment_row list \<Rightarrow> 'p classifier_world \<Rightarrow> store_error + 'p classifier_world" where
  "refine_pass env cc post segs w =
     (case refine_blocks env cc post segs (group_into_blocks (ads_of_post post (cw_db w))) [] w of
        Inl e \<Rightarrow> Inl e
      | Inr (entries, w') \<Rightarrow>
          Inr (on_db (modify_post post (\<lambda>p. p\<lparr>pm_refined := (if entries = [] then None else Some (JList entries)),
            pm_refined_at := Some (env_now env)\<rparr>)) w'))"

section \<open>\<open>classify\<close>\<close>

datatype classify_outcome = Returned | Raised string

definition repeat_pass ::
  "'p classifier_env \<Rightarrow> classifier_config \<Rightarrow> int \<Rightarrow> segment_row list \<Rightarrow> 'p classifier_world \<Rightarrow> store_error + 'p classifier_world" where
  "repeat_pass env cc post segs w = (if cc_repeats cc then detect_repeat_ads env cc post segs w else Inr w)"

definition boundary_pass ::
  "'p classifier_env \<Rightarrow> classifier_config \<Rightarrow> int \<Rightarrow> segment_row list \<Rightarrow> 'p classifier_world \<Rightarrow> store_error + 'p classifier_world" where
  "boundary_pass env cc post segs w = (if cc_refine cc then refine_pass env cc post segs w else Inr w)"

text \<open>The passes after the chunks; an error of the writer raises.\<close>

definition after_chunks ::
  "'p classifier_env \<Rightarrow> classifier_config \<Rightarrow> int \<Rightarrow> segment_row list \<Rightarrow> 'p classifier_world \<Rightarrow>
   classify_outcome \<times> 'p classifier_world" where
  "after_chunks env cc post segs w =
     (case expand_pass env (cc_refine cc) post (cw_db w) of
        Inl e \<Rightarrow> (Raised ''Failed to insert identifications'', w)
      | Inr db \<Rightarrow>
          (case repeat_pass env cc post segs (w\<lparr>cw_db := db\<rparr>) of
             Inl e \<Rightarrow> (Raised ''Failed to insert identifications'', w\<lparr>cw_db := db\<rparr>)
           | Inr w1 \<Rightarrow>
               (case boundary_pass env cc post segs w1 of
                  Inl e \<Rightarrow> (Raised ''Failed to replace identifications'', w1)
                | Inr w2 \<Rightarrow> (Returned, w2))))"

definition classify ::
  "'p classifier_env \<Rightarrow> classifier_config \<Rightarrow> classify_params \<Rightarrow> int \<Rightarrow> segment_row list \<Rightarrow> int option \<Rightarrow> 'p classifier_world \<Rightarrow>
   classify_outcome \<times> int option \<times> 'p classifier_world" where
  "classify env cc cp post segs adaptive w =
     (let w0 = w\<lparr>cw_parse_error := False\<rparr> in
      if segs = [] then (Returned, adaptive, w0)
      else (case classify_chunks (process_chunk env cc cp post) cp segs (adaptive, w0) of
          (WalkRaised e, a, w1) \<Rightarrow> (Raised e, a, w1)
        | (WalkTooLarge l q, a, w1) \<Rightarrow> (Raised (error_text (LLMRequestTooLarge l q)), a, w1)
        | (NoProgressStop, a, w1) \<Rightarrow> (Returned, a, w1)
        | (_, a, w1) \<Rightarrow> (let (out, w2) = after_chunks env cc post segs w1 in (out, a, w2))))"

section \<open>What processing a chunk keeps, the whole walk keeps\<close>

lemma shrink_chunk_subset: "set (fst (shrink_chunk cp a ov rem whole tr n)) \<subseteq> set ov \<union> set rem"
proof (induction n arbitrary: tr)
  case (Suc n)
  have "set (combine_overlap_segments ov (take j rem)) \<subseteq> set ov \<union> set rem" for j
    using combine_subset [of ov "take j rem"] set_take_subset [of j rem] by blast
  then show ?case by (simp add: Let_def Suc.IH)
qed simp

lemma build_chunk_payload_subset:
  assumes "build_chunk_payload cp a ov rem whole m = (chunk, prompt, n, tr)"
  shows "set chunk \<subseteq> set ov \<union> set rem"
proof (cases "rem = []")
  case True
  with assms show ?thesis by (simp add: build_chunk_payload_def)
next
  case False
  have "set chunk \<subseteq> set (apply_overlap_cap (max_overlap_segments cp) ov) \<union> set rem"
    using assms False shrink_chunk_subset [of cp a "apply_overlap_cap (max_overlap_segments cp) ov" rem whole False
        "nat (min m (int (length rem)))"]
    by (simp add: build_chunk_payload_def)
  then show ?thesis using apply_overlap_cap_subset [of "max_overlap_segments cp" ov] by blast
qed

locale chunk_processor =
  fixes process :: "'w processor" and segs :: "segment_row list" and keeps :: "'w \<Rightarrow> bool"
  assumes process_keeps: "keeps w \<Longrightarrow> chunk \<noteq> [] \<Longrightarrow> set chunk \<subseteq> set segs \<Longrightarrow> process a chunk prompt w = (out, w') \<Longrightarrow> keeps w'"
begin

lemma step_loop_keeps:
  assumes "set rem \<subseteq> set segs" "set ov \<subseteq> set segs"
    and "step_loop process cp ov rem whole max_new (a, w) = (out, a', w')" "keeps w"
  shows "keeps w' \<and> (\<forall>n ov'. out = Consumed n ov' \<longrightarrow> set ov' \<subseteq> set segs)"
  using assms(3,4)
proof (induction "nat max_new" arbitrary: max_new a w rule: less_induct)
  case less
  obtain chunk prompt k tr where p: "build_chunk_payload cp a ov rem whole max_new = (chunk, prompt, k, tr)"
    by (metis prod_cases4)
  have sub: "set chunk \<subseteq> set segs" using build_chunk_payload_subset [OF p] assms(1,2) by blast
  show ?case
  proof (cases "chunk = [] \<or> k \<le> 0")
    case True
    with less.prems p show ?thesis by (auto simp: step_loop.simps)
  next
    case False
    obtain o1 w1 where pr: "process a chunk prompt w = (o1, w1)" by fastforce
    have k1: "keeps w1" using process_keeps [OF less.prems(2) _ sub pr] False by blast
    show ?thesis
    proof (cases o1)
      case (Identified ids)
      with less.prems p False pr k1 compute_next_subset [of "max_overlap_segments cp" chunk ids] sub
      show ?thesis by (auto simp: step_loop.simps)
    next
      case (ChunkRaised e)
      with less.prems p False pr k1 show ?thesis by (auto simp: step_loop.simps)
    next
      case (RequestTooLarge limit requested)
      show ?thesis
      proof (cases "k \<le> 1 \<or> requested = 0")
        case True
        with less.prems p False pr k1 RequestTooLarge show ?thesis by (auto simp: step_loop.simps split: if_splits)
      next
        case b: False
        have "nat (next_max_new k (learned_limit limit) requested) < nat max_new"
          using next_max_new_bounds(2) [of k "learned_limit limit" requested] build_chunk_payload_consumed(2) [OF p] b by simp
        moreover have "step_loop process cp ov rem whole (next_max_new k (learned_limit limit) requested)
            (lowered a (learned_limit limit), w1) = (out, a', w')"
          using less.prems(1) p False pr RequestTooLarge b by (simp add: step_loop.simps [of process cp ov rem whole max_new])
        ultimately show ?thesis using less.hyps k1 by blast
      qed
    qed
  qed
qed

lemma walk_keeps:
  "walk process cp segs left i ov (a, w) = (out, a', w') \<Longrightarrow> set ov \<subseteq> set segs \<Longrightarrow> keeps w \<Longrightarrow> keeps w'"
proof (induction left arbitrary: i ov a w)
  case 0
  then show ?case by simp
next
  case (Suc left)
  obtain so a1 w1 where st: "step process cp ov i segs (a, w) = (so, a1, w1)" by (metis prod_cases3)
  have "set (apply_overlap_cap (max_overlap_segments cp) ov) \<subseteq> set segs"
    using apply_overlap_cap_subset [of "max_overlap_segments cp" ov] Suc.prems(2) by blast
  from step_loop_keeps [OF set_drop_subset this st [unfolded step_def] Suc.prems(3)]
  have k: "keeps w1" "\<And>n ov'. so = Consumed n ov' \<Longrightarrow> set ov' \<subseteq> set segs" by auto
  show ?case
  proof (cases so)
    case (Consumed n ov')
    with Suc.prems st k Suc.IH show ?thesis by (auto split: if_splits)
  qed (use Suc.prems st k in \<open>auto split: if_splits\<close>)
qed

lemma classify_chunks_keeps:
  "classify_chunks process cp segs (a, w) = (out, a', w') \<Longrightarrow> keeps w \<Longrightarrow> keeps w'"
  by (auto simp: classify_chunks_def split: if_splits dest: walk_keeps)

end

section \<open>The store stays consistent\<close>

definition keeps_key :: "(call_row \<Rightarrow> call_row) \<Rightarrow> bool" where
  "keeps_key f \<longleftrightarrow> (\<forall>r. mc_id (f r) = mc_id r \<and> key_of (f r) = key_of r)"

lemma keeps_key_mark [simp]:
  "keeps_key (mark_attempt_pending n)" "keeps_key (mark_call_failed st msg)" "keeps_key (mark_success n c)"
  "keeps_key (record_reply st resp err)" "keeps_key id"
  by (simp_all add: keeps_key_def record_reply_def mark_attempt_pending_def mark_call_failed_def mark_success_def key_of_def)

lemma keeps_key_comp: "keeps_key f \<Longrightarrow> keeps_key g \<Longrightarrow> keeps_key (g \<circ> f)"
  by (simp add: keeps_key_def)

lemma modify_call_comp: "keeps_key f \<Longrightarrow> modify_call c g (modify_call c f db) = modify_call c (g \<circ> f) db"
  by (simp add: modify_call_def keeps_key_def cong: if_cong)

lemma modify_call_id: "modify_call c id db = db"
  by (auto simp: modify_call_def map_idI)

lemma store_ok_modify_key: "keeps_key f \<Longrightarrow> store_ok db \<Longrightarrow> store_ok (modify_call c f db)"
  by (rule store_ok_modify_call) (auto simp: keeps_key_def key_of_def)

lemma call_attempts_db:
  "call_attempts env cc cp adaptive row attempt left last_error w = (out, w') \<Longrightarrow>
    \<exists>f. keeps_key f \<and> cw_db w' = modify_call (mc_id row) f (cw_db w)"
proof (induction left arbitrary: attempt last_error w)
  case 0
  then show ?case by (auto simp: handle_retry_exhausted_def split: option.splits intro: keeps_key_mark)
next
  case (Suc left)
  show ?case
  proof (cases "prepare_api_call env cc cp adaptive row")
    case (Inl msg)
    with Suc.prems show ?thesis by (auto simp: call_attempts.simps(2) intro: keeps_key_mark)
  next
    case (Inr args)
    let ?n = "mc_retries row + int attempt + 1"
    let ?p = "mark_attempt_pending ?n"
    obtain r w1 where c: "complete_call env args (on_db (modify_call (mc_id row) ?p) w) = (r, w1)" by fastforce
    have w1: "cw_db w1 = modify_call (mc_id row) ?p (cw_db w)" using complete_call_world [OF c] by simp
    have *: "\<exists>f. keeps_key f \<and> modify_call (mc_id row) g (cw_db w1) = modify_call (mc_id row) f (cw_db w)" if "keeps_key g" for g
      using that keeps_key_comp [OF keeps_key_mark(1) that] by (auto simp: w1 modify_call_comp)
    show ?thesis
    proof (cases r)
      case r: (Inr content)
      with Suc.prems Inr c have "cw_db w' = modify_call (mc_id row) (mark_success ?n content) (cw_db w1)"
        by (auto simp: call_attempts.simps(2) Let_def)
      with * [of "mark_success ?n content"] show ?thesis by simp
    next
      case r: (Inl e)
      show ?thesis
      proof (cases "unreduced e \<and> is_retryable_error e \<and> left \<noteq> 0")
        case True
        let ?g = "mark_call_failed ''retrying'' (retry_message (int attempt + 1) (cc_retries cc) e)"
        let ?w2 = "(on_db (modify_call (mc_id row) ?g) w1)\<lparr>cw_waits := cw_waits w1 @ [retry_wait e attempt]\<rparr>"
        have "call_attempts env cc cp adaptive row (attempt + 1) left (Some e) ?w2 = (out, w')"
          using True r Inr c Suc.prems
          by (cases e) (simp_all add: call_attempts.simps(2) [of env cc cp adaptive row attempt left last_error w] Let_def unreduced_def)
        from Suc.IH [OF this] obtain f where f: "keeps_key f" "cw_db w' = modify_call (mc_id row) f (cw_db ?w2)" by blast
        then have "cw_db w' = modify_call (mc_id row) (f \<circ> ?g) (cw_db w1)" by (simp add: modify_call_comp)
        with * [OF keeps_key_comp [OF keeps_key_mark(2) f(1)]] show ?thesis by auto
      next
        case False
        then have "\<exists>st. cw_db w' = modify_call (mc_id row) (mark_call_failed st (error_text e)) (cw_db w1)"
          using r Inr c Suc.prems
          by (cases e) (auto simp: call_attempts.simps(2) [of env cc cp adaptive row attempt left last_error w] Let_def unreduced_def
              handle_retry_exhausted_def split: if_splits)
        with * [OF keeps_key_mark(2)] show ?thesis by auto
      qed
    qed
  qed
qed

text \<open>How the store may change under the classifier: segments stay, calls stay with their posts, and the store
  stays consistent.\<close>

definition valid_call :: "int \<Rightarrow> int \<Rightarrow> media_db \<Rightarrow> bool" where
  "valid_call post cid db \<longleftrightarrow> list_ex (\<lambda>c. mc_id c = cid \<and> mc_post c = post) (m_calls db)"

definition evolves :: "media_db \<Rightarrow> media_db \<Rightarrow> bool" where
  "evolves db db' \<longleftrightarrow> m_segments db' = m_segments db \<and> (\<forall>p c. valid_call p c db \<longrightarrow> valid_call p c db') \<and>
     (store_ok db \<longrightarrow> store_ok db')"

lemma evolves_refl [simp]: "evolves db db"
  by (simp add: evolves_def)

lemma evolves_trans: "evolves a b \<Longrightarrow> evolves b c \<Longrightarrow> evolves a c"
  by (simp add: evolves_def)

lemma evolves_modify: "keeps_key f \<Longrightarrow> evolves db (modify_call c f db)"
  using store_ok_modify_key [of f db c]
  by (auto simp: evolves_def valid_call_def modify_call_def keeps_key_def key_of_def list_ex_iff)

lemma evolves_try_update_call: "evolves db (try_update_call cid st r e db)"
  by (auto simp: try_update_call_def evolves_modify split: option.splits)

lemma evolves_modify_post: "evolves db (modify_post p f db)"
  by (auto simp: evolves_def valid_call_def modify_post_def store_ok_def ident_refs_def list_all_iff)

lemma get_or_insert_call_valid:
  assumes "get_or_insert_call (p, m, f, l) (new_call_row (p, m, f, l) pr now) db = Inr (cid, db')"
  shows "m_segments db' = m_segments db \<and> set (m_calls db) \<subseteq> set (m_calls db') \<and> valid_call p cid db'"
proof (cases "query_call (p, m, f, l) db")
  case None
  with assms show ?thesis
    by (auto simp: get_or_insert_call_def Let_def insert_call_def valid_call_def new_call_row_def list_ex_iff split: if_splits sum.splits)
next
  case (Some c)
  then obtain cs where "sort_key (\<lambda>c. - mc_time c) (filter (\<lambda>c. key_of c = (p, m, f, l)) (m_calls db)) = c # cs"
    by (auto simp: query_call_def split: list.splits)
  then have "c \<in> set (filter (\<lambda>c. key_of c = (p, m, f, l)) (m_calls db))" by (metis list.set_intros(1) set_sort)
  then have "c \<in> set (m_calls db)" "key_of c = (p, m, f, l)" by auto
  with Some assms show ?thesis by (auto simp: get_or_insert_call_def valid_call_def key_of_def list_ex_iff)
qed

lemma evolves_upsert:
  assumes "upsert_model_call_action (Some p) (Some m) (Some f) (Some l) (Some pr) now db = Inr (cid, db')"
  shows "evolves db db' \<and> valid_call p cid db'"
proof -
  obtain db1 where g: "get_or_insert_call (p, m, f, l) (new_call_row (p, m, f, l) pr now) db = Inr (cid, db1)"
    and db': "db' = modify_call cid (reset_call pr) db1"
    using assms by (auto simp: upsert_model_call_action_def split: if_splits sum.splits)
  have k: "keeps_key (reset_call pr)" by (simp add: keeps_key_def key_of_def reset_call_def)
  note v = get_or_insert_call_valid [OF g]
  have "valid_call q c db \<Longrightarrow> valid_call q c db1" for q c using v by (auto simp: valid_call_def list_ex_iff)
  moreover have "valid_call q c db1 \<Longrightarrow> valid_call q c db'" for q c
    using evolves_modify [OF k, of db1 cid] db' by (simp add: evolves_def)
  moreover have "store_ok db \<Longrightarrow> store_ok db'" using store_ok_upsert assms by blast
  ultimately show ?thesis using v db' by (auto simp: evolves_def)
qed

lemma evolves_try_upsert:
  "try_upsert env cc p f l pr db = (cid, db') \<Longrightarrow> evolves db db' \<and> (\<forall>c. cid = Some c \<longrightarrow> valid_call p c db')"
  using evolves_upsert by (auto simp: try_upsert_def split: sum.splits prod.splits)

text \<open>Rows for existing segments with calls of their posts.\<close>

definition rows_valid :: "entry_row list \<Rightarrow> media_db \<Rightarrow> bool" where
  "rows_valid rs db \<longleftrightarrow> (\<forall>r\<in>set rs. \<exists>s\<in>set (m_segments db). sg_id s = fst r \<and> valid_call (sg_post s) (fst (snd r)) db)"

lemma rows_valid_evolves: "rows_valid rs db \<Longrightarrow> evolves db db' \<Longrightarrow> rows_valid rs db'"
  unfolding rows_valid_def evolves_def by metis

lemma store_ok_add_rows: "store_ok db \<Longrightarrow> rows_valid rs db \<Longrightarrow> store_ok (add_rows rs db)"
proof -
  assume ok: "store_ok db" and v: "rows_valid rs db"
  obtain n where n: "insert_identifications_action (\<lambda>_. []) None (JList (map row_entry rs)) db = Inr (n, add_rows rs db)"
    using insert_identifications_entries by blast
  have "ident_refs db (fst r) (fst (snd r))" if "r \<in> set rs" for r
    using v that by (auto simp: rows_valid_def ident_refs_iff valid_call_def list_ex_iff)
  then have "idents_valid (\<lambda>_. []) (JList (map row_entry rs)) db"
    by (auto simp: idents_valid_def ident_payload_entry ident_of_def list_all_iff)
  with store_ok_insert_idents [OF ok n] show ?thesis by blast
qed

lemma evolves_add_rows: "rows_valid rs db \<Longrightarrow> evolves db (add_rows rs db)"
  using store_ok_add_rows by (auto simp: evolves_def valid_call_def)

lemma evolves_drop_idents:
  assumes "replace_identifications_action so e ids (JList []) db = Inr (n, db')"
  shows "evolves db db'"
proof -
  have "store_ok db \<Longrightarrow> store_ok db'"
    using store_ok_replace_idents [OF _ assms] by (simp add: idents_valid_def)
  moreover have "m_segments db' = m_segments db \<and> m_calls db' = m_calls db"
    using assms by (auto simp: replace_identifications_action_def insert_identifications_action_def Let_def split: sum.splits)
  ultimately show ?thesis by (auto simp: evolves_def valid_call_def)
qed

text \<open>The segments that are classified, all of the post.\<close>

definition segments_of :: "int \<Rightarrow> segment_row list \<Rightarrow> media_db \<Rightarrow> bool" where
  "segments_of post segs db \<longleftrightarrow> set segs \<subseteq> set (m_segments db) \<and> (\<forall>s\<in>set segs. sg_post s = post)"

lemma segments_of_evolves: "segments_of post segs db \<Longrightarrow> evolves db db' \<Longrightarrow> segments_of post segs db'"
  by (simp add: segments_of_def evolves_def)

lemma rows_valid_segments:
  "segments_of post segs db \<Longrightarrow> valid_call post cid db \<Longrightarrow> \<forall>r\<in>set rs. fst r \<in> seg_ids segs \<and> fst (snd r) = cid \<Longrightarrow> rows_valid rs db"
  unfolding rows_valid_def segments_of_def by fastforce

lemma create_identifications_evolves:
  assumes "create_identifications env cc preds chunk cid db = Inr (matched, db')" "segments_of post chunk db" "valid_call post cid db"
  shows "evolves db db'"
proof -
  let ?ms = "collect_matches db (cc_min_confidence cc) chunk preds"
  have "fst ` set (ms_insert ?ms) \<subseteq> seg_ids chunk"
    using collect_matches_ok [of db chunk "cc_min_confidence cc" preds] unfolding match_ok_def by blast
  then have "rows_valid (map (\<lambda>(s, c). (s, cid, c)) (ms_insert ?ms)) db"
    by (intro rows_valid_segments [OF assms(2,3)]) force
  with create_identifications_result [OF assms(1)] evolves_add_rows show ?thesis by simp
qed

lemma use_response_evolves:
  assumes "use_response env cc cid chunk w = (out, w')" "segments_of post chunk (cw_db w)" "valid_call post cid (cw_db w)"
  shows "evolves (cw_db w) (cw_db w')"
  using assms create_identifications_evolves [OF _ assms(2,3)]
  by (auto simp: use_response_def process_successful_response_def split: option.splits if_splits sum.splits)

lemma perform_llm_call_evolves:
  "perform_llm_call env cc cp adaptive row w = (out, w') \<Longrightarrow> evolves (cw_db w) (cw_db w')"
  using call_attempts_db evolves_modify
  by (fastforce simp: perform_llm_call_def handle_test_mode_call_def call_model_def split: if_splits)

lemma process_chunk_evolves:
  assumes "process_chunk env cc cp post a chunk prompt w = (out, w')" "segments_of post chunk (cw_db w)"
  shows "evolves (cw_db w) (cw_db w')"
proof (cases "chunk = []")
  case True
  with assms show ?thesis by (simp add: process_chunk_def)
next
  case False
  let ?up = "upsert_model_call_action (Some post) (Some (cc_model cc)) (Some (sg_num (hd chunk))) (Some (sg_num (last chunk)))
      (Some prompt) (env_now env) (cw_db w)"
  show ?thesis
  proof (cases ?up)
    case (Inl e)
    with assms False show ?thesis by (simp add: process_chunk_def)
  next
    case (Inr r)
    then obtain cid db where up: "?up = Inr (cid, db)" by (cases r) auto
    note e1 = evolves_upsert [OF up]
    let ?w1 = "w\<lparr>cw_db := db\<rparr>"
    have s1: "segments_of post chunk db" using segments_of_evolves [OF assms(2)] e1 by blast
    have use: "evolves db (cw_db w3)" if "use_response env cc cid chunk w2 = (o2, w3)" "evolves db (cw_db w2)" for o2 w2 w3
    proof -
      have "valid_call post cid (cw_db w2)" using e1 that(2) by (auto simp: evolves_def)
      from use_response_evolves [OF that(1) segments_of_evolves [OF s1 that(2)] this] that(2) evolves_trans show ?thesis by blast
    qed
    show ?thesis
    proof (cases "call_row_of cid db")
      case None
      with assms(1) False up e1 show ?thesis by (auto simp: process_chunk_def)
    next
      case (Some row)
      show ?thesis
      proof (cases "should_call_llm row")
        case True
        obtain o2 w2 where p: "perform_llm_call env cc cp a row ?w1 = (o2, w2)" by fastforce
        have e2: "evolves db (cw_db w2)" using perform_llm_call_evolves [OF p] by simp
        have "w' = w2 \<or> use_response env cc cid chunk w2 = (out, w')"
          using assms(1) False up Some True p by (auto simp: process_chunk_def Let_def split: call_outcome.splits)
        with e1 e2 use [OF _ e2] evolves_trans show ?thesis by blast
      next
        case b: False
        have "w' = ?w1 \<or> use_response env cc cid chunk ?w1 = (out, w')"
          using assms(1) False up Some b by (auto simp: process_chunk_def Let_def split: sum.splits option.splits)
        with e1 use [of ?w1] evolves_trans show ?thesis by auto
      qed
    qed
  qed
qed

interpretation chunks: chunk_processor "process_chunk env cc cp post" segs
    "\<lambda>w. evolves db (cw_db w) \<and> segments_of post segs (cw_db w)"
  for env cc cp post segs db
proof
  fix w chunk a prompt out w'
  assume h: "evolves db (cw_db w) \<and> segments_of post segs (cw_db w)" "chunk \<noteq> []" "set chunk \<subseteq> set segs"
    "process_chunk env cc cp post a chunk prompt w = (out, w')"
  then have "segments_of post chunk (cw_db w)" by (auto simp: segments_of_def)
  from process_chunk_evolves [OF h(4) this] h(1) show "evolves db (cw_db w') \<and> segments_of post segs (cw_db w')"
    using evolves_trans segments_of_evolves by blast
qed

section \<open>The passes\<close>

lemma ads_of_post_mem:
  "(i, s) \<in> set (ads_of_post post db) \<Longrightarrow> s \<in> set (m_segments db) \<and> sg_post s = post \<and> sg_id s = id_segment i \<and> i \<in> set (m_idents db)"
  by (auto simp: ads_of_post_def)

lemma ads_of_post_call:
  assumes "(i, s) \<in> set (ads_of_post post db)" "store_ok db"
  shows "valid_call post (id_call i) db"
proof -
  note m = ads_of_post_mem [OF assms(1)]
  then have "ident_refs db (id_segment i) (id_call i)" using assms(2) by (auto simp: store_ok_def list_all_iff)
  then obtain g where g: "g \<in> set (m_segments db)" "sg_id g = id_segment i" "valid_call (sg_post g) (id_call i) db"
    by (auto simp: ident_refs_iff valid_call_def list_ex_iff)
  have "inj_on sg_id (set (m_segments db))" using assms(2) by (simp add: store_ok_def segments_ok_def distinct_map)
  from inj_onD [OF this, of g s] g(1,2) m have "g = s" by simp
  with g m show ?thesis by simp
qed

lemma segment_numbered_Some: "segment_numbered post n db = Some s \<Longrightarrow> s \<in> set (m_segments db) \<and> sg_post s = post \<and> sg_num s = n"
  by (auto simp: segment_numbered_def find_Some_iff)

lemma consider_neighbor_set:
  "set (consider_neighbor b post ex db ad off tc) \<subseteq> set tc \<union> {(sg_id s, c) | s c. segment_numbered post (sg_num ad + off) db = Some s}"
  by (auto simp: consider_neighbor_def Let_def split: option.splits if_splits)

lemma fold_subset:
  assumes "\<And>x a. x \<in> set xs \<Longrightarrow> set (f x a) \<subseteq> set a \<union> S"
  shows "set (fold f xs a) \<subseteq> set a \<union> S"
  using assms
proof (induction xs arbitrary: a)
  case (Cons x xs)
  have "set (fold f xs (f x a)) \<subseteq> set (f x a) \<union> S" by (rule Cons.IH) (use Cons.prems in auto)
  moreover have "set (f x a) \<subseteq> set a \<union> S" using Cons.prems by simp
  ultimately show ?case by auto
qed simp

lemma neighbors_to_create_set:
  "set (neighbors_to_create b post cid ads db) \<subseteq>
    {(sg_id s, c) | s c. \<exists>m\<in>set ads. \<exists>off\<in>set neighbor_offsets. segment_numbered post (sg_num (snd m) + off) db = Some s}"
proof -
  let ?S = "{(sg_id s, c) | s c. \<exists>m\<in>set ads. \<exists>off\<in>set neighbor_offsets. segment_numbered post (sg_num (snd m) + off) db = Some s}"
  let ?ex = "map id_segment (filter (\<lambda>i. id_call i = cid \<and> id_label i = ''ad'') (m_idents db))"
  have "set (fold (consider_neighbor b post ?ex db (snd m)) neighbor_offsets tc) \<subseteq> set tc \<union> ?S" if "m \<in> set ads" for m tc
    using that consider_neighbor_set by (intro fold_subset) fastforce
  then have "set (fold (\<lambda>(i, s). fold (consider_neighbor b post ?ex db s) neighbor_offsets) ads []) \<subseteq> set [] \<union> ?S"
    by (intro fold_subset) (auto simp: case_prod_beta)
  then show ?thesis by (simp add: neighbors_to_create_def)
qed

lemma expand_pass_evolves:
  assumes "store_ok db" "expand_pass env b post db = Inr db'"
  shows "evolves db db'"
proof (cases "ads_of_post post db")
  case Nil
  with assms show ?thesis by (simp add: expand_pass_def)
next
  case (Cons m rest)
  obtain i s where m: "m = (i, s)" by fastforce
  show ?thesis
  proof (cases "call_row_of (id_call i) db")
    case None
    with assms Cons m show ?thesis by (simp add: expand_pass_def)
  next
    case (Some c)
    let ?tc = "neighbors_to_create b post (mc_id c) (m # rest) db"
    obtain n where n: "insert_identifications_batched env (map (ident_entry (mc_id c)) ?tc) db =
        Inr (n, add_rows (map (\<lambda>(s, k). (s, mc_id c, k)) ?tc) db)" using insert_entries_of_call by blast
    have "mc_id c = id_call i" using call_row_of_Some [OF Some] by simp
    then have v: "valid_call post (mc_id c) db" using ads_of_post_call [of i s post db] Cons m assms(1) by simp
    have "rows_valid (map (\<lambda>(s, k). (s, mc_id c, k)) ?tc) db"
      unfolding rows_valid_def
    proof
      fix r assume "r \<in> set (map (\<lambda>(s, k). (s, mc_id c, k)) ?tc)"
      then obtain x k where r: "r = (x, mc_id c, k)" "(x, k) \<in> set ?tc" by auto
      then obtain u where "x = sg_id u" "u \<in> set (m_segments db)" "sg_post u = post"
        using neighbors_to_create_set [of b post "mc_id c" "m # rest" db] segment_numbered_Some by fastforce
      with r v show "\<exists>s\<in>set (m_segments db). sg_id s = fst r \<and> valid_call (sg_post s) (fst (snd r)) db" by auto
    qed
    with assms(2) Cons m Some n evolves_add_rows show ?thesis
      by (auto simp: expand_pass_def expand_neighbors_bulk_def Let_def split: if_splits)
  qed
qed

lemma confirm_repeat_evolves:
  assumes "confirm_repeat env cc post txt segs f hint w = (cf, w')"
  shows "evolves (cw_db w) (cw_db w') \<and> (\<forall>c. cf_call cf = Some c \<longrightarrow> valid_call post c (cw_db w'))"
proof -
  obtain cid db1 where u: "try_upsert env cc post REPEAT_AD_CONFIRM_FIRST_SEQ_SENTINEL f (env_confirm_prompt env txt segs) (cw_db w) = (cid, db1)"
    by fastforce
  note e = evolves_try_upsert [OF u]
  obtain r llm where h: "helper_call env cc 1024 (env_confirm_prompt env txt segs) cid (cw_llm w) = (r, llm)" by (metis prod.collapse)
  have "evolves db1 (cw_db w') \<and> cf_call cf = cid"
    using assms u h evolves_try_update_call evolves_trans [OF evolves_try_update_call evolves_try_update_call]
    by (auto simp: confirm_repeat_def Let_def split: sum.splits option.splits)
  with e evolves_trans show ?thesis by (auto simp: evolves_def)
qed

lemma segments_between_subset: "set (segments_between f l segs) \<subseteq> set segs"
proof
  fix s assume "s \<in> set (segments_between f l segs)"
  then obtain n where "find (\<lambda>s. sg_num s = n) (rev segs) = Some s"
    by (auto simp: segments_between_def List.map_filter_def)
  then show "s \<in> set segs" by (auto simp: find_Some_iff) (metis length_rev nth_mem set_rev)
qed

definition repeat_ok :: "int \<Rightarrow> segment_row list \<Rightarrow> media_db \<Rightarrow> 'p repeat_state \<Rightarrow> bool" where
  "repeat_ok post segs db st \<longleftrightarrow>
     (case st of (found, new_rows, w) \<Rightarrow> evolves db (cw_db w) \<and> segments_of post segs (cw_db w) \<and> rows_valid new_rows (cw_db w))"

lemma try_candidate_ok:
  assumes "repeat_ok post segs db st"
  shows "repeat_ok post segs db (try_candidate env cc post segs txt hint cand st)"
proof -
  obtain found rows w where st: "st = (found, rows, w)" by (metis prod_cases3)
  obtain es w' where c: "confirm_and_record_repeat env cc post segs txt hint cand w = (es, w')" by fastforce
  have a: "evolves db (cw_db w)" "segments_of post segs (cw_db w)" "rows_valid rows (cw_db w)"
    using assms st by (auto simp: repeat_ok_def)
  have "evolves (cw_db w) (cw_db w') \<and> rows_valid es (cw_db w')"
  proof (cases "segments_between (first_seq cand) (last_seq cand) segs = []")
    case True
    with c show ?thesis by (auto simp: confirm_and_record_repeat_def rows_valid_def)
  next
    case False
    obtain cf w1 where cr: "confirm_repeat env cc post txt (segments_between (first_seq cand) (last_seq cand) segs) (first_seq cand) hint w = (cf, w1)"
      by fastforce
    note e = confirm_repeat_evolves [OF cr]
    have w1: "w' = w1" using c cr False by (auto simp: confirm_and_record_repeat_def Let_def split: option.splits if_splits)
    have "rows_valid (map (\<lambda>s. (sg_id s, cid, k)) (segments_between (first_seq cand) (last_seq cand) segs)) (cw_db w1)"
      if "cf_call cf = Some cid" for cid k
      by (rule rows_valid_segments [OF segments_of_evolves [OF a(2) conjunct1 [OF e]]])
         (use e that in \<open>auto dest!: subsetD [OF segments_between_subset]\<close>)
    then have "rows_valid es (cw_db w1)"
      using c cr False by (auto simp: confirm_and_record_repeat_def Let_def rows_valid_def split: option.splits if_splits)
    with e w1 show ?thesis by simp
  qed
  with a st c show ?thesis
    using evolves_trans segments_of_evolves rows_valid_evolves
    by (auto simp: try_candidate_def repeat_ok_def rows_valid_def ball_Un)
qed

lemma search_block_ok:
  assumes "repeat_ok post segs db (snd st)"
  shows "repeat_ok post segs db (snd (search_block env cc post segs ranges b st))"
proof -
  have "repeat_ok post segs db (fold (try_candidate env cc post segs tx hint) cands r)" if "repeat_ok post segs db r" for tx hint cands r
    using that by (induction cands arbitrary: r) (simp_all add: try_candidate_ok)
  then show ?thesis using assms by (cases st; cases "detected_range b") (simp add: search_block_def Let_def)
qed

lemma detect_repeat_ads_evolves:
  assumes "detect_repeat_ads env cc post segs w = Inr w'" "segments_of post segs (cw_db w)"
  shows "evolves (cw_db w) (cw_db w')"
proof -
  let ?bs = "group_into_blocks (ads_of_post post (cw_db w))"
  let ?f = "search_block env cc post segs (map detected_range ?bs)"
  obtain seen found rows w1 where f: "fold ?f ?bs ([], [], [], w) = (seen, found, rows, w1)" by (metis prod_cases4)
  have "repeat_ok post segs (cw_db w) (snd (fold ?f bs st))" if "repeat_ok post segs (cw_db w) (snd st)" for bs st
    using that by (induction bs arbitrary: st) (simp_all add: search_block_ok)
  from this [of "([], [], [], w)" ?bs] f assms(2)
  have ok: "evolves (cw_db w) (cw_db w1)" "rows_valid rows (cw_db w1)"
    by (auto simp: repeat_ok_def rows_valid_def)
  obtain n where "insert_identifications_batched env (map row_entry rows) (cw_db w1) = Inr (n, add_rows rows (cw_db w1))"
    using insert_entries by blast
  with assms(1) f ok evolves_add_rows [OF ok(2)] evolves_trans show ?thesis
    by (auto simp: detect_repeat_ads_def Let_def split: if_splits)
qed

lemma refine_block_evolves:
  assumes "refine_block env cc post segs b w = (r, w')"
  shows "evolves (cw_db w) (cw_db w')"
proof -
  have fold: "evolves db (fold (apply_call_update cid) us db)" for cid us db
  proof (induction us arbitrary: db)
    case (Cons u us)
    show ?case using evolves_trans [OF _ Cons.IH] evolves_try_update_call by (simp add: apply_call_update_def split: prod.splits)
  qed simp
  obtain f l where d: "detected_range b = (f, l)" by fastforce
  let ?p = "env_refine_prompt env (mb_start b) (mb_end b) (mb_conf b) (get_context (mb_start b) (mb_end b) (map context_segment_of segs))"
  obtain cid db1 where u: "try_upsert env cc post f l ?p (cw_db w) = (cid, db1)" by fastforce
  have "\<exists>us. cw_db w' = fold (apply_call_update cid) us db1"
    using assms d u by (auto simp: refine_block_def Let_def split: prod.splits)
  with fold evolves_try_upsert [OF u] evolves_trans show ?thesis by metis
qed

lemma apply_refinement_evolves:
  assumes "apply_refinement env b r segs cid db = Inr db'" "segments_of post segs db" "valid_call post cid db"
  shows "evolves db db'"
proof -
  obtain n db1 where d: "replace_identifications_action (env_str env) (env_batch env) (map (id_id \<circ> fst) (mb_marked b)) (JList []) db = Inr (n, db1)"
    using assms(1) by (auto simp: apply_refinement_def split: sum.splits)
  note e = evolves_drop_idents [OF d]
  let ?ps = "map (\<lambda>s. (sg_id s, mb_conf b)) (filter (in_refined_window r) segs)"
  obtain k where k: "insert_identifications_batched env (map (ident_entry cid) ?ps) db1 = Inr (k, add_rows (map (\<lambda>(s, c). (s, cid, c)) ?ps) db1)"
    using insert_entries_of_call by blast
  have "rows_valid (map (\<lambda>(s, c). (s, cid, c)) ?ps) db1"
    by (rule rows_valid_segments [OF segments_of_evolves [OF assms(2) e]]) (use e assms(3) in \<open>auto simp: evolves_def\<close>)
  from evolves_trans [OF e evolves_add_rows [OF this]] assms(1) d k e show ?thesis
    by (auto simp: apply_refinement_def Let_def o_def split: if_splits)
qed

lemma refine_blocks_evolves:
  assumes "refine_blocks env cc post segs bs es w = Inr (es', w')" "segments_of post segs (cw_db w)"
    and "\<forall>b\<in>set bs. valid_call post (id_call (fst (hd (mb_marked b)))) (cw_db w)"
  shows "evolves (cw_db w) (cw_db w')"
  using assms
proof (induction bs arbitrary: es w)
  case (Cons b bs)
  show ?case
  proof (cases "worth_refining b")
    case False
    with Cons show ?thesis by simp
  next
    case True
    obtain r w1 where r: "refine_block env cc post segs b w = (r, w1)" by fastforce
    note e = refine_block_evolves [OF r]
    have v1: "\<forall>b\<in>set (b # bs). valid_call post (id_call (fst (hd (mb_marked b)))) (cw_db w1)"
      using Cons.prems(3) e by (auto simp: evolves_def)
    have s1: "segments_of post segs (cw_db w1)" using segments_of_evolves [OF Cons.prems(2) e] .
    show ?thesis
    proof (cases "call_row_of (id_call (fst (hd (mb_marked b)))) (cw_db w1)")
      case None
      with Cons.prems(1) True r have "refine_blocks env cc post segs bs es w1 = Inr (es', w')" by simp
      from Cons.IH [OF this s1] v1 e evolves_trans show ?thesis by auto
    next
      case (Some c)
      then have c: "mc_id c = id_call (fst (hd (mb_marked b)))" using call_row_of_Some by blast
      obtain db where a: "apply_refinement env b r segs (mc_id c) (cw_db w1) = Inr db"
        and rest: "refine_blocks env cc post segs bs (es @ [boundary_entry b r]) (w1\<lparr>cw_db := db\<rparr>) = Inr (es', w')"
        using Cons.prems(1) True r Some by (auto split: sum.splits)
      have e2: "evolves (cw_db w1) db" by (rule apply_refinement_evolves [OF a s1]) (use v1 c in simp)
      have "evolves db (cw_db w')"
        using Cons.IH [OF rest] segments_of_evolves [OF s1 e2] v1 e2 by (auto simp: evolves_def)
      with e e2 evolves_trans show ?thesis by blast
    qed
  qed
qed simp

lemma blocks_loop_marked:
  "b \<in> set (blocks_loop cur ms) \<Longrightarrow> mb_marked b \<noteq> [] \<and> set (mb_marked b) \<subseteq> set cur \<union> set ms"
proof (induction cur ms rule: blocks_loop.induct)
  case (1 cur)
  then show ?case by (auto simp: create_block_def split: if_splits)
next
  case (2 cur m ms)
  show ?case
  proof (cases "cur = [] \<or> sg_start (snd m) - sg_end (snd (last cur)) \<le> 10")
    case True
    with 2 show ?thesis by auto
  next
    case False
    then show ?thesis using 2(2) 2(3) by (auto simp: create_block_def)
  qed
qed

lemma group_into_blocks_marked:
  "b \<in> set (group_into_blocks ms) \<Longrightarrow> mb_marked b \<noteq> [] \<and> set (mb_marked b) \<subseteq> set ms"
  using blocks_loop_marked [of b "[]" "sort_key (sg_start \<circ> snd) ms"] by (simp add: group_into_blocks_def split: if_splits)

lemma refine_pass_evolves:
  assumes "refine_pass env cc post segs w = Inr w'" "segments_of post segs (cw_db w)" "store_ok (cw_db w)"
  shows "evolves (cw_db w) (cw_db w')"
proof -
  let ?bs = "group_into_blocks (ads_of_post post (cw_db w))"
  obtain es w1 f where r: "refine_blocks env cc post segs ?bs [] w = Inr (es, w1)" and w': "w' = on_db (modify_post post f) w1"
    using assms(1) by (auto simp: refine_pass_def split: sum.splits)
  have "valid_call post (id_call (fst (hd (mb_marked b)))) (cw_db w)" if "b \<in> set ?bs" for b
  proof -
    have "hd (mb_marked b) \<in> set (ads_of_post post (cw_db w))"
      using group_into_blocks_marked [OF that] hd_in_set by blast
    then show ?thesis using ads_of_post_call assms(3) by (metis prod.collapse)
  qed
  with refine_blocks_evolves [OF r assms(2)] have "evolves (cw_db w) (cw_db w1)" by blast
  with evolves_modify_post evolves_trans w' show ?thesis by auto
qed

lemma after_chunks_evolves:
  assumes "after_chunks env cc post segs w1 = (o2, w2)" and "store_ok (cw_db w1)" and "segments_of post segs (cw_db w1)"
  shows "evolves (cw_db w1) (cw_db w2)"
proof (cases "expand_pass env (cc_refine cc) post (cw_db w1)")
  case (Inl e)
  with assms(1) show ?thesis by (auto simp: after_chunks_def)
next
  case (Inr db)
  note e2 = expand_pass_evolves [OF assms(2) Inr]
  let ?w = "w1\<lparr>cw_db := db\<rparr>"
  have s2: "segments_of post segs (cw_db ?w)" using segments_of_evolves [OF assms(3) e2] by simp
  show ?thesis
  proof (cases "repeat_pass env cc post segs ?w")
    case (Inl e)
    with assms(1) Inr e2 show ?thesis by (auto simp: after_chunks_def)
  next
    case rp: (Inr w3)
    have e3: "evolves db (cw_db w3)"
      using rp detect_repeat_ads_evolves [OF _ s2] by (auto simp: repeat_pass_def split: if_splits)
    have s3: "segments_of post segs (cw_db w3)" using segments_of_evolves [OF s2] e3 by simp
    have ok3: "store_ok (cw_db w3)" using assms(2) e2 e3 by (simp add: evolves_def)
    have e4: "evolves (cw_db w3) (cw_db w4)" if "boundary_pass env cc post segs w3 = Inr w4" for w4
      using that refine_pass_evolves [OF _ s3 ok3] by (auto simp: boundary_pass_def split: if_splits)
    show ?thesis
    proof (cases "boundary_pass env cc post segs w3")
      case (Inl e)
      with assms(1) Inr rp \<open>expand_pass env (cc_refine cc) post (cw_db w1) = Inr db\<close> have "w2 = w3" by (simp add: after_chunks_def)
      with evolves_trans [OF e2 e3] show ?thesis by simp
    next
      case bp: (Inr w4)
      with assms(1) Inr rp have "w2 = w4" by (simp add: after_chunks_def)
      with evolves_trans [OF evolves_trans [OF e2 e3] e4 [OF bp]] show ?thesis by simp
    qed
  qed
qed

lemma classify_evolves:
  assumes "classify env cc cp post segs adaptive w = (out, adaptive', w')" "store_ok (cw_db w)"
    and "segments_of post segs (cw_db w)"
  shows "evolves (cw_db w) (cw_db w')"
proof -
  let ?w0 = "w\<lparr>cw_parse_error := False\<rparr>"
  show ?thesis
  proof (cases "segs = []")
    case True
    with assms(1) show ?thesis by (auto simp: classify_def)
  next
    case False
    obtain wo a1 w1 where c: "classify_chunks (process_chunk env cc cp post) cp segs (adaptive, ?w0) = (wo, a1, w1)"
      by (metis prod_cases3)
    have e1: "evolves (cw_db w) (cw_db w1) \<and> segments_of post segs (cw_db w1)"
      using chunks.classify_chunks_keeps [OF c, of "cw_db w"] assms(3) by simp
    have ok1: "store_ok (cw_db w1)" using e1 assms(2) by (simp add: evolves_def)
    have "w' = w1 \<or> evolves (cw_db w1) (cw_db w')"
      using assms(1) False c after_chunks_evolves [OF _ ok1 conjunct2 [OF e1]] by (auto simp: classify_def Let_def split: walk_outcome.splits prod.splits)
    with e1 evolves_trans show ?thesis by auto
  qed
qed

text \<open>C9.  A run of the classifier on the segments of a post keeps the store consistent, whatever the model answers and however
  the run ends: identifications reference existing segments and calls of one post, and all keys stay unique.
  No transcript segment is touched.\<close>

theorem classifying_keeps_the_store_consistent:
  assumes "classify env cc cp post segs adaptive w = (out, adaptive', w')" "store_ok (cw_db w)"
    and "set segs \<subseteq> set (m_segments (cw_db w))" "\<forall>s\<in>set segs. sg_post s = post"
  shows "store_ok (cw_db w') \<and> m_segments (cw_db w') = m_segments (cw_db w)"
  using classify_evolves [OF assms(1,2)] assms(2-4) by (simp add: segments_of_def evolves_def)

section \<open>The writer's actions and the classifier's runs\<close>




section \<open>What a refinement marks\<close>

lemma list_ex_fold_insert:
  "list_ex (\<lambda>i. id_segment i = x \<and> id_label i = ''ad'') (snd (fold insert_ident (map ident_of rs) t)) \<longleftrightarrow>
    list_ex (\<lambda>i. id_segment i = x \<and> id_label i = ''ad'') (snd t) \<or> x \<in> fst ` set rs"
proof (induction rs arbitrary: t)
  case (Cons r rs)
  have "list_ex (\<lambda>i. id_segment i = x \<and> id_label i = ''ad'') (snd (insert_ident (ident_of r) t)) \<longleftrightarrow>
      list_ex (\<lambda>i. id_segment i = x \<and> id_label i = ''ad'') (snd t) \<or> x = fst r"
    by (auto simp: insert_ident_def ident_of_def list_ex_iff)
  with Cons.IH show ?case by auto
qed simp

lemma segment_has_ad_add_rows_iff:
  "segment_has_ad_identification (add_rows rs db) x \<longleftrightarrow> segment_has_ad_identification db x \<or> x \<in> fst ` set rs"
  by (simp add: segment_has_ad_identification_def add_rows_def list_ex_fold_insert)

text \<open>C27.  Applying a refinement always succeeds, and afterwards a segment is marked if it overlaps the refined
  window, or if an identification outside the block marks it, and not otherwise: the block's own marks outside the window are gone.\<close>

theorem refinement_marks_the_refined_window:
  shows "\<exists>db'. apply_refinement env b r segs cid db = Inr db' \<and>
    (\<forall>x. segment_has_ad_identification db' x \<longleftrightarrow>
       x \<in> sg_id ` {s \<in> set segs. in_refined_window r s} \<or>
       (\<exists>i\<in>set (m_idents db). id_id i \<notin> (id_id \<circ> fst) ` set (mb_marked b) \<and> id_segment i = x \<and> id_label i = ''ad''))"
proof -
  let ?ids = "map (id_id \<circ> fst) (mb_marked b)"
  let ?db1 = "db\<lparr>m_idents := filter (\<lambda>i. id_id i \<notin> set ?ids) (m_idents db)\<rparr>"
  let ?ps = "map (\<lambda>s. (sg_id s, mb_conf b)) (filter (in_refined_window r) segs)"
  have "insert_identifications_action so e (JList []) d = Inr (0, d)" for so e d
    using insert_identifications_entries [of so e "[]" d]
    by (auto simp: insert_identifications_action_def Let_def add_rows_def fold_fold_concat concat_batched)
  then have "replace_identifications_action so e ?ids (JList []) db = Inr ((length ?ids, 0), ?db1)" for so e
    by (simp add: replace_identifications_action_def)
  moreover obtain k where "insert_identifications_batched env (map (ident_entry cid) ?ps) ?db1 =
      Inr (k, add_rows (map (\<lambda>(s, c). (s, cid, c)) ?ps) ?db1)" using insert_entries_of_call by blast
  moreover have "add_rows [] ?db1 = ?db1" by (simp add: add_rows_def)
  ultimately have "apply_refinement env b r segs cid db = Inr (add_rows (map (\<lambda>(s, c). (s, cid, c)) ?ps) ?db1)"
    by (auto simp: apply_refinement_def Let_def o_def)
  moreover have "segment_has_ad_identification (add_rows (map (\<lambda>(s, c). (s, cid, c)) ?ps) ?db1) x \<longleftrightarrow>
       x \<in> sg_id ` {s \<in> set segs. in_refined_window r s} \<or>
       (\<exists>i\<in>set (m_idents db). id_id i \<notin> (id_id \<circ> fst) ` set (mb_marked b) \<and> id_segment i = x \<and> id_label i = ''ad'')" for x
    unfolding segment_has_ad_add_rows_iff
    by (auto simp: segment_has_ad_identification_def list_ex_iff image_iff)
  ultimately show ?thesis by blast
qed

section \<open>One key for two kinds of calls\<close>

lemma fold_apply_updates_row:
  assumes "call_row_of c db = Some r0"
  shows "call_row_of c (fold (apply_call_update (Some c)) us db) =
    Some (fold (\<lambda>(st, resp, err). record_reply st resp (map_option refine_error_text err)) us r0)"
  using assms
proof (induction us arbitrary: db r0)
  case (Cons u us)
  obtain st resp err where u: "u = (st, resp, err)" by (metis prod_cases3)
  have "call_row_of c (apply_call_update (Some c) u db) = Some (record_reply st resp (map_option refine_error_text err) r0)"
    using Cons.prems by (simp add: u apply_call_update_def try_update_call_def call_row_of_modify record_reply_def)
  from Cons.IH [OF this] show ?case by (simp add: u)
qed simp

lemma refine_boundary_updates:
  assumes "refine_boundary loads s e segs reply = (r, us)"
  shows "mc_response (fold (\<lambda>(st, resp, err). record_reply st resp (map_option refine_error_text err)) us r0) =
    (case reply of Inl e \<Rightarrow> None | Inr c \<Rightarrow> Some c)"
  using assms by (auto simp: refine_boundary_def Let_def record_reply_def split: sum.splits)

text \<open>The refiner records its call under the numbers of the block's first and last segment, the key that a chunk of the
  classifier with these ends has too.  The upsert then finds the chunk's row, and the reply that marked the ads is
  overwritten by the refiner's: when the chunk is processed again, that text is taken for the chunk's reply.\<close>

theorem refining_overwrites_the_chunks_reply:
  assumes "c \<in> set (m_calls (cw_db w))" "distinct (map key_of (m_calls (cw_db w)))" "distinct (map mc_id (m_calls (cw_db w)))"
    and "key_of c = (post, cc_model cc, fst (detected_range b), snd (detected_range b))"
    and "\<And>s e k ctx. env_refine_prompt env s e k ctx \<noteq> []"
    and "refine_block env cc post segs b w = (r, w')"
  shows "\<exists>c' reply. call_row_of (mc_id c) (cw_db w') = Some c' \<and> key_of c' = key_of c \<and>
    fst (helper_call env cc 4096 (env_refine_prompt env (mb_start b) (mb_end b) (mb_conf b)
      (get_context (mb_start b) (mb_end b) (map context_segment_of segs))) (Some (mc_id c)) (cw_llm w)) = reply \<and>
    mc_response c' = (case reply of Inl e \<Rightarrow> None | Inr txt \<Rightarrow> Some txt)"
proof -
  let ?segs = "map context_segment_of segs"
  let ?p = "env_refine_prompt env (mb_start b) (mb_end b) (mb_conf b) (get_context (mb_start b) (mb_end b) ?segs)"
  obtain f l where d: "detected_range b = (f, l)" by fastforce
  let ?db1 = "modify_call (mc_id c) (reset_call ?p) (cw_db w)"
  have up: "try_upsert env cc post f l ?p (cw_db w) = (Some (mc_id c), ?db1)"
    using upsert_existing [OF assms(1,2), of post "cc_model cc" f l ?p "env_now env"] assms(4,5) d by (simp add: try_upsert_def)
  obtain reply llm where h: "helper_call env cc 4096 ?p (Some (mc_id c)) (cw_llm w) = (reply, llm)" by (metis prod.collapse)
  obtain rr us where rb: "refine_boundary (env_loads env) (mb_start b) (mb_end b) ?segs reply = (rr, us)" by fastforce
  have w': "cw_db w' = fold (apply_call_update (Some (mc_id c))) us ?db1"
    using assms(6) d up h rb by (auto simp: refine_block_def Let_def)
  have row: "call_row_of (mc_id c) ?db1 = Some (reset_call ?p c)"
    using call_row_of_mem [OF assms(1,3)] by (simp add: call_row_of_modify)
  let ?F = "\<lambda>(st, resp, err). record_reply st resp (map_option refine_error_text err)"
  have key: "key_of (fold ?F us x) = key_of x" for x
    by (induction us arbitrary: x) (auto simp: record_reply_def key_of_def)
  have "call_row_of (mc_id c) (cw_db w') = Some (fold ?F us (reset_call ?p c))"
    unfolding w' by (rule fold_apply_updates_row [OF row])
  moreover have "key_of (reset_call ?p c) = key_of c" by (simp add: reset_call_def key_of_def)
  ultimately show ?thesis using key refine_boundary_updates [OF rb] h by auto
qed

section \<open>Examples\<close>

theorem classifying_keeps_the_store_consistent_witness:
  "store_ok (cw_db (snd (snd (classify plain_env plain_config (params_of 2 1 None) 1 (map seg [1, 2, 3]) None (world_with [stored_call ''failed''])))))"
proof -
  obtain o1 a1 w1 where c: "classify plain_env plain_config (params_of 2 1 None) 1 (map seg [1, 2, 3]) None (world_with [stored_call ''failed'']) =
      (o1, a1, w1)" by (metis prod_cases3)
  have ok: "store_ok (cw_db (world_with [stored_call ''failed'']))"
    by (simp add: world_with_def store_with_def store_ok_def segments_ok_def calls_ok_def seg_def stored_call_def segment_key_def key_of_def)
  from classifying_keeps_the_store_consistent [OF c ok] c show ?thesis
    by (simp add: world_with_def store_with_def seg_def)
qed




theorem refinement_marks_the_refined_window_witness:
  "\<exists>db'. apply_refinement plain_env \<lparr>mb_start = 0, mb_end = 30, mb_conf = 9 / 10, mb_marked = []\<rparr>
     \<lparr>refined_start = 5, refined_end = 12, start_adjustment_reason = JNull, end_adjustment_reason = JNull\<rparr> (map seg [1, 2, 3]) 4 (store_with []) = Inr db' \<and>
   segment_has_ad_identification db' 2 \<and> \<not> segment_has_ad_identification db' 3"
proof -
  let ?b = "\<lparr>mb_start = 0, mb_end = 30, mb_conf = 9 / 10, mb_marked = []\<rparr>"
  let ?r = "\<lparr>refined_start = 5, refined_end = 12, start_adjustment_reason = JNull, end_adjustment_reason = JNull\<rparr>"
  obtain db' where d: "apply_refinement plain_env ?b ?r (map seg [1, 2, 3]) 4 (store_with []) = Inr db'"
    "\<forall>x. segment_has_ad_identification db' x \<longleftrightarrow> x \<in> sg_id ` {s \<in> set (map seg [1, 2, 3]). in_refined_window ?r s} \<or>
       (\<exists>i\<in>set (m_idents (store_with [])). id_id i \<notin> (id_id \<circ> fst) ` set (mb_marked ?b) \<and> id_segment i = x \<and> id_label i = ''ad'')"
    using refinement_marks_the_refined_window [of plain_env ?b ?r "map seg [1, 2, 3]" 4 "store_with []"] by blast
  have f: "{s \<in> set (map seg [1, 2, 3]). in_refined_window ?r s} = {seg 1, seg 2}"
    unfolding set_filter [symmetric] by (simp add: in_refined_window_def seg_def)
  have "segment_has_ad_identification db' 2" "\<not> segment_has_ad_identification db' 3"
    using spec [OF d(2), of 2] spec [OF d(2), of 3] unfolding f by (simp_all add: seg_def store_with_def)
  with d(1) show ?thesis by blast
qed

definition whole_block :: marked_block where
  "whole_block = \<lparr>mb_start = 0, mb_end = 30, mb_conf = 9 / 10,
     mb_marked = map (\<lambda>n. (\<lparr>id_id = n, id_segment = n, id_call = 4, id_label = ''ad'', id_confidence = JNum (9 / 10)\<rparr>, seg n)) [1, 2, 3]\<rparr>"

theorem refining_overwrites_the_chunks_reply_witness:
  "\<exists>c'. call_row_of 4 (cw_db (snd (refine_block plain_env plain_config 1 (map seg [1, 2, 3]) whole_block
      (world_with [(stored_call ''success'')\<lparr>mc_response := Some ''ads''\<rparr>])))) = Some c' \<and> mc_response c' \<noteq> Some ''ads''"
proof -
  let ?c = "(stored_call ''success'')\<lparr>mc_response := Some ''ads''\<rparr>" and ?w = "world_with [(stored_call ''success'')\<lparr>mc_response := Some ''ads''\<rparr>]"
  obtain r w' where rb: "refine_block plain_env plain_config 1 (map seg [1, 2, 3]) whole_block ?w = (r, w')" by fastforce
  have range: "detected_range whole_block = (0, 2)" by (simp add: detected_range_def whole_block_def block_numbers_def seg_def)
  have h: "?c \<in> set (m_calls (cw_db ?w))" "distinct (map key_of (m_calls (cw_db ?w)))" "distinct (map mc_id (m_calls (cw_db ?w)))"
    "key_of ?c = (1, cc_model plain_config, fst (detected_range whole_block), snd (detected_range whole_block))"
    "\<And>s e k ctx. env_refine_prompt plain_env s e k ctx \<noteq> []"
    by (simp_all add: world_with_def store_with_def stored_call_def key_of_def range plain_config_def plain_env_def)
  have reply: "fst (helper_call plain_env plain_config 4096 p cid llm) = Inr ''reply''" for p cid llm
  proof -
    have t: "resolved_tier None = ''default''" by code_simp
    have n: "\<not> model_uses_max_completion_tokens ''m''" by code_simp
    have a: "arg_service_tier (helper_args plain_env plain_config 4096 p) = None"
      by (simp add: helper_args_def apply_service_tier_def plain_config_def plain_env_def normalize_completion_args_for_model_def n t)
    have c: "call_with_tpm_adjustment plain_provider args st = ((Inr \<lparr>answer_content = Some ''reply'', answer_tier = None\<rparr>, args), fst st, snd st @ [Requested args])"
      for args st by (simp add: call_with_tpm_adjustment_def send_def plain_provider_def)
    have e: "env_completion plain_env = plain_provider" by (simp add: plain_env_def)
    show ?thesis
      unfolding helper_call_def Let_def call_litellm_with_tier_retry_def e
      by (simp add: a c finish_call_def record_effective_service_tier_def Let_def split: prod.splits)
  qed
  from refining_overwrites_the_chunks_reply [OF h rb] reply obtain c' where
    "call_row_of (mc_id ?c) (cw_db w') = Some c'" "mc_response c' = Some ''reply''" by auto
  then have "call_row_of 4 (cw_db w') = Some c'" "mc_response c' \<noteq> Some ''ads''" by (simp_all add: stored_call_def)
  then show ?thesis unfolding rb snd_conv by blast
qed

end
