(* ===== verification/Retention.thy ===== *)
theory Retention
  imports PostStore
begin

text \<open>
  The retention job (\<open>src/app/post_cleanup.py\<close>): which processed episodes are old enough to go, and
  the loop that deletes their files and has the writer clear their rows.  The file system is the
  store's list of files with two arguments: the modification time of a file (\<open>None\<close> where \<open>stat\<close>
  fails) and whether a file can be unlinked.  \<open>reached\<close> tells for which posts the writer carries the
  action out; where it does not, the exception is logged and the loop goes on.  The rows of the
  candidates and of their jobs are the ones read at the start, as in the code.
\<close>

section \<open>Timestamps\<close>

definition processed_file_timestamp ::
  "(string \<Rightarrow> instant option) \<Rightarrow> string list \<Rightarrow> post_media \<Rightarrow> instant option" where
  "processed_file_timestamp mtime files p =
     (case pm_processed p of
        None \<Rightarrow> None
      | Some f \<Rightarrow> if f = [] then None else if f \<notin> set files then None else mtime f)"

definition load_latest_completed_map :: "job list \<Rightarrow> string list \<Rightarrow> string \<Rightarrow> instant option" where
  "load_latest_completed_map js guids g =
     (if g \<notin> set guids then None
      else (case List.map_filter completed_at (filter (\<lambda>j. post_guid j = g) js) of
          [] \<Rightarrow> None
        | t # ts \<Rightarrow> Some (fold max ts t)))"

definition post_timestamp ::
  "(string \<Rightarrow> instant option) \<Rightarrow> string list \<Rightarrow> (string \<Rightarrow> instant option) \<Rightarrow> post_media \<Rightarrow> instant option" where
  "post_timestamp mtime files latest p =
     (case (processed_file_timestamp mtime files p, latest (pm_guid p)) of
        (Some f, Some j) \<Rightarrow> Some (max f j)
      | (Some f, None) \<Rightarrow> Some f
      | (None, j) \<Rightarrow> j)"

definition processed_timestamp_before_cutoff ::
  "(string \<Rightarrow> instant option) \<Rightarrow> string list \<Rightarrow> (string \<Rightarrow> instant option) \<Rightarrow> instant \<Rightarrow> post_media \<Rightarrow> bool" where
  "processed_timestamp_before_cutoff mtime files latest cutoff p =
     (case (case (processed_file_timestamp mtime files p, latest (pm_guid p)) of
              (Some f, Some j) \<Rightarrow> Some (min f j)
            | (Some f, None) \<Rightarrow> Some f
            | (None, j) \<Rightarrow> j) of
        None \<Rightarrow> False
      | Some t \<Rightarrow> t < cutoff)"

section \<open>Candidates\<close>

definition active_job_exists :: "job list \<Rightarrow> string \<Rightarrow> bool" where
  "active_job_exists js g = list_ex (\<lambda>j. post_guid j = g \<and> status j \<in> {''pending'', ''running''}) js"

text \<open>The posts of the query and the cutoff; days are in the unit of the clock.\<close>

definition build_cleanup_query ::
  "bool \<Rightarrow> instant \<Rightarrow> int option \<Rightarrow> media_db \<Rightarrow> (post_media list \<times> instant) option" where
  "build_cleanup_query developer_mode now retention db =
     (case retention of
        None \<Rightarrow> None
      | Some days \<Rightarrow>
          if days \<le> 0 \<and> \<not> developer_mode then None
          else Some (filter (\<lambda>p. pm_processed p \<noteq> None \<and> \<not> active_job_exists (m_jobs db) (pm_guid p)) (m_posts db),
                     now - days * 86400))"

type_synonym newest_map = "(int \<times> string \<times> instant option \<times> int) list"

definition note_post :: "(post_media \<Rightarrow> instant option) \<Rightarrow> post_media \<Rightarrow> newest_map \<Rightarrow> newest_map" where
  "note_post timestamp p m =
     (let put = AList.update (pm_feed p) (pm_guid p, timestamp p, pm_id p) m in
      case map_of m (pm_feed p) of
        None \<Rightarrow> put
      | Some (_, current, current_id) \<Rightarrow>
          (case (timestamp p, current) of
             (Some t, Some c) \<Rightarrow> if c < t \<or> (t = c \<and> current_id < pm_id p) then put else m
           | (Some t, None) \<Rightarrow> put
           | (None, _) \<Rightarrow> m))"

definition most_recent_posts_per_feed ::
  "(string \<Rightarrow> instant option) \<Rightarrow> string list \<Rightarrow> (string \<Rightarrow> instant option) \<Rightarrow> post_media list \<Rightarrow> string list" where
  "most_recent_posts_per_feed mtime files latest cands =
     map (fst \<circ> snd) (fold (note_post (post_timestamp mtime files latest)) cands [])"

definition count_cleanup_candidates ::
  "(string \<Rightarrow> instant option) \<Rightarrow> bool \<Rightarrow> instant \<Rightarrow> int option \<Rightarrow> media_db \<Rightarrow> nat \<times> instant option" where
  "count_cleanup_candidates mtime developer_mode now retention db =
     (case build_cleanup_query developer_mode now retention db of
        None \<Rightarrow> (0, None)
      | Some (cands, cutoff) \<Rightarrow>
          (let latest = load_latest_completed_map (m_jobs db) (map pm_guid cands);
               kept = most_recent_posts_per_feed mtime (m_files db) latest cands in
           (length (filter (\<lambda>p. pm_guid p \<notin> set kept
              \<and> processed_timestamp_before_cutoff mtime (m_files db) latest cutoff p) cands), Some cutoff)))"

section \<open>The loop\<close>

definition remove_associated_files :: "(string \<Rightarrow> bool) \<Rightarrow> post_media \<Rightarrow> media_db \<Rightarrow> media_db" where
  "remove_associated_files removable p db =
     (let paths = filter (\<lambda>f. f \<noteq> []) (List.map_filter id [pm_unprocessed p, pm_processed p]) in
      db\<lparr>m_files := filter (\<lambda>f. \<not> (f \<in> set paths \<and> removable f)) (m_files db)\<rparr>)"

definition cleanup_one ::
  "(string \<Rightarrow> instant option) \<Rightarrow> (string \<Rightarrow> bool) \<Rightarrow> (int \<Rightarrow> bool) \<Rightarrow> (string \<Rightarrow> instant option) \<Rightarrow> instant \<Rightarrow>
   string list \<Rightarrow> post_media \<Rightarrow> nat \<times> media_db \<Rightarrow> nat \<times> media_db" where
  "cleanup_one mtime removable reached latest cutoff kept p st =
     (if pm_guid p \<in> set kept then st
      else if \<not> processed_timestamp_before_cutoff mtime (m_files (snd st)) latest cutoff p then st
      else (let db1 = remove_associated_files removable p (snd st) in
        (Suc (fst st),
         if reached (pm_id p) then
           (case cleanup_processed_post_files_only_action removable (Some (pm_id p)) db1 of
              Inl _ \<Rightarrow> db1
            | Inr (_, db2) \<Rightarrow> db2)
         else db1)))"

definition cleanup_processed_posts ::
  "(string \<Rightarrow> instant option) \<Rightarrow> (string \<Rightarrow> bool) \<Rightarrow> (int \<Rightarrow> bool) \<Rightarrow> bool \<Rightarrow> instant \<Rightarrow> int option \<Rightarrow> media_db \<Rightarrow>
   nat \<times> media_db" where
  "cleanup_processed_posts mtime removable reached developer_mode now retention db =
     (case build_cleanup_query developer_mode now retention db of
        None \<Rightarrow> (0, db)
      | Some (cands, cutoff) \<Rightarrow>
          (let latest = load_latest_completed_map (m_jobs db) (map pm_guid cands);
               kept = most_recent_posts_per_feed mtime (m_files db) latest cands in
           fold (cleanup_one mtime removable reached latest cutoff kept) cands (0, db)))"

section \<open>What the scan keeps\<close>

text \<open>The order in which a feed's newest post is chosen.\<close>

definition newer_eq :: "instant option \<times> int \<Rightarrow> instant option \<times> int \<Rightarrow> bool" where
  "newer_eq a b = (case (fst a, fst b) of
       (_, None) \<Rightarrow> True
     | (None, Some _) \<Rightarrow> False
     | (Some t, Some c) \<Rightarrow> c < t \<or> (t = c \<and> snd b \<le> snd a))"

lemma newer_eq_refl [simp]: "newer_eq a a"
  by (auto simp: newer_eq_def split: option.splits)

lemma newer_eq_trans: "newer_eq a b \<Longrightarrow> newer_eq b c \<Longrightarrow> newer_eq a c"
  by (auto simp: newer_eq_def split: option.splits)

lemma note_post_other: "f \<noteq> pm_feed p \<Longrightarrow> map_of (note_post ts p m) f = map_of m f"
  by (auto simp: note_post_def Let_def update_conv split: option.splits prod.splits)

lemma note_post_own:
  "\<exists>g t i. map_of (note_post ts p m) (pm_feed p) = Some (g, t, i) \<and> newer_eq (t, i) (ts p, pm_id p)
     \<and> (\<forall>g' t' i'. map_of m (pm_feed p) = Some (g', t', i') \<longrightarrow> newer_eq (t, i) (t', i'))
     \<and> ((g, t, i) = (pm_guid p, ts p, pm_id p) \<or> map_of m (pm_feed p) = Some (g, t, i))"
  by (auto simp: note_post_def Let_def update_conv newer_eq_def split: option.splits prod.splits)

definition newest_of :: "(post_media \<Rightarrow> instant option) \<Rightarrow> post_media list \<Rightarrow> int \<Rightarrow> (string \<times> instant option \<times> int) option \<Rightarrow> bool" where
  "newest_of ts ps f e = (case e of
       None \<Rightarrow> f \<notin> pm_feed ` set ps
     | Some (g, t, i) \<Rightarrow> (\<exists>p \<in> set ps. pm_feed p = f \<and> (g, t, i) = (pm_guid p, ts p, pm_id p))
         \<and> (\<forall>p \<in> set ps. pm_feed p = f \<longrightarrow> newer_eq (t, i) (ts p, pm_id p)))"

lemma newest_of_fold:
  "newest_of ts ps f (map_of (fold (note_post ts) ps []) f)"
proof (induction ps rule: rev_induct)
  case Nil
  then show ?case by (simp add: newest_of_def)
next
  case (snoc p ps)
  let ?m = "fold (note_post ts) ps []"
  show ?case
  proof (cases "f = pm_feed p")
    case False
    then show ?thesis using snoc by (auto simp: newest_of_def note_post_other split: option.splits)
  next
    case True
    obtain g t i where n: "map_of (note_post ts p ?m) f = Some (g, t, i)" "newer_eq (t, i) (ts p, pm_id p)"
      "\<forall>g' t' i'. map_of ?m f = Some (g', t', i') \<longrightarrow> newer_eq (t, i) (t', i')"
      "(g, t, i) = (pm_guid p, ts p, pm_id p) \<or> map_of ?m f = Some (g, t, i)"
      using note_post_own [of ts p ?m] True by auto
    have "\<exists>q \<in> set (ps @ [p]). pm_feed q = f \<and> (g, t, i) = (pm_guid q, ts q, pm_id q)"
      using n(4) snoc True by (auto simp: newest_of_def)
    moreover have "newer_eq (t, i) (ts q, pm_id q)" if "q \<in> set ps" "pm_feed q = f" for q
    proof (cases "map_of ?m f")
      case None
      then show ?thesis using snoc that by (auto simp: newest_of_def)
    next
      case (Some e)
      then obtain g' t' i' where "map_of ?m f = Some (g', t', i')" by (metis prod_cases3)
      then show ?thesis using snoc that n(3) newer_eq_trans by (fastforce simp: newest_of_def)
    qed
    ultimately show ?thesis using n(1,2) by (auto simp: newest_of_def)
  qed
qed

lemma distinct_keys_note: "distinct (map fst m) \<Longrightarrow> distinct (map fst (note_post ts p m))"
  by (auto simp: note_post_def Let_def distinct_update split: option.splits prod.splits)

lemma distinct_keys_fold: "distinct (map fst (fold (note_post ts) ps []))"
  by (induction ps rule: rev_induct) (simp_all add: distinct_keys_note)

text \<open>The guids that are kept: one newest post of each feed.\<close>

lemma kept_newest:
  "g \<in> set (most_recent_posts_per_feed mtime files latest ps) \<longleftrightarrow>
     (\<exists>f t i. map_of (fold (note_post (post_timestamp mtime files latest)) ps []) f = Some (g, t, i))"
  by (force simp: most_recent_posts_per_feed_def distinct_keys_fold)

lemma feed_has_newest:
  assumes "p \<in> set ps"
  obtains q where "q \<in> set ps" "pm_feed q = pm_feed p"
    "pm_guid q \<in> set (most_recent_posts_per_feed mtime files latest ps)"
    "\<And>r. r \<in> set ps \<Longrightarrow> pm_feed r = pm_feed p \<Longrightarrow>
       newer_eq (post_timestamp mtime files latest q, pm_id q) (post_timestamp mtime files latest r, pm_id r)"
proof -
  let ?ts = "post_timestamp mtime files latest"
  have n: "newest_of ?ts ps (pm_feed p) (map_of (fold (note_post ?ts) ps []) (pm_feed p))" by (rule newest_of_fold)
  then obtain g t i where m: "map_of (fold (note_post ?ts) ps []) (pm_feed p) = Some (g, t, i)"
    using assms by (cases "map_of (fold (note_post ?ts) ps []) (pm_feed p)") (auto simp: newest_of_def)
  then obtain q where "q \<in> set ps" "pm_feed q = pm_feed p" "(g, t, i) = (pm_guid q, ?ts q, pm_id q)"
    using n by (auto simp: newest_of_def)
  then show ?thesis using that [of q] m n by (auto simp: kept_newest newest_of_def)
qed

section \<open>What the loop does\<close>

definition post_paths :: "post_media \<Rightarrow> string list" where
  "post_paths q = List.map_filter id [pm_unprocessed q, pm_processed q]"

text \<open>Rows have their own ids, from 1, and files have names.\<close>

definition rows_ok :: "media_db \<Rightarrow> bool" where
  "rows_ok db \<longleftrightarrow> distinct (map pm_id (m_posts db)) \<and> 0 \<notin> pm_id ` set (m_posts db) \<and> [] \<notin> set (m_files db)"

text \<open>And no two posts record one file, which the program does not ensure: the name of a processed file is made of
  the titles.\<close>

definition library_ok :: "media_db \<Rightarrow> bool" where
  "library_ok db \<longleftrightarrow> rows_ok db
     \<and> (\<forall>q \<in> set (m_posts db). \<forall>r \<in> set (m_posts db). pm_id q = pm_id r \<or> set (post_paths q) \<inter> set (post_paths r) = {})"

lemma library_ok_rows: "library_ok db \<Longrightarrow> rows_ok db"
  by (simp add: library_ok_def)

definition cleared :: "post_media \<Rightarrow> post_media" where
  "cleared q = q\<lparr>pm_unprocessed := None, pm_processed := None, pm_whitelisted := False\<rparr>"

text \<open>The store once the posts \<open>D\<close> have gone.\<close>

definition without_posts :: "(string \<Rightarrow> bool) \<Rightarrow> (int \<Rightarrow> bool) \<Rightarrow> post_media set \<Rightarrow> media_db \<Rightarrow> media_db" where
  "without_posts removable reached D db =
     db\<lparr>m_posts := map (\<lambda>q. if q \<in> D \<and> reached (pm_id q) then cleared q else q) (m_posts db),
        m_files := filter (\<lambda>f. \<not> ((\<exists>q \<in> D. f \<in> set (post_paths q)) \<and> removable f)) (m_files db)\<rparr>"

lemma pm_id_cleared [simp]: "pm_id (cleared q) = pm_id q"
  by (simp add: cleared_def)

lemma library_ok_ids: "rows_ok db \<Longrightarrow> q \<in> set (m_posts db) \<Longrightarrow> r \<in> set (m_posts db) \<Longrightarrow> pm_id q = pm_id r \<Longrightarrow> q = r"
  by (auto simp: rows_ok_def distinct_map inj_on_def)

lemma library_ok_paths:
  "library_ok db \<Longrightarrow> q \<in> set (m_posts db) \<Longrightarrow> r \<in> set (m_posts db) \<Longrightarrow> q \<noteq> r \<Longrightarrow> set (post_paths q) \<inter> set (post_paths r) = {}"
  using library_ok_ids [OF library_ok_rows] by (simp add: library_ok_def) metis

lemma find_post_unique:
  assumes "distinct (map pm_id (m_posts db))" and "q \<in> set (m_posts db)"
  shows "find_post db (pm_id q) = Some q"
proof -
  have "find (\<lambda>p. pm_id p = pm_id q) ps = Some q" if "distinct (map pm_id ps)" "q \<in> set ps" for ps
    using that by (induction ps) auto
  then show ?thesis using assms by (simp add: find_post_def)
qed

lemma processed_in_paths: "pm_processed q = Some f \<Longrightarrow> f \<in> set (post_paths q)"
  by (simp add: post_paths_def List.map_filter_def)

lemma old_without:
  assumes ok: "library_ok db" and p: "p \<in> set (m_posts db)" "p \<notin> D" "D \<subseteq> set (m_posts db)"
  shows "processed_timestamp_before_cutoff mtime (m_files (without_posts rm re D db)) latest cutoff p
       = processed_timestamp_before_cutoff mtime (m_files db) latest cutoff p"
proof -
  have "f \<in> set (m_files (without_posts rm re D db)) \<longleftrightarrow> f \<in> set (m_files db)" if f: "pm_processed p = Some f" for f
  proof -
    have "f \<notin> set (post_paths q)" if "q \<in> D" for q
      using library_ok_paths [OF ok p(1), of q] that p processed_in_paths [OF f] by blast
    then show ?thesis by (auto simp: without_posts_def)
  qed
  then have "processed_file_timestamp mtime (m_files (without_posts rm re D db)) p = processed_file_timestamp mtime (m_files db) p"
    by (auto simp: processed_file_timestamp_def split: option.splits)
  then show ?thesis by (simp add: processed_timestamp_before_cutoff_def)
qed

lemma cleanup_one_step:
  assumes ok: "rows_ok db" and p: "p \<in> set (m_posts db)" "p \<notin> D" "D \<subseteq> set (m_posts db)"
    and g: "pm_guid p \<notin> set kept" and old: "processed_timestamp_before_cutoff mtime (m_files (without_posts rm re D db)) latest cutoff p"
  shows "cleanup_one mtime rm re latest cutoff kept p (n, without_posts rm re D db) = (Suc n, without_posts rm re (insert p D) db)"
proof -
  let ?db = "without_posts rm re D db"
  have dist: "distinct (map pm_id (m_posts ?db))"
  proof -
    have "map pm_id (m_posts ?db) = map pm_id (m_posts db)" by (simp add: without_posts_def)
    then show ?thesis using ok by (simp add: rows_ok_def)
  qed
  have mem: "p \<in> set (m_posts ?db)" using p by (force simp: without_posts_def)
  have nz: "pm_id p \<noteq> 0" using ok p(1) by (force simp: rows_ok_def)
  let ?db1 = "remove_associated_files rm p ?db"
  have files: "m_files ?db1 = m_files (without_posts rm re (insert p D) db)"
    using ok by (auto simp: remove_associated_files_def without_posts_def post_paths_def rows_ok_def intro!: filter_cong)
  have found: "find_post ?db1 (pm_id p) = Some p"
    using find_post_unique [of ?db1 p] dist mem by (simp add: remove_associated_files_def)
  have one: "cleanup_one mtime rm re latest cutoff kept p (n, ?db) = (Suc n,
      if re (pm_id p) then (case cleanup_processed_post_files_only_action rm (Some (pm_id p)) ?db1 of Inl _ \<Rightarrow> ?db1 | Inr (_, db2) \<Rightarrow> db2)
      else ?db1)"
    using g old by (simp add: cleanup_one_def Let_def)
  show ?thesis
  proof (cases "re (pm_id p)")
    case False
    then have "m_posts ?db1 = m_posts (without_posts rm re (insert p D) db)"
      by (auto simp: remove_associated_files_def without_posts_def)
    then have "?db1 = without_posts rm re (insert p D) db"
      using files by (simp add: remove_associated_files_def without_posts_def)
    then show ?thesis using one False by simp
  next
    case True
    have rows: "m_posts (modify_post (pm_id p) cleared ?db) = m_posts (without_posts rm re (insert p D) db)"
      using p True library_ok_ids [OF ok _ p(1)] by (auto simp: modify_post_def without_posts_def)
    have again: "filter (\<lambda>f. \<not> (f \<in> set (post_paths p) \<and> rm f)) (m_files ?db1) = m_files ?db1"
      unfolding files by (auto simp: without_posts_def intro!: filter_cong)
    have "cleanup_processed_post_files_only_action rm (Some (pm_id p)) ?db1
        = Inr (pm_id p, modify_post (pm_id p) cleared (?db1\<lparr>m_files := m_files ?db1\<rparr>))"
      using found nz again
      by (simp add: cleanup_processed_post_files_only_action_def cleared_def [abs_def] post_paths_def)
    moreover have "modify_post (pm_id p) cleared (?db1\<lparr>m_files := m_files ?db1\<rparr>) = without_posts rm re (insert p D) db"
      using rows files by (simp add: modify_post_def remove_associated_files_def without_posts_def)
    ultimately show ?thesis using one True by simp
  qed
qed

text \<open>A post that the loop prunes has expired: its file or its last completed job is older than the cutoff.  Files that
  have gone by then make no post old.\<close>

definition expired ::
  "(string \<Rightarrow> instant option) \<Rightarrow> string list \<Rightarrow> (string \<Rightarrow> instant option) \<Rightarrow> instant \<Rightarrow> post_media \<Rightarrow> bool" where
  "expired mtime files latest cutoff q \<longleftrightarrow>
     (\<exists>t. t < cutoff \<and> (processed_file_timestamp mtime files q = Some t \<or> latest (pm_guid q) = Some t))"

lemma old_expired:
  "processed_timestamp_before_cutoff mtime files' latest cutoff q \<Longrightarrow> set files' \<subseteq> set files \<Longrightarrow> expired mtime files latest cutoff q"
  by (auto simp: processed_timestamp_before_cutoff_def expired_def processed_file_timestamp_def min_def
      split: option.splits if_split_asm)

lemma files_without: "set (m_files (without_posts rm re D db)) \<subseteq> set (m_files db)"
  by (auto simp: without_posts_def)

text \<open>The loop, whichever files the posts share.\<close>

lemma cleanup_loop_prunes:
  assumes ok: "rows_ok db"
  shows "set ps \<subseteq> set (m_posts db) \<Longrightarrow> distinct ps \<Longrightarrow> D \<subseteq> set (m_posts db) \<Longrightarrow> D \<inter> set ps = {} \<Longrightarrow>
    \<exists>E. E \<subseteq> set ps \<and> (\<forall>q\<in>E. pm_guid q \<notin> set kept \<and> expired mtime (m_files db) latest cutoff q) \<and>
      fold (cleanup_one mtime rm re latest cutoff kept) ps (n, without_posts rm re D db)
        = (n + card E, without_posts rm re (D \<union> E) db)"
proof (induction ps arbitrary: n D)
  case Nil
  then show ?case by (intro exI [of _ "{}"]) simp
next
  case (Cons p ps)
  have p: "p \<in> set (m_posts db)" "p \<notin> D" "D \<subseteq> set (m_posts db)" using Cons.prems by auto
  let ?db = "without_posts rm re D db"
  show ?case
  proof (cases "pm_guid p \<notin> set kept \<and> processed_timestamp_before_cutoff mtime (m_files ?db) latest cutoff p")
    case True
    then have one: "cleanup_one mtime rm re latest cutoff kept p (n, ?db) = (Suc n, without_posts rm re (insert p D) db)"
      by (intro cleanup_one_step [OF ok p]) simp_all
    have "insert p D \<inter> set ps = {}" using Cons.prems by auto
    then obtain E where E: "E \<subseteq> set ps" "\<forall>q\<in>E. pm_guid q \<notin> set kept \<and> expired mtime (m_files db) latest cutoff q"
      "fold (cleanup_one mtime rm re latest cutoff kept) ps (Suc n, without_posts rm re (insert p D) db)
        = (Suc n + card E, without_posts rm re (insert p D \<union> E) db)"
      using Cons.IH [of "insert p D" "Suc n"] Cons.prems by auto
    have "p \<notin> E" "finite E" using E(1) Cons.prems(2) finite_subset by auto
    moreover have "expired mtime (m_files db) latest cutoff p" using True old_expired files_without by blast
    ultimately show ?thesis using E True one by (intro exI [of _ "insert p E"]) auto
  next
    case False
    then have one: "cleanup_one mtime rm re latest cutoff kept p (n, ?db) = (n, ?db)" by (auto simp: cleanup_one_def)
    obtain E where "E \<subseteq> set ps" "\<forall>q\<in>E. pm_guid q \<notin> set kept \<and> expired mtime (m_files db) latest cutoff q"
      "fold (cleanup_one mtime rm re latest cutoff kept) ps (n, ?db) = (n + card E, without_posts rm re (D \<union> E) db)"
      using Cons.IH [of D n] Cons.prems by auto
    then show ?thesis using one by (intro exI [of _ E]) auto
  qed
qed

definition goes :: "(string \<Rightarrow> instant option) \<Rightarrow> string list \<Rightarrow> (string \<Rightarrow> instant option) \<Rightarrow> instant \<Rightarrow> string list \<Rightarrow> post_media \<Rightarrow> bool" where
  "goes mtime files latest cutoff kept p \<longleftrightarrow>
     pm_guid p \<notin> set kept \<and> processed_timestamp_before_cutoff mtime files latest cutoff p"

lemma cleanup_loop:
  assumes ok: "library_ok db"
  shows "set ps \<subseteq> set (m_posts db) \<Longrightarrow> distinct ps \<Longrightarrow> D \<subseteq> set (m_posts db) \<Longrightarrow> D \<inter> set ps = {} \<Longrightarrow>
    fold (cleanup_one mtime rm re latest cutoff kept) ps (n, without_posts rm re D db)
    = (n + length (filter (goes mtime (m_files db) latest cutoff kept) ps),
       without_posts rm re (D \<union> {p \<in> set ps. goes mtime (m_files db) latest cutoff kept p}) db)"
proof (induction ps arbitrary: n D)
  case (Cons p ps)
  let ?g = "goes mtime (m_files db) latest cutoff kept"
  have p: "p \<in> set (m_posts db)" "p \<notin> D" "D \<subseteq> set (m_posts db)" using Cons.prems by auto
  show ?case
  proof (cases "?g p")
    case True
    then have "cleanup_one mtime rm re latest cutoff kept p (n, without_posts rm re D db) = (Suc n, without_posts rm re (insert p D) db)"
      using old_without [OF ok p, of mtime rm re latest cutoff]
      by (intro cleanup_one_step [OF library_ok_rows [OF ok] p]) (simp_all add: goes_def)
    moreover have "insert p D \<union> {q \<in> set ps. ?g q} = D \<union> {q \<in> set (p # ps). ?g q}" using True by auto
    ultimately show ?thesis using Cons.IH [of "insert p D" "Suc n"] Cons.prems True by simp
  next
    case False
    then have "cleanup_one mtime rm re latest cutoff kept p (n, without_posts rm re D db) = (n, without_posts rm re D db)"
      using old_without [OF ok p, of mtime rm re latest cutoff] by (auto simp: cleanup_one_def goes_def)
    moreover have "{q \<in> set ps. ?g q} = {q \<in> set (p # ps). ?g q}" using False by auto
    ultimately show ?thesis using Cons.IH [of D n] Cons.prems False by simp
  qed
qed simp

lemma without_none [simp]: "without_posts rm re {} db = db"
proof -
  have "map (\<lambda>q. q) (m_posts db) = m_posts db" by simp
  then show ?thesis by (simp add: without_posts_def)
qed

text \<open>The whole run: the posts that go, and how many.\<close>

definition gone ::
  "(string \<Rightarrow> instant option) \<Rightarrow> bool \<Rightarrow> instant \<Rightarrow> int option \<Rightarrow> media_db \<Rightarrow> post_media list" where
  "gone mtime dev now retention db =
     (case build_cleanup_query dev now retention db of
        None \<Rightarrow> []
      | Some (cands, cutoff) \<Rightarrow>
          (let latest = load_latest_completed_map (m_jobs db) (map pm_guid cands) in
           filter (goes mtime (m_files db) latest cutoff (most_recent_posts_per_feed mtime (m_files db) latest cands)) cands))"

lemma cleanup_eq:
  assumes "library_ok db"
  shows "cleanup_processed_posts mtime rm re dev now retention db
    = (length (gone mtime dev now retention db), without_posts rm re (set (gone mtime dev now retention db)) db)"
proof (cases "build_cleanup_query dev now retention db")
  case None
  then show ?thesis by (simp add: cleanup_processed_posts_def gone_def)
next
  case (Some c)
  obtain cands cutoff where c: "c = (cands, cutoff)" by force
  have "set cands \<subseteq> set (m_posts db)" "distinct cands"
    using Some c assms by (auto simp: build_cleanup_query_def library_ok_def rows_ok_def distinct_map split: option.splits if_split_asm)
  then show ?thesis
    using cleanup_loop [OF assms, of cands "{}" mtime rm re] Some c
    by (simp add: cleanup_processed_posts_def gone_def Let_def Collect_conj_eq)
qed

lemma count_eq: "fst (count_cleanup_candidates mtime dev now retention db) = length (gone mtime dev now retention db)"
  by (simp add: count_cleanup_candidates_def gone_def goes_def [abs_def] Let_def split: option.splits)

section \<open>Properties\<close>

lemma latest_completed:
  assumes "load_latest_completed_map js guids g = Some t"
  shows "\<exists>j \<in> set js. post_guid j = g \<and> completed_at j = Some t"
proof -
  have max_in: "fold max ts t \<in> insert t (set ts)" for ts and t :: instant
    by (induction ts arbitrary: t) (auto simp: max_def)
  have "t \<in> set (List.map_filter completed_at (filter (\<lambda>j. post_guid j = g) js))"
    using assms max_in by (auto simp: load_latest_completed_map_def split: if_split_asm list.splits)
  then show ?thesis by (auto simp: List.map_filter_def)
qed

lemma cleanup_prunes:
  assumes "rows_ok db" and "build_cleanup_query dev now retention db = Some (cands, cutoff)"
    and "cleanup_processed_posts mtime rm re dev now retention db = (n, db')"
    and "latest = load_latest_completed_map (m_jobs db) (map pm_guid cands)"
  obtains D where "D \<subseteq> set cands" "n = card D" "db' = without_posts rm re D db"
    "\<And>q. q \<in> D \<Longrightarrow> pm_guid q \<notin> set (most_recent_posts_per_feed mtime (m_files db) latest cands)"
    "\<And>q. q \<in> D \<Longrightarrow> expired mtime (m_files db) latest cutoff q"
proof -
  let ?kept = "most_recent_posts_per_feed mtime (m_files db) latest cands"
  have "set cands \<subseteq> set (m_posts db)" "distinct cands"
    using assms(1,2) by (auto simp: build_cleanup_query_def rows_ok_def distinct_map split: option.splits if_split_asm)
  from cleanup_loop_prunes [OF assms(1) this, of "{}" ?kept mtime latest cutoff rm re 0]
  obtain E where "E \<subseteq> set cands" "\<forall>q\<in>E. pm_guid q \<notin> set ?kept \<and> expired mtime (m_files db) latest cutoff q"
    "fold (cleanup_one mtime rm re latest cutoff ?kept) cands (0, db) = (card E, without_posts rm re E db)" by auto
  then show ?thesis using that [of E] assms(2,3) by (simp add: cleanup_processed_posts_def assms(4) Let_def)
qed

text \<open>C14.  Only what has expired is pruned: the posts that a cleanup counts had a processed file, no pending or
  running job, and a file or a completed job older than the retention.  Their rows lose their two paths and the
  whitelisting where the writer is reached, and the files they record go where they can be removed.  Every other
  row, every other file, and all jobs, transcripts, model calls and identifications stay, whichever files the
  posts share.\<close>

theorem only_expired_posts_are_pruned:
  assumes "rows_ok db" and "cleanup_processed_posts mtime rm re dev now (Some days) db = (n, db')"
  shows "\<exists>D. (\<forall>q\<in>D. q \<in> set (m_posts db) \<and> pm_processed q \<noteq> None \<and> \<not> active_job_exists (m_jobs db) (pm_guid q)
        \<and> (\<exists>t. t < now - days * 86400 \<and> (processed_file_timestamp mtime (m_files db) q = Some t \<or>
            (\<exists>j \<in> set (m_jobs db). post_guid j = pm_guid q \<and> completed_at j = Some t))))
    \<and> n = card D
    \<and> db' = db\<lparr>m_posts := map (\<lambda>q. if q \<in> D \<and> re (pm_id q)
          then q\<lparr>pm_unprocessed := None, pm_processed := None, pm_whitelisted := False\<rparr> else q) (m_posts db),
        m_files := filter (\<lambda>f. \<not> ((\<exists>q \<in> D. Some f \<in> {pm_unprocessed q, pm_processed q}) \<and> rm f)) (m_files db)\<rparr>"
proof (cases "build_cleanup_query dev now (Some days) db")
  case None
  then have "db' = db" "n = 0" using assms(2) by (simp_all add: cleanup_processed_posts_def)
  then show ?thesis by (intro exI [of _ "{}"]) simp
next
  case (Some c)
  obtain cands where q: "build_cleanup_query dev now (Some days) db = Some (cands, now - days * 86400)"
    and cands: "\<And>q. q \<in> set cands \<Longrightarrow> q \<in> set (m_posts db) \<and> pm_processed q \<noteq> None \<and> \<not> active_job_exists (m_jobs db) (pm_guid q)"
    using Some by (auto simp: build_cleanup_query_def split: if_split_asm)
  from cleanup_prunes [OF assms(1) q assms(2) refl]
  obtain D where D: "D \<subseteq> set cands" "n = card D" "db' = without_posts rm re D db"
    "\<And>q. q \<in> D \<Longrightarrow> expired mtime (m_files db) (load_latest_completed_map (m_jobs db) (map pm_guid cands)) (now - days * 86400) q"
    by blast
  have "\<exists>t. t < now - days * 86400 \<and> (processed_file_timestamp mtime (m_files db) q = Some t \<or>
      (\<exists>j \<in> set (m_jobs db). post_guid j = pm_guid q \<and> completed_at j = Some t))" if "q \<in> D" for q
    using D(4) [OF that] latest_completed unfolding expired_def by blast
  moreover have "f \<in> set (post_paths q) \<longleftrightarrow> Some f \<in> {pm_unprocessed q, pm_processed q}" for f q
    by (auto simp: post_paths_def List.map_filter_def)
  ultimately show ?thesis using D(1-3) cands by (intro exI [of _ D]) (auto simp: without_posts_def cleared_def)
qed

definition shelf_post :: "int \<Rightarrow> int \<Rightarrow> string \<Rightarrow> post_media" where
  "shelf_post i feed f = \<lparr>pm_id = i, pm_guid = f, pm_feed = feed, pm_whitelisted = True, pm_unprocessed = None,
     pm_processed = Some f, pm_duration = None, pm_chapters = None, pm_bleeps = None, pm_removed = None,
     pm_original_duration = None, pm_cut_source = None, pm_words = None, pm_refined = None, pm_refined_at = None,
     pm_url = ''http://pod/1.mp3'', pm_title = ''Episode'', pm_description = None, pm_image = None, pm_release = None, pm_downloads = None\<rparr>"

definition shelf :: "post_media list \<Rightarrow> media_db" where
  "shelf ps = \<lparr>m_posts = ps, m_segments = [], m_idents = [], m_calls = [], m_audio = [], m_jobs = [], m_run = None,
     m_files = List.map_filter pm_processed ps\<rparr>"

definition shelf_times :: "string \<Rightarrow> instant option" where
  "shelf_times f = (if f = ''a'' then Some 0 else if f = ''b'' then Some 100 else if f = ''c'' then Some 50 else None)"

text \<open>One post of three goes, and its file with it.\<close>

theorem only_expired_posts_are_pruned_witness:
  "\<exists>q \<in> {shelf_post 1 7 ''a'', shelf_post 2 7 ''b'', shelf_post 3 8 ''c''}.
    m_files (snd (cleanup_processed_posts shelf_times (\<lambda>_. True) (\<lambda>_. True) False 1000000 (Some 5)
      (shelf [shelf_post 1 7 ''a'', shelf_post 2 7 ''b'', shelf_post 3 8 ''c'']))) = removeAll (the (pm_processed q)) [''a'', ''b'', ''c'']"
proof -
  let ?db = "shelf [shelf_post 1 7 ''a'', shelf_post 2 7 ''b'', shelf_post 3 8 ''c'']"
  let ?c = "cleanup_processed_posts shelf_times (\<lambda>_. True) (\<lambda>_. True) False 1000000 (Some 5) ?db"
  have ok: "rows_ok ?db" by code_simp
  have one: "fst ?c = 1" by code_simp
  from only_expired_posts_are_pruned [OF ok surjective_pairing, where mtime = shelf_times and rm = "\<lambda>_. True" and re = "\<lambda>_. True"
      and dev = False and now = 1000000 and days = 5] one
  obtain D where mem: "\<forall>q\<in>D. q \<in> set (m_posts ?db)" and card: "card D = 1"
    and files: "m_files (snd ?c) = filter (\<lambda>f. \<not> (\<exists>q \<in> D. Some f \<in> {pm_unprocessed q, pm_processed q})) (m_files ?db)"
    by (elim exE conjE) (auto simp: shelf_def)
  obtain q where "D = {q}" using card by (auto simp: card_1_singleton_iff)
  then show ?thesis using mem files by (auto simp: shelf_def shelf_post_def List.map_filter_def)
qed

text \<open>C33.  Every feed with a processed episode keeps its newest one: among the candidates of the feed there
  is one that no other exceeds in date, and its row stays, with its paths and its whitelisting.  Its file stays
  too, unless another candidate that has expired records the same file.\<close>

theorem newest_episode_of_a_feed_survives:
  assumes "rows_ok db" and "cleanup_processed_posts mtime rm re dev now retention db = (n, db')"
    and "build_cleanup_query dev now retention db = Some (cands, cutoff)" and "p \<in> set cands"
    and "latest = load_latest_completed_map (m_jobs db) (map pm_guid cands)"
  shows "\<exists>q \<in> set cands. pm_feed q = pm_feed p \<and> q \<in> set (m_posts db')
    \<and> (\<forall>r \<in> set cands. pm_feed r = pm_feed p \<longrightarrow>
        newer_eq (post_timestamp mtime (m_files db) latest q, pm_id q) (post_timestamp mtime (m_files db) latest r, pm_id r))
    \<and> (\<forall>f \<in> set (m_files db). pm_processed q = Some f \<longrightarrow> f \<in> set (m_files db') \<or>
        (\<exists>r \<in> set cands. pm_id r \<noteq> pm_id q \<and> pm_guid r \<noteq> pm_guid q \<and> f \<in> set (post_paths r) \<and> expired mtime (m_files db) latest cutoff r))"
proof -
  let ?kept = "most_recent_posts_per_feed mtime (m_files db) latest cands"
  obtain q where q: "q \<in> set cands" "pm_feed q = pm_feed p" "pm_guid q \<in> set ?kept"
    "\<And>r. r \<in> set cands \<Longrightarrow> pm_feed r = pm_feed p \<Longrightarrow>
       newer_eq (post_timestamp mtime (m_files db) latest q, pm_id q) (post_timestamp mtime (m_files db) latest r, pm_id r)"
    using feed_has_newest [OF assms(4)] by blast
  from cleanup_prunes [OF assms(1) assms(3) assms(2) assms(5)]
  obtain D where D: "D \<subseteq> set cands" "db' = without_posts rm re D db" "\<And>r. r \<in> D \<Longrightarrow> pm_guid r \<notin> set ?kept"
    "\<And>r. r \<in> D \<Longrightarrow> expired mtime (m_files db) latest cutoff r" by blast
  have cands: "set cands \<subseteq> set (m_posts db)" using assms(3) by (auto simp: build_cleanup_query_def split: option.splits if_split_asm)
  have "q \<notin> D" using D(3) q(3) by blast
  then have "q \<in> set (m_posts db')" using q(1) cands by (force simp: D(2) without_posts_def)
  moreover have "f \<in> set (m_files db') \<or>
      (\<exists>r \<in> set cands. pm_id r \<noteq> pm_id q \<and> pm_guid r \<noteq> pm_guid q \<and> f \<in> set (post_paths r) \<and> expired mtime (m_files db) latest cutoff r)"
    if f: "f \<in> set (m_files db)" for f
  proof (cases "\<exists>r\<in>D. f \<in> set (post_paths r)")
    case True
    then obtain r where r: "r \<in> D" "f \<in> set (post_paths r)" by blast
    have "pm_guid r \<noteq> pm_guid q" using D(3) [OF r(1)] q(3) by auto
    moreover from this have "pm_id r \<noteq> pm_id q" using library_ok_ids [OF assms(1), of r q] r(1) D(1) q(1) cands by blast
    ultimately show ?thesis using r D(1) D(4) [OF r(1)] by blast
  next
    case False
    then show ?thesis using f by (auto simp: D(2) without_posts_def)
  qed
  ultimately show ?thesis using q by blast
qed

theorem newest_episode_of_a_feed_survives_witness:
  "shelf_post 2 7 ''b'' \<in> set (m_posts (snd (cleanup_processed_posts shelf_times (\<lambda>_. True) (\<lambda>_. True) False 1000000 (Some 5)
      (shelf [shelf_post 1 7 ''a'', shelf_post 2 7 ''b'', shelf_post 3 8 ''c'']))))"
proof -
  let ?ps = "[shelf_post 1 7 ''a'', shelf_post 2 7 ''b'', shelf_post 3 8 ''c'']"
  let ?c = "cleanup_processed_posts shelf_times (\<lambda>_. True) (\<lambda>_. True) False 1000000 (Some 5) (shelf ?ps)"
  let ?l = "load_latest_completed_map (m_jobs (shelf ?ps)) (map pm_guid ?ps)"
  obtain n db' where c: "?c = (n, db')" by force
  have "shelf_post 1 7 ''a'' \<in> set ?ps" and b: "shelf_post 2 7 ''b'' \<in> set ?ps" by simp_all
  have feeds: "pm_feed (shelf_post 2 7 ''b'') = pm_feed (shelf_post 1 7 ''a'')" by (simp add: shelf_post_def)
  have "rows_ok (shelf ?ps)" by code_simp
  moreover have "build_cleanup_query False 1000000 (Some 5) (shelf ?ps) = Some (?ps, 568000)" by code_simp
  ultimately obtain q where q: "q \<in> set ?ps" "pm_feed q = pm_feed (shelf_post 1 7 ''a'')" "q \<in> set (m_posts db')"
    "newer_eq (post_timestamp shelf_times (m_files (shelf ?ps)) ?l q, pm_id q)
       (post_timestamp shelf_times (m_files (shelf ?ps)) ?l (shelf_post 2 7 ''b''), pm_id (shelf_post 2 7 ''b''))"
    using newest_episode_of_a_feed_survives [OF _ c _ \<open>shelf_post 1 7 ''a'' \<in> set ?ps\<close> refl] b feeds by blast
  have "\<not> newer_eq (post_timestamp shelf_times (m_files (shelf ?ps)) ?l (shelf_post 1 7 ''a''), pm_id (shelf_post 1 7 ''a''))
     (post_timestamp shelf_times (m_files (shelf ?ps)) ?l (shelf_post 2 7 ''b''), pm_id (shelf_post 2 7 ''b''))" by code_simp
  then have "q \<noteq> shelf_post 1 7 ''a''" using q(4) by blast
  then have "q = shelf_post 2 7 ''b''" using q(1,2) by (auto simp: shelf_post_def)
  then show ?thesis using q(3) c by simp
qed

text \<open>Two episodes of a feed with one title record one file.  When the older is pruned, the newest episode of the feed
  keeps its row and its path, and its file is gone.\<close>

definition completed_job :: "string \<Rightarrow> instant \<Rightarrow> job" where
  "completed_job g t = \<lparr>job_id = g, run_id = None, post_guid = g, status = ''completed'', current_step = Some 4, step_name = None,
     total_steps = Some 4, progress = Some 100, started_at = Some 0, completed_at = Some t, error_message = None,
     created_at = 0, requested_by = None, billing_user = None, stage_history = [], ad_windows_count = None,
     had_classification_parse_error = False, auto_retry_attempted = False\<rparr>"

theorem pruning_takes_the_file_of_a_namesake:
  "let old = (shelf_post 1 7 ''a'')\<lparr>pm_guid := ''old''\<rparr>; new = (shelf_post 2 7 ''a'')\<lparr>pm_guid := ''new''\<rparr>;
       r = cleanup_processed_posts (\<lambda>_. Some 100) (\<lambda>_. True) (\<lambda>_. True) False 1000000 (Some 5)
             ((shelf [old, new])\<lparr>m_files := [''a''], m_jobs := [completed_job ''old'' 100, completed_job ''new'' 999999]\<rparr>) in
     fst r = 1 \<and> m_posts (snd r) = [cleared old, new] \<and> pm_processed new = Some ''a'' \<and> m_files (snd r) = []"
  by code_simp

section \<open>A second run\<close>

lemma note_post_cong: "map_of m (pm_feed p) = map_of m' (pm_feed p) \<Longrightarrow>
  map_of (note_post ts p m) (pm_feed p) = map_of (note_post ts p m') (pm_feed p)"
  by (auto simp: note_post_def Let_def update_conv split: option.splits prod.splits)

lemma fold_note_feed:
  "map_of (fold (note_post ts) ps []) f = map_of (fold (note_post ts) (filter (\<lambda>p. pm_feed p = f) ps) []) f"
proof (induction ps rule: rev_induct)
  case (snoc p ps)
  then show ?case using note_post_cong [of "fold (note_post ts) ps []" p] by (auto simp: note_post_other)
qed simp

lemma fold_note_cong: "(\<And>p. p \<in> set ps \<Longrightarrow> ts p = ts' p) \<Longrightarrow> fold (note_post ts) ps [] = fold (note_post ts') ps []"
proof -
  assume *: "\<And>p. p \<in> set ps \<Longrightarrow> ts p = ts' p"
  have "note_post ts p = note_post ts' p" if "p \<in> set ps" for p
    by (rule ext) (simp only: note_post_def * [OF that])
  then show ?thesis by (intro fold_cong) simp_all
qed

text \<open>What stays chosen when undated posts stay and dated ones go.\<close>

lemma kept_again:
  assumes ids: "inj_on pm_id (set ps)" and undated: "\<And>p. p \<in> set ps \<Longrightarrow> ts p = None \<Longrightarrow> \<not> out p"
    and m: "map_of (fold (note_post ts) ps []) f = Some (g, t, i)"
    and stays: "\<And>p. p \<in> set ps \<Longrightarrow> pm_guid p = g \<Longrightarrow> \<not> out p"
  shows "\<exists>t i. map_of (fold (note_post ts) (filter (\<lambda>p. \<not> out p) ps) []) f = Some (g, t, i)"
proof -
  let ?qs = "filter (\<lambda>p. \<not> out p) ps"
  have n: "newest_of ts ps f (Some (g, t, i))" using newest_of_fold [of ts ps f] m by simp
  then obtain q where q: "q \<in> set ps" "pm_feed q = f" "(g, t, i) = (pm_guid q, ts q, pm_id q)" by (auto simp: newest_of_def)
  have q': "q \<in> set ?qs" using q stays by auto
  show ?thesis
  proof (cases t)
    case None
    have "filter (\<lambda>p. pm_feed p = f) ?qs = filter (\<lambda>p. pm_feed p = f) ps"
    proof -
      have "\<not> out p" if "p \<in> set ps" "pm_feed p = f" for p
      proof -
        have "newer_eq (t, i) (ts p, pm_id p)" using n that by (auto simp: newest_of_def)
        then have "ts p = None" using None by (auto simp: newer_eq_def split: option.splits)
        then show ?thesis using undated that by blast
      qed
      then show ?thesis by (auto simp: filter_filter intro!: filter_cong)
    qed
    then have "map_of (fold (note_post ts) ?qs []) f = map_of (fold (note_post ts) ps []) f"
      using fold_note_feed [of ts ?qs f] fold_note_feed [of ts ps f] by simp
    then show ?thesis using m by simp
  next
    case (Some s)
    have n': "newest_of ts ?qs f (map_of (fold (note_post ts) ?qs []) f)" by (rule newest_of_fold)
    then obtain g' t' i' where m': "map_of (fold (note_post ts) ?qs []) f = Some (g', t', i')"
      using q' q(2) by (cases "map_of (fold (note_post ts) ?qs []) f") (auto simp: newest_of_def)
    then obtain r where r: "r \<in> set ?qs" "pm_feed r = f" "(g', t', i') = (pm_guid r, ts r, pm_id r)"
      using n' by (auto simp: newest_of_def)
    have "newer_eq (t', i') (t, i)" using n' m' q q' by (auto simp: newest_of_def)
    moreover have "newer_eq (t, i) (t', i')" using n r by (auto simp: newest_of_def)
    ultimately have "i' = i" using Some by (auto simp: newer_eq_def split: option.splits)
    then have "r = q" using ids q r by (auto simp: inj_on_def)
    then show ?thesis using m' q r by auto
  qed
qed

lemma filter_cleared:
  assumes "\<And>q. q \<in> D \<Longrightarrow> P q" and "\<And>q. q \<in> D \<Longrightarrow> \<not> P (cleared q)"
  shows "filter P (map (\<lambda>q. if q \<in> D then cleared q else q) ps) = filter (\<lambda>q. q \<notin> D) (filter P ps)"
  using assms by (induction ps) auto

lemma load_latest_mem: "g \<in> set guids \<Longrightarrow> g \<in> set guids' \<Longrightarrow> load_latest_completed_map js guids g = load_latest_completed_map js guids' g"
  by (simp add: load_latest_completed_map_def)

lemma undated_never_old:
  "post_timestamp mtime files latest p = None \<Longrightarrow> \<not> processed_timestamp_before_cutoff mtime files latest cutoff p"
  by (auto simp: post_timestamp_def processed_timestamp_before_cutoff_def split: option.splits)

lemma gone_again:
  assumes ok: "library_ok db"
  shows "gone mtime dev now retention (without_posts rm (\<lambda>_. True) (set (gone mtime dev now retention db)) db) = []"
proof (cases "build_cleanup_query dev now retention db")
  case None
  then show ?thesis by (auto simp: gone_def build_cleanup_query_def without_posts_def split: option.splits if_split_asm)
next
  case (Some c)
  obtain cands cutoff where c: "build_cleanup_query dev now retention db = Some (cands, cutoff)" using Some by (metis prod.collapse)
  let ?D = "set (gone mtime dev now retention db)"
  let ?db = "without_posts rm (\<lambda>_. True) ?D db"
  let ?P = "\<lambda>p. pm_processed p \<noteq> None \<and> \<not> active_job_exists (m_jobs db) (pm_guid p)"
  define latest where "latest = load_latest_completed_map (m_jobs db) (map pm_guid cands)"
  define kept where "kept = most_recent_posts_per_feed mtime (m_files db) latest cands"
  have D: "?D = {p \<in> set cands. goes mtime (m_files db) latest cutoff kept p}"
    using c by (auto simp: gone_def latest_def kept_def Let_def)
  have cands: "cands = filter ?P (m_posts db)" using c by (auto simp: build_cleanup_query_def split: option.splits if_split_asm)
  define rest where "rest = filter (\<lambda>p. p \<notin> ?D) cands"
  have c': "build_cleanup_query dev now retention ?db = Some (rest, cutoff)"
  proof -
    have "filter ?P (m_posts ?db) = rest"
    proof -
      have "filter ?P (map (\<lambda>q. if q \<in> ?D then cleared q else q) (m_posts db)) = filter (\<lambda>q. q \<notin> ?D) (filter ?P (m_posts db))"
        by (rule filter_cleared) (auto simp: D cands cleared_def)
      then show ?thesis by (simp add: without_posts_def rest_def cands)
    qed
    moreover have "m_jobs ?db = m_jobs db" by (simp add: without_posts_def)
    ultimately show ?thesis using c by (auto simp: build_cleanup_query_def split: option.splits if_split_asm)
  qed
  define latest' where "latest' = load_latest_completed_map (m_jobs db) (map pm_guid rest)"
  have sub: "?D \<subseteq> set (m_posts db)" "set rest \<subseteq> set cands" "set cands \<subseteq> set (m_posts db)"
    by (auto simp: D cands rest_def)
  have same: "latest' (pm_guid p) = latest (pm_guid p)" "processed_file_timestamp mtime (m_files ?db) p = processed_file_timestamp mtime (m_files db) p"
    if "p \<in> set rest" for p
  proof -
    show "latest' (pm_guid p) = latest (pm_guid p)"
      unfolding latest_def latest'_def by (rule load_latest_mem) (use that sub in auto)
    have "f \<in> set (m_files ?db) \<longleftrightarrow> f \<in> set (m_files db)" if f: "pm_processed p = Some f" for f
    proof -
      have "p \<in> set (m_posts db)" "p \<notin> ?D" using \<open>p \<in> set rest\<close> sub by (auto simp: rest_def)
      then have "f \<notin> set (post_paths q)" if "q \<in> ?D" for q
        using library_ok_paths [OF ok, of p q] that sub(1) processed_in_paths [OF f] by blast
      then show ?thesis by (auto simp: without_posts_def)
    qed
    then show "processed_file_timestamp mtime (m_files ?db) p = processed_file_timestamp mtime (m_files db) p"
      by (auto simp: processed_file_timestamp_def split: option.splits)
  qed
  let ?ts = "post_timestamp mtime (m_files db) latest"
  have ts: "post_timestamp mtime (m_files ?db) latest' p = ?ts p" if "p \<in> set rest" for p
    using same [OF that] by (simp add: post_timestamp_def)
  have "\<not> goes mtime (m_files ?db) latest' cutoff (most_recent_posts_per_feed mtime (m_files ?db) latest' rest) p"
    if p: "p \<in> set rest" for p
  proof (cases "processed_timestamp_before_cutoff mtime (m_files db) latest cutoff p")
    case False
    then show ?thesis using same [OF p] by (simp add: goes_def processed_timestamp_before_cutoff_def)
  next
    case True
    then have "pm_guid p \<in> set kept" using p by (auto simp: rest_def D goes_def)
    then obtain f t i where m: "map_of (fold (note_post ?ts) cands []) f = Some (pm_guid p, t, i)"
      by (auto simp: kept_def kept_newest)
    have "\<exists>t i. map_of (fold (note_post ?ts) (filter (\<lambda>q. \<not> q \<in> ?D) cands) []) f = Some (pm_guid p, t, i)"
    proof (rule kept_again [OF _ _ m])
      show "inj_on pm_id (set cands)" using ok sub by (auto simp: library_ok_def rows_ok_def distinct_map intro: inj_on_subset)
      show "q \<notin> ?D" if "q \<in> set cands" "?ts q = None" for q
        using that undated_never_old by (auto simp: D goes_def)
      show "q \<notin> ?D" if "q \<in> set cands" "pm_guid q = pm_guid p" for q
        using that \<open>pm_guid p \<in> set kept\<close> by (auto simp: D goes_def)
    qed
    moreover have "fold (note_post (post_timestamp mtime (m_files ?db) latest')) rest [] = fold (note_post ?ts) rest []"
      by (rule fold_note_cong) (rule ts)
    ultimately have "pm_guid p \<in> set (most_recent_posts_per_feed mtime (m_files ?db) latest' rest)"
      unfolding kept_newest by (auto simp: rest_def)
    then show ?thesis by (simp add: goes_def)
  qed
  then have "filter (goes mtime (m_files ?db) latest' cutoff (most_recent_posts_per_feed mtime (m_files ?db) latest' rest)) rest = []"
    by (simp add: filter_empty_conv)
  moreover have "m_jobs ?db = m_jobs db" by (simp add: without_posts_def)
  moreover have "gone mtime dev now retention ?db = filter (goes mtime (m_files ?db)
      (load_latest_completed_map (m_jobs ?db) (map pm_guid rest)) cutoff (most_recent_posts_per_feed mtime (m_files ?db)
      (load_latest_completed_map (m_jobs ?db) (map pm_guid rest)) rest)) rest"
    by (subst gone_def) (simp only: c' option.case prod.case Let_def)
  ultimately show ?thesis by (simp only: latest'_def)
qed

text \<open>The count shown before a cleanup is the number of posts the cleanup then removes, and once it has
  run with the writer up, the count is zero and a second run changes nothing.\<close>

theorem cleanup_removes_what_was_counted:
  assumes "library_ok db" and "cleanup_processed_posts mtime rm (\<lambda>_. True) dev now retention db = (n, db')"
  shows "fst (count_cleanup_candidates mtime dev now retention db) = n
    \<and> fst (count_cleanup_candidates mtime dev now retention db') = 0"
  using assms(2) gone_again [OF assms(1)] by (auto simp: cleanup_eq [OF assms(1)] count_eq)

theorem cleanup_removes_what_was_counted_witness:
  "fst (count_cleanup_candidates shelf_times False 1000000 (Some 5)
     (shelf [shelf_post 1 7 ''a'', shelf_post 2 7 ''b'', shelf_post 3 8 ''c''])) = 1
   \<and> fst (count_cleanup_candidates shelf_times False 1000000 (Some 5)
     (snd (cleanup_processed_posts shelf_times (\<lambda>_. True) (\<lambda>_. True) False 1000000 (Some 5)
       (shelf [shelf_post 1 7 ''a'', shelf_post 2 7 ''b'', shelf_post 3 8 ''c''])))) = 0"
proof -
  let ?db = "shelf [shelf_post 1 7 ''a'', shelf_post 2 7 ''b'', shelf_post 3 8 ''c'']"
  have "library_ok ?db" by code_simp
  moreover have "fst (cleanup_processed_posts shelf_times (\<lambda>_. True) (\<lambda>_. True) False 1000000 (Some 5) ?db) = 1" by code_simp
  ultimately show ?thesis
    using cleanup_removes_what_was_counted [of ?db shelf_times "\<lambda>_. True" False 1000000 "Some 5"] by (metis prod.collapse)
qed

section \<open>A fresh file with an old job\<close>

text \<open>The docstring has the age of the processed file decide, the completed job only where the file is
  missing.  The code takes the earlier of the two, so an episode whose file was rewritten just now is
  pruned because its last completed job is old.\<close>

theorem an_completed_job_prunes_a_fresh_file:
  "case cleanup_processed_posts (\<lambda>f. Some 999999) (\<lambda>_. True) (\<lambda>_. True) False 1000000 (Some 5)
      ((shelf [shelf_post 1 7 ''a'', shelf_post 2 7 ''b''])\<lparr>m_jobs := [completed_job ''a'' 10]\<rparr>) of
     (n, db') \<Rightarrow> n = 1 \<and> m_files db' = [''b'']"
  by code_simp

end
