(* ===== verification/WordBoundary.thy ===== *)
theory WordBoundary
  imports Boundary ModelOutput RepeatAds PostStore
begin

text \<open>
  \<open>src/podcast_processor/word_boundary_refiner.py\<close>: the boundaries of an ad from a phrase the model
  quotes, timed by the words of the transcript where they are saved, by the position of the phrase in
  its segment otherwise.  The request to the model is an argument (the reply with its finish reason, or
  the message of the exception), as are \<open>json.loads\<close>, \<open>str\<close> of a value that is no string, and what
  the native sidecar returns for the context and for the whole refinement (\<open>None\<close> where it is switched
  off or fails).  The segments have the shape in which the classifier builds them.  The updates of the
  recorded call are the second component of the result.
\<close>

record timed_word =
  tw_word :: "string option"
  tw_start :: "real option"
  tw_end :: "real option"

record wb_segment =
  wb_seq :: int
  wb_start :: real
  wb_end :: real
  wb_text :: string
  wb_words :: "timed_word list option"

record word_refinement =
  wr_start :: real
  wr_end :: real
  wr_start_reason :: string
  wr_end_reason :: string

type_synonym word_update = "string \<times> string option \<times> string option"

section \<open>Reading the reply\<close>

definition wb_fence :: re where
  "wb_fence = Alt (Seq (Lit ''```'') (Opt (ILit ''json''))) (Lit ''```'')"

definition wb_block :: re where
  "wb_block = Seqs [Lit ''```'', Opt (ILit ''json''), Star (Cls py_space), Grp 1 (LazyStar (Cls (\<lambda>_. True))), Lit ''```'']"

text \<open>\<open>_extract_json_objects\<close>: the scan with its depth, start of the open object, and string state.\<close>

fun extract_objects_from :: "string \<Rightarrow> nat \<Rightarrow> nat \<Rightarrow> nat option \<Rightarrow> bool \<Rightarrow> bool \<Rightarrow> string \<Rightarrow> string list" where
  "extract_objects_from txt idx level start_idx in_string escaped [] = []"
| "extract_objects_from txt idx level start_idx in_string escaped (c # cs) =
     (if in_string then
        (if escaped then extract_objects_from txt (Suc idx) level start_idx True False cs
         else if c = CHR 0x5C then extract_objects_from txt (Suc idx) level start_idx True True cs
         else if c = CHR 0x22 then extract_objects_from txt (Suc idx) level start_idx False False cs
         else extract_objects_from txt (Suc idx) level start_idx True False cs)
      else if c = CHR 0x22 then extract_objects_from txt (Suc idx) level start_idx True escaped cs
      else if c = CHR 0x7B then
        extract_objects_from txt (Suc idx) (Suc level) (if level = 0 then Some idx else start_idx) False escaped cs
      else if c \<noteq> CHR 0x7D \<or> level = 0 then extract_objects_from txt (Suc idx) level start_idx False escaped cs
      else (case (level - 1, start_idx) of
          (0, Some s) \<Rightarrow> slice txt s (Suc idx) # extract_objects_from txt (Suc idx) 0 None False escaped cs
        | (d, s) \<Rightarrow> extract_objects_from txt (Suc idx) d s False escaped cs))"

definition extract_json_objects :: "string \<Rightarrow> string list" where
  "extract_json_objects txt = extract_objects_from txt 0 0 None False False txt"

fun dedupe_preserve_order :: "string list \<Rightarrow> string list \<Rightarrow> string list" where
  "dedupe_preserve_order [] deduped = deduped"
| "dedupe_preserve_order (v # vs) deduped =
     (let n = py_strip v in
      if n = [] \<or> n \<in> set deduped then dedupe_preserve_order vs deduped
      else dedupe_preserve_order vs (deduped @ [n]))"

definition json_parse_candidates :: "string \<Rightarrow> string list" where
  "json_parse_candidates content =
     (let txt = py_strip content in
      if txt = [] then []
      else (let blocks = filter (\<lambda>b. b \<noteq> []) (map py_strip (re_findall_group 1 wb_block txt));
                unfenced = py_strip (re_sub wb_fence [] txt);
                candidates = [txt] @ blocks @ (if unfenced = [] then [] else [unfenced]) in
        dedupe_preserve_order (concat (map (\<lambda>c. c # extract_json_objects c) candidates)) []))"

definition trailing_patterns :: "re list" where
  "trailing_patterns =
     (let comma = Seqs [Lit '','', Star (Cls py_space), quote_re, Star not_quote];
          colon = Seqs [quote_re, Star (Cls py_space), Lit '':'', Star (Cls py_space)] in
      [Seq comma Eos, Seqs [comma, quote_re, Eos], Seqs [comma, colon, Eos],
       Seqs [comma, colon, quote_re, Star not_quote, Eos]])"

definition repair_truncated_json :: "string \<Rightarrow> string option" where
  "repair_truncated_json candidate =
     (let txt = py_strip candidate in
      if CHR 0x7B \<notin> set txt then None
      else (let opened = dropWhile (\<lambda>c. c \<noteq> CHR 0x7B) txt;
                bare = rev (dropWhile (\<lambda>c. c = CHR 0x2C) (rev (py_strip (re_sub wb_fence [] opened))));
                cut = fold (\<lambda>p s. re_sub p [] s) trailing_patterns bare;
                lists_closed = cut @ replicate (count_char CHR 0x5B cut - count_char CHR 0x5D cut) CHR 0x5D;
                closed = lists_closed
                  @ replicate (count_char CHR 0x7B lists_closed - count_char CHR 0x7D lists_closed) CHR 0x7D in
            if closed = [] then None else Some closed))"

fun first_object :: "(string \<Rightarrow> json option) \<Rightarrow> string list \<Rightarrow> (string \<times> json) list option" where
  "first_object loads [] = None"
| "first_object loads (a # rest) = (case loads a of Some (JObj kvs) \<Rightarrow> Some kvs | _ \<Rightarrow> first_object loads rest)"

definition parse_json_candidate :: "(string \<Rightarrow> json option) \<Rightarrow> string \<Rightarrow> (string \<times> json) list option" where
  "parse_json_candidate loads candidate =
     first_object loads (candidate # (case repair_truncated_json candidate of
        Some r \<Rightarrow> if r \<noteq> candidate then [r] else [] | None \<Rightarrow> []))"

fun parse_candidates :: "(string \<Rightarrow> json option) \<Rightarrow> string list \<Rightarrow> (string \<times> json) list option" where
  "parse_candidates loads [] = None"
| "parse_candidates loads (c # cs) =
     (case parse_json_candidate loads c of Some kvs \<Rightarrow> Some kvs | None \<Rightarrow> parse_candidates loads cs)"

section \<open>Salvaging fields\<close>

definition field_re :: "string \<Rightarrow> re \<Rightarrow> re" where
  "field_re key val = Seqs [quote_re, ILit key, quote_re, Star (Cls py_space), Lit '':'', Star (Cls py_space), val]"

definition extract_int_or_null :: "string \<Rightarrow> string \<Rightarrow> int option" where
  "extract_int_or_null txt key =
     (case re_search (field_re key (Grp 1 (Alt (ILit ''null'') (Seq (Opt (Lit ''-'')) (Plus (Cls digit_char)))))) txt of
        None \<Rightarrow> None
      | Some (_, _, c) \<Rightarrow> (let v = group_text txt c 1 in if py_lower v = ''null'' then None else int_of_str v))"

definition extract_string :: "string \<Rightarrow> string \<Rightarrow> string option" where
  "extract_string txt key =
     (case re_search (field_re key (Seqs [quote_re, Grp 1 (Star not_quote), quote_re])) txt of
        None \<Rightarrow> None
      | Some (_, _, c) \<Rightarrow> (let v = py_strip (group_text txt c 1) in if v = [] then None else Some v))"

definition parse_partial_json_fields :: "string \<Rightarrow> (string \<times> json) list" where
  "parse_partial_json_fields txt =
     (let seq = (\<lambda>key. (case extract_int_or_null txt key of
            Some n \<Rightarrow> [(key, JNum (of_int n))]
          | None \<Rightarrow> if re_found (field_re key (ILit ''null'')) txt then [(key, JNull)] else []));
          str = (\<lambda>key. (case extract_string txt key of Some s \<Rightarrow> [(key, JStr s)] | None \<Rightarrow> [])) in
      seq ''refined_start_segment_seq'' @ seq ''refined_end_segment_seq'' @ str ''refined_start_phrase''
      @ str ''refined_end_phrase'' @ str ''start_adjustment_reason'' @ str ''end_adjustment_reason'')"

definition parse_reply :: "(string \<Rightarrow> json option) \<Rightarrow> string \<Rightarrow> (string \<times> json) list option" where
  "parse_reply loads content =
     (case parse_candidates loads (json_parse_candidates content) of
        Some kvs \<Rightarrow> Some kvs
      | None \<Rightarrow> (let partial = parse_partial_json_fields content in if partial = [] then None else Some partial))"

definition parse_failure_reason :: "string option \<Rightarrow> string" where
  "parse_failure_reason finish =
     (if py_lower (case finish of None \<Rightarrow> [] | Some f \<Rightarrow> f) = ''length'' then ''length'' else ''format'')"

record wb_payload =
  pl_start_seq :: json
  pl_start_phrase :: json
  pl_end_seq :: json
  pl_end_phrase :: json
  pl_start_word :: json
  pl_occurrence :: json
  pl_word_index :: json
  pl_start_reason :: string
  pl_end_reason :: string

definition or_empty :: "(json \<Rightarrow> string) \<Rightarrow> json \<Rightarrow> string" where
  "or_empty str_of v = (if truthy v then as_text str_of v else [])"

definition extract_payload :: "(json \<Rightarrow> string) \<Rightarrow> (string \<times> json) list \<Rightarrow> wb_payload" where
  "extract_payload str_of parsed =
     \<lparr>pl_start_seq = obj_get parsed ''refined_start_segment_seq'', pl_start_phrase = obj_get parsed ''refined_start_phrase'',
      pl_end_seq = obj_get parsed ''refined_end_segment_seq'', pl_end_phrase = obj_get parsed ''refined_end_phrase'',
      pl_start_word = obj_get parsed ''refined_start_word'',
      pl_occurrence = (if obj_get parsed ''occurrence'' = JNull then obj_get parsed ''occurance'' else obj_get parsed ''occurrence''),
      pl_word_index = obj_get parsed ''refined_start_word_index'',
      pl_start_reason = or_empty str_of (obj_get parsed ''start_adjustment_reason''),
      pl_end_reason = or_empty str_of (obj_get parsed ''end_adjustment_reason'')\<rparr>"

section \<open>Words and phrases\<close>

definition keep_in_token :: "char \<Rightarrow> bool" where
  "keep_in_token c \<longleftrightarrow> digit_char c \<or> upper_char c \<or> lower_letter c \<or> c = CHR 0x27"

text \<open>The substitution removes a leading and a trailing run of other characters.\<close>

definition trim_token :: "string \<Rightarrow> string" where
  "trim_token token =
     rev (dropWhile (\<lambda>c. \<not> keep_in_token c) (rev (dropWhile (\<lambda>c. \<not> keep_in_token c) token)))"

definition split_words :: "string \<Rightarrow> string list" where
  "split_words txt = filter (\<lambda>t. t \<noteq> []) (map trim_token (split_ws_acc [] (py_strip txt)))"

definition segment_word_entries :: "wb_segment \<Rightarrow> (string \<times> real option \<times> real option) list" where
  "segment_word_entries s =
     (case wb_words s of
        None \<Rightarrow> []
      | Some ws \<Rightarrow> List.map_filter (\<lambda>w. (case tw_word w of
            None \<Rightarrow> None
          | Some raw \<Rightarrow> (let token = py_lower (trim_token raw) in
              if token = [] then None else Some (token, tw_start w, tw_end w)))) ws)"

definition match_positions :: "'a list \<Rightarrow> 'a list \<Rightarrow> nat list" where
  "match_positions ws target =
     filter (\<lambda>i. take (length target) (drop i ws) = target) [0..<length ws + 1 - length target]"

definition find_subsequence :: "'a list \<Rightarrow> 'a list \<Rightarrow> bool \<Rightarrow> (nat \<times> nat) option" where
  "find_subsequence ws target choose_last =
     (if target = [] \<or> length ws < length target then None
      else (let m = match_positions ws target in
        if m = [] then None
        else (let i = (if choose_last then last m else hd m) in Some (i, i + length target - 1))))"

text \<open>The loop over \<open>k\<close>, from the longest.\<close>

fun longest_match :: "(nat \<Rightarrow> 'a list) \<Rightarrow> 'a list \<Rightarrow> bool \<Rightarrow> nat \<Rightarrow> (nat \<times> nat) option" where
  "longest_match target ws choose_last 0 = None"
| "longest_match target ws choose_last (Suc k) =
     (case find_subsequence ws (target (Suc k)) choose_last of
        Some m \<Rightarrow> Some m
      | None \<Rightarrow> longest_match target ws choose_last k)"

definition take_last :: "nat \<Rightarrow> 'a list \<Rightarrow> 'a list" where
  "take_last k xs = drop (length xs - k) xs"

definition find_phrase_match :: "'a list \<Rightarrow> 'a list \<Rightarrow> bool \<Rightarrow> nat \<Rightarrow> (nat \<times> nat) option" where
  "find_phrase_match ws phrase at_the_end max_words =
     (if ws = [] \<or> phrase = [] then None
      else if \<not> at_the_end then
        (let base = take max_words phrase in longest_match (\<lambda>k. take k base) ws False (length base))
      else (let base = take_last max_words phrase in longest_match (\<lambda>k. take_last k base) ws True (length base)))"

definition exact_phrase_boundary_time :: "(string \<times> real option \<times> real option) list \<Rightarrow> nat \<times> nat \<Rightarrow> bool \<Rightarrow> real option" where
  "exact_phrase_boundary_time timed m at_the_end =
     (if \<not> at_the_end then fst (snd (timed ! fst m)) else snd (snd (timed ! snd m)))"

definition text_phrase_time :: "wb_segment \<Rightarrow> string list \<Rightarrow> bool \<Rightarrow> real option" where
  "text_phrase_time s phrase at_the_end =
     (let duration = max 0 (wb_end s - wb_start s); ws = map py_lower (split_words (wb_text s)) in
      if ws = [] \<or> duration \<le> 0 then None
      else (case find_phrase_match ws phrase at_the_end 4 of
          None \<Rightarrow> None
        | Some (i, j) \<Rightarrow>
            (let per_word = duration / real (length ws) in
             Some (min (wb_start s + real (if at_the_end then j + 1 else i) * per_word) (wb_end s)))))"

definition estimate_phrase_time_for_segment :: "string list \<Rightarrow> bool \<Rightarrow> wb_segment \<Rightarrow> real option" where
  "estimate_phrase_time_for_segment phrase at_the_end s =
     (let timed = segment_word_entries s;
          exact = (case find_phrase_match (map fst timed) phrase at_the_end 4 of
            None \<Rightarrow> None | Some m \<Rightarrow> exact_phrase_boundary_time timed m at_the_end) in
      case (if timed = [] then None else exact) of
        Some t \<Rightarrow> Some t
      | None \<Rightarrow> text_phrase_time s phrase at_the_end)"

definition find_segment :: "wb_segment list \<Rightarrow> json \<Rightarrow> wb_segment option" where
  "find_segment segs seq = (case json_int seq of None \<Rightarrow> None | Some n \<Rightarrow> find (\<lambda>s. wb_seq s = n) segs)"

fun first_some :: "('a \<Rightarrow> 'b option) \<Rightarrow> 'a list \<Rightarrow> 'b option" where
  "first_some f [] = None"
| "first_some f (x # xs) = (case f x of Some y \<Rightarrow> Some y | None \<Rightarrow> first_some f xs)"

definition estimate_phrase_time ::
  "(json \<Rightarrow> string) \<Rightarrow> wb_segment list \<Rightarrow> wb_segment list \<Rightarrow> json \<Rightarrow> json \<Rightarrow> bool \<Rightarrow> real option" where
  "estimate_phrase_time str_of segs context_segs seq phrase at_the_end =
     (let tokens = map py_lower (split_words (or_empty str_of phrase)) in
      if tokens = [] then None
      else (let preferred = (case find_segment segs seq of None \<Rightarrow> [] | Some s \<Rightarrow> [s]);
                sorted_context = sort_key wb_seq context_segs;
                ordered = (if at_the_end then rev sorted_context else sorted_context);
                others = filter (\<lambda>s. json_int seq \<noteq> Some (wb_seq s)) ordered in
        first_some (estimate_phrase_time_for_segment tokens at_the_end) (preferred @ others)))"

definition resolve_word_index :: "(json \<Rightarrow> string) \<Rightarrow> string list \<Rightarrow> json \<Rightarrow> json \<Rightarrow> json \<Rightarrow> nat" where
  "resolve_word_index str_of ws word occurrence word_index =
     (let target = py_lower (trim_token (if word = JNull then [] else py_strip (as_text str_of word)));
          hits = filter (\<lambda>i. py_lower (ws ! i) = target) [0..<length ws] in
      if target \<noteq> [] \<and> hits \<noteq> [] then
        (if occurrence \<noteq> JNull \<and> py_lower (py_strip (as_text str_of occurrence)) = ''last'' then last hits else hd hits)
      else (let idx = (case json_int word_index of None \<Rightarrow> 0 | Some i \<Rightarrow> i) in
        nat (max 0 (min idx (int (length ws) - 1)))))"

definition estimate_word_time :: "(json \<Rightarrow> string) \<Rightarrow> wb_segment list \<Rightarrow> json \<Rightarrow> json \<Rightarrow> json \<Rightarrow> json \<Rightarrow> real" where
  "estimate_word_time str_of segs seq word occurrence word_index =
     (case find_segment segs seq of
        None \<Rightarrow> (case segs of [] \<Rightarrow> 0 | s # _ \<Rightarrow> wb_start s)
      | Some s \<Rightarrow>
          (let duration = max 0 (wb_end s - wb_start s); timed = segment_word_entries s;
               exact = (if timed = [] then None
                 else fst (snd (timed ! resolve_word_index str_of (map fst timed) word occurrence word_index))) in
           case exact of
             Some t \<Rightarrow> min t (wb_end s)
           | None \<Rightarrow>
               (let ws = split_words (wb_text s) in
                if ws = [] \<or> duration \<le> 0 then wb_start s
                else min (wb_start s + real (resolve_word_index str_of ws word occurrence word_index)
                       * (duration / real (length ws))) (wb_end s))))"

definition estimate_segment_boundary_time :: "wb_segment list \<Rightarrow> json \<Rightarrow> bool \<Rightarrow> real option" where
  "estimate_segment_boundary_time segs seq at_the_end =
     map_option (\<lambda>s. if at_the_end then wb_end s else wb_start s) (find_segment segs seq)"

section \<open>The two sides\<close>

definition constrain_start :: "real \<Rightarrow> real \<Rightarrow> real" where
  "constrain_start estimated orig = max estimated (orig - MAX_START_EXTENSION_SECONDS)"

definition constrain_end :: "real \<Rightarrow> real \<Rightarrow> real" where
  "constrain_end estimated orig = min estimated (orig + MAX_END_EXTENSION_SECONDS)"

definition has_text :: "(json \<Rightarrow> string) \<Rightarrow> json \<Rightarrow> bool" where
  "has_text str_of v \<longleftrightarrow> v \<noteq> JNull \<and> py_strip (as_text str_of v) \<noteq> []"

text \<open>A side: its time, whether it changed, the reason, and an error.\<close>

type_synonym side = "real \<times> bool \<times> string \<times> string option"

definition refine_start ::
  "(json \<Rightarrow> string) \<Rightarrow> real \<Rightarrow> wb_segment list \<Rightarrow> wb_segment list \<Rightarrow> wb_payload \<Rightarrow> side" where
  "refine_start str_of ad_start segs context_segs p =
     (if has_text str_of (pl_start_phrase p) then
        (case estimate_phrase_time str_of segs context_segs (pl_start_seq p) (pl_start_phrase p) False of
           None \<Rightarrow> (ad_start, False, pl_start_reason p, Some ''start_phrase_not_found'')
         | Some t \<Rightarrow> (constrain_start t ad_start, True, pl_start_reason p, None))
      else (case estimate_segment_boundary_time segs (pl_start_seq p) False of
          Some t \<Rightarrow> (let c = constrain_start t ad_start in (c, c \<noteq> ad_start, pl_start_reason p, None))
        | None \<Rightarrow>
            if has_text str_of (pl_start_word p) \<or> pl_word_index p \<noteq> JNull then
              (constrain_start (estimate_word_time str_of segs (pl_start_seq p) (pl_start_word p) (pl_occurrence p) (pl_word_index p)) ad_start,
               True, pl_start_reason p, None)
            else (ad_start, False, (if pl_start_reason p = [] then ''unchanged'' else pl_start_reason p), None)))"

definition refine_end ::
  "(json \<Rightarrow> string) \<Rightarrow> real \<Rightarrow> wb_segment list \<Rightarrow> wb_segment list \<Rightarrow> wb_payload \<Rightarrow> side" where
  "refine_end str_of ad_end segs context_segs p =
     (if \<not> has_text str_of (pl_end_phrase p) then
        (case estimate_segment_boundary_time segs (pl_end_seq p) True of
           Some t \<Rightarrow> (let c = constrain_end t ad_end in
             (c, c \<noteq> ad_end, (if pl_end_reason p = [] then ''refined'' else pl_end_reason p), None))
         | None \<Rightarrow> (ad_end, False, (if pl_end_reason p = [] then ''unchanged'' else pl_end_reason p), None))
      else (case estimate_phrase_time str_of segs context_segs (pl_end_seq p) (pl_end_phrase p) True of
          None \<Rightarrow> (ad_end, False, pl_end_reason p, Some ''end_phrase_not_found'')
        | Some t \<Rightarrow> (constrain_end t ad_end, True, pl_end_reason p, None)))"

section \<open>The context of an ad\<close>

definition context_by_seq_window :: "wb_segment list \<Rightarrow> int option \<Rightarrow> int option \<Rightarrow> wb_segment list" where
  "context_by_seq_window segs first_num last_num =
     (case (first_num, last_num) of
        (Some f, Some l) \<Rightarrow>
          (case map wb_seq segs of
             [] \<Rightarrow> []
           | n # ns \<Rightarrow>
               (let start_seq = max (fold min ns n) (f - 2); end_seq = min (fold max ns n) (l + 2) in
                filter (\<lambda>s. start_seq \<le> wb_seq s \<and> wb_seq s \<le> end_seq) segs))
      | _ \<Rightarrow> [])"

definition segment_overlaps :: "real \<Rightarrow> real \<Rightarrow> wb_segment \<Rightarrow> bool" where
  "segment_overlaps ad_start ad_end s \<longleftrightarrow> wb_start s \<le> ad_end \<and> ad_start \<le> wb_end s"

definition context_by_time_overlap :: "real \<Rightarrow> real \<Rightarrow> wb_segment list \<Rightarrow> wb_segment list" where
  "context_by_time_overlap ad_start ad_end segs =
     (let ad_segs = filter (segment_overlaps ad_start ad_end) segs in
      if ad_segs = [] then []
      else (let first_idx = index_of (hd ad_segs) segs; last_idx = index_of (last ad_segs) segs;
                start_idx = first_idx - 2; end_idx = min (length segs) (last_idx + 3) in
        take (end_idx - start_idx) (drop start_idx segs)))"

text \<open>The sidecar's segments with the words of ours.\<close>

definition rehydrate :: "wb_segment list \<Rightarrow> wb_segment list \<Rightarrow> wb_segment list" where
  "rehydrate segs items = map (\<lambda>i. (case find (\<lambda>s. wb_seq s = wb_seq i) (rev segs) of Some s \<Rightarrow> s | None \<Rightarrow> i)) items"

definition get_word_context ::
  "wb_segment list option \<Rightarrow> real \<Rightarrow> real \<Rightarrow> wb_segment list \<Rightarrow> int option \<Rightarrow> int option \<Rightarrow> wb_segment list" where
  "get_word_context native ad_start ad_end segs first_num last_num =
     (case native of
        Some items \<Rightarrow> rehydrate segs items
      | None \<Rightarrow>
          (let selected = context_by_seq_window segs first_num last_num in
           if selected \<noteq> [] then selected else context_by_time_overlap ad_start ad_end segs))"

section \<open>The refinement\<close>

definition fallback_refinement :: "real \<Rightarrow> real \<Rightarrow> word_refinement" where
  "fallback_refinement ad_start ad_end =
     \<lparr>wr_start = ad_start, wr_end = ad_end, wr_start_reason = ''heuristic_fallback'', wr_end_reason = ''unchanged''\<rparr>"

record refined_sides =
  rs_start :: real
  rs_start_changed :: bool
  rs_start_reason :: string
  rs_end :: real
  rs_end_changed :: bool
  rs_end_reason :: string
  rs_errors :: "json list"

definition sides_of :: "side \<Rightarrow> side \<Rightarrow> refined_sides" where
  "sides_of a b = (case (a, b) of ((s, sc, sr, se), (e, ec, er, ee)) \<Rightarrow>
     \<lparr>rs_start = s, rs_start_changed = sc, rs_start_reason = sr, rs_end = e, rs_end_changed = ec, rs_end_reason = er,
      rs_errors = map JStr (filter (\<lambda>x. x \<noteq> []) (List.map_filter id [se, ee]))\<rparr>)"

text \<open>The sidecar's answer, or an exception.\<close>

definition native_sides :: "(json \<Rightarrow> string) \<Rightarrow> (string \<times> json) list \<Rightarrow> refined_sides option" where
  "native_sides str_of r =
     (if \<not> list_all (obj_has r) [''refined_start'', ''start_changed'', ''refined_end'', ''end_changed''] then None
      else (case (py_float (obj_get r ''refined_start''), py_float (obj_get r ''refined_end'')) of
          (Some s, Some e) \<Rightarrow> Some
            \<lparr>rs_start = s, rs_start_changed = truthy (obj_get r ''start_changed''), rs_start_reason = or_empty str_of (obj_get r ''start_reason''),
             rs_end = e, rs_end_changed = truthy (obj_get r ''end_changed''), rs_end_reason = or_empty str_of (obj_get r ''end_reason''),
             rs_errors = filter truthy [obj_get r ''start_error'', obj_get r ''end_error'']\<rparr>
        | _ \<Rightarrow> None))"

definition default_reason :: "string \<Rightarrow> bool \<Rightarrow> string" where
  "default_reason reason changed = (if reason \<noteq> [] then reason else if changed then ''refined'' else ''unchanged'')"

definition revert_start :: "real \<Rightarrow> string \<Rightarrow> refined_sides \<Rightarrow> refined_sides" where
  "revert_start ad_start err r =
     r\<lparr>rs_start := ad_start, rs_start_changed := False, rs_start_reason := [], rs_errors := rs_errors r @ [JStr err]\<rparr>"

definition revert_end :: "real \<Rightarrow> string \<Rightarrow> refined_sides \<Rightarrow> refined_sides" where
  "revert_end ad_end err r =
     r\<lparr>rs_end := ad_end, rs_end_changed := False, rs_end_reason := [], rs_errors := rs_errors r @ [JStr err]\<rparr>"

definition settle_sides :: "real \<Rightarrow> real \<Rightarrow> refined_sides \<Rightarrow> refined_sides" where
  "settle_sides ad_start ad_end r0 =
     (let r1 = (if ad_end \<le> rs_start r0 then revert_start ad_start ''start_out_of_window'' r0 else r0);
          r2 = (if rs_end r1 \<le> ad_start then revert_end ad_end ''end_out_of_window'' r1 else r1);
          r3 = r2\<lparr>rs_start_reason := default_reason (rs_start_reason r2) (rs_start_changed r2),
                  rs_end_reason := default_reason (rs_end_reason r2) (rs_end_changed r2)\<rparr> in
      if rs_end r3 \<le> rs_start r3 then
        (if rs_start_changed r3 \<and> \<not> rs_end_changed r3 then revert_start ad_start ''start_invalid_window'' r3
         else if rs_end_changed r3 \<and> \<not> rs_start_changed r3 then revert_end ad_end ''end_invalid_window'' r3
         else r3)
      else r3)"

definition result_status :: "refined_sides \<Rightarrow> string" where
  "result_status r =
     (if rs_errors r \<noteq> [] \<and> \<not> rs_start_changed r \<and> \<not> rs_end_changed r then ''success_heuristic'' else ''success'')"

text \<open>\<open>",".join(partial_errors)\<close>; None where an element is no string.\<close>

definition join_errors :: "json list \<Rightarrow> string option" where
  "join_errors es =
     (if list_all (\<lambda>e. case e of JStr _ \<Rightarrow> True | _ \<Rightarrow> False) es
      then Some (join_with '','' (map (\<lambda>e. case e of JStr s \<Rightarrow> s | _ \<Rightarrow> []) es)) else None)"

text \<open>The part after the sides are known; \<open>exc\<close> is the text of an exception.\<close>

definition finish_refinement ::
  "(string \<Rightarrow> string) \<Rightarrow> real \<Rightarrow> real \<Rightarrow> string \<Rightarrow> refined_sides \<Rightarrow> word_refinement \<times> word_update list" where
  "finish_refinement exc ad_start ad_end content r0 =
     (let r = settle_sides ad_start ad_end r0 in
      if rs_end r \<le> rs_start r then
        (fallback_refinement ad_start ad_end, [(''success_heuristic'', Some content, Some ''invalid_refined_window'')])
      else (case (if rs_errors r = [] then Some None else map_option Some (join_errors (rs_errors r))) of
          None \<Rightarrow> (fallback_refinement ad_start ad_end, [(''failed_permanent'', Some content, Some (exc ''join''))])
        | Some err \<Rightarrow>
            (\<lparr>wr_start = rs_start r, wr_end = rs_end r, wr_start_reason = rs_start_reason r, wr_end_reason = rs_end_reason r\<rparr>,
             [(result_status r, Some content, err), (''success'', Some content, None)])))"

definition word_refine ::
  "(json \<Rightarrow> string) \<Rightarrow> (string \<Rightarrow> json option) \<Rightarrow> (string \<Rightarrow> string) \<Rightarrow> wb_segment list option \<Rightarrow> (string \<times> json) list option \<Rightarrow>
   real \<Rightarrow> real \<Rightarrow> wb_segment list \<Rightarrow> int option \<Rightarrow> int option \<Rightarrow> string + string \<times> string option \<Rightarrow>
   word_refinement \<times> word_update list" where
  "word_refine str_of loads exc native_context native ad_start ad_end segs first_num last_num reply =
     (let context_segs = get_word_context native_context ad_start ad_end segs first_num last_num in
      case reply of
        Inl e \<Rightarrow> (fallback_refinement ad_start ad_end, [(''failed_permanent'', None, Some e)])
      | Inr (content, finish) \<Rightarrow>
          (let received = (''received_response'', Some content, None);
               unparsed = (fallback_refinement ad_start ad_end,
                 [received, (''success_heuristic'', Some content, Some (''parse_failed:'' @ parse_failure_reason finish))]);
               finished = (\<lambda>r. case finish_refinement exc ad_start ad_end content r of (x, us) \<Rightarrow> (x, received # us)) in
           case native of
             Some n \<Rightarrow>
               if obj_get n ''parse_status'' = JStr ''failed'' then unparsed
               else (case native_sides str_of n of
                   None \<Rightarrow> (fallback_refinement ad_start ad_end,
                     [received, (''failed_permanent'', Some content, Some (exc ''native''))])
                 | Some r \<Rightarrow> finished r)
           | None \<Rightarrow>
               (case parse_reply loads content of
                  None \<Rightarrow> unparsed
                | Some [] \<Rightarrow> unparsed
                | Some parsed \<Rightarrow>
                    (let p = extract_payload str_of parsed in
                     finished (sides_of (refine_start str_of ad_start segs context_segs p)
                       (refine_end str_of ad_end segs context_segs p))))))"

section \<open>The window\<close>

lemma constrain_start_ge: "ad_start - MAX_START_EXTENSION_SECONDS \<le> constrain_start t ad_start"
  by (simp add: constrain_start_def)

lemma constrain_end_le: "constrain_end t ad_end \<le> ad_end + MAX_END_EXTENSION_SECONDS"
  by (simp add: constrain_end_def)

lemma refine_start_bound: "ad_start - MAX_START_EXTENSION_SECONDS \<le> fst (refine_start str_of ad_start segs ctx p)"
  by (auto simp: refine_start_def Let_def constrain_start_ge MAX_START_EXTENSION_SECONDS_def constrain_start_def split: option.splits)

lemma refine_end_bound: "fst (refine_end str_of ad_end segs ctx p) \<le> ad_end + MAX_END_EXTENSION_SECONDS"
  by (auto simp: refine_end_def Let_def constrain_end_le MAX_END_EXTENSION_SECONDS_def constrain_end_def split: option.splits)

lemma settle_sides_inside:
  assumes "ad_start < ad_end"
  shows "rs_start (settle_sides ad_start ad_end r) < ad_end" "ad_start < rs_end (settle_sides ad_start ad_end r)"
    "rs_start (settle_sides ad_start ad_end r) \<in> {ad_start, rs_start r}"
    "rs_end (settle_sides ad_start ad_end r) \<in> {ad_end, rs_end r}"
  using assms by (auto simp: settle_sides_def Let_def revert_start_def revert_end_def)

lemma finish_refinement_window:
  assumes "ad_start < ad_end" and "finish_refinement exc ad_start ad_end content r = (w, us)"
  shows "wr_start w < wr_end w" "wr_start w < ad_end" "ad_start < wr_end w"
    "wr_start w \<in> {ad_start, rs_start r}" "wr_end w \<in> {ad_end, rs_end r}"
  using assms settle_sides_inside [OF assms(1), of r]
  by (auto simp: finish_refinement_def fallback_refinement_def Let_def split: if_split_asm option.splits)

lemma rs_of_sides: "rs_start (sides_of a b) = fst a" "rs_end (sides_of a b) = fst b"
  by (auto simp: sides_of_def split: prod.splits)

lemma word_refine_cases:
  obtains (fallback) us where "word_refine str_of loads exc nc native ad_start ad_end segs f l reply = (fallback_refinement ad_start ad_end, us)"
  | (native) n r content us w where "native = Some n" "finish_refinement exc ad_start ad_end content r = (w, us)"
      "word_refine str_of loads exc nc native ad_start ad_end segs f l reply = (w, (''received_response'', Some content, None) # us)"
  | (own) parsed content us w where "native = None"
      "finish_refinement exc ad_start ad_end content
         (sides_of (refine_start str_of ad_start segs (get_word_context nc ad_start ad_end segs f l) (extract_payload str_of parsed))
           (refine_end str_of ad_end segs (get_word_context nc ad_start ad_end segs f l) (extract_payload str_of parsed))) = (w, us)"
      "word_refine str_of loads exc nc native ad_start ad_end segs f l reply = (w, (''received_response'', Some content, None) # us)"
proof (cases reply)
  case (Inl e)
  then show ?thesis using fallback by (simp add: word_refine_def Let_def)
next
  case (Inr cf)
  obtain content finish where cf: "cf = (content, finish)" by force
  show ?thesis
  proof (cases native)
    case (Some n)
    show ?thesis
    proof (cases "obj_get n ''parse_status'' = JStr ''failed''")
      case True
      then show ?thesis using fallback Inr cf Some by (simp add: word_refine_def Let_def)
    next
      case False
      show ?thesis
      proof (cases "native_sides str_of n")
        case None
        then show ?thesis using fallback Inr cf Some False by (simp add: word_refine_def Let_def)
      next
        case (Some r)
        obtain w us where "finish_refinement exc ad_start ad_end content r = (w, us)" by force
        then show ?thesis using native [of n content r w us] Inr cf \<open>native = Some n\<close> False Some by (simp add: word_refine_def Let_def)
      qed
    qed
  next
    case None
    show ?thesis
    proof (cases "parse_reply loads content")
      case None
      then show ?thesis using fallback Inr cf \<open>native = None\<close> by (simp add: word_refine_def Let_def)
    next
      case (Some parsed)
      show ?thesis
      proof (cases parsed)
        case Nil
        then show ?thesis using fallback Inr cf \<open>native = None\<close> Some by (simp add: word_refine_def Let_def)
      next
        case (Cons kv kvs)
        obtain w us where "finish_refinement exc ad_start ad_end content
         (sides_of (refine_start str_of ad_start segs (get_word_context nc ad_start ad_end segs f l) (extract_payload str_of parsed))
           (refine_end str_of ad_end segs (get_word_context nc ad_start ad_end segs f l) (extract_payload str_of parsed))) = (w, us)" by force
        then show ?thesis using own [of content parsed w us] Inr cf \<open>native = None\<close> Some Cons
          by (simp add: word_refine_def Let_def)
      qed
    qed
  qed
qed

text \<open>C34.  Whatever the model or the sidecar answers, the refined ad is a proper window that meets the
  detected one.  Where the refinement is computed here it extends the ad by at most 30 seconds at its start and 15
  at its end; inwards the code has no limit, and the answers of the sidecar are not capped.\<close>

theorem word_refined_ad_is_a_proper_window:
  assumes "ad_start < ad_end"
    and "word_refine str_of loads exc native_context native ad_start ad_end segs f l reply = (w, us)"
  shows "wr_start w < wr_end w \<and> wr_start w < ad_end \<and> ad_start < wr_end w
    \<and> (native = None \<longrightarrow> ad_start - 30 \<le> wr_start w \<and> wr_end w \<le> ad_end + 15)"
proof (cases rule: word_refine_cases [of str_of loads exc native_context native ad_start ad_end segs f l reply])
  case (fallback us')
  then show ?thesis using assms by (simp add: fallback_refinement_def)
next
  case (native n r content us' w')
  then show ?thesis using assms(2) finish_refinement_window [OF assms(1) native(2)] by simp
next
  case (own parsed content us' w')
  then show ?thesis using assms finish_refinement_window [OF assms(1) own(2)]
      refine_start_bound [of ad_start str_of segs "get_word_context native_context ad_start ad_end segs f l" "extract_payload str_of parsed"]
      refine_end_bound [of str_of ad_end segs "get_word_context native_context ad_start ad_end segs f l" "extract_payload str_of parsed"]
    by (auto simp: rs_of_sides MAX_START_EXTENSION_SECONDS_def MAX_END_EXTENSION_SECONDS_def)
qed

section \<open>Phrases\<close>

definition occurs_at :: "'a list \<Rightarrow> 'a list \<Rightarrow> nat \<Rightarrow> bool" where
  "occurs_at target ws i \<longleftrightarrow> i + length target \<le> length ws \<and> take (length target) (drop i ws) = target"

lemma set_match_positions: "target \<noteq> [] \<Longrightarrow> set (match_positions ws target) = {i. occurs_at target ws i}"
  by (auto simp: match_positions_def occurs_at_def)

lemma sorted_match_positions: "sorted_wrt (<) (match_positions ws target)"
  by (auto simp: match_positions_def intro: sorted_wrt_filter)

lemma hd_least: "sorted_wrt (<) (xs :: nat list) \<Longrightarrow> x \<in> set xs \<Longrightarrow> hd xs \<le> x"
  by (cases xs) auto

lemma last_greatest: "sorted_wrt (<) (xs :: nat list) \<Longrightarrow> x \<in> set xs \<Longrightarrow> x \<le> last xs"
  by (induction xs) (auto intro: less_imp_le)

lemma find_subsequence_Some:
  assumes "find_subsequence ws target choose_last = Some (i, j)"
  shows "target \<noteq> []" "occurs_at target ws i" "j + 1 = i + length target"
    "\<And>i'. occurs_at target ws i' \<Longrightarrow> (if choose_last then i' \<le> i else i \<le> i')"
proof -
  let ?m = "match_positions ws target"
  have *: "target \<noteq> []" "?m \<noteq> []" "i = (if choose_last then last ?m else hd ?m)" "j = i + length target - 1"
    using assms by (auto simp: find_subsequence_def Let_def split: if_split_asm)
  have "i \<in> set ?m" using * by simp
  then show "target \<noteq> []" "occurs_at target ws i" "j + 1 = i + length target"
    using * set_match_positions [OF *(1)] by auto
  show "if choose_last then i' \<le> i else i \<le> i'" if "occurs_at target ws i'" for i'
    using that * set_match_positions [OF *(1), of ws] sorted_match_positions [of ws target] hd_least last_greatest by (metis mem_Collect_eq)
qed

lemma find_subsequence_None:
  assumes "target \<noteq> []" and "find_subsequence ws target choose_last = None"
  shows "\<not> occurs_at target ws i"
proof
  assume "occurs_at target ws i"
  then have "match_positions ws target \<noteq> []" "\<not> length ws < length target"
    using set_match_positions [OF assms(1), of ws] by (force simp: occurs_at_def)+
  then show False using assms by (simp add: find_subsequence_def Let_def)
qed

lemma longest_match_Some:
  assumes "longest_match target ws cl n = Some (i, j)" and "\<And>k. 0 < k \<Longrightarrow> k \<le> n \<Longrightarrow> length (target k) = k"
  obtains k where "0 < k" "k \<le> n" "find_subsequence ws (target k) cl = Some (i, j)"
    "\<And>k' i'. k < k' \<Longrightarrow> k' \<le> n \<Longrightarrow> \<not> occurs_at (target k') ws i'"
proof -
  have "\<exists>k. 0 < k \<and> k \<le> n \<and> find_subsequence ws (target k) cl = Some (i, j) \<and> (\<forall>k' i'. k < k' \<and> k' \<le> n \<longrightarrow> \<not> occurs_at (target k') ws i')"
    using assms
  proof (induction n)
    case (Suc n)
    show ?case
    proof (cases "find_subsequence ws (target (Suc n)) cl")
      case None
      then obtain k where k: "0 < k" "k \<le> n" "find_subsequence ws (target k) cl = Some (i, j)"
        "\<forall>k' i'. k < k' \<and> k' \<le> n \<longrightarrow> \<not> occurs_at (target k') ws i'"
        using Suc by auto
      have "target (Suc n) \<noteq> []" using Suc.prems(2) [of "Suc n"] by auto
      then have "\<not> occurs_at (target (Suc n)) ws i'" for i' using find_subsequence_None None by blast
      then show ?thesis using k by (intro exI [of _ k]) (auto simp: le_Suc_eq)
    next
      case (Some m)
      then show ?thesis using Suc.prems by (intro exI [of _ "Suc n"]) auto
    qed
  qed simp
  then show ?thesis using that by blast
qed

lemma longest_match_None:
  "longest_match target ws cl n = None \<Longrightarrow> 0 < k \<Longrightarrow> k \<le> n \<Longrightarrow> find_subsequence ws (target k) cl = None"
  by (induction n) (auto simp: le_Suc_eq split: option.splits)

lemma take_last_take_last:
  assumes "k \<le> n"
  shows "take_last k (take_last n xs) = take_last k xs"
proof -
  have "length xs - n + (length xs - (length xs - n) - k) = length xs - k" using assms by arith
  then show ?thesis by (simp add: take_last_def add.commute)
qed

text \<open>The longest run of up to \<open>n\<close> words from the phrase's beginning (for an end: up to its end) that
  occurs in the words is located, at its first (last) occurrence; nothing is located only if the
  first (last) word of the phrase does not occur at all.\<close>

theorem phrase_match_is_the_longest:
  assumes "phrase \<noteq> []" and "0 < n"
  shows "case find_phrase_match ws phrase at_the_end n of
      None \<Rightarrow> (if at_the_end then last phrase else hd phrase) \<notin> set ws
    | Some (i, j) \<Rightarrow> i \<le> j \<and> j + 1 - i \<le> min n (length phrase)
        \<and> occurs_at (if at_the_end then take_last (j + 1 - i) phrase else take (j + 1 - i) phrase) ws i
        \<and> (\<forall>i'. occurs_at (if at_the_end then take_last (j + 1 - i) phrase else take (j + 1 - i) phrase) ws i' \<longrightarrow>
              (if at_the_end then i' \<le> i else i \<le> i'))
        \<and> (\<forall>k i'. j + 1 - i < k \<and> k \<le> min n (length phrase) \<longrightarrow>
              \<not> occurs_at (if at_the_end then take_last k phrase else take k phrase) ws i')"
proof -
  let ?m = "min n (length phrase)"
  let ?piece = "\<lambda>k. if at_the_end then take_last k phrase else take k phrase"
  have len: "length (?piece k) = k" if "k \<le> ?m" for k using that by (auto simp: take_last_def)
  have m: "0 < ?m" using assms by simp
  have one: "?piece 1 = [if at_the_end then last phrase else hd phrase]"
    using assms(1) by (cases phrase rule: rev_cases) (auto simp: take_last_def take_Suc hd_append Suc_le_eq)
  have match: "find_phrase_match ws phrase at_the_end n = (if ws = [] then None else longest_match ?piece ws at_the_end ?m)"
  proof -
    have cong: "longest_match f ws cl k = longest_match g ws cl k" if "\<And>i. i \<le> k \<Longrightarrow> f i = g i" for f g :: "nat \<Rightarrow> 'a list" and cl k
      using that by (induction k) (auto split: option.split)
    show ?thesis
    proof (cases at_the_end)
      case True
      have "longest_match (\<lambda>k. take_last k (take_last n phrase)) ws True ?m = longest_match (\<lambda>k. take_last k phrase) ws True ?m"
        by (rule cong) (simp add: take_last_take_last)
      moreover have "length (take_last n phrase) = ?m" by (simp add: take_last_def min_def)
      moreover have "take_last n phrase \<noteq> []" using m calculation(2) by (metis less_irrefl list.size(3))
      ultimately show ?thesis using True assms(1) by (simp add: find_phrase_match_def Let_def)
    next
      case False
      have "longest_match (\<lambda>k. take k (take n phrase)) ws False ?m = longest_match (\<lambda>k. take k phrase) ws False ?m"
        by (rule cong) (simp add: min.absorb1)
      then show ?thesis using False assms(1) by (simp add: find_phrase_match_def min.commute)
    qed
  qed
  show ?thesis
  proof (cases "find_phrase_match ws phrase at_the_end n")
    case None
    have none: "\<not> occurs_at (?piece 1) ws i" for i
    proof (cases "ws = []")
      case True
      then show ?thesis using one by (simp add: occurs_at_def)
    next
      case False
      then have "find_subsequence ws (?piece 1) at_the_end = None"
        using None match m longest_match_None [of ?piece ws at_the_end ?m 1] by (simp add: Suc_le_eq)
      then show ?thesis using find_subsequence_None one by (metis not_Cons_self2)
    qed
    have "(if at_the_end then last phrase else hd phrase) \<noteq> ws ! i" if "i < length ws" for i
      using none [of i] that one by (auto simp: occurs_at_def Suc_le_eq Cons_nth_drop_Suc [symmetric] split: if_split_asm)
    then show ?thesis using None by (simp only: option.case) (metis in_set_conv_nth)
  next
    case (Some ij)
    obtain i j where ij: "ij = (i, j)" by force
    then obtain k where k: "0 < k" "k \<le> ?m" "find_subsequence ws (?piece k) at_the_end = Some (i, j)"
      "\<And>k' i'. k < k' \<Longrightarrow> k' \<le> ?m \<Longrightarrow> \<not> occurs_at (?piece k') ws i'"
      using Some match len longest_match_Some [of ?piece ws at_the_end ?m i j] by (auto split: if_split_asm)
    have j: "j + 1 = i + k" using find_subsequence_Some(3) [OF k(3)] len [OF k(2)] by simp
    then have d: "j + 1 - i = k" and ij_le: "i \<le> j" using k(1) by auto
    show ?thesis
      unfolding Some ij option.case prod.case d
    proof (intro conjI allI impI)
      show "occurs_at (?piece k) ws i" by (rule find_subsequence_Some(2) [OF k(3)])
      show "if at_the_end then i' \<le> i else i \<le> i'" if "occurs_at (?piece k) ws i'" for i'
        by (rule find_subsequence_Some(4) [OF k(3) that])
      show "\<not> occurs_at (?piece k') ws i'" if "k < k' \<and> k' \<le> min n (length phrase)" for k' i'
        using k(4) that by blast
    qed (use ij_le k(2) in simp_all)
  qed
qed

theorem phrase_match_is_the_longest_witness:
  "find_phrase_match [''by'', ''our'', ''sponsor'', ''our'', ''show''] [''our'', ''sponsor'', ''acme''] False 4 = Some (1, 2)
   \<and> \<not> occurs_at [''our'', ''sponsor'', ''acme''] [''by'', ''our'', ''sponsor'', ''our'', ''show''] 1"
proof -
  have m: "find_phrase_match [''by'', ''our'', ''sponsor'', ''our'', ''show''] [''our'', ''sponsor'', ''acme''] False 4 = Some (1, 2)"
    by code_simp
  have "case find_phrase_match [''by'', ''our'', ''sponsor'', ''our'', ''show''] [''our'', ''sponsor'', ''acme''] False 4 of
      None \<Rightarrow> True
    | Some (i, j) \<Rightarrow> \<forall>k i'. j + 1 - i < k \<and> k \<le> min 4 (length [''our'', ''sponsor'', ''acme'']) \<longrightarrow>
        \<not> occurs_at (take k [''our'', ''sponsor'', ''acme'']) [''by'', ''our'', ''sponsor'', ''our'', ''show''] i'"
    using phrase_match_is_the_longest [where phrase = "[''our'', ''sponsor'', ''acme'']" and n = 4 and at_the_end = False
        and ws = "[''by'', ''our'', ''sponsor'', ''our'', ''show'']",
        OF list.distinct(2) zero_less_numeral]
    unfolding m option.case prod.case if_False by blast
  then have "\<forall>k i'. 2 + 1 - 1 < k \<and> k \<le> min 4 (length [''our'', ''sponsor'', ''acme'']) \<longrightarrow>
        \<not> occurs_at (take k [''our'', ''sponsor'', ''acme'']) [''by'', ''our'', ''sponsor'', ''our'', ''show''] i'"
    unfolding m option.case prod.case .
  from spec [OF spec [OF this, of 3], of 1] m show ?thesis by simp
qed

section \<open>Two defects\<close>

text \<open>A reply whose two phrases are nowhere in the transcript leaves the ad as it was; the recorded call
  gets the status \<open>success_heuristic\<close> with both errors, and a second update at once overwrites it with
  \<open>success\<close> and no error.\<close>

theorem unlocated_phrases_end_as_success:
  assumes "ad_start < ad_end" and "parse_reply loads content = Some parsed" and "parsed \<noteq> []"
    and "ctx = get_word_context nc ad_start ad_end segs f l" and "p = extract_payload str_of parsed"
    and "has_text str_of (pl_start_phrase p)" and "has_text str_of (pl_end_phrase p)"
    and "estimate_phrase_time str_of segs ctx (pl_start_seq p) (pl_start_phrase p) False = None"
    and "estimate_phrase_time str_of segs ctx (pl_end_seq p) (pl_end_phrase p) True = None"
  shows "\<exists>w. word_refine str_of loads exc nc None ad_start ad_end segs f l (Inr (content, finish)) =
      (w, [(''received_response'', Some content, None),
           (''success_heuristic'', Some content, Some ''start_phrase_not_found,end_phrase_not_found''),
           (''success'', Some content, None)])
    \<and> wr_start w = ad_start \<and> wr_end w = ad_end"
proof -
  have sides: "refine_start str_of ad_start segs ctx p = (ad_start, False, pl_start_reason p, Some ''start_phrase_not_found'')"
    "refine_end str_of ad_end segs ctx p = (ad_end, False, pl_end_reason p, Some ''end_phrase_not_found'')"
    using assms(6-9) by (simp_all add: refine_start_def refine_end_def)
  have "parsed = hd parsed # tl parsed" using assms(3) by simp
  then have "word_refine str_of loads exc nc None ad_start ad_end segs f l (Inr (content, finish)) =
      (case finish_refinement exc ad_start ad_end content (sides_of (refine_start str_of ad_start segs ctx p) (refine_end str_of ad_end segs ctx p)) of
         (x, us) \<Rightarrow> (x, (''received_response'', Some content, None) # us))"
    unfolding word_refine_def using assms(2,4,5) by (auto simp only: Let_def sum.case prod.case option.case split: list.split)
  then show ?thesis
    unfolding sides using assms(1)
    by (simp add: sides_of_def finish_refinement_def settle_sides_def Let_def List.map_filter_def join_errors_def result_status_def)
qed

definition plain_segment :: "int \<Rightarrow> real \<Rightarrow> real \<Rightarrow> string \<Rightarrow> wb_segment" where
  "plain_segment n a b t = \<lparr>wb_seq = n, wb_start = a, wb_end = b, wb_text = t, wb_words = None\<rparr>"

definition both_phrases :: "string \<Rightarrow> json option" where
  "both_phrases s = Some (JObj [(''refined_start_phrase'', JStr ''zzz''), (''refined_end_phrase'', JStr ''zzz'')])"

theorem unlocated_phrases_end_as_success_witness:
  "\<exists>w. word_refine (\<lambda>_. []) both_phrases id None None 100 130 [plain_segment 1 100 130 ''buy now''] None None (Inr (''x'', None)) =
      (w, [(''received_response'', Some ''x'', None),
           (''success_heuristic'', Some ''x'', Some ''start_phrase_not_found,end_phrase_not_found''),
           (''success'', Some ''x'', None)])
    \<and> wr_start w = 100 \<and> wr_end w = 130"
proof (rule unlocated_phrases_end_as_success [OF _ _ _ refl refl])
  show "parse_reply both_phrases ''x'' = Some [(''refined_start_phrase'', JStr ''zzz''), (''refined_end_phrase'', JStr ''zzz'')]"
    by code_simp
qed (code_simp | simp)+

text \<open>A start word with no usable segment is not an error: the time of the transcript's first segment is
  taken for the word's, so the ad is made to start the full 30 seconds earlier and reported as refined.\<close>

theorem word_without_segment_moves_the_start:
  assumes "\<not> has_text str_of (pl_start_phrase p)" and "find_segment segs (pl_start_seq p) = None"
    and "has_text str_of (pl_start_word p)" and "segs = s # rest" and "wb_start s \<le> ad_start - 30"
  shows "refine_start str_of ad_start segs ctx p = (ad_start - 30, True, pl_start_reason p, None)"
  using assms by (simp add: refine_start_def estimate_segment_boundary_time_def estimate_word_time_def constrain_start_def
      MAX_START_EXTENSION_SECONDS_def)

theorem word_without_segment_moves_the_start_witness:
  "refine_start (\<lambda>_. []) 100 [plain_segment 1 0 90 ''hello'', plain_segment 2 90 130 ''buy now''] []
     (extract_payload (\<lambda>_. []) [(''refined_start_word'', JStr ''buy'')]) = (70, True, [], None)"
proof -
  let ?p = "extract_payload (\<lambda>_. []) [(''refined_start_word'', JStr ''buy'')]"
  have "pl_start_reason ?p = []" by code_simp
  moreover have "\<not> has_text (\<lambda>_. []) (pl_start_phrase ?p)" by code_simp
  moreover have "find_segment [plain_segment 1 0 90 ''hello'', plain_segment 2 90 130 ''buy now''] (pl_start_seq ?p) = None" by code_simp
  moreover have "has_text (\<lambda>_. []) (pl_start_word ?p)" by code_simp
  ultimately show ?thesis
    using word_without_segment_moves_the_start [of "\<lambda>_. []" ?p "[plain_segment 1 0 90 ''hello'', plain_segment 2 90 130 ''buy now'']"
      "plain_segment 1 0 90 ''hello''" "[plain_segment 2 90 130 ''buy now'']" 100 "[]"] by (simp add: plain_segment_def)
qed

text \<open>A reply that names a start word of no segment: the ad is extended to the limit.  One that names the last
  segment of the ad: it shrinks to that segment, which starts 90 seconds later.\<close>

definition named_word :: "string \<Rightarrow> json option" where
  "named_word s = Some (JObj [(''refined_start_word'', JStr ''buy'')])"

definition named_segment :: "string \<Rightarrow> json option" where
  "named_segment s = Some (JObj [(''refined_start_segment_seq'', JNum 3)])"

theorem word_refined_ad_is_a_proper_window_witness:
  "let segs = [plain_segment 1 0 90 ''hello'', plain_segment 2 90 190 ''buy now'', plain_segment 3 190 200 ''bye''];
       w = fst (word_refine (\<lambda>_. []) named_word id None None 100 200 segs None None (Inr (''x'', None)));
       v = fst (word_refine (\<lambda>_. []) named_segment id None None 100 200 segs None None (Inr (''x'', None)))
   in wr_start w = 70 \<and> wr_start w < wr_end w \<and> 100 < wr_end w \<and> wr_start v = 190 \<and> wr_start v < wr_end v \<and> wr_end v \<le> 200 + 15"
proof -
  let ?segs = "[plain_segment 1 0 90 ''hello'', plain_segment 2 90 190 ''buy now'', plain_segment 3 190 200 ''bye'']"
  let ?w = "word_refine (\<lambda>_. []) named_word id None None 100 200 ?segs None None (Inr (''x'', None))"
  let ?v = "word_refine (\<lambda>_. []) named_segment id None None 100 200 ?segs None None (Inr (''x'', None))"
  have "wr_start (fst ?w) = 70" by code_simp
  moreover have "wr_start (fst ?v) = 190" by code_simp
  moreover have "wr_start (fst ?w) < wr_end (fst ?w) \<and> 100 < wr_end (fst ?w)"
    using word_refined_ad_is_a_proper_window [OF _ surjective_pairing [of ?w]] by simp
  moreover have "wr_start (fst ?v) < wr_end (fst ?v) \<and> wr_end (fst ?v) \<le> 200 + 15"
    using word_refined_ad_is_a_proper_window [OF _ surjective_pairing [of ?v]] by simp
  ultimately show ?thesis by (simp add: Let_def)
qed

end
