(* ===== verification/ProcessorParts.thy ===== *)
theory ProcessorParts
  imports PostStore AdPlan Chapters
begin

text \<open>
  The parts of the episode processor without a state of their own: file paths
  (\<open>src/shared/processing_paths.py\<close>), the settings it resolves, stored censor windows and word
  timestamps, and the transcript without the removed windows (\<open>src/podcast_processor/podcast_processor.py\<close>,
  \<open>transcribe.py\<close>).  A path is its string; joining follows \<open>pathlib\<close> for the operands the code has
  (an absolute right operand replaces the left one); \<open>resolve\<close> is an argument.
\<close>

section \<open>Paths\<close>

definition path_join :: "string \<Rightarrow> string \<Rightarrow> string" where
  "path_join a b = (if b = [] then a else if hd b = CHR ''/'' then b else a @ ''/'' @ b)"

text \<open>\<open>Path(p).name\<close>: the last component; empty and \<open>.\<close> components do not count.\<close>

definition path_name :: "string \<Rightarrow> string" where
  "path_name p =
     (case rev (filter (\<lambda>c. c \<noteq> [] \<and> c \<noteq> ''.'') (split_on CHR ''/'' p)) of [] \<Rightarrow> [] | c # _ \<Rightarrow> c)"

definition title_char :: "char \<Rightarrow> bool" where
  "title_char c \<longleftrightarrow> digit_char c \<or> upper_char c \<or> lower_letter c \<or> py_space c"

definition sanitize_post_title :: "string \<Rightarrow> string" where
  "sanitize_post_title t = filter title_char t"

definition sanitize_feed_title_legacy :: "string \<Rightarrow> string" where
  "sanitize_feed_title_legacy t = filter title_char t"

definition sanitize_feed_title_modern :: "string \<Rightarrow> string" where
  "sanitize_feed_title_modern t =
     (let kept = py_strip (filter (\<lambda>c. title_char c \<or> c = CHR ''_'' \<or> c = CHR ''.'' \<or> c = CHR ''-'') t);
          undotted = rev (dropWhile (\<lambda>c. c = CHR ''.'') (rev kept)) in
      re_sub (Plus (Cls py_space)) ''_'' undotted)"

definition paths_from_unprocessed_path :: "string \<Rightarrow> string \<Rightarrow> string \<Rightarrow> string" where
  "paths_from_unprocessed_path srv unprocessed feed_title =
     path_join (path_join srv (sanitize_feed_title_modern feed_title)) (path_name unprocessed)"

definition given :: "string option \<Rightarrow> bool" where
  "given s \<longleftrightarrow> s \<noteq> None \<and> s \<noteq> Some []"

fun dedupe_paths :: "string list \<Rightarrow> string list \<Rightarrow> string list" where
  "dedupe_paths [] deduped = deduped"
| "dedupe_paths (p # ps) deduped = dedupe_paths ps (if p \<in> set deduped then deduped else deduped @ [p])"

definition processed_audio_path_candidates ::
  "(string \<Rightarrow> string) \<Rightarrow> string \<Rightarrow> string option \<Rightarrow> string option \<Rightarrow> string option \<Rightarrow> string option \<Rightarrow> string list" where
  "processed_audio_path_candidates resolve srv processed unprocessed feed_title post_title =
     (let recorded = (if given processed then [the processed] else []);
          derived = (if given unprocessed \<and> given feed_title
            then [paths_from_unprocessed_path srv (the unprocessed) (the feed_title)] else []);
          titled = (if given feed_title \<and> given post_title then
              (let t = sanitize_post_title (the post_title) in
               if t = [] then []
               else [path_join (path_join srv (sanitize_feed_title_legacy (the feed_title))) (t @ ''.mp3''),
                     path_join (path_join srv (sanitize_feed_title_modern (the feed_title))) (t @ ''.mp3'')])
            else []) in
      dedupe_paths (map resolve (recorded @ derived @ titled)) [])"

text \<open>The files of the list are the non-empty ones.\<close>

definition find_existing_processed_audio_path ::
  "(string \<Rightarrow> string) \<Rightarrow> string \<Rightarrow> string list \<Rightarrow> string option \<Rightarrow> string option \<Rightarrow> string option \<Rightarrow> string option \<Rightarrow> string option" where
  "find_existing_processed_audio_path resolve srv files processed unprocessed feed_title post_title =
     find (\<lambda>p. p \<in> set files) (processed_audio_path_candidates resolve srv processed unprocessed feed_title post_title)"

definition get_job_unprocessed_path :: "string \<Rightarrow> string \<Rightarrow> string \<Rightarrow> string \<Rightarrow> string" where
  "get_job_unprocessed_path in_root guid_dir job_dir post_title =
     path_join (path_join (path_join (path_join in_root ''jobs'') guid_dir) job_dir)
       (py_strip (filter title_char post_title) @ ''.mp3'')"

definition get_post_processed_audio_path :: "string \<Rightarrow> string option \<Rightarrow> string option \<Rightarrow> string option" where
  "get_post_processed_audio_path srv unprocessed feed_title =
     (if \<not> given unprocessed then None else if \<not> given feed_title then None
      else Some (paths_from_unprocessed_path srv (the unprocessed) (the feed_title)))"

section \<open>Settings\<close>

definition step_label :: "int option \<Rightarrow> string option" where
  "step_label step =
     (case step of None \<Rightarrow> None
      | Some s \<Rightarrow> map_of [(0, ''Queued''), (1, ''Downloading episode''), (2, ''Transcribing audio''), (3, ''Identifying ads''),
          (4, ''Processing audio'')] s)"

definition ina_enabled :: "string option \<Rightarrow> bool" where
  "ina_enabled raw = (py_lower (py_strip (case raw of None \<Rightarrow> [] | Some v \<Rightarrow> v)) \<in> {''1'', ''true'', ''yes'', ''on''})"

definition ina_base_url :: "string option \<Rightarrow> string option" where
  "ina_base_url raw = (case raw of None \<Rightarrow> None | Some v \<Rightarrow> let u = py_strip v in if u = [] then None else Some u)"

definition ina_timeout_sec :: "string option \<Rightarrow> int" where
  "ina_timeout_sec raw = (case raw of None \<Rightarrow> 3600
     | Some v \<Rightarrow> (case int_of_str v of None \<Rightarrow> 3600 | Some n \<Rightarrow> max 1 n))"

definition resolve_llm_chapter_fallback_tagging_enabled :: "bool option \<Rightarrow> bool \<Rightarrow> string \<Rightarrow> bool" where
  "resolve_llm_chapter_fallback_tagging_enabled feed_override configured strategy =
     (if strategy = ''chapter_insert'' then True
      else (case feed_override of Some b \<Rightarrow> b | None \<Rightarrow> configured))"

definition resolve_chapter_full_block_text :: "bool option \<Rightarrow> bool \<Rightarrow> bool" where
  "resolve_chapter_full_block_text feed_override configured = (case feed_override of Some b \<Rightarrow> b | None \<Rightarrow> configured)"

section \<open>Censor windows\<close>

definition serialize_bleep_windows :: "millis window list \<Rightarrow> json" where
  "serialize_bleep_windows ws =
     JList (map (\<lambda>w. JObj [(''start_time'', JNum (py_round3 (real_of_int (fst w) / 1000))),
         (''end_time'', JNum (py_round3 (real_of_int (snd w) / 1000)))])
       (filter (\<lambda>w. fst w < snd w) ws))"

definition load_bleep_window :: "json \<Rightarrow> millis window option" where
  "load_bleep_window item =
     (case item of
        JObj kvs \<Rightarrow>
          (let s = obj_get kvs ''start_time''; e = obj_get kvs ''end_time'' in
           if s = JNull \<or> e = JNull then None
           else (case (py_float s, py_float e) of
               (Some a, Some b) \<Rightarrow>
                 (let start_ms = max 0 (py_round (a * 1000)); end_ms = max start_ms (py_round (b * 1000)) in
                  if start_ms < end_ms then Some (start_ms, end_ms) else None)
             | _ \<Rightarrow> None))
      | _ \<Rightarrow> None)"

definition load_saved_bleep_windows :: "json option \<Rightarrow> bool \<times> millis window list" where
  "load_saved_bleep_windows raw =
     (case raw of
        None \<Rightarrow> (False, [])
      | Some (JList items) \<Rightarrow> (True, List.map_filter load_bleep_window items)
      | Some _ \<Rightarrow> (True, []))"

section \<open>Word timestamps\<close>

record saved_word =
  sv_word :: string
  sv_start :: "real option"
  sv_end :: "real option"
  sv_score :: "real option"

definition has_saved_transcript_word_timestamps :: "json option \<Rightarrow> bool" where
  "has_saved_transcript_word_timestamps raw =
     (case raw of
        Some (JList items) \<Rightarrow> list_ex (\<lambda>i. case i of
            JObj kvs \<Rightarrow> (case obj_get kvs ''words'' of JList ws \<Rightarrow> ws \<noteq> [] | _ \<Rightarrow> False) | _ \<Rightarrow> False) items
      | _ \<Rightarrow> False)"

definition word_payload :: "saved_word \<Rightarrow> json option" where
  "word_payload w =
     (case (sv_start w, sv_end w) of
        (Some s, Some e) \<Rightarrow> Some (JObj [(''word'', JStr (sv_word w)), (''start'', JNum s), (''end'', JNum e),
          (''score'', (case sv_score w of None \<Rightarrow> JNull | Some x \<Rightarrow> JNum x))])
      | _ \<Rightarrow> None)"

fun serialize_words_from :: "nat \<Rightarrow> saved_word list list \<Rightarrow> json list" where
  "serialize_words_from n [] = []"
| "serialize_words_from n (ws # rest) =
     (let payload = List.map_filter word_payload ws in
      (if payload = [] then [] else [JObj [(''sequence_num'', JNum (real n)), (''words'', JList payload)]])
      @ serialize_words_from (Suc n) rest)"

definition serialize_segment_word_timestamps :: "saved_word list list \<Rightarrow> json option" where
  "serialize_segment_word_timestamps segs =
     (let p = serialize_words_from 0 segs in if p = [] then None else Some (JList p))"

text \<open>\<open>_finite_or_none\<close>: the outer None is an exception, on which the caller drops the word.\<close>

definition finite_or_none :: "json \<Rightarrow> real option option" where
  "finite_or_none v = (if v = JNull then Some None else map_option Some (py_float v))"

definition parse_word :: "(json \<Rightarrow> string) \<Rightarrow> json \<Rightarrow> saved_word option" where
  "parse_word str_of w =
     (case w of
        JObj kvs \<Rightarrow>
          if obj_get kvs ''word'' = JNull then None
          else (case (finite_or_none (obj_get kvs ''start''), finite_or_none (obj_get kvs ''end''), finite_or_none (obj_get kvs ''score'')) of
              (Some s, Some e, Some x) \<Rightarrow>
                Some \<lparr>sv_word = as_text str_of (obj_get kvs ''word''), sv_start = s, sv_end = e, sv_score = x\<rparr>
            | _ \<Rightarrow> None)
      | _ \<Rightarrow> None)"

type_synonym word_map = "(int \<times> saved_word list) list"

definition load_segment_words :: "(json \<Rightarrow> string) \<Rightarrow> json \<Rightarrow> word_map \<Rightarrow> word_map" where
  "load_segment_words str_of item m =
     (case item of
        JObj kvs \<Rightarrow>
          (case (obj_get kvs ''sequence_num'', obj_get kvs ''words'') of
             (num, JList ws) \<Rightarrow>
               (case (if num = JNull then None else json_int num) of
                  None \<Rightarrow> m
                | Some n \<Rightarrow>
                    (let parsed = List.map_filter (parse_word str_of) ws in
                     if parsed = [] then m else AList.update n parsed m))
           | _ \<Rightarrow> m)
      | _ \<Rightarrow> m)"

definition load_word_timestamps_by_sequence :: "(json \<Rightarrow> string) \<Rightarrow> json option \<Rightarrow> word_map" where
  "load_word_timestamps_by_sequence str_of raw =
     (case raw of Some (JList items) \<Rightarrow> fold (load_segment_words str_of) items [] | _ \<Rightarrow> [])"

definition load_words_by_sequence :: "(json \<Rightarrow> string) \<Rightarrow> json option \<Rightarrow> saved_word list list \<Rightarrow> word_map" where
  "load_words_by_sequence str_of saved rich =
     (case (if rich = [] then None else serialize_segment_word_timestamps rich) of
        Some p \<Rightarrow> load_word_timestamps_by_sequence str_of (Some p)
      | None \<Rightarrow> load_word_timestamps_by_sequence str_of saved)"

section \<open>The transcript without the removed windows\<close>

fun segment_overlaps_removed_audio :: "millis \<Rightarrow> millis \<Rightarrow> millis window list \<Rightarrow> bool" where
  "segment_overlaps_removed_audio s e [] = False"
| "segment_overlaps_removed_audio s e (w # ws) =
     (if snd w \<le> s then segment_overlaps_removed_audio s e ws
      else if e \<le> fst w then False
      else True)"

definition segment_span_ms :: "segment_row \<Rightarrow> millis window" where
  "segment_span_ms seg = (let s = py_int (sg_start seg * 1000) in (s, max s (py_int (sg_end seg * 1000))))"

definition filter_transcript_segments_for_chapters :: "segment_row list \<Rightarrow> millis window list \<Rightarrow> segment_row list" where
  "filter_transcript_segments_for_chapters segs removed =
     (if segs = [] \<or> removed = [] then segs
      else filter (\<lambda>seg. \<not> segment_overlaps_removed_audio (fst (segment_span_ms seg)) (snd (segment_span_ms seg)) (sort_key fst removed)) segs)"

definition py_round1 :: "real \<Rightarrow> real" where
  "py_round1 x = of_int (py_round (x * 10)) / 10"

definition chapter_times :: "episode_chapter \<Rightarrow> json" where
  "chapter_times c = JObj [(''title'', JStr (chapter_title c)), (''start_time'', JNum (py_round1 (real_of_int (start_time_ms c) / 1000))),
     (''end_time'', JNum (py_round1 (real_of_int (end_time_ms c) / 1000)))]"

text \<open>The probe of the file's length may fail.\<close>

definition serialize_chapters_for_output :: "millis option \<Rightarrow> episode_chapter list \<Rightarrow> json" where
  "serialize_chapters_for_output duration cs =
     JList (map chapter_times (fill_chapter_gaps cs (case duration of None \<Rightarrow> 0 | Some d \<Rightarrow> d)))"

section \<open>Round trips\<close>

lemma py_round3_millis: "py_round3 (real_of_int n / 1000) * 1000 = real_of_int n"
  by (simp add: py_round3_def)

lemma obj_get_Cons: "obj_get ((k, v) # kvs) k' = (if map_of (rev kvs) k' = None \<and> k = k' then v else obj_get kvs k')"
  by (auto simp: obj_get_def map_of_append split: option.splits)

lemma load_serialized_window:
  "0 \<le> fst w \<Longrightarrow> fst w < snd w \<Longrightarrow>
   load_bleep_window (JObj [(''start_time'', JNum (py_round3 (real_of_int (fst w) / 1000))),
     (''end_time'', JNum (py_round3 (real_of_int (snd w) / 1000)))]) = Some w"
  by (auto simp: load_bleep_window_def obj_get_def py_round3_millis Let_def)

text \<open>Censor windows survive storage: what is read back for a later run is the list of windows that was
  applied, to the millisecond.\<close>

theorem stored_censor_windows_are_read_back:
  assumes "\<forall>w \<in> set ws. 0 \<le> fst w \<and> fst w < snd w"
  shows "load_saved_bleep_windows (Some (serialize_bleep_windows ws)) = (True, ws)"
proof -
  let ?f = "\<lambda>w. JObj [(''start_time'', JNum (py_round3 (real_of_int (fst w) / 1000))),
         (''end_time'', JNum (py_round3 (real_of_int (snd w) / 1000)))]"
  have "List.map_filter load_bleep_window (map ?f (filter (\<lambda>w. fst w < snd w) ws)) = ws"
    using assms
  proof (induction ws)
    case (Cons w ws)
    then show ?case using load_serialized_window [of w] by (simp add: List.map_filter_simps)
  qed (simp add: List.map_filter_simps)
  then show ?thesis by (simp add: load_saved_bleep_windows_def serialize_bleep_windows_def)
qed

theorem stored_censor_windows_are_read_back_witness:
  "load_saved_bleep_windows (Some (serialize_bleep_windows [(0, 250), (61, 4000)])) = (True, [(0, 250), (61, 4000)])"
  by (rule stored_censor_windows_are_read_back) simp

section \<open>Segments for the chapters\<close>

lemma overlap_scan:
  "sorted (map fst ws) \<Longrightarrow> segment_overlaps_removed_audio s e ws \<longleftrightarrow> (\<exists>w \<in> set ws. s < snd w \<and> fst w < e)"
proof (induction ws)
  case (Cons w ws)
  have "\<not> fst v < e" if "e \<le> fst w" "v \<in> set ws" for v
    using that Cons.prems by force
  then show ?case using Cons by auto
qed simp

text \<open>The transcript handed to the chapter generator is exactly the part that survives the cut: a segment is
  left out if and only if a removed window, in whatever order they come, meets it.\<close>

theorem chapter_transcript_is_what_remains:
  "filter_transcript_segments_for_chapters segs removed =
     filter (\<lambda>seg. \<not> (\<exists>w \<in> set removed. fst (segment_span_ms seg) < snd w \<and> fst w < snd (segment_span_ms seg))) segs"
  by (auto simp: filter_transcript_segments_for_chapters_def overlap_scan)

section \<open>Titles as file names\<close>

lemma set_sub_pieces: "set (sub_pieces repl s i ms) \<subseteq> set repl \<union> set s"
proof (induction repl s i ms rule: sub_pieces.induct)
  case (1 repl s i)
  then show ?case by (auto dest: in_set_dropD)
next
  case (2 repl s i a b c ms)
  then show ?case by (auto simp: slice_def dest: in_set_dropD in_set_takeD)
qed

lemma set_re_sub: "set (re_sub r repl s) \<subseteq> set repl \<union> set s"
  by (simp add: re_sub_def set_sub_pieces)

lemma last_sub_pieces:
  assumes "repl \<noteq> []" and "last repl \<noteq> x" and "s = [] \<or> last s \<noteq> x"
  shows "sub_pieces repl s i ms = [] \<or> last (sub_pieces repl s i ms) \<noteq> x"
  using assms
proof (induction repl s i ms rule: sub_pieces.induct)
  case (1 repl s i)
  then show ?case by (cases "i < length s") auto
next
  case (2 repl s i a b c ms)
  then show ?case by (cases "sub_pieces repl s b ms = []") auto
qed

lemma last_undotted: "rev (dropWhile P (rev s)) = [] \<or> \<not> P (last (rev (dropWhile P (rev s))))"
  using hd_dropWhile [of P "rev s"] by (auto simp: last_rev)

text \<open>A feed's title names one directory below the library: the name made from it has no slash and is
  neither \<open>.\<close> nor \<open>..\<close>, whatever the title is.\<close>

theorem feed_titles_name_one_directory:
  "CHR ''/'' \<notin> set (sanitize_feed_title_modern t) \<and> sanitize_feed_title_modern t \<noteq> ''.'' \<and> sanitize_feed_title_modern t \<noteq> ''..''
   \<and> CHR ''/'' \<notin> set (sanitize_feed_title_legacy t) \<and> CHR ''.'' \<notin> set (sanitize_feed_title_legacy t)"
proof -
  have slash: "\<not> title_char CHR ''/''" and dot: "\<not> title_char CHR ''.''" by code_simp+
  let ?kept = "py_strip (filter (\<lambda>c. title_char c \<or> c = CHR ''_'' \<or> c = CHR ''.'' \<or> c = CHR ''-'') t)"
  let ?u = "rev (dropWhile (\<lambda>c. c = CHR ''.'') (rev ?kept))"
  have m: "sanitize_feed_title_modern t = re_sub (Plus (Cls py_space)) ''_'' ?u"
    by (simp only: sanitize_feed_title_modern_def Let_def)
  have "set ?u \<subseteq> set (filter (\<lambda>c. title_char c \<or> c = CHR ''_'' \<or> c = CHR ''.'' \<or> c = CHR ''-'') t)"
    by (auto simp: py_strip_def py_lstrip_def py_rstrip_def dest!: set_dropWhileD)
  then have "CHR ''/'' \<notin> set ?u" using slash by auto
  then have "CHR ''/'' \<notin> set (sanitize_feed_title_modern t)"
    using set_re_sub [of "Plus (Cls py_space)" "''_''" ?u] by (auto simp: m)
  moreover have "sanitize_feed_title_modern t = [] \<or> last (sanitize_feed_title_modern t) \<noteq> CHR ''.''"
    unfolding m re_sub_def by (rule last_sub_pieces) (use last_undotted [of "\<lambda>c. c = CHR ''.''" ?kept] in simp_all)
  then have "sanitize_feed_title_modern t \<noteq> ''.''" "sanitize_feed_title_modern t \<noteq> ''..''" by auto
  moreover have "CHR ''/'' \<notin> set (sanitize_feed_title_legacy t)" "CHR ''.'' \<notin> set (sanitize_feed_title_legacy t)"
    using slash dot by (auto simp: sanitize_feed_title_legacy_def)
  ultimately show ?thesis by blast
qed

text \<open>The guid of an episode, which its feed chooses, is a directory of the download's path without being
  sanitised: with a guid that begins with a slash the path is the guid's, and the data directory does
  not occur in it.\<close>

theorem absolute_guid_leaves_the_data_directory:
  assumes "g = CHR ''/'' # g'" and "j \<noteq> []" and "hd j \<noteq> CHR ''/''"
  shows "get_job_unprocessed_path in_root g j t = g @ ''/'' @ j @ ''/'' @ py_strip (filter title_char t) @ ''.mp3''"
proof -
  have "hd (py_strip (filter title_char t) @ ''.mp3'') \<noteq> CHR ''/''"
  proof (cases "py_strip (filter title_char t)")
    case (Cons c cs)
    have "set (py_strip (filter title_char t)) \<subseteq> set (filter title_char t)"
      by (auto simp: py_strip_def py_lstrip_def py_rstrip_def dest!: set_dropWhileD)
    then have "title_char c" using Cons by auto
    moreover have "\<not> title_char CHR ''/''" by code_simp
    ultimately show ?thesis using Cons by auto
  qed simp
  then show ?thesis using assms by (simp add: get_job_unprocessed_path_def path_join_def)
qed

theorem absolute_guid_leaves_the_data_directory_witness:
  "get_job_unprocessed_path ''/app/data/in'' ''/etc'' ''j1'' ''News'' = ''/etc/j1/News.mp3''"
proof -
  have "py_strip (filter title_char ''News'') = ''News''" by code_simp
  then show ?thesis using absolute_guid_leaves_the_data_directory [of "''/etc''" "''etc''" "''j1''" "''/app/data/in''" "''News''"] by simp
qed

end
