(* ===== verification/Processor.thy ===== *)
theory Processor
  imports ProcessorParts Profanity JobLifecycle
begin

text \<open>
  The run of one job: \<open>PodcastProcessor.process\<close> of \<open>src/podcast_processor/podcast_processor.py\<close>, with its
  three strategies, the lock of an episode, the guard against classifications that found nothing, and
  the end of a run.  A step is a function on the world that returns a value or an exception
  (\<open>proc\<close>); what the processor calls in other components (download, transcription, classification,
  the cut, chapter generation, tags) is a step given in \<open>proc_env\<close>, which may change the world in any
  way, in particular cancel or delete the job as a request of the web process does.
  The files of the world are the non-empty ones; the speech analysis runs in a thread of its own in
  the code and here either before the strategy or when it is awaited.  Logging is left out.
\<close>

section \<open>Steps\<close>

datatype proc_exn = ProcessorException string | OtherException string

datatype notice = NotifyFailed "string option" string | NotifySucceeded "int option"

record proc_world =
  pw_db :: media_db
  pw_locked :: "string list"
  pw_suppress :: "string option"
  pw_notes :: "notice list"
  pw_now :: instant

type_synonym 'a proc = "proc_world \<Rightarrow> (proc_exn + 'a) \<times> proc_world"

definition ret :: "'a \<Rightarrow> 'a proc" where
  "ret x w = (Inr x, w)"

definition throw :: "proc_exn \<Rightarrow> 'a proc" where
  "throw e w = (Inl e, w)"

definition bnd :: "'a proc \<Rightarrow> ('a \<Rightarrow> 'b proc) \<Rightarrow> 'b proc" where
  "bnd m f w = (case m w of (Inl e, w') \<Rightarrow> (Inl e, w') | (Inr x, w') \<Rightarrow> f x w')"

definition andthen :: "'a proc \<Rightarrow> 'b proc \<Rightarrow> 'b proc" where
  "andthen m k = bnd m (\<lambda>_. k)"

text \<open>\<open>try: m finally: c\<close>, and \<open>try: m except Exception: pass\<close>.\<close>

definition ensure :: "'a proc \<Rightarrow> (proc_world \<Rightarrow> proc_world) \<Rightarrow> 'a proc" where
  "ensure m c w = (case m w of (r, w') \<Rightarrow> (r, c w'))"

definition attempt :: "'a proc \<Rightarrow> unit proc" where
  "attempt m w = (Inr (), snd (m w))"

definition on_pw :: "(media_db \<Rightarrow> media_db) \<Rightarrow> proc_world \<Rightarrow> proc_world" where
  "on_pw f w = w\<lparr>pw_db := f (pw_db w)\<rparr>"

section \<open>The job's row\<close>

text \<open>The tables of the job actions, as a part of the store.\<close>

definition jobs_view :: "media_db \<Rightarrow> job_db" where
  "jobs_view db = \<lparr>jobs = m_jobs db, run = m_run db,
     llm_calls = map (\<lambda>c. \<lparr>call_post_id = mc_post c, call_status = call_row.mc_status c, call_error = mc_error c\<rparr>) (m_calls db),
     posts = map (\<lambda>p. \<lparr>post_id = pm_id p, guid = pm_guid p, whitelisted = pm_whitelisted p, download_url = None,
       processed_path = pm_processed p\<rparr>) (m_posts db)\<rparr>"

definition put_jobs :: "job_db \<Rightarrow> media_db \<Rightarrow> media_db" where
  "put_jobs v db = db\<lparr>m_jobs := jobs v, m_run := run v,
     m_calls := map2 (\<lambda>c r. c\<lparr>call_row.mc_status := call_status r, mc_error := call_error r\<rparr>) (m_calls db) (llm_calls v)\<rparr>"

definition on_jobs :: "(job_db \<Rightarrow> job_db) \<Rightarrow> media_db \<Rightarrow> media_db" where
  "on_jobs f db = put_jobs (f (jobs_view db)) db"

definition job_row :: "string \<Rightarrow> media_db \<Rightarrow> job option" where
  "job_row jid db = find (\<lambda>j. job_id j = jid) (m_jobs db)"

definition get_job_row :: "string \<Rightarrow> job proc" where
  "get_job_row jid w = (case job_row jid (pw_db w) of None \<Rightarrow> (Inl (OtherException ''ObjectDeletedError''), w) | Some j \<Rightarrow> (Inr j, w))"

text \<open>\<open>update_job_status\<close>: the attributes of a row that is gone, and a progress that cannot be computed, raise.\<close>

definition update_status :: "string \<Rightarrow> string \<Rightarrow> int option \<Rightarrow> string \<Rightarrow> real option \<Rightarrow> int option \<Rightarrow> unit proc" where
  "update_status jid st step nm prog tot w =
     (case job_row jid (pw_db w) of
        None \<Rightarrow> (Inl (OtherException ''ObjectDeletedError''), w)
      | Some j \<Rightarrow>
          (case step of
             None \<Rightarrow> (Inl (OtherException ''TypeError''), w)
           | Some s \<Rightarrow>
               (case sm_update_job_status j st s nm prog tot (pw_now w) (jobs_view (pw_db w)) of
                  Inl _ \<Rightarrow> (Inl (OtherException ''TypeError''), w)
                | Inr v \<Rightarrow> (Inr (), on_pw (put_jobs v) w))))"

definition complete_status :: "string \<Rightarrow> string \<Rightarrow> unit proc" where
  "complete_status jid nm =
     bnd (get_job_row jid) (\<lambda>j. update_status jid ''completed'' (Some (or_default (total_steps j) 4)) nm (Some 100) None)"

text \<open>The callback of the worker: the job was cancelled, or its row is gone.\<close>

definition is_cancelled :: "string \<Rightarrow> media_db \<Rightarrow> bool" where
  "is_cancelled jid db \<longleftrightarrow> (case job_row jid db of None \<Rightarrow> True | Some j \<Rightarrow> status j = ''cancelled'')"

definition raise_if_cancelled :: "string \<Rightarrow> int \<Rightarrow> unit proc" where
  "raise_if_cancelled jid step w =
     (if is_cancelled jid (pw_db w)
      then andthen (update_status jid ''cancelled'' (Some step) ''Cancellation requested'' None None) (throw (ProcessorException ''Cancelled'')) w
      else (Inr (), w))"

section \<open>The post's row\<close>

definition get_post_row :: "int \<Rightarrow> post_media proc" where
  "get_post_row pid w = (case find_post (pw_db w) pid of None \<Rightarrow> (Inl (OtherException ''ObjectDeletedError''), w) | Some p \<Rightarrow> (Inr p, w))"

definition update_post :: "int \<Rightarrow> (post_media \<Rightarrow> post_media) \<Rightarrow> unit proc" where
  "update_post pid f w =
     (case find_post (pw_db w) pid of
        None \<Rightarrow> (Inl (OtherException ''Failed to update post''), w)
      | Some _ \<Rightarrow> (Inr (), on_pw (modify_post pid f) w))"

definition copy_file :: "string \<Rightarrow> string \<Rightarrow> unit proc" where
  "copy_file src dst w =
     (if src \<notin> set (m_files (pw_db w)) then (Inl (OtherException ''FileNotFoundError''), w)
      else (Inr (), on_pw (\<lambda>db. db\<lparr>m_files := dst # removeAll dst (m_files db)\<rparr>) w))"

definition remove_file :: "(string \<Rightarrow> bool) \<Rightarrow> string \<Rightarrow> proc_world \<Rightarrow> proc_world" where
  "remove_file removable f w =
     on_pw (\<lambda>db. if removable f then db\<lparr>m_files := removeAll f (m_files db)\<rparr> else db) w"

section \<open>Configuration and components\<close>

record episode =
  ep_id :: int
  ep_guid :: string
  ep_title :: string
  ep_feed_title :: string
  ep_description :: "string option"
  ep_download_url :: "string option"
  ep_strategy :: string
  ep_filters :: "string option"
  ep_tag_chapters :: "bool option"
  ep_full_block :: "bool option"
  ep_bleep :: bool

record proc_config =
  pc_model :: string
  pc_boundary :: bool
  pc_word_boundary :: bool
  pc_record_words :: bool
  pc_tag_chapters :: bool
  pc_full_block :: bool
  pc_auto_retry :: bool
  pc_developer :: bool
  pc_remote_whisper :: bool
  pc_pad_start :: millis
  pc_pad_end :: millis
  pc_terms :: "string set"
  pc_filter_default :: string
  pc_srv :: string
  pc_in :: string
  pc_ina_enabled :: "string option"
  pc_ina_url :: "string option"

type_synonym rich_segments = "saved_word list list"

record proc_env =
  pe_resolve :: "string \<Rightarrow> string"
  pe_removable :: "string \<Rightarrow> bool"
  pe_sample :: "string option"
  pe_cancel :: "(proc_world \<Rightarrow> proc_world) \<Rightarrow> unit proc"
  pe_mkdir :: "string \<Rightarrow> unit proc"
  pe_download :: "string \<Rightarrow> string option proc"
  pe_transcribe :: "bool \<Rightarrow> bool \<Rightarrow> (int \<Rightarrow> int \<Rightarrow> unit proc) \<Rightarrow> (segment_row list \<times> rich_segments option) proc"
  pe_classify :: "segment_row list \<Rightarrow> unit proc"
  pe_parse_error :: "proc_world \<Rightarrow> bool"
  pe_audio :: "string option \<Rightarrow> string \<Rightarrow> audio_process_result proc"
  pe_overlay :: "millis window list \<Rightarrow> string \<Rightarrow> string \<Rightarrow> unit proc"
  pe_clip :: "millis window list \<Rightarrow> string \<Rightarrow> string \<Rightarrow> unit proc"
  pe_temp :: "proc_world \<Rightarrow> string"
  pe_duration :: "string \<Rightarrow> proc_world \<Rightarrow> millis option"
  pe_read_chapters :: "string \<Rightarrow> proc_world \<Rightarrow> episode_chapter list"
  pe_native_detect :: "string \<Rightarrow> proc_world \<Rightarrow> detection option"
  pe_resolve_chapters :: "string option \<Rightarrow> segment_row list \<Rightarrow> (episode_chapter list \<times> string) proc"
  pe_topic_plan :: "segment_row list \<Rightarrow> millis window list option \<Rightarrow> word_map option \<Rightarrow> bool \<Rightarrow> bool \<Rightarrow> episode_chapter list proc"
  pe_align_titles :: "episode_chapter list \<Rightarrow> segment_row list \<Rightarrow> episode_chapter list proc"
  pe_generate :: "segment_row list \<Rightarrow> episode_chapter list proc"
  pe_refine_titles :: "episode_chapter list \<Rightarrow> segment_row list \<Rightarrow> episode_chapter list proc"
  pe_align_description :: "episode_chapter list \<Rightarrow> segment_row list \<Rightarrow> word_map option \<Rightarrow> episode_chapter list proc"
  pe_write_tags :: "string \<Rightarrow> episode_chapter list \<Rightarrow> seconds window list \<Rightarrow> unit proc"
  pe_native_profanity :: "rich_segments \<Rightarrow> millis window list option"
  pe_analyze :: "proc_world \<Rightarrow> proc_exn + json list \<times> string"
  pe_ina_first :: "proc_world \<Rightarrow> bool"
  pe_dumps :: "json \<Rightarrow> string"
  pe_str :: "json \<Rightarrow> string"
  pe_new_job :: "proc_world \<Rightarrow> string"

definition word_refiner_enabled :: "proc_config \<Rightarrow> bool" where
  "word_refiner_enabled cfg \<longleftrightarrow> pc_boundary cfg \<and> pc_word_boundary cfg"

section \<open>Finding what was processed before\<close>

definition check_existing_processed_audio :: "proc_config \<Rightarrow> proc_env \<Rightarrow> episode \<Rightarrow> bool proc" where
  "check_existing_processed_audio cfg env ep =
     bnd (get_post_row (ep_id ep)) (\<lambda>p w.
       case find_existing_processed_audio_path (pe_resolve env) (pc_srv cfg) (m_files (pw_db w))
              (pm_processed p) (pm_unprocessed p) (Some (ep_feed_title ep)) (Some (ep_title ep)) of
         Some f \<Rightarrow>
           (if pm_processed p \<noteq> Some f
            then andthen (update_post (ep_id ep) (\<lambda>q. q\<lparr>pm_processed := Some f\<rparr>)) (ret True) w
            else (Inr True, w))
       | None \<Rightarrow>
           (if pm_processed p \<noteq> None
            then andthen (update_post (ep_id ep) (\<lambda>q. q\<lparr>pm_processed := None\<rparr>)) (ret False) w
            else (Inr False, w)))"

definition simulate_developer_processing :: "proc_config \<Rightarrow> proc_env \<Rightarrow> episode \<Rightarrow> string \<Rightarrow> string option proc" where
  "simulate_developer_processing cfg env ep jid =
     (let url = py_lower (case ep_download_url ep of None \<Rightarrow> [] | Some u \<Rightarrow> u);
          is_test = (str_in ''test-feed'' url \<or> starts_with ''test-guid'' (ep_guid ep)) in
      if \<not> (pc_developer cfg \<or> is_test) then ret None
      else (case pe_sample env of
          None \<Rightarrow>
            bnd (get_job_row jid) (\<lambda>j.
              andthen (update_status jid ''failed'' (Some (or_default (current_step j) 0)) ''Developer sample audio missing'' None None)
                (throw (ProcessorException ''Developer sample audio missing'')))
        | Some sample \<Rightarrow>
            (let unprocessed = get_job_unprocessed_path (pc_in cfg) (ep_guid ep) jid (ep_title ep);
                 processed = path_join (path_join (pc_srv cfg) (filter title_char (ep_feed_title ep)))
                   (filter title_char (ep_title ep) @ ''.mp3'') in
             andthen (update_status jid ''running'' (Some 1) ''Simulating processing (developer mode)'' (Some 25) None)
            (andthen (copy_file sample unprocessed)
            (andthen (copy_file sample processed)
            (andthen (update_post (ep_id ep) (\<lambda>q. q\<lparr>pm_unprocessed := Some unprocessed, pm_processed := Some processed\<rparr>))
            (andthen (complete_status jid ''Processing complete (developer mode)'')
              (ret (Some processed)))))))))"

section \<open>The source file\<close>

definition download_fresh :: "proc_config \<Rightarrow> proc_env \<Rightarrow> episode \<Rightarrow> string \<Rightarrow> unit proc" where
  "download_fresh cfg env ep jid w =
     (let expected = get_job_unprocessed_path (pc_in cfg) (ep_guid ep) jid (ep_title ep) in
      if expected \<in> set (m_files (pw_db w)) then
        update_post (ep_id ep) (\<lambda>q. q\<lparr>pm_unprocessed := Some (pe_resolve env expected)\<rparr>) w
      else andthen (update_status jid ''running'' (Some 1) ''Downloading episode'' (Some 25) None)
        (bnd (pe_download env expected) (\<lambda>r. case r of
            None \<Rightarrow> throw (ProcessorException ''Download failed'')
          | Some f \<Rightarrow> update_post (ep_id ep) (\<lambda>q. q\<lparr>pm_unprocessed := Some f\<rparr>))) w)"

definition handle_download_step :: "proc_config \<Rightarrow> proc_env \<Rightarrow> episode \<Rightarrow> string \<Rightarrow> unit proc" where
  "handle_download_step cfg env ep jid =
     bnd (get_post_row (ep_id ep)) (\<lambda>p w.
       case pm_unprocessed p of
         None \<Rightarrow> download_fresh cfg env ep jid w
       | Some f \<Rightarrow>
           (if f \<in> set (m_files (pw_db w)) then (Inr (), w)
            else andthen (update_post (ep_id ep) (\<lambda>q. q\<lparr>pm_unprocessed := None\<rparr>)) (download_fresh cfg env ep jid) w))"

text \<open>\<open>_remove_unprocessed_audio\<close>; the flag is consumed.\<close>

definition remove_unprocessed_audio :: "proc_env \<Rightarrow> episode \<Rightarrow> string option \<Rightarrow> proc_world \<Rightarrow> proc_world" where
  "remove_unprocessed_audio env ep path w =
     (if pw_suppress w = Some (ep_guid ep) then w\<lparr>pw_suppress := None\<rparr>
      else if given path then remove_file (pe_removable env) (the path) w else w)"

section \<open>The lock of an episode\<close>

definition cancel_others :: "episode \<Rightarrow> string \<Rightarrow> proc_world \<Rightarrow> proc_world" where
  "cancel_others ep jid w = on_pw (on_jobs (sm_cancel_existing_jobs (ep_guid ep) jid (pw_now w))) w"

text \<open>The writer is sent the cancellation and the directory is made while the lock is held, outside the block that
  releases it; either can raise.\<close>

definition acquire_processing_lock :: "proc_config \<Rightarrow> proc_env \<Rightarrow> episode \<Rightarrow> string \<Rightarrow> string proc" where
  "acquire_processing_lock cfg env ep jid =
     bnd (get_post_row (ep_id ep)) (\<lambda>p.
       case get_post_processed_audio_path (pc_srv cfg) (pm_unprocessed p) (Some (ep_feed_title ep)) of
         None \<Rightarrow> throw (ProcessorException ''Processed audio path not found'')
       | Some path \<Rightarrow> (\<lambda>w.
           if ep_guid ep \<in> set (pw_locked w) then (Inl (ProcessorException ''Processing job in progress''), w)
           else andthen (pe_cancel env (cancel_others ep jid)) (andthen (pe_mkdir env path) (ret path))
             (w\<lparr>pw_locked := ep_guid ep # pw_locked w\<rparr>)))"

definition release_lock :: "string \<Rightarrow> proc_world \<Rightarrow> proc_world" where
  "release_lock g w = w\<lparr>pw_locked := remove1 g (pw_locked w)\<rparr>"

section \<open>Speech analysis\<close>

definition INA_MODEL :: string where "INA_MODEL = ''ina:speech_music_noise''"

definition mark_ina_failed :: "int option \<Rightarrow> string \<Rightarrow> proc_world \<Rightarrow> proc_world" where
  "mark_ina_failed cid msg w =
     (if cid = None then w
      else on_pw (\<lambda>db. case mark_model_call_failed_action cid (Some msg) (Some ''failed_permanent'') db of
        Inl _ \<Rightarrow> db | Inr (_, db') \<Rightarrow> db') w)"

definition exn_text :: "proc_exn \<Rightarrow> string" where
  "exn_text e = (case e of ProcessorException m \<Rightarrow> m | OtherException m \<Rightarrow> m)"

definition finish_ina :: "int option \<Rightarrow> nat \<Rightarrow> string \<Rightarrow> media_db \<Rightarrow> media_db option" where
  "finish_ina cid n raw db =
     (case cid of
        None \<Rightarrow> Some db
      | Some i \<Rightarrow>
          (let db' = modify_call i (\<lambda>c. c\<lparr>call_row.mc_status := ''success'', mc_response := Some raw, mc_error := None,
                 mc_first := 0, mc_last := int (n - 1)\<rparr>) db in
           if i \<in> call_row.mc_id ` set (m_calls db) \<and> flush_ok db' then Some db' else None))"

text \<open>The placeholder row, after the rows of earlier runs are gone.\<close>

definition start_ina :: "int \<Rightarrow> instant \<Rightarrow> media_db \<Rightarrow> int option \<times> media_db" where
  "start_ina pid now db =
     (let db1 = (case delete_model_calls_for_post_by_model_name_action (Some pid) (Some INA_MODEL) db of
          Inl _ \<Rightarrow> db | Inr (_, db') \<Rightarrow> db') in
      case upsert_model_call_action (Some pid) (Some INA_MODEL) (Some 0) (Some 0) (Some ''INA speech segmenter analysis'') now db1 of
        Inl _ \<Rightarrow> (None, db1)
      | Inr (c, db') \<Rightarrow> (Some c, db'))"

definition ina_results :: "proc_config \<Rightarrow> proc_env \<Rightarrow> int \<Rightarrow> int option \<Rightarrow> unit proc" where
  "ina_results cfg env pid cid w =
     (if ina_base_url (pc_ina_url cfg) = None then (Inl (OtherException ''INA_BASE_URL is required when INA analysis is enabled''), w)
      else (case pe_analyze env w of
          Inl e \<Rightarrow> (Inl e, w)
        | Inr (segs, raw) \<Rightarrow>
            (case replace_audio_segments_action (pe_str env) (Some pid) (JList segs) cid (pw_db w) of
               Inl _ \<Rightarrow> (Inl (OtherException ''Failed to persist INA audio segments''), w)
             | Inr (_, db3) \<Rightarrow>
                 (case finish_ina cid (length segs) raw db3 of
                    None \<Rightarrow> (Inl (OtherException ''Failed to finalize INA ModelCall update''), w\<lparr>pw_db := db3\<rparr>)
                  | Some db4 \<Rightarrow> (Inr (), w\<lparr>pw_db := db4\<rparr>)))))"

definition run_ina_analysis :: "proc_config \<Rightarrow> proc_env \<Rightarrow> int \<Rightarrow> unit proc" where
  "run_ina_analysis cfg env pid w =
     (case start_ina pid (pw_now w) (pw_db w) of (cid, db) \<Rightarrow>
        (case ina_results cfg env pid cid (w\<lparr>pw_db := db\<rparr>) of
           (Inl e, w') \<Rightarrow> (Inl e, mark_ina_failed cid (exn_text e) w')
         | (Inr x, w') \<Rightarrow> (Inr x, w')))"

section \<open>Censoring\<close>

definition spoken_of :: "saved_word \<Rightarrow> spoken_word" where
  "spoken_of w = \<lparr>sw_word = Some (sv_word w), sw_start = sv_start w, sw_end = sv_end w\<rparr>"

definition profanity_windows :: "proc_config \<Rightarrow> proc_env \<Rightarrow> rich_segments \<Rightarrow> millis window list \<times> bool" where
  "profanity_windows cfg env segs =
     (let saw = list_ex (\<lambda>ws. ws \<noteq> []) segs in
      case (if saw then pe_native_profanity env segs else None) of
        Some ws \<Rightarrow> (ws, saw)
      | None \<Rightarrow> extract_profanity_windows (pc_terms cfg) (pc_pad_start cfg) (pc_pad_end cfg) PROFANITY_MERGE_GAP_MS (map (map spoken_of) segs))"

definition prepare_profanity_bleeped_audio ::
  "proc_config \<Rightarrow> proc_env \<Rightarrow> string option \<Rightarrow> rich_segments option \<Rightarrow> millis window list option \<Rightarrow> bool \<Rightarrow>
   (string option \<times> millis window list) proc" where
  "prepare_profanity_bleeped_audio cfg env source rich saved enabled w =
     (if \<not> enabled then (Inr (source, []), w)
      else if \<not> given source then (Inl (ProcessorException ''No unprocessed audio available for profanity bleeping''), w)
      else (case (case saved of
              Some ws \<Rightarrow> Inr ws
            | None \<Rightarrow>
                if \<not> pc_remote_whisper cfg then Inl ''Profanity bleeping currently requires remote transcription''
                else (case profanity_windows cfg env (case rich of None \<Rightarrow> [] | Some r \<Rightarrow> r) of
                    (ws, saw) \<Rightarrow> if saw then Inr ws else Inl ''Profanity bleeping requires WhisperX word timestamps'')) of
          Inl msg \<Rightarrow> (Inl (ProcessorException msg), w)
        | Inr ws \<Rightarrow>
            if ws = [] then (Inr (source, []), w)
            else (let temp = pe_temp env w in andthen (pe_overlay env ws (the source) temp) (ret (Some temp, ws)) w)))"

definition cleanup_temp_audio_path :: "proc_env \<Rightarrow> string option \<Rightarrow> string option \<Rightarrow> proc_world \<Rightarrow> proc_world" where
  "cleanup_temp_audio_path env temp original w =
     (if \<not> given temp \<or> temp = original \<or> the temp \<notin> set (m_files (pw_db w)) then w
      else remove_file (pe_removable env) (the temp) w)"

section \<open>The guard against empty classifications\<close>

definition retry_job :: "string \<Rightarrow> string \<Rightarrow> string option \<Rightarrow> instant \<Rightarrow> job" where
  "retry_job jid g rid now = \<lparr>job_id = jid, run_id = rid, post_guid = g, status = ''pending'', current_step = Some 0,
     step_name = Some ''Queued (auto-retry)'', total_steps = Some 4, progress = Some 0, started_at = None, completed_at = None,
     error_message = None, created_at = now, requested_by = None, billing_user = None, stage_history = [],
     ad_windows_count = None, had_classification_parse_error = False, auto_retry_attempted = True\<rparr>"

text \<open>A writer action whose failure is an unsuccessful result nobody looks at.\<close>

definition job_action :: "(job_db \<Rightarrow> job_error + 'a \<times> job_db) \<Rightarrow> proc_world \<Rightarrow> proc_world" where
  "job_action f = on_pw (on_jobs (\<lambda>v. case f v of Inl _ \<Rightarrow> v | Inr (_, v') \<Rightarrow> v'))"

definition evaluate_zero_ads_guard :: "proc_config \<Rightarrow> proc_env \<Rightarrow> episode \<Rightarrow> string \<Rightarrow> nat \<Rightarrow> bool \<Rightarrow> proc_world \<Rightarrow> proc_world" where
  "evaluate_zero_ads_guard cfg env ep jid ads parse_error w =
     (let w1 = job_action (record_ad_windows_count_action jid (Some (int ads))) w;
          w2 = (if parse_error then job_action (mark_classification_parse_error_action jid) w1 else w1) in
      if ads > 0 \<or> ep_strategy ep \<noteq> ''llm'' \<or> \<not> parse_error then w2
      else (case job_row jid (pw_db w2) of
          None \<Rightarrow> w2
        | Some j \<Rightarrow>
            if auto_retry_attempted j \<or> \<not> pc_auto_retry cfg then w2
            else (let w3 = w2\<lparr>pw_suppress := Some (ep_guid ep)\<rparr>;
                      w4 = job_action (mark_auto_retry_attempted_action jid) w3 in
              job_action (create_job_action (Some (retry_job (pe_new_job env w4) (ep_guid ep) (run_id j) (pw_now w4))) (pw_now w4)) w4)))"

section \<open>The end of a run\<close>

definition finalize_processing ::
  "proc_env \<Rightarrow> episode \<Rightarrow> string \<Rightarrow> string \<Rightarrow> string option \<Rightarrow> json option \<Rightarrow> json option \<Rightarrow> real option \<Rightarrow> unit proc" where
  "finalize_processing env ep jid path chapter_data bleeps removed original_duration =
     bnd (get_post_row (ep_id ep)) (\<lambda>p w.
       let suppress = (pw_suppress w = Some (ep_guid ep));
           original = pm_unprocessed p;
           w1 = remove_unprocessed_audio env ep original w;
           duration = pe_duration env path w1 in
       andthen (update_post (ep_id ep) (\<lambda>q. q\<lparr>pm_processed := Some path, pm_bleeps := bleeps, pm_removed := removed,
           pm_original_duration := original_duration,
           pm_cut_source := (if removed = None then None else Some ''recorded''),
           pm_unprocessed := (if suppress \<and> given original then original else None),
           pm_chapters := (case chapter_data of None \<Rightarrow> pm_chapters q | Some c \<Rightarrow> Some c),
           pm_duration := (case duration of None \<Rightarrow> pm_duration q
             | Some d \<Rightarrow> if d = 0 then pm_duration q else Some (real_of_int d / 1000))\<rparr>))
         (complete_status jid ''Processing complete'') w1)"

section \<open>Chapters of a run\<close>

definition refine_transcript_sourced_chapters ::
  "proc_config \<Rightarrow> proc_env \<Rightarrow> episode \<Rightarrow> episode_chapter list \<Rightarrow> segment_row list \<Rightarrow> millis window list option \<Rightarrow> word_map option \<Rightarrow>
   episode_chapter list proc" where
  "refine_transcript_sourced_chapters cfg env ep cs segs removed words =
     (if cs = [] \<or> segs = [] then ret cs
      else bnd (pe_topic_plan env segs removed words (word_refiner_enabled cfg)
            (resolve_chapter_full_block_text (ep_full_block ep) (pc_full_block cfg)))
          (\<lambda>topics.
            if topics \<noteq> [] then (if word_refiner_enabled cfg then ret topics else pe_align_titles env topics segs)
            else bnd (pe_generate env segs) (\<lambda>plain. if plain \<noteq> [] then pe_refine_titles env plain segs else ret cs)))"

definition refine_description_sourced_chapters ::
  "proc_env \<Rightarrow> episode_chapter list \<Rightarrow> segment_row list \<Rightarrow> word_map option \<Rightarrow> episode_chapter list proc" where
  "refine_description_sourced_chapters env cs segs words =
     (if cs = [] \<or> segs = [] then ret cs else pe_align_description env cs segs words)"

definition on_chunk :: "string \<Rightarrow> int \<Rightarrow> string \<Rightarrow> real \<Rightarrow> int \<Rightarrow> int \<Rightarrow> unit proc" where
  "on_chunk jid step nm base chunks_done chunks =
     (if chunks \<le> 0 then ret ()
      else (let d = max 0 (min chunks_done chunks);
                sub = (if chunks \<le> 1 then nm else nm @ '' (chunk '' @ int_str d @ ''/'' @ int_str chunks @ '')'') in
        attempt (update_status jid ''running'' (Some step) sub (Some (base + 25 * (real_of_int d / real_of_int chunks))) None)))"

definition chapter_data_json :: "proc_env \<Rightarrow> string \<Rightarrow> string \<Rightarrow> episode_chapter list \<Rightarrow> proc_world \<Rightarrow> string" where
  "chapter_data_json env path source cs w =
     pe_dumps env (JObj [(''chapter_source'', JStr source),
       (''chapters_for_output'', serialize_chapters_for_output (pe_duration env path w) cs)])"

definition write_chapter_set ::
  "proc_env \<Rightarrow> string \<Rightarrow> string \<Rightarrow> episode_chapter list \<Rightarrow> seconds window list \<Rightarrow> episode_chapter list \<Rightarrow> string option proc" where
  "write_chapter_set env path source cs removed adjusted =
     (if cs = [] then ret None
      else andthen (pe_write_tags env path cs removed)
        (\<lambda>w. (Inr (Some (chapter_data_json env path source adjusted w)), w)))"

section \<open>The model strategy\<close>

definition classify_ad_segments :: "proc_env \<Rightarrow> string \<Rightarrow> segment_row list \<Rightarrow> unit proc" where
  "classify_ad_segments env jid segs =
     andthen (update_status jid ''running'' (Some 3) ''Identifying ads'' (Some 75) None) (pe_classify env segs)"

definition classifier_calls :: "proc_config \<Rightarrow> int \<Rightarrow> media_db \<Rightarrow> call_row list" where
  "classifier_calls cfg pid db = filter (\<lambda>c. mc_post c = pid \<and> mc_model c = pc_model cfg) (m_calls db)"

definition call_counts :: "proc_config \<Rightarrow> int \<Rightarrow> media_db \<Rightarrow> nat \<times> nat" where
  "call_counts cfg pid db =
     (let cs = classifier_calls cfg pid db in (length cs, length (filter (\<lambda>c. call_row.mc_status c = ''success'') cs)))"

definition latest_classification_error :: "proc_config \<Rightarrow> int \<Rightarrow> media_db \<Rightarrow> string option" where
  "latest_classification_error cfg pid db =
     (case sort_key (\<lambda>c. - mc_time c) (sort_key (\<lambda>c. - call_row.mc_id c)
         (filter (\<lambda>c. call_row.mc_status c \<noteq> ''success'' \<and> mc_error c \<noteq> None) (classifier_calls cfg pid db))) of
        [] \<Rightarrow> None
      | c # _ \<Rightarrow> if mc_error c = Some [] then None else mc_error c)"

definition check_classification :: "proc_config \<Rightarrow> int \<Rightarrow> unit proc" where
  "check_classification cfg pid w =
     (case call_counts cfg pid (pw_db w) of (attempts, successful) \<Rightarrow>
        if attempts = 0 \<or> successful > 0 then (Inr (), w)
        else (Inl (ProcessorException (''LLM classification failed: all '' @ nat_str attempts @ '' model call(s) were unsuccessful.''
          @ (case latest_classification_error cfg pid (pw_db w) of
               Some e \<Rightarrow> '' Latest provider error: '' @ e
             | None \<Rightarrow> '' Check the model-call details for the provider error.''))), w))"

definition llm_chapters ::
  "proc_config \<Rightarrow> proc_env \<Rightarrow> episode \<Rightarrow> string \<Rightarrow> string option \<Rightarrow> segment_row list \<Rightarrow> rich_segments option \<Rightarrow> millis window list \<Rightarrow>
   (episode_chapter list \<times> string) proc" where
  "llm_chapters cfg env ep jid unprocessed segs rich removed =
     andthen (update_status jid ''running'' (Some 5) ''Generating chapters'' (Some 95) None)
    (bnd (pe_resolve_chapters env unprocessed segs) (\<lambda>(cs, source).
     bnd (get_post_row (ep_id ep)) (\<lambda>p.
       let words = (if word_refiner_enabled cfg
             then Some (load_words_by_sequence (pe_str env) (pm_words p) (case rich of None \<Rightarrow> [] | Some r \<Rightarrow> r)) else None) in
       if source = ''transcript'' \<and> cs \<noteq> [] then
         (let left = filter_transcript_segments_for_chapters segs removed; used = (if left = [] then segs else left) in
          bnd (refine_transcript_sourced_chapters cfg env ep cs used (Some removed) words) (\<lambda>cs'. ret (cs', source)))
       else if source = ''description'' \<and> cs \<noteq> [] \<and> word_refiner_enabled cfg then
         bnd (refine_description_sourced_chapters env cs segs words) (\<lambda>cs'. ret (cs', source))
       else ret (cs, source))))"

definition to_sec :: "millis window \<Rightarrow> seconds window" where
  "to_sec w = (real_of_int (fst w) / 1000, real_of_int (snd w) / 1000)"

definition finish_llm ::
  "proc_config \<Rightarrow> proc_env \<Rightarrow> episode \<Rightarrow> string \<Rightarrow> string \<Rightarrow> bool \<Rightarrow> string option \<Rightarrow> segment_row list \<Rightarrow> rich_segments option \<Rightarrow>
   json option \<Rightarrow> audio_process_result \<Rightarrow> unit proc" where
  "finish_llm cfg env ep jid path tagging unprocessed segs rich bleeps audio =
     (let removed = removed_segments_ms audio;
          removed_sec = map to_sec (case effective_removed_windows_ms audio of Some e \<Rightarrow> e | None \<Rightarrow> removed) in
      (\<lambda>w. let w1 = evaluate_zero_ads_guard cfg env ep jid (length removed) (pe_parse_error env w) w in
        bnd (if tagging then llm_chapters cfg env ep jid unprocessed segs rich removed else ret ([], ''none'')) (\<lambda>(cs, source).
        bnd (write_chapter_set env path source cs removed_sec (recalculate_chapter_times cs removed_sec)) (\<lambda>chapter_data.
          finalize_processing env ep jid path chapter_data bleeps
            (Some (JList (map (\<lambda>w. JList [JNum (py_round3 (fst w)), JNum (py_round3 (snd w))]) removed_sec)))
            (Some (py_round3 (real_of_int (source_duration_ms audio) / 1000))))) w1))"

definition perform_llm_based_processing ::
  "proc_config \<Rightarrow> proc_env \<Rightarrow> episode \<Rightarrow> string \<Rightarrow> string \<Rightarrow> bool \<Rightarrow> unit proc" where
  "perform_llm_based_processing cfg env ep jid path tagging =
     bnd (get_post_row (ep_id ep)) (\<lambda>p0.
       let wants_words = (word_refiner_enabled cfg \<or> pc_record_words cfg);
           saved_words = (wants_words \<and> has_saved_transcript_word_timestamps (pm_words p0));
           (has_bleeps, saved_bleeps) = (if ep_bleep ep then load_saved_bleep_windows (pm_bleeps p0) else (False, []));
           must_bleep = (ep_bleep ep \<and> \<not> has_bleeps) in
       andthen (update_status jid ''running'' (Some 2) ''Transcribing audio'' (Some 50) (Some 5))
      (bnd (pe_transcribe env (must_bleep \<or> (wants_words \<and> \<not> saved_words))
              (\<not> (must_bleep \<or> (word_refiner_enabled cfg \<and> \<not> saved_words))) (on_chunk jid 2 ''Transcribing audio'' 50)) (\<lambda>(segs, rich).
       andthen (raise_if_cancelled jid 2)
      (bnd (get_post_row (ep_id ep)) (\<lambda>p.
       let unprocessed = (if given (pm_unprocessed p) then pm_unprocessed p else None) in
       andthen (classify_ad_segments env jid segs)
      (andthen (raise_if_cancelled jid 3)
      (andthen (check_classification cfg (ep_id ep))
      (andthen (update_status jid ''running'' (Some 4) ''Processing audio'' (Some 90) None)
      (bnd (prepare_profanity_bleeped_audio cfg env unprocessed rich (if has_bleeps then Some saved_bleeps else None) (ep_bleep ep))
        (\<lambda>(source, windows).
       bnd (ensure (pe_audio env source path) (cleanup_temp_audio_path env source unprocessed))
         (finish_llm cfg env ep jid path tagging unprocessed segs rich
            (if ep_bleep ep then Some (serialize_bleep_windows windows) else None))))))))))))"

section \<open>The chapter strategies\<close>

definition insertion_words :: "proc_config \<Rightarrow> proc_env \<Rightarrow> episode \<Rightarrow> rich_segments option \<Rightarrow> word_map option proc" where
  "insertion_words cfg env ep rich =
     (if word_refiner_enabled cfg
      then bnd (get_post_row (ep_id ep)) (\<lambda>p. ret (Some (load_words_by_sequence (pe_str env) (pm_words p) (case rich of None \<Rightarrow> [] | Some r \<Rightarrow> r))))
      else ret None)"

definition insertion_transcript ::
  "proc_config \<Rightarrow> proc_env \<Rightarrow> episode \<Rightarrow> string \<Rightarrow> string option \<Rightarrow> bool \<Rightarrow> bool \<Rightarrow> episode_chapter list \<Rightarrow> string \<Rightarrow>
   (segment_row list \<times> rich_segments option \<times> episode_chapter list \<times> string) proc" where
  "insertion_transcript cfg env ep jid unprocessed bleep has_bleeps cs source =
     (let active = word_refiner_enabled cfg; must_bleep = (bleep \<and> \<not> has_bleeps) in
      if source = ''none'' \<or> bleep \<or> (active \<and> source = ''description'') then
        (let nm = (if source = ''none'' then ''Transcribing audio for chapter generation''
               else if bleep then ''Transcribing audio for profanity bleeping'' else ''Transcribing audio for chapter refinement'') in
         andthen (update_status jid ''running'' (Some 3) nm (Some 75) None)
        (bnd (pe_transcribe env (must_bleep \<or> active \<or> pc_record_words cfg) (\<not> (must_bleep \<or> active)) (on_chunk jid 3 nm 75)) (\<lambda>(segs, rich).
         andthen (raise_if_cancelled jid 3)
           (if source = ''none'' then bnd (pe_resolve_chapters env unprocessed segs) (\<lambda>(cs', source'). ret (segs, rich, cs', source'))
            else ret (segs, rich, cs, source)))))
      else andthen (update_status jid ''running'' (Some 3) ''Chapters resolved'' (Some 75) None)
        (andthen (raise_if_cancelled jid 3) (ret ([], None, cs, source))))"

definition perform_chapter_insertion_only_processing ::
  "proc_config \<Rightarrow> proc_env \<Rightarrow> episode \<Rightarrow> string \<Rightarrow> string \<Rightarrow> bool \<Rightarrow> unit proc" where
  "perform_chapter_insertion_only_processing cfg env ep jid path bleep =
     bnd (get_post_row (ep_id ep)) (\<lambda>p.
       if \<not> given (pm_unprocessed p) then throw (ProcessorException ''No unprocessed audio available for chapter insert'')
       else (let unprocessed = pm_unprocessed p;
                 (has_bleeps, saved_bleeps) = (if bleep then load_saved_bleep_windows (pm_bleeps p) else (False, [])) in
       andthen (update_status jid ''running'' (Some 2) ''Resolving chapters'' (Some 50) None)
      (bnd (pe_resolve_chapters env unprocessed []) (\<lambda>(cs0, source0).
       andthen (raise_if_cancelled jid 2)
      (bnd (insertion_transcript cfg env ep jid unprocessed bleep has_bleeps cs0 source0) (\<lambda>(segs, rich, cs1, source).
       bnd (insertion_words cfg env ep rich) (\<lambda>words.
       bnd (if source = ''transcript'' \<and> cs1 \<noteq> [] \<and> segs \<noteq> [] then refine_transcript_sourced_chapters cfg env ep cs1 segs None words
            else if source = ''description'' \<and> cs1 \<noteq> [] \<and> segs \<noteq> [] \<and> word_refiner_enabled cfg
              then refine_description_sourced_chapters env cs1 segs words
            else ret cs1) (\<lambda>cs.
       andthen (update_status jid ''running'' (Some 4) ''Copying audio and writing chapters'' (Some 90) None)
      (bnd (prepare_profanity_bleeped_audio cfg env unprocessed rich (if has_bleeps then Some saved_bleeps else None) bleep)
        (\<lambda>(source_path, windows).
       andthen (ensure (copy_file (case source_path of None \<Rightarrow> [] | Some f \<Rightarrow> f) path) (cleanup_temp_audio_path env source_path unprocessed))
      (bnd (write_chapter_set env path source cs [] cs) (\<lambda>chapter_data.
         finalize_processing env ep jid path chapter_data (if bleep then Some (serialize_bleep_windows windows) else None) None None))))))))))))"

definition chapter_stats :: "proc_env \<Rightarrow> string \<Rightarrow> string list \<Rightarrow> detection \<Rightarrow> proc_world \<Rightarrow> string" where
  "chapter_stats env path filters d w =
     (case d of (ads, keep, remove) \<Rightarrow>
        pe_dumps env (JObj [(''filter_strings'', JList (map JStr filters)),
          (''chapters_for_output'', serialize_chapters_for_output (pe_duration env path w) (recalculate_chapter_times keep ads)),
          (''chapters_kept'', JList (map chapter_times keep)), (''chapters_removed'', JList (map chapter_times remove))]))"

definition perform_chapter_based_processing :: "proc_config \<Rightarrow> proc_env \<Rightarrow> episode \<Rightarrow> string \<Rightarrow> string \<Rightarrow> unit proc" where
  "perform_chapter_based_processing cfg env ep jid path =
     andthen (update_status jid ''running'' (Some 2) ''Reading chapters'' (Some 50) None)
    (bnd (get_post_row (ep_id ep)) (\<lambda>p w.
       let filters = parse_filter_strings (if given (ep_filters ep) then the (ep_filters ep) else pc_filter_default cfg);
           source = (case pm_unprocessed p of None \<Rightarrow> ''None'' | Some f \<Rightarrow> f) in
       case detect_chapter_ads (pe_native_detect env source w) (pe_read_chapters env source w) filters of
         Inl _ \<Rightarrow> (Inl (ProcessorException ''No chapters found''), w)
       | Inr d \<Rightarrow>
           (case d of (ads, keep, remove) \<Rightarrow>
             andthen (raise_if_cancelled jid 2)
            (andthen (update_status jid ''running'' (Some 3) ''Chapters filtered'' (Some 75) None)
            (andthen (raise_if_cancelled jid 3)
            (andthen (update_status jid ''running'' (Some 4) ''Processing audio'' (Some 90) None)
            (andthen (if ads \<noteq> [] then pe_clip env (map to_ms ads) source path else copy_file source path)
            (andthen (pe_write_tags env path keep ads)
              (\<lambda>w'. finalize_processing env ep jid path (Some (chapter_stats env path filters d w')) None None None w')))))) w)))"

definition perform_processing_steps :: "proc_config \<Rightarrow> proc_env \<Rightarrow> episode \<Rightarrow> string \<Rightarrow> string \<Rightarrow> bool \<Rightarrow> unit proc" where
  "perform_processing_steps cfg env ep jid path tagging =
     (if ep_bleep ep \<and> ep_strategy ep = ''chapter'' then
        throw (ProcessorException ''Profanity bleeping requires transcripts and is not supported for chapter-based ad removal'')
      else bnd (get_post_row (ep_id ep)) (\<lambda>p w.
        let ina = (ina_enabled (pc_ina_enabled cfg) \<and> given (pm_unprocessed p) \<and> ina_base_url (pc_ina_url cfg) \<noteq> None);
            early = (ina \<and> pe_ina_first env w);
            analysis = (\<lambda>v. snd (attempt (run_ina_analysis cfg env (ep_id ep)) v));
            w1 = (if early then analysis w else w) in
        ensure (if ep_strategy ep = ''chapter'' then perform_chapter_based_processing cfg env ep jid path
                else if ep_strategy ep = ''chapter_insert'' then perform_chapter_insertion_only_processing cfg env ep jid path (ep_bleep ep)
                else perform_llm_based_processing cfg env ep jid path tagging)
          (\<lambda>v. if ina \<and> \<not> early then analysis v else v) w1))"

section \<open>A run\<close>

definition notify :: "notice \<Rightarrow> proc_world \<Rightarrow> proc_world" where
  "notify n w = w\<lparr>pw_notes := pw_notes w @ [n]\<rparr>"

definition prepare_retry :: "proc_config \<Rightarrow> proc_env \<Rightarrow> episode \<Rightarrow> proc_world \<Rightarrow> proc_world" where
  "prepare_retry cfg env ep =
     on_pw (\<lambda>db. case find_post db (ep_id ep) of
        None \<Rightarrow> db
      | Some p \<Rightarrow>
          (case prepare_post_for_auto_retry_action
              (processed_audio_path_candidates (pe_resolve env) (pc_srv cfg) (pm_processed p) (pm_unprocessed p)
                (Some (ep_feed_title ep)) (Some (ep_title ep))) (pe_removable env) (ep_id ep) db of
             Inl _ \<Rightarrow> db | Inr (_, db') \<Rightarrow> db'))"

definition run_locked :: "proc_config \<Rightarrow> proc_env \<Rightarrow> episode \<Rightarrow> string \<Rightarrow> string \<Rightarrow> bool \<Rightarrow> string proc" where
  "run_locked cfg env ep jid path tagging w =
     (if path \<in> set (m_files (pw_db w)) then
        bnd (get_post_row (ep_id ep)) (\<lambda>p v.
          let v1 = remove_unprocessed_audio env ep (pm_unprocessed p) v in
          andthen (update_post (ep_id ep) (\<lambda>q. q\<lparr>pm_processed := Some path, pm_unprocessed := None\<rparr>))
            (andthen (complete_status jid ''Processing complete'') (ret path)) v1) w
      else andthen (perform_processing_steps cfg env ep jid path tagging)
        (\<lambda>v. (Inr path, notify (NotifySucceeded (Option.bind (job_row jid (pw_db v)) ad_windows_count)) v)) w)"

definition process_download :: "proc_config \<Rightarrow> proc_env \<Rightarrow> episode \<Rightarrow> string \<Rightarrow> bool \<Rightarrow> string proc" where
  "process_download cfg env ep jid tagging =
     andthen (handle_download_step cfg env ep jid)
    (andthen (raise_if_cancelled jid 1)
    (bnd (acquire_processing_lock cfg env ep jid) (\<lambda>path.
       ensure (run_locked cfg env ep jid path tagging) (release_lock (ep_guid ep)))))"

definition process_missing :: "proc_config \<Rightarrow> proc_env \<Rightarrow> episode \<Rightarrow> string \<Rightarrow> bool \<Rightarrow> string proc" where
  "process_missing cfg env ep jid tagging =
     bnd (simulate_developer_processing cfg env ep jid) (\<lambda>simulated.
       if given simulated then ret (the simulated) else process_download cfg env ep jid tagging)"

definition process_checked :: "proc_config \<Rightarrow> proc_env \<Rightarrow> episode \<Rightarrow> string \<Rightarrow> bool \<Rightarrow> string proc" where
  "process_checked cfg env ep jid tagging =
     bnd (check_existing_processed_audio cfg env ep) (\<lambda>found.
       if found then
         andthen (complete_status jid ''Processing complete'')
           (bnd (get_post_row (ep_id ep)) (\<lambda>q. ret (case pm_processed q of None \<Rightarrow> ''None'' | Some f \<Rightarrow> f)))
       else process_missing cfg env ep jid tagging)"

definition process_body :: "proc_config \<Rightarrow> proc_env \<Rightarrow> episode \<Rightarrow> string \<Rightarrow> bool \<Rightarrow> string proc" where
  "process_body cfg env ep jid tagging =
     andthen (update_status jid ''running'' (Some 0) ''Starting processing'' None None)
    (bnd (get_post_row (ep_id ep)) (\<lambda>p.
     if \<not> pm_whitelisted p then throw (ProcessorException (''Post with GUID '' @ ep_guid ep @ '' not whitelisted''))
     else bnd (get_job_row jid) (\<lambda>j.
       andthen (\<lambda>w. (Inr (), if auto_retry_attempted j then prepare_retry cfg env ep w else w))
         (process_checked cfg env ep jid tagging))))"

text \<open>The handlers: the status is written with the step the job had when the run began.\<close>

definition settle_failure :: "string \<Rightarrow> int option \<Rightarrow> proc_exn \<Rightarrow> string proc" where
  "settle_failure jid step e =
     (case e of
        ProcessorException m \<Rightarrow>
          if str_in ''Processing job in progress'' m then
            andthen (update_status jid ''failed'' step ''Another processing job is already running for this episode'' None None) (throw e)
          else andthen (update_status jid ''failed'' step m None None) (andthen (\<lambda>w. (Inr (), notify (NotifyFailed (step_label step) m) w)) (throw e))
      | OtherException m \<Rightarrow>
          andthen (update_status jid ''failed'' step (''Unexpected error: '' @ m) None None)
            (andthen (\<lambda>w. (Inr (), notify (NotifyFailed (step_label step) (''Unexpected error: '' @ m)) w)) (throw e)))"

definition process_job :: "proc_config \<Rightarrow> proc_env \<Rightarrow> episode \<Rightarrow> string \<Rightarrow> string proc" where
  "process_job cfg env ep jid w =
     (case job_row jid (pw_db w) of
        None \<Rightarrow> (Inl (ProcessorException (''Job with ID '' @ jid @ '' not found'')), w)
      | Some j \<Rightarrow>
          (let tagging = resolve_llm_chapter_fallback_tagging_enabled (ep_tag_chapters ep) (pc_tag_chapters cfg) (ep_strategy ep) in
           case process_body cfg env ep jid tagging w of
             (Inr path, w') \<Rightarrow> (Inr path, w')
           | (Inl e, w') \<Rightarrow> settle_failure jid (current_step j) e w'))"

section \<open>Rules for steps\<close>

text \<open>What holds of the value and the world of a step that returns, and of the world of any step.\<close>

definition returns :: "('a \<Rightarrow> proc_world \<Rightarrow> bool) \<Rightarrow> (proc_exn + 'a) \<times> proc_world \<Rightarrow> bool" where
  "returns Q r \<longleftrightarrow> (case r of (Inl e, w) \<Rightarrow> True | (Inr x, w) \<Rightarrow> Q x w)"

definition leaves :: "(proc_world \<Rightarrow> bool) \<Rightarrow> (proc_exn + 'a) \<times> proc_world \<Rightarrow> bool" where
  "leaves Q r \<longleftrightarrow> Q (snd r)"

named_theorems step_rules

lemma returns_simps [simp]: "returns Q (Inl e, w)" "returns Q (Inr x, w) \<longleftrightarrow> Q x w"
  by (simp_all add: returns_def)

lemma leaves_simps [simp]: "leaves Q (r, w) \<longleftrightarrow> Q w"
  by (simp add: leaves_def)

lemma returns_ret [step_rules]: "Q x w \<Longrightarrow> returns Q (ret x w)"
  by (simp add: ret_def)

lemma returns_throw [step_rules]: "returns Q (throw e w)"
  by (simp add: throw_def)

lemma returns_bnd [step_rules]: "(\<And>x w'. m w = (Inr x, w') \<Longrightarrow> returns Q (f x w')) \<Longrightarrow> returns Q (bnd m f w)"
  by (auto simp: bnd_def returns_def split: sum.splits prod.splits)

lemma returns_andthen [step_rules]: "(\<And>x w'. m w = (Inr x, w') \<Longrightarrow> returns Q (k w')) \<Longrightarrow> returns Q (andthen m k w)"
  unfolding andthen_def by (rule returns_bnd)

lemma returns_ensure: "returns (\<lambda>x w'. Q x (c w')) (m w) \<Longrightarrow> returns Q (ensure m c w)"
  by (auto simp: ensure_def returns_def split: sum.splits prod.splits)

lemma returns_mono: "returns P r \<Longrightarrow> (\<And>x w. P x w \<Longrightarrow> Q x w) \<Longrightarrow> returns Q r"
  by (auto simp: returns_def split: sum.splits prod.splits)

lemma leaves_ret [step_rules]: "Q w \<Longrightarrow> leaves Q (ret x w)"
  by (simp add: ret_def)

lemma leaves_throw [step_rules]: "Q w \<Longrightarrow> leaves Q (throw e w)"
  by (simp add: throw_def)

lemma leaves_bnd [step_rules]: "leaves Q (m w) \<Longrightarrow> (\<And>x w'. Q w' \<Longrightarrow> leaves Q (f x w')) \<Longrightarrow> leaves Q (bnd m f w)"
  by (cases "m w") (auto simp: bnd_def leaves_def split: sum.splits prod.splits)

lemma leaves_andthen [step_rules]: "leaves Q (m w) \<Longrightarrow> (\<And>w'. Q w' \<Longrightarrow> leaves Q (k w')) \<Longrightarrow> leaves Q (andthen m k w)"
  unfolding andthen_def by (rule leaves_bnd)

lemma leaves_ensure [step_rules]: "leaves Q (m w) \<Longrightarrow> (\<And>w'. Q w' \<Longrightarrow> Q (c w')) \<Longrightarrow> leaves Q (ensure m c w)"
  by (cases "m w") (auto simp: ensure_def leaves_def)

lemma leaves_attempt [step_rules]: "leaves Q (m w) \<Longrightarrow> leaves Q (attempt m w)"
  by (simp add: attempt_def leaves_def)

section \<open>What a status update does\<close>

lemma put_jobs_frame [simp]:
  "m_jobs (put_jobs v db) = jobs v" "m_posts (put_jobs v db) = m_posts db" "m_files (put_jobs v db) = m_files db"
  "m_audio (put_jobs v db) = m_audio db" "m_segments (put_jobs v db) = m_segments db" "m_idents (put_jobs v db) = m_idents db"
  by (simp_all add: put_jobs_def)

lemma jobs_view_jobs [simp]: "jobs (jobs_view db) = m_jobs db"
  by (simp add: jobs_view_def)

lemma job_row_view: "job_row jid db = find_job (jobs_view db) jid"
  by (simp add: job_row_def find_job_def)

lemma job_row_put [simp]: "job_row jid (put_jobs v db) = find_job v jid"
  by (simp add: job_row_def find_job_def)

lemma on_pw_frame [simp]:
  "pw_db (on_pw f w) = f (pw_db w)" "pw_locked (on_pw f w) = pw_locked w" "pw_suppress (on_pw f w) = pw_suppress w"
  "pw_notes (on_pw f w) = pw_notes w" "pw_now (on_pw f w) = pw_now w"
  by (simp_all add: on_pw_def)

lemma find_post_put [simp]: "find_post (put_jobs v db) = find_post db"
  by (rule ext) (simp add: find_post_def)

lemma update_status_Inl: "update_status jid st step nm prog tot w = (Inl e, w') \<Longrightarrow> w' = w \<and> (\<exists>m. e = OtherException m)"
  by (auto simp: update_status_def split: option.splits sum.splits)

lemma update_status_Inr:
  assumes "update_status jid st step nm prog tot w = (Inr u, w')"
  obtains j k s where "job_row jid (pw_db w) = Some j" "job_row jid (pw_db w') = Some k" "step = Some s"
    "k = j \<and> status j = ''cancelled'' \<and> st \<noteq> ''cancelled'' \<or> status k = st \<and> current_step k = Some s"
    "\<exists>v. w' = on_pw (put_jobs v) w"
proof -
  obtain j s v where j: "job_row jid (pw_db w) = Some j" "step = Some s"
    "sm_update_job_status j st s nm prog tot (pw_now w) (jobs_view (pw_db w)) = Inr v" "w' = on_pw (put_jobs v) w"
    using assms by (auto simp: update_status_def split: option.splits sum.splits)
  have "job_id j = jid" using j(1) by (auto simp: job_row_def find_Some_iff)
  then obtain u where u: "v = try_update (jid, u, pw_now w) (jobs_view (pw_db w))" "u_status u = st" "u_step u = Some s"
    using j(3) by (auto simp: sm_update_job_status_def Let_def split: option.splits if_split_asm)
  have row: "job_row jid (pw_db w') = Some (if status j = ''cancelled'' \<and> st \<noteq> ''cancelled'' then j else apply_status u (pw_now w) j)"
  proof -
    have "find_job (jobs_view (pw_db w)) jid = Some j" using j(1) by (simp add: job_row_view)
    then show ?thesis using u(2) by (simp add: j(4) u(1) find_try_update)
  qed
  show ?thesis
    by (rule that [OF j(1) row j(2)]) (use u j(4) in \<open>auto simp: apply_status_def\<close>)
qed

definition settled_in :: "string set \<Rightarrow> string \<Rightarrow> proc_world \<Rightarrow> bool" where
  "settled_in S jid w \<longleftrightarrow> (\<exists>k. job_row jid (pw_db w) = Some k \<and> status k \<in> S)"

lemma update_status_settles:
  "update_status jid st step nm prog tot w = (Inr u, w') \<Longrightarrow> settled_in {st, ''cancelled''} jid w' \<and> find_post (pw_db w') = find_post (pw_db w)"
  by (elim update_status_Inr) (auto simp: settled_in_def)

lemma complete_status_settles:
  assumes "complete_status jid nm w = (Inr u, w')"
  shows "settled_in {''completed'', ''cancelled''} jid w' \<and> find_post (pw_db w') = find_post (pw_db w)"
proof -
  obtain j where "job_row jid (pw_db w) = Some j"
    using assms by (cases "job_row jid (pw_db w)") (simp_all add: complete_status_def bnd_def get_job_row_def)
  then have "update_status jid ''completed'' (Some (or_default (total_steps j) 4)) nm (Some 100) None w = (Inr u, w')"
    using assms by (simp add: complete_status_def bnd_def get_job_row_def)
  then show ?thesis by (rule update_status_settles)
qed

section \<open>A finished run is recorded\<close>

definition recorded :: "episode \<Rightarrow> string \<Rightarrow> string \<Rightarrow> proc_world \<Rightarrow> bool" where
  "recorded ep jid path w \<longleftrightarrow> settled_in {''completed'', ''cancelled''} jid w
     \<and> (\<exists>q. find_post (pw_db w) (ep_id ep) = Some q \<and> pm_processed q = Some path)"

lemma post_after_modify:
  "\<forall>q. pm_id (f q) = pm_id q \<Longrightarrow> find_post (modify_post pid f db) i = map_option (\<lambda>q. if pm_id q = pid then f q else q) (find_post db i)"
proof -
  assume f: "\<forall>q. pm_id (f q) = pm_id q"
  have "find (\<lambda>p. pm_id p = i) (map (\<lambda>p. if pm_id p = pid then f p else p) ps)
      = map_option (\<lambda>q. if pm_id q = pid then f q else q) (find (\<lambda>p. pm_id p = i) ps)" for ps
    using f by (induction ps) auto
  then show ?thesis by (simp add: find_post_def modify_post_def)
qed

lemma find_post_id: "find_post db i = Some q \<Longrightarrow> pm_id q = i"
  by (auto simp: find_post_def find_Some_iff)

lemma update_post_complete:
  assumes "\<forall>q. pm_id (f q) = pm_id q" and "\<forall>q. pm_processed (f q) = Some path"
  shows "returns (\<lambda>_. recorded ep jid path) (andthen (update_post (ep_id ep) f) (complete_status jid nm) w)"
proof (rule returns_andthen)
  fix x w1
  assume u: "update_post (ep_id ep) f w = (Inr x, w1)"
  then obtain q where "find_post (pw_db w) (ep_id ep) = Some q" "w1 = on_pw (modify_post (ep_id ep) f) w"
    by (auto simp: update_post_def split: option.splits)
  then have "find_post (pw_db w1) (ep_id ep) = Some (f q)"
    using post_after_modify [OF assms(1)] find_post_id by simp
  then show "returns (\<lambda>_. recorded ep jid path) (complete_status jid nm w1)"
    using complete_status_settles [of jid nm w1] assms(2)
    by (auto simp: returns_def recorded_def split: sum.splits prod.splits)
qed

lemma returns_finalize: "returns (\<lambda>_. recorded ep jid path) (finalize_processing env ep jid path cd bl rm od w)"
  unfolding finalize_processing_def Let_def
  by (rule returns_bnd) (rule update_post_complete; simp)

lemma returns_finish_llm:
  "returns (\<lambda>_. recorded ep jid path) (finish_llm cfg env ep jid path tagging unprocessed segs rich bleeps audio w)"
  unfolding finish_llm_def Let_def
  by (intro returns_bnd) (simp add: returns_finalize split: prod.split, intro impI allI returns_bnd, rule returns_finalize)

lemma returns_llm:
  "returns (\<lambda>_. recorded ep jid path) (perform_llm_based_processing cfg env ep jid path tagging w)"
  unfolding perform_llm_based_processing_def Let_def
  by (intro returns_bnd returns_andthen) (auto split: prod.split intro!: returns_bnd returns_andthen returns_finish_llm)

lemma returns_insertion:
  "returns (\<lambda>_. recorded ep jid path) (perform_chapter_insertion_only_processing cfg env ep jid path bleep w)"
  unfolding perform_chapter_insertion_only_processing_def Let_def
  by (intro returns_bnd) (auto split: prod.split intro!: step_rules returns_finalize)

lemma returns_chapter:
  "returns (\<lambda>_. recorded ep jid path) (perform_chapter_based_processing cfg env ep jid path w)"
  unfolding perform_chapter_based_processing_def Let_def
  by (intro returns_andthen returns_bnd) (auto split: prod.split sum.split intro!: returns_andthen returns_finalize)

text \<open>The analysis writes its calls and audio segments only.\<close>

definition same_rows :: "media_db \<Rightarrow> media_db \<Rightarrow> bool" where
  "same_rows db db' \<longleftrightarrow> m_jobs db' = m_jobs db \<and> m_posts db' = m_posts db"

lemma start_ina_rows: "start_ina pid now db = (cid, db') \<Longrightarrow> same_rows db db'"
proof -
  have del: "same_rows db db'" if "delete_model_calls_for_post_by_model_name_action (Some p) (Some m) db = Inr (n, db')" for p m n db'
    using that by (auto simp: same_rows_def delete_model_calls_for_post_by_model_name_action_def split: if_split_asm)
  have ups: "same_rows db db'" if "upsert_model_call_action (Some p) (Some m) (Some f) (Some l) (Some pr) now db = Inr (n, db')" for p m f l pr n db db'
    using that by (auto simp: same_rows_def upsert_model_call_action_def get_or_insert_call_def insert_call_def modify_call_def Let_def
        split: if_split_asm option.splits sum.splits)
  define db1 where "db1 = (case delete_model_calls_for_post_by_model_name_action (Some pid) (Some INA_MODEL) db of
          Inl _ \<Rightarrow> db | Inr (_, d) \<Rightarrow> d)"
  have 1: "same_rows db db1" using del by (auto simp: db1_def same_rows_def split: sum.split)
  assume "start_ina pid now db = (cid, db')"
  then have "db' = db1 \<or> same_rows db1 db'"
    unfolding start_ina_def db1_def [symmetric] Let_def using ups [where db = db1] by (auto split: sum.splits)
  then show ?thesis using 1 by (auto simp: same_rows_def)
qed

lemma ina_results_rows:
  "same_rows (pw_db w) (pw_db (snd (ina_results cfg env pid cid w))) \<and> pw_locked (snd (ina_results cfg env pid cid w)) = pw_locked w"
proof -
  have rep: "same_rows db db'" if "replace_audio_segments_action so (Some p) v c db = Inr (n, db')" for so p v c db n db'
    using that by (auto simp: same_rows_def replace_audio_segments_action_def split: json.splits option.splits sum.splits)
  have fin: "same_rows db db'" if "finish_ina c n raw db = Some db'" for c n raw db db'
    using that by (auto simp: same_rows_def finish_ina_def modify_call_def Let_def split: option.splits if_split_asm)
  have both: "same_rows db db'' \<Longrightarrow> same_rows db'' db' \<Longrightarrow> same_rows db db'" for db db' db''
    by (simp add: same_rows_def)
  have refl: "same_rows db db" for db by (simp add: same_rows_def)
  show ?thesis
    unfolding ina_results_def by (auto split: sum.split option.split prod.split intro: refl dest: rep fin intro: both)
qed

lemma ina_frame:
  "same_rows (pw_db w) (pw_db (snd (run_ina_analysis cfg env pid w))) \<and> pw_locked (snd (run_ina_analysis cfg env pid w)) = pw_locked w"
proof -
  obtain cid db where s: "start_ina pid (pw_now w) (pw_db w) = (cid, db)" by force
  have mark: "same_rows (pw_db v) (pw_db (mark_ina_failed c msg v)) \<and> pw_locked (mark_ina_failed c msg v) = pw_locked v" for c msg v
    by (auto simp: mark_ina_failed_def same_rows_def mark_model_call_failed_action_def modify_call_def split: sum.split if_split option.split)
  show ?thesis
    using start_ina_rows [OF s] ina_results_rows [of "w\<lparr>pw_db := db\<rparr>" cfg env pid cid] mark
    by (auto simp: run_ina_analysis_def s same_rows_def split: prod.split sum.split)
qed

lemma recorded_cong: "m_jobs (pw_db w') = m_jobs (pw_db w) \<Longrightarrow> m_posts (pw_db w') = m_posts (pw_db w) \<Longrightarrow> recorded ep jid path w' = recorded ep jid path w"
  by (simp add: recorded_def settled_in_def job_row_def find_post_def)

lemma recorded_rows: "same_rows (pw_db w) (pw_db w') \<Longrightarrow> recorded ep jid path w' = recorded ep jid path w"
  unfolding same_rows_def by (rule recorded_cong) simp_all

lemma recorded_notes [simp]:
  "recorded ep jid path (release_lock g w) = recorded ep jid path w"
  "recorded ep jid path (notify n w) = recorded ep jid path w"
  by (simp_all add: recorded_def settled_in_def release_lock_def notify_def)

lemma returns_steps:
  "returns (\<lambda>_. recorded ep jid path) (perform_processing_steps cfg env ep jid path tagging w)"
proof -
  have after: "recorded ep jid path (if b then snd (attempt (run_ina_analysis cfg env i) v) else v) = recorded ep jid path v" for b i v
    using ina_frame [of v cfg env i] recorded_rows by (simp add: attempt_def)
  have body: "returns (\<lambda>_ v. recorded ep jid path (if b then snd (attempt (run_ina_analysis cfg env i) v) else v))
      ((if ep_strategy ep = ''chapter'' then perform_chapter_based_processing cfg env ep jid path
        else if ep_strategy ep = ''chapter_insert'' then perform_chapter_insertion_only_processing cfg env ep jid path (ep_bleep ep)
        else perform_llm_based_processing cfg env ep jid path tagging) u)" for b i u
    unfolding after using returns_chapter returns_insertion returns_llm by (simp split: if_split)
  show ?thesis
  proof (cases "ep_bleep ep \<and> ep_strategy ep = ''chapter''")
    case True
    show ?thesis unfolding perform_processing_steps_def if_P [OF True] by (rule returns_throw)
  next
    case False
    then show ?thesis
      unfolding perform_processing_steps_def Let_def if_not_P [OF False] by (intro returns_bnd returns_ensure body)
  qed
qed

lemma returns_run_locked:
  "returns (\<lambda>r w'. r = path \<and> recorded ep jid path w') (run_locked cfg env ep jid path tagging w)"
proof (cases "path \<in> set (m_files (pw_db w))")
  case True
  have "returns (\<lambda>r w'. r = path \<and> recorded ep jid path w')
      (andthen (update_post (ep_id ep) (\<lambda>q. q\<lparr>pm_processed := Some path, pm_unprocessed := None\<rparr>))
        (andthen (complete_status jid nm) (ret path)) v)" for v nm
  proof -
    let ?f = "\<lambda>q. q\<lparr>pm_processed := Some path, pm_unprocessed := None\<rparr>"
    have "returns (\<lambda>_. recorded ep jid path) (andthen (update_post (ep_id ep) ?f) (complete_status jid nm) v)"
      by (rule update_post_complete) simp_all
    then show ?thesis
      by (auto simp: andthen_def bnd_def ret_def returns_def split: sum.splits prod.splits)
  qed
  then show ?thesis using True by (auto simp: run_locked_def Let_def intro!: returns_bnd)
next
  case False
  have "returns (\<lambda>r w'. r = path \<and> recorded ep jid path w')
      (andthen (perform_processing_steps cfg env ep jid path tagging)
        (\<lambda>v. (Inr path, notify (NotifySucceeded (Option.bind (job_row jid (pw_db v)) ad_windows_count)) v)) w)"
    using returns_steps [of ep jid path cfg env tagging w]
    by (auto simp: andthen_def bnd_def returns_def split: sum.splits prod.splits)
  then show ?thesis using False by (simp add: run_locked_def)
qed

definition has_processed :: "episode \<Rightarrow> proc_world \<Rightarrow> bool" where
  "has_processed ep w \<longleftrightarrow> (\<exists>q f. find_post (pw_db w) (ep_id ep) = Some q \<and> pm_processed q = Some f)"

lemma returns_check_existing:
  "returns (\<lambda>found w'. found \<longrightarrow> has_processed ep w') (check_existing_processed_audio cfg env ep w)"
proof -
  have upd: "returns (\<lambda>found w'. found \<longrightarrow> has_processed ep w')
     (andthen (update_post (ep_id ep) (\<lambda>q. q\<lparr>pm_processed := Some f\<rparr>)) (ret True) v)" for f v
  proof (rule returns_andthen)
    fix x w1
    assume "update_post (ep_id ep) (\<lambda>q. q\<lparr>pm_processed := Some f\<rparr>) v = (Inr x, w1)"
    then obtain q where "find_post (pw_db v) (ep_id ep) = Some q" "w1 = on_pw (modify_post (ep_id ep) (\<lambda>q. q\<lparr>pm_processed := Some f\<rparr>)) v"
      by (auto simp: update_post_def split: option.splits)
    then have "has_processed ep w1"
      using find_post_id by (simp add: post_after_modify has_processed_def)
    then show "returns (\<lambda>found w'. found \<longrightarrow> has_processed ep w') (ret True w1)" by (simp add: ret_def)
  qed
  have none: "returns (\<lambda>found w'. found \<longrightarrow> P w') (andthen m (ret False) v)" for m :: "unit proc" and P v
    by (intro returns_andthen returns_ret) simp
  have same: "has_processed ep v" if "get_post_row (ep_id ep) w = (Inr p, v)" "pm_processed p = Some f" for p v f
    using that by (auto simp: get_post_row_def has_processed_def split: option.splits)
  show ?thesis
    unfolding check_existing_processed_audio_def
    by (rule returns_bnd) (auto simp: upd none same simp del: not_None_eq split: option.split)
qed

lemma returns_simulate:
  "returns (\<lambda>r w'. given r \<longrightarrow> recorded ep jid (the r) w') (simulate_developer_processing cfg env ep jid w)"
proof -
  have end_of: "returns (\<lambda>r w'. given r \<longrightarrow> recorded ep jid (the r) w')
      (andthen (update_post (ep_id ep) (\<lambda>q. q\<lparr>pm_unprocessed := Some u, pm_processed := Some f\<rparr>))
        (andthen (complete_status jid nm) (ret (Some f))) v)" for u f nm v
  proof -
    have "returns (\<lambda>_. recorded ep jid f) (andthen (update_post (ep_id ep) (\<lambda>q. q\<lparr>pm_unprocessed := Some u, pm_processed := Some f\<rparr>)) (complete_status jid nm) v)"
      by (rule update_post_complete) simp_all
    then show ?thesis by (auto simp: andthen_def bnd_def ret_def returns_def split: sum.splits prod.splits)
  qed
  have none: "\<not> given None" by (simp add: given_def)
  show ?thesis
    unfolding simulate_developer_processing_def Let_def
    by (auto simp: none split: option.split intro!: returns_ret returns_andthen returns_bnd returns_throw end_of)
qed

lemma returns_found:
  assumes "has_processed ep v"
  shows "returns (\<lambda>path. recorded ep jid path)
      (andthen (complete_status jid nm) (bnd (get_post_row (ep_id ep)) (\<lambda>q. ret (case pm_processed q of None \<Rightarrow> ''None'' | Some f \<Rightarrow> f))) v)"
proof (rule returns_andthen)
  fix x v'
  assume "complete_status jid nm v = (Inr x, v')"
  from complete_status_settles [OF this] assms
  show "returns (\<lambda>path. recorded ep jid path) (bnd (get_post_row (ep_id ep)) (\<lambda>q. ret (case pm_processed q of None \<Rightarrow> ''None'' | Some f \<Rightarrow> f)) v')"
    by (auto simp: bnd_def get_post_row_def ret_def recorded_def has_processed_def)
qed

lemma returns_download: "returns (\<lambda>r. recorded ep jid r) (process_download cfg env ep jid tagging w)"
  unfolding process_download_def
  by (intro returns_andthen returns_bnd returns_ensure) (rule returns_mono [OF returns_run_locked], simp)

lemma returns_missing: "returns (\<lambda>r. recorded ep jid r) (process_missing cfg env ep jid tagging w)"
  unfolding process_missing_def
proof (rule returns_bnd)
  fix r w'
  assume "simulate_developer_processing cfg env ep jid w = (Inr r, w')"
  then have "given r \<longrightarrow> recorded ep jid (the r) w'" using returns_simulate [of ep jid cfg env w] by simp
  then show "returns (\<lambda>r. recorded ep jid r) ((if given r then ret (the r) else process_download cfg env ep jid tagging) w')"
    by (simp add: returns_ret returns_download)
qed

lemma returns_checked: "returns (\<lambda>r. recorded ep jid r) (process_checked cfg env ep jid tagging w)"
  unfolding process_checked_def
proof (rule returns_bnd)
  fix found w'
  assume "check_existing_processed_audio cfg env ep w = (Inr found, w')"
  then have "found \<longrightarrow> has_processed ep w'" using returns_check_existing [of ep cfg env w] by simp
  then show "returns (\<lambda>r. recorded ep jid r) ((if found then andthen (complete_status jid ''Processing complete'')
        (bnd (get_post_row (ep_id ep)) (\<lambda>q. ret (case pm_processed q of None \<Rightarrow> ''None'' | Some f \<Rightarrow> f)))
       else process_missing cfg env ep jid tagging) w')"
    by (simp add: returns_found returns_missing)
qed

lemma returns_body: "returns (\<lambda>r. recorded ep jid r) (process_body cfg env ep jid tagging w)"
proof -
  have "returns (\<lambda>r. recorded ep jid r) ((if \<not> pm_whitelisted p then throw e
     else bnd (get_job_row jid) (\<lambda>j. andthen (m j) (process_checked cfg env ep jid tagging))) v)" for p e v and m :: "job \<Rightarrow> unit proc"
    by (cases "pm_whitelisted p") (simp_all add: returns_throw, intro returns_bnd returns_andthen returns_checked)
  then show ?thesis unfolding process_body_def by (intro returns_andthen returns_bnd)
qed

text \<open>What the handlers leave.\<close>

lemma update_status_row:
  assumes "update_status jid st step nm None None w = (r, w')"
  shows "(\<exists>m. r = Inl (OtherException m)) \<and> w' = w \<and>
      (\<forall>k s. job_row jid (pw_db w) = Some k \<longrightarrow> step = Some s \<longrightarrow> total_steps k = None \<or> total_steps k = Some 0)
    \<or> r = Inr () \<and> settled_in {st, ''cancelled''} jid w'"
proof (cases r)
  case (Inr u)
  then show ?thesis using assms update_status_settles by auto
next
  case (Inl e)
  then have "w' = w" "\<exists>m. e = OtherException m" using assms update_status_Inl by blast+
  moreover have "total_steps k = None \<or> total_steps k = Some 0" if "job_row jid (pw_db w) = Some k" "step = Some s" for k s
    using assms Inl that by (cases "total_steps k") (auto simp: update_status_def sm_update_job_status_def Let_def split: if_split_asm)
  ultimately show ?thesis using Inl by blast
qed

lemma settle_failure_shape:
  obtains nm and m :: "string proc" where "settle_failure jid step e = andthen (update_status jid ''failed'' step nm None None) m"
    "\<And>v. \<exists>v'. m v = (Inl e, v') \<and> pw_db v' = pw_db v"
proof (cases e)
  case (ProcessorException msg)
  show ?thesis
  proof (cases "str_in ''Processing job in progress'' msg")
    case True
    show ?thesis
      by (rule that [of "''Another processing job is already running for this episode''" "throw e"])
        (simp add: settle_failure_def ProcessorException True, simp add: throw_def)
  next
    case False
    show ?thesis
      by (rule that [of msg "andthen (\<lambda>w. (Inr (), notify (NotifyFailed (step_label step) msg) w)) (throw e)"])
        (simp add: settle_failure_def ProcessorException False, simp add: throw_def andthen_def bnd_def notify_def)
  qed
next
  case (OtherException msg)
  show ?thesis
    by (rule that [of "''Unexpected error: '' @ msg" "andthen (\<lambda>w. (Inr (), notify (NotifyFailed (step_label step) (''Unexpected error: '' @ msg)) w)) (throw e)"])
      (simp add: settle_failure_def OtherException, simp add: throw_def andthen_def bnd_def notify_def)
qed

lemma settle_failure_result:
  assumes "settle_failure jid (Some s) e w = (r, w')"
  shows "(\<exists>e'. r = Inl e') \<and> (\<forall>k. job_row jid (pw_db w') = Some k \<longrightarrow> total_steps k \<noteq> None \<longrightarrow> total_steps k \<noteq> Some 0 \<longrightarrow>
    status k \<in> {''failed'', ''cancelled''})"
proof -
  obtain nm m where m: "settle_failure jid (Some s) e = andthen (update_status jid ''failed'' (Some s) nm None None) m"
    "\<And>v. \<exists>v'. m v = (Inl e, v') \<and> pw_db v' = pw_db v" by (rule settle_failure_shape) blast
  obtain r1 w1 where u: "update_status jid ''failed'' (Some s) nm None None w = (r1, w1)" by force
  show ?thesis
  proof (cases r1)
    case (Inl e1)
    then have "r = Inl e1" "w' = w1" using assms u unfolding m(1) by (simp_all add: andthen_def bnd_def)
    then show ?thesis using update_status_row [OF u] Inl by auto
  next
    case (Inr x)
    then have "settled_in {''failed'', ''cancelled''} jid w1" using update_status_row [OF u] by simp
    moreover obtain v' where "m w1 = (Inl e, v')" "pw_db v' = pw_db w1" using m(2) by blast
    moreover have "(r, w') = (Inl e, v')" using assms u Inr calculation(2) unfolding m(1) by (simp add: andthen_def bnd_def)
    ultimately show ?thesis by (auto simp: settled_in_def)
  qed
qed

text \<open>C2.  Whatever the components do, a run that returns a path has recorded that path on the post and its job
  is completed, or was cancelled meanwhile; a run that raises leaves a job that is failed or
  cancelled, if the row is still there and has its number of steps.\<close>

theorem a_run_settles_its_job:
  assumes "process_job cfg env ep jid w = (r, w')" and "job_row jid (pw_db w) = Some j" and "current_step j = Some s"
  shows "case r of
      Inr path \<Rightarrow> (\<exists>k. job_row jid (pw_db w') = Some k \<and> status k \<in> {''completed'', ''cancelled''})
        \<and> (\<exists>q. find_post (pw_db w') (ep_id ep) = Some q \<and> pm_processed q = Some path)
    | Inl e \<Rightarrow> \<forall>k. job_row jid (pw_db w') = Some k \<longrightarrow> total_steps k \<noteq> None \<longrightarrow> total_steps k \<noteq> Some 0 \<longrightarrow>
        status k \<in> {''failed'', ''cancelled''}"
proof -
  define tagging where "tagging = resolve_llm_chapter_fallback_tagging_enabled (ep_tag_chapters ep) (pc_tag_chapters cfg) (ep_strategy ep)"
  obtain b v where b: "process_body cfg env ep jid tagging w = (b, v)" by force
  show ?thesis
  proof (cases b)
    case (Inr path)
    then have "r = Inr path" "w' = v" using assms(1,2) b by (simp_all add: process_job_def tagging_def Let_def)
    then show ?thesis using returns_body [of ep jid cfg env tagging w] b Inr by (simp add: recorded_def settled_in_def)
  next
    case (Inl e)
    then have "settle_failure jid (Some s) e v = (r, w')" using assms b by (simp add: process_job_def tagging_def Let_def)
    from settle_failure_result [OF this] show ?thesis by auto
  qed
qed

section \<open>The lock\<close>

text \<open>Components that leave the processor's table of locks alone; each of them may raise.\<close>

definition keeps :: "'a proc \<Rightarrow> bool" where
  "keeps m \<longleftrightarrow> (\<forall>w. pw_locked (snd (m w)) = pw_locked w)"

definition parts_keep_locks :: "proc_env \<Rightarrow> bool" where
  "parts_keep_locks env \<longleftrightarrow> (\<forall>f. (\<forall>w. pw_locked (f w) = pw_locked w) \<longrightarrow> keeps (pe_cancel env f))
     \<and> (\<forall>f. keeps (pe_mkdir env f)) \<and> (\<forall>f. keeps (pe_download env f))
     \<and> (\<forall>a b cb. (\<forall>x y. keeps (cb x y)) \<longrightarrow> keeps (pe_transcribe env a b cb)) \<and> (\<forall>s. keeps (pe_classify env s))
     \<and> (\<forall>a b. keeps (pe_audio env a b)) \<and> (\<forall>a b c. keeps (pe_overlay env a b c)) \<and> (\<forall>a b c. keeps (pe_clip env a b c))
     \<and> (\<forall>a b. keeps (pe_resolve_chapters env a b)) \<and> (\<forall>a b c d e. keeps (pe_topic_plan env a b c d e))
     \<and> (\<forall>a b. keeps (pe_align_titles env a b)) \<and> (\<forall>a. keeps (pe_generate env a)) \<and> (\<forall>a b. keeps (pe_refine_titles env a b))
     \<and> (\<forall>a b c. keeps (pe_align_description env a b c)) \<and> (\<forall>a b c. keeps (pe_write_tags env a b c))"

lemma keepsD: "keeps m \<Longrightarrow> pw_locked w = L \<Longrightarrow> leaves (\<lambda>w. pw_locked w = L) (m w)"
  by (simp add: keeps_def leaves_def)

abbreviation locks :: "string list \<Rightarrow> (proc_exn + 'a) \<times> proc_world \<Rightarrow> bool" where
  "locks L \<equiv> leaves (\<lambda>w. pw_locked w = L)"

lemma locks_update_status: "pw_locked w = L \<Longrightarrow> locks L (update_status jid st step nm prog tot w)"
  by (auto simp: update_status_def split: option.splits sum.splits)

lemma locks_get_job: "pw_locked w = L \<Longrightarrow> locks L (get_job_row jid w)"
  by (auto simp: get_job_row_def split: option.splits)

lemma locks_get_post: "pw_locked w = L \<Longrightarrow> locks L (get_post_row pid w)"
  by (auto simp: get_post_row_def split: option.splits)

lemma locks_update_post: "pw_locked w = L \<Longrightarrow> locks L (update_post pid f w)"
  by (auto simp: update_post_def split: option.splits)

lemma locks_copy: "pw_locked w = L \<Longrightarrow> locks L (copy_file a b w)"
  by (auto simp: copy_file_def)

lemma locks_complete: "pw_locked w = L \<Longrightarrow> locks L (complete_status jid nm w)"
  unfolding complete_status_def by (intro step_rules locks_get_job locks_update_status)

lemma locks_cancelled: "pw_locked w = L \<Longrightarrow> locks L (raise_if_cancelled jid step w)"
  unfolding raise_if_cancelled_def by (auto intro!: step_rules locks_update_status)

lemma locks_check: "pw_locked w = L \<Longrightarrow> locks L (check_classification cfg pid w)"
  by (auto simp: check_classification_def split: prod.split)

lemma pure_locks [simp]:
  "pw_locked (remove_file r f w) = pw_locked w"
  "pw_locked (cleanup_temp_audio_path env t o' w) = pw_locked w"
  "pw_locked (remove_unprocessed_audio env ep path w) = pw_locked w"
  "pw_locked (job_action act w) = pw_locked w"
  "pw_locked (evaluate_zero_ads_guard cfg env ep jid n e w) = pw_locked w"
  "pw_locked (notify x w) = pw_locked w"
  "pw_locked (prepare_retry cfg env ep w) = pw_locked w"
  by (simp_all add: remove_file_def cleanup_temp_audio_path_def remove_unprocessed_audio_def job_action_def
      evaluate_zero_ads_guard_def notify_def prepare_retry_def Let_def split: option.split)

lemmas lock_steps = step_rules locks_update_status locks_get_job locks_get_post locks_update_post locks_copy locks_complete
  locks_cancelled locks_check

lemma keeps_on_chunk: "keeps (on_chunk jid step nm base x y)"
  unfolding keeps_def on_chunk_def Let_def
  using locks_update_status by (auto simp: ret_def attempt_def leaves_def split: if_split)

lemma parts_locks:
  assumes "parts_keep_locks env" and "pw_locked w = L"
  shows "locks L (pe_mkdir env f w)" "locks L (pe_download env f w)" "locks L (pe_transcribe env a b (on_chunk jid step nm base) w)"
    "locks L (pe_classify env ss w)" "locks L (pe_audio env so f w)" "locks L (pe_overlay env ws f g w)" "locks L (pe_clip env ws f g w)"
    "locks L (pe_resolve_chapters env so ss w)" "locks L (pe_topic_plan env ss rm wm c d w)" "locks L (pe_align_titles env cs ss w)"
    "locks L (pe_generate env ss w)" "locks L (pe_refine_titles env cs ss w)" "locks L (pe_align_description env cs ss wm w)"
    "locks L (pe_write_tags env f cs secs w)"
proof -
  have "keeps (pe_transcribe env a b (on_chunk jid step nm base))"
    using assms(1) [unfolded parts_keep_locks_def] keeps_on_chunk [of jid step nm base] by (elim conjE) simp
  then show "locks L (pe_transcribe env a b (on_chunk jid step nm base) w)" by (rule keepsD[OF _ assms(2)])
qed (use assms in \<open>auto intro!: keepsD simp: parts_keep_locks_def\<close>)

lemma locks_prepare:
  "parts_keep_locks env \<Longrightarrow> pw_locked w = L \<Longrightarrow> locks L (prepare_profanity_bleeped_audio cfg env source rich saved enabled w)"
  unfolding prepare_profanity_bleeped_audio_def Let_def
  by (auto split: sum.split intro!: lock_steps parts_locks)

lemma locks_refine_transcript:
  "parts_keep_locks env \<Longrightarrow> pw_locked w = L \<Longrightarrow> locks L (refine_transcript_sourced_chapters cfg env ep cs ss rm wm w)"
  unfolding refine_transcript_sourced_chapters_def
  by (auto intro!: lock_steps parts_locks)

lemma locks_refine_description:
  "parts_keep_locks env \<Longrightarrow> pw_locked w = L \<Longrightarrow> locks L (refine_description_sourced_chapters env cs ss wm w)"
  unfolding refine_description_sourced_chapters_def
  by (auto intro!: lock_steps parts_locks)

lemma locks_write_set:
  "parts_keep_locks env \<Longrightarrow> pw_locked w = L \<Longrightarrow> locks L (write_chapter_set env path source cs rm adj w)"
  unfolding write_chapter_set_def
  by (auto intro!: lock_steps parts_locks)

lemma locks_finalize: "pw_locked w = L \<Longrightarrow> locks L (finalize_processing env ep jid path cd bl rm od w)"
  unfolding finalize_processing_def Let_def
  by (auto intro!: lock_steps)

lemmas lock_parts = lock_steps locks_prepare locks_refine_transcript locks_refine_description locks_write_set locks_finalize parts_locks

lemma locks_llm_chapters:
  "parts_keep_locks env \<Longrightarrow> pw_locked w = L \<Longrightarrow> locks L (llm_chapters cfg env ep jid un ss rich rm w)"
  unfolding llm_chapters_def Let_def
  by (auto split: prod.split intro!: lock_parts)

lemma locks_finish_llm:
  "parts_keep_locks env \<Longrightarrow> pw_locked w = L \<Longrightarrow> locks L (finish_llm cfg env ep jid path tagging un ss rich bl audio w)"
  unfolding finish_llm_def Let_def
  by (auto split: prod.split intro!: lock_parts locks_llm_chapters)

lemma locks_llm:
  "parts_keep_locks env \<Longrightarrow> pw_locked w = L \<Longrightarrow> locks L (perform_llm_based_processing cfg env ep jid path tagging w)"
  unfolding perform_llm_based_processing_def Let_def classify_ad_segments_def
  by (auto split: prod.split intro!: lock_parts locks_finish_llm)

lemma locks_insertion:
  "parts_keep_locks env \<Longrightarrow> pw_locked w = L \<Longrightarrow> locks L (perform_chapter_insertion_only_processing cfg env ep jid path bleep w)"
  unfolding perform_chapter_insertion_only_processing_def Let_def insertion_transcript_def insertion_words_def
  by (auto split: prod.split intro!: lock_parts)

lemma locks_chapter:
  "parts_keep_locks env \<Longrightarrow> pw_locked w = L \<Longrightarrow> locks L (perform_chapter_based_processing cfg env ep jid path w)"
  unfolding perform_chapter_based_processing_def Let_def
  by (auto split: prod.split sum.split intro!: lock_parts)

lemma locks_steps:
  "parts_keep_locks env \<Longrightarrow> pw_locked w = L \<Longrightarrow> locks L (perform_processing_steps cfg env ep jid path tagging w)"
  unfolding perform_processing_steps_def Let_def
  by (auto simp: ina_frame attempt_def intro!: lock_parts locks_chapter locks_insertion locks_llm)

lemma locks_run_locked:
  "parts_keep_locks env \<Longrightarrow> pw_locked w = L \<Longrightarrow> locks L (run_locked cfg env ep jid path tagging w)"
  unfolding run_locked_def Let_def
  by (auto simp: notify_def intro!: lock_steps locks_steps)

lemma locks_check_existing: "pw_locked w = L \<Longrightarrow> locks L (check_existing_processed_audio cfg env ep w)"
  unfolding check_existing_processed_audio_def
  by (auto split: option.split intro!: lock_steps)

lemma locks_simulate: "pw_locked w = L \<Longrightarrow> locks L (simulate_developer_processing cfg env ep jid w)"
  unfolding simulate_developer_processing_def Let_def
  by (auto split: option.split intro!: lock_steps)

lemma locks_download_fresh:
  "parts_keep_locks env \<Longrightarrow> pw_locked w = L \<Longrightarrow> locks L (download_fresh cfg env ep jid w)"
  unfolding download_fresh_def Let_def
  by (auto split: option.split intro!: lock_steps parts_locks)

lemma locks_handle_download:
  "parts_keep_locks env \<Longrightarrow> pw_locked w = L \<Longrightarrow> locks L (handle_download_step cfg env ep jid w)"
  unfolding handle_download_step_def
  by (auto split: option.split intro!: lock_steps locks_download_fresh)

text \<open>The writer or the directory refuses while the episode is locked.\<close>

definition raises_under_lock :: "proc_env \<Rightarrow> episode \<Rightarrow> string \<Rightarrow> bool" where
  "raises_under_lock env ep jid \<longleftrightarrow> (\<exists>v e v'. ep_guid ep \<in> set (pw_locked v) \<and>
     (pe_cancel env (cancel_others ep jid) v = (Inl e, v') \<or> (\<exists>f. pe_mkdir env f v = (Inl e, v'))))"

definition locks_settled ::
  "proc_env \<Rightarrow> episode \<Rightarrow> string \<Rightarrow> string list \<Rightarrow> (proc_exn + 'a) \<times> proc_world \<Rightarrow> bool" where
  "locks_settled env ep jid L r \<longleftrightarrow> pw_locked (snd r) = L \<or>
     ep_guid ep \<notin> set L \<and> pw_locked (snd r) = ep_guid ep # L \<and> (\<exists>e. fst r = Inl e) \<and> raises_under_lock env ep jid"

lemma settled_locks: "locks L r \<Longrightarrow> locks_settled env ep jid L r"
  by (simp add: locks_settled_def leaves_def)

lemma settled_bnd:
  "locks L (m w) \<Longrightarrow> (\<And>x w'. pw_locked w' = L \<Longrightarrow> locks_settled env ep jid L (f x w')) \<Longrightarrow> locks_settled env ep jid L (bnd m f w)"
  by (cases "m w") (auto simp: bnd_def locks_settled_def leaves_def split: sum.splits)

lemma settled_andthen:
  "locks L (m w) \<Longrightarrow> (\<And>w'. pw_locked w' = L \<Longrightarrow> locks_settled env ep jid L (k w')) \<Longrightarrow> locks_settled env ep jid L (andthen m k w)"
  unfolding andthen_def by (rule settled_bnd)

lemma locks_throw_keep: "pw_locked w = L \<Longrightarrow> locks L (throw e w)"
  by (rule leaves_throw)

lemma cancel_keeps: "parts_keep_locks env \<Longrightarrow> keeps (pe_cancel env (cancel_others ep jid))"
  unfolding parts_keep_locks_def by (drule conjunct1, drule spec, erule mp) (simp add: cancel_others_def)

lemma keepsD2: "keeps m \<Longrightarrow> m w = (r, w') \<Longrightarrow> pw_locked w' = pw_locked w"
  unfolding keeps_def by (drule spec [of _ w]) simp

lemma acquire_locks:
  assumes "parts_keep_locks env" and "pw_locked w = L" and "acquire_processing_lock cfg env ep jid w = (r, w')"
  shows "case r of Inl e \<Rightarrow> locks_settled env ep jid L (r, w') | Inr path \<Rightarrow> pw_locked w' = ep_guid ep # L"
proof -
  obtain q v where g: "get_post_row (ep_id ep) w = (q, v)" by force
  have v: "pw_locked v = L" using locks_get_post [OF assms(2), of "ep_id ep"] by (simp add: g)
  show ?thesis
  proof (cases q)
    case (Inl e)
    then have "r = Inl e" "w' = v" using assms(3) by (simp_all add: acquire_processing_lock_def bnd_def g)
    then show ?thesis using v by (simp add: locks_settled_def)
  next
    case (Inr p)
    show ?thesis
    proof (cases "get_post_processed_audio_path (pc_srv cfg) (pm_unprocessed p) (Some (ep_feed_title ep))")
      case None
      then have "pw_locked w' = L \<and> (\<exists>e. r = Inl e)" using v Inr assms(3) by (auto simp: acquire_processing_lock_def bnd_def g throw_def)
      then show ?thesis by (auto simp: locks_settled_def)
    next
      case (Some path)
      note run = assms(3) [unfolded acquire_processing_lock_def bnd_def g, simplified, unfolded Inr, simplified, unfolded Some, simplified]
      show ?thesis
      proof (cases "ep_guid ep \<in> set L")
        case True
        then have "w' = v" "\<exists>e. r = Inl e" using run v by auto
        then show ?thesis using v by (auto simp: locks_settled_def)
      next
        case False
        let ?v = "v\<lparr>pw_locked := ep_guid ep # pw_locked v\<rparr>"
        obtain c v1 where c: "pe_cancel env (cancel_others ep jid) ?v = (c, v1)" by force
        have l1: "pw_locked v1 = ep_guid ep # L" using keepsD2 [OF cancel_keeps [OF assms(1)] c] v by simp
        show ?thesis
        proof (cases c)
          case (Inl e)
          then have "r = Inl e" "w' = v1" using run v False c by (simp_all add: andthen_def bnd_def)
          moreover have "raises_under_lock env ep jid" unfolding raises_under_lock_def
            by (rule exI [of _ ?v], rule exI [of _ e], rule exI [of _ v1]) (use c Inl in simp)
          ultimately show ?thesis using l1 False by (simp add: locks_settled_def)
        next
          case (Inr u)
          obtain d v2 where d: "pe_mkdir env path v1 = (d, v2)" by force
          have keeps: "keeps (pe_mkdir env path)" using assms(1) by (simp add: parts_keep_locks_def)
          have l2: "pw_locked v2 = ep_guid ep # L" using keepsD2 [OF keeps d] l1 by simp
          show ?thesis
          proof (cases d)
            case (Inl e)
            then have "r = Inl e" "w' = v2" using run v False c Inr d by (simp_all add: andthen_def bnd_def)
            moreover have "raises_under_lock env ep jid" unfolding raises_under_lock_def
              by (rule exI [of _ v1], rule exI [of _ e], rule exI [of _ v2]) (use d Inl l1 in auto)
            ultimately show ?thesis using l2 False by (simp add: locks_settled_def)
          next
            case (Inr u')
            then have "r = Inr path" "w' = v2" using run v False c \<open>c = Inr u\<close> d by (simp_all add: andthen_def bnd_def ret_def)
            then show ?thesis using l2 by simp
          qed
        qed
      qed
    qed
  qed
qed

lemma locks_acquired:
  assumes "parts_keep_locks env" and "pw_locked w = L"
  shows "locks_settled env ep jid L (bnd (acquire_processing_lock cfg env ep jid)
    (\<lambda>path. ensure (run_locked cfg env ep jid path tagging) (release_lock (ep_guid ep))) w)"
proof -
  obtain r v where a: "acquire_processing_lock cfg env ep jid w = (r, v)" by force
  note l = acquire_locks [OF assms a]
  show ?thesis
  proof (cases r)
    case (Inl e)
    then show ?thesis using l by (simp add: bnd_def a locks_settled_def)
  next
    case (Inr path)
    then have "pw_locked v = ep_guid ep # L" using l by simp
    from locks_run_locked [OF assms(1) this, where cfg = cfg and ep = ep and jid = jid and path = path and tagging = tagging]
    show ?thesis by (auto simp: bnd_def a Inr ensure_def leaves_def release_lock_def locks_settled_def split: prod.split)
  qed
qed

lemma locks_body:
  assumes "parts_keep_locks env" and "pw_locked w = L"
  shows "locks_settled env ep jid L (process_body cfg env ep jid tagging w)"
proof -
  have download: "locks_settled env ep jid L (process_download cfg env ep jid tagging v)" if "pw_locked v = L" for v
    unfolding process_download_def using assms(1) that
    by (auto intro!: settled_andthen locks_handle_download locks_cancelled locks_acquired)
  have missing: "locks_settled env ep jid L (process_missing cfg env ep jid tagging v)" if "pw_locked v = L" for v
    unfolding process_missing_def
  proof (rule settled_bnd)
    show "locks L (simulate_developer_processing cfg env ep jid v)" using that by (rule locks_simulate)
    fix x and w' :: proc_world assume l: "pw_locked w' = L"
    show "locks_settled env ep jid L ((if given x then ret (the x) else process_download cfg env ep jid tagging) w')"
      using l download [OF l] by (cases "given x") (simp_all add: locks_settled_def ret_def)
  qed
  have checked: "locks_settled env ep jid L (process_checked cfg env ep jid tagging v)" if "pw_locked v = L" for v
    unfolding process_checked_def
  proof (rule settled_bnd)
    show "locks L (check_existing_processed_audio cfg env ep v)" using that by (rule locks_check_existing)
    fix found and w' :: proc_world assume l: "pw_locked w' = L"
    show "locks_settled env ep jid L ((if found then andthen (complete_status jid ''Processing complete'')
        (bnd (get_post_row (ep_id ep)) (\<lambda>q. ret (case pm_processed q of None \<Rightarrow> ''None'' | Some f \<Rightarrow> f)))
      else process_missing cfg env ep jid tagging) w')"
      using l missing [OF l] by (cases found) (auto intro!: settled_locks lock_steps)
  qed
  show ?thesis unfolding process_body_def using assms(2)
    by (intro settled_andthen settled_bnd locks_update_status locks_get_post)
      (auto intro!: settled_bnd settled_andthen settled_locks [OF locks_throw_keep] locks_get_job
        checked [folded assms(2)])
qed

lemma locks_settle: "pw_locked w = L \<Longrightarrow> locks L (settle_failure jid step e w)"
  unfolding settle_failure_def by (auto simp: notify_def split: proc_exn.split intro!: lock_steps)

lemma settle_failure_raises: "\<exists>e'. fst (settle_failure jid step e w) = Inl e'"
  by (auto simp: settle_failure_def andthen_def bnd_def throw_def split: proc_exn.split prod.split sum.split)

text \<open>C16.  However a run ends, it leaves the locks of the episodes as it found them: an episode locked by the run is
  released, one locked by another run stays locked.  There is one exception, which the theorem names: a run that
  raises because the cancellation of the episode's other jobs or the making of the output directory raised while
  the lock was held leaves the lock of its own episode behind.  The components are assumed not to touch the
  processor's table of locks; each of them may raise.\<close>

theorem process_leaves_the_locks:
  assumes "parts_keep_locks env" and "process_job cfg env ep jid w = (r, w')"
  shows "pw_locked w' = pw_locked w \<or>
    ep_guid ep \<notin> set (pw_locked w) \<and> pw_locked w' = ep_guid ep # pw_locked w \<and> (\<exists>e. r = Inl e) \<and> raises_under_lock env ep jid"
proof (cases "job_row jid (pw_db w)")
  case None
  then show ?thesis using assms(2) by (simp add: process_job_def)
next
  case (Some j)
  let ?t = "resolve_llm_chapter_fallback_tagging_enabled (ep_tag_chapters ep) (pc_tag_chapters cfg) (ep_strategy ep)"
  obtain b v where b: "process_body cfg env ep jid ?t w = (b, v)" by force
  have v: "locks_settled env ep jid (pw_locked w) (b, v)"
    using locks_body [OF assms(1) refl, where cfg = cfg and ep = ep and jid = jid and tagging = ?t and w = w] by (simp add: b)
  show ?thesis
  proof (cases b)
    case (Inl e)
    have run: "(r, w') = settle_failure jid (current_step j) e v" using assms(2) by (simp add: process_job_def Some b Inl)
    have "pw_locked w' = pw_locked v"
      using locks_settle [OF refl, where jid = jid and step = "current_step j" and e = e and w = v] by (simp add: run [symmetric] leaves_def)
    moreover have "\<exists>e'. r = Inl e'" using settle_failure_raises [of jid "current_step j" e v] by (simp add: run [symmetric])
    ultimately show ?thesis using v by (auto simp: locks_settled_def)
  next
    case (Inr path)
    then have "w' = v" "r = b" using assms(2) by (simp_all add: process_job_def Some b)
    then show ?thesis using v by (simp add: locks_settled_def)
  qed
qed

section \<open>A concrete run\<close>

text \<open>Components that do nothing: an episode whose chapters are known to be absent.\<close>

definition calm_env :: proc_env where
  "calm_env = \<lparr>pe_resolve = (\<lambda>f. f), pe_removable = (\<lambda>_. True), pe_sample = None, pe_cancel = (\<lambda>f w. (Inr (), f w)),
     pe_mkdir = (\<lambda>_. ret ()), pe_download = (\<lambda>f. ret (Some f)),
     pe_transcribe = (\<lambda>_ _ _. ret ([], None)), pe_classify = (\<lambda>_. ret ()), pe_parse_error = (\<lambda>_. False),
     pe_audio = (\<lambda>_ _. ret \<lparr>removed_segments_ms = [], source_duration_ms = 0, effective_removed_windows_ms = None\<rparr>),
     pe_overlay = (\<lambda>_ _ _. ret ()), pe_clip = (\<lambda>_ _ _. ret ()), pe_temp = (\<lambda>_. ''tmp''), pe_duration = (\<lambda>_ _. None),
     pe_read_chapters = (\<lambda>_ _. []), pe_native_detect = (\<lambda>_ _. None), pe_resolve_chapters = (\<lambda>_ _. ret ([], ''description'')),
     pe_topic_plan = (\<lambda>_ _ _ _ _. ret []), pe_align_titles = (\<lambda>_ _. ret []), pe_generate = (\<lambda>_. ret []), pe_refine_titles = (\<lambda>_ _. ret []),
     pe_align_description = (\<lambda>_ _ _. ret []), pe_write_tags = (\<lambda>_ _ _. ret ()), pe_native_profanity = (\<lambda>_. None),
     pe_analyze = (\<lambda>_. Inr ([], [])), pe_ina_first = (\<lambda>_. False), pe_dumps = (\<lambda>_. []), pe_str = (\<lambda>_. []), pe_new_job = (\<lambda>_. ''j2'')\<rparr>"

definition sample_config :: proc_config where
  "sample_config = \<lparr>pc_model = ''m'', pc_boundary = False, pc_word_boundary = False, pc_record_words = False, pc_tag_chapters = False,
     pc_full_block = False, pc_auto_retry = True, pc_developer = False, pc_remote_whisper = True, pc_pad_start = 0, pc_pad_end = 0,
     pc_terms = {}, pc_filter_default = [], pc_srv = ''/srv'', pc_in = ''/in'', pc_ina_enabled = None, pc_ina_url = None\<rparr>"

definition sample_episode :: "string \<Rightarrow> episode" where
  "sample_episode strategy = \<lparr>ep_id = 1, ep_guid = ''g'', ep_title = ''t'', ep_feed_title = ''f'', ep_description = None, ep_download_url = None,
     ep_strategy = strategy, ep_filters = None, ep_tag_chapters = None, ep_full_block = None, ep_bleep = False\<rparr>"

definition sample_job :: job where
  "sample_job = (retry_job ''j'' ''g'' None 0)\<lparr>auto_retry_attempted := False\<rparr>"

definition sample_post :: post_media where
  "sample_post = \<lparr>pm_id = 1, pm_guid = ''g'', pm_feed = 1, pm_whitelisted = True, pm_unprocessed = Some ''/in/a.mp3'', pm_processed = None,
     pm_duration = None, pm_chapters = None, pm_bleeps = None, pm_removed = None, pm_original_duration = None, pm_cut_source = None,
     pm_words = None, pm_refined = None, pm_refined_at = None,
     pm_url = ''http://pod/1.mp3'', pm_title = ''Episode'', pm_description = None, pm_image = None, pm_release = None, pm_downloads = None\<rparr>"

definition sample_world :: proc_world where
  "sample_world = \<lparr>pw_db = \<lparr>m_posts = [sample_post], m_segments = [], m_idents = [], m_calls = [], m_audio = [], m_jobs = [sample_job],
     m_run = None, m_files = [''/in/a.mp3'']\<rparr>, pw_locked = [''h''], pw_suppress = None, pw_notes = [], pw_now = 0\<rparr>"

theorem a_run_settles_its_job_witness:
  "\<exists>q. find_post (pw_db (snd (process_job sample_config calm_env (sample_episode ''chapter_insert'') ''j'' sample_world))) 1 = Some q
     \<and> pm_processed q = Some ''/srv/f/a.mp3''"
proof -
  let ?r = "process_job sample_config calm_env (sample_episode ''chapter_insert'') ''j'' sample_world"
  have r: "fst ?r = Inr ''/srv/f/a.mp3''" by code_simp
  have j: "job_row ''j'' (pw_db sample_world) = Some sample_job" "current_step sample_job = Some 0" by code_simp+
  have i: "ep_id (sample_episode ''chapter_insert'') = 1" by (simp add: sample_episode_def)
  from a_run_settles_its_job [OF surjective_pairing j, of sample_config calm_env "sample_episode ''chapter_insert''"]
  show ?thesis unfolding r i by simp
qed

theorem process_leaves_the_locks_witness:
  "pw_locked (snd (process_job sample_config calm_env (sample_episode ''chapter_insert'') ''j'' sample_world)) = [''h'']"
proof -
  have k: "parts_keep_locks calm_env" by (simp add: parts_keep_locks_def calm_env_def keeps_def ret_def)
  have "\<not> raises_under_lock calm_env (sample_episode ''chapter_insert'') ''j''"
    by (simp add: raises_under_lock_def calm_env_def ret_def)
  with process_leaves_the_locks [OF k surjective_pairing, of sample_config "sample_episode ''chapter_insert''" "''j''" sample_world]
  show ?thesis by (simp add: sample_world_def)
qed

text \<open>Two episodes of a feed that have one title have one output file.  When the first is published, a run of the
  second finds the file and publishes it as its own: nothing is downloaded, transcribed or cut.\<close>

theorem a_namesake_is_published_with_the_other_audio:
  "let first_post = sample_post\<lparr>pm_id := 2, pm_guid := ''g2'', pm_unprocessed := None, pm_processed := Some ''/srv/f/t.mp3''\<rparr>;
       w = sample_world\<lparr>pw_db := (pw_db sample_world)\<lparr>m_posts := [first_post, sample_post\<lparr>pm_unprocessed := None\<rparr>],
         m_files := [''/srv/f/t.mp3'']\<rparr>\<rparr>;
       r = process_job sample_config calm_env (sample_episode ''llm'') ''j'' w in
     fst r = Inr ''/srv/f/t.mp3'' \<and> map pm_processed (m_posts (pw_db (snd r))) = [Some ''/srv/f/t.mp3'', Some ''/srv/f/t.mp3''] \<and> m_calls (pw_db (snd r)) = []"
  by code_simp

text \<open>A directory that cannot be made leaves the episode locked: every later run of it, whatever its job, fails
  with the message that a job is in progress.\<close>

definition full_disk_env :: proc_env where
  "full_disk_env = calm_env\<lparr>pe_mkdir := (\<lambda>_. throw (OtherException ''OSError''))\<rparr>"

theorem failed_directory_leaves_the_lock:
  "let w = snd (process_job sample_config full_disk_env (sample_episode ''chapter_insert'') ''j'' sample_world) in
     pw_locked w = [''g'', ''h''] \<and>
     fst (process_job sample_config calm_env (sample_episode ''chapter_insert'') ''j'' w) =
       Inl (ProcessorException ''Processing job in progress'')"
  by code_simp

section \<open>A classification that failed\<close>

lemma cancelled_returns: "raise_if_cancelled jid step w = (Inr x, w') \<Longrightarrow> w' = w"
  by (auto simp: raise_if_cancelled_def andthen_def bnd_def throw_def split: if_splits prod.splits sum.splits)

lemma check_returns:
  "check_classification cfg pid w = (Inr x, w') \<Longrightarrow> fst (call_counts cfg pid (pw_db w)) = 0 \<or> snd (call_counts cfg pid (pw_db w)) > 0"
  by (auto simp: check_classification_def split: if_splits prod.splits)

lemma andthen_returns: "andthen m k w = (Inr x, w') \<Longrightarrow> \<exists>y v. m w = (Inr y, v) \<and> k v = (Inr x, w')"
  by (auto simp: andthen_def bnd_def split: prod.splits sum.splits)

text \<open>The episodes' rows and the files.\<close>

definition library_of :: "proc_world \<Rightarrow> post_media list \<times> string list" where
  "library_of w = (m_posts (pw_db w), m_files (pw_db w))"

text \<open>The world that the transcription of a run leaves, and the one that the classification after it leaves; each may
  have raised.\<close>

definition transcribed_from :: "proc_env \<Rightarrow> string \<Rightarrow> proc_world \<Rightarrow> proc_world \<Rightarrow> bool" where
  "transcribed_from env jid w u \<longleftrightarrow> (\<exists>a b v r. library_of v = library_of w \<and>
     pe_transcribe env a b (on_chunk jid 2 ''Transcribing audio'' 50) v = (r, u))"

definition classified_from :: "proc_env \<Rightarrow> string \<Rightarrow> proc_world \<Rightarrow> proc_world \<Rightarrow> bool" where
  "classified_from env jid w u \<longleftrightarrow> (\<exists>segs v t r. transcribed_from env jid w t \<and> library_of v = library_of t \<and>
     pe_classify env segs v = (r, u))"

definition unpublished :: "proc_env \<Rightarrow> string \<Rightarrow> proc_world \<Rightarrow> proc_world \<Rightarrow> bool" where
  "unpublished env jid w w' \<longleftrightarrow> library_of w' = library_of w \<or>
     (\<exists>u. library_of w' = library_of u \<and> (transcribed_from env jid w u \<or> classified_from env jid w u))"

abbreviation same_library :: "proc_world \<Rightarrow> (proc_exn + 'a) \<times> proc_world \<Rightarrow> bool" where
  "same_library w \<equiv> leaves (\<lambda>v. library_of v = library_of w)"

lemma library_update_status: "library_of v = library_of w \<Longrightarrow> same_library w (update_status jid st step nm prog tot v)"
  by (auto simp: update_status_def library_of_def leaves_def split: option.splits sum.splits)

lemma library_get_post: "library_of v = library_of w \<Longrightarrow> same_library w (get_post_row pid v)"
  by (auto simp: get_post_row_def leaves_def split: option.splits)

lemma library_cancelled: "library_of v = library_of w \<Longrightarrow> same_library w (raise_if_cancelled jid step v)"
  unfolding raise_if_cancelled_def by (auto intro!: step_rules library_update_status)

lemma library_check: "library_of v = library_of w \<Longrightarrow> same_library w (check_classification cfg pid v)"
  by (auto simp: check_classification_def leaves_def split: prod.split)

lemmas library_steps = library_update_status library_get_post library_cancelled library_check

lemma leaves_bnd_then:
  "leaves P (m w) \<Longrightarrow> (\<And>v. P v \<Longrightarrow> Q v) \<Longrightarrow> (\<And>x v. m w = (Inr x, v) \<Longrightarrow> P v \<Longrightarrow> leaves Q (f x v)) \<Longrightarrow> leaves Q (bnd m f w)"
  by (cases "m w") (auto simp: bnd_def leaves_def split: sum.splits)

lemma leaves_andthen_then:
  "leaves P (m w) \<Longrightarrow> (\<And>v. P v \<Longrightarrow> Q v) \<Longrightarrow> (\<And>x v. m w = (Inr x, v) \<Longrightarrow> P v \<Longrightarrow> leaves Q (k v)) \<Longrightarrow> leaves Q (andthen m k w)"
  unfolding andthen_def by (rule leaves_bnd_then)

lemma failed_block_raises:
  assumes "\<And>ss v x v'. pe_classify env ss v = (Inr x, v') \<Longrightarrow>
      fst (call_counts cfg pid (pw_db v')) > 0 \<and> snd (call_counts cfg pid (pw_db v')) = 0"
  shows "returns (\<lambda>_ _. False) (andthen (classify_ad_segments env jid segs) (andthen (raise_if_cancelled jid 3)
      (andthen (check_classification cfg pid) k)) v)"
proof (intro returns_andthen)
  fix x7 w7 x8 w8 x9 w9
  assume c: "classify_ad_segments env jid segs v = (Inr x7, w7)" and k: "raise_if_cancelled jid 3 w7 = (Inr x8, w8)"
    and h: "check_classification cfg pid w8 = (Inr x9, w9)"
  obtain u where "pe_classify env segs u = (Inr x7, w7)"
    using andthen_returns [OF c [unfolded classify_ad_segments_def]] by blast
  from assms [OF this] check_returns [OF h] cancelled_returns [OF k] show "returns (\<lambda>_ _. False) (k w9)" by simp
qed

lemma failed_block_unpublished:
  assumes "\<And>ss v x v'. pe_classify env ss v = (Inr x, v') \<Longrightarrow>
      fst (call_counts cfg pid (pw_db v')) > 0 \<and> snd (call_counts cfg pid (pw_db v')) = 0"
    and t: "transcribed_from env jid w t" and v: "library_of v = library_of t"
  shows "leaves (unpublished env jid w) (andthen (classify_ad_segments env jid segs) (andthen (raise_if_cancelled jid 3)
      (andthen (check_classification cfg pid) k)) v)"
proof -
  have early: "unpublished env jid w v'" if "library_of v' = library_of t" for v' using that t by (auto simp: unpublished_def)
  obtain c u where c: "classify_ad_segments env jid segs v = (c, u)" by force
  have u: "library_of u = library_of t \<or> classified_from env jid w u"
  proof -
    obtain r v1 where s: "update_status jid ''running'' (Some 3) ''Identifying ads'' (Some 75) None v = (r, v1)" by force
    have v1: "library_of v1 = library_of t" using library_update_status [OF v, where jid = jid and st = "''running''" and step = "Some 3"
        and nm = "''Identifying ads''" and prog = "Some 75" and tot = None] by (simp add: s)
    show ?thesis
    proof (cases r)
      case (Inl e)
      then show ?thesis using c s v1 by (simp add: classify_ad_segments_def andthen_def bnd_def)
    next
      case (Inr x)
      then have "pe_classify env segs v1 = (c, u)" using c s by (simp add: classify_ad_segments_def andthen_def bnd_def)
      then show ?thesis using t v1 by (auto simp: classified_from_def)
    qed
  qed
  have uu: "unpublished env jid w v'" if "library_of v' = library_of u" for v'
    using u
  proof
    assume "library_of u = library_of t"
    with that show ?thesis by (intro early) simp
  next
    assume "classified_from env jid w u"
    with that show ?thesis unfolding unpublished_def by blast
  qed
  show ?thesis
  proof (rule leaves_andthen_then [where P = "\<lambda>v'. v' = u"])
    show "leaves (\<lambda>v'. v' = u) (classify_ad_segments env jid segs v)" by (simp add: c)
    show "unpublished env jid w v'" if "v' = u" for v' using uu that by simp
    fix x v'
    assume r: "classify_ad_segments env jid segs v = (Inr x, v')" and "v' = u"
    show "leaves (unpublished env jid w) (andthen (raise_if_cancelled jid 3) (andthen (check_classification cfg pid) k) v')"
    proof (rule leaves_andthen_then [where P = "\<lambda>v. library_of v = library_of u"])
      show "same_library u (raise_if_cancelled jid 3 v')" using \<open>v' = u\<close> by (intro library_cancelled) simp
      show "unpublished env jid w v" if "library_of v = library_of u" for v using uu that .
      fix y v2
      assume y: "raise_if_cancelled jid 3 v' = (Inr y, v2)" and "library_of v2 = library_of u"
      then have v2: "v2 = u" using cancelled_returns [OF y] \<open>v' = u\<close> by simp
      show "leaves (unpublished env jid w) (andthen (check_classification cfg pid) k v2)"
      proof (rule leaves_andthen_then [where P = "\<lambda>v. library_of v = library_of u"])
        show "same_library u (check_classification cfg pid v2)" using v2 by (intro library_check) simp
        show "unpublished env jid w v" if "library_of v = library_of u" for v using uu that .
        fix z v3
        assume z: "check_classification cfg pid v2 = (Inr z, v3)"
        obtain q where "pe_classify env segs q = (Inr x, v')" using andthen_returns [OF r [unfolded classify_ad_segments_def]] by blast
        from assms(1) [OF this] check_returns [OF z] v2 \<open>v' = u\<close>
        show "leaves (unpublished env jid w) (k v3)" by simp
      qed
    qed
  qed
qed

definition after_transcription :: "proc_env \<Rightarrow> string \<Rightarrow> proc_world \<Rightarrow> proc_world \<Rightarrow> bool" where
  "after_transcription env jid w v \<longleftrightarrow> (\<exists>t. transcribed_from env jid w t \<and> library_of v = library_of t)"

lemma unpublished_early: "library_of v = library_of w \<Longrightarrow> unpublished env jid w v" "after_transcription env jid w v \<Longrightarrow> unpublished env jid w v"
  by (auto simp: unpublished_def after_transcription_def)

lemma transcription_leaves:
  "library_of v = library_of w \<Longrightarrow> leaves (after_transcription env jid w) (pe_transcribe env a b (on_chunk jid 2 ''Transcribing audio'' 50) v)"
proof -
  assume v: "library_of v = library_of w"
  obtain r u where e: "pe_transcribe env a b (on_chunk jid 2 ''Transcribing audio'' 50) v = (r, u)" by force
  have "transcribed_from env jid w u" unfolding transcribed_from_def using v e by blast
  then show ?thesis by (auto simp: e after_transcription_def)
qed

lemma after_transcription_steps:
  assumes "after_transcription env jid w v"
  shows "leaves (after_transcription env jid w) (raise_if_cancelled jid step v)" "leaves (after_transcription env jid w) (get_post_row pid v)"
proof -
  obtain t where t: "transcribed_from env jid w t" "library_of v = library_of t" using assms by (auto simp: after_transcription_def)
  show "leaves (after_transcription env jid w) (raise_if_cancelled jid step v)"
    using library_cancelled [OF t(2), where jid = jid and step = step] t(1) by (auto simp: leaves_def after_transcription_def)
  show "leaves (after_transcription env jid w) (get_post_row pid v)"
    using library_get_post [OF t(2), where pid = pid] t(1) by (auto simp: leaves_def after_transcription_def)
qed

lemma failed_block_after:
  assumes "\<And>ss v x v'. pe_classify env ss v = (Inr x, v') \<Longrightarrow>
      fst (call_counts cfg pid (pw_db v')) > 0 \<and> snd (call_counts cfg pid (pw_db v')) = 0"
    and "after_transcription env jid w v"
  shows "leaves (unpublished env jid w) (andthen (classify_ad_segments env jid segs) (andthen (raise_if_cancelled jid 3)
      (andthen (check_classification cfg pid) k)) v)"
proof -
  obtain t where "transcribed_from env jid w t" "library_of v = library_of t" using assms(2) by (auto simp: after_transcription_def)
  with assms(1) show ?thesis by (rule failed_block_unpublished)
qed

lemma llm_unpublished:
  assumes "\<And>ss v x v'. pe_classify env ss v = (Inr x, v') \<Longrightarrow>
      fst (call_counts cfg (ep_id ep) (pw_db v')) > 0 \<and> snd (call_counts cfg (ep_id ep) (pw_db v')) = 0"
  shows "leaves (unpublished env jid w) (perform_llm_based_processing cfg env ep jid path tagging w)"
  unfolding perform_llm_based_processing_def Let_def
  apply (rule leaves_bnd_then [where P = "\<lambda>v. library_of v = library_of w"], rule library_get_post [OF refl], erule unpublished_early(1))
  apply (split prod.split, intro allI impI)
  apply (rule leaves_andthen_then [where P = "\<lambda>v. library_of v = library_of w"], erule library_update_status, erule unpublished_early(1))
  apply (rule leaves_bnd_then [where P = "after_transcription env jid w"], erule transcription_leaves, erule unpublished_early(2))
  apply (split prod.split, intro allI impI)
  apply (rule leaves_andthen_then [where P = "after_transcription env jid w"], erule after_transcription_steps(1), erule unpublished_early(2))
  apply (rule leaves_bnd_then [where P = "after_transcription env jid w"], erule after_transcription_steps(2), erule unpublished_early(2))
  apply (rule failed_block_after)
   apply (erule assms)
  apply assumption
  done

text \<open>C29.  When every call of the model failed, the run of the model strategy fails, and it fails before anything
  is cut or published: the episodes' rows and the files are those the run started with, or those that the
  transcription or the classification left.\<close>

theorem failed_classification_fails_the_run:
  assumes "\<And>ss v x v'. pe_classify env ss v = (Inr x, v') \<Longrightarrow>
      fst (call_counts cfg (ep_id ep) (pw_db v')) > 0 \<and> snd (call_counts cfg (ep_id ep) (pw_db v')) = 0"
  shows "\<exists>e w'. perform_llm_based_processing cfg env ep jid path tagging w = (Inl e, w') \<and>
    (library_of w' = library_of w \<or>
     (\<exists>u. library_of w' = library_of u \<and> (transcribed_from env jid w u \<or> classified_from env jid w u)))"
proof -
  have "returns (\<lambda>_ _. False) (perform_llm_based_processing cfg env ep jid path tagging w)"
    unfolding perform_llm_based_processing_def Let_def
    by (rule returns_bnd, split prod.split, intro allI impI, rule returns_andthen, rule returns_bnd, split prod.split,
        intro allI impI, rule returns_andthen, rule returns_bnd, rule failed_block_raises [OF assms])
  then obtain e w' where run: "perform_llm_based_processing cfg env ep jid path tagging w = (Inl e, w')"
    by (auto simp: returns_def split: prod.splits sum.splits)
  have "leaves (unpublished env jid w) (perform_llm_based_processing cfg env ep jid path tagging w)"
    by (rule llm_unpublished [OF assms])
  then show ?thesis using run by (auto simp: unpublished_def)
qed

definition failed_call :: call_row where
  "failed_call = \<lparr>call_row.mc_id = 1, mc_post = 1, mc_model = ''m'', mc_first = 0, mc_last = 0, mc_prompt = [], call_row.mc_status = ''failed_permanent'',
     mc_retries = 1, mc_error = Some ''quota'', mc_response = None, mc_time = 0\<rparr>"

definition failing_env :: proc_env where
  "failing_env = calm_env\<lparr>pe_classify := (\<lambda>_ w. (Inr (), on_pw (\<lambda>db. db\<lparr>m_calls := [failed_call]\<rparr>) w))\<rparr>"

theorem failed_classification_fails_the_run_witness:
  "\<exists>e w'. perform_llm_based_processing sample_config failing_env (sample_episode ''llm'') ''j'' ''/srv/f/a.mp3'' False sample_world = (Inl e, w') \<and>
    (library_of w' = library_of sample_world \<or> (\<exists>u. library_of w' = library_of u \<and>
      (transcribed_from failing_env ''j'' sample_world u \<or> classified_from failing_env ''j'' sample_world u)))"
  by (rule failed_classification_fails_the_run)
    (auto simp: failing_env_def calm_env_def call_counts_def classifier_calls_def on_pw_def failed_call_def sample_config_def sample_episode_def)

section \<open>The retry of an empty classification\<close>

abbreviation map_job :: "string \<Rightarrow> (job \<Rightarrow> job) \<Rightarrow> job list \<Rightarrow> job list" where
  "map_job jid f \<equiv> map (\<lambda>j. if job_id j = jid then f j else j)"

lemma job_action_update_existing:
  "m_jobs (pw_db (job_action (update_existing jid f) w)) = map_job jid f (m_jobs (pw_db w))"
  by (auto simp: job_action_def on_jobs_def update_existing_def find_job_def modify_job_def find_None_iff jobs_view_def
      intro!: map_idI [symmetric] split: option.splits)

lemma find_map_job:
  "(\<And>j. job_id (f j) = job_id j) \<Longrightarrow> find (\<lambda>j. job_id j = jid) (map_job jid f js) = map_option f (find (\<lambda>j. job_id j = jid) js)"
  by (induction js) auto

lemma job_row_map_job:
  assumes "\<And>j. job_id (f j) = job_id j" and "m_jobs (pw_db w') = map_job jid f (m_jobs (pw_db w))"
  shows "job_row jid (pw_db w') = map_option f (job_row jid (pw_db w))"
  unfolding job_row_def assms(2) by (rule find_map_job [OF assms(1)])

lemma job_action_suppress [simp]: "pw_suppress (job_action a w) = pw_suppress w"
  by (simp add: job_action_def)

lemma job_action_create:
  "m_jobs (pw_db (job_action (create_job_action (Some (retry_job i g rid now)) now) w)) = m_jobs (pw_db w)
   \<or> (\<exists>n. m_jobs (pw_db (job_action (create_job_action (Some (retry_job i g rid now)) now) w)) = m_jobs (pw_db w) @ [n]
        \<and> job_id n = i \<and> post_guid n = g \<and> run_id n = rid \<and> status n = ''pending'' \<and> auto_retry_attempted n)"
  by (simp add: job_action_def on_jobs_def create_job_action_def Let_def job_frame jobs_view_def split: sum.split)
    (simp add: retry_job_def)

lemma find_append_Some: "find P xs = Some x \<Longrightarrow> find P (xs @ ys) = Some x"
  by (induction xs) (auto split: if_splits)

lemma zero_ads_guard_cases:
  fixes jid
  defines "keepid \<equiv> \<lambda>f. \<forall>j. job_id (f j) = job_id j \<and> auto_retry_attempted (f j) = auto_retry_attempted j \<and> run_id (f j) = run_id j"
  obtains f where "keepid f" "m_jobs (pw_db (evaluate_zero_ads_guard cfg env ep jid ads pe w)) = map_job jid f (m_jobs (pw_db w))"
    "pw_suppress (evaluate_zero_ads_guard cfg env ep jid ads pe w) = pw_suppress w"
  | f j v new where "keepid f" "ads = 0" "pe" "ep_strategy ep = ''llm''" "pc_auto_retry cfg" "job_row jid (pw_db w) = Some j" "\<not> auto_retry_attempted j"
    "m_jobs (pw_db v) = map_job jid (\<lambda>j. f j\<lparr>auto_retry_attempted := True\<rparr>) (m_jobs (pw_db w))" "pw_suppress v = Some (ep_guid ep)"
    "evaluate_zero_ads_guard cfg env ep jid ads pe w = job_action (create_job_action (Some (retry_job new (ep_guid ep) (run_id j) (pw_now v))) (pw_now v)) v"
proof -
  define w1 where "w1 = job_action (record_ad_windows_count_action jid (Some (int ads))) w"
  define w2 where "w2 = (if pe then job_action (mark_classification_parse_error_action jid) w1 else w1)"
  have j1: "m_jobs (pw_db w1) = map_job jid (\<lambda>j. j\<lparr>ad_windows_count := Some (int ads)\<rparr>) (m_jobs (pw_db w))"
    by (simp add: w1_def record_ad_windows_count_action_def job_action_update_existing)
  obtain f where f: "keepid f" "m_jobs (pw_db w2) = map_job jid f (m_jobs (pw_db w))"
  proof
    show "keepid (\<lambda>j. (if pe then had_classification_parse_error_update (\<lambda>_. True) else id) (j\<lparr>ad_windows_count := Some (int ads)\<rparr>))"
      by (simp add: keepid_def)
    show "m_jobs (pw_db w2) = map_job jid (\<lambda>j. (if pe then had_classification_parse_error_update (\<lambda>_. True) else id) (j\<lparr>ad_windows_count := Some (int ads)\<rparr>)) (m_jobs (pw_db w))"
      by (auto simp: w2_def mark_classification_parse_error_action_def job_action_update_existing j1)
  qed
  have s2: "pw_suppress w2 = pw_suppress w" by (simp add: w2_def w1_def)
  show thesis
  proof (cases "ads > 0 \<or> ep_strategy ep \<noteq> ''llm'' \<or> \<not> pe \<or> (case job_row jid (pw_db w2) of None \<Rightarrow> True | Some j \<Rightarrow> auto_retry_attempted j \<or> \<not> pc_auto_retry cfg)")
    case True
    then have "evaluate_zero_ads_guard cfg env ep jid ads pe w = w2"
      by (auto simp: evaluate_zero_ads_guard_def Let_def w1_def w2_def split: option.splits)
    with f s2 show thesis by (intro that(1)) auto
  next
    case False
    then obtain j2 where j2: "job_row jid (pw_db w2) = Some j2" "\<not> auto_retry_attempted j2" "pc_auto_retry cfg"
      by (auto split: option.splits)
    from job_row_map_job [OF _ f(2)] f(1) j2 obtain j where j: "job_row jid (pw_db w) = Some j" "j2 = f j"
      by (cases "job_row jid (pw_db w)") (auto simp: keepid_def)
    define v where "v = job_action (mark_auto_retry_attempted_action jid) (w2\<lparr>pw_suppress := Some (ep_guid ep)\<rparr>)"
    have "m_jobs (pw_db v) = map_job jid (\<lambda>j. f j\<lparr>auto_retry_attempted := True\<rparr>) (m_jobs (pw_db w))"
      using f(1) by (auto simp: v_def mark_auto_retry_attempted_action_def job_action_update_existing f(2) keepid_def)
    moreover have "evaluate_zero_ads_guard cfg env ep jid ads pe w =
        job_action (create_job_action (Some (retry_job (pe_new_job env v) (ep_guid ep) (run_id j) (pw_now v))) (pw_now v)) v"
      unfolding evaluate_zero_ads_guard_def Let_def w1_def [symmetric] w2_def [symmetric]
      using False j2 j f(1) by (simp add: v_def [symmetric] keepid_def)
    moreover have "pw_suppress v = Some (ep_guid ep)" by (simp add: v_def)
    ultimately show thesis using False f(1) j j2 by (intro that(2) [of f j v "pe_new_job env v"]) (auto simp: keepid_def)
  qed
qed

text \<open>C28.  The retry of a classification that found nothing happens once.  A job is added only by a run of the
  model strategy that found no ad and had an unreadable answer, with the retry configured, for a job
  that was not retried before; it is a pending job of the same episode and the same run which is
  itself marked as retried, the job of the run is marked too, and the source file is spared; and
  evaluating the guard again, whatever was found then, for this job or for the added one, adds nothing.\<close>

theorem zero_ads_retry_happens_once:
  assumes "length (m_jobs (pw_db (evaluate_zero_ads_guard cfg env ep jid ads pe w))) \<noteq> length (m_jobs (pw_db w))"
  defines "w' \<equiv> evaluate_zero_ads_guard cfg env ep jid ads pe w"
  shows "ads = 0 \<and> pe \<and> ep_strategy ep = ''llm'' \<and> pc_auto_retry cfg \<and> pw_suppress w' = Some (ep_guid ep)
    \<and> (\<exists>j. job_row jid (pw_db w) = Some j \<and> \<not> auto_retry_attempted j
        \<and> (\<exists>js n. m_jobs (pw_db w') = js @ [n] \<and> length js = length (m_jobs (pw_db w))
              \<and> post_guid n = ep_guid ep \<and> run_id n = run_id j \<and> status n = ''pending'' \<and> auto_retry_attempted n))
    \<and> (\<exists>k. job_row jid (pw_db w') = Some k \<and> auto_retry_attempted k)
    \<and> length (m_jobs (pw_db (evaluate_zero_ads_guard cfg env ep jid ads' pe' w'))) = length (m_jobs (pw_db w'))"
  using zero_ads_guard_cases [of cfg env ep jid ads pe w]
proof cases
  case (1 f)
  then show ?thesis using assms(1) by simp
next
  case (2 f j v new)
  let ?f = "\<lambda>j. f j\<lparr>auto_retry_attempted := True\<rparr>"
  have row: "job_row jid (pw_db v) = Some (?f j)"
    using job_row_map_job [where f = ?f, OF _ 2(8)] 2(1,6) by simp
  have l: "length (m_jobs (pw_db v)) = length (m_jobs (pw_db w))" by (simp add: 2(8))
  from job_action_create [of new "ep_guid ep" "run_id j" "pw_now v" v] obtain n where
    n: "m_jobs (pw_db w') = m_jobs (pw_db v) @ [n]" "post_guid n = ep_guid ep" "run_id n = run_id j" "status n = ''pending''" "auto_retry_attempted n"
    using assms(1) l by (auto simp: w'_def 2(10))
  have k: "job_row jid (pw_db w') = Some (?f j)"
    using row unfolding job_row_def n(1) by (rule find_append_Some)
  have again: "length (m_jobs (pw_db (evaluate_zero_ads_guard cfg env ep jid ads' pe' w'))) = length (m_jobs (pw_db w'))"
      proof (cases rule: zero_ads_guard_cases [of cfg env ep jid ads' pe' w'])
    case (1 h)
    then show ?thesis by simp
  next
    case (2 h i)
    from 2(6) k have "auto_retry_attempted i" by auto
    with 2(7) show ?thesis ..
  qed
  have "pw_suppress w' = Some (ep_guid ep)" by (simp add: w'_def 2(9,10))
  moreover have "\<exists>j. job_row jid (pw_db w) = Some j \<and> \<not> auto_retry_attempted j
        \<and> (\<exists>js n. m_jobs (pw_db w') = js @ [n] \<and> length js = length (m_jobs (pw_db w))
              \<and> post_guid n = ep_guid ep \<and> run_id n = run_id j \<and> status n = ''pending'' \<and> auto_retry_attempted n)"
    using 2(6,7) n l by metis
  moreover have "\<exists>k. job_row jid (pw_db w') = Some k \<and> auto_retry_attempted k"
    by (intro exI conjI, rule k) simp
  ultimately show ?thesis using 2(2-5) again by (intro conjI)
qed

theorem zero_ads_retry_happens_once_witness:
  "length (m_jobs (pw_db (evaluate_zero_ads_guard sample_config calm_env (sample_episode ''llm'') ''j'' 0 True
     (evaluate_zero_ads_guard sample_config calm_env (sample_episode ''llm'') ''j'' 0 True sample_world)))) = 2"
proof -
  have l: "length (m_jobs (pw_db (evaluate_zero_ads_guard sample_config calm_env (sample_episode ''llm'') ''j'' 0 True sample_world))) = 2"
    and l1: "length (m_jobs (pw_db sample_world)) = 1" by code_simp+
  have "length (m_jobs (pw_db (evaluate_zero_ads_guard sample_config calm_env (sample_episode ''llm'') ''j'' 0 True sample_world)))
    \<noteq> length (m_jobs (pw_db sample_world))" unfolding l l1 by simp
  from zero_ads_retry_happens_once [OF this, where ads' = 0 and pe' = True, THEN conjunct2, THEN conjunct2, THEN conjunct2, THEN conjunct2,
      THEN conjunct2, THEN conjunct2, THEN conjunct2]
  show ?thesis unfolding l .
qed

section \<open>The source file\<close>

lemma complete_status_put: "complete_status jid nm w = (Inr u, w') \<Longrightarrow> \<exists>v. w' = on_pw (put_jobs v) w"
  by (auto simp: complete_status_def bnd_def get_job_row_def split: option.splits elim!: update_status_Inr)

text \<open>A run that ends keeps the source file for a retry only: when the guard asked for one, the file and
  the path on the post are kept (and the request is consumed), otherwise the file is removed if it can
  be and the post forgets it; no other file is touched.\<close>

theorem source_file_is_kept_for_a_retry_only:
  assumes "finalize_processing env ep jid path chapter_data bleeps removed od w = (Inr (), w')" and "find_post (pw_db w) (ep_id ep) = Some p"
  shows "pw_suppress w' \<noteq> Some (ep_guid ep)
    \<and> (\<exists>q. find_post (pw_db w') (ep_id ep) = Some q \<and> pm_processed q = Some path
         \<and> pm_unprocessed q = (if pw_suppress w = Some (ep_guid ep) \<and> given (pm_unprocessed p) then pm_unprocessed p else None))
    \<and> m_files (pw_db w') = (if pw_suppress w = Some (ep_guid ep) then m_files (pw_db w)
        else filter (\<lambda>f. \<not> (given (pm_unprocessed p) \<and> pm_unprocessed p = Some f \<and> pe_removable env f)) (m_files (pw_db w)))"
proof -
  define w1 where "w1 = remove_unprocessed_audio env ep (pm_unprocessed p) w"
  have files: "m_files (pw_db w1) = (if pw_suppress w = Some (ep_guid ep) then m_files (pw_db w)
        else filter (\<lambda>f. \<not> (given (pm_unprocessed p) \<and> pm_unprocessed p = Some f \<and> pe_removable env f)) (m_files (pw_db w)))"
    by (auto simp: w1_def remove_unprocessed_audio_def remove_file_def on_pw_def given_def removeAll_filter_not_eq intro!: filter_cong split: option.splits)
  have s1: "pw_suppress w1 = (if pw_suppress w = Some (ep_guid ep) then None else pw_suppress w)"
    by (simp add: w1_def remove_unprocessed_audio_def remove_file_def)
  have p1: "find_post (pw_db w1) = find_post (pw_db w)"
    by (rule ext) (simp add: w1_def remove_unprocessed_audio_def remove_file_def find_post_def)
  note eq = assms(1) [unfolded finalize_processing_def bnd_def get_post_row_def Let_def assms(2) option.simps prod.case sum.case,
    folded w1_def]
  obtain f where f: "\<forall>q. pm_id (f q) = pm_id q" "pm_processed (f p) = Some path"
      "pm_unprocessed (f p) = (if pw_suppress w = Some (ep_guid ep) \<and> given (pm_unprocessed p) then pm_unprocessed p else None)"
    and a: "andthen (update_post (ep_id ep) f) (complete_status jid ''Processing complete'') w1 = (Inr (), w')"
    by (rule that [rotated 3, OF eq]) simp_all
  from andthen_returns [OF a] obtain w2 where u: "update_post (ep_id ep) f w1 = (Inr (), w2)"
    and c: "complete_status jid ''Processing complete'' w2 = (Inr (), w')" by auto
  from c obtain v where w': "w' = on_pw (put_jobs v) w2" using complete_status_put by blast
  have w2: "w2 = on_pw (modify_post (ep_id ep) f) w1" using u assms(2) by (simp add: update_post_def p1)
  have "find_post (pw_db w') (ep_id ep) = Some (f p)"
    using post_after_modify [OF f(1)] find_post_id [OF assms(2)] assms(2) by (simp add: w' w2 p1)
  then show ?thesis using f(2,3) s1 files by (auto simp: w' w2 modify_post_def)
qed

theorem source_file_is_kept_for_a_retry_only_witness:
  "pw_suppress (snd (finalize_processing calm_env (sample_episode ''llm'') ''j'' ''/srv/f/a.mp3'' None None None None
      (sample_world\<lparr>pw_suppress := Some ''g''\<rparr>))) \<noteq> Some ''g''
   \<and> m_files (pw_db (snd (finalize_processing calm_env (sample_episode ''llm'') ''j'' ''/srv/f/a.mp3'' None None None None
      (sample_world\<lparr>pw_suppress := Some ''g''\<rparr>)))) = [''/in/a.mp3'']"
proof -
  let ?w = "sample_world\<lparr>pw_suppress := Some ''g''\<rparr>"
  let ?r = "finalize_processing calm_env (sample_episode ''llm'') ''j'' ''/srv/f/a.mp3'' None None None None ?w"
  have f: "fst ?r = Inr ()" by code_simp
  have r: "?r = (Inr (), snd ?r)" by (rule prod_eqI) (simp only: f fst_conv, simp only: snd_conv)
  have i: "ep_id (sample_episode ''llm'') = 1" "ep_guid (sample_episode ''llm'') = ''g''" by (simp_all add: sample_episode_def)
  have p: "find_post (pw_db ?w) (ep_id (sample_episode ''llm'')) = Some sample_post" by code_simp
  have s: "pw_suppress ?w = Some ''g''" "m_files (pw_db ?w) = [''/in/a.mp3'']" by (simp_all add: sample_world_def)
  from source_file_is_kept_for_a_retry_only [OF r p] show ?thesis unfolding i s by simp
qed

section \<open>What a failure reports\<close>

text \<open>A failure is reported at the step the job had when the run began, not at the one that failed: an
  episode without chapters fails while its chapters are read, and the notification, like the row of
  the job, says it failed while queued.\<close>

theorem failures_name_the_step_of_the_start:
  "pw_notes (snd (process_job sample_config calm_env (sample_episode ''chapter'') ''j'' sample_world))
     = [NotifyFailed (Some ''Queued'') ''No chapters found'']
   \<and> map_option current_step (job_row ''j'' (pw_db (snd (process_job sample_config calm_env (sample_episode ''chapter'') ''j'' sample_world))))
     = Some (Some 0)
   \<and> map_option current_step (job_row ''j'' (pw_db (snd (perform_chapter_based_processing sample_config calm_env (sample_episode ''chapter'') ''j''
         ''/srv/f/a.mp3'' sample_world)))) = Some (Some 2)"
  by (intro conjI; code_simp)

end
