(* ===== verification/FallbackChapters.thy ===== *)
theory FallbackChapters
  imports DescChapters WordBoundary ProcessorParts PostStore
begin

text \<open>
  Chapters of an episode that brings none, first part: the chain of sources, the split of a transcript
  into long stretches, and the refinement of chapter starts against the words of the transcript
  (\<open>src/podcast_processor/chapter_fallback.py\<close>).  The segments are the rows of the transcript;
  the embedded chapters of a file and \<open>html.unescape\<close> are arguments.  Logging is left out.
\<close>

section \<open>Times and titles\<close>

definition seg_start_ms :: "segment_row \<Rightarrow> millis" where
  "seg_start_ms s = py_int (sg_start s * 1000)"

definition seg_end_ms :: "segment_row \<Rightarrow> millis" where
  "seg_end_ms s = py_int (sg_end s * 1000)"

definition transcript_duration_ms :: "segment_row list \<Rightarrow> millis option" where
  "transcript_duration_ms segs =
     (if segs = [] then None
      else (let m = fold max (map seg_end_ms (tl segs)) (seg_end_ms (hd segs)) in if m > 0 then Some m else None))"

definition squeeze_spaces :: "string \<Rightarrow> string" where
  "squeeze_spaces s = py_strip (re_sub (Plus space_re) '' '' s)"

definition strip_chars :: "string \<Rightarrow> string \<Rightarrow> string" where
  "strip_chars cs s = rev (dropWhile (\<lambda>c. c \<in> set cs) (rev (dropWhile (\<lambda>c. c \<in> set cs) s)))"

definition chapter_title_from_text :: "string \<Rightarrow> nat \<Rightarrow> string" where
  "chapter_title_from_text txt index =
     (let numbered_title = ''Chapter '' @ nat_str index;
          normalized = re_sub (Seq Bos (Plus (Cls (\<lambda>c. \<not> word_char c)))) [] (squeeze_spaces txt) in
      if normalized = [] then numbered_title
      else (let ws = split_on CHR '' '' normalized; title = strip_chars '' -:,.'' (join_with '' '' (take 8 ws)) in
        if title = [] then numbered_title
        else if length ws > 8 then title @ ''...'' else title))"

definition chapter_title_from_segment :: "segment_row \<Rightarrow> nat \<Rightarrow> string" where
  "chapter_title_from_segment s = chapter_title_from_text (sg_text s)"

section \<open>Chapters from the transcript's times\<close>

text \<open>The starts and titles after the first, \<open>current\<close> being the latest start.\<close>

fun later_boundaries :: "int \<Rightarrow> int \<Rightarrow> millis \<Rightarrow> millis \<Rightarrow> nat \<Rightarrow> segment_row list \<Rightarrow> (millis \<times> string) list" where
  "later_boundaries target min_rest whole current n [] = []"
| "later_boundaries target min_rest whole current n (s # ss) =
     (let start = seg_start_ms s; elapsed = real_of_int (start - current) / 1000;
          remaining = max 0 (real_of_int (whole - start) / 1000) in
      if elapsed < real_of_int target then later_boundaries target min_rest whole current n ss
      else if remaining \<noteq> 0 \<and> remaining < real_of_int min_rest then later_boundaries target min_rest whole current n ss
      else if start \<le> current then later_boundaries target min_rest whole current n ss
      else (start, chapter_title_from_segment s (n + 1)) # later_boundaries target min_rest whole start (n + 1) ss)"

fun chapters_of_boundaries :: "nat \<Rightarrow> millis \<Rightarrow> (millis \<times> string) list \<Rightarrow> episode_chapter list" where
  "chapters_of_boundaries i whole [] = []"
| "chapters_of_boundaries i whole ((start, title) # bs) =
     (let stop = (case bs of [] \<Rightarrow> whole | b # _ \<Rightarrow> fst b) in
      mk_chapter (''gen'' @ nat_str i) title start (max start stop) # chapters_of_boundaries (i + 1) whole bs)"

definition generate_chapters_from_transcript ::
  "int \<Rightarrow> int \<Rightarrow> segment_row list \<Rightarrow> millis option \<Rightarrow> episode_chapter list" where
  "generate_chapters_from_transcript target min_rest segs total_duration =
     (if segs = [] then []
      else (let sorted_segs = sort_key seg_start_ms segs in
        case (case total_duration of None \<Rightarrow> transcript_duration_ms sorted_segs | Some t \<Rightarrow> Some t) of
          None \<Rightarrow> []
        | Some whole \<Rightarrow>
            (let s = hd sorted_segs in
             chapters_of_boundaries 0 whole ((seg_start_ms s, chapter_title_from_segment s 1)
               # later_boundaries target min_rest whole (seg_start_ms s) 1 (tl sorted_segs)))))"

text \<open>The chain of sources; \<open>None\<close> where the description's parser raises.\<close>

definition resolve_llm_path_chapters ::
  "(string \<Rightarrow> episode_chapter list) \<Rightarrow> (string \<Rightarrow> string) \<Rightarrow> string option \<Rightarrow> string option \<Rightarrow> segment_row list \<Rightarrow>
   (episode_chapter list \<times> string) option" where
  "resolve_llm_path_chapters embedded html_unescape path description segs =
     (let found = (if given path then embedded (the path) else []) in
      if found \<noteq> [] then Some (found, ''embedded'')
      else (let whole = transcript_duration_ms segs in
        case parse_chapters_from_description html_unescape description whole 2 of
          None \<Rightarrow> None
        | Some parsed \<Rightarrow>
            if parsed \<noteq> [] then Some (parsed, ''description'')
            else (let generated = generate_chapters_from_transcript (8 * 60) (3 * 60) segs whole in
              if generated \<noteq> [] then Some (generated, ''transcript'') else Some ([], ''none''))))"

section \<open>Segments for the word refiner\<close>

definition timed_of :: "saved_word \<Rightarrow> timed_word" where
  "timed_of w = \<lparr>tw_word = Some (sv_word w), tw_start = sv_start w, tw_end = sv_end w\<rparr>"

definition segments_for_word_refiner :: "word_map option \<Rightarrow> segment_row list \<Rightarrow> wb_segment list" where
  "segments_for_word_refiner words segs =
     map (\<lambda>s. \<lparr>wb_seq = sg_num s, wb_start = sg_start s, wb_end = max (sg_start s) (sg_end s), wb_text = sg_text s,
         wb_words = (case (case words of None \<Rightarrow> None | Some m \<Rightarrow> map_of m (sg_num s)) of
             None \<Rightarrow> None
           | Some ws \<Rightarrow> if ws = [] then None else Some (map timed_of ws))\<rparr>)
       (sort_key seg_start_ms segs)"

text \<open>\<open>bisect.bisect_right\<close>.\<close>

function bisect_from :: "'a::linorder list \<Rightarrow> 'a \<Rightarrow> nat \<Rightarrow> nat \<Rightarrow> nat" where
  "bisect_from xs x lo hi =
     (if lo < hi then (let mid = (lo + hi) div 2 in
        if x < xs ! mid then bisect_from xs x lo mid else bisect_from xs x (mid + 1) hi)
      else lo)"
  by pat_completeness auto
termination by (relation "measure (\<lambda>(xs, x, lo, hi). hi - lo)") auto

declare bisect_from.simps [simp del]

definition bisect_right :: "'a::linorder list \<Rightarrow> 'a \<Rightarrow> nat" where
  "bisect_right xs x = bisect_from xs x 0 (length xs)"

definition edge_distance :: "real \<Rightarrow> wb_segment \<Rightarrow> real" where
  "edge_distance t s = min \<bar>t - wb_start s\<bar> \<bar>t - wb_end s\<bar>"

definition nearest_segment_seq_for_time :: "wb_segment list \<Rightarrow> millis \<Rightarrow> int option" where
  "nearest_segment_seq_for_time segs time_ms =
     (if segs = [] then None
      else (let t = real_of_int time_ms / 1000; i = bisect_right (map wb_start segs) t in
        if i > 0 \<and> wb_start (segs ! (i - 1)) \<le> t \<and> t \<le> wb_end (segs ! (i - 1)) then Some (wb_seq (segs ! (i - 1)))
        else if i = 0 then Some (wb_seq (segs ! 0))
        else if i < length segs \<and> edge_distance t (segs ! i) < edge_distance t (segs ! (i - 1)) then Some (wb_seq (segs ! i))
        else Some (wb_seq (segs ! (i - 1)))))"

fun walk_left :: "wb_segment list \<Rightarrow> real \<Rightarrow> nat \<Rightarrow> nat" where
  "walk_left segs start 0 = 0"
| "walk_left segs start (Suc n) = (if wb_end (segs ! n) \<ge> start then walk_left segs start n else Suc n)"

definition context_segments_around_time :: "wb_segment list \<Rightarrow> real \<Rightarrow> real \<Rightarrow> wb_segment list" where
  "context_segments_around_time segs t window =
     (if segs = [] then []
      else (let w = max 0 window; right = bisect_right (map wb_start segs) (t + w); left = walk_left segs (t - w) right;
                selected = drop left (take right segs) in
        if selected = [] then [segs ! 0] else selected))"

section \<open>Refined starts\<close>

fun adjusted_starts :: "millis option \<Rightarrow> millis list \<Rightarrow> millis list \<Rightarrow> millis list" where
  "adjusted_starts prev (orig # os) (c # cs) =
     (let start = (case prev of
          None \<Rightarrow> max c 0
        | Some p \<Rightarrow> if c \<le> p then (if orig \<le> p then p + 1 else orig) else c) in
      start # adjusted_starts (Some start) os cs)"
| "adjusted_starts prev _ _ = []"

fun retimed :: "episode_chapter list \<Rightarrow> millis list \<Rightarrow> episode_chapter list" where
  "retimed (c # cs) (start # starts) =
     (let stop = (case starts of [] \<Rightarrow> max start (end_time_ms c) | next_start # _ \<Rightarrow> max start next_start) in
      mk_chapter (element_id c) (chapter_title c) start stop # retimed cs starts)"
| "retimed _ _ = []"

definition assemble_refined_chapters :: "episode_chapter list \<Rightarrow> millis list \<Rightarrow> episode_chapter list" where
  "assemble_refined_chapters cs candidates = retimed cs (adjusted_starts None (map start_time_ms cs) candidates)"

definition max_shift_of :: "real \<Rightarrow> millis" where
  "max_shift_of seconds = max 0 (py_int (seconds * 1000))"

definition within_shift :: "millis \<Rightarrow> millis \<Rightarrow> real option \<Rightarrow> millis" where
  "within_shift shift orig estimated =
     (case estimated of
        None \<Rightarrow> orig
      | Some t \<Rightarrow> (let candidate_ms = py_round (t * 1000) in if \<bar>candidate_ms - orig\<bar> \<le> shift then candidate_ms else orig))"

definition description_candidate :: "wb_segment list \<Rightarrow> millis \<Rightarrow> episode_chapter \<Rightarrow> millis" where
  "description_candidate segs shift c =
     (let orig = start_time_ms c;
          seq = (case nearest_segment_seq_for_time segs orig of None \<Rightarrow> JNull | Some n \<Rightarrow> JNum (real_of_int n));
          near = context_segments_around_time segs (real_of_int orig / 1000) 60 in
      within_shift shift orig (estimate_phrase_time (\<lambda>_. []) segs near seq (JStr (chapter_title c)) False))"

definition refine_description_chapters_with_word_refiner ::
  "bool \<Rightarrow> real \<Rightarrow> word_map option \<Rightarrow> episode_chapter list \<Rightarrow> segment_row list \<Rightarrow> episode_chapter list" where
  "refine_description_chapters_with_word_refiner enabled max_shift words cs rows =
     (if cs = [] \<or> rows = [] \<or> \<not> enabled then cs
      else (let segs = segments_for_word_refiner words rows; sorted_cs = sort_key start_time_ms cs in
        assemble_refined_chapters sorted_cs (map (description_candidate segs (max_shift_of max_shift)) sorted_cs)))"

text \<open>Topic chapters are only pulled back, and the first one stays.\<close>

definition transcript_candidate :: "wb_segment list \<Rightarrow> real \<Rightarrow> episode_chapter \<Rightarrow> millis" where
  "transcript_candidate segs max_shift c =
     (let orig = start_time_ms c;
          near = context_segments_around_time segs (real_of_int orig / 1000) (max 60 max_shift) in
      case estimate_phrase_time (\<lambda>_. []) segs near JNull (JStr (chapter_title c)) False of
        None \<Rightarrow> orig
      | Some t \<Rightarrow> (let candidate_ms = py_round (t * 1000) in
          if candidate_ms \<le> orig \<and> orig - candidate_ms \<le> max_shift_of max_shift then candidate_ms else orig))"

definition refine_transcript_chapters_with_word_refiner :: "real \<Rightarrow> episode_chapter list \<Rightarrow> segment_row list \<Rightarrow> episode_chapter list" where
  "refine_transcript_chapters_with_word_refiner max_shift cs rows =
     (if cs = [] \<or> rows = [] then cs
      else (let segs = segments_for_word_refiner None rows; sorted_cs = sort_key start_time_ms cs in
        assemble_refined_chapters sorted_cs
          (start_time_ms (hd sorted_cs) # map (transcript_candidate segs max_shift) (tl sorted_cs))))"

section \<open>The generated chapters\<close>

lemma later_boundaries_spaced:
  assumes "0 < target"
  shows "sorted_wrt (\<lambda>x y. fst x + target * 1000 \<le> fst y) ((current, ttl) # later_boundaries target min_rest whole current n segs)
    \<and> (\<forall>b\<in>set (later_boundaries target min_rest whole current n segs). fst b \<in> seg_start_ms ` set segs)"
proof (induction segs arbitrary: current n ttl)
  case (Cons s ss)
  show ?case
  proof (cases "later_boundaries target min_rest whole current n (s # ss) = later_boundaries target min_rest whole current n ss")
    case True
    then show ?thesis using Cons.IH [where current = current and n = n and ttl = ttl] by (auto simp del: later_boundaries.simps)
  next
    case False
    then have b: "later_boundaries target min_rest whole current n (s # ss)
        = (seg_start_ms s, chapter_title_from_segment s (n + 1)) # later_boundaries target min_rest whole (seg_start_ms s) (n + 1) ss"
      and e: "real_of_int target \<le> real_of_int (seg_start_ms s - current) / 1000"
      by (auto simp: Let_def split: if_splits)
    from e have "target * 1000 \<le> seg_start_ms s - current" by (simp add: field_simps)
    then have g: "current + target * 1000 \<le> seg_start_ms s" by simp
    from Cons.IH [where current = "seg_start_ms s" and n = "n + 1" and ttl = "chapter_title_from_segment s (n + 1)"] g assms
    show ?thesis unfolding b by fastforce
  qed
qed simp

fun tiling :: "millis \<Rightarrow> episode_chapter list \<Rightarrow> bool" where
  "tiling whole [] \<longleftrightarrow> True"
| "tiling whole [c] \<longleftrightarrow> end_time_ms c = max (start_time_ms c) whole"
| "tiling whole (c # d # cs) \<longleftrightarrow> start_time_ms c < start_time_ms d \<and> end_time_ms c = start_time_ms d \<and> tiling whole (d # cs)"

lemma chapters_of_boundaries_starts:
  "map start_time_ms (chapters_of_boundaries i whole bs) = map fst bs"
  "map chapter_title (chapters_of_boundaries i whole bs) = map snd bs"
  by (induction i whole bs rule: chapters_of_boundaries.induct) (auto simp: mk_chapter_def Let_def)

lemma chapters_of_boundaries_tile:
  "sorted_wrt (\<lambda>x y. fst x + d \<le> fst y) bs \<Longrightarrow> 0 < d \<Longrightarrow> tiling whole (chapters_of_boundaries i whole bs)"
proof (induction i whole bs rule: chapters_of_boundaries.induct)
  case (2 i whole start title bs)
  then show ?case by (cases bs) (auto simp: mk_chapter_def Let_def)
qed simp

text \<open>The chapters made from a transcript's times tile it: the first starts with the first segment, each ends
  where the next starts and the last ends with the episode; every chapter starts at the start of a
  segment and lasts at least the target, except that the last one may be shorter.\<close>

theorem generated_chapters_tile_the_transcript:
  fixes whole min_rest :: int
  assumes "segs \<noteq> []" and "0 < target"
  defines "cs \<equiv> generate_chapters_from_transcript target min_rest segs (Some whole)"
  shows "cs \<noteq> [] \<and> tiling whole cs \<and> start_time_ms (hd cs) = Min (seg_start_ms ` set segs)
    \<and> sorted_wrt (\<lambda>c d. start_time_ms c + target * 1000 \<le> start_time_ms d) cs
    \<and> (\<forall>c\<in>set cs. start_time_ms c \<in> seg_start_ms ` set segs)"
proof -
  define ss where "ss = sort_key seg_start_ms segs"
  have set: "set ss = set segs" by (simp add: ss_def)
  with assms(1) have ne: "ss \<noteq> []" by auto
  obtain s rest where ss: "ss = s # rest" using ne by (cases ss) auto
  have rest: "seg_start_ms s \<in> seg_start_ms ` set segs" "seg_start_ms ` set rest \<subseteq> seg_start_ms ` set segs"
    unfolding set [symmetric] ss by auto
  define bs where "bs = (seg_start_ms s, chapter_title_from_segment s 1) # later_boundaries target min_rest whole (seg_start_ms s) 1 rest"
  have cs: "cs = chapters_of_boundaries 0 whole bs"
    using assms(1) ss by (simp add: cs_def generate_chapters_from_transcript_def Let_def bs_def ss_def [symmetric])
  have sp: "sorted_wrt (\<lambda>x y. fst x + target * 1000 \<le> fst y) bs" "\<forall>b\<in>set bs. fst b \<in> seg_start_ms ` set segs"
    using later_boundaries_spaced [OF assms(2), where current = "seg_start_ms s" and n = 1 and segs = rest and min_rest = min_rest and whole = whole]
      rest unfolding bs_def by auto
  have st: "map start_time_ms cs = map fst bs" unfolding cs by (rule chapters_of_boundaries_starts)
  have "sorted (map seg_start_ms ss)" by (simp add: ss_def)
  then have "\<forall>x\<in>set segs. seg_start_ms s \<le> seg_start_ms x" using ss set by auto
  then have "Min (seg_start_ms ` set segs) = seg_start_ms s" using set ss by (intro Min_eqI) auto
  moreover have "cs \<noteq> []" using st by (auto simp: bs_def)
  moreover from this have "start_time_ms (hd cs) = seg_start_ms s" using st by (cases cs) (auto simp: bs_def)
  moreover have "tiling whole cs" unfolding cs using chapters_of_boundaries_tile [OF sp(1)] assms(2) by simp
  moreover have "sorted_wrt (\<lambda>x y. x + target * 1000 \<le> y) (map start_time_ms cs)" unfolding st using sp(1) by (simp add: sorted_wrt_map)
  moreover have "set (map start_time_ms cs) \<subseteq> seg_start_ms ` set segs" unfolding st using sp(2) by auto
  ultimately show ?thesis by (auto simp: sorted_wrt_map)
qed

section \<open>Finding a segment by its time\<close>

lemma bisect_from_spec:
  assumes "sorted xs" and "lo \<le> hi" and "hi \<le> length xs"
    and "\<forall>i < lo. xs ! i \<le> x" and "\<forall>i. hi \<le> i \<and> i < length xs \<longrightarrow> x < xs ! i"
  shows "bisect_from xs x lo hi \<le> length xs \<and> (\<forall>i < bisect_from xs x lo hi. xs ! i \<le> x)
    \<and> (\<forall>i. bisect_from xs x lo hi \<le> i \<and> i < length xs \<longrightarrow> x < xs ! i)"
  using assms
proof (induction xs x lo hi rule: bisect_from.induct)
  case (1 xs x lo hi)
  show ?case
  proof (cases "lo < hi")
    case False
    then have eq: "bisect_from xs x lo hi = lo" by (subst bisect_from.simps) simp
    show ?thesis unfolding eq using 1(3-7) False by auto
  next
    case True
    let ?m = "(lo + hi) div 2"
    have m: "lo \<le> ?m" "?m < hi" "?m < length xs" using True 1(5) by auto
    show ?thesis
    proof (cases "x < xs ! ?m")
      case True2: True
      have "\<forall>i. ?m \<le> i \<and> i < length xs \<longrightarrow> x < xs ! i"
        using True2 1(3) m by (meson le_less_trans less_le_trans sorted_nth_mono)
      moreover have eq: "bisect_from xs x lo hi = bisect_from xs x lo ?m"
        by (subst bisect_from.simps) (use True True2 in \<open>simp add: Let_def\<close>)
      ultimately show ?thesis unfolding eq by (intro 1(1) [OF True refl True2 1(3) m(1)] 1(6)) (use m in linarith)
    next
      case False2: False
      have "\<forall>i < ?m + 1. xs ! i \<le> x"
      proof (intro allI impI)
        fix i assume "i < ?m + 1"
        then have "xs ! i \<le> xs ! ?m" using 1(3) m by (intro sorted_nth_mono) auto
        then show "xs ! i \<le> x" using False2 by simp
      qed
      moreover have eq: "bisect_from xs x lo hi = bisect_from xs x (?m + 1) hi"
        by (subst bisect_from.simps) (use True False2 in \<open>simp add: Let_def\<close>)
      ultimately show ?thesis unfolding eq by (intro 1(2) [OF True refl False2 1(3)] 1(5,7)) (use m in linarith)
    qed
  qed
qed

lemma bisect_right_spec:
  assumes "sorted xs"
  shows "bisect_right xs x \<le> length xs \<and> (\<forall>i < bisect_right xs x. xs ! i \<le> x) \<and> (\<forall>i. bisect_right xs x \<le> i \<and> i < length xs \<longrightarrow> x < xs ! i)"
  unfolding bisect_right_def by (rule bisect_from_spec) (use assms in auto)

definition time_distance :: "real \<Rightarrow> wb_segment \<Rightarrow> real" where
  "time_distance t s = (if wb_start s \<le> t \<and> t \<le> wb_end s then 0 else edge_distance t s)"

definition timeline :: "wb_segment list \<Rightarrow> bool" where
  "timeline segs \<longleftrightarrow> sorted (map wb_start segs) \<and> sorted (map wb_end segs) \<and> (\<forall>s\<in>set segs. wb_start s \<le> wb_end s)"

lemma timeline_nth:
  assumes "timeline segs" and "i \<le> j" and "j < length segs"
  shows "wb_start (segs ! i) \<le> wb_start (segs ! j)" "wb_end (segs ! i) \<le> wb_end (segs ! j)" "wb_start (segs ! j) \<le> wb_end (segs ! j)"
proof -
  have "sorted (map wb_start segs)" "sorted (map wb_end segs)" using assms(1) by (auto simp: timeline_def)
  from sorted_nth_mono [OF this(1), of i j] sorted_nth_mono [OF this(2), of i j] assms(2,3)
  show "wb_start (segs ! i) \<le> wb_start (segs ! j)" "wb_end (segs ! i) \<le> wb_end (segs ! j)" by simp_all
  show "wb_start (segs ! j) \<le> wb_end (segs ! j)" using assms by (simp add: timeline_def)
qed

lemma bisect_starts:
  assumes "timeline segs"
  shows "bisect_right (map wb_start segs) t \<le> length segs"
    "j < bisect_right (map wb_start segs) t \<Longrightarrow> wb_start (segs ! j) \<le> t"
    "bisect_right (map wb_start segs) t \<le> j \<Longrightarrow> j < length segs \<Longrightarrow> t < wb_start (segs ! j)"
proof -
  have "sorted (map wb_start segs)" using assms by (simp add: timeline_def)
  note b = bisect_right_spec [OF this, of t]
  then show "bisect_right (map wb_start segs) t \<le> length segs" by simp
  with b show "wb_start (segs ! j) \<le> t" if "j < bisect_right (map wb_start segs) t"
    using that by (metis length_map nth_map order.strict_trans2)
  from b show "t < wb_start (segs ! j)" if "bisect_right (map wb_start segs) t \<le> j" "j < length segs"
    using that by (metis length_map nth_map)
qed

text \<open>The segment looked up for a time is the nearest one: on a transcript whose starts and ends increase, no
  segment is closer to the time than the one whose number is returned (a segment around the time is at
  distance zero).\<close>

theorem nearest_segment_is_nearest:
  assumes "timeline segs" and "segs \<noteq> []"
  shows "\<exists>s\<in>set segs. nearest_segment_seq_for_time segs ms = Some (wb_seq s)
    \<and> (\<forall>u\<in>set segs. time_distance (real_of_int ms / 1000) s \<le> time_distance (real_of_int ms / 1000) u)"
proof -
  define t where "t = real_of_int ms / 1000"
  define i where "i = bisect_right (map wb_start segs) t"
  note b = bisect_starts [OF assms(1), where t = t, folded i_def]
  have pos: "0 \<le> time_distance t u" for u by (simp add: time_distance_def edge_distance_def)
  have after: "time_distance t (segs ! j) = wb_start (segs ! j) - t" if "i \<le> j" "j < length segs" for j
    using b(3) [OF that] timeline_nth(3) [OF assms(1) order_refl that(2)]
    by (simp add: time_distance_def edge_distance_def)
  have near_after: "time_distance t (segs ! i) \<le> time_distance t (segs ! j)" if "i \<le> j" "j < length segs" for j
    using after [OF order_refl] after [OF that] timeline_nth(1) [OF assms(1) that] that by simp
  have result: ?thesis if "k < length segs" "nearest_segment_seq_for_time segs ms = Some (wb_seq (segs ! k))"
      "\<And>j. j < length segs \<Longrightarrow> time_distance t (segs ! k) \<le> time_distance t (segs ! j)" for k
    using that unfolding t_def by (metis in_set_conv_nth)
  consider (zero) "i = 0" | (around) "i > 0" "t \<le> wb_end (segs ! (i - 1))" | (between) "i > 0" "wb_end (segs ! (i - 1)) < t"
    by linarith
  then show ?thesis
  proof cases
    case zero
    then show ?thesis using assms(2) near_after
      by (intro result [of 0]) (simp_all add: nearest_segment_seq_for_time_def Let_def t_def [symmetric] i_def [symmetric])
  next
    case around
    then have st: "wb_start (segs ! (i - 1)) \<le> t" using b(2) [of "i - 1"] by simp
    then have "time_distance t (segs ! (i - 1)) = 0" using around by (simp add: time_distance_def)
    then show ?thesis using around st b(1) assms(2) pos
      by (intro result [of "i - 1"])
        (simp_all add: nearest_segment_seq_for_time_def Let_def t_def [symmetric] i_def [symmetric])
  next
    case between
    have before: "time_distance t (segs ! j) = t - wb_end (segs ! j)" "wb_end (segs ! j) \<le> wb_end (segs ! (i - 1))" if "j < i" for j
    proof -
      show le: "wb_end (segs ! j) \<le> wb_end (segs ! (i - 1))" using that b(1) by (intro timeline_nth(2) [OF assms(1)]) auto
      have "wb_start (segs ! j) \<le> wb_end (segs ! j)" using that b(1) by (intro timeline_nth(3) [OF assms(1), of j]) auto
      then show "time_distance t (segs ! j) = t - wb_end (segs ! j)" using le between(2)
        by (simp add: time_distance_def edge_distance_def)
    qed
    have e1: "time_distance t (segs ! (i - 1)) = edge_distance t (segs ! (i - 1))" using between(2) by (simp add: time_distance_def)
    have e2: "time_distance t (segs ! i) = edge_distance t (segs ! i)" if "i < length segs" using b(3) [of i] that by (simp add: time_distance_def)
    show ?thesis
    proof (cases "i < length segs \<and> edge_distance t (segs ! i) < edge_distance t (segs ! (i - 1))")
      case True
      have "time_distance t (segs ! i) \<le> time_distance t (segs ! j)" if "j < length segs" for j
      proof (cases "j < i")
        case True2: True
        have "t - wb_end (segs ! (i - 1)) = edge_distance t (segs ! (i - 1))" using before(1) [of "i - 1"] between(1) e1 by simp
        then show ?thesis using before [OF True2] True e2 by linarith
      qed (use near_after that in simp)
      then show ?thesis using True between assms(2)
        by (intro result [of i]) (simp_all add: nearest_segment_seq_for_time_def Let_def t_def [symmetric] i_def [symmetric])
    next
      case False
      have "time_distance t (segs ! (i - 1)) \<le> time_distance t (segs ! j)" if "j < length segs" for j
      proof (cases "j < i")
        case True
        then show ?thesis using before [OF True] before(1) [of "i - 1"] between(1) by simp
      next
        case False2: False
        then have "i < length segs" using that by simp
        then show ?thesis using False e1 e2 near_after [of j] False2 that by linarith
      qed
      then show ?thesis using False between assms(2) b(1)
        by (intro result [of "i - 1"]) (auto simp: nearest_segment_seq_for_time_def Let_def t_def [symmetric] i_def [symmetric])
    qed
  qed
qed

lemma walk_left_spec:
  "walk_left segs start n \<le> n \<and> (\<forall>j. walk_left segs start n \<le> j \<and> j < n \<longrightarrow> start \<le> wb_end (segs ! j))
   \<and> (walk_left segs start n = 0 \<or> wb_end (segs ! (walk_left segs start n - 1)) < start)"
proof (induction n)
  case (Suc n)
  then show ?case by (auto simp: less_Suc_eq)
qed simp

lemma filter_between:
  assumes "l \<le> r" and "r \<le> length xs" and "\<And>j. j < length xs \<Longrightarrow> P (xs ! j) \<longleftrightarrow> l \<le> j \<and> j < r"
  shows "drop l (take r xs) = filter P xs"
proof -
  have split: "xs = take l xs @ drop l (take r xs) @ drop r xs"
    using assms(1,2) by (metis append.assoc append_take_drop_id min.absorb1 take_take)
  have "filter P (take l xs) = []" using assms by (auto simp: filter_empty_conv in_set_conv_nth)
  moreover have "filter P (drop r xs) = []" using assms by (auto simp: filter_empty_conv in_set_conv_nth)
  moreover have "filter P (drop l (take r xs)) = drop l (take r xs)" using assms by (auto simp: filter_id_conv in_set_conv_nth)
  ultimately show ?thesis by (subst (2) split) simp
qed

text \<open>The context of a time, found by bisection and a walk to the left, is what a scan of the whole
  transcript would give: the segments that touch the window around the time, or the first segment
  when there is none.\<close>

theorem context_lookup_is_a_scan:
  fixes t window :: real
  assumes "timeline segs" and "segs \<noteq> []"
  defines "hit \<equiv> filter (\<lambda>s. t - max 0 window \<le> wb_end s \<and> wb_start s \<le> t + max 0 window) segs"
  shows "context_segments_around_time segs t window = (if hit = [] then [hd segs] else hit)"
proof -
  let ?w = "max 0 window"
  define r where "r = bisect_right (map wb_start segs) (t + ?w)"
  define l where "l = walk_left segs (t - ?w) r"
  note b = bisect_starts [OF assms(1), where t = "t + ?w", folded r_def]
  have w: "l \<le> r" "\<And>j. l \<le> j \<Longrightarrow> j < r \<Longrightarrow> t - ?w \<le> wb_end (segs ! j)" "l = 0 \<or> wb_end (segs ! (l - 1)) < t - ?w"
    using walk_left_spec [of segs "t - ?w" r] by (auto simp: l_def [symmetric])
  have "drop l (take r segs) = hit" unfolding hit_def
  proof (rule filter_between [OF w(1) b(1)])
    fix j assume j: "j < length segs"
    have "wb_end (segs ! j) < t - ?w" if "j < l"
      using w(3) timeline_nth(2) [OF assms(1), of j "l - 1"] that w(1) b(1) by fastforce
    moreover have "t + ?w < wb_start (segs ! j)" if "r \<le> j" using b(3) [OF that j] .
    ultimately show "(t - ?w \<le> wb_end (segs ! j) \<and> wb_start (segs ! j) \<le> t + ?w) \<longleftrightarrow> l \<le> j \<and> j < r"
      using w(2) b(2) [of j] by (meson leD not_le_imp_less)
  qed
  moreover have "context_segments_around_time segs t window
      = (if drop l (take r segs) = [] then [segs ! 0] else drop l (take r segs))"
    using assms(2) by (simp add: context_segments_around_time_def Let_def r_def [symmetric] l_def [symmetric])
  ultimately show ?thesis using hd_conv_nth [OF assms(2)] by simp
qed

section \<open>Refined chapters stay in order\<close>

lemma adjusted_starts_ok:
  "length cs = length os \<Longrightarrow> length (adjusted_starts prev os cs) = length os
   \<and> sorted_wrt (<) (adjusted_starts prev os cs)
   \<and> (\<forall>p. prev = Some p \<longrightarrow> (\<forall>x\<in>set (adjusted_starts prev os cs). p < x))"
proof (induction prev os cs rule: adjusted_starts.induct)
  case (1 prev orig os c cs)
  define start where "start = (case prev of None \<Rightarrow> max c 0 | Some p \<Rightarrow> if c \<le> p then (if orig \<le> p then p + 1 else orig) else c)"
  have IH: "length (adjusted_starts (Some start) os cs) = length os" "sorted_wrt (<) (adjusted_starts (Some start) os cs)"
    "\<forall>x\<in>set (adjusted_starts (Some start) os cs). start < x"
    using 1(1) [OF start_def] 1(2) by simp_all
  moreover have "\<forall>p. prev = Some p \<longrightarrow> p < start" by (auto simp: start_def)
  moreover have eq: "adjusted_starts prev (orig # os) (c # cs) = start # adjusted_starts (Some start) os cs"
    by (simp add: start_def Let_def)
  ultimately show ?case unfolding eq by (auto intro: order.strict_trans)
qed auto

fun back_to_back :: "episode_chapter list \<Rightarrow> bool" where
  "back_to_back (c # d # cs) \<longleftrightarrow> start_time_ms c < start_time_ms d \<and> end_time_ms c = start_time_ms d \<and> back_to_back (d # cs)"
| "back_to_back [c] \<longleftrightarrow> start_time_ms c \<le> end_time_ms c"
| "back_to_back [] \<longleftrightarrow> True"

lemma retimed_ok:
  "length starts = length cs \<Longrightarrow> map start_time_ms (retimed cs starts) = starts \<and> map chapter_title (retimed cs starts) = map chapter_title cs
   \<and> (sorted_wrt (<) starts \<longrightarrow> back_to_back (retimed cs starts))"
proof (induction cs starts rule: retimed.induct)
  case (1 c cs start starts)
  show ?case
  proof (cases starts)
    case Nil
    then show ?thesis using 1 by (simp add: mk_chapter_def)
  next
    case (Cons s ss)
    then obtain d ds where "cs = d # ds" using 1(2) by (cases cs) auto
    then show ?thesis using 1 Cons by (simp add: mk_chapter_def Let_def)
  qed
qed auto

lemma assemble_ok:
  assumes "length candidates = length cs"
  shows "map start_time_ms (assemble_refined_chapters cs candidates) = adjusted_starts None (map start_time_ms cs) candidates
    \<and> map chapter_title (assemble_refined_chapters cs candidates) = map chapter_title cs
    \<and> back_to_back (assemble_refined_chapters cs candidates)"
  using retimed_ok [of "adjusted_starts None (map start_time_ms cs) candidates" cs] adjusted_starts_ok [of candidates "map start_time_ms cs" None] assms
  by (simp add: assemble_refined_chapters_def)

text \<open>Refining the starts of an episode's chapters against the transcript, whatever the transcript says, keeps
  every chapter and its title in order of the original starts, and the result is a timeline: the starts
  strictly increase and every chapter but the last ends where the next starts.\<close>

theorem refined_chapters_are_a_timeline:
  assumes "cs \<noteq> []" and "rows \<noteq> []"
  shows "map chapter_title (refine_description_chapters_with_word_refiner True shift words cs rows)
      = map chapter_title (sort_key start_time_ms cs)
    \<and> back_to_back (refine_description_chapters_with_word_refiner True shift words cs rows)
    \<and> map chapter_title (refine_transcript_chapters_with_word_refiner shift cs rows) = map chapter_title (sort_key start_time_ms cs)
    \<and> back_to_back (refine_transcript_chapters_with_word_refiner shift cs rows)"
proof -
  have "length (start_time_ms (hd (sort_key start_time_ms cs)) # map f (tl (sort_key start_time_ms cs))) = length (sort_key start_time_ms cs)" for f
    using assms(1) by (cases "sort_key start_time_ms cs") (auto dest: arg_cong [of _ _ length])
  then show ?thesis using assms assemble_ok [of _ "sort_key start_time_ms cs"]
    by (simp add: refine_description_chapters_with_word_refiner_def refine_transcript_chapters_with_word_refiner_def Let_def)
qed

text \<open>A chapter refined forward past later chapters squeezes them to one millisecond each: the fallback to the
  original start, which is meant to avoid such nudges, does not apply where the original start itself
  lies before the refined one.\<close>

theorem late_refinement_squeezes_the_next_chapters:
  "map (\<lambda>c. (start_time_ms c, end_time_ms c)) (assemble_refined_chapters
      [mk_chapter ''0'' ''a'' 0 10000, mk_chapter ''1'' ''b'' 10000 20000, mk_chapter ''2'' ''c'' 20000 90000] [30000, 10000, 20000])
    = [(30000, 30001), (30001, 30002), (30002, 90000)]"
  by (simp add: assemble_refined_chapters_def mk_chapter_def Let_def)

section \<open>Concrete inputs\<close>

definition sample_row :: "int \<Rightarrow> real \<Rightarrow> real \<Rightarrow> string \<Rightarrow> segment_row" where
  "sample_row n s e txt = \<lparr>sg_id = n, sg_post = 1, sg_num = n, sg_start = s, sg_end = e, sg_text = txt, sg_speaker = None\<rparr>"

theorem generated_chapters_tile_the_transcript_witness:
  "tiling 900000 (generate_chapters_from_transcript 480 180 [sample_row 0 0 5 ''hello'', sample_row 1 500 505 ''world''] (Some 900000))
   \<and> start_time_ms (hd (generate_chapters_from_transcript 480 180 [sample_row 0 0 5 ''hello'', sample_row 1 500 505 ''world''] (Some 900000))) = 0"
  using generated_chapters_tile_the_transcript [of "[sample_row 0 0 5 ''hello'', sample_row 1 500 505 ''world'']" 480 180 900000]
  by (simp add: seg_start_ms_def sample_row_def py_int_def)

definition sample_timeline :: "wb_segment list" where
  "sample_timeline = [plain_segment 0 0 5 ''a'', plain_segment 1 6 9 ''b'', plain_segment 2 9 12 ''c'']"

lemma sample_timeline_ok: "timeline sample_timeline" "sample_timeline \<noteq> []"
  by (simp_all add: sample_timeline_def timeline_def plain_segment_def)

theorem nearest_segment_is_nearest_witness:
  "\<exists>s\<in>set sample_timeline. nearest_segment_seq_for_time sample_timeline 5700 = Some (wb_seq s)
     \<and> time_distance (real_of_int 5700 / 1000) s \<le> 3 / 10"
proof -
  have "plain_segment 1 6 9 ''b'' \<in> set sample_timeline" by (simp add: sample_timeline_def)
  moreover have "time_distance (real_of_int 5700 / 1000) (plain_segment 1 6 9 ''b'') = 3 / 10"
    by (simp add: time_distance_def edge_distance_def plain_segment_def)
  ultimately show ?thesis using nearest_segment_is_nearest [OF sample_timeline_ok, of 5700] by metis
qed

theorem context_lookup_is_a_scan_witness:
  "context_segments_around_time sample_timeline 7 1 = [plain_segment 1 6 9 ''b'']"
  using context_lookup_is_a_scan [OF sample_timeline_ok, of 7 1] by (simp add: sample_timeline_def plain_segment_def)

theorem refined_chapters_are_a_timeline_witness:
  "back_to_back (refine_description_chapters_with_word_refiner True 90 None
     [mk_chapter ''0'' ''a'' 0 10000, mk_chapter ''1'' ''b'' 10000 20000] [sample_row 0 0 5 ''hello''])"
  by (rule refined_chapters_are_a_timeline [THEN conjunct2, THEN conjunct1]) simp_all

end
