(* ===== verification/TopicPlan.thy ===== *)
theory TopicPlan
  imports FallbackChapters ClassifierPasses
begin

text \<open>
  Chapters of an episode that brings none, second part: the blocks of a transcript that a model is asked
  about, the reading of its plan (also of a truncated one), the one continuation request, and the
  chapters made of the plan (\<open>src/podcast_processor/chapter_fallback.py\<close>).  The native sidecar's
  answers, \<open>json.loads\<close>, the wording of the prompts and the reason a reply ended for are arguments.
  The requests and the rows of the calls are those of \<open>LlmCalls\<close> and \<open>ClassifierPasses\<close>.
\<close>

section \<open>Constants\<close>

definition TOPIC_CHAPTER_LLM_MAX_OUTPUT_TOKENS :: int where "TOPIC_CHAPTER_LLM_MAX_OUTPUT_TOKENS = 8192"
definition TOPIC_CHAPTER_TARGET_BLOCK_COUNT :: int where "TOPIC_CHAPTER_TARGET_BLOCK_COUNT = 60"
definition TOPIC_CHAPTER_MIN_BLOCK_SECONDS :: int where "TOPIC_CHAPTER_MIN_BLOCK_SECONDS = 60"
definition TOPIC_CHAPTER_MAX_BLOCK_SECONDS :: int where "TOPIC_CHAPTER_MAX_BLOCK_SECONDS = 2 * 60"
definition TOPIC_CHAPTER_MAX_CHARS_PER_BLOCK :: nat where "TOPIC_CHAPTER_MAX_CHARS_PER_BLOCK = 1000"
definition TOPIC_CHAPTER_CAP_WINDOW_SECONDS :: int where "TOPIC_CHAPTER_CAP_WINDOW_SECONDS = 5 * 60"
definition TOPIC_CHAPTER_SHORT_EPISODE_SECONDS :: int where "TOPIC_CHAPTER_SHORT_EPISODE_SECONDS = 60 * 60"
definition TOPIC_CHAPTER_SHORT_EPISODE_CAP :: int where "TOPIC_CHAPTER_SHORT_EPISODE_CAP = 10"
definition CHAPTER_WORD_ALIGN_MAX_SHIFT_SECONDS :: real where "CHAPTER_WORD_ALIGN_MAX_SHIFT_SECONDS = 180"
definition TOPIC_CHAPTER_RETRY_OVERLAP_BLOCKS :: nat where "TOPIC_CHAPTER_RETRY_OVERLAP_BLOCKS = 1"
definition CHAPTER_TITLE_REFINE_RANGE :: "int \<times> int" where "CHAPTER_TITLE_REFINE_RANGE = (- 100, - 100)"
definition TOPIC_PLAN_RANGE :: "int \<times> int" where "TOPIC_PLAN_RANGE = (- 200, - 200)"
definition TOPIC_PLAN_CONTINUATION_RANGE :: "int \<times> int" where "TOPIC_PLAN_CONTINUATION_RANGE = (- 201, - 201)"

text \<open>The budget of a block's text; 0 is no limit.\<close>

definition effective_max_chars_per_block :: "bool \<Rightarrow> nat" where
  "effective_max_chars_per_block full = (if full then 0 else TOPIC_CHAPTER_MAX_CHARS_PER_BLOCK)"

definition topic_chapter_count_cap_for_duration :: "int \<Rightarrow> int" where
  "topic_chapter_count_cap_for_duration seconds =
     (let d = max 1 seconds in
      if d < TOPIC_CHAPTER_SHORT_EPISODE_SECONDS then TOPIC_CHAPTER_SHORT_EPISODE_CAP
      else \<lceil>real_of_int d / real_of_int TOPIC_CHAPTER_CAP_WINDOW_SECONDS\<rceil>)"

definition format_timestamp :: "millis \<Rightarrow> string" where
  "format_timestamp ms =
     (let total_seconds = max 0 (ms div 1000); hours = total_seconds div 3600; rest = total_seconds mod 3600;
          tail = two_digits (rest div 60) @ '':'' @ two_digits (rest mod 60) in
      if hours \<noteq> 0 then int_str hours @ '':'' @ tail else tail)"

section \<open>Blocks\<close>

record topic_block =
  tb_index :: int
  tb_start :: millis
  tb_end :: millis
  tb_stamp :: string
  tb_text :: string

definition BLOCK_TEXT_TRUNCATION_SEPARATOR :: string where "BLOCK_TEXT_TRUNCATION_SEPARATOR = '' ... ''"

definition truncate_block_text :: "string \<Rightarrow> nat \<Rightarrow> string" where
  "truncate_block_text txt max_chars =
     (let sep = BLOCK_TEXT_TRUNCATION_SEPARATOR in
      if max_chars = 0 \<or> length txt \<le> max_chars then txt
      else if max_chars \<le> length sep + 4 then take max_chars txt
      else (let available = max_chars - length sep; head_chars = available div 2; mid_chars = available - head_chars;
                from_middle = max head_chars (length txt div 2 - mid_chars div 2);
                mid_end = min (length txt) (from_middle + mid_chars);
                mid_start = max head_chars (mid_end - mid_chars) in
            take head_chars txt @ sep @ slice txt mid_start mid_end))"

text \<open>The run of parts that fits a budget; the first part is always taken, and clipped when it is alone.\<close>

fun parts_within :: "nat \<Rightarrow> nat \<Rightarrow> string list \<Rightarrow> string list" where
  "parts_within budget used [] = []"
| "parts_within budget used (p # ps) =
     (let cost = length p + 1 in if used + cost > budget then [] else p # parts_within budget (used + cost) ps)"

definition fitting_parts :: "nat \<Rightarrow> string list \<Rightarrow> string list" where
  "fitting_parts budget parts =
     (case parts of
        [] \<Rightarrow> []
      | p # ps \<Rightarrow> (let taken = p # parts_within budget (length p) ps in
          if length taken = 1 \<and> length p > budget then [take budget p] else taken))"

definition truncate_block_parts :: "string list \<Rightarrow> nat \<Rightarrow> string" where
  "truncate_block_parts parts max_chars =
     (let joined = py_strip (join_with '' '' parts); sep = BLOCK_TEXT_TRUNCATION_SEPARATOR in
      if max_chars = 0 \<or> length joined \<le> max_chars then joined
      else (let available = max_chars - length sep; head_budget = available div 2; mid_budget = available - head_budget;
                head_parts = fitting_parts head_budget parts;
                mid_parts = fitting_parts mid_budget (drop (max (length head_parts) (length parts div 2)) parts);
                head = join_with '' '' head_parts; middle = join_with '' '' mid_parts in
            if middle = [] then take max_chars head else head @ sep @ middle))"

definition block_window_ms :: "int \<Rightarrow> int \<Rightarrow> int \<Rightarrow> millis \<Rightarrow> millis" where
  "block_window_ms target_count min_seconds max_seconds whole =
     (let raw = max 1 (whole div max 1 target_count); lo = max 1 (min_seconds * 1000); hi = max lo (max_seconds * 1000);
          w = min hi (max lo raw); rounded = max 30000 (((w + 30000 - 1) div 30000) * 30000) in
      min hi rounded)"

definition segment_part :: "bool \<Rightarrow> segment_row \<Rightarrow> string list" where
  "segment_part markers s =
     (let txt = squeeze_spaces (sg_text s) in
      if txt = [] then [] else if markers then [''[s'' @ int_str (sg_num s) @ ''] '' @ txt] else [txt])"

definition flush_block :: "(string list \<Rightarrow> string) \<Rightarrow> nat \<Rightarrow> millis \<times> millis \<Rightarrow> string list \<Rightarrow> topic_block" where
  "flush_block render n extent parts =
     \<lparr>tb_index = int n, tb_start = fst extent, tb_end = max (fst extent) (snd extent), tb_stamp = format_timestamp (fst extent),
      tb_text = render parts\<rparr>"

text \<open>The loop: the number of blocks so far, the extent and the parts of the open block.\<close>

fun topic_loop :: "(string list \<Rightarrow> string) \<Rightarrow> (segment_row \<Rightarrow> string list) \<Rightarrow> millis \<Rightarrow> nat \<Rightarrow> (millis \<times> millis) option \<Rightarrow>
    string list \<Rightarrow> segment_row list \<Rightarrow> topic_block list" where
  "topic_loop render part w n None parts [] = []"
| "topic_loop render part w n (Some extent) parts [] = [flush_block render n extent parts]"
| "topic_loop render part w n None parts (s # ss) =
     topic_loop render part w n (Some (seg_start_ms s, max (seg_start_ms s) (seg_end_ms s))) (parts @ part s) ss"
| "topic_loop render part w n (Some (a, b)) parts (s # ss) =
     (let start = seg_start_ms s; stop = max start (seg_end_ms s) in
      if start - a \<ge> w
      then flush_block render n (a, b) parts # topic_loop render part w (Suc n) (Some (start, stop)) (part s) ss
      else topic_loop render part w n (Some (a, max (if b = 0 then stop else b) stop)) (parts @ part s) ss)"

definition shown_block_text :: "bool \<Rightarrow> nat \<Rightarrow> string list \<Rightarrow> string" where
  "shown_block_text markers max_chars parts =
     (if markers then truncate_block_parts parts max_chars else truncate_block_text (py_strip (join_with '' '' parts)) max_chars)"

definition build_topic_blocks :: "bool \<Rightarrow> nat \<Rightarrow> millis \<Rightarrow> segment_row list \<Rightarrow> topic_block list" where
  "build_topic_blocks markers max_chars whole segs =
     (if segs = [] then []
      else (let w = block_window_ms TOPIC_CHAPTER_TARGET_BLOCK_COUNT TOPIC_CHAPTER_MIN_BLOCK_SECONDS TOPIC_CHAPTER_MAX_BLOCK_SECONDS whole;
                blocks = topic_loop (shown_block_text markers max_chars) (segment_part markers) w 0 None [] segs;
                nonempty = filter (\<lambda>b. py_strip (tb_text b) \<noteq> []) blocks in
            if nonempty \<noteq> [] then nonempty else take 1 blocks))"

section \<open>What the model is asked\<close>

record topic_prompt =
  tp_blocks :: "topic_block list"
  tp_total :: millis
  tp_min_seconds :: int
  tp_min :: int
  tp_max :: int
  tp_cap :: int
  tp_after :: "int option"
  tp_existing :: "int list"
  tp_opening :: bool

text \<open>\<open>None\<close> is the empty prompt.\<close>

definition build_topic_chapter_generation_prompt ::
  "topic_block list \<Rightarrow> millis \<Rightarrow> int \<Rightarrow> int \<Rightarrow> int option \<Rightarrow> int list \<Rightarrow> bool \<Rightarrow> topic_prompt option" where
  "build_topic_chapter_generation_prompt blocks whole target_seconds min_seconds continue_after existing opening =
     (if blocks = [] then None
      else (let seconds = max 1 (whole div 1000);
                target = max 1 (py_round (real_of_int seconds / real_of_int (max 60 target_seconds)));
                min0 = max 1 (target - 2);
                max0 = max min0 (min 12 (target + 2));
                min1 = (if seconds \<ge> 20 * 60 then max 2 min0 else min0);
                cap = topic_chapter_count_cap_for_duration seconds;
                known = sorted_list_of_set (set (filter (\<lambda>x. x \<ge> 0) existing)) in
            if continue_after \<noteq> None then
              (let left = max 0 (cap - int (length known)) in
               if left \<le> 0 then None
               else (let min2 = max 1 (min min1 left) in
                 Some \<lparr>tp_blocks = blocks, tp_total = whole, tp_min_seconds = min_seconds, tp_min = min2, tp_max = max min2 (min max0 left),
                   tp_cap = left, tp_after = continue_after, tp_existing = known, tp_opening = opening\<rparr>))
            else Some \<lparr>tp_blocks = blocks, tp_total = whole, tp_min_seconds = min_seconds, tp_min = min min1 cap, tp_max = min max0 cap,
                   tp_cap = cap, tp_after = None, tp_existing = known, tp_opening = opening\<rparr>))"

section \<open>Reading a plan\<close>

type_synonym topic_plan = "(int \<times> string) list"
type_synonym start_anchors = "(int \<times> int option \<times> string) list"

definition fence_open :: re where
  "fence_open = Seqs [Bos, Lit ''```'', Opt (ILit ''json''), Star (Cls py_space)]"

definition fence_close :: re where
  "fence_close = Seqs [Star (Cls py_space), Lit ''```'', Eos]"

definition unfenced :: "string \<Rightarrow> string" where
  "unfenced txt = re_sub fence_close [] (re_sub fence_open [] txt)"

definition signed_number :: re where
  "signed_number = Seq (Opt (Lit ''-'')) (Plus digit_re)"

definition json_key :: "string \<Rightarrow> re" where
  "json_key k = Seqs [quote_re, Lit k, quote_re, Star space_re, Lit '':'', Star space_re]"

definition coerce_topic_chapter_count :: "json \<Rightarrow> int option" where
  "coerce_topic_chapter_count v = (case json_int v of None \<Rightarrow> None | Some n \<Rightarrow> if n < 0 then None else Some n)"

definition extract_topic_chapter_count_from_text :: "string \<Rightarrow> int option" where
  "extract_topic_chapter_count_from_text content =
     (let txt = py_strip content in
      if txt = [] then None
      else (case re_search (Seq (json_key ''chapter_count'') (Grp 1 signed_number)) txt of
          None \<Rightarrow> None
        | Some (i, j, c) \<Rightarrow> coerce_topic_chapter_count (JStr (group_text txt c 1))))"

text \<open>The pairs a truncated reply still holds: an index, a comma, and a complete quoted title.\<close>

definition salvage_item :: re where
  "salvage_item = Seqs [json_key ''block_index'', Grp 1 signed_number, Star space_re, Lit '','', Star space_re, json_key ''title'', quote_re,
     Grp 2 (Star (Alt (Cls (\<lambda>c. c \<noteq> CHR 0x22 \<and> c \<noteq> CHR 0x5C)) (Seq (Cls (\<lambda>c. c = CHR 0x5C)) Any))), quote_re]"

definition salvaged_title :: "(string \<Rightarrow> json option) \<Rightarrow> (json \<Rightarrow> string) \<Rightarrow> string \<Rightarrow> string" where
  "salvaged_title loads str_of raw =
     py_strip (case loads (CHR 0x22 # raw @ [CHR 0x22]) of None \<Rightarrow> raw | Some v \<Rightarrow> as_text str_of v)"

fun first_by_index :: "int set \<Rightarrow> topic_plan \<Rightarrow> topic_plan" where
  "first_by_index seen [] = []"
| "first_by_index seen ((i, title) # rest) =
     (if i \<in> seen then first_by_index seen rest else (i, title) # first_by_index (insert i seen) rest)"

definition salvage_topic_chapter_response :: "(string \<Rightarrow> json option) \<Rightarrow> (json \<Rightarrow> string) \<Rightarrow> string \<Rightarrow> topic_plan" where
  "salvage_topic_chapter_response loads str_of content =
     (let txt = py_strip content in
      if txt = [] then []
      else first_by_index {} (List.map_filter (\<lambda>(_, _, c). case int_of_str (group_text txt c 1) of
            None \<Rightarrow> None
          | Some i \<Rightarrow> (let title = salvaged_title loads str_of (group_text txt c 2) in if title = [] then None else Some (i, title)))
        (re_finditer salvage_item txt)))"

definition plan_item :: "(json \<Rightarrow> string) \<Rightarrow> json \<Rightarrow> (int \<times> string) option" where
  "plan_item str_of item =
     (case item of
        JObj kvs \<Rightarrow> map_option (\<lambda>i. (i, py_strip (or_empty str_of (obj_get kvs ''title'')))) (json_int (obj_get kvs ''block_index''))
      | _ \<Rightarrow> None)"

definition parse_topic_chapter_response ::
  "(string \<Rightarrow> topic_plan option) \<Rightarrow> (string \<Rightarrow> json option) \<Rightarrow> (json \<Rightarrow> string) \<Rightarrow> string \<Rightarrow> topic_plan" where
  "parse_topic_chapter_response native loads str_of content =
     (case (if py_strip content = [] then None else native content) of
        Some plan \<Rightarrow> plan
      | None \<Rightarrow>
          if py_strip content = [] then []
          else (let txt = unfenced (py_strip content) in
            case loads txt of
              None \<Rightarrow> salvage_topic_chapter_response loads str_of txt
            | Some (JObj kvs) \<Rightarrow> (case obj_get kvs ''chapters'' of JList items \<Rightarrow> List.map_filter (plan_item str_of) items | _ \<Rightarrow> [])
            | Some _ \<Rightarrow> []))"

text \<open>The anchors: every flat object of the reply that names a block and a segment or a phrase.\<close>

definition flat_object :: re where
  "flat_object = Seqs [Lit ''{'', Star (Cls (\<lambda>c. c \<noteq> CHR ''{'' \<and> c \<noteq> CHR ''}'')), Lit ''}'']"

definition add_anchor :: "(string \<Rightarrow> json option) \<Rightarrow> (json \<Rightarrow> string) \<Rightarrow> string \<Rightarrow> start_anchors \<Rightarrow> start_anchors" where
  "add_anchor loads str_of candidate anchors =
     (case loads candidate of
        Some (JObj kvs) \<Rightarrow>
          (case json_int (obj_get kvs ''block_index'') of
             None \<Rightarrow> anchors
           | Some i \<Rightarrow> (let seq = json_int (obj_get kvs ''start_seq''); phrase = py_strip (or_empty str_of (obj_get kvs ''start_phrase'')) in
               if seq \<noteq> None \<or> phrase \<noteq> [] then AList.update i (seq, phrase) anchors else anchors))
      | _ \<Rightarrow> anchors)"

definition parse_topic_chapter_start_anchors :: "(string \<Rightarrow> json option) \<Rightarrow> (json \<Rightarrow> string) \<Rightarrow> string \<Rightarrow> start_anchors" where
  "parse_topic_chapter_start_anchors loads str_of content =
     (let txt = py_strip content in
      if txt = [] then [] else fold (add_anchor loads str_of) (re_findall flat_object (unfenced txt)) [])"

section \<open>Completing a plan\<close>

definition merge_topic_plans_by_block_index :: "topic_plan \<Rightarrow> topic_plan \<Rightarrow> topic_plan" where
  "merge_topic_plans_by_block_index primary secondary = sort_key fst (first_by_index {} (primary @ secondary))"

text \<open>The blocks behind the last planned one, after an overlap, and that last index.\<close>

definition build_topic_retry_blocks :: "topic_block list \<Rightarrow> topic_plan \<Rightarrow> nat \<Rightarrow> topic_block list \<times> int option" where
  "build_topic_retry_blocks blocks plan overlap =
     (if blocks = [] \<or> plan = [] then ([], None)
      else (let latest = fold max (map fst (tl plan)) (fst (hd plan));
                ordered = sort_key tb_index blocks;
                pos = length (takeWhile (\<lambda>b. tb_index b \<le> latest) ordered) in
            if pos = length ordered then ([], Some latest) else (drop (pos - overlap) ordered, Some latest)))"

section \<open>Chapters of a plan\<close>

text \<open>The table of blocks by index.\<close>

definition block_at :: "topic_block list \<Rightarrow> int \<Rightarrow> topic_block option" where
  "block_at blocks i = find (\<lambda>b. tb_index b = i) (rev blocks)"

text \<open>\<open>None\<close> where block 0 is looked up and is not there.\<close>

definition normalize_topic_plan_entries :: "topic_block list \<Rightarrow> topic_plan \<Rightarrow> (topic_block \<times> string) list option" where
  "normalize_topic_plan_entries blocks plan =
     (let valid = first_by_index {} (filter (\<lambda>(i, _). block_at blocks i \<noteq> None) (sort_key fst plan));
          entries = List.map_filter (\<lambda>(i, title). map_option (\<lambda>b. (b, title)) (block_at blocks i)) valid in
      if entries = [] then Some []
      else if fst (hd valid) \<noteq> 0 then
        (case block_at blocks 0 of
           None \<Rightarrow> None
         | Some b \<Rightarrow> Some ((b, chapter_title_from_text (tb_text b) 1) # entries))
      else Some entries)"

fun spaced_entries :: "millis \<Rightarrow> int \<Rightarrow> millis option \<Rightarrow> (topic_block \<times> string) list \<Rightarrow> (topic_block \<times> string) list" where
  "spaced_entries gap last_index prev [] = []"
| "spaced_entries gap last_index prev ((b, title) # rest) =
     (case prev of
        Some p \<Rightarrow>
          if tb_start b - p < gap \<and> tb_index b \<noteq> last_index then spaced_entries gap last_index prev rest
          else (b, title) # spaced_entries gap last_index (Some (tb_start b)) rest
      | None \<Rightarrow> (b, title) # spaced_entries gap last_index (Some (tb_start b)) rest)"

definition filter_topic_plan_entries :: "millis \<Rightarrow> (topic_block \<times> string) list \<Rightarrow> (topic_block \<times> string) list" where
  "filter_topic_plan_entries gap entries = spaced_entries gap (tb_index (fst (last entries))) None entries"

fun plan_chapters :: "nat \<Rightarrow> millis \<Rightarrow> (topic_block \<times> string) list \<Rightarrow> episode_chapter list" where
  "plan_chapters i whole [] = []"
| "plan_chapters i whole ((b, title) # rest) =
     (let stop = (case rest of [] \<Rightarrow> whole | e # _ \<Rightarrow> tb_start (fst e));
          given_title = py_strip title in
      mk_chapter (''tgen'' @ nat_str i) (if given_title \<noteq> [] then given_title else chapter_title_from_text (tb_text b) (i + 1))
        (max 0 (tb_start b)) (max (tb_start b) stop) # plan_chapters (i + 1) whole rest)"

text \<open>\<open>None\<close> where the lookup of a block raises.\<close>

definition chapters_from_topic_plan ::
  "(topic_plan \<Rightarrow> episode_chapter list option) \<Rightarrow> topic_plan \<Rightarrow> topic_block list \<Rightarrow> millis \<Rightarrow> millis \<Rightarrow> episode_chapter list option" where
  "chapters_from_topic_plan native plan blocks whole gap =
     (case native plan of
        Some cs \<Rightarrow> Some cs
      | None \<Rightarrow>
          if plan = [] \<or> blocks = [] then Some []
          else (case normalize_topic_plan_entries blocks plan of
              None \<Rightarrow> None
            | Some [] \<Rightarrow> Some []
            | Some entries \<Rightarrow>
                (let spaced = filter_topic_plan_entries gap entries in
                 if length spaced = 1 \<and> whole \<ge> 20 * 60 * 1000 then Some [] else Some (plan_chapters 0 whole spaced))))"

text \<open>The start of a chapter at its anchor: the phrase near the marked segment, else that segment, else the block.\<close>

definition anchored_start :: "wb_segment list \<Rightarrow> topic_block list \<Rightarrow> start_anchors \<Rightarrow> millis \<Rightarrow> episode_chapter \<Rightarrow> millis" where
  "anchored_start segs blocks anchors shift c =
     (let orig = start_time_ms c in
      case find (\<lambda>b. tb_start b = orig) (rev blocks) of
        None \<Rightarrow> orig
      | Some b0 \<Rightarrow>
          (case (block_at blocks (tb_index b0), map_of anchors (tb_index b0)) of
             (Some b, Some (seq, phrase)) \<Rightarrow>
               (let marked = (case seq of None \<Rightarrow> None | Some n \<Rightarrow> find (\<lambda>s. wb_seq s = n) (rev segs));
                    near = filter (\<lambda>s. wb_end s \<ge> real_of_int (tb_start b) / 1000 \<and> wb_start s \<le> real_of_int (tb_end b) / 1000) segs;
                    preferred = (if marked \<noteq> None then seq else nearest_segment_seq_for_time segs orig);
                    spoken = (if phrase = [] then None
                      else estimate_phrase_time (\<lambda>_. []) segs near (case preferred of None \<Rightarrow> JNull | Some n \<Rightarrow> JNum (real_of_int n)) (JStr phrase) False) in
                within_shift shift orig (case spoken of Some t \<Rightarrow> Some t | None \<Rightarrow> map_option wb_start marked))
           | _ \<Rightarrow> orig))"

definition align_chapters_to_start_anchors ::
  "real \<Rightarrow> word_map option \<Rightarrow> topic_block list \<Rightarrow> start_anchors \<Rightarrow> episode_chapter list \<Rightarrow> segment_row list \<Rightarrow> episode_chapter list" where
  "align_chapters_to_start_anchors max_shift words blocks anchors cs rows =
     (if cs = [] \<or> anchors = [] \<or> rows = [] then cs
      else (let segs = segments_for_word_refiner words rows; sorted_cs = sort_key start_time_ms cs in
        assemble_refined_chapters sorted_cs (map (anchored_start segs blocks anchors (max_shift_of max_shift)) sorted_cs)))"

section \<open>The requests\<close>

text \<open>What the sidecar answers, the wording of the prompts, and why the provider ended a reply.\<close>

record 'p topic_env =
  te_blocks :: "nat \<Rightarrow> bool \<Rightarrow> topic_block list option"
  te_parse :: "string \<Rightarrow> topic_plan option"
  te_apply :: "topic_plan \<Rightarrow> topic_block list \<Rightarrow> millis \<Rightarrow> millis \<Rightarrow> episode_chapter list option"
  te_render :: "topic_prompt \<Rightarrow> string"
  te_title_prompt :: "(string \<times> string \<times> string) list \<Rightarrow> string"
  te_finish :: "'p \<Rightarrow> string option"

definition chapter_args :: "'p classifier_env \<Rightarrow> classifier_config \<Rightarrow> int \<Rightarrow> string \<Rightarrow> string \<Rightarrow> completion_args" where
  "chapter_args env cc allowance system prompt =
     (let fresh = model_uses_max_completion_tokens (cc_model cc) in
      apply_service_tier (env_priced_flex env) (cc_tier cc)
        \<lparr>arg_model = cc_model cc, arg_messages = [(''system'', system), (''user'', prompt)],
         arg_max_completion_tokens = (if fresh then Some allowance else None), arg_max_tokens = (if fresh then None else Some allowance),
         arg_temperature = None, arg_service_tier = None\<rparr>)"

definition chapter_upsert :: "'p classifier_env \<Rightarrow> classifier_config \<Rightarrow> int option \<Rightarrow> int \<times> int \<Rightarrow> string \<Rightarrow> media_db \<Rightarrow> int option \<times> media_db" where
  "chapter_upsert env cc post keys prompt db =
     (case post of None \<Rightarrow> (None, db) | Some p \<Rightarrow> try_upsert env cc p (fst keys) (snd keys) prompt db)"

definition chapter_call ::
  "'p classifier_env \<Rightarrow> completion_args \<Rightarrow> int option \<Rightarrow> 'p \<times> llm_event list \<Rightarrow> (string + string) \<times> 'p \<times> llm_event list" where
  "chapter_call env args cid llm =
     (let ((r, args'), llm') = call_litellm_with_tier_retry (env_completion env) None None (cid \<noteq> None) args
            (mark_row (cid \<noteq> None) (TierNoted (arg_service_tier args)) llm) in
      ((case r of Inl e \<Rightarrow> Inl (error_text e) | Inr a \<Rightarrow> Inr (case answer_content a of None \<Rightarrow> [] | Some c \<Rightarrow> c)), llm'))"

record plan_reply =
  pr_plan :: topic_plan
  pr_content :: string
  pr_finish :: "string option"
  pr_expected :: "int option"

definition request_topic_chapter_plan ::
  "'p topic_env \<Rightarrow> 'p classifier_env \<Rightarrow> classifier_config \<Rightarrow> int option \<Rightarrow> int \<times> int \<Rightarrow> string \<Rightarrow> 'p classifier_world \<Rightarrow>
   (string + plan_reply) \<times> 'p classifier_world" where
  "request_topic_chapter_plan te env cc post keys prompt w =
     (let (cid, db1) = chapter_upsert env cc post keys prompt (cw_db w);
          args = chapter_args env cc TOPIC_CHAPTER_LLM_MAX_OUTPUT_TOKENS
            ''You identify topic transitions in podcast transcripts and return valid JSON only.'' prompt;
          (r, llm) = chapter_call env args cid (cw_llm w) in
      case r of
        Inl e \<Rightarrow> (Inl e, w\<lparr>cw_db := try_update_call cid ''failed_permanent'' None (Some e) db1, cw_llm := llm\<rparr>)
      | Inr content \<Rightarrow>
          (Inr \<lparr>pr_plan = parse_topic_chapter_response (te_parse te) (loads_option env) (env_str env) content,
             pr_content = content, pr_finish = te_finish te (fst llm), pr_expected = extract_topic_chapter_count_from_text content\<rparr>,
           w\<lparr>cw_db := try_update_call cid ''success'' (Some content) None db1, cw_llm := llm\<rparr>))"

definition needs_continuation :: "plan_reply \<Rightarrow> bool" where
  "needs_continuation r \<longleftrightarrow>
     (case pr_expected r of None \<Rightarrow> False | Some n \<Rightarrow> int (length (pr_plan r)) < n) \<or> pr_finish r = Some ''length''"

text \<open>At most one continuation request; its anchors never replace those of the first reply.\<close>

definition retry_incomplete_topic_chapter_plan ::
  "'p topic_env \<Rightarrow> 'p classifier_env \<Rightarrow> classifier_config \<Rightarrow> int option \<Rightarrow> topic_block list \<Rightarrow> millis \<Rightarrow> int \<Rightarrow> int \<Rightarrow> bool \<Rightarrow>
   plan_reply \<Rightarrow> start_anchors \<Rightarrow> 'p classifier_world \<Rightarrow> (string + topic_plan \<times> start_anchors) \<times> 'p classifier_world" where
  "retry_incomplete_topic_chapter_plan te env cc post blocks whole target_seconds min_seconds opening r anchors w =
     (let plan = pr_plan r; kept = (Inr (plan, anchors), w) in
      if \<not> needs_continuation r then kept
      else (case build_topic_retry_blocks blocks plan TOPIC_CHAPTER_RETRY_OVERLAP_BLOCKS of
          (rest, after) \<Rightarrow>
            if rest = [] \<or> after = None then kept
            else (case build_topic_chapter_generation_prompt rest whole target_seconds min_seconds after (map fst plan) opening of
                None \<Rightarrow> kept
              | Some tp \<Rightarrow>
                  (case request_topic_chapter_plan te env cc post TOPIC_PLAN_CONTINUATION_RANGE (te_render te tp) w of
                     (Inl e, w') \<Rightarrow> (Inl e, w')
                   | (Inr r2, w') \<Rightarrow>
                       if pr_plan r2 = [] then (Inr (plan, anchors), w')
                       else (Inr (merge_topic_plans_by_block_index plan (pr_plan r2),
                              if opening then anchors @ filter (\<lambda>a. map_of anchors (fst a) = None)
                                (parse_topic_chapter_start_anchors (loads_option env) (env_str env) (pr_content r2)) else anchors), w')))))"

section \<open>Topic chapters\<close>

record topic_options =
  to_target :: int
  to_min :: int
  to_align :: bool
  to_aligner :: bool
  to_full :: bool
  to_words :: "word_map option"

definition chapters_of_reply ::
  "'p topic_env \<Rightarrow> 'p classifier_env \<Rightarrow> classifier_config \<Rightarrow> int option \<Rightarrow> topic_options \<Rightarrow> topic_block list \<Rightarrow> millis \<Rightarrow> segment_row list \<Rightarrow>
   plan_reply \<Rightarrow> 'p classifier_world \<Rightarrow> episode_chapter list \<times> 'p classifier_world" where
  "chapters_of_reply te env cc post opts blocks whole segs r w =
     (if pr_plan r = [] then ([], w)
      else (let aligning = (to_align opts \<and> to_aligner opts);
                anchors0 = (if aligning then parse_topic_chapter_start_anchors (loads_option env) (env_str env) (pr_content r) else []) in
        case retry_incomplete_topic_chapter_plan te env cc post blocks whole (to_target opts) (to_min opts) (to_align opts) r anchors0 w of
          (Inl _, w') \<Rightarrow> ([], w')
        | (Inr (plan, anchors), w') \<Rightarrow>
            (let gap = to_min opts * 1000 in
             case chapters_from_topic_plan (\<lambda>p. te_apply te p blocks whole gap) plan blocks whole gap of
               None \<Rightarrow> ([], w')
             | Some cs \<Rightarrow>
                 if cs \<noteq> [] \<and> aligning \<and> anchors \<noteq> []
                 then (align_chapters_to_start_anchors CHAPTER_WORD_ALIGN_MAX_SHIFT_SECONDS (to_words opts) blocks anchors cs segs, w')
                 else (cs, w'))))"

definition generate_topic_chapters_from_transcript_with_llm ::
  "'p topic_env \<Rightarrow> 'p classifier_env \<Rightarrow> classifier_config \<Rightarrow> int option \<Rightarrow> topic_options \<Rightarrow> millis option \<Rightarrow> segment_row list \<Rightarrow>
   'p classifier_world \<Rightarrow> episode_chapter list \<times> 'p classifier_world" where
  "generate_topic_chapters_from_transcript_with_llm te env cc post opts total_duration rows w =
     (if rows = [] \<or> cc_model cc = [] then ([], w)
      else (let segs = sort_key seg_start_ms rows in
        case (case total_duration of None \<Rightarrow> transcript_duration_ms segs | Some t \<Rightarrow> Some t) of
          None \<Rightarrow> ([], w)
        | Some whole \<Rightarrow>
            if whole \<le> 0 then ([], w)
            else (let max_chars = effective_max_chars_per_block (to_full opts);
                      blocks = (case te_blocks te max_chars (to_align opts) of
                        Some bs \<Rightarrow> bs | None \<Rightarrow> build_topic_blocks (to_align opts) max_chars whole segs) in
              case build_topic_chapter_generation_prompt blocks whole (to_target opts) (to_min opts) None [] (to_align opts) of
                None \<Rightarrow> ([], w)
              | Some tp \<Rightarrow>
                  (case request_topic_chapter_plan te env cc post TOPIC_PLAN_RANGE (te_render te tp) w of
                     (Inl _, w') \<Rightarrow> ([], w')
                   | (Inr r, w') \<Rightarrow> chapters_of_reply te env cc post opts blocks whole segs r w'))))"

section \<open>Titles\<close>

fun snippets_from :: "nat \<Rightarrow> nat \<Rightarrow> string list \<Rightarrow> string list" where
  "snippets_from n chars [] = []"
| "snippets_from n chars (t # ts) =
     (if Suc n \<ge> 6 \<or> chars + length t \<ge> 700 then [t] else t # snippets_from (Suc n) (chars + length t) ts)"

definition chapter_snippet_text :: "episode_chapter \<Rightarrow> segment_row list \<Rightarrow> string" where
  "chapter_snippet_text c segs =
     py_strip (join_with '' '' (snippets_from 0 0 (filter (\<lambda>t. t \<noteq> []) (map (squeeze_spaces \<circ> sg_text)
       (filter (\<lambda>s. seg_end_ms s > start_time_ms c \<and> seg_start_ms s < end_time_ms c) segs)))))"

definition add_title :: "(json \<Rightarrow> string) \<Rightarrow> json \<Rightarrow> (int \<times> string) list \<Rightarrow> (int \<times> string) list" where
  "add_title str_of item titles =
     (case item of
        JObj kvs \<Rightarrow>
          (case json_int (obj_get kvs ''index'') of
             None \<Rightarrow> titles
           | Some i \<Rightarrow> (let title = py_strip (or_empty str_of (obj_get kvs ''title'')) in
               if title = [] then titles else AList.update i title titles))
      | _ \<Rightarrow> titles)"

definition parse_refined_titles_response :: "(string \<Rightarrow> json option) \<Rightarrow> (json \<Rightarrow> string) \<Rightarrow> string \<Rightarrow> (int \<times> string) list" where
  "parse_refined_titles_response loads str_of content =
     (let txt = py_strip content in
      if txt = [] then []
      else (case loads (unfenced txt) of
          Some (JObj kvs) \<Rightarrow> (case obj_get kvs ''titles'' of JList items \<Rightarrow> fold (add_title str_of) items [] | _ \<Rightarrow> [])
        | _ \<Rightarrow> []))"

definition retitled :: "(int \<times> string) list \<Rightarrow> episode_chapter list \<Rightarrow> episode_chapter list" where
  "retitled titles cs = map (\<lambda>(i, c). mk_chapter (element_id c)
     (case map_of titles (int i) of None \<Rightarrow> chapter_title c | Some t \<Rightarrow> if py_strip t = [] then chapter_title c else py_strip t)
     (start_time_ms c) (end_time_ms c)) (enumerate 0 cs)"

definition refine_generated_chapter_titles_with_llm ::
  "'p topic_env \<Rightarrow> 'p classifier_env \<Rightarrow> classifier_config \<Rightarrow> int option \<Rightarrow> episode_chapter list \<Rightarrow> segment_row list \<Rightarrow>
   'p classifier_world \<Rightarrow> episode_chapter list \<times> 'p classifier_world" where
  "refine_generated_chapter_titles_with_llm te env cc post cs rows w =
     (if cs = [] \<or> rows = [] \<or> cc_model cc = [] then (cs, w)
      else (let segs = sort_key seg_start_ms rows;
                prompt = te_title_prompt te (map (\<lambda>c. (format_timestamp (start_time_ms c), chapter_title c, chapter_snippet_text c segs)) cs);
                (cid, db1) = chapter_upsert env cc post CHAPTER_TITLE_REFINE_RANGE prompt (cw_db w);
                (r, llm) = chapter_call env (chapter_args env cc 300 ''You write concise podcast chapter titles. Return valid JSON only.'' prompt) cid (cw_llm w) in
        case r of
          Inl e \<Rightarrow> (cs, w\<lparr>cw_db := try_update_call cid ''failed_permanent'' None (Some e) db1, cw_llm := llm\<rparr>)
        | Inr content \<Rightarrow>
            (let titles = parse_refined_titles_response (loads_option env) (env_str env) content in
             (if titles = [] then cs else retitled titles cs,
              w\<lparr>cw_db := try_update_call cid ''success'' (Some content) None db1, cw_llm := llm\<rparr>))))"

section \<open>The texts of the blocks\<close>

lemma length_join_with: "length (join_with '' '' (p # ps)) = length p + sum_list (map (\<lambda>q. length q + 1) ps)"
  by (induction ps arbitrary: p) auto

lemma parts_within_bound:
  "used \<le> budget \<Longrightarrow> used + sum_list (map (\<lambda>q. length q + 1) (parts_within budget used ps)) \<le> budget"
proof (induction ps arbitrary: used)
  case (Cons p ps)
  show ?case
  proof (cases "used + (length p + 1) > budget")
    case False
    then have eq: "parts_within budget used (p # ps) = p # parts_within budget (used + (length p + 1)) ps" by (simp add: Let_def)
    show ?thesis unfolding eq using Cons.IH [of "used + (length p + 1)"] False by simp
  qed (use Cons.prems in simp)
qed simp

lemma parts_within_Nil: "budget < used + 1 \<Longrightarrow> parts_within budget used ps = []"
  by (cases ps) auto

lemma length_fitting_parts: "length (join_with '' '' (fitting_parts budget parts)) \<le> budget"
proof (cases parts)
  case (Cons p ps)
  show ?thesis
  proof (cases "length p \<le> budget")
    case True
    then show ?thesis using parts_within_bound [OF True, of ps] length_join_with [of p "parts_within budget (length p) ps"]
      by (auto simp: fitting_parts_def Cons Let_def)
  next
    case False
    then show ?thesis using parts_within_Nil [of budget "length p" ps] by (simp add: fitting_parts_def Cons Let_def)
  qed
qed (simp add: fitting_parts_def)

lemma length_separator [simp]: "length BLOCK_TEXT_TRUNCATION_SEPARATOR = 5"
  by (simp add: BLOCK_TEXT_TRUNCATION_SEPARATOR_def)

lemma length_truncate_block_parts:
  assumes "0 < max_chars"
  shows "length (truncate_block_parts parts max_chars) \<le> max_chars"
proof -
  define hb where "hb = (max_chars - 5) div 2"
  define mb where "mb = (max_chars - 5) - hb"
  define hp where "hp = fitting_parts hb parts"
  define mp where "mp = fitting_parts mb (drop (max (length hp) (length parts div 2)) parts)"
  define joined where "joined = py_strip (join_with '' '' parts)"
  have eq: "truncate_block_parts parts max_chars =
      (if max_chars = 0 \<or> length joined \<le> max_chars then joined
       else if join_with '' '' mp = [] then take max_chars (join_with '' '' hp)
       else join_with '' '' hp @ BLOCK_TEXT_TRUNCATION_SEPARATOR @ join_with '' '' mp)"
    unfolding truncate_block_parts_def Let_def length_separator hb_def [symmetric] mb_def [symmetric] hp_def [symmetric] mp_def [symmetric]
      joined_def [symmetric] by (rule refl)
  have h: "length (join_with '' '' hp) \<le> hb" "length (join_with '' '' mp) \<le> mb"
    unfolding hp_def mp_def by (rule length_fitting_parts)+
  have "hb + mb = max_chars - 5" by (simp add: hb_def mb_def)
  moreover have "5 < max_chars" if "join_with '' '' mp \<noteq> []"
    using h(2) that calculation by (cases "join_with '' '' mp") auto
  ultimately show ?thesis unfolding eq using h assms by (cases "join_with '' '' mp = []") auto
qed

lemma length_truncate_block_text:
  assumes "0 < max_chars"
  shows "length (truncate_block_text txt max_chars) \<le> max_chars"
proof -
  define hc where "hc = (max_chars - 5) div 2"
  define mc where "mc = (max_chars - 5) - hc"
  define me where "me = min (length txt) (max hc (length txt div 2 - mc div 2) + mc)"
  have eq: "truncate_block_text txt max_chars =
      (if max_chars = 0 \<or> length txt \<le> max_chars then txt
       else if max_chars \<le> 5 + 4 then take max_chars txt
       else take hc txt @ BLOCK_TEXT_TRUNCATION_SEPARATOR @ slice txt (max hc (me - mc)) me)"
    unfolding truncate_block_text_def Let_def length_separator hc_def [symmetric] mc_def [symmetric] me_def [symmetric] by (rule refl)
  have "length (slice txt (max hc (me - mc)) me) \<le> mc" by (simp add: slice_def)
  moreover have "length (take hc txt) \<le> hc" by simp
  moreover have "hc + mc = max_chars - 5" by (simp add: hc_def mc_def)
  ultimately show ?thesis unfolding eq using assms by auto
qed

lemma topic_loop_texts: "\<forall>b\<in>set (topic_loop render part w n cur parts segs). \<exists>ps. tb_text b = render ps"
proof (induction render part w n cur parts segs rule: topic_loop.induct)
  case (4 render part w n a b parts s ss)
  then show ?case by (cases "seg_start_ms s - a \<ge> w") (auto simp: Let_def flush_block_def)
qed (auto simp: flush_block_def)

text \<open>No block's text exceeds the budget of characters it is given, with segment markers or without.\<close>

theorem block_texts_fit_the_budget:
  assumes "0 < max_chars" and "b \<in> set (build_topic_blocks markers max_chars whole segs)"
  shows "length (tb_text b) \<le> max_chars"
proof -
  define blocks where "blocks = topic_loop (shown_block_text markers max_chars) (segment_part markers)
    (block_window_ms TOPIC_CHAPTER_TARGET_BLOCK_COUNT TOPIC_CHAPTER_MIN_BLOCK_SECONDS TOPIC_CHAPTER_MAX_BLOCK_SECONDS whole) 0 None [] segs"
  have "b \<in> set blocks" using assms(2)
    by (auto simp: build_topic_blocks_def Let_def blocks_def [symmetric] dest: in_set_takeD split: if_splits)
  then obtain ps where "tb_text b = shown_block_text markers max_chars ps" unfolding blocks_def using topic_loop_texts by blast
  then show ?thesis using assms(1) length_truncate_block_parts length_truncate_block_text by (simp add: shown_block_text_def)
qed

section \<open>The times of the blocks\<close>

lemma rounded_up_bounds:
  assumes "60000 \<le> (w::int)" and "w \<le> 120000"
  shows "60000 \<le> (w + 30000 - 1) div 30000 * 30000" "60000 \<le> max 30000 ((w + 30000 - 1) div 30000 * 30000)"
proof -
  have "60000 div 30000 \<le> (w + 30000 - 1) div 30000" using assms by (intro zdiv_mono1) simp_all
  then show "60000 \<le> (w + 30000 - 1) div 30000 * 30000" by simp
  then show "60000 \<le> max 30000 ((w + 30000 - 1) div 30000 * 30000)" by (rule max.coboundedI2)
qed

lemma block_window_bounds:
  "60000 \<le> block_window_ms 60 60 120 whole \<and> block_window_ms 60 60 120 whole \<le> 120000"
proof -
  define w where "w = min (max (max 1 (60 * 1000)) (120 * 1000)) (max (max 1 (60 * 1000)) (max 1 (whole div max 1 60)))"
  have w: "60000 \<le> w" "w \<le> 120000" by (simp_all add: w_def)
  have "block_window_ms 60 60 120 whole = min (max (max 1 (60 * 1000)) (120 * 1000)) (max 30000 ((w + 30000 - 1) div 30000 * 30000))"
    unfolding block_window_ms_def Let_def w_def by (rule refl)
  with rounded_up_bounds(2) [OF w] show ?thesis by linarith
qed

abbreviation spaced_blocks :: "millis \<Rightarrow> topic_block list \<Rightarrow> bool" where
  "spaced_blocks w \<equiv> sorted_wrt (\<lambda>b c. tb_index b < tb_index c \<and> tb_start b + w \<le> tb_start c)"

lemma topic_loop_spaced:
  "0 \<le> w \<Longrightarrow> spaced_blocks w (topic_loop render part w n cur parts segs)
   \<and> (\<forall>b\<in>set (topic_loop render part w n cur parts segs). int n \<le> tb_index b \<and> (\<forall>a e. cur = Some (a, e) \<longrightarrow> a \<le> tb_start b)
        \<and> (tb_start b \<in> seg_start_ms ` set segs \<or> (\<exists>e. cur = Some (tb_start b, e))))"
proof (induction render part w n cur parts segs rule: topic_loop.induct)
  case (3 render part w n parts s ss)
  then show ?case by auto
next
  case (4 render part w n a b parts s ss)
  show ?case
  proof (cases "seg_start_ms s - a \<ge> w")
    case True
    have eq: "topic_loop render part w n (Some (a, b)) parts (s # ss) = flush_block render n (a, b) parts
        # topic_loop render part w (Suc n) (Some (seg_start_ms s, max (seg_start_ms s) (seg_end_ms s))) (part s) ss"
      using True by (simp add: Let_def)
    note IH = 4(1) [OF refl refl True 4(3)]
    have "\<forall>c\<in>set (topic_loop render part w (Suc n) (Some (seg_start_ms s, max (seg_start_ms s) (seg_end_ms s))) (part s) ss).
        int n < tb_index c \<and> a + w \<le> tb_start c \<and> (tb_start c \<in> seg_start_ms ` set (s # ss))"
      using IH True by fastforce
    then show ?thesis unfolding eq using IH 4(3) by (auto simp: flush_block_def)
  next
    case False
    have eq: "topic_loop render part w n (Some (a, b)) parts (s # ss) = topic_loop render part w n
        (Some (a, max (if b = 0 then max (seg_start_ms s) (seg_end_ms s) else b) (max (seg_start_ms s) (seg_end_ms s)))) (parts @ part s) ss"
      using False by (simp add: Let_def)
    show ?thesis unfolding eq using 4(2) [OF refl refl False 4(3)] by auto
  qed
qed (auto simp: flush_block_def)

definition topic_window :: "millis \<Rightarrow> millis" where
  "topic_window whole =
     block_window_ms TOPIC_CHAPTER_TARGET_BLOCK_COUNT TOPIC_CHAPTER_MIN_BLOCK_SECONDS TOPIC_CHAPTER_MAX_BLOCK_SECONDS whole"

definition raw_blocks :: "bool \<Rightarrow> nat \<Rightarrow> millis \<Rightarrow> segment_row list \<Rightarrow> topic_block list" where
  "raw_blocks markers max_chars whole segs =
     topic_loop (shown_block_text markers max_chars) (segment_part markers) (topic_window whole) 0 None [] segs"

lemma build_topic_blocks_eq:
  "segs \<noteq> [] \<Longrightarrow> build_topic_blocks markers max_chars whole segs =
     (let bs = raw_blocks markers max_chars whole segs; ne = filter (\<lambda>b. py_strip (tb_text b) \<noteq> []) bs in
      if ne \<noteq> [] then ne else take 1 bs)"
  by (simp add: build_topic_blocks_def raw_blocks_def topic_window_def Let_def)

lemma window_pos: "60000 \<le> topic_window whole" "topic_window whole \<le> 120000"
  using block_window_bounds [of whole]
  by (simp_all add: topic_window_def TOPIC_CHAPTER_TARGET_BLOCK_COUNT_def TOPIC_CHAPTER_MIN_BLOCK_SECONDS_def TOPIC_CHAPTER_MAX_BLOCK_SECONDS_def)

lemma raw_blocks_spaced:
  "spaced_blocks (topic_window whole) (raw_blocks markers max_chars whole segs)"
  "b \<in> set (raw_blocks markers max_chars whole segs) \<Longrightarrow> 0 \<le> tb_index b \<and> tb_start b \<in> seg_start_ms ` set segs"
proof -
  have w: "0 \<le> topic_window whole" using window_pos [of whole] by simp
  note t = topic_loop_spaced [OF w, of "shown_block_text markers max_chars" "segment_part markers" 0 None "[]" segs, folded raw_blocks_def]
  show "spaced_blocks (topic_window whole) (raw_blocks markers max_chars whole segs)" using t by simp
  show "b \<in> set (raw_blocks markers max_chars whole segs) \<Longrightarrow> 0 \<le> tb_index b \<and> tb_start b \<in> seg_start_ms ` set segs" using t by auto
qed

lemma build_topic_blocks_spaced:
  "spaced_blocks (topic_window whole) (build_topic_blocks markers max_chars whole segs)"
  "b \<in> set (build_topic_blocks markers max_chars whole segs) \<Longrightarrow> 0 \<le> tb_index b \<and> tb_start b \<in> seg_start_ms ` set segs"
proof -
  consider "segs = []" | "segs \<noteq> []" by blast
  then have "spaced_blocks (topic_window whole) (build_topic_blocks markers max_chars whole segs)
    \<and> set (build_topic_blocks markers max_chars whole segs) \<subseteq> set (raw_blocks markers max_chars whole segs)"
  proof cases
    case 2
    then show ?thesis using raw_blocks_spaced(1) [of whole markers max_chars segs]
      by (auto simp: build_topic_blocks_eq Let_def sorted_wrt_filter sorted_wrt_take dest: in_set_takeD split: if_splits)
  qed (simp add: build_topic_blocks_def)
  then show "spaced_blocks (topic_window whole) (build_topic_blocks markers max_chars whole segs)"
    "b \<in> set (build_topic_blocks markers max_chars whole segs) \<Longrightarrow> 0 \<le> tb_index b \<and> tb_start b \<in> seg_start_ms ` set segs"
    using raw_blocks_spaced(2) [of b markers max_chars whole segs] by auto
qed

lemma spaced_length:
  "spaced_blocks w bs \<Longrightarrow> bs \<noteq> [] \<Longrightarrow> int (length bs - 1) * w \<le> tb_start (last bs) - tb_start (hd bs)"
proof (induction bs)
  case (Cons b bs)
  show ?case
  proof (cases "bs = []")
    case False
    then have "tb_start b + w \<le> tb_start (hd bs)" using Cons.prems by simp
    moreover have "int (length bs - 1) * w \<le> tb_start (last bs) - tb_start (hd bs)" using Cons False by simp
    moreover have "int (length bs) * w = int (length bs - 1) * w + w" using False by (cases bs) (auto simp: algebra_simps)
    ultimately show ?thesis using False by simp
  qed simp
qed simp

text \<open>A transcript is cut into blocks whose starts are at least the window apart, which is between one and two
  minutes, so an episode that lasts d milliseconds gives at most d over the window plus one block,
  and a prompt of bounded size.\<close>

theorem block_count_is_bounded:
  assumes "\<forall>s\<in>set segs. 0 \<le> seg_start_ms s \<and> seg_start_ms s \<le> whole" and "0 \<le> whole"
  shows "60000 \<le> topic_window whole \<and> topic_window whole \<le> 120000
    \<and> sorted_wrt (\<lambda>b c. tb_start b + topic_window whole \<le> tb_start c) (build_topic_blocks markers max_chars whole segs)
    \<and> int (length (build_topic_blocks markers max_chars whole segs)) \<le> whole div topic_window whole + 1"
proof -
  let ?bs = "build_topic_blocks markers max_chars whole segs"
  note sp = build_topic_blocks_spaced [where markers = markers and max_chars = max_chars and segs = segs and whole = whole]
  have "int (length ?bs) \<le> whole div topic_window whole + 1"
  proof (cases "?bs = []")
    case True
    then show ?thesis using assms(2) window_pos [of whole] by (simp add: pos_imp_zdiv_nonneg_iff)
  next
    case False
    then have "tb_start (hd ?bs) \<in> seg_start_ms ` set segs" "tb_start (last ?bs) \<in> seg_start_ms ` set segs" using sp(2) by auto
    then have "0 \<le> tb_start (hd ?bs)" "tb_start (last ?bs) \<le> whole" using assms(1) by auto
    then have "tb_start (last ?bs) - tb_start (hd ?bs) \<le> whole" by simp
    with spaced_length [OF sp(1) False] have "int (length ?bs - 1) * topic_window whole \<le> whole" by simp
    then have "int (length ?bs - 1) \<le> whole div topic_window whole"
      using window_pos [of whole] zdiv_mono1 [of "int (length ?bs - 1) * topic_window whole" whole "topic_window whole"] by simp
    then show ?thesis using False by (cases ?bs) auto
  qed
  then show ?thesis using sp(1) window_pos [of whole] by (auto elim: sorted_wrt_mono_rel [rotated])
qed

section \<open>The chapters of a plan\<close>

lemma first_by_index_keys:
  "fst ` set (first_by_index seen plan) = fst ` set plan - seen \<and> distinct (map fst (first_by_index seen plan))
   \<and> set (first_by_index seen plan) \<subseteq> set plan"
  by (induction seen plan rule: first_by_index.induct) auto

lemma first_by_index_sorted:
  "sorted (map fst plan) \<Longrightarrow> sorted (map fst (first_by_index seen plan))"
proof (induction seen plan rule: first_by_index.induct)
  case (2 seen i title rest)
  then show ?case using first_by_index_keys [of "insert i seen" rest] by auto
qed simp

lemma map_of_first_by_index: "i \<notin> seen \<Longrightarrow> map_of (first_by_index seen plan) i = map_of plan i"
  by (induction seen plan rule: first_by_index.induct) auto

lemma map_of_sort_key: "distinct (map fst xs) \<Longrightarrow> map_of (sort_key fst xs) = map_of xs"
  by (rule map_of_inject_set [THEN iffD2]) (simp_all add: distinct_map)

text \<open>The continuation never overrides the first reply: the merged plan is in the order of the blocks, names
  every block once, has the first reply's title for every block the first reply names, and the
  continuation's for the others.\<close>

theorem merged_plan_keeps_the_first_reply:
  "sorted (map fst (merge_topic_plans_by_block_index primary secondary))
   \<and> distinct (map fst (merge_topic_plans_by_block_index primary secondary))
   \<and> map_of (merge_topic_plans_by_block_index primary secondary) i
       = (case map_of primary i of Some title \<Rightarrow> Some title | None \<Rightarrow> map_of secondary i)"
proof -
  have d: "distinct (map fst (first_by_index {} (primary @ secondary)))" using first_by_index_keys by blast
  then have "distinct (map fst (sort_key fst (first_by_index {} (primary @ secondary))))" by (simp add: distinct_map)
  moreover have "map_of (sort_key fst (first_by_index {} (primary @ secondary))) i = map_of (primary @ secondary) i"
    using map_of_sort_key [OF d] map_of_first_by_index [of i "{}"] by simp
  ultimately show ?thesis by (simp add: merge_topic_plans_by_block_index_def map_add_def split: option.split)
qed

abbreviation entries_ordered :: "(topic_block \<times> string) list \<Rightarrow> bool" where
  "entries_ordered \<equiv> sorted_wrt (\<lambda>x y. tb_index (fst x) < tb_index (fst y) \<and> tb_start (fst x) < tb_start (fst y))"

lemma find_member: "find P xs = Some x \<Longrightarrow> x \<in> set xs \<and> P x"
  by (induction xs) (auto split: if_splits)

lemma block_at_Some: "block_at blocks i = Some b \<Longrightarrow> b \<in> set blocks \<and> tb_index b = i"
  unfolding block_at_def using find_member [of "\<lambda>b. tb_index b = i" "rev blocks" b] by simp

lemma spaced_mono:
  "spaced_blocks w blocks \<Longrightarrow> b \<in> set blocks \<Longrightarrow> c \<in> set blocks \<Longrightarrow> tb_index b < tb_index c \<Longrightarrow> tb_start b + w \<le> tb_start c"
  by (induction blocks) auto

definition resolved_entries :: "topic_block list \<Rightarrow> topic_plan \<Rightarrow> (topic_block \<times> string) list" where
  "resolved_entries blocks valid = List.map_filter (\<lambda>(i, title). map_option (\<lambda>b. (b, title)) (block_at blocks i)) valid"

lemma resolved_entries_simps:
  "resolved_entries blocks [] = []"
  "block_at blocks i = None \<Longrightarrow> resolved_entries blocks ((i, title) # valid) = resolved_entries blocks valid"
  "block_at blocks i = Some b \<Longrightarrow> resolved_entries blocks ((i, title) # valid) = (b, title) # resolved_entries blocks valid"
  by (simp_all add: resolved_entries_def List.map_filter_simps)

lemma resolved_entries_keys:
  "e \<in> set (resolved_entries blocks valid) \<Longrightarrow> fst e \<in> set blocks \<and> tb_index (fst e) \<in> fst ` set valid"
proof (induction valid)
  case (Cons v valid)
  obtain i title where v: "v = (i, title)" by force
  show ?case
  proof (cases "block_at blocks i")
    case None
    then show ?thesis using Cons by (simp add: v resolved_entries_simps(2))
  next
    case (Some b)
    then show ?thesis using Cons block_at_Some [OF Some] by (auto simp: v resolved_entries_simps(3))
  qed
qed (simp add: resolved_entries_simps)

lemma resolved_entries_ordered:
  assumes "spaced_blocks w blocks" and "0 < w" and "sorted_wrt (\<lambda>x y. fst x < fst y) valid"
  shows "entries_ordered (resolved_entries blocks valid)"
  using assms(3)
proof (induction valid)
  case (Cons v valid)
  obtain i title where v: "v = (i, title)" by force
  have IH: "entries_ordered (resolved_entries blocks valid)" using Cons by simp
  show ?case
  proof (cases "block_at blocks i")
    case None
    then show ?thesis using IH by (simp add: v resolved_entries_simps(2))
  next
    case (Some b)
    note b = block_at_Some [OF Some]
    have "tb_index b < tb_index (fst e) \<and> tb_start b < tb_start (fst e)" if "e \<in> set (resolved_entries blocks valid)" for e
    proof -
      note k = resolved_entries_keys [OF that]
      then have "tb_index b < tb_index (fst e)" using Cons.prems v b by auto
      then show ?thesis using spaced_mono [OF assms(1), of b "fst e"] b k assms(2) by simp
    qed
    then show ?thesis using IH by (simp add: v resolved_entries_simps(3) [OF Some])
  qed
qed (simp add: resolved_entries_simps)

lemma strictly_sorted_keys: "sorted (map fst xs) \<Longrightarrow> distinct (map fst xs) \<Longrightarrow> sorted_wrt (\<lambda>x y. fst x < fst y) xs"
  by (induction xs) (auto simp: order.strict_iff_order)

lemma normalized_ok:
  assumes "spaced_blocks w blocks" and "0 < w" and "\<forall>b\<in>set blocks. 0 \<le> tb_index b"
    and "normalize_topic_plan_entries blocks plan = Some entries" and "entries \<noteq> []"
  shows "entries_ordered entries \<and> fst ` set entries \<subseteq> set blocks \<and> block_at blocks 0 = Some (fst (hd entries))"
proof -
  define valid where "valid = first_by_index {} (filter (\<lambda>(i, _). block_at blocks i \<noteq> None) (sort_key fst plan))"
  define E where "E = resolved_entries blocks valid"
  have "sorted (map fst (filter (\<lambda>(i, _). block_at blocks i \<noteq> None) (sort_key fst plan)))" by (intro sorted_filter) simp
  then have v: "sorted_wrt (\<lambda>x y. fst x < fst y) valid"
    unfolding valid_def by (intro strictly_sorted_keys first_by_index_sorted) (use first_by_index_keys in blast)+
  have E: "entries_ordered E" unfolding E_def by (rule resolved_entries_ordered [OF assms(1,2) v])
  note k = resolved_entries_keys [of _ blocks valid, folded E_def]
  have n: "(if E = [] then Some [] else if fst (hd valid) \<noteq> 0 then
        (case block_at blocks 0 of None \<Rightarrow> None | Some b \<Rightarrow> Some ((b, chapter_title_from_text (tb_text b) 1) # E)) else Some E) = Some entries"
    by (rule assms(4) [unfolded normalize_topic_plan_entries_def Let_def, folded valid_def resolved_entries_def, folded E_def])
  then have ne: "E \<noteq> []" using assms(5) by auto
  then obtain i title valid' where vs: "valid = (i, title) # valid'" by (cases valid) (auto simp: E_def resolved_entries_simps)
  have "(i, title) \<in> set valid" by (simp add: vs)
  then have "(i, title) \<in> set (filter (\<lambda>(i, _). block_at blocks i \<noteq> None) (sort_key fst plan))"
    unfolding valid_def using first_by_index_keys by blast
  then obtain b where b: "block_at blocks i = Some b" by auto
  then have hd: "hd E = (b, title)" by (simp add: E_def vs resolved_entries_simps(3))
  show ?thesis
  proof (cases "i = 0")
    case True
    then have "entries = E" using n ne vs by simp
    then show ?thesis using E k hd b True by auto
  next
    case False
    then obtain b0 where b0: "block_at blocks 0 = Some b0" and en: "entries = (b0, chapter_title_from_text (tb_text b0) 1) # E"
      using n ne vs by (auto split: option.splits)
    note bb = block_at_Some [OF b0]
    have "\<forall>e\<in>set E. tb_index b0 < tb_index (fst e) \<and> tb_start b0 < tb_start (fst e)"
    proof
      fix e assume e: "e \<in> set E"
      then have "tb_index (fst e) \<in> fst ` set valid" "fst e \<in> set blocks" using k by auto
      then have "i \<le> tb_index (fst e)" using v vs by (auto intro: less_imp_le)
      moreover have "0 \<le> i" using block_at_Some [OF b] assms(3) by auto
      ultimately have "tb_index b0 < tb_index (fst e)" using False bb by simp
      then show "tb_index b0 < tb_index (fst e) \<and> tb_start b0 < tb_start (fst e)"
        using spaced_mono [OF assms(1), of b0 "fst e"] bb \<open>fst e \<in> set blocks\<close> assms(2) by simp
    qed
    then show ?thesis using E k bb b0 by (auto simp: en)
  qed
qed

fun apart :: "millis \<Rightarrow> (topic_block \<times> string) list \<Rightarrow> bool" where
  "apart gap (x # y # z # es) \<longleftrightarrow> tb_start (fst x) + gap \<le> tb_start (fst y) \<and> apart gap (y # z # es)"
| "apart gap _ \<longleftrightarrow> True"

lemma spaced_entries_set: "set (spaced_entries gap l prev es) \<subseteq> set es"
  by (induction gap l prev es rule: spaced_entries.induct) (auto split: option.splits if_splits)

lemma spaced_entries_ordered: "entries_ordered es \<Longrightarrow> entries_ordered (spaced_entries gap l prev es)"
proof (induction gap l prev es rule: spaced_entries.induct)
  case (2 gap l prev b title rest)
  have IH: "entries_ordered (spaced_entries gap l q rest)" for q
  proof -
    have r: "entries_ordered rest" using 2(4) by simp
    show ?thesis using r
    proof (induction rest arbitrary: q)
      case (Cons e es)
      obtain c t where e: "e = (c, t)" by force
      have "\<forall>x\<in>set (spaced_entries gap l (Some (tb_start c)) es). tb_index c < tb_index (fst x) \<and> tb_start c < tb_start (fst x)"
        using spaced_entries_set [of gap l "Some (tb_start c)" es] Cons.prems e by auto
      then show ?case using Cons e by (auto split: option.split)
    qed simp
  qed
  have "\<forall>x\<in>set (spaced_entries gap l (Some (tb_start b)) rest). tb_index b < tb_index (fst x) \<and> tb_start b < tb_start (fst x)"
    using spaced_entries_set [of gap l "Some (tb_start b)" rest] 2(4) by auto
  then show ?case using IH by (auto split: option.split)
qed simp

lemma spaced_entries_apart:
  "entries_ordered es \<Longrightarrow> es \<noteq> [] \<Longrightarrow> l = tb_index (fst (last es)) \<Longrightarrow>
   apart gap (spaced_entries gap l (Some p) es)
   \<and> (2 \<le> length (spaced_entries gap l (Some p) es) \<longrightarrow> p + gap \<le> tb_start (fst (hd (spaced_entries gap l (Some p) es))))"
proof (induction es arbitrary: p)
  case (Cons e es)
  obtain b title where e: "e = (b, title)" by force
  show ?case
  proof (cases "es = []")
    case True
    then show ?thesis by (simp add: e)
  next
    case False
    have l: "l = tb_index (fst (last es))" "last es \<in> set es" using Cons.prems(3) False by simp_all
    then have nl: "tb_index b \<noteq> l" using Cons.prems(1) e by auto
    have IH: "apart gap (spaced_entries gap l (Some q) es)
      \<and> (2 \<le> length (spaced_entries gap l (Some q) es) \<longrightarrow> q + gap \<le> tb_start (fst (hd (spaced_entries gap l (Some q) es))))" for q
      using Cons.IH [of q] Cons.prems(1) False l(1) by simp
    show ?thesis
    proof (cases "tb_start b - p < gap")
      case True
      then have eq: "spaced_entries gap l (Some p) (e # es) = spaced_entries gap l (Some p) es" using nl by (simp add: e)
      show ?thesis unfolding eq by (rule IH)
    next
      case False2: False
      then have eq: "spaced_entries gap l (Some p) (e # es) = e # spaced_entries gap l (Some (tb_start b)) es" by (simp add: e)
      have "apart gap (e # spaced_entries gap l (Some (tb_start b)) es)"
      proof (cases "spaced_entries gap l (Some (tb_start b)) es")
        case s1: (Cons x xs)
        then show ?thesis using IH [of "tb_start b"] by (cases xs) (simp_all add: e)
      qed simp
      then show ?thesis unfolding eq using False2 by (simp add: e)
    qed
  qed
qed simp

lemma plan_chapters_starts:
  "\<forall>e\<in>set es. 0 \<le> tb_start (fst e) \<Longrightarrow> map start_time_ms (plan_chapters i whole es) = map (tb_start \<circ> fst) es"
  by (induction i whole es rule: plan_chapters.induct) (auto simp: mk_chapter_def Let_def)

lemma plan_chapters_tile:
  "\<forall>e\<in>set es. 0 \<le> tb_start (fst e) \<Longrightarrow> entries_ordered es \<Longrightarrow> tiling whole (plan_chapters i whole es)"
proof (induction i whole es rule: plan_chapters.induct)
  case (2 i whole b title rest)
  then show ?case by (cases rest) (auto simp: mk_chapter_def Let_def)
qed simp

fun long_but_last :: "millis \<Rightarrow> millis list \<Rightarrow> bool" where
  "long_but_last gap (x # y # z # ts) \<longleftrightarrow> x + gap \<le> y \<and> long_but_last gap (y # z # ts)"
| "long_but_last gap _ \<longleftrightarrow> True"

lemma apart_starts: "apart gap es = long_but_last gap (map (tb_start \<circ> fst) es)"
  by (induction gap es rule: apart.induct) auto

text \<open>C24.  What becomes of a model's plan, whatever it says: if chapters are made of it, they are a timeline that
  starts with the first block and tiles the episode, each starts with a block, two consecutive starts
  are at least the minimal gap apart except before the last one, and a single chapter is accepted for
  a short episode only.\<close>

theorem plan_chapters_are_a_timeline:
  assumes "spaced_blocks w blocks" and "0 < w" and "\<forall>b\<in>set blocks. 0 \<le> tb_index b \<and> 0 \<le> tb_start b"
    and "chapters_from_topic_plan (\<lambda>_. None) plan blocks whole gap = Some cs" and "cs \<noteq> []"
  shows "tiling whole cs \<and> (\<exists>b. block_at blocks 0 = Some b \<and> start_time_ms (hd cs) = tb_start b)
    \<and> (\<forall>c\<in>set cs. start_time_ms c \<in> tb_start ` set blocks) \<and> long_but_last gap (map start_time_ms cs)
    \<and> \<not> (length cs = 1 \<and> 20 * 60 * 1000 \<le> whole)"
proof -
  obtain entries where n: "normalize_topic_plan_entries blocks plan = Some entries" "entries \<noteq> []"
    using assms(4,5) by (auto simp: chapters_from_topic_plan_def split: if_splits option.splits list.splits)
  define spaced where "spaced = filter_topic_plan_entries gap entries"
  have cs: "cs = plan_chapters 0 whole spaced" "\<not> (length spaced = 1 \<and> 20 * 60 * 1000 \<le> whole)"
    using assms(4,5) n by (auto simp: chapters_from_topic_plan_def spaced_def Let_def split: if_splits option.splits list.splits)
  have i: "\<forall>b\<in>set blocks. 0 \<le> tb_index b" using assms(3) by simp
  note E = normalized_ok [OF assms(1,2) i n]
  obtain b title rest where en: "entries = (b, title) # rest" using n(2) by (cases entries) auto
  define l where "l = tb_index (fst (last entries))"
  have sp: "spaced = (b, title) # spaced_entries gap l (Some (tb_start b)) rest"
    by (simp add: spaced_def filter_topic_plan_entries_def en l_def)
  have sub: "set spaced \<subseteq> set entries" and ord: "entries_ordered spaced"
    using E spaced_entries_set [of gap l None entries] spaced_entries_ordered [of entries gap l None]
    by (simp_all add: spaced_def filter_topic_plan_entries_def l_def)
  have pos: "\<forall>e\<in>set spaced. 0 \<le> tb_start (fst e)" using sub E assms(3) by fastforce
  note st = plan_chapters_starts [OF pos, of 0 whole, folded cs(1)]
  have "apart gap spaced"
  proof (cases "rest = []")
    case False
    have "apart gap (spaced_entries gap l (Some (tb_start b)) rest) \<and> (2 \<le> length (spaced_entries gap l (Some (tb_start b)) rest) \<longrightarrow>
        tb_start b + gap \<le> tb_start (fst (hd (spaced_entries gap l (Some (tb_start b)) rest))))"
      using E False by (intro spaced_entries_apart) (simp_all add: en l_def)
    then show ?thesis unfolding sp
      by (cases "spaced_entries gap l (Some (tb_start b)) rest"; cases "tl (spaced_entries gap l (Some (tb_start b)) rest)") auto
  qed (simp add: sp)
  then have "long_but_last gap (map start_time_ms cs)" unfolding st by (simp add: apart_starts)
  moreover have "tiling whole cs" unfolding cs(1) by (rule plan_chapters_tile [OF pos ord])
  moreover have "start_time_ms (hd cs) = tb_start b" using st sp assms(5) by (cases cs) auto
  moreover have "set (map start_time_ms cs) \<subseteq> tb_start ` set blocks" unfolding st using sub E by fastforce
  moreover have "length cs = length spaced" using arg_cong [OF st, of length] by simp
  ultimately show ?thesis using E en cs(2) by auto
qed

text \<open>A transcript that opens without words discards every plan: the first block is dropped for its empty text,
  and a plan that names any other block then fails on the lookup of block 0, so that no topic
  chapters are made although the model was asked and answered.\<close>

theorem silent_opening_discards_the_plan:
  assumes "block_at blocks 0 = None" and "(i, title) \<in> set plan" and "block_at blocks i \<noteq> None"
  shows "chapters_from_topic_plan (\<lambda>_. None) plan blocks whole gap = None"
proof -
  define valid where "valid = first_by_index {} (filter (\<lambda>(i, _). block_at blocks i \<noteq> None) (sort_key fst plan))"
  have "i \<in> fst ` set (filter (\<lambda>(i, _). block_at blocks i \<noteq> None) (sort_key fst plan))" using assms(2,3) by force
  then have "i \<in> fst ` set valid" unfolding valid_def using first_by_index_keys by blast
  then obtain k t valid' where v: "valid = (k, t) # valid'" by (cases valid) auto
  have "(k, t) \<in> set valid" by (simp add: v)
  then have "(k, t) \<in> set (filter (\<lambda>(i, _). block_at blocks i \<noteq> None) (sort_key fst plan))"
    unfolding valid_def using first_by_index_keys by blast
  then obtain b where b: "block_at blocks k = Some b" by auto
  then have "k \<noteq> 0" using assms(1) by auto
  moreover have "resolved_entries blocks valid \<noteq> []" by (simp add: v resolved_entries_simps(3) [OF b])
  ultimately have "normalize_topic_plan_entries blocks plan = None"
    unfolding normalize_topic_plan_entries_def Let_def valid_def [symmetric] resolved_entries_def [symmetric]
    using assms(1) v by simp
  moreover have "plan \<noteq> []" "blocks \<noteq> []" using assms(2,3) by (auto simp: block_at_def)
  ultimately show ?thesis by (simp add: chapters_from_topic_plan_def)
qed

text \<open>A continuation request that raises discards the plan that was recovered from the first reply, while one
  that answers with nothing readable keeps it.\<close>

theorem failed_continuation_discards_the_plan:
  assumes "needs_continuation r" and "pr_plan r \<noteq> []"
    and "build_topic_retry_blocks blocks (pr_plan r) TOPIC_CHAPTER_RETRY_OVERLAP_BLOCKS = (rest, Some k)" and "rest \<noteq> []"
    and "build_topic_chapter_generation_prompt rest whole (to_target opts) (to_min opts) (Some k) (map fst (pr_plan r)) (to_align opts) = Some tp"
    and "request_topic_chapter_plan te env cc post TOPIC_PLAN_CONTINUATION_RANGE (te_render te tp) w = (Inl e, w')"
  shows "chapters_of_reply te env cc post opts blocks whole segs r w = ([], w')"
  using assms by (simp add: chapters_of_reply_def retry_incomplete_topic_chapter_plan_def Let_def)

text \<open>Refining the titles changes titles only: whatever the model answers, the chapters keep their number, order,
  identifiers and times, and a chapter that has a title keeps one.\<close>

theorem refined_titles_keep_the_times:
  assumes "\<forall>c\<in>set cs. start_time_ms c \<le> end_time_ms c \<and> chapter_title c \<noteq> []"
    and "refine_generated_chapter_titles_with_llm te env cc post cs rows w = (cs', w')"
  shows "map (\<lambda>c. (element_id c, start_time_ms c, end_time_ms c)) cs' = map (\<lambda>c. (element_id c, start_time_ms c, end_time_ms c)) cs
    \<and> (\<forall>c\<in>set cs'. chapter_title c \<noteq> [])"
proof -
  have one: "map (\<lambda>c. (element_id c, start_time_ms c, end_time_ms c)) (retitled titles cs) = map (\<lambda>c. (element_id c, start_time_ms c, end_time_ms c)) cs
      \<and> (\<forall>c\<in>set (retitled titles cs). chapter_title c \<noteq> [])" for titles
  proof -
    have "map (\<lambda>c. (element_id c, start_time_ms c, end_time_ms c)) (retitled titles cs)
        = map (\<lambda>(i, c). (element_id c, start_time_ms c, end_time_ms c)) (enumerate 0 cs)"
      using assms(1) by (auto simp: retitled_def mk_chapter_def comp_def enumerate_eq_zip dest!: set_zip_rightD)
    also have "\<dots> = map (\<lambda>c. (element_id c, start_time_ms c, end_time_ms c)) (map snd (enumerate 0 cs))"
      unfolding map_map comp_def case_prod_unfold by (rule refl)
    also have "map snd (enumerate 0 cs) = cs" by (simp add: enumerate_eq_zip)
    finally show ?thesis using assms(1)
      by (auto simp: retitled_def mk_chapter_def enumerate_eq_zip dest!: set_zip_rightD split: option.splits if_splits)
  qed
  have "cs' = cs \<or> (\<exists>titles. cs' = retitled titles cs)"
    using assms(2) by (auto simp: refine_generated_chapter_titles_with_llm_def Let_def split: if_splits prod.splits sum.splits)
  then show ?thesis using one assms(1) by auto
qed

section \<open>Full blocks\<close>

definition trimmed :: "string \<Rightarrow> bool" where
  "trimmed q \<longleftrightarrow> q \<noteq> [] \<and> \<not> py_space (hd q) \<and> \<not> py_space (last q)"

lemma trimmed_py_strip: "trimmed q \<Longrightarrow> py_strip q = q"
proof -
  assume q: "trimmed q"
  then have "py_lstrip q = q" by (cases q) (auto simp: trimmed_def py_lstrip_def)
  moreover have "py_rstrip q = q" using q by (cases q rule: rev_cases) (auto simp: trimmed_def py_rstrip_def)
  ultimately show ?thesis by (simp add: py_strip_def)
qed

lemma py_strip_trimmed: "py_strip q \<noteq> [] \<Longrightarrow> trimmed (py_strip q)"
proof -
  assume ne: "py_strip q \<noteq> []"
  let ?l = "py_lstrip q"
  have r: "py_strip q = py_rstrip ?l" by (simp add: py_strip_def)
  obtain xs where l: "?l = py_rstrip ?l @ xs" unfolding py_rstrip_def by (metis rev_append rev_rev_ident takeWhile_dropWhile_id)
  have "?l \<noteq> []" using ne r by (auto simp: py_rstrip_def)
  then have "\<not> py_space (hd ?l)" by (rule hd_py_lstrip)
  moreover have "hd ?l = hd (py_rstrip ?l)" using ne r l by (metis hd_append2)
  ultimately show ?thesis using ne r last_py_rstrip by (simp add: trimmed_def)
qed

lemma trimmed_join: "ps \<noteq> [] \<Longrightarrow> \<forall>q\<in>set ps. trimmed q \<Longrightarrow> trimmed (join_with '' '' ps) \<and> hd (join_with '' '' ps) = hd (hd ps)"
proof (induction "'' ''" ps rule: join_with.induct)
  case (3 v u us)
  then have "trimmed (join_with '' '' (u # us))" "trimmed v" by auto
  then show ?case by (auto simp: trimmed_def)
qed auto

lemma str_in_join: "q \<in> set ps \<Longrightarrow> str_in q (join_with '' '' ps)"
proof (induction "'' ''" ps rule: join_with.induct)
  case (3 v u us)
  show ?case
  proof (cases "q = v")
    case True
    then show ?thesis unfolding str_in_iff by (metis append_Nil join_with.simps(3))
  next
    case False
    then obtain a b where "join_with '' '' (u # us) = a @ q @ b" using 3 unfolding str_in_iff by auto
    then have "join_with '' '' (v # u # us) = (v @ '' '' @ a) @ q @ b" by simp
    then show ?thesis unfolding str_in_iff by blast
  qed
qed (auto simp: str_in_iff intro: exI [of _ "[]"])

lemma str_in_trans: "str_in p q \<Longrightarrow> str_in q r \<Longrightarrow> str_in p r"
  unfolding str_in_iff by (metis append.assoc)

lemma trimmed_part: "q \<in> set (segment_part markers s) \<Longrightarrow> trimmed q \<and> str_in (squeeze_spaces (sg_text s)) q"
proof -
  assume q: "q \<in> set (segment_part markers s)"
  then have ne: "squeeze_spaces (sg_text s) \<noteq> []" by (auto simp: segment_part_def)
  then have t: "trimmed (squeeze_spaces (sg_text s))" unfolding squeeze_spaces_def by (rule py_strip_trimmed)
  consider "q = squeeze_spaces (sg_text s)" | a where "q = CHR ''['' # a @ squeeze_spaces (sg_text s)"
    using q ne by (cases markers) (auto simp: segment_part_def)
  then show ?thesis
  proof cases
    case 1
    then show ?thesis using t by (auto simp: str_in_iff intro: exI [of _ "[]"])
  next
    case 2
    have "str_in (squeeze_spaces (sg_text s)) q" unfolding str_in_iff 2 by (metis append_Cons append_Nil2)
    then show ?thesis using t ne by (simp add: 2 trimmed_def py_space_def)
  qed
qed

text \<open>The block that holds given parts: its text shows all of them.\<close>

definition shows_parts :: "(string list \<Rightarrow> string) \<Rightarrow> string list \<Rightarrow> topic_block \<Rightarrow> bool" where
  "shows_parts render parts b \<longleftrightarrow> (\<exists>ps. tb_text b = render ps \<and> set parts \<subseteq> set ps \<and> (\<forall>q\<in>set ps. trimmed q))"

lemma topic_loop_covers:
  assumes "\<And>s q. q \<in> set (part s) \<Longrightarrow> trimmed q" and "0 < w"
  shows "sorted (map seg_start_ms segs) \<Longrightarrow> \<forall>q\<in>set parts. trimmed q \<Longrightarrow> \<forall>a e. cur = Some (a, e) \<longrightarrow> (\<forall>s\<in>set segs. a \<le> seg_start_ms s) \<Longrightarrow>
     (\<forall>a e. cur = Some (a, e) \<longrightarrow> (\<exists>b\<in>set (topic_loop render part w n cur parts segs). tb_start b = a \<and> shows_parts render parts b))
     \<and> (\<forall>s\<in>set segs. \<exists>b\<in>set (topic_loop render part w n cur parts segs).
          tb_start b \<le> seg_start_ms s \<and> seg_start_ms s < tb_start b + w \<and> shows_parts render (part s) b)"
proof (induction segs arbitrary: cur parts n)
  case Nil
  then show ?case by (cases cur) (auto simp: flush_block_def shows_parts_def)
next
  case (Cons s ss)
  have srt: "sorted (map seg_start_ms ss)" and le: "\<forall>u\<in>set ss. seg_start_ms s \<le> seg_start_ms u" using Cons.prems(1) by auto
  have tr: "\<forall>q\<in>set (xs @ part s). trimmed q" if "\<forall>q\<in>set xs. trimmed q" for xs using that assms(1) by auto
  have weaken: "shows_parts render (xs @ ys) b \<Longrightarrow> shows_parts render xs b \<and> shows_parts render ys b" for xs ys b
    by (auto simp: shows_parts_def)
  show ?case
  proof (cases cur)
    case None
    let ?c = "Some (seg_start_ms s, max (seg_start_ms s) (seg_end_ms s))"
    have eq: "topic_loop render part w n cur parts (s # ss) = topic_loop render part w n ?c (parts @ part s) ss" by (simp add: None)
    have IH: "(\<forall>a e. ?c = Some (a, e) \<longrightarrow> (\<exists>b\<in>set (topic_loop render part w n ?c (parts @ part s) ss). tb_start b = a \<and> shows_parts render (parts @ part s) b))
        \<and> (\<forall>u\<in>set ss. \<exists>b\<in>set (topic_loop render part w n ?c (parts @ part s) ss).
          tb_start b \<le> seg_start_ms u \<and> seg_start_ms u < tb_start b + w \<and> shows_parts render (part u) b)"
      by (rule Cons.IH [OF srt tr [OF Cons.prems(2)]]) (use le in auto)
    then obtain b where b: "b \<in> set (topic_loop render part w n ?c (parts @ part s) ss)" "tb_start b = seg_start_ms s"
      "shows_parts render (parts @ part s) b" by blast
    then have "\<exists>b\<in>set (topic_loop render part w n ?c (parts @ part s) ss).
        tb_start b \<le> seg_start_ms s \<and> seg_start_ms s < tb_start b + w \<and> shows_parts render (part s) b"
      using weaken [OF b(3)] assms(2) by (intro bexI [of _ b]) auto
    then show ?thesis unfolding eq using IH by (simp add: None)
  next
    case (Some c)
    obtain a e where c: "cur = Some (a, e)" using Some by (cases c) auto
    have a: "a \<le> seg_start_ms s" "\<forall>u\<in>set ss. a \<le> seg_start_ms u" using Cons.prems(3) c by auto
    show ?thesis
    proof (cases "seg_start_ms s - a \<ge> w")
      case True
      let ?c = "Some (seg_start_ms s, max (seg_start_ms s) (seg_end_ms s))"
      have eq: "topic_loop render part w n cur parts (s # ss) = flush_block render n (a, e) parts # topic_loop render part w (Suc n) ?c (part s) ss"
        using True by (simp add: c Let_def)
      have IH: "(\<forall>a e. ?c = Some (a, e) \<longrightarrow> (\<exists>b\<in>set (topic_loop render part w (Suc n) ?c (part s) ss). tb_start b = a \<and> shows_parts render (part s) b))
        \<and> (\<forall>u\<in>set ss. \<exists>b\<in>set (topic_loop render part w (Suc n) ?c (part s) ss).
          tb_start b \<le> seg_start_ms u \<and> seg_start_ms u < tb_start b + w \<and> shows_parts render (part u) b)"
        by (rule Cons.IH [OF srt]) (use le assms(1) in auto)
      then obtain b where b: "b \<in> set (topic_loop render part w (Suc n) ?c (part s) ss)" "tb_start b = seg_start_ms s" "shows_parts render (part s) b"
        by blast
      have "tb_start (flush_block render n (a, e) parts) = a \<and> shows_parts render parts (flush_block render n (a, e) parts)"
        using Cons.prems(2) by (auto simp: flush_block_def shows_parts_def)
      then show ?thesis unfolding eq using IH b assms(2) c by auto
    next
      case False
      define e' where "e' = max (if e = 0 then max (seg_start_ms s) (seg_end_ms s) else e) (max (seg_start_ms s) (seg_end_ms s))"
      have eq: "topic_loop render part w n cur parts (s # ss) = topic_loop render part w n (Some (a, e')) (parts @ part s) ss"
        using False by (simp add: c Let_def e'_def)
      have IH: "(\<forall>x y. Some (a, e') = Some (x, y) \<longrightarrow> (\<exists>b\<in>set (topic_loop render part w n (Some (a, e')) (parts @ part s) ss). tb_start b = x \<and> shows_parts render (parts @ part s) b))
        \<and> (\<forall>u\<in>set ss. \<exists>b\<in>set (topic_loop render part w n (Some (a, e')) (parts @ part s) ss).
          tb_start b \<le> seg_start_ms u \<and> seg_start_ms u < tb_start b + w \<and> shows_parts render (part u) b)"
        by (rule Cons.IH [OF srt tr [OF Cons.prems(2)]]) (use a in auto)
      then obtain b where b: "b \<in> set (topic_loop render part w n (Some (a, e')) (parts @ part s) ss)" "tb_start b = a"
        "shows_parts render (parts @ part s) b" by blast
      then have "\<exists>b\<in>set (topic_loop render part w n (Some (a, e')) (parts @ part s) ss).
          tb_start b \<le> seg_start_ms s \<and> seg_start_ms s < tb_start b + w \<and> shows_parts render (part s) b"
        using weaken [OF b(3)] a(1) False by (intro bexI [of _ b]) auto
      then show ?thesis unfolding eq using IH b weaken [OF b(3)] c by auto
    qed
  qed
qed

text \<open>C25.  With the limit on the text of a block switched off, the model sees every word: for every segment of a sorted
  transcript that says something, the block around the segment's start is asked about and its text
  contains what the segment says.\<close>

theorem full_blocks_show_every_word:
  assumes "sorted (map seg_start_ms segs)" and "s \<in> set segs" and "squeeze_spaces (sg_text s) \<noteq> []"
  shows "\<exists>b\<in>set (build_topic_blocks markers 0 whole segs). tb_start b \<le> seg_start_ms s \<and> seg_start_ms s < tb_start b + topic_window whole
    \<and> str_in (squeeze_spaces (sg_text s)) (tb_text b)"
proof -
  have "\<exists>b\<in>set (raw_blocks markers 0 whole segs). tb_start b \<le> seg_start_ms s \<and> seg_start_ms s < tb_start b + topic_window whole
      \<and> shows_parts (shown_block_text markers 0) (segment_part markers s) b"
    using topic_loop_covers [where part = "segment_part markers" and w = "topic_window whole" and segs = segs and parts = "[]" and cur = None
        and render = "shown_block_text markers 0" and n = 0] trimmed_part window_pos [of whole] assms(1,2)
    by (simp add: raw_blocks_def)
  then obtain b ps where b: "b \<in> set (raw_blocks markers 0 whole segs)" "tb_start b \<le> seg_start_ms s" "seg_start_ms s < tb_start b + topic_window whole"
    and ps: "tb_text b = shown_block_text markers 0 ps" "set (segment_part markers s) \<subseteq> set ps" "\<forall>q\<in>set ps. trimmed q"
    by (auto simp: shows_parts_def)
  obtain q where q: "q \<in> set (segment_part markers s)" using assms(3) by (cases markers) (auto simp: segment_part_def)
  then have qp: "q \<in> set ps" "str_in (squeeze_spaces (sg_text s)) q" using ps(2) trimmed_part by auto
  then have j: "trimmed (join_with '' '' ps)" using trimmed_join [of ps] ps(3) by fastforce
  have t: "tb_text b = join_with '' '' ps" unfolding ps(1)
    by (simp add: shown_block_text_def truncate_block_parts_def truncate_block_text_def Let_def trimmed_py_strip [OF j])
  have "b \<in> set (build_topic_blocks markers 0 whole segs)"
  proof -
    have ne: "segs \<noteq> []" using assms(2) by auto
    have "b \<in> set (filter (\<lambda>b. py_strip (tb_text b) \<noteq> []) (raw_blocks markers 0 whole segs))"
      using b(1) trimmed_py_strip [OF j] j t by (simp add: trimmed_def)
    moreover from this have "filter (\<lambda>b. py_strip (tb_text b) \<noteq> []) (raw_blocks markers 0 whole segs) \<noteq> []"
      by (metis empty_iff empty_set)
    ultimately show ?thesis unfolding build_topic_blocks_eq [OF ne] Let_def by simp
  qed
  then show ?thesis using b(2,3) t str_in_trans [OF qp(2) str_in_join [OF qp(1)]] by auto
qed

section \<open>Concrete inputs\<close>

definition sample_rows :: "segment_row list" where
  "sample_rows = [sample_row 0 0 5 ''hello'', sample_row 1 200 205 ''other news'']"

lemma sample_rows_ok:
  "sorted (map seg_start_ms sample_rows)" "\<forall>s\<in>set sample_rows. 0 \<le> seg_start_ms s \<and> seg_start_ms s \<le> 205000"
  by (simp_all add: sample_rows_def sample_row_def seg_start_ms_def py_int_def)

theorem block_texts_fit_the_budget_witness:
  "\<exists>b. b \<in> set (build_topic_blocks True 8 205000 sample_rows) \<and> length (tb_text b) \<le> 8"
proof -
  have "length (build_topic_blocks True 8 205000 sample_rows) = 2" by code_simp
  then have "build_topic_blocks True 8 205000 sample_rows \<noteq> []" by auto
  then obtain b where "b \<in> set (build_topic_blocks True 8 205000 sample_rows)" by (meson last_in_set)
  with block_texts_fit_the_budget [OF _ this] show ?thesis by auto
qed

theorem block_count_is_bounded_witness:
  "int (length (build_topic_blocks True 8 205000 sample_rows)) \<le> 205000 div topic_window 205000 + 1"
  using block_count_is_bounded [OF sample_rows_ok(2)] by simp

theorem full_blocks_show_every_word_witness:
  "\<exists>b\<in>set (build_topic_blocks True 0 205000 sample_rows). str_in (squeeze_spaces ''hello'') (tb_text b)"
proof -
  have m: "sample_row 0 0 5 ''hello'' \<in> set sample_rows" by (simp add: sample_rows_def)
  have t: "sg_text (sample_row 0 0 5 ''hello'') = ''hello''" by (simp add: sample_row_def)
  have n: "squeeze_spaces (sg_text (sample_row 0 0 5 ''hello'')) \<noteq> []" unfolding t by code_simp
  from full_blocks_show_every_word [OF sample_rows_ok(1) m n, of True 205000] show ?thesis unfolding t by blast
qed

definition plain_block :: "int \<Rightarrow> millis \<Rightarrow> topic_block" where
  "plain_block i t = \<lparr>tb_index = i, tb_start = t, tb_end = t + 60000, tb_stamp = ''00:00'', tb_text = ''words''\<rparr>"

theorem plan_chapters_are_a_timeline_witness:
  "tiling 600000 (the (chapters_from_topic_plan (\<lambda>_. None) [(1, ''b''), (0, ''a'')] [plain_block 0 0, plain_block 1 120000] 600000 60000))"
proof -
  let ?c = "chapters_from_topic_plan (\<lambda>_. None) [(1, ''b''), (0, ''a'')] [plain_block 0 0, plain_block 1 120000] 600000 60000"
  have c: "?c = Some [mk_chapter ''tgen0'' ''a'' 0 120000, mk_chapter ''tgen1'' ''b'' 120000 600000]" by code_simp
  have b: "spaced_blocks 120000 [plain_block 0 0, plain_block 1 120000]" "(0::int) < 120000"
    "\<forall>b\<in>set [plain_block 0 0, plain_block 1 120000]. 0 \<le> tb_index b \<and> 0 \<le> tb_start b" by (simp_all add: plain_block_def)
  from plan_chapters_are_a_timeline [OF b c] show ?thesis unfolding c by simp
qed

theorem silent_opening_discards_the_plan_witness:
  "chapters_from_topic_plan (\<lambda>_. None) [(1, ''a topic'')]
     (build_topic_blocks False 1000 205000 [sample_row 0 0 5 '' '', sample_row 1 200 205 ''other news'']) 205000 60000 = None"
proof (rule silent_opening_discards_the_plan [where i = 1 and title = "''a topic''"])
  let ?bs = "build_topic_blocks False 1000 205000 [sample_row 0 0 5 '' '', sample_row 1 200 205 ''other news'']"
  show "block_at ?bs 0 = None" by code_simp
  have "map_option tb_text (block_at ?bs 1) = Some ''other news''" by code_simp
  then show "block_at ?bs 1 \<noteq> None" by auto
qed simp

definition quiet_topic_env :: "unit topic_env" where
  "quiet_topic_env = \<lparr>te_blocks = (\<lambda>_ _. None), te_parse = (\<lambda>_. None), te_apply = (\<lambda>_ _ _ _. None), te_render = (\<lambda>_. ''p''),
     te_title_prompt = (\<lambda>_. ''p''), te_finish = (\<lambda>_. None)\<rparr>"

definition broken_env :: "unit classifier_env" where
  "broken_env = plain_env\<lparr>env_completion := (\<lambda>_ p. (Inl (OtherFault ''down'' []), p))\<rparr>"

definition plain_options :: topic_options where
  "plain_options = \<lparr>to_target = 480, to_min = 120, to_align = False, to_aligner = False, to_full = False, to_words = None\<rparr>"

definition half_reply :: plan_reply where
  "half_reply = \<lparr>pr_plan = [(0, ''a topic'')], pr_content = ''x'', pr_finish = None, pr_expected = Some 2\<rparr>"

theorem failed_continuation_discards_the_plan_witness:
  "fst (chapters_of_reply quiet_topic_env broken_env plain_config None plain_options [plain_block 0 0, plain_block 1 120000] 600000 [] half_reply
     (world_with [])) = []"
proof -
  let ?bs = "[plain_block 0 0, plain_block 1 120000]"
  have n: "needs_continuation half_reply" "pr_plan half_reply \<noteq> []" by code_simp+
  have r: "build_topic_retry_blocks ?bs (pr_plan half_reply) TOPIC_CHAPTER_RETRY_OVERLAP_BLOCKS = (?bs, Some 0)"
    by (simp add: build_topic_retry_blocks_def half_reply_def plain_block_def TOPIC_CHAPTER_RETRY_OVERLAP_BLOCKS_def)
  have "case build_topic_chapter_generation_prompt ?bs 600000 (to_target plain_options) (to_min plain_options) (Some 0)
      (map fst (pr_plan half_reply)) (to_align plain_options) of None \<Rightarrow> False | Some _ \<Rightarrow> True" by code_simp
  then obtain tp where p: "build_topic_chapter_generation_prompt ?bs 600000 (to_target plain_options) (to_min plain_options) (Some 0)
      (map fst (pr_plan half_reply)) (to_align plain_options) = Some tp" by (auto split: option.splits)
  obtain e w' where q: "request_topic_chapter_plan quiet_topic_env broken_env plain_config None TOPIC_PLAN_CONTINUATION_RANGE
      (te_render quiet_topic_env tp) (world_with []) = (Inl e, w')"
  proof -
    have "case fst (request_topic_chapter_plan quiet_topic_env broken_env plain_config None TOPIC_PLAN_CONTINUATION_RANGE ''p'' (world_with [])) of
        Inl _ \<Rightarrow> True | Inr _ \<Rightarrow> False" by code_simp
    then show thesis using that by (cases "request_topic_chapter_plan quiet_topic_env broken_env plain_config None TOPIC_PLAN_CONTINUATION_RANGE ''p'' (world_with [])")
        (auto simp: quiet_topic_env_def split: sum.splits)
  qed
  from failed_continuation_discards_the_plan [OF n r _ p q] show ?thesis by simp
qed

theorem refined_titles_keep_the_times_witness:
  "map start_time_ms (fst (refine_generated_chapter_titles_with_llm quiet_topic_env plain_env plain_config None
     [mk_chapter ''gen0'' ''one'' 0 10000, mk_chapter ''gen1'' ''two'' 10000 20000] sample_rows (world_with []))) = [0, 10000]"
proof -
  let ?cs = "[mk_chapter ''gen0'' ''one'' 0 10000, mk_chapter ''gen1'' ''two'' 10000 20000]"
  obtain cs' w' where r: "refine_generated_chapter_titles_with_llm quiet_topic_env plain_env plain_config None ?cs sample_rows (world_with []) = (cs', w')"
    by force
  have c: "\<forall>c\<in>set ?cs. start_time_ms c \<le> end_time_ms c \<and> chapter_title c \<noteq> []" by (simp add: mk_chapter_def)
  from refined_titles_keep_the_times [OF c r] show ?thesis unfolding r by (auto simp: mk_chapter_def)
qed

end
