(* ===== verification/Feeds.thy ===== *)
theory Feeds
  imports PostStore Auth "HOL-Library.Product_Lexorder"
begin

text \<open>
  Subscribed feeds: \<open>app/feeds.py\<close> (reading the entries of a downloaded feed, planning what a refresh
  changes, which episodes a feed shows) and \<open>app/writer/actions/feeds.py\<close> (the writer's actions on
  feeds, posts and memberships), with \<open>find_audio_link\<close> of \<open>podcast_downloader.py\<close>.

  An entry is what feedparser leaves of an item, a record of the attributes the code reads; an absent
  attribute is \<open>None\<close> or empty.  The tables of an episode are those of \<open>PostStore\<close>; a column of a
  post that the actions here do not set has its default.  Instants are seconds.  The reading of a
  date's text, \<open>uuid5\<close>, \<open>str\<close> of a value that is no string, \<open>json.loads\<close> and the identifiers drawn
  for new jobs are arguments; network access and the rendering of XML by PyRSS2Gen are left out.
\<close>

section \<open>Durations\<close>

definition format_itunes_duration :: "int \<Rightarrow> string" where
  "format_itunes_duration seconds =
     (let total_seconds = max 0 seconds; hours = total_seconds div 3600; rest = total_seconds mod 3600;
          tail = two_digits (rest div 60) @ '':'' @ two_digits (rest mod 60) in
      if hours \<noteq> 0 then int_str hours @ '':'' @ tail else tail)"

definition parse_clock :: "string list \<Rightarrow> int option" where
  "parse_clock parts =
     (if length parts \<notin> {2, 3} \<or> [] \<in> set parts then None
      else (case (py_float_str (last parts), py_int_str (parts ! (length parts - 2)),
                  if length parts = 3 then py_int_str (hd parts) else Some 0) of
          (Some s, Some m, Some h) \<Rightarrow>
            if h < 0 \<or> m < 0 \<or> s < 0 then None else Some (py_int (of_int (h * 3600 + m * 60) + s))
        | _ \<Rightarrow> None))"

definition parse_duration_seconds :: "(json \<Rightarrow> string) \<Rightarrow> json \<Rightarrow> int option" where
  "parse_duration_seconds str_of v =
     (case v of
        JNull \<Rightarrow> None
      | JBool b \<Rightarrow> None
      | JNum r \<Rightarrow> if r \<ge> 0 then Some (py_int r) else None
      | _ \<Rightarrow>
          (let raw = py_strip (as_text str_of v) in
           if raw = [] then None
           else (case py_int_str raw of
               Some n \<Rightarrow> if n \<ge> 0 then Some n else None
             | None \<Rightarrow> parse_clock (map py_strip (split_on CHR '':'' raw)))))"

section \<open>Entries\<close>

record enclosure =
  enc_type :: string
  enc_href :: "string option"
  enc_url :: "string option"

record entry_link =
  lk_type :: string
  lk_href :: "string option"

text \<open>An artwork attribute: absent, a dictionary with its \<open>href\<close>, or a string.\<close>

datatype artwork = NoArtwork | ArtworkDict "string option" | ArtworkText string

record feed_entry =
  fe_id :: "string option"
  fe_guid :: "string option"
  fe_title :: string
  fe_content :: "(string \<times> string) list"
  fe_description :: string
  fe_summary :: string
  fe_subtitle :: string
  fe_image :: artwork
  fe_itunes_image :: artwork
  fe_thumbnails :: "string option list"
  fe_enclosures :: "enclosure list"
  fe_links :: "entry_link list"
  fe_itunes_duration :: json
  fe_duration :: json
  fe_published :: "string option"
  fe_updated :: "string option"
  fe_published_parsed :: "instant option"
  fe_updated_parsed :: "instant option"

record feed_env =
  fv_uuid5 :: "string \<Rightarrow> string"
  fv_dates :: "string \<Rightarrow> instant option"
  fv_str :: "json \<Rightarrow> string"

fun nonempty_of :: "string option \<Rightarrow> string list" where
  "nonempty_of (Some (c # s)) = [c # s]"
| "nonempty_of _ = []"

definition first_or :: "string \<Rightarrow> string list \<Rightarrow> string" where
  "first_or d xs = (case xs of [] \<Rightarrow> d | x # _ \<Rightarrow> x)"

definition AUDIO_MIME_TYPES :: "string list" where
  "AUDIO_MIME_TYPES = [''audio/mpeg'', ''audio/mp3'', ''audio/x-mp3'', ''audio/mpeg3'', ''audio/mp4'', ''audio/m4a'',
     ''audio/x-m4a'', ''audio/aac'', ''audio/wav'', ''audio/x-wav'', ''audio/ogg'', ''audio/opus'', ''audio/flac'']"

definition enclosure_audio_urls :: "feed_entry \<Rightarrow> string list" where
  "enclosure_audio_urls e = concat (map (\<lambda>n.
     if py_lower (enc_type n) \<in> set AUDIO_MIME_TYPES then nonempty_of (enc_href n) @ nonempty_of (enc_url n) else []) (fe_enclosures e))"

definition link_audio_urls :: "bool \<Rightarrow> feed_entry \<Rightarrow> string list" where
  "link_audio_urls match_any_audio e = concat (map (\<lambda>l.
     if (if match_any_audio then starts_with ''audio/'' (py_lower (lk_type l)) else py_lower (lk_type l) \<in> set AUDIO_MIME_TYPES)
     then nonempty_of (lk_href l) else []) (fe_links e))"

definition find_audio_link :: "feed_entry \<Rightarrow> string" where
  "find_audio_link e =
     first_or (case fe_id e of None \<Rightarrow> [] | Some i \<Rightarrow> i) (enclosure_audio_urls e @ link_audio_urls False e @ link_audio_urls True e)"

definition get_guid :: "feed_env \<Rightarrow> feed_entry \<Rightarrow> string" where
  "get_guid env e =
     (let candidate = py_strip (first_or [] (nonempty_of (fe_id e) @ nonempty_of (fe_guid e))) in
      if candidate \<noteq> [] then candidate else fv_uuid5 env (find_audio_link e))"

text \<open>\<open>fetch_feed\<close> overwrites the identifier of every entry.\<close>

definition fetched :: "feed_env \<Rightarrow> feed_entry list \<Rightarrow> feed_entry list" where
  "fetched env = map (\<lambda>e. e\<lparr>fe_id := Some (get_guid env e)\<rparr>)"

definition artwork_href :: "artwork \<Rightarrow> string option" where
  "artwork_href a = (case a of NoArtwork \<Rightarrow> None | ArtworkDict h \<Rightarrow> h | ArtworkText s \<Rightarrow> Some s)"

definition extract_episode_image_url :: "feed_entry \<Rightarrow> string option \<Rightarrow> string option" where
  "extract_episode_image_url e feed_image =
     (case nonempty_of (artwork_href (fe_image e)) @ nonempty_of (artwork_href (fe_itunes_image e)) @
           (case fe_thumbnails e of [] \<Rightarrow> [] | t # _ \<Rightarrow> nonempty_of t) of
        [] \<Rightarrow> feed_image | url # _ \<Rightarrow> Some url)"

definition is_html :: "string \<Rightarrow> bool" where
  "is_html content_type \<longleftrightarrow> py_lower (py_strip content_type) \<in> {''text/html'', ''application/xhtml+xml''}"

definition extract_post_description :: "feed_entry \<Rightarrow> string" where
  "extract_post_description e =
     first_or (py_strip (fe_subtitle e)) (filter (\<lambda>v. v \<noteq> [])
       (map (py_strip \<circ> fst) (filter (\<lambda>c. is_html (snd c)) (fe_content e)) @
        [py_strip (fe_description e), py_strip (fe_summary e)] @ map (py_strip \<circ> fst) (fe_content e)))"

definition first_value :: "'a option list \<Rightarrow> 'a option" where
  "first_value xs = (case List.map_filter id xs of [] \<Rightarrow> None | x # _ \<Rightarrow> Some x)"

definition parse_datetime_string :: "feed_env \<Rightarrow> string option \<Rightarrow> instant option" where
  "parse_datetime_string env v = (case v of None \<Rightarrow> None | Some s \<Rightarrow> if s = [] then None else fv_dates env s)"

definition parse_release_date :: "feed_env \<Rightarrow> feed_entry \<Rightarrow> instant option" where
  "parse_release_date env e = first_value [parse_datetime_string env (fe_published e), parse_datetime_string env (fe_updated e),
     fe_published_parsed e, fe_updated_parsed e]"

definition get_duration :: "feed_env \<Rightarrow> feed_entry \<Rightarrow> int option" where
  "get_duration env e = first_value [parse_duration_seconds (fv_str env) (fe_itunes_duration e),
     parse_duration_seconds (fv_str env) (fe_duration e)]"

section \<open>The tables\<close>

record feed_row =
  fd_id :: int
  fd_title :: string
  fd_rss :: string
  fd_description :: "string option"
  fd_author :: "string option"
  fd_image :: "string option"
  fd_override :: "bool option"
  fd_changed :: instant

record member_row =
  mb_feed :: int
  mb_user :: int
  mb_created :: "instant option"

text \<open>A user comes with the allowance of the plan.\<close>

record feed_db =
  fs_media :: media_db
  fs_feeds :: "feed_row list"
  fs_members :: "member_row list"
  fs_users :: "(user_row \<times> int) list"
  fs_tokens :: "token_row list"

datatype feed_error = FeedNotFound int | FeedIntegrity | FeedParam

definition find_feed :: "int \<Rightarrow> feed_db \<Rightarrow> feed_row option" where
  "find_feed fid db = find (\<lambda>f. fd_id f = fid) (fs_feeds db)"

definition posts_of_feed :: "int \<Rightarrow> media_db \<Rightarrow> post_media list" where
  "posts_of_feed fid m = filter (\<lambda>p. pm_feed p = fid) (m_posts m)"

section \<open>Which feeds are active, and who lists new episodes\<close>

definition user_feeds_by_age :: "int \<Rightarrow> member_row list \<Rightarrow> int list" where
  "user_feeds_by_age uid ms =
     map mb_feed (sort_key (\<lambda>m. case mb_created m of None \<Rightarrow> 0 | Some t \<Rightarrow> t) (filter (\<lambda>m. mb_user m = uid) ms))"

fun feed_rank :: "int \<Rightarrow> int list \<Rightarrow> nat option" where
  "feed_rank fid [] = None"
| "feed_rank fid (f # fs) = (if f = fid then Some 0 else map_option Suc (feed_rank fid fs))"

definition is_feed_active_for_user :: "int \<Rightarrow> user_row \<times> int \<Rightarrow> member_row list \<Rightarrow> bool" where
  "is_feed_active_for_user fid up ms \<longleftrightarrow>
     role (fst up) = ''admin'' \<or> fid = 1 \<or>
     (let allowance = (case manual_feed_allowance (fst up) of Some a \<Rightarrow> a | None \<Rightarrow> snd up) in
      case feed_rank fid (user_feeds_by_age (user_id (fst up)) ms) of None \<Rightarrow> False | Some i \<Rightarrow> int i < allowance)"

definition should_auto_whitelist_new_posts :: "bool \<Rightarrow> bool \<Rightarrow> feed_row \<Rightarrow> feed_db \<Rightarrow> bool" where
  "should_auto_whitelist_new_posts setting auth_enabled f db =
     (case fd_override f of
        Some b \<Rightarrow> b
      | None \<Rightarrow>
          if \<not> setting then False
          else if \<not> auth_enabled then True
          else (let ms = filter (\<lambda>m. mb_feed m = fd_id f) (fs_members db) in
            if ms = [] then fs_users db = []
            else list_ex (\<lambda>m. case find (\<lambda>u. user_id (fst u) = mb_user m) (fs_users db) of
                None \<Rightarrow> False | Some u \<Rightarrow> is_feed_active_for_user (fd_id f) u (fs_members db)) ms))"

section \<open>Planning a refresh\<close>

record new_post =
  np_guid :: string
  np_title :: string
  np_description :: string
  np_url :: string
  np_release :: "instant option"
  np_duration :: "int option"
  np_image :: "string option"
  np_whitelisted :: bool

record post_update =
  pu_post :: int
  pu_guid :: "string option"
  pu_title :: "string option"
  pu_description :: "string option"
  pu_image :: "string option option"
  pu_duration :: "int option"

definition make_post :: "feed_env \<Rightarrow> string option \<Rightarrow> bool \<Rightarrow> feed_entry \<Rightarrow> new_post" where
  "make_post env feed_image listed e =
     \<lparr>np_guid = get_guid env e, np_title = fe_title e, np_description = extract_post_description e, np_url = find_audio_link e,
      np_release = parse_release_date env e, np_duration = get_duration env e, np_image = extract_episode_image_url e feed_image,
      np_whitelisted = listed\<rparr>"

text \<open>\<open>.date()\<close> of an instant.\<close>

definition day_of :: "instant \<Rightarrow> int" where
  "day_of t = t div 86400"

definition oldest_release :: "post_media list \<Rightarrow> instant option" where
  "oldest_release ps = (case List.map_filter pm_release ps of [] \<Rightarrow> None | t # ts \<Rightarrow> Some (fold min ts t))"

definition in_back_catalogue :: "instant option \<Rightarrow> instant option \<Rightarrow> bool" where
  "in_back_catalogue oldest release =
     (case (oldest, release) of (Some o', Some r) \<Rightarrow> day_of r < day_of o' | _ \<Rightarrow> False)"

definition new_post_refresh_payload :: "feed_env \<Rightarrow> bool \<Rightarrow> string option \<Rightarrow> instant option \<Rightarrow> feed_entry \<Rightarrow> new_post" where
  "new_post_refresh_payload env auto feed_image oldest e =
     make_post env feed_image (if in_back_catalogue oldest (parse_release_date env e) then False else auto) e"

definition changed_to :: "'a \<Rightarrow> 'a \<Rightarrow> 'a option" where
  "changed_to old new = (if old = new then None else Some new)"

definition existing_post_refresh_payload ::
  "feed_env \<Rightarrow> string option \<Rightarrow> feed_entry \<Rightarrow> post_media \<times> string option \<Rightarrow> post_update" where
  "existing_post_refresh_payload env feed_image e pr =
     (let p = fst pr; title = py_strip (fe_title e) in
      \<lparr>pu_post = pm_id p, pu_guid = snd pr,
       pu_title = (if title \<noteq> [] then changed_to (pm_title p) title else None),
       pu_description = map_option the (changed_to (pm_description p) (Some (extract_post_description e))),
       pu_image = changed_to (pm_image p) (extract_episode_image_url e feed_image),
       pu_duration = (case get_duration env e of None \<Rightarrow> None
         | Some d \<Rightarrow> if pm_processed p = None \<and> pm_duration p \<noteq> Some (of_int d) then Some d else None)\<rparr>)"

definition names_a_field :: "post_update \<Rightarrow> bool" where
  "names_a_field u \<longleftrightarrow> pu_guid u \<noteq> None \<or> pu_title u \<noteq> None \<or> pu_description u \<noteq> None \<or> pu_image u \<noteq> None \<or> pu_duration u \<noteq> None"

text \<open>The two dictionaries of the feed's posts: a later post replaces an earlier one.\<close>

definition post_with_guid :: "string \<Rightarrow> post_media list \<Rightarrow> post_media option" where
  "post_with_guid g ps = find (\<lambda>p. pm_guid p = g) (rev ps)"

definition post_with_url :: "string \<Rightarrow> post_media list \<Rightarrow> post_media option" where
  "post_with_url u ps = find (\<lambda>p. pm_url p \<noteq> [] \<and> pm_url p = u) (rev ps)"

definition entry_id :: "feed_entry \<Rightarrow> string" where
  "entry_id e = (case fe_id e of None \<Rightarrow> [] | Some i \<Rightarrow> i)"

text \<open>The stored post of an entry, and the guid it is to be given when it was found by its audio.\<close>

definition stored_post :: "post_media list \<Rightarrow> feed_entry \<Rightarrow> (post_media \<times> string option) option" where
  "stored_post ps e =
     (case post_with_guid (entry_id e) ps of
        Some p \<Rightarrow> Some (p, None)
      | None \<Rightarrow> (let u = find_audio_link e in
          if u = [] then None
          else map_option (\<lambda>p. (p, if pm_guid p \<noteq> entry_id e then Some (entry_id e) else None)) (post_with_url u ps)))"

definition build_refresh_feed_payload ::
  "feed_env \<Rightarrow> bool \<Rightarrow> feed_row \<Rightarrow> media_db \<Rightarrow> string option \<Rightarrow> feed_entry list \<Rightarrow> string option \<times> new_post list \<times> post_update list" where
  "build_refresh_feed_payload env auto f m channel_image entries =
     (let ps = posts_of_feed (fd_id f) m; oldest = oldest_release ps in
      (case channel_image of None \<Rightarrow> None | Some h \<Rightarrow> if fd_image f \<noteq> Some h then Some h else None,
       map (new_post_refresh_payload env auto (fd_image f) oldest) (filter (\<lambda>e. stored_post ps e = None) entries),
       filter names_a_field (List.map_filter (\<lambda>e. map_option (existing_post_refresh_payload env (fd_image f) e) (stored_post ps e)) entries)))"

section \<open>The writer's actions\<close>

text \<open>A post's row: the unique indexes on guid and address within a feed.\<close>

definition insert_post :: "post_media \<Rightarrow> post_media list \<Rightarrow> post_media list option" where
  "insert_post p ps =
     (if list_ex (\<lambda>q. pm_feed q = pm_feed p \<and> (pm_guid q = pm_guid p \<or> pm_url q = pm_url p)) ps then None
      else Some (ps @ [p\<lparr>pm_id := next_id (map pm_id ps)\<rparr>]))"

definition stored_row :: "int \<Rightarrow> new_post \<Rightarrow> post_media" where
  "stored_row fid n =
     \<lparr>pm_id = 0, pm_guid = np_guid n, pm_feed = fid, pm_whitelisted = np_whitelisted n, pm_unprocessed = None, pm_processed = None,
      pm_duration = map_option of_int (np_duration n), pm_chapters = None, pm_bleeps = None, pm_removed = None,
      pm_original_duration = None, pm_cut_source = None, pm_words = None, pm_refined = None, pm_refined_at = None,
      pm_url = np_url n, pm_title = np_title n, pm_description = Some (np_description n), pm_image = np_image n,
      pm_release = np_release n, pm_downloads = Some 0\<rparr>"

definition pending_job :: "(int \<Rightarrow> string) \<Rightarrow> instant \<Rightarrow> post_media \<Rightarrow> job" where
  "pending_job uuids now p = \<lparr>job_id = uuids (pm_id p), run_id = None, post_guid = pm_guid p, status = ''pending'', current_step = Some 0,
     step_name = None, total_steps = Some 4, progress = Some 0, started_at = None, completed_at = None, error_message = None,
     created_at = now, requested_by = None, billing_user = None, stage_history = initial_stage_history (Some 0) (Some ''Queued'') now,
     ad_windows_count = None, had_classification_parse_error = False, auto_retry_attempted = False\<rparr>"

definition recount :: "instant \<Rightarrow> media_db \<Rightarrow> media_db" where
  "recount now m = m\<lparr>m_run := run (recalculate_run_counts now \<lparr>jobs = m_jobs m, run = m_run m, llm_calls = [], posts = []\<rparr>)\<rparr>"

text \<open>The new rows of a feed and a pending job for each that is whitelisted; None is the violated index.\<close>

definition create_posts :: "(int \<Rightarrow> string) \<Rightarrow> instant \<Rightarrow> int \<Rightarrow> new_post list \<Rightarrow> media_db \<Rightarrow> media_db option" where
  "create_posts uuids now fid news m =
     map_option (\<lambda>ps. m\<lparr>m_posts := ps,
         m_jobs := m_jobs m @ map (pending_job uuids now) (filter pm_whitelisted (drop (length (m_posts m)) ps))\<rparr>)
       (insert_rows insert_post (map (stored_row fid) news) (m_posts m))"

definition updated_row :: "post_update \<Rightarrow> post_media \<Rightarrow> post_media" where
  "updated_row u p = p\<lparr>pm_guid := (case pu_guid u of None \<Rightarrow> pm_guid p | Some g \<Rightarrow> g),
     pm_title := (case pu_title u of None \<Rightarrow> pm_title p | Some t \<Rightarrow> t),
     pm_description := (case pu_description u of None \<Rightarrow> pm_description p | Some d \<Rightarrow> Some d),
     pm_image := (case pu_image u of None \<Rightarrow> pm_image p | Some i \<Rightarrow> i),
     pm_duration := (case pu_duration u of None \<Rightarrow> pm_duration p | Some d \<Rightarrow> Some (of_int d))\<rparr>"

text \<open>One update: skipped unless it names a post of the feed; the index on the guids is checked when it is
  flushed, which the lookup of the next post does.\<close>

definition apply_post_update :: "int \<Rightarrow> post_update \<Rightarrow> nat \<times> post_media list \<Rightarrow> (nat \<times> post_media list) option" where
  "apply_post_update fid u st =
     (if pu_post u = 0 then Some st
      else (case find (\<lambda>p. pm_id p = pu_post u) (snd st) of
          None \<Rightarrow> Some st
        | Some p \<Rightarrow>
            if pm_feed p \<noteq> fid \<or> \<not> names_a_field u then Some st
            else if list_ex (\<lambda>q. pm_id q \<noteq> pm_id p \<and> pm_feed q = fid \<and> pm_guid q = pm_guid (updated_row u p)) (snd st) then None
            else Some (Suc (fst st), map (\<lambda>q. if pm_id q = pm_id p then updated_row u q else q) (snd st))))"

definition apply_existing_post_updates :: "int \<Rightarrow> post_update list \<Rightarrow> post_media list \<Rightarrow> (nat \<times> post_media list) option" where
  "apply_existing_post_updates fid us ps = insert_rows (apply_post_update fid) us (0, ps)"

definition refresh_feed_action ::
  "(int \<Rightarrow> string) \<Rightarrow> instant \<Rightarrow> int \<Rightarrow> string option \<times> new_post list \<times> post_update list \<Rightarrow> feed_db \<Rightarrow>
   feed_error + (nat \<times> nat) \<times> feed_db" where
  "refresh_feed_action uuids now fid plan db =
     (case plan of (art, news, updates) \<Rightarrow>
       (case find_feed fid db of
          None \<Rightarrow> Inl (FeedNotFound fid)
        | Some f \<Rightarrow>
            (case create_posts uuids now fid news (fs_media db) of
               None \<Rightarrow> Inl FeedIntegrity
             | Some m \<Rightarrow>
                 (case apply_existing_post_updates fid updates (m_posts m) of
                    None \<Rightarrow> Inl FeedIntegrity
                  | Some (n, ps) \<Rightarrow>
                      (let touched = (art \<noteq> None \<or> news \<noteq> [] \<or> n > 0) in
                       Inr ((length news, n), db\<lparr>fs_media := recount now (m\<lparr>m_posts := ps\<rparr>),
                         fs_feeds := map (\<lambda>g. if fd_id g = fid
                           then g\<lparr>fd_image := (case art of None \<Rightarrow> fd_image g | Some h \<Rightarrow> Some h),
                                  fd_changed := (if touched then now else fd_changed g)\<rparr> else g) (fs_feeds db)\<rparr>))))))"

text \<open>\<open>refresh_feed\<close> with the plan made here; the result of the writer is not looked at.\<close>

definition refresh_feed ::
  "feed_env \<Rightarrow> bool \<times> bool \<Rightarrow> (int \<Rightarrow> string) \<Rightarrow> instant \<Rightarrow> string option \<Rightarrow> feed_entry list \<Rightarrow> feed_row \<Rightarrow> feed_db \<Rightarrow> feed_db" where
  "refresh_feed env settings uuids now channel_image entries f db =
     (let plan = build_refresh_feed_payload env (should_auto_whitelist_new_posts (fst settings) (snd settings) f db) f (fs_media db) channel_image
            (fetched env entries) in
      if plan = (None, [], []) then db
      else (case refresh_feed_action uuids now (fd_id f) plan db of Inl _ \<Rightarrow> db | Inr (_, db') \<Rightarrow> db'))"

section \<open>Adding a feed\<close>

definition insert_feed :: "feed_row \<Rightarrow> feed_db \<Rightarrow> (int \<times> feed_db) option" where
  "insert_feed f db =
     (if list_ex (\<lambda>g. fd_rss g = fd_rss f) (fs_feeds db) then None
      else (let fid = next_id (map fd_id (fs_feeds db)) in Some (fid, db\<lparr>fs_feeds := fs_feeds db @ [f\<lparr>fd_id := fid\<rparr>]\<rparr>)))"

definition add_feed_action ::
  "(int \<Rightarrow> string) \<Rightarrow> instant \<Rightarrow> feed_row \<Rightarrow> new_post list \<Rightarrow> feed_db \<Rightarrow> feed_error + int \<times> feed_db" where
  "add_feed_action uuids now f news db =
     (case insert_feed f db of
        None \<Rightarrow> Inl FeedIntegrity
      | Some (fid, db1) \<Rightarrow>
          (case create_posts uuids now fid news (fs_media db1) of
             None \<Rightarrow> Inl FeedIntegrity
           | Some m \<Rightarrow> Inr (fid, db1\<lparr>fs_media := recount now m\<rparr>)))"

text \<open>The first episodes of an archive are whitelisted, up to the configured number.\<close>

fun archive_posts :: "feed_env \<Rightarrow> string option \<Rightarrow> bool \<Rightarrow> nat option \<Rightarrow> nat \<Rightarrow> feed_entry list \<Rightarrow> new_post list" where
  "archive_posts env art auto limit n [] = []"
| "archive_posts env art auto limit n (e # es) =
     (if (case limit of None \<Rightarrow> False | Some k \<Rightarrow> k \<le> n) then make_post env art False e # archive_posts env art auto limit n es
      else make_post env art auto e # archive_posts env art auto limit (Suc n) es)"

definition add_feed ::
  "feed_env \<Rightarrow> bool \<Rightarrow> nat option \<Rightarrow> (int \<Rightarrow> string) \<Rightarrow> instant \<Rightarrow> feed_row \<Rightarrow> feed_entry list \<Rightarrow> feed_db \<Rightarrow> feed_error + int \<times> feed_db" where
  "add_feed env auto limit uuids now f entries db =
     add_feed_action uuids now f (archive_posts env (fd_image f) auto limit 0 (fetched env entries)) db"

text \<open>A feed that is known by the given address is refreshed, which downloads it again (\<open>again\<close>); another one is
  stored under the address the download ended at.\<close>

definition add_or_refresh_feed ::
  "feed_env \<Rightarrow> bool \<times> bool \<Rightarrow> nat option \<Rightarrow> (int \<Rightarrow> string) \<Rightarrow> instant \<Rightarrow> string \<Rightarrow> feed_row option \<Rightarrow> feed_entry list \<Rightarrow>
   string option \<times> feed_entry list \<Rightarrow> feed_db \<Rightarrow> feed_error + int \<times> feed_db" where
  "add_or_refresh_feed env settings limit uuids now url parsed entries again db =
     (case parsed of
        None \<Rightarrow> Inl FeedParam
      | Some new \<Rightarrow>
          (case find (\<lambda>g. fd_rss g = url) (fs_feeds db) of
             Some g \<Rightarrow> Inr (fd_id g, refresh_feed env settings uuids now (fst again) (snd again) g db)
           | None \<Rightarrow> add_feed env (fst settings) limit uuids now new entries db))"

section \<open>Settings, memberships and the white list\<close>

text \<open>A parameter that is absent or zero is missing.\<close>

definition required :: "int option \<Rightarrow> (int \<Rightarrow> feed_error + 'a) \<Rightarrow> feed_error + 'a" where
  "required v k = (case v of None \<Rightarrow> Inl FeedParam | Some i \<Rightarrow> if i = 0 then Inl FeedParam else k i)"

definition update_posts :: "(post_media \<Rightarrow> bool) \<Rightarrow> (post_media \<Rightarrow> post_media) \<Rightarrow> feed_db \<Rightarrow> feed_db" where
  "update_posts P g db = db\<lparr>fs_media := (fs_media db)\<lparr>m_posts := map (\<lambda>p. if P p then g p else p) (m_posts (fs_media db))\<rparr>\<rparr>"

definition count_posts :: "(post_media \<Rightarrow> bool) \<Rightarrow> feed_db \<Rightarrow> nat" where
  "count_posts P db = length (filter P (m_posts (fs_media db)))"

definition update_feed_settings_action :: "int option \<Rightarrow> bool option option \<Rightarrow> feed_db \<Rightarrow> feed_error + int \<times> feed_db" where
  "update_feed_settings_action feed override db =
     required feed (\<lambda>fid. case find_feed fid db of
         None \<Rightarrow> Inl (FeedNotFound fid)
       | Some _ \<Rightarrow> Inr (fid, db\<lparr>fs_feeds := map (\<lambda>g. if fd_id g = fid
           then g\<lparr>fd_override := (case override of None \<Rightarrow> fd_override g | Some v \<Rightarrow> v)\<rparr> else g) (fs_feeds db)\<rparr>))"

definition increment_download_count_action :: "int option \<Rightarrow> feed_db \<Rightarrow> feed_error + nat \<times> feed_db" where
  "increment_download_count_action post db =
     required post (\<lambda>pid. Inr (count_posts (\<lambda>p. pm_id p = pid) db,
       update_posts (\<lambda>p. pm_id p = pid) (\<lambda>p. p\<lparr>pm_downloads := Some ((case pm_downloads p of None \<Rightarrow> 0 | Some n \<Rightarrow> n) + 1)\<rparr>) db))"

definition whitelist_post_action :: "int option \<Rightarrow> feed_db \<Rightarrow> feed_error + nat \<times> feed_db" where
  "whitelist_post_action post db =
     required post (\<lambda>pid. Inr (count_posts (\<lambda>p. pm_id p = pid) db,
       update_posts (\<lambda>p. pm_id p = pid) (\<lambda>p. p\<lparr>pm_whitelisted := True\<rparr>) db))"

definition ensure_user_feed_membership_action :: "instant \<Rightarrow> int option \<Rightarrow> int option \<Rightarrow> feed_db \<Rightarrow> feed_error + (bool \<times> nat) \<times> feed_db" where
  "ensure_user_feed_membership_action now feed user db =
     required feed (\<lambda>fid. required user (\<lambda>uid.
       let previous = length (filter (\<lambda>m. mb_feed m = fid) (fs_members db)) in
       if list_ex (\<lambda>m. mb_feed m = fid \<and> mb_user m = uid) (fs_members db) then Inr ((False, previous), db)
       else Inr ((True, previous), db\<lparr>fs_members := fs_members db @ [\<lparr>mb_feed = fid, mb_user = uid, mb_created = Some now\<rparr>]\<rparr>)))"

definition remove_user_feed_membership_action :: "int option \<Rightarrow> int option \<Rightarrow> feed_db \<Rightarrow> feed_error + nat \<times> feed_db" where
  "remove_user_feed_membership_action feed user db =
     required feed (\<lambda>fid. required user (\<lambda>uid.
       Inr (length (filter (\<lambda>m. mb_feed m = fid \<and> mb_user m = uid) (fs_members db)),
            db\<lparr>fs_members := filter (\<lambda>m. \<not> (mb_feed m = fid \<and> mb_user m = uid)) (fs_members db)\<rparr>)))"

text \<open>Newest first, undated last, the higher id first.\<close>

definition recency :: "post_media \<Rightarrow> int \<times> int" where
  "recency p = (case pm_release p of None \<Rightarrow> (1, 0) | Some t \<Rightarrow> (0, - t))"

definition newest_first :: "post_media list \<Rightarrow> post_media list" where
  "newest_first ps = sort_key recency (sort_key (\<lambda>p. - pm_id p) ps)"

definition whitelist_latest_post_for_feed_action :: "int option \<Rightarrow> feed_db \<Rightarrow> feed_error + (bool \<times> string option) \<times> feed_db" where
  "whitelist_latest_post_for_feed_action feed db =
     required feed (\<lambda>fid. case newest_first (posts_of_feed fid (fs_media db)) of
         [] \<Rightarrow> Inr ((False, None), db)
       | latest # _ \<Rightarrow>
           if pm_whitelisted latest then Inr ((False, Some (pm_guid latest)), db)
           else Inr ((True, Some (pm_guid latest)), update_posts (\<lambda>p. pm_id p = pm_id latest) (\<lambda>p. p\<lparr>pm_whitelisted := True\<rparr>) db))"

definition toggle_whitelist_all_for_feed_action :: "int option \<Rightarrow> bool option \<Rightarrow> feed_db \<Rightarrow> feed_error + (int \<times> nat) \<times> feed_db" where
  "toggle_whitelist_all_for_feed_action feed new_status db =
     (case (feed, new_status) of
        (Some fid, Some b) \<Rightarrow> Inr ((fid, count_posts (\<lambda>p. pm_feed p = fid) db),
          update_posts (\<lambda>p. pm_feed p = fid) (\<lambda>p. p\<lparr>pm_whitelisted := b\<rparr>) db)
      | _ \<Rightarrow> Inl FeedParam)"

section \<open>Deleting a feed\<close>

definition FEED_DELETE_BATCH :: nat where "FEED_DELETE_BATCH = 200"

text \<open>Rows deleted by their keys, a batch at a time, until no row is selected.\<close>

function drop_batches :: "('a \<Rightarrow> 'k) \<Rightarrow> ('a \<Rightarrow> bool) \<Rightarrow> 'a list \<Rightarrow> 'a list" where
  "drop_batches key P xs =
     (let ks = take FEED_DELETE_BATCH (map key (filter P xs)) in
      if ks = [] then xs else drop_batches key P (filter (\<lambda>x. key x \<notin> set ks) xs))"
  by pat_completeness auto
termination
proof (relation "measure (\<lambda>(key, P, xs). length (filter P xs))", goal_cases)
  case (2 key P xs ks)
  then obtain x rest where x: "filter P xs = x # rest" by (cases "filter P xs") (auto simp: FEED_DELETE_BATCH_def)
  then have "x \<in> set (filter P xs)" "key x \<in> set ks" using 2 by (auto simp: FEED_DELETE_BATCH_def take_Cons')
  then have "length (filter (\<lambda>y. key y \<notin> set ks) (filter P xs)) < length (filter P xs)" by (intro length_filter_less) auto
  then show ?case by (simp add: conj_commute)
qed simp

declare drop_batches.simps [simp del]

text \<open>The segments of the posts with what identifies them.\<close>

definition feed_segment_ids :: "int list \<Rightarrow> media_db \<Rightarrow> int list" where
  "feed_segment_ids pids m = map sg_id (filter (\<lambda>s. sg_post s \<in> set pids) (m_segments m))"

lemma feed_segments_decrease:
  assumes "take FEED_DELETE_BATCH (feed_segment_ids pids m) \<noteq> []"
  shows "length (feed_segment_ids pids (delete_segments (take FEED_DELETE_BATCH (feed_segment_ids pids m)) (delete_idents_of ids m))) <
    length (feed_segment_ids pids m)"
proof -
  let ?ks = "take FEED_DELETE_BATCH (feed_segment_ids pids m)" and ?ss = "filter (\<lambda>s. sg_post s \<in> set pids) (m_segments m)"
  obtain s rest where s: "?ss = s # rest" using assms by (cases ?ss) (auto simp: feed_segment_ids_def)
  then have "s \<in> set ?ss" "sg_id s \<in> set ?ks" by (auto simp: feed_segment_ids_def FEED_DELETE_BATCH_def)
  then have "length (filter (\<lambda>t. sg_id t \<notin> set ?ks) ?ss) < length ?ss" by (intro length_filter_less) auto
  then show ?thesis by (simp add: feed_segment_ids_def delete_segments_def delete_idents_of_def conj_commute)
qed

function drop_feed_segments :: "int list \<Rightarrow> media_db \<Rightarrow> media_db" where
  "drop_feed_segments pids m =
     (let ids = take FEED_DELETE_BATCH (feed_segment_ids pids m) in
      if ids = [] then m else drop_feed_segments pids (delete_segments ids (delete_idents_of ids m)))"
  by auto
termination
  by (relation "measure (\<lambda>(pids, m). length (feed_segment_ids pids m))") (auto intro: feed_segments_decrease)

declare drop_feed_segments.simps [simp del]

definition delete_feed_cascade_action :: "int option \<Rightarrow> feed_db \<Rightarrow> feed_error + bool \<times> feed_db" where
  "delete_feed_cascade_action feed db =
     required feed (\<lambda>fid. case find_feed fid db of
         None \<Rightarrow> Inr (False, db)
       | Some _ \<Rightarrow>
           (let ps = posts_of_feed fid (fs_media db); pids = map pm_id ps; guids = map pm_guid ps;
                m = (if pids = [] then fs_media db
                  else (let m1 = drop_feed_segments pids (fs_media db);
                            m2 = m1\<lparr>m_calls := drop_batches mc_id (\<lambda>c. mc_post c \<in> set pids) (m_calls m1)\<rparr>;
                            m3 = m2\<lparr>m_jobs := drop_batches job_id (\<lambda>j. post_guid j \<in> set guids) (m_jobs m2)\<rparr> in
                        m3\<lparr>m_posts := filter (\<lambda>p. pm_id p \<notin> set pids) (m_posts m3)\<rparr>)) in
            Inr (True, db\<lparr>fs_media := m, fs_tokens := filter (\<lambda>t. token_feed_id t \<noteq> Some fid) (fs_tokens db),
              fs_members := filter (\<lambda>u. mb_feed u \<noteq> fid) (fs_members db), fs_feeds := filter (\<lambda>g. fd_id g \<noteq> fid) (fs_feeds db)\<rparr>)))"

section \<open>Rows of a feed stay unique\<close>

definition posts_ok :: "post_media list \<Rightarrow> bool" where
  "posts_ok ps \<longleftrightarrow> distinct (map pm_id ps) \<and> list_all (\<lambda>p. 0 < pm_id p) ps \<and> distinct (map (\<lambda>p. (pm_feed p, pm_guid p)) ps) \<and>
     distinct (map (\<lambda>p. (pm_feed p, pm_url p)) ps)"

lemma insert_post_ok:
  assumes "insert_post p ps = Some qs" and "posts_ok ps"
  shows "posts_ok qs"
proof -
  have q: "qs = ps @ [p\<lparr>pm_id := next_id (map pm_id ps)\<rparr>]"
    and free: "\<And>q. q \<in> set ps \<Longrightarrow> pm_feed q = pm_feed p \<Longrightarrow> pm_guid q \<noteq> pm_guid p \<and> pm_url q \<noteq> pm_url p"
    using assms(1) by (auto simp: insert_post_def list_ex_iff split: if_splits)
  have "next_id (map pm_id ps) \<notin> pm_id ` set ps" using next_id_gt [of _ "map pm_id ps"] by fastforce
  moreover have "(pm_feed p, pm_guid p) \<notin> (\<lambda>q. (pm_feed q, pm_guid q)) ` set ps" "(pm_feed p, pm_url p) \<notin> (\<lambda>q. (pm_feed q, pm_url q)) ` set ps"
    using free by force+
  ultimately show ?thesis using assms(2) next_id_pos by (simp add: posts_ok_def q)
qed

lemma insert_posts:
  assumes "insert_rows insert_post rs ps = Some qs" and "posts_ok ps"
  shows "posts_ok qs \<and> (\<exists>new. qs = ps @ new \<and> list_all2 (\<lambda>r q. \<exists>i. q = r\<lparr>pm_id := i\<rparr>) rs new)"
  using assms
proof (induction rs arbitrary: ps)
  case (Cons r rs)
  then obtain ps1 where one: "insert_post r ps = Some ps1" and rest: "insert_rows insert_post rs ps1 = Some qs"
    by (auto simp: Option.bind_eq_Some_conv)
  then obtain i where "ps1 = ps @ [r\<lparr>pm_id := i\<rparr>]" by (auto simp: insert_post_def split: if_splits)
  with Cons.IH [OF rest insert_post_ok [OF one Cons.prems(2)]] show ?case by auto
qed auto

lemma updated_row_frame [simp]:
  "pm_id (updated_row u p) = pm_id p" "pm_feed (updated_row u p) = pm_feed p" "pm_url (updated_row u p) = pm_url p"
  "pm_processed (updated_row u p) = pm_processed p" "pm_whitelisted (updated_row u p) = pm_whitelisted p"
  by (simp_all add: updated_row_def)

lemma updated_row_idle: "\<not> names_a_field u \<Longrightarrow> updated_row u p = p"
  by (simp add: names_a_field_def updated_row_def)

lemma find_by_id:
  assumes "posts_ok ps" and "p \<in> set ps"
  shows "find (\<lambda>q. pm_id q = pm_id p) ps = Some p"
proof -
  have "distinct (map pm_id ps)" using assms(1) by (simp add: posts_ok_def)
  with assms(2) show ?thesis by (induction ps) (auto simp: image_iff)
qed

lemma find_unique:
  assumes "x \<in> set xs" and "P x" and "\<And>y. y \<in> set xs \<Longrightarrow> P y \<Longrightarrow> y = x"
  shows "find P xs = Some x"
proof (cases "find P xs")
  case None
  with assms(1,2) show ?thesis by (simp add: find_None_iff)
next
  case (Some y)
  then have "y \<in> set xs" "P y" by (auto simp: find_Some_iff)
  with assms(3) Some show ?thesis by simp
qed

lemma map_id_update:
  "map (\<lambda>p. (pm_feed p, pm_url p)) (map (\<lambda>q. if pm_id q = i then updated_row u q else q) ps) = map (\<lambda>p. (pm_feed p, pm_url p)) ps"
  "map pm_id (map (\<lambda>q. if pm_id q = i then updated_row u q else q) ps) = map pm_id ps"
  by auto

lemma apply_post_update_cases:
  assumes "apply_post_update fid u st = Some st'"
  obtains "st' = st"
  | p where "p \<in> set (snd st)" and "pm_id p = pu_post u" and "pm_feed p = fid"
      and "\<And>q. q \<in> set (snd st) \<Longrightarrow> pm_feed q = fid \<Longrightarrow> pm_id q \<noteq> pm_id p \<Longrightarrow> pm_guid q \<noteq> pm_guid (updated_row u p)"
      and "st' = (Suc (fst st), map (\<lambda>q. if pm_id q = pm_id p then updated_row u q else q) (snd st))"
  using assms that by (fastforce simp: apply_post_update_def list_ex_iff find_Some_iff dest: nth_mem split: if_splits option.splits)

lemma apply_post_update_ok:
  assumes "apply_post_update fid u st = Some st'" and "posts_ok (snd st)"
  shows "posts_ok (snd st')"
  using assms(1)
proof (cases rule: apply_post_update_cases)
  case (2 p)
  let ?g = "\<lambda>q. if pm_id q = pm_id p then updated_row u q else q"
  have d: "distinct (map pm_id (snd st))" using assms(2) by (simp add: posts_ok_def)
  have own: "q = p" if "q \<in> set (snd st)" "pm_id q = pm_id p" for q
    using d that 2(1) by (metis distinct_map inj_onD)
  have "inj_on (\<lambda>q. (pm_feed (?g q), pm_guid (?g q))) (set (snd st))"
  proof (rule inj_onI)
    fix a b
    assume ab: "a \<in> set (snd st)" "b \<in> set (snd st)" and e: "(pm_feed (?g a), pm_guid (?g a)) = (pm_feed (?g b), pm_guid (?g b))"
    have inj: "inj_on (\<lambda>q. (pm_feed q, pm_guid q)) (set (snd st))" using assms(2) by (simp add: posts_ok_def distinct_map)
    show "a = b"
    proof (cases "pm_id a = pm_id p \<longleftrightarrow> pm_id b = pm_id p")
      case True
      then show ?thesis using own ab e inj_onD [OF inj] by (cases "pm_id a = pm_id p") auto
    next
      case False
      have clash: False if "x \<in> set (snd st)" "pm_id x = pm_id p" "y \<in> set (snd st)" "pm_id y \<noteq> pm_id p" "pm_feed x = pm_feed y"
          "pm_guid (updated_row u x) = pm_guid y" for x y
        using own [OF that(1,2)] 2(4) [OF that(3) _ that(4)] 2(3) that(5,6) by auto
      show ?thesis
      proof (cases "pm_id a = pm_id p")
        case True
        with False ab e clash [of a b] show ?thesis by auto
      next
        case False
        with \<open>(pm_id a = pm_id p) \<noteq> (pm_id b = pm_id p)\<close> ab e clash [of b a] show ?thesis by auto
      qed
    qed
  qed
  moreover have "distinct (snd st)" using d by (metis distinct_map)
  ultimately have "distinct (map (\<lambda>q. (pm_feed (?g q), pm_guid (?g q))) (snd st))" by (simp add: distinct_map)
  then have "distinct (map (\<lambda>q. (pm_feed q, pm_guid q)) (map ?g (snd st)))" by (simp add: comp_def)
  with assms(2) show ?thesis unfolding posts_ok_def 2(5) snd_conv map_id_update by (auto simp: list_all_iff simp del: map_map)
qed (use assms(2) in simp)

lemma apply_updates_ok:
  assumes "insert_rows (apply_post_update fid) us st = Some st'" and "posts_ok (snd st)"
  shows "posts_ok (snd st')"
  using assms
proof (induction us arbitrary: st)
  case (Cons u us)
  then show ?case using apply_post_update_ok by (fastforce simp: Option.bind_eq_Some_conv)
qed simp

section \<open>What a refresh leaves\<close>

text \<open>Updates of different posts of the feed, seen together.\<close>

definition overlay :: "post_update list \<Rightarrow> post_media \<Rightarrow> post_media" where
  "overlay us q = (case find (\<lambda>u. pu_post u = pm_id q) us of None \<Rightarrow> q | Some u \<Rightarrow> updated_row u q)"

lemma overlay_frame [simp]:
  "pm_id (overlay us q) = pm_id q" "pm_feed (overlay us q) = pm_feed q" "pm_url (overlay us q) = pm_url q"
  "pm_processed (overlay us q) = pm_processed q" "pm_whitelisted (overlay us q) = pm_whitelisted q"
  by (simp_all add: overlay_def split: option.splits)

lemma apply_one_update:
  assumes "apply_post_update fid u st = Some st'" and "posts_ok (snd st)" and "p \<in> set (snd st)"
    and "pm_id p = pu_post u" and "pm_feed p = fid"
  shows "snd st' = map (\<lambda>q. if pm_id q = pu_post u then updated_row u q else q) (snd st)"
proof -
  have z: "pu_post u \<noteq> 0" using assms(2,3,4) by (auto simp: posts_ok_def list_all_iff)
  have f: "find (\<lambda>q. pm_id q = pu_post u) (snd st) = Some p" using find_by_id [OF assms(2,3)] assms(4) by simp
  show ?thesis
  proof (cases "names_a_field u")
    case True
    with assms(1,4,5) z f show ?thesis by (auto simp: apply_post_update_def split: if_splits)
  next
    case False
    with assms(1,4,5) z f have "st' = st" by (auto simp: apply_post_update_def)
    moreover have "map (\<lambda>q. if pm_id q = pu_post u then updated_row u q else q) (snd st) = snd st"
      using updated_row_idle [OF False] by (intro map_idI) simp
    ultimately show ?thesis by simp
  qed
qed

lemma apply_updates_overlay:
  assumes "insert_rows (apply_post_update fid) us st = Some st'" and "posts_ok (snd st)"
    and "distinct (map pu_post us)" and "\<forall>u\<in>set us. \<exists>p\<in>set (snd st). pm_id p = pu_post u \<and> pm_feed p = fid"
  shows "snd st' = map (overlay us) (snd st)"
  using assms
proof (induction us arbitrary: st)
  case Nil
  then show ?case by (simp add: overlay_def)
next
  case (Cons u us)
  then obtain st1 where one: "apply_post_update fid u st = Some st1" and rest: "insert_rows (apply_post_update fid) us st1 = Some st'"
    by (auto simp: Option.bind_eq_Some_conv)
  obtain p where p: "p \<in> set (snd st)" "pm_id p = pu_post u" "pm_feed p = fid" using Cons.prems(4) by auto
  let ?g = "\<lambda>q. if pm_id q = pu_post u then updated_row u q else q"
  have st1: "snd st1 = map ?g (snd st)" by (rule apply_one_update [OF one Cons.prems(2) p])
  have "\<exists>p\<in>set (snd st1). pm_id p = pu_post v \<and> pm_feed p = fid" if v: "v \<in> set us" for v
  proof -
    obtain q where "q \<in> set (snd st)" "pm_id q = pu_post v" "pm_feed q = fid" using Cons.prems(4) v by auto
    then show ?thesis unfolding st1 by (intro bexI [of _ "?g q"]) auto
  qed
  then have "snd st' = map (overlay us) (snd st1)"
    using Cons.IH [OF rest apply_post_update_ok [OF one Cons.prems(2)]] Cons.prems(3) by simp
  also have "\<dots> = map (overlay (u # us)) (snd st)"
  proof -
    have "find (\<lambda>v. pu_post v = pu_post u) us = None" using Cons.prems(3) by (simp add: find_None_iff) (metis image_eqI)
    then have "overlay us (?g q) = overlay (u # us) q" for q by (simp add: overlay_def)
    then show ?thesis by (simp add: st1)
  qed
  finally show ?case .
qed

lemma create_posts_shape:
  assumes "create_posts uuids now fid news m = Some m1" and "posts_ok (m_posts m)"
  shows "posts_ok (m_posts m1) \<and> (\<exists>new. m_posts m1 = m_posts m @ new \<and>
    list_all2 (\<lambda>n q. \<exists>i. q = (stored_row fid n)\<lparr>pm_id := i\<rparr>) news new \<and>
    m1 = m\<lparr>m_posts := m_posts m @ new, m_jobs := m_jobs m @ map (pending_job uuids now) (filter pm_whitelisted new)\<rparr>)"
proof -
  obtain ps where ins: "insert_rows insert_post (map (stored_row fid) news) (m_posts m) = Some ps"
    and m1: "m1 = m\<lparr>m_posts := ps, m_jobs := m_jobs m @ map (pending_job uuids now) (filter pm_whitelisted (drop (length (m_posts m)) ps))\<rparr>"
    using assms(1) by (auto simp: create_posts_def)
  obtain new where "ps = m_posts m @ new" "list_all2 (\<lambda>r q. \<exists>i. q = r\<lparr>pm_id := i\<rparr>) (map (stored_row fid) news) new" "posts_ok ps"
    using insert_posts [OF ins assms(2)] by auto
  then show ?thesis using m1 by (auto simp: list_all2_map1)
qed

definition same_post :: "int \<Rightarrow> post_media \<Rightarrow> post_media \<Rightarrow> bool" where
  "same_post fid p q \<longleftrightarrow> pm_id q = pm_id p \<and> pm_feed q = pm_feed p \<and> pm_url q = pm_url p \<and> pm_processed q = pm_processed p \<and>
     pm_whitelisted q = pm_whitelisted p \<and> pm_release q = pm_release p \<and> (pm_feed p \<noteq> fid \<longrightarrow> q = p)"

lemma same_post_refl [simp]: "same_post fid p p"
  by (simp add: same_post_def)

lemma same_post_trans: "same_post fid p q \<Longrightarrow> same_post fid q r \<Longrightarrow> same_post fid p r"
  by (simp add: same_post_def)

lemma same_posts_trans:
  "list_all2 (same_post fid) ps qs \<Longrightarrow> list_all2 (same_post fid) qs rs \<Longrightarrow> list_all2 (same_post fid) ps rs"
  using list_all2_trans [of "same_post fid" "same_post fid" "same_post fid"] same_post_trans by blast

lemma apply_updates_same:
  assumes "insert_rows (apply_post_update fid) us st = Some st'" and "posts_ok (snd st)"
  shows "list_all2 (same_post fid) (snd st) (snd st')"
  using assms
proof (induction us arbitrary: st)
  case Nil
  then show ?case by (simp add: list.rel_refl)
next
  case (Cons u us)
  then obtain st1 where one: "apply_post_update fid u st = Some st1" and rest: "insert_rows (apply_post_update fid) us st1 = Some st'"
    by (auto simp: Option.bind_eq_Some_conv)
  from one have "list_all2 (same_post fid) (snd st) (snd st1)"
  proof (cases rule: apply_post_update_cases)
    case (2 p)
    have "pm_feed q = fid" if "q \<in> set (snd st)" "pm_id q = pm_id p" for q
      using that 2(1,3) Cons.prems(2) by (auto simp: posts_ok_def distinct_map dest: inj_onD)
    then have "\<forall>q\<in>set (snd st). same_post fid q (if pm_id q = pm_id p then updated_row u q else q)"
      by (simp add: same_post_def updated_row_def)
    then show ?thesis unfolding 2(5) snd_conv by (simp add: list_all2_map2 list_all2_same)
  qed (simp add: list.rel_refl)
  from same_posts_trans [OF this Cons.IH [OF rest apply_post_update_ok [OF one Cons.prems(2)]]] show ?case .
qed

lemma filter_other_rows:
  assumes "\<And>g. fd_id (h g) = fd_id g"
  shows "filter (\<lambda>g. fd_id g \<noteq> fid) (map (\<lambda>g. if fd_id g = fid then h g else g) gs) = filter (\<lambda>g. fd_id g \<noteq> fid) gs"
  using assms by (induction gs) auto

lemma refresh_feed_action_Inr:
  assumes "refresh_feed_action uuids now fid (art, news, us) db = Inr (r, db')"
  obtains f m k ps where "find_feed fid db = Some f" and "create_posts uuids now fid news (fs_media db) = Some m"
    and "apply_existing_post_updates fid us (m_posts m) = Some (k, ps)"
    and "db' = db\<lparr>fs_media := recount now (m\<lparr>m_posts := ps\<rparr>),
      fs_feeds := map (\<lambda>g. if fd_id g = fid
        then g\<lparr>fd_image := (case art of None \<Rightarrow> fd_image g | Some h \<Rightarrow> Some h),
               fd_changed := (if art \<noteq> None \<or> news \<noteq> [] \<or> k > 0 then now else fd_changed g)\<rparr> else g) (fs_feeds db)\<rparr>"
  using assms by (auto simp: refresh_feed_action_def Let_def split: option.splits)

text \<open>C26.  A refresh that succeeds appends one row for every new episode of its plan, with a pending job for each
  that is whitelisted and for no other, keeps the guids and addresses of every feed unique and every post's
  paths and white list as they were, and touches no post of another feed and no other table.\<close>

theorem refresh_queues_the_new_episodes:
  assumes "refresh_feed_action uuids now fid (art, news, us) db = Inr (r, db')" and "posts_ok (m_posts (fs_media db))"
  shows "\<exists>new. list_all2 (\<lambda>n q. \<exists>i. q = (stored_row fid n)\<lparr>pm_id := i\<rparr>) news new \<and>
    list_all2 (same_post fid) (m_posts (fs_media db) @ new) (m_posts (fs_media db')) \<and> posts_ok (m_posts (fs_media db')) \<and>
    m_jobs (fs_media db') = m_jobs (fs_media db) @ map (pending_job uuids now) (filter pm_whitelisted new) \<and>
    m_segments (fs_media db') = m_segments (fs_media db) \<and> m_idents (fs_media db') = m_idents (fs_media db) \<and>
    m_calls (fs_media db') = m_calls (fs_media db) \<and> m_audio (fs_media db') = m_audio (fs_media db) \<and>
    m_files (fs_media db') = m_files (fs_media db) \<and> fs_members db' = fs_members db \<and> fs_tokens db' = fs_tokens db \<and>
    filter (\<lambda>g. fd_id g \<noteq> fid) (fs_feeds db') = filter (\<lambda>g. fd_id g \<noteq> fid) (fs_feeds db)"
proof -
  from assms(1) obtain f m k ps where c: "create_posts uuids now fid news (fs_media db) = Some m"
    and a: "apply_existing_post_updates fid us (m_posts m) = Some (k, ps)"
    and db': "db' = db\<lparr>fs_media := recount now (m\<lparr>m_posts := ps\<rparr>),
      fs_feeds := map (\<lambda>g. if fd_id g = fid
        then g\<lparr>fd_image := (case art of None \<Rightarrow> fd_image g | Some h \<Rightarrow> Some h),
               fd_changed := (if art \<noteq> None \<or> news \<noteq> [] \<or> k > 0 then now else fd_changed g)\<rparr> else g) (fs_feeds db)\<rparr>"
    by (rule refresh_feed_action_Inr)
  obtain new where ok: "posts_ok (m_posts m)" and n: "m_posts m = m_posts (fs_media db) @ new"
      "list_all2 (\<lambda>n q. \<exists>i. q = (stored_row fid n)\<lparr>pm_id := i\<rparr>) news new"
    and m: "m = (fs_media db)\<lparr>m_posts := m_posts (fs_media db) @ new,
      m_jobs := m_jobs (fs_media db) @ map (pending_job uuids now) (filter pm_whitelisted new)\<rparr>"
    using create_posts_shape [OF c assms(2)] by blast
  have "list_all2 (same_post fid) (m_posts m) ps" "posts_ok ps"
    using apply_updates_same [of fid us "(0, m_posts m)" "(k, ps)"] apply_updates_ok [of fid us "(0, m_posts m)" "(k, ps)"] a ok
    by (simp_all add: apply_existing_post_updates_def)
  then show ?thesis using n by (intro exI [of _ new]) (simp add: recount_def m db' filter_other_rows)
qed

section \<open>Refreshing again\<close>

definition entry_ready :: "feed_entry \<Rightarrow> bool" where
  "entry_ready e \<longleftrightarrow> fe_id e \<noteq> None \<and> entry_id e \<noteq> [] \<and> py_strip (entry_id e) = entry_id e \<and> py_strip (fe_title e) = fe_title e"

text \<open>A row says what an entry says.\<close>

definition shows_entry :: "feed_env \<Rightarrow> string option \<Rightarrow> feed_entry \<Rightarrow> post_media \<Rightarrow> bool" where
  "shows_entry env feed_image e p \<longleftrightarrow> pm_guid p = entry_id e \<and> (py_strip (fe_title e) \<noteq> [] \<longrightarrow> pm_title p = py_strip (fe_title e)) \<and>
     pm_description p = Some (extract_post_description e) \<and> pm_image p = extract_episode_image_url e feed_image \<and>
     (pm_processed p = None \<longrightarrow> get_duration env e \<noteq> None \<longrightarrow> pm_duration p = map_option of_int (get_duration env e))"

lemma stored_post_Some:
  assumes "stored_post ps e = Some (p, rg)"
  shows "p \<in> set ps \<and> (case rg of None \<Rightarrow> pm_guid p = entry_id e | Some g \<Rightarrow> g = entry_id e)"
  using assms unfolding stored_post_def post_with_guid_def post_with_url_def
  by (auto simp: Let_def find_Some_iff split: option.splits if_splits) (metis nth_mem length_rev set_rev)+

lemma ready_guid: "entry_ready e \<Longrightarrow> get_guid env e = entry_id e"
  by (cases "fe_id e"; cases "entry_id e") (auto simp: entry_ready_def get_guid_def entry_id_def first_or_def Let_def)

lemma updated_row_shows:
  assumes "stored_post ps e = Some (p, rg)"
  shows "shows_entry env feed_image e (updated_row (existing_post_refresh_payload env feed_image e (p, rg)) p)"
  using stored_post_Some [OF assms]
  by (auto simp: shows_entry_def updated_row_def existing_post_refresh_payload_def changed_to_def Let_def split: option.splits)

lemma new_row_shows:
  assumes "entry_ready e"
  shows "shows_entry env feed_image e ((stored_row fid (new_post_refresh_payload env auto feed_image oldest e))\<lparr>pm_id := i\<rparr>)"
  using assms by (simp add: shows_entry_def stored_row_def new_post_refresh_payload_def make_post_def ready_guid) (simp add: entry_ready_def)

lemma shown_entry_is_settled:
  assumes "posts_ok (m_posts m)" and "p \<in> set (posts_of_feed fid m)" and "shows_entry env feed_image e p"
  shows "stored_post (posts_of_feed fid m) e = Some (p, None)" and "\<not> names_a_field (existing_post_refresh_payload env feed_image e (p, None))"
proof -
  have inj: "inj_on (\<lambda>q. (pm_feed q, pm_guid q)) (set (m_posts m))" using assms(1) by (simp add: posts_ok_def distinct_map)
  have own: "q = p" if "q \<in> set (posts_of_feed fid m)" "pm_guid q = entry_id e" for q
    by (rule inj_onD [OF inj]) (use assms(2,3) that in \<open>simp_all add: posts_of_feed_def shows_entry_def\<close>)
  have "find (\<lambda>q. pm_guid q = entry_id e) (rev (posts_of_feed fid m)) = Some p"
  proof (rule find_unique)
    show "p \<in> set (rev (posts_of_feed fid m))" "pm_guid p = entry_id e" using assms(2,3) by (simp_all add: shows_entry_def)
    show "q = p" if "q \<in> set (rev (posts_of_feed fid m))" "pm_guid q = entry_id e" for q using own that by simp
  qed
  then show "stored_post (posts_of_feed fid m) e = Some (p, None)" by (simp add: stored_post_def post_with_guid_def)
  show "\<not> names_a_field (existing_post_refresh_payload env feed_image e (p, None))"
    using assms(3) by (auto simp: shows_entry_def names_a_field_def existing_post_refresh_payload_def changed_to_def Let_def split: option.splits)
qed

lemma map_filter_some: "List.map_filter (\<lambda>e. map_option (g e) (h e)) es = map (\<lambda>e. g e (the (h e))) (filter (\<lambda>e. h e \<noteq> None) es)"
  by (induction es) (auto simp: map_filter_simps)

lemma set_find_distinct:
  assumes "u \<in> set us" and "distinct (map pu_post us)"
  shows "find (\<lambda>v. pu_post v = pu_post u) us = Some u"
  by (rule find_unique [OF assms(1) refl]) (use assms in \<open>auto simp: distinct_map dest: inj_onD\<close>)

lemma overlay_filtered:
  assumes "u \<in> set us" and "distinct (map pu_post us)" and "pu_post u = pm_id p"
  shows "overlay (filter names_a_field us) p = updated_row u p"
proof (cases "names_a_field u")
  case True
  have "find (\<lambda>v. pu_post v = pm_id p) (filter names_a_field us) = Some u"
    using set_find_distinct [of u "filter names_a_field us"] assms True by (simp add: distinct_map_filter)
  then show ?thesis by (simp add: overlay_def)
next
  case False
  have "find (\<lambda>v. pu_post v = pm_id p) (filter names_a_field us) = None"
    using assms False by (simp add: find_None_iff distinct_map) (metis inj_onD)
  then show ?thesis using False by (simp add: overlay_def updated_row_idle)
qed

lemma overlay_other:
  assumes "pm_id q \<notin> pu_post ` set us"
  shows "overlay us q = q"
proof -
  have "find (\<lambda>u. pu_post u = pm_id q) us = None" using assms by (simp add: find_None_iff) (metis image_eqI)
  then show ?thesis by (simp add: overlay_def)
qed

lemma list_all2_member: "list_all2 R xs ys \<Longrightarrow> x \<in> set xs \<Longrightarrow> \<exists>y\<in>set ys. R x y"
  by (induction rule: list_all2_induct) auto

lemma find_feed_map:
  assumes "\<And>g. fd_id (h g) = fd_id g"
  shows "find (\<lambda>g. fd_id g = fid) (map (\<lambda>g. if fd_id g = fid then h g else g) gs) = map_option h (find (\<lambda>g. fd_id g = fid) gs)"
  using assms by (induction gs) auto

text \<open>Where the update of an entry went, and where its new row is.\<close>

lemma refreshed_entry:
  fixes env feed_image fid es
  defines "payload \<equiv> \<lambda>ps e. existing_post_refresh_payload env feed_image e (the (stored_post ps e))"
  assumes "posts_ok (old @ new)" and "ps = filter (\<lambda>p. pm_feed p = fid) old"
    and "U = map (payload ps) (filter (\<lambda>e. stored_post ps e \<noteq> None) es)" and "distinct (map pu_post U)"
    and "list_all2 (\<lambda>n q. \<exists>i. q = (stored_row fid n)\<lparr>pm_id := i\<rparr>)
      (map (new_post_refresh_payload env auto feed_image oldest) (filter (\<lambda>e. stored_post ps e = None) es)) new"
    and "e \<in> set es" and "entry_ready e"
  shows "\<exists>p\<in>set (map (overlay (filter names_a_field U)) (old @ new)). pm_feed p = fid \<and> shows_entry env feed_image e p"
proof (cases "stored_post ps e")
  case None
  then have "new_post_refresh_payload env auto feed_image oldest e \<in>
      set (map (new_post_refresh_payload env auto feed_image oldest) (filter (\<lambda>e. stored_post ps e = None) es))"
    using assms(7) by simp
  then obtain q i where q: "q \<in> set new" "q = (stored_row fid (new_post_refresh_payload env auto feed_image oldest e))\<lparr>pm_id := i\<rparr>"
    using list_all2_member [OF assms(6)] by blast
  have "pu_post ` set U \<subseteq> pm_id ` set old"
  proof
    fix x
    assume "x \<in> pu_post ` set U"
    then obtain a p rg where "stored_post ps a = Some (p, rg)" "x = pm_id p"
      by (auto simp: assms(4) payload_def existing_post_refresh_payload_def Let_def)
    then show "x \<in> pm_id ` set old" using stored_post_Some by (fastforce simp: assms(3))
  qed
  moreover have "pm_id q \<notin> pm_id ` set old" using assms(2) q(1) by (force simp: posts_ok_def)
  ultimately have "overlay (filter names_a_field U) q = q" by (intro overlay_other) auto
  then show ?thesis using new_row_shows [OF assms(8), where env = env and feed_image = feed_image and fid = fid and auto = auto and oldest = oldest and i = i] q
    by (intro bexI [of _ q]) (auto simp: stored_row_def intro: rev_image_eqI)
next
  case (Some pr)
  then obtain p rg where st: "stored_post ps e = Some (p, rg)" by (cases pr) auto
  then have "payload ps e \<in> set U" and "pu_post (payload ps e) = pm_id p"
    using assms(7) by (auto simp: assms(4) payload_def existing_post_refresh_payload_def Let_def intro: rev_image_eqI)
  then have "overlay (filter names_a_field U) p = updated_row (payload ps e) p" using overlay_filtered assms(5) by blast
  moreover have "p \<in> set old" "pm_feed p = fid" using stored_post_Some [OF st] by (auto simp: assms(3))
  moreover from \<open>p \<in> set old\<close> have "overlay (filter names_a_field U) p \<in> set (map (overlay (filter names_a_field U)) (old @ new))" by simp
  ultimately show ?thesis using updated_row_shows [OF st, of env feed_image] st
    by (intro bexI [of _ "overlay (filter names_a_field U) p"]) (simp_all add: payload_def)
qed

text \<open>C12.  A refresh is idempotent: after a refresh that succeeded, planning with the same document finds nothing new
  and nothing to update, for a document whose entries have an identifier each and trimmed titles, name
  different posts, and whose artwork is the stored one.\<close>

theorem refreshing_again_changes_nothing:
  assumes "build_refresh_feed_payload env auto f (fs_media db) channel es = (None, news, us)"
    and "refresh_feed_action uuids now (fd_id f) (None, news, us) db = Inr (r, db')"
    and "posts_ok (m_posts (fs_media db))" and "find_feed (fd_id f) db = Some f" and "\<forall>e\<in>set es. entry_ready e"
    and "distinct (map (\<lambda>e. pm_id (fst (the (stored_post (posts_of_feed (fd_id f) (fs_media db)) e))))
      (filter (\<lambda>e. stored_post (posts_of_feed (fd_id f) (fs_media db)) e \<noteq> None) es))"
  shows "\<exists>f'. find_feed (fd_id f) db' = Some f' \<and> build_refresh_feed_payload env auto' f' (fs_media db') channel es = (None, [], [])"
proof -
  let ?fid = "fd_id f" and ?old = "m_posts (fs_media db)" and ?ps = "posts_of_feed (fd_id f) (fs_media db)"
  define U where "U = map (\<lambda>e. existing_post_refresh_payload env (fd_image f) e (the (stored_post ?ps e))) (filter (\<lambda>e. stored_post ?ps e \<noteq> None) es)"
  have plan: "news = map (new_post_refresh_payload env auto (fd_image f) (oldest_release ?ps)) (filter (\<lambda>e. stored_post ?ps e = None) es)"
      "us = filter names_a_field U" and channel: "\<And>h. channel = Some h \<Longrightarrow> fd_image f = Some h"
    using assms(1) by (auto simp: build_refresh_feed_payload_def Let_def U_def map_filter_some split: option.splits if_splits)
  from assms(2) obtain g m k ps' where c: "create_posts uuids now ?fid news (fs_media db) = Some m"
    and a: "insert_rows (apply_post_update ?fid) us (0, m_posts m) = Some (k, ps')"
    and db': "db' = db\<lparr>fs_media := recount now (m\<lparr>m_posts := ps'\<rparr>), fs_feeds := map (\<lambda>g. if fd_id g = ?fid
        then g\<lparr>fd_image := (case None of None \<Rightarrow> fd_image g | Some h \<Rightarrow> Some h),
               fd_changed := (if None \<noteq> (None :: string option) \<or> news \<noteq> [] \<or> k > 0 then now else fd_changed g)\<rparr> else g) (fs_feeds db)\<rparr>"
    unfolding apply_existing_post_updates_def by (rule refresh_feed_action_Inr [unfolded apply_existing_post_updates_def])
  obtain new where ok: "posts_ok (m_posts m)" and m: "m_posts m = ?old @ new"
    and new: "list_all2 (\<lambda>n q. \<exists>i. q = (stored_row ?fid n)\<lparr>pm_id := i\<rparr>) news new"
    using create_posts_shape [OF c assms(3)] by blast
  have dist: "distinct (map pu_post U)"
    using assms(6) by (simp add: U_def comp_def existing_post_refresh_payload_def Let_def)
  have "\<exists>p\<in>set (m_posts m). pm_id p = pu_post u \<and> pm_feed p = ?fid" if u: "u \<in> set us" for u
  proof -
    obtain e p rg where "stored_post ?ps e = Some (p, rg)" "pu_post u = pm_id p"
      using u by (auto simp: plan(2) U_def existing_post_refresh_payload_def Let_def)
    then show ?thesis using stored_post_Some by (fastforce simp: m posts_of_feed_def)
  qed
  then have ps': "ps' = map (overlay us) (?old @ new)"
    using apply_updates_overlay [OF a] ok dist by (simp add: m plan(2) distinct_map_filter)
  have "posts_ok ps'" using apply_updates_ok [OF a] ok by simp
  moreover have posts': "m_posts (fs_media db') = ps'" by (simp add: db' recount_def)
  ultimately have ok': "posts_ok (m_posts (fs_media db'))" by simp
  obtain f' where f': "find_feed ?fid db' = Some f'" "fd_image f' = fd_image f" "fd_id f' = ?fid"
    using assms(4) by (auto simp: db' find_feed_def find_feed_map)
  have settled: "\<exists>p. stored_post (posts_of_feed ?fid (fs_media db')) e = Some (p, None) \<and>
      \<not> names_a_field (existing_post_refresh_payload env (fd_image f) e (p, None))" if e: "e \<in> set es" for e
  proof -
    obtain p where "p \<in> set (posts_of_feed ?fid (fs_media db'))" "shows_entry env (fd_image f) e p"
      using refreshed_entry [OF ok [unfolded m] _ U_def dist new [unfolded plan(1)] e] assms(5) e
      by (auto simp: posts_of_feed_def posts' ps' plan(2))
    with shown_entry_is_settled [OF ok'] show ?thesis by blast
  qed
  let ?ps' = "posts_of_feed ?fid (fs_media db')"
  have "filter (\<lambda>e. stored_post ?ps' e = None) es = []" unfolding filter_empty_conv using settled by fastforce
  moreover have "filter names_a_field (map (\<lambda>e. existing_post_refresh_payload env (fd_image f) e (the (stored_post ?ps' e)))
      (filter (\<lambda>e. stored_post ?ps' e \<noteq> None) es)) = []"
    unfolding filter_empty_conv using settled by fastforce
  ultimately show ?thesis using f' channel
    by (simp add: build_refresh_feed_payload_def Let_def map_filter_some split: option.splits)
qed

section \<open>Two episodes with one audio file\<close>

lemma insert_rows_grow:
  "insert_rows insert_post rs ps = Some qs \<Longrightarrow> \<exists>new. qs = ps @ new"
proof (induction rs arbitrary: ps)
  case (Cons r rs)
  then obtain ps1 where "insert_post r ps = Some ps1" "insert_rows insert_post rs ps1 = Some qs"
    by (auto simp: Option.bind_eq_Some_conv)
  then show ?case using Cons.IH by (fastforce simp: insert_post_def split: if_splits)
qed simp

lemma insert_twins_fails:
  assumes "pm_feed r = pm_feed s" and "pm_url r = pm_url s"
  shows "insert_rows insert_post (a @ r # b @ s # c) ps = None"
proof (rule ccontr)
  assume "insert_rows insert_post (a @ r # b @ s # c) ps \<noteq> None"
  then obtain ps1 ps2 ps3 where "insert_post r ps1 = Some ps2" "insert_rows insert_post b ps2 = Some ps3" "insert_post s ps3 \<noteq> None"
    by (auto simp: insert_rows_append Option.bind_eq_Some_conv split: Option.bind_splits)
  then show False using assms insert_rows_grow [of b ps2 ps3] by (auto simp: insert_post_def split: if_splits)
qed

text \<open>Two new episodes whose entries lead to one audio file block the refresh of their feed: the address of
  the audio is unique within a feed, so the writer refuses the whole plan, and nothing of it is stored, whatever
  else is new or changed in the document.\<close>

theorem twin_episodes_block_the_refresh:
  assumes "fetched env entries = a @ d # b @ e # c" and "find_audio_link d = find_audio_link e"
    and "stored_post (posts_of_feed (fd_id f) (fs_media db)) d = None" and "stored_post (posts_of_feed (fd_id f) (fs_media db)) e = None"
  shows "refresh_feed env settings uuids now channel entries f db = db"
proof -
  define auto where "auto = should_auto_whitelist_new_posts (fst settings) (snd settings) f db"
  let ?ps = "posts_of_feed (fd_id f) (fs_media db)" and ?row = "\<lambda>e. stored_row (fd_id f) (new_post_refresh_payload env auto (fd_image f)
    (oldest_release (posts_of_feed (fd_id f) (fs_media db))) e)"
  obtain art news us where plan: "build_refresh_feed_payload env auto f (fs_media db) channel (fetched env entries) = (art, news, us)"
    by (metis prod_cases3)
  then have "map (stored_row (fd_id f)) news = map ?row (filter (\<lambda>e. stored_post ?ps e = None) (a @ d # b @ e # c))"
    by (auto simp: build_refresh_feed_payload_def Let_def assms(1))
  then have "map (stored_row (fd_id f)) news = map ?row (filter (\<lambda>e. stored_post ?ps e = None) a) @ ?row d #
      map ?row (filter (\<lambda>e. stored_post ?ps e = None) b) @ ?row e # map ?row (filter (\<lambda>e. stored_post ?ps e = None) c)"
    using assms(3,4) by simp
  moreover have "pm_feed (?row d) = pm_feed (?row e)" "pm_url (?row d) = pm_url (?row e)"
    using assms(2) by (simp_all add: stored_row_def new_post_refresh_payload_def make_post_def)
  ultimately have "create_posts uuids now (fd_id f) news (fs_media db) = None" by (simp add: create_posts_def insert_twins_fails)
  then have "\<exists>x. refresh_feed_action uuids now (fd_id f) (art, news, us) db = Inl x"
    by (auto simp: refresh_feed_action_def split: option.splits)
  then show ?thesis using plan by (auto simp: refresh_feed_def auto_def Let_def)
qed

text \<open>A feed that was stored under the address a redirect led to is not found under the address it was
  subscribed with: adding it again by that address does not refresh it but fails on the unique address.\<close>

theorem a_redirected_feed_is_added_twice:
  assumes "\<forall>g\<in>set (fs_feeds db). fd_rss g \<noteq> url" and "g \<in> set (fs_feeds db)" and "fd_rss new = fd_rss g"
  shows "add_or_refresh_feed env settings limit uuids now url (Some new) entries again db = Inl FeedIntegrity"
proof -
  have "find (\<lambda>g. fd_rss g = url) (fs_feeds db) = None" using assms(1) by (simp add: find_None_iff)
  moreover have "insert_feed new db = None" using assms(2,3) by (auto simp: insert_feed_def list_ex_iff)
  ultimately show ?thesis by (simp add: add_or_refresh_feed_def add_feed_def add_feed_action_def)
qed

section \<open>Active feeds\<close>

lemma feed_rank_Some: "feed_rank x fs = Some i \<Longrightarrow> i < length fs \<and> fs ! i = x"
  by (induction fs arbitrary: i) (auto split: if_splits)

text \<open>A user who is no administrator has at most as many active feeds as the allowance, beside the feed that is
  active for everyone.\<close>

theorem active_feeds_fit_the_allowance:
  assumes "role u \<noteq> ''admin''"
  shows "finite {x. x \<noteq> 1 \<and> is_feed_active_for_user x (u, plan) ms} \<and>
    int (card {x. x \<noteq> 1 \<and> is_feed_active_for_user x (u, plan) ms}) \<le> max 0 (case manual_feed_allowance u of Some a \<Rightarrow> a | None \<Rightarrow> plan)"
proof -
  define fs where "fs = user_feeds_by_age (user_id u) ms"
  define k where "k = (case manual_feed_allowance u of Some a \<Rightarrow> a | None \<Rightarrow> plan)"
  have sub: "{x. x \<noteq> 1 \<and> is_feed_active_for_user x (u, plan) ms} \<subseteq> (\<lambda>i. fs ! i) ` {..<nat k}"
  proof
    fix x
    assume "x \<in> {x. x \<noteq> 1 \<and> is_feed_active_for_user x (u, plan) ms}"
    then obtain i where "feed_rank x fs = Some i" "int i < k"
      using assms by (auto simp: is_feed_active_for_user_def fs_def k_def Let_def split: option.splits)
    then have "fs ! i = x" "i < nat k" using feed_rank_Some by auto
    then show "x \<in> (\<lambda>i. fs ! i) ` {..<nat k}" by blast
  qed
  from card_mono [OF _ sub] finite_subset [OF sub] card_image_le [of "{..<nat k}" "\<lambda>i. fs ! i"] show ?thesis by (simp add: k_def)
qed

section \<open>What deleting a feed removes\<close>

lemma drop_batches_eq: "distinct (map key xs) \<Longrightarrow> drop_batches key P xs = filter (\<lambda>x. \<not> P x) xs"
proof (induction key P xs rule: drop_batches.induct)
  case (1 key P xs)
  let ?ks = "take FEED_DELETE_BATCH (map key (filter P xs))"
  show ?case
  proof (cases "?ks = []")
    case True
    then have "filter P xs = []" by (simp add: FEED_DELETE_BATCH_def)
    then have "filter (\<lambda>x. \<not> P x) xs = xs" by (auto simp: filter_empty_conv intro: filter_True)
    then show ?thesis using True by (subst drop_batches.simps) simp
  next
    case False
    have "key x \<notin> set ?ks" if "x \<in> set xs" "\<not> P x" for x
      using "1.prems" that by (auto simp: distinct_map dest!: in_set_takeD dest: inj_onD)
    then have "filter (\<lambda>x. \<not> P x) (filter (\<lambda>x. key x \<notin> set ?ks) xs) = filter (\<lambda>x. \<not> P x) xs"
      by (auto intro: filter_cong)
    with "1.IH" [OF refl False] "1.prems" False show ?thesis
      by (subst drop_batches.simps) (simp add: Let_def distinct_map_filter)
  qed
qed

lemma drop_feed_segments_eq:
  "segments_distinct m \<Longrightarrow> drop_feed_segments pids m =
    m\<lparr>m_idents := filter (\<lambda>i. id_segment i \<notin> set (feed_segment_ids pids m)) (m_idents m),
      m_segments := filter (\<lambda>s. sg_post s \<notin> set pids) (m_segments m)\<rparr>"
proof (induction pids m rule: drop_feed_segments.induct)
  case (1 pids m)
  let ?ids = "take FEED_DELETE_BATCH (feed_segment_ids pids m)"
  let ?m = "delete_segments ?ids (delete_idents_of ?ids m)"
  show ?case
  proof (cases "?ids = []")
    case True
    then have none: "feed_segment_ids pids m = []" by (simp add: FEED_DELETE_BATCH_def)
    then have "filter (\<lambda>s. sg_post s \<notin> set pids) (m_segments m) = m_segments m"
      by (auto simp: feed_segment_ids_def filter_empty_conv intro: filter_True)
    then show ?thesis using none by (subst drop_feed_segments.simps) simp
  next
    case False
    have mem: "sg_post s \<in> set pids" if "s \<in> set (m_segments m)" "sg_id s \<in> set ?ids" for s
      using "1.prems" that by (auto simp: feed_segment_ids_def segments_distinct_def distinct_map dest!: in_set_takeD dest: inj_onD)
    have dist: "segments_distinct ?m"
      using "1.prems" by (simp add: segments_distinct_def delete_segments_def delete_idents_of_def distinct_map_filter)
    have union: "set ?ids \<union> set (feed_segment_ids pids ?m) = set (feed_segment_ids pids m)"
      by (auto simp: feed_segment_ids_def delete_segments_def delete_idents_of_def dest: in_set_takeD)
    have "filter (\<lambda>s. sg_post s \<notin> set pids) (filter (\<lambda>s. sg_id s \<notin> set ?ids) (m_segments m)) = filter (\<lambda>s. sg_post s \<notin> set pids) (m_segments m)"
      using mem by (auto intro: filter_cong)
    moreover have "drop_feed_segments pids m = drop_feed_segments pids ?m"
      using False by (subst drop_feed_segments.simps) (simp add: Let_def)
    ultimately show ?thesis
      using "1.IH" [OF refl False dist] unfolding union [symmetric] filter_idents_twice [symmetric]
      by (simp add: delete_segments_def delete_idents_of_def)
  qed
qed

lemma filter_feed_posts:
  assumes "posts_ok (m_posts m)"
  shows "filter (\<lambda>p. pm_id p \<notin> pm_id ` set (posts_of_feed fid m)) (m_posts m) = filter (\<lambda>p. pm_feed p \<noteq> fid) (m_posts m)"
proof (rule filter_cong [OF refl])
  fix p
  assume p: "p \<in> set (m_posts m)"
  have inj: "inj_on pm_id (set (m_posts m))" using assms by (simp add: posts_ok_def distinct_map)
  show "pm_id p \<notin> pm_id ` set (posts_of_feed fid m) \<longleftrightarrow> pm_feed p \<noteq> fid"
    using p by (auto simp: posts_of_feed_def dest: inj_onD [OF inj])
qed

text \<open>The media tables after the deletion.\<close>

definition without_feed :: "int \<Rightarrow> media_db \<Rightarrow> media_db" where
  "without_feed fid m =
     (let pids = pm_id ` set (posts_of_feed fid m); guids = pm_guid ` set (posts_of_feed fid m) in
      m\<lparr>m_posts := filter (\<lambda>p. pm_feed p \<noteq> fid) (m_posts m), m_segments := filter (\<lambda>s. sg_post s \<notin> pids) (m_segments m),
        m_idents := filter (\<lambda>i. \<not> (\<exists>s\<in>set (m_segments m). sg_id s = id_segment i \<and> sg_post s \<in> pids)) (m_idents m),
        m_calls := filter (\<lambda>c. mc_post c \<notin> pids) (m_calls m), m_jobs := filter (\<lambda>j. post_guid j \<notin> guids) (m_jobs m)\<rparr>)"

lemma without_feed_ok:
  assumes "store_ok m"
  shows "store_ok (without_feed fid m)"
proof (rule store_ok_drop [OF assms])
  let ?P = "pm_id ` set (posts_of_feed fid m)"
  show "m_segments (without_feed fid m) = filter (\<lambda>s. sg_post s \<notin> ?P) (m_segments m)"
    "m_calls (without_feed fid m) = filter (\<lambda>c. mc_post c \<notin> ?P) (m_calls m)"
    "m_idents (without_feed fid m) = filter (\<lambda>i. \<not> (\<exists>s\<in>set (m_segments m). sg_id s = id_segment i \<and> sg_post s \<in> ?P)) (m_idents m)"
    by (simp_all add: without_feed_def Let_def)
qed auto

lemma cascade_media:
  assumes "store_ok m" and "posts_ok (m_posts m)" and "distinct (map job_id (m_jobs m))"
    and "ps = posts_of_feed fid m" and "m1 = drop_feed_segments (map pm_id ps) m"
    and "m2 = m1\<lparr>m_calls := drop_batches mc_id (\<lambda>c. mc_post c \<in> set (map pm_id ps)) (m_calls m1)\<rparr>"
    and "m3 = m2\<lparr>m_jobs := drop_batches job_id (\<lambda>j. post_guid j \<in> set (map pm_guid ps)) (m_jobs m2)\<rparr>"
  shows "m3\<lparr>m_posts := filter (\<lambda>p. pm_id p \<notin> set (map pm_id ps)) (m_posts m3)\<rparr> = without_feed fid m"
proof -
  have idents: "id_segment i \<notin> set (feed_segment_ids (map pm_id ps) m) \<longleftrightarrow>
      \<not> (\<exists>s\<in>set (m_segments m). sg_id s = id_segment i \<and> sg_post s \<in> pm_id ` set ps)" for i
    by (force simp: feed_segment_ids_def image_iff)
  have calls: "distinct (map mc_id (m_calls m))" using assms(1) by (simp add: store_ok_def calls_ok_def)
  show ?thesis
    unfolding assms(5-7) drop_feed_segments_eq [OF store_ok_distinct [OF assms(1)]] idents
    using filter_feed_posts [OF assms(2), of fid]
    by (simp add: without_feed_def Let_def drop_batches_eq calls assms(3) assms(4) [symmetric])
qed

text \<open>C13.  Deleting a feed removes the feed, its posts, their transcripts with the identifications, their calls of
  models, its tokens and its memberships, and every job whose guid is that of one of its posts, also a job of
  another feed's post with the same guid.  All other rows stay, those of the audio segments of its posts among
  them, and the references of what stays are valid.\<close>

theorem deleting_a_feed_removes_exactly_its_rows:
  assumes "delete_feed_cascade_action (Some fid) db = Inr (True, db')" and "store_ok (fs_media db)"
    and "posts_ok (m_posts (fs_media db))" and "distinct (map job_id (m_jobs (fs_media db)))"
  shows "db' = db\<lparr>fs_media := without_feed fid (fs_media db), fs_tokens := filter (\<lambda>t. token_feed_id t \<noteq> Some fid) (fs_tokens db),
      fs_members := filter (\<lambda>u. mb_feed u \<noteq> fid) (fs_members db), fs_feeds := filter (\<lambda>g. fd_id g \<noteq> fid) (fs_feeds db)\<rparr> \<and>
    store_ok (fs_media db') \<and> m_audio (fs_media db') = m_audio (fs_media db)"
proof -
  have none: "without_feed fid (fs_media db) = fs_media db" if "posts_of_feed fid (fs_media db) = []"
  proof -
    have "filter (\<lambda>p. pm_feed p \<noteq> fid) (m_posts (fs_media db)) = m_posts (fs_media db)"
      using that by (auto simp: posts_of_feed_def filter_empty_conv intro: filter_True)
    then show ?thesis by (simp add: without_feed_def that)
  qed
  have db': "db' = db\<lparr>fs_media := without_feed fid (fs_media db), fs_tokens := filter (\<lambda>t. token_feed_id t \<noteq> Some fid) (fs_tokens db),
      fs_members := filter (\<lambda>u. mb_feed u \<noteq> fid) (fs_members db), fs_feeds := filter (\<lambda>g. fd_id g \<noteq> fid) (fs_feeds db)\<rparr>"
    using assms(1) none cascade_media [OF assms(2-4) refl refl refl refl]
    by (auto simp: delete_feed_cascade_action_def required_def Let_def split: if_splits option.splits)
  moreover have "m_audio (without_feed fid (fs_media db)) = m_audio (fs_media db)" by (simp add: without_feed_def Let_def)
  ultimately show ?thesis using without_feed_ok [OF assms(2)] by simp
qed

section \<open>Examples\<close>

definition plain_feed_env :: feed_env where
  "plain_feed_env = \<lparr>fv_uuid5 = (\<lambda>u. u), fv_dates = (\<lambda>_. None), fv_str = (\<lambda>_. [])\<rparr>"

definition sample_entry :: "string \<Rightarrow> string \<Rightarrow> string \<Rightarrow> feed_entry" where
  "sample_entry g title url = \<lparr>fe_id = Some g, fe_guid = None, fe_title = title, fe_content = [], fe_description = ''text'', fe_summary = [],
     fe_subtitle = [], fe_image = NoArtwork, fe_itunes_image = NoArtwork, fe_thumbnails = [],
     fe_enclosures = [\<lparr>enc_type = ''audio/mpeg'', enc_href = Some url, enc_url = None\<rparr>], fe_links = [], fe_itunes_duration = JNull,
     fe_duration = JNull, fe_published = None, fe_updated = None, fe_published_parsed = Some 1000, fe_updated_parsed = None\<rparr>"

definition sample_feed :: feed_row where
  "sample_feed = \<lparr>fd_id = 1, fd_title = ''Show'', fd_rss = ''http://show'', fd_description = None, fd_author = None, fd_image = None,
     fd_override = None, fd_changed = 0\<rparr>"

definition sample_stored :: "string \<Rightarrow> string \<Rightarrow> string \<Rightarrow> post_media" where
  "sample_stored g title url = (stored_row 1 (make_post plain_feed_env None True (sample_entry g title url)))\<lparr>pm_id := 1\<rparr>"

definition sample_feeds :: "post_media list \<Rightarrow> feed_db" where
  "sample_feeds ps = \<lparr>fs_media = empty_store\<lparr>m_posts := ps, m_audio := [\<lparr>au_post = 1, au_call = None, au_label = ''music'', au_start = 0, au_end = 9\<rparr>]\<rparr>,
     fs_feeds = [sample_feed], fs_members = [], fs_users = [], fs_tokens = []\<rparr>"

definition uuid_of :: "int \<Rightarrow> string" where
  "uuid_of i = int_str i"

text \<open>Two entries that share an audio file keep taking one row from each other: only one of them is ever stored, and
  every refresh gives the row the guid of the other, so to a subscriber the episode is new each time.\<close>

theorem shared_audio_flips_the_guid:
  "let doc = [sample_entry ''a'' ''Part one'' ''http://f'', sample_entry ''b'' ''Part two'' ''http://f''];
       step = (\<lambda>db. refresh_feed plain_feed_env (False, False) uuid_of 5 None doc sample_feed db);
       db = sample_feeds [sample_stored ''a'' ''Part one'' ''http://f''] in
   map pm_guid (m_posts (fs_media (step db))) = [''b''] \<and> map pm_guid (m_posts (fs_media (step (step db)))) = [''a''] \<and>
   map pm_guid (m_posts (fs_media (step (step (step db))))) = [''b'']"
  by code_simp

text \<open>The segments of music and silence of a deleted feed stay, and the ids of its posts are given out again: a
  new episode gets them as its own.\<close>

theorem a_new_episode_inherits_the_audio_of_a_deleted_one:
  "case delete_feed_cascade_action (Some 1) (sample_feeds [sample_stored ''a'' ''Part one'' ''http://f'']) of
     Inr (True, db) \<Rightarrow>
       (case add_feed plain_feed_env False None uuid_of 9 sample_feed [sample_entry ''n'' ''New'' ''http://n''] db of
          Inr (fid, db') \<Rightarrow> map (\<lambda>p. (pm_id p, pm_guid p)) (m_posts (fs_media db')) = [(1, ''n'')] \<and> map au_post (m_audio (fs_media db')) = [1]
        | _ \<Rightarrow> False)
   | _ \<Rightarrow> False"
  by code_simp

text \<open>Guids are unique within a feed only: the deletion of a feed takes the pending job of another feed's post
  that has the same guid.\<close>

theorem a_deleted_feed_takes_the_jobs_of_another:
  "let other = (sample_stored ''a'' ''Other'' ''http://o'')\<lparr>pm_id := 2, pm_feed := 2\<rparr>;
       db = sample_feeds [sample_stored ''a'' ''Part one'' ''http://f'', other];
       db1 = db\<lparr>fs_media := (fs_media db)\<lparr>m_jobs := [pending_job uuid_of 5 other]\<rparr>\<rparr> in
   case delete_feed_cascade_action (Some 1) db1 of
     Inr (True, db2) \<Rightarrow> m_posts (fs_media db2) = [other] \<and> m_jobs (fs_media db2) = []
   | _ \<Rightarrow> False"
  by code_simp

lemma sample_posts_ok: "posts_ok (m_posts (fs_media (sample_feeds [sample_stored g t u])))"
  by (simp add: posts_ok_def sample_feeds_def sample_stored_def)

theorem refresh_queues_the_new_episodes_witness:
  "\<exists>r db'. refresh_feed_action uuid_of 5 1 (None, [make_post plain_feed_env None True (sample_entry ''b'' ''Two'' ''http://g'')], [])
     (sample_feeds [sample_stored ''a'' ''One'' ''http://f'']) = Inr (r, db') \<and> posts_ok (m_posts (fs_media db')) \<and> length (m_jobs (fs_media db')) = 1"
proof -
  let ?n = "make_post plain_feed_env None True (sample_entry ''b'' ''Two'' ''http://g'')"
  let ?db = "sample_feeds [sample_stored ''a'' ''One'' ''http://f'']"
  have "case refresh_feed_action uuid_of 5 1 (None, [?n], []) ?db of Inl e \<Rightarrow> False | Inr x \<Rightarrow> True" by code_simp
  then obtain r db' where c: "refresh_feed_action uuid_of 5 1 (None, [?n], []) ?db = Inr (r, db')"
    by (cases "refresh_feed_action uuid_of 5 1 (None, [?n], []) ?db") auto
  from refresh_queues_the_new_episodes [OF c sample_posts_ok]
  obtain new where "list_all2 (\<lambda>n q. \<exists>i. q = (stored_row 1 n)\<lparr>pm_id := i\<rparr>) [?n] new" "posts_ok (m_posts (fs_media db'))"
    "m_jobs (fs_media db') = m_jobs (fs_media ?db) @ map (pending_job uuid_of 5) (filter pm_whitelisted new)" by blast
  moreover from this(1) have "filter pm_whitelisted new = new"
    by (auto simp: list_all2_Cons1 stored_row_def make_post_def)
  ultimately show ?thesis using c by (auto simp: list_all2_Cons1 sample_feeds_def empty_store_def)
qed

theorem refreshing_again_changes_nothing_witness:
  "\<exists>db' f'. refresh_feed_action uuid_of 5 1 (None, [], [existing_post_refresh_payload plain_feed_env None (sample_entry ''a'' ''New'' ''http://f'')
       (sample_stored ''a'' ''One'' ''http://f'', None)]) (sample_feeds [sample_stored ''a'' ''One'' ''http://f'']) = Inr ((0, 1), db') \<and>
     build_refresh_feed_payload plain_feed_env False f' (fs_media db') None [sample_entry ''a'' ''New'' ''http://f''] = (None, [], [])"
proof -
  let ?db = "sample_feeds [sample_stored ''a'' ''One'' ''http://f'']" and ?es = "[sample_entry ''a'' ''New'' ''http://f'']"
  let ?u = "existing_post_refresh_payload plain_feed_env None (sample_entry ''a'' ''New'' ''http://f'') (sample_stored ''a'' ''One'' ''http://f'', None)"
  have plan: "build_refresh_feed_payload plain_feed_env False sample_feed (fs_media ?db) None ?es = (None, [], [?u])" by code_simp
  have "case refresh_feed_action uuid_of 5 (fd_id sample_feed) (None, [], [?u]) ?db of Inl e \<Rightarrow> False | Inr x \<Rightarrow> fst x = (0, 1)" by code_simp
  then obtain db' where c: "refresh_feed_action uuid_of 5 (fd_id sample_feed) (None, [], [?u]) ?db = Inr ((0, 1), db')"
    by (cases "refresh_feed_action uuid_of 5 (fd_id sample_feed) (None, [], [?u]) ?db") auto
  have f: "find_feed (fd_id sample_feed) ?db = Some sample_feed" by (simp add: find_feed_def sample_feeds_def)
  have ready: "\<forall>e\<in>set ?es. entry_ready e"
    by (simp add: entry_ready_def sample_entry_def entry_id_def) (simp add: py_string_simps)
  have dist: "distinct (map (\<lambda>e. pm_id (fst (the (stored_post (posts_of_feed (fd_id sample_feed) (fs_media ?db)) e))))
      (filter (\<lambda>e. stored_post (posts_of_feed (fd_id sample_feed) (fs_media ?db)) e \<noteq> None) ?es))"
    by simp
  from refreshing_again_changes_nothing [OF plan c sample_posts_ok f ready dist, of False] c show ?thesis
    by (auto simp: sample_feed_def)
qed

theorem twin_episodes_block_the_refresh_witness:
  "refresh_feed plain_feed_env (True, False) uuid_of 5 (Some ''http://art'')
     [sample_entry ''a'' ''One'' ''http://f'', sample_entry ''b'' ''Two'' ''http://f'', sample_entry ''c'' ''Three'' ''http://g''] sample_feed (sample_feeds []) =
   sample_feeds []"
proof (rule twin_episodes_block_the_refresh)
  show "fetched plain_feed_env [sample_entry ''a'' ''One'' ''http://f'', sample_entry ''b'' ''Two'' ''http://f'', sample_entry ''c'' ''Three'' ''http://g''] =
      [] @ sample_entry ''a'' ''One'' ''http://f'' # [] @ sample_entry ''b'' ''Two'' ''http://f'' # [sample_entry ''c'' ''Three'' ''http://g'']"
    by code_simp
qed code_simp+

theorem a_redirected_feed_is_added_twice_witness:
  "add_or_refresh_feed plain_feed_env (True, False) None uuid_of 5 ''http://old'' (Some sample_feed) [] (None, []) (sample_feeds []) = Inl FeedIntegrity"
  by (rule a_redirected_feed_is_added_twice [of _ _ sample_feed]) (simp_all add: sample_feeds_def sample_feed_def)

theorem active_feeds_fit_the_allowance_witness:
  "int (card {x. x \<noteq> 1 \<and> is_feed_active_for_user x (\<lparr>user_id = 2, username = ''u'', password_hash = [], role = ''user'', discord_id = None,
     discord_username = None, manual_feed_allowance = Some 2\<rparr>, 0) [\<lparr>mb_feed = 4, mb_user = 2, mb_created = None\<rparr>]}) \<le> 2"
  using active_feeds_fit_the_allowance [of "\<lparr>user_id = 2, username = ''u'', password_hash = [], role = ''user'', discord_id = None,
     discord_username = None, manual_feed_allowance = Some 2\<rparr>" 0 "[\<lparr>mb_feed = 4, mb_user = 2, mb_created = None\<rparr>]"] by simp

theorem deleting_a_feed_removes_exactly_its_rows_witness:
  "\<exists>db'. delete_feed_cascade_action (Some 1) (sample_feeds [sample_stored ''a'' ''One'' ''http://f'']) = Inr (True, db') \<and>
     store_ok (fs_media db') \<and> m_audio (fs_media db') = m_audio (fs_media (sample_feeds []))"
proof -
  let ?db = "sample_feeds [sample_stored ''a'' ''One'' ''http://f'']"
  have "case delete_feed_cascade_action (Some 1) ?db of Inl e \<Rightarrow> False | Inr x \<Rightarrow> fst x" by code_simp
  then obtain db' where c: "delete_feed_cascade_action (Some 1) ?db = Inr (True, db')"
    by (cases "delete_feed_cascade_action (Some 1) ?db") auto
  have "store_ok (fs_media ?db)" "distinct (map job_id (m_jobs (fs_media ?db)))"
    by (simp_all add: sample_feeds_def empty_store_def store_ok_def segments_ok_def calls_ok_def)
  from deleting_a_feed_removes_exactly_its_rows [OF c this(1) sample_posts_ok this(2)] c show ?thesis
    by (auto simp: sample_feeds_def)
qed

end
