(* ===== verification/FeedViews.thy ===== *)
theory FeedViews
  imports Feeds
begin

text \<open>
  What a reader of a feed gets (\<open>app/feeds.py\<close>): which episodes a feed and a user's aggregate feed
  list, in which order, and the text of an item, with the chapters of the episode and the escaping
  of the text in a CDATA section (the branch for a handler without a writer is left out).  \<open>json.loads\<close> of the stored chapters and \<open>str\<close> are arguments;
  the library that writes the rest of the XML is left out.
\<close>

section \<open>Which episodes are listed\<close>

definition has_active_job :: "media_db \<Rightarrow> post_media \<Rightarrow> bool" where
  "has_active_job m p \<longleftrightarrow> list_ex (\<lambda>j. post_guid j = pm_guid p \<and> status j \<in> {''pending'', ''running''}) (m_jobs m)"

definition generate_feed_posts :: "bool \<Rightarrow> int \<Rightarrow> media_db \<Rightarrow> post_media list" where
  "generate_feed_posts include_unprocessed fid m =
     newest_first (filter (\<lambda>p. if include_unprocessed then pm_processed p \<noteq> None \<or> \<not> has_active_job m p
       else pm_whitelisted p \<and> pm_processed p \<noteq> None) (posts_of_feed fid m))"

definition aggregate_feed_ids :: "bool \<Rightarrow> int \<Rightarrow> feed_db \<Rightarrow> int list" where
  "aggregate_feed_ids require_auth uid db =
     (if \<not> require_auth \<or> uid = 0 then map fd_id (fs_feeds db) else map mb_feed (filter (\<lambda>m. mb_user m = uid) (fs_members db)))"

definition latest_processed :: "nat \<Rightarrow> media_db \<Rightarrow> int \<Rightarrow> post_media list" where
  "latest_processed limit_per_feed m fid =
     take limit_per_feed (newest_first (filter (\<lambda>p. pm_whitelisted p \<and> pm_processed p \<noteq> None) (posts_of_feed fid m)))"

text \<open>\<open>datetime.min\<close> stands for a missing date, so the undated come last.\<close>

definition get_user_aggregate_posts :: "bool \<Rightarrow> nat \<Rightarrow> int \<Rightarrow> feed_db \<Rightarrow> post_media list" where
  "get_user_aggregate_posts require_auth limit_per_feed uid db =
     sort_key recency (concat (map (latest_processed limit_per_feed (fs_media db)) (aggregate_feed_ids require_auth uid db)))"

section \<open>Chapters of an item\<close>

definition feed_chapter :: "(json \<Rightarrow> string) \<Rightarrow> json \<Rightarrow> (real \<times> string) option" where
  "feed_chapter str_of c =
     (case c of
        JObj kvs \<Rightarrow>
          (let v = obj_get kvs ''title''; title = py_strip (if truthy v then as_text str_of v else []) in
           if title = [] then None
           else (case (if obj_has kvs ''start_time'' then py_float (obj_get kvs ''start_time'') else Some 0) of
               None \<Rightarrow> None | Some t \<Rightarrow> Some (max 0 t, title)))
      | _ \<Rightarrow> None)"

definition feed_chapters :: "(json \<Rightarrow> string) \<Rightarrow> (string \<Rightarrow> json option) \<Rightarrow> post_media \<Rightarrow> (real \<times> string) list" where
  "feed_chapters str_of loads p =
     (case pm_chapters p of
        None \<Rightarrow> []
      | Some raw \<Rightarrow>
          if raw = [] then []
          else (case loads raw of
              Some (JObj kvs) \<Rightarrow>
                (let output = obj_get kvs ''chapters_for_output'' in
                 case (if truthy output then output else obj_get kvs ''chapters_kept'') of
                   JList cs \<Rightarrow> sort_key fst (List.map_filter (feed_chapter str_of) cs)
                 | _ \<Rightarrow> [])
            | _ \<Rightarrow> []))"

fun html_escape :: "string \<Rightarrow> string" where
  "html_escape [] = []"
| "html_escape (c # s) =
     (if c = CHR ''&'' then ''&amp;'' else if c = CHR ''<'' then ''&lt;'' else if c = CHR ''>'' then ''&gt;''
      else if c = CHR 0x22 then ''&quot;'' else if c = CHR 0x27 then ''&#x27;'' else [c]) @ html_escape s"

definition format_chapter_timestamp :: "real \<Rightarrow> string" where
  "format_chapter_timestamp seconds = format_itunes_duration (py_int seconds)"

definition render_podly_chapters_html :: "(json \<Rightarrow> string) \<Rightarrow> (string \<Rightarrow> json option) \<Rightarrow> post_media \<Rightarrow> string" where
  "render_podly_chapters_html str_of loads p =
     (let cs = feed_chapters str_of loads p in
      if cs = [] then []
      else ''<p><strong>Podly Chapters</strong></p><ul>'' @
        concat (map (\<lambda>(t, title). ''<li>'' @ format_chapter_timestamp t @ '' '' @ html_escape title @ ''</li>'') cs) @ ''</ul>'')"

text \<open>The normalisation of the text replaces characters outside ASCII only.\<close>

definition build_post_feed_description_html :: "(json \<Rightarrow> string) \<Rightarrow> (string \<Rightarrow> json option) \<Rightarrow> post_media \<Rightarrow> string" where
  "build_post_feed_description_html str_of loads p =
     join_with [CHR 0x0A] (nonempty_of (pm_description p) @
       (let chapters = render_podly_chapters_html str_of loads p in if chapters = [] then [] else [chapters]))"

section \<open>CDATA\<close>

abbreviation cdata_close :: string where
  "cdata_close \<equiv> '']]>''"

abbreviation cdata_open :: string where
  "cdata_open \<equiv> ''<![CDATA[''"

lemma starts_with_drop: "starts_with p s \<Longrightarrow> p \<noteq> [] \<Longrightarrow> length (drop (length p) s) < length s"
  by (auto simp: starts_with_iff)

function escape_cdata :: "string \<Rightarrow> string" where
  "escape_cdata s =
     (if starts_with cdata_close s then '']]'' @ cdata_close @ cdata_open @ ''>'' @ escape_cdata (drop (length cdata_close) s)
      else case s of [] \<Rightarrow> [] | c # r \<Rightarrow> c # escape_cdata r)"
  by auto
termination by (relation "measure length") (auto dest: starts_with_drop)

definition write_cdata :: "string \<Rightarrow> string" where
  "write_cdata v = (if v = [] then [] else cdata_open @ escape_cdata v @ cdata_close)"

declare escape_cdata.simps [simp del]

section \<open>The escaped text\<close>

lemma escape_Nil: "escape_cdata [] = []"
  using escape_cdata.simps [of "[]"] by (simp add: starts_with_def)

lemma escape_close:
  "starts_with cdata_close (c # r) \<Longrightarrow> escape_cdata (c # r) = '']]'' @ cdata_close @ cdata_open @ ''>'' @ escape_cdata (drop 2 r)"
  using escape_cdata.simps [of "c # r"] by (simp add: numeral_2_eq_2)

lemma escape_other: "\<not> starts_with cdata_close (c # r) \<Longrightarrow> escape_cdata (c # r) = c # escape_cdata r"
  using escape_cdata.simps [of "c # r"] by simp

lemmas escape_cdata_simps = escape_Nil escape_close escape_other

lemma starts_with_Cons: "starts_with (p # ps) (c # s) \<longleftrightarrow> p = c \<and> starts_with ps s" "\<not> starts_with (p # ps) []" "starts_with [] s"
  by (auto simp: starts_with_def)

text \<open>Escaping makes no end of a section.\<close>

lemma escaped_close:
  assumes "starts_with cdata_close (c # escape_cdata r @ cdata_close)"
  shows "starts_with cdata_close (c # r)"
proof (cases r)
  case Nil
  with assms show ?thesis by (simp add: escape_cdata_simps starts_with_Cons)
next
  case r: (Cons d r')
  show ?thesis
  proof (cases "starts_with cdata_close r")
    case True
    then have "escape_cdata r = '']]'' @ cdata_close @ cdata_open @ ''>'' @ escape_cdata (drop 2 r')" unfolding r by (rule escape_close)
    with assms show ?thesis by (simp add: starts_with_Cons)
  next
    case False
    then have e: "escape_cdata r = d # escape_cdata r'" using r by (simp add: escape_cdata_simps)
    show ?thesis
    proof (cases r')
      case Nil
      with assms e show ?thesis by (simp add: escape_cdata_simps starts_with_Cons)
    next
      case r': (Cons x r2)
      show ?thesis
      proof (cases "starts_with cdata_close r'")
        case True
        then have "escape_cdata r' = '']]'' @ cdata_close @ cdata_open @ ''>'' @ escape_cdata (drop 2 r2)" unfolding r' by (rule escape_close)
        with assms e show ?thesis by (simp add: starts_with_Cons)
      next
        case False
        then have "escape_cdata r' = x # escape_cdata r2" unfolding r' by (rule escape_other)
        with assms e r r' show ?thesis by (auto simp: starts_with_Cons)
      qed
    qed
  qed
qed

section \<open>Durations are read back\<close>

definition digits :: "string \<Rightarrow> bool" where
  "digits s \<longleftrightarrow> s \<noteq> [] \<and> list_all digit_char s"

lemma digits_nat_str: "digits (nat_str n)"
  using nat_str_digits by (force simp: digits_def list_all_iff digit_char_def digit_of_def)

lemma digits_char_facts:
  assumes "digit_char c"
  shows "\<not> py_space c" "c \<noteq> CHR ''-''" "c \<noteq> CHR ''+''" "c \<noteq> CHR '':''" "c \<noteq> CHR ''.''" "c \<noteq> CHR ''e''" "lower_char c = c"
  using assms by (auto simp: digit_char_def py_space_def lower_char_def Let_def)

lemma no_digits: "\<not> digit_char CHR '':''" "\<not> digit_char CHR ''.''" "\<not> digit_char CHR ''e''"
  by (simp_all add: digit_char_def)

lemma strip_solid: "s \<noteq> [] \<Longrightarrow> \<not> py_space (hd s) \<Longrightarrow> \<not> py_space (last s) \<Longrightarrow> py_strip s = s"
proof -
  assume a: "s \<noteq> []" "\<not> py_space (hd s)" "\<not> py_space (last s)"
  then have "dropWhile py_space s = s" "dropWhile py_space (rev s) = rev s" by (simp_all add: dropWhile_eq_self_iff hd_rev)
  then show ?thesis by (simp add: py_strip_def py_lstrip_def py_rstrip_def)
qed

lemma digits_ends: "digits s \<Longrightarrow> digit_char (hd s) \<and> digit_char (last s)"
  by (auto simp: digits_def list_all_iff)

lemma split_on_absent: "c \<notin> set s \<Longrightarrow> split_on c s = [s]"
  by (induction s) auto

lemma split_on_piece: "c \<notin> set a \<Longrightarrow> split_on c (a @ c # b) = a # split_on c b"
  by (induction a) auto

lemma digits_absent: "digits s \<Longrightarrow> \<not> digit_char c \<Longrightarrow> c \<notin> set s"
  by (auto simp: digits_def list_all_iff)

lemma digits_sign: "digit_char c \<Longrightarrow> split_sign (c # s) = (1, c # s)"
  using digits_char_facts by (simp add: split_sign_def)

lemma parse_digits_digits: "digits s \<Longrightarrow> parse_digits s = Some (digits_value s)"
  by (simp add: parse_digits_def digits_def digits_value_def)

lemma py_int_digits: "digits s \<Longrightarrow> py_int_str s = Some (int (digits_value s))"
  using digits_ends [of s] digits_char_facts(1) digits_sign [of "hd s" "tl s"] strip_solid [of s]
  by (cases s) (auto simp: py_int_str_def digits_def parse_digits_digits)

lemma lower_digits: "digits s \<Longrightarrow> py_lower s = s"
  unfolding digits_def py_lower_def list_all_iff using digits_char_facts(7) by (intro map_idI) auto

lemma py_float_digits: "digits s \<Longrightarrow> py_float_str s = Some (real (digits_value s))"
proof -
  assume d: "digits s"
  then have "py_strip s = s" using digits_ends digits_char_facts(1) strip_solid by (auto simp: digits_def)
  moreover have "split_sign s = (1, s)" using d digits_ends digits_sign [of "hd s" "tl s"] by (cases s) (auto simp: digits_def)
  moreover have "CHR ''e'' \<notin> set s" "CHR ''.'' \<notin> set s" using d digits_absent no_digits by blast+
  ultimately show ?thesis
    using d by (simp add: py_float_str_def lower_digits split_on_absent parse_mantissa_def parse_digits_digits)
qed

lemma two_digits_digits:
  assumes "0 \<le> n"
  shows "digits (two_digits n)" and "digits_value (two_digits n) = nat n"
proof -
  show "digits (two_digits n)" using assms digits_nat_str by (auto simp: two_digits_def int_str_def digits_def digit_char_def)
  show "digits_value (two_digits n) = nat n"
  proof (cases "n < 10")
    case True
    have "digits_value (CHR ''0'' # s) = digits_value s" for s by (simp add: digits_value_def)
    then show ?thesis using True assms by (simp add: two_digits_def int_str_def)
  qed (use assms in \<open>simp add: two_digits_def int_str_def\<close>)
qed

lemma no_clock_is_an_int: "CHR '':'' \<in> set s \<Longrightarrow> py_strip s = s \<Longrightarrow> digit_char (hd s) \<Longrightarrow> py_int_str s = None"
  using digits_sign [of "hd s" "tl s"] no_digits(1)
  by (cases s) (auto simp: py_int_str_def parse_digits_def list_all_iff)

lemma clock_parts:
  assumes "\<forall>w\<in>set ws. digits w" and "2 \<le> length ws"
  defines "s \<equiv> join_with '':'' ws"
  shows "py_strip s = s" and "py_int_str s = None" and "map py_strip (split_on CHR '':'' s) = ws" and "s \<noteq> []"
proof -
  have ends: "ws' \<noteq> [] \<Longrightarrow> \<forall>w\<in>set ws'. digits w \<Longrightarrow> join_with '':'' ws' \<noteq> [] \<and> digit_char (hd (join_with '':'' ws')) \<and>
      digit_char (last (join_with '':'' ws')) \<and> split_on CHR '':'' (join_with '':'' ws') = ws'" for ws'
  proof (induction ws' rule: induct_list012)
    case (2 w)
    then show ?case using digits_ends [of w] digits_absent [of w] no_digits(1) by (auto simp: digits_def split_on_absent)
  next
    case (3 w v ws')
    have "CHR '':'' \<notin> set w" using 3 digits_absent [of w] no_digits(1) by auto
    then have "split_on CHR '':'' (w @ CHR '':'' # t) = w # split_on CHR '':'' t" for t by (rule split_on_piece)
    with 3 digits_ends [of w] show ?case by (auto simp: digits_def)
  qed simp
  have ws: "ws \<noteq> []" using assms(2) by auto
  note e = ends [OF ws assms(1), folded s_def]
  show "s \<noteq> []" using e by simp
  show st: "py_strip s = s" using e digits_char_facts(1) by (intro strip_solid) auto
  have "CHR '':'' \<in> set s" using assms(2) by (cases ws; cases "tl ws") (auto simp: s_def)
  then show "py_int_str s = None" using no_clock_is_an_int st e by blast
  have "py_strip w = w" if "w \<in> set ws" for w
    using that assms(1) digits_ends digits_char_facts(1) by (intro strip_solid) (auto simp: digits_def)
  then show "map py_strip (split_on CHR '':'' s) = ws" using e by (simp add: map_idI)
qed

text \<open>The duration a feed shows is read back as the number of seconds it was made from.\<close>

theorem durations_are_read_back:
  assumes "0 \<le> n"
  shows "parse_duration_seconds str_of (JStr (format_itunes_duration n)) = Some n"
proof -
  define h m sec where "h = n div 3600" and "m = n mod 3600 div 60" and "sec = n mod 3600 mod 60"
  have pos: "0 \<le> h" "0 \<le> m" "0 \<le> sec" and n: "h * 3600 + m * 60 + sec = n"
    using assms by (simp_all add: h_def m_def sec_def)
  define ws where "ws = (if h \<noteq> 0 then [int_str h] else []) @ [two_digits m, two_digits sec]"
  have fmt: "format_itunes_duration n = join_with '':'' ws"
    using assms by (simp add: format_itunes_duration_def Let_def ws_def h_def m_def sec_def)
  have dh: "digits (int_str h)" "digits_value (int_str h) = nat h" using pos digits_nat_str by (auto simp: int_str_def)
  have dig: "\<forall>w\<in>set ws. digits w" using two_digits_digits pos dh by (auto simp: ws_def)
  have len: "length ws \<in> {2, 3}" by (simp add: ws_def)
  have "[] \<notin> set ws" using dig by (auto simp: digits_def)
  moreover have "py_float_str (last ws) = Some (of_int sec)" using py_float_digits two_digits_digits pos by (simp add: ws_def)
  moreover have "py_int_str (ws ! (length ws - 2)) = Some m" using py_int_digits two_digits_digits pos by (simp add: ws_def)
  moreover have "(if length ws = 3 then py_int_str (hd ws) else Some 0) = Some h" using py_int_digits dh pos by (simp add: ws_def)
  moreover have "real_of_int h * 3600 + real_of_int m * 60 + real_of_int sec = real_of_int n" unfolding n [symmetric] by simp
  ultimately have "parse_clock ws = Some n" using len pos by (simp add: parse_clock_def)
  then show ?thesis using clock_parts [OF dig] len by (auto simp: parse_duration_seconds_def as_text_def fmt Let_def)
qed

section \<open>The aggregate feed\<close>

lemma newest_first_props: "set (newest_first ps) = set ps" "sorted (map recency (newest_first ps))"
  by (simp_all add: newest_first_def)

lemma take_sorted_keeps_better:
  assumes "sorted (map f xs)" and "p \<in> set (take k xs)" and "q \<in> set xs" and "f q < f p"
  shows "q \<in> set (take k xs)"
proof (rule ccontr)
  assume "q \<notin> set (take k xs)"
  then have "q \<in> set (drop k xs)" using assms(3) by (metis Un_iff append_take_drop_id set_append)
  moreover have "sorted (map f (take k xs) @ map f (drop k xs))" using assms(1) by (simp flip: map_append)
  ultimately have "f p \<le> f q" using assms(2) by (auto simp: sorted_append)
  with assms(4) show False by simp
qed

lemma latest_processed_props:
  "set (latest_processed k m fid) \<subseteq> {p \<in> set (m_posts m). pm_whitelisted p \<and> pm_processed p \<noteq> None \<and> pm_feed p = fid}"
  "length (latest_processed k m fid) \<le> k"
  by (auto simp: latest_processed_def newest_first_props posts_of_feed_def dest!: in_set_takeD)

abbreviation listable :: "int \<Rightarrow> post_media \<Rightarrow> bool" where
  "listable x p \<equiv> pm_whitelisted p \<and> pm_processed p \<noteq> None \<and> pm_feed p = x"

lemma latest_processed_length:
  "length (latest_processed k m x) = min k (length (filter (listable x) (m_posts m)))"
  by (simp add: latest_processed_def newest_first_def posts_of_feed_def conj_ac)

lemma mset_take_subset: "mset (take k xs) \<subseteq># mset xs"
proof -
  have "mset xs = mset (take k xs) + mset (drop k xs)" by (simp flip: mset_append)
  then show ?thesis by (metis mset_subset_eq_add_left)
qed

lemma latest_processed_mset: "mset (latest_processed k m x) \<subseteq># mset (m_posts m)"
proof -
  let ?ps = "filter (\<lambda>p. pm_whitelisted p \<and> pm_processed p \<noteq> None) (posts_of_feed x m)"
  have "mset (newest_first ?ps) = mset ?ps" by (simp only: newest_first_def mset_sort mset_rev)
  moreover have "?ps = filter (\<lambda>p. pm_feed p = x \<and> pm_whitelisted p \<and> pm_processed p \<noteq> None) (m_posts m)"
    by (simp add: posts_of_feed_def)
  ultimately have "mset (newest_first ?ps) \<subseteq># mset (m_posts m)" by (simp only: mset_filter multiset_filter_subset)
  with mset_take_subset show ?thesis unfolding latest_processed_def by (rule subset_mset.order_trans)
qed

lemma filter_feed_latest: "filter (\<lambda>p. pm_feed p = x) (latest_processed k m f) = (if f = x then latest_processed k m x else [])"
  using latest_processed_props(1) by (fastforce simp: filter_empty_conv filter_id_conv)

lemma filter_feed_concat:
  "distinct fids \<Longrightarrow> filter (\<lambda>p. pm_feed p = x) (concat (map (latest_processed k m) fids)) =
    (if x \<in> set fids then latest_processed k m x else [])"
proof (induction fids)
  case (Cons f fids)
  then show ?case using filter_feed_latest [of x k m f] by (cases "f = x") auto
qed simp

text \<open>C35.  The aggregate feed of a user lists, newest first, exactly the newest white-listed, processed episodes of
  each of the user's feeds: as many as the feed has, up to the given number, each row once, and never an
  episode while a newer one of the same feed is left out.  Nothing else is listed.\<close>

theorem aggregate_feed_lists_the_newest_episodes:
  fixes k :: nat
  assumes "distinct (aggregate_feed_ids require_auth uid db)"
  defines "listed \<equiv> get_user_aggregate_posts require_auth k uid db"
  shows "sorted (map recency listed) \<and>
    (\<forall>p\<in>set listed. pm_whitelisted p \<and> pm_processed p \<noteq> None \<and> pm_feed p \<in> set (aggregate_feed_ids require_auth uid db)) \<and>
    (\<forall>x\<in>set (aggregate_feed_ids require_auth uid db).
       mset (filter (\<lambda>p. pm_feed p = x) listed) \<subseteq># mset (m_posts (fs_media db)) \<and>
       length (filter (\<lambda>p. pm_feed p = x) listed) =
         min k (length (filter (\<lambda>p. pm_whitelisted p \<and> pm_processed p \<noteq> None \<and> pm_feed p = x) (m_posts (fs_media db))))) \<and>
    (\<forall>p\<in>set listed. \<forall>q\<in>set (m_posts (fs_media db)). pm_whitelisted q \<and> pm_processed q \<noteq> None \<and> pm_feed q = pm_feed p \<and> recency q < recency p
      \<longrightarrow> q \<in> set listed)"
proof (intro conjI ballI impI)
  let ?m = "fs_media db" and ?ids = "aggregate_feed_ids require_auth uid db"
  have set: "set listed = (\<Union>x\<in>set ?ids. set (latest_processed k ?m x))" by (auto simp: listed_def get_user_aggregate_posts_def)
  show "sorted (map recency listed)" by (simp add: listed_def get_user_aggregate_posts_def)
  have feed: "mset (filter (\<lambda>p. pm_feed p = x) listed) = mset (latest_processed k ?m x)" if "x \<in> set ?ids" for x
  proof -
    have "mset (filter (\<lambda>p. pm_feed p = x) listed) = mset (filter (\<lambda>p. pm_feed p = x) (concat (map (latest_processed k ?m) ?ids)))"
      by (simp add: listed_def get_user_aggregate_posts_def)
    then show ?thesis using filter_feed_concat [OF assms(1), of x k ?m] that by simp
  qed
  show "length (filter (\<lambda>p. pm_feed p = x) listed) = min k (length (filter (listable x) (m_posts ?m)))" if "x \<in> set ?ids" for x
    using mset_eq_length [OF feed [OF that]] latest_processed_length by simp
  show "mset (filter (\<lambda>p. pm_feed p = x) listed) \<subseteq># mset (m_posts ?m)" if "x \<in> set ?ids" for x
    unfolding feed [OF that] by (rule latest_processed_mset)
  fix p
  assume "p \<in> set listed"
  then obtain x where x: "x \<in> set ?ids" "p \<in> set (latest_processed k ?m x)" unfolding set by blast
  note p = subsetD [OF latest_processed_props(1) x(2)]
  show "pm_whitelisted p" "pm_processed p \<noteq> None" "pm_feed p \<in> set ?ids" using p x(1) by auto
  fix q
  assume q: "q \<in> set (m_posts ?m)" "pm_whitelisted q \<and> pm_processed q \<noteq> None \<and> pm_feed q = pm_feed p \<and> recency q < recency p"
  have "q \<in> set (latest_processed k ?m x)" unfolding latest_processed_def
    by (rule take_sorted_keeps_better [OF newest_first_props(2) x(2) [unfolded latest_processed_def]])
      (use p q in \<open>auto simp: newest_first_props posts_of_feed_def\<close>)
  then show "q \<in> set listed" using x(1) unfolding set by blast
qed

section \<open>Examples\<close>

definition sample_published :: "int \<Rightarrow> int \<Rightarrow> post_media" where
  "sample_published i t = (sample_stored (int_str i) ''Title'' (int_str i))\<lparr>pm_id := i, pm_processed := Some ''f'', pm_release := Some t\<rparr>"

theorem durations_are_read_back_witness: "parse_duration_seconds (\<lambda>_. []) (JStr (format_itunes_duration 3725)) = Some 3725"
  by (rule durations_are_read_back) simp

text \<open>Five processed episodes, a limit of three: the three with the latest dates are listed.\<close>

theorem aggregate_feed_lists_the_newest_episodes_witness:
  "length (get_user_aggregate_posts False 3 0 (sample_feeds (map (\<lambda>i. sample_published i (100 * i)) [1, 2, 3, 4, 5]))) = 3 \<and>
   map pm_id (get_user_aggregate_posts False 3 0 (sample_feeds (map (\<lambda>i. sample_published i (100 * i)) [1, 2, 3, 4, 5]))) = [5, 4, 3]"
proof -
  let ?db = "sample_feeds (map (\<lambda>i. sample_published i (100 * i)) [1, 2, 3, 4, 5])"
  have d: "distinct (aggregate_feed_ids False 0 ?db)" by (simp add: aggregate_feed_ids_def sample_feeds_def)
  have one: "1 \<in> set (aggregate_feed_ids False 0 ?db)" by code_simp
  have all: "filter (\<lambda>p. pm_feed p = 1) (get_user_aggregate_posts False 3 0 ?db) = get_user_aggregate_posts False 3 0 ?db" by code_simp
  have "length (filter (\<lambda>p. pm_feed p = 1) (get_user_aggregate_posts False 3 0 ?db)) =
      min 3 (length (filter (\<lambda>p. pm_whitelisted p \<and> pm_processed p \<noteq> None \<and> pm_feed p = 1) (m_posts (fs_media ?db))))"
    using aggregate_feed_lists_the_newest_episodes [OF d, of 3] one by blast
  also have "\<dots> = 3" by code_simp
  finally show ?thesis unfolding all by (intro conjI) (assumption, code_simp)
qed

end
