(* ===== verification/JobsManager.thy ===== *)
theory JobsManager
  imports JobsSystem Processor Feeds
begin

text \<open>
  The public side of \<open>src/app/jobs_manager.py\<close>: what it reports of the jobs and of the service tier of
  their model calls, the requests that put episodes into the queue, the scheduled refresh, and the wait
  for the child process.  Its requests that cancel and its worker thread are in \<open>JobsSystem\<close>.

  The tables are those of \<open>Feeds\<close>; a request sees the jobs through \<open>jobs_view\<close>.  The download and the
  parsing of a feed, the search for files, the identifiers drawn for new jobs and whether the writer
  answered are arguments.  A result of the writer that the code does not look at is not modelled.
\<close>

section \<open>The service tiers of a post\<close>

record tier_row = call_row +
  tr_tier :: "string option"
  tr_next_retry :: "instant option"

record tier_bucket =
  tb_latest :: string
  tb_status :: string
  tb_attempt :: int
  tb_next_retry :: "instant option"
  tb_call_label :: "string option"
  tb_tiers :: "string list"

record in_flight_call =
  if_status :: string
  if_attempt :: int
  if_max :: "int option"
  if_backoff :: "instant option"
  if_label :: "string option"

record tier_summary =
  ts_label :: string
  ts_latest :: string
  ts_mixed :: bool
  ts_in_flight :: "in_flight_call option"

definition in_flight_call_label :: "int \<Rightarrow> int \<Rightarrow> string option" where
  "in_flight_call_label first_seq last_seq =
     (if (first_seq, last_seq) = (- 100, - 100) then Some ''chapter titles''
      else if (first_seq, last_seq) = (- 200, - 200) then Some ''chapter topic plan''
      else if (first_seq, last_seq) = (- 201, - 201) then Some ''chapter topic plan''
      else None)"

text \<open>The query: \<open>LIKE\<close> of SQLite ignores the case of letters.\<close>

definition not_llm_call :: "tier_row \<Rightarrow> bool" where
  "not_llm_call c \<longleftrightarrow> str_in ''whisper'' (py_lower (mc_model c)) \<or> mc_prompt c = ''Whisper transcription job'' \<or>
     starts_with ''local_'' (py_lower (mc_model c)) \<or> starts_with ''ina:'' (py_lower (mc_model c))"

definition ran_at_flex :: "tier_row list \<Rightarrow> tier_row \<Rightarrow> bool" where
  "ran_at_flex calls c \<longleftrightarrow> list_ex (\<lambda>d. mc_post d = mc_post c \<and> mc_model d = mc_model c \<and> tr_tier d = Some ''flex'') calls"

definition posts_with_finished_default_tier_calls :: "int list \<Rightarrow> tier_row list \<Rightarrow> int list" where
  "posts_with_finished_default_tier_calls pids calls =
     remdups (map mc_post (filter (\<lambda>c. mc_post c \<in> set pids \<and> tr_tier c = None \<and>
       starts_with ''success'' (py_lower (call_row.mc_status c)) \<and> \<not> not_llm_call c \<and> ran_at_flex calls c) calls))"

definition new_bucket :: "tier_row \<Rightarrow> tier_bucket" where
  "new_bucket c = \<lparr>tb_latest = the (tr_tier c), tb_status = call_row.mc_status c, tb_attempt = mc_retries c,
     tb_next_retry = tr_next_retry c, tb_call_label = in_flight_call_label (mc_first c) (mc_last c), tb_tiers = []\<rparr>"

definition add_tier :: "string \<Rightarrow> tier_bucket \<Rightarrow> tier_bucket" where
  "add_tier t b = b\<lparr>tb_tiers := List.insert t (tb_tiers b)\<rparr>"

text \<open>\<open>per_post.setdefault(...)\<close> and \<open>bucket["tiers"].add(tier)\<close>, on a dictionary in insertion order.\<close>

definition bucket_row :: "tier_row \<Rightarrow> (int \<times> tier_bucket) list \<Rightarrow> (int \<times> tier_bucket) list" where
  "bucket_row c per_post =
     (let b = (case map_of per_post (mc_post c) of None \<Rightarrow> new_bucket c | Some b \<Rightarrow> b) in
      AList.update (mc_post c) (add_tier (the (tr_tier c)) b) per_post)"

definition tiered_rows :: "int list \<Rightarrow> tier_row list \<Rightarrow> tier_row list" where
  "tiered_rows pids calls = sort_key (\<lambda>c. - mc_time c) (filter (\<lambda>c. mc_post c \<in> set pids \<and> tr_tier c \<noteq> None) calls)"

definition build_tier_summary :: "int option \<Rightarrow> tier_bucket \<Rightarrow> tier_summary" where
  "build_tier_summary max_retries b =
     \<lparr>ts_label = tb_latest b, ts_latest = tb_latest b, ts_mixed = (1 < length (tb_tiers b)),
      ts_in_flight = (if tb_status b \<in> {''pending'', ''retrying''}
        then Some \<lparr>if_status = tb_status b, if_attempt = max 1 (tb_attempt b), if_max = max_retries,
          if_backoff = (if tb_status b = ''retrying'' then tb_next_retry b else None), if_label = tb_call_label b\<rparr>
        else None)\<rparr>"

definition summarize_service_tiers_for_posts ::
  "int option \<Rightarrow> int list \<Rightarrow> tier_row list \<Rightarrow> (int \<times> tier_summary) list" where
  "summarize_service_tiers_for_posts max_retries pids calls =
     (if pids = [] then []
      else (let per_post = fold bucket_row (tiered_rows pids calls) [];
                fallen_back = posts_with_finished_default_tier_calls (map fst per_post) calls in
        map (\<lambda>(pid, b). (pid, build_tier_summary max_retries
          (if pid \<in> set fallen_back then add_tier ''default'' b else b))) per_post))"

definition summarize_service_tier_for_post :: "int option \<Rightarrow> int \<Rightarrow> tier_row list \<Rightarrow> tier_summary option" where
  "summarize_service_tier_for_post max_retries pid calls = map_of (summarize_service_tiers_for_posts max_retries [pid] calls) pid"

section \<open>Reports\<close>

record manager_env =
  me_resolve :: "string \<Rightarrow> string"
  me_srv :: string
  me_job_ids :: "int \<Rightarrow> string"
  me_saves :: "int \<Rightarrow> bool"
  me_max_retries :: "int option"

definition existing_audio :: "manager_env \<Rightarrow> feed_db \<Rightarrow> post_media \<Rightarrow> string option" where
  "existing_audio env db p =
     find_existing_processed_audio_path (me_resolve env) (me_srv env) (m_files (fs_media db)) (pm_processed p) (pm_unprocessed p)
       (map_option fd_title (find_feed (pm_feed p) db)) (Some (pm_title p))"

record status_view =
  sv_status :: string
  sv_step :: "int option"
  sv_step_name :: string
  sv_total :: "int option"
  sv_progress :: "real option"
  sv_message :: string
  sv_stages :: "stage list"
  sv_completed :: "instant option"
  sv_tier :: "tier_summary option"
  sv_started :: "instant option"
  sv_download :: "string option"
  sv_error :: "string option"

datatype post_status = PostNotFound | AlreadyProcessed string | NotStarted | JobStatus status_view

definition py_or :: "string option \<Rightarrow> string \<Rightarrow> string" where
  "py_or v d = (case v of None \<Rightarrow> d | Some s \<Rightarrow> if s = [] then d else s)"

definition int_text :: "int option \<Rightarrow> string" where
  "int_text n = (case n of None \<Rightarrow> ''None'' | Some i \<Rightarrow> int_str i)"

definition download_address :: "string \<Rightarrow> string" where
  "download_address g = ''/api/posts/'' @ g @ ''/download''"

definition get_post_status :: "manager_env \<Rightarrow> tier_row list \<Rightarrow> string \<Rightarrow> feed_db \<Rightarrow> post_status" where
  "get_post_status env calls g db =
     (case find (\<lambda>p. pm_guid p = g) (m_posts (fs_media db)) of
        None \<Rightarrow> PostNotFound
      | Some p \<Rightarrow>
          (case latest_job g (jobs_view (fs_media db)) of
             None \<Rightarrow> if existing_audio env db p \<noteq> None then AlreadyProcessed (download_address g) else NotStarted
           | Some j \<Rightarrow>
               (let cancelled_reason = (if status j = ''cancelled'' \<and> given (error_message j) then error_message j else None) in
                JobStatus \<lparr>sv_status = status j, sv_step = current_step j,
                  sv_step_name = (case cancelled_reason of Some r \<Rightarrow> r | None \<Rightarrow> py_or (step_name j) ''Unknown''),
                  sv_total = total_steps j, sv_progress = JobStore.progress j,
                  sv_message = (case cancelled_reason of Some r \<Rightarrow> r | None \<Rightarrow>
                    py_or (step_name j) (''Step '' @ int_text (current_step j) @ '' of '' @ int_text (total_steps j))),
                  sv_stages = stage_history j, sv_completed = completed_at j,
                  sv_tier = summarize_service_tier_for_post (me_max_retries env) (pm_id p) calls,
                  sv_started = started_at j,
                  sv_download = (if status j \<in> {''completed'', ''skipped''} \<and> existing_audio env db p \<noteq> None
                    then Some (download_address g) else None),
                  sv_error = (if status j = ''failed'' \<and> given (error_message j) then error_message j else None)\<rparr>)))"

record job_view =
  jv_id :: string
  jv_guid :: string
  jv_status :: string
  jv_step :: "int option"
  jv_step_name :: "string option"
  jv_total :: "int option"
  jv_progress :: "real option"
  jv_started :: "instant option"
  jv_completed :: "instant option"
  jv_error :: "string option"

definition view_of_job :: "job \<Rightarrow> job_view" where
  "view_of_job j = \<lparr>jv_id = job_id j, jv_guid = post_guid j, jv_status = status j, jv_step = current_step j, jv_step_name = step_name j,
     jv_total = total_steps j, jv_progress = JobStore.progress j, jv_started = started_at j, jv_completed = completed_at j,
     jv_error = error_message j\<rparr>"

definition get_job_status :: "string \<Rightarrow> feed_db \<Rightarrow> job_view option" where
  "get_job_status jid db = map_option view_of_job (find_job (jobs_view (fs_media db)) jid)"

record job_entry = job_view +
  je_post_title :: "string option"
  je_feed_title :: "string option"
  je_priority :: int
  je_created :: instant
  je_stages :: "stage list"
  je_windows :: "int option"
  je_parse_error :: bool
  je_retried :: bool
  je_tier :: "tier_summary option"

definition priority_of :: "job \<Rightarrow> int" where
  "priority_of j = (if status j = ''running'' then 2 else if status j = ''pending'' then 1 else 0)"

text \<open>The outer join with the posts on the guid, which two feeds may share.\<close>

definition with_posts :: "post_media list \<Rightarrow> job \<Rightarrow> (job \<times> post_media option) list" where
  "with_posts ps j =
     (case filter (\<lambda>p. pm_guid p = post_guid j) ps of [] \<Rightarrow> [(j, None)] | qs \<Rightarrow> map (\<lambda>p. (j, Some p)) qs)"

definition listed_rows :: "(job \<Rightarrow> bool) \<Rightarrow> nat \<Rightarrow> feed_db \<Rightarrow> (job \<times> post_media option) list" where
  "listed_rows P limit db =
     take limit (sort_key (\<lambda>r. (- priority_of (fst r), - created_at (fst r)))
       (concat (map (with_posts (m_posts (fs_media db))) (filter P (m_jobs (fs_media db))))))"

definition job_entry_of :: "(int \<times> tier_summary) list \<Rightarrow> feed_db \<Rightarrow> job \<times> post_media option \<Rightarrow> job_entry" where
  "job_entry_of tiers db r = (case r of (j, p) \<Rightarrow>
     job_view.extend (view_of_job j)
       (job_entry.fields (map_option pm_title p)
          (case p of None \<Rightarrow> None | Some q \<Rightarrow> map_option fd_title (find_feed (pm_feed q) db)) (priority_of j) (created_at j) (stage_history j)
          (ad_windows_count j) (had_classification_parse_error j) (auto_retry_attempted j)
          (case p of None \<Rightarrow> None | Some q \<Rightarrow> map_of tiers (pm_id q))))"

definition job_entries :: "manager_env \<Rightarrow> tier_row list \<Rightarrow> (job \<times> post_media option) list \<Rightarrow> feed_db \<Rightarrow> job_entry list" where
  "job_entries env calls rows db =
     (let tiers = summarize_service_tiers_for_posts (me_max_retries env) (map pm_id (List.map_filter snd rows)) calls in
      map (job_entry_of tiers db) rows)"

definition list_active_jobs :: "manager_env \<Rightarrow> tier_row list \<Rightarrow> nat \<Rightarrow> feed_db \<Rightarrow> job_entry list" where
  "list_active_jobs env calls limit db = job_entries env calls (listed_rows is_active limit db) db"

definition list_all_jobs_detailed :: "manager_env \<Rightarrow> tier_row list \<Rightarrow> nat \<Rightarrow> feed_db \<Rightarrow> job_entry list" where
  "list_all_jobs_detailed env calls limit db = job_entries env calls (listed_rows (\<lambda>j. True) limit db) db"

section \<open>Requests that enqueue\<close>

text \<open>The manager: the run it remembers and the event the worker thread waits for.\<close>

record manager_state =
  mg_run :: "string option"
  mg_work :: bool

definition put_media :: "media_db \<Rightarrow> feed_db \<Rightarrow> feed_db" where
  "put_media m db = db\<lparr>fs_media := m\<rparr>"

text \<open>\<open>ensure_active_run\<close>, and the run's id if the writer answered.\<close>

definition ensure_active_run ::
  "bool \<Rightarrow> string \<Rightarrow> (string \<times> json) list \<Rightarrow> instant \<Rightarrow> feed_db \<Rightarrow> string option \<times> feed_db" where
  "ensure_active_run answered trigger context now db =
     (if answered then (Some SINGLETON_RUN_ID, put_media (on_jobs (get_or_create_singleton_run trigger context now) (fs_media db)) db)
      else (None, db))"

definition manager_of :: "string \<Rightarrow> string option \<Rightarrow> job_manager" where
  "manager_of g rid = \<lparr>m_post_guid = g, m_run_id = rid, m_requested_by = None, m_billing_user = None, m_job = None\<rparr>"

definition posts_without_jobs :: "media_db \<Rightarrow> post_media list" where
  "posts_without_jobs m = filter (\<lambda>p. pm_whitelisted p \<and> \<not> list_ex (\<lambda>j. post_guid j = pm_guid p) (m_jobs m)) (m_posts m)"

definition recover_path :: "manager_env \<Rightarrow> post_media \<Rightarrow> string \<Rightarrow> feed_db \<Rightarrow> feed_db" where
  "recover_path env p path db =
     (if pm_processed p \<noteq> Some path \<and> me_saves env (pm_id p)
      then put_media (modify_post (pm_id p) (\<lambda>q. q\<lparr>pm_processed := Some path\<rparr>) (fs_media db)) db else db)"

text \<open>The loop over the posts that had no job when it began.\<close>

fun ensure_jobs_loop ::
  "manager_env \<Rightarrow> string option \<Rightarrow> instant \<Rightarrow> post_media list \<Rightarrow> feed_db \<Rightarrow> (manager_error + nat) \<times> feed_db" where
  "ensure_jobs_loop env rid now [] db = (Inr 0, db)"
| "ensure_jobs_loop env rid now (p # ps) db =
     (case existing_audio env db p of
        Some path \<Rightarrow> ensure_jobs_loop env rid now ps (recover_path env p path db)
      | None \<Rightarrow>
          (case ensure_job (manager_of (pm_guid p) rid) (me_job_ids env (pm_id p)) now (jobs_view (fs_media db)) of
             Inl e \<Rightarrow> (Inl e, db)
           | Inr (j, v) \<Rightarrow>
               (case ensure_jobs_loop env rid now ps (put_media (put_jobs v (fs_media db)) db) of
                  (Inl e, db') \<Rightarrow> (Inl e, db') | (Inr n, db') \<Rightarrow> (Inr (Suc n), db'))))"

definition ensure_jobs_for_all_posts ::
  "manager_env \<Rightarrow> string option \<Rightarrow> instant \<Rightarrow> feed_db \<Rightarrow> (manager_error + nat) \<times> feed_db" where
  "ensure_jobs_for_all_posts env rid now db = ensure_jobs_loop env rid now (posts_without_jobs (fs_media db)) db"

definition pending_count :: "feed_db \<Rightarrow> nat" where
  "pending_count db = length (filter (\<lambda>j. status j = ''pending'') (m_jobs (fs_media db)))"

definition cleanup_and_process_new_posts ::
  "manager_env \<Rightarrow> string option \<Rightarrow> instant \<Rightarrow> feed_db \<Rightarrow> (manager_error + nat \<times> nat) \<times> feed_db" where
  "cleanup_and_process_new_posts env rid now db =
     (case ensure_jobs_for_all_posts env rid now db of
        (Inl e, db1) \<Rightarrow> (Inl e, db1)
      | (Inr created, db1) \<Rightarrow>
          (Inr (created, pending_count db1),
           if rid \<noteq> None \<and> pending_count db1 > 0
           then put_media (on_jobs (snd \<circ> reassign_pending_jobs_action rid now) (fs_media db1)) db1 else db1))"

record enqueue_response =
  er_created :: nat
  er_pending :: nat
  er_run :: "string option"

definition enqueue_pending_jobs ::
  "manager_env \<Rightarrow> bool \<Rightarrow> string \<Rightarrow> (string \<times> json) list \<Rightarrow> instant \<Rightarrow> manager_state \<times> feed_db \<Rightarrow>
   (manager_error + enqueue_response) \<times> manager_state \<times> feed_db" where
  "enqueue_pending_jobs env answered trigger context now st =
     (case ensure_active_run answered trigger context now (snd st) of (rid, db1) \<Rightarrow>
       (case cleanup_and_process_new_posts env rid now db1 of
          (Inl e, db2) \<Rightarrow> (Inl e, (fst st)\<lparr>mg_run := rid\<rparr>, db2)
        | (Inr (created, pending), db2) \<Rightarrow>
            (Inr \<lparr>er_created = created, er_pending = pending, er_run = rid\<rparr>,
             (fst st)\<lparr>mg_run := rid, mg_work := mg_work (fst st) \<or> 0 < pending\<rparr>, db2)))"

text \<open>A request of a reader for one episode; the lifecycle of the job is \<open>JobLifecycle.start_processing\<close>,
  which may store the path of a processed file it finds.\<close>

definition queue_view :: "media_db \<Rightarrow> job_db" where
  "queue_view m = (jobs_view m)\<lparr>posts := map (\<lambda>p. \<lparr>post_id = pm_id p, guid = pm_guid p, whitelisted = pm_whitelisted p,
     download_url = Some (pm_url p), processed_path = pm_processed p\<rparr>) (m_posts m)\<rparr>"

definition put_queue :: "job_db \<Rightarrow> media_db \<Rightarrow> media_db" where
  "put_queue v m = (put_jobs v m)\<lparr>m_posts := map2 (\<lambda>p r. p\<lparr>pm_processed := processed_path r\<rparr>) (m_posts m) (posts v)\<rparr>"

definition existing_of_row :: "manager_env \<Rightarrow> feed_db \<Rightarrow> post_row \<Rightarrow> string option" where
  "existing_of_row env db r = (case find_post (fs_media db) (post_id r) of None \<Rightarrow> None | Some p \<Rightarrow> existing_audio env db p)"

definition start_post_processing ::
  "manager_env \<Rightarrow> bool \<Rightarrow> string \<Rightarrow> string \<Rightarrow> int option \<Rightarrow> int option \<Rightarrow> string \<Rightarrow> instant \<Rightarrow> manager_state \<times> feed_db \<Rightarrow>
   (manager_error + start_status \<times> job option) \<times> manager_state \<times> feed_db" where
  "start_post_processing env answered g priority requested billing new_id now st =
     (case ensure_active_run answered ''interactive_start'' [(''post_guid'', JStr g), (''priority'', JStr priority)] now (snd st) of
        (rid, db1) \<Rightarrow>
          (case start_processing (existing_of_row env db1) (\<lambda>_. True)
                 ((manager_of g rid)\<lparr>m_requested_by := requested, m_billing_user := billing\<rparr>) priority new_id now
                 (queue_view (fs_media db1)) of
             Inl e \<Rightarrow> (Inl e, (fst st)\<lparr>mg_run := rid\<rparr>, db1)
           | Inr (s, j, v) \<Rightarrow>
               (Inr (s, j), (fst st)\<lparr>mg_run := rid, mg_work := mg_work (fst st) \<or> s = StartQueued \<or> s = StartRunning\<rparr>,
                put_media (put_queue v (fs_media db1)) db1)))"

section \<open>The scheduled refresh\<close>

text \<open>What the download of a feed gives: the artwork of the channel and the entries, or \<open>None\<close> when
  refreshing the feed raises.\<close>

type_synonym downloads = "int \<Rightarrow> (string option \<times> feed_entry list) option"

record refresh_env =
  re_feed :: feed_env
  re_settings :: "bool \<times> bool"
  re_uuids :: "int \<Rightarrow> string"
  re_downloads :: downloads

fun refresh_feeds :: "refresh_env \<Rightarrow> instant \<Rightarrow> int list \<Rightarrow> feed_db \<Rightarrow> bool \<times> feed_db" where
  "refresh_feeds env now [] db = (True, db)"
| "refresh_feeds env now (fid # fids) db =
     (case find_feed fid db of
        None \<Rightarrow> refresh_feeds env now fids db
      | Some f \<Rightarrow>
          (case re_downloads env fid of
             None \<Rightarrow> (False, db)
           | Some (art, entries) \<Rightarrow>
               refresh_feeds env now fids (refresh_feed (re_feed env) (re_settings env) (re_uuids env) now art entries f db)))"

definition cleanup_inconsistent_posts :: "manager_env \<Rightarrow> instant \<Rightarrow> feed_db \<Rightarrow> feed_db" where
  "cleanup_inconsistent_posts env now db =
     put_media (snd (cleanup_missing_audio_paths_action (existing_audio env db) now (fs_media db))) db"

datatype refresh_error = RefreshRaised | EnqueueRaised manager_error

definition start_refresh_all_feeds ::
  "manager_env \<Rightarrow> refresh_env \<Rightarrow> bool \<Rightarrow> string \<Rightarrow> (string \<times> json) list \<Rightarrow> instant \<Rightarrow> manager_state \<times> feed_db \<Rightarrow>
   (refresh_error + enqueue_response) \<times> manager_state \<times> feed_db" where
  "start_refresh_all_feeds env renv answered trigger context now st =
     (case refresh_feeds renv now (map fd_id (fs_feeds (snd st))) (snd st) of
        (False, db1) \<Rightarrow> (Inl RefreshRaised, fst st, db1)
      | (True, db1) \<Rightarrow>
          (case enqueue_pending_jobs env answered trigger context now (fst st, cleanup_inconsistent_posts env now db1) of
             (Inl e, st') \<Rightarrow> (Inl (EnqueueRaised e), st') | (Inr r, st') \<Rightarrow> (Inr r, st')))"

text \<open>The scheduler's entry point catches and logs what is raised.\<close>

definition scheduled_refresh_all_feeds ::
  "manager_env \<Rightarrow> refresh_env \<Rightarrow> bool \<Rightarrow> instant \<Rightarrow> manager_state \<times> feed_db \<Rightarrow> manager_state \<times> feed_db" where
  "scheduled_refresh_all_feeds env renv answered now st = snd (start_refresh_all_feeds env renv answered ''scheduled'' [] now st)"

section \<open>The child process\<close>

definition env_float :: "string option \<Rightarrow> real \<Rightarrow> real \<Rightarrow> real" where
  "env_float raw fallback minimum =
     (case raw of None \<Rightarrow> fallback | Some s \<Rightarrow> (case py_float_str s of None \<Rightarrow> fallback | Some v \<Rightarrow> max minimum v))"

record wait_settings =
  ws_poll :: real
  ws_grace :: real

definition wait_settings_of :: "(string \<Rightarrow> string option) \<Rightarrow> wait_settings" where
  "wait_settings_of environ = \<lparr>ws_poll = env_float (environ ''PODLY_PROCESS_WORKER_POLL_SEC'') 2 (1 / 10),
     ws_grace = env_float (environ ''PODLY_PROCESS_WORKER_TERMINATE_GRACE_SEC'') 10 0\<rparr>"

text \<open>The child as the supervisor sees it: what the \<open>n\<close>-th poll answers, how long after \<open>terminate\<close> it
  exits and with which code, and the code after \<open>kill\<close>.\<close>

record child =
  ch_poll :: "nat \<Rightarrow> int option"
  ch_exit_after :: real
  ch_exit :: int
  ch_killed :: int

datatype child_end = Exited int | Terminated int | Killed int

definition end_code :: "child_end \<Rightarrow> int" where
  "end_code e = (case e of Exited c \<Rightarrow> c | Terminated c \<Rightarrow> c | Killed c \<Rightarrow> c)"

text \<open>\<open>job_status n\<close> is the status the row has at the \<open>n\<close>-th look; a child that never exits and is never
  cancelled is waited for without end.\<close>

partial_function (option) wait_for_processing_worker ::
  "wait_settings \<Rightarrow> child \<Rightarrow> (nat \<Rightarrow> string option) \<Rightarrow> nat \<Rightarrow> (nat \<times> child_end) option" where
  "wait_for_processing_worker ws c job_status n =
     (case ch_poll c n of
        Some code \<Rightarrow> Some (n, Exited code)
      | None \<Rightarrow>
          if job_status n = Some ''cancelled'' then
            Some (n, if ch_exit_after c \<le> ws_grace ws then Terminated (ch_exit c) else Killed (ch_killed c))
          else wait_for_processing_worker ws c job_status (Suc n))"

definition processing_worker_env :: "string \<Rightarrow> (string \<Rightarrow> string option) \<Rightarrow> string \<Rightarrow> string option" where
  "processing_worker_env src_root environ =
     (case environ ''PYTHONPATH'' of
        None \<Rightarrow> environ(''PYTHONPATH'' \<mapsto> src_root)
      | Some path \<Rightarrow>
          if path = [] then environ(''PYTHONPATH'' \<mapsto> src_root)
          else if src_root \<in> set (split_on CHR '':'' path) then environ
          else environ(''PYTHONPATH'' \<mapsto> src_root @ '':'' @ path))"

section \<open>One post's summary is its entry in the summary of many\<close>

definition bucket_step :: "tier_row \<Rightarrow> tier_bucket option \<Rightarrow> tier_bucket option" where
  "bucket_step c b = Some (add_tier (the (tr_tier c)) (case b of None \<Rightarrow> new_bucket c | Some x \<Rightarrow> x))"

lemma map_of_buckets:
  "map_of (fold bucket_row rows per_post) pid =
    fold bucket_step (filter (\<lambda>c. mc_post c = pid) rows) (map_of per_post pid)"
  by (induction rows arbitrary: per_post) (auto simp: bucket_row_def bucket_step_def Let_def update_conv')

lemma map_of_map_pairs: "map_of (map (\<lambda>(k, v). (k, f k v)) al) k = map_option (f k) (map_of al k)"
  by (induction al) auto

lemma map_of_in_keys: "map_of al k = Some v \<Longrightarrow> k \<in> set (map fst al)"
  by (auto dest: map_of_SomeD intro: rev_image_eqI)

lemma rows_of_one_post:
  "pid \<in> set pids \<Longrightarrow> filter (\<lambda>c. mc_post c = pid) (tiered_rows pids calls) = tiered_rows [pid] calls"
  unfolding tiered_rows_def filter_sort filter_filter
  by (rule arg_cong [of _ _ "sort_key _"], rule filter_cong) auto

lemma fallen_back_iff:
  "pid \<in> set (posts_with_finished_default_tier_calls pids calls) \<longleftrightarrow>
    pid \<in> set pids \<and> pid \<in> set (posts_with_finished_default_tier_calls [pid] calls)"
  by (auto simp: posts_with_finished_default_tier_calls_def)

definition bucket_of_post :: "int \<Rightarrow> tier_row list \<Rightarrow> tier_bucket option" where
  "bucket_of_post pid calls = fold bucket_step (tiered_rows [pid] calls) None"

lemma summary_entry:
  assumes "pid \<in> set pids"
  shows "map_of (summarize_service_tiers_for_posts max_retries pids calls) pid =
    map_option (\<lambda>b. build_tier_summary max_retries
      (if pid \<in> set (posts_with_finished_default_tier_calls [pid] calls) then add_tier ''default'' b else b)) (bucket_of_post pid calls)"
proof -
  let ?m = "fold bucket_row (tiered_rows pids calls) []"
  have b: "map_of ?m pid = bucket_of_post pid calls"
    by (simp add: map_of_buckets rows_of_one_post [OF assms] bucket_of_post_def)
  have fb: "pid \<in> set (posts_with_finished_default_tier_calls (map fst ?m) calls) \<longleftrightarrow>
      pid \<in> set (posts_with_finished_default_tier_calls [pid] calls)" if "map_of ?m pid = Some x" for x
    using fallen_back_iff [of pid "map fst ?m"] map_of_in_keys [OF that] by blast
  have "pids \<noteq> []" using assms by auto
  then show ?thesis
    using fb by (cases "bucket_of_post pid calls") (simp_all add: summarize_service_tiers_for_posts_def Let_def map_of_map_pairs b)
qed

text \<open>The summary a post has in the list of jobs is the one its own status shows, whichever other posts are
  listed with it.\<close>

theorem bulk_summary_agrees_with_the_single_one:
  assumes "pid \<in> set pids"
  shows "map_of (summarize_service_tiers_for_posts max_retries pids calls) pid = summarize_service_tier_for_post max_retries pid calls"
  using summary_entry [OF assms] summary_entry [of pid "[pid]"] by (simp add: summarize_service_tier_for_post_def)

definition sample_tier_row :: "int \<Rightarrow> string option \<Rightarrow> string \<Rightarrow> instant \<Rightarrow> tier_row" where
  "sample_tier_row pid tier st t = tier_row.make t pid ''m'' 0 t ''p'' st 0 None None t tier None"

theorem bulk_summary_agrees_with_the_single_one_witness:
  "map_of (summarize_service_tiers_for_posts (Some 5) [7, 8]
      [sample_tier_row 8 (Some ''flex'') ''success'' 1, sample_tier_row 7 (Some ''flex'') ''pending'' 2]) 8 =
    summarize_service_tier_for_post (Some 5) 8
      [sample_tier_row 8 (Some ''flex'') ''success'' 1, sample_tier_row 7 (Some ''flex'') ''pending'' 2]"
  by (rule bulk_summary_agrees_with_the_single_one) simp

text \<open>What the summary says: the tier, the state and the attempt are those of the newest call with a tier, and
  it is mixed if the post's calls had more than one tier, the default one counted where a call of a model that
  had run at flex ended without.\<close>

lemma bucket_fold:
  "fold bucket_step rows (Some b) =
    Some (b\<lparr>tb_tiers := fold (\<lambda>c ts. List.insert (the (tr_tier c)) ts) rows (tb_tiers b)\<rparr>)"
  by (induction rows arbitrary: b) (simp_all add: bucket_step_def add_tier_def)

lemma fold_insert_tiers:
  "set (fold (\<lambda>c ts. List.insert (f c) ts) rows ts) = set ts \<union> f ` set rows \<and> (distinct ts \<longrightarrow> distinct (fold (\<lambda>c ts. List.insert (f c) ts) rows ts))"
  by (induction rows arbitrary: ts) auto

lemma bucket_of_post_Cons:
  assumes "tiered_rows [pid] calls = c # rest"
  obtains ts where "bucket_of_post pid calls = Some ((new_bucket c)\<lparr>tb_tiers := ts\<rparr>)" "distinct ts"
    "set ts = (\<lambda>c. the (tr_tier c)) ` {c \<in> set calls. mc_post c = pid \<and> tr_tier c \<noteq> None}"
proof -
  let ?ts = "fold (\<lambda>c ts. List.insert (the (tr_tier c)) ts) (c # rest) []"
  have "bucket_of_post pid calls = Some ((new_bucket c)\<lparr>tb_tiers := ?ts\<rparr>)"
    by (simp add: bucket_of_post_def assms bucket_step_def [of c None] bucket_fold add_tier_def new_bucket_def)
  moreover have "set ?ts = (\<lambda>c. the (tr_tier c)) ` set (tiered_rows [pid] calls)"
    using fold_insert_tiers [of "\<lambda>c. the (tr_tier c)" "c # rest" "[]"] by (simp add: assms)
  moreover have "set (tiered_rows [pid] calls) = {c \<in> set calls. mc_post c = pid \<and> tr_tier c \<noteq> None}"
    by (auto simp: tiered_rows_def)
  ultimately show ?thesis using fold_insert_tiers [of "\<lambda>c. the (tr_tier c)" "c # rest" "[]"] by (intro that [of ?ts]) auto
qed

theorem a_summary_describes_the_newest_call:
  assumes "summarize_service_tier_for_post max_retries pid calls = Some s"
  shows "\<exists>c\<in>set calls. mc_post c = pid \<and> tr_tier c = Some (ts_label s) \<and>
    (\<forall>d\<in>set calls. mc_post d = pid \<and> tr_tier d \<noteq> None \<longrightarrow> mc_time d \<le> mc_time c) \<and>
    (ts_in_flight s \<noteq> None \<longleftrightarrow> call_row.mc_status c \<in> {''pending'', ''retrying''}) \<and>
    (ts_mixed s \<longleftrightarrow> 1 < card ({t. \<exists>d\<in>set calls. mc_post d = pid \<and> tr_tier d = Some t} \<union>
      (if pid \<in> set (posts_with_finished_default_tier_calls [pid] calls) then {''default''} else {})))"
proof -
  from assms obtain b where b: "bucket_of_post pid calls = Some b" and s: "s = build_tier_summary max_retries
      (if pid \<in> set (posts_with_finished_default_tier_calls [pid] calls) then add_tier ''default'' b else b)"
    by (auto simp: summarize_service_tier_for_post_def summary_entry)
  then obtain c rest where rows: "tiered_rows [pid] calls = c # rest"
    by (cases "tiered_rows [pid] calls") (auto simp: bucket_of_post_def)
  obtain ts where ts: "b = (new_bucket c)\<lparr>tb_tiers := ts\<rparr>" "distinct ts"
    "set ts = (\<lambda>c. the (tr_tier c)) ` {c \<in> set calls. mc_post c = pid \<and> tr_tier c \<noteq> None}"
    using bucket_of_post_Cons [OF rows] b by auto
  from rows have "c \<in> set (tiered_rows [pid] calls)" by simp
  then have c: "c \<in> set calls" "mc_post c = pid" "tr_tier c \<noteq> None" by (auto simp: tiered_rows_def)
  have newest: "mc_time d \<le> mc_time c" if "d \<in> set calls" "mc_post d = pid" "tr_tier d \<noteq> None" for d
  proof -
    have "d \<in> set (c # rest)" using that unfolding rows [symmetric] by (simp add: tiered_rows_def)
    moreover have "sorted (map (\<lambda>c. - mc_time c) (c # rest))" unfolding rows [symmetric] by (simp add: tiered_rows_def)
    ultimately show ?thesis by auto
  qed
  have tiers: "set ts = {t. \<exists>d\<in>set calls. mc_post d = pid \<and> tr_tier d = Some t}" unfolding ts(3) by force
  show ?thesis
    using c newest ts(2) by (intro bexI [of _ c])
      (auto simp: s build_tier_summary_def ts(1) add_tier_def new_bucket_def tiers [symmetric] distinct_card [symmetric] card_insert_if insert_absorb)
qed

theorem a_summary_describes_the_newest_call_witness:
  "\<exists>s (c :: tier_row). summarize_service_tier_for_post None 8 [sample_tier_row 8 (Some ''flex'') ''success'' 1, sample_tier_row 8 (Some ''priority'') ''pending'' 2] = Some s \<and>
    tr_tier c = Some (ts_label s) \<and> mc_post c = 8"
proof -
  let ?calls = "[sample_tier_row 8 (Some ''flex'') ''success'' 1, sample_tier_row 8 (Some ''priority'') ''pending'' 2]"
  have "summarize_service_tier_for_post None 8 ?calls \<noteq> None" by code_simp
  then obtain s where "summarize_service_tier_for_post None 8 ?calls = Some s" by blast
  moreover obtain c :: tier_row where "mc_post c = 8" "tr_tier c = Some (ts_label s)"
    using a_summary_describes_the_newest_call [OF calculation] by blast
  ultimately show ?thesis by blast
qed

section \<open>The list of jobs\<close>

lemma sort_key_map: "sort_key k (map f xs) = map f (sort_key (k \<circ> f) xs)"
proof -
  have "insort_key k (f x) (map f ys) = map f (insort_key (k \<circ> f) x ys)" for x ys by (induction ys) simp_all
  then show ?thesis by (induction xs) simp_all
qed

lemma with_posts_unique:
  assumes "distinct (map pm_guid ps)"
  shows "\<exists>p. with_posts ps j = [(j, p)]"
proof -
  have "length (filter (\<lambda>p. pm_guid p = g) ps) \<le> 1" for g
    using assms by (induction ps) (auto simp: filter_empty_conv, metis image_eqI)
  then have "length (filter (\<lambda>p. pm_guid p = post_guid j) ps) \<le> 1" .
  then show ?thesis unfolding with_posts_def by (cases "filter (\<lambda>p. pm_guid p = post_guid j) ps") auto
qed

lemma job_entry_id [simp]: "jv_id (job_entry_of tiers db r) = job_id (fst r)"
  by (simp add: job_entry_of_def view_of_job_def job_view.defs job_entry.defs split: prod.split)

text \<open>As long as no two posts share a guid, the list of jobs has each active job once, the running ones
  first, then the pending ones, the newest of each first, up to the limit.\<close>

theorem active_jobs_are_listed_once:
  assumes "distinct (map pm_guid (m_posts (fs_media db)))"
  shows "map jv_id (list_active_jobs env calls limit db) =
    take limit (map job_id (sort_key (\<lambda>j. (- priority_of j, - created_at j)) (filter is_active (m_jobs (fs_media db)))))"
proof -
  let ?f = "\<lambda>j. (j, snd (hd (with_posts (m_posts (fs_media db)) j)))"
  have "with_posts (m_posts (fs_media db)) j = [?f j]" for j
    using with_posts_unique [OF assms, of j] by auto
  then have "concat (map (with_posts (m_posts (fs_media db))) js) = map ?f js" for js by (induction js) simp_all
  then show ?thesis
    by (simp add: list_active_jobs_def job_entries_def Let_def listed_rows_def sort_key_map take_map comp_def)
qed

definition sample_shelf :: "post_media list \<Rightarrow> job list \<Rightarrow> feed_db" where
  "sample_shelf ps js = \<lparr>fs_media = \<lparr>m_posts = ps, m_segments = [], m_idents = [], m_calls = [], m_audio = [], m_jobs = js, m_run = None,
     m_files = []\<rparr>, fs_feeds = [sample_feed], fs_members = [], fs_users = [], fs_tokens = []\<rparr>"

definition sample_manager :: manager_env where
  "sample_manager = \<lparr>me_resolve = (\<lambda>p. p), me_srv = ''srv'', me_job_ids = (\<lambda>i. if i < 0 then CHR ''-'' # replicate (nat (- i)) CHR ''1'' else replicate (nat i) CHR ''1''), me_saves = (\<lambda>_. True),
     me_max_retries = Some 5\<rparr>"

theorem active_jobs_are_listed_once_witness:
  "map jv_id (list_active_jobs sample_manager [] 2
      (sample_shelf [sample_stored ''a'' ''One'' ''u''] [demo_job ''p'' ''pending'' 3, demo_job ''f'' ''failed'' 4, demo_job ''r'' ''running'' 2])) =
    take 2 [''r'', ''p'']"
proof -
  let ?db = "sample_shelf [sample_stored ''a'' ''One'' ''u''] [demo_job ''p'' ''pending'' 3, demo_job ''f'' ''failed'' 4, demo_job ''r'' ''running'' 2]"
  have "distinct (map pm_guid (m_posts (fs_media ?db)))" by (simp add: sample_shelf_def)
  from active_jobs_are_listed_once [OF this, of sample_manager "[]" 2] show ?thesis
    by (simp add: sample_shelf_def is_active_def demo_job_def priority_of_def)
qed

text \<open>A job is listed once for every post of its guid, so an episode that two feeds carry under one guid takes two
  places of the list.\<close>

lemma with_posts_length: "length (with_posts ps j) = max 1 (length (filter (\<lambda>p. pm_guid p = post_guid j) ps))"
  by (cases "filter (\<lambda>p. pm_guid p = post_guid j) ps") (simp_all add: with_posts_def)

section \<open>The loop over the posts without a job\<close>

lemma set_dedupe_paths: "set (dedupe_paths ps ds) = set ps \<union> set ds"
  by (induction ps arbitrary: ds) auto

definition settled_path :: "manager_env \<Rightarrow> feed_db \<Rightarrow> string \<Rightarrow> bool" where
  "settled_path env db path \<longleftrightarrow> path \<in> set (m_files (fs_media db)) \<and> path \<in> range (me_resolve env)"

lemma listed_member: "find P xs = Some x \<Longrightarrow> x \<in> set xs \<and> P x"
  by (auto simp: find_Some_iff)

lemma existing_audio_Some: "existing_audio env db p = Some path \<Longrightarrow> settled_path env db path"
proof -
  assume "existing_audio env db p = Some path"
  then have "\<exists>xs. find (\<lambda>q. q \<in> set (m_files (fs_media db))) (dedupe_paths (map (me_resolve env) xs) []) = Some path"
    unfolding existing_audio_def find_existing_processed_audio_path_def processed_audio_path_candidates_def Let_def by (rule exI)
  then obtain xs where "path \<in> set (dedupe_paths (map (me_resolve env) xs) [])" "path \<in> set (m_files (fs_media db))"
    using listed_member by meson
  then show ?thesis by (auto simp: settled_path_def set_dedupe_paths)
qed

lemma existing_audio_frame:
  assumes "m_files (fs_media db') = m_files (fs_media db)" and "fs_feeds db' = fs_feeds db"
  shows "existing_audio env db' = existing_audio env db" and "settled_path env db' = settled_path env db"
  using assms by (auto simp: fun_eq_iff existing_audio_def settled_path_def find_feed_def)

text \<open>\<open>Path.resolve\<close>: absolute, and a resolved path resolves to itself.\<close>

definition resolves :: "manager_env \<Rightarrow> bool" where
  "resolves env \<longleftrightarrow> (\<forall>p. me_resolve env (me_resolve env p) = me_resolve env p \<and> me_resolve env p \<noteq> [])"

lemma find_dedupe_Cons: "P p \<Longrightarrow> find P (dedupe_paths ps (p # ds)) = Some p"
proof (induction ps arbitrary: ds)
  case (Cons q ps)
  then show ?case using Cons.IH [of ds] Cons.IH [of "ds @ [q]"] by simp
qed simp

text \<open>A post whose recorded path is a resolved file has its audio.\<close>

lemma existing_audio_recorded:
  assumes "resolves env" and "settled_path env db path"
  shows "existing_audio env db (p\<lparr>pm_processed := Some path\<rparr>) = Some path"
proof -
  from assms have r: "me_resolve env path = path" "path \<noteq> []" by (auto simp: resolves_def settled_path_def)
  then have "given (Some path)" by (simp add: given_def)
  then show ?thesis using assms(2)
    by (simp add: existing_audio_def find_existing_processed_audio_path_def processed_audio_path_candidates_def Let_def r
        find_dedupe_Cons settled_path_def)
qed

text \<open>What a pass does to the posts: some of them get the path of a file that exists.\<close>

definition recovered :: "manager_env \<Rightarrow> feed_db \<Rightarrow> post_media \<Rightarrow> post_media \<Rightarrow> bool" where
  "recovered env db p q \<longleftrightarrow> q = p \<or> (\<exists>path. settled_path env db path \<and> q = p\<lparr>pm_processed := Some path\<rparr>)"

lemma recovered_refl [simp]: "recovered env db p p"
  by (simp add: recovered_def)

lemma recovered_trans: "recovered env db p q \<Longrightarrow> recovered env db q r \<Longrightarrow> recovered env db p r"
  by (auto simp: recovered_def)

lemma all_recovered_trans:
  "list_all2 (recovered env db) ps qs \<Longrightarrow> list_all2 (recovered env db) qs rs \<Longrightarrow> list_all2 (recovered env db) ps rs"
  using list_all2_trans [of "recovered env db" "recovered env db" "recovered env db"] recovered_trans by blast

lemma recovered_frame:
  assumes "recovered env db p q"
  shows "pm_id q = pm_id p" "pm_guid q = pm_guid p" "pm_whitelisted q = pm_whitelisted p" "pm_feed q = pm_feed p" "pm_url q = pm_url p"
  using assms by (auto simp: recovered_def)

lemma recover_path_frame [simp]:
  "m_jobs (fs_media (recover_path env p path db)) = m_jobs (fs_media db)" "m_files (fs_media (recover_path env p path db)) = m_files (fs_media db)"
  "m_run (fs_media (recover_path env p path db)) = m_run (fs_media db)" "fs_feeds (recover_path env p path db) = fs_feeds db"
  by (simp_all add: recover_path_def put_media_def modify_post_def)

lemma recover_path_posts:
  "settled_path env db path \<Longrightarrow> list_all2 (recovered env db) (m_posts (fs_media db)) (m_posts (fs_media (recover_path env p path db)))"
  by (auto simp: recover_path_def put_media_def modify_post_def list_all2_map2 recovered_def intro!: list.rel_refl list_all2_refl)

text \<open>The job of a post without one, and of a post whose twin was given one before.\<close>

definition queued_by :: "string option \<Rightarrow> job \<Rightarrow> bool" where
  "queued_by rid j \<longleftrightarrow> status j = ''pending'' \<and> run_id j = rid"

lemma ensure_job_first:
  assumes "\<forall>j\<in>set (jobs v). post_guid j \<noteq> g" and "find_job v jid = None"
  obtains j v' where "ensure_job (manager_of g rid) jid now v = Inr (j, v')" "jobs v' = jobs v @ [j]" "queued_by rid j" "post_guid j = g" "job_id j = jid"
proof -
  have "filter (\<lambda>j. post_guid j = g) (jobs v) = []" using assms(1) by (simp add: filter_empty_conv)
  then have "latest_job g v = None" by (simp add: latest_job_def)
  then have e: "ensure_job (manager_of g rid) jid now v = sm_create_job g jid rid None None now v"
    by (simp add: ensure_job_def get_active_job_def manager_of_def)
  have "\<exists>j v'. sm_create_job g jid rid None None now v = Inr (j, v') \<and> run_id j = rid"
    using assms(2) by (simp add: sm_create_job_def create_job_action_def Let_def find_job_def find_append)
  then obtain j v' where c: "sm_create_job g jid rid None None now v = Inr (j, v')" "run_id j = rid" by blast
  from create_job_shape [OF c(1) assms(2)] c(2) show ?thesis by (intro that [of j v']) (simp_all add: e c(1) queued_by_def)
qed

lemma ensure_job_twin:
  assumes "filter (\<lambda>j. post_guid j = g) (jobs v) = [j]" and "queued_by rid j"
  shows "ensure_job (manager_of g rid) jid now v = Inr (j, v)"
proof -
  have "latest_job g v = Some j" by (simp add: latest_job_def assms(1))
  then show ?thesis using assms(2)
    by (simp add: ensure_job_def get_active_job_def manager_of_def queued_by_def is_active_def)
qed

lemma filter_distinct_key:
  assumes "distinct (map f xs)" and "x \<in> set xs"
  shows "filter (\<lambda>y. f y = f x) xs = [x]"
  using assms
proof (induction xs)
  case (Cons a xs)
  show ?case
  proof (cases "x = a")
    case True
    with Cons.prems(1) have "f y \<noteq> f x" if "y \<in> set xs" for y using that by (auto simp: image_iff)
    with True show ?thesis by (simp add: filter_empty_conv)
  next
    case False
    with Cons.prems have "f a \<noteq> f x" by auto
    with Cons False show ?thesis by simp
  qed
qed simp

lemma ensure_jobs_loop_spec:
  assumes "m_jobs (fs_media db) = old @ new" and "\<forall>j\<in>set new. queued_by rid j" and "distinct (map post_guid new)"
    and "\<forall>p\<in>set ps. pm_guid p \<notin> post_guid ` set old" and "\<forall>p\<in>set ps. me_job_ids env (pm_id p) \<notin> job_id ` set (old @ new)"
    and "distinct (map (\<lambda>p. me_job_ids env (pm_id p)) ps)"
  shows "\<exists>n db' more. ensure_jobs_loop env rid now ps db = (Inr n, db') \<and> m_jobs (fs_media db') = old @ new @ more \<and>
    (\<forall>j\<in>set more. queued_by rid j) \<and> distinct (map post_guid (new @ more)) \<and>
    post_guid ` set (new @ more) = post_guid ` set new \<union> pm_guid ` {p \<in> set ps. existing_audio env db p = None} \<and>
    n = length (filter (\<lambda>p. existing_audio env db p = None) ps) \<and>
    list_all2 (recovered env db) (m_posts (fs_media db)) (m_posts (fs_media db')) \<and>
    m_files (fs_media db') = m_files (fs_media db) \<and> fs_feeds db' = fs_feeds db"
  using assms
proof (induction ps arbitrary: db new)
  case Nil
  then show ?case by (auto intro!: exI [of _ "[]"] list_all2_refl)
next
  case (Cons p ps)
  show ?case
  proof (cases "existing_audio env db p")
    case (Some path)
    let ?db = "recover_path env p path db"
    note frame = existing_audio_frame [of ?db db env, simplified]
    have rec: "recovered env ?db = recovered env db" by (simp add: fun_eq_iff recovered_def frame)
    obtain n db' more where ih: "ensure_jobs_loop env rid now ps ?db = (Inr n, db')" "m_jobs (fs_media db') = old @ new @ more"
      "\<forall>j\<in>set more. queued_by rid j" "distinct (map post_guid (new @ more))"
      "post_guid ` set (new @ more) = post_guid ` set new \<union> pm_guid ` {p \<in> set ps. existing_audio env db p = None}"
      "n = length (filter (\<lambda>p. existing_audio env db p = None) ps)"
      "list_all2 (recovered env db) (m_posts (fs_media ?db)) (m_posts (fs_media db'))"
      "m_files (fs_media db') = m_files (fs_media db)" "fs_feeds db' = fs_feeds db"
      using Cons.IH [of ?db new] Cons.prems unfolding rec frame by auto
    have "{q \<in> set (p # ps). existing_audio env db q = None} = {q \<in> set ps. existing_audio env db q = None}" using Some by auto
    moreover have "list_all2 (recovered env db) (m_posts (fs_media db)) (m_posts (fs_media db'))"
      by (rule all_recovered_trans [OF recover_path_posts [OF existing_audio_Some [OF Some]] ih(7)])
    ultimately show ?thesis using Some ih by (intro exI [of _ n] exI [of _ db'] exI [of _ more]) simp
  next
    case None
    let ?v = "jobs_view (fs_media db)"
    have fresh: "find_job ?v (me_job_ids env (pm_id p)) = None"
      using Cons.prems(1,5) unfolding find_job_None by (metis image_eqI jobs_view_jobs list.set_intros(1))
    obtain j v' new' where e: "ensure_job (manager_of (pm_guid p) rid) (me_job_ids env (pm_id p)) now ?v = Inr (j, v')"
      "jobs v' = old @ new'" "\<forall>j\<in>set new'. queued_by rid j" "distinct (map post_guid new')"
      "post_guid ` set new' = insert (pm_guid p) (post_guid ` set new)" "\<exists>added. new' = new @ added"
      "job_id ` set new' \<subseteq> insert (me_job_ids env (pm_id p)) (job_id ` set new)"
    proof (cases "pm_guid p \<in> post_guid ` set new")
      case False
      with Cons.prems(4) have "\<forall>j\<in>set (jobs ?v). post_guid j \<noteq> pm_guid p"
        unfolding jobs_view_jobs Cons.prems(1) set_append by (metis UnE image_eqI list.set_intros(1))
      from ensure_job_first [OF this fresh] obtain j v' where "ensure_job (manager_of (pm_guid p) rid) (me_job_ids env (pm_id p)) now ?v = Inr (j, v')"
        "jobs v' = jobs ?v @ [j]" "queued_by rid j" "post_guid j = pm_guid p" "job_id j = me_job_ids env (pm_id p)" .
      with False Cons.prems(1-3) show ?thesis by (intro that [of j v' "new @ [j]"]) auto
    next
      case True
      then obtain j where j: "j \<in> set new" "post_guid j = pm_guid p" by auto
      have "filter (\<lambda>k. post_guid k = pm_guid p) old = []" using Cons.prems(4) by (force simp: filter_empty_conv)
      moreover have "filter (\<lambda>k. post_guid k = pm_guid p) new = [j]"
        using filter_distinct_key [OF Cons.prems(3) j(1)] by (simp add: j(2))
      ultimately have "filter (\<lambda>k. post_guid k = pm_guid p) (jobs ?v) = [j]" by (simp add: Cons.prems(1))
      moreover have "queued_by rid j" using j(1) Cons.prems(2) by blast
      ultimately have e: "ensure_job (manager_of (pm_guid p) rid) (me_job_ids env (pm_id p)) now ?v = Inr (j, ?v)"
        by (rule ensure_job_twin)
      show ?thesis
      proof (rule that [OF e])
        show "post_guid ` set new = insert (pm_guid p) (post_guid ` set new)" using True by (simp only: insert_absorb)
        show "jobs ?v = old @ new" using Cons.prems(1) by simp
        show "\<exists>added. new = new @ added" by (rule exI [of _ "[]"]) simp
      qed (use Cons.prems(2,3) in blast)+
    qed
    let ?db = "put_media (put_jobs v' (fs_media db)) db"
    have "m_files (fs_media ?db) = m_files (fs_media db)" "fs_feeds ?db = fs_feeds db" by (simp_all add: put_media_def)
    note frame = existing_audio_frame [OF this, of env]
    have rec: "recovered env ?db = recovered env db" by (simp add: fun_eq_iff recovered_def frame)
    have ids: "\<forall>q\<in>set ps. me_job_ids env (pm_id q) \<notin> job_id ` set (old @ new')"
    proof
      fix q
      assume q: "q \<in> set ps"
      have "me_job_ids env (pm_id p) \<notin> (\<lambda>q. me_job_ids env (pm_id q)) ` set ps" using Cons.prems(6) by simp
      with q have "me_job_ids env (pm_id q) \<noteq> me_job_ids env (pm_id p)" by (metis image_eqI)
      moreover have "me_job_ids env (pm_id q) \<notin> job_id ` set (old @ new)" using Cons.prems(5) q by simp
      ultimately show "me_job_ids env (pm_id q) \<notin> job_id ` set (old @ new')"
        using e(7) unfolding set_append image_Un by blast
    qed
    have jobs: "m_jobs (fs_media ?db) = old @ new'" by (simp add: put_media_def e(2))
    obtain n db' more where ih: "ensure_jobs_loop env rid now ps ?db = (Inr n, db')" "m_jobs (fs_media db') = old @ new' @ more"
      "\<forall>j\<in>set more. queued_by rid j" "distinct (map post_guid (new' @ more))"
      "post_guid ` set (new' @ more) = post_guid ` set new' \<union> pm_guid ` {p \<in> set ps. existing_audio env db p = None}"
      "n = length (filter (\<lambda>p. existing_audio env db p = None) ps)"
      "list_all2 (recovered env db) (m_posts (fs_media ?db)) (m_posts (fs_media db'))"
      "m_files (fs_media db') = m_files (fs_media ?db)" "fs_feeds db' = fs_feeds ?db"
      using Cons.IH [OF jobs e(3,4) _ ids] Cons.prems(4,6) unfolding rec frame by auto
    obtain added where added: "new' = new @ added" using e(6) by blast
    have "{q \<in> set (p # ps). existing_audio env db q = None} = insert p {q \<in> set ps. existing_audio env db q = None}" using None by auto
    then have "post_guid ` set (new @ added @ more) = post_guid ` set new \<union> pm_guid ` {q \<in> set (p # ps). existing_audio env db q = None}"
      using ih(5) e(5) by (simp add: added)
    then show ?thesis using None e(1,3) ih by (intro exI [of _ "Suc n"] exI [of _ db'] exI [of _ "added @ more"])
      (auto simp: added put_media_def)
  qed
qed

section \<open>Enqueueing\<close>

definition waiting_posts :: "manager_env \<Rightarrow> feed_db \<Rightarrow> post_media list" where
  "waiting_posts env db = filter (\<lambda>p. existing_audio env db p = None) (posts_without_jobs (fs_media db))"

definition job_ident :: "job \<Rightarrow> string \<times> string \<times> string" where
  "job_ident j = (job_id j, post_guid j, status j)"

definition fresh_ids :: "manager_env \<Rightarrow> media_db \<Rightarrow> bool" where
  "fresh_ids env m \<longleftrightarrow> inj (me_job_ids env) \<and> range (me_job_ids env) \<inter> job_id ` set (m_jobs m) = {}"

lemma on_jobs_frame [simp]:
  "m_posts (on_jobs f m) = m_posts m" "m_files (on_jobs f m) = m_files m" "m_jobs (on_jobs f m) = jobs (f (jobs_view m))"
  by (simp_all add: on_jobs_def)

lemma singleton_run_jobs [simp]: "jobs (get_or_create_singleton_run trigger ctx now v) = jobs v"
  by (simp add: get_or_create_singleton_run_def Let_def split: option.split)

lemma ensure_active_run_frame:
  assumes "ensure_active_run answered trigger ctx now db = (rid, db1)"
  shows "rid = (if answered then Some SINGLETON_RUN_ID else None)" "m_jobs (fs_media db1) = m_jobs (fs_media db)"
    "m_posts (fs_media db1) = m_posts (fs_media db)" "m_files (fs_media db1) = m_files (fs_media db)" "fs_feeds db1 = fs_feeds db"
  using assms by (auto simp: ensure_active_run_def put_media_def split: if_splits)

definition attached :: "string option \<Rightarrow> job \<Rightarrow> job" where
  "attached rid j = (if status j = ''pending'' \<and> run_id j \<noteq> rid then j\<lparr>run_id := rid\<rparr> else j)"

lemma attached_frame [simp]: "job_ident (attached rid j) = job_ident j" "status (attached rid j) = status j" "post_guid (attached rid j) = post_guid j"
    "job_id (attached rid j) = job_id j"
  by (simp_all add: attached_def job_ident_def)

lemma reassigned_jobs: "rid \<noteq> None \<Longrightarrow> rid \<noteq> Some [] \<Longrightarrow> jobs (snd (reassign_pending_jobs_action rid now v)) = map (attached rid) (jobs v)"
  by (auto simp: reassign_pending_jobs_action_def Let_def attached_def)

lemma count_pending_frame: "map job_ident js = map job_ident ks \<Longrightarrow>
    length (filter (\<lambda>j. status j = ''pending'') js) = length (filter (\<lambda>j. status j = ''pending'') ks)"
proof (induction js arbitrary: ks)
  case (Cons j js)
  then show ?case by (cases ks) (auto simp: job_ident_def)
qed simp

lemma existing_audio_same:
  "m_files (fs_media db') = m_files (fs_media db) \<Longrightarrow> fs_feeds db' = fs_feeds db \<Longrightarrow> existing_audio env db' = existing_audio env db"
  by (rule existing_audio_frame)

lemma enqueue_spec:
  assumes "fresh_ids env (fs_media db)" and "distinct (map pm_id (m_posts (fs_media db)))"
    and "enqueue_pending_jobs env answered trigger ctx now (ms, db) = (res, ms', db')"
  shows "\<exists>r new. res = Inr r \<and> map job_ident (m_jobs (fs_media db')) = map job_ident (m_jobs (fs_media db) @ new) \<and>
    (\<forall>j\<in>set new. status j = ''pending'') \<and> distinct (map post_guid new) \<and>
    post_guid ` set new = pm_guid ` set (waiting_posts env db) \<and> er_created r = length (waiting_posts env db) \<and>
    er_pending r = pending_count db' \<and> mg_run ms' = (if answered then Some SINGLETON_RUN_ID else None) \<and>
    (mg_work ms' \<longleftrightarrow> mg_work ms \<or> 0 < pending_count db') \<and>
    (answered \<longrightarrow> (\<forall>j\<in>set (m_jobs (fs_media db')). status j = ''pending'' \<longrightarrow> run_id j = Some SINGLETON_RUN_ID)) \<and>
    list_all2 (recovered env db) (m_posts (fs_media db)) (m_posts (fs_media db')) \<and>
    m_files (fs_media db') = m_files (fs_media db) \<and> fs_feeds db' = fs_feeds db"
proof -
  obtain rid db1 where run: "ensure_active_run answered trigger ctx now db = (rid, db1)" by fastforce
  note f1 = ensure_active_run_frame [OF run]
  let ?ps = "posts_without_jobs (fs_media db1)"
  have ex: "existing_audio env db1 = existing_audio env db" by (rule existing_audio_same [OF f1(4,5)])
  have rec: "recovered env db1 = recovered env db" using existing_audio_frame(2) [OF f1(4,5)] by (simp add: fun_eq_iff recovered_def)
  have "\<forall>p\<in>set ?ps. pm_guid p \<notin> post_guid ` set (m_jobs (fs_media db))"
    using f1(2) by (auto simp: posts_without_jobs_def list_ex_iff)
  moreover have "\<forall>p\<in>set ?ps. me_job_ids env (pm_id p) \<notin> job_id ` set (m_jobs (fs_media db) @ [])"
    using assms(1) by (auto simp: fresh_ids_def)
  moreover have "distinct (map (\<lambda>p. me_job_ids env (pm_id p)) ?ps)"
  proof -
    have "distinct (map pm_id ?ps)" using assms(2) by (simp add: posts_without_jobs_def f1(3) distinct_map_filter)
    then have "distinct (map (me_job_ids env) (map pm_id ?ps))" using assms(1) by (simp only: distinct_map [of "me_job_ids env"]) (auto simp: fresh_ids_def intro: inj_on_subset)
    then show ?thesis by (simp add: comp_def)
  qed
  ultimately obtain n db2 new where l: "ensure_jobs_loop env rid now ?ps db1 = (Inr n, db2)" "m_jobs (fs_media db2) = m_jobs (fs_media db) @ new"
    "\<forall>j\<in>set new. queued_by rid j" "distinct (map post_guid new)"
    "post_guid ` set new = pm_guid ` {p \<in> set ?ps. existing_audio env db p = None}"
    "n = length (filter (\<lambda>p. existing_audio env db p = None) ?ps)"
    "list_all2 (recovered env db) (m_posts (fs_media db)) (m_posts (fs_media db2))"
    "m_files (fs_media db2) = m_files (fs_media db)" "fs_feeds db2 = fs_feeds db"
    using ensure_jobs_loop_spec [of db1 "m_jobs (fs_media db)" "[]" rid ?ps env now] f1 ex rec by auto
  let ?db3 = "if rid \<noteq> None \<and> pending_count db2 > 0
           then put_media (on_jobs (snd \<circ> reassign_pending_jobs_action rid now) (fs_media db2)) db2 else db2"
  have waiting: "waiting_posts env db = filter (\<lambda>p. existing_audio env db p = None) ?ps"
    using f1(2,3) by (simp add: waiting_posts_def posts_without_jobs_def)
  have jobs3: "m_jobs (fs_media ?db3) = m_jobs (fs_media db2) \<or> m_jobs (fs_media ?db3) = map (attached rid) (m_jobs (fs_media db2))"
    using f1(1) by (auto simp: put_media_def reassigned_jobs SINGLETON_RUN_ID_def split: if_splits)
  then have same: "map job_ident (m_jobs (fs_media ?db3)) = map job_ident (m_jobs (fs_media db2))" by (auto simp: comp_def)
  then have pend: "pending_count ?db3 = pending_count db2" unfolding pending_count_def by (rule count_pending_frame)
  have runs: "run_id j = Some SINGLETON_RUN_ID" if "answered" "j \<in> set (m_jobs (fs_media ?db3))" "status j = ''pending''" for j
  proof (cases "pending_count db2 > 0")
    case True
    then have "m_jobs (fs_media ?db3) = map (attached rid) (m_jobs (fs_media db2))"
      using f1(1) that(1) by (simp add: put_media_def reassigned_jobs SINGLETON_RUN_ID_def)
    then show ?thesis using that f1(1) by (auto simp: attached_def split: if_splits)
  next
    case False
    then show ?thesis using that by (auto simp: pending_count_def filter_empty_conv split: if_splits)
  qed
  have "enqueue_pending_jobs env answered trigger ctx now (ms, db) =
      (Inr \<lparr>er_created = n, er_pending = pending_count db2, er_run = rid\<rparr>,
       ms\<lparr>mg_run := rid, mg_work := mg_work ms \<or> 0 < pending_count db2\<rparr>, ?db3)"
    by (simp add: enqueue_pending_jobs_def run cleanup_and_process_new_posts_def ensure_jobs_for_all_posts_def l(1))
  then have res: "res = Inr \<lparr>er_created = n, er_pending = pending_count db2, er_run = rid\<rparr>"
    "ms' = ms\<lparr>mg_run := rid, mg_work := mg_work ms \<or> 0 < pending_count db2\<rparr>" and db': "db' = ?db3"
    unfolding assms(3) by (simp_all del: if_split_eq1)
  have "map job_ident (m_jobs (fs_media db')) = map job_ident (m_jobs (fs_media db) @ new)" using same unfolding db' l(2) .
  moreover have "post_guid ` set new = pm_guid ` set (waiting_posts env db)" unfolding l(5) waiting by simp
  moreover have "list_all2 (recovered env db) (m_posts (fs_media db)) (m_posts (fs_media db'))" "m_files (fs_media db') = m_files (fs_media db)"
    "fs_feeds db' = fs_feeds db" using l(7-9) by (simp_all add: db' put_media_def)
  moreover have "\<forall>j\<in>set new. status j = ''pending''" using l(3) by (simp add: queued_by_def)
  moreover have "pending_count db' = pending_count db2" using pend unfolding db' .
  moreover have "answered \<longrightarrow> (\<forall>j\<in>set (m_jobs (fs_media db')). status j = ''pending'' \<longrightarrow> run_id j = Some SINGLETON_RUN_ID)"
    using runs unfolding db' by blast
  ultimately show ?thesis
    by (intro exI [of _ "\<lparr>er_created = n, er_pending = pending_count db2, er_run = rid\<rparr>"] exI [of _ new])
      (simp add: res l(4,6) f1(1) waiting)
qed

lemma enqueue_returns:
  assumes "fresh_ids env (fs_media db)" and "distinct (map pm_id (m_posts (fs_media db)))"
  obtains r ms' db' where "enqueue_pending_jobs env answered trigger ctx now (ms, db) = (Inr r, ms', db')"
proof -
  obtain res ms' db' where e: "enqueue_pending_jobs env answered trigger ctx now (ms, db) = (res, ms', db')" by (metis prod_cases3)
  with enqueue_spec [OF assms e] that show ?thesis by blast
qed


definition guid_post :: "int \<Rightarrow> string \<Rightarrow> post_media" where
  "guid_post i g = (sample_stored ''a'' ''One'' ''http://f'')\<lparr>pm_id := i, pm_guid := g\<rparr>"

lemma guid_post_simps [simp]: "pm_id (guid_post i g) = i" "pm_guid (guid_post i g) = g" "pm_whitelisted (guid_post i g)"
  by (simp_all add: guid_post_def sample_stored_def stored_row_def make_post_def)

lemma no_file_found [simp]: "existing_audio env (sample_shelf ps js) p = None"
proof -
  have "find (\<lambda>q. False) xs = None" for xs :: "string list" by (induction xs) simp_all
  then show ?thesis by (simp add: existing_audio_def find_existing_processed_audio_path_def sample_shelf_def)
qed

lemma waiting_sample: "waiting_posts env (sample_shelf ps js) = posts_without_jobs (fs_media (sample_shelf ps js))"
  by (simp add: waiting_posts_def)

lemma sample_ids_fresh:
  assumes "\<forall>j\<in>set js. job_id j \<notin> range (me_job_ids sample_manager)"
  shows "fresh_ids sample_manager (fs_media (sample_shelf ps js))"
proof -
  have "inj (me_job_ids sample_manager)"
  proof (rule injI)
    fix a b
    assume e: "me_job_ids sample_manager a = me_job_ids sample_manager b"
    from arg_cong [OF e, of length] e show "a = b"
      by (cases "nat a"; cases "nat b") (auto simp: sample_manager_def split: if_splits)
  qed
  then show ?thesis using assms by (auto simp: fresh_ids_def sample_shelf_def) (metis rangeI)
qed


lemma list_all2_origin: "list_all2 R xs ys \<Longrightarrow> y \<in> set ys \<Longrightarrow> \<exists>x\<in>set xs. R x y"
  by (induction rule: list_all2_induct) auto

lemma waiting_frame:
  assumes "map job_ident (m_jobs (fs_media db')) = map job_ident js" and "list_all2 (recovered env db) (m_posts (fs_media db)) (m_posts (fs_media db'))"
    and "p' \<in> set (posts_without_jobs (fs_media db'))"
  obtains p where "p \<in> set (m_posts (fs_media db))" "recovered env db p p'" "pm_whitelisted p" "pm_guid p \<notin> post_guid ` set js"
proof -
  from assms(3) have p': "p' \<in> set (m_posts (fs_media db'))" "pm_whitelisted p'" "pm_guid p' \<notin> post_guid ` set (m_jobs (fs_media db'))"
    by (auto simp: posts_without_jobs_def list_ex_iff)
  from list_all2_origin [OF assms(2) p'(1)] obtain p where p: "p \<in> set (m_posts (fs_media db))" "recovered env db p p'" by blast
  have "map post_guid js = map post_guid (m_jobs (fs_media db'))"
    using arg_cong [OF assms(1), of "map (fst \<circ> snd)"] by (simp add: job_ident_def comp_def)
  then have "post_guid ` set js = post_guid ` set (m_jobs (fs_media db'))" by (metis list.set_map)
  with p p' recovered_frame [OF p(2)] show ?thesis by (intro that [of p]) auto
qed

lemma nothing_waits_after_enqueueing:
  assumes "resolves env" and "map job_ident (m_jobs (fs_media db')) = map job_ident (m_jobs (fs_media db) @ new)"
    and "post_guid ` set new = pm_guid ` set (waiting_posts env db)"
    and "list_all2 (recovered env db) (m_posts (fs_media db)) (m_posts (fs_media db'))" "m_files (fs_media db') = m_files (fs_media db)"
    and "fs_feeds db' = fs_feeds db"
  shows "waiting_posts env db' = []"
proof -
  have "existing_audio env db' p' \<noteq> None" if w: "p' \<in> set (posts_without_jobs (fs_media db'))" for p'
  proof -
    from waiting_frame [OF assms(2,4) w] obtain p where p: "p \<in> set (m_posts (fs_media db))" "recovered env db p p'" "pm_whitelisted p"
      "pm_guid p \<notin> post_guid ` set (m_jobs (fs_media db) @ new)" .
    have "p \<notin> set (waiting_posts env db)"
    proof
      assume "p \<in> set (waiting_posts env db)"
      then have "pm_guid p \<in> post_guid ` set new" unfolding assms(3) by (rule imageI)
      with p(4) show False by auto
    qed
    moreover have "\<forall>j\<in>set (m_jobs (fs_media db)). post_guid j \<noteq> pm_guid p" using p(4) by (metis UnCI image_eqI set_append)
    then have "p \<in> set (posts_without_jobs (fs_media db))" using p by (auto simp: posts_without_jobs_def list_ex_iff)
    ultimately have ex: "existing_audio env db p \<noteq> None" by (simp add: waiting_posts_def)
    have "existing_audio env db p' \<noteq> None"
      using p(2) ex existing_audio_recorded [OF assms(1)] by (auto simp: recovered_def)
    then show ?thesis using existing_audio_same [OF assms(5,6), of env] by simp
  qed
  then show ?thesis unfolding waiting_posts_def filter_empty_conv by blast
qed

text \<open>Enqueueing is idempotent: a second pass, with whatever trigger and later, creates nothing and leaves
  every row of the queue as it is.\<close>

theorem enqueueing_again_queues_nothing:
  assumes "fresh_ids env (fs_media db)" and "distinct (map pm_id (m_posts (fs_media db)))" and "resolves env"
    and "enqueue_pending_jobs env True trigger ctx now (ms, db) = (Inr r, ms', db')"
  shows "\<exists>r2 ms2 db2. enqueue_pending_jobs env True trigger' ctx' now' (ms', db') = (Inr r2, ms2, db2) \<and> er_created r2 = 0 \<and>
    m_jobs (fs_media db2) = m_jobs (fs_media db')"
proof -
  from enqueue_spec [OF assms(1,2,4)] obtain new
    where e: "map job_ident (m_jobs (fs_media db')) = map job_ident (m_jobs (fs_media db) @ new)"
    "post_guid ` set new = pm_guid ` set (waiting_posts env db)"
    "\<forall>j\<in>set (m_jobs (fs_media db')). status j = ''pending'' \<longrightarrow> run_id j = Some SINGLETON_RUN_ID"
    "list_all2 (recovered env db) (m_posts (fs_media db)) (m_posts (fs_media db'))" "m_files (fs_media db') = m_files (fs_media db)"
    "fs_feeds db' = fs_feeds db" by auto
  have none: "waiting_posts env db' = []" by (rule nothing_waits_after_enqueueing [OF assms(3) e(1,2,4-6)])
  obtain rid db1 where run: "ensure_active_run True trigger' ctx' now' db' = (rid, db1)" by fastforce
  note f1 = ensure_active_run_frame [OF run]
  have ex: "\<forall>p\<in>set (posts_without_jobs (fs_media db1)). existing_audio env db1 p \<noteq> None"
    using none f1(2,3) existing_audio_same [OF f1(4,5), of env] by (auto simp: waiting_posts_def posts_without_jobs_def filter_empty_conv)
  have loop: "\<exists>d. ensure_jobs_loop env rid now' ps d0 = (Inr 0, d) \<and> m_jobs (fs_media d) = m_jobs (fs_media d0)"
    if "\<forall>p\<in>set ps. existing_audio env d0 p \<noteq> None" for ps d0
    using that
  proof (induction ps arbitrary: d0)
    case (Cons p ps)
    then obtain path where path: "existing_audio env d0 p = Some path" by auto
    have "\<forall>q\<in>set ps. existing_audio env (recover_path env p path d0) q \<noteq> None"
      using Cons.prems existing_audio_frame(1) [of "recover_path env p path d0" d0 env] by auto
    from Cons.IH [OF this] show ?case by (simp add: path)
  qed simp
  from loop [OF ex] obtain db2 where l: "ensure_jobs_loop env rid now' (posts_without_jobs (fs_media db1)) db1 = (Inr 0, db2)"
    "m_jobs (fs_media db2) = m_jobs (fs_media db')" using f1(2) by auto
  have "map (attached rid) (m_jobs (fs_media db')) = m_jobs (fs_media db')"
    using e(3) f1(1) by (intro map_idI) (simp add: attached_def)
  moreover have "rid \<noteq> None" "rid \<noteq> Some []" by (simp_all add: f1(1) SINGLETON_RUN_ID_def)
  ultimately have "m_jobs (fs_media (snd (snd (enqueue_pending_jobs env True trigger' ctx' now' (ms', db'))))) = m_jobs (fs_media db')"
    by (simp add: enqueue_pending_jobs_def run cleanup_and_process_new_posts_def ensure_jobs_for_all_posts_def l
        put_media_def reassigned_jobs)
  moreover have "\<exists>r2. fst (enqueue_pending_jobs env True trigger' ctx' now' (ms', db')) = Inr r2 \<and> er_created r2 = 0"
    by (simp add: enqueue_pending_jobs_def run cleanup_and_process_new_posts_def ensure_jobs_for_all_posts_def l)
  ultimately show ?thesis by (metis prod.collapse)
qed

theorem enqueueing_again_queues_nothing_witness:
  "\<exists>r ms' db' r2 ms2 db2. enqueue_pending_jobs (sample_manager\<lparr>me_resolve := (\<lambda>p. CHR ''/'' # dropWhile (\<lambda>c. c = CHR ''/'') p)\<rparr>) True ''a'' [] 9
      (\<lparr>mg_run = None, mg_work = False\<rparr>, sample_shelf [guid_post 1 ''a''] []) = (Inr r, ms', db') \<and>
    enqueue_pending_jobs (sample_manager\<lparr>me_resolve := (\<lambda>p. CHR ''/'' # dropWhile (\<lambda>c. c = CHR ''/'') p)\<rparr>) True ''b'' [] 12 (ms', db') =
      (Inr r2, ms2, db2) \<and> er_created r2 = 0 \<and> m_jobs (fs_media db2) = m_jobs (fs_media db')"
proof -
  let ?env = "sample_manager\<lparr>me_resolve := (\<lambda>p. CHR ''/'' # dropWhile (\<lambda>c. c = CHR ''/'') p)\<rparr>"
    and ?db = "sample_shelf [guid_post 1 ''a''] []" and ?ms = "\<lparr>mg_run = None, mg_work = False\<rparr>"
  have "me_job_ids ?env = me_job_ids sample_manager" by simp
  then have f: "fresh_ids ?env (fs_media ?db)" using sample_ids_fresh [of "[]"] by (simp add: fresh_ids_def)
  have d: "distinct (map pm_id (m_posts (fs_media ?db)))" by (simp add: sample_shelf_def)
  have idem: "dropWhile P (dropWhile P xs) = dropWhile P xs" for P and xs :: string by (induction xs) auto
  have r: "resolves ?env" by (simp add: resolves_def idem)
  obtain x ms' db' where e: "enqueue_pending_jobs ?env True ''a'' [] 9 (?ms, ?db) = (Inr x, ms', db')" by (rule enqueue_returns [OF f d])
  from enqueueing_again_queues_nothing [OF f d r e, of "''b''" "[]" 12] e show ?thesis by blast
qed

text \<open>The number reported as created counts episodes, not jobs: of episodes that two feeds carry under one
  guid each counts, and one job is created for all.\<close>

theorem created_counts_episodes_not_jobs:
  assumes "fresh_ids env (fs_media db)" and "distinct (map pm_id (m_posts (fs_media db)))"
    and "p \<in> set (waiting_posts env db)" and "q \<in> set (waiting_posts env db)" and "pm_id p \<noteq> pm_id q" and "pm_guid p = pm_guid q"
    and "enqueue_pending_jobs env answered trigger ctx now (ms, db) = (Inr r, ms', db')"
  shows "length (m_jobs (fs_media db')) < length (m_jobs (fs_media db)) + er_created r"
proof -
  from enqueue_spec [OF assms(1,2,7)] obtain new
    where e: "map job_ident (m_jobs (fs_media db')) = map job_ident (m_jobs (fs_media db) @ new)" "distinct (map post_guid new)"
    "post_guid ` set new = pm_guid ` set (waiting_posts env db)" "er_created r = length (waiting_posts env db)"
    by auto
  have "length new = card (pm_guid ` set (waiting_posts env db))"
    using distinct_card [OF e(2)] e(3) by simp
  moreover have "card (pm_guid ` set (waiting_posts env db)) < length (waiting_posts env db)"
  proof (rule ccontr)
    assume "\<not> ?thesis"
    then have "distinct (map pm_guid (waiting_posts env db))"
      using card_length [of "map pm_guid (waiting_posts env db)"] by (intro card_distinct) simp
    with assms(3-6) show False by (metis distinct_map inj_onD)
  qed
  moreover have "length (m_jobs (fs_media db')) = length (m_jobs (fs_media db)) + length new"
    using arg_cong [OF e(1), of length] by simp
  ultimately show ?thesis using e(4) by simp
qed

theorem created_counts_episodes_not_jobs_witness:
  "\<exists>r ms' db'. enqueue_pending_jobs sample_manager True ''a'' [] 9 (\<lparr>mg_run = None, mg_work = False\<rparr>,
      sample_shelf [guid_post 1 ''a'', guid_post 2 ''a''] []) = (Inr r, ms', db') \<and> length (m_jobs (fs_media db')) < er_created r"
proof -
  let ?db = "sample_shelf [guid_post 1 ''a'', guid_post 2 ''a''] []" and ?ms = "\<lparr>mg_run = None, mg_work = False\<rparr>"
  have f: "fresh_ids sample_manager (fs_media ?db)" by (rule sample_ids_fresh) simp
  have d: "distinct (map pm_id (m_posts (fs_media ?db)))" by (simp add: sample_shelf_def)
  have "guid_post 1 ''a'' \<in> set (waiting_posts sample_manager ?db)" "guid_post 2 ''a'' \<in> set (waiting_posts sample_manager ?db)"
    by (simp_all add: waiting_sample) (simp_all add: posts_without_jobs_def sample_shelf_def)
  note w = created_counts_episodes_not_jobs [OF f d this]
  obtain r ms' db' where e: "enqueue_pending_jobs sample_manager True ''a'' [] 9 (?ms, ?db) = (Inr r, ms', db')" by (rule enqueue_returns [OF f d])
  have "m_jobs (fs_media ?db) = []" by (simp add: sample_shelf_def)
  with w [OF _ _ e] e show ?thesis by auto
qed

lemma sort_key_Nil_iff: "sort_key k xs = [] \<longleftrightarrow> xs = []"
  by (cases xs) (simp_all add: insort_not_Nil)

text \<open>An episode that waits gets the worker going: after the pass that finds it the worker is woken, and if no
  job is running its next look at the queue hands out a job.\<close>

theorem a_waiting_episode_gets_the_worker_going:
  assumes "fresh_ids env (fs_media db)" and "distinct (map pm_id (m_posts (fs_media db)))" and "waiting_posts env db \<noteq> []"
    and "\<forall>j\<in>set (m_jobs (fs_media db)). status j \<noteq> ''running''"
    and "enqueue_pending_jobs env answered trigger ctx now (ms, db) = (Inr r, ms', db')"
  shows "mg_work ms' \<and> fst (dequeue_job_action (mg_run ms') now' (jobs_view (fs_media db'))) \<noteq> None"
proof -
  from enqueue_spec [OF assms(1,2,5)] obtain new
    where e: "map job_ident (m_jobs (fs_media db')) = map job_ident (m_jobs (fs_media db) @ new)" "\<forall>j\<in>set new. status j = ''pending''"
    "post_guid ` set new = pm_guid ` set (waiting_posts env db)" "0 < pending_count db' \<longrightarrow> mg_work ms'"
    by (elim exE conjE) iprover
  from e(3) assms(3) have new: "new \<noteq> []" by auto
  have "map status (m_jobs (fs_media db')) = map status (m_jobs (fs_media db) @ new)"
    using arg_cong [OF e(1), of "map (snd \<circ> snd)"] by (simp add: job_ident_def comp_def)
  then have st: "status ` set (m_jobs (fs_media db')) = status ` set (m_jobs (fs_media db) @ new)" by (metis list.set_map)
  have idle: "\<not> list_ex (\<lambda>j. status j = ''running'') (m_jobs (fs_media db'))"
  proof
    assume "list_ex (\<lambda>j. status j = ''running'') (m_jobs (fs_media db'))"
    then obtain k where "k \<in> set (m_jobs (fs_media db'))" "status k = ''running''" by (auto simp: list_ex_iff)
    then have "''running'' \<in> status ` set (m_jobs (fs_media db) @ new)" unfolding st [symmetric] by (intro image_eqI [of _ _ k]) simp_all
    then obtain l where "''running'' = status l" "l \<in> set (m_jobs (fs_media db) @ new)" by (rule imageE)
    with assms(4) e(2) show False by auto
  qed
  from new obtain k where k: "k \<in> set new" by (cases new) auto
  with e(2) have "status k = ''pending''" by blast
  then have "''pending'' \<in> status ` set (m_jobs (fs_media db'))" unfolding st using k by (intro image_eqI [of _ _ k]) simp_all
  then obtain l where "''pending'' = status l" "l \<in> set (m_jobs (fs_media db'))" by (rule imageE)
  then have p: "filter (\<lambda>j. status j = ''pending'') (m_jobs (fs_media db')) \<noteq> []" unfolding filter_empty_conv by metis
  then have "0 < pending_count db'" by (simp add: pending_count_def)
  moreover have "sort_key created_at (filter (\<lambda>j. status j = ''pending'') (m_jobs (fs_media db'))) \<noteq> []"
    using p by (simp add: sort_key_Nil_iff)
  then obtain h t where "sort_key created_at (filter (\<lambda>j. status j = ''pending'') (m_jobs (fs_media db'))) = h # t"
    by (cases "sort_key created_at (filter (\<lambda>j. status j = ''pending'') (m_jobs (fs_media db')))") simp_all
  then have "fst (dequeue_job_action (mg_run ms') now' (jobs_view (fs_media db'))) = Some (job_id h, post_guid h)"
    using idle by (simp add: dequeue_job_action_def)
  ultimately show ?thesis using e(4) by simp
qed

theorem a_waiting_episode_gets_the_worker_going_witness:
  "\<exists>r ms' db'. enqueue_pending_jobs sample_manager True ''a'' [] 9 (\<lparr>mg_run = None, mg_work = False\<rparr>,
      sample_shelf [guid_post 1 ''a''] []) = (Inr r, ms', db') \<and> mg_work ms' \<and>
    fst (dequeue_job_action (mg_run ms') 12 (jobs_view (fs_media db'))) \<noteq> None"
proof -
  let ?db = "sample_shelf [guid_post 1 ''a''] []" and ?ms = "\<lparr>mg_run = None, mg_work = False\<rparr>"
  have f: "fresh_ids sample_manager (fs_media ?db)" by (rule sample_ids_fresh) simp
  have d: "distinct (map pm_id (m_posts (fs_media ?db)))" by (simp add: sample_shelf_def)
  have w: "waiting_posts sample_manager ?db \<noteq> []"
    by (simp add: waiting_sample) (simp add: posts_without_jobs_def sample_shelf_def)
  have i: "\<forall>j\<in>set (m_jobs (fs_media ?db)). status j \<noteq> ''running''" by (simp add: sample_shelf_def)
  obtain r ms' db' where e: "enqueue_pending_jobs sample_manager True ''a'' [] 9 (?ms, ?db) = (Inr r, ms', db')" by (rule enqueue_returns [OF f d])
  from a_waiting_episode_gets_the_worker_going [OF f d w i e, of 12] e show ?thesis by blast
qed

section \<open>The scheduled refresh\<close>

text \<open>A refresh keeps the posts' rows unique and draws ids for new jobs only.\<close>

lemma insert_rows_posts_ok:
  "insert_rows (apply_post_update fid) us st = Some st' \<Longrightarrow> posts_ok (snd st) \<Longrightarrow> posts_ok (snd st')"
  by (rule apply_updates_ok)

lemma recount_leaves_feeds' [simp]: "m_jobs (recount now m) = m_jobs m" "m_posts (recount now m) = m_posts m" "m_files (recount now m) = m_files m"
  by (simp_all add: recount_def)

lemma refresh_feed_keeps:
  assumes "posts_ok (m_posts (fs_media db))"
  shows "posts_ok (m_posts (fs_media (refresh_feed env settings uuids now channel entries f db))) \<and>
    job_id ` set (m_jobs (fs_media (refresh_feed env settings uuids now channel entries f db))) \<subseteq>
      job_id ` set (m_jobs (fs_media db)) \<union> range uuids"
proof -
  obtain art news us where plan: "build_refresh_feed_payload env (should_auto_whitelist_new_posts (fst settings) (snd settings) f db) f (fs_media db)
      channel (fetched env entries) = (art, news, us)" by (metis prod_cases3)
  consider "refresh_feed env settings uuids now channel entries f db = db"
    | r db' where "refresh_feed_action uuids now (fd_id f) (art, news, us) db = Inr (r, db')"
        "refresh_feed env settings uuids now channel entries f db = db'"
  proof (cases "(art, news, us) = (None, [], []) \<or> (\<exists>e. refresh_feed_action uuids now (fd_id f) (art, news, us) db = Inl e)")
    case True
    then have "refresh_feed env settings uuids now channel entries f db = db" using plan by (auto simp: refresh_feed_def Let_def)
    then show ?thesis by (rule that(1))
  next
    case False
    then obtain r db' where "refresh_feed_action uuids now (fd_id f) (art, news, us) db = Inr (r, db')"
      by (cases "refresh_feed_action uuids now (fd_id f) (art, news, us) db") auto
    moreover from this have "refresh_feed env settings uuids now channel entries f db = db'" using False plan by (auto simp: refresh_feed_def Let_def)
    ultimately show ?thesis by (rule that(2))
  qed
  then show ?thesis
  proof cases
    case 1
    then show ?thesis using assms by simp
  next
    case (2 r db')
    have "\<exists>m k ps. create_posts uuids now (fd_id f) news (fs_media db) = Some m \<and>
        apply_existing_post_updates (fd_id f) us (m_posts m) = Some (k, ps) \<and> fs_media db' = recount now (m\<lparr>m_posts := ps\<rparr>)"
      using 2(1) by (rule refresh_feed_action_Inr) (intro exI conjI, assumption, assumption, simp)
    then obtain m k ps where c: "create_posts uuids now (fd_id f) news (fs_media db) = Some m"
      and u: "apply_existing_post_updates (fd_id f) us (m_posts m) = Some (k, ps)" and m: "fs_media db' = recount now (m\<lparr>m_posts := ps\<rparr>)"
      by blast
    obtain new where new: "posts_ok (m_posts m)" "m = (fs_media db)\<lparr>m_posts := m_posts (fs_media db) @ new,
        m_jobs := m_jobs (fs_media db) @ map (pending_job uuids now) (filter pm_whitelisted new)\<rparr>"
      using create_posts_shape [OF c assms] by blast
    have "posts_ok ps" using apply_updates_ok [OF u [unfolded apply_existing_post_updates_def]] new(1) by simp
    moreover have "m_jobs (fs_media db') = m_jobs (fs_media db) @ map (pending_job uuids now) (filter pm_whitelisted new)"
      unfolding m by (simp add: new(2))
    moreover have "m_posts (fs_media db') = ps" unfolding m by simp
    moreover have "job_id (pending_job uuids now q) \<in> range uuids" for q by (simp add: pending_job_def)
    ultimately show ?thesis unfolding 2(2) by auto
  qed
qed

lemma refresh_feeds_keep:
  assumes "refresh_feeds renv now fids db = (ok, db')" and "posts_ok (m_posts (fs_media db))"
  shows "posts_ok (m_posts (fs_media db')) \<and> job_id ` set (m_jobs (fs_media db')) \<subseteq> job_id ` set (m_jobs (fs_media db)) \<union> range (re_uuids renv)"
  using assms
proof (induction fids arbitrary: db)
  case (Cons fid fids)
  show ?case
  proof (cases "find_feed fid db")
    case None
    with Cons show ?thesis by simp
  next
    case (Some f)
    show ?thesis
    proof (cases "re_downloads renv fid")
      case None
      with Some Cons.prems show ?thesis by auto
    next
      case (Some d)
      obtain art entries where d: "d = (art, entries)" by fastforce
      let ?db = "refresh_feed (re_feed renv) (re_settings renv) (re_uuids renv) now art entries f db"
      have step: "refresh_feeds renv now fids ?db = (ok, db')" using Cons.prems(1) \<open>find_feed fid db = Some f\<close> Some d by simp
      have k: "posts_ok (m_posts (fs_media ?db))" "job_id ` set (m_jobs (fs_media ?db)) \<subseteq> job_id ` set (m_jobs (fs_media db)) \<union> range (re_uuids renv)"
        using refresh_feed_keeps [OF Cons.prems(2)] by blast+
      from Cons.IH [OF step k(1)] k(2) show ?thesis by blast
    qed
  qed
qed simp

text \<open>The cleanup keeps the ids of posts and jobs.\<close>

lemma requeue_latest_ids [simp]: "map job_id (requeue_latest now g js) = map job_id js"
proof -
  have "job_id (requeued now j) = job_id j" for j by (simp add: requeued_def)
  then have "map job_id (map (\<lambda>j. if job_id j = i then requeued now j else j) js) = map job_id js" for i by simp
  then show ?thesis by (simp add: requeue_latest_def del: map_map split: list.split)
qed

lemma check_audio_paths_ids:
  "map job_id (m_jobs (snd (check_audio_paths existing now q st))) = map job_id (m_jobs (snd st)) \<and>
   map pm_id (m_posts (snd (check_audio_paths existing now q st))) = map pm_id (m_posts (snd st))"
  by (auto simp: check_audio_paths_def modify_post_def refreshed_paths_def)

lemma cleanup_ids:
  "map job_id (m_jobs (fs_media (cleanup_inconsistent_posts env now db))) = map job_id (m_jobs (fs_media db))"
  "map pm_id (m_posts (fs_media (cleanup_inconsistent_posts env now db))) = map pm_id (m_posts (fs_media db))"
proof -
  have "map job_id (m_jobs (snd (fold (check_audio_paths existing now) qs st))) = map job_id (m_jobs (snd st)) \<and>
      map pm_id (m_posts (snd (fold (check_audio_paths existing now) qs st))) = map pm_id (m_posts (snd st))" for existing qs st
    by (induction qs arbitrary: st) (simp_all add: check_audio_paths_ids)
  then show "map job_id (m_jobs (fs_media (cleanup_inconsistent_posts env now db))) = map job_id (m_jobs (fs_media db))"
    "map pm_id (m_posts (fs_media (cleanup_inconsistent_posts env now db))) = map pm_id (m_posts (fs_media db))"
    by (simp_all add: cleanup_inconsistent_posts_def cleanup_missing_audio_paths_action_def put_media_def)
qed

text \<open>A scheduled refresh in which no feed's refresh raises ends with nothing left to queue: every whitelisted
  episode of every feed, the new ones of this refresh included, has a job or a processed file, and it never
  fails itself.\<close>

theorem nothing_waits_after_a_scheduled_refresh:
  assumes "start_refresh_all_feeds env renv answered trigger ctx now (ms, db) = (res, ms', db')" and "res \<noteq> Inl RefreshRaised"
    and "posts_ok (m_posts (fs_media db))" and "resolves env" and "inj (me_job_ids env)"
    and "range (me_job_ids env) \<inter> (job_id ` set (m_jobs (fs_media db)) \<union> range (re_uuids renv)) = {}"
  shows "waiting_posts env db' = [] \<and> (\<exists>r. res = Inr r)"
proof -
  obtain ok db1 where ref: "refresh_feeds renv now (map fd_id (fs_feeds db)) db = (ok, db1)" by fastforce
  then have ok: "ok" using assms(1,2) by (cases ok) (auto simp: start_refresh_all_feeds_def)
  from refresh_feeds_keep [OF ref assms(3)] have kept: "posts_ok (m_posts (fs_media db1))"
    "job_id ` set (m_jobs (fs_media db1)) \<subseteq> job_id ` set (m_jobs (fs_media db)) \<union> range (re_uuids renv)" by blast+
  let ?db2 = "cleanup_inconsistent_posts env now db1"
  have ids: "job_id ` set (m_jobs (fs_media ?db2)) = job_id ` set (m_jobs (fs_media db1))" using cleanup_ids(1) [of env now db1] by (metis list.set_map)
  have fresh: "fresh_ids env (fs_media ?db2)" unfolding fresh_ids_def ids using kept(2) assms(5,6) by blast
  have dist: "distinct (map pm_id (m_posts (fs_media ?db2)))" using kept(1) by (simp add: cleanup_ids(2) posts_ok_def)
  obtain r ms2 db2 where e: "enqueue_pending_jobs env answered trigger ctx now (ms, ?db2) = (Inr r, ms2, db2)"
    by (rule enqueue_returns [OF fresh dist])
  then have res: "res = Inr r" "db' = db2" using assms(1) ok by (simp_all add: start_refresh_all_feeds_def ref)
  from enqueue_spec [OF fresh dist e] obtain new where q: "map job_ident (m_jobs (fs_media db2)) = map job_ident (m_jobs (fs_media ?db2) @ new)"
    "post_guid ` set new = pm_guid ` set (waiting_posts env ?db2)" "list_all2 (recovered env ?db2) (m_posts (fs_media ?db2)) (m_posts (fs_media db2))"
    "m_files (fs_media db2) = m_files (fs_media ?db2)" "fs_feeds db2 = fs_feeds ?db2" by auto
  from nothing_waits_after_enqueueing [OF assms(4) q] res show ?thesis by simp
qed

definition slashed_manager :: manager_env where
  "slashed_manager = sample_manager\<lparr>me_resolve := (\<lambda>p. CHR ''/'' # dropWhile (\<lambda>c. c = CHR ''/'') p)\<rparr>"

lemma slashed_resolves: "resolves slashed_manager"
proof -
  have idem: "dropWhile P (dropWhile P xs) = dropWhile P xs" for P and xs :: string by (induction xs) auto
  show ?thesis by (simp add: resolves_def slashed_manager_def idem)
qed

lemma slashed_fresh:
  assumes "\<forall>j\<in>set js. job_id j \<notin> range (me_job_ids slashed_manager)"
  shows "fresh_ids slashed_manager (fs_media (sample_shelf ps js))"
  using sample_ids_fresh [of js ps] assms by (simp add: fresh_ids_def slashed_manager_def)

definition sample_refresh :: "downloads \<Rightarrow> refresh_env" where
  "sample_refresh ds = \<lparr>re_feed = plain_feed_env, re_settings = (True, False), re_uuids = (\<lambda>i. ''x''), re_downloads = ds\<rparr>"

theorem nothing_waits_after_a_scheduled_refresh_witness:
  "\<exists>res ms' db'. start_refresh_all_feeds slashed_manager (sample_refresh (\<lambda>_. Some (None, [sample_entry ''b'' ''Two'' ''http://g'']))) True ''a'' [] 9
      (\<lparr>mg_run = None, mg_work = False\<rparr>, sample_shelf [sample_stored ''a'' ''One'' ''http://f''] []) = (res, ms', db') \<and>
    waiting_posts slashed_manager db' = [] \<and> (\<exists>r. res = Inr r)"
proof -
  let ?renv = "sample_refresh (\<lambda>_. Some (None, [sample_entry ''b'' ''Two'' ''http://g'']))" and ?db = "sample_shelf [sample_stored ''a'' ''One'' ''http://f''] []"
    and ?ms = "\<lparr>mg_run = None, mg_work = False\<rparr>"
  obtain res ms' db' where e: "start_refresh_all_feeds slashed_manager ?renv True ''a'' [] 9 (?ms, ?db) = (res, ms', db')" by (metis prod_cases3)
  have "refresh_feeds ?renv 9 (map fd_id (fs_feeds ?db)) ?db = (True, snd (refresh_feeds ?renv 9 (map fd_id (fs_feeds ?db)) ?db))"
    by (simp add: sample_shelf_def sample_feed_def find_feed_def sample_refresh_def)
  then have nr: "res \<noteq> Inl RefreshRaised" using e by (auto simp: start_refresh_all_feeds_def split: prod.splits sum.splits)
  have ok: "posts_ok (m_posts (fs_media ?db))" by (simp add: sample_shelf_def posts_ok_def sample_stored_def stored_row_def)
  have inj: "inj (me_job_ids slashed_manager)" using slashed_fresh [of "[]" "[]"] by (simp add: fresh_ids_def)
  have "''x'' \<notin> range (me_job_ids slashed_manager)"
  proof
    assume "''x'' \<in> range (me_job_ids slashed_manager)"
    then obtain i where "''x'' = me_job_ids slashed_manager i" by auto
    then have "CHR ''x'' \<in> set (me_job_ids slashed_manager i)" by (metis list.set_intros(1))
    then show False by (auto simp: slashed_manager_def sample_manager_def split: if_splits)
  qed
  then have "range (me_job_ids slashed_manager) \<inter> (job_id ` set (m_jobs (fs_media ?db)) \<union> range (re_uuids ?renv)) = {}"
    by (auto simp: sample_shelf_def sample_refresh_def)
  from nothing_waits_after_a_scheduled_refresh [OF e nr ok slashed_resolves inj this] e show ?thesis by blast
qed

text \<open>A feed whose refresh raises ends the scheduled refresh of all: the feeds behind it are not refreshed, the
  cleanup does not run and nothing is enqueued, each time the schedule fires.\<close>

lemma refresh_feeds_append:
  "refresh_feeds renv now (a @ b) db = (case refresh_feeds renv now a db of (ok, db1) \<Rightarrow> if ok then refresh_feeds renv now b db1 else (ok, db1))"
  by (induction a arbitrary: db) (auto split: option.splits)

theorem one_failing_feed_ends_the_scheduled_refresh:
  assumes "map fd_id (fs_feeds db) = a @ fid # b" and "refresh_feeds renv now a db = (True, db1)" and "find_feed fid db1 \<noteq> None"
    and "re_downloads renv fid = None"
  shows "scheduled_refresh_all_feeds env renv answered now (ms, db) = (ms, db1)"
proof -
  have "refresh_feeds renv now (map fd_id (fs_feeds db)) db = (False, db1)"
    using assms(2-4) unfolding assms(1) refresh_feeds_append by auto
  then show ?thesis by (simp add: scheduled_refresh_all_feeds_def start_refresh_all_feeds_def)
qed

theorem one_failing_feed_ends_the_scheduled_refresh_witness:
  "scheduled_refresh_all_feeds sample_manager (sample_refresh (\<lambda>fid. if fid = 1 then None else Some (None, [sample_entry ''b'' ''Two'' ''http://g'']))) True 9
      (\<lparr>mg_run = None, mg_work = False\<rparr>, (sample_shelf [] [])\<lparr>fs_feeds := [sample_feed, sample_feed\<lparr>fd_id := 2\<rparr>]\<rparr>) =
    (\<lparr>mg_run = None, mg_work = False\<rparr>, (sample_shelf [] [])\<lparr>fs_feeds := [sample_feed, sample_feed\<lparr>fd_id := 2\<rparr>]\<rparr>)"
  by (rule one_failing_feed_ends_the_scheduled_refresh [where a = "[]" and fid = 1 and b = "[2]"])
    (simp_all add: sample_feed_def find_feed_def sample_refresh_def)

section \<open>The child process\<close>

lemma wait_step:
  "ch_poll c n = None \<Longrightarrow> job_status n \<noteq> Some ''cancelled'' \<Longrightarrow>
    wait_for_processing_worker ws c job_status n = wait_for_processing_worker ws c job_status (Suc n)"
  by (subst wait_for_processing_worker.simps) simp

lemma wait_until:
  assumes "\<forall>i. n \<le> i \<and> i < m \<longrightarrow> ch_poll c i = None \<and> job_status i \<noteq> Some ''cancelled''" and "n \<le> m"
  shows "wait_for_processing_worker ws c job_status n = wait_for_processing_worker ws c job_status m"
  using assms(2,1)
proof (induction rule: dec_induct)
  case (step k)
  then have "wait_for_processing_worker ws c job_status n = wait_for_processing_worker ws c job_status k" by simp
  also have "\<dots> = wait_for_processing_worker ws c job_status (Suc k)" using step by (intro wait_step) auto
  finally show ?case .
qed simp

text \<open>The wait for the child returns as soon as the child has exited or the job is cancelled: if either happens at
  the \<open>m\<close>-th look, it returns at the first such look, with the child's own code if it had exited, and otherwise
  after it terminated the child, which it kills if and only if it outlives the grace period.\<close>

theorem cancelling_ends_the_wait:
  assumes "ch_poll c m \<noteq> None \<or> job_status m = Some ''cancelled''"
  shows "\<exists>n\<le>m. (\<forall>i<n. ch_poll c i = None \<and> job_status i \<noteq> Some ''cancelled'') \<and>
    wait_for_processing_worker ws c job_status 0 = Some (n, case ch_poll c n of Some code \<Rightarrow> Exited code
      | None \<Rightarrow> if ch_exit_after c \<le> ws_grace ws then Terminated (ch_exit c) else Killed (ch_killed c))"
proof -
  let ?P = "\<lambda>i. ch_poll c i \<noteq> None \<or> job_status i = Some ''cancelled''"
  define n where "n = (LEAST i. ?P i)"
  have n: "?P n" "n \<le> m" unfolding n_def by (rule LeastI [of ?P, OF assms], rule Least_le [of ?P, OF assms])
  have below: "ch_poll c i = None \<and> job_status i \<noteq> Some ''cancelled''" if "i < n" for i
    using not_less_Least [of i ?P] that unfolding n_def by blast
  have "wait_for_processing_worker ws c job_status 0 = wait_for_processing_worker ws c job_status n"
    by (rule wait_until) (use below in auto)
  moreover have "wait_for_processing_worker ws c job_status n = Some (n, case ch_poll c n of Some code \<Rightarrow> Exited code
      | None \<Rightarrow> if ch_exit_after c \<le> ws_grace ws then Terminated (ch_exit c) else Killed (ch_killed c))"
    using n(1) by (subst wait_for_processing_worker.simps) (auto split: option.split)
  ultimately show ?thesis using n(2) below by auto
qed

theorem cancelling_ends_the_wait_witness:
  "\<exists>n. wait_for_processing_worker (wait_settings_of (\<lambda>_. None)) \<lparr>ch_poll = (\<lambda>_. None), ch_exit_after = 60, ch_exit = 0, ch_killed = - 9\<rparr>
      (\<lambda>i :: nat. if i < 3 then Some ''running'' else Some ''cancelled'') 0 = Some (n, Killed (- 9))"
proof -
  let ?c = "\<lparr>ch_poll = (\<lambda>_. None), ch_exit_after = 60, ch_exit = 0, ch_killed = - 9\<rparr>"
    and ?st = "\<lambda>i :: nat. if i < 3 then Some ''running'' else Some ''cancelled''"
  have "ch_poll ?c 3 \<noteq> None \<or> ?st 3 = Some ''cancelled''" by simp
  then have "\<exists>n\<le>3. (\<forall>i<n. ch_poll ?c i = None \<and> ?st i \<noteq> Some ''cancelled'') \<and>
      wait_for_processing_worker (wait_settings_of (\<lambda>_. None)) ?c ?st 0 = Some (n, case ch_poll ?c n of Some code \<Rightarrow> Exited code
        | None \<Rightarrow> if ch_exit_after ?c \<le> ws_grace (wait_settings_of (\<lambda>_. None)) then Terminated (ch_exit ?c) else Killed (ch_killed ?c))"
    by (rule cancelling_ends_the_wait)
  then show ?thesis by (auto simp: wait_settings_of_def env_float_def)
qed

text \<open>A job that was cancelled is not failed by the exit code of the child it had.\<close>

theorem a_killed_child_does_not_fail_its_job:
  assumes "find_job db jid = Some j" and "status j = ''cancelled''"
  shows "process_job_end jid (Some (end_code e)) now db = db"
  using assms by (auto simp: process_job_end_def fail_job_if_nonterminal_def terminal_status_def)

lemma split_on_unbroken: "c \<notin> set s \<Longrightarrow> split_on c s = [s]"
  by (induction s) auto

text \<open>The child finds the program's modules, and the rest of its environment is the parent's.\<close>

theorem the_worker_finds_the_sources:
  assumes "CHR '':'' \<notin> set src_root" and "src_root \<noteq> []"
  shows "(\<exists>path. processing_worker_env src_root environ ''PYTHONPATH'' = Some path \<and> src_root \<in> set (split_on CHR '':'' path)) \<and>
    (\<forall>v. v \<noteq> ''PYTHONPATH'' \<longrightarrow> processing_worker_env src_root environ v = environ v)"
  using assms by (auto simp: processing_worker_env_def split_on_append split_on_unbroken split: option.split)
end
