(* ===== verification/Spec2Isabelle.thy ===== *)
theory Spec2Isabelle
  imports AudioWindows AdMerge AdPlan AudioCut Chapters DescChapters RepeatAds Profanity Cues ModelOutput Boundary
    JobStore JobLifecycle JobsSystem RateLimits Auth Accounts Writer WriterClient PostStore ClassifierChunks LlmCalls Classifier ClassifierPasses Retention WordBoundary ProcessorParts Processor FallbackChapters TopicPlan FeedViews
    JobsManager
begin

text \<open>
  A model of Podly, a server that downloads podcast episodes, has a language model find the
  advertisements in their transcripts, and serves the episodes without them.  All paths below
  are under \<open>src/\<close> of the repository.

  \<^bold>\<open>The program.\<close>  A web process (Flask routes, background threads) and worker processes share one
  SQLite database.  Every write goes to a single writer (\<open>app/writer\<close>), which executes commands
  from a queue, one transaction each: row operations, or named actions.  The jobs manager
  (\<open>app/jobs_manager.py\<close>, \<open>app/job_manager.py\<close>) enqueues an episode, takes the oldest pending
  job, runs it in a child process (\<open>app/processing_worker.py\<close>) and settles its row.  The child
  transcribes the episode, asks a model about chunks of the transcript, refines and merges
  what the model marks, turns it into windows of audio, cuts or bleeps the file with ffmpeg,
  and writes chapters (\<open>podcast_processor\<close>).  Readers fetch feeds and episodes with a session
  or with a feed token (\<open>app/auth\<close>).

  \<^bold>\<open>Theories.\<close>  Library: \<open>Prelude\<close> (time windows and their merge, Python's rounding),
  \<open>PyString\<close> (ASCII strings), \<open>PyLines\<close> (their lines), \<open>PyRegex\<close> (a backtracking matcher of regular expressions, proved
  sound and complete), \<open>PyJson\<close> (JSON values and their conversions), \<open>WindowMerge\<close> (the locales of
  window-merging routines, interpreted by each of the program's own merges).
  Audio: \<open>AudioWindows\<close> (\<open>shared/audio_segment_utils.py\<close>), \<open>AdMerge\<close> (\<open>ad_merger.py\<close>), \<open>AudioProc\<close>
  and \<open>AdPlan\<close> (\<open>audio_processor.py\<close>: reading the ads of a post; the plan of the cut), \<open>AudioCut\<close>
  (\<open>audio.py\<close>: cutting, fading, bleeping, splitting), \<open>Profanity\<close> (\<open>profanity_filter.py\<close>).
  Chapters: \<open>Chapters\<close> (\<open>chapter_reader.py\<close>, \<open>chapter_filter.py\<close>, \<open>chapter_ad_detector.py\<close>,
  \<open>chapter_writer.py\<close>), \<open>DescChapters\<close> (\<open>description_chapter_parser.py\<close>), \<open>FallbackChapters\<close> and
  \<open>TopicPlan\<close> (\<open>chapter_fallback.py\<close>: chapters from the transcript's times and their refinement; the
  blocks shown to the model, its plan, the continuation, anchors and titles).
  Finding ads: \<open>Cues\<close> (\<open>cue_detector.py\<close>), \<open>ClassifierChunks\<close>, \<open>Classifier\<close> and \<open>ClassifierPasses\<close>
  (\<open>ad_classifier.py\<close>: the walk over the transcript, a chunk's call and its identifications, the passes
  after it), \<open>LlmCalls\<close> (\<open>llm_model_call_utils.py\<close>, \<open>llm_error_classifier.py\<close>: retries and service
  tiers), \<open>ModelOutput\<close> (\<open>model_output.py\<close>), \<open>Boundary\<close> (\<open>boundary_refiner.py\<close>), \<open>WordBoundary\<close>
  (\<open>word_boundary_refiner.py\<close>), \<open>RepeatAds\<close> (\<open>repeat_ad_finder.py\<close>).
  Episodes: \<open>ProcessorParts\<close> (\<open>shared/processing_paths.py\<close>, what a run stores and reads back),
  \<open>Processor\<close> (\<open>podcast_processor.py\<close>: a run of a job from the download to the published file, as a
  composition of steps that may raise; its strategies, locks, retry and failure handling),
  \<open>Retention\<close> (\<open>app/post_cleanup.py\<close>: pruning processed episodes).
  Jobs: \<open>JobStore\<close> (the rows and the actions of \<open>app/writer/actions/jobs.py\<close>, the run's counters),
  \<open>JobLifecycle\<close> (\<open>processing_status_manager.py\<close>, \<open>app/job_manager.py\<close>; a locale of job writers,
  interpreted by the actions), \<open>JobsSystem\<close> (the manager, its supervisor and the worker as a step
  relation), \<open>JobsManager\<close> (the public side of \<open>app/jobs_manager.py\<close>: reports, requests that enqueue, the
  scheduled refresh, the wait for the child).
  Writer: \<open>WriterSession\<close> (\<open>protocol.py\<close>, \<open>model_ops.py\<close>: commands, the session), \<open>ConfigStore\<close>
  (\<open>app/config_store.py\<close>: the stored settings, whose sections are committed one by one), \<open>Writer\<close>
  (\<open>executor.py\<close>, \<open>batching.py\<close>, the loop of \<open>service.py\<close>, the client's local fallback), \<open>WriterClient\<close> (\<open>client.py\<close>: the wait for a reply, the HTTP protocol),
  \<open>PostStore\<close> (the tables of an episode: \<open>actions/processor.py\<close>, \<open>actions/cleanup.py\<close>).
  Feeds: \<open>Feeds\<close> (\<open>app/feeds.py\<close>, \<open>actions/feeds.py\<close>: what an entry gives, what a refresh plans and
  applies, adding and deleting a feed, the allowance of a user), \<open>FeedViews\<close> (\<open>app/feeds.py\<close>: which
  episodes a served feed lists and the text of an item).
  Access: \<open>RateLimits\<close> (token, concurrency and login limiters), \<open>Auth\<close> (the middleware, feed tokens,
  guards), \<open>Accounts\<close> (users and their actions).

  \<^bold>\<open>State and operations.\<close>  A table is a list of rows and a row is a record with the columns the code
  uses; a query that takes the first row takes the first in the list after a stable sort.
  Objects with mutable state (limiters, the jobs manager, a session) are records that the operations
  return updated.  An operation has the name of the function it models; a loop is a recursive
  function next to it.  What raises returns \<open>Inl\<close> of an error, or \<open>None\<close>, and the database is as it was,
  because the writer rolls back.  The clock, random bytes, hashes, file probes, ffmpeg, mutagen, the
  language model's replies, \<open>html.unescape\<close>, \<open>json.loads\<close>, the mapper, the native sidecar and the
  environment are arguments.

  \<^bold>\<open>Numbers, strings, fuel.\<close>  Python's integers are \<open>int\<close> (milliseconds) or \<open>nat\<close>; float seconds are
  exact reals, so rounding errors of binary floats, infinities and NaN are outside the model;
  datetimes are integers (microseconds in the
  login limiter, seconds elsewhere).  Strings are lists of characters, read as ASCII.
  Only the regular-expression search uses fuel, the length of the text plus one, which
  \<open>PyRegex\<close> proves sufficient; two loops that need not end for every input are partial functions and
  are proved to return (\<open>RepeatAds\<close>, \<open>Accounts\<close>); all other recursions have termination proofs.

  \<^bold>\<open>What is shown.\<close>  For the audio: which instants are cut, kept or bleeped, and that what is
  recorded is what was done.  For chapters: that they are well-formed timelines and move with the
  cut, and that written tags read back.  For jobs: which job is taken, that one runs at a time
  in every reachable state, that a crash frees the queue, that cancelled stays cancelled.
  For the writer: that a command which does not update the settings is atomic, that commands are serialised,
  that the client reports what the writer answered about the very command, and that both executors agree; that
  the references between an episode's tables stay valid under every sequence of classifier runs and of
  actions that do not insert identifications or delete calls by model, and what clearing and rewriting do.  For the classifier: that every
  segment is in a processed chunk, that a call leaves its outcome in its row and sends boundedly many
  requests, what its predictions and refinements mark, and that the store stays consistent.  For a run:
  that it settles its job, which locks it leaves, that a failed classification ends it before anything is cut,
  that it keeps the source file for a retry only, and that a retry happens once; for retention, what is pruned
  and what survives, whichever files the episodes share.  For feeds: what a refresh queues, under which conditions
  a second one changes nothing, what deleting removes, and which episodes a reader is served.  For the
  manager: which jobs a request creates, and that nothing waits after a refresh in which no feed failed.  For access: who passes the guard,
  that tokens open what they were issued for, that an administrator remains, what the limiters admit.
  Some properties show what the code does against its intention (each is a finding of
  the manifest).

  \<^bold>\<open>Not modelled.\<close>  The routes' request parsing and rendering, the wording of prompts, the download of
  feeds and episodes, the transcription services, the native sidecar and the Rust writer,
  the overrides of the configuration by the environment, billing, notifications and the explanation of failures, prices of
  models, migrations, scripts and the web client: they are input and output, calls of third-party
  code, or tables of constants.  Where a modelled part calls one of them, it is an argument of the
  definitions (the sidecar's answers, the rendered prompt, what a provider replies, what ffmpeg writes).
\<close>

end
